(* ===== verification/Prelude.thy ===== *)
theory Prelude
  imports Main "HOL-Library.Word" "HOL-Library.Signed_Division"
begin

text \<open>
  Shared vocabulary of the development: machine types, the faults a C++ statement can run
  into, a state monad with faults in which the operations are written, its weakest
  preconditions, checked arrays, flat byte memory, and \<^verbatim>\<open>std::map\<close> / \<^verbatim>\<open>std::set\<close> as key-ordered
  lists together with the locale that states their contract.
\<close>

unbundle bit_operations_syntax

section \<open>Machine types, status codes and faults\<close>

type_synonym byte = "8 word"

text \<open>
  An \<^verbatim>\<open>int32_t\<close> that is only compared and counted is an \<open>int\<close>; where the width matters (the
  message head, the frame clock) it is a 32 bit word or is cut to 32 bits explicitly.
\<close>

type_synonym int32 = int

text \<open>A statement whose behaviour C++ leaves undefined, or that aborts, ends in a fault.\<close>

datatype fault =
    NullDeref          \<comment> \<open>a member access through a null pointer\<close>
  | OutOfBounds        \<comment> \<open>a read or write outside an array\<close>
  | IntOverflow        \<comment> \<open>a signed operation whose result its type cannot hold\<close>
  | AssertFail         \<comment> \<open>a failing \<open>assert\<close>\<close>
  | UninitRead         \<comment> \<open>a read of a member no constructor or assignment has set\<close>
  | DanglingIter       \<comment> \<open>use of an iterator whose element was erased\<close>
  | OutOfFuel          \<comment> \<open>only of the model: the recursion bound was too small\<close>

definition success :: int32 where "success = 0"

definition fail :: int32 where "fail = 1"

definition err :: int32 where "err = -1"

lemmas status_defs = success_def fail_def err_def

lemma status_distinct [simp]:
  "success \<noteq> fail" "fail \<noteq> success" "success \<noteq> err" "err \<noteq> success" "fail \<noteq> err" "err \<noteq> fail"
  by (simp_all add: status_defs)

text \<open>The conversion of a wider integer to \<^verbatim>\<open>int32_t\<close>: the low 32 bits, read in two's complement.\<close>

definition to_int32 :: "int \<Rightarrow> int32" where
  "to_int32 x = signed_take_bit 31 x"

lemma to_int32_id: "- (2 ^ 31) \<le> x \<Longrightarrow> x < 2 ^ 31 \<Longrightarrow> to_int32 x = x"
  by (simp add: to_int32_def signed_take_bit_int_eq_self)

lemma to_int32_range: "- (2 ^ 31) \<le> to_int32 x" "to_int32 x < 2 ^ 31"
  using signed_take_bit_int_greater_eq_minus_exp [of 31 x]
    signed_take_bit_int_less_exp [of 31 x]
  by (simp_all add: to_int32_def)

section \<open>A state monad with faults\<close>

type_synonym ('s, 'a) mon = "'s \<Rightarrow> fault + 'a \<times> 's"

definition mreturn :: "'a \<Rightarrow> ('s, 'a) mon" where
  "mreturn x = (\<lambda>s. Inr (x, s))"

definition mfault :: "fault \<Rightarrow> ('s, 'a) mon" where
  "mfault e = (\<lambda>s. Inl e)"

definition mbind :: "('s, 'a) mon \<Rightarrow> ('a \<Rightarrow> ('s, 'b) mon) \<Rightarrow> ('s, 'b) mon" where
  "mbind m k = (\<lambda>s. case m s of Inl e \<Rightarrow> Inl e | Inr (x, s') \<Rightarrow> k x s')"

definition mseq :: "('s, 'a) mon \<Rightarrow> ('s, 'b) mon \<Rightarrow> ('s, 'b) mon" where
  "mseq m k = mbind m (\<lambda>_. k)"

definition mgets :: "('s \<Rightarrow> 'a) \<Rightarrow> ('s, 'a) mon" where
  "mgets f = (\<lambda>s. Inr (f s, s))"

definition mmodify :: "('s \<Rightarrow> 's) \<Rightarrow> ('s, unit) mon" where
  "mmodify f = (\<lambda>s. Inr ((), f s))"

text \<open>A fallible pure computation, run without touching the state.\<close>

definition mlift :: "fault + 'a \<Rightarrow> ('s, 'a) mon" where
  "mlift r = (\<lambda>s. case r of Inl e \<Rightarrow> Inl e | Inr x \<Rightarrow> Inr (x, s))"

text \<open>Running a computation on a part of the state.\<close>

definition mzoom :: "('s \<Rightarrow> 't) \<Rightarrow> ('t \<Rightarrow> 's \<Rightarrow> 's) \<Rightarrow> ('t, 'a) mon \<Rightarrow> ('s, 'a) mon" where
  "mzoom get put m = (\<lambda>s. case m (get s) of Inl e \<Rightarrow> Inl e | Inr (x, t) \<Rightarrow> Inr (x, put t s))"

lemmas mon_defs = mreturn_def mfault_def mbind_def mseq_def mgets_def mmodify_def mlift_def
  mzoom_def

named_theorems run_simps \<open>evaluation of the monad's combinators at a state\<close>

lemma mreturn_run [run_simps]: "mreturn x s = Inr (x, s)"
  by (simp add: mreturn_def)

lemma mfault_run [run_simps]: "mfault e s = Inl e"
  by (simp add: mfault_def)

lemma mgets_run [run_simps]: "mgets f s = Inr (f s, s)"
  by (simp add: mgets_def)

lemma mmodify_run [run_simps]: "mmodify f s = Inr ((), f s)"
  by (simp add: mmodify_def)

lemma mbind_run [run_simps]:
  "mbind m k s = (case m s of Inl e \<Rightarrow> Inl e | Inr (x, s') \<Rightarrow> k x s')"
  by (simp add: mbind_def)

lemma mseq_run [run_simps]: "mseq m k s = (case m s of Inl e \<Rightarrow> Inl e | Inr (x, s') \<Rightarrow> k s')"
  by (simp add: mseq_def mbind_def)

lemma mlift_run [run_simps]: "mlift r s = (case r of Inl e \<Rightarrow> Inl e | Inr x \<Rightarrow> Inr (x, s))"
  by (simp add: mlift_def)

lemma mzoom_run [run_simps]:
  "mzoom get put m s = (case m (get s) of Inl e \<Rightarrow> Inl e | Inr (x, t) \<Rightarrow> Inr (x, put t s))"
  by (simp add: mzoom_def)

subsection \<open>Weakest preconditions\<close>

text \<open>
  \<open>mwp m Q E s\<close>: run from \<open>s\<close>, the computation \<open>m\<close> either returns with a result and a state
  that satisfy \<open>Q\<close>, or ends in a fault that satisfies \<open>E\<close>. With \<open>E\<close> false it is total
  correctness.
\<close>

definition mwp :: "('s, 'a) mon \<Rightarrow> ('a \<Rightarrow> 's \<Rightarrow> bool) \<Rightarrow> (fault \<Rightarrow> bool) \<Rightarrow> 's \<Rightarrow> bool" where
  "mwp m Q E s = (case m s of Inl e \<Rightarrow> E e | Inr (x, s') \<Rightarrow> Q x s')"

named_theorems wp_simps \<open>weakest preconditions of the monad's combinators\<close>

lemma mwp_return [wp_simps]: "mwp (mreturn x) Q E s = Q x s"
  by (simp add: mwp_def run_simps)

lemma mwp_return_fun [wp_simps]: "mwp (mreturn x) Q E = Q x"
  by (rule ext) (simp add: mwp_return)

lemma mwp_fault [wp_simps]: "mwp (mfault e) Q E s = E e"
  by (simp add: mwp_def run_simps)

lemma mwp_gets [wp_simps]: "mwp (mgets f) Q E s = Q (f s) s"
  by (simp add: mwp_def run_simps)

lemma mwp_modify [wp_simps]: "mwp (mmodify f) Q E s = Q () (f s)"
  by (simp add: mwp_def run_simps)

lemma mwp_bind [wp_simps]: "mwp (mbind m k) Q E s = mwp m (\<lambda>x. mwp (k x) Q E) E s"
  by (simp add: mwp_def run_simps split: sum.split)

lemma mwp_seq [wp_simps]: "mwp (mseq m k) Q E s = mwp m (\<lambda>_. mwp k Q E) E s"
  by (simp add: mseq_def mwp_bind)

lemma mwp_lift [wp_simps]:
  "mwp (mlift r) Q E s = (case r of Inl e \<Rightarrow> E e | Inr x \<Rightarrow> Q x s)"
  by (simp add: mwp_def run_simps split: sum.split)

lemma mwp_zoom [wp_simps]:
  "mwp (mzoom get put m) Q E s = mwp m (\<lambda>x t. Q x (put t s)) E (get s)"
  by (simp add: mwp_def run_simps split: sum.split)

lemma mwp_if [wp_simps]:
  "mwp (if b then m else n) Q E s = (if b then mwp m Q E s else mwp n Q E s)"
  by simp

lemma mwp_mono:
  assumes "mwp m Q E s" and "\<And>x s'. Q x s' \<Longrightarrow> Q' x s'" and "\<And>e. E e \<Longrightarrow> E' e"
  shows "mwp m Q' E' s"
  using assms by (auto simp: mwp_def split: sum.splits)

lemma mwp_conj:
  "mwp m Q E s \<Longrightarrow> mwp m Q' E s \<Longrightarrow> mwp m (\<lambda>x s'. Q x s' \<and> Q' x s') E s"
  by (auto simp: mwp_def split: sum.splits)

lemma mwpD: "mwp m Q E s \<Longrightarrow> m s = Inr (x, s') \<Longrightarrow> Q x s'"
  by (simp add: mwp_def)

lemma mwpI: "(\<And>x s'. m s = Inr (x, s') \<Longrightarrow> Q x s') \<Longrightarrow> (\<And>e. m s = Inl e \<Longrightarrow> E e) \<Longrightarrow> mwp m Q E s"
  by (auto simp: mwp_def split: sum.split)

lemma mwp_total: "mwp m Q (\<lambda>_. False) s \<longleftrightarrow> (\<exists>x s'. m s = Inr (x, s') \<and> Q x s')"
  by (auto simp: mwp_def split: sum.split)

section \<open>Checked arrays and flat memory\<close>

text \<open>Element access of a C array: out of range is a fault, never an unspecified value.\<close>

definition arr_get :: "'a list \<Rightarrow> int \<Rightarrow> fault + 'a" where
  "arr_get xs i = (if 0 \<le> i \<and> i < int (length xs) then Inr (xs ! nat i) else Inl OutOfBounds)"

definition arr_set :: "'a list \<Rightarrow> int \<Rightarrow> 'a \<Rightarrow> fault + 'a list" where
  "arr_set xs i v =
     (if 0 \<le> i \<and> i < int (length xs) then Inr (xs[nat i := v]) else Inl OutOfBounds)"

lemma arr_get_ok [simp]: "0 \<le> i \<Longrightarrow> i < int (length xs) \<Longrightarrow> arr_get xs i = Inr (xs ! nat i)"
  by (simp add: arr_get_def)

lemma arr_set_ok [simp]: "0 \<le> i \<Longrightarrow> i < int (length xs) \<Longrightarrow> arr_set xs i v = Inr (xs[nat i := v])"
  by (simp add: arr_set_def)

text \<open>
  \<open>mem_read buf off n\<close> is the \<open>n\<close> bytes from \<open>off\<close>, \<open>mem_write buf off data\<close> the buffer after
  \<^verbatim>\<open>memcpy(&buf[off], data, n)\<close>. Both fault when the range leaves the buffer.
\<close>

definition mem_read :: "byte list \<Rightarrow> int \<Rightarrow> int \<Rightarrow> fault + byte list" where
  "mem_read buf off n =
     (if 0 \<le> off \<and> 0 \<le> n \<and> off + n \<le> int (length buf)
      then Inr (take (nat n) (drop (nat off) buf)) else Inl OutOfBounds)"

definition mem_write :: "byte list \<Rightarrow> int \<Rightarrow> byte list \<Rightarrow> fault + byte list" where
  "mem_write buf off data =
     (if 0 \<le> off \<and> off + int (length data) \<le> int (length buf)
      then Inr (take (nat off) buf @ data @ drop (nat off + length data) buf)
      else Inl OutOfBounds)"

lemma mem_write_length: "mem_write buf off data = Inr buf' \<Longrightarrow> length buf' = length buf"
  by (auto simp: mem_write_def split: if_splits)

lemma mem_read_write_same:
  "mem_write buf off data = Inr buf' \<Longrightarrow> mem_read buf' off (int (length data)) = Inr data"
  by (auto simp: mem_write_def mem_read_def split: if_splits)

section \<open>Ordered maps and sets of the C++ library\<close>

text \<open>
  A \<^verbatim>\<open>std::map\<close> is the list of its entries in key order, which is also its iteration order.
\<close>

type_synonym ('k, 'v) stdmap = "('k \<times> 'v) list"

definition m_empty :: "('k, 'v) stdmap" where
  "m_empty = []"

definition m_find :: "('k, 'v) stdmap \<Rightarrow> 'k \<Rightarrow> 'v option" where
  "m_find m k = map_of m k"

fun m_insert :: "('k::linorder, 'v) stdmap \<Rightarrow> 'k \<Rightarrow> 'v \<Rightarrow> ('k, 'v) stdmap" where
  "m_insert [] k v = [(k, v)]"
| "m_insert ((k', v') # m) k v =
     (if k < k' then (k, v) # (k', v') # m
      else if k = k' then (k, v) # m
      else (k', v') # m_insert m k v)"

definition m_erase :: "('k, 'v) stdmap \<Rightarrow> 'k \<Rightarrow> ('k, 'v) stdmap" where
  "m_erase m k = filter (\<lambda>e. fst e \<noteq> k) m"

definition m_ok :: "('k::linorder, 'v) stdmap \<Rightarrow> bool" where
  "m_ok m = sorted_wrt (<) (map fst m)"

text \<open>The contract of a finite map: what a lookup returns after each operation, and size.\<close>

locale std_map =
  fixes empty :: 'm
    and find :: "'m \<Rightarrow> 'k \<Rightarrow> 'v option"
    and insert :: "'m \<Rightarrow> 'k \<Rightarrow> 'v \<Rightarrow> 'm"
    and erase :: "'m \<Rightarrow> 'k \<Rightarrow> 'm"
    and size :: "'m \<Rightarrow> nat"
    and wf :: "'m \<Rightarrow> bool"
  assumes find_empty: "find empty k = None"
    and find_insert: "find (insert m k v) = (find m)(k \<mapsto> v)"
    and find_erase: "find (erase m k) = (find m)(k := None)"
    and size_card: "wf m \<Longrightarrow> size m = card (dom (find m)) \<and> finite (dom (find m))"
    and wf_empty: "wf empty"
    and wf_insert: "wf m \<Longrightarrow> wf (insert m k v)"
    and wf_erase: "wf m \<Longrightarrow> wf (erase m k)"
begin

lemma find_insert_same: "find (insert m k v) k = Some v"
  by (simp add: find_insert)

lemma find_insert_other: "k' \<noteq> k \<Longrightarrow> find (insert m k v) k' = find m k'"
  by (simp add: find_insert)

lemma find_erase_same: "find (erase m k) k = None"
  by (simp add: find_erase)

lemma insert_erase: "find (erase (insert m k v) k) = find (erase m k)"
  by (simp add: find_insert find_erase)

lemma size_insert_new: "wf m \<Longrightarrow> find m k = None \<Longrightarrow> size (insert m k v) = Suc (size m)"
  using size_card [of m] size_card [of "insert m k v"] wf_insert [of m k v]
  by (simp add: find_insert domIff)

lemma size_erase_present: "wf m \<Longrightarrow> find m k = Some v \<Longrightarrow> Suc (size (erase m k)) = size m"
  using size_card [of m] size_card [of "erase m k"] wf_erase [of m k]
    card_gt_0_iff [of "dom (find m)"] domI [of "find m" k v]
  by (auto simp: find_erase)

end

lemma m_find_insert_eq: "m_find (m_insert m k v) = (m_find m)(k \<mapsto> v)"
proof
  fix x
  show "m_find (m_insert m k v) x = ((m_find m)(k \<mapsto> v)) x"
    by (induction m k v rule: m_insert.induct) (auto simp: m_find_def)
qed

lemma m_find_erase_eq: "m_find (m_erase m k) = (m_find m)(k := None)"
proof
  fix x
  show "m_find (m_erase m k) x = ((m_find m)(k := None)) x"
    by (induction m) (auto simp: m_find_def m_erase_def)
qed

lemma keys_m_insert: "set (map fst (m_insert m k v)) = insert k (set (map fst m))"
  by (induction m k v rule: m_insert.induct) auto

lemma m_ok_insert: "m_ok m \<Longrightarrow> m_ok (m_insert m k v)"
proof (induction m k v rule: m_insert.induct)
  case (1 k v)
  then show ?case by (simp add: m_ok_def)
next
  case (2 k' v' m k v)
  then show ?case
    using keys_m_insert [of m k v] by (auto simp: m_ok_def)
qed

lemma m_ok_erase: "m_ok m \<Longrightarrow> m_ok (m_erase m k)"
  by (induction m) (auto simp: m_ok_def m_erase_def)

lemma m_ok_distinct: "m_ok m \<Longrightarrow> distinct (map fst m)"
  by (simp add: m_ok_def strict_sorted_iff)

interpretation cmap: std_map m_empty m_find m_insert m_erase length m_ok
proof
  show "m_find m_empty k = None" for k :: "'a::linorder"
    by (simp add: m_find_def m_empty_def)
  show "length m = card (dom (m_find m)) \<and> finite (dom (m_find m))"
    if "m_ok m" for m :: "('a::linorder, 'b) stdmap"
  proof -
    have "m_find m = map_of m"
      by (simp add: m_find_def fun_eq_iff)
    then have "dom (m_find m) = fst ` set m"
      by (simp add: dom_map_of_conv_image_fst)
    then show ?thesis
      using m_ok_distinct [OF that] distinct_card [of "map fst m"] by simp
  qed
  show "m_ok (m_empty :: ('a::linorder, 'b) stdmap)"
    by (simp add: m_ok_def m_empty_def)
qed (rule m_find_insert_eq m_find_erase_eq m_ok_insert m_ok_erase; assumption?)+

lemmas m_find_simps [simp] = cmap.find_empty cmap.find_insert cmap.find_erase
lemmas m_wf [simp, intro] = cmap.wf_empty cmap.wf_insert cmap.wf_erase

text \<open>Erasing never adds entries, and an erased key was present exactly when the size drops.\<close>

lemma length_m_erase_le: "length (m_erase m k) \<le> length m"
  by (simp add: m_erase_def)

lemma length_m_erase_less: "m_find m k = Some v \<Longrightarrow> length (m_erase m k) < length m"
  by (auto simp: m_find_def m_erase_def dest!: map_of_SomeD intro: length_filter_less)

lemma m_find_in_set: "m_find m k = Some v \<Longrightarrow> (k, v) \<in> set m"
  by (simp add: m_find_def map_of_SomeD)

lemma m_in_set_find: "m_ok m \<Longrightarrow> (k, v) \<in> set m \<Longrightarrow> m_find m k = Some v"
  by (simp add: m_find_def m_ok_distinct)

lemma m_erase_absent: "m_find m k = None \<Longrightarrow> m_erase m k = m"
  by (induction m) (auto simp: m_find_def m_erase_def split: if_splits)

text \<open>
  Writing through the pointer (or reference) an entry holds: the key is there already, nothing is
  inserted.
\<close>

definition m_update :: "('k, 'v) stdmap \<Rightarrow> 'k \<Rightarrow> 'v \<Rightarrow> ('k, 'v) stdmap" where
  "m_update m k v = map (\<lambda>e. if fst e = k then (k, v) else e) m"

lemma keys_m_update [simp]: "map fst (m_update m k v) = map fst m"
  by (simp add: m_update_def)

lemma m_ok_update [simp]: "m_ok (m_update m k v) = m_ok m"
  by (simp add: m_ok_def)

lemma length_m_update [simp]: "length (m_update m k v) = length m"
  by (simp add: m_update_def)

lemma m_find_update:
  "m_find (m_update m k v) = (\<lambda>x. if x = k \<and> m_find m k \<noteq> None then Some v else m_find m x)"
proof
  fix x
  show "m_find (m_update m k v) x = (if x = k \<and> m_find m k \<noteq> None then Some v else m_find m x)"
    by (induction m) (auto simp: m_find_def m_update_def)
qed

text \<open>A \<^verbatim>\<open>std::set\<close> is the ordered list of its elements.\<close>

fun s_insert :: "'a::linorder list \<Rightarrow> 'a \<Rightarrow> 'a list" where
  "s_insert [] x = [x]"
| "s_insert (y # s) x = (if x < y then x # y # s else if x = y then y # s else y # s_insert s x)"

definition s_erase :: "'a list \<Rightarrow> 'a \<Rightarrow> 'a list" where
  "s_erase s x = filter (\<lambda>y. y \<noteq> x) s"

lemma set_s_insert [simp]: "set (s_insert s x) = insert x (set s)"
  by (induction s x rule: s_insert.induct) auto

lemma set_s_erase [simp]: "set (s_erase s x) = set s - {x}"
  by (auto simp: s_erase_def)

lemma sorted_s_insert: "sorted_wrt (<) s \<Longrightarrow> sorted_wrt (<) (s_insert s x)"
  by (induction s x rule: s_insert.induct) auto

lemma sorted_s_erase: "sorted_wrt (<) s \<Longrightarrow> sorted_wrt (<) (s_erase s x)"
  by (induction s) (auto simp: s_erase_def)

end
