(* ===== verification/Os_Env.thy ===== *)
theory Os_Env
  imports Prelude
begin

text \<open>
  The operating system as the server sees it. It is not part of the repository, so every
  answer of a system call is a parameter: the \<open>n\<close>-th call of a kind gets the \<open>n\<close>-th answer of
  an arbitrary script. What the process does to the outside world is recorded in a trace.
  The time functions of \<^verbatim>\<open>Include/server_base.cpp\<close> and the helper \<^verbatim>\<open>set_non_block\<close> of
  \<^verbatim>\<open>Include/server_socket.cpp\<close> are defined on top of it.
\<close>

section \<open>Answers and effects\<close>

datatype send_reply =
    SendSome nat    \<comment> \<open>at least one byte is accepted: one more than the number, or all\<close>
  | SendAgain       \<comment> \<open>-1 with \<open>errno = EAGAIN\<close>\<close>
  | SendBroken      \<comment> \<open>-1 with another \<open>errno\<close>\<close>

datatype recv_reply =
    RecvSome byte "byte list"   \<comment> \<open>at least one byte is delivered, at most as many as asked for\<close>
  | RecvClosed                  \<comment> \<open>0: the peer has closed the connection\<close>
  | RecvAgain
  | RecvBroken

datatype os_event =
    EvSend int32 "byte list"    \<comment> \<open>the kernel took these bytes for the descriptor\<close>
  | EvRecv int32 "byte list"    \<comment> \<open>the kernel delivered these bytes from the descriptor\<close>
  | EvClose int32
  | EvEpollAdd int32
  | EvEpollDel int32

record os =
  os_time :: "nat \<Rightarrow> int \<times> int"       \<comment> \<open>\<open>tv_sec\<close> and \<open>tv_usec\<close> of the n-th \<open>gettimeofday\<close>\<close>
  os_time_pos :: nat
  os_send :: "nat \<Rightarrow> send_reply"
  os_send_pos :: nat
  os_recv :: "nat \<Rightarrow> recv_reply"
  os_recv_pos :: nat
  os_call :: "nat \<Rightarrow> int32"             \<comment> \<open>results of \<open>socket\<close>, \<open>bind\<close>, \<open>accept\<close>, \<open>fcntl\<close>, \<open>rand\<close>, ...\<close>
  os_call_pos :: nat
  os_trace :: "os_event list"

section \<open>System calls\<close>

definition sys_gettimeofday :: "(os, int \<times> int) mon" where
  "sys_gettimeofday o1 = Inr (os_time o1 (os_time_pos o1), o1\<lparr>os_time_pos := Suc (os_time_pos o1)\<rparr>)"

definition sys_call :: "(os, int32) mon" where
  "sys_call o1 = Inr (os_call o1 (os_call_pos o1), o1\<lparr>os_call_pos := Suc (os_call_pos o1)\<rparr>)"

definition sys_event :: "os_event \<Rightarrow> (os, unit) mon" where
  "sys_event e = mmodify (\<lambda>o1. o1\<lparr>os_trace := os_trace o1 @ [e]\<rparr>)"

text \<open>
  \<^verbatim>\<open>send\<close> of a non-empty range: the number of bytes taken, and whether \<^verbatim>\<open>errno\<close> is \<^verbatim>\<open>EAGAIN\<close> when
  the result is negative.
\<close>

definition sys_send :: "int32 \<Rightarrow> byte list \<Rightarrow> (os, int32 \<times> bool) mon" where
  "sys_send fd data o1 =
     (let o2 = o1\<lparr>os_send_pos := Suc (os_send_pos o1)\<rparr> in
      case os_send o1 (os_send_pos o1) of
        SendSome k \<Rightarrow>
          let n = min (Suc k) (length data) in
          Inr ((int n, False), o2\<lparr>os_trace := os_trace o1 @ [EvSend fd (take n data)]\<rparr>)
      | SendAgain \<Rightarrow> Inr ((-1, True), o2)
      | SendBroken \<Rightarrow> Inr ((-1, False), o2))"

text \<open>\<^verbatim>\<open>recv\<close>: the result, the bytes it stored, and whether \<^verbatim>\<open>errno\<close> is \<^verbatim>\<open>EAGAIN\<close>.\<close>

definition sys_recv :: "int32 \<Rightarrow> int32 \<Rightarrow> (os, int32 \<times> byte list \<times> bool) mon" where
  "sys_recv fd len o1 =
     (let o2 = o1\<lparr>os_recv_pos := Suc (os_recv_pos o1)\<rparr> in
      case os_recv o1 (os_recv_pos o1) of
        RecvSome b bs \<Rightarrow>
          let got = take (nat len) (b # bs) in
          Inr ((int (length got), got, False), o2\<lparr>os_trace := os_trace o1 @ [EvRecv fd got]\<rparr>)
      | RecvClosed \<Rightarrow> Inr ((0, [], False), o2)
      | RecvAgain \<Rightarrow> Inr ((-1, [], True), o2)
      | RecvBroken \<Rightarrow> Inr ((-1, [], False), o2))"

section \<open>Time and descriptors\<close>

definition GetNowTimeUs :: "(os, int) mon" where
  "GetNowTimeUs = mbind sys_gettimeofday (\<lambda>(sec, usec). mreturn (sec * 1000000 + usec))"

definition GetNowTimeMs :: "(os, int) mon" where
  "GetNowTimeMs = mbind sys_gettimeofday (\<lambda>(sec, usec). mreturn (sec * 1000 + usec sdiv 1000))"

definition GetNowTimeSecond :: "(os, int32) mon" where
  "GetNowTimeSecond = mbind sys_gettimeofday (\<lambda>(sec, usec). mreturn (to_int32 sec))"

text \<open>Two \<^verbatim>\<open>fcntl\<close> calls; the second is made only when the first succeeds.\<close>

definition set_non_block :: "int32 \<Rightarrow> (os, int32) mon" where
  "set_non_block fd =
     mbind sys_call (\<lambda>flag.
       if flag < 0 then mreturn err
       else mbind sys_call (\<lambda>r. if r < 0 then mreturn err else mreturn success))"

section \<open>Weakest preconditions of the system calls\<close>

lemma mwp_sys_call [wp_simps]:
  "mwp sys_call Q E o1 = Q (os_call o1 (os_call_pos o1)) (o1\<lparr>os_call_pos := Suc (os_call_pos o1)\<rparr>)"
  by (simp add: mwp_def sys_call_def)

lemma mwp_sys_event [wp_simps]:
  "mwp (sys_event e) Q E o1 = Q () (o1\<lparr>os_trace := os_trace o1 @ [e]\<rparr>)"
  by (simp add: sys_event_def wp_simps)

lemma mwp_gettimeofday [wp_simps]:
  "mwp sys_gettimeofday Q E o1 =
     Q (os_time o1 (os_time_pos o1)) (o1\<lparr>os_time_pos := Suc (os_time_pos o1)\<rparr>)"
  by (simp add: mwp_def sys_gettimeofday_def)

text \<open>The bytes the kernel has taken for a descriptor, and those it has delivered from it.\<close>

fun wire_of :: "int32 \<Rightarrow> os_event list \<Rightarrow> byte list" where
  "wire_of fd [] = []"
| "wire_of fd (EvSend fd' bs # es) = (if fd' = fd then bs @ wire_of fd es else wire_of fd es)"
| "wire_of fd (_ # es) = wire_of fd es"

fun heard_of :: "int32 \<Rightarrow> os_event list \<Rightarrow> byte list" where
  "heard_of fd [] = []"
| "heard_of fd (EvRecv fd' bs # es) = (if fd' = fd then bs @ heard_of fd es else heard_of fd es)"
| "heard_of fd (_ # es) = heard_of fd es"

lemma wire_of_append [simp]: "wire_of fd (xs @ ys) = wire_of fd xs @ wire_of fd ys"
  by (induction fd xs rule: wire_of.induct) auto

lemma heard_of_append [simp]: "heard_of fd (xs @ ys) = heard_of fd xs @ heard_of fd ys"
  by (induction fd xs rule: heard_of.induct) auto

lemma sys_send_wire:
  assumes "sys_send fd data o1 = Inr ((n, again), o2)"
  shows "wire_of fd' (os_trace o2) =
    wire_of fd' (os_trace o1) @ (if fd' = fd then take (nat n) data else [])
    \<and> heard_of fd' (os_trace o2) = heard_of fd' (os_trace o1)"
  using assms by (auto simp: sys_send_def Let_def split: send_reply.splits)

lemma sys_send_progress:
  "sys_send fd data o1 = Inr ((n, again), o2) \<Longrightarrow> n \<le> int (length data)"
  by (auto simp: sys_send_def Let_def split: send_reply.splits)

lemma sys_send_total: "\<exists>n again o2. sys_send fd data o1 = Inr ((n, again), o2)"
  by (auto simp: sys_send_def Let_def split: send_reply.split)

lemma sys_recv_cases:
  assumes "sys_recv fd len o1 = Inr ((n, got, again), o2)"
  shows "int (length got) \<le> max 0 len \<and> (n > 0 \<longrightarrow> n = int (length got)) \<and> (n \<le> 0 \<longrightarrow> got = [])
    \<and> heard_of fd' (os_trace o2) = heard_of fd' (os_trace o1) @ (if fd' = fd then got else [])
    \<and> wire_of fd' (os_trace o2) = wire_of fd' (os_trace o1)"
  using assms by (auto simp: sys_recv_def Let_def split: recv_reply.splits)

lemma sys_recv_total: "\<exists>n got again o2. sys_recv fd len o1 = Inr ((n, got, again), o2)"
  by (auto simp: sys_recv_def Let_def split: recv_reply.split)

end
