(* ===== verification/CMessage_Codec.thy ===== *)
theory CMessage_Codec
  imports Prelude
begin

text \<open>
  The message frame of \<^verbatim>\<open>Include/CMessage.h\<close> and \<^verbatim>\<open>Include/CMessage.cpp\<close>: a head of four
  big-endian 32 bit words followed by the serialised protocol buffer. The protocol buffer
  code is a parameter (\<open>ser\<close> for \<^verbatim>\<open>SerializeToString\<close>, \<open>parse\<close> for \<^verbatim>\<open>ParseFromString\<close>) with the
  contract \<open>proto_codec\<close>, discharged for the protocol buffer runtime in theory \<open>Game_Wire\<close>.
\<close>

section \<open>Data\<close>

record CMessageHead =
  m_packetlen :: "32 word"
  m_message_id :: "32 word"
  m_framenum :: "32 word"
  m_message_hash :: "32 word"

record 'p CMessage =
  m_head :: CMessageHead
  m_proto :: "'p option"     \<comment> \<open>\<open>None\<close> is the null pointer\<close>

definition CMessageHead_Size :: int32 where
  "CMessageHead_Size = 4 + 4 + 4 + 4"

text \<open>The constructor leaves the head's other words as it finds them: \<open>h0\<close>.\<close>

definition CMessage_new :: "CMessageHead \<Rightarrow> 'p CMessage" where
  "CMessage_new h0 = \<lparr>m_head = h0\<lparr>m_message_hash := 0\<rparr>, m_proto = None\<rparr>"

text \<open>The copy constructor and the assignment clone the protocol buffer of a non-null source.\<close>

definition CMessage_copy :: "'p CMessage \<Rightarrow> fault + 'p CMessage" where
  "CMessage_copy mess =
     (case m_proto mess of
        None \<Rightarrow> Inl NullDeref
      | Some p \<Rightarrow> Inr \<lparr>m_head = m_head mess, m_proto = Some p\<rparr>)"

definition CMessage_assign :: "bool \<Rightarrow> 'p CMessage \<Rightarrow> 'p CMessage \<Rightarrow> fault + 'p CMessage" where
  "CMessage_assign same_object this mess =
     (if same_object then Inr this
      else case m_proto mess of
        None \<Rightarrow> Inl NullDeref
      | Some p \<Rightarrow> Inr (this\<lparr>m_head := m_head mess, m_proto := Some p\<rparr>))"

section \<open>Big-endian words\<close>

text \<open>\<^verbatim>\<open>htonl\<close> and \<^verbatim>\<open>memcpy\<close>: the four bytes of a word, most significant first.\<close>

definition Append_htonl :: "32 word \<Rightarrow> byte list" where
  "Append_htonl x = [ucast (drop_bit 24 x), ucast (drop_bit 16 x), ucast (drop_bit 8 x), ucast x]"

text \<open>\<^verbatim>\<open>memcpy\<close> and \<^verbatim>\<open>ntohl\<close>: the word at the front of the bytes.\<close>

fun Append_ntohl :: "byte list \<Rightarrow> fault + 32 word" where
  "Append_ntohl (a # b # c # d # _) =
     Inr (push_bit 24 (ucast a) OR push_bit 16 (ucast b) OR push_bit 8 (ucast c) OR ucast d)"
| "Append_ntohl _ = Inl OutOfBounds"

section \<open>The head\<close>

definition head_bytes :: "CMessageHead \<Rightarrow> byte list" where
  "head_bytes h = Append_htonl (m_packetlen h) @ Append_htonl (m_message_id h)
     @ Append_htonl (m_framenum h) @ Append_htonl (m_message_hash h)"

definition CMessageHead_encode :: "CMessageHead \<Rightarrow> byte list \<Rightarrow> fault + byte list \<times> int32" where
  "CMessageHead_encode h outs =
     (case mem_write outs 0 (head_bytes h) of
        Inl e \<Rightarrow> Inl e
      | Inr outs' \<Rightarrow> Inr (outs', int (length (head_bytes h))))"

definition CMessageHead_decode ::
  "CMessageHead \<Rightarrow> byte list \<Rightarrow> int32 \<Rightarrow> fault + int32 \<times> CMessageHead" where
  "CMessageHead_decode h ins InLen =
     (if InLen \<noteq> CMessageHead_Size then Inr (fail, h)
      else case Append_ntohl ins of Inl e \<Rightarrow> Inl e | Inr a \<Rightarrow>
        (case Append_ntohl (drop 4 ins) of Inl e \<Rightarrow> Inl e | Inr b \<Rightarrow>
          (case Append_ntohl (drop 8 ins) of Inl e \<Rightarrow> Inl e | Inr c \<Rightarrow>
            (case Append_ntohl (drop 12 ins) of Inl e \<Rightarrow> Inl e | Inr d \<Rightarrow>
              Inr (success, \<lparr>m_packetlen = a, m_message_id = b, m_framenum = c,
                m_message_hash = d\<rparr>)))))"

section \<open>The message\<close>

definition CMessage_encode ::
  "('p \<Rightarrow> byte list) \<Rightarrow> 'p CMessage \<Rightarrow> byte list \<Rightarrow> fault + 'p CMessage \<times> byte list \<times> int32"
where
  "CMessage_encode ser mess outs =
     (case m_proto mess of
        None \<Rightarrow> Inr (mess, outs, 0)
      | Some p \<Rightarrow>
          let code = ser p;
              head = (m_head mess)\<lparr>m_packetlen := of_nat (length code) + of_int CMessageHead_Size\<rparr>
          in case CMessageHead_encode head outs of
               Inl e \<Rightarrow> Inl e
             | Inr (outs1, OutLen) \<Rightarrow>
                 (case mem_write outs1 OutLen code of
                    Inl e \<Rightarrow> Inl e
                  | Inr outs2 \<Rightarrow> Inr (mess\<lparr>m_head := head\<rparr>, outs2, OutLen + int (length code))))"

text \<open>
  The result of \<^verbatim>\<open>ParseFromString\<close> is dropped by the code: whatever the parser left in the
  object is kept, and the decoding counts as a success.
\<close>

definition CMessage_decode ::
  "('p \<Rightarrow> byte list \<Rightarrow> bool \<times> 'p) \<Rightarrow> 'p CMessage \<Rightarrow> byte list option \<Rightarrow> int32
     \<Rightarrow> fault + int32 \<times> 'p CMessage"
where
  "CMessage_decode parse mess Ins InLen =
     (case (m_proto mess, Ins) of
        (Some p, Some ins) \<Rightarrow>
          (if InLen < CMessageHead_Size then Inr (fail, mess)
           else case CMessageHead_decode (m_head mess) ins CMessageHead_Size of
             Inl e \<Rightarrow> Inl e
           | Inr (_, h) \<Rightarrow>
               (if InLen \<noteq> sint (m_packetlen h) then Inr (fail, mess\<lparr>m_head := h\<rparr>)
                else case mem_read ins CMessageHead_Size (sint (m_packetlen h) - CMessageHead_Size) of
                  Inl e \<Rightarrow> Inl e
                | Inr code \<Rightarrow>
                    Inr (success, mess\<lparr>m_head := h, m_proto := Some (snd (parse p code))\<rparr>)))
      | _ \<Rightarrow> Inr (fail, mess))"

section \<open>Words and heads survive the trip\<close>

lemma length_Append_htonl [simp]: "length (Append_htonl x) = 4"
  by (simp add: Append_htonl_def)

lemma length_head_bytes [simp]: "length (head_bytes h) = 16"
  by (simp add: head_bytes_def)

lemma Append_ntohl_htonl [simp]: "Append_ntohl (Append_htonl x @ rest) = Inr x"
proof -
  have "push_bit 24 (ucast (ucast (drop_bit 24 x) :: byte)) OR
      push_bit 16 (ucast (ucast (drop_bit 16 x) :: byte)) OR
      push_bit 8 (ucast (ucast (drop_bit 8 x) :: byte)) OR ucast (ucast x :: byte) = x"
    (is "?w = x")
  proof (rule bit_word_eqI)
    fix n :: nat
    assume "n < LENGTH(32)"
    then consider "n < 8" | "8 \<le> n" "n < 16" | "16 \<le> n" "n < 24" | "24 \<le> n" "n < 32"
      by fastforce
    then show "bit ?w n \<longleftrightarrow> bit x n"
      by cases (auto simp: bit_simps)
  qed
  then show ?thesis by (simp add: Append_htonl_def)
qed

lemma Append_htonl_ntohl: "length bs = 4 \<Longrightarrow> Append_ntohl bs = Inr x \<Longrightarrow> Append_htonl x = bs"
proof -
  assume len: "length bs = 4" and rd: "Append_ntohl bs = Inr x"
  then obtain a b c d where bs: "bs = [a, b, c, d]"
    by (auto simp: length_Suc_conv eval_nat_numeral)
  have x: "x = push_bit 24 (ucast a) OR push_bit 16 (ucast b) OR push_bit 8 (ucast c) OR ucast d"
    using rd bs by simp
  have "ucast (drop_bit 24 x) = a" "ucast (drop_bit 16 x) = b" "ucast (drop_bit 8 x) = c"
    "ucast x = d"
    unfolding x by (rule bit_word_eqI; auto simp: bit_simps dest: bit_imp_le_length)+
  then show ?thesis by (simp add: Append_htonl_def bs)
qed

lemma CMessageHead_decode_bytes [simp]:
  "CMessageHead_decode h0 (head_bytes h @ rest) CMessageHead_Size = Inr (success, h)"
proof -
  have "drop 4 (head_bytes h @ rest) = Append_htonl (m_message_id h) @ Append_htonl (m_framenum h)
      @ Append_htonl (m_message_hash h) @ rest"
    and "drop 8 (head_bytes h @ rest) = Append_htonl (m_framenum h) @ Append_htonl (m_message_hash h)
      @ rest"
    and "drop 12 (head_bytes h @ rest) = Append_htonl (m_message_hash h) @ rest"
    by (simp_all add: head_bytes_def)
  then show ?thesis
    by (simp add: CMessageHead_decode_def) (simp add: head_bytes_def)
qed

lemma CMessageHead_decode_inv:
  assumes "length bs = 16" and "CMessageHead_decode h0 bs CMessageHead_Size = Inr (r, h)"
  shows "r = success \<and> head_bytes h = bs"
proof -
  obtain a b c d where w: "Append_ntohl bs = Inr a" "Append_ntohl (drop 4 bs) = Inr b"
      "Append_ntohl (drop 8 bs) = Inr c" "Append_ntohl (drop 12 bs) = Inr d"
    and h: "r = success" "h = \<lparr>m_packetlen = a, m_message_id = b, m_framenum = c, m_message_hash = d\<rparr>"
    using assms(2) by (auto simp: CMessageHead_decode_def split: sum.splits)
  have trim: "Append_ntohl xs = Append_ntohl (take 4 xs)" if "4 \<le> length xs" for xs
    using that by (cases xs rule: Append_ntohl.cases) auto
  have "Append_htonl a = take 4 bs" "Append_htonl b = take 4 (drop 4 bs)"
    "Append_htonl c = take 4 (drop 8 bs)" "Append_htonl d = take 4 (drop 12 bs)"
    using w assms(1) by (auto intro!: Append_htonl_ntohl simp: trim [symmetric])
  then have "head_bytes h = take 4 bs @ take 4 (drop 4 bs) @ take 4 (drop 8 bs) @ take 4 (drop 12 bs)"
    by (simp add: head_bytes_def h)
  also have "\<dots> = bs"
  proof -
    have "take 4 (drop k bs) @ drop (k + 4) bs = drop k bs" for k
      by (metis append_take_drop_id drop_drop add.commute)
    from this [of 0] this [of 4] this [of 8] this [of 12] show ?thesis
      using assms(1) by simp
  qed
  finally show ?thesis using h by simp
qed

lemma CMessageHead_encode_eq:
  "16 \<le> length outs \<Longrightarrow>
    CMessageHead_encode h outs = Inr (head_bytes h @ drop 16 outs, CMessageHead_Size)"
  by (simp add: CMessageHead_encode_def mem_write_def CMessageHead_Size_def)

lemma CMessageHead_decode_total:
  assumes "length bs = 16"
  shows "\<exists>h. CMessageHead_decode h0 bs CMessageHead_Size = Inr (success, h) \<and> head_bytes h = bs"
proof -
  have ok: "\<exists>x. Append_ntohl xs = Inr x" if "4 \<le> length xs" for xs
    using that by (cases xs rule: Append_ntohl.cases) auto
  have "\<exists>r h. CMessageHead_decode h0 bs CMessageHead_Size = Inr (r, h)"
    using ok [of bs] ok [of "drop 4 bs"] ok [of "drop 8 bs"] ok [of "drop 12 bs"] assms
    by (auto simp: CMessageHead_decode_def)
  then show ?thesis using CMessageHead_decode_inv [OF assms] by blast
qed

text \<open>
  C8. The head codec is a bijection between heads and 16 byte strings: decoding what
  \<^verbatim>\<open>CMessageHead::encode\<close> wrote restores every word, whatever follows in the buffer, and any 16
  bytes a client sends decode to a head whose encoding is exactly those bytes.
\<close>

theorem CMessageHead_bijection:
  assumes "16 \<le> length outs" and "length bs = 16"
  shows "(\<exists>buf. CMessageHead_encode h outs = Inr (buf, CMessageHead_Size)
        \<and> CMessageHead_decode h0 buf CMessageHead_Size = Inr (success, h))
    \<and> (\<exists>h'. CMessageHead_decode h0 bs CMessageHead_Size = Inr (success, h')
        \<and> CMessageHead_encode h' outs = Inr (bs @ drop 16 outs, CMessageHead_Size))"
  using CMessageHead_decode_total [OF assms(2), of h0]
  by (auto simp: CMessageHead_encode_eq [OF assms(1)])

theorem CMessageHead_bijection_witness:
  "\<exists>h'. CMessageHead_decode \<lparr>m_packetlen = 0, m_message_id = 0, m_framenum = 0, m_message_hash = 0\<rparr>
        (replicate 16 7) CMessageHead_Size = Inr (success, h')
      \<and> CMessageHead_encode h' (replicate 20 0) = Inr (replicate 16 7 @ replicate 4 0, CMessageHead_Size)"
proof -
  have l: "16 \<le> length (replicate 20 (0 :: byte))" "length (replicate 16 (7 :: byte)) = 16"
    by simp_all
  show ?thesis
    using CMessageHead_bijection [OF l,
        of _ "\<lparr>m_packetlen = 0, m_message_id = 0, m_framenum = 0, m_message_hash = 0\<rparr>"]
    by simp
qed

section \<open>Whole messages\<close>

text \<open>
  The bytes a message occupies on the wire. \<open>stamped\<close> is the head as the encoder leaves it,
  with the packet length filled in.
\<close>

definition stamped :: "('p \<Rightarrow> byte list) \<Rightarrow> 'p CMessage \<Rightarrow> 'p \<Rightarrow> CMessageHead" where
  "stamped ser mess p = (m_head mess)\<lparr>m_packetlen := of_nat (length (ser p) + 16)\<rparr>"

definition message_bytes :: "('p \<Rightarrow> byte list) \<Rightarrow> 'p CMessage \<Rightarrow> byte list" where
  "message_bytes ser mess =
     (case m_proto mess of None \<Rightarrow> [] | Some p \<Rightarrow> head_bytes (stamped ser mess p) @ ser p)"

lemma length_message_bytes:
  "m_proto mess = Some p \<Longrightarrow> length (message_bytes ser mess) = 16 + length (ser p)"
  by (simp add: message_bytes_def)

lemma CMessage_encode_eq:
  assumes "m_proto mess = Some p" and "length (message_bytes ser mess) \<le> length outs"
  shows "CMessage_encode ser mess outs =
    Inr (mess\<lparr>m_head := stamped ser mess p\<rparr>,
      message_bytes ser mess @ drop (length (message_bytes ser mess)) outs,
      int (length (message_bytes ser mess)))"
  using assms
  by (simp add: CMessage_encode_def CMessageHead_encode_eq length_message_bytes Let_def
      mem_write_def CMessageHead_Size_def message_bytes_def stamped_def nat_add_distrib add.commute)

lemma CMessage_encode_overflow:
  assumes "m_proto mess = Some p" and "length outs < 16 + length (ser p)"
  shows "CMessage_encode ser mess outs = Inl OutOfBounds"
  using assms
  by (cases "16 \<le> length outs")
    (simp_all add: CMessage_encode_def CMessageHead_encode_eq Let_def mem_write_def
      CMessageHead_Size_def CMessageHead_encode_def)

text \<open>What the frame relies on from the protocol buffer code.\<close>

locale proto_codec =
  fixes ser :: "'p \<Rightarrow> byte list"
    and parse :: "'p \<Rightarrow> byte list \<Rightarrow> bool \<times> 'p"
    and ty :: "'p \<Rightarrow> 't"
    and ok :: "'p \<Rightarrow> bool"
  assumes parse_ser: "ty q = ty p \<Longrightarrow> ok p \<Longrightarrow> parse q (ser p) = (True, p)"
begin

lemma decode_message_bytes:
  assumes "m_proto mess = Some p" and "ok p" and "16 + length (ser p) < 2 ^ 31"
    and "m_proto seed = Some q" and "ty q = ty p"
  shows "CMessage_decode parse seed (Some (message_bytes ser mess @ rest))
      (int (length (message_bytes ser mess)))
    = Inr (success, seed\<lparr>m_head := stamped ser mess p, m_proto := Some p\<rparr>)"
proof -
  let ?n = "16 + length (ser p)"
  have "sint (of_nat ?n :: 32 word) = int ?n"
    using assms(3) by (simp add: sint_word_ariths signed_of_nat signed_take_bit_int_eq_self)
  then have "sint (m_packetlen (stamped ser mess p)) = int ?n"
    by (simp add: stamped_def add.commute)
  then show ?thesis
    using assms
    by (simp add: CMessage_decode_def message_bytes_def mem_read_def)
      (simp add: CMessageHead_Size_def parse_ser)
qed

lemma encode_decode:
  assumes "m_proto mess = Some p" and "ok p" and "16 + length (ser p) \<le> length outs"
    and "length outs < 2 ^ 31" and "m_proto seed = Some q" and "ty q = ty p"
  shows "\<exists>mess' buf n. CMessage_encode ser mess outs = Inr (mess', buf, n)
    \<and> CMessage_decode parse seed (Some buf) n = Inr (success, seed\<lparr>m_head := m_head mess', m_proto := Some p\<rparr>)
    \<and> m_head mess' = (m_head mess)\<lparr>m_packetlen := of_int n\<rparr>"
  using CMessage_encode_eq [of mess p ser outs] decode_message_bytes [of mess p seed q] assms
  by (simp add: length_message_bytes stamped_def add.commute)

end

end
