(* ===== verification/Proto_Messages.thy ===== *)
theory Proto_Messages
  imports CMessage_Codec
begin

text \<open>
  The protocol of \<^verbatim>\<open>protocol/proto_islandsurvival.proto\<close>: its message types, their field tables,
  messages as finite maps from field numbers to values, and the message numbers of
  \<^verbatim>\<open>Frame/message_processor_register.h\<close>. A getter of an absent field gives the type's default,
  as proto2 prescribes.
\<close>

section \<open>Message types and numbers\<close>

datatype mtype =
    CSLogin | SCLogin | CSRegist | SCRegist | PBRoomInfo | PBDetailRoomInfo | CSChangeTeam
  | CSPullAllRoomInfo | SCPullAllRoomInfo | CSCreateRoom | SCCreateRoom | CSJoinRoom | SCJoinRoom
  | CSPlayerExitRoom | SCPlayerExitRoom | SCPullOneRoomDetail | CSReadyToStart | SCGameLoading
  | CSLoadSucceed | SCGameStart | SCPlayerExitGame | CSChoseRole | SCChoseRole | SCFrameMess
  | CSMove | SCMove | CSKill | SCKill | CSGamePause | SCGamePause | CSSkill | SCSkill
  | CSHeartbeat | CSGameEnd | SCGameEnd

text \<open>\<open>MSG t\<close> is the macro \<^verbatim>\<open>MSG_t\<close>.\<close>

fun MSG :: "mtype \<Rightarrow> int32" where
  "MSG CSLogin = 0x0000" | "MSG SCLogin = 0x0001" | "MSG CSRegist = 0x0002" | "MSG SCRegist = 0x0003"
| "MSG PBRoomInfo = 0x0004" | "MSG PBDetailRoomInfo = 0x0005" | "MSG CSChangeTeam = 0x0006"
| "MSG CSPullAllRoomInfo = 0x0007" | "MSG SCPullAllRoomInfo = 0x0008" | "MSG CSCreateRoom = 0x0009"
| "MSG SCCreateRoom = 0x000a" | "MSG CSJoinRoom = 0x000b" | "MSG SCJoinRoom = 0x000c"
| "MSG CSPlayerExitRoom = 0x000d" | "MSG SCPlayerExitRoom = 0x000e" | "MSG SCPullOneRoomDetail = 0x000f"
| "MSG CSReadyToStart = 0x0010" | "MSG SCGameLoading = 0x0011" | "MSG CSLoadSucceed = 0x0012"
| "MSG SCGameStart = 0x0013" | "MSG SCPlayerExitGame = 0x0014" | "MSG CSChoseRole = 0x0015"
| "MSG SCChoseRole = 0x0016" | "MSG SCFrameMess = 0x0017" | "MSG CSMove = 0x0018" | "MSG SCMove = 0x0019"
| "MSG CSKill = 0x001a" | "MSG SCKill = 0x001b" | "MSG CSGamePause = 0x001c" | "MSG SCGamePause = 0x001d"
| "MSG CSSkill = 0x001e" | "MSG SCSkill = 0x001f" | "MSG CSHeartbeat = 0x0020" | "MSG CSGameEnd = 0x0021"
| "MSG SCGameEnd = 0x0022"

section \<open>Field tables\<close>

datatype label = Required | Optional | Repeated

datatype ftype = FInt32 | FBool | FFloat | FString | FMessage mtype

type_synonym field = "nat \<times> label \<times> ftype"

fun fields_of :: "mtype \<Rightarrow> field list" where
  "fields_of CSLogin = [(1, Required, FString), (2, Required, FString)]"
| "fields_of SCLogin = [(1, Required, FInt32)]"
| "fields_of CSRegist = [(1, Required, FString), (2, Required, FString)]"
| "fields_of SCRegist = [(1, Required, FInt32)]"
| "fields_of PBRoomInfo = [(1, Required, FInt32), (2, Required, FInt32), (3, Required, FInt32),
     (4, Required, FInt32), (5, Required, FInt32)]"
| "fields_of PBDetailRoomInfo = [(1, Repeated, FString), (2, Repeated, FInt32), (3, Repeated, FInt32),
     (4, Required, FInt32)]"
| "fields_of CSChangeTeam = [(1, Optional, FInt32), (2, Optional, FInt32)]"
| "fields_of CSPullAllRoomInfo = []"
| "fields_of SCPullAllRoomInfo = [(1, Repeated, FMessage PBRoomInfo)]"
| "fields_of CSCreateRoom = [(1, Required, FInt32), (2, Required, FInt32)]"
| "fields_of SCCreateRoom = [(1, Required, FBool), (2, Required, FInt32)]"
| "fields_of CSJoinRoom = [(1, Required, FInt32)]"
| "fields_of SCJoinRoom = [(1, Required, FInt32)]"
| "fields_of CSPlayerExitRoom = []"
| "fields_of SCPlayerExitRoom = [(1, Required, FInt32)]"
| "fields_of SCPullOneRoomDetail = [(1, Required, FMessage PBDetailRoomInfo)]"
| "fields_of CSReadyToStart = []"
| "fields_of SCGameLoading = [(1, Required, FInt32)]"
| "fields_of CSLoadSucceed = []"
| "fields_of SCGameStart = []"
| "fields_of SCPlayerExitGame = [(1, Required, FInt32)]"
| "fields_of CSChoseRole = [(1, Required, FInt32)]"
| "fields_of SCChoseRole = [(1, Required, FInt32), (2, Required, FInt32)]"
| "fields_of SCFrameMess = [(1, Required, FInt32)]"
| "fields_of CSMove = [(1, Required, FInt32)]"
| "fields_of SCMove = [(1, Required, FInt32), (2, Required, FInt32)]"
| "fields_of CSKill = [(1, Required, FInt32), (2, Required, FInt32)]"
| "fields_of SCKill = [(1, Required, FInt32), (2, Required, FInt32)]"
| "fields_of CSGamePause = []"
| "fields_of SCGamePause = []"
| "fields_of CSSkill = [(1, Required, FInt32), (2, Required, FFloat), (3, Required, FFloat),
     (4, Required, FInt32)]"
| "fields_of SCSkill = [(1, Required, FInt32), (2, Required, FFloat), (3, Required, FFloat),
     (4, Required, FInt32), (5, Required, FInt32)]"
| "fields_of CSHeartbeat = []"
| "fields_of CSGameEnd = []"
| "fields_of SCGameEnd = []"

section \<open>Messages\<close>

text \<open>
  A message object: its type and, for every field that is set, the value. A repeated field
  holds the list of its elements; floats are kept as their 32 bits.
\<close>

datatype pval =
    VInt int32
  | VBool bool
  | VFloat "32 word"
  | VStr string
  | VMsg pmsg
  | VRep "pval list"
and pmsg = PB (pb_type: mtype) (pb_fields: "(nat \<times> pval) list")

definition pb_new :: "mtype \<Rightarrow> pmsg" where
  "pb_new t = PB t []"

definition pb_get :: "pmsg \<Rightarrow> nat \<Rightarrow> pval option" where
  "pb_get m f = m_find (pb_fields m) f"

definition pb_has :: "pmsg \<Rightarrow> nat \<Rightarrow> bool" where
  "pb_has m f = (pb_get m f \<noteq> None)"

definition pb_set :: "pmsg \<Rightarrow> nat \<Rightarrow> pval \<Rightarrow> pmsg" where
  "pb_set m f v = PB (pb_type m) (m_insert (pb_fields m) f v)"

definition pb_add :: "pmsg \<Rightarrow> nat \<Rightarrow> pval \<Rightarrow> pmsg" where
  "pb_add m f v =
     pb_set m f (VRep ((case pb_get m f of Some (VRep vs) \<Rightarrow> vs | _ \<Rightarrow> []) @ [v]))"

definition pb_int :: "pmsg \<Rightarrow> nat \<Rightarrow> int32" where
  "pb_int m f = (case pb_get m f of Some (VInt i) \<Rightarrow> i | _ \<Rightarrow> 0)"

definition pb_str :: "pmsg \<Rightarrow> nat \<Rightarrow> string" where
  "pb_str m f = (case pb_get m f of Some (VStr s) \<Rightarrow> s | _ \<Rightarrow> [])"

definition pb_float :: "pmsg \<Rightarrow> nat \<Rightarrow> 32 word" where
  "pb_float m f = (case pb_get m f of Some (VFloat x) \<Rightarrow> x | _ \<Rightarrow> 0)"

lemma pb_get_set [simp]: "pb_get (pb_set m f v) = (pb_get m)(f \<mapsto> v)"
  by (rule ext) (simp add: pb_get_def pb_set_def)

lemma pb_type_set [simp]: "pb_type (pb_set m f v) = pb_type m"
  by (simp add: pb_set_def)

lemma pb_get_new [simp]: "pb_get (pb_new t) f = None"
  by (simp add: pb_get_def pb_new_def m_find_def)

lemma pb_type_new [simp]: "pb_type (pb_new t) = t"
  by (simp add: pb_new_def)

text \<open>
  A message on its way out: \<^verbatim>\<open>CMessage mess; mess.m_head.m_message_id = ...;
  mess.m_head.m_framenum = ...; mess.m_proto = ...\<close>. The packet length is filled in by the encoder.
\<close>

type_synonym message = "pmsg CMessage"

definition mk_message :: "int32 \<Rightarrow> pmsg \<Rightarrow> message" where
  "mk_message frame p = \<lparr>m_head = \<lparr>m_packetlen = 0, m_message_id = of_int (MSG (pb_type p)),
     m_framenum = of_int frame, m_message_hash = 0\<rparr>, m_proto = Some p\<rparr>"

definition msg_framenum :: "message \<Rightarrow> int32" where
  "msg_framenum m = sint (m_framenum (m_head m))"

definition msg_id :: "message \<Rightarrow> int32" where
  "msg_id m = sint (m_message_id (m_head m))"

lemma MSG_inj: "MSG a = MSG b \<Longrightarrow> a = b"
  by (cases a; cases b) simp_all

end
