(* ===== verification/Syn.thy ===== *)
theory Syn
  imports Os_Env Proto_Messages
begin

text \<open>
  Frame synchronisation (\<^verbatim>\<open>Frame/syn.h\<close>, \<^verbatim>\<open>Frame/syn.cpp\<close>): a ring of 64 frame slots of up to 32
  messages each, indexed relative to the oldest frame not yet sent. The members the constructor
  leaves unset are only defined once \<^verbatim>\<open>SYN::Init\<close> has run (\<open>syn_ready\<close>).
\<close>

section \<open>State\<close>

definition OneFrameBufferSize :: int where "OneFrameBufferSize = 32"

definition SYNBufferSize :: int where "SYNBufferSize = 64"

definition SYN_AllowedDelay :: int where "SYN_AllowedDelay = 3"

definition SYN_AllowedExist :: int where "SYN_AllowedExist = 20"

lemmas syn_consts = OneFrameBufferSize_def SYNBufferSize_def SYN_AllowedDelay_def SYN_AllowedExist_def

record OneFrame =
  m_mess :: "message list"
  m_num :: int32

record SYN =
  m_oneframe :: "OneFrame list"
  m_head_slot :: int32      \<comment> \<open>the member \<open>m_head\<close>\<close>
  m_head_frame :: int32
  m_now_frame :: int32
  m_init_time :: int
  syn_ready :: bool         \<comment> \<open>whether \<open>SYN::Init\<close> has set the members above\<close>

definition OneFrame_Init :: "OneFrame \<Rightarrow> OneFrame" where
  "OneFrame_Init f = f\<lparr>m_num := 0\<rparr>"

definition OneFrame_new :: OneFrame where
  "OneFrame_new = OneFrame_Init \<lparr>m_mess = replicate (nat OneFrameBufferSize)
     (CMessage_new \<lparr>m_packetlen = 0, m_message_id = 0, m_framenum = 0, m_message_hash = 0\<rparr>), m_num = 0\<rparr>"

definition OneFrame_Add :: "message \<Rightarrow> OneFrame \<Rightarrow> fault + int32 \<times> OneFrame" where
  "OneFrame_Add mess f =
     (if m_num f \<ge> OneFrameBufferSize then Inr (fail, f)
      else case arr_get (m_mess f) (m_num f) of
        Inl e \<Rightarrow> Inl e
      | Inr old \<Rightarrow>
          (case CMessage_assign False old mess of
             Inl e \<Rightarrow> Inl e
           | Inr new \<Rightarrow>
               (case arr_set (m_mess f) (m_num f) new of
                  Inl e \<Rightarrow> Inl e
                | Inr ms \<Rightarrow> Inr (success, f\<lparr>m_mess := ms, m_num := m_num f + 1\<rparr>))))"

definition SYN_new :: SYN where
  "SYN_new = \<lparr>m_oneframe = replicate (nat SYNBufferSize) OneFrame_new, m_head_slot = 0,
     m_head_frame = 0, m_now_frame = 0, m_init_time = 0, syn_ready = False\<rparr>"

section \<open>Clock and insertion\<close>

type_synonym syn_os = "SYN \<times> os"

abbreviation syn_on_os :: "(os, 'a) mon \<Rightarrow> (syn_os, 'a) mon" where
  "syn_on_os m \<equiv> mzoom snd (\<lambda>o1 (y, _). (y, o1)) m"

abbreviation set_syn :: "(SYN \<Rightarrow> SYN) \<Rightarrow> (syn_os, unit) mon" where
  "set_syn f \<equiv> mmodify (\<lambda>(y, o1). (f y, o1))"

definition SYN_UpdateTime :: "(syn_os, unit) mon" where
  "SYN_UpdateTime =
     mbind (syn_on_os GetNowTimeUs) (\<lambda>nowtime.
     mbind (mgets fst) (\<lambda>y.
       if \<not> syn_ready y then mfault UninitRead
       else set_syn (\<lambda>y. y\<lparr>m_now_frame := to_int32 ((nowtime - m_init_time y) sdiv 20000 + 1)\<rparr>)))"

definition SYN_Init :: "(syn_os, unit) mon" where
  "SYN_Init =
     mseq (set_syn (\<lambda>y. y\<lparr>m_oneframe := map OneFrame_Init (m_oneframe y)\<rparr>)) (
     mbind (syn_on_os GetNowTimeUs) (\<lambda>now.
     mseq (set_syn (\<lambda>y. y\<lparr>m_init_time := now, m_head_slot := 0, m_head_frame := 1, syn_ready := True\<rparr>))
       SYN_UpdateTime))"

text \<open>\<^verbatim>\<open>m_oneframe[i].Add(mess)\<close>, the status being dropped.\<close>

definition slot_add :: "int \<Rightarrow> message \<Rightarrow> SYN \<Rightarrow> fault + SYN" where
  "slot_add i mess y =
     (case arr_get (m_oneframe y) i of
        Inl e \<Rightarrow> Inl e
      | Inr f \<Rightarrow>
          (case OneFrame_Add mess f of
             Inl e \<Rightarrow> Inl e
           | Inr (_, f') \<Rightarrow> Inr (y\<lparr>m_oneframe := (m_oneframe y)[nat i := f']\<rparr>)))"

definition SYN_Add :: "message \<Rightarrow> (syn_os, unit) mon" where
  "SYN_Add mess =
     mseq SYN_UpdateTime (
     mbind (mgets fst) (\<lambda>y.
       let messframe = msg_framenum mess in
       if messframe > m_now_frame y + 3 then mreturn ()
       else if messframe + SYN_AllowedDelay \<ge> m_now_frame y then
         (let diff = messframe - m_head_frame y in
          mbind (mlift (slot_add ((m_head_slot y + diff) smod SYNBufferSize) mess y)) (\<lambda>y'. set_syn (\<lambda>_. y')))
       else if messframe + SYN_AllowedExist \<ge> m_now_frame y then
         mbind (mlift (slot_add (m_head_slot y) mess y)) (\<lambda>y'. set_syn (\<lambda>_. y'))
       else mreturn ()))"

definition SYN_GetNowFrame :: "(syn_os, int32) mon" where
  "SYN_GetNowFrame = mseq SYN_UpdateTime (mgets (\<lambda>(y, _). m_now_frame y))"

section \<open>Sending due frames\<close>

text \<open>
  Sending goes through the room, which may remove clients and thereby call back into this very
  object, so these operations run on the whole program state \<open>'s\<close>: \<open>get\<close> and \<open>put\<close> give access
  to the \<open>SYN\<close> object in it and \<open>send\<close> is \<^verbatim>\<open>m_room->SendMessageToEveryone\<close>. The stored message
  is passed by reference; the encoder only rewrites its packet length, which every encoding
  overwrites.
\<close>

definition head_slot :: "SYN \<Rightarrow> fault + OneFrame" where
  "head_slot y = arr_get (m_oneframe y) (m_head_slot y)"

definition put_head_slot :: "OneFrame \<Rightarrow> SYN \<Rightarrow> SYN" where
  "put_head_slot f y = y\<lparr>m_oneframe := (m_oneframe y)[nat (m_head_slot y) := f]\<rparr>"

definition stamp_frame :: "int32 \<Rightarrow> message \<Rightarrow> message" where
  "stamp_frame n mess = mess\<lparr>m_head := (m_head mess)\<lparr>m_framenum := of_int n\<rparr>\<rparr>"

text \<open>
  The loop over the messages of the head slot: \<open>i\<close> is the loop variable, \<open>k\<close> bounds the number
  of further rounds by the size of the slot.
\<close>

fun send_slot_loop ::
  "('s \<Rightarrow> SYN) \<Rightarrow> (SYN \<Rightarrow> 's \<Rightarrow> 's) \<Rightarrow> (message \<Rightarrow> ('s, unit) mon) \<Rightarrow> nat \<Rightarrow> int32 \<Rightarrow> ('s, unit) mon"
where
  "send_slot_loop get put send k i =
     mbind (mgets get) (\<lambda>y.
     mbind (mlift (head_slot y)) (\<lambda>f.
       if i < m_num f then
         mbind (mlift (arr_get (m_mess f) i)) (\<lambda>mess.
         let mess' = stamp_frame (m_head_frame y) mess;
             f' = f\<lparr>m_mess := (m_mess f)[nat i := mess']\<rparr>
         in mseq (mmodify (\<lambda>s. put (put_head_slot f' (get s)) s)) (
            mseq (send mess') (
            case k of 0 \<Rightarrow> mfault OutOfBounds | Suc k' \<Rightarrow> send_slot_loop get put send k' (i + 1))))
       else mreturn ()))"

declare send_slot_loop.simps [simp del]

definition SYN_SendHeadFrameToAll ::
  "('s \<Rightarrow> SYN) \<Rightarrow> (SYN \<Rightarrow> 's \<Rightarrow> 's) \<Rightarrow> (message \<Rightarrow> ('s, unit) mon) \<Rightarrow> ('s, unit) mon"
where
  "SYN_SendHeadFrameToAll get put send =
     mbind (mgets get) (\<lambda>y.
     mbind (mlift (head_slot y)) (\<lambda>f.
     mseq (if m_num f = 0
           then send (mk_message (m_head_frame y) (pb_set (pb_new SCFrameMess) 1 (VInt (m_num f))))
           else mreturn ()) (
     mseq (send_slot_loop get put send (nat OneFrameBufferSize) 0) (
     mbind (mgets get) (\<lambda>y'.
     mbind (mlift (head_slot y')) (\<lambda>f'.
       mmodify (\<lambda>s. put (put_head_slot (OneFrame_Init f') (get s)) s)))))))"

definition run_due :: "SYN \<Rightarrow> bool" where
  "run_due y \<longleftrightarrow> m_head_frame y + SYN_AllowedDelay + 1 \<le> m_now_frame y"

definition next_head :: "SYN \<Rightarrow> SYN" where
  "next_head y = y\<lparr>m_head_slot := (m_head_slot y + 1) smod SYNBufferSize, m_head_frame := m_head_frame y + 1\<rparr>"

definition run_gap :: "SYN \<Rightarrow> nat" where
  "run_gap y = nat (m_now_frame y - m_head_frame y)"

text \<open>
  The \<^verbatim>\<open>while\<close> loop of \<^verbatim>\<open>SYN::Run\<close>. Each round brings the head frame closer to the current one;
  only a call back can move the clock on, and then \<open>mu\<close> (the number of connections) has dropped.
  The guard states this; that it never fails is proved for the server in theory \<open>Server_Core\<close>.
\<close>

function syn_run_loop ::
  "('s \<Rightarrow> SYN) \<Rightarrow> (SYN \<Rightarrow> 's \<Rightarrow> 's) \<Rightarrow> (message \<Rightarrow> ('s, unit) mon) \<Rightarrow> ('s \<Rightarrow> nat) \<Rightarrow> ('s, unit) mon"
where
  "syn_run_loop get put send mu s =
     (if run_due (get s) then
        (case mseq (SYN_SendHeadFrameToAll get put send) (mmodify (\<lambda>s. put (next_head (get s)) s)) s of
           Inl e \<Rightarrow> Inl e
         | Inr (_, s') \<Rightarrow>
             if mu s' < mu s \<or> mu s' = mu s \<and> run_gap (get s') < run_gap (get s)
             then syn_run_loop get put send mu s' else Inl OutOfFuel)
      else Inr ((), s))"
  by pat_completeness auto
termination
  by (relation "measures [\<lambda>(get, put, send, mu, s). mu s, \<lambda>(get, put, send, mu, s). run_gap (get s)]") auto

declare syn_run_loop.simps [simp del]

definition SYN_Run ::
  "('s \<Rightarrow> syn_os) \<Rightarrow> (syn_os \<Rightarrow> 's \<Rightarrow> 's) \<Rightarrow> (message \<Rightarrow> ('s, unit) mon) \<Rightarrow> ('s \<Rightarrow> nat) \<Rightarrow> ('s, unit) mon"
where
  "SYN_Run get put send mu =
     mseq (mzoom get put SYN_UpdateTime)
       (syn_run_loop (\<lambda>s. fst (get s)) (\<lambda>y s. put (y, snd (get s)) s) send mu)"

end
