(* ===== verification/Syn_Proofs.thy ===== *)
theory Syn_Proofs
  imports Syn
begin

text \<open>
  The frame ring implements a bounded map from frame numbers to message queues: insertion
  appends to the queue of the message's own frame (or of the oldest frame when it is late), and
  a run of the clock sends the queues of all due frames in frame order and empties them.
\<close>

section \<open>Well-formed rings and their abstraction\<close>

definition frame_wf :: "OneFrame \<Rightarrow> bool" where
  "frame_wf f \<longleftrightarrow> int (length (m_mess f)) = OneFrameBufferSize \<and> 0 \<le> m_num f \<and> m_num f \<le> OneFrameBufferSize"

definition syn_wf :: "SYN \<Rightarrow> bool" where
  "syn_wf y \<longleftrightarrow> int (length (m_oneframe y)) = SYNBufferSize \<and> (\<forall>f\<in>set (m_oneframe y). frame_wf f)
     \<and> 0 \<le> m_head_slot y \<and> m_head_slot y < SYNBufferSize"

definition slot_msgs :: "OneFrame \<Rightarrow> message list" where
  "slot_msgs f = take (nat (m_num f)) (m_mess f)"

definition slot_of :: "SYN \<Rightarrow> int \<Rightarrow> nat" where
  "slot_of y n = nat ((m_head_slot y + (n - m_head_frame y)) mod SYNBufferSize)"

text \<open>The queue of frame \<open>n\<close>: the ring knows the 64 frames from the head frame on.\<close>

definition frame_msgs :: "SYN \<Rightarrow> int \<Rightarrow> message list" where
  "frame_msgs y n =
     (if m_head_frame y \<le> n \<and> n < m_head_frame y + SYNBufferSize
      then slot_msgs (m_oneframe y ! slot_of y n) else [])"

text \<open>What the clients get for a frame: its messages stamped with its number, or a filler.\<close>

definition frame_out :: "SYN \<Rightarrow> int \<Rightarrow> message list" where
  "frame_out y n =
     (if frame_msgs y n = [] then [mk_message n (pb_set (pb_new SCFrameMess) 1 (VInt 0))]
      else map (stamp_frame n) (frame_msgs y n))"

lemma slot_of_less: "syn_wf y \<Longrightarrow> slot_of y n < length (m_oneframe y)"
  by (auto simp: slot_of_def syn_wf_def SYNBufferSize_def nat_less_iff)

lemma slot_of_inj:
  assumes "m_head_frame y \<le> a" "a < m_head_frame y + SYNBufferSize"
    and "m_head_frame y \<le> b" "b < m_head_frame y + SYNBufferSize" and "slot_of y a = slot_of y b"
  shows "a = b"
proof -
  have "(m_head_slot y + (a - m_head_frame y)) mod 64 = (m_head_slot y + (b - m_head_frame y)) mod 64"
    using assms(5) by (simp add: slot_of_def SYNBufferSize_def)
  then have "64 dvd a - b" by (simp add: mod_eq_dvd_iff)
  then show ?thesis using assms by (simp add: SYNBufferSize_def) presburger
qed

lemma frame_at: "syn_wf y \<Longrightarrow> frame_wf (m_oneframe y ! slot_of y n)"
  using slot_of_less [of y n] by (simp add: syn_wf_def)

lemma length_slot_msgs: "frame_wf f \<Longrightarrow> int (length (slot_msgs f)) = m_num f"
  by (auto simp: frame_wf_def slot_msgs_def)

lemma smod_64: "0 \<le> (x::int) \<Longrightarrow> x smod SYNBufferSize = x mod SYNBufferSize"
  by (cases "x = 0") (simp_all add: signed_modulo_int_eq_modulo_int SYNBufferSize_def)

lemma SYN_new_wf: "syn_wf SYN_new"
  by (simp add: syn_wf_def SYN_new_def frame_wf_def OneFrame_new_def OneFrame_Init_def syn_consts)

section \<open>Insertion\<close>

lemma OneFrame_Add_eq:
  assumes "frame_wf f" and "m_proto mess = Some p"
  shows "\<exists>r f'. OneFrame_Add mess f = Inr (r, f') \<and> frame_wf f'
    \<and> (if m_num f < OneFrameBufferSize then r = success \<and> slot_msgs f' = slot_msgs f @ [mess]
       else r = fail \<and> f' = f)"
proof (cases "m_num f < OneFrameBufferSize")
  case True
  let ?i = "nat (m_num f)"
  have i: "?i < length (m_mess f)" "int ?i = m_num f"
    using assms(1) True by (auto simp: frame_wf_def)
  have new: "CMessage_assign False (m_mess f ! ?i) mess = Inr mess"
    using assms(2) by (simp add: CMessage_assign_def)
  have "OneFrame_Add mess f = Inr (success, f\<lparr>m_mess := (m_mess f)[?i := mess], m_num := m_num f + 1\<rparr>)"
    using True i assms(1) new by (simp add: OneFrame_Add_def frame_wf_def)
  moreover have "take (Suc ?i) ((m_mess f)[?i := mess]) = take ?i (m_mess f) @ [mess]"
    using i by (simp add: take_Suc_conv_app_nth)
  then have "slot_msgs (f\<lparr>m_mess := (m_mess f)[?i := mess], m_num := m_num f + 1\<rparr>) = slot_msgs f @ [mess]"
    using assms(1) by (simp add: slot_msgs_def frame_wf_def nat_add_distrib)
  ultimately show ?thesis
    using True assms(1) by (auto simp: frame_wf_def)
next
  case False
  then show ?thesis using assms(1) by (auto simp: OneFrame_Add_def)
qed

text \<open>A message added to the queue of a frame; a full queue drops it.\<close>

definition enqueue :: "message list \<Rightarrow> message \<Rightarrow> message list" where
  "enqueue q mess = (if int (length q) < OneFrameBufferSize then q @ [mess] else q)"

lemma OneFrame_Add_enqueue:
  assumes "frame_wf f" and "m_proto mess = Some p"
  shows "\<exists>r f'. OneFrame_Add mess f = Inr (r, f') \<and> frame_wf f' \<and> slot_msgs f' = enqueue (slot_msgs f) mess"
  using OneFrame_Add_eq [OF assms] length_slot_msgs [OF assms(1)] by (auto simp: enqueue_def)

lemma slot_add_eq:
  assumes wf: "syn_wf y" and p: "m_proto mess = Some p"
    and n: "m_head_frame y \<le> n" "n < m_head_frame y + SYNBufferSize"
  shows "\<exists>y'. slot_add (int (slot_of y n)) mess y = Inr y' \<and> syn_wf y'
    \<and> m_head_frame y' = m_head_frame y \<and> m_head_slot y' = m_head_slot y \<and> m_now_frame y' = m_now_frame y
    \<and> m_init_time y' = m_init_time y \<and> syn_ready y' = syn_ready y
    \<and> frame_msgs y' = (frame_msgs y)(n := enqueue (frame_msgs y n) mess)"
proof -
  let ?i = "slot_of y n"
  have i: "?i < length (m_oneframe y)" using slot_of_less [OF wf] .
  obtain r f' where f': "OneFrame_Add mess (m_oneframe y ! ?i) = Inr (r, f')" "frame_wf f'"
    "slot_msgs f' = enqueue (slot_msgs (m_oneframe y ! ?i)) mess"
    using OneFrame_Add_enqueue [OF frame_at [OF wf, of n] p] by blast
  let ?y = "y\<lparr>m_oneframe := (m_oneframe y)[?i := f']\<rparr>"
  have "slot_add (int ?i) mess y = Inr ?y" using i f'(1) by (simp add: slot_add_def)
  moreover have "syn_wf ?y"
    using wf f'(2) set_update_subset_insert [of "m_oneframe y" ?i f'] by (auto simp: syn_wf_def)
  moreover have "frame_msgs ?y = (frame_msgs y)(n := enqueue (frame_msgs y n) mess)"
  proof
    fix m
    have sl: "slot_of ?y m = slot_of y m" by (simp add: slot_of_def)
    show "frame_msgs ?y m = ((frame_msgs y)(n := enqueue (frame_msgs y n) mess)) m"
    proof (cases "m = n")
      case True
      then show ?thesis using n i f'(3) sl by (simp add: frame_msgs_def)
    next
      case False
      then have "slot_of y n \<noteq> slot_of y m"
        if "m_head_frame y \<le> m" "m < m_head_frame y + SYNBufferSize"
        using slot_of_inj [OF that n] by auto
      then show ?thesis using False sl by (simp add: frame_msgs_def)
    qed
  qed
  ultimately show ?thesis by auto
qed

text \<open>The frame number the clock gives at the next \<^verbatim>\<open>gettimeofday\<close>, and the clock after it.\<close>

definition os_now_us :: "os \<Rightarrow> int" where
  "os_now_us o1 = (case os_time o1 (os_time_pos o1) of (sec, usec) \<Rightarrow> sec * 1000000 + usec)"

definition os_tick :: "os \<Rightarrow> os" where
  "os_tick o1 = o1\<lparr>os_time_pos := Suc (os_time_pos o1)\<rparr>"

definition frame_clock :: "SYN \<Rightarrow> os \<Rightarrow> int32" where
  "frame_clock y o1 = to_int32 ((os_now_us o1 - m_init_time y) sdiv 20000 + 1)"

lemma GetNowTimeUs_run: "GetNowTimeUs o1 = Inr (os_now_us o1, os_tick o1)"
  by (simp add: GetNowTimeUs_def sys_gettimeofday_def run_simps os_now_us_def os_tick_def split: prod.split)

lemma UpdateTime_run:
  "SYN_UpdateTime (y, o1) =
    (if syn_ready y then Inr ((), y\<lparr>m_now_frame := frame_clock y o1\<rparr>, os_tick o1) else Inl UninitRead)"
  by (simp add: SYN_UpdateTime_def run_simps GetNowTimeUs_run frame_clock_def)

lemma frame_msgs_now [simp]: "frame_msgs (y\<lparr>m_now_frame := t\<rparr>) = frame_msgs y"
  by (rule ext) (simp add: frame_msgs_def slot_of_def)

lemma slot_of_now [simp]: "slot_of (y\<lparr>m_now_frame := t\<rparr>) = slot_of y"
  by (rule ext) (simp add: slot_of_def)

lemma syn_wf_now [simp]: "syn_wf (y\<lparr>m_now_frame := t\<rparr>) = syn_wf y"
  by (simp add: syn_wf_def)

text \<open>Which queue a message for frame \<open>n\<close> goes to at clock \<open>now\<close>, if any.\<close>

definition syn_target :: "SYN \<Rightarrow> int \<Rightarrow> int \<Rightarrow> int option" where
  "syn_target y now n =
     (if n > now + 3 \<or> n + SYN_AllowedExist < now then None
      else if n + SYN_AllowedDelay \<ge> now then Some n else Some (m_head_frame y))"

text \<open>
  C9. The ring refines a map from frame numbers to queues. A message for frame \<open>n\<close> that is at
  most three frames early or late joins the queue of its own frame, one up to twenty frames late
  joins the queue of the oldest unsent frame, and any other is dropped; every other queue is
  unchanged, a queue holds at most 32 messages, and the call neither faults nor moves the window.
  It needs a frame that is not older than the window and a server that is less than 61 frames
  behind the clock.
\<close>

theorem SYN_Add_refines:
  assumes wf: "syn_wf y" and rdy: "syn_ready y" and p: "m_proto mess = Some p"
    and old: "m_head_frame y \<le> max (msg_framenum mess) (frame_clock y o1 - 4)"
    and win: "frame_clock y o1 < m_head_frame y + 61"
  shows "\<exists>y'. SYN_Add mess (y, o1) = Inr ((), y', os_tick o1) \<and> syn_wf y'
    \<and> m_head_frame y' = m_head_frame y \<and> m_now_frame y' = frame_clock y o1
    \<and> frame_msgs y' =
        (case syn_target y (frame_clock y o1) (msg_framenum mess) of
           None \<Rightarrow> frame_msgs y
         | Some t \<Rightarrow> (frame_msgs y)(t := enqueue (frame_msgs y t) mess))"
proof -
  let ?n = "msg_framenum mess" and ?now = "frame_clock y o1"
  let ?y = "y\<lparr>m_now_frame := ?now\<rparr>"
  have wf1: "syn_wf ?y" using wf by simp
  have hs: "0 \<le> m_head_slot y" "m_head_slot y < 64" using wf by (auto simp: syn_wf_def syn_consts)
  consider "?n > ?now + 3 \<or> ?n + 20 < ?now" | "?n \<le> ?now + 3" "?n + 3 \<ge> ?now"
    | "?n + 3 < ?now" "?n + 20 \<ge> ?now"
    by linarith
  then show ?thesis
  proof cases
    case 1
    then show ?thesis
      using rdy wf
      by (auto simp: SYN_Add_def run_simps UpdateTime_run Let_def syn_target_def syn_consts)
  next
    case 2
    then have n: "m_head_frame ?y \<le> ?n" "?n < m_head_frame ?y + SYNBufferSize"
      using old win by (auto simp: SYNBufferSize_def)
    have "(m_head_slot y + (?n - m_head_frame y)) smod SYNBufferSize = int (slot_of ?y ?n)"
      using n hs smod_64 [of "m_head_slot y + (?n - m_head_frame y)"]
      by (simp add: slot_of_def SYNBufferSize_def)
    then show ?thesis
      using slot_add_eq [OF wf1 p n] 2 rdy
      by (auto simp: SYN_Add_def run_simps UpdateTime_run Let_def syn_target_def SYN_AllowedDelay_def
          SYN_AllowedExist_def)
  next
    case 3
    have n: "m_head_frame ?y \<le> m_head_frame y" "m_head_frame y < m_head_frame ?y + SYNBufferSize"
      by (auto simp: SYNBufferSize_def)
    have "m_head_slot y = int (slot_of ?y (m_head_frame y))"
      using hs by (simp add: slot_of_def SYNBufferSize_def)
    then show ?thesis
      using slot_add_eq [OF wf1 p n] 3 rdy
      by (auto simp: SYN_Add_def run_simps UpdateTime_run Let_def syn_target_def SYN_AllowedDelay_def
          SYN_AllowedExist_def)
  qed
qed

text \<open>A ring in its fifth frame, and a clock that stands at a given number of microseconds.\<close>

definition demo_syn :: SYN where
  "demo_syn = SYN_new\<lparr>m_head_frame := 2, m_head_slot := 1, syn_ready := True\<rparr>"

definition demo_clock :: "int \<Rightarrow> os" where
  "demo_clock us = \<lparr>os_time = (\<lambda>_. (0, us)), os_time_pos = 0, os_send = (\<lambda>_. SendAgain), os_send_pos = 0,
     os_recv = (\<lambda>_. RecvAgain), os_recv_pos = 0, os_call = (\<lambda>_. 0), os_call_pos = 0, os_trace = []\<rparr>"

lemma demo_syn_wf: "syn_wf demo_syn"
  using SYN_new_wf by (simp add: demo_syn_def syn_wf_def SYNBufferSize_def)

lemma demo_frame_clock: "frame_clock demo_syn (demo_clock 80000) = 5"
  by (simp add: frame_clock_def demo_syn_def demo_clock_def os_now_us_def SYN_new_def to_int32_def
      signed_divide_int_def)

lemma msg_framenum_mk: "- (2 ^ 31) \<le> n \<Longrightarrow> n < 2 ^ 31 \<Longrightarrow> msg_framenum (mk_message n p) = n"
  by (simp add: msg_framenum_def mk_message_def sint_sbintrunc' signed_take_bit_int_eq_self)

theorem SYN_Add_refines_witness:
  "\<exists>y'. SYN_Add (mk_message 4 (pb_new SCGamePause)) (demo_syn, demo_clock 80000)
      = Inr ((), y', os_tick (demo_clock 80000))
    \<and> frame_msgs y' = (frame_msgs demo_syn)(4 := enqueue (frame_msgs demo_syn 4) (mk_message 4 (pb_new SCGamePause)))"
proof -
  have "msg_framenum (mk_message 4 (pb_new SCGamePause)) = 4" by (simp add: msg_framenum_mk)
  then show ?thesis
    using SYN_Add_refines [OF demo_syn_wf, of "mk_message 4 (pb_new SCGamePause)" "pb_new SCGamePause" "demo_clock 80000"]
      demo_frame_clock
    by (auto simp: demo_syn_def syn_target_def syn_consts mk_message_def)
qed

text \<open>
  C37. In the first sixty milliseconds of a game a message with a frame number of zero or less
  that is at most three frames behind the clock is written in front of the slot array: the
  remainder of a negative number is negative in C++, and no check stops it. The frame number is
  chosen by the client.
\<close>

theorem SYN_Add_negative_slot:
  assumes "syn_wf y" and "syn_ready y" and "m_head_slot y = 0" and "m_head_frame y = 1"
    and "frame_clock y o1 \<in> {1, 2, 3}" and "frame_clock y o1 - 3 \<le> msg_framenum mess"
    and "msg_framenum mess \<le> 0"
  shows "SYN_Add mess (y, o1) = Inl OutOfBounds"
proof -
  let ?i = "(m_head_slot y + (msg_framenum mess - m_head_frame y)) smod SYNBufferSize"
  have "msg_framenum mess \<in> {-2, -1, 0}" using assms(5,6,7) by auto
  then have "?i < 0"
    using assms(3,4) by (auto simp: SYNBufferSize_def signed_modulo_int_def)
  then have "slot_add ?i mess z = Inl OutOfBounds" for z
    by (simp add: slot_add_def arr_get_def)
  moreover have "\<not> msg_framenum mess > frame_clock y o1 + 3"
    and "msg_framenum mess + SYN_AllowedDelay \<ge> frame_clock y o1"
    using assms(5,6,7) by (auto simp: SYN_AllowedDelay_def)
  ultimately show ?thesis
    using assms(2) by (simp add: SYN_Add_def run_simps UpdateTime_run Let_def)
qed

theorem SYN_Add_negative_slot_witness:
  "SYN_Add (mk_message (-1) (pb_new SCGamePause))
     (SYN_new\<lparr>m_head_frame := 1, syn_ready := True\<rparr>, demo_clock 0) = Inl OutOfBounds"
proof (rule SYN_Add_negative_slot)
  have "frame_clock (SYN_new\<lparr>m_head_frame := 1, syn_ready := True\<rparr>) (demo_clock 0) = 1"
    by (simp add: frame_clock_def demo_clock_def os_now_us_def SYN_new_def to_int32_def
        signed_divide_int_def)
  then show "frame_clock (SYN_new\<lparr>m_head_frame := 1, syn_ready := True\<rparr>) (demo_clock 0) \<in> {1, 2, 3}"
    and "frame_clock (SYN_new\<lparr>m_head_frame := 1, syn_ready := True\<rparr>) (demo_clock 0) - 3
      \<le> msg_framenum (mk_message (-1) (pb_new SCGamePause))"
    by (simp_all add: msg_framenum_mk)
  show "syn_wf (SYN_new\<lparr>m_head_frame := 1, syn_ready := True\<rparr>)"
    using SYN_new_wf by (simp add: syn_wf_def)
qed (simp_all add: SYN_new_def msg_framenum_mk)

section \<open>Running the clock\<close>

text \<open>The program state reduced to the ring, the clock and the messages sent so far.\<close>

type_synonym syn_log = "syn_os \<times> message list"

definition log_get :: "syn_log \<Rightarrow> syn_os" where
  "log_get s = fst s"

definition log_put :: "syn_os \<Rightarrow> syn_log \<Rightarrow> syn_log" where
  "log_put yo s = (yo, snd s)"

definition log_send :: "message \<Rightarrow> (syn_log, unit) mon" where
  "log_send mess = mmodify (\<lambda>(yo, l). (yo, l @ [mess]))"

abbreviation "lget \<equiv> \<lambda>s. fst (log_get s)"
abbreviation "lput \<equiv> \<lambda>y s. log_put (y, snd (log_get s)) s"

lemma put_head_slot_head:
  assumes "syn_wf y"
  shows "head_slot y = Inr (m_oneframe y ! nat (m_head_slot y))"
    and "head_slot (put_head_slot f y) = Inr f"
    and "put_head_slot g (put_head_slot f y) = put_head_slot g y"
  using assms by (auto simp: head_slot_def put_head_slot_def syn_wf_def)

lemma put_head_slot_wf: "syn_wf y \<Longrightarrow> frame_wf f \<Longrightarrow> syn_wf (put_head_slot f y)"
  using set_update_subset_insert [of "m_oneframe y" "nat (m_head_slot y)" f]
  by (auto simp: syn_wf_def put_head_slot_def)

lemma put_head_slot_fields [simp]:
  "m_head_slot (put_head_slot f y) = m_head_slot y" "m_head_frame (put_head_slot f y) = m_head_frame y"
  "m_now_frame (put_head_slot f y) = m_now_frame y" "m_init_time (put_head_slot f y) = m_init_time y"
  "syn_ready (put_head_slot f y) = syn_ready y"
  by (simp_all add: put_head_slot_def)

lemma put_head_slot_same: "syn_wf y \<Longrightarrow> head_slot y = Inr f \<Longrightarrow> put_head_slot f y = y"
  by (auto simp: put_head_slot_def put_head_slot_head(1))

text \<open>Stamping the messages of a slot one by one sends the rest of the slot in order.\<close>

lemma send_slot_loop_log:
  "syn_wf y \<Longrightarrow> head_slot y = Inr f \<Longrightarrow> frame_wf f \<Longrightarrow> 0 \<le> i \<Longrightarrow> i \<le> m_num f \<Longrightarrow> i + int k = OneFrameBufferSize
  \<Longrightarrow> \<exists>g. frame_wf g \<and> m_num g = m_num f \<and>
    send_slot_loop lget lput log_send k i ((y, o1), l) =
      Inr ((), (put_head_slot g y, o1), l @ map (stamp_frame (m_head_frame y)) (drop (nat i) (slot_msgs f)))"
proof (induction k arbitrary: y f i l)
  case 0
  then have "i = m_num f" by (simp add: frame_wf_def)
  moreover have "put_head_slot f y = y" using put_head_slot_same 0 by blast
  ultimately show ?case
    using 0 length_slot_msgs [OF "0"(3)]
    by (auto simp: send_slot_loop.simps run_simps log_get_def intro!: exI [of _ f])
next
  case (Suc k)
  show ?case
  proof (cases "i < m_num f")
    case False
    moreover have "put_head_slot f y = y" using put_head_slot_same Suc.prems by blast
    ultimately show ?thesis
      using Suc.prems length_slot_msgs [OF Suc.prems(3)]
      by (auto simp: send_slot_loop.simps [of _ _ _ "Suc k"] run_simps log_get_def intro!: exI [of _ f])
  next
    case True
    let ?m = "m_mess f ! nat i" and ?h = "m_head_frame y"
    let ?f = "f\<lparr>m_mess := (m_mess f)[nat i := stamp_frame ?h ?m]\<rparr>"
    let ?y = "put_head_slot ?f y"
    have i: "nat i < length (m_mess f)" "arr_get (m_mess f) i = Inr ?m"
      using Suc.prems True by (auto simp: frame_wf_def)
    have wf: "frame_wf ?f" using Suc.prems(3) by (simp add: frame_wf_def)
    have "\<exists>g. frame_wf g \<and> m_num g = m_num ?f \<and>
        send_slot_loop lget lput log_send k (i + 1) ((?y, o1), l @ [stamp_frame ?h ?m]) =
          Inr ((), (put_head_slot g ?y, o1),
            (l @ [stamp_frame ?h ?m]) @ map (stamp_frame (m_head_frame ?y)) (drop (nat (i + 1)) (slot_msgs ?f)))"
      using Suc.prems True put_head_slot_wf [OF Suc.prems(1) wf] put_head_slot_head(2) [OF Suc.prems(1)] wf
      by (intro Suc.IH) auto
    then obtain g where g: "frame_wf g" "m_num g = m_num f"
      "send_slot_loop lget lput log_send k (i + 1) ((?y, o1), l @ [stamp_frame ?h ?m]) =
        Inr ((), (put_head_slot g y, o1),
          l @ stamp_frame ?h ?m # map (stamp_frame ?h) (drop (nat (i + 1)) (slot_msgs ?f)))"
      by (auto simp: put_head_slot_head(3) [OF Suc.prems(1)])
    have "drop (nat (i + 1)) (slot_msgs ?f) = drop (nat (i + 1)) (slot_msgs f)"
      using Suc.prems(4) by (simp add: slot_msgs_def take_update_swap nat_add_distrib drop_update_cancel)
    moreover have "drop (nat i) (slot_msgs f) = ?m # drop (nat (i + 1)) (slot_msgs f)"
      using Suc.prems(4) True i(1)
      by (simp add: slot_msgs_def nat_add_distrib Cons_nth_drop_Suc [symmetric])
    moreover have "send_slot_loop lget lput log_send (Suc k) i ((y, o1), l) =
        send_slot_loop lget lput log_send k (i + 1) ((?y, o1), l @ [stamp_frame ?h ?m])"
      using True Suc.prems(2) i(2)
      by (simp add: send_slot_loop.simps [of _ _ _ "Suc k"] run_simps log_get_def log_put_def log_send_def Let_def)
    ultimately show ?thesis using g by auto
  qed
qed

lemma SendHeadFrame_log:
  assumes "syn_wf y"
  shows "\<exists>g. frame_wf g \<and> m_num g = 0 \<and>
    SYN_SendHeadFrameToAll lget lput log_send ((y, o1), l) =
      Inr ((), (put_head_slot g y, o1), l @ frame_out y (m_head_frame y))"
proof -
  let ?h = "m_head_frame y"
  define f where "f = m_oneframe y ! nat (m_head_slot y)"
  have hf: "head_slot y = Inr f" using put_head_slot_head(1) [OF assms] by (simp add: f_def)
  have sl: "slot_of y ?h = nat (m_head_slot y)" and fwf: "frame_wf f"
    using assms frame_at [OF assms, of ?h]
    by (auto simp: slot_of_def syn_wf_def SYNBufferSize_def f_def)
  have q: "frame_msgs y ?h = slot_msgs f"
    by (simp add: frame_msgs_def sl f_def SYNBufferSize_def)
  define l' where "l' = (if m_num f = 0
    then l @ [mk_message ?h (pb_set (pb_new SCFrameMess) 1 (VInt 0))] else l)"
  obtain g where g: "frame_wf g" "m_num g = m_num f"
    "send_slot_loop lget lput log_send (nat OneFrameBufferSize) 0 ((y, o1), l') =
      Inr ((), (put_head_slot g y, o1), l' @ map (stamp_frame ?h) (slot_msgs f))"
    using send_slot_loop_log [OF assms hf fwf, of 0 "nat OneFrameBufferSize" o1 l'] fwf
    by (auto simp: frame_wf_def OneFrameBufferSize_def)
  have "l' @ map (stamp_frame ?h) (slot_msgs f) = l @ frame_out y ?h"
    using length_slot_msgs [OF fwf] by (auto simp: l'_def frame_out_def q)
  moreover have "SYN_SendHeadFrameToAll lget lput log_send ((y, o1), l) =
      Inr ((), (put_head_slot (OneFrame_Init g) y, o1), l' @ map (stamp_frame ?h) (slot_msgs f))"
    using g(3) hf put_head_slot_head(2,3) [OF assms]
    by (auto simp: SYN_SendHeadFrameToAll_def run_simps log_get_def log_put_def log_send_def l'_def)
  ultimately show ?thesis
    using g(1) by (auto simp: OneFrame_Init_def frame_wf_def intro!: exI [of _ "OneFrame_Init g"])
qed

text \<open>Moving the head on: the ring forgets the frame it has sent and keeps all others.\<close>

lemma next_head_msgs:
  assumes "syn_wf y" and "frame_wf g" and "m_num g = 0"
  shows "syn_wf (next_head (put_head_slot g y))"
    and "frame_msgs (next_head (put_head_slot g y)) = (frame_msgs y)(m_head_frame y := [])"
proof -
  let ?y = "next_head (put_head_slot g y)"
  have hs: "0 \<le> m_head_slot y" "m_head_slot y < 64" "length (m_oneframe y) = 64"
    using assms(1) by (auto simp: syn_wf_def SYNBufferSize_def)
  have slot: "m_head_slot ?y = (m_head_slot y + 1) mod 64"
    using hs smod_64 [of "m_head_slot y + 1"] by (simp add: next_head_def SYNBufferSize_def)
  show "syn_wf ?y"
    using put_head_slot_wf [OF assms(1,2)] slot by (simp add: syn_wf_def next_head_def SYNBufferSize_def)
  have sl: "slot_of ?y n = slot_of y n" for n
  proof -
    have "((m_head_slot y + 1) mod 64 + (n - (m_head_frame y + 1))) mod 64
        = (m_head_slot y + 1 + (n - (m_head_frame y + 1))) mod 64"
      by (rule mod_add_left_eq)
    also have "m_head_slot y + 1 + (n - (m_head_frame y + 1)) = m_head_slot y + (n - m_head_frame y)"
      by simp
    finally show ?thesis using slot by (simp add: slot_of_def SYNBufferSize_def next_head_def)
  qed
  have sl0: "slot_of y (m_head_frame y) = nat (m_head_slot y)"
    and sl64: "slot_of y (m_head_frame y + 64) = nat (m_head_slot y)"
    using hs by (simp_all add: slot_of_def SYNBufferSize_def)
  have one: "m_oneframe ?y = (m_oneframe y)[nat (m_head_slot y) := g]" "m_head_frame ?y = m_head_frame y + 1"
    by (simp_all add: next_head_def put_head_slot_def)
  show "frame_msgs ?y = (frame_msgs y)(m_head_frame y := [])"
  proof
    fix n
    have ne: "slot_of y n \<noteq> nat (m_head_slot y)"
      if "m_head_frame y < n" "n < m_head_frame y + 64"
      using slot_of_inj [of y n "m_head_frame y"] that sl0 by (auto simp: SYNBufferSize_def)
    consider "n = m_head_frame y" | "n = m_head_frame y + 64" | "n < m_head_frame y \<or> n > m_head_frame y + 64"
      | "m_head_frame y < n" "n < m_head_frame y + 64" by linarith
    then show "frame_msgs ?y n = ((frame_msgs y)(m_head_frame y := [])) n"
    proof cases
      case 4
      then show ?thesis using ne by (simp add: frame_msgs_def sl one SYNBufferSize_def)
    qed (use hs assms(3) in \<open>auto simp: frame_msgs_def sl one sl64 SYNBufferSize_def slot_msgs_def\<close>)
  qed
qed

lemma frame_out_cong: "frame_msgs y n = frame_msgs y' n \<Longrightarrow> frame_out y n = frame_out y' n"
  by (simp add: frame_out_def)

lemma syn_run_loop_log:
  "syn_wf y \<Longrightarrow> \<exists>y'. syn_run_loop lget lput log_send (\<lambda>_. 0) ((y, o1), l) =
      Inr ((), (y', o1), l @ concat (map (frame_out y) [m_head_frame y..m_now_frame y - 4]))
    \<and> syn_wf y' \<and> m_head_frame y' = max (m_head_frame y) (m_now_frame y - 3)
    \<and> m_now_frame y' = m_now_frame y
    \<and> frame_msgs y' = (\<lambda>n. if m_head_frame y \<le> n \<and> n < m_head_frame y' then [] else frame_msgs y n)"
proof (induction "nat (m_now_frame y - m_head_frame y - 3)" arbitrary: y l rule: less_induct)
  case less
  show ?case
  proof (cases "run_due y")
    case False
    then show ?thesis
      using less.prems
      by (auto simp: syn_run_loop.simps log_get_def run_due_def SYN_AllowedDelay_def max_def fun_eq_iff intro!: exI [of _ y])
  next
    case True
    then have due: "m_head_frame y + 4 \<le> m_now_frame y" by (simp add: run_due_def SYN_AllowedDelay_def)
    obtain g where g: "frame_wf g" "m_num g = 0"
      "SYN_SendHeadFrameToAll lget lput log_send ((y, o1), l) =
        Inr ((), (put_head_slot g y, o1), l @ frame_out y (m_head_frame y))"
      using SendHeadFrame_log [OF less.prems] by blast
    define y1 where "y1 = next_head (put_head_slot g y)"
    have y1: "syn_wf y1" "frame_msgs y1 = (frame_msgs y)(m_head_frame y := [])"
      "m_head_frame y1 = m_head_frame y + 1" "m_now_frame y1 = m_now_frame y"
      using next_head_msgs [OF less.prems g(1,2)] by (simp_all add: y1_def next_head_def)
    have gap: "run_gap y1 < run_gap y" using due y1 by (simp add: run_gap_def)
    have round: "syn_run_loop lget lput log_send (\<lambda>_. 0) ((y, o1), l) =
        syn_run_loop lget lput log_send (\<lambda>_. 0) ((y1, o1), l @ frame_out y (m_head_frame y))"
      using True g(3) gap
      by (subst syn_run_loop.simps) (simp add: run_simps log_get_def log_put_def y1_def)
    have dec: "nat (m_now_frame y1 - m_head_frame y1 - 3) < nat (m_now_frame y - m_head_frame y - 3)"
      using due y1 by simp
    obtain y' where y': "syn_run_loop lget lput log_send (\<lambda>_. 0) ((y1, o1), l @ frame_out y (m_head_frame y)) =
        Inr ((), (y', o1), (l @ frame_out y (m_head_frame y)) @ concat (map (frame_out y1) [m_head_frame y + 1..m_now_frame y - 4]))"
      "syn_wf y'" "m_head_frame y' = max (m_head_frame y + 1) (m_now_frame y - 3)" "m_now_frame y' = m_now_frame y"
      "frame_msgs y' = (\<lambda>n. if m_head_frame y + 1 \<le> n \<and> n < m_head_frame y' then [] else frame_msgs y1 n)"
      using less.hyps [OF dec y1(1)] unfolding y1(3,4) by blast
    have "map (frame_out y1) [m_head_frame y + 1..m_now_frame y - 4] = map (frame_out y) [m_head_frame y + 1..m_now_frame y - 4]"
      by (rule map_cong) (auto intro!: frame_out_cong simp: y1(2))
    moreover have "[m_head_frame y..m_now_frame y - 4] = m_head_frame y # [m_head_frame y + 1..m_now_frame y - 4]"
      using due by (simp add: upto_rec1)
    ultimately have "syn_run_loop lget lput log_send (\<lambda>_. 0) ((y, o1), l) =
        Inr ((), (y', o1), l @ concat (map (frame_out y) [m_head_frame y..m_now_frame y - 4]))"
      using round y'(1) by (simp only: list.map concat.simps append_assoc)
    moreover have "m_head_frame y' = max (m_head_frame y) (m_now_frame y - 3)"
      using y'(3) due by simp
    moreover have "frame_msgs y' = (\<lambda>n. if m_head_frame y \<le> n \<and> n < m_head_frame y' then [] else frame_msgs y n)"
      using y'(3) due by (auto simp: y'(5) y1(2) fun_eq_iff)
    ultimately show ?thesis using y'(2,4) by blast
  qed
qed

text \<open>
  C33. \<^verbatim>\<open>SYN::Run\<close> sends exactly the frames that are due, in frame order. Every frame from the head
  frame up to four frames before the current one goes out once: its queued messages in the order
  they were added, each stamped with the frame number, or a single empty \<open>SCFrameMess\<close> when
  nothing happened. The head then stands three frames behind the clock (it never moves back),
  the queues of the frames not yet due are untouched, and the loop ends.
\<close>

theorem SYN_Run_sends_due_frames:
  assumes "syn_wf y" and "syn_ready y"
  shows "\<exists>y'. SYN_Run log_get log_put log_send (\<lambda>_. 0) ((y, o1), l) =
      Inr ((), (y', os_tick o1), l @ concat (map (frame_out y) [m_head_frame y..frame_clock y o1 - 4]))
    \<and> syn_wf y' \<and> m_head_frame y' = max (m_head_frame y) (frame_clock y o1 - 3)
    \<and> (\<forall>n. frame_msgs y' n = (if m_head_frame y \<le> n \<and> n < m_head_frame y' then [] else frame_msgs y n))"
proof -
  let ?y = "y\<lparr>m_now_frame := frame_clock y o1\<rparr>"
  have "frame_out ?y = frame_out y" by (rule ext) (simp add: frame_out_def)
  moreover have "syn_wf ?y" using assms(1) by simp
  moreover have "SYN_Run log_get log_put log_send (\<lambda>_. 0) ((y, o1), l) =
      syn_run_loop lget lput log_send (\<lambda>_. 0) ((?y, os_tick o1), l)"
    using assms(2) by (simp add: SYN_Run_def run_simps log_get_def log_put_def UpdateTime_run)
  ultimately show ?thesis
    using syn_run_loop_log [of ?y "os_tick o1" l] by auto
qed

theorem SYN_Run_sends_due_frames_witness:
  "\<exists>y'. SYN_Run log_get log_put log_send (\<lambda>_. 0) ((demo_syn, demo_clock 100000), []) =
      Inr ((), (y', os_tick (demo_clock 100000)), frame_out demo_syn 2)
    \<and> m_head_frame y' = 3"
proof -
  have "frame_clock demo_syn (demo_clock 100000) = 6"
    by (simp add: frame_clock_def demo_syn_def demo_clock_def os_now_us_def SYN_new_def to_int32_def
        signed_divide_int_def)
  then show ?thesis
    using SYN_Run_sends_due_frames [OF demo_syn_wf, of "demo_clock 100000" "[]"]
    by (auto simp: demo_syn_def)
qed

end
