(* ===== verification/Tcp_Socket.thy ===== *)
theory Tcp_Socket
  imports Os_Env CMessage_Codec
begin

text \<open>
  The buffered, non-blocking socket of \<^verbatim>\<open>Include/server_tcpsocket.h\<close> and
  \<^verbatim>\<open>Include/server_tcpsocket.cpp\<close>: two linear byte buffers with head and tail indices, filled
  by \<^verbatim>\<open>recv\<close> and drained by \<^verbatim>\<open>send\<close>. The operations act on the socket and the operating system.
\<close>

section \<open>State\<close>

definition recv_buffer_size :: int32 where "recv_buffer_size = 196608"

definition send_buffer_size :: int32 where "send_buffer_size = 196608"

definition listen_que_size :: int32 where "listen_que_size = 1024"

definition read_status_success :: int32 where "read_status_success = 0"

definition read_status_not_finish :: int32 where "read_status_not_finish = 1"

definition read_status_error :: int32 where "read_status_error = 2"

definition write_status_success :: int32 where "write_status_success = 3"

definition write_status_not_finish :: int32 where "write_status_not_finish = 4"

definition write_status_error :: int32 where "write_status_error = 5"

lemmas read_status_defs = read_status_success_def read_status_not_finish_def read_status_error_def
lemmas write_status_defs = write_status_success_def write_status_not_finish_def
  write_status_error_def

record tcp_socket =
  m_iSockfd :: int32
  m_recv_head :: int32
  m_recv_tail :: int32
  m_recv_buffer :: "byte list"
  m_send_head :: int32
  m_send_tail :: int32
  m_send_buffer :: "byte list"
  m_is_using :: bool

text \<open>A socket together with the operating system it talks to.\<close>

type_synonym sock_os = "tcp_socket \<times> os"

abbreviation on_os :: "(os, 'a) mon \<Rightarrow> (sock_os, 'a) mon" where
  "on_os m \<equiv> mzoom snd (\<lambda>o1 (s, _). (s, o1)) m"

abbreviation sock :: "(tcp_socket \<Rightarrow> 'a) \<Rightarrow> (sock_os, 'a) mon" where
  "sock f \<equiv> mgets (\<lambda>(s, _). f s)"

abbreviation set_sock :: "(tcp_socket \<Rightarrow> tcp_socket) \<Rightarrow> (sock_os, unit) mon" where
  "set_sock f \<equiv> mmodify (\<lambda>(s, o1). (f s, o1))"

section \<open>Life cycle\<close>

definition TcpSocket_Init :: "tcp_socket \<Rightarrow> tcp_socket" where
  "TcpSocket_Init s = s\<lparr>m_iSockfd := -1, m_recv_head := 0, m_recv_tail := 0,
     m_send_head := 0, m_send_tail := 0, m_is_using := False\<rparr>"

text \<open>The constructor: the buffers hold whatever the memory held.\<close>

definition TcpSocket_new :: "byte list \<Rightarrow> byte list \<Rightarrow> tcp_socket" where
  "TcpSocket_new rbuf sbuf = TcpSocket_Init \<lparr>m_iSockfd = 0, m_recv_head = 0, m_recv_tail = 0,
     m_recv_buffer = rbuf, m_send_head = 0, m_send_tail = 0, m_send_buffer = sbuf,
     m_is_using = False\<rparr>"

definition TcpSocket_close_socket :: "(sock_os, unit) mon" where
  "TcpSocket_close_socket =
     mbind (sock m_is_using) (\<lambda>u.
       if u then mbind (sock m_iSockfd) (\<lambda>fd.
         mseq (on_os (sys_event (EvClose fd))) (set_sock (\<lambda>s. s\<lparr>m_is_using := False\<rparr>)))
       else mreturn ())"

definition TcpSocket_GetFd :: "tcp_socket \<Rightarrow> int32" where
  "TcpSocket_GetFd s = m_iSockfd s"

definition TcpSocket_ReadyForListen :: "int32 \<Rightarrow> (sock_os, int32) mon" where
  "TcpSocket_ReadyForListen port =
     mbind (on_os sys_call) (\<lambda>fd.               \<comment> \<open>socket\<close>
     mseq (set_sock (\<lambda>s. s\<lparr>m_iSockfd := fd\<rparr>)) (
     mseq (on_os sys_call) (                     \<comment> \<open>setsockopt TCP_NODELAY, result ignored\<close>
     mbind (on_os sys_call) (\<lambda>r1.               \<comment> \<open>setsockopt SO_REUSEADDR\<close>
     if r1 \<noteq> success then mreturn err else
     mbind (on_os sys_call) (\<lambda>r2.               \<comment> \<open>bind\<close>
     if r2 \<noteq> success then mreturn err else
     mbind (on_os sys_call) (\<lambda>r3.               \<comment> \<open>listen\<close>
     if r3 \<noteq> success then mreturn err else
     mbind (on_os (set_non_block fd)) (\<lambda>r4.
     if r4 \<noteq> success then mreturn err else
     mseq (set_sock (\<lambda>s. s\<lparr>m_is_using := True\<rparr>)) (mreturn success))))))))"

definition TcpSocket_ConnectToServer :: "(sock_os, int32) mon" where
  "TcpSocket_ConnectToServer =
     mbind (on_os sys_call) (\<lambda>fd.               \<comment> \<open>socket\<close>
     mseq (set_sock (\<lambda>s. s\<lparr>m_iSockfd := fd\<rparr>)) (
     mbind (on_os sys_call) (\<lambda>r1.               \<comment> \<open>connect\<close>
     if r1 \<noteq> success then mreturn err else
     mbind (on_os (set_non_block fd)) (\<lambda>r2.
     if r2 \<noteq> success then mreturn err else mreturn success))))"

definition TcpSocket_AcceptClient :: "(sock_os, int32) mon" where
  "TcpSocket_AcceptClient =
     mbind (on_os sys_call) (\<lambda>fd.               \<comment> \<open>accept\<close>
     mseq (set_sock (\<lambda>s. s\<lparr>m_iSockfd := fd\<rparr>)) (
     if fd < 0 then mreturn err else
     mbind (on_os (set_non_block fd)) (\<lambda>r.
     if r \<noteq> success then mreturn err else
     mseq (set_sock (\<lambda>s. s\<lparr>m_is_using := True\<rparr>)) (mreturn success))))"

section \<open>Buffer steps\<close>

text \<open>
  The pieces of code that move bytes in the two buffers: storing bytes at the tail, moving
  the head over consumed bytes, and moving the live range to the front (\<^verbatim>\<open>memmove\<close>).
\<close>

definition recv_append :: "tcp_socket \<Rightarrow> byte list \<Rightarrow> fault + tcp_socket" where
  "recv_append s data =
     (case mem_write (m_recv_buffer s) (m_recv_tail s) data of
        Inl e \<Rightarrow> Inl e
      | Inr buf \<Rightarrow> Inr (s\<lparr>m_recv_buffer := buf, m_recv_tail := m_recv_tail s + int (length data)\<rparr>))"

definition recv_advance :: "tcp_socket \<Rightarrow> int32 \<Rightarrow> tcp_socket" where
  "recv_advance s n = s\<lparr>m_recv_head := m_recv_head s + n\<rparr>"

definition recv_compact :: "tcp_socket \<Rightarrow> fault + tcp_socket" where
  "recv_compact s =
     (case mem_read (m_recv_buffer s) (m_recv_head s) (m_recv_tail s - m_recv_head s) of
        Inl e \<Rightarrow> Inl e
      | Inr live \<Rightarrow>
          (case mem_write (m_recv_buffer s) 0 live of
             Inl e \<Rightarrow> Inl e
           | Inr buf \<Rightarrow> Inr (s\<lparr>m_recv_buffer := buf, m_recv_tail := m_recv_tail s - m_recv_head s,
               m_recv_head := 0\<rparr>)))"

definition send_append :: "tcp_socket \<Rightarrow> byte list \<Rightarrow> fault + tcp_socket" where
  "send_append s data =
     (case mem_write (m_send_buffer s) (m_send_tail s) data of
        Inl e \<Rightarrow> Inl e
      | Inr buf \<Rightarrow> Inr (s\<lparr>m_send_buffer := buf, m_send_tail := m_send_tail s + int (length data)\<rparr>))"

definition send_advance :: "tcp_socket \<Rightarrow> int32 \<Rightarrow> tcp_socket" where
  "send_advance s n = s\<lparr>m_send_head := m_send_head s + n\<rparr>"

definition send_compact :: "tcp_socket \<Rightarrow> fault + tcp_socket" where
  "send_compact s =
     (case mem_read (m_send_buffer s) (m_send_head s) (m_send_tail s - m_send_head s) of
        Inl e \<Rightarrow> Inl e
      | Inr live \<Rightarrow>
          (case mem_write (m_send_buffer s) 0 live of
             Inl e \<Rightarrow> Inl e
           | Inr buf \<Rightarrow> Inr (s\<lparr>m_send_buffer := buf, m_send_tail := m_send_tail s - m_send_head s,
               m_send_head := 0\<rparr>)))"

section \<open>Receiving\<close>

text \<open>
  How a loop body ends: it goes round again, leaves the loop, or returns from the function.
\<close>

datatype 'r ctl = Again | Leave | Return 'r

text \<open>The macro \<^verbatim>\<open>TryMoveReceDataAhead\<close>: \<open>Return\<close> when the buffer is full of unread bytes.\<close>

definition TryMoveReceDataAhead :: "(sock_os, int32 ctl) mon" where
  "TryMoveReceDataAhead =
     mbind (mgets fst) (\<lambda>s.
       if m_recv_tail s = recv_buffer_size then
         (if m_recv_head s > 0
          then mbind (mlift (recv_compact s)) (\<lambda>s'. mseq (set_sock (\<lambda>_. s')) (mreturn Again))
          else mreturn (Return read_status_not_finish))
       else mreturn Again)"

text \<open>\<^verbatim>\<open>recv\<close> writes straight into the buffer; a negative room would be an enormous \<^verbatim>\<open>size_t\<close>.\<close>

definition recv_once :: "(sock_os, int32 ctl) mon" where
  "recv_once =
     mbind (mgets fst) (\<lambda>s.
     if recv_buffer_size - m_recv_tail s < 0 then mfault OutOfBounds else
     mbind (on_os (sys_recv (m_iSockfd s) (recv_buffer_size - m_recv_tail s)))
       (\<lambda>(received_byte, got, again).
       if received_byte > 0
       then mbind (mlift (recv_append s got)) (\<lambda>s'. mseq (set_sock (\<lambda>_. s')) (mreturn Again))
       else if received_byte = 0 \<or> \<not> again then mreturn (Return read_status_error)
       else mreturn Leave))"

text \<open>One round of the \<^verbatim>\<open>do ... while\<close> loop.\<close>

definition recv_round :: "(sock_os, int32 ctl) mon" where
  "recv_round =
     mbind TryMoveReceDataAhead (\<lambda>c. case c of Again \<Rightarrow> recv_once | _ \<Rightarrow> mreturn c)"

text \<open>What shrinks from round to round: first whether the head can still be moved, then the room.\<close>

definition recv_room :: "sock_os \<Rightarrow> nat" where
  "recv_room so = nat (recv_buffer_size - m_recv_tail (fst so))"

definition recv_movable :: "sock_os \<Rightarrow> nat" where
  "recv_movable so = (if m_recv_head (fst so) > 0 then 1 else 0)"

lemma recv_append_tail:
  "recv_append s data = Inr s' \<Longrightarrow>
    m_recv_tail s' = m_recv_tail s + int (length data) \<and> m_recv_head s' = m_recv_head s"
  by (auto simp: recv_append_def split: sum.splits)

lemma recv_round_decreases:
  assumes "recv_round so = Inr (Again, so')"
  shows "(so', so) \<in> measures [recv_movable, recv_room]"
proof -
  obtain s o1 where so: "so = (s, o1)" by (cases so)
  obtain t n got again o2 where
    t: "t = s \<or> m_recv_head s > 0 \<and> recv_compact s = Inr t"
    and r: "sys_recv (m_iSockfd t) (recv_buffer_size - m_recv_tail t) o1 = Inr ((n, got, again), o2)"
    and n: "n > 0" and a: "recv_append t got = Inr (fst so')" and lt: "0 \<le> recv_buffer_size - m_recv_tail t"
    using assms
    by (auto simp: so recv_round_def recv_once_def TryMoveReceDataAhead_def run_simps
        split: sum.splits if_splits prod.splits; fastforce simp: not_less)
  have "n = int (length got)" "int (length got) \<le> recv_buffer_size - m_recv_tail t"
    using sys_recv_cases [OF r] n lt by auto
  then have pos: "1 \<le> int (length got)" and room: "m_recv_tail t < recv_buffer_size"
    using n by linarith+
  have "m_recv_tail (fst so') = m_recv_tail t + int (length got)" "m_recv_head (fst so') = m_recv_head t"
    using recv_append_tail [OF a] by auto
  moreover have "t = s \<or> m_recv_head s > 0 \<and> m_recv_head t = 0"
    using t by (auto simp: recv_compact_def split: sum.splits)
  ultimately show ?thesis
    using pos room by (auto simp: so recv_movable_def recv_room_def nat_less_eq_zless)
qed

function recv_loop :: "(sock_os, int32) mon" where
  "recv_loop so =
     (case recv_round so of
        Inl e \<Rightarrow> Inl e
      | Inr (c, so') \<Rightarrow>
          (case c of
             Again \<Rightarrow> recv_loop so'
           | Leave \<Rightarrow> Inr (read_status_success, so')
           | Return r \<Rightarrow> Inr (r, so')))"
  by pat_completeness auto
termination
  by (relation "measures [recv_movable, recv_room]") (auto dest: recv_round_decreases)

declare recv_loop.simps [simp del]

definition TcpSocket_RecvData :: "(sock_os, int32) mon" where
  "TcpSocket_RecvData =
     mbind (mgets fst) (\<lambda>s.
       if \<not> m_is_using s then mreturn read_status_error
       else mseq (if m_recv_tail s = m_recv_head s
                  then set_sock (\<lambda>s. s\<lparr>m_recv_head := 0, m_recv_tail := 0\<rparr>) else mreturn ())
              recv_loop)"

section \<open>Sending\<close>

text \<open>One round of the loop that drains the buffer first; \<open>data\<close> is the new message.\<close>

definition drain_round :: "byte list \<Rightarrow> (sock_os, int32 ctl) mon" where
  "drain_round data =
     mbind (mgets fst) (\<lambda>s.
       if m_send_tail s - m_send_head s > 0 then
         mbind (mlift (mem_read (m_send_buffer s) (m_send_head s) (m_send_tail s - m_send_head s))) (\<lambda>live.
         mbind (on_os (sys_send (m_iSockfd s) live)) (\<lambda>(sended_byte, again).
           if sended_byte > 0
           then mseq (set_sock (\<lambda>s. send_advance s sended_byte)) (mreturn Again)
           else if \<not> again then mreturn (Return write_status_error)
           else mbind (mlift (send_compact s)) (\<lambda>s1.
             if send_buffer_size - m_send_tail s1 \<ge> int (length data)
             then mbind (mlift (send_append s1 data)) (\<lambda>s2.
               mseq (set_sock (\<lambda>_. s2)) (mreturn (Return write_status_success)))
             else mseq (set_sock (\<lambda>_. s1)) (mreturn (Return write_status_not_finish)))))
       else mreturn Leave)"

definition send_backlog :: "sock_os \<Rightarrow> nat" where
  "send_backlog so = nat (m_send_tail (fst so) - m_send_head (fst so))"

lemma drain_round_decreases:
  assumes "drain_round data so = Inr (Again, so')"
  shows "send_backlog so' < send_backlog so"
  using assms
  by (cases so)
    (auto simp: drain_round_def send_backlog_def send_advance_def run_simps
      split: sum.splits if_splits prod.splits)

function drain_loop :: "byte list \<Rightarrow> (sock_os, int32 ctl) mon" where
  "drain_loop data so =
     (case drain_round data so of
        Inl e \<Rightarrow> Inl e
      | Inr (c, so') \<Rightarrow> (case c of Again \<Rightarrow> drain_loop data so' | _ \<Rightarrow> Inr (c, so')))"
  by pat_completeness auto
termination
  by (relation "measure (\<lambda>(data, so). send_backlog so)") (auto dest: drain_round_decreases)

declare drain_loop.simps [simp del]

text \<open>The loop over the message itself; \<open>rest\<close> is what \<^verbatim>\<open>pDataPtr\<close> and \<^verbatim>\<open>data_remaind_byte\<close> denote.\<close>

function push_loop :: "byte list \<Rightarrow> (sock_os, int32) mon" where
  "push_loop rest so =
     (if rest = [] then Inr (write_status_success, so)
      else case on_os (sys_send (m_iSockfd (fst so)) rest) so of
        Inl e \<Rightarrow> Inl e
      | Inr ((sended_byte, again), so') \<Rightarrow>
          (if sended_byte > 0 then push_loop (drop (nat sended_byte) rest) so'
           else if \<not> again then Inr (write_status_error, so')
           else if send_buffer_size - m_send_tail (fst so') \<ge> int (length rest)
           then mbind (mlift (send_append (fst so') rest)) (\<lambda>s2.
             mseq (set_sock (\<lambda>_. s2)) (mreturn write_status_success)) so'
           else Inr (write_status_error, so')))"
  by pat_completeness auto
termination
  by (relation "measure (\<lambda>(rest, so). length rest)") auto

declare push_loop.simps [simp del]

definition TcpSocket_SendData :: "byte list option \<Rightarrow> int32 \<Rightarrow> (sock_os, int32) mon" where
  "TcpSocket_SendData data sz =
     (if \<not> sz \<le> send_buffer_size then mfault AssertFail
      else case data of
        None \<Rightarrow> mreturn write_status_success
      | Some mem \<Rightarrow>
          if sz \<le> 0 then mreturn write_status_success
          else mbind (sock m_is_using) (\<lambda>u.
            if \<not> u then mreturn write_status_error
            else mbind (mlift (mem_read mem 0 sz)) (\<lambda>msg.
              mbind (drain_loop msg) (\<lambda>c.
                case c of
                  Return r \<Rightarrow> mreturn r
                | _ \<Rightarrow> mbind (mgets fst) (\<lambda>s.
                    if m_send_head s = m_send_tail s
                    then mseq (set_sock (\<lambda>s. s\<lparr>m_send_head := 0, m_send_tail := 0\<rparr>)) (push_loop msg)
                    else mreturn write_status_success)))))"

section \<open>Cutting one message off the receive buffer\<close>

text \<open>
  \<open>data\<close> is the caller's buffer (\<open>None\<close> for null); the result carries the return code, the
  caller's buffer and the sz.
\<close>

definition TcpSocket_get_one_message ::
  "byte list option \<Rightarrow> int32 \<Rightarrow> int32 \<Rightarrow> (tcp_socket, int32 \<times> byte list option \<times> int32) mon"
where
  "TcpSocket_get_one_message data max_size sz s =
     (case data of
        None \<Rightarrow> Inr ((fail, data, sz), s)
      | Some out \<Rightarrow>
          if m_recv_tail s - m_recv_head s \<le> 4 then Inr ((fail, data, sz), s)
          else case mem_read (m_recv_buffer s) (m_recv_head s) 4 of
            Inl e \<Rightarrow> Inl e
          | Inr hd4 \<Rightarrow>
            (case Append_ntohl hd4 of
              Inl e \<Rightarrow> Inl e
            | Inr w \<Rightarrow>
                let msg_size = sint w in
                if msg_size \<le> 0 then Inr ((err, data, sz), s)
                else if msg_size > m_recv_tail s - m_recv_head s \<or> msg_size > max_size
                then Inr ((fail, data, sz), s)
                else case mem_read (m_recv_buffer s) (m_recv_head s) msg_size of
                  Inl e \<Rightarrow> Inl e
                | Inr bytes \<Rightarrow>
                  (case mem_write out 0 bytes of
                    Inl e \<Rightarrow> Inl e
                  | Inr out' \<Rightarrow> Inr ((success, Some out', msg_size), recv_advance s msg_size))))"

end
