(* ===== verification/Tcp_Stream.thy ===== *)
theory Tcp_Stream
  imports Tcp_Socket
begin

text \<open>
  Correctness of the socket buffers: both are first-in-first-out byte queues (locale
  \<open>byte_fifo\<close>), receiving appends exactly the delivered bytes, sending never reorders,
  duplicates or tears the outgoing stream, and the messages cut off the receive buffer do not
  depend on how the network chops the stream.
\<close>

section \<open>The live window of a linear buffer\<close>

definition window :: "byte list \<Rightarrow> int \<Rightarrow> int \<Rightarrow> byte list" where
  "window buf h t = take (nat (t - h)) (drop (nat h) buf)"

lemma length_window:
  "0 \<le> h \<Longrightarrow> h \<le> t \<Longrightarrow> t \<le> int (length buf) \<Longrightarrow> int (length (window buf h t)) = t - h"
  by (simp add: window_def)

lemma window_append:
  assumes "0 \<le> h" "h \<le> t" "t + int (length d) \<le> int (length buf)"
  shows "\<exists>buf'. mem_write buf t d = Inr buf' \<and> length buf' = length buf
    \<and> window buf' h (t + int (length d)) = window buf h t @ d"
proof -
  let ?b = "take (nat t) buf @ d @ drop (nat t + length d) buf"
  have "mem_write buf t d = Inr ?b" "length ?b = length buf"
    using assms by (simp_all add: mem_write_def)
  moreover have "drop (nat h) ?b = window buf h t @ d @ drop (nat t + length d) buf"
    using assms by (simp add: window_def drop_take nat_diff_distrib)
  then have "window ?b h (t + int (length d)) = window buf h t @ d"
    using assms length_window [of h t buf]
    by (simp add: window_def [of ?b] nat_add_distrib nat_diff_distrib)
  ultimately show ?thesis by blast
qed

lemma window_advance:
  "0 \<le> h \<Longrightarrow> 0 \<le> n \<Longrightarrow> h + n \<le> t \<Longrightarrow> window buf (h + n) t = drop (nat n) (window buf h t)"
  by (simp add: window_def drop_take nat_add_distrib nat_diff_distrib add.commute)

lemma window_read:
  "0 \<le> h \<Longrightarrow> h \<le> t \<Longrightarrow> t \<le> int (length buf) \<Longrightarrow> mem_read buf h (t - h) = Inr (window buf h t)"
  by (simp add: mem_read_def window_def)

lemma window_prefix_read:
  "0 \<le> h \<Longrightarrow> 0 \<le> n \<Longrightarrow> h + n \<le> t \<Longrightarrow> t \<le> int (length buf)
    \<Longrightarrow> mem_read buf h n = Inr (take (nat n) (window buf h t))"
  by (simp add: mem_read_def window_def min_def)

lemma window_compact:
  assumes "0 \<le> h" "h \<le> t" "t \<le> int (length buf)"
  shows "\<exists>buf'. mem_write buf 0 (window buf h t) = Inr buf' \<and> length buf' = length buf
    \<and> window buf' 0 (t - h) = window buf h t"
  using assms length_window [OF assms] by (auto simp: mem_write_def window_def)

section \<open>Byte queues\<close>

locale byte_fifo =
  fixes wf :: "'s \<Rightarrow> bool"
    and contents :: "'s \<Rightarrow> byte list"
    and room :: "'s \<Rightarrow> int"
    and cap :: int
    and append :: "'s \<Rightarrow> byte list \<Rightarrow> fault + 's"
    and advance :: "'s \<Rightarrow> int \<Rightarrow> 's"
    and compact :: "'s \<Rightarrow> fault + 's"
  assumes append_ok: "wf s \<Longrightarrow> int (length d) \<le> room s \<Longrightarrow>
      \<exists>s'. append s d = Inr s' \<and> wf s' \<and> contents s' = contents s @ d"
    and advance_ok: "wf s \<Longrightarrow> 0 \<le> n \<Longrightarrow> n \<le> int (length (contents s)) \<Longrightarrow>
      wf (advance s n) \<and> contents (advance s n) = drop (nat n) (contents s)"
    and compact_ok: "wf s \<Longrightarrow>
      \<exists>s'. compact s = Inr s' \<and> wf s' \<and> contents s' = contents s
        \<and> room s' = cap - int (length (contents s))"
begin

lemma appendD:
  "append s d = Inr s' \<Longrightarrow> wf s \<Longrightarrow> int (length d) \<le> room s \<Longrightarrow> wf s' \<and> contents s' = contents s @ d"
  using append_ok [of s d] by auto

lemma compactD:
  "compact s = Inr s' \<Longrightarrow> wf s \<Longrightarrow>
    wf s' \<and> contents s' = contents s \<and> room s' = cap - int (length (contents s))"
  using compact_ok [of s] by auto

lemma compact_then_append:
  assumes "wf s" and "int (length (contents s)) + int (length d) \<le> cap"
  shows "\<exists>s1 s2. compact s = Inr s1 \<and> append s1 d = Inr s2 \<and> wf s2 \<and> contents s2 = contents s @ d"
proof -
  obtain s1 where c: "compact s = Inr s1" "wf s1" "contents s1 = contents s"
    "room s1 = cap - int (length (contents s))"
    using compact_ok [OF assms(1)] by auto
  then show ?thesis using append_ok [of s1 d] assms(2) by auto
qed

end

section \<open>Well-formed sockets\<close>

definition sock_wf :: "tcp_socket \<Rightarrow> bool" where
  "sock_wf s \<longleftrightarrow>
     int (length (m_recv_buffer s)) = recv_buffer_size + 1
     \<and> int (length (m_send_buffer s)) = send_buffer_size + 1
     \<and> 0 \<le> m_recv_head s \<and> m_recv_head s \<le> m_recv_tail s \<and> m_recv_tail s \<le> recv_buffer_size
     \<and> 0 \<le> m_send_head s \<and> m_send_head s \<le> m_send_tail s \<and> m_send_tail s \<le> send_buffer_size"

definition unread :: "tcp_socket \<Rightarrow> byte list" where
  "unread s = window (m_recv_buffer s) (m_recv_head s) (m_recv_tail s)"

definition pending :: "tcp_socket \<Rightarrow> byte list" where
  "pending s = window (m_send_buffer s) (m_send_head s) (m_send_tail s)"

lemma length_unread: "sock_wf s \<Longrightarrow> int (length (unread s)) = m_recv_tail s - m_recv_head s"
  by (simp add: unread_def length_window sock_wf_def)

lemma length_pending: "sock_wf s \<Longrightarrow> int (length (pending s)) = m_send_tail s - m_send_head s"
  by (simp add: pending_def length_window sock_wf_def)

interpretation rx: byte_fifo sock_wf unread "\<lambda>s. recv_buffer_size - m_recv_tail s" recv_buffer_size
  recv_append recv_advance recv_compact
proof
  fix s and d :: "byte list"
  assume wf: "sock_wf s" and "int (length d) \<le> recv_buffer_size - m_recv_tail s"
  then obtain buf' where "mem_write (m_recv_buffer s) (m_recv_tail s) d = Inr buf'"
    "length buf' = length (m_recv_buffer s)"
    "window buf' (m_recv_head s) (m_recv_tail s + int (length d)) = unread s @ d"
    using window_append [of "m_recv_head s" "m_recv_tail s" d "m_recv_buffer s"]
    by (auto simp: sock_wf_def unread_def)
  then show "\<exists>s'. recv_append s d = Inr s' \<and> sock_wf s' \<and> unread s' = unread s @ d"
    using wf \<open>int (length d) \<le> _\<close> by (auto simp: recv_append_def sock_wf_def unread_def)
next
  fix s n
  assume "sock_wf s" "0 \<le> n" "n \<le> int (length (unread s))"
  then show "sock_wf (recv_advance s n) \<and> unread (recv_advance s n) = drop (nat n) (unread s)"
    using length_unread [of s]
    by (auto simp: recv_advance_def sock_wf_def unread_def window_advance)
next
  fix s
  assume wf: "sock_wf s"
  then obtain buf' where "mem_write (m_recv_buffer s) 0 (unread s) = Inr buf'"
    "length buf' = length (m_recv_buffer s)" "window buf' 0 (m_recv_tail s - m_recv_head s) = unread s"
    using window_compact [of "m_recv_head s" "m_recv_tail s" "m_recv_buffer s"]
    by (auto simp: sock_wf_def unread_def)
  moreover have "mem_read (m_recv_buffer s) (m_recv_head s) (m_recv_tail s - m_recv_head s) = Inr (unread s)"
    using wf window_read [of "m_recv_head s" "m_recv_tail s" "m_recv_buffer s"]
    by (simp add: sock_wf_def unread_def)
  ultimately show "\<exists>s'. recv_compact s = Inr s' \<and> sock_wf s' \<and> unread s' = unread s
      \<and> recv_buffer_size - m_recv_tail s' = recv_buffer_size - int (length (unread s))"
    using wf by (auto simp: recv_compact_def length_unread) (auto simp: sock_wf_def unread_def)
qed

interpretation tx: byte_fifo sock_wf pending "\<lambda>s. send_buffer_size - m_send_tail s" send_buffer_size
  send_append send_advance send_compact
proof
  fix s and d :: "byte list"
  assume wf: "sock_wf s" and "int (length d) \<le> send_buffer_size - m_send_tail s"
  then obtain buf' where "mem_write (m_send_buffer s) (m_send_tail s) d = Inr buf'"
    "length buf' = length (m_send_buffer s)"
    "window buf' (m_send_head s) (m_send_tail s + int (length d)) = pending s @ d"
    using window_append [of "m_send_head s" "m_send_tail s" d "m_send_buffer s"]
    by (auto simp: sock_wf_def pending_def)
  then show "\<exists>s'. send_append s d = Inr s' \<and> sock_wf s' \<and> pending s' = pending s @ d"
    using wf \<open>int (length d) \<le> _\<close> by (auto simp: send_append_def sock_wf_def pending_def)
next
  fix s n
  assume "sock_wf s" "0 \<le> n" "n \<le> int (length (pending s))"
  then show "sock_wf (send_advance s n) \<and> pending (send_advance s n) = drop (nat n) (pending s)"
    using length_pending [of s]
    by (auto simp: send_advance_def sock_wf_def pending_def window_advance)
next
  fix s
  assume wf: "sock_wf s"
  then obtain buf' where "mem_write (m_send_buffer s) 0 (pending s) = Inr buf'"
    "length buf' = length (m_send_buffer s)" "window buf' 0 (m_send_tail s - m_send_head s) = pending s"
    using window_compact [of "m_send_head s" "m_send_tail s" "m_send_buffer s"]
    by (auto simp: sock_wf_def pending_def)
  moreover have "mem_read (m_send_buffer s) (m_send_head s) (m_send_tail s - m_send_head s) = Inr (pending s)"
    using wf window_read [of "m_send_head s" "m_send_tail s" "m_send_buffer s"]
    by (simp add: sock_wf_def pending_def)
  ultimately show "\<exists>s'. send_compact s = Inr s' \<and> sock_wf s' \<and> pending s' = pending s
      \<and> send_buffer_size - m_send_tail s' = send_buffer_size - int (length (pending s))"
    using wf by (auto simp: send_compact_def length_pending) (auto simp: sock_wf_def pending_def)
qed

section \<open>Receiving appends what was delivered\<close>

text \<open>
  \<open>rx_ext so so'\<close>: the socket stays well-formed, its sending half is untouched, and its unread
  bytes grew by exactly the bytes the kernel delivered from its descriptor in between.
\<close>

definition rx_ext :: "sock_os \<Rightarrow> sock_os \<Rightarrow> bool" where
  "rx_ext so so' \<longleftrightarrow>
     sock_wf (fst so') \<and> m_iSockfd (fst so') = m_iSockfd (fst so)
     \<and> m_is_using (fst so') = m_is_using (fst so) \<and> pending (fst so') = pending (fst so)
     \<and> (\<exists>bs. unread (fst so') = unread (fst so) @ bs
         \<and> (\<forall>fd. heard_of fd (os_trace (snd so')) =
               heard_of fd (os_trace (snd so)) @ (if fd = m_iSockfd (fst so) then bs else []))
         \<and> (\<forall>fd. wire_of fd (os_trace (snd so')) = wire_of fd (os_trace (snd so))))"

lemma rx_ext_refl: "sock_wf (fst so) \<Longrightarrow> rx_ext so so"
  by (auto simp: rx_ext_def)

lemma rx_ext_trans: "rx_ext a b \<Longrightarrow> rx_ext b c \<Longrightarrow> rx_ext a c"
  by (auto simp: rx_ext_def) 

lemma rx_ext_wf: "rx_ext a b \<Longrightarrow> sock_wf (fst b)"
  by (simp add: rx_ext_def)

lemma recv_frame:
  "recv_compact s = Inr s' \<Longrightarrow> m_iSockfd s' = m_iSockfd s \<and> m_is_using s' = m_is_using s \<and> pending s' = pending s"
  "recv_append s d = Inr s'' \<Longrightarrow> m_iSockfd s'' = m_iSockfd s \<and> m_is_using s'' = m_is_using s \<and> pending s'' = pending s"
  by (auto simp: recv_compact_def recv_append_def pending_def split: sum.splits)

lemma TryMove_ok:
  assumes "sock_wf s"
  shows "mwp TryMoveReceDataAhead
    (\<lambda>c so. rx_ext (s, o1) so \<and> snd so = o1
      \<and> (c = Again \<and> m_recv_tail (fst so) < recv_buffer_size
         \<or> c = Return read_status_not_finish \<and> int (length (unread s)) = recv_buffer_size))
    (\<lambda>_. False) (s, o1)"
proof -
  have "m_recv_tail s' < recv_buffer_size" if "recv_compact s = Inr s'" "m_recv_head s > 0" for s'
    using rx.compactD [OF that(1) assms] assms length_unread [OF assms] that(2)
    by (auto simp: sock_wf_def)
  moreover have "rx_ext (s, o1) (s', o1)" if "recv_compact s = Inr s'" for s'
    using rx.compactD [OF that assms] recv_frame(1) [OF that] by (auto simp: rx_ext_def)
  ultimately show ?thesis
    using rx.compact_ok [OF assms] rx_ext_refl [of "(s, o1)"] length_unread [OF assms] assms
    by (auto simp: TryMoveReceDataAhead_def wp_simps sock_wf_def)
qed

lemma recv_once_ok:
  assumes wf: "sock_wf t" and lt: "m_recv_tail t < recv_buffer_size"
  shows "mwp recv_once (\<lambda>c so. rx_ext (t, o1) so) (\<lambda>_. False) (t, o1)"
proof -
  obtain n got again o2 where
    r: "sys_recv (m_iSockfd t) (recv_buffer_size - m_recv_tail t) o1 = Inr ((n, got, again), o2)"
    using sys_recv_total by blast
  have len: "int (length got) \<le> recv_buffer_size - m_recv_tail t"
    using sys_recv_cases [OF r] lt by auto
  obtain t' where t': "recv_append t got = Inr t'"
    using rx.append_ok [OF wf len] by blast
  have "rx_ext (t, o1) (t', o2)"
    using rx.appendD [OF t' wf len] recv_frame(2) [OF t'] sys_recv_cases [OF r]
    by (auto simp: rx_ext_def)
  moreover have "n \<le> 0 \<Longrightarrow> rx_ext (t, o1) (t, o2)"
    using sys_recv_cases [OF r] wf by (auto simp: rx_ext_def)
  ultimately show ?thesis
    using lt by (simp add: mwp_def recv_once_def run_simps r t')
qed

lemma recv_round_ok:
  assumes "sock_wf s"
  shows "mwp recv_round (\<lambda>c so. rx_ext (s, o1) so) (\<lambda>_. False) (s, o1)"
  unfolding recv_round_def mwp_bind
proof (rule mwp_mono [OF TryMove_ok [OF assms]])
  fix c so
  assume h: "rx_ext (s, o1) so \<and> snd so = o1
    \<and> (c = Again \<and> m_recv_tail (fst so) < recv_buffer_size
       \<or> c = Return read_status_not_finish \<and> int (length (unread s)) = recv_buffer_size)"
  obtain t where so: "so = (t, o1)" using h by (cases so) auto
  have "sock_wf t" using h so rx_ext_wf by fastforce
  then show "mwp (case c of Again \<Rightarrow> recv_once | _ \<Rightarrow> mreturn c) (\<lambda>c so. rx_ext (s, o1) so) (\<lambda>_. False) so"
    using h so rx_ext_trans [of "(s, o1)" so]
    by (cases c) (auto simp: wp_simps intro: mwp_mono [OF recv_once_ok])
qed

lemma recv_loop_ok:
  "sock_wf (fst so) \<Longrightarrow> mwp recv_loop (\<lambda>_ so'. rx_ext so so') (\<lambda>_. False) so"
proof (induction so rule: recv_loop.induct)
  case (1 so)
  obtain c so1 where r: "recv_round so = Inr (c, so1)" "rx_ext so so1"
    using recv_round_ok [of "fst so" "snd so"] 1(2) by (auto simp: mwp_total)
  show ?case
  proof (cases c)
    case Again
    then have "mwp recv_loop (\<lambda>_ so'. rx_ext so1 so') (\<lambda>_. False) so1"
      using 1(1) [OF r(1)] r(2) rx_ext_wf by blast
    then have "mwp recv_loop (\<lambda>_ so'. rx_ext so so') (\<lambda>_. False) so1"
      by (rule mwp_mono) (auto intro: rx_ext_trans [OF r(2)])
    then show ?thesis
      using r(1) Again by (simp add: mwp_def recv_loop.simps [of so])
  qed (use r in \<open>auto simp: mwp_def recv_loop.simps [of so]\<close>)
qed

definition read_statuses :: "int32 set" where
  "read_statuses = {read_status_success, read_status_not_finish, read_status_error}"

lemma recv_loop_status: "mwp recv_loop (\<lambda>r so'. r \<in> read_statuses) (\<lambda>_. True) so"
proof (induction so rule: recv_loop.induct)
  case (1 so)
  show ?case
  proof (cases "recv_round so")
    case (Inr p)
    obtain c so1 where p: "p = (c, so1)" by (cases p)
    have "c = Return r \<Longrightarrow> r \<in> {read_status_not_finish, read_status_error}" for r
      using Inr p
      by (cases so) (auto simp: recv_round_def TryMoveReceDataAhead_def recv_once_def run_simps
          split: sum.splits if_splits prod.splits)
    then show ?thesis
      using 1 Inr p by (cases c) (auto simp: mwp_def read_statuses_def recv_loop.simps [of so])
  qed (simp add: mwp_def recv_loop.simps [of so])
qed

lemma RecvData_ok:
  assumes "sock_wf s"
  shows "\<exists>r so'. TcpSocket_RecvData (s, o1) = Inr (r, so') \<and> rx_ext (s, o1) so' \<and> r \<in> read_statuses"
proof (cases "m_is_using s")
  case True
  let ?s0 = "if m_recv_tail s = m_recv_head s then s\<lparr>m_recv_head := 0, m_recv_tail := 0\<rparr> else s"
  have t0: "rx_ext (s, o1) (?s0, o1)"
    using assms by (auto simp: rx_ext_def sock_wf_def unread_def pending_def window_def)
  have "mwp recv_loop (\<lambda>r so'. rx_ext (?s0, o1) so') (\<lambda>_. False) (?s0, o1)"
    using recv_loop_ok [of "(?s0, o1)"] rx_ext_wf [OF t0] by simp
  then obtain r so' where l: "recv_loop (?s0, o1) = Inr (r, so')" "rx_ext (?s0, o1) so'"
    by (auto simp: mwp_total)
  moreover have "TcpSocket_RecvData (s, o1) = recv_loop (?s0, o1)"
    using True by (auto simp: TcpSocket_RecvData_def run_simps)
  ultimately show ?thesis
    using rx_ext_trans [OF t0 l(2)] mwpD [OF recv_loop_status l(1)] by auto
next
  case False
  then show ?thesis
    using rx_ext_refl [of "(s, o1)"] assms by (auto simp: TcpSocket_RecvData_def run_simps read_statuses_def)
qed

text \<open>
  C11. \<^verbatim>\<open>RecvData\<close> on a well-formed socket never faults and always returns: its loop ends however the
  kernel answers, no index leaves the buffer, and afterwards the unread bytes are the old ones
  followed by exactly the bytes the kernel delivered, with the sending half untouched.
\<close>

theorem RecvData_stream:
  assumes "sock_wf s"
  shows "\<exists>r s' o2 bs. TcpSocket_RecvData (s, o1) = Inr (r, s', o2)
    \<and> sock_wf s' \<and> pending s' = pending s \<and> unread s' = unread s @ bs
    \<and> heard_of (m_iSockfd s) (os_trace o2) = heard_of (m_iSockfd s) (os_trace o1) @ bs
    \<and> r \<in> {read_status_success, read_status_not_finish, read_status_error}"
  using RecvData_ok [OF assms, of o1] by (auto simp: rx_ext_def read_statuses_def)

text \<open>A fresh socket on zeroed memory with descriptor \<open>fd\<close>, and a kernel that runs given scripts.\<close>

definition demo_sock :: "int32 \<Rightarrow> tcp_socket" where
  "demo_sock fd = (TcpSocket_new (replicate 196609 0) (replicate 196609 0))\<lparr>m_iSockfd := fd, m_is_using := True\<rparr>"

definition demo_os :: "send_reply list \<Rightarrow> recv_reply list \<Rightarrow> os" where
  "demo_os ss rs = \<lparr>os_time = (\<lambda>n. (int n, 0)), os_time_pos = 0,
     os_send = (\<lambda>n. if n < length ss then ss ! n else SendAgain), os_send_pos = 0,
     os_recv = (\<lambda>n. if n < length rs then rs ! n else RecvAgain), os_recv_pos = 0,
     os_call = (\<lambda>_. 0), os_call_pos = 0, os_trace = []\<rparr>"

lemma demo_sock_wf [simp]:
  "sock_wf (demo_sock fd)" "unread (demo_sock fd) = []" "pending (demo_sock fd) = []"
  "m_is_using (demo_sock fd)" "m_iSockfd (demo_sock fd) = fd"
  by (simp_all add: demo_sock_def TcpSocket_new_def TcpSocket_Init_def sock_wf_def
      recv_buffer_size_def send_buffer_size_def unread_def pending_def window_def)

theorem RecvData_stream_witness:
  "\<exists>r s' o2 bs. TcpSocket_RecvData (demo_sock 5, demo_os [] [RecvSome 1 [2, 3]]) = Inr (r, s', o2)
    \<and> sock_wf s' \<and> unread s' = bs \<and> heard_of 5 (os_trace o2) = bs"
  using RecvData_stream [of "demo_sock 5" "demo_os [] [RecvSome 1 [2, 3]]"]
  by (auto simp: demo_os_def)

section \<open>Sending keeps the outgoing stream whole\<close>

text \<open>
  \<open>tx_ext so so' sent\<close>: the socket stays well-formed, its receiving half is untouched, and in
  between the kernel took exactly the bytes \<open>sent\<close> for its descriptor and none for another.
\<close>

definition tx_ext :: "sock_os \<Rightarrow> sock_os \<Rightarrow> byte list \<Rightarrow> bool" where
  "tx_ext so so' sent \<longleftrightarrow>
     sock_wf (fst so') \<and> m_iSockfd (fst so') = m_iSockfd (fst so)
     \<and> m_is_using (fst so') = m_is_using (fst so) \<and> unread (fst so') = unread (fst so)
     \<and> (\<forall>fd. wire_of fd (os_trace (snd so')) =
           wire_of fd (os_trace (snd so)) @ (if fd = m_iSockfd (fst so) then sent else []))
     \<and> (\<forall>fd. heard_of fd (os_trace (snd so')) = heard_of fd (os_trace (snd so)))"

lemma tx_ext_refl: "sock_wf (fst so) \<Longrightarrow> tx_ext so so []"
  by (auto simp: tx_ext_def)

lemma tx_ext_trans: "tx_ext a b xs \<Longrightarrow> tx_ext b c ys \<Longrightarrow> tx_ext a c (xs @ ys)"
  by (auto simp: tx_ext_def)

lemma tx_ext_wf: "tx_ext a b xs \<Longrightarrow> sock_wf (fst b)"
  by (simp add: tx_ext_def)

lemma send_frame:
  "send_compact s = Inr s' \<Longrightarrow> m_iSockfd s' = m_iSockfd s \<and> m_is_using s' = m_is_using s \<and> unread s' = unread s"
  "send_append s d = Inr s'' \<Longrightarrow> m_iSockfd s'' = m_iSockfd s \<and> m_is_using s'' = m_is_using s \<and> unread s'' = unread s"
  "m_iSockfd (send_advance s n) = m_iSockfd s \<and> m_is_using (send_advance s n) = m_is_using s
    \<and> unread (send_advance s n) = unread s"
  by (auto simp: send_compact_def send_append_def send_advance_def unread_def split: sum.splits)

lemma sys_send_tx:
  assumes "sys_send (m_iSockfd s) data o1 = Inr ((n, again), o2)" and "sock_wf s'"
    and "m_iSockfd s' = m_iSockfd s \<and> m_is_using s' = m_is_using s \<and> unread s' = unread s"
  shows "tx_ext (s, o1) (s', o2) (take (nat n) data)"
  using sys_send_wire [OF assms(1)] assms(2,3) by (auto simp: tx_ext_def)

text \<open>The outcome of a round or loop of \<^verbatim>\<open>SendData\<close>, for a backlog \<open>p\<close> and a message \<open>msg\<close>.\<close>

definition sent_ok :: "byte list \<Rightarrow> byte list \<Rightarrow> int32 \<Rightarrow> byte list \<Rightarrow> byte list \<Rightarrow> bool" where
  "sent_ok p msg r sent p' \<longleftrightarrow>
     r = write_status_success \<and> sent @ p' = p @ msg
     \<or> r = write_status_not_finish \<and> sent @ p' = p
     \<or> r = write_status_error \<and> (\<exists>rest. sent @ rest = p @ msg)"

lemma sent_ok_prepend: "sent_ok p msg r sent p' \<Longrightarrow> sent_ok (q @ p) msg r (q @ sent) p'"
  by (auto simp: sent_ok_def)

lemma drain_round_ok:
  assumes wf: "sock_wf s"
  shows "mwp (drain_round msg) (\<lambda>c so'. \<exists>sent. tx_ext (s, o1) so' sent \<and>
      (case c of
         Again \<Rightarrow> sent @ pending (fst so') = pending s
       | Leave \<Rightarrow> sent = [] \<and> pending s = [] \<and> fst so' = s
       | Return r \<Rightarrow> sent_ok (pending s) msg r sent (pending (fst so'))))
    (\<lambda>_. False) (s, o1)"
proof (cases "m_send_tail s - m_send_head s > 0")
  case False
  then have "pending s = []" by (simp add: pending_def window_def)
  then show ?thesis
    using False wf by (auto simp: drain_round_def wp_simps intro: tx_ext_refl)
next
  case True
  obtain n again o2 where r: "sys_send (m_iSockfd s) (pending s) o1 = Inr ((n, again), o2)"
    using sys_send_total by blast
  have rd: "mem_read (m_send_buffer s) (m_send_head s) (m_send_tail s - m_send_head s) = Inr (pending s)"
    using wf by (simp add: pending_def window_read sock_wf_def)
  obtain s1 where c: "send_compact s = Inr s1" using tx.compact_ok [OF wf] by blast
  note c' = tx.compactD [OF c wf] send_frame(1) [OF c]
  show ?thesis
  proof (cases "n > 0")
    case True
    have "n \<le> int (length (pending s))" using sys_send_progress [OF r] .
    then have "tx_ext (s, o1) (send_advance s n, o2) (take (nat n) (pending s))"
      "pending (send_advance s n) = drop (nat n) (pending s)"
      using tx.advance_ok [OF wf, of n] True sys_send_tx [OF r] send_frame(3) [of s n] by auto
    then show ?thesis
      using True \<open>m_send_tail s - m_send_head s > 0\<close> r rd
      by (auto simp: mwp_def drain_round_def run_simps)
  next
    case False
    then have t: "take (nat n) (pending s) = []" by simp
    have err: "tx_ext (s, o1) (s, o2) []" "tx_ext (s, o1) (s1, o2) []"
      using sys_send_tx [OF r wf] sys_send_tx [OF r, of s1] c' t by auto
    have app: "tx_ext (s, o1) (s2, o2) [] \<and> pending s2 = pending s @ msg"
      if "send_append s1 msg = Inr s2" "int (length msg) \<le> send_buffer_size - m_send_tail s1" for s2
      using tx.appendD [OF that(1) _ that(2)] send_frame(2) [OF that(1)] c' t sys_send_tx [OF r, of s2]
      by auto
    note go = mwp_def drain_round_def run_simps r rd c sent_ok_def write_status_defs
    consider "\<not> again" | "again" "\<not> int (length msg) \<le> send_buffer_size - m_send_tail s1"
      | s2 where "again" "int (length msg) \<le> send_buffer_size - m_send_tail s1" "send_append s1 msg = Inr s2"
      using tx.append_ok [of s1 msg] c' by blast
    then show ?thesis
    proof cases
      case 1
      then show ?thesis using False \<open>m_send_tail s - m_send_head s > 0\<close> err(1) by (auto simp: go)
    next
      case 2
      then show ?thesis using False \<open>m_send_tail s - m_send_head s > 0\<close> err(2) c' by (auto simp: go)
    next
      case 3
      then show ?thesis
        using False \<open>m_send_tail s - m_send_head s > 0\<close> app [OF 3(3) 3(2)] by (auto simp: go)
    qed
  qed
qed

lemma drain_loop_ok:
  "sock_wf (fst so) \<Longrightarrow> mwp (drain_loop msg) (\<lambda>c so'. \<exists>sent. tx_ext so so' sent \<and>
      (case c of
         Again \<Rightarrow> False
       | Leave \<Rightarrow> sent = pending (fst so) \<and> m_send_tail (fst so') = m_send_head (fst so')
       | Return r \<Rightarrow> sent_ok (pending (fst so)) msg r sent (pending (fst so'))))
    (\<lambda>_. False) so"
proof (induction msg so rule: drain_loop.induct)
  case (1 msg so)
  obtain c so1 sent where r: "drain_round msg so = Inr (c, so1)" "tx_ext so so1 sent"
    "case c of Again \<Rightarrow> sent @ pending (fst so1) = pending (fst so)
       | Leave \<Rightarrow> sent = [] \<and> pending (fst so) = [] \<and> fst so1 = fst so
       | Return r \<Rightarrow> sent_ok (pending (fst so)) msg r sent (pending (fst so1))"
    using drain_round_ok [of "fst so" msg "snd so"] "1.prems" by (auto simp: mwp_total)
  show ?case
  proof (cases c)
    case Again
    have p: "pending (fst so) = sent @ pending (fst so1)" using r(3) Again by simp
    from 1(1) [OF r(1) _ Again] tx_ext_wf [OF r(2)] obtain c2 so2 sent2 where
      l: "drain_loop msg so1 = Inr (c2, so2)" "tx_ext so1 so2 sent2"
      "case c2 of Again \<Rightarrow> False
         | Leave \<Rightarrow> sent2 = pending (fst so1) \<and> m_send_tail (fst so2) = m_send_head (fst so2)
         | Return r \<Rightarrow> sent_ok (pending (fst so1)) msg r sent2 (pending (fst so2))"
      by (auto simp: mwp_total)
    have "tx_ext so so2 (sent @ sent2)" using tx_ext_trans [OF r(2) l(2)] .
    moreover have "case c2 of Again \<Rightarrow> False
         | Leave \<Rightarrow> sent @ sent2 = pending (fst so) \<and> m_send_tail (fst so2) = m_send_head (fst so2)
         | Return r \<Rightarrow> sent_ok (pending (fst so)) msg r (sent @ sent2) (pending (fst so2))"
      using l(3) p by (cases c2) (auto intro: sent_ok_prepend)
    ultimately show ?thesis
      using r(1) Again l(1) by (auto simp: mwp_def drain_loop.simps [of msg so])
  next
    case Leave
    then have "m_send_tail (fst so1) = m_send_head (fst so1)"
      using r(3) length_pending [of "fst so"] "1.prems" by auto
    then show ?thesis
      using r Leave by (auto simp: mwp_def drain_loop.simps [of msg so])
  next
    case (Return x)
    then show ?thesis
      using r by (auto simp: mwp_def drain_loop.simps [of msg so])
  qed
qed

lemma push_loop_ok:
  "sock_wf (fst so) \<Longrightarrow> m_send_head (fst so) = 0 \<Longrightarrow> m_send_tail (fst so) = 0
    \<Longrightarrow> int (length rest) \<le> send_buffer_size \<Longrightarrow>
   mwp (push_loop rest) (\<lambda>r so'. r \<noteq> write_status_not_finish \<and>
      (\<exists>sent. tx_ext so so' sent \<and> sent_ok [] rest r sent (pending (fst so'))))
    (\<lambda>_. False) so"
proof (induction rest so rule: push_loop.induct)
  case (1 rest so)
  obtain s o1 where so: "so = (s, o1)" by (cases so)
  have p0: "pending s = []" and wf: "sock_wf s"
    using "1.prems" so by (auto simp: pending_def window_def)
  show ?case
  proof (cases "rest = []")
    case True
    then have "push_loop rest so = Inr (write_status_success, so)"
      by (simp add: push_loop.simps [of "[]" so])
    then show ?thesis
      using True p0 so tx_ext_refl [of so] "1.prems"(1)
      by (auto simp: mwp_def sent_ok_def write_status_defs)
  next
    case False
    obtain n again o2 where r: "sys_send (m_iSockfd s) rest o1 = Inr ((n, again), o2)"
      using sys_send_total by blast
    have run: "on_os (sys_send (m_iSockfd (fst so)) rest) so = Inr ((n, again), s, o2)"
      using r so by (simp add: run_simps)
    have t1: "tx_ext so (s, o2) (take (nat n) rest)" using sys_send_tx [OF r wf] so by simp
    show ?thesis
    proof (cases "n > 0")
      case True
      have "mwp (push_loop (drop (nat n) rest)) (\<lambda>r so'. r \<noteq> write_status_not_finish \<and>
          (\<exists>sent. tx_ext (s, o2) so' sent \<and> sent_ok [] (drop (nat n) rest) r sent (pending (fst so'))))
        (\<lambda>_. False) (s, o2)"
        using "1.IH" [OF False run refl refl True] "1.prems" so by simp
      then obtain r' so2 sent where l: "push_loop (drop (nat n) rest) (s, o2) = Inr (r', so2)"
        "r' \<noteq> write_status_not_finish" "tx_ext (s, o2) so2 sent"
        "sent_ok [] (drop (nat n) rest) r' sent (pending (fst so2))"
        by (auto simp: mwp_total)
      have "sent_ok [] rest r' (take (nat n) rest @ sent) (pending (fst so2))"
        using l(2,4) by (auto simp: sent_ok_def) (metis append_assoc append_take_drop_id)+
      then show ?thesis
        using l tx_ext_trans [OF t1 l(3)] True False run
        by (auto simp: mwp_def push_loop.simps [of rest so])
    next
      case neg: False
      then have t2: "tx_ext so (s, o2) []" using t1 by simp
      obtain s2 where s2: "send_append s rest = Inr s2" "sock_wf s2" "pending s2 = rest"
        using tx.append_ok [OF wf, of rest] "1.prems" so p0 by auto
      have "tx_ext so (s2, o2) []"
        using sys_send_tx [OF r s2(2)] send_frame(2) [OF s2(1)] so neg by auto
      moreover have "push_loop rest so =
          Inr (if again then (write_status_success, s2, o2) else (write_status_error, s, o2))"
        using neg False run s2(1) "1.prems" so
        by (subst push_loop.simps) (simp add: run_simps)
      ultimately show ?thesis
        using t2 s2(3) by (auto simp: mwp_def sent_ok_def write_status_defs)
    qed
  qed
qed

lemma SendData_ok:
  assumes "sock_wf s" and "m_is_using s" and "0 < n" and "n \<le> send_buffer_size"
    and "n \<le> int (length mem)"
  shows "\<exists>r so2 sent. TcpSocket_SendData (Some mem) n (s, o1) = Inr (r, so2) \<and> tx_ext (s, o1) so2 sent
    \<and> sent_ok (pending s) (take (nat n) mem) r sent (pending (fst so2))"
proof -
  let ?msg = "take (nat n) mem"
  have rd: "mem_read mem 0 n = Inr ?msg" using assms by (simp add: mem_read_def)
  obtain c so1 sent where d: "drain_loop ?msg (s, o1) = Inr (c, so1)" "tx_ext (s, o1) so1 sent"
    "case c of Again \<Rightarrow> False
       | Leave \<Rightarrow> sent = pending s \<and> m_send_tail (fst so1) = m_send_head (fst so1)
       | Return r \<Rightarrow> sent_ok (pending s) ?msg r sent (pending (fst so1))"
    using drain_loop_ok [of "(s, o1)" ?msg, unfolded fst_conv mwp_total] assms(1) by blast
  have send: "TcpSocket_SendData (Some mem) n (s, o1) =
      (case c of Return r \<Rightarrow> Inr (r, so1)
       | _ \<Rightarrow> (if m_send_head (fst so1) = m_send_tail (fst so1)
          then push_loop ?msg ((fst so1)\<lparr>m_send_head := 0, m_send_tail := 0\<rparr>, snd so1)
          else Inr (write_status_success, so1)))"
    using assms rd d(1) by (auto simp: TcpSocket_SendData_def run_simps split: ctl.splits prod.splits)
  show ?thesis
  proof (cases c)
    case Leave
    let ?so0 = "((fst so1)\<lparr>m_send_head := 0, m_send_tail := 0\<rparr>, snd so1)"
    have t0: "tx_ext (s, o1) ?so0 (pending s)"
      using d(2,3) Leave by (auto simp: tx_ext_def sock_wf_def unread_def)
    have "int (length ?msg) \<le> send_buffer_size" using assms by simp
    then obtain r so2 sent2 where p: "push_loop ?msg ?so0 = Inr (r, so2)" "tx_ext ?so0 so2 sent2"
      "r \<noteq> write_status_not_finish" "sent_ok [] ?msg r sent2 (pending (fst so2))"
      using push_loop_ok [of ?so0 ?msg] tx_ext_wf [OF t0] by (auto simp: mwp_total)
    then show ?thesis
      using send Leave d(3) tx_ext_trans [OF t0 p(2)] sent_ok_prepend [OF p(4), of "pending s"] by auto
  qed (use d send in auto)
qed

text \<open>
  C12. \<^verbatim>\<open>SendData\<close> keeps the outgoing byte stream whole. On a well-formed socket it never faults and
  always returns; what the kernel took followed by what is still buffered is the old backlog
  followed by the message when it reports success, the old backlog alone (the message is dropped
  entirely, never half of it) when it reports not-finished, and a prefix of backlog and message
  when the connection broke. Bytes of other descriptors and unread input are untouched.
\<close>

theorem SendData_stream:
  assumes "sock_wf s" and "m_is_using s" and "0 < n" and "n \<le> send_buffer_size"
    and "n \<le> int (length mem)"
  shows "\<exists>r s' o2 sent. TcpSocket_SendData (Some mem) n (s, o1) = Inr (r, s', o2)
    \<and> sock_wf s' \<and> unread s' = unread s
    \<and> (\<forall>fd. wire_of fd (os_trace o2) = wire_of fd (os_trace o1) @ (if fd = m_iSockfd s then sent else []))
    \<and> (r = write_status_success \<and> sent @ pending s' = pending s @ take (nat n) mem
       \<or> r = write_status_not_finish \<and> sent @ pending s' = pending s
       \<or> r = write_status_error \<and> (\<exists>lost. sent @ lost = pending s @ take (nat n) mem))"
  using SendData_ok [OF assms, of o1] by (force simp: tx_ext_def sent_ok_def)

theorem SendData_stream_witness:
  "\<exists>r s' o2 sent. TcpSocket_SendData (Some [1, 2, 3]) 3 (demo_sock 5, demo_os [SendSome 0, SendAgain] [])
      = Inr (r, s', o2) \<and> sock_wf s' \<and> wire_of 5 (os_trace o2) = sent"
  using SendData_stream [of "demo_sock 5" 3 "[1, 2, 3]" "demo_os [SendSome 0, SendAgain] []"]
  by (auto simp: demo_os_def send_buffer_size_def)

end
