(* ===== verification/World.thy ===== *)
theory World
  imports Syn_Proofs Tcp_Stream "HOL-Library.Product_Lexorder"
begin

text \<open>
  The state of the whole server process. The singletons \<^verbatim>\<open>SERVERFRAME\<close>, \<^verbatim>\<open>ROOMMANAGER\<close>,
  \<^verbatim>\<open>PERSONMANAGER\<close> and \<^verbatim>\<open>HEARTBEAT\<close> call each other freely, so one record holds the members of
  all of them, with the operating system. A \<^verbatim>\<open>Room*\<close> is an index into the list of rooms ever
  allocated (rooms are recycled, never freed); the sockets and persons are owned by one
  container each and are kept in it by value.
\<close>

section \<open>Records\<close>

definition max_player_cnt :: int32 where "max_player_cnt = 8"

definition room_status_waiting :: int32 where "room_status_waiting = 1"

definition room_status_loading :: int32 where "room_status_loading = 2"

definition room_status_ingame :: int32 where "room_status_ingame = 3"

definition max_loading_time_second :: int32 where "max_loading_time_second = 180"

lemmas room_status_defs = room_status_waiting_def room_status_loading_def room_status_ingame_def

lemma room_status_distinct [simp]:
  "room_status_waiting \<noteq> room_status_loading" "room_status_loading \<noteq> room_status_waiting"
  "room_status_waiting \<noteq> room_status_ingame" "room_status_ingame \<noteq> room_status_waiting"
  "room_status_loading \<noteq> room_status_ingame" "room_status_ingame \<noteq> room_status_loading"
  by (simp_all add: room_status_defs)

record Room =
  m_room_id :: int32
  m_players :: "int32 list"              \<comment> \<open>\<open>max_player_cnt + 1\<close> entries, entry 0 unused\<close>
  m_team_id :: "int32 list"
  m_is_online :: "bool list"
  m_is_loading_succeed :: "bool list"
  m_player_cnt :: int32
  m_online_player_cnt :: int32
  m_status :: int32
  m_loading_succeed_cnt :: int32
  m_loading_time_second :: int32
  m_game_mode :: int32
  m_team_mode :: int32
  m_game_option :: int32
  m_syn :: SYN

definition person_in_hall :: int32 where "person_in_hall = 0"

definition person_in_room :: int32 where "person_in_room = 1"

record Person =
  m_name :: string
  m_pstatus :: int32        \<comment> \<open>the member \<open>m_status\<close>\<close>
  m_user_id :: int32

definition MAX_MESSAGE_LEN :: int32 where "MAX_MESSAGE_LEN = 4096"

record world =
  listen_sock :: tcp_socket                            \<comment> \<open>\<open>MessageHandler\<close>\<close>
  m_connects :: "(int32, tcp_socket) stdmap"
  m_user_id_to_fd :: "(int32, int32) stdmap"
  m_fd_to_user_id :: "(int32, int32) stdmap"
  free_conns :: "tcp_socket list"
  m_epollfd :: int32
  recv_data :: "byte list"
  send_data :: "byte list"
  m_sec_fd :: "(int32 \<times> int32) list"                 \<comment> \<open>\<open>Heartbeat\<close>\<close>
  m_fd_to_sec :: "(int32, int32) stdmap"
  m_user_id_to_person :: "(int32, Person) stdmap"      \<comment> \<open>\<open>PersonManager\<close>\<close>
  room_heap :: "Room list"                             \<comment> \<open>\<open>RoomManager\<close>\<close>
  m_free_room :: "nat list"
  belong_room :: "(int32, nat) stdmap"
  rooms :: "(int32, nat) stdmap"
  s_room_id :: int32
  db_calls :: nat           \<comment> \<open>\<open>Login\<close>: the number of statements sent to the database\<close>
  raw_room :: Room          \<comment> \<open>what fresh memory holds when a room is allocated\<close>
  raw_buffer :: "byte list" \<comment> \<open>what fresh memory holds when a socket is allocated\<close>
  w_os :: os

section \<open>Access to the parts of the state\<close>

definition world_os :: "(os, 'a) mon \<Rightarrow> (world, 'a) mon" where
  "world_os m = mzoom w_os (\<lambda>o1 w. w\<lparr>w_os := o1\<rparr>) m"

text \<open>Dereferencing a \<^verbatim>\<open>Room*\<close>: running a computation on the room it points to.\<close>

definition on_room :: "nat \<Rightarrow> (Room, 'a) mon \<Rightarrow> (world, 'a) mon" where
  "on_room r m w =
     (if r < length (room_heap w) then
        (case m (room_heap w ! r) of
           Inl e \<Rightarrow> Inl e
         | Inr (x, rm) \<Rightarrow> Inr (x, w\<lparr>room_heap := (room_heap w)[r := rm]\<rparr>))
      else Inl NullDeref)"

text \<open>A member function of the room's \<^verbatim>\<open>SYN\<close> object, which also reads the clock.\<close>

definition on_syn :: "nat \<Rightarrow> (syn_os, 'a) mon \<Rightarrow> (world, 'a) mon" where
  "on_syn r m w =
     (if r < length (room_heap w) then
        (case m (m_syn (room_heap w ! r), w_os w) of
           Inl e \<Rightarrow> Inl e
         | Inr (x, y, o1) \<Rightarrow>
             Inr (x, w\<lparr>room_heap := (room_heap w)[r := (room_heap w ! r)\<lparr>m_syn := y\<rparr>], w_os := o1\<rparr>))
      else Inl NullDeref)"

text \<open>
  \<^verbatim>\<open>m_connects[fd]->...\<close>: the subscript of a missing key inserts a null pointer, whose use is a
  fault.
\<close>

definition on_conn :: "int32 \<Rightarrow> (sock_os, 'a) mon \<Rightarrow> (world, 'a) mon" where
  "on_conn fd m w =
     (case m_find (m_connects w) fd of
        None \<Rightarrow> Inl NullDeref
      | Some s \<Rightarrow>
          (case m (s, w_os w) of
             Inl e \<Rightarrow> Inl e
           | Inr (x, s', o1) \<Rightarrow> Inr (x, w\<lparr>m_connects := m_update (m_connects w) fd s', w_os := o1\<rparr>)))"

section \<open>Weakest preconditions of the accessors\<close>

lemma mwp_world_os [wp_simps]:
  "mwp (world_os m) Q E w = mwp m (\<lambda>x o1. Q x (w\<lparr>w_os := o1\<rparr>)) E (w_os w)"
  by (simp add: world_os_def wp_simps)

lemma mwp_on_room:
  "r < length (room_heap w) \<Longrightarrow> mwp (on_room r m) Q E w =
    mwp m (\<lambda>x rm. Q x (w\<lparr>room_heap := (room_heap w)[r := rm]\<rparr>)) E (room_heap w ! r)"
  by (simp add: mwp_def on_room_def split: sum.split)

lemma mwp_on_syn:
  "r < length (room_heap w) \<Longrightarrow> mwp (on_syn r m) Q E w =
    mwp m (\<lambda>x (y, o1). Q x (w\<lparr>room_heap := (room_heap w)[r := (room_heap w ! r)\<lparr>m_syn := y\<rparr>], w_os := o1\<rparr>)) E
      (m_syn (room_heap w ! r), w_os w)"
  by (auto simp: mwp_def on_syn_def split: sum.split)

lemma mwp_on_conn:
  "m_find (m_connects w) fd = Some s \<Longrightarrow> mwp (on_conn fd m) Q E w =
    mwp m (\<lambda>x (s', o1). Q x (w\<lparr>m_connects := m_update (m_connects w) fd s', w_os := o1\<rparr>)) E (s, w_os w)"
  by (auto simp: mwp_def on_conn_def split: sum.split)

end
