(* ===== verification/Person_Data.thy ===== *)
theory Person_Data
  imports World
begin

text \<open>
  Persons (\<^verbatim>\<open>Frame/person.cpp\<close>, \<^verbatim>\<open>Frame/person_manager.cpp\<close>): who is logged in, under which name,
  and whether in the hall or in a room. Logging out runs through the room and is in theory
  \<open>Disconnect\<close>.
\<close>

section \<open>Operations\<close>

definition Person_Init :: "int32 \<Rightarrow> string \<Rightarrow> Person" where
  "Person_Init user_id name = \<lparr>m_name = name, m_pstatus = person_in_hall, m_user_id = user_id\<rparr>"

definition Person_ChangeStatus :: "int32 \<Rightarrow> Person \<Rightarrow> int32 \<times> Person" where
  "Person_ChangeStatus status p =
     (if status = m_pstatus p then (fail, p) else (success, p\<lparr>m_pstatus := status\<rparr>))"

definition Person_GetName :: "Person \<Rightarrow> string" where
  "Person_GetName p = m_name p"

definition PersonManager_PersonLogin :: "int32 \<Rightarrow> string \<Rightarrow> (world, int32) mon" where
  "PersonManager_PersonLogin user_id name =
     mbind (mgets m_user_id_to_person) (\<lambda>ps.
       case m_find ps user_id of
         None \<Rightarrow> mseq (mmodify (\<lambda>w. w\<lparr>m_user_id_to_person := m_insert ps user_id (Person_Init user_id name)\<rparr>))
                    (mreturn success)
       | Some _ \<Rightarrow> mreturn fail)"

definition PersonManager_ChangePersonStatus :: "int32 \<Rightarrow> int32 \<Rightarrow> (world, int32) mon" where
  "PersonManager_ChangePersonStatus user_id status =
     mbind (mgets m_user_id_to_person) (\<lambda>ps.
       case m_find ps user_id of
         None \<Rightarrow> mreturn fail
       | Some p \<Rightarrow>
           (let (ret, p') = Person_ChangeStatus status p in
            mseq (mmodify (\<lambda>w. w\<lparr>m_user_id_to_person := m_insert ps user_id p'\<rparr>)) (mreturn ret)))"

definition PersonManager_GetPersonName :: "(int32, Person) stdmap \<Rightarrow> int32 \<Rightarrow> string" where
  "PersonManager_GetPersonName ps user_id =
     (case m_find ps user_id of None \<Rightarrow> ''default'' | Some p \<Rightarrow> Person_GetName p)"

end
