(* ===== verification/Handler_Send.thy ===== *)
theory Handler_Send
  imports Person_Data
begin

text \<open>
  The outgoing side of \<^verbatim>\<open>Frame/message_handler.cpp\<close>: encoding a message into the handler's
  buffer and handing it to the client's socket. A broken connection is reported to \<open>del\<close>, which
  stands for \<^verbatim>\<open>MessageHandler::DeleteClientByFD\<close>; that function itself sends messages, and the
  knot is tied in theory \<open>Disconnect\<close>. \<open>ser\<close> is the protocol buffer serialiser.
\<close>

section \<open>Operations\<close>

type_synonym serialiser = "pmsg \<Rightarrow> byte list"

type_synonym deleter = "int32 \<Rightarrow> (world, unit) mon"

definition SendMessageByConnfd :: "serialiser \<Rightarrow> int32 \<Rightarrow> message \<Rightarrow> (world, int32) mon" where
  "SendMessageByConnfd ser fd mess =
     mbind (mgets m_connects) (\<lambda>cs.
       case m_find cs fd of
         None \<Rightarrow> mreturn fail
       | Some _ \<Rightarrow>
           mbind (mgets send_data) (\<lambda>buf.
           mbind (mlift (CMessage_encode ser mess buf)) (\<lambda>(mess', buf', len).
           mseq (mmodify (\<lambda>w. w\<lparr>send_data := buf'\<rparr>))
             (on_conn fd (TcpSocket_SendData (Some buf') len)))))"

definition SendMessageToClient :: "serialiser \<Rightarrow> deleter \<Rightarrow> int32 \<Rightarrow> message \<Rightarrow> (world, int32) mon" where
  "SendMessageToClient ser del user_id mess =
     mbind (mgets m_user_id_to_fd) (\<lambda>m.
       case m_find m user_id of
         None \<Rightarrow> mreturn fail
       | Some fd \<Rightarrow>
           mbind (SendMessageByConnfd ser fd mess) (\<lambda>ret.
           mseq (if ret = write_status_error then del fd else mreturn ()) (mreturn ret)))"

definition DeleteClientByUserID :: "deleter \<Rightarrow> int32 \<Rightarrow> (world, unit) mon" where
  "DeleteClientByUserID del user_id =
     mbind (mgets m_user_id_to_fd) (\<lambda>m.
       case m_find m user_id of None \<Rightarrow> mreturn () | Some fd \<Rightarrow> del fd)"

definition PlayerLogin :: "int32 \<Rightarrow> int32 \<Rightarrow> (world, int32) mon" where
  "PlayerLogin fd user_id =
     mbind (mgets m_user_id_to_fd) (\<lambda>m.
       case m_find m user_id of
         None \<Rightarrow>
           mseq (mmodify (\<lambda>w. w\<lparr>m_fd_to_user_id := m_insert (m_fd_to_user_id w) fd user_id,
             m_user_id_to_fd := m_insert (m_user_id_to_fd w) user_id fd\<rparr>)) (mreturn success)
       | Some _ \<Rightarrow> mreturn fail)"

text \<open>The result of \<^verbatim>\<open>epoll_ctl\<close> only decides whether a line is printed.\<close>

definition AddToEpoll :: "int32 \<Rightarrow> (world, unit) mon" where
  "AddToEpoll fd = world_os (sys_event (EvEpollAdd fd))"

definition DeleteFromEpoll :: "int32 \<Rightarrow> (world, unit) mon" where
  "DeleteFromEpoll fd = world_os (sys_event (EvEpollDel fd))"

text \<open>A socket object from the free list, or a new one; initialised in both cases.\<close>

definition GetFreeTcpSocket :: "(world, tcp_socket) mon" where
  "GetFreeTcpSocket =
     mbind (mgets free_conns) (\<lambda>q.
       case q of
         s # q' \<Rightarrow> mseq (mmodify (\<lambda>w. w\<lparr>free_conns := q'\<rparr>)) (mreturn (TcpSocket_Init s))
       | [] \<Rightarrow> mbind (mgets raw_buffer) (\<lambda>buf. mreturn (TcpSocket_Init (TcpSocket_new buf buf))))"

end
