(* ===== verification/Game_Room.thy ===== *)
theory Game_Room
  imports Handler_Send
begin

text \<open>
  One game room (\<^verbatim>\<open>Frame/room.h\<close>, \<^verbatim>\<open>Frame/room.cpp\<close>): the player table with its entries 1 to 8, the
  room's state machine waiting, loading, in game, and the messages it sends. Operations that
  only touch the room are computations on the \<open>Room\<close> record; those that reach persons or
  sockets run on the whole state, with the room given by its pointer \<open>r\<close>.
\<close>

section \<open>Data of the room\<close>

definition join_room_not_exist :: int32 where "join_room_not_exist = 0"

definition add_player_no_waiting :: int32 where "add_player_no_waiting = 1"

definition add_player_full :: int32 where "add_player_full = 2"

definition add_player_succeed :: int32 where "add_player_succeed = 3"

definition join_room_error_fail :: int32 where "join_room_error_fail = 4"

lemmas add_player_defs = join_room_not_exist_def add_player_no_waiting_def add_player_full_def
  add_player_succeed_def join_room_error_fail_def

text \<open>Subscripts of the four arrays.\<close>

definition rd_at :: "(Room \<Rightarrow> 'a list) \<Rightarrow> int32 \<Rightarrow> (Room, 'a) mon" where
  "rd_at f i = mbind (mgets f) (\<lambda>xs. mlift (arr_get xs i))"

definition wr_at :: "(Room \<Rightarrow> 'a list) \<Rightarrow> ('a list \<Rightarrow> Room \<Rightarrow> Room) \<Rightarrow> int32 \<Rightarrow> 'a \<Rightarrow> (Room, unit) mon" where
  "wr_at f upd i v = mbind (mgets f) (\<lambda>xs. mbind (mlift (arr_set xs i v)) (\<lambda>xs'. mmodify (upd xs')))"

abbreviation "set_player \<equiv> wr_at m_players (\<lambda>xs rm. rm\<lparr>m_players := xs\<rparr>)"
abbreviation "set_team \<equiv> wr_at m_team_id (\<lambda>xs rm. rm\<lparr>m_team_id := xs\<rparr>)"
abbreviation "set_online \<equiv> wr_at m_is_online (\<lambda>xs rm. rm\<lparr>m_is_online := xs\<rparr>)"
abbreviation "set_loaded \<equiv> wr_at m_is_loading_succeed (\<lambda>xs rm. rm\<lparr>m_is_loading_succeed := xs\<rparr>)"

text \<open>The constructor sets \<^verbatim>\<open>m_syn\<close> only; the other members are what the memory held.\<close>

definition Room_new :: "Room \<Rightarrow> Room" where
  "Room_new raw = raw\<lparr>m_syn := SYN_new\<rparr>"

definition Room_Init :: "int32 \<Rightarrow> int32 \<Rightarrow> int32 \<Rightarrow> Room \<Rightarrow> Room" where
  "Room_Init game_mode team_mode room_id rm =
     rm\<lparr>m_is_online := map (\<lambda>_. False) (m_is_online rm), m_status := room_status_waiting,
       m_player_cnt := 0, m_online_player_cnt := 0, m_game_mode := game_mode,
       m_team_mode := team_mode, m_room_id := room_id, m_game_option := 10\<rparr>"

text \<open>The search loop: \<open>i\<close> is the loop variable, \<open>k\<close> the number of rounds left.\<close>

primrec scan_player :: "nat \<Rightarrow> int32 \<Rightarrow> int32 \<Rightarrow> (Room, int32) mon" where
  "scan_player 0 i user_id = mreturn 0"
| "scan_player (Suc k) i user_id =
     mbind (rd_at m_is_online i) (\<lambda>on.
       if \<not> on then scan_player k (i + 1) user_id
       else mbind (rd_at m_players i) (\<lambda>u.
         if u = user_id then mreturn i else scan_player k (i + 1) user_id))"

definition Room_GetPlayerID :: "int32 \<Rightarrow> (Room, int32) mon" where
  "Room_GetPlayerID user_id =
     mbind (mgets m_player_cnt) (\<lambda>cnt. scan_player (nat cnt) 1 user_id)"

definition Room_GetGameStatus :: "(Room, int32) mon" where
  "Room_GetGameStatus = mgets m_status"

definition Room_GetOnlinePlayerCount :: "(Room, int32) mon" where
  "Room_GetOnlinePlayerCount = mgets m_online_player_cnt"

definition Room_GetRoomID :: "(Room, int32) mon" where
  "Room_GetRoomID = mgets m_room_id"

text \<open>The part of \<^verbatim>\<open>AddPlayer\<close> that fills the table.\<close>

definition Room_add_entry :: "int32 \<Rightarrow> (Room, int32) mon" where
  "Room_add_entry user_id =
     mbind (mgets m_status) (\<lambda>status.
       if status = room_status_waiting then
         mbind (mgets m_player_cnt) (\<lambda>cnt.
           if cnt \<ge> max_player_cnt then mreturn add_player_full
           else
             mseq (mmodify (\<lambda>rm. rm\<lparr>m_player_cnt := cnt + 1, m_online_player_cnt := m_online_player_cnt rm + 1\<rparr>)) (
             mseq (set_player (cnt + 1) user_id) (
             mbind (mgets m_team_mode) (\<lambda>mode.
             mseq (set_team (cnt + 1) (if mode = 1 then cnt + 1 else 1)) (
             mseq (set_online (cnt + 1) True) (mreturn add_player_succeed))))))
       else mreturn add_player_no_waiting)"

definition Room_AddPlayer :: "nat \<Rightarrow> int32 \<Rightarrow> (world, int32) mon" where
  "Room_AddPlayer r user_id =
     mbind (on_room r (Room_add_entry user_id)) (\<lambda>ret.
       if ret = add_player_succeed
       then mseq (PersonManager_ChangePersonStatus user_id person_in_room) (mreturn ret)
       else mreturn ret)"

definition Room_ChangeTeamID :: "int32 \<Rightarrow> int32 \<Rightarrow> (Room, int32) mon" where
  "Room_ChangeTeamID user_id team_id =
     mbind (Room_GetPlayerID user_id) (\<lambda>pos.
       if pos = 0 then mreturn fail else mseq (set_team pos team_id) (mreturn success))"

definition Room_ChangeGameOption :: "int32 \<Rightarrow> int32 \<Rightarrow> (Room, int32) mon" where
  "Room_ChangeGameOption user_id game_option =
     mbind (Room_GetPlayerID user_id) (\<lambda>pos.
       if pos = 0 then mreturn fail
       else if pos = 1 then mseq (mmodify (\<lambda>rm. rm\<lparr>m_game_option := game_option\<rparr>)) (mreturn success)
       else mreturn fail)"

definition Room_GetRoomInfo :: "Room \<Rightarrow> pmsg" where
  "Room_GetRoomInfo rm =
     pb_set (pb_set (pb_set (pb_set (pb_set (pb_new PBRoomInfo)
       1 (VInt (m_room_id rm))) 2 (VInt (m_online_player_cnt rm))) 3 (VInt max_player_cnt))
       4 (VInt (m_game_mode rm))) 5 (VInt (m_team_mode rm))"

primrec detail_loop :: "(int32 \<Rightarrow> string) \<Rightarrow> nat \<Rightarrow> int32 \<Rightarrow> pmsg \<Rightarrow> (Room, pmsg) mon" where
  "detail_loop names 0 i proto = mreturn proto"
| "detail_loop names (Suc k) i proto =
     mbind (rd_at m_is_online i) (\<lambda>on.
       if \<not> on then detail_loop names k (i + 1) proto
       else mbind (rd_at m_players i) (\<lambda>u.
         mbind (rd_at m_team_id i) (\<lambda>t.
           detail_loop names k (i + 1)
             (pb_add (pb_add (pb_add proto 1 (VStr (names u))) 2 (VInt t)) 3 (VInt i)))))"

definition Room_detail :: "(int32 \<Rightarrow> string) \<Rightarrow> (Room, pmsg) mon" where
  "Room_detail names =
     mbind (mgets m_game_option) (\<lambda>opt.
     mbind (mgets m_player_cnt) (\<lambda>cnt.
     mbind (detail_loop names (nat cnt) 1 (pb_set (pb_new PBDetailRoomInfo) 4 (VInt opt))) (\<lambda>proto.
       mreturn (pb_set (pb_new SCPullOneRoomDetail) 1 (VMsg proto)))))"

definition Room_GetDetailInfo :: "nat \<Rightarrow> (world, pmsg) mon" where
  "Room_GetDetailInfo r =
     mbind (mgets m_user_id_to_person) (\<lambda>ps. on_room r (Room_detail (PersonManager_GetPersonName ps)))"

section \<open>Broadcasting\<close>

text \<open>
  The loop of \<^verbatim>\<open>SendMessageToEveryone\<close>. The player table is read afresh in every round, because a
  failed send removes players. After the last entry a further round would read past the array.
\<close>

fun send_everyone_loop :: "serialiser \<Rightarrow> deleter \<Rightarrow> nat \<Rightarrow> message \<Rightarrow> nat \<Rightarrow> int32 \<Rightarrow> (world, unit) mon" where
  "send_everyone_loop ser del r mess k i =
     mbind (on_room r (mgets m_player_cnt)) (\<lambda>cnt.
       if i \<le> cnt then
         (case k of
            0 \<Rightarrow> mfault OutOfBounds
          | Suc k' \<Rightarrow>
              mbind (on_room r (rd_at m_is_online i)) (\<lambda>on.
              mseq (if on
                    then mbind (on_room r (rd_at m_players i)) (\<lambda>u. SendMessageToClient ser del u mess)
                    else mreturn 0)
                (send_everyone_loop ser del r mess k' (i + 1))))
       else mreturn ())"

declare send_everyone_loop.simps [simp del]

definition Room_SendMessageToEveryone :: "serialiser \<Rightarrow> deleter \<Rightarrow> nat \<Rightarrow> message \<Rightarrow> (world, unit) mon" where
  "Room_SendMessageToEveryone ser del r mess = send_everyone_loop ser del r mess (nat max_player_cnt) 1"

section \<open>The state machine\<close>

definition Room_SendGameStart :: "serialiser \<Rightarrow> deleter \<Rightarrow> nat \<Rightarrow> (world, unit) mon" where
  "Room_SendGameStart ser del r =
     mbind (on_room r Room_GetGameStatus) (\<lambda>status.
       if status \<noteq> room_status_loading then mreturn ()
       else
         mseq (Room_SendMessageToEveryone ser del r (mk_message (-1) (pb_new SCGameStart))) (
         mseq (on_syn r SYN_Init)
           (on_room r (mmodify (\<lambda>rm. rm\<lparr>m_status := room_status_ingame\<rparr>)))))"

text \<open>\<^verbatim>\<open>rand() % 10007\<close>; C's \<^verbatim>\<open>rand\<close> is never negative.\<close>

definition Room_SendGameLoading :: "serialiser \<Rightarrow> deleter \<Rightarrow> nat \<Rightarrow> (world, unit) mon" where
  "Room_SendGameLoading ser del r =
     mbind (on_room r Room_GetGameStatus) (\<lambda>status.
       if status \<noteq> room_status_waiting then mreturn ()
       else
         mbind (world_os sys_call) (\<lambda>x.
         mseq (Room_SendMessageToEveryone ser del r
                 (mk_message (-1) (pb_set (pb_new SCGameLoading) 1 (VInt (x smod 10007))))) (
         mseq (on_room r (mmodify (\<lambda>rm. rm\<lparr>m_status := room_status_loading, m_loading_succeed_cnt := 0\<rparr>))) (
         mbind (world_os GetNowTimeSecond) (\<lambda>now.
           on_room r (mmodify (\<lambda>rm. rm\<lparr>m_loading_time_second := now,
             m_is_loading_succeed := map (\<lambda>_. False) (m_is_loading_succeed rm)\<rparr>)))))))"

text \<open>Removing an entry of a waiting room: the later entries move down by one.\<close>

primrec shift_loop :: "nat \<Rightarrow> int32 \<Rightarrow> (Room, unit) mon" where
  "shift_loop 0 i = mreturn ()"
| "shift_loop (Suc k) i =
     mbind (rd_at m_players i) (\<lambda>u.
     mseq (set_player (i - 1) u) (
     mbind (mgets m_team_mode) (\<lambda>mode.
     mseq (if mode = 2 then mbind (rd_at m_team_id i) (\<lambda>t. set_team (i - 1) t) else mreturn ())
       (shift_loop k (i + 1)))))"

definition Room_remove_waiting :: "int32 \<Rightarrow> (Room, unit) mon" where
  "Room_remove_waiting pos =
     mbind (mgets m_player_cnt) (\<lambda>cnt.
     mseq (shift_loop (nat (cnt - pos)) (pos + 1)) (
     mseq (set_online cnt False)
       (mmodify (\<lambda>rm. rm\<lparr>m_player_cnt := cnt - 1, m_online_player_cnt := m_online_player_cnt rm - 1\<rparr>))))"

definition Room_set_offline :: "int32 \<Rightarrow> (Room, unit) mon" where
  "Room_set_offline pos =
     mseq (set_online pos False)
       (mmodify (\<lambda>rm. rm\<lparr>m_online_player_cnt := m_online_player_cnt rm - 1\<rparr>))"

definition Room_DeletePlayer :: "serialiser \<Rightarrow> deleter \<Rightarrow> nat \<Rightarrow> int32 \<Rightarrow> (world, int32) mon" where
  "Room_DeletePlayer ser del r user_id =
     mbind (on_room r (Room_GetPlayerID user_id)) (\<lambda>pos.
     if pos = 0 then mreturn fail else
     mbind (on_room r Room_GetGameStatus) (\<lambda>status.
     if status = room_status_waiting then
       mseq (on_room r (Room_remove_waiting pos)) (
       mbind (Room_GetDetailInfo r) (\<lambda>detail.
       mseq (Room_SendMessageToEveryone ser del r (mk_message (-1) detail)) (
       mseq (PersonManager_ChangePersonStatus user_id person_in_hall) (mreturn success))))
     else if status = room_status_loading then
       mseq (on_room r (Room_set_offline pos)) (
       mseq (Room_SendMessageToEveryone ser del r
              (mk_message (-1) (pb_set (pb_new SCPlayerExitGame) 1 (VInt pos)))) (
       mbind (on_room r (rd_at m_is_loading_succeed pos)) (\<lambda>loaded.
       mseq (if loaded
             then on_room r (mseq (mmodify (\<lambda>rm. rm\<lparr>m_loading_succeed_cnt := m_loading_succeed_cnt rm - 1\<rparr>))
                    (set_loaded pos False))
             else mbind (on_room r (mgets (\<lambda>rm. m_loading_succeed_cnt rm \<ge> m_online_player_cnt rm))) (\<lambda>all.
                    if all then Room_SendGameStart ser del r else mreturn ()))
         (mreturn success))))
     else if status = room_status_ingame then
       mseq (on_room r (Room_set_offline pos)) (
       mbind (on_syn r SYN_GetNowFrame) (\<lambda>frame.
       mseq (on_syn r (SYN_Add (mk_message frame (pb_set (pb_new SCPlayerExitGame) 1 (VInt pos)))))
         (mreturn success)))
     else mreturn fail))"

definition Room_GameEnd :: "nat \<Rightarrow> int32 \<Rightarrow> (world, int32) mon" where
  "Room_GameEnd r user_id =
     mbind (on_room r Room_GetGameStatus) (\<lambda>status.
       if status = room_status_ingame then
         mbind (on_room r (Room_GetPlayerID user_id)) (\<lambda>pos.
           if pos \<noteq> 0 then
             mseq (on_room r (Room_set_offline pos)) (
             mseq (PersonManager_ChangePersonStatus user_id person_in_hall) (mreturn success))
           else mreturn fail)
       else mreturn fail)"

text \<open>The loop of \<^verbatim>\<open>OnTick\<close> that removes the players who take too long to load.\<close>

fun kick_loop :: "deleter \<Rightarrow> nat \<Rightarrow> nat \<Rightarrow> int32 \<Rightarrow> (world, unit) mon" where
  "kick_loop del r k i =
     mbind (on_room r (mgets m_player_cnt)) (\<lambda>cnt.
       if i \<le> cnt then
         (case k of
            0 \<Rightarrow> mfault OutOfBounds
          | Suc k' \<Rightarrow>
              mbind (on_room r (rd_at m_is_online i)) (\<lambda>on.
              mseq (if \<not> on then mreturn ()
                    else mbind (on_room r (rd_at m_is_loading_succeed i)) (\<lambda>loaded.
                      if loaded then mreturn ()
                      else mbind (on_room r (rd_at m_players i)) (\<lambda>u. DeleteClientByUserID del u)))
                (kick_loop del r k' (i + 1))))
       else mreturn ())"

declare kick_loop.simps [simp del]

text \<open>The room's \<^verbatim>\<open>SYN\<close> object inside the state, for \<^verbatim>\<open>SYN::Run\<close>.\<close>

definition syn_get :: "nat \<Rightarrow> world \<Rightarrow> syn_os" where
  "syn_get r w = (m_syn (room_heap w ! r), w_os w)"

definition syn_put :: "nat \<Rightarrow> syn_os \<Rightarrow> world \<Rightarrow> world" where
  "syn_put r = (\<lambda>(y, o1) w. w\<lparr>room_heap := (room_heap w)[r := (room_heap w ! r)\<lparr>m_syn := y\<rparr>], w_os := o1\<rparr>)"

definition Room_OnTick :: "serialiser \<Rightarrow> deleter \<Rightarrow> nat \<Rightarrow> (world, unit) mon" where
  "Room_OnTick ser del r =
     mbind (on_room r Room_GetGameStatus) (\<lambda>status.
       if status = room_status_loading then
         mbind (world_os GetNowTimeSecond) (\<lambda>now.
         mbind (on_room r (mgets m_loading_time_second)) (\<lambda>since.
           if now - since \<ge> max_loading_time_second
           then mseq (kick_loop del r (nat max_player_cnt) 1) (Room_SendGameStart ser del r)
           else mreturn ()))
       else if status = room_status_ingame then
         SYN_Run (syn_get r) (syn_put r) (Room_SendMessageToEveryone ser del r) (\<lambda>w. length (m_connects w))
       else mreturn ())"

end
