(* ===== verification/Room_Manager.thy ===== *)
theory Room_Manager
  imports Game_Room
begin

text \<open>
  The room manager (\<^verbatim>\<open>Frame/room_manager.cpp\<close>): which rooms exist under which number, which user is
  in which room, and the queue of rooms to be used again.
\<close>

section \<open>Operations\<close>

text \<open>
  Taking a room from the queue, with the number it had, or allocating one with a new number.
\<close>

definition take_room :: "(world, nat \<times> int32) mon" where
  "take_room =
     mbind (mgets m_free_room) (\<lambda>q.
       case q of
         r # q' \<Rightarrow>
           mseq (mmodify (\<lambda>w. w\<lparr>m_free_room := q'\<rparr>)) (
           mbind (on_room r Room_GetRoomID) (\<lambda>room_id. mreturn (r, room_id)))
       | [] \<Rightarrow>
           mbind (mgets (\<lambda>w. (length (room_heap w), s_room_id w))) (\<lambda>new.
           mseq (mmodify (\<lambda>w. w\<lparr>room_heap := room_heap w @ [Room_new (raw_room w)], s_room_id := s_room_id w + 1\<rparr>))
             (mreturn new)))"

text \<open>\<open>room_id\<close> is the caller's reference argument; the result carries its final value.\<close>

definition CreateRoom :: "int32 \<Rightarrow> int32 \<Rightarrow> int32 \<Rightarrow> int32 \<Rightarrow> (world, int32 \<times> int32) mon" where
  "CreateRoom user_id game_mode team_mode room_id =
     mbind (mgets belong_room) (\<lambda>b.
       case m_find b user_id of
         Some _ \<Rightarrow> mreturn (fail, room_id)
       | None \<Rightarrow>
           mbind take_room (\<lambda>(new_room, new_id).
           mseq (mmodify (\<lambda>w. w\<lparr>belong_room := m_insert (belong_room w) user_id new_room,
                  rooms := m_insert (rooms w) new_id new_room\<rparr>)) (
           mseq (on_room new_room (mmodify (Room_Init game_mode team_mode new_id))) (
           mseq (Room_AddPlayer new_room user_id) (mreturn (success, new_id))))))"

definition JoinRoom :: "int32 \<Rightarrow> int32 \<Rightarrow> (world, int32) mon" where
  "JoinRoom user_id room_id =
     mbind (mgets (\<lambda>w. m_find (rooms w) room_id)) (\<lambda>found.
       case found of
         None \<Rightarrow> mreturn join_room_not_exist
       | Some r \<Rightarrow>
           mbind (mgets belong_room) (\<lambda>b.
             case m_find b user_id of
               Some _ \<Rightarrow> mreturn join_room_error_fail
             | None \<Rightarrow>
                 mbind (Room_AddPlayer r user_id) (\<lambda>ret.
                 mseq (if ret = add_player_succeed
                       then mmodify (\<lambda>w. w\<lparr>belong_room := m_insert (belong_room w) user_id r\<rparr>)
                       else mreturn ())
                   (mreturn ret))))"

definition DeletePlayerFromRoom :: "serialiser \<Rightarrow> deleter \<Rightarrow> int32 \<Rightarrow> (world, int32) mon" where
  "DeletePlayerFromRoom ser del user_id =
     mbind (mgets belong_room) (\<lambda>b.
       case m_find b user_id of
         None \<Rightarrow> mreturn fail
       | Some r \<Rightarrow>
           mseq (mmodify (\<lambda>w. w\<lparr>belong_room := m_erase (belong_room w) user_id\<rparr>))
             (Room_DeletePlayer ser del r user_id))"

definition GameEndFromRoom :: "int32 \<Rightarrow> (world, int32) mon" where
  "GameEndFromRoom user_id =
     mbind (mgets belong_room) (\<lambda>b.
       case m_find b user_id of
         None \<Rightarrow> mreturn fail
       | Some r \<Rightarrow>
           mseq (mmodify (\<lambda>w. w\<lparr>belong_room := m_erase (belong_room w) user_id\<rparr>))
             (Room_GameEnd r user_id))"

text \<open>Null is \<open>None\<close>.\<close>

definition GetRoomByUserID :: "int32 \<Rightarrow> (world, nat option) mon" where
  "GetRoomByUserID user_id = mgets (\<lambda>w. m_find (belong_room w) user_id)"

definition GetRoomByRoomID :: "int32 \<Rightarrow> (world, nat option) mon" where
  "GetRoomByRoomID room_id = mgets (\<lambda>w. m_find (rooms w) room_id)"

fun all_room_info :: "(int32 \<times> nat) list \<Rightarrow> pmsg \<Rightarrow> (world, pmsg) mon" where
  "all_room_info [] ret = mreturn ret"
| "all_room_info ((_, r) # it) ret =
     mbind (on_room r Room_GetGameStatus) (\<lambda>status.
       if status \<noteq> room_status_waiting then all_room_info it ret
       else mbind (on_room r (mgets Room_GetRoomInfo)) (\<lambda>proto. all_room_info it (pb_add ret 1 (VMsg proto))))"

definition GetAllRoomInfo :: "(world, pmsg) mon" where
  "GetAllRoomInfo = mbind (mgets rooms) (\<lambda>m. all_room_info m (pb_new SCPullAllRoomInfo))"

definition GetDetailRoomInfo :: "int32 \<Rightarrow> (world, pmsg) mon" where
  "GetDetailRoomInfo room_id =
     mbind (mgets (\<lambda>w. m_find (rooms w) room_id)) (\<lambda>found.
       case found of None \<Rightarrow> mreturn (pb_new SCPullOneRoomDetail) | Some r \<Rightarrow> Room_GetDetailInfo r)"

text \<open>
  The iteration over \<^verbatim>\<open>rooms_\<close>. Nothing a room does in its \<^verbatim>\<open>OnTick\<close> inserts into or erases from the
  map, so the entries still to be visited are those of the map at the start; an entry that had
  disappeared would be a dangling iterator.
\<close>

fun rooms_tick_loop :: "serialiser \<Rightarrow> deleter \<Rightarrow> (int32 \<times> nat) list \<Rightarrow> (world, unit) mon" where
  "rooms_tick_loop ser del [] = mreturn ()"
| "rooms_tick_loop ser del ((room_id, r) # it) =
     mseq (Room_OnTick ser del r) (
     mbind (mgets rooms) (\<lambda>m.
       if m_find m room_id \<noteq> Some r then mfault DanglingIter
       else mbind (on_room r Room_GetOnlinePlayerCount) (\<lambda>online.
         mseq (if online \<le> 0
               then mmodify (\<lambda>w. w\<lparr>m_free_room := m_free_room w @ [r], rooms := m_erase (rooms w) room_id\<rparr>)
               else mreturn ())
           (rooms_tick_loop ser del it))))"

definition RoomManager_OnTick :: "serialiser \<Rightarrow> deleter \<Rightarrow> (world, unit) mon" where
  "RoomManager_OnTick ser del = mbind (mgets rooms) (\<lambda>m. rooms_tick_loop ser del m)"

text \<open>\<^verbatim>\<open>Room::AddLoadingSucceed\<close>, which calls back into the manager.\<close>

definition Room_AddLoadingSucceed :: "serialiser \<Rightarrow> deleter \<Rightarrow> nat \<Rightarrow> int32 \<Rightarrow> (world, int32) mon" where
  "Room_AddLoadingSucceed ser del r user_id =
     mbind (on_room r Room_GetGameStatus) (\<lambda>status.
     if status \<noteq> room_status_loading then mseq (DeletePlayerFromRoom ser del user_id) (mreturn 0)
     else on_room r (
       mbind (Room_GetPlayerID user_id) (\<lambda>pos.
       if pos = 0 then mreturn 0
       else mbind (rd_at m_is_loading_succeed pos) (\<lambda>loaded.
         if loaded then mreturn 0
         else
           mseq (set_loaded pos True) (
           mseq (mmodify (\<lambda>rm. rm\<lparr>m_loading_succeed_cnt := m_loading_succeed_cnt rm + 1\<rparr>))
             (mgets (\<lambda>rm. if m_loading_succeed_cnt rm \<ge> m_online_player_cnt rm then 1 else 0)))))))"

end
