(* ===== verification/Heartbeat.thy ===== *)
theory Heartbeat
  imports Handler_Send
begin

text \<open>
  The heartbeat table (\<^verbatim>\<open>Frame/heartbeat.h\<close>, \<^verbatim>\<open>Frame/heartbeat.cpp\<close>): the time of the last sign of
  life of every connection, once as a map from descriptors and once as a set ordered by time,
  from whose front silent clients are dropped.
\<close>

section \<open>Operations\<close>

text \<open>The insertion both \<^verbatim>\<open>InitFD\<close> and \<^verbatim>\<open>UpdateFD\<close> end with.\<close>

definition hb_stamp :: "int32 \<Rightarrow> (world, unit) mon" where
  "hb_stamp fd =
     mbind (world_os GetNowTimeSecond) (\<lambda>nowsec.
       mmodify (\<lambda>w. w\<lparr>m_sec_fd := s_insert (m_sec_fd w) (nowsec, fd),
         m_fd_to_sec := m_insert (m_fd_to_sec w) fd nowsec\<rparr>))"

definition Heartbeat_InitFD :: "int32 \<Rightarrow> (world, unit) mon" where
  "Heartbeat_InitFD fd =
     mbind (mgets m_fd_to_sec) (\<lambda>m. case m_find m fd of Some _ \<Rightarrow> mreturn () | None \<Rightarrow> hb_stamp fd)"

definition Heartbeat_DeleteFD :: "int32 \<Rightarrow> (world, int32) mon" where
  "Heartbeat_DeleteFD fd =
     mbind (mgets m_fd_to_sec) (\<lambda>m.
       case m_find m fd of
         None \<Rightarrow> mreturn fail
       | Some sec \<Rightarrow>
           mbind (mgets m_sec_fd) (\<lambda>s.
             if (sec, fd) \<notin> set s then mreturn fail
             else mseq (mmodify (\<lambda>w. w\<lparr>m_sec_fd := s_erase s (sec, fd), m_fd_to_sec := m_erase m fd\<rparr>))
                    (mreturn success)))"

definition Heartbeat_UpdateFD :: "int32 \<Rightarrow> (world, unit) mon" where
  "Heartbeat_UpdateFD fd =
     mbind (Heartbeat_DeleteFD fd) (\<lambda>ret. if ret = fail then mreturn () else hb_stamp fd)"

text \<open>The element after \<open>p\<close> in the iteration order of a set; \<open>None\<close> is \<^verbatim>\<open>end()\<close>.\<close>

fun s_next :: "'a::linorder list \<Rightarrow> 'a \<Rightarrow> 'a option" where
  "s_next [] p = None"
| "s_next (x # s) p = (if p < x then Some x else s_next s p)"

definition s_begin :: "'a list \<Rightarrow> 'a option" where
  "s_begin s = (case s of [] \<Rightarrow> None | x # _ \<Rightarrow> Some x)"

text \<open>
  The loop of \<^verbatim>\<open>OnTick\<close>. The iterator has moved on before the client is deleted; when the
  deletion removes that next entry too, the iterator dangles. \<open>k\<close> bounds the number of rounds.
\<close>

primrec hb_tick_loop :: "deleter \<Rightarrow> int32 \<Rightarrow> nat \<Rightarrow> (int32 \<times> int32) option \<Rightarrow> (world, unit) mon" where
  "hb_tick_loop del nowsec 0 it = mfault OutOfFuel"
| "hb_tick_loop del nowsec (Suc k) it =
     (case it of
        None \<Rightarrow> mreturn ()
      | Some (sec, fd) \<Rightarrow>
          mbind (mgets m_sec_fd) (\<lambda>s.
            if (sec, fd) \<notin> set s then mfault DanglingIter
            else if nowsec - sec > 40 then
              mseq (del fd) (hb_tick_loop del nowsec k (s_next s (sec, fd)))
            else mreturn ()))"

definition Heartbeat_OnTick :: "deleter \<Rightarrow> int32 \<Rightarrow> (world, unit) mon" where
  "Heartbeat_OnTick del nowsec =
     mbind (mgets m_sec_fd) (\<lambda>s. hb_tick_loop del nowsec (Suc (length s)) (s_begin s))"

end
