(* ===== verification/Disconnect.thy ===== *)
theory Disconnect
  imports Room_Manager Heartbeat
begin

text \<open>
  Removing a client (\<^verbatim>\<open>MessageHandler::DeleteClientByFD\<close> and \<^verbatim>\<open>PlayerLogout\<close>, \<^verbatim>\<open>PersonManager::PersonLogout\<close>,
  \<^verbatim>\<open>Person::OnExit\<close>). The removal tells the other players of the room, and a failing send removes
  the next client, so these functions are mutually recursive through the room. Each is defined
  with the recursive call as an argument; \<open>DeleteClientByFD\<close> ties the knot with as many levels as
  there are connections, and the unfolding lemma shows that this bound is never reached.
\<close>

section \<open>Operations\<close>

definition Person_OnExit :: "serialiser \<Rightarrow> deleter \<Rightarrow> Person \<Rightarrow> (world, unit) mon" where
  "Person_OnExit ser del p =
     (if m_pstatus p = person_in_hall then mreturn ()
      else if m_pstatus p = person_in_room
      then mseq (DeletePlayerFromRoom ser del (m_user_id p)) (mreturn ())
      else mreturn ())"

text \<open>The iterator found first is used again after \<^verbatim>\<open>OnExit\<close>.\<close>

definition PersonLogout :: "serialiser \<Rightarrow> deleter \<Rightarrow> int32 \<Rightarrow> (world, int32) mon" where
  "PersonLogout ser del user_id =
     mbind (mgets m_user_id_to_person) (\<lambda>ps.
       case m_find ps user_id of
         None \<Rightarrow> mreturn fail
       | Some p \<Rightarrow>
           mseq (Person_OnExit ser del p) (
           mbind (mgets m_user_id_to_person) (\<lambda>ps'.
             case m_find ps' user_id of
               None \<Rightarrow> mfault DanglingIter
             | Some _ \<Rightarrow>
                 mseq (mmodify (\<lambda>w. w\<lparr>m_user_id_to_person := m_erase ps' user_id\<rparr>)) (mreturn success))))"

definition PlayerLogout :: "serialiser \<Rightarrow> deleter \<Rightarrow> int32 \<Rightarrow> (world, int32) mon" where
  "PlayerLogout ser del user_id =
     mbind (mgets m_user_id_to_fd) (\<lambda>m.
     mseq (case m_find m user_id of
             None \<Rightarrow> mreturn ()
           | Some fd \<Rightarrow>
               mseq (mmodify (\<lambda>w. w\<lparr>m_user_id_to_fd := m_erase (m_user_id_to_fd w) user_id\<rparr>)) (
               mseq (PersonLogout ser del user_id)
                 (mmodify (\<lambda>w. w\<lparr>m_fd_to_user_id := m_erase (m_fd_to_user_id w) fd\<rparr>))))
       (mreturn success))"

text \<open>The part of \<^verbatim>\<open>DeleteClientByFD\<close> before the logout: heartbeat, epoll, socket, connection table.\<close>

definition drop_connection :: "int32 \<Rightarrow> (world, unit) mon" where
  "drop_connection fd =
     mseq (Heartbeat_DeleteFD fd) (
     mseq (DeleteFromEpoll fd) (
     mseq (on_conn fd TcpSocket_close_socket) (
     mbind (mgets m_connects) (\<lambda>cs.
       case m_find cs fd of
         None \<Rightarrow> mfault NullDeref
       | Some client \<Rightarrow> mmodify (\<lambda>w. w\<lparr>m_connects := m_erase cs fd, free_conns := free_conns w @ [client]\<rparr>)))))"

definition DeleteClientByFD_body :: "serialiser \<Rightarrow> deleter \<Rightarrow> int32 \<Rightarrow> (world, unit) mon" where
  "DeleteClientByFD_body ser del fd =
     mbind (mgets m_connects) (\<lambda>cs.
       case m_find cs fd of
         None \<Rightarrow> mreturn ()
       | Some _ \<Rightarrow>
           mseq (drop_connection fd) (
           mbind (mgets m_fd_to_user_id) (\<lambda>m.
             case m_find m fd of
               None \<Rightarrow> mreturn ()
             | Some user_id \<Rightarrow> mseq (PlayerLogout ser del user_id) (mreturn ()))))"

primrec DeleteClientByFD_rec :: "serialiser \<Rightarrow> nat \<Rightarrow> deleter" where
  "DeleteClientByFD_rec ser 0 = (\<lambda>fd. mfault OutOfFuel)"
| "DeleteClientByFD_rec ser (Suc n) = DeleteClientByFD_body ser (DeleteClientByFD_rec ser n)"

definition DeleteClientByFD :: "serialiser \<Rightarrow> deleter" where
  "DeleteClientByFD ser fd w = DeleteClientByFD_rec ser (Suc (length (m_connects w))) fd w"

end
