(* ===== verification/Disconnect_Knot.thy ===== *)
theory Disconnect_Knot
  imports Disconnect
begin

text \<open>
  The mutual recursion behind \<open>DeleteClientByFD\<close> ends: every recursive call happens after a
  connection has been dropped, and nothing on the way opens one. Hence the bound of the
  definition is never reached and the function satisfies the equation the code is written as.
\<close>

section \<open>Computations that agree on small states\<close>

text \<open>
  Two computations agree up to \<open>n\<close> connections when they do the same on every state with at most
  \<open>n\<close> connections, and never end with more connections than they started with.
\<close>

definition agree :: "nat \<Rightarrow> (world, 'a) mon \<Rightarrow> (world, 'a) mon \<Rightarrow> bool" where
  "agree n m m' \<longleftrightarrow> (\<forall>w. length (m_connects w) \<le> n \<longrightarrow>
     m w = m' w \<and> (\<forall>x w'. m w = Inr (x, w') \<longrightarrow> length (m_connects w') \<le> length (m_connects w)))"

named_theorems agree_rules \<open>composition of agreeing computations\<close>

lemma agree_return [agree_rules]: "agree n (mreturn x) (mreturn x)"
  by (simp add: agree_def run_simps)

lemma agree_fault [agree_rules]: "agree n (mfault e) (mfault e)"
  by (simp add: agree_def run_simps)

lemma agree_gets [agree_rules]: "agree n (mgets f) (mgets f)"
  by (simp add: agree_def run_simps)

lemma agree_modify: "(\<And>w. length (m_connects (f w)) \<le> length (m_connects w)) \<Longrightarrow> agree n (mmodify f) (mmodify f)"
  by (simp add: agree_def run_simps)

lemma agree_lift [agree_rules]: "agree n (mlift r) (mlift r)"
  by (simp add: agree_def run_simps split: sum.split)

lemma agree_bind [agree_rules]:
  assumes "agree n m m'" and "\<And>x. agree n (k x) (k' x)"
  shows "agree n (mbind m k) (mbind m' k')"
  unfolding agree_def
proof (intro allI impI)
  fix w :: world
  assume n: "length (m_connects w) \<le> n"
  show "mbind m k w = mbind m' k' w
    \<and> (\<forall>x w'. mbind m k w = Inr (x, w') \<longrightarrow> length (m_connects w') \<le> length (m_connects w))"
  proof (cases "m w")
    case (Inl e)
    then show ?thesis using assms(1) n by (simp add: agree_def run_simps)
  next
    case (Inr p)
    then obtain x w1 where m: "m w = Inr (x, w1)" "m' w = Inr (x, w1)" "length (m_connects w1) \<le> length (m_connects w)"
      using assms(1) n by (cases p) (auto simp: agree_def)
    have "k x w1 = k' x w1"
      and "\<And>y w'. k x w1 = Inr (y, w') \<Longrightarrow> length (m_connects w') \<le> length (m_connects w1)"
      using assms(2) [of x] n m(3) by (simp_all add: agree_def)
    then show ?thesis using m by (auto simp: run_simps intro: order_trans)
  qed
qed

lemma agree_seq [agree_rules]: "agree n m m' \<Longrightarrow> agree n k k' \<Longrightarrow> agree n (mseq m k) (mseq m' k')"
  unfolding mseq_def by (rule agree_bind)

lemma agree_world_os [agree_rules]: "agree n (world_os m) (world_os m)"
  by (auto simp: agree_def world_os_def run_simps split: sum.splits)

lemma agree_on_room [agree_rules]: "agree n (on_room r m) (on_room r m)"
  by (auto simp: agree_def on_room_def split: sum.splits if_splits)

lemma agree_on_syn [agree_rules]: "agree n (on_syn r m) (on_syn r m)"
  by (auto simp: agree_def on_syn_def split: sum.splits if_splits)

lemma agree_on_conn [agree_rules]: "agree n (on_conn fd m) (on_conn fd m)"
  by (auto simp: agree_def on_conn_def split: sum.splits option.splits)

section \<open>The functions of the cycle\<close>

lemma agree_SendMessageByConnfd [agree_rules]:
  "agree n (SendMessageByConnfd ser fd mess) (SendMessageByConnfd ser fd mess)"
  unfolding SendMessageByConnfd_def
  by (auto intro!: agree_rules agree_modify split: option.split)

lemma agree_ChangePersonStatus [agree_rules]:
  "agree n (PersonManager_ChangePersonStatus u st) (PersonManager_ChangePersonStatus u st)"
  unfolding PersonManager_ChangePersonStatus_def
  by (auto intro!: agree_rules agree_modify split: option.split prod.split)

lemma agree_GetDetailInfo [agree_rules]: "agree n (Room_GetDetailInfo r) (Room_GetDetailInfo r)"
  unfolding Room_GetDetailInfo_def by (intro agree_rules)

lemma agree_SendMessageToClient:
  assumes "\<And>fd. agree n (d fd) (d' fd)"
  shows "agree n (SendMessageToClient ser d u mess) (SendMessageToClient ser d' u mess)"
  unfolding SendMessageToClient_def
  by (auto intro!: agree_rules assms split: option.split)

lemma agree_send_everyone_loop:
  assumes "\<And>fd. agree n (d fd) (d' fd)"
  shows "agree n (send_everyone_loop ser d r mess k i) (send_everyone_loop ser d' r mess k i)"
proof (induction k arbitrary: i)
  case 0
  show ?case
    by (subst (1 2) send_everyone_loop.simps) (auto intro!: agree_rules)
next
  case (Suc k)
  then show ?case
    by (subst (1 2) send_everyone_loop.simps) (auto intro!: agree_rules agree_SendMessageToClient assms)
qed

lemma agree_SendMessageToEveryone:
  assumes "\<And>fd. agree n (d fd) (d' fd)"
  shows "agree n (Room_SendMessageToEveryone ser d r mess) (Room_SendMessageToEveryone ser d' r mess)"
  unfolding Room_SendMessageToEveryone_def by (rule agree_send_everyone_loop [OF assms])

lemma agree_SendGameStart:
  assumes "\<And>fd. agree n (d fd) (d' fd)"
  shows "agree n (Room_SendGameStart ser d r) (Room_SendGameStart ser d' r)"
  unfolding Room_SendGameStart_def
  by (auto intro!: agree_rules agree_SendMessageToEveryone assms)

lemma agree_DeletePlayer:
  assumes "\<And>fd. agree n (d fd) (d' fd)"
  shows "agree n (Room_DeletePlayer ser d r u) (Room_DeletePlayer ser d' r u)"
  unfolding Room_DeletePlayer_def
  by (auto intro!: agree_rules agree_SendMessageToEveryone agree_SendGameStart assms)

lemma agree_DeletePlayerFromRoom:
  assumes "\<And>fd. agree n (d fd) (d' fd)"
  shows "agree n (DeletePlayerFromRoom ser d u) (DeletePlayerFromRoom ser d' u)"
  unfolding DeletePlayerFromRoom_def
  by (auto intro!: agree_rules agree_modify agree_DeletePlayer assms split: option.split)

lemma agree_PlayerLogout:
  assumes "\<And>fd. agree n (d fd) (d' fd)"
  shows "agree n (PlayerLogout ser d u) (PlayerLogout ser d' u)"
  unfolding PlayerLogout_def PersonLogout_def Person_OnExit_def
  by (auto intro!: agree_rules agree_modify agree_DeletePlayerFromRoom assms split: option.split)

section \<open>Tying the knot\<close>

lemma drop_connection_fewer:
  assumes "drop_connection fd w = Inr (x, w')"
  shows "length (m_connects w') < length (m_connects w)"
proof -
  have hb: "agree (length (m_connects w)) (mseq (Heartbeat_DeleteFD fd) (DeleteFromEpoll fd))
      (mseq (Heartbeat_DeleteFD fd) (DeleteFromEpoll fd))"
    unfolding Heartbeat_DeleteFD_def DeleteFromEpoll_def
    by (auto intro!: agree_rules agree_modify split: option.split)
  have cl: "agree n (on_conn fd TcpSocket_close_socket) (on_conn fd TcpSocket_close_socket)" for n
    by (rule agree_rules)
  show ?thesis
    using assms hb cl length_m_erase_less
    by (fastforce simp: drop_connection_def agree_def run_simps split: sum.splits option.splits)
qed

lemma agree_body:
  assumes "\<And>fd n. n < k \<Longrightarrow> agree n (d fd) (d' fd)"
  shows "agree k (DeleteClientByFD_body ser d fd) (DeleteClientByFD_body ser d' fd)"
  unfolding agree_def
proof (intro allI impI)
  fix w :: world
  assume k: "length (m_connects w) \<le> k"
  let ?rest = "\<lambda>d. mbind (mgets m_fd_to_user_id) (\<lambda>m. case m_find m fd of None \<Rightarrow> mreturn ()
      | Some user_id \<Rightarrow> mseq (PlayerLogout ser d user_id) (mreturn ()))"
  show "DeleteClientByFD_body ser d fd w = DeleteClientByFD_body ser d' fd w
    \<and> (\<forall>x w'. DeleteClientByFD_body ser d fd w = Inr (x, w') \<longrightarrow> length (m_connects w') \<le> length (m_connects w))"
  proof (cases "m_find (m_connects w) fd")
    case None
    then show ?thesis by (simp add: DeleteClientByFD_body_def run_simps)
  next
    case (Some s)
    have run: "DeleteClientByFD_body ser e fd w =
        (case drop_connection fd w of Inl e' \<Rightarrow> Inl e' | Inr (_, w1) \<Rightarrow> ?rest e w1)" for e
      using Some by (simp add: DeleteClientByFD_body_def run_simps)
    show ?thesis
    proof (cases "drop_connection fd w")
      case (Inr p)
      then obtain w1 where w1: "drop_connection fd w = Inr ((), w1)" by (cases p) simp
      have lt: "length (m_connects w1) < length (m_connects w)" using drop_connection_fewer [OF w1] .
      have "agree (length (m_connects w1)) (?rest d) (?rest d')"
        using lt k by (auto intro!: agree_rules agree_PlayerLogout assms split: option.split)
      then show ?thesis
        using lt unfolding run w1 by (fastforce simp: agree_def)
    qed (simp add: run)
  qed
qed

lemma agree_rec:
  "n \<le> k \<Longrightarrow> n \<le> k' \<Longrightarrow> agree n (DeleteClientByFD_rec ser (Suc k) fd) (DeleteClientByFD_rec ser (Suc k') fd)"
proof (induction n arbitrary: k k' fd rule: less_induct)
  case (less n)
  show ?case
    unfolding DeleteClientByFD_rec.simps
  proof (rule agree_body)
    fix fd n'
    assume "n' < n"
    then obtain j j' where "k = Suc j" "k' = Suc j'" "n' \<le> j" "n' \<le> j'"
      using less.prems by (cases k; cases k') auto
    then show "agree n' (DeleteClientByFD_rec ser k fd) (DeleteClientByFD_rec ser k' fd)"
      using less.IH \<open>n' < n\<close> by blast
  qed
qed

lemma agree_rec_DeleteClient:
  assumes "n < k"
  shows "agree n (DeleteClientByFD_rec ser k fd) (DeleteClientByFD ser fd)"
  unfolding agree_def
proof (intro allI impI)
  fix w :: world
  assume n: "length (m_connects w) \<le> n"
  obtain j where k: "k = Suc j" "n \<le> j" using assms by (cases k) auto
  have "agree (length (m_connects w)) (DeleteClientByFD_rec ser k fd)
      (DeleteClientByFD_rec ser (Suc (length (m_connects w))) fd)"
    unfolding k(1) by (rule agree_rec) (use n k in auto)
  then show "DeleteClientByFD_rec ser k fd w = DeleteClientByFD ser fd w
    \<and> (\<forall>x w'. DeleteClientByFD_rec ser k fd w = Inr (x, w') \<longrightarrow> length (m_connects w') \<le> length (m_connects w))"
    unfolding agree_def DeleteClientByFD_def by blast
qed

lemma DeleteClientByFD_unfold:
  "DeleteClientByFD ser fd = DeleteClientByFD_body ser (DeleteClientByFD ser) fd"
proof
  fix w :: world
  have "agree (length (m_connects w))
      (DeleteClientByFD_body ser (DeleteClientByFD_rec ser (length (m_connects w))) fd)
      (DeleteClientByFD_body ser (DeleteClientByFD ser) fd)"
    by (rule agree_body) (rule agree_rec_DeleteClient)
  then show "DeleteClientByFD ser fd w = DeleteClientByFD_body ser (DeleteClientByFD ser) fd w"
    by (simp add: agree_def DeleteClientByFD_def)
qed

lemma DeleteClientByFD_shrinks:
  "DeleteClientByFD ser fd w = Inr (x, w') \<Longrightarrow> length (m_connects w') \<le> length (m_connects w)"
  using agree_rec_DeleteClient [of "length (m_connects w)" "Suc (length (m_connects w))" ser fd]
  by (simp add: agree_def del: DeleteClientByFD_rec.simps) 

end
