(* ===== verification/Room_Proofs.thy ===== *)
theory Room_Proofs
  imports Game_Room
begin

text \<open>
  The player table of a room: its well-formedness, what the search returns, and that joining
  and leaving a waiting room are appending to and removing from the list of players.
\<close>

section \<open>Well-formed rooms\<close>

definition online_count :: "bool list \<Rightarrow> int32" where
  "online_count bs = int (length (filter id bs))"

definition room_wf :: "Room \<Rightarrow> bool" where
  "room_wf rm \<longleftrightarrow>
     length (m_players rm) = 9 \<and> length (m_team_id rm) = 9 \<and> length (m_is_online rm) = 9
     \<and> length (m_is_loading_succeed rm) = 9
     \<and> 0 \<le> m_player_cnt rm \<and> m_player_cnt rm \<le> max_player_cnt
     \<and> m_status rm \<in> {room_status_waiting, room_status_loading, room_status_ingame}
     \<and> (\<forall>i<9. m_is_online rm ! i \<longrightarrow> 1 \<le> i \<and> int i \<le> m_player_cnt rm)
     \<and> m_online_player_cnt rm = online_count (m_is_online rm)
     \<and> (m_status rm = room_status_waiting \<longrightarrow> (\<forall>i. 1 \<le> i \<and> int i \<le> m_player_cnt rm \<longrightarrow> m_is_online rm ! i))
     \<and> syn_wf (m_syn rm) \<and> (m_status rm = room_status_ingame \<longrightarrow> syn_ready (m_syn rm))"

text \<open>Whether position \<open>i\<close> holds the online player \<open>u\<close>, and whether the room has such a position.\<close>

definition player_at :: "Room \<Rightarrow> int32 \<Rightarrow> int32 \<Rightarrow> bool" where
  "player_at rm u i \<longleftrightarrow> m_is_online rm ! nat i \<and> m_players rm ! nat i = u"

definition in_room :: "Room \<Rightarrow> int32 \<Rightarrow> bool" where
  "in_room rm u \<longleftrightarrow> (\<exists>i. 1 \<le> i \<and> i \<le> max_player_cnt \<and> player_at rm u i)"

text \<open>The players of the table in the order of their positions.\<close>

definition player_list :: "Room \<Rightarrow> int32 list" where
  "player_list rm = take (nat (m_player_cnt rm)) (tl (m_players rm))"

definition team_list :: "Room \<Rightarrow> int32 list" where
  "team_list rm = take (nat (m_player_cnt rm)) (tl (m_team_id rm))"

lemma room_wf_lengths:
  "room_wf rm \<Longrightarrow> length (m_players rm) = 9" "room_wf rm \<Longrightarrow> length (m_team_id rm) = 9"
  "room_wf rm \<Longrightarrow> length (m_is_online rm) = 9" "room_wf rm \<Longrightarrow> length (m_is_loading_succeed rm) = 9"
  by (simp_all add: room_wf_def)

lemma room_wf_cnt: "room_wf rm \<Longrightarrow> 0 \<le> m_player_cnt rm" "room_wf rm \<Longrightarrow> m_player_cnt rm \<le> 8"
  by (simp_all add: room_wf_def max_player_cnt_def)

lemma room_wf_online: "room_wf rm \<Longrightarrow> 0 \<le> i \<Longrightarrow> i < 9 \<Longrightarrow> m_is_online rm ! nat i \<Longrightarrow> 1 \<le> i \<and> i \<le> m_player_cnt rm"
  unfolding room_wf_def by (metis int_nat_eq nat_less_iff of_nat_1 of_nat_le_iff of_nat_numeral)

lemma room_wf_waiting:
  "room_wf rm \<Longrightarrow> m_status rm = room_status_waiting \<Longrightarrow> 1 \<le> i \<Longrightarrow> i \<le> m_player_cnt rm \<Longrightarrow> m_is_online rm ! nat i"
  unfolding room_wf_def by (metis int_nat_eq nat_le_iff of_nat_1 of_nat_le_iff order_trans zero_le_one)

lemma length_player_list: "room_wf rm \<Longrightarrow> int (length (player_list rm)) = m_player_cnt rm"
  by (auto simp: player_list_def room_wf_def max_player_cnt_def)

lemma player_list_nth: "room_wf rm \<Longrightarrow> j < nat (m_player_cnt rm) \<Longrightarrow> player_list rm ! j = m_players rm ! Suc j"
  by (auto simp: player_list_def room_wf_def max_player_cnt_def nth_tl)

lemma count_flip: "i < length bs \<Longrightarrow> bs ! i \<Longrightarrow> Suc (length (filter id (bs[i := False]))) = length (filter id bs)"
  by (induction bs arbitrary: i) (auto simp: nth_Cons less_Suc_eq_0_disj split: nat.splits)

lemma online_count_off: "i < length bs \<Longrightarrow> bs ! i \<Longrightarrow> online_count (bs[i := False]) = online_count bs - 1"
  using count_flip [of i bs] by (simp add: online_count_def)

lemma online_count_on: "i < length bs \<Longrightarrow> \<not> bs ! i \<Longrightarrow> online_count (bs[i := True]) = online_count bs + 1"
  using count_flip [of i "bs[i := True]"] list_update_id [of bs i] by (simp add: online_count_def)

lemma online_count_zero: "online_count bs \<le> 0 \<longleftrightarrow> (\<forall>i<length bs. \<not> bs ! i)"
  by (auto simp: online_count_def filter_empty_conv in_set_conv_nth)

lemma empty_room: "room_wf rm \<Longrightarrow> m_online_player_cnt rm \<le> 0 \<Longrightarrow> \<not> in_room rm u"
  by (auto simp: room_wf_def in_room_def player_at_def online_count_zero max_player_cnt_def nat_less_iff)

section \<open>Array access\<close>

lemma rd_at_run [run_simps]:
  "0 \<le> i \<Longrightarrow> i < int (length (f rm)) \<Longrightarrow> rd_at f i rm = Inr (f rm ! nat i, rm)"
  by (simp add: rd_at_def run_simps)

lemma wr_at_run [run_simps]:
  "0 \<le> i \<Longrightarrow> i < int (length (f rm)) \<Longrightarrow> wr_at f upd i v rm = Inr ((), upd ((f rm)[nat i := v]) rm)"
  by (simp add: wr_at_def run_simps)

section \<open>The search\<close>

lemma scan_player_eq:
  assumes "length (m_is_online rm) = 9" "length (m_players rm) = 9" "1 \<le> i" "i + int k \<le> 9"
  shows "\<exists>p. scan_player k i u rm = Inr (p, rm)
    \<and> (p = 0 \<and> (\<forall>j. i \<le> j \<and> j < i + int k \<longrightarrow> \<not> player_at rm u j)
       \<or> i \<le> p \<and> p < i + int k \<and> player_at rm u p \<and> (\<forall>j. i \<le> j \<and> j < p \<longrightarrow> \<not> player_at rm u j))"
  using assms(3,4)
proof (induction k arbitrary: i)
  case 0
  then show ?case by (auto simp: run_simps)
next
  case (Suc k)
  show ?case
  proof (cases "player_at rm u i")
    case True
    then have "scan_player (Suc k) i u rm = Inr (i, rm)"
      using Suc.prems assms by (simp add: run_simps player_at_def)
    then show ?thesis using True by auto
  next
    case False
    then have "scan_player (Suc k) i u rm = scan_player k (i + 1) u rm"
      using Suc.prems assms by (auto simp: run_simps player_at_def)
    moreover have "\<not> player_at rm u j" if "i \<le> j" "j < b" "\<forall>j. i + 1 \<le> j \<and> j < b \<longrightarrow> \<not> player_at rm u j" for j b
      using that False by (cases "j = i") auto
    ultimately show ?thesis
      using Suc.IH [of "i + 1"] Suc.prems by (auto simp del: scan_player.simps)
  qed
qed

lemma Room_GetPlayerID_eq:
  assumes "room_wf rm"
  shows "\<exists>p. Room_GetPlayerID u rm = Inr (p, rm)
    \<and> (p = 0 \<and> \<not> in_room rm u
       \<or> 1 \<le> p \<and> p \<le> m_player_cnt rm \<and> player_at rm u p \<and> (\<forall>j. 1 \<le> j \<and> j < p \<longrightarrow> \<not> player_at rm u j))"
proof -
  have none: "\<not> player_at rm u j" if "m_player_cnt rm < j" "j \<le> 8" for j
    using room_wf_online [OF assms, of j] room_wf_cnt [OF assms] that by (auto simp: player_at_def)
  obtain p where p: "scan_player (nat (m_player_cnt rm)) 1 u rm = Inr (p, rm)"
    and c: "p = 0 \<and> (\<forall>j. 1 \<le> j \<and> j < 1 + m_player_cnt rm \<longrightarrow> \<not> player_at rm u j)
       \<or> 1 \<le> p \<and> p < 1 + m_player_cnt rm \<and> player_at rm u p \<and> (\<forall>j. 1 \<le> j \<and> j < p \<longrightarrow> \<not> player_at rm u j)"
    using scan_player_eq [of rm 1 "nat (m_player_cnt rm)" u] assms room_wf_lengths room_wf_cnt by auto
  have "\<not> in_room rm u" if "\<forall>j. 1 \<le> j \<and> j < 1 + m_player_cnt rm \<longrightarrow> \<not> player_at rm u j"
    using that none by (force simp: in_room_def max_player_cnt_def)
  then show ?thesis using p c by (auto simp: Room_GetPlayerID_def run_simps)
qed

section \<open>Joining\<close>

definition add_entry_result :: "Room \<Rightarrow> int32 \<Rightarrow> Room" where
  "add_entry_result rm u =
     (let c = m_player_cnt rm + 1 in
      rm\<lparr>m_player_cnt := c, m_online_player_cnt := m_online_player_cnt rm + 1,
        m_players := (m_players rm)[nat c := u],
        m_team_id := (m_team_id rm)[nat c := if m_team_mode rm = 1 then c else 1],
        m_is_online := (m_is_online rm)[nat c := True]\<rparr>)"

lemma Room_add_entry_eq:
  assumes "room_wf rm"
  shows "Room_add_entry u rm =
    (if m_status rm \<noteq> room_status_waiting then Inr (add_player_no_waiting, rm)
     else if m_player_cnt rm \<ge> max_player_cnt then Inr (add_player_full, rm)
     else Inr (add_player_succeed, add_entry_result rm u))"
  using room_wf_lengths [OF assms] room_wf_cnt [OF assms]
  by (simp add: Room_add_entry_def run_simps add_entry_result_def Let_def max_player_cnt_def)

lemma add_entry_result_wf:
  assumes wf: "room_wf rm" and w: "m_status rm = room_status_waiting" and room: "m_player_cnt rm < max_player_cnt"
  shows "room_wf (add_entry_result rm u)"
    and "player_list (add_entry_result rm u) = player_list rm @ [u]"
    and "in_room (add_entry_result rm u) v \<longleftrightarrow> v = u \<or> in_room rm v"
proof -
  let ?c = "nat (m_player_cnt rm + 1)" and ?rm = "add_entry_result rm u"
  note l = room_wf_lengths [OF wf] and c = room_wf_cnt [OF wf]
  have c9: "?c < 9" "1 \<le> ?c" "int ?c = m_player_cnt rm + 1" using c room by (auto simp: max_player_cnt_def)
  have off: "\<not> m_is_online rm ! ?c" using room_wf_online [OF wf, of "int ?c"] c9 by auto
  have on: "m_is_online ?rm ! i \<longleftrightarrow> i = ?c \<or> m_is_online rm ! i" if "i < 9" for i
    using l c9 that by (simp add: add_entry_result_def Let_def nth_list_update)
  have pl: "m_players ?rm ! i = (if i = ?c then u else m_players rm ! i)" if "i < 9" for i
    using l c9 that by (simp add: add_entry_result_def Let_def nth_list_update)
  have fields: "m_player_cnt ?rm = m_player_cnt rm + 1" "m_status ?rm = m_status rm" "m_syn ?rm = m_syn rm"
    "m_online_player_cnt ?rm = m_online_player_cnt rm + 1" "m_is_online ?rm = (m_is_online rm)[?c := True]"
    by (simp_all add: add_entry_result_def Let_def)
  have on2: "m_is_online ?rm ! i" if "1 \<le> i" "int i \<le> m_player_cnt rm + 1" for i
  proof (cases "i = ?c")
    case False
    then have "int i \<le> m_player_cnt rm" using that by auto
    then show ?thesis using on [of i] room_wf_waiting [OF wf w, of "int i"] that c room
      by (auto simp: max_player_cnt_def)
  qed (use on c9 in auto)
  have on1: "1 \<le> i \<and> int i \<le> m_player_cnt rm + 1" if "i < 9" "m_is_online ?rm ! i" for i
    using on [OF that(1)] that room_wf_online [OF wf, of "int i"] c9 by auto
  have cnt: "m_online_player_cnt ?rm = online_count (m_is_online ?rm)"
    using wf online_count_on [of ?c "m_is_online rm"] off c9 l by (simp add: fields room_wf_def)
  have lens: "length (m_players ?rm) = 9" "length (m_team_id ?rm) = 9" "length (m_is_online ?rm) = 9"
    "length (m_is_loading_succeed ?rm) = 9" using l by (simp_all add: add_entry_result_def Let_def)
  have "m_player_cnt rm + 1 \<le> max_player_cnt" "0 \<le> m_player_cnt rm + 1" "syn_wf (m_syn rm)"
    using room c wf by (auto simp: room_wf_def)
  then show "room_wf ?rm"
    unfolding room_wf_def using lens on1 on2 cnt w by (simp add: fields(1-3))
  show "player_list ?rm = player_list rm @ [u]"
  proof -
    obtain x ys where xs: "m_players rm = x # ys" "length ys = 8" using l by (cases "m_players rm") auto
    have n: "?c = Suc (nat (m_player_cnt rm))" "nat (m_player_cnt rm) < 8" using c room by (auto simp: max_player_cnt_def)
    have "m_players ?rm = x # ys[nat (m_player_cnt rm) := u]" "nat (m_player_cnt ?rm) = Suc (nat (m_player_cnt rm))"
      using xs n by (simp_all add: add_entry_result_def Let_def)
    then show ?thesis using xs n by (simp add: player_list_def take_Suc_conv_app_nth)
  qed
  show "in_room ?rm v \<longleftrightarrow> v = u \<or> in_room rm v"
  proof -
    have "player_at ?rm v i \<longleftrightarrow> i = int ?c \<and> v = u \<or> player_at rm v i" if "1 \<le> i" "i \<le> 8" for i
      using on [of "nat i"] pl [of "nat i"] off that by (auto simp: player_at_def)
    moreover have "1 \<le> int ?c" "int ?c \<le> 8" using c9 by auto
    ultimately show ?thesis unfolding in_room_def max_player_cnt_def by blast
  qed
qed

section \<open>Leaving a waiting room\<close>

lemma shift_loop_eq:
  assumes "length (m_players rm) = 9" "length (m_team_id rm) = 9" "1 \<le> i" "i + int k \<le> 9"
  shows "\<exists>ps ts. shift_loop k i rm = Inr ((), rm\<lparr>m_players := ps, m_team_id := ts\<rparr>)
    \<and> length ps = 9 \<and> length ts = 9
    \<and> (\<forall>j<9. ps ! j = (if i - 1 \<le> int j \<and> int j < i - 1 + int k then m_players rm ! Suc j else m_players rm ! j))
    \<and> (\<forall>j<9. ts ! j = (if m_team_mode rm = 2 \<and> i - 1 \<le> int j \<and> int j < i - 1 + int k then m_team_id rm ! Suc j
         else m_team_id rm ! j))"
  using assms
proof (induction k arbitrary: i rm)
  case 0
  then show ?case by (intro exI [of _ "m_players rm"] exI [of _ "m_team_id rm"]) (auto simp: run_simps)
next
  case (Suc k)
  let ?n = "nat i"
  have n: "1 \<le> ?n" "?n < 9" "nat (i - 1) = ?n - 1" "int ?n = i" using Suc.prems by auto
  let ?rm = "rm\<lparr>m_players := (m_players rm)[?n - 1 := m_players rm ! ?n],
    m_team_id := (if m_team_mode rm = 2 then (m_team_id rm)[?n - 1 := m_team_id rm ! ?n] else m_team_id rm)\<rparr>"
  have step: "shift_loop (Suc k) i rm = shift_loop k (i + 1) ?rm"
    using Suc.prems n by (simp add: run_simps)
  obtain ps ts where ih: "shift_loop k (i + 1) ?rm = Inr ((), ?rm\<lparr>m_players := ps, m_team_id := ts\<rparr>)"
    "length ps = 9" "length ts = 9"
    "\<forall>j<9. ps ! j = (if i \<le> int j \<and> int j < i + int k then m_players ?rm ! Suc j else m_players ?rm ! j)"
    "\<forall>j<9. ts ! j = (if m_team_mode ?rm = 2 \<and> i \<le> int j \<and> int j < i + int k then m_team_id ?rm ! Suc j
       else m_team_id ?rm ! j)"
  proof -
    have "length (m_players ?rm) = 9" "length (m_team_id ?rm) = 9" "1 \<le> i + 1" "i + 1 + int k \<le> 9"
      using Suc.prems by auto
    from Suc.IH [OF this, unfolded add_diff_cancel_right'] show ?thesis using that by blast
  qed
  have "\<forall>j<9. ps ! j = (if i - 1 \<le> int j \<and> int j < i - 1 + int (Suc k) then m_players rm ! Suc j else m_players rm ! j)"
    using ih(4) n Suc.prems by (auto simp: nth_list_update)
  moreover have "\<forall>j<9. ts ! j = (if m_team_mode rm = 2 \<and> i - 1 \<le> int j \<and> int j < i - 1 + int (Suc k)
      then m_team_id rm ! Suc j else m_team_id rm ! j)"
    using ih(5) n Suc.prems by (auto simp: nth_list_update)
  moreover have "shift_loop (Suc k) i rm = Inr ((), rm\<lparr>m_players := ps, m_team_id := ts\<rparr>)"
    using step ih(1) by simp
  ultimately show ?case using ih(2,3) by blast
qed

lemma waiting_in_room:
  assumes "room_wf rm" and "m_status rm = room_status_waiting"
  shows "in_room rm v \<longleftrightarrow> v \<in> set (player_list rm)"
proof
  assume "in_room rm v"
  then obtain i where i: "1 \<le> i" "i \<le> 8" "player_at rm v i" by (auto simp: in_room_def max_player_cnt_def)
  then have "i \<le> m_player_cnt rm" using room_wf_online [OF assms(1), of i] by (auto simp: player_at_def)
  then have "nat i - 1 < nat (m_player_cnt rm)" "Suc (nat i - 1) = nat i" using i by auto
  moreover from this have "player_list rm ! (nat i - 1) = v"
    using i player_list_nth [OF assms(1), of "nat i - 1"] by (simp add: player_at_def)
  moreover have "length (player_list rm) = nat (m_player_cnt rm)"
    using length_player_list [OF assms(1)] by simp
  ultimately show "v \<in> set (player_list rm)"
    using nth_mem [of "nat i - 1" "player_list rm"] by simp
next
  assume "v \<in> set (player_list rm)"
  then obtain j where "j < length (player_list rm)" "player_list rm ! j = v" by (auto simp: in_set_conv_nth)
  then have j: "j < nat (m_player_cnt rm)" "m_players rm ! Suc j = v"
    using length_player_list [OF assms(1)] player_list_nth [OF assms(1), of j] by auto
  then have "player_at rm v (int (Suc j))"
    using room_wf_waiting [OF assms, of "int (Suc j)"] by (simp add: player_at_def nat_add_distrib)
  then show "in_room rm v"
    using j room_wf_cnt [OF assms(1)] by (auto simp: in_room_def max_player_cnt_def intro!: exI [of _ "int (Suc j)"])
qed

lemma remove1_first:
  assumes "p < length xs" "xs ! p = u" "\<forall>j<p. xs ! j \<noteq> u"
  shows "remove1 u xs = take p xs @ drop (Suc p) xs"
proof -
  have "u \<notin> set (take p xs)" using assms by (auto simp: in_set_conv_nth)
  then show ?thesis
    using id_take_nth_drop [OF assms(1)] assms(2) remove1_append [of u "take p xs" "u # drop (Suc p) xs"] by simp
qed

text \<open>What stays the same when an entry is removed or marked.\<close>

definition same_setup :: "Room \<Rightarrow> Room \<Rightarrow> bool" where
  "same_setup rm rm' \<longleftrightarrow> m_room_id rm' = m_room_id rm \<and> m_status rm' = m_status rm \<and> m_syn rm' = m_syn rm
     \<and> m_game_mode rm' = m_game_mode rm \<and> m_team_mode rm' = m_team_mode rm \<and> m_game_option rm' = m_game_option rm
     \<and> m_is_loading_succeed rm' = m_is_loading_succeed rm \<and> m_loading_succeed_cnt rm' = m_loading_succeed_cnt rm
     \<and> m_loading_time_second rm' = m_loading_time_second rm"

lemma Room_remove_waiting_eq:
  assumes wf: "room_wf rm" and w: "m_status rm = room_status_waiting"
    and pos: "1 \<le> pos" "pos \<le> m_player_cnt rm"
  shows "\<exists>rm'. Room_remove_waiting pos rm = Inr ((), rm') \<and> room_wf rm' \<and> same_setup rm rm'
    \<and> m_player_cnt rm' = m_player_cnt rm - 1
    \<and> player_list rm' = take (nat pos - 1) (player_list rm) @ drop (nat pos) (player_list rm)"
proof -
  note l = room_wf_lengths [OF wf] and c = room_wf_cnt [OF wf]
  let ?c = "nat (m_player_cnt rm)"
  have c9: "?c < 9" "1 \<le> ?c" "int ?c = m_player_cnt rm" using c pos by auto
  obtain ps ts where sh: "shift_loop (nat (m_player_cnt rm - pos)) (pos + 1) rm =
      Inr ((), rm\<lparr>m_players := ps, m_team_id := ts\<rparr>)" and len: "length ps = 9" "length ts = 9"
    and ps: "\<forall>j<9. ps ! j = (if pos \<le> int j \<and> int j < m_player_cnt rm then m_players rm ! Suc j else m_players rm ! j)"
    using shift_loop_eq [of rm "pos + 1" "nat (m_player_cnt rm - pos)"] l c pos by auto
  define B where "B = (m_is_online rm)[?c := False]"
  let ?rm = "rm\<lparr>m_players := ps, m_team_id := ts, m_is_online := B,
    m_player_cnt := m_player_cnt rm - 1, m_online_player_cnt := m_online_player_cnt rm - 1\<rparr>"
  have run: "Room_remove_waiting pos rm = Inr ((), ?rm)"
    using sh l c9 by (simp add: Room_remove_waiting_def run_simps B_def)
  have on: "B ! i \<longleftrightarrow> m_is_online rm ! i \<and> i \<noteq> ?c" if "i < 9" for i
    using l c9 that by (auto simp: nth_list_update B_def)
  have "online_count B = m_online_player_cnt rm - 1"
    using online_count_off [of ?c "m_is_online rm"] room_wf_waiting [OF wf w, of "m_player_cnt rm"] c9 l wf
    by (simp add: room_wf_def B_def)
  moreover have "1 \<le> i \<and> int i \<le> m_player_cnt rm - 1" if "i < 9" "B ! i" for i
    using that on [OF that(1)] room_wf_online [OF wf, of "int i"] c9 by auto
  moreover have "B ! i" if "1 \<le> i" "int i \<le> m_player_cnt rm - 1" for i
    using that on [of i] room_wf_waiting [OF wf w, of "int i"] c by auto
  moreover have "0 \<le> m_player_cnt rm - 1" "m_player_cnt rm - 1 \<le> max_player_cnt" "syn_wf (m_syn rm)"
    using c9 c wf by (auto simp: max_player_cnt_def room_wf_def)
  moreover have "length B = 9" using l by (simp add: B_def)
  ultimately have wf': "room_wf ?rm"
    unfolding room_wf_def using len l w by simp
  moreover have "player_list ?rm = take (nat pos - 1) (player_list rm) @ drop (nat pos) (player_list rm)"
  proof (rule nth_equalityI)
    have n: "length (player_list rm) = ?c" "length (player_list ?rm) = ?c - 1"
      using length_player_list [OF wf] length_player_list [OF wf'] c9 by auto
    then show len': "length (player_list ?rm) = length (take (nat pos - 1) (player_list rm) @ drop (nat pos) (player_list rm))"
      using pos by auto
    fix j
    assume j: "j < length (player_list ?rm)"
    then have "player_list ?rm ! j = ps ! Suc j" using player_list_nth [OF wf', of j] n by auto
    also have "\<dots> = (if nat pos \<le> Suc j then m_players rm ! Suc (Suc j) else m_players rm ! Suc j)"
      using ps j n c9 c by auto
    also have "\<dots> = (take (nat pos - 1) (player_list rm) @ drop (nat pos) (player_list rm)) ! j"
    proof (cases "nat pos \<le> Suc j")
      case True
      then have "nat pos + (j - (nat pos - 1)) = Suc j" "nat pos \<le> length (player_list rm)" using n pos by auto
      moreover from this have "length (take (nat pos - 1) (player_list rm)) = nat pos - 1" "\<not> j < nat pos - 1"
        using True pos by auto
      moreover have "player_list rm ! Suc j = m_players rm ! Suc (Suc j)"
        using player_list_nth [OF wf, of "Suc j"] j n by auto
      ultimately show ?thesis using True by (simp only: nth_append nth_drop if_True if_False)
    next
      case False
      then have "j < nat pos - 1" "j < nat (m_player_cnt rm)" using j n by auto
      then show ?thesis using False n player_list_nth [OF wf, of j] by (simp add: nth_append)
    qed
    finally show "player_list ?rm ! j = (take (nat pos - 1) (player_list rm) @ drop (nat pos) (player_list rm)) ! j" .
  qed
  ultimately show ?thesis using run by (auto simp: same_setup_def)
qed

section \<open>Marking a player offline\<close>

lemma Room_set_offline_eq:
  assumes wf: "room_wf rm" and w: "m_status rm \<noteq> room_status_waiting"
    and pos: "1 \<le> pos" "pos \<le> m_player_cnt rm" "m_is_online rm ! nat pos"
  shows "\<exists>rm'. Room_set_offline pos rm = Inr ((), rm') \<and> room_wf rm' \<and> same_setup rm rm'
    \<and> m_player_cnt rm' = m_player_cnt rm \<and> m_online_player_cnt rm' = m_online_player_cnt rm - 1
    \<and> m_players rm' = m_players rm \<and> m_team_id rm' = m_team_id rm
    \<and> (\<forall>v i. 1 \<le> i \<and> i \<le> 8 \<longrightarrow> player_at rm' v i = (player_at rm v i \<and> i \<noteq> pos))"
proof -
  note l = room_wf_lengths [OF wf] and c = room_wf_cnt [OF wf]
  let ?rm = "rm\<lparr>m_is_online := (m_is_online rm)[nat pos := False], m_online_player_cnt := m_online_player_cnt rm - 1\<rparr>"
  have run: "Room_set_offline pos rm = Inr ((), ?rm)"
    using pos l c by (simp add: Room_set_offline_def run_simps)
  have on: "(m_is_online rm)[nat pos := False] ! i \<longleftrightarrow> m_is_online rm ! i \<and> i \<noteq> nat pos" if "i < 9" for i
    using l that pos c by (auto simp: nth_list_update)
  have "online_count ((m_is_online rm)[nat pos := False]) = m_online_player_cnt rm - 1"
    using online_count_off [of "nat pos" "m_is_online rm"] pos c l wf by (simp add: room_wf_def)
  then have "room_wf ?rm" using wf w on by (simp add: room_wf_def)
  moreover have "\<forall>v i. 1 \<le> i \<and> i \<le> 8 \<longrightarrow> player_at ?rm v i = (player_at rm v i \<and> i \<noteq> pos)"
    using on pos by (auto simp: player_at_def nat_less_iff)
  ultimately show ?thesis using run by (auto simp: same_setup_def)
qed

end
