(* ===== verification/Server_Inv.thy ===== *)
theory Server_Inv
  imports Disconnect_Knot Room_Proofs
begin

text \<open>
  The invariant of the server state, the relation that says what removing clients may change,
  and the contract \<open>client_deleter\<close> under which every function that sends messages keeps both.
\<close>

section \<open>The invariant\<close>

text \<open>
  Rooms: every allocated room is well-formed and is either listed under its number or waits in
  the queue, never both; numbers are unique; a user's room is a listed room that has the user
  among its online players.
\<close>

definition rooms_inv :: "world \<Rightarrow> bool" where
  "rooms_inv w \<longleftrightarrow>
     m_ok (rooms w) \<and> m_ok (belong_room w) \<and> distinct (m_free_room w)
     \<and> (\<forall>r<length (room_heap w). room_wf (room_heap w ! r) \<and> m_room_id (room_heap w ! r) < s_room_id w)
     \<and> (\<forall>r<length (room_heap w). \<forall>r'<length (room_heap w).
          m_room_id (room_heap w ! r) = m_room_id (room_heap w ! r') \<longrightarrow> r = r')
     \<and> (\<forall>k r. m_find (rooms w) k = Some r \<longrightarrow> r < length (room_heap w) \<and> m_room_id (room_heap w ! r) = k)
     \<and> (\<forall>r. r \<in> set (m_free_room w) \<longleftrightarrow>
          r < length (room_heap w) \<and> m_find (rooms w) (m_room_id (room_heap w ! r)) = None)
     \<and> (\<forall>u r. m_find (belong_room w) u = Some r \<longrightarrow> r < length (room_heap w) \<and> in_room (room_heap w ! r) u
          \<and> m_find (rooms w) (m_room_id (room_heap w ! r)) = Some r)
     \<and> length (m_players (raw_room w)) = 9 \<and> length (m_team_id (raw_room w)) = 9
     \<and> length (m_is_online (raw_room w)) = 9 \<and> length (m_is_loading_succeed (raw_room w)) = 9"

text \<open>Heartbeat: the set and the map hold the same pairs, one for every connection.\<close>

definition hb_inv :: "world \<Rightarrow> bool" where
  "hb_inv w \<longleftrightarrow>
     m_ok (m_fd_to_sec w) \<and> sorted_wrt (<) (m_sec_fd w)
     \<and> set (m_sec_fd w) = {(sec, fd). m_find (m_fd_to_sec w) fd = Some sec}
     \<and> dom (m_find (m_fd_to_sec w)) = dom (m_find (m_connects w))"

text \<open>Connections: each socket is well-formed, in use, and filed under its own descriptor.\<close>

definition conn_inv :: "world \<Rightarrow> bool" where
  "conn_inv w \<longleftrightarrow>
     m_ok (m_connects w) \<and> m_ok (m_user_id_to_fd w) \<and> m_ok (m_fd_to_user_id w) \<and> m_ok (m_user_id_to_person w)
     \<and> (\<forall>fd s. m_find (m_connects w) fd = Some s \<longrightarrow> sock_wf s \<and> m_iSockfd s = fd \<and> m_is_using s)
     \<and> (\<forall>s\<in>set (free_conns w). sock_wf s)
     \<and> (\<forall>u p. m_find (m_user_id_to_person w) u = Some p \<longrightarrow> m_user_id p = u)
     \<and> int (length (send_data w)) = MAX_MESSAGE_LEN \<and> int (length (recv_data w)) = MAX_MESSAGE_LEN
     \<and> int (length (raw_buffer w)) = recv_buffer_size + 1"

definition server_inv :: "world \<Rightarrow> bool" where
  "server_inv w \<longleftrightarrow> rooms_inv w \<and> hb_inv w \<and> conn_inv w"

section \<open>What the removal of clients may change\<close>

text \<open>
  \<open>later w w'\<close>: connections, logins and memberships only disappear; the rooms and their numbers
  stay; a room keeps its status, or goes from loading into the game; the person of a user who was
  not logged in to the handler stays.
\<close>

definition status_step :: "int32 \<Rightarrow> int32 \<Rightarrow> bool" where
  "status_step a b \<longleftrightarrow> a = b \<or> a = room_status_loading \<and> b = room_status_ingame"

lemma status_step_refl [simp]: "status_step a a"
  by (simp add: status_step_def)

lemma status_step_trans: "status_step a b \<Longrightarrow> status_step b c \<Longrightarrow> status_step a c"
  by (auto simp: status_step_def)

lemma status_step_ingame [simp]: "status_step room_status_ingame b \<longleftrightarrow> b = room_status_ingame"
  by (auto simp: status_step_def)

definition later :: "world \<Rightarrow> world \<Rightarrow> bool" where
  "later w w' \<longleftrightarrow>
     length (m_connects w') \<le> length (m_connects w)
     \<and> dom (m_find (m_connects w')) \<subseteq> dom (m_find (m_connects w))
     \<and> m_find (m_fd_to_sec w') \<subseteq>\<^sub>m m_find (m_fd_to_sec w)
     \<and> m_find (m_user_id_to_fd w') \<subseteq>\<^sub>m m_find (m_user_id_to_fd w)
     \<and> m_find (m_fd_to_user_id w') \<subseteq>\<^sub>m m_find (m_fd_to_user_id w)
     \<and> m_find (belong_room w') \<subseteq>\<^sub>m m_find (belong_room w)
     \<and> dom (m_find (m_user_id_to_person w')) \<subseteq> dom (m_find (m_user_id_to_person w))
     \<and> (\<forall>u. m_find (m_user_id_to_fd w) u = None \<longrightarrow> m_find (m_user_id_to_person w) u \<noteq> None
          \<longrightarrow> m_find (m_user_id_to_person w') u \<noteq> None)
     \<and> rooms w' = rooms w \<and> m_free_room w' = m_free_room w \<and> s_room_id w' = s_room_id w
     \<and> map m_room_id (room_heap w') = map m_room_id (room_heap w)
     \<and> listen_sock w' = listen_sock w \<and> recv_data w' = recv_data w
     \<and> (\<forall>r<length (room_heap w). status_step (m_status (room_heap w ! r)) (m_status (room_heap w' ! r)))"

lemma later_refl [simp]: "later w w"
  by (simp add: later_def)

lemma map_le_None: "m \<subseteq>\<^sub>m m' \<Longrightarrow> m' k = None \<Longrightarrow> m k = None"
  by (metis domIff map_le_implies_dom_le subsetD)

lemma laterD:
  assumes "later w w'"
  shows "length (m_connects w') \<le> length (m_connects w)"
    and "dom (m_find (m_connects w')) \<subseteq> dom (m_find (m_connects w))"
    and "m_find (m_fd_to_sec w') \<subseteq>\<^sub>m m_find (m_fd_to_sec w)"
    and "m_find (m_user_id_to_fd w') \<subseteq>\<^sub>m m_find (m_user_id_to_fd w)"
    and "m_find (m_fd_to_user_id w') \<subseteq>\<^sub>m m_find (m_fd_to_user_id w)"
    and "m_find (belong_room w') \<subseteq>\<^sub>m m_find (belong_room w)"
    and "dom (m_find (m_user_id_to_person w')) \<subseteq> dom (m_find (m_user_id_to_person w))"
    and "m_find (m_user_id_to_fd w) u = None \<Longrightarrow> m_find (m_user_id_to_person w) u \<noteq> None
      \<Longrightarrow> m_find (m_user_id_to_person w') u \<noteq> None"
    and "rooms w' = rooms w" "m_free_room w' = m_free_room w" "s_room_id w' = s_room_id w"
    and "map m_room_id (room_heap w') = map m_room_id (room_heap w)"
    and "listen_sock w' = listen_sock w" "recv_data w' = recv_data w"
    and "r < length (room_heap w) \<Longrightarrow> status_step (m_status (room_heap w ! r)) (m_status (room_heap w' ! r))"
  using assms unfolding later_def by blast+

lemma later_heap: "later w w' \<Longrightarrow> length (room_heap w') = length (room_heap w)"
  unfolding later_def by (metis length_map)

lemma later_trans:
  assumes a: "later w1 w2" and b: "later w2 w3"
  shows "later w1 w3"
proof -
  have "m_find (m_user_id_to_person w3) u \<noteq> None"
    if "m_find (m_user_id_to_fd w1) u = None" "m_find (m_user_id_to_person w1) u \<noteq> None" for u
    using laterD(8) [OF b map_le_None [OF laterD(4) [OF a] that(1)] laterD(8) [OF a that]] .
  moreover have "length (m_connects w3) \<le> length (m_connects w1)" using laterD(1) [OF a] laterD(1) [OF b] by simp
  moreover have "status_step (m_status (room_heap w1 ! r)) (m_status (room_heap w3 ! r))" if "r < length (room_heap w1)" for r
    using status_step_trans [OF laterD(15) [OF a that] laterD(15) [OF b]] that later_heap [OF a] by simp
  ultimately show ?thesis
    unfolding later_def
    using laterD(2) [OF b] laterD(2) [OF a] laterD(7) [OF b] laterD(7) [OF a]
      map_le_trans [OF laterD(3) [OF b] laterD(3) [OF a]] map_le_trans [OF laterD(4) [OF b] laterD(4) [OF a]]
      map_le_trans [OF laterD(5) [OF b] laterD(5) [OF a]] map_le_trans [OF laterD(6) [OF b] laterD(6) [OF a]]
      laterD(9-14) [OF a] laterD(9-14) [OF b]
    by (intro conjI allI impI) (simp_all only: order_trans)
qed

lemma later_conns: "later w w' \<Longrightarrow> length (m_connects w') \<le> length (m_connects w)"
  by (simp add: later_def)

text \<open>The only fault a safe computation may end in: a store outside an array.\<close>

abbreviation oob :: "fault \<Rightarrow> bool" where
  "oob e \<equiv> e = OutOfBounds"

definition keeps :: "(world, 'a) mon \<Rightarrow> world \<Rightarrow> bool" where
  "keeps m w \<longleftrightarrow> mwp m (\<lambda>_ w'. server_inv w' \<and> later w w') oob w"

lemma keeps_return [simp]: "keeps (mreturn x) w = server_inv w"
  by (simp add: keeps_def wp_simps)

lemma keeps_bind:
  assumes "keeps m w" and "\<And>x w'. m w = Inr (x, w') \<Longrightarrow> server_inv w' \<Longrightarrow> later w w' \<Longrightarrow> keeps (k x) w'"
  shows "keeps (mbind m k) w"
  using assms by (auto simp: keeps_def mwp_def run_simps split: sum.splits intro: later_trans)

lemma keeps_seq:
  "keeps m w \<Longrightarrow> (\<And>x w'. m w = Inr (x, w') \<Longrightarrow> server_inv w' \<Longrightarrow> later w w' \<Longrightarrow> keeps k w') \<Longrightarrow> keeps (mseq m k) w"
  unfolding mseq_def by (rule keeps_bind)

lemma keeps_gets [simp]: "keeps (mgets f) w = server_inv w"
  by (simp add: keeps_def wp_simps)

lemma keeps_bind_gets [simp]: "keeps (mbind (mgets f) k) w = keeps (k (f w)) w"
  by (simp add: keeps_def wp_simps)

lemma keeps_modify: "server_inv (f w) \<Longrightarrow> later w (f w) \<Longrightarrow> keeps (mmodify f) w"
  by (simp add: keeps_def wp_simps)

lemma keeps_os:
  assumes "server_inv w" and "\<And>e. m (w_os w) \<noteq> Inl e"
  shows "keeps (world_os m) w"
proof -
  have "server_inv (w\<lparr>w_os := o1\<rparr>) \<and> later w (w\<lparr>w_os := o1\<rparr>)" for o1
    using assms(1) by (simp add: server_inv_def rooms_inv_def hb_inv_def conn_inv_def later_def)
  then show ?thesis using assms(2) by (auto simp: keeps_def mwp_def world_os_def run_simps split: sum.splits)
qed

text \<open>The contract of the function that removes a client, for states of admissible size.\<close>

locale client_deleter =
  fixes del :: deleter
    and small :: "nat \<Rightarrow> bool"
  assumes small_down: "small n \<Longrightarrow> m \<le> n \<Longrightarrow> small m"
    and del_keeps: "server_inv w \<Longrightarrow> small (length (m_connects w)) \<Longrightarrow> keeps (del fd) w"
    and del_fewer: "m_find (m_connects w) fd = Some s \<Longrightarrow> del fd w = Inr (x, w') \<Longrightarrow>
      length (m_connects w') < length (m_connects w)"

section \<open>Replacing a room\<close>

lemma rooms_invD:
  assumes "rooms_inv w"
  shows "r < length (room_heap w) \<Longrightarrow> room_wf (room_heap w ! r)"
    and "m_find (belong_room w) u = Some r \<Longrightarrow> r < length (room_heap w) \<and> in_room (room_heap w ! r) u"
    and "m_find (rooms w) k = Some r \<Longrightarrow> r < length (room_heap w) \<and> m_room_id (room_heap w ! r) = k"
  using assms unfolding rooms_inv_def by blast+

lemma server_inv_room:
  assumes "server_inv w" and "r < length (room_heap w)" and "room_wf rm"
    and "m_room_id rm = m_room_id (room_heap w ! r)"
    and "\<And>u. m_find (belong_room w) u = Some r \<Longrightarrow> in_room rm u"
  shows "server_inv (w\<lparr>room_heap := (room_heap w)[r := rm]\<rparr>)"
proof -
  define h where "h = (room_heap w)[r := rm]"
  have h: "length h = length (room_heap w)"
    and wf: "\<And>i. i < length (room_heap w) \<Longrightarrow> room_wf (h ! i)"
    and ids: "\<And>i. i < length (room_heap w) \<Longrightarrow> m_room_id (h ! i) = m_room_id (room_heap w ! i)"
    and mem: "\<And>u i. m_find (belong_room w) u = Some i \<Longrightarrow> in_room (h ! i) u"
    using assms rooms_invD [of w] by (auto simp: h_def nth_list_update server_inv_def)
  have rooms: "rooms_inv w" using assms(1) by (simp add: server_inv_def)
  have "rooms_inv (w\<lparr>room_heap := h\<rparr>)"
    unfolding rooms_inv_def
    using rooms [unfolded rooms_inv_def] wf mem by (simp add: h ids cong: conj_cong)
  then show ?thesis
    using assms(1) by (simp add: server_inv_def hb_inv_def conn_inv_def h_def)
qed

lemma later_room:
  assumes "r < length (room_heap w)" and "m_room_id rm = m_room_id (room_heap w ! r)"
    and "status_step (m_status (room_heap w ! r)) (m_status rm)"
  shows "later w (w\<lparr>room_heap := (room_heap w)[r := rm]\<rparr>)"
proof -
  have "map m_room_id ((room_heap w)[r := rm]) = map m_room_id (room_heap w)"
    using assms(1,2) by (intro nth_equalityI) (auto simp: nth_list_update)
  moreover have "status_step (m_status (room_heap w ! i)) (m_status ((room_heap w)[r := rm] ! i))" for i
    using assms(1,3) by (cases "i = r") auto
  ultimately show ?thesis by (simp add: later_def)
qed

section \<open>Keeping the invariant alone\<close>

definition keeps_inv :: "(world, 'a) mon \<Rightarrow> world \<Rightarrow> bool" where
  "keeps_inv m w \<longleftrightarrow> mwp m (\<lambda>_. server_inv) oob w"

lemma keeps_imp_inv: "keeps m w \<Longrightarrow> keeps_inv m w"
  unfolding keeps_def keeps_inv_def by (erule mwp_mono) auto

lemma keeps_inv_return [simp]: "keeps_inv (mreturn x) w = server_inv w"
  by (simp add: keeps_inv_def wp_simps)

lemma keeps_inv_bind_gets [simp]: "keeps_inv (mbind (mgets f) k) w = keeps_inv (k (f w)) w"
  by (simp add: keeps_inv_def wp_simps)

lemma keeps_inv_bind:
  assumes "keeps_inv m w" and "\<And>x w'. m w = Inr (x, w') \<Longrightarrow> server_inv w' \<Longrightarrow> keeps_inv (k x) w'"
  shows "keeps_inv (mbind m k) w"
  using assms by (auto simp: keeps_inv_def mwp_def run_simps split: sum.splits)

lemma keeps_inv_seq:
  "keeps_inv m w \<Longrightarrow> (\<And>x w'. m w = Inr (x, w') \<Longrightarrow> server_inv w' \<Longrightarrow> keeps_inv k w') \<Longrightarrow> keeps_inv (mseq m k) w"
  unfolding mseq_def by (rule keeps_inv_bind)

lemma keeps_then_bind:
  assumes "keeps m w" and "\<And>x w'. m w = Inr (x, w') \<Longrightarrow> server_inv w' \<Longrightarrow> later w w' \<Longrightarrow> keeps_inv (k x) w'"
  shows "keeps_inv (mbind m k) w"
  using assms by (auto simp: keeps_def keeps_inv_def mwp_def run_simps split: sum.splits)

lemma keeps_then_seq:
  "keeps m w \<Longrightarrow> (\<And>x w'. m w = Inr (x, w') \<Longrightarrow> server_inv w' \<Longrightarrow> later w w' \<Longrightarrow> keeps_inv k w') \<Longrightarrow> keeps_inv (mseq m k) w"
  unfolding mseq_def by (rule keeps_then_bind)

end
