(* ===== verification/Server_Safety.thy ===== *)
theory Server_Safety
  imports Server_Inv
begin

text \<open>
  Sending to clients, and with it every operation of a room, keeps the server invariant: first
  the steps that do not call back, then, inside \<open>client_deleter\<close>, those that do.
\<close>

section \<open>Sockets\<close>

lemma encode_cases:
  assumes "CMessage_encode ser mess buf = Inr (mess', buf', len)"
  shows "length buf' = length buf \<and> 0 \<le> len \<and> len \<le> int (length buf)"
  using assms
  by (auto simp: CMessage_encode_def CMessageHead_encode_def Let_def mem_write_def
      split: option.splits sum.splits if_splits prod.splits)

lemma encode_fault: "CMessage_encode ser mess buf = Inl e \<Longrightarrow> e = OutOfBounds"
  by (auto simp: CMessage_encode_def CMessageHead_encode_def Let_def mem_write_def
      split: option.splits sum.splits if_splits prod.splits)

lemma SendData_wp:
  assumes "sock_wf s" "m_is_using s" "0 \<le> n" "n \<le> 4096" "n \<le> int (length mem)"
  shows "mwp (TcpSocket_SendData (Some mem) n)
    (\<lambda>r (s', o2). sock_wf s' \<and> m_iSockfd s' = m_iSockfd s \<and> m_is_using s') (\<lambda>_. False) (s, o1)"
proof (cases "n = 0")
  case True
  then show ?thesis
    using assms by (simp add: TcpSocket_SendData_def wp_simps send_buffer_size_def)
next
  case False
  then show ?thesis
    using SendData_ok [of s n mem o1] assms
    by (auto simp: mwp_def tx_ext_def send_buffer_size_def split: sum.splits)
qed

lemma server_inv_io:
  assumes "server_inv w" "m_find (m_connects w) fd = Some s" "sock_wf s'" "m_iSockfd s' = fd" "m_is_using s'"
    "length b = length (send_data w)"
  shows "server_inv (w\<lparr>m_connects := m_update (m_connects w) fd s', send_data := b, w_os := o1\<rparr>)"
    and "later w (w\<lparr>m_connects := m_update (m_connects w) fd s', send_data := b, w_os := o1\<rparr>)"
proof -
  let ?w = "w\<lparr>m_connects := m_update (m_connects w) fd s', send_data := b, w_os := o1\<rparr>"
  have dom: "dom (m_find (m_connects ?w)) = dom (m_find (m_connects w))"
    using assms(2) by (auto simp: m_find_update dom_def split: if_splits)
  have "rooms_inv ?w" using assms(1) by (simp add: server_inv_def rooms_inv_def)
  moreover have "hb_inv ?w" using assms(1) dom by (simp add: server_inv_def hb_inv_def)
  moreover have "conn_inv ?w"
    using assms by (auto simp: server_inv_def conn_inv_def m_find_update split: if_splits)
  ultimately show "server_inv ?w" by (simp add: server_inv_def)
  show "later w ?w" using dom by (simp add: later_def)
qed

text \<open>Sending bytes touches nothing but the socket, the buffer and the outside world.\<close>

definition quiet :: "world \<Rightarrow> world \<Rightarrow> bool" where
  "quiet w w' \<longleftrightarrow> (\<exists>cs b o1. w' = w\<lparr>m_connects := cs, send_data := b, w_os := o1\<rparr> \<and> map fst cs = map fst (m_connects w))"

lemma quiet_refl [simp]: "quiet w w"
  unfolding quiet_def by (intro exI [of _ "m_connects w"] exI [of _ "send_data w"] exI [of _ "w_os w"]) simp

lemma quiet_trans:
  assumes "quiet w1 w2" "quiet w2 w3"
  shows "quiet w1 w3"
proof -
  obtain cs b o1 cs' b' o2 where "w2 = w1\<lparr>m_connects := cs, send_data := b, w_os := o1\<rparr>" "map fst cs = map fst (m_connects w1)"
    "w3 = w2\<lparr>m_connects := cs', send_data := b', w_os := o2\<rparr>" "map fst cs' = map fst (m_connects w2)"
    using assms unfolding quiet_def by blast
  then show ?thesis unfolding quiet_def by (intro exI [of _ cs'] exI [of _ b'] exI [of _ o2]) simp
qed

lemma quietD: "quiet w w' \<Longrightarrow> room_heap w' = room_heap w" "quiet w w' \<Longrightarrow> length (m_connects w') = length (m_connects w)"
  unfolding quiet_def by (auto dest: map_eq_imp_length_eq)

lemma io_order:
  "w\<lparr>send_data := b, m_connects := cs, w_os := o1\<rparr> = w\<lparr>m_connects := cs, send_data := b, w_os := o1\<rparr>"
  by (cases w) simp

lemma quietI: "map fst cs = map fst (m_connects w) \<Longrightarrow> quiet w (w\<lparr>m_connects := cs, send_data := b, w_os := o1\<rparr>)"
  unfolding quiet_def by blast

lemma SendByConnfd_wp:
  assumes "server_inv w"
  shows "mwp (SendMessageByConnfd ser fd mess)
    (\<lambda>r w'. (server_inv w' \<and> later w w') \<and> quiet w w'
       \<and> (r = write_status_error \<longrightarrow> m_find (m_connects w') fd \<noteq> None)) oob w"
proof (cases "m_find (m_connects w) fd")
  case None
  then show ?thesis using assms by (simp add: SendMessageByConnfd_def wp_simps status_defs write_status_defs)
next
  case (Some s)
  have s: "sock_wf s" "m_iSockfd s = fd" "m_is_using s" "int (length (send_data w)) = 4096"
    using assms Some by (auto simp: server_inv_def conn_inv_def MAX_MESSAGE_LEN_def)
  show ?thesis
  proof (cases "CMessage_encode ser mess (send_data w)")
    case (Inl e)
    then show ?thesis
      using Some encode_fault [OF Inl] by (simp add: SendMessageByConnfd_def wp_simps)
  next
    case (Inr p)
    then obtain mess' buf len where enc: "CMessage_encode ser mess (send_data w) = Inr (mess', buf, len)" by (cases p) auto
    note b = encode_cases [OF enc]
    let ?w = "w\<lparr>send_data := buf\<rparr>"
    have "mwp (TcpSocket_SendData (Some buf) len)
        (\<lambda>r (s', o2). sock_wf s' \<and> m_iSockfd s' = m_iSockfd s \<and> m_is_using s') (\<lambda>_. False) (s, w_os w)"
      using b s by (intro SendData_wp) auto
    then have "mwp (on_conn fd (TcpSocket_SendData (Some buf) len))
        (\<lambda>r w'. (server_inv w' \<and> later w w') \<and> quiet w w'
           \<and> (r = write_status_error \<longrightarrow> m_find (m_connects w') fd \<noteq> None)) oob ?w"
      unfolding mwp_on_conn [of ?w fd s, simplified, OF Some]
      using server_inv_io [OF assms Some] b s(2) Some
      by (elim mwp_mono) (auto simp: io_order m_find_update intro!: quietI)
    then show ?thesis using Some enc by (simp add: SendMessageByConnfd_def wp_simps)
  qed
qed

lemma SendByConnfd_keeps: "server_inv w \<Longrightarrow> keeps (SendMessageByConnfd ser fd mess) w"
  unfolding keeps_def by (rule mwp_mono [OF SendByConnfd_wp]) auto

section \<open>Persons\<close>

lemma ChangePersonStatus_keeps:
  assumes "server_inv w"
  shows "keeps (PersonManager_ChangePersonStatus u st) w"
proof (cases "m_find (m_user_id_to_person w) u")
  case None
  then show ?thesis using assms by (simp add: PersonManager_ChangePersonStatus_def)
next
  case (Some p)
  obtain r p' where p': "Person_ChangeStatus st p = (r, p')" "m_user_id p' = m_user_id p"
    by (cases "Person_ChangeStatus st p") (auto simp: Person_ChangeStatus_def split: if_splits)
  have "m_user_id p = u" using assms Some by (auto simp: server_inv_def conn_inv_def)
  then have "server_inv (w\<lparr>m_user_id_to_person := m_insert (m_user_id_to_person w) u p'\<rparr>)"
    "later w (w\<lparr>m_user_id_to_person := m_insert (m_user_id_to_person w) u p'\<rparr>)"
    using assms p' Some
    by (auto simp: server_inv_def rooms_inv_def hb_inv_def conn_inv_def later_def domIff)
  then show ?thesis
    using Some p' by (auto simp: PersonManager_ChangePersonStatus_def intro!: keeps_seq keeps_modify)
qed

section \<open>The ring\<close>

lemma slot_add_keeps:
  assumes "syn_wf y" and "m_proto mess \<noteq> None"
  shows "case slot_add i mess y of Inl e \<Rightarrow> oob e | Inr y' \<Rightarrow> syn_wf y' \<and> syn_ready y' = syn_ready y"
proof (cases "0 \<le> i \<and> i < int (length (m_oneframe y))")
  case True
  then have f: "arr_get (m_oneframe y) i = Inr (m_oneframe y ! nat i)" "frame_wf (m_oneframe y ! nat i)"
    using assms(1) by (auto simp: syn_wf_def)
  obtain r f' where "OneFrame_Add mess (m_oneframe y ! nat i) = Inr (r, f')" "frame_wf f'"
    using OneFrame_Add_enqueue [OF f(2)] assms(2) by blast
  then show ?thesis
    using f assms(1) set_update_subset_insert [of "m_oneframe y" "nat i" f']
    by (auto simp: slot_add_def syn_wf_def)
qed (auto simp: slot_add_def arr_get_def)

lemma SYN_Add_wp:
  assumes "syn_wf y" "syn_ready y" "m_proto mess \<noteq> None"
  shows "mwp (SYN_Add mess) (\<lambda>_ (y', o2). syn_wf y' \<and> syn_ready y') oob (y, o1)"
proof -
  let ?y = "y\<lparr>m_now_frame := frame_clock y o1\<rparr>"
  have "slot_add i mess ?y = Inl e \<Longrightarrow> oob e" "slot_add i mess ?y = Inr y' \<Longrightarrow> syn_wf y' \<and> syn_ready y'" for i e y'
    using slot_add_keeps [of ?y mess i] assms by (simp_all split: sum.splits)
  then show ?thesis
    using assms(1,2) by (auto simp: mwp_def SYN_Add_def run_simps UpdateTime_run Let_def split: sum.splits)
qed

lemma SYN_GetNowFrame_wp:
  "syn_wf y \<Longrightarrow> syn_ready y \<Longrightarrow> mwp SYN_GetNowFrame (\<lambda>_ (y', o2). syn_wf y' \<and> syn_ready y') oob (y, o1)"
  by (simp add: mwp_def SYN_GetNowFrame_def run_simps UpdateTime_run)

lemma SYN_Init_wp:
  assumes "syn_wf y"
  shows "mwp SYN_Init (\<lambda>_ (y', o2). syn_wf y' \<and> syn_ready y') oob (y, o1)"
  using assms
  by (auto simp: mwp_def SYN_Init_def run_simps GetNowTimeUs_run UpdateTime_run syn_wf_def frame_wf_def
      OneFrame_Init_def SYNBufferSize_def OneFrameBufferSize_def)

section \<open>Steps on one room\<close>

lemma keeps_on_room:
  assumes "server_inv w" "r < length (room_heap w)"
    and "mwp m (\<lambda>_ rm. room_wf rm \<and> m_room_id rm = m_room_id (room_heap w ! r)
      \<and> status_step (m_status (room_heap w ! r)) (m_status rm)
      \<and> (\<forall>u. m_find (belong_room w) u = Some r \<longrightarrow> in_room rm u)) oob (room_heap w ! r)"
  shows "keeps (on_room r m) w"
  unfolding keeps_def mwp_on_room [OF assms(2)]
  by (rule mwp_mono [OF assms(3)]) (auto intro!: server_inv_room later_room assms(1,2))

lemma keeps_inv_on_room:
  assumes "server_inv w" "r < length (room_heap w)"
    and "mwp m (\<lambda>_ rm. room_wf rm \<and> m_room_id rm = m_room_id (room_heap w ! r)
      \<and> (\<forall>u. m_find (belong_room w) u = Some r \<longrightarrow> in_room rm u)) oob (room_heap w ! r)"
  shows "keeps_inv (on_room r m) w"
  unfolding keeps_inv_def mwp_on_room [OF assms(2)]
  by (rule mwp_mono [OF assms(3)]) (auto intro!: server_inv_room assms(1,2))

lemma keeps_read_room:
  assumes "server_inv w" "r < length (room_heap w)"
    and "\<And>x rm. m (room_heap w ! r) = Inr (x, rm) \<Longrightarrow> rm = room_heap w ! r"
    and "\<And>e. m (room_heap w ! r) = Inl e \<Longrightarrow> oob e"
  shows "keeps (on_room r m) w"
proof (rule keeps_on_room [OF assms(1,2)])
  have rm: "rooms_inv w" using assms(1) by (simp add: server_inv_def)
  show "mwp m (\<lambda>_ rm. room_wf rm \<and> m_room_id rm = m_room_id (room_heap w ! r)
      \<and> status_step (m_status (room_heap w ! r)) (m_status rm) \<and> (\<forall>u. m_find (belong_room w) u = Some r \<longrightarrow> in_room rm u)) oob (room_heap w ! r)"
    using assms(3,4) rooms_invD [OF rm] assms(2) by (intro mwpI) auto
qed

lemma server_inv_syn:
  assumes "server_inv w" "r < length (room_heap w)" and y: "syn_wf y" "syn_ready y"
  shows "server_inv (w\<lparr>room_heap := (room_heap w)[r := (room_heap w ! r)\<lparr>m_syn := y\<rparr>], w_os := o1\<rparr>)
    \<and> later w (w\<lparr>room_heap := (room_heap w)[r := (room_heap w ! r)\<lparr>m_syn := y\<rparr>], w_os := o1\<rparr>)"
proof -
  have rm: "rooms_inv w" using assms(1) by (simp add: server_inv_def)
  let ?w = "w\<lparr>room_heap := (room_heap w)[r := (room_heap w ! r)\<lparr>m_syn := y\<rparr>]\<rparr>"
  have "room_wf ((room_heap w ! r)\<lparr>m_syn := y\<rparr>)" using y rooms_invD(1) [OF rm assms(2)] by (simp add: room_wf_def)
  then have "server_inv ?w" "later w ?w"
    using rooms_invD(2) [OF rm] assms(1,2)
    by (auto simp: in_room_def player_at_def intro!: server_inv_room later_room)
  then show ?thesis by (simp add: server_inv_def rooms_inv_def hb_inv_def conn_inv_def later_def)
qed

lemma keeps_on_syn:
  assumes "server_inv w" "r < length (room_heap w)"
    and "mwp m (\<lambda>_ (y, o1). syn_wf y \<and> syn_ready y) oob (m_syn (room_heap w ! r), w_os w)"
  shows "keeps (on_syn r m) w"
  unfolding keeps_def mwp_on_syn [OF assms(2)]
  by (rule mwp_mono [OF assms(3)]) (use server_inv_syn [OF assms(1,2)] in auto)

lemma on_room_read:
  "r < length (room_heap w) \<Longrightarrow> m (room_heap w ! r) = Inr (x, room_heap w ! r) \<Longrightarrow> on_room r m w = Inr (x, w)"
  by (simp add: on_room_def)

lemma keeps_bind_read:
  "r < length (room_heap w) \<Longrightarrow> m (room_heap w ! r) = Inr (x, room_heap w ! r)
    \<Longrightarrow> keeps (mbind (on_room r m) k) w = keeps (k x) w"
  by (simp add: keeps_def mwp_def run_simps on_room_read)

lemma keeps_inv_bind_read:
  "r < length (room_heap w) \<Longrightarrow> m (room_heap w ! r) = Inr (x, room_heap w ! r)
    \<Longrightarrow> keeps_inv (mbind (on_room r m) k) w = keeps_inv (k x) w"
  by (simp add: keeps_inv_def mwp_def run_simps on_room_read)

lemma mwp_room_gets: "r < length (room_heap w) \<Longrightarrow> mwp (on_room r (mgets f)) Q E w = Q (f (room_heap w ! r)) w"
  by (simp add: mwp_on_room wp_simps)

lemma inv_room:
  assumes "server_inv w" "r < length (room_heap w)"
  shows "room_wf (room_heap w ! r)"
  using assms rooms_invD(1) by (auto simp: server_inv_def)

text \<open>Reads of the room that never fault once the room is well-formed.\<close>

lemma room_reads:
  assumes "room_wf rm"
  shows "1 \<le> i \<Longrightarrow> i \<le> m_player_cnt rm \<Longrightarrow> rd_at m_is_online i rm = Inr (m_is_online rm ! nat i, rm)"
    and "1 \<le> i \<Longrightarrow> i \<le> m_player_cnt rm \<Longrightarrow> rd_at m_players i rm = Inr (m_players rm ! nat i, rm)"
    and "1 \<le> i \<Longrightarrow> i \<le> 8 \<Longrightarrow> rd_at m_is_loading_succeed i rm = Inr (m_is_loading_succeed rm ! nat i, rm)"
    and "1 \<le> i \<Longrightarrow> i \<le> m_player_cnt rm \<Longrightarrow> rd_at m_team_id i rm = Inr (m_team_id rm ! nat i, rm)"
  using room_wf_lengths [OF assms] room_wf_cnt [OF assms] by (simp_all add: run_simps)

lemma mwp_room_reads:
  assumes "r < length (room_heap w)" "room_wf (room_heap w ! r)" "1 \<le> i" "i \<le> m_player_cnt (room_heap w ! r)"
  shows "mwp (on_room r (rd_at m_is_online i)) Q E w = Q (m_is_online (room_heap w ! r) ! nat i) w"
    and "mwp (on_room r (rd_at m_players i)) Q' E w = Q' (m_players (room_heap w ! r) ! nat i) w"
    and "mwp (on_room r (rd_at m_is_loading_succeed i)) Q E w = Q (m_is_loading_succeed (room_heap w ! r) ! nat i) w"
  using assms room_reads [OF assms(2), of i] room_wf_cnt [OF assms(2)] by (simp_all add: mwp_def on_room_read)

lemma detail_loop_total:
  assumes "room_wf rm" "1 \<le> i" "i + int k \<le> m_player_cnt rm + 1"
  shows "\<exists>p. detail_loop names k i proto rm = Inr (p, rm)"
  using assms(2,3)
  by (induction k arbitrary: i proto) (auto simp: run_simps room_reads [OF assms(1)])

lemma Room_detail_total: "room_wf rm \<Longrightarrow> \<exists>p. Room_detail names rm = Inr (p, rm)"
  using detail_loop_total [of rm 1 "nat (m_player_cnt rm)" names "pb_set (pb_new PBDetailRoomInfo) 4 (VInt (m_game_option rm))"]
    room_wf_cnt [of rm]
  by (auto simp: Room_detail_def run_simps)

section \<open>Broadcasting under the contract\<close>

text \<open>
  Sending keeps the invariant and either touches no room at all or has lost a connection.
\<close>

definition sent :: "world \<Rightarrow> world \<Rightarrow> bool" where
  "sent w w' \<longleftrightarrow> (server_inv w' \<and> later w w') \<and> (quiet w w' \<or> length (m_connects w') < length (m_connects w))"

lemma sent_refl: "server_inv w \<Longrightarrow> sent w w"
  by (simp add: sent_def)

lemma sent_trans: "sent w1 w2 \<Longrightarrow> sent w2 w3 \<Longrightarrow> sent w1 w3"
  unfolding sent_def using later_trans quiet_trans quietD(2) later_conns by (metis order.strict_trans1 order.strict_trans2)

lemma mwp_sent_trans:
  "sent w w1 \<Longrightarrow> mwp m (\<lambda>_. sent w1) oob w1 \<Longrightarrow> mwp m (\<lambda>_. sent w) oob w1"
  by (erule mwp_mono) (auto intro: sent_trans)

lemma sent_keeps: "mwp m (\<lambda>_. sent w) oob w \<Longrightarrow> keeps m w"
  unfolding keeps_def by (erule mwp_mono) (auto simp: sent_def)

context client_deleter begin

lemma small_later: "small (length (m_connects w)) \<Longrightarrow> later w w' \<Longrightarrow> small (length (m_connects w'))"
  using small_down later_conns by blast

lemma del_sent:
  assumes "server_inv w" "small (length (m_connects w))" "m_find (m_connects w) fd \<noteq> None"
  shows "mwp (del fd) (\<lambda>_. sent w) oob w"
proof -
  have "mwp (del fd) (\<lambda>_ w'. length (m_connects w') < length (m_connects w)) (\<lambda>_. True) w"
    using del_fewer assms(3) by (auto simp: mwp_def split: sum.split)
  then show ?thesis
    using del_keeps [OF assms(1,2), of fd] by (auto simp: mwp_def keeps_def sent_def split: sum.splits)
qed

lemma SendMessageToClient_sent:
  assumes "server_inv w" "small (length (m_connects w))"
  shows "mwp (SendMessageToClient ser del u mess) (\<lambda>_. sent w) oob w"
proof (cases "m_find (m_user_id_to_fd w) u")
  case None
  then show ?thesis using assms by (simp add: SendMessageToClient_def wp_simps sent_refl)
next
  case (Some fd)
  have "mwp (mseq (if ret = write_status_error then del fd else mreturn ()) (mreturn ret)) (\<lambda>_. sent w) oob w'"
    if "(server_inv w' \<and> later w w') \<and> quiet w w' \<and> (ret = write_status_error \<longrightarrow> m_find (m_connects w') fd \<noteq> None)"
    for ret w'
  proof -
    have s: "sent w w'" "server_inv w'" "small (length (m_connects w'))"
      using that assms small_later by (auto simp: sent_def)
    show ?thesis
      using that s mwp_sent_trans [OF s(1) del_sent [OF s(2,3), of fd]] by (simp add: wp_simps)
  qed
  then have "mwp (SendMessageByConnfd ser fd mess)
      (\<lambda>ret. mwp (mseq (if ret = write_status_error then del fd else mreturn ()) (mreturn ret)) (\<lambda>_. sent w) oob) oob w"
    by (rule mwp_mono [OF SendByConnfd_wp [OF assms(1)]])
  then show ?thesis
    using Some by (simp add: SendMessageToClient_def mwp_bind mwp_gets)
qed

lemma send_everyone_sent:
  assumes "server_inv w" "small (length (m_connects w))" "r < length (room_heap w)" "1 \<le> i"
  shows "mwp (send_everyone_loop ser del r mess k i) (\<lambda>_. sent w) oob w"
  using assms
proof (induction k arbitrary: i w)
  case 0
  then show ?case
    by (subst send_everyone_loop.simps) (simp add: mwp_room_gets wp_simps sent_refl)
next
  case (Suc k)
  note wf = inv_room [OF Suc.prems(1,3)]
  show ?case
  proof (cases "i \<le> m_player_cnt (room_heap w ! r)")
    case True
    have next_round: "mwp (send_everyone_loop ser del r mess k (i + 1)) (\<lambda>_. sent w) oob w'" if "sent w w'" for w'
    proof (rule mwp_sent_trans [OF that Suc.IH])
      show "server_inv w'" "small (length (m_connects w'))" "r < length (room_heap w')" "1 \<le> i + 1"
        using that Suc.prems small_later later_heap by (auto simp: sent_def)
    qed
    then show ?thesis
      using True Suc.prems mwp_mono [OF SendMessageToClient_sent [OF Suc.prems(1,2), of ser _ mess]]
      by (subst send_everyone_loop.simps)
        (simp add: mwp_room_gets mwp_room_reads [OF _ wf] wp_simps sent_refl)
  next
    case False
    then show ?thesis
      using Suc.prems by (subst send_everyone_loop.simps) (simp add: mwp_room_gets wp_simps sent_refl)
  qed
qed

lemma SendMessageToEveryone_sent:
  assumes "server_inv w" "small (length (m_connects w))" "r < length (room_heap w)"
  shows "mwp (Room_SendMessageToEveryone ser del r mess) (\<lambda>_. sent w) oob w"
  unfolding Room_SendMessageToEveryone_def using send_everyone_sent [OF assms] by simp

lemma SendMessageToEveryone_keeps:
  assumes "server_inv w" "small (length (m_connects w))" "r < length (room_heap w)"
  shows "keeps (Room_SendMessageToEveryone ser del r mess) w"
  by (rule sent_keeps [OF SendMessageToEveryone_sent [OF assms]])

end

end
