(* ===== verification/Room_Safety.thy ===== *)
theory Room_Safety
  imports Server_Safety
begin

text \<open>
  Under the contract of the deleter, every operation of rooms and of the room manager that can
  lose clients keeps the server invariant and only faults by writing outside the send buffer or
  the frame ring.
\<close>

section \<open>Operations of one room\<close>

definition good :: "(nat \<Rightarrow> bool) \<Rightarrow> nat \<Rightarrow> world \<Rightarrow> bool" where
  "good small r w \<longleftrightarrow> server_inv w \<and> small (length (m_connects w)) \<and> r < length (room_heap w)"

lemma goodD: "good small r w \<Longrightarrow> server_inv w" "good small r w \<Longrightarrow> small (length (m_connects w))"
  "good small r w \<Longrightarrow> r < length (room_heap w)" "good small r w \<Longrightarrow> room_wf (room_heap w ! r)"
  by (auto simp: good_def inv_room)

lemma good_members: "good small r w \<Longrightarrow> m_find (belong_room w) u = Some r \<Longrightarrow> in_room (room_heap w ! r) u"
  using rooms_invD(2) by (auto simp: good_def server_inv_def)

text \<open>A step that writes members other than the player table.\<close>

lemma keeps_room_fields:
  assumes "good small r w" and "\<And>rm. room_wf rm \<Longrightarrow> room_wf (f rm) \<and> m_room_id (f rm) = m_room_id rm
    \<and> m_is_online (f rm) = m_is_online rm \<and> m_players (f rm) = m_players rm \<and> m_status (f rm) = m_status rm"
  shows "keeps (on_room r (mmodify f)) w"
  using assms(2) [OF goodD(4) [OF assms(1)]] good_members [OF assms(1)]
  by (intro keeps_on_room goodD [OF assms(1)]) (auto simp: wp_simps in_room_def player_at_def)

lemma waiting_members_stay:
  assumes g: "good small r w" and out: "m_find (belong_room w) u \<noteq> Some r"
    and pos: "1 \<le> pos" "pos \<le> m_player_cnt (room_heap w ! r)" "player_at (room_heap w ! r) u pos"
      "\<forall>j. 1 \<le> j \<and> j < pos \<longrightarrow> \<not> player_at (room_heap w ! r) u j"
    and st: "m_status (room_heap w ! r) = room_status_waiting"
  shows "\<exists>rm'. Room_remove_waiting pos (room_heap w ! r) = Inr ((), rm') \<and> room_wf rm'
    \<and> same_setup (room_heap w ! r) rm' \<and> player_list rm' = remove1 u (player_list (room_heap w ! r))"
proof -
  let ?rm = "room_heap w ! r"
  note wf = goodD(4) [OF g]
  obtain rm' where rm': "Room_remove_waiting pos ?rm = Inr ((), rm')" "room_wf rm'" "same_setup ?rm rm'"
    "player_list rm' = take (nat pos - 1) (player_list ?rm) @ drop (nat pos) (player_list ?rm)"
    using Room_remove_waiting_eq [OF wf st pos(1,2)] by blast
  have len: "length (player_list ?rm) = nat (m_player_cnt ?rm)" using length_player_list [OF wf] by simp
  have at: "player_list ?rm ! j = u \<longleftrightarrow> player_at ?rm u (int (Suc j))" if "j < nat (m_player_cnt ?rm)" for j
    using player_list_nth [OF wf that] room_wf_waiting [OF wf st, of "int (Suc j)"] that
    by (simp add: player_at_def nat_add_distrib)
  have "remove1 u (player_list ?rm) = take (nat pos - 1) (player_list ?rm) @ drop (Suc (nat pos - 1)) (player_list ?rm)"
  proof (rule remove1_first)
    show "nat pos - 1 < length (player_list ?rm)" using pos len by auto
    then show "player_list ?rm ! (nat pos - 1) = u" using at [of "nat pos - 1"] pos len by auto
    show "\<forall>j<nat pos - 1. player_list ?rm ! j \<noteq> u" using at pos by auto
  qed
  then show ?thesis using rm' pos by auto
qed

context client_deleter begin

lemma good_later: "good small r w \<Longrightarrow> server_inv w' \<Longrightarrow> later w w' \<Longrightarrow> good small r w'"
  using small_later by (auto simp: good_def later_heap)

lemma everyone_keeps: "good small r w \<Longrightarrow> keeps (Room_SendMessageToEveryone ser del r mess) w"
  using SendMessageToEveryone_keeps by (simp add: good_def)

lemma client_keeps: "server_inv w \<Longrightarrow> small (length (m_connects w)) \<Longrightarrow> keeps (SendMessageToClient ser del u mess) w"
  by (rule sent_keeps [OF SendMessageToClient_sent])

lemma start_game_keeps:
  assumes g: "good small r w" and st: "status_step room_status_loading (m_status (room_heap w ! r))"
  shows "keeps (mseq (on_syn r SYN_Init) (on_room r (mmodify (\<lambda>rm. rm\<lparr>m_status := room_status_ingame\<rparr>)))) w"
proof (rule keeps_seq)
  have y: "syn_wf (m_syn (room_heap w ! r))" using goodD(4) [OF g] by (simp add: room_wf_def)
  show "keeps (on_syn r SYN_Init) w" by (intro keeps_on_syn goodD [OF g] SYN_Init_wp y)
  fix x w'
  assume run: "on_syn r SYN_Init w = Inr (x, w')" and inv: "server_inv w'" "later w w'"
  have g': "good small r w'" using good_later [OF g inv] .
  have "syn_ready (m_syn (room_heap w' ! r))"
    using run goodD(3) [OF g] SYN_Init_wp [OF y, of "w_os w"]
    by (auto simp: on_syn_def mwp_def split: sum.splits)
  moreover have "status_step (m_status (room_heap w' ! r)) room_status_ingame"
    using status_step_trans [OF st laterD(15) [OF inv(2) goodD(3) [OF g]]] by (auto simp: status_step_def)
  ultimately show "keeps (on_room r (mmodify (\<lambda>rm. rm\<lparr>m_status := room_status_ingame\<rparr>))) w'"
    using goodD(4) [OF g'] good_members [OF g']
    by (intro keeps_on_room goodD [OF g']) (auto simp: wp_simps room_wf_def in_room_def player_at_def)
qed

lemma SendGameStart_keeps:
  assumes g: "good small r w"
  shows "keeps (Room_SendGameStart ser del r) w"
proof (cases "m_status (room_heap w ! r) = room_status_loading")
  case True
  have "keeps (mseq (Room_SendMessageToEveryone ser del r (mk_message (-1) (pb_new SCGameStart))) (
         mseq (on_syn r SYN_Init) (on_room r (mmodify (\<lambda>rm. rm\<lparr>m_status := room_status_ingame\<rparr>))))) w"
    by (intro keeps_seq [OF everyone_keeps [OF g]] start_game_keeps)
      (use laterD(15) [OF _ goodD(3) [OF g], unfolded True] in \<open>auto intro: good_later [OF g]\<close>)
  then show ?thesis
    using True goodD(3) [OF g]
    by (simp add: Room_SendGameStart_def keeps_bind_read Room_GetGameStatus_def run_simps)
next
  case False
  then show ?thesis
    using goodD [OF g] by (simp add: Room_SendGameStart_def keeps_bind_read Room_GetGameStatus_def run_simps)
qed

text \<open>Starting to load moves a room on from waiting, so here only the invariant is kept.\<close>

lemma loading_steps_inv:
  assumes g: "good small r w"
  shows "keeps_inv (mseq (on_room r (mmodify (\<lambda>rm. rm\<lparr>m_status := room_status_loading, m_loading_succeed_cnt := 0\<rparr>)))
      (mbind (world_os GetNowTimeSecond) (\<lambda>now. on_room r (mmodify (\<lambda>rm. rm\<lparr>m_loading_time_second := now,
             m_is_loading_succeed := map (\<lambda>_. False) (m_is_loading_succeed rm)\<rparr>))))) w"
proof (intro keeps_inv_seq keeps_then_bind)
  show "keeps_inv (on_room r (mmodify (\<lambda>rm. rm\<lparr>m_status := room_status_loading, m_loading_succeed_cnt := 0\<rparr>))) w"
    using goodD(4) [OF g] good_members [OF g]
    by (intro keeps_inv_on_room goodD [OF g]) (auto simp: wp_simps room_wf_def in_room_def player_at_def)
next
  fix x w1
  assume run: "on_room r (mmodify (\<lambda>rm. rm\<lparr>m_status := room_status_loading, m_loading_succeed_cnt := 0\<rparr>)) w = Inr (x, w1)"
    and inv: "server_inv w1"
  have g1: "good small r w1" using run inv g by (auto simp: good_def on_room_def run_simps split: if_splits)
  show "keeps (world_os GetNowTimeSecond) w1"
    by (rule keeps_os [OF inv]) (simp add: GetNowTimeSecond_def sys_gettimeofday_def run_simps split: prod.splits)
  fix now w2
  assume "server_inv w2" "later w1 w2"
  then have g2: "good small r w2" using good_later [OF g1] by blast
  show "keeps_inv (on_room r (mmodify (\<lambda>rm. rm\<lparr>m_loading_time_second := now,
      m_is_loading_succeed := map (\<lambda>_. False) (m_is_loading_succeed rm)\<rparr>))) w2"
    by (rule keeps_imp_inv, rule keeps_room_fields [OF g2]) (simp add: room_wf_def)
qed

lemma SendGameLoading_inv:
  assumes g: "good small r w"
  shows "keeps_inv (Room_SendGameLoading ser del r) w"
proof -
  have "keeps (world_os sys_call) w" by (rule keeps_os [OF goodD(1) [OF g]]) (simp add: sys_call_def)
  then show ?thesis
    using goodD [OF g]
    by (auto simp: Room_SendGameLoading_def keeps_inv_bind_read Room_GetGameStatus_def run_simps
        intro!: keeps_then_bind keeps_then_seq everyone_keeps loading_steps_inv good_later [OF g] intro: later_trans)
qed

lemma GetDetailInfo_read:
  assumes g: "good small r w"
  shows "\<exists>p. Room_GetDetailInfo r w = Inr (p, w)"
  using Room_detail_total [OF goodD(4) [OF g], of "PersonManager_GetPersonName (m_user_id_to_person w)"] goodD(3) [OF g]
  by (auto simp: Room_GetDetailInfo_def run_simps on_room_read)

lemma keeps_bind_detail:
  assumes g: "good small r w" and "\<And>p. keeps (k p) w"
  shows "keeps (mbind (Room_GetDetailInfo r) k) w"
  using GetDetailInfo_read [OF g] assms(2) by (auto simp: keeps_def mwp_def run_simps)

lemma delete_waiting_keeps:
  assumes g: "good small r w" and out: "m_find (belong_room w) u \<noteq> Some r"
    and pos: "1 \<le> pos" "pos \<le> m_player_cnt (room_heap w ! r)" "player_at (room_heap w ! r) u pos"
      "\<forall>j. 1 \<le> j \<and> j < pos \<longrightarrow> \<not> player_at (room_heap w ! r) u j"
    and st: "m_status (room_heap w ! r) = room_status_waiting"
  shows "keeps (on_room r (Room_remove_waiting pos)) w"
proof (rule keeps_on_room [OF goodD(1,3) [OF g]])
  let ?rm = "room_heap w ! r"
  obtain rm' where rm': "Room_remove_waiting pos ?rm = Inr ((), rm')" "room_wf rm'" "same_setup ?rm rm'"
    "player_list rm' = remove1 u (player_list ?rm)"
    using waiting_members_stay [OF g out pos st] by blast
  have "in_room rm' v" if "m_find (belong_room w) v = Some r" for v
  proof -
    have "v \<noteq> u" "v \<in> set (player_list ?rm)"
      using that out good_members [OF g that] waiting_in_room [OF goodD(4) [OF g] st] by auto
    then show ?thesis using waiting_in_room [OF rm'(2)] rm'(3,4) st by (simp add: same_setup_def)
  qed
  then show "mwp (Room_remove_waiting pos) (\<lambda>_ rm. room_wf rm \<and> m_room_id rm = m_room_id ?rm
      \<and> status_step (m_status ?rm) (m_status rm) \<and> (\<forall>u. m_find (belong_room w) u = Some r \<longrightarrow> in_room rm u)) oob ?rm"
    using rm' by (simp add: mwp_def same_setup_def)
qed

lemma set_offline_keeps:
  assumes g: "good small r w" and out: "m_find (belong_room w) u \<noteq> Some r"
    and pos: "1 \<le> pos" "pos \<le> m_player_cnt (room_heap w ! r)" "player_at (room_heap w ! r) u pos"
    and st: "m_status (room_heap w ! r) \<noteq> room_status_waiting"
  shows "keeps (on_room r (Room_set_offline pos)) w"
proof (rule keeps_on_room [OF goodD(1,3) [OF g]])
  let ?rm = "room_heap w ! r"
  obtain rm' where rm': "Room_set_offline pos ?rm = Inr ((), rm')" "room_wf rm'" "same_setup ?rm rm'"
    and at: "\<forall>v i. 1 \<le> i \<and> i \<le> 8 \<longrightarrow> player_at rm' v i = (player_at ?rm v i \<and> i \<noteq> pos)"
    using Room_set_offline_eq [OF goodD(4) [OF g] st pos(1,2)] pos(3) by (auto simp: player_at_def)
  have "in_room rm' v" if "m_find (belong_room w) v = Some r" for v
    using good_members [OF g that] that out pos(3) at
    by (auto simp: in_room_def max_player_cnt_def player_at_def [of ?rm])
  then show "mwp (Room_set_offline pos) (\<lambda>_ rm. room_wf rm \<and> m_room_id rm = m_room_id ?rm
      \<and> status_step (m_status ?rm) (m_status rm) \<and> (\<forall>u. m_find (belong_room w) u = Some r \<longrightarrow> in_room rm u)) oob ?rm"
    using rm' by (simp add: mwp_def same_setup_def)
qed

text \<open>After a player has dropped out of a loading room: correct the count or start the game.\<close>

lemma loading_tail_keeps:
  assumes g: "good small r w" and pos: "1 \<le> pos" "pos \<le> 8"
  shows "keeps (mbind (on_room r (rd_at m_is_loading_succeed pos)) (\<lambda>loaded.
       mseq (if loaded
             then on_room r (mseq (mmodify (\<lambda>rm. rm\<lparr>m_loading_succeed_cnt := m_loading_succeed_cnt rm - 1\<rparr>))
                    (set_loaded pos False))
             else mbind (on_room r (mgets (\<lambda>rm. m_loading_succeed_cnt rm \<ge> m_online_player_cnt rm))) (\<lambda>all.
                    if all then Room_SendGameStart ser del r else mreturn ()))
         (mreturn success))) w"
proof -
  have "keeps (on_room r (mseq (mmodify (\<lambda>rm. rm\<lparr>m_loading_succeed_cnt := m_loading_succeed_cnt rm - 1\<rparr>)) (set_loaded pos False))) w"
  proof (rule keeps_on_room [OF goodD(1,3) [OF g]])
    have l: "length (m_is_loading_succeed (room_heap w ! r)) = 9" using room_wf_lengths goodD(4) [OF g] by blast
    show "mwp (mseq (mmodify (\<lambda>rm. rm\<lparr>m_loading_succeed_cnt := m_loading_succeed_cnt rm - 1\<rparr>)) (set_loaded pos False))
        (\<lambda>_ rm. room_wf rm \<and> m_room_id rm = m_room_id (room_heap w ! r)
          \<and> status_step (m_status (room_heap w ! r)) (m_status rm) \<and> (\<forall>u. m_find (belong_room w) u = Some r \<longrightarrow> in_room rm u)) oob (room_heap w ! r)"
      using goodD(4) [OF g] l pos good_members [OF g]
      by (auto simp: mwp_def run_simps room_wf_def in_room_def player_at_def)
  qed
  then show ?thesis
    using goodD [OF g] pos SendGameStart_keeps [OF g]
    by (auto simp: keeps_bind_read room_reads [OF goodD(4) [OF g]] run_simps intro!: keeps_seq)
qed

lemma ingame_exit_keeps:
  assumes g: "good small r w" and st: "m_status (room_heap w ! r) = room_status_ingame"
  shows "keeps (mbind (on_syn r SYN_GetNowFrame) (\<lambda>frame. mseq (on_syn r (SYN_Add (mk_message frame p))) (mreturn success))) w"
proof (rule keeps_bind)
  have y: "syn_wf (m_syn (room_heap w ! r))" "syn_ready (m_syn (room_heap w ! r))"
    using goodD(4) [OF g] st by (auto simp: room_wf_def)
  show "keeps (on_syn r SYN_GetNowFrame) w" by (intro keeps_on_syn goodD [OF g] SYN_GetNowFrame_wp y)
  fix frame w'
  assume run: "on_syn r SYN_GetNowFrame w = Inr (frame, w')" and inv: "server_inv w'" "later w w'"
  have g': "good small r w'" using good_later [OF g inv] .
  have "m_status (room_heap w' ! r) = room_status_ingame"
    using run st goodD(3) [OF g] by (auto simp: on_syn_def split: sum.splits)
  then have y': "syn_wf (m_syn (room_heap w' ! r))" "syn_ready (m_syn (room_heap w' ! r))"
    using goodD(4) [OF g'] by (auto simp: room_wf_def)
  have "keeps (on_syn r (SYN_Add (mk_message frame p))) w'"
    by (intro keeps_on_syn goodD [OF g'] SYN_Add_wp y') (simp add: mk_message_def)
  then show "keeps (mseq (on_syn r (SYN_Add (mk_message frame p))) (mreturn success)) w'"
    by (auto intro!: keeps_seq)
qed

lemma DeletePlayer_keeps:
  assumes g: "good small r w" and out: "m_find (belong_room w) u \<noteq> Some r"
  shows "keeps (Room_DeletePlayer ser del r u) w"
proof -
  note wf = goodD(4) [OF g]
  obtain pos where run: "Room_GetPlayerID u (room_heap w ! r) = Inr (pos, room_heap w ! r)"
    and pos: "pos = 0 \<or> 1 \<le> pos \<and> pos \<le> m_player_cnt (room_heap w ! r) \<and> player_at (room_heap w ! r) u pos
       \<and> (\<forall>j. 1 \<le> j \<and> j < pos \<longrightarrow> \<not> player_at (room_heap w ! r) u j)"
    using Room_GetPlayerID_eq [OF wf, of u] by blast
  note reads = keeps_bind_read [OF goodD(3) [OF g]] run Room_GetGameStatus_def run_simps
  consider "pos = 0" | "pos \<noteq> 0" "m_status (room_heap w ! r) = room_status_waiting"
    | "pos \<noteq> 0" "m_status (room_heap w ! r) = room_status_loading"
    | "pos \<noteq> 0" "m_status (room_heap w ! r) = room_status_ingame"
    using wf by (auto simp: room_wf_def)
  then show ?thesis
  proof cases
    case 1
    then show ?thesis using goodD(1) [OF g] by (simp add: Room_DeletePlayer_def reads)
  next
    case 2
    have rm: "keeps (on_room r (Room_remove_waiting pos)) w" using delete_waiting_keeps [OF g out] 2 pos by auto
    show ?thesis
      unfolding Room_DeletePlayer_def using 2
      by (simp add: reads) (intro keeps_seq rm keeps_bind_detail everyone_keeps ChangePersonStatus_keeps;
          auto intro: good_later [OF g] good_later [OF good_later [OF g]])
  next
    case 3
    have rm: "keeps (on_room r (Room_set_offline pos)) w" using set_offline_keeps [OF g out] 3 pos by auto
    have p8: "1 \<le> pos" "pos \<le> 8" using pos 3 room_wf_cnt [OF wf] by auto
    show ?thesis
      unfolding Room_DeletePlayer_def using 3
      by (simp add: reads) (intro keeps_seq rm everyone_keeps loading_tail_keeps p8;
          auto intro: good_later [OF g] good_later [OF good_later [OF g]])
  next
    case 4
    have rm: "keeps (on_room r (Room_set_offline pos)) w" using set_offline_keeps [OF g out] 4 pos by auto
    have "m_status (room_heap w' ! r) = room_status_ingame" if "on_room r (Room_set_offline pos) w = Inr ((), w')" for w'
      using that 4 goodD(3) [OF g] Room_set_offline_eq [OF wf, of pos] pos
      by (auto simp: on_room_def same_setup_def player_at_def split: sum.splits)
    then show ?thesis
      unfolding Room_DeletePlayer_def using 4
      by (simp add: reads) (intro keeps_seq rm ingame_exit_keeps; auto intro: good_later [OF g])
  qed
qed

end

end
