(* ===== verification/Server_Core.thy ===== *)
theory Server_Core
  imports Room_Safety
begin

text \<open>
  The contract of the deleter holds for \<open>DeleteClientByFD\<close> itself: by induction on the number of
  connections, from the client lemmas proved under the contract. With it the periodic work of
  rooms and heartbeat is safe, and the loop of \<^verbatim>\<open>SYN::Run\<close> ends even though sending can move
  its clock.
\<close>

section \<open>Dropping a connection\<close>

lemma m_erase_update: "m_erase (m_update m k v) k = m_erase m k"
  by (induction m) (auto simp: m_erase_def m_update_def)

lemma drop_connection_eq:
  assumes inv: "server_inv w" and s: "m_find (m_connects w) fd = Some s"
  shows "\<exists>sec o1. m_find (m_fd_to_sec w) fd = Some sec \<and> drop_connection fd w =
    Inr ((), w\<lparr>m_sec_fd := s_erase (m_sec_fd w) (sec, fd), m_fd_to_sec := m_erase (m_fd_to_sec w) fd,
      m_connects := m_erase (m_connects w) fd, free_conns := free_conns w @ [s\<lparr>m_is_using := False\<rparr>], w_os := o1\<rparr>)"
proof -
  have "fd \<in> dom (m_find (m_fd_to_sec w))" using inv s by (auto simp: server_inv_def hb_inv_def)
  then obtain sec where sec: "m_find (m_fd_to_sec w) fd = Some sec" by auto
  have mem: "(sec, fd) \<in> set (m_sec_fd w)" and use: "m_is_using s" "m_iSockfd s = fd"
    using inv sec s by (auto simp: server_inv_def hb_inv_def conn_inv_def)
  have "drop_connection fd w =
    Inr ((), w\<lparr>m_sec_fd := s_erase (m_sec_fd w) (sec, fd), m_fd_to_sec := m_erase (m_fd_to_sec w) fd,
      m_connects := m_erase (m_connects w) fd, free_conns := free_conns w @ [s\<lparr>m_is_using := False\<rparr>],
      w_os := (w_os w)\<lparr>os_trace := os_trace (w_os w) @ [EvEpollDel fd, EvClose fd]\<rparr>\<rparr>)"
    using sec mem use s
    by (simp add: drop_connection_def Heartbeat_DeleteFD_def DeleteFromEpoll_def world_os_def sys_event_def
        TcpSocket_close_socket_def on_conn_def run_simps m_find_update m_erase_update)
  then show ?thesis using sec by blast
qed

lemma drop_connection_keeps:
  assumes inv: "server_inv w" and s: "m_find (m_connects w) fd = Some s"
  shows "keeps (drop_connection fd) w"
proof -
  obtain sec o1 where sec: "m_find (m_fd_to_sec w) fd = Some sec"
    and run: "drop_connection fd w =
    Inr ((), w\<lparr>m_sec_fd := s_erase (m_sec_fd w) (sec, fd), m_fd_to_sec := m_erase (m_fd_to_sec w) fd,
      m_connects := m_erase (m_connects w) fd, free_conns := free_conns w @ [s\<lparr>m_is_using := False\<rparr>], w_os := o1\<rparr>)"
    (is "_ = Inr ((), ?w)")
    using drop_connection_eq [OF assms] by blast
  have "rooms_inv ?w" using inv by (simp add: server_inv_def rooms_inv_def)
  moreover have "hb_inv ?w"
    using inv sec by (auto simp: server_inv_def hb_inv_def sorted_s_erase split: if_splits)
  moreover have "conn_inv ?w"
    using inv s by (auto simp: server_inv_def conn_inv_def sock_wf_def split: if_splits)
  moreover have "later w ?w"
    by (auto simp: later_def length_m_erase_le map_le_def)
  ultimately show ?thesis using run by (simp add: keeps_def mwp_def server_inv_def)
qed

section \<open>Logging out\<close>

lemma logout_later:
  assumes u: "m_find (m_user_id_to_fd w) u = Some fd"
    and l: "later (w\<lparr>m_user_id_to_fd := m_erase (m_user_id_to_fd w) u\<rparr>) w2"
  shows "later w (w2\<lparr>m_user_id_to_person := m_erase (m_user_id_to_person w2) u\<rparr>)"
proof -
  have "m_find (m_user_id_to_fd w2) \<subseteq>\<^sub>m m_find (m_user_id_to_fd w)"
    using laterD(4) [OF l] unfolding map_le_def by (auto split: if_splits) (metis domI option.distinct(1))
  moreover have "m_find (m_user_id_to_person w2) v \<noteq> None"
    if "m_find (m_user_id_to_fd w) v = None" "m_find (m_user_id_to_person w) v \<noteq> None" for v
    using laterD(8) [OF l, of v] that by auto
  moreover have "v \<noteq> u" if "m_find (m_user_id_to_fd w) v = None" for v using that u by auto
  ultimately show ?thesis
    unfolding later_def using laterD(1-3,5-7,9-15) [OF l] by (auto simp: subset_iff)
qed

lemma later_fd_erase: "later w w' \<Longrightarrow> later w (w'\<lparr>m_fd_to_user_id := m_erase (m_fd_to_user_id w') fd\<rparr>)"
proof (erule later_trans)
  show "later w' (w'\<lparr>m_fd_to_user_id := m_erase (m_fd_to_user_id w') fd\<rparr>)"
    by (simp add: later_def)
qed

context client_deleter begin

lemma DeletePlayerFromRoom_keeps:
  assumes "server_inv w" "small (length (m_connects w))"
  shows "keeps (DeletePlayerFromRoom ser del u) w"
proof (cases "m_find (belong_room w) u")
  case None
  then show ?thesis using assms by (simp add: DeletePlayerFromRoom_def)
next
  case (Some r)
  let ?f = "\<lambda>w. w\<lparr>belong_room := m_erase (belong_room w) u\<rparr>"
  have r: "r < length (room_heap w)" using assms Some by (auto simp: server_inv_def rooms_inv_def)
  have "server_inv (?f w)" "later w (?f w)"
    using assms(1) by (auto simp: server_inv_def rooms_inv_def hb_inv_def conn_inv_def later_def map_le_def split: if_splits)
  then show ?thesis
    using Some r assms(2) by (auto simp: DeletePlayerFromRoom_def good_def run_simps intro!: keeps_seq keeps_modify DeletePlayer_keeps)
qed

lemma OnExit_keeps:
  assumes "server_inv w" "small (length (m_connects w))"
  shows "keeps (Person_OnExit ser del p) w"
  using assms DeletePlayerFromRoom_keeps [OF assms] by (auto simp: Person_OnExit_def intro!: keeps_seq)

lemma PlayerLogout_keeps:
  assumes inv: "server_inv w" and sm: "small (length (m_connects w))"
  shows "keeps (PlayerLogout ser del u) w"
proof (cases "m_find (m_user_id_to_fd w) u")
  case None
  then show ?thesis using inv by (auto simp: PlayerLogout_def intro!: keeps_seq)
next
  case (Some fd)
  let ?w1 = "w\<lparr>m_user_id_to_fd := m_erase (m_user_id_to_fd w) u\<rparr>"
  let ?fd = "\<lambda>w. w\<lparr>m_fd_to_user_id := m_erase (m_fd_to_user_id w) fd\<rparr>"
  let ?out = "\<lambda>w. w\<lparr>m_user_id_to_person := m_erase (m_user_id_to_person w) u\<rparr>"
  have inv1: "server_inv ?w1" using inv by (simp add: server_inv_def rooms_inv_def hb_inv_def conn_inv_def)
  have inv_fd: "server_inv (?fd w')" if "server_inv w'" for w'
    using that by (simp add: server_inv_def rooms_inv_def hb_inv_def conn_inv_def)
  have inv_out: "server_inv (?out w')" if "server_inv w'" for w'
    using that by (simp add: server_inv_def rooms_inv_def hb_inv_def conn_inv_def)
  have "mwp (PersonLogout ser del u) (\<lambda>_ w'. server_inv w' \<and> later w w') oob ?w1"
  proof (cases "m_find (m_user_id_to_person w) u")
    case None
    have "later w ?w1" using None by (auto simp: later_def map_le_def)
    then show ?thesis using None inv1 by (simp add: PersonLogout_def wp_simps)
  next
    case (Some p)
    have "mwp (mbind (mgets m_user_id_to_person) (\<lambda>ps'. case m_find ps' u of None \<Rightarrow> mfault DanglingIter
          | Some _ \<Rightarrow> mseq (mmodify (\<lambda>w. w\<lparr>m_user_id_to_person := m_erase ps' u\<rparr>)) (mreturn success)))
        (\<lambda>_ w'. server_inv w' \<and> later w w') oob w2"
      if "server_inv w2 \<and> later ?w1 w2" for w2
    proof -
      have "m_find (m_user_id_to_person w2) u \<noteq> None" using laterD(8) [of ?w1 w2 u] that Some by simp
      moreover have "server_inv (?out w2)" "later w (?out w2)"
        using that inv_out logout_later [OF \<open>m_find (m_user_id_to_fd w) u = Some fd\<close>] by auto
      ultimately show ?thesis by (auto simp: wp_simps)
    qed
    moreover have "keeps (Person_OnExit ser del p) ?w1" using OnExit_keeps [OF inv1] sm by simp
    ultimately have "mwp (Person_OnExit ser del p) (\<lambda>_. mwp (mbind (mgets m_user_id_to_person) (\<lambda>ps'. case m_find ps' u of
          None \<Rightarrow> mfault DanglingIter
        | Some _ \<Rightarrow> mseq (mmodify (\<lambda>w. w\<lparr>m_user_id_to_person := m_erase ps' u\<rparr>)) (mreturn success)))
        (\<lambda>_ w'. server_inv w' \<and> later w w') oob) oob ?w1"
      unfolding keeps_def by (elim mwp_mono)
    then show ?thesis using Some by (simp add: PersonLogout_def mwp_bind mwp_gets mwp_seq)
  qed
  then have "mwp (PersonLogout ser del u) (\<lambda>_. mwp (mmodify ?fd) (\<lambda>_ w'. server_inv w' \<and> later w w') oob) oob ?w1"
    by (rule mwp_mono) (auto simp: mwp_modify inv_fd later_fd_erase)
  then show ?thesis using Some by (simp add: PlayerLogout_def keeps_def wp_simps)
qed

lemma DeleteClient_body_keeps:
  assumes inv: "server_inv w" and sm: "\<And>n. n < length (m_connects w) \<Longrightarrow> small n"
  shows "keeps (DeleteClientByFD_body ser del fd) w"
proof (cases "m_find (m_connects w) fd")
  case None
  then show ?thesis using inv by (simp add: DeleteClientByFD_body_def)
next
  case (Some s)
  have "keeps (mbind (mgets m_fd_to_user_id) (\<lambda>m. case m_find m fd of None \<Rightarrow> mreturn ()
      | Some user_id \<Rightarrow> mseq (PlayerLogout ser del user_id) (mreturn ()))) w'"
    if "drop_connection fd w = Inr ((), w')" "server_inv w'" for w'
    using that PlayerLogout_keeps [OF that(2) sm [OF drop_connection_fewer [OF that(1)]]]
    by (auto split: option.split intro!: keeps_seq)
  then show ?thesis
    using Some drop_connection_keeps [OF inv Some]
    by (auto simp: DeleteClientByFD_body_def intro!: keeps_seq)
qed

end

section \<open>The contract holds\<close>

lemma body_fewer:
  assumes "m_find (m_connects w) fd = Some s" and "DeleteClientByFD_body ser d fd w = Inr (x, w')"
    and d: "\<And>n fd. n < length (m_connects w) \<Longrightarrow> agree n (d fd) (d fd)"
  shows "length (m_connects w') < length (m_connects w)"
proof -
  obtain w1 where w1: "drop_connection fd w = Inr ((), w1)"
    and rest: "mbind (mgets m_fd_to_user_id) (\<lambda>m. case m_find m fd of None \<Rightarrow> mreturn ()
      | Some user_id \<Rightarrow> mseq (PlayerLogout ser d user_id) (mreturn ())) w1 = Inr (x, w')"
    using assms(1,2) by (auto simp: DeleteClientByFD_body_def run_simps split: sum.splits)
  have lt: "length (m_connects w1) < length (m_connects w)" using drop_connection_fewer [OF w1] .
  have "agree (length (m_connects w1)) (mbind (mgets m_fd_to_user_id) (\<lambda>m. case m_find m fd of None \<Rightarrow> mreturn ()
      | Some user_id \<Rightarrow> mseq (PlayerLogout ser d user_id) (mreturn ())))
     (mbind (mgets m_fd_to_user_id) (\<lambda>m. case m_find m fd of None \<Rightarrow> mreturn ()
      | Some user_id \<Rightarrow> mseq (PlayerLogout ser d user_id) (mreturn ())))"
    using lt by (auto intro!: agree_rules agree_PlayerLogout d split: option.split)
  then show ?thesis using rest lt unfolding agree_def by fastforce
qed

lemma agree_rec_self: "agree n (DeleteClientByFD_rec ser k fd) (DeleteClientByFD_rec ser k fd)"
proof (induction k arbitrary: n fd)
  case 0
  then show ?case by (simp add: agree_def run_simps)
next
  case (Suc k)
  then show ?case by (simp add: agree_body)
qed

lemma rec_contract: "client_deleter (DeleteClientByFD_rec ser n) (\<lambda>m. m < n)"
proof (induction n)
  case 0
  show ?case by unfold_locales (auto simp: run_simps)
next
  case (Suc n)

  show ?case
  proof
    show "keeps (DeleteClientByFD_rec ser (Suc n) fd) w" if "server_inv w" "length (m_connects w) < Suc n" for w fd
      using client_deleter.DeleteClient_body_keeps [OF Suc, of w ser fd] that by simp
    show "length (m_connects w') < length (m_connects w)"
      if "m_find (m_connects w) fd = Some s" "DeleteClientByFD_rec ser (Suc n) fd w = Inr (x, w')" for w fd s x w'
      using body_fewer [OF that(1)] that(2) agree_rec_self by simp
  qed auto
qed

interpretation dc: client_deleter "DeleteClientByFD ser" "\<lambda>_. True" for ser
proof
  show "keeps (DeleteClientByFD ser fd) w" if "server_inv w" for w fd
    using client_deleter.del_keeps [OF rec_contract [of ser "Suc (length (m_connects w))"] that, of fd]
    by (simp add: keeps_def mwp_def DeleteClientByFD_def)
  show "length (m_connects w') < length (m_connects w)"
    if "m_find (m_connects w) fd = Some s" "DeleteClientByFD ser fd w = Inr (x, w')" for w fd s x w'
    using client_deleter.del_fewer [OF rec_contract that(1)] that(2) unfolding DeleteClientByFD_def by blast
qed auto

end
