(* ===== verification/Server_Tick.thy ===== *)
theory Server_Tick
  imports Server_Core
begin

text \<open>
  The periodic work: \<^verbatim>\<open>Room::OnTick\<close> with the frame loop of the game, \<^verbatim>\<open>RoomManager::OnTick\<close>, and
  \<^verbatim>\<open>Heartbeat::OnTick\<close>.
\<close>

section \<open>Running the frames of a room\<close>

abbreviation "ring_of r \<equiv> \<lambda>w. fst (syn_get r w)"
abbreviation "put_ring r \<equiv> \<lambda>y w. syn_put r (y, snd (syn_get r w)) w"

lemma ring_of_eq [simp]: "ring_of r w = m_syn (room_heap w ! r)"
  by (simp add: syn_get_def)

text \<open>
  \<open>ticked r w w'\<close>: the invariant is kept, and unless a connection was lost the window of the ring of
  room \<open>r\<close> has not moved and its clock stands still.
\<close>

definition ticked :: "nat \<Rightarrow> world \<Rightarrow> world \<Rightarrow> bool" where
  "ticked r w w' \<longleftrightarrow> (server_inv w' \<and> later w w') \<and> (length (m_connects w') < length (m_connects w)
     \<or> length (m_connects w') = length (m_connects w)
       \<and> m_head_frame (m_syn (room_heap w' ! r)) = m_head_frame (m_syn (room_heap w ! r))
       \<and> m_now_frame (m_syn (room_heap w' ! r)) = m_now_frame (m_syn (room_heap w ! r)))"

lemma ticked_refl: "server_inv w \<Longrightarrow> ticked r w w"
  by (simp add: ticked_def)

lemma ticked_trans: "ticked r w1 w2 \<Longrightarrow> ticked r w2 w3 \<Longrightarrow> ticked r w1 w3"
  unfolding ticked_def by (auto intro: later_trans)

lemma sent_ticked: "sent w w' \<Longrightarrow> ticked r w w'"
  using quietD [of w w'] by (auto simp: sent_def ticked_def)

lemma mwp_ticked_trans: "ticked r w w1 \<Longrightarrow> mwp m (\<lambda>_. ticked r w1) oob w1 \<Longrightarrow> mwp m (\<lambda>_. ticked r w) oob w1"
  by (erule mwp_mono) (auto intro: ticked_trans)

text \<open>A room in the game, in an admissible state.\<close>

definition playing :: "(nat \<Rightarrow> bool) \<Rightarrow> nat \<Rightarrow> world \<Rightarrow> bool" where
  "playing small r w \<longleftrightarrow> good small r w \<and> m_status (room_heap w ! r) = room_status_ingame"

lemma playingD:
  assumes "playing small r w"
  shows "good small r w" "server_inv w" "small (length (m_connects w))" "r < length (room_heap w)"
    "syn_wf (m_syn (room_heap w ! r))" "syn_ready (m_syn (room_heap w ! r))"
  using assms goodD(4) [of small r w] by (auto simp: playing_def good_def room_wf_def)

lemma put_ring_ticked:
  assumes "playing small r w" "syn_wf y" "syn_ready y"
    "m_head_frame y = m_head_frame (m_syn (room_heap w ! r))" "m_now_frame y = m_now_frame (m_syn (room_heap w ! r))"
  shows "ticked r w (put_ring r y w)"
  using server_inv_syn [OF playingD(2,4) [OF assms(1)] assms(2,3), of "w_os w"] assms(4,5) playingD(4) [OF assms(1)]
  by (simp add: ticked_def syn_put_def syn_get_def)

lemma head_slot_wf: "syn_wf y \<Longrightarrow> \<exists>f. head_slot y = Inr f \<and> frame_wf f"
  by (auto simp: head_slot_def syn_wf_def)

lemma put_head_slot_ready [simp]: "syn_ready (put_head_slot f y) = syn_ready y"
  by (simp add: put_head_slot_def)

lemma next_head_ready [simp]: "syn_ready (next_head y) = syn_ready y"
  by (simp add: next_head_def)

lemma next_head_wf: "syn_wf y \<Longrightarrow> syn_wf (next_head y)"
  using smod_64 [of "m_head_slot y + 1"] by (auto simp: syn_wf_def next_head_def SYNBufferSize_def)

context client_deleter begin

lemma playing_later:
  assumes p: "playing small r w" and "server_inv w'" "later w w'"
  shows "playing small r w'"
  using good_later [OF playingD(1) [OF p] assms(2,3)] laterD(15) [OF assms(3) playingD(4) [OF p]] p
  by (simp add: playing_def)

lemma playing_ticked: "playing small r w \<Longrightarrow> ticked r w w' \<Longrightarrow> playing small r w'"
  using playing_later by (auto simp: ticked_def)

lemma everyone_ticked: "playing small r w \<Longrightarrow> mwp (Room_SendMessageToEveryone ser del r mess) (\<lambda>_. ticked r w) oob w"
  using SendMessageToEveryone_sent playingD(2-4) by (blast intro: mwp_mono sent_ticked)

lemma send_slot_round:
  assumes p: "playing small r w" and "0 \<le> i"
    and f: "head_slot (m_syn (room_heap w ! r)) = Inr f" "frame_wf f"
    and rest: "\<And>w'. ticked r w w' \<Longrightarrow> mwp rest (\<lambda>_. ticked r w) oob w'"
  shows "mwp (mbind (mlift (arr_get (m_mess f) i)) (\<lambda>mess.
         let mess' = stamp_frame n mess; f' = f\<lparr>m_mess := (m_mess f)[nat i := mess']\<rparr>
         in mseq (mmodify (\<lambda>s. put_ring r (put_head_slot f' (ring_of r s)) s))
              (mseq (Room_SendMessageToEveryone ser del r mess') rest))) (\<lambda>_. ticked r w) oob w"
proof (cases "arr_get (m_mess f) i")
  case (Inl e)
  then show ?thesis by (auto simp: wp_simps arr_get_def split: if_splits)
next
  case (Inr mess)
  let ?m = "stamp_frame n mess"
  let ?y = "put_head_slot (f\<lparr>m_mess := (m_mess f)[nat i := ?m]\<rparr>) (m_syn (room_heap w ! r))"
  have "ticked r w (put_ring r ?y w)"
    using playingD(5,6) [OF p] f(2) by (intro put_ring_ticked [OF p] put_head_slot_wf) (auto simp: frame_wf_def)
  then have "mwp (mseq (Room_SendMessageToEveryone ser del r ?m) rest) (\<lambda>_. ticked r w) oob (put_ring r ?y w)"
    unfolding mwp_seq
    by (intro mwp_mono [OF everyone_ticked [OF playing_ticked [OF p]]]) (auto intro: rest ticked_trans)
  then show ?thesis using Inr by (simp add: mwp_bind mwp_lift mwp_seq mwp_modify Let_def)
qed

lemma mwp_head_slot:
  "head_slot (m_syn (room_heap w ! r)) = Inr f \<Longrightarrow>
    mwp (mbind (mgets (ring_of r)) (\<lambda>y. mbind (mlift (head_slot y)) (k y))) Q E w = mwp (k (m_syn (room_heap w ! r)) f) Q E w"
  by (simp add: mwp_bind mwp_gets mwp_lift)

lemma send_slot_loop_ticked:
  assumes "playing small r w" "0 \<le> i"
  shows "mwp (send_slot_loop (ring_of r) (put_ring r) (Room_SendMessageToEveryone ser del r) k i) (\<lambda>_. ticked r w) oob w"
  using assms
proof (induction k arbitrary: i w)
  case 0
  obtain f where f: "head_slot (m_syn (room_heap w ! r)) = Inr f" "frame_wf f"
    using head_slot_wf [OF playingD(5) [OF 0(1)]] by blast
  have "mwp (mfault OutOfBounds) (\<lambda>_. ticked r w) oob w'" for w' by (simp add: mwp_fault)
  note round = send_slot_round [OF 0 f this]
  show ?case
    unfolding send_slot_loop.simps [of _ _ _ 0] mwp_head_slot [OF f(1)] nat.case
    by (cases "i < m_num f") (simp_all only: if_True if_False round mwp_return ticked_refl [OF playingD(2) [OF 0(1)]])
next
  case (Suc k)
  obtain f where f: "head_slot (m_syn (room_heap w ! r)) = Inr f" "frame_wf f"
    using head_slot_wf [OF playingD(5) [OF Suc.prems(1)]] by blast
  have "mwp (send_slot_loop (ring_of r) (put_ring r) (Room_SendMessageToEveryone ser del r) k (i + 1)) (\<lambda>_. ticked r w) oob w'"
    if "ticked r w w'" for w'
    using mwp_ticked_trans [OF that Suc.IH [OF playing_ticked [OF Suc.prems(1) that]]] Suc.prems(2) by simp
  note round = send_slot_round [OF Suc.prems f this]
  show ?case
    unfolding send_slot_loop.simps [of _ _ _ "Suc k"] mwp_head_slot [OF f(1)] nat.case
    by (cases "i < m_num f") (simp_all only: if_True if_False round mwp_return ticked_refl [OF playingD(2) [OF Suc.prems(1)]])
qed

lemma SendHeadFrame_ticked:
  assumes p: "playing small r w"
  shows "mwp (SYN_SendHeadFrameToAll (ring_of r) (put_ring r) (Room_SendMessageToEveryone ser del r)) (\<lambda>_. ticked r w) oob w"
proof -
  let ?send = "Room_SendMessageToEveryone ser del r"
  let ?clear = "mbind (mgets (ring_of r)) (\<lambda>y'. mbind (mlift (head_slot y')) (\<lambda>f'.
       mmodify (\<lambda>s. put_ring r (put_head_slot (OneFrame_Init f') (ring_of r s)) s)))"
  obtain f where f: "head_slot (m_syn (room_heap w ! r)) = Inr f" "frame_wf f"
    using head_slot_wf [OF playingD(5) [OF p]] by blast
  have clear: "mwp ?clear (\<lambda>_. ticked r w) oob w'" if l: "ticked r w w'" for w'
  proof -
    note p' = playing_ticked [OF p l]
    obtain f' where f': "head_slot (m_syn (room_heap w' ! r)) = Inr f'" "frame_wf f'"
      using head_slot_wf [OF playingD(5) [OF p']] by blast
    have "ticked r w' (put_ring r (put_head_slot (OneFrame_Init f') (m_syn (room_heap w' ! r))) w')"
      using playingD(5,6) [OF p'] f'(2)
      by (intro put_ring_ticked [OF p'] put_head_slot_wf) (auto simp: frame_wf_def OneFrame_Init_def OneFrameBufferSize_def)
    then show ?thesis using f'(1) ticked_trans [OF l] by (simp add: mwp_bind mwp_gets mwp_lift mwp_modify)
  qed
  have loop: "mwp (mseq (send_slot_loop (ring_of r) (put_ring r) ?send (nat OneFrameBufferSize) 0) ?clear) (\<lambda>_. ticked r w) oob w'"
    if l: "ticked r w w'" for w'
    unfolding mwp_seq
    by (rule mwp_mono [OF send_slot_loop_ticked [OF playing_ticked [OF p l] order_refl]]) (rule clear, erule ticked_trans [OF l], assumption)
  have "mwp (if m_num f = 0 then ?send m else mreturn ()) (\<lambda>_. ticked r w) oob w" for m
    using everyone_ticked [OF p] ticked_refl [OF playingD(2) [OF p]] by (simp add: wp_simps)
  then have "mwp (if m_num f = 0 then ?send m else mreturn ())
      (\<lambda>_. mwp (mseq (send_slot_loop (ring_of r) (put_ring r) ?send (nat OneFrameBufferSize) 0) ?clear) (\<lambda>_. ticked r w) oob) oob w" for m
    by (rule mwp_mono) (erule loop, assumption)
  then show ?thesis
    unfolding SYN_SendHeadFrameToAll_def mwp_head_slot [OF f(1)] mwp_seq [of "if _ then _ else _"] .
qed

lemma run_round:
  assumes p: "playing small r w" and due: "run_due (m_syn (room_heap w ! r))"
  shows "mwp (mseq (SYN_SendHeadFrameToAll (ring_of r) (put_ring r) (Room_SendMessageToEveryone ser del r))
        (mmodify (\<lambda>s. put_ring r (next_head (ring_of r s)) s)))
      (\<lambda>_ w'. (server_inv w' \<and> later w w') \<and> (length (m_connects w') < length (m_connects w)
         \<or> length (m_connects w') = length (m_connects w)
           \<and> run_gap (m_syn (room_heap w' ! r)) < run_gap (m_syn (room_heap w ! r)))) oob w"
  unfolding mwp_seq
proof (rule mwp_mono [OF SendHeadFrame_ticked [OF p]])
  fix x w1
  assume t: "ticked r w w1"
  note p1 = playing_ticked [OF p t]
  let ?y = "m_syn (room_heap w1 ! r)"
  have y: "syn_wf (next_head ?y)" "syn_ready (next_head ?y)"
    using playingD(5,6) [OF p1] by (simp_all add: next_head_wf)
  have inv: "server_inv (put_ring r (next_head ?y) w1) \<and> later w1 (put_ring r (next_head ?y) w1)"
    using server_inv_syn [OF playingD(2,4) [OF p1] y, of "w_os w1"] by (simp add: syn_put_def syn_get_def)
  have ring: "m_syn (room_heap (put_ring r (next_head ?y) w1) ! r) = next_head ?y"
    "m_connects (put_ring r (next_head ?y) w1) = m_connects w1"
    using playingD(4) [OF p1] by (simp_all add: syn_put_def)
  have "run_gap (next_head ?y) < run_gap (m_syn (room_heap w ! r))"
    if "m_head_frame ?y = m_head_frame (m_syn (room_heap w ! r))" "m_now_frame ?y = m_now_frame (m_syn (room_heap w ! r))"
    using that due by (simp add: run_gap_def next_head_def run_due_def SYN_AllowedDelay_def)
  then show "mwp (mmodify (\<lambda>s. put_ring r (next_head (ring_of r s)) s))
      (\<lambda>_ w'. (server_inv w' \<and> later w w') \<and> (length (m_connects w') < length (m_connects w)
         \<or> length (m_connects w') = length (m_connects w)
           \<and> run_gap (m_syn (room_heap w' ! r)) < run_gap (m_syn (room_heap w ! r)))) oob w1"
    using inv t later_trans [of w w1] unfolding mwp_modify ring_of_eq ring by (auto simp: ticked_def ring)
qed

text \<open>The frame loop ends: its guard, that a connection is lost or the gap has shrunk, never fails.\<close>

lemma syn_run_loop_keeps:
  "playing small r w \<Longrightarrow>
    keeps (syn_run_loop (ring_of r) (put_ring r) (Room_SendMessageToEveryone ser del r) (\<lambda>w. length (m_connects w))) w"
proof (induction "ring_of r" "put_ring r" "Room_SendMessageToEveryone ser del r" "\<lambda>w :: world. length (m_connects w)" w
    rule: syn_run_loop.induct)
  case (1 w)
  let ?round = "mseq (SYN_SendHeadFrameToAll (ring_of r) (put_ring r) (Room_SendMessageToEveryone ser del r))
        (mmodify (\<lambda>s. put_ring r (next_head (ring_of r s)) s))"
  show ?case
  proof (cases "run_due (m_syn (room_heap w ! r))")
    case True
    note ok = run_round [OF 1(2) True, of ser]
    show ?thesis
    proof (cases "?round w")
      case (Inl e)
      then show ?thesis using ok True by (simp add: keeps_def mwp_def syn_run_loop.simps [of _ _ _ _ w])
    next
      case (Inr q)
      then obtain w' where w': "?round w = Inr ((), w')" by (cases q) auto
      have inv: "server_inv w'" "later w w'"
        and less: "length (m_connects w') < length (m_connects w)
         \<or> length (m_connects w') = length (m_connects w)
           \<and> run_gap (m_syn (room_heap w' ! r)) < run_gap (m_syn (room_heap w ! r))"
        using mwpD [OF ok w'] by auto
      have "keeps (syn_run_loop (ring_of r) (put_ring r) (Room_SendMessageToEveryone ser del r) (\<lambda>w. length (m_connects w))) w'"
        using 1(1) [OF _ w' refl] less True playing_later [OF 1(2) inv] by simp
      then show ?thesis
        using w' less True inv
        by (subst keeps_def, subst mwp_def, subst syn_run_loop.simps)
          (auto simp: keeps_def mwp_def split: sum.splits intro: later_trans)
    qed
  next
    case False
    then show ?thesis using playingD(2) [OF 1(2)] by (simp add: keeps_def mwp_def syn_run_loop.simps [of _ _ _ _ w])
  qed
qed

lemma SYN_Run_keeps:
  assumes p: "playing small r w"
  shows "keeps (SYN_Run (syn_get r) (syn_put r) (Room_SendMessageToEveryone ser del r) (\<lambda>w. length (m_connects w))) w"
  unfolding SYN_Run_def
proof (rule keeps_seq)
  let ?y = "m_syn (room_heap w ! r)"
  have run: "mzoom (syn_get r) (syn_put r) SYN_UpdateTime w =
      Inr ((), syn_put r (?y\<lparr>m_now_frame := frame_clock ?y (w_os w)\<rparr>, os_tick (w_os w)) w)"
    using playingD(6) [OF p] by (simp add: run_simps UpdateTime_run syn_get_def)
  have "server_inv (syn_put r (?y\<lparr>m_now_frame := frame_clock ?y (w_os w)\<rparr>, os_tick (w_os w)) w)
      \<and> later w (syn_put r (?y\<lparr>m_now_frame := frame_clock ?y (w_os w)\<rparr>, os_tick (w_os w)) w)"
    using server_inv_syn [OF playingD(2,4) [OF p]] playingD(5,6) [OF p] by (simp add: syn_put_def)
  then show "keeps (mzoom (syn_get r) (syn_put r) SYN_UpdateTime) w" by (simp add: keeps_def mwp_def run)
  fix x w'
  assume "server_inv w'" "later w w'"
  then show "keeps (syn_run_loop (ring_of r) (put_ring r) (Room_SendMessageToEveryone ser del r) (\<lambda>w. length (m_connects w))) w'"
    using playing_later [OF p] syn_run_loop_keeps by blast
qed

section \<open>The tick of a room\<close>

lemma DeleteClientByUserID_keeps:
  "server_inv w \<Longrightarrow> small (length (m_connects w)) \<Longrightarrow> keeps (DeleteClientByUserID del u) w"
  by (auto simp: DeleteClientByUserID_def del_keeps split: option.split)

lemma kick_loop_keeps:
  assumes "good small r w" "1 \<le> i"
  shows "keeps (kick_loop del r k i) w"
  using assms
proof (induction k arbitrary: i w)
  case 0
  then show ?case
    using goodD [OF 0(1)]
    by (subst kick_loop.simps) (simp add: mwp_room_gets keeps_def wp_simps)
next
  case (Suc k)
  note g = Suc.prems(1) and wf = goodD(4) [OF Suc.prems(1)]
  have next_round: "keeps (kick_loop del r k (i + 1)) w'" if "server_inv w'" "later w w'" for w'
    using Suc.IH [OF good_later [OF g that]] Suc.prems(2) by simp
  show ?case
  proof (cases "i \<le> m_player_cnt (room_heap w ! r)")
    case True
    then have "i \<le> 8" using room_wf_cnt [OF wf] by simp
    then show ?thesis
      using True Suc.prems(2) goodD(1-3) [OF g]
      by (subst kick_loop.simps)
        (auto simp: keeps_bind_read run_simps room_reads [OF wf] intro!: keeps_seq next_round DeleteClientByUserID_keeps)
  next
    case False
    then show ?thesis
      using goodD(1,3) [OF g] by (subst kick_loop.simps) (simp add: keeps_bind_read run_simps)
  qed
qed

lemma Room_OnTick_keeps:
  assumes g: "good small r w"
  shows "keeps (Room_OnTick ser del r) w"
proof -
  note wf = goodD(4) [OF g]
  have time: "keeps (world_os GetNowTimeSecond) w"
    by (rule keeps_os [OF goodD(1) [OF g]]) (simp add: GetNowTimeSecond_def sys_gettimeofday_def run_simps split: prod.splits)
  have tick: "keeps (mbind (on_room r (mgets m_loading_time_second)) (\<lambda>since.
      if now - since \<ge> max_loading_time_second
      then mseq (kick_loop del r (nat max_player_cnt) 1) (Room_SendGameStart ser del r) else mreturn ())) w'"
    if "server_inv w'" "later w w'" for now w'
    using goodD [OF good_later [OF g that]]
    by (auto simp: keeps_bind_read run_simps intro!: keeps_seq kick_loop_keeps SendGameStart_keeps
        good_later [OF g that] good_later [OF good_later [OF g that]])
  show ?thesis
    using wf goodD(1,3) [OF g] SYN_Run_keeps [of r w ser] g time
    by (auto simp: Room_OnTick_def keeps_bind_read Room_GetGameStatus_def run_simps playing_def
        intro!: keeps_bind [OF time] tick)
qed

section \<open>The tick of the room manager\<close>

text \<open>An empty room goes from the table into the queue.\<close>

lemma recycle_inv:
  assumes inv: "server_inv w" and r: "m_find (rooms w) k = Some r" and empty: "m_online_player_cnt (room_heap w ! r) \<le> 0"
  shows "server_inv (w\<lparr>m_free_room := m_free_room w @ [r], rooms := m_erase (rooms w) k\<rparr>)"
proof -
  have ri: "rooms_inv w" using inv by (simp add: server_inv_def)
  have rk: "r < length (room_heap w)" "m_room_id (room_heap w ! r) = k" using rooms_invD(3) [OF ri r] by auto
  have nobody: "m_find (belong_room w) u \<noteq> Some r" for u
    using rooms_invD(2) [OF ri] empty_room [OF rooms_invD(1) [OF ri rk(1)] empty] by auto
  have other: "m_room_id (room_heap w ! r') = k \<longleftrightarrow> r' = r" if "r' < length (room_heap w)" for r'
    using ri rk that unfolding rooms_inv_def by metis
  have free: "r' \<in> set (m_free_room w) \<longleftrightarrow> r' < length (room_heap w) \<and> m_find (rooms w) (m_room_id (room_heap w ! r')) = None" for r'
    using ri unfolding rooms_inv_def by blast
  have member: "m_room_id (room_heap w ! r') \<noteq> k" if "m_find (belong_room w) u = Some r'" for u r'
    using that nobody rooms_invD(2) [OF ri that] other by blast
  have "r \<notin> set (m_free_room w)" using free r rk by simp
  then have "distinct (m_free_room w @ [r])" using ri by (simp add: rooms_inv_def)
  moreover have "r' \<in> set (m_free_room w @ [r]) \<longleftrightarrow>
      r' < length (room_heap w) \<and> m_find (m_erase (rooms w) k) (m_room_id (room_heap w ! r')) = None" for r'
    using free [of r'] other [of r'] rk(1) by auto
  ultimately have "rooms_inv (w\<lparr>m_free_room := m_free_room w @ [r], rooms := m_erase (rooms w) k\<rparr>)"
    using ri member unfolding rooms_inv_def by (simp split: if_splits)
  then show ?thesis using inv by (simp add: server_inv_def hb_inv_def conn_inv_def)
qed

lemma rooms_tick_loop_inv:
  assumes "server_inv w" "small (length (m_connects w))" "\<forall>(k, r)\<in>set it. m_find (rooms w) k = Some r" "distinct (map fst it)"
  shows "keeps_inv (rooms_tick_loop ser del it) w"
  using assms
proof (induction it arbitrary: w)
  case Nil
  then show ?case by simp
next
  case (Cons e it)
  obtain k r where e: "e = (k, r)" by (cases e)
  have r: "m_find (rooms w) k = Some r" "r < length (room_heap w)"
    using Cons.prems(1,3) e by (auto simp: server_inv_def rooms_inv_def)
  have rest: "keeps_inv (mbind (mgets rooms) (\<lambda>m.
       if m_find m k \<noteq> Some r then mfault DanglingIter
       else mbind (on_room r Room_GetOnlinePlayerCount) (\<lambda>online.
         mseq (if online \<le> 0
               then mmodify (\<lambda>w. w\<lparr>m_free_room := m_free_room w @ [r], rooms := m_erase (rooms w) k\<rparr>)
               else mreturn ())
           (rooms_tick_loop ser del it)))) w'"
    if inv: "server_inv w'" and l: "later w w'" for w'
  proof -
    have r': "m_find (rooms w') k = Some r" "r < length (room_heap w')" using r laterD(9) [OF l] later_heap [OF l] by auto
    have it: "\<forall>(k', r')\<in>set it. m_find (rooms w') k' = Some r'" "\<forall>(k', r')\<in>set it. k' \<noteq> k"
      using Cons.prems(3,4) e laterD(9) [OF l] by force+
    have sm: "small (length (m_connects w'))" using small_later [OF Cons.prems(2) l] .
    let ?w = "w'\<lparr>m_free_room := m_free_room w' @ [r], rooms := m_erase (rooms w') k\<rparr>"
    have "keeps_inv (rooms_tick_loop ser del it) w'" using Cons.IH [OF inv sm it(1)] Cons.prems(4) by simp
    moreover have "keeps_inv (rooms_tick_loop ser del it) ?w" if "m_online_player_cnt (room_heap w' ! r) \<le> 0"
      using recycle_inv [OF inv r'(1) that] sm it Cons.prems(4) by (intro Cons.IH) auto
    ultimately show ?thesis
      using r' by (simp add: mwp_room_gets Room_GetOnlinePlayerCount_def keeps_inv_def wp_simps)
  qed
  show ?case
    unfolding e rooms_tick_loop.simps
    using Cons.prems(1,2) r(2) by (intro keeps_then_seq [OF Room_OnTick_keeps] rest) (auto simp: good_def)
qed

lemma RoomManager_OnTick_inv:
  assumes "server_inv w" "small (length (m_connects w))"
  shows "keeps_inv (RoomManager_OnTick ser del) w"
proof -
  have "m_ok (rooms w)" using assms(1) by (simp add: server_inv_def rooms_inv_def)
  then show ?thesis
    using rooms_tick_loop_inv [OF assms] m_in_set_find [of "rooms w"] m_ok_distinct [of "rooms w"]
    by (auto simp: RoomManager_OnTick_def)
qed

end

end
