(* ===== verification/Manager_Proofs.thy ===== *)
theory Manager_Proofs
  imports Server_Tick
begin

text \<open>
  Creating, joining and listing rooms: the invariant is kept, numbers stay unique, a user is in at
  most one room, and the list sent to clients has exactly the waiting rooms.
\<close>

section \<open>Joining a room\<close>

lemma AddPlayer_keeps:
  assumes g: "good small r w"
  shows "keeps (Room_AddPlayer r u) w"
  unfolding Room_AddPlayer_def
proof (rule keeps_bind)
  note wf = goodD(4) [OF g]
  show "keeps (on_room r (Room_add_entry u)) w"
    using Room_add_entry_eq [OF wf, of u] add_entry_result_wf [OF wf, of u] wf good_members [OF g]
    by (intro keeps_on_room goodD [OF g])
      (auto simp: mwp_def add_entry_result_def Let_def)
qed (auto intro!: keeps_seq ChangePersonStatus_keeps)

text \<open>What \<^verbatim>\<open>Room::AddPlayer\<close> does to the state, its three results included.\<close>

lemma ChangePersonStatus_total:
  "\<exists>ret ps. PersonManager_ChangePersonStatus u st w = Inr (ret, w\<lparr>m_user_id_to_person := ps\<rparr>)"
proof (cases "m_find (m_user_id_to_person w) u")
  case None
  then show ?thesis
    by (intro exI [of _ fail] exI [of _ "m_user_id_to_person w"]) (simp add: PersonManager_ChangePersonStatus_def run_simps)
qed (auto simp: PersonManager_ChangePersonStatus_def run_simps split: prod.split)

lemma AddPlayer_run:
  assumes r: "r < length (room_heap w)" and wf: "room_wf (room_heap w ! r)"
  shows "\<exists>ret ps rm. Room_AddPlayer r u w = Inr (ret, w\<lparr>room_heap := (room_heap w)[r := rm], m_user_id_to_person := ps\<rparr>)
    \<and> Room_add_entry u (room_heap w ! r) = Inr (ret, rm)"
proof -
  have "\<exists>ret rm. Room_add_entry u (room_heap w ! r) = Inr (ret, rm)" by (simp add: Room_add_entry_eq [OF wf])
  then obtain ret rm where e: "Room_add_entry u (room_heap w ! r) = Inr (ret, rm)" by blast
  let ?w = "w\<lparr>room_heap := (room_heap w)[r := rm]\<rparr>"
  obtain s ps where c: "PersonManager_ChangePersonStatus u person_in_room ?w = Inr (s, ?w\<lparr>m_user_id_to_person := ps\<rparr>)"
    using ChangePersonStatus_total by blast
  have "\<exists>ps. Room_AddPlayer r u w = Inr (ret, ?w\<lparr>m_user_id_to_person := ps\<rparr>)"
  proof (cases "ret = add_player_succeed")
    case True
    then show ?thesis using r e c by (auto simp: Room_AddPlayer_def run_simps on_room_def)
  next
    case False
    then show ?thesis using r e
      by (intro exI [of _ "m_user_id_to_person w"]) (simp add: Room_AddPlayer_def run_simps on_room_def)
  qed
  then show ?thesis using e by auto
qed

lemma add_entry_succeed:
  assumes "room_wf rm" and "Room_add_entry u rm = Inr (add_player_succeed, rm')"
  shows "m_status rm = room_status_waiting" "m_player_cnt rm < max_player_cnt" "rm' = add_entry_result rm u"
  using assms(2) Room_add_entry_eq [OF assms(1), of u] by (auto simp: add_player_defs split: if_splits)

lemma belong_insert_inv:
  assumes inv: "server_inv w" and r: "m_find (rooms w) k = Some r" and u: "in_room (room_heap w ! r) u"
  shows "server_inv (w\<lparr>belong_room := m_insert (belong_room w) u r\<rparr>)"
proof -
  have ri: "rooms_inv w" using inv by (simp add: server_inv_def)
  let ?w = "w\<lparr>belong_room := m_insert (belong_room w) u r\<rparr>"
  have "rooms_inv ?w"
    unfolding rooms_inv_def
  proof (intro conjI)
    have old: "\<forall>v i. m_find (belong_room w) v = Some i \<longrightarrow> i < length (room_heap w) \<and> in_room (room_heap w ! i) v
          \<and> m_find (rooms w) (m_room_id (room_heap w ! i)) = Some i" using ri unfolding rooms_inv_def by blast
    show "\<forall>v i. m_find (belong_room ?w) v = Some i \<longrightarrow> i < length (room_heap ?w) \<and> in_room (room_heap ?w ! i) v
          \<and> m_find (rooms ?w) (m_room_id (room_heap ?w ! i)) = Some i"
      using old rooms_invD(3) [OF ri r] r u by simp
  qed (use ri in \<open>simp_all add: rooms_inv_def\<close>)
  then show ?thesis using inv by (simp add: server_inv_def hb_inv_def conn_inv_def)
qed

lemma JoinRoom_inv:
  assumes inv: "server_inv w"
  shows "keeps_inv (JoinRoom u k) w"
proof (cases "m_find (rooms w) k")
  case None
  then show ?thesis using inv by (simp add: JoinRoom_def)
next
  case (Some r)
  have r: "r < length (room_heap w)" "m_room_id (room_heap w ! r) = k"
    using rooms_invD(3) [of w k r] inv Some by (auto simp: server_inv_def)
  note wf = inv_room [OF inv r(1)]
  have g: "good (\<lambda>_. True) r w" using inv r by (simp add: good_def)
  show ?thesis
  proof (cases "m_find (belong_room w) u")
    case None
    obtain ret ps rm where run: "Room_AddPlayer r u w = Inr (ret, w\<lparr>room_heap := (room_heap w)[r := rm], m_user_id_to_person := ps\<rparr>)"
      (is "_ = Inr (ret, ?w)") and e: "Room_add_entry u (room_heap w ! r) = Inr (ret, rm)"
      using AddPlayer_run [OF r(1) wf] by blast
    have inv1: "server_inv ?w" using AddPlayer_keeps [OF g, of u] run by (simp add: keeps_def mwp_def)
    have "server_inv (?w\<lparr>belong_room := m_insert (belong_room ?w) u r\<rparr>)" if succ: "ret = add_player_succeed"
    proof -
      note res = add_entry_succeed [OF wf e [unfolded succ]]
      have "in_room (room_heap ?w ! r) u"
        using add_entry_result_wf(3) [OF wf res(1,2), of u u] res(3) r by simp
      then show ?thesis using belong_insert_inv [OF inv1, of k r u] Some by simp
    qed
    then show ?thesis
      using None Some run inv1 by (simp add: JoinRoom_def keeps_inv_def mwp_def run_simps)
  next
    case (Some r')
    then show ?thesis using \<open>m_find (rooms w) k = Some r\<close> inv by (simp add: JoinRoom_def)
  qed
qed

section \<open>Creating a room\<close>

definition opened :: "int32 \<Rightarrow> int32 \<Rightarrow> int32 \<Rightarrow> int32 \<Rightarrow> Room \<Rightarrow> Room" where
  "opened game_mode team_mode k u rm = add_entry_result (Room_Init game_mode team_mode k rm) u"

lemma Room_Init_wf:
  assumes "length (m_players rm) = 9" "length (m_team_id rm) = 9" "length (m_is_online rm) = 9"
    "length (m_is_loading_succeed rm) = 9" "syn_wf (m_syn rm)"
  shows "room_wf (Room_Init gm tm k rm)"
  using assms by (simp add: room_wf_def Room_Init_def max_player_cnt_def online_count_def)

lemma opened_room:
  assumes "room_wf (Room_Init gm tm k rm)"
  shows "Room_add_entry u (Room_Init gm tm k rm) = Inr (add_player_succeed, opened gm tm k u rm)"
    and "room_wf (opened gm tm k u rm)" and "m_room_id (opened gm tm k u rm) = k"
    and "in_room (opened gm tm k u rm) u" and "player_list (opened gm tm k u rm) = [u]"
    and "m_status (opened gm tm k u rm) = room_status_waiting"
proof -
  have st: "m_status (Room_Init gm tm k rm) = room_status_waiting" "m_player_cnt (Room_Init gm tm k rm) < max_player_cnt"
    by (simp_all add: Room_Init_def max_player_cnt_def)
  then show "Room_add_entry u (Room_Init gm tm k rm) = Inr (add_player_succeed, opened gm tm k u rm)"
    using Room_add_entry_eq [OF assms, of u] by (simp add: opened_def)
  show "room_wf (opened gm tm k u rm)" "in_room (opened gm tm k u rm) u" "player_list (opened gm tm k u rm) = [u]"
    using add_entry_result_wf [OF assms st, of u] by (simp_all add: opened_def) (simp add: player_list_def Room_Init_def)
  show "m_room_id (opened gm tm k u rm) = k" "m_status (opened gm tm k u rm) = room_status_waiting"
    by (simp_all add: opened_def add_entry_result_def Let_def Room_Init_def)
qed

text \<open>The state in which a new user's room has been entered everywhere.\<close>

lemma reused_room_inv:
  assumes inv: "server_inv w" and q: "m_free_room w = r # q" and b: "m_find (belong_room w) u = None"
    and rm: "room_wf rm" "m_room_id rm = m_room_id (room_heap w ! r)" "in_room rm u"
  shows "server_inv (w\<lparr>m_free_room := q, belong_room := m_insert (belong_room w) u r,
    rooms := m_insert (rooms w) (m_room_id rm) r, room_heap := (room_heap w)[r := rm]\<rparr>)"
proof -
  have ri: "rooms_inv w" using inv by (simp add: server_inv_def)
  define h where "h = (room_heap w)[r := rm]"
  have r: "r < length (room_heap w)" "m_find (rooms w) (m_room_id rm) = None" and q': "r \<notin> set q" "distinct q"
    using ri q rm(2) unfolding rooms_inv_def by auto
  have h: "length h = length (room_heap w)" "\<And>i. i < length (room_heap w) \<Longrightarrow> room_wf (h ! i)"
    "\<And>i. i < length (room_heap w) \<Longrightarrow> m_room_id (h ! i) = m_room_id (room_heap w ! i)"
    and hr: "h ! r = rm" "\<And>i. i \<noteq> r \<Longrightarrow> h ! i = room_heap w ! i"
    using rm r rooms_invD(1) [OF ri] by (auto simp: h_def nth_list_update)
  have ids: "m_room_id (room_heap w ! i) = m_room_id rm \<longleftrightarrow> i = r" if "i < length (room_heap w)" for i
    using ri r that rm(2) unfolding rooms_inv_def by metis
  have free: "i \<in> set q \<longleftrightarrow> i \<noteq> r \<and> i < length (room_heap w) \<and> m_find (rooms w) (m_room_id (room_heap w ! i)) = None" for i
  proof -
    have "i \<in> set (m_free_room w) \<longleftrightarrow> i < length (room_heap w) \<and> m_find (rooms w) (m_room_id (room_heap w ! i)) = None"
      using ri unfolding rooms_inv_def by blast
    then show ?thesis using q q' by auto
  qed
  have old: "i < length (room_heap w) \<and> in_room (room_heap w ! i) v \<and> m_find (rooms w) (m_room_id (room_heap w ! i)) = Some i \<and> i \<noteq> r"
    if "m_find (belong_room w) v = Some i" for v i
    using ri that r(2) rm(2) unfolding rooms_inv_def by (metis option.distinct(1))
  let ?w = "w\<lparr>m_free_room := q, belong_room := m_insert (belong_room w) u r,
    rooms := m_insert (rooms w) (m_room_id rm) r, room_heap := h\<rparr>"
  have "rooms_inv ?w"
    unfolding rooms_inv_def
  proof (intro conjI)
    show "\<forall>i. i \<in> set (m_free_room ?w) \<longleftrightarrow> i < length (room_heap ?w) \<and> m_find (rooms ?w) (m_room_id (room_heap ?w ! i)) = None"
      using free ids by (auto simp: h cong: conj_cong)
    show "\<forall>v i. m_find (belong_room ?w) v = Some i \<longrightarrow> i < length (room_heap ?w) \<and> in_room (room_heap ?w ! i) v
          \<and> m_find (rooms ?w) (m_room_id (room_heap ?w ! i)) = Some i"
      using old r rm(3) hr ids by (auto simp: h)
    show "\<forall>k i. m_find (rooms ?w) k = Some i \<longrightarrow> i < length (room_heap ?w) \<and> m_room_id (room_heap ?w ! i) = k"
      using rooms_invD(3) [OF ri] r hr by (auto simp: h split: if_splits)
  qed (use ri q' in \<open>simp_all add: rooms_inv_def h\<close>)
  then show ?thesis using inv by (simp add: server_inv_def hb_inv_def conn_inv_def h_def)
qed

lemma new_room_inv:
  assumes inv: "server_inv w" and b: "m_find (belong_room w) u = None"
    and rm: "room_wf rm" "m_room_id rm = s_room_id w" "in_room rm u"
  shows "server_inv (w\<lparr>s_room_id := s_room_id w + 1, belong_room := m_insert (belong_room w) u (length (room_heap w)),
    rooms := m_insert (rooms w) (s_room_id w) (length (room_heap w)), room_heap := room_heap w @ [rm]\<rparr>)"
proof -
  have ri: "rooms_inv w" using inv by (simp add: server_inv_def)
  let ?n = "length (room_heap w)"
  define h where "h = room_heap w @ [rm]"
  have h: "length h = Suc ?n" "h ! ?n = rm" "\<And>i. i < ?n \<Longrightarrow> h ! i = room_heap w ! i"
    by (simp_all add: h_def nth_append)
  have old: "i < ?n \<Longrightarrow> room_wf (room_heap w ! i) \<and> m_room_id (room_heap w ! i) < s_room_id w" for i
    using ri unfolding rooms_inv_def by blast
  have listed: "m_find (rooms w) k = Some i \<Longrightarrow> i < ?n \<and> m_room_id (room_heap w ! i) = k" for k i
    using rooms_invD(3) [OF ri] by blast
  have member: "m_find (belong_room w) v = Some i \<Longrightarrow> i < ?n \<and> in_room (room_heap w ! i) v
      \<and> m_find (rooms w) (m_room_id (room_heap w ! i)) = Some i" for v i
    using ri unfolding rooms_inv_def by blast
  have free: "i \<in> set (m_free_room w) \<longleftrightarrow> i < ?n \<and> m_find (rooms w) (m_room_id (room_heap w ! i)) = None" for i
    using ri unfolding rooms_inv_def by blast
  have inj: "i < ?n \<Longrightarrow> j < ?n \<Longrightarrow> m_room_id (room_heap w ! i) = m_room_id (room_heap w ! j) \<Longrightarrow> i = j" for i j
    using ri unfolding rooms_inv_def by blast
  let ?w = "w\<lparr>s_room_id := s_room_id w + 1, belong_room := m_insert (belong_room w) u ?n,
    rooms := m_insert (rooms w) (s_room_id w) ?n, room_heap := h\<rparr>"
  have "rooms_inv ?w"
    unfolding rooms_inv_def
  proof (intro conjI)
    show "\<forall>i<length (room_heap ?w). room_wf (room_heap ?w ! i) \<and> m_room_id (room_heap ?w ! i) < s_room_id ?w"
      using old rm h by (fastforce simp: less_Suc_eq)
    show "\<forall>i<length (room_heap ?w). \<forall>j<length (room_heap ?w).
        m_room_id (room_heap ?w ! i) = m_room_id (room_heap ?w ! j) \<longrightarrow> i = j"
      using old rm h inj by (auto simp: less_Suc_eq) (metis less_irrefl)+
    show "\<forall>k i. m_find (rooms ?w) k = Some i \<longrightarrow> i < length (room_heap ?w) \<and> m_room_id (room_heap ?w ! i) = k"
      using listed rm h by (fastforce split: if_splits)
    show "\<forall>i. i \<in> set (m_free_room ?w) \<longleftrightarrow> i < length (room_heap ?w) \<and> m_find (rooms ?w) (m_room_id (room_heap ?w ! i)) = None"
      using free old rm(2) h by (fastforce simp: less_Suc_eq)
    show "\<forall>v i. m_find (belong_room ?w) v = Some i \<longrightarrow> i < length (room_heap ?w) \<and> in_room (room_heap ?w ! i) v
          \<and> m_find (rooms ?w) (m_room_id (room_heap ?w ! i)) = Some i"
    proof (intro allI impI)
      fix v i
      assume b: "m_find (belong_room ?w) v = Some i"
      show "i < length (room_heap ?w) \<and> in_room (room_heap ?w ! i) v \<and> m_find (rooms ?w) (m_room_id (room_heap ?w ! i)) = Some i"
      proof (cases "v = u")
        case True
        then show ?thesis using b rm h by simp
      next
        case False
        then have "m_find (belong_room w) v = Some i" using b by simp
        then show ?thesis using member [of v i] old [of i] h by simp
      qed
    qed
  qed (use ri in \<open>simp_all add: rooms_inv_def\<close>)
  then show ?thesis using inv by (simp add: server_inv_def hb_inv_def conn_inv_def h_def)
qed

text \<open>
  The result of \<^verbatim>\<open>CreateRoom\<close> for a user without a room, before the person is moved into it: \<open>w1\<close> is
  the state with room \<open>r\<close> under number \<open>k\<close>.
\<close>

lemma CreateRoom_run:
  assumes inv: "server_inv w" and b: "m_find (belong_room w) u = None"
  shows "\<exists>k r w1 ret w'. CreateRoom u gm tm k0 w = Inr ((success, k), w')
    \<and> PersonManager_ChangePersonStatus u person_in_room w1 = Inr (ret, w')
    \<and> server_inv w1 \<and> m_find (rooms w) k = None
    \<and> rooms w1 = m_insert (rooms w) k r \<and> belong_room w1 = m_insert (belong_room w) u r
    \<and> player_list (room_heap w1 ! r) = [u] \<and> m_status (room_heap w1 ! r) = room_status_waiting
    \<and> (\<forall>i<length (room_heap w). i \<noteq> r \<longrightarrow> room_heap w1 ! i = room_heap w ! i)"
proof -
  have ri: "rooms_inv w" using inv by (simp add: server_inv_def)
  have finish: "CreateRoom u gm tm k0 w = Inr ((success, k), w')"
    if "take_room w = Inr ((r, k), w0)" "r < length (room_heap w0)" "room_wf (Room_Init gm tm k (room_heap w0 ! r))"
      and w1: "w1 = w0\<lparr>belong_room := m_insert (belong_room w0) u r, rooms := m_insert (rooms w0) k r,
        room_heap := (room_heap w0)[r := opened gm tm k u (room_heap w0 ! r)]\<rparr>"
      and "PersonManager_ChangePersonStatus u person_in_room w1 = Inr (ret, w')" for r k w0 w1 ret w'
    using that b opened_room(1) [OF that(3), of u]
    by (simp add: CreateRoom_def run_simps on_room_def Room_AddPlayer_def)
  show ?thesis
  proof (cases "m_free_room w")
    case (Cons r q)
    let ?k = "m_room_id (room_heap w ! r)"
    have r: "r < length (room_heap w)" "m_find (rooms w) ?k = None" using ri Cons unfolding rooms_inv_def by auto
    have init: "room_wf (Room_Init gm tm ?k (room_heap w ! r))"
      using rooms_invD(1) [OF ri r(1)] by (intro Room_Init_wf) (simp_all add: room_wf_def)
    let ?rm = "opened gm tm ?k u (room_heap w ! r)"
    let ?w1 = "w\<lparr>m_free_room := q, belong_room := m_insert (belong_room w) u r,
      rooms := m_insert (rooms w) (m_room_id ?rm) r, room_heap := (room_heap w)[r := ?rm]\<rparr>"
    note o = opened_room [OF init, of u]
    obtain ret ps where c: "PersonManager_ChangePersonStatus u person_in_room ?w1 = Inr (ret, ?w1\<lparr>m_user_id_to_person := ps\<rparr>)"
      using ChangePersonStatus_total by blast
    have t: "take_room w = Inr ((r, ?k), w\<lparr>m_free_room := q\<rparr>)"
      using Cons r by (simp add: take_room_def run_simps on_room_def Room_GetRoomID_def)
    have "CreateRoom u gm tm k0 w = Inr ((success, ?k), ?w1\<lparr>m_user_id_to_person := ps\<rparr>)"
      using finish [OF t, of ?w1] r init o(3) c by simp
    moreover have "server_inv ?w1" using reused_room_inv [OF inv Cons b o(2) o(3) o(4)] by simp
    ultimately show ?thesis
      using c r o by (intro exI [of _ ?k] exI [of _ r] exI [of _ ?w1] exI [of _ ret] exI) simp
  next
    case Nil
    let ?k = "s_room_id w" and ?r = "length (room_heap w)"
    let ?raw = "Room_new (raw_room w)"
    have init: "room_wf (Room_Init gm tm ?k ?raw)"
      using ri SYN_new_wf by (intro Room_Init_wf) (simp_all add: rooms_inv_def Room_new_def)
    let ?rm = "opened gm tm ?k u ?raw"
    note o = opened_room [OF init, of u]
    let ?w1 = "w\<lparr>s_room_id := s_room_id w + 1, belong_room := m_insert (belong_room w) u ?r,
      rooms := m_insert (rooms w) ?k ?r, room_heap := room_heap w @ [?rm]\<rparr>"
    obtain ret ps where c: "PersonManager_ChangePersonStatus u person_in_room ?w1 = Inr (ret, ?w1\<lparr>m_user_id_to_person := ps\<rparr>)"
      using ChangePersonStatus_total by blast
    let ?w0 = "w\<lparr>room_heap := room_heap w @ [?raw], s_room_id := s_room_id w + 1\<rparr>"
    have t: "take_room w = Inr ((?r, ?k), ?w0)"
      using Nil by (simp add: take_room_def run_simps)
    have "CreateRoom u gm tm k0 w = Inr ((success, ?k), ?w1\<lparr>m_user_id_to_person := ps\<rparr>)"
      using finish [OF t, of ?w1] init c by simp
    moreover have "server_inv ?w1" using new_room_inv [OF inv b o(2,3,4)] .
    moreover have "m_find (rooms w) ?k = None"
      using ri unfolding rooms_inv_def by (metis less_irrefl not_Some_eq)
    ultimately show ?thesis
      using c o by (intro exI [of _ ?k] exI [of _ ?r] exI [of _ ?w1] exI [of _ ret] exI) (simp add: nth_append)
  qed
qed

end
