(* ===== verification/Login_Db.thy ===== *)
theory Login_Db
  imports World
begin

text \<open>
  Accounts (\<^verbatim>\<open>Frame/login.cpp\<close>). The database is not part of the repository: its answer to the
  \<open>n\<close>-th statement is a parameter, the status of \<^verbatim>\<open>mysql_real_query\<close> and the first row of the result.
  The code always passes a length of 60, whatever the statement: a longer one is cut off, and of
  a shorter one the database is given what follows it in memory as well, so the answer may
  depend on more than the bytes below.
\<close>

type_synonym row = "string option list"

type_synonym database = "nat \<Rightarrow> string \<Rightarrow> int32 \<times> row option"

definition db_error :: int32 where "db_error = 0"

definition login_succeed :: int32 where "login_succeed = 1"

definition login_failed :: int32 where "login_failed = 2"

definition regist_succeed :: int32 where "regist_succeed = 3"

definition regist_used :: int32 where "regist_used = 4"

lemmas login_code_defs = db_error_def login_succeed_def login_failed_def regist_succeed_def regist_used_def

definition c_str :: "string \<Rightarrow> string" where
  "c_str s = takeWhile (\<lambda>c. c \<noteq> CHR 0x00) s"

definition sql_bytes :: "string \<Rightarrow> string" where
  "sql_bytes sql = take 60 (sql @ [CHR 0x00])"

definition mysql_real_query :: "database \<Rightarrow> string \<Rightarrow> (world, int32 \<times> row option) mon" where
  "mysql_real_query db sql w = Inr (db (db_calls w) (sql_bytes sql), w\<lparr>db_calls := Suc (db_calls w)\<rparr>)"

text \<open>A column of a row; a null column is not to be dereferenced.\<close>

definition column :: "row \<Rightarrow> int \<Rightarrow> fault + string" where
  "column row i =
     (case arr_get row i of Inl e \<Rightarrow> Inl e | Inr None \<Rightarrow> Inl NullDeref | Inr (Some s) \<Rightarrow> Inr s)"

text \<open>\<^verbatim>\<open>sscanf("%d")\<close>: leading blanks, a sign, digits.\<close>

definition digit_val :: "char \<Rightarrow> int" where
  "digit_val c = int (of_char c) - 48"

definition is_digit :: "char \<Rightarrow> bool" where
  "is_digit c \<longleftrightarrow> 48 \<le> (of_char c :: nat) \<and> (of_char c :: nat) \<le> 57"

definition is_blank :: "char \<Rightarrow> bool" where
  "is_blank c \<longleftrightarrow> c = CHR '' '' \<or> (9 \<le> (of_char c :: nat) \<and> (of_char c :: nat) \<le> 13)"

definition scan_digits :: "string \<Rightarrow> int option" where
  "scan_digits s =
     (let ds = takeWhile is_digit s in
      if ds = [] then None else Some (foldl (\<lambda>n c. n * 10 + digit_val c) 0 ds))"

definition sscanf_d :: "string \<Rightarrow> int32 option" where
  "sscanf_d s =
     (case dropWhile is_blank s of
        [] \<Rightarrow> None
      | c # s' \<Rightarrow>
          if c = CHR ''-'' then map_option (\<lambda>n. to_int32 (- n)) (scan_digits s')
          else if c = CHR ''+'' then map_option to_int32 (scan_digits s')
          else map_option to_int32 (scan_digits (c # s')))"

text \<open>
  The last part of both requests: the number of the account. When the column is not a number,
  \<^verbatim>\<open>user_id\<close> keeps the value it had, which the callers have not set.
\<close>

definition fetch_user_id :: "database \<Rightarrow> string \<Rightarrow> int32 \<Rightarrow> (world, int32 \<times> int32 option) mon" where
  "fetch_user_id db name ok =
     mbind (mysql_real_query db (''select user_id from login where id = '' @ [CHR 0x27] @ name @ [CHR 0x27] @ '';'')) (\<lambda>(ret, m_row).
     if ret \<noteq> 0 then mreturn (db_error, None)
     else case m_row of
       None \<Rightarrow> mfault NullDeref
     | Some row \<Rightarrow> mbind (mlift (column row 0)) (\<lambda>s. mreturn (ok, sscanf_d (c_str s))))"

definition LoginRequest :: "database \<Rightarrow> string \<Rightarrow> string \<Rightarrow> (world, int32 \<times> int32 option) mon" where
  "LoginRequest db name passwd =
     mbind (mysql_real_query db (''select * from login where id = '' @ [CHR 0x27] @ name @ [CHR 0x27] @ '';'')) (\<lambda>(ret, m_row).
     if ret \<noteq> 0 then mreturn (db_error, None)
     else case m_row of
       None \<Rightarrow> mreturn (login_failed, None)
     | Some row \<Rightarrow>
         mbind (mlift (column row 1)) (\<lambda>stored.
           if c_str passwd \<noteq> c_str stored then mreturn (login_failed, None)
           else fetch_user_id db name login_succeed))"

definition NewUserRegist :: "database \<Rightarrow> string \<Rightarrow> string \<Rightarrow> (world, int32 \<times> int32 option) mon" where
  "NewUserRegist db name passwd =
     mbind (mysql_real_query db (''select * from login where id = '' @ [CHR 0x27] @ name @ [CHR 0x27] @ '';'')) (\<lambda>(ret, m_row).
     if ret \<noteq> 0 then mreturn (db_error, None)
     else case m_row of
       Some _ \<Rightarrow> mreturn (regist_used, None)
     | None \<Rightarrow>
         mbind (mysql_real_query db (''insert into login(id, passwd) values('' @ [CHR 0x27] @ name @ [CHR 0x27] @ '',''
             @ [CHR 0x27] @ passwd @ [CHR 0x27] @ '');'')) (\<lambda>(ret, _).
           if ret \<noteq> 0 then mreturn (db_error, None)
           else fetch_user_id db name regist_succeed))"

text \<open>
  \<^verbatim>\<open>Login::Init\<close>: \<^verbatim>\<open>mysql_init\<close>, the configuration file, \<^verbatim>\<open>mysql_real_connect\<close>; a zero answer is a
  null pointer or a file that does not open.
\<close>

definition Login_Init :: "(world, int32) mon" where
  "Login_Init =
     mbind (world_os sys_call) (\<lambda>c. if c = 0 then mreturn fail else
     mbind (world_os sys_call) (\<lambda>f. if f = 0 then mreturn fail else
     mbind (world_os sys_call) (\<lambda>c2. if c2 = 0 then mreturn fail else mreturn success)))"

end
