(* ===== verification/Message_Register.thy ===== *)
theory Message_Register
  imports Proto_Messages
begin

text \<open>
  The registry of message types and processors (\<^verbatim>\<open>Frame/message_processor_register.cpp\<close>). Every
  processor file registers itself from the constructor of a static object, in an order the
  language leaves open.
\<close>

section \<open>Operations\<close>

datatype processor =
    MP_CSLogin | MP_CSRegist | MP_CSChangeTeam | MP_CSPullAllRoomInfo | MP_CSCreateRoom | MP_CSJoinRoom
  | MP_CSPlayerExitRoom | MP_CSReadyToStart | MP_CSLoadSucceed | MP_CSChoseRole | MP_CSMove | MP_CSKill
  | MP_CSGamePause | MP_CSSkill | MP_CSHeartbeat | MP_CSGameEnd

record registry =
  m_proto_type :: "(int32, mtype) stdmap"
  m_processor :: "(int32, processor) stdmap"

definition registry_new :: registry where
  "registry_new = \<lparr>m_proto_type = m_empty, m_processor = m_empty\<rparr>"

definition RegistMessage :: "int32 \<Rightarrow> mtype option \<Rightarrow> registry \<Rightarrow> int32 \<times> registry" where
  "RegistMessage i pb reg =
     (case pb of
        None \<Rightarrow> (fail, reg)
      | Some t \<Rightarrow>
          if m_find (m_proto_type reg) i \<noteq> None then (fail, reg)
          else (success, reg\<lparr>m_proto_type := m_insert (m_proto_type reg) i t\<rparr>))"

definition RegistProcessor :: "int32 \<Rightarrow> processor option \<Rightarrow> registry \<Rightarrow> int32 \<times> registry" where
  "RegistProcessor i processor reg =
     (case processor of
        None \<Rightarrow> (fail, reg)
      | Some p \<Rightarrow>
          if m_find (m_processor reg) i \<noteq> None then (fail, reg)
          else (success, reg\<lparr>m_processor := m_insert (m_processor reg) i p\<rparr>))"

text \<open>The macro \<^verbatim>\<open>REGISTE_MESSAGE_ID\<close>.\<close>

definition REGISTE_MESSAGE_ID :: "int32 \<times> mtype \<times> processor \<Rightarrow> registry \<Rightarrow> registry" where
  "REGISTE_MESSAGE_ID = (\<lambda>(i, pb_type, processor) reg.
     snd (RegistProcessor i (Some processor) (snd (RegistMessage i (Some pb_type) reg))))"

definition registrations :: "(int32 \<times> mtype \<times> processor) list" where
  "registrations =
    [(MSG CSLogin, CSLogin, MP_CSLogin), (MSG CSRegist, CSRegist, MP_CSRegist),
     (MSG CSChangeTeam, CSChangeTeam, MP_CSChangeTeam),
     (MSG CSPullAllRoomInfo, CSPullAllRoomInfo, MP_CSPullAllRoomInfo),
     (MSG CSCreateRoom, CSCreateRoom, MP_CSCreateRoom), (MSG CSJoinRoom, CSJoinRoom, MP_CSJoinRoom),
     (MSG CSPlayerExitRoom, CSPlayerExitRoom, MP_CSPlayerExitRoom),
     (MSG CSReadyToStart, CSReadyToStart, MP_CSReadyToStart),
     (MSG CSLoadSucceed, CSLoadSucceed, MP_CSLoadSucceed), (MSG CSChoseRole, CSChoseRole, MP_CSChoseRole),
     (MSG CSMove, CSMove, MP_CSMove), (MSG CSKill, CSKill, MP_CSKill),
     (MSG CSGamePause, CSGamePause, MP_CSGamePause), (MSG CSSkill, CSSkill, MP_CSSkill),
     (MSG CSHeartbeat, CSHeartbeat, MP_CSHeartbeat), (MSG CSGameEnd, CSGameEnd, MP_CSGameEnd)]"

text \<open>The registry after the static constructors have run in the given order.\<close>

definition registry_of :: "(int32 \<times> mtype \<times> processor) list \<Rightarrow> registry" where
  "registry_of order = foldl (\<lambda>reg e. REGISTE_MESSAGE_ID e reg) registry_new order"

definition CreateMessage :: "registry \<Rightarrow> int32 \<Rightarrow> pmsg option" where
  "CreateMessage reg i = map_option pb_new (m_find (m_proto_type reg) i)"

section \<open>The registry is complete whatever the order\<close>

definition entry_of :: "(int32 \<times> mtype \<times> processor) list \<Rightarrow> int32 \<Rightarrow> (mtype \<times> processor) option" where
  "entry_of es i = map_of es i"

lemma registry_of_snoc:
  "registry_of (es @ [(i, t, p)]) =
    (let reg = registry_of es in
     reg\<lparr>m_proto_type := (if m_find (m_proto_type reg) i = None then m_insert (m_proto_type reg) i t else m_proto_type reg),
       m_processor := (if m_find (m_processor reg) i = None then m_insert (m_processor reg) i p else m_processor reg)\<rparr>)"
  by (simp add: registry_of_def REGISTE_MESSAGE_ID_def RegistMessage_def RegistProcessor_def Let_def)

text \<open>The first registration of a number wins.\<close>

lemma registry_of_entries:
  "m_find (m_proto_type (registry_of es)) i = map_option fst (map_of es i)
    \<and> m_find (m_processor (registry_of es)) i = map_option snd (map_of es i)"
proof (induction es arbitrary: i rule: rev_induct)
  case Nil
  then show ?case by (simp add: registry_of_def registry_new_def)
next
  case (snoc e es)
  obtain j t p where e: "e = (j, t, p)" by (cases e)
  show ?case
    unfolding e registry_of_snoc Let_def using snoc.IH
    by (auto simp: map_add_def split: option.splits)
qed

lemma map_of_perm:
  assumes "distinct (map fst es)" and "set es' = set es" and "distinct (map fst es')"
  shows "map_of es' = map_of es"
  using assms by (simp add: map_of_inject_set)

text \<open>
  Whatever order the static constructors run in, after start-up exactly the sixteen request
  types are registered, each number gives an empty message of its own type, and every number
  that creates a message also has the processor of that type: the dispatch of a decoded message
  never meets a missing processor.
\<close>

lemma registry_complete:
  assumes "distinct (map fst order)" and "set order = set registrations"
  shows "(\<forall>(i, t, p)\<in>set registrations. CreateMessage (registry_of order) i = Some (pb_new t) \<and> i = MSG t
        \<and> m_find (m_processor (registry_of order)) i = Some p)
    \<and> (\<forall>i. CreateMessage (registry_of order) i \<noteq> None \<longleftrightarrow> i \<in> fst ` set registrations)
    \<and> (\<forall>i. m_find (m_processor (registry_of order)) i \<noteq> None \<longleftrightarrow> i \<in> fst ` set registrations)"
proof -
  have d: "distinct (map fst registrations)" by (simp add: registrations_def)
  have m: "map_of order = map_of registrations" using map_of_perm [OF d assms(2,1)] .
  have msg: "\<forall>(i, t, p)\<in>set registrations. i = MSG t" by (simp add: registrations_def)
  have dom: "map_of registrations i = None \<longleftrightarrow> i \<notin> fst ` set registrations" for i by (rule map_of_eq_None_iff)
  have look: "map_of registrations i = Some (t, p)" if "(i, t, p) \<in> set registrations" for i t p
    using that d by (simp add: map_of_is_SomeI)
  show ?thesis
    using look msg dom by (auto simp: CreateMessage_def registry_of_entries m)
qed

lemma registry_complete_witness:
  "CreateMessage (registry_of (rev registrations)) 0x0018 = Some (pb_new CSMove)
    \<and> m_find (m_processor (registry_of (rev registrations))) 0x0018 = Some MP_CSMove"
proof -
  have "distinct (map fst (rev registrations))" by (simp add: registrations_def)
  moreover have "(0x0018, CSMove, MP_CSMove) \<in> set registrations" by (simp add: registrations_def)
  ultimately show ?thesis using registry_complete [of "rev registrations"] by fastforce
qed

end
