(* ===== verification/Processors.thy ===== *)
theory Processors
  imports Disconnect_Knot Login_Db Message_Register
begin

text \<open>
  The sixteen message processors (\<^verbatim>\<open>MessageProcessor\<close>). Each is the method \<^verbatim>\<open>ProcessRequest\<close> of its
  class; \<open>mess\<close> is the decoded request. What the server calls but does not contain, the
  protocol buffer code and the database, is the parameter \<open>ext\<close>.
\<close>

record externals =
  x_ser :: serialiser
  x_parse :: "pmsg \<Rightarrow> byte list \<Rightarrow> bool \<times> pmsg"
  x_db :: database

abbreviation x_del :: "externals \<Rightarrow> deleter" where
  "x_del ext \<equiv> DeleteClientByFD (x_ser ext)"

abbreviation to_client :: "externals \<Rightarrow> int32 \<Rightarrow> message \<Rightarrow> (world, int32) mon" where
  "to_client ext \<equiv> SendMessageToClient (x_ser ext) (x_del ext)"

abbreviation to_everyone :: "externals \<Rightarrow> nat \<Rightarrow> message \<Rightarrow> (world, unit) mon" where
  "to_everyone ext \<equiv> Room_SendMessageToEveryone (x_ser ext) (x_del ext)"

text \<open>The message a decoded request holds; the dispatcher passes no null message.\<close>

definition proto_of :: "message \<Rightarrow> pmsg" where
  "proto_of mess = (case m_proto mess of Some p \<Rightarrow> p | None \<Rightarrow> pb_new CSHeartbeat)"

section \<open>Login\<close>

text \<open>
  \<^verbatim>\<open>MP_CSLogin\<close> and \<^verbatim>\<open>MP_CSRegist\<close> differ in the request to the database, the code of its success and
  failure and the type of the answer.
\<close>

definition answer_login ::
  "externals \<Rightarrow> mtype \<Rightarrow> int32 \<Rightarrow> int32 \<Rightarrow> int32 \<Rightarrow> string \<Rightarrow> int32 \<times> int32 option \<Rightarrow> (world, int32) mon"
where
  "answer_login ext reply ok refused fd name = (\<lambda>(ret, user_id).
     let answer = (\<lambda>n. mk_message (-1) (pb_set (pb_new reply) 1 (VInt n))) in
     mseq (if ret = ok then
             (case user_id of
                None \<Rightarrow> mfault UninitRead
              | Some u \<Rightarrow>
                  mbind (PersonManager_PersonLogin u name) (\<lambda>r.
                    if r = fail then SendMessageByConnfd (x_ser ext) fd (answer 3)
                    else mseq (PlayerLogin fd u) (to_client ext u (answer 2))))
           else if ret = refused then SendMessageByConnfd (x_ser ext) fd (answer 0)
           else if ret = db_error then SendMessageByConnfd (x_ser ext) fd (answer 1)
           else mreturn 0)
       (mreturn success))"

definition CSLogin_ProcessRequest :: "externals \<Rightarrow> int32 \<Rightarrow> message \<Rightarrow> (world, int32) mon" where
  "CSLogin_ProcessRequest ext fd mess =
     (let oldproto = proto_of mess in
      mbind (LoginRequest (x_db ext) (pb_str oldproto 1) (pb_str oldproto 2))
        (answer_login ext SCLogin login_succeed login_failed fd (pb_str oldproto 1)))"

definition CSRegist_ProcessRequest :: "externals \<Rightarrow> int32 \<Rightarrow> message \<Rightarrow> (world, int32) mon" where
  "CSRegist_ProcessRequest ext fd mess =
     (let oldproto = proto_of mess in
      mbind (NewUserRegist (x_db ext) (pb_str oldproto 1) (pb_str oldproto 2))
        (answer_login ext SCRegist regist_succeed regist_used fd (pb_str oldproto 1)))"

section \<open>Rooms\<close>

definition CSChangeTeam_ProcessRequest :: "externals \<Rightarrow> int32 \<Rightarrow> message \<Rightarrow> (world, int32) mon" where
  "CSChangeTeam_ProcessRequest ext user_id mess =
     (let oldproto = proto_of mess in
      mbind (GetRoomByUserID user_id) (\<lambda>room.
      case room of
        None \<Rightarrow> mreturn fail
      | Some r \<Rightarrow>
          mbind (on_room r Room_GetGameStatus) (\<lambda>status.
          if status \<noteq> room_status_waiting then mreturn fail
          else
            mseq (if pb_has oldproto 1 then on_room r (Room_ChangeTeamID user_id (pb_int oldproto 1))
                  else if pb_has oldproto 2 then on_room r (Room_ChangeGameOption user_id (pb_int oldproto 2))
                  else mreturn 0) (
            mbind (Room_GetDetailInfo r) (\<lambda>detail.
            mseq (to_everyone ext r (mk_message (-1) detail)) (mreturn success))))))"

definition CSPullAllRoomInfo_ProcessRequest :: "externals \<Rightarrow> int32 \<Rightarrow> message \<Rightarrow> (world, int32) mon" where
  "CSPullAllRoomInfo_ProcessRequest ext user_id mess =
     mbind GetAllRoomInfo (\<lambda>info.
     mseq (to_client ext user_id (mk_message (-1) info)) (mreturn success))"

definition CSCreateRoom_ProcessRequest :: "externals \<Rightarrow> int32 \<Rightarrow> message \<Rightarrow> (world, int32) mon" where
  "CSCreateRoom_ProcessRequest ext user_id mess =
     (let oldproto = proto_of mess;
          answer = (\<lambda>b k. mk_message (-1) (pb_set (pb_set (pb_new SCCreateRoom) 1 (VBool b)) 2 (VInt k))) in
      mbind (CreateRoom user_id (pb_int oldproto 1) (pb_int oldproto 2) 0) (\<lambda>(ret, room_id).
      mseq (if ret = success then
              mseq (to_client ext user_id (answer True room_id)) (
              mbind (GetDetailRoomInfo room_id) (\<lambda>detail.
                to_client ext user_id (mk_message (-1) detail)))
            else to_client ext user_id (answer False room_id))
        (mreturn success)))"

definition CSJoinRoom_ProcessRequest :: "externals \<Rightarrow> int32 \<Rightarrow> message \<Rightarrow> (world, int32) mon" where
  "CSJoinRoom_ProcessRequest ext user_id mess =
     (let room_id = pb_int (proto_of mess) 1 in
      mbind (JoinRoom user_id room_id) (\<lambda>result.
      if result \<noteq> join_room_error_fail then
        mseq (to_client ext user_id (mk_message (-1) (pb_set (pb_new SCJoinRoom) 1 (VInt result)))) (
        if result = add_player_succeed then
          mbind (GetDetailRoomInfo room_id) (\<lambda>detail.
          mbind (GetRoomByRoomID room_id) (\<lambda>room.
          case room of
            None \<Rightarrow> mfault NullDeref
          | Some r \<Rightarrow> mseq (to_everyone ext r (mk_message (-1) detail)) (mreturn success)))
        else mreturn success)
      else mreturn success))"

text \<open>The pointer is used without a check.\<close>

definition CSPlayerExitRoom_ProcessRequest :: "externals \<Rightarrow> int32 \<Rightarrow> message \<Rightarrow> (world, int32) mon" where
  "CSPlayerExitRoom_ProcessRequest ext user_id mess =
     mbind (GetRoomByUserID user_id) (\<lambda>room.
     case room of
       None \<Rightarrow> mfault NullDeref
     | Some r \<Rightarrow>
         mbind (on_room r Room_GetGameStatus) (\<lambda>status.
         mbind (if status = room_status_waiting
                then mbind (DeletePlayerFromRoom (x_ser ext) (x_del ext) user_id)
                       (\<lambda>ret. mreturn (if ret = success then 1 else 0))
                else mreturn 0) (\<lambda>result.
         mseq (to_everyone ext r (mk_message (-1) (pb_set (pb_new SCPlayerExitRoom) 1 (VInt result))))
           (mreturn success))))"

section \<open>Loading and start\<close>

definition CSReadyToStart_ProcessRequest :: "externals \<Rightarrow> int32 \<Rightarrow> message \<Rightarrow> (world, int32) mon" where
  "CSReadyToStart_ProcessRequest ext user_id mess =
     mbind (GetRoomByUserID user_id) (\<lambda>room.
     case room of
       None \<Rightarrow> mreturn fail
     | Some r \<Rightarrow>
         mbind (on_room r (Room_GetPlayerID user_id)) (\<lambda>pos.
         if pos \<noteq> 1 then mreturn fail
         else mseq (Room_SendGameLoading (x_ser ext) (x_del ext) r) (mreturn success)))"

definition CSLoadSucceed_ProcessRequest :: "externals \<Rightarrow> int32 \<Rightarrow> message \<Rightarrow> (world, int32) mon" where
  "CSLoadSucceed_ProcessRequest ext user_id mess =
     mbind (GetRoomByUserID user_id) (\<lambda>room.
     case room of
       None \<Rightarrow> mreturn 0
     | Some r \<Rightarrow>
         mbind (on_room r Room_GetGameStatus) (\<lambda>status.
         mseq (if status = room_status_loading
               then mbind (Room_AddLoadingSucceed (x_ser ext) (x_del ext) r user_id) (\<lambda>all.
                 if all \<noteq> 0 then Room_SendGameStart (x_ser ext) (x_del ext) r else mreturn ())
               else mreturn ())
           (mreturn 1)))"

section \<open>The game\<close>

text \<open>
  What the in-game processors share: find the room and the sender's position in it, then queue
  a message with the frame number \<open>frame\<close> gives. \<open>missing\<close> is the status when either is not there.
\<close>

definition in_game ::
  "(int32 \<Rightarrow> (world, nat option) mon) \<Rightarrow> int32 \<Rightarrow> int32 \<Rightarrow> (nat \<Rightarrow> (world, int32) mon) \<Rightarrow> (int32 \<Rightarrow> pmsg) \<Rightarrow> (world, int32) mon"
where
  "in_game find_room missing user_id frame proto =
     mbind (find_room user_id) (\<lambda>room.
     case room of
       None \<Rightarrow> mreturn missing
     | Some r \<Rightarrow>
         mbind (on_room r (Room_GetPlayerID user_id)) (\<lambda>playerid.
         if playerid = 0 then mreturn missing
         else
           mbind (frame r) (\<lambda>n.
           mseq (on_syn r (SYN_Add (mk_message n (proto playerid)))) (mreturn 1))))"

definition CSChoseRole_ProcessRequest :: "externals \<Rightarrow> int32 \<Rightarrow> message \<Rightarrow> (world, int32) mon" where
  "CSChoseRole_ProcessRequest ext user_id mess =
     in_game GetRoomByUserID 0 user_id (\<lambda>r. on_syn r SYN_GetNowFrame)
       (\<lambda>playerid. pb_set (pb_set (pb_new SCChoseRole) 1 (VInt (pb_int (proto_of mess) 1))) 2 (VInt playerid))"

definition CSMove_ProcessRequest :: "externals \<Rightarrow> int32 \<Rightarrow> message \<Rightarrow> (world, int32) mon" where
  "CSMove_ProcessRequest ext user_id mess =
     in_game GetRoomByUserID 0 user_id (\<lambda>r. mreturn (msg_framenum mess))
       (\<lambda>playerid. pb_set (pb_set (pb_new SCMove) 1 (VInt (pb_int (proto_of mess) 1))) 2 (VInt playerid))"

definition CSKill_ProcessRequest :: "externals \<Rightarrow> int32 \<Rightarrow> message \<Rightarrow> (world, int32) mon" where
  "CSKill_ProcessRequest ext user_id mess =
     in_game GetRoomByUserID 0 user_id (\<lambda>r. mreturn (msg_framenum mess))
       (\<lambda>playerid. pb_set (pb_set (pb_new SCKill) 1 (VInt (pb_int (proto_of mess) 1))) 2 (VInt (pb_int (proto_of mess) 2)))"

text \<open>The room is looked up by room number, with the user's number.\<close>

definition CSGamePause_ProcessRequest :: "externals \<Rightarrow> int32 \<Rightarrow> message \<Rightarrow> (world, int32) mon" where
  "CSGamePause_ProcessRequest ext user_id mess =
     in_game GetRoomByRoomID fail user_id (\<lambda>r. mreturn (msg_framenum mess)) (\<lambda>_. pb_new SCGamePause)"

definition CSSkill_ProcessRequest :: "externals \<Rightarrow> int32 \<Rightarrow> message \<Rightarrow> (world, int32) mon" where
  "CSSkill_ProcessRequest ext user_id mess =
     (let oldproto = proto_of mess in
      in_game GetRoomByUserID 0 user_id (\<lambda>r. mreturn (msg_framenum mess))
       (\<lambda>playerid. pb_set (pb_set (pb_set (pb_set (pb_set (pb_new SCSkill) 1 (VInt (pb_int oldproto 1)))
          2 (VFloat (pb_float oldproto 2))) 3 (VFloat (pb_float oldproto 3))) 4 (VInt (pb_int oldproto 4)))
          5 (VInt playerid)))"

definition CSHeartbeat_ProcessRequest :: "externals \<Rightarrow> int32 \<Rightarrow> message \<Rightarrow> (world, int32) mon" where
  "CSHeartbeat_ProcessRequest ext fd mess = mseq (Heartbeat_UpdateFD fd) (mreturn 1)"

definition CSGameEnd_ProcessRequest :: "externals \<Rightarrow> int32 \<Rightarrow> message \<Rightarrow> (world, int32) mon" where
  "CSGameEnd_ProcessRequest ext user_id mess =
     mbind (GetRoomByUserID user_id) (\<lambda>room.
     case room of
       None \<Rightarrow> mreturn 0
     | Some r \<Rightarrow>
         mbind (on_syn r SYN_GetNowFrame) (\<lambda>frame.
         mseq (to_client ext user_id (mk_message frame (pb_new SCGameEnd))) (
         mseq (GameEndFromRoom user_id) (mreturn 1))))"

section \<open>Dispatch\<close>

fun run_processor :: "externals \<Rightarrow> processor \<Rightarrow> int32 \<Rightarrow> message \<Rightarrow> (world, int32) mon" where
  "run_processor ext MP_CSLogin = CSLogin_ProcessRequest ext"
| "run_processor ext MP_CSRegist = CSRegist_ProcessRequest ext"
| "run_processor ext MP_CSChangeTeam = CSChangeTeam_ProcessRequest ext"
| "run_processor ext MP_CSPullAllRoomInfo = CSPullAllRoomInfo_ProcessRequest ext"
| "run_processor ext MP_CSCreateRoom = CSCreateRoom_ProcessRequest ext"
| "run_processor ext MP_CSJoinRoom = CSJoinRoom_ProcessRequest ext"
| "run_processor ext MP_CSPlayerExitRoom = CSPlayerExitRoom_ProcessRequest ext"
| "run_processor ext MP_CSReadyToStart = CSReadyToStart_ProcessRequest ext"
| "run_processor ext MP_CSLoadSucceed = CSLoadSucceed_ProcessRequest ext"
| "run_processor ext MP_CSChoseRole = CSChoseRole_ProcessRequest ext"
| "run_processor ext MP_CSMove = CSMove_ProcessRequest ext"
| "run_processor ext MP_CSKill = CSKill_ProcessRequest ext"
| "run_processor ext MP_CSGamePause = CSGamePause_ProcessRequest ext"
| "run_processor ext MP_CSSkill = CSSkill_ProcessRequest ext"
| "run_processor ext MP_CSHeartbeat = CSHeartbeat_ProcessRequest ext"
| "run_processor ext MP_CSGameEnd = CSGameEnd_ProcessRequest ext"

text \<open>The subscript of a number without a processor yields a null pointer.\<close>

definition ProcessRequest :: "externals \<Rightarrow> registry \<Rightarrow> int32 \<Rightarrow> message option \<Rightarrow> (world, int32) mon" where
  "ProcessRequest ext reg user_id message =
     (case message of
        None \<Rightarrow> mreturn fail
      | Some mess \<Rightarrow>
          (case m_find (m_processor reg) (msg_id mess) of
             None \<Rightarrow> mfault NullDeref
           | Some p \<Rightarrow> run_processor ext p user_id mess))"

end
