(* ===== verification/Message_Handler.thy ===== *)
theory Message_Handler
  imports Processors
begin

text \<open>
  The incoming side of \<^verbatim>\<open>Frame/message_handler.cpp\<close> and the main program \<^verbatim>\<open>Frame/server_main.cpp\<close>: one
  round of the event loop takes the ready descriptors, accepts or reads, cuts the received bytes
  into messages and dispatches each.
\<close>

section \<open>Start\<close>

definition SERV_PORT :: int32 where "SERV_PORT = 20000"

definition MAX_EPOLL_SIZE :: nat where "MAX_EPOLL_SIZE = 1024"

text \<open>Running a socket operation on the listening socket.\<close>

definition on_listen :: "(sock_os, 'a) mon \<Rightarrow> (world, 'a) mon" where
  "on_listen m = mzoom (\<lambda>w. (listen_sock w, w_os w)) (\<lambda>(s, o1) w. w\<lparr>listen_sock := s, w_os := o1\<rparr>) m"

definition MessageHandler_Init :: "(world, int32) mon" where
  "MessageHandler_Init =
     mbind (world_os sys_call) (\<lambda>epfd.
     mseq (mmodify (\<lambda>w. w\<lparr>m_epollfd := epfd, listen_sock := TcpSocket_Init (listen_sock w)\<rparr>)) (
     mbind (on_listen (TcpSocket_ReadyForListen SERV_PORT)) (\<lambda>r.
       if r \<noteq> success then mreturn fail
       else
         mbind (mgets (\<lambda>w. TcpSocket_GetFd (listen_sock w))) (\<lambda>fd.
         mseq (AddToEpoll fd) (mreturn success)))))"

section \<open>One message\<close>

text \<open>\<^verbatim>\<open>ParseStrToMessage\<close>; null is \<open>None\<close>. A message of unknown number has no object to decode into.\<close>

definition ParseStrToMessage :: "externals \<Rightarrow> registry \<Rightarrow> byte list \<Rightarrow> int32 \<Rightarrow> fault + message option" where
  "ParseStrToMessage ext reg data sz =
     (case mem_read data 4 4 of
        Inl e \<Rightarrow> Inl e
      | Inr b \<Rightarrow>
          (case Append_ntohl b of
             Inl e \<Rightarrow> Inl e
           | Inr n \<Rightarrow>
               let ret = (CMessage_new \<lparr>m_packetlen = 0, m_message_id = 0, m_framenum = 0, m_message_hash = 0\<rparr>)
                     \<lparr>m_proto := CreateMessage reg (sint n)\<rparr>
               in case CMessage_decode (x_parse ext) ret (Some data) sz of
                    Inl e \<Rightarrow> Inl e
                  | Inr (r, mess) \<Rightarrow> Inr (if r \<noteq> success then None else Some mess)))"

text \<open>
  Who may ask for what: heartbeats go through for every connection, login and registration for
  connections without a user, everything else needs a logged-in user. The number passed on is
  the descriptor in the first cases and the user in the last.
\<close>

definition dispatch :: "externals \<Rightarrow> registry \<Rightarrow> int32 \<Rightarrow> message \<Rightarrow> (world, unit) mon" where
  "dispatch ext reg fd mess =
     (if msg_id mess = MSG CSHeartbeat then mseq (ProcessRequest ext reg fd (Some mess)) (mreturn ())
      else mbind (mgets m_fd_to_user_id) (\<lambda>m.
        case m_find m fd of
          None \<Rightarrow>
            if msg_id mess = MSG CSLogin then mseq (ProcessRequest ext reg fd (Some mess)) (mreturn ())
            else if msg_id mess = MSG CSRegist then mseq (ProcessRequest ext reg fd (Some mess)) (mreturn ())
            else mreturn ()
        | Some user_id \<Rightarrow> mseq (ProcessRequest ext reg user_id (Some mess)) (mreturn ())))"

text \<open>\<^verbatim>\<open>m_connects[fd]->get_one_message(recv_data_, MAX_MESSAGE_LEN, msg_len)\<close>.\<close>

definition next_message :: "int32 \<Rightarrow> (world, int32 \<times> int32) mon" where
  "next_message fd w =
     (case m_find (m_connects w) fd of
        None \<Rightarrow> Inl NullDeref
      | Some s \<Rightarrow>
          (case TcpSocket_get_one_message (Some (recv_data w)) MAX_MESSAGE_LEN 0 s of
             Inl e \<Rightarrow> Inl e
           | Inr ((ret, out, msg_len), s') \<Rightarrow>
               Inr ((ret, msg_len), w\<lparr>m_connects := m_update (m_connects w) fd s',
                 recv_data := (case out of Some b \<Rightarrow> b | None \<Rightarrow> recv_data w)\<rparr>)))"

text \<open>
  The loop over the messages received from one client, with the number of messages so far. Every
  round takes at least one byte from the client's buffer, which bounds the rounds.
\<close>

primrec message_loop :: "externals \<Rightarrow> registry \<Rightarrow> int32 \<Rightarrow> nat \<Rightarrow> int32 \<Rightarrow> (world, int32) mon" where
  "message_loop ext reg fd 0 count = mfault OutOfFuel"
| "message_loop ext reg fd (Suc k) count =
     mbind (next_message fd) (\<lambda>(ret, msg_len).
       if ret \<noteq> success then mreturn count
       else
         mbind (mgets recv_data) (\<lambda>data.
         mbind (mlift (ParseStrToMessage ext reg data msg_len)) (\<lambda>message.
           case message of
             None \<Rightarrow> message_loop ext reg fd k count
           | Some mess \<Rightarrow> mseq (dispatch ext reg fd mess) (message_loop ext reg fd k (count + 1)))))"

definition unread_count :: "int32 \<Rightarrow> world \<Rightarrow> nat" where
  "unread_count fd w =
     (case m_find (m_connects w) fd of None \<Rightarrow> 0 | Some s \<Rightarrow> nat (m_recv_tail s - m_recv_head s))"

section \<open>One round of the event loop\<close>

text \<open>An event: the descriptor, and whether it reports an error, a hang-up or no input.\<close>

type_synonym event = "int32 \<times> bool"

definition AcceptNewClient :: "(world, unit) mon" where
  "AcceptNewClient =
     mbind GetFreeTcpSocket (\<lambda>new_client.
     mbind (mzoom (\<lambda>w. (new_client, w_os w)) (\<lambda>(s, o1) w. w\<lparr>w_os := o1\<rparr>)
              (mbind TcpSocket_AcceptClient (\<lambda>r. mbind (mgets fst) (\<lambda>s. mreturn (r, s))))) (\<lambda>(r, s).
       if r = success then
         mbind (mgets m_fd_to_user_id) (\<lambda>m.
           case m_find m (TcpSocket_GetFd s) of
             Some _ \<Rightarrow> mreturn ()
           | None \<Rightarrow>
               mseq (AddToEpoll (TcpSocket_GetFd s)) (
               mseq (mmodify (\<lambda>w. w\<lparr>m_connects := m_insert (m_connects w) (TcpSocket_GetFd s) s\<rparr>))
                 (Heartbeat_InitFD (TcpSocket_GetFd s))))
       else mmodify (\<lambda>w. w\<lparr>free_conns := free_conns w @ [s]\<rparr>)))"

definition ReadClient :: "externals \<Rightarrow> registry \<Rightarrow> int32 \<Rightarrow> int32 \<Rightarrow> (world, int32) mon" where
  "ReadClient ext reg fd count =
     mbind (mgets (\<lambda>w. m_find (m_connects w) fd)) (\<lambda>c.
       case c of
         None \<Rightarrow> mreturn count
       | Some _ \<Rightarrow>
           mbind (on_conn fd TcpSocket_RecvData) (\<lambda>recv_ret.
           mbind (mgets (unread_count fd)) (\<lambda>n.
           mbind (message_loop ext reg fd (Suc n) count) (\<lambda>count'.
           mseq (if recv_ret = read_status_error then x_del ext fd else mreturn ()) (mreturn count')))))"

definition handle_event :: "externals \<Rightarrow> registry \<Rightarrow> event \<Rightarrow> int32 \<Rightarrow> (world, int32) mon" where
  "handle_event ext reg = (\<lambda>(fd, bad) count.
     if bad then
       mbind (mgets (\<lambda>w. m_find (m_connects w) fd)) (\<lambda>c.
       mseq (case c of None \<Rightarrow> mreturn () | Some _ \<Rightarrow> x_del ext fd) (mreturn count))
     else
       mbind (mgets (\<lambda>w. TcpSocket_GetFd (listen_sock w))) (\<lambda>lfd.
         if fd = lfd then mseq AcceptNewClient (mreturn count)
         else ReadClient ext reg fd count))"

fun ReceiveMessage :: "externals \<Rightarrow> registry \<Rightarrow> event list \<Rightarrow> int32 \<Rightarrow> (world, int32) mon" where
  "ReceiveMessage ext reg [] message_count = mreturn message_count"
| "ReceiveMessage ext reg (e # events) message_count =
     mbind (handle_event ext reg e message_count) (\<lambda>c. ReceiveMessage ext reg events c)"

section \<open>The main program\<close>

definition RunOnTick :: "externals \<Rightarrow> int32 \<Rightarrow> (world, int32) mon" where
  "RunOnTick ext presec =
     mseq (RoomManager_OnTick (x_ser ext) (x_del ext)) (
     mbind (world_os GetNowTimeSecond) (\<lambda>nowsec.
       if nowsec - presec < 40 then mreturn presec
       else mseq (Heartbeat_OnTick (x_del ext) nowsec) (mreturn nowsec)))"

text \<open>The start of \<^verbatim>\<open>main\<close>: the time the loop starts with, or \<open>None\<close> when it returns at once.\<close>

definition main_init :: "(world, int32 option) mon" where
  "main_init =
     mbind MessageHandler_Init (\<lambda>r.
       if r \<noteq> success then mreturn None
       else mbind Login_Init (\<lambda>r2.
         if r2 \<noteq> success then mreturn None
         else mbind (world_os GetNowTimeSecond) (\<lambda>sec. mreturn (Some sec))))"

text \<open>One iteration of the endless loop; the events are what \<^verbatim>\<open>epoll_wait\<close> reports.\<close>

definition main_round :: "externals \<Rightarrow> registry \<Rightarrow> event list \<Rightarrow> int32 \<Rightarrow> (world, int32) mon" where
  "main_round ext reg events sec =
     mbind (RunOnTick ext sec) (\<lambda>sec'.
     mseq (ReceiveMessage ext reg events 0) (mreturn sec'))"

inductive reachable :: "externals \<Rightarrow> registry \<Rightarrow> world \<Rightarrow> int32 \<Rightarrow> world \<Rightarrow> bool" for ext reg w0 where
  start: "main_init w0 = Inr (Some sec, w) \<Longrightarrow> reachable ext reg w0 sec w"
| round: "reachable ext reg w0 sec w \<Longrightarrow> length events \<le> MAX_EPOLL_SIZE
    \<Longrightarrow> main_round ext reg events sec w = Inr (sec', w') \<Longrightarrow> reachable ext reg w0 sec' w'"

end
