(* ===== verification/Receive_Progress.thy ===== *)
theory Receive_Progress
  imports Message_Handler
begin

text \<open>
  Nothing a message processor does puts bytes into a receive buffer: between two calls of
  \<^verbatim>\<open>get_one_message\<close> the number of unread bytes of a client stays, or the client is gone. This is
  why the loop over received messages ends.
\<close>

section \<open>Computations that leave receive buffers alone\<close>

definition rx_le :: "world \<Rightarrow> world \<Rightarrow> bool" where
  "rx_le w w' \<longleftrightarrow> (\<forall>fd s'. m_find (m_connects w') fd = Some s' \<longrightarrow>
     (\<exists>s. m_find (m_connects w) fd = Some s \<and> m_recv_head s' = m_recv_head s \<and> m_recv_tail s' = m_recv_tail s))"

definition rx_keeps :: "(world, 'a) mon \<Rightarrow> bool" where
  "rx_keeps m \<longleftrightarrow> (\<forall>w x w'. m w = Inr (x, w') \<longrightarrow> rx_le w w')"

lemma rx_le_refl [simp]: "rx_le w w"
  by (simp add: rx_le_def)

lemma rx_le_trans: "rx_le w1 w2 \<Longrightarrow> rx_le w2 w3 \<Longrightarrow> rx_le w1 w3"
  unfolding rx_le_def by metis

lemma rx_le_same: "m_connects w' = m_connects w \<Longrightarrow> rx_le w w'"
  by (simp add: rx_le_def)

lemma rx_le_unread: "rx_le w w' \<Longrightarrow> unread_count fd w' \<le> unread_count fd w"
  unfolding rx_le_def unread_count_def by (cases "m_find (m_connects w') fd") fastforce+

named_theorems rx_rules \<open>composition of computations that leave receive buffers alone\<close>

lemma rx_return [rx_rules]: "rx_keeps (mreturn x)"
  by (simp add: rx_keeps_def run_simps)

lemma rx_fault [rx_rules]: "rx_keeps (mfault e)"
  by (simp add: rx_keeps_def run_simps)

lemma rx_gets [rx_rules]: "rx_keeps (mgets f)"
  by (simp add: rx_keeps_def run_simps)

lemma rx_lift [rx_rules]: "rx_keeps (mlift r)"
  by (auto simp: rx_keeps_def run_simps split: sum.splits)

lemma rx_modify: "(\<And>w. m_connects (f w) = m_connects w) \<Longrightarrow> rx_keeps (mmodify f)"
  by (simp add: rx_keeps_def run_simps rx_le_same)

lemma rx_bind [rx_rules]: "rx_keeps m \<Longrightarrow> (\<And>x. rx_keeps (k x)) \<Longrightarrow> rx_keeps (mbind m k)"
  unfolding rx_keeps_def by (auto simp: run_simps split: sum.splits) (blast intro: rx_le_trans)

lemma rx_seq [rx_rules]: "rx_keeps m \<Longrightarrow> rx_keeps k \<Longrightarrow> rx_keeps (mseq m k)"
  unfolding mseq_def by (rule rx_bind)

lemma rx_world_os [rx_rules]: "rx_keeps (world_os m)"
  by (auto simp: rx_keeps_def world_os_def run_simps split: sum.splits intro: rx_le_same)

lemma rx_on_room [rx_rules]: "rx_keeps (on_room r m)"
  by (auto simp: rx_keeps_def on_room_def split: sum.splits if_splits intro: rx_le_same)

lemma rx_on_syn [rx_rules]: "rx_keeps (on_syn r m)"
  by (auto simp: rx_keeps_def on_syn_def split: sum.splits if_splits intro: rx_le_same)

lemma rx_on_conn:
  assumes "\<And>s o1 x s' o2. m (s, o1) = Inr (x, s', o2) \<Longrightarrow> m_recv_head s' = m_recv_head s \<and> m_recv_tail s' = m_recv_tail s"
  shows "rx_keeps (on_conn fd m)"
  using assms by (fastforce simp: rx_keeps_def on_conn_def rx_le_def m_find_update split: sum.splits option.splits)

section \<open>Sending\<close>

lemma drain_round_rx:
  "drain_round data so = Inr (c, so') \<Longrightarrow> m_recv_head (fst so') = m_recv_head (fst so) \<and> m_recv_tail (fst so') = m_recv_tail (fst so)"
  by (cases so)
    (auto simp: drain_round_def run_simps send_advance_def send_append_def send_compact_def
      split: sum.splits if_splits prod.splits)

lemma drain_loop_rx:
  "drain_loop data so = Inr (c, so') \<Longrightarrow> m_recv_head (fst so') = m_recv_head (fst so) \<and> m_recv_tail (fst so') = m_recv_tail (fst so)"
proof (induction data so arbitrary: c so' rule: drain_loop.induct)
  case (1 data so)
  obtain c1 so1 where r: "drain_round data so = Inr (c1, so1)"
    using 1(2) by (cases "drain_round data so") (auto simp: drain_loop.simps [of data so])
  show ?case
    using 1(1) [OF r refl] 1(2) drain_round_rx [OF r] r by (cases c1) (auto simp: drain_loop.simps [of data so])
qed

lemma push_loop_rx:
  "push_loop rest so = Inr (c, so') \<Longrightarrow> m_recv_head (fst so') = m_recv_head (fst so) \<and> m_recv_tail (fst so') = m_recv_tail (fst so)"
proof (induction rest so arbitrary: c so' rule: push_loop.induct)
  case (1 rest so)
  show ?case
  proof (cases "rest = []")
    case True
    then show ?thesis using 1(2) by (simp add: push_loop.simps [of "[]"])
  next
    case False
    obtain n again o2 where s: "sys_send (m_iSockfd (fst so)) rest (snd so) = Inr ((n, again), o2)"
      using sys_send_total by blast
    have run: "on_os (sys_send (m_iSockfd (fst so)) rest) so = Inr ((n, again), fst so, o2)"
      using s by (cases so) (simp add: run_simps)
    show ?thesis
    proof (cases "n > 0")
      case True
      then show ?thesis
        using 1(1) [OF False run refl refl True] 1(2) False run by (auto simp: push_loop.simps [of rest so])
    next
      case nonpos: False
      then show ?thesis
        using 1(2) False run
        by (subst (asm) push_loop.simps) (auto simp: run_simps send_append_def split: if_splits sum.splits)
    qed
  qed
qed

lemma SendData_rx:
  assumes "TcpSocket_SendData data n (s, o1) = Inr (x, s', o2)"
  shows "m_recv_head s' = m_recv_head s \<and> m_recv_tail s' = m_recv_tail s"
  using assms
  by (auto simp: TcpSocket_SendData_def run_simps split: if_splits option.splits sum.splits ctl.splits prod.splits
      dest!: drain_loop_rx push_loop_rx)

lemma rx_SendMessageByConnfd [rx_rules]: "rx_keeps (SendMessageByConnfd ser fd mess)"
  unfolding SendMessageByConnfd_def
  by (auto intro!: rx_rules rx_modify rx_on_conn SendData_rx split: option.split prod.split)

section \<open>Everything a processor calls\<close>

lemma rx_ChangePersonStatus [rx_rules]: "rx_keeps (PersonManager_ChangePersonStatus u st)"
  unfolding PersonManager_ChangePersonStatus_def
  by (auto intro!: rx_rules rx_modify split: option.split prod.split)

lemma rx_GetDetailInfo [rx_rules]: "rx_keeps (Room_GetDetailInfo r)"
  unfolding Room_GetDetailInfo_def by (intro rx_rules)

lemma rx_SendMessageToClient: "(\<And>fd. rx_keeps (d fd)) \<Longrightarrow> rx_keeps (SendMessageToClient ser d u mess)"
  unfolding SendMessageToClient_def by (auto intro!: rx_rules split: option.split)

lemma rx_send_everyone: "(\<And>fd. rx_keeps (d fd)) \<Longrightarrow> rx_keeps (send_everyone_loop ser d r mess k i)"
proof (induction k arbitrary: i)
  case 0
  then show ?case by (subst send_everyone_loop.simps) (auto intro!: rx_rules)
next
  case (Suc k)
  then show ?case by (subst send_everyone_loop.simps) (auto intro!: rx_rules rx_SendMessageToClient)
qed

lemma rx_SendMessageToEveryone: "(\<And>fd. rx_keeps (d fd)) \<Longrightarrow> rx_keeps (Room_SendMessageToEveryone ser d r mess)"
  unfolding Room_SendMessageToEveryone_def by (rule rx_send_everyone)

lemma rx_SendGameStart: "(\<And>fd. rx_keeps (d fd)) \<Longrightarrow> rx_keeps (Room_SendGameStart ser d r)"
  unfolding Room_SendGameStart_def by (auto intro!: rx_rules rx_SendMessageToEveryone)

lemma rx_SendGameLoading: "(\<And>fd. rx_keeps (d fd)) \<Longrightarrow> rx_keeps (Room_SendGameLoading ser d r)"
  unfolding Room_SendGameLoading_def by (auto intro!: rx_rules rx_SendMessageToEveryone)

lemma rx_DeletePlayerFromRoom: "(\<And>fd. rx_keeps (d fd)) \<Longrightarrow> rx_keeps (DeletePlayerFromRoom ser d u)"
  unfolding DeletePlayerFromRoom_def Room_DeletePlayer_def
  by (auto intro!: rx_rules rx_modify rx_SendMessageToEveryone rx_SendGameStart split: option.split)

lemma rx_PlayerLogout: "(\<And>fd. rx_keeps (d fd)) \<Longrightarrow> rx_keeps (PlayerLogout ser d u)"
  unfolding PlayerLogout_def PersonLogout_def Person_OnExit_def
  by (auto intro!: rx_rules rx_modify rx_DeletePlayerFromRoom split: option.split)

lemma rx_drop_connection [rx_rules]: "rx_keeps (drop_connection fd)"
proof -
  have "rx_keeps (mbind (mgets m_connects) (\<lambda>cs. case m_find cs fd of None \<Rightarrow> mfault NullDeref
       | Some client \<Rightarrow> mmodify (\<lambda>w. w\<lparr>m_connects := m_erase cs fd, free_conns := free_conns w @ [client]\<rparr>)))"
    by (auto simp: rx_keeps_def rx_le_def run_simps split: option.splits if_splits)
  moreover have "rx_keeps (on_conn fd TcpSocket_close_socket)"
    by (rule rx_on_conn) (auto simp: TcpSocket_close_socket_def run_simps sys_event_def split: if_splits)
  moreover have "rx_keeps (Heartbeat_DeleteFD fd)" "rx_keeps (DeleteFromEpoll fd)"
    unfolding Heartbeat_DeleteFD_def DeleteFromEpoll_def by (auto intro!: rx_rules rx_modify split: option.split)
  ultimately show ?thesis unfolding drop_connection_def by (intro rx_seq)
qed

lemma rx_DeleteClientByFD_rec: "rx_keeps (DeleteClientByFD_rec ser n fd)"
proof (induction n arbitrary: fd)
  case 0
  then show ?case by (simp add: rx_rules)
next
  case (Suc n)
  then show ?case
    by (auto simp: DeleteClientByFD_body_def intro!: rx_rules rx_PlayerLogout split: option.split)
qed

lemma rx_DeleteClientByFD [rx_rules]: "rx_keeps (DeleteClientByFD ser fd)"
  using rx_DeleteClientByFD_rec unfolding rx_keeps_def DeleteClientByFD_def by blast

lemmas rx_callers [rx_rules] = rx_SendMessageToClient [OF rx_DeleteClientByFD] rx_SendMessageToEveryone [OF rx_DeleteClientByFD]
  rx_SendGameStart [OF rx_DeleteClientByFD] rx_SendGameLoading [OF rx_DeleteClientByFD]
  rx_DeletePlayerFromRoom [OF rx_DeleteClientByFD]

lemma rx_database [rx_rules]: "rx_keeps (mysql_real_query db sql)"
  by (auto simp: rx_keeps_def mysql_real_query_def intro: rx_le_same)

lemma rx_login [rx_rules]: "rx_keeps (answer_login ext reply ok refused fd name x)"
  unfolding answer_login_def PersonManager_PersonLogin_def PlayerLogin_def Let_def
  by (auto intro!: rx_rules rx_modify split: option.split prod.split)

lemma rx_rooms [rx_rules]:
  "rx_keeps (CreateRoom u gm tm k)" "rx_keeps (JoinRoom u k)" "rx_keeps (GameEndFromRoom u)"
  "rx_keeps GetAllRoomInfo" "rx_keeps (GetDetailRoomInfo k)" "rx_keeps (GetRoomByUserID u)" "rx_keeps (GetRoomByRoomID k)"
proof -
  have "rx_keeps (all_room_info it ret)" for it ret
    by (induction it ret rule: all_room_info.induct) (auto intro!: rx_rules)
  then show "rx_keeps GetAllRoomInfo" unfolding GetAllRoomInfo_def by (intro rx_rules)
qed (unfold CreateRoom_def take_room_def Room_AddPlayer_def JoinRoom_def GameEndFromRoom_def Room_GameEnd_def
    GetDetailRoomInfo_def GetRoomByUserID_def GetRoomByRoomID_def,
    auto intro!: rx_rules rx_modify split: option.split list.split prod.split)

lemma rx_in_game [rx_rules]:
  "(\<And>u. rx_keeps (f u)) \<Longrightarrow> (\<And>r. rx_keeps (g r)) \<Longrightarrow> rx_keeps (in_game f missing u g proto)"
  unfolding in_game_def by (auto intro!: rx_rules split: option.split)

lemmas processor_defs = CSLogin_ProcessRequest_def CSRegist_ProcessRequest_def CSChangeTeam_ProcessRequest_def
  CSPullAllRoomInfo_ProcessRequest_def CSCreateRoom_ProcessRequest_def CSJoinRoom_ProcessRequest_def
  CSPlayerExitRoom_ProcessRequest_def CSReadyToStart_ProcessRequest_def CSLoadSucceed_ProcessRequest_def
  CSChoseRole_ProcessRequest_def CSMove_ProcessRequest_def CSKill_ProcessRequest_def CSGamePause_ProcessRequest_def
  CSSkill_ProcessRequest_def CSHeartbeat_ProcessRequest_def CSGameEnd_ProcessRequest_def

lemma rx_run_processor [rx_rules]: "rx_keeps (run_processor ext p u mess)"
  by (cases p; simp only: run_processor.simps processor_defs LoginRequest_def NewUserRegist_def fetch_user_id_def
      Room_AddLoadingSucceed_def Heartbeat_UpdateFD_def Heartbeat_DeleteFD_def hb_stamp_def Let_def;
      auto intro!: rx_rules rx_modify split: option.split prod.split)

lemma rx_dispatch: "rx_keeps (dispatch ext reg fd mess)"
  unfolding dispatch_def ProcessRequest_def by (auto intro!: rx_rules split: option.split)

section \<open>Taking a message makes progress\<close>

lemma next_message_progress:
  assumes "next_message fd w = Inr ((success, n), w')"
  shows "unread_count fd w' < unread_count fd w"
proof -
  obtain s s' out where s: "m_find (m_connects w) fd = Some s"
    "TcpSocket_get_one_message (Some (recv_data w)) MAX_MESSAGE_LEN 0 s = Inr ((success, out, n), s')"
    "m_find (m_connects w') fd = Some s'"
    using assms by (auto simp: next_message_def m_find_update split: option.splits sum.splits)
  then have "0 < n" "n \<le> m_recv_tail s - m_recv_head s" "s' = recv_advance s n"
    by (auto simp: TcpSocket_get_one_message_def Let_def split: if_splits sum.splits)
  then show ?thesis using s by (simp add: unread_count_def recv_advance_def)
qed

end
