(* ===== verification/Handler_Proofs.thy ===== *)
theory Handler_Proofs
  imports Manager_Proofs Receive_Progress
begin

text \<open>
  Every processor, the event loop and the main program keep the server invariant and end: a
  round returns, or stops in one of the memory faults of the code, never for lack of fuel.
\<close>

section \<open>Safe computations\<close>

text \<open>The faults a client can provoke; each is the subject of a finding.\<close>

definition crash :: "fault \<Rightarrow> bool" where
  "crash e \<longleftrightarrow> e \<in> {NullDeref, OutOfBounds, UninitRead, DanglingIter}"

definition safe :: "(world, 'a) mon \<Rightarrow> world \<Rightarrow> bool" where
  "safe m w \<longleftrightarrow> mwp m (\<lambda>_. server_inv) crash w"

lemma keeps_inv_safe: "keeps_inv m w \<Longrightarrow> safe m w"
  unfolding safe_def keeps_inv_def by (erule mwp_mono) (auto simp: crash_def)

lemma keeps_safe: "keeps m w \<Longrightarrow> safe m w"
  by (rule keeps_inv_safe [OF keeps_imp_inv])

lemma safe_return [simp]: "safe (mreturn x) w = server_inv w"
  by (simp add: safe_def wp_simps)

lemma safe_fault [simp]: "safe (mfault e) w = crash e"
  by (simp add: safe_def wp_simps)

lemma safe_bind_gets [simp]: "safe (mbind (mgets f) k) w = safe (k (f w)) w"
  by (simp add: safe_def wp_simps)

lemma safe_bind:
  assumes "safe m w" and "\<And>x w'. m w = Inr (x, w') \<Longrightarrow> server_inv w' \<Longrightarrow> safe (k x) w'"
  shows "safe (mbind m k) w"
  using assms by (auto simp: safe_def mwp_def run_simps split: sum.splits)

lemma safe_seq:
  "safe m w \<Longrightarrow> (\<And>x w'. m w = Inr (x, w') \<Longrightarrow> server_inv w' \<Longrightarrow> safe k w') \<Longrightarrow> safe (mseq m k) w"
  unfolding mseq_def by (rule safe_bind)

lemma keeps_safe_bind:
  assumes "keeps m w" and "\<And>x w'. m w = Inr (x, w') \<Longrightarrow> server_inv w' \<Longrightarrow> later w w' \<Longrightarrow> safe (k x) w'"
  shows "safe (mbind m k) w"
  using assms by (auto simp: keeps_def safe_def mwp_def run_simps crash_def split: sum.splits)

lemma keeps_safe_seq:
  "keeps m w \<Longrightarrow> (\<And>x w'. m w = Inr (x, w') \<Longrightarrow> server_inv w' \<Longrightarrow> later w w' \<Longrightarrow> safe k w') \<Longrightarrow> safe (mseq m k) w"
  unfolding mseq_def by (rule keeps_safe_bind)

lemma safe_bind_read:
  "r < length (room_heap w) \<Longrightarrow> m (room_heap w ! r) = Inr (x, room_heap w ! r)
    \<Longrightarrow> safe (mbind (on_room r m) k) w = safe (k x) w"
  by (simp add: safe_def mwp_def run_simps on_room_read)

lemma safe_time: "server_inv w \<Longrightarrow> keeps (world_os GetNowTimeSecond) w"
  by (rule keeps_os) (auto simp: GetNowTimeSecond_def sys_gettimeofday_def run_simps split: prod.splits)

abbreviation "room_ok r w \<equiv> good (\<lambda>_. True) r w"

lemma belong_good: "server_inv w \<Longrightarrow> m_find (belong_room w) u = Some r \<Longrightarrow> room_ok r w"
  using rooms_invD(2) by (auto simp: good_def server_inv_def)

lemma listed_good: "server_inv w \<Longrightarrow> m_find (rooms w) k = Some r \<Longrightarrow> room_ok r w"
  using rooms_invD(3) by (auto simp: good_def server_inv_def)

section \<open>The ring of a room that may not have started\<close>

lemma SYN_Add_any:
  assumes "syn_wf y" "m_proto mess \<noteq> None"
  shows "mwp (SYN_Add mess) (\<lambda>_ (y', o2). syn_wf y' \<and> syn_ready y') crash (y, o1)"
proof (cases "syn_ready y")
  case True
  show ?thesis by (rule mwp_mono [OF SYN_Add_wp [OF assms(1) True assms(2)]]) (auto simp: crash_def)
next
  case False
  then show ?thesis by (simp add: mwp_def SYN_Add_def run_simps UpdateTime_run crash_def)
qed

lemma SYN_GetNowFrame_any:
  assumes "syn_wf y"
  shows "mwp SYN_GetNowFrame (\<lambda>_ (y', o2). syn_wf y' \<and> syn_ready y') crash (y, o1)"
  using assms by (cases "syn_ready y") (simp_all add: mwp_def SYN_GetNowFrame_def run_simps UpdateTime_run crash_def)

lemma on_syn_steps:
  assumes g: "room_ok r w" and "mwp m (\<lambda>_ (y, o1). syn_wf y \<and> syn_ready y) crash (m_syn (room_heap w ! r), w_os w)"
  shows "mwp (on_syn r m) (\<lambda>_ w'. server_inv w' \<and> later w w') crash w"
  unfolding mwp_on_syn [OF goodD(3) [OF g]]
  by (rule mwp_mono [OF assms(2)]) (use server_inv_syn [OF goodD(1,3) [OF g]] in auto)

lemma SYN_Add_safe:
  assumes g: "room_ok r w"
  shows "safe (on_syn r (SYN_Add (mk_message n p))) w"
proof -
  have "syn_wf (m_syn (room_heap w ! r))" using goodD(4) [OF g] by (simp add: room_wf_def)
  then show ?thesis
    unfolding safe_def
    by (intro mwp_mono [OF on_syn_steps [OF g SYN_Add_any]]) (auto simp: mk_message_def)
qed

lemma GetNowFrame_steps:
  assumes g: "room_ok r w"
  shows "mwp (on_syn r SYN_GetNowFrame) (\<lambda>_ w'. server_inv w' \<and> later w w') crash w"
  using goodD(4) [OF g] by (intro on_syn_steps [OF g SYN_GetNowFrame_any]) (simp add: room_wf_def)

lemma steps_bind:
  assumes "mwp m (\<lambda>_ w'. server_inv w' \<and> later w w') crash w"
    and "\<And>x w'. server_inv w' \<Longrightarrow> later w w' \<Longrightarrow> safe (k x) w'"
  shows "safe (mbind m k) w"
  unfolding safe_def mwp_bind by (rule mwp_mono [OF assms(1)]) (use assms(2) in \<open>auto simp: safe_def\<close>)

section \<open>Players' requests\<close>

lemma room_later: "room_ok r w \<Longrightarrow> server_inv w' \<Longrightarrow> later w w' \<Longrightarrow> room_ok r w'"
  by (auto simp: good_def later_heap)

lemma GetPlayerID_pos:
  assumes "room_ok r w"
  obtains pos where "Room_GetPlayerID u (room_heap w ! r) = Inr (pos, room_heap w ! r)" "0 \<le> pos" "pos \<le> 8"
    "pos \<noteq> 0 \<Longrightarrow> pos \<le> m_player_cnt (room_heap w ! r) \<and> player_at (room_heap w ! r) u pos"
  using Room_GetPlayerID_eq [OF goodD(4) [OF assms], of u] room_wf_cnt [OF goodD(4) [OF assms]] by fastforce

lemma in_game_safe:
  assumes inv: "server_inv w"
    and find: "\<And>u. \<exists>room. f u w = Inr (room, w) \<and> (\<forall>r. room = Some r \<longrightarrow> room_ok r w)"
    and g: "\<And>r. room_ok r w \<Longrightarrow> mwp (g r) (\<lambda>_ w'. server_inv w' \<and> later w w') crash w"
  shows "safe (in_game f missing u g proto) w"
proof -
  obtain room where room: "f u w = Inr (room, w)" "\<forall>r. room = Some r \<longrightarrow> room_ok r w" using find by blast
  have run: "safe (in_game f missing u g proto) w = safe (case room of None \<Rightarrow> mreturn missing
     | Some r \<Rightarrow> mbind (on_room r (Room_GetPlayerID u)) (\<lambda>playerid.
         if playerid = 0 then mreturn missing
         else mbind (g r) (\<lambda>n. mseq (on_syn r (SYN_Add (mk_message n (proto playerid)))) (mreturn 1)))) w"
    using room(1) by (simp add: in_game_def safe_def mwp_def run_simps)
  show ?thesis
  proof (cases room)
    case None
    then show ?thesis using run inv by simp
  next
    case (Some r)
    then have r: "room_ok r w" using room(2) by simp
    obtain pos where pos: "Room_GetPlayerID u (room_heap w ! r) = Inr (pos, room_heap w ! r)"
      using GetPlayerID_pos [OF r] by blast
    have "safe (mbind (g r) (\<lambda>n. mseq (on_syn r (SYN_Add (mk_message n (proto pos)))) (mreturn (1 :: int32)))) w"
      by (rule steps_bind [OF g [OF r]]) (auto intro!: safe_seq SYN_Add_safe room_later [OF r])
    then show ?thesis unfolding run using Some pos inv goodD(3) [OF r] by (simp add: safe_bind_read)
  qed
qed

lemma find_user: "server_inv w \<Longrightarrow> \<exists>room. GetRoomByUserID u w = Inr (room, w) \<and> (\<forall>r. room = Some r \<longrightarrow> room_ok r w)"
  by (auto simp: GetRoomByUserID_def run_simps belong_good)

lemma find_room: "server_inv w \<Longrightarrow> \<exists>room. GetRoomByRoomID u w = Inr (room, w) \<and> (\<forall>r. room = Some r \<longrightarrow> room_ok r w)"
  by (auto simp: GetRoomByRoomID_def run_simps listed_good)

lemma frame_given: "server_inv w \<Longrightarrow> mwp (mreturn n) (\<lambda>_ w'. server_inv w' \<and> later w w') crash w"
  by (simp add: wp_simps)

lemma game_requests_safe:
  assumes "server_inv w"
  shows "safe (CSChoseRole_ProcessRequest ext u mess) w" "safe (CSMove_ProcessRequest ext u mess) w"
    "safe (CSKill_ProcessRequest ext u mess) w" "safe (CSGamePause_ProcessRequest ext u mess) w"
    "safe (CSSkill_ProcessRequest ext u mess) w"
  unfolding processor_defs Let_def
  by (intro in_game_safe assms find_user find_room frame_given GetNowFrame_steps; assumption)+

text \<open>The setters of a room.\<close>

lemma ChangeTeamID_keeps:
  assumes g: "room_ok r w"
  shows "keeps (on_room r (Room_ChangeTeamID u t)) w"
proof (rule keeps_on_room [OF goodD(1,3) [OF g]])
  obtain pos where pos: "Room_GetPlayerID u (room_heap w ! r) = Inr (pos, room_heap w ! r)" "0 \<le> pos" "pos \<le> 8"
    using GetPlayerID_pos [OF g] by blast
  show "mwp (Room_ChangeTeamID u t) (\<lambda>_ rm. room_wf rm \<and> m_room_id rm = m_room_id (room_heap w ! r)
      \<and> status_step (m_status (room_heap w ! r)) (m_status rm)
      \<and> (\<forall>u. m_find (belong_room w) u = Some r \<longrightarrow> in_room rm u)) oob (room_heap w ! r)"
    using pos goodD(4) [OF g] good_members [OF g] room_wf_lengths [OF goodD(4) [OF g]]
    by (auto simp: mwp_def Room_ChangeTeamID_def run_simps room_wf_def in_room_def player_at_def)
qed

lemma ChangeGameOption_keeps:
  assumes g: "room_ok r w"
  shows "keeps (on_room r (Room_ChangeGameOption u t)) w"
proof (rule keeps_on_room [OF goodD(1,3) [OF g]])
  obtain pos where pos: "Room_GetPlayerID u (room_heap w ! r) = Inr (pos, room_heap w ! r)"
    using GetPlayerID_pos [OF g] by blast
  show "mwp (Room_ChangeGameOption u t) (\<lambda>_ rm. room_wf rm \<and> m_room_id rm = m_room_id (room_heap w ! r)
      \<and> status_step (m_status (room_heap w ! r)) (m_status rm)
      \<and> (\<forall>u. m_find (belong_room w) u = Some r \<longrightarrow> in_room rm u)) oob (room_heap w ! r)"
    using pos goodD(4) [OF g] good_members [OF g]
    by (auto simp: mwp_def Room_ChangeGameOption_def run_simps room_wf_def in_room_def player_at_def)
qed

lemma CSChangeTeam_safe:
  assumes inv: "server_inv w"
  shows "safe (CSChangeTeam_ProcessRequest ext u mess) w"
proof (cases "m_find (belong_room w) u")
  case None
  then show ?thesis using inv by (simp add: CSChangeTeam_ProcessRequest_def GetRoomByUserID_def Let_def)
next
  case (Some r)
  note g = belong_good [OF inv Some]
  have "keeps (mbind (Room_GetDetailInfo r) (\<lambda>detail. mseq (to_everyone ext r (mk_message (-1) detail)) (mreturn success))) w'"
    if "server_inv w'" "later w w'" for w'
    using room_later [OF g that] by (auto intro!: dc.keeps_bind_detail keeps_seq dc.everyone_keeps)
  then have "keeps (mseq (if pb_has p 1 then on_room r (Room_ChangeTeamID u (pb_int p 1))
                  else if pb_has p 2 then on_room r (Room_ChangeGameOption u (pb_int p 2)) else mreturn 0) (
            mbind (Room_GetDetailInfo r) (\<lambda>detail.
            mseq (to_everyone ext r (mk_message (-1) detail)) (mreturn success)))) w" for p
    using inv by (auto intro!: keeps_seq ChangeTeamID_keeps [OF g] ChangeGameOption_keeps [OF g])
  then show ?thesis
    using Some inv goodD(3) [OF g]
    by (cases "m_status (room_heap w ! r) = room_status_waiting")
      (simp_all add: CSChangeTeam_ProcessRequest_def GetRoomByUserID_def Let_def safe_bind_read Room_GetGameStatus_def
        run_simps keeps_safe del: if_split)
qed

section \<open>Requests about rooms\<close>

lemma to_client_keeps: "server_inv w \<Longrightarrow> keeps (to_client ext u mess) w"
  by (simp add: dc.client_keeps)

text \<open>The rooms a client may join, in the order of their numbers.\<close>

definition waiting_rooms :: "(int32 \<times> nat) list \<Rightarrow> world \<Rightarrow> Room list" where
  "waiting_rooms it w = filter (\<lambda>rm. m_status rm = room_status_waiting) (map (\<lambda>(_, r). room_heap w ! r) it)"

lemma all_room_info_eq:
  assumes "\<forall>(k, r)\<in>set it. r < length (room_heap w)"
  shows "all_room_info it ret w =
    Inr (foldl (\<lambda>p rm. pb_add p 1 (VMsg (Room_GetRoomInfo rm))) ret (waiting_rooms it w), w)"
  using assms
proof (induction it ret rule: all_room_info.induct)
  case (1 ret)
  then show ?case by (simp add: run_simps waiting_rooms_def)
next
  case (2 k r it ret)
  then show ?case
    by (simp add: run_simps on_room_def Room_GetGameStatus_def waiting_rooms_def)
qed

lemma GetAllRoomInfo_eq:
  assumes inv: "server_inv w"
  shows "GetAllRoomInfo w =
    Inr (foldl (\<lambda>p rm. pb_add p 1 (VMsg (Room_GetRoomInfo rm))) (pb_new SCPullAllRoomInfo) (waiting_rooms (rooms w) w), w)"
proof -
  have "\<forall>(k, r)\<in>set (rooms w). r < length (room_heap w)"
    using inv m_in_set_find [of "rooms w"] unfolding server_inv_def rooms_inv_def by blast
  then show ?thesis using all_room_info_eq by (simp add: GetAllRoomInfo_def run_simps)
qed

lemma GetDetailRoomInfo_read:
  assumes inv: "server_inv w"
  shows "\<exists>p. GetDetailRoomInfo k w = Inr (p, w)"
proof (cases "m_find (rooms w) k")
  case None
  then show ?thesis by (simp add: GetDetailRoomInfo_def run_simps)
next
  case (Some r)
  then show ?thesis
    using dc.GetDetailInfo_read [OF listed_good [OF inv Some]] by (simp add: GetDetailRoomInfo_def run_simps)
qed

lemma safe_bind_detail:
  assumes inv: "server_inv w" and "\<And>p. safe (k p) w"
  shows "safe (mbind (GetDetailRoomInfo i) k) w"
proof -
  obtain p where "GetDetailRoomInfo i w = Inr (p, w)" using GetDetailRoomInfo_read [OF inv] by blast
  then show ?thesis using assms(2) [of p] by (simp add: safe_def mwp_def run_simps)
qed

lemma CSPullAllRoomInfo_safe:
  assumes inv: "server_inv w"
  shows "safe (CSPullAllRoomInfo_ProcessRequest ext u mess) w"
proof -
  have "safe (mseq (to_client ext u m) (mreturn success)) w" for m
    using inv by (auto intro!: keeps_safe keeps_seq to_client_keeps)
  then show ?thesis
    using GetAllRoomInfo_eq [OF inv] by (simp add: CSPullAllRoomInfo_ProcessRequest_def safe_def mwp_def run_simps)
qed

lemma CreateRoom_inv:
  assumes inv: "server_inv w"
  shows "keeps_inv (CreateRoom u gm tm k) w"
proof (cases "m_find (belong_room w) u")
  case None
  obtain k' w1 ret w' where run: "CreateRoom u gm tm k w = Inr ((success, k'), w')"
    "PersonManager_ChangePersonStatus u person_in_room w1 = Inr (ret, w')" "server_inv w1"
    using CreateRoom_run [OF inv None] by blast
  have "server_inv w'" using mwpD [OF ChangePersonStatus_keeps [OF run(3), unfolded keeps_def] run(2)] by simp
  then show ?thesis using run(1) by (simp add: keeps_inv_def mwp_def)
next
  case (Some r)
  then show ?thesis using inv by (simp add: CreateRoom_def)
qed

lemma CSCreateRoom_safe:
  assumes inv: "server_inv w"
  shows "safe (CSCreateRoom_ProcessRequest ext u mess) w"
  unfolding CSCreateRoom_ProcessRequest_def Let_def
  by (auto intro!: safe_bind [OF keeps_inv_safe [OF CreateRoom_inv [OF inv]]] safe_seq safe_bind_detail
      keeps_safe [OF to_client_keeps])

lemma CSJoinRoom_safe:
  assumes inv: "server_inv w"
  shows "safe (CSJoinRoom_ProcessRequest ext u mess) w"
proof -
  have room: "safe (mbind (GetRoomByRoomID k) (\<lambda>room. case room of None \<Rightarrow> mfault NullDeref
      | Some r \<Rightarrow> mseq (to_everyone ext r m) (mreturn success))) w'" if "server_inv w'" for k m w'
    using that listed_good [OF that]
    by (auto simp: GetRoomByRoomID_def crash_def split: option.split intro!: keeps_safe keeps_seq dc.everyone_keeps)
  show ?thesis
    unfolding CSJoinRoom_ProcessRequest_def Let_def
    by (auto intro!: safe_bind [OF keeps_inv_safe [OF JoinRoom_inv [OF inv]]] safe_seq safe_bind_detail room
        keeps_safe [OF to_client_keeps])
qed

lemma CSPlayerExitRoom_safe:
  assumes inv: "server_inv w"
  shows "safe (CSPlayerExitRoom_ProcessRequest ext u mess) w"
proof (cases "m_find (belong_room w) u")
  case None
  then show ?thesis by (simp add: CSPlayerExitRoom_ProcessRequest_def GetRoomByUserID_def crash_def)
next
  case (Some r)
  note g = belong_good [OF inv Some]
  have "keeps (mbind (if b then mbind (DeletePlayerFromRoom (x_ser ext) (x_del ext) u) (\<lambda>ret. mreturn (if ret = success then 1 else 0))
      else mreturn 0) (\<lambda>result. mseq (to_everyone ext r (mk_message (-1) (pb_set (pb_new SCPlayerExitRoom) 1 (VInt result))))
           (mreturn success))) w" for b
    using inv by (intro keeps_bind keeps_seq dc.everyone_keeps)
      (auto intro!: keeps_bind dc.DeletePlayerFromRoom_keeps room_later [OF g])
  then show ?thesis
    using Some goodD(3) [OF g]
    by (simp add: CSPlayerExitRoom_ProcessRequest_def GetRoomByUserID_def safe_bind_read Room_GetGameStatus_def
        run_simps keeps_safe del: if_split)
qed

section \<open>Loading, start and end of the game\<close>

lemma CSReadyToStart_safe:
  assumes inv: "server_inv w"
  shows "safe (CSReadyToStart_ProcessRequest ext u mess) w"
proof (cases "m_find (belong_room w) u")
  case None
  then show ?thesis using inv by (simp add: CSReadyToStart_ProcessRequest_def GetRoomByUserID_def)
next
  case (Some r)
  note g = belong_good [OF inv Some]
  obtain pos where pos: "Room_GetPlayerID u (room_heap w ! r) = Inr (pos, room_heap w ! r)"
    using GetPlayerID_pos [OF g] by blast
  have "safe (mseq (Room_SendGameLoading (x_ser ext) (x_del ext) r) (mreturn success)) w"
    by (rule safe_seq [OF keeps_inv_safe [OF dc.SendGameLoading_inv [OF g]]]) simp
  then show ?thesis
    using Some pos inv goodD(3) [OF g] by (simp add: CSReadyToStart_ProcessRequest_def GetRoomByUserID_def safe_bind_read)
qed

lemma AddLoadingSucceed_keeps:
  assumes g: "room_ok r w"
  shows "keeps (Room_AddLoadingSucceed ser (DeleteClientByFD ser) r u) w"
proof -
  note wf = goodD(4) [OF g]
  obtain pos where pos: "Room_GetPlayerID u (room_heap w ! r) = Inr (pos, room_heap w ! r)" "0 \<le> pos" "pos \<le> 8"
    using GetPlayerID_pos [OF g] by blast
  let ?mark = "mbind (Room_GetPlayerID u) (\<lambda>pos.
       if pos = 0 then mreturn 0
       else mbind (rd_at m_is_loading_succeed pos) (\<lambda>loaded.
         if loaded then mreturn 0
         else
           mseq (set_loaded pos True) (
           mseq (mmodify (\<lambda>rm. rm\<lparr>m_loading_succeed_cnt := m_loading_succeed_cnt rm + 1\<rparr>))
             (mgets (\<lambda>rm. if m_loading_succeed_cnt rm \<ge> m_online_player_cnt rm then (1 :: int32) else 0)))))"
  have "keeps (on_room r ?mark) w"
    using pos wf good_members [OF g] room_wf_lengths [OF wf]
    by (intro keeps_on_room goodD [OF g])
      (auto simp: mwp_def run_simps room_wf_def in_room_def player_at_def)
  moreover have "keeps (mseq (DeletePlayerFromRoom ser (DeleteClientByFD ser) u) (mreturn (0 :: int32))) w"
    using goodD(1) [OF g] by (auto intro!: keeps_seq dc.DeletePlayerFromRoom_keeps)
  ultimately show ?thesis
    using goodD(3) [OF g] by (simp add: Room_AddLoadingSucceed_def keeps_bind_read Room_GetGameStatus_def run_simps)
qed

lemma CSLoadSucceed_safe:
  assumes inv: "server_inv w"
  shows "safe (CSLoadSucceed_ProcessRequest ext u mess) w"
proof (cases "m_find (belong_room w) u")
  case None
  then show ?thesis using inv by (simp add: CSLoadSucceed_ProcessRequest_def GetRoomByUserID_def)
next
  case (Some r)
  note g = belong_good [OF inv Some]
  have "keeps (mbind (Room_AddLoadingSucceed (x_ser ext) (x_del ext) r u) (\<lambda>all.
      if all \<noteq> 0 then Room_SendGameStart (x_ser ext) (x_del ext) r else mreturn ())) w"
    by (rule keeps_bind [OF AddLoadingSucceed_keeps [OF g]]) (auto intro!: dc.SendGameStart_keeps room_later [OF g])
  then show ?thesis
    using Some inv goodD(3) [OF g]
    by (auto simp: CSLoadSucceed_ProcessRequest_def GetRoomByUserID_def safe_bind_read Room_GetGameStatus_def run_simps
        intro!: keeps_safe keeps_seq)
qed

lemma GameEndFromRoom_inv:
  assumes inv: "server_inv w"
  shows "keeps_inv (GameEndFromRoom u) w"
proof (cases "m_find (belong_room w) u")
  case None
  then show ?thesis using inv by (simp add: GameEndFromRoom_def)
next
  case (Some r)
  let ?w = "w\<lparr>belong_room := m_erase (belong_room w) u\<rparr>"
  have inv': "server_inv ?w"
    using inv by (simp add: server_inv_def rooms_inv_def hb_inv_def conn_inv_def split: if_splits)
  have g: "room_ok r ?w" using inv' belong_good [OF inv Some] by (simp add: good_def)
  obtain pos where pos: "Room_GetPlayerID u (room_heap ?w ! r) = Inr (pos, room_heap ?w ! r)" "0 \<le> pos"
    "pos \<noteq> 0 \<Longrightarrow> pos \<le> m_player_cnt (room_heap ?w ! r) \<and> player_at (room_heap ?w ! r) u pos"
    using GetPlayerID_pos [OF g] by blast
  have "keeps (mseq (on_room r (Room_set_offline pos)) (
      mseq (PersonManager_ChangePersonStatus u person_in_hall) (mreturn success))) ?w"
    if "pos \<noteq> 0" "m_status (room_heap ?w ! r) = room_status_ingame"
    using dc.set_offline_keeps [OF g, of u pos] pos that
    by (auto intro!: keeps_seq ChangePersonStatus_keeps)
  then have "keeps (Room_GameEnd r u) ?w"
    using pos inv' goodD(3) [OF g]
    by (auto simp: Room_GameEnd_def keeps_bind_read Room_GetGameStatus_def run_simps)
  then show ?thesis using Some keeps_imp_inv by (simp add: GameEndFromRoom_def keeps_inv_def wp_simps)
qed

lemma CSGameEnd_safe:
  assumes inv: "server_inv w"
  shows "safe (CSGameEnd_ProcessRequest ext u mess) w"
proof (cases "m_find (belong_room w) u")
  case None
  then show ?thesis using inv by (simp add: CSGameEnd_ProcessRequest_def GetRoomByUserID_def)
next
  case (Some r)
  have "safe (mseq (to_client ext u (mk_message f (pb_new SCGameEnd))) (mseq (GameEndFromRoom u) (mreturn (1 :: int32)))) w'"
    if "server_inv w'" for f w'
    using that by (auto intro!: safe_seq keeps_safe [OF to_client_keeps] keeps_inv_safe [OF GameEndFromRoom_inv])
  then have "safe (mbind (on_syn r SYN_GetNowFrame) (\<lambda>f. mseq (to_client ext u (mk_message f (pb_new SCGameEnd)))
      (mseq (GameEndFromRoom u) (mreturn (1 :: int32))))) w"
    by (rule steps_bind [OF GetNowFrame_steps [OF belong_good [OF inv Some]]])
  then show ?thesis
    using Some by (simp add: CSGameEnd_ProcessRequest_def GetRoomByUserID_def)
qed

end
