(* ===== verification/Server_Proofs.thy ===== *)
theory Server_Proofs
  imports Handler_Proofs
begin

text \<open>
  Heartbeats, logins, new connections, the event loop and the main program.
\<close>

section \<open>Heartbeats\<close>

definition os_sec :: "os \<Rightarrow> int32" where
  "os_sec o1 = to_int32 (fst (os_time o1 (os_time_pos o1)))"

lemma GetNowTimeSecond_run: "GetNowTimeSecond o1 = Inr (os_sec o1, os_tick o1)"
  by (simp add: GetNowTimeSecond_def sys_gettimeofday_def run_simps os_sec_def os_tick_def split: prod.split)

lemma hb_stamp_run:
  "hb_stamp fd w = Inr ((), w\<lparr>w_os := os_tick (w_os w), m_sec_fd := s_insert (m_sec_fd w) (os_sec (w_os w), fd),
     m_fd_to_sec := m_insert (m_fd_to_sec w) fd (os_sec (w_os w))\<rparr>)"
  by (simp add: hb_stamp_def run_simps world_os_def GetNowTimeSecond_run)

text \<open>Entering a connection that has no entry restores the table.\<close>

lemma hb_stamp_inv:
  assumes "rooms_inv w" "conn_inv w" "m_ok (m_fd_to_sec w)" "sorted_wrt (<) (m_sec_fd w)"
    and "set (m_sec_fd w) = {(sec, fd). m_find (m_fd_to_sec w) fd = Some sec}"
    and "m_find (m_fd_to_sec w) fd = None"
    and "dom (m_find (m_fd_to_sec w)) = dom (m_find (m_connects w)) - {fd}" and "m_find (m_connects w) fd \<noteq> None"
  shows "keeps_inv (hb_stamp fd) w"
proof -
  have "hb_inv (w\<lparr>w_os := os_tick (w_os w), m_sec_fd := s_insert (m_sec_fd w) (os_sec (w_os w), fd),
     m_fd_to_sec := m_insert (m_fd_to_sec w) fd (os_sec (w_os w))\<rparr>)"
    using assms(3-8) by (auto simp: hb_inv_def sorted_s_insert split: if_splits)
  then show ?thesis
    using assms(1,2) by (simp add: keeps_inv_def mwp_def hb_stamp_run server_inv_def rooms_inv_def conn_inv_def)
qed

lemma UpdateFD_inv:
  assumes inv: "server_inv w"
  shows "keeps_inv (Heartbeat_UpdateFD fd) w"
proof (cases "m_find (m_fd_to_sec w) fd")
  case None
  then show ?thesis using inv by (simp add: keeps_inv_def mwp_def Heartbeat_UpdateFD_def Heartbeat_DeleteFD_def run_simps)
next
  case (Some sec)
  let ?w = "w\<lparr>m_sec_fd := s_erase (m_sec_fd w) (sec, fd), m_fd_to_sec := m_erase (m_fd_to_sec w) fd\<rparr>"
  have hb: "hb_inv w" using inv by (simp add: server_inv_def)
  then have mem: "(sec, fd) \<in> set (m_sec_fd w)" using Some by (simp add: hb_inv_def)
  have conn: "m_find (m_connects w) fd \<noteq> None" using hb Some by (auto simp: hb_inv_def)
  have "keeps_inv (hb_stamp fd) ?w"
    using inv hb Some conn
    by (intro hb_stamp_inv) (auto simp: server_inv_def rooms_inv_def conn_inv_def hb_inv_def sorted_s_erase split: if_splits)
  then show ?thesis
    using Some mem by (simp add: keeps_inv_def mwp_def Heartbeat_UpdateFD_def Heartbeat_DeleteFD_def run_simps)
qed

lemma later_entries:
  assumes "server_inv w" "server_inv w'" "later w w'"
  shows "set (m_sec_fd w') \<subseteq> set (m_sec_fd w)"
proof
  fix e
  assume e: "e \<in> set (m_sec_fd w')"
  obtain sec fd where s: "e = (sec, fd)" by (cases e)
  then have "m_find (m_fd_to_sec w') fd = Some sec" using e assms(2) by (simp add: server_inv_def hb_inv_def)
  then have "m_find (m_fd_to_sec w) fd = Some sec" using laterD(3) [OF assms(3)] by (metis domI map_le_def)
  then show "e \<in> set (m_sec_fd w)" using s assms(1) by (simp add: server_inv_def hb_inv_def)
qed

lemma s_next_Some: "sorted_wrt (<) s \<Longrightarrow> s_next s p = Some q \<Longrightarrow> q \<in> set s \<and> p < q \<and> (\<forall>x\<in>set s. p < x \<longrightarrow> q \<le> x)"
  by (induction s p rule: s_next.induct) (auto split: if_splits)

lemma s_next_None: "s_next s p = None \<Longrightarrow> x \<in> set s \<Longrightarrow> x \<le> p"
  by (induction s p rule: s_next.induct) (auto split: if_splits)

section \<open>Removing a client\<close>

lemma DeleteClient_keeps: "server_inv w \<Longrightarrow> keeps (DeleteClientByFD ser fd) w"
  by (simp add: dc.del_keeps)

lemma DeleteClient_gone:
  assumes inv: "server_inv w" and run: "DeleteClientByFD ser fd w = Inr (x, w')"
  shows "m_find (m_connects w') fd = None"
proof (cases "m_find (m_connects w) fd")
  case None
  then show ?thesis
    using run unfolding DeleteClientByFD_unfold [of ser fd] by (simp add: DeleteClientByFD_body_def run_simps)
next
  case (Some s)
  obtain sec o1 where drop: "drop_connection fd w =
    Inr ((), w\<lparr>m_sec_fd := s_erase (m_sec_fd w) (sec, fd), m_fd_to_sec := m_erase (m_fd_to_sec w) fd,
      m_connects := m_erase (m_connects w) fd, free_conns := free_conns w @ [s\<lparr>m_is_using := False\<rparr>], w_os := o1\<rparr>)"
    (is "_ = Inr ((), ?w)")
    using drop_connection_eq [OF inv Some] by blast
  have inv1: "server_inv ?w" using drop_connection_keeps [OF inv Some] drop by (simp add: keeps_def mwp_def)
  have "w' = ?w \<or> (\<exists>u r. PlayerLogout ser (DeleteClientByFD ser) u ?w = Inr (r, w'))"
    using run Some drop unfolding DeleteClientByFD_unfold [of ser fd]
    by (auto simp: DeleteClientByFD_body_def run_simps split: option.splits sum.splits)
  then have "later ?w w'"
    using mwpD [OF dc.PlayerLogout_keeps [OF inv1, unfolded keeps_def]] by fastforce
  then show ?thesis using laterD(2) by fastforce
qed

section \<open>The tick of the heartbeat\<close>

text \<open>
  The loop visits entries in order of time. \<open>it\<close> is at or before every remaining entry; when the
  loop ends no entry is older than 40 seconds.
\<close>

lemma hb_tick_loop_ok:
  assumes "server_inv w" and "\<And>p. it = Some p \<Longrightarrow> card {x \<in> set (m_sec_fd w). p \<le> x} < k" and "it = None \<Longrightarrow> 0 < k"
    and "\<And>x. x \<in> set (m_sec_fd w) \<Longrightarrow> \<exists>p. it = Some p \<and> p \<le> x"
  shows "mwp (hb_tick_loop (DeleteClientByFD ser) now k it)
    (\<lambda>_ w'. (server_inv w' \<and> later w w') \<and> (\<forall>(sec, fd)\<in>set (m_sec_fd w'). now - sec \<le> 40)) crash w"
  using assms
proof (induction k arbitrary: w it)
  case 0
  then show ?case by (cases it) auto
next
  case (Suc k)
  show ?case
  proof (cases it)
    case None
    then show ?thesis using Suc.prems(1,4) by (auto simp: wp_simps)
  next
    case (Some p)
    obtain sec fd where p: "p = (sec, fd)" by (cases p)
    let ?s = "m_sec_fd w"
    have sorted: "sorted_wrt (<) ?s" using Suc.prems(1) by (simp add: server_inv_def hb_inv_def)
    show ?thesis
    proof (cases "p \<in> set ?s \<and> now - sec > 40")
      case True
      have "mwp (hb_tick_loop (DeleteClientByFD ser) now k (s_next ?s p))
          (\<lambda>_ w'. (server_inv w' \<and> later w w') \<and> (\<forall>(sec, fd)\<in>set (m_sec_fd w'). now - sec \<le> 40)) crash w'"
        if run: "DeleteClientByFD ser fd w = Inr (u, w')" and inv: "server_inv w'" and l: "later w w'" for u w'
      proof -
        have sub: "set (m_sec_fd w') \<subseteq> set ?s" using later_entries [OF Suc.prems(1) inv l] .
        have gone: "(sec', fd) \<notin> set (m_sec_fd w')" for sec'
          using DeleteClient_gone [OF Suc.prems(1) run] inv by (auto simp: server_inv_def hb_inv_def)
        have rest: "p < x" if "x \<in> set (m_sec_fd w')" for x
        proof -
          have "p \<le> x" using that sub Suc.prems(4) [of x] Some by auto
          moreover have "x \<noteq> p" using that gone [of sec] p by auto
          ultimately show ?thesis by simp
        qed
        have fewer: "card {x \<in> set (m_sec_fd w'). q \<le> x} < k" if "s_next ?s p = Some q" for q
        proof -
          have "{x \<in> set (m_sec_fd w'). q \<le> x} \<subseteq> {x \<in> set ?s. p \<le> x} - {p}"
          proof
            fix x
            assume "x \<in> {x \<in> set (m_sec_fd w'). q \<le> x}"
            then have x: "x \<in> set ?s" "p < x" using sub rest by blast+
            have "p \<le> x" "x \<noteq> p" using x(2) by (blast intro: order.strict_implies_order)+
            with x show "x \<in> {x \<in> set ?s. p \<le> x} - {p}" by simp
          qed
          moreover have "p \<in> {x \<in> set ?s. p \<le> x}" using True by simp
          ultimately have "card {x \<in> set (m_sec_fd w'). q \<le> x} < card {x \<in> set ?s. p \<le> x}"
            by (intro psubset_card_mono) auto
          then show ?thesis using Suc.prems(2) [OF Some] by simp
        qed
        have pos: "0 < k"
        proof -
          have "p \<in> {x \<in> set ?s. p \<le> x}" using True by simp
          then have "{x \<in> set ?s. p \<le> x} \<noteq> {}" by blast
          then have "0 < card {x \<in> set ?s. p \<le> x}" by (simp add: card_gt_0_iff)
          then show ?thesis using Suc.prems(2) [OF Some] by simp
        qed
        have before: "\<exists>q. s_next ?s p = Some q \<and> q \<le> x" if x: "x \<in> set (m_sec_fd w')" for x
        proof (cases "s_next ?s p")
          case None
          then show ?thesis using s_next_None [OF None, of x] rest [OF x] sub x by fastforce
        next
          case (Some q)
          then show ?thesis using s_next_Some [OF sorted Some] rest [OF x] sub x by blast
        qed
        have "mwp (hb_tick_loop (DeleteClientByFD ser) now k (s_next ?s p))
          (\<lambda>_ w''. (server_inv w'' \<and> later w' w'') \<and> (\<forall>(sec, fd)\<in>set (m_sec_fd w''). now - sec \<le> 40)) crash w'"
          by (rule Suc.IH [OF inv fewer pos before])
        then show ?thesis by (rule mwp_mono) (auto intro: later_trans [OF l])
      qed
      then have "mwp (mseq (DeleteClientByFD ser fd) (hb_tick_loop (DeleteClientByFD ser) now k (s_next ?s p)))
          (\<lambda>_ w'. (server_inv w' \<and> later w w') \<and> (\<forall>(sec, fd)\<in>set (m_sec_fd w'). now - sec \<le> 40)) crash w"
        using DeleteClient_keeps [OF Suc.prems(1), of ser fd] unfolding mwp_seq
        by (cases "DeleteClientByFD ser fd w") (auto simp: keeps_def mwp_def [of "DeleteClientByFD ser fd"] crash_def)
      then show ?thesis using True Some p by (simp add: mwp_bind mwp_gets)
    next
      case False
      have "now - sec' \<le> 40" if "p \<in> set ?s" "(sec', fd') \<in> set ?s" for sec' fd'
        using False that Suc.prems(4) [OF that(2)] Some p by (auto simp: less_eq_prod_def)
      then show ?thesis using False Some p Suc.prems(1) by (auto simp: wp_simps crash_def)
    qed
  qed
qed

lemma Heartbeat_OnTick_ok:
  assumes inv: "server_inv w"
  shows "mwp (Heartbeat_OnTick (DeleteClientByFD ser) now)
    (\<lambda>_ w'. (server_inv w' \<and> later w w') \<and> (\<forall>(sec, fd)\<in>set (m_sec_fd w'). now - sec \<le> 40)) crash w"
proof -
  have sorted: "sorted_wrt (<) (m_sec_fd w)" using inv by (simp add: server_inv_def hb_inv_def)
  have "card {x \<in> set (m_sec_fd w). p \<le> x} \<le> length (m_sec_fd w)" for p
    using card_mono [of "set (m_sec_fd w)" "{x \<in> set (m_sec_fd w). p \<le> x}"] card_length [of "m_sec_fd w"] by auto
  moreover have "\<exists>p. s_begin (m_sec_fd w) = Some p \<and> p \<le> x" if "x \<in> set (m_sec_fd w)" for x
    using that sorted by (cases "m_sec_fd w") (auto simp: s_begin_def less_imp_le)
  ultimately have "mwp (hb_tick_loop (DeleteClientByFD ser) now (Suc (length (m_sec_fd w))) (s_begin (m_sec_fd w)))
    (\<lambda>_ w'. (server_inv w' \<and> later w w') \<and> (\<forall>(sec, fd)\<in>set (m_sec_fd w'). now - sec \<le> 40)) crash w"
    using inv by (intro hb_tick_loop_ok) (simp_all add: le_imp_less_Suc)
  then show ?thesis by (simp add: Heartbeat_OnTick_def mwp_bind mwp_gets)
qed

end
