(* ===== verification/Framing.thy ===== *)
theory Framing
  imports Tcp_Stream
begin

text \<open>
  Cutting the receive stream into messages: \<^verbatim>\<open>get_one_message\<close> against a specification on byte
  strings, the loop that calls it until it fails, and the theorem that the messages handed out
  are the ones that were sent, in order, however the network chops the stream and however
  receiving and cutting interleave.
\<close>

section \<open>The loop over \<^verbatim>\<open>get_one_message\<close>\<close>

text \<open>
  The loop of \<^verbatim>\<open>MessageHandler::ReceiveMessage\<close> reduced to what it does to the socket: the
  frames it hands to the parser, in order.
\<close>

function pull_frames ::
  "int32 \<Rightarrow> byte list \<Rightarrow> int32 \<Rightarrow> (tcp_socket, byte list list) mon"
where
  "pull_frames mx out sz s =
     (case TcpSocket_get_one_message (Some out) mx sz s of
        Inl e \<Rightarrow> Inl e
      | Inr ((r, data, n), s') \<Rightarrow>
          (case data of
             None \<Rightarrow> Inr ([], s')
           | Some out' \<Rightarrow>
               if r = success then
                 (case pull_frames mx out' n s' of
                    Inl e \<Rightarrow> Inl e
                  | Inr (fs, s'') \<Rightarrow> Inr (take (nat n) out' # fs, s''))
               else Inr ([], s')))"
  by pat_completeness auto
termination
proof (relation "measure (\<lambda>(mx, out, sz, s). nat (m_recv_tail s - m_recv_head s))")
  fix mx out sz s r data n s' out' p q u
  assume "TcpSocket_get_one_message (Some out) mx sz s = Inr p" "(q, s') = p" "(r, u) = q"
    "(data, n) = u" "data = Some out'" "r = success"
  then have "TcpSocket_get_one_message (Some out) mx sz s = Inr ((success, Some out', n), s')"
    by auto
  then show "((mx, out', n, s'), mx, out, sz, s) \<in> measure (\<lambda>(mx, out, sz, s). nat (m_recv_tail s - m_recv_head s))"
    by (auto simp: TcpSocket_get_one_message_def recv_advance_def Let_def split: sum.splits if_splits)
qed auto

declare pull_frames.simps [simp del]

section \<open>Specification on byte strings\<close>

definition frame_size :: "byte list \<Rightarrow> int" where
  "frame_size bs = (case Append_ntohl bs of Inl _ \<Rightarrow> 0 | Inr w \<Rightarrow> sint w)"

definition complete :: "int \<Rightarrow> byte list \<Rightarrow> bool" where
  "complete mx bs \<longleftrightarrow>
     4 < length bs \<and> 0 < frame_size bs \<and> frame_size bs \<le> int (length bs) \<and> frame_size bs \<le> mx"

function frames_of :: "int \<Rightarrow> byte list \<Rightarrow> byte list list \<times> byte list" where
  "frames_of mx bs =
     (if complete mx bs
      then (case frames_of mx (drop (nat (frame_size bs)) bs) of
              (fs, r) \<Rightarrow> (take (nat (frame_size bs)) bs # fs, r))
      else ([], bs))"
  by pat_completeness auto
termination
  by (relation "measure (\<lambda>(mx, bs). length bs)") (auto simp: complete_def)

declare frames_of.simps [simp del]

lemma frames_of_incomplete: "\<not> complete mx bs \<Longrightarrow> frames_of mx bs = ([], bs)"
  by (simp add: frames_of.simps)

lemma frame_size_append: "4 \<le> length bs \<Longrightarrow> frame_size (bs @ ext) = frame_size bs"
  by (cases bs rule: Append_ntohl.cases) (simp_all add: frame_size_def)

lemma frame_size_take: "4 \<le> length bs \<Longrightarrow> frame_size (take 4 bs) = frame_size bs"
  using frame_size_append [of "take 4 bs" "drop 4 bs"] by simp

lemma complete_append: "complete mx bs \<Longrightarrow> complete mx (bs @ ext)"
  by (auto simp: complete_def frame_size_append)

text \<open>More input never changes the frames already complete.\<close>

lemma frames_of_append:
  "frames_of mx (a @ b) =
    (fst (frames_of mx a) @ fst (frames_of mx (snd (frames_of mx a) @ b)),
     snd (frames_of mx (snd (frames_of mx a) @ b)))"
proof (induction mx a rule: frames_of.induct)
  case (1 mx a)
  show ?case
  proof (cases "complete mx a")
    case True
    let ?n = "nat (frame_size a)"
    have fs: "frame_size (a @ b) = frame_size a" and n: "?n \<le> length a"
      using True by (auto simp: complete_def frame_size_append)
    have "frames_of mx (a @ b) = (take ?n a # fst (frames_of mx (drop ?n a @ b)), snd (frames_of mx (drop ?n a @ b)))"
      using complete_append [OF True, of b] n
      by (simp add: frames_of.simps [of mx "a @ b"] fs split: prod.splits)
    then show ?thesis
      using "1.IH" [OF True] True by (simp add: frames_of.simps [of mx a] split: prod.splits)
  next
    case False
    then show ?thesis by (simp add: frames_of_incomplete)
  qed
qed

section \<open>The socket implements the specification\<close>

lemma Append_ntohl_take: "4 \<le> length bs \<Longrightarrow> Append_ntohl (take 4 bs) = Append_ntohl bs"
  by (cases bs rule: Append_ntohl.cases) auto

lemma Append_ntohl_total: "4 \<le> length bs \<Longrightarrow> \<exists>w. Append_ntohl bs = Inr w \<and> frame_size bs = sint w"
  by (cases bs rule: Append_ntohl.cases) (auto simp: frame_size_def)

lemma unread_read:
  "sock_wf s \<Longrightarrow> 0 \<le> n \<Longrightarrow> n \<le> int (length (unread s))
    \<Longrightarrow> mem_read (m_recv_buffer s) (m_recv_head s) n = Inr (take (nat n) (unread s))"
  using length_unread [of s]
  by (auto simp: unread_def sock_wf_def intro: window_prefix_read)

lemma get_one_message_eq:
  assumes wf: "sock_wf s" and cap: "mx \<le> int (length out)"
  shows "TcpSocket_get_one_message (Some out) mx sz s =
    (if complete mx (unread s)
     then Inr ((success, Some (take (nat (frame_size (unread s))) (unread s) @ drop (nat (frame_size (unread s))) out),
       frame_size (unread s)), recv_advance s (frame_size (unread s)))
     else Inr ((if 4 < length (unread s) \<and> frame_size (unread s) \<le> 0 then err else fail, Some out, sz), s))"
proof (cases "4 < length (unread s)")
  case False
  then show ?thesis
    using length_unread [OF wf] by (simp add: TcpSocket_get_one_message_def complete_def)
next
  case True
  obtain w where w: "Append_ntohl (unread s) = Inr w" "frame_size (unread s) = sint w"
    using Append_ntohl_total [of "unread s"] True by auto
  have rd4: "mem_read (m_recv_buffer s) (m_recv_head s) 4 = Inr (take 4 (unread s))"
    using unread_read [OF wf, of 4] True by simp
  have nt: "Append_ntohl (take 4 (unread s)) = Inr w"
    using w Append_ntohl_take [of "unread s"] True by simp
  have "mem_read (m_recv_buffer s) (m_recv_head s) (sint w) = Inr (take (nat (sint w)) (unread s))"
    if "0 < sint w" "sint w \<le> int (length (unread s))"
    using unread_read [OF wf, of "sint w"] that by simp
  then show ?thesis
    using True rd4 nt w(2) length_unread [OF wf] cap
    by (auto simp: TcpSocket_get_one_message_def complete_def Let_def mem_write_def)
qed

lemma pull_frames_eq:
  "sock_wf s \<Longrightarrow> mx \<le> int (length out) \<Longrightarrow>
    \<exists>s'. pull_frames mx out sz s = Inr (fst (frames_of mx (unread s)), s') \<and> sock_wf s'
      \<and> unread s' = snd (frames_of mx (unread s)) \<and> pending s' = pending s
      \<and> m_iSockfd s' = m_iSockfd s \<and> m_is_using s' = m_is_using s"
proof (induction mx out sz s rule: pull_frames.induct)
  case (1 mx out sz s)
  show ?case
  proof (cases "complete mx (unread s)")
    case False
    then show ?thesis
      using "1.prems" by (simp add: pull_frames.simps [of mx out sz s] get_one_message_eq frames_of_incomplete)
  next
    case True
    let ?n = "frame_size (unread s)"
    let ?out = "take (nat ?n) (unread s) @ drop (nat ?n) out"
    let ?s = "recv_advance s ?n"
    have n: "0 < ?n" "?n \<le> int (length (unread s))" "?n \<le> mx" using True by (auto simp: complete_def)
    have g: "TcpSocket_get_one_message (Some out) mx sz s = Inr ((success, Some ?out, ?n), ?s)"
      using get_one_message_eq [OF "1.prems", of sz] True by simp
    have adv: "sock_wf ?s" "unread ?s = drop (nat ?n) (unread s)"
      using rx.advance_ok [OF "1.prems"(1), of ?n] n by auto
    have "mx \<le> int (length ?out)" using n "1.prems"(2) by auto
    then obtain s' where s': "pull_frames mx ?out ?n ?s = Inr (fst (frames_of mx (unread ?s)), s')"
      "sock_wf s'" "unread s' = snd (frames_of mx (unread ?s))" "pending s' = pending ?s"
      "m_iSockfd s' = m_iSockfd ?s" "m_is_using s' = m_is_using ?s"
      using "1.IH" [OF g refl refl refl refl refl adv(1)] by auto
    have "pull_frames mx out sz s = Inr (take (nat ?n) (unread s) # fst (frames_of mx (unread ?s)), s')"
      using g s'(1) n by (simp add: pull_frames.simps [of mx out sz s])
    then show ?thesis
      using s' adv True
      by (auto simp: frames_of.simps [of mx "unread s"] recv_advance_def pending_def split: prod.splits)
  qed
qed

lemma frames_of_rest: "\<not> complete mx (snd (frames_of mx bs))"
  by (induction mx bs rule: frames_of.induct) (subst frames_of.simps, auto split: prod.splits)

lemma frames_of_idem: "frames_of mx (snd (frames_of mx bs)) = ([], snd (frames_of mx bs))"
  by (simp add: frames_of_incomplete frames_of_rest)

text \<open>A frame that announces its own length.\<close>

definition valid_frame :: "int \<Rightarrow> byte list \<Rightarrow> bool" where
  "valid_frame mx f \<longleftrightarrow> 4 < length f \<and> frame_size f = int (length f) \<and> int (length f) \<le> mx"

lemma frames_of_concat: "(\<forall>f\<in>set fs. valid_frame mx f) \<Longrightarrow> frames_of mx (concat fs) = (fs, [])"
proof (induction fs)
  case Nil
  show ?case by (simp add: frames_of.simps complete_def)
next
  case (Cons f fs)
  then have f: "valid_frame mx f" by simp
  then have "frame_size (f @ concat fs) = int (length f)" "complete mx (f @ concat fs)"
    by (auto simp: valid_frame_def complete_def frame_size_append)
  then show ?case
    using Cons by (simp add: frames_of.simps [of mx "f @ concat fs"])
qed

lemma message_bytes_valid:
  assumes "m_proto m = Some p" and "int (length (message_bytes ser m)) \<le> mx" and "mx < 2 ^ 31"
  shows "valid_frame mx (message_bytes ser m)"
proof -
  let ?n = "length (ser p) + 16"
  have "frame_size (message_bytes ser m) = sint (of_nat ?n :: 32 word)"
    using assms(1) by (simp add: frame_size_def message_bytes_def head_bytes_def stamped_def)
  also have "\<dots> = int ?n"
    using assms length_message_bytes [OF assms(1), of ser]
    by (intro signed_of_nat [THEN trans]) (simp add: signed_take_bit_int_eq_self)
  finally show ?thesis
    using assms length_message_bytes [OF assms(1), of ser] by (simp add: valid_frame_def)
qed

section \<open>Sessions\<close>

text \<open>
  Any interleaving of \<^verbatim>\<open>RecvData\<close> and the cutting loop on one connection. \<open>fs\<close> are the frames
  handed out so far.
\<close>

inductive rx_session :: "int32 \<Rightarrow> sock_os \<Rightarrow> byte list list \<Rightarrow> sock_os \<Rightarrow> bool" for mx so0 where
  start: "rx_session mx so0 [] so0"
| receive: "rx_session mx so0 fs so \<Longrightarrow> TcpSocket_RecvData so = Inr (r, so') \<Longrightarrow> rx_session mx so0 fs so'"
| cut: "rx_session mx so0 fs (s, o1) \<Longrightarrow> mx \<le> int (length out) \<Longrightarrow>
    pull_frames mx out sz s = Inr (fs', s') \<Longrightarrow> rx_session mx so0 (fs @ fs') (s', o1)"

inductive_cases rx_session_elim: "rx_session mx so0 fs so"

lemma RecvData_rx:
  assumes "sock_wf s" and "TcpSocket_RecvData (s, o1) = Inr (r, s', o2)"
  shows "sock_wf s' \<and> m_iSockfd s' = m_iSockfd s \<and> (\<exists>bs. unread s' = unread s @ bs
    \<and> heard_of (m_iSockfd s) (os_trace o2) = heard_of (m_iSockfd s) (os_trace o1) @ bs)"
proof (cases "m_is_using s")
  case True
  let ?s0 = "if m_recv_tail s = m_recv_head s then s\<lparr>m_recv_head := 0, m_recv_tail := 0\<rparr> else s"
  have wf0: "sock_wf ?s0" "unread ?s0 = unread s" "m_iSockfd ?s0 = m_iSockfd s"
    using assms by (auto simp: sock_wf_def unread_def window_def)
  have "recv_loop (?s0, o1) = Inr (r, s', o2)"
    using assms(2) True by (auto simp: TcpSocket_RecvData_def run_simps split: if_splits)
  then have "rx_ext (?s0, o1) (s', o2)"
    using recv_loop_ok [of "(?s0, o1)"] wf0(1) by (auto dest: mwpD)
  then show ?thesis using wf0 by (auto simp: rx_ext_def)
next
  case False
  then show ?thesis using assms by (simp add: TcpSocket_RecvData_def run_simps)
qed

lemma rx_session_inv:
  assumes "rx_session mx so0 fs so" and "sock_wf (fst so0)"
  shows "sock_wf (fst so) \<and> m_iSockfd (fst so) = m_iSockfd (fst so0)
    \<and> (\<exists>hs. heard_of (m_iSockfd (fst so0)) (os_trace (snd so)) =
          heard_of (m_iSockfd (fst so0)) (os_trace (snd so0)) @ hs
        \<and> frames_of mx (unread (fst so0) @ hs) =
          (fs @ fst (frames_of mx (unread (fst so))), snd (frames_of mx (unread (fst so)))))"
  using assms
proof (induction rule: rx_session.induct)
  case start
  then show ?case by simp
next
  case (receive fs so r so')
  obtain s o1 s' o2 where so: "so = (s, o1)" "so' = (s', o2)" by (cases so, cases so')
  from receive obtain hs where hs: "sock_wf s" "m_iSockfd s = m_iSockfd (fst so0)"
    "heard_of (m_iSockfd (fst so0)) (os_trace o1) = heard_of (m_iSockfd (fst so0)) (os_trace (snd so0)) @ hs"
    "frames_of mx (unread (fst so0) @ hs) = (fs @ fst (frames_of mx (unread s)), snd (frames_of mx (unread s)))"
    by (auto simp: so)
  obtain bs where bs: "sock_wf s'" "m_iSockfd s' = m_iSockfd s" "unread s' = unread s @ bs"
    "heard_of (m_iSockfd s) (os_trace o2) = heard_of (m_iSockfd s) (os_trace o1) @ bs"
    using RecvData_rx [of s o1 r s' o2] hs(1) receive(2) so by auto
  have "frames_of mx (unread (fst so0) @ (hs @ bs)) =
      (fs @ fst (frames_of mx (unread s')), snd (frames_of mx (unread s')))"
    using frames_of_append [of mx "unread (fst so0) @ hs" bs] frames_of_append [of mx "unread s" bs]
    by (simp add: hs(4) bs(3))
  then show ?case using hs bs so by (auto intro!: exI [of _ "hs @ bs"])
next
  case (cut fs s o1 out sz fs' s')
  then have "fs' = fst (frames_of mx (unread s))" "unread s' = snd (frames_of mx (unread s))" "sock_wf s'"
    "m_iSockfd s' = m_iSockfd s"
    using pull_frames_eq [of s mx out sz] by auto
  then show ?case using cut by (auto simp: frames_of_idem)
qed

text \<open>
  C1. Message boundaries survive the network. Whatever way the kernel chops the stream and
  however receiving and cutting interleave, if the bytes that arrived on a connection are the
  encodings of the messages \<open>ms\<close>, then the frames handed to the parser are exactly the encodings
  of the first of them, in order, and the encodings of the others are still complete in the
  buffer: nothing is lost, merged, split or reordered.
\<close>

theorem session_reassembles:
  assumes "rx_session mx (s, o1) fs (s', o2)" and "sock_wf s" and "unread s = []" and "mx < 2 ^ 31"
    and "heard_of (m_iSockfd s) (os_trace o2) =
      heard_of (m_iSockfd s) (os_trace o1) @ concat (map (message_bytes ser) ms)"
    and "\<forall>m\<in>set ms. m_proto m \<noteq> None \<and> int (length (message_bytes ser m)) \<le> mx"
  shows "\<exists>n \<le> length ms. fs = map (message_bytes ser) (take n ms)
    \<and> fst (frames_of mx (unread s')) = map (message_bytes ser) (drop n ms)
    \<and> snd (frames_of mx (unread s')) = []"
proof -
  have "\<forall>f\<in>set (map (message_bytes ser) ms). valid_frame mx f"
    using assms(4,6) message_bytes_valid [of _ _ ser mx] by fastforce
  then have "frames_of mx (concat (map (message_bytes ser) ms)) = (map (message_bytes ser) ms, [])"
    by (rule frames_of_concat)
  moreover have "frames_of mx (concat (map (message_bytes ser) ms)) =
      (fs @ fst (frames_of mx (unread s')), snd (frames_of mx (unread s')))"
    using rx_session_inv [OF assms(1)] assms(2,3,5) by auto
  ultimately have eq: "map (message_bytes ser) ms = fs @ fst (frames_of mx (unread s'))"
    and nil: "snd (frames_of mx (unread s')) = []"
    by auto
  have "fs = map (message_bytes ser) (take (length fs) ms)"
    "fst (frames_of mx (unread s')) = map (message_bytes ser) (drop (length fs) ms)"
    by (simp_all add: take_map [symmetric] drop_map [symmetric] eq)
  moreover have "length fs \<le> length ms" using arg_cong [OF eq, of length] by simp
  ultimately show ?thesis using nil by blast
qed

text \<open>A connection on which one message arrives, the next receive finding nothing more.\<close>

definition demo_message :: "byte list CMessage" where
  "demo_message = \<lparr>m_head = \<lparr>m_packetlen = 0, m_message_id = 7, m_framenum = -1, m_message_hash = 0\<rparr>,
     m_proto = Some [42]\<rparr>"

lemma demo_receive:
  assumes "length bs < 1000"
  shows "\<exists>s' o2. TcpSocket_RecvData (demo_sock fd, demo_os ss [RecvSome b bs]) = Inr (read_status_success, s', o2)
    \<and> os_trace o2 = [EvRecv fd (b # bs)]"
proof -
  have "length bs < 196608" using assms by simp
  then show ?thesis
    using assms
    by (simp add: TcpSocket_RecvData_def demo_sock_def TcpSocket_new_def TcpSocket_Init_def run_simps
        recv_loop.simps recv_round_def TryMoveReceDataAhead_def recv_once_def recv_append_def mem_write_def
        recv_buffer_size_def sys_recv_def Let_def demo_os_def)
qed

theorem session_reassembles_witness:
  "\<exists>s' o2 n fs. rx_session 4096 (demo_sock 5, demo_os [] [RecvSome 0 (tl (message_bytes id demo_message))]) fs (s', o2)
    \<and> n \<le> 1 \<and> fs = map (message_bytes id) (take n [demo_message])
    \<and> fst (frames_of 4096 (unread s')) = map (message_bytes id) (drop n [demo_message])"
proof -
  let ?os = "demo_os [] [RecvSome 0 (tl (message_bytes id demo_message))]"
  have b: "message_bytes id demo_message = 0 # tl (message_bytes id demo_message)"
    "length (message_bytes id demo_message) = 17"
    by (simp_all add: message_bytes_def demo_message_def head_bytes_def stamped_def Append_htonl_def)
  obtain s' o2 where r: "TcpSocket_RecvData (demo_sock 5, ?os) = Inr (read_status_success, s', o2)"
    "os_trace o2 = [EvRecv 5 (message_bytes id demo_message)]"
    using demo_receive [of "tl (message_bytes id demo_message)" 5 "[]" 0] b by auto
  have sess: "rx_session 4096 (demo_sock 5, ?os) [] (s', o2)"
    using rx_session.receive [OF rx_session.start r(1)] .
  have "os_trace ?os = []" "m_proto demo_message \<noteq> None"
    by (simp_all add: demo_os_def demo_message_def)
  then show ?thesis
    using session_reassembles [OF sess, of id "[demo_message]"] sess r(2) b(2) by force
qed

end
