(* ===== verification/Main_Proofs.thy ===== *)
theory Main_Proofs
  imports Server_Proofs Framing
begin

text \<open>
  The last steps to the whole program: login and the remaining processors, one received message,
  one event, one round of the main loop, and the invariant of every state the server reaches.
\<close>

section \<open>Accounts\<close>

lemma server_inv_db: "server_inv w \<Longrightarrow> server_inv (w\<lparr>db_calls := n\<rparr>)"
  by (simp add: server_inv_def rooms_inv_def hb_inv_def conn_inv_def)

lemma safe_query:
  "safe (mbind (mysql_real_query db sql) k) w =
    safe (k (db (db_calls w) (sql_bytes sql))) (w\<lparr>db_calls := Suc (db_calls w)\<rparr>)"
  by (simp add: safe_def mwp_def run_simps mysql_real_query_def)

lemma safe_column:
  assumes "\<And>s. column row i = Inr s \<Longrightarrow> safe (k s) w"
  shows "safe (mbind (mlift (column row i)) k) w"
proof (cases "column row i")
  case (Inl e)
  then have "crash e" by (auto simp: column_def arr_get_def crash_def split: if_splits option.splits)
  then show ?thesis using Inl by (simp add: safe_def wp_simps)
next
  case (Inr s)
  then show ?thesis using assms by (simp add: safe_def wp_simps)
qed

lemma fetch_user_id_safe: "server_inv w \<Longrightarrow> safe (fetch_user_id db name ok) w"
  by (auto simp: fetch_user_id_def safe_query server_inv_db crash_def intro!: safe_column split: option.split prod.split)

lemma LoginRequest_safe: "server_inv w \<Longrightarrow> safe (LoginRequest db name pw) w"
  by (auto simp: LoginRequest_def safe_query server_inv_db intro!: safe_column fetch_user_id_safe split: option.split prod.split)

lemma NewUserRegist_safe: "server_inv w \<Longrightarrow> safe (NewUserRegist db name pw) w"
  by (auto simp: NewUserRegist_def safe_query server_inv_db intro!: safe_column fetch_user_id_safe split: option.split prod.split)

lemma PersonLogin_inv: "server_inv w \<Longrightarrow> keeps_inv (PersonManager_PersonLogin u name) w"
  by (auto simp: PersonManager_PersonLogin_def keeps_inv_def wp_simps server_inv_def rooms_inv_def hb_inv_def conn_inv_def
      m_ok_insert Person_Init_def split: option.split)

lemma PlayerLogin_inv: "server_inv w \<Longrightarrow> keeps_inv (PlayerLogin fd u) w"
  by (auto simp: PlayerLogin_def keeps_inv_def wp_simps server_inv_def rooms_inv_def hb_inv_def conn_inv_def
      m_ok_insert split: option.split)

lemma answer_login_safe:
  assumes "server_inv w"
  shows "safe (answer_login ext reply ok refused fd name x) w"
proof -
  have send: "safe (SendMessageByConnfd (x_ser ext) fd m) w'" if "server_inv w'" for m w'
    using that by (intro keeps_safe SendByConnfd_keeps)
  show ?thesis
    using assms unfolding answer_login_def Let_def
    by (auto intro!: safe_seq safe_bind send keeps_inv_safe [OF PersonLogin_inv] keeps_inv_safe [OF PlayerLogin_inv]
        keeps_safe [OF to_client_keeps] simp: crash_def split: prod.split option.split)
qed

section \<open>One request\<close>

lemma CSHeartbeat_safe: "server_inv w \<Longrightarrow> safe (CSHeartbeat_ProcessRequest ext fd mess) w"
  unfolding CSHeartbeat_ProcessRequest_def by (intro safe_seq keeps_inv_safe [OF UpdateFD_inv]) simp_all

lemma login_requests_safe:
  assumes "server_inv w"
  shows "safe (CSLogin_ProcessRequest ext fd mess) w" "safe (CSRegist_ProcessRequest ext fd mess) w"
  using assms unfolding CSLogin_ProcessRequest_def CSRegist_ProcessRequest_def Let_def
  by (auto intro!: safe_bind LoginRequest_safe NewUserRegist_safe answer_login_safe)

lemma run_processor_safe: "server_inv w \<Longrightarrow> safe (run_processor ext p u mess) w"
  by (cases p) (simp_all add: login_requests_safe CSHeartbeat_safe game_requests_safe CSChangeTeam_safe
      CSPullAllRoomInfo_safe CSCreateRoom_safe CSJoinRoom_safe CSPlayerExitRoom_safe CSReadyToStart_safe
      CSLoadSucceed_safe CSGameEnd_safe)

lemma ProcessRequest_safe: "server_inv w \<Longrightarrow> safe (ProcessRequest ext reg u message) w"
  by (auto simp: ProcessRequest_def run_processor_safe crash_def split: option.split)

lemma dispatch_safe: "server_inv w \<Longrightarrow> safe (dispatch ext reg fd mess) w"
  unfolding dispatch_def by (auto intro!: safe_seq ProcessRequest_safe split: option.split)

section \<open>The messages of one client\<close>

lemma Append_ntohl_fault: "Append_ntohl bs = Inl e \<Longrightarrow> e = OutOfBounds"
  by (cases bs rule: Append_ntohl.cases) auto

lemma ParseStrToMessage_fault: "ParseStrToMessage ext reg data sz = Inl e \<Longrightarrow> crash e"
  by (auto simp: ParseStrToMessage_def CMessage_decode_def CMessageHead_decode_def mem_read_def Let_def crash_def
      split: sum.splits if_splits option.splits prod.splits dest!: Append_ntohl_fault)

lemma next_message_keeps:
  assumes inv: "server_inv w" and s: "m_find (m_connects w) fd = Some s"
  shows "mwp (next_message fd) (\<lambda>_ w'. server_inv w' \<and> m_find (m_connects w') fd \<noteq> None) (\<lambda>_. False) w"
proof -
  let ?n = "frame_size (unread s)"
  have c: "sock_wf s" "m_iSockfd s = fd" "m_is_using s" and len: "MAX_MESSAGE_LEN \<le> int (length (recv_data w))"
    using inv s by (auto simp: server_inv_def conn_inv_def)
  have upd: "server_inv (w\<lparr>m_connects := m_update (m_connects w) fd s', recv_data := b\<rparr>)"
    if "sock_wf s'" "m_iSockfd s' = fd" "m_is_using s'" "length b = length (recv_data w)" for s' b
    using server_inv_io(1) [OF inv s that(1-3), of "send_data w" "w_os w"] that(4)
    by (simp add: server_inv_def rooms_inv_def hb_inv_def conn_inv_def)
  have "sock_wf (recv_advance s ?n)" "length (take (nat ?n) (unread s) @ drop (nat ?n) (recv_data w)) = length (recv_data w)"
    if "complete MAX_MESSAGE_LEN (unread s)"
    using rx.advance_ok [OF c(1), of ?n] that len by (auto simp: complete_def)
  moreover have "server_inv (w\<lparr>m_connects := m_update (m_connects w) fd s\<rparr>)"
    using upd [OF c refl] by (simp add: server_inv_def rooms_inv_def hb_inv_def conn_inv_def)
  ultimately show ?thesis
    using s c upd get_one_message_eq [OF c(1) len, of 0]
    by (auto simp: mwp_def next_message_def m_find_update recv_advance_def)
qed

text \<open>
  The loop needs one round more than there are unread bytes; it is safe and does not run out of
  rounds. A round whose processor removed the client reads through a null pointer.
\<close>

lemma message_loop_safe:
  "server_inv w \<Longrightarrow> unread_count fd w < k \<Longrightarrow> safe (message_loop ext reg fd k count) w"
proof (induction k arbitrary: w count)
  case (Suc k)
  show ?case
  proof (cases "m_find (m_connects w) fd")
    case None
    then show ?thesis by (simp add: safe_def mwp_def run_simps next_message_def crash_def)
  next
    case (Some s)
    obtain ret n w1 where nm: "next_message fd w = Inr ((ret, n), w1)" and inv1: "server_inv w1"
      using next_message_keeps [OF Suc.prems(1) Some] by (auto simp: mwp_def split: sum.splits)
    show ?thesis
    proof (cases "ret = success")
      case False
      then show ?thesis using nm inv1 by (simp add: safe_def mwp_def run_simps)
    next
      case True
      have less: "unread_count fd w1 < k" using next_message_progress nm Suc.prems(2) True by fastforce
      have "safe (mseq (dispatch ext reg fd mess) (message_loop ext reg fd k (count + 1))) w1" for mess
      proof (rule safe_seq [OF dispatch_safe [OF inv1]])
        fix x w2
        assume d: "dispatch ext reg fd mess w1 = Inr (x, w2)" "server_inv w2"
        then have "unread_count fd w2 < k" using rx_le_unread rx_dispatch less unfolding rx_keeps_def by (metis le_less_trans)
        then show "safe (message_loop ext reg fd k (count + 1)) w2" using Suc.IH d by simp
      qed
      moreover have "safe (message_loop ext reg fd k count) w1" using Suc.IH [OF inv1 less] .
      ultimately have "safe (mbind (mlift (ParseStrToMessage ext reg (recv_data w1) n)) (\<lambda>message.
           case message of None \<Rightarrow> message_loop ext reg fd k count
           | Some mess \<Rightarrow> mseq (dispatch ext reg fd mess) (message_loop ext reg fd k (count + 1)))) w1"
        using ParseStrToMessage_fault [of ext reg "recv_data w1" n]
        by (auto simp: safe_def mwp_bind mwp_lift split: sum.split option.split)
      then show ?thesis using nm True by (simp add: safe_def mwp_def run_simps)
    qed
  qed
qed simp

section \<open>Events\<close>

lemma RecvData_keeps:
  assumes inv: "server_inv w" and s: "m_find (m_connects w) fd = Some s"
  shows "keeps_inv (on_conn fd TcpSocket_RecvData) w"
proof -
  have c: "sock_wf s" "m_iSockfd s = fd" "m_is_using s" using inv s by (auto simp: server_inv_def conn_inv_def)
  obtain r s' o2 where r: "TcpSocket_RecvData (s, w_os w) = Inr (r, s', o2)" "rx_ext (s, w_os w) (s', o2)"
    using RecvData_ok [OF c(1), of "w_os w"] by auto
  then have "sock_wf s'" "m_iSockfd s' = fd" "m_is_using s'" using c by (auto simp: rx_ext_def)
  then have "server_inv (w\<lparr>m_connects := m_update (m_connects w) fd s', w_os := o2\<rparr>)"
    using server_inv_io(1) [OF inv s, of s' "send_data w" o2]
    by (simp add: server_inv_def rooms_inv_def hb_inv_def conn_inv_def)
  then show ?thesis using s r(1) by (simp add: keeps_inv_def mwp_def on_conn_def)
qed

lemma x_del_safe: "server_inv w \<Longrightarrow> safe (x_del ext fd) w"
  by (rule keeps_safe [OF DeleteClient_keeps])

lemma ReadClient_safe:
  assumes inv: "server_inv w"
  shows "safe (ReadClient ext reg fd count) w"
proof (cases "m_find (m_connects w) fd")
  case None
  then show ?thesis using inv by (simp add: ReadClient_def)
next
  case (Some s)
  have tail: "safe (mbind (message_loop ext reg fd (Suc (unread_count fd w1)) count) (\<lambda>count'.
      mseq (if ret = read_status_error then x_del ext fd else mreturn ()) (mreturn count'))) w1"
    if "server_inv w1" for ret w1
    using that by (intro safe_bind message_loop_safe safe_seq) (simp_all add: x_del_safe)
  have "safe (mbind (on_conn fd TcpSocket_RecvData) (\<lambda>ret. mbind (mgets (unread_count fd)) (\<lambda>n.
      mbind (message_loop ext reg fd (Suc n) count) (\<lambda>count'.
      mseq (if ret = read_status_error then x_del ext fd else mreturn ()) (mreturn count'))))) w"
    by (rule safe_bind [OF keeps_inv_safe [OF RecvData_keeps [OF inv Some]]]) (use tail in \<open>simp del: message_loop.simps\<close>)
  then show ?thesis using Some by (simp add: ReadClient_def del: message_loop.simps)
qed

lemma AcceptClient_wp:
  assumes "sock_wf s"
  shows "mwp TcpSocket_AcceptClient (\<lambda>r (s', o2). sock_wf s' \<and> (r = success \<longrightarrow> m_is_using s')) (\<lambda>_. False) (s, o1)"
  using assms by (auto simp: TcpSocket_AcceptClient_def set_non_block_def wp_simps sock_wf_def err_def success_def)

lemma GetFreeTcpSocket_inv:
  assumes "server_inv w"
  shows "mwp GetFreeTcpSocket (\<lambda>s w'. server_inv w' \<and> sock_wf s) (\<lambda>_. False) w"
  using assms
  by (auto simp: GetFreeTcpSocket_def wp_simps TcpSocket_Init_def TcpSocket_new_def sock_wf_def server_inv_def
      rooms_inv_def hb_inv_def conn_inv_def recv_buffer_size_def send_buffer_size_def split: list.split)

lemma new_connection_inv:
  assumes inv: "server_inv w" and s: "sock_wf s" "m_is_using s" "m_iSockfd s = fd"
  shows "keeps_inv (mseq (mmodify (\<lambda>w. w\<lparr>m_connects := m_insert (m_connects w) fd s\<rparr>)) (Heartbeat_InitFD fd)) w"
proof -
  let ?w = "w\<lparr>m_connects := m_insert (m_connects w) fd s\<rparr>"
  have rest: "rooms_inv ?w" "conn_inv ?w"
    using inv s by (auto simp: server_inv_def rooms_inv_def conn_inv_def m_ok_insert split: if_splits)
  have hb: "hb_inv w" using inv by (simp add: server_inv_def)
  have "keeps_inv (Heartbeat_InitFD fd) ?w"
  proof (cases "m_find (m_fd_to_sec w) fd")
    case None
    then have "keeps_inv (hb_stamp fd) ?w"
      using rest hb by (intro hb_stamp_inv) (auto simp: hb_inv_def)
    then show ?thesis using None by (simp add: Heartbeat_InitFD_def)
  next
    case (Some sec)
    then have "hb_inv ?w" using hb by (auto simp: hb_inv_def)
    then show ?thesis using rest Some by (simp add: Heartbeat_InitFD_def server_inv_def)
  qed
  then show ?thesis by (simp add: keeps_inv_def mwp_seq wp_simps)
qed

lemma AcceptNewClient_inv:
  assumes inv: "server_inv w"
  shows "keeps_inv AcceptNewClient w"
proof -
  obtain s w1 where free: "GetFreeTcpSocket w = Inr (s, w1)" "server_inv w1" "sock_wf s"
    using GetFreeTcpSocket_inv [OF inv] by (auto simp: mwp_total)
  obtain r s' o2 where acc: "TcpSocket_AcceptClient (s, w_os w1) = Inr (r, s', o2)" "sock_wf s'"
    "r = success \<longrightarrow> m_is_using s'"
    using AcceptClient_wp [OF free(3), of "w_os w1"] by (auto simp: mwp_total)
  let ?w = "w1\<lparr>w_os := o2\<rparr>"
  have inv2: "server_inv ?w" "server_inv (?w\<lparr>w_os := o3\<rparr>)" "server_inv (?w\<lparr>free_conns := free_conns ?w @ [s']\<rparr>)" for o3
    using free(2) acc(2) by (auto simp: server_inv_def rooms_inv_def hb_inv_def conn_inv_def)
  have "keeps_inv (mseq (AddToEpoll (m_iSockfd s')) (
      mseq (mmodify (\<lambda>w. w\<lparr>m_connects := m_insert (m_connects w) (m_iSockfd s') s'\<rparr>)) (Heartbeat_InitFD (m_iSockfd s')))) ?w"
    if "r = success"
    using that acc inv2
    by (intro keeps_inv_seq new_connection_inv)
      (auto simp: AddToEpoll_def keeps_inv_def mwp_def world_os_def sys_event_def run_simps)
  then show ?thesis
    using free(1) acc(1) inv2
    by (auto simp: AcceptNewClient_def TcpSocket_GetFd_def keeps_inv_def mwp_def run_simps split: option.split)
qed

lemma handle_event_safe: "server_inv w \<Longrightarrow> safe (handle_event ext reg e count) w"
  by (auto simp: handle_event_def split: prod.split option.split
      intro!: safe_seq x_del_safe keeps_inv_safe [OF AcceptNewClient_inv] ReadClient_safe)

lemma ReceiveMessage_safe: "server_inv w \<Longrightarrow> safe (ReceiveMessage ext reg events count) w"
  by (induction ext reg events count arbitrary: w rule: ReceiveMessage.induct)
    (auto intro!: safe_bind handle_event_safe)

section \<open>The main loop\<close>

lemma RunOnTick_safe:
  assumes inv: "server_inv w"
  shows "safe (RunOnTick ext presec) w"
proof -
  have tick: "safe (Heartbeat_OnTick (x_del ext) now) w'" if "server_inv w'" for now w'
    unfolding safe_def by (rule mwp_mono [OF Heartbeat_OnTick_ok [OF that]]) auto
  show ?thesis
    unfolding RunOnTick_def
    by (intro safe_seq safe_bind keeps_inv_safe [OF dc.RoomManager_OnTick_inv] inv)
      (auto intro!: keeps_safe [OF safe_time] safe_seq tick)
qed

lemma main_round_safe: "server_inv w \<Longrightarrow> safe (main_round ext reg events sec) w"
  unfolding main_round_def by (auto intro!: safe_bind safe_seq RunOnTick_safe ReceiveMessage_safe)

text \<open>The state before \<^verbatim>\<open>main\<close>: the singletons are constructed and hold nothing.\<close>

definition fresh :: "world \<Rightarrow> bool" where
  "fresh w \<longleftrightarrow> rooms w = [] \<and> belong_room w = [] \<and> m_free_room w = [] \<and> room_heap w = []
     \<and> m_sec_fd w = [] \<and> m_fd_to_sec w = [] \<and> m_connects w = [] \<and> m_user_id_to_fd w = []
     \<and> m_fd_to_user_id w = [] \<and> m_user_id_to_person w = [] \<and> free_conns w = []
     \<and> int (length (send_data w)) = MAX_MESSAGE_LEN \<and> int (length (recv_data w)) = MAX_MESSAGE_LEN
     \<and> int (length (raw_buffer w)) = recv_buffer_size + 1
     \<and> length (m_players (raw_room w)) = 9 \<and> length (m_team_id (raw_room w)) = 9
     \<and> length (m_is_online (raw_room w)) = 9 \<and> length (m_is_loading_succeed (raw_room w)) = 9"

lemma fresh_inv: "fresh w \<Longrightarrow> server_inv w"
  by (auto simp: fresh_def server_inv_def rooms_inv_def hb_inv_def conn_inv_def m_ok_def m_find_def)

lemma main_init_inv:
  assumes "server_inv w" and "main_init w = Inr (r, w')"
  shows "server_inv w'"
proof -
  have os: "server_inv (w\<lparr>w_os := o1\<rparr>)" "server_inv (w\<lparr>m_epollfd := e, listen_sock := s, w_os := o1\<rparr>)" for o1 e s
    using assms(1) by (simp_all add: server_inv_def rooms_inv_def hb_inv_def conn_inv_def)
  have "mwp main_init (\<lambda>_. server_inv) (\<lambda>_. True) w"
    using assms(1)
    by (simp add: main_init_def MessageHandler_Init_def Login_Init_def AddToEpoll_def wp_simps world_os_def on_listen_def
        TcpSocket_ReadyForListen_def set_non_block_def GetNowTimeSecond_def
        server_inv_def rooms_inv_def hb_inv_def conn_inv_def split: prod.split)
  then show ?thesis using assms(2) by (rule mwpD)
qed

lemma reachable_inv:
  assumes "fresh w0" "reachable ext reg w0 sec w"
  shows "server_inv w"
  using assms(2)
proof (induction rule: reachable.induct)
  case (start sec w)
  then show ?case using main_init_inv [OF fresh_inv [OF assms(1)]] by blast
next
  case (round sec w events sec' w')
  then show ?case using mwpD [OF main_round_safe [OF round.IH, unfolded safe_def]] by blast
qed

end
