(* ===== verification/Disconnect_Ends.thy ===== *)
theory Disconnect_Ends
  imports Disconnect_Knot
begin

text \<open>
  The bound of \<open>DeleteClientByFD_rec\<close> is never reached: with more levels than connections no run ends in
  \<open>OutOfFuel\<close>.
\<close>

section \<open>Computations without a bound\<close>

definition fuel_free :: "('s, 'a) mon \<Rightarrow> bool" where
  "fuel_free m \<longleftrightarrow> (\<forall>s. m s \<noteq> Inl OutOfFuel)"

lemma fuel_freeD: "fuel_free m \<Longrightarrow> m s = Inl e \<Longrightarrow> e \<noteq> OutOfFuel"
  by (auto simp: fuel_free_def)

named_theorems fuel_rules \<open>computations that never run out of a bound\<close>

lemma fuel_free_simple [fuel_rules]:
  "fuel_free (mreturn x)" "fuel_free (mgets f)" "fuel_free (mmodify g)" "e \<noteq> OutOfFuel \<Longrightarrow> fuel_free (mfault e)"
  "r \<noteq> Inl OutOfFuel \<Longrightarrow> fuel_free (mlift r)"
  by (auto simp: fuel_free_def run_simps split: sum.split)

lemma fuel_free_bind [fuel_rules]: "fuel_free m \<Longrightarrow> (\<And>x. fuel_free (k x)) \<Longrightarrow> fuel_free (mbind m k)"
  by (auto simp: fuel_free_def run_simps split: sum.split)

lemma fuel_free_seq [fuel_rules]: "fuel_free m \<Longrightarrow> fuel_free k \<Longrightarrow> fuel_free (mseq m k)"
  by (auto simp: fuel_free_def run_simps split: sum.split)

lemma fuel_free_zoom [fuel_rules]: "fuel_free m \<Longrightarrow> fuel_free (mzoom get put m)"
  by (auto simp: fuel_free_def run_simps split: sum.split)

lemma fuel_free_access [fuel_rules]:
  "arr_get xs i \<noteq> Inl OutOfFuel" "arr_set xs i v \<noteq> Inl OutOfFuel" "mem_read mem i n \<noteq> Inl OutOfFuel" "mem_write mem i bs \<noteq> Inl OutOfFuel"
  by (simp_all add: arr_get_def arr_set_def mem_read_def mem_write_def)

lemma fuel_free_on [fuel_rules]:
  "fuel_free m1 \<Longrightarrow> fuel_free (world_os m1)" "fuel_free m2 \<Longrightarrow> fuel_free (on_room r m2)"
  "fuel_free m3 \<Longrightarrow> fuel_free (on_syn r m3)" "fuel_free m4 \<Longrightarrow> fuel_free (on_conn fd m4)"
  by (auto simp: fuel_free_def world_os_def on_room_def on_syn_def on_conn_def run_simps split: sum.splits option.splits)

lemma fuel_free_os [fuel_rules]:
  "fuel_free sys_gettimeofday" "fuel_free (sys_event ev)" "fuel_free (sys_send fd data)"
  by (auto simp: fuel_free_def sys_gettimeofday_def sys_event_def sys_send_def run_simps Let_def
      split: send_reply.split)

lemma fuel_free_case [fuel_rules]: "(\<And>x y. fuel_free (k x y)) \<Longrightarrow> fuel_free (case p of (x, y) \<Rightarrow> k x y)"
  by (cases p) simp

section \<open>Sockets\<close>

lemma fuel_free_buffers [fuel_rules]:
  "send_append s data \<noteq> Inl OutOfFuel" "send_compact s \<noteq> Inl OutOfFuel"
  using fuel_free_access(3,4) by (auto simp: send_append_def send_compact_def split: sum.split)

lemma fuel_free_drain_round: "fuel_free (drain_round data)"
  unfolding drain_round_def by (auto intro!: fuel_rules)

lemma fuel_free_drain_loop [fuel_rules]: "fuel_free (drain_loop data)"
proof -
  have "drain_loop data so \<noteq> Inl OutOfFuel" for so
  proof (induction data so rule: drain_loop.induct)
    case (1 data so)
    then show ?case
      using fuel_freeD [OF fuel_free_drain_round, of data so] by (subst drain_loop.simps) (auto split: sum.split ctl.split)
  qed
  then show ?thesis by (simp add: fuel_free_def)
qed

lemma fuel_free_push_loop [fuel_rules]: "fuel_free (push_loop rest)"
proof -
  have send: "on_os (sys_send fd bs) so \<noteq> Inl OutOfFuel" for fd bs so
    using fuel_freeD [OF fuel_free_zoom [OF fuel_free_os(3)], of _ _ fd bs so OutOfFuel] by blast
  have last: "(mbind (mlift (send_append s bs)) (\<lambda>s2. mseq (set_sock (\<lambda>_. s2)) (mreturn write_status_success))) so \<noteq> Inl OutOfFuel" for s bs so
  proof -
    have "fuel_free (mbind (mlift (send_append s bs)) (\<lambda>s2. mseq (set_sock (\<lambda>_. s2)) (mreturn write_status_success)))"
      by (intro fuel_rules)
    then show ?thesis unfolding fuel_free_def by (rule spec)
  qed
  have "push_loop rest so \<noteq> Inl OutOfFuel" for so
  proof (induction rest so rule: push_loop.induct)
    case (1 rest so)
    show ?case
    proof (cases "rest = []")
      case False
      then show ?thesis
        using send [of "m_iSockfd (fst so)" rest so] last 1 by (subst push_loop.simps) (auto split: sum.split)
    qed (subst push_loop.simps, simp)
  qed
  then show ?thesis by (simp add: fuel_free_def)
qed

lemma fuel_free_SendData [fuel_rules]: "fuel_free (TcpSocket_SendData data sz)"
  unfolding TcpSocket_SendData_def by (auto intro!: fuel_rules split: option.split ctl.split)

lemma fuel_free_close [fuel_rules]: "fuel_free TcpSocket_close_socket"
  unfolding TcpSocket_close_socket_def by (auto intro!: fuel_rules)

lemma fuel_free_encode [fuel_rules]: "CMessage_encode ser mess buf \<noteq> Inl OutOfFuel"
  using fuel_free_access(4) by (auto simp: CMessage_encode_def CMessageHead_encode_def Let_def split: option.split sum.splits)

lemma fuel_free_SendMessageByConnfd [fuel_rules]: "fuel_free (SendMessageByConnfd ser fd mess)"
  unfolding SendMessageByConnfd_def by (auto intro!: fuel_rules split: option.split)

section \<open>Rooms and frames\<close>

lemma fuel_free_table [fuel_rules]: "fuel_free (rd_at f i)" "fuel_free (wr_at f upd i v)" "fuel_free Room_GetGameStatus"
  unfolding rd_at_def wr_at_def Room_GetGameStatus_def by (intro fuel_rules)+

lemma fuel_free_scan [fuel_rules]: "fuel_free (scan_player k i u)"
  by (induction k arbitrary: i) (auto intro!: fuel_rules)

lemma fuel_free_GetPlayerID [fuel_rules]: "fuel_free (Room_GetPlayerID u)"
  unfolding Room_GetPlayerID_def by (intro fuel_rules)

lemma fuel_free_shift [fuel_rules]: "fuel_free (shift_loop k i)"
  by (induction k arbitrary: i) (auto intro!: fuel_rules)

lemma fuel_free_leave [fuel_rules]: "fuel_free (Room_remove_waiting pos)" "fuel_free (Room_set_offline pos)"
  unfolding Room_remove_waiting_def Room_set_offline_def by (intro fuel_rules)+

lemma fuel_free_detail_loop [fuel_rules]: "fuel_free (detail_loop names k i proto)"
  by (induction k arbitrary: i proto) (auto intro!: fuel_rules)

lemma fuel_free_detail [fuel_rules]: "fuel_free (Room_detail names)" "fuel_free (Room_GetDetailInfo r)"
proof -
  show "fuel_free (Room_detail names)" for names unfolding Room_detail_def by (intro fuel_rules)
  then show "fuel_free (Room_GetDetailInfo r)" unfolding Room_GetDetailInfo_def by (intro fuel_rules)
qed

lemma fuel_free_slot_add [fuel_rules]: "slot_add i mess y \<noteq> Inl OutOfFuel"
  by (auto simp: fuel_free_access slot_add_def OneFrame_Add_def CMessage_assign_def split: sum.split if_split option.split)

lemma fuel_free_syn [fuel_rules]:
  "fuel_free SYN_UpdateTime" "fuel_free SYN_Init" "fuel_free (SYN_Add mess)" "fuel_free SYN_GetNowFrame"
proof -
  show u: "fuel_free SYN_UpdateTime" unfolding SYN_UpdateTime_def GetNowTimeUs_def by (auto intro!: fuel_rules)
  show "fuel_free SYN_Init" unfolding SYN_Init_def GetNowTimeUs_def by (auto intro!: fuel_rules u)
  show "fuel_free (SYN_Add mess)" unfolding SYN_Add_def Let_def by (auto intro!: fuel_rules u)
  show "fuel_free SYN_GetNowFrame" unfolding SYN_GetNowFrame_def by (auto intro!: fuel_rules u)
qed

lemma fuel_free_ChangePersonStatus [fuel_rules]: "fuel_free (PersonManager_ChangePersonStatus u st)"
  unfolding PersonManager_ChangePersonStatus_def by (auto intro!: fuel_rules split: option.split prod.split)

section \<open>The recursion\<close>

text \<open>On states with at most \<open>n\<close> connections, \<open>m\<close> opens none and does not run out of the bound.\<close>

definition settles :: "nat \<Rightarrow> (world, 'a) mon \<Rightarrow> bool" where
  "settles n m \<longleftrightarrow> agree n m m \<and> (\<forall>w. length (m_connects w) \<le> n \<longrightarrow> m w \<noteq> Inl OutOfFuel)"

named_theorems settles_rules \<open>composition of computations that settle\<close>

lemma settles_free: "agree n m m \<Longrightarrow> fuel_free m \<Longrightarrow> settles n m"
  by (auto simp: settles_def fuel_free_def)

lemma settles_simple [settles_rules]:
  "settles n (mreturn x)" "settles n (mgets f)" "e \<noteq> OutOfFuel \<Longrightarrow> settles n (mfault e)"
  "(\<And>w. length (m_connects (g w)) \<le> length (m_connects w)) \<Longrightarrow> settles n (mmodify g)"
  by (auto intro!: settles_free agree_rules agree_modify fuel_rules)

lemma settles_bind [settles_rules]:
  assumes "settles n m" "\<And>x. settles n (k x)"
  shows "settles n (mbind m k)"
proof -
  have "mbind m k w \<noteq> Inl OutOfFuel" if n: "length (m_connects w) \<le> n" for w
  proof (cases "m w")
    case (Inl e)
    then show ?thesis using assms(1) n by (auto simp: settles_def run_simps)
  next
    case (Inr p)
    then obtain x w1 where m: "m w = Inr (x, w1)" by (cases p) simp
    then have "length (m_connects w1) \<le> n" using assms(1) n by (fastforce simp: settles_def agree_def)
    then show ?thesis using assms(2) [of x] m by (auto simp: settles_def run_simps)
  qed
  then show ?thesis using assms by (auto simp: settles_def intro: agree_bind)
qed

lemma settles_seq [settles_rules]: "settles n m \<Longrightarrow> settles n k \<Longrightarrow> settles n (mseq m k)"
  unfolding mseq_def by (rule settles_bind)

lemma settles_on [settles_rules]:
  "fuel_free m2 \<Longrightarrow> settles n (on_room r m2)" "fuel_free m3 \<Longrightarrow> settles n (on_syn r m3)"
  by (auto intro!: settles_free agree_rules fuel_rules)

lemma settles_leaves [settles_rules]:
  "settles n (SendMessageByConnfd ser fd mess)" "settles n (PersonManager_ChangePersonStatus u st)" "settles n (Room_GetDetailInfo r)"
  by (intro settles_free agree_rules fuel_rules)+

lemma settles_SendMessageToClient:
  "(\<And>fd. settles n (d fd)) \<Longrightarrow> settles n (SendMessageToClient ser d u mess)"
  unfolding SendMessageToClient_def by (auto intro!: settles_rules split: option.split)

lemma settles_send_everyone_loop:
  assumes "\<And>fd. settles n (d fd)"
  shows "settles n (send_everyone_loop ser d r mess k i)"
proof (induction k arbitrary: i)
  case 0
  show ?case by (subst send_everyone_loop.simps) (auto intro!: settles_rules fuel_rules)
next
  case (Suc k)
  then show ?case
    by (subst send_everyone_loop.simps) (auto intro!: settles_rules settles_SendMessageToClient fuel_rules assms)
qed

lemma settles_SendMessageToEveryone:
  "(\<And>fd. settles n (d fd)) \<Longrightarrow> settles n (Room_SendMessageToEveryone ser d r mess)"
  unfolding Room_SendMessageToEveryone_def by (rule settles_send_everyone_loop)

lemma settles_SendGameStart: "(\<And>fd. settles n (d fd)) \<Longrightarrow> settles n (Room_SendGameStart ser d r)"
  unfolding Room_SendGameStart_def by (auto intro!: settles_rules settles_SendMessageToEveryone fuel_rules)

lemma settles_DeletePlayer: "(\<And>fd. settles n (d fd)) \<Longrightarrow> settles n (Room_DeletePlayer ser d r u)"
  unfolding Room_DeletePlayer_def
  by (auto intro!: settles_rules settles_SendMessageToEveryone settles_SendGameStart fuel_rules)

lemma settles_PlayerLogout: "(\<And>fd. settles n (d fd)) \<Longrightarrow> settles n (PlayerLogout ser d u)"
  unfolding PlayerLogout_def PersonLogout_def Person_OnExit_def DeletePlayerFromRoom_def
  by (auto intro!: settles_rules settles_DeletePlayer split: option.split)

lemma fuel_free_drop: "fuel_free (drop_connection fd)"
  unfolding drop_connection_def Heartbeat_DeleteFD_def DeleteFromEpoll_def
  by (auto intro!: fuel_rules split: option.split)

lemma body_no_fuel_fault:
  assumes "\<And>fd n. n < length (m_connects w) \<Longrightarrow> settles n (d fd)"
  shows "DeleteClientByFD_body ser d fd w \<noteq> Inl OutOfFuel"
proof (cases "m_find (m_connects w) fd")
  case None
  then show ?thesis by (simp add: DeleteClientByFD_body_def run_simps)
next
  case (Some s)
  let ?rest = "mbind (mgets m_fd_to_user_id) (\<lambda>m. case m_find m fd of None \<Rightarrow> mreturn ()
      | Some user_id \<Rightarrow> mseq (PlayerLogout ser d user_id) (mreturn ()))"
  have run: "DeleteClientByFD_body ser d fd w = (case drop_connection fd w of Inl e' \<Rightarrow> Inl e' | Inr (_, w1) \<Rightarrow> ?rest w1)"
    using Some by (simp add: DeleteClientByFD_body_def run_simps)
  show ?thesis
  proof (cases "drop_connection fd w")
    case (Inl e)
    then show ?thesis unfolding run using fuel_freeD [OF fuel_free_drop Inl] by simp
  next
    case (Inr p)
    then obtain w1 where w1: "drop_connection fd w = Inr ((), w1)" by (cases p) simp
    have "settles (length (m_connects w1)) ?rest"
      using assms drop_connection_fewer [OF w1] by (auto intro!: settles_rules settles_PlayerLogout split: option.split)
    then show ?thesis unfolding run w1 by (simp add: settles_def)
  qed
qed

lemma DeleteClientByFD_settles: "settles n (DeleteClientByFD ser fd)"
proof -
  have "settles n (DeleteClientByFD_rec ser (Suc k) fd)" if "n \<le> k" for n k fd
    using that
  proof (induction n arbitrary: k fd rule: less_induct)
    case (less n)
    have "DeleteClientByFD_rec ser (Suc k) fd w \<noteq> Inl OutOfFuel" if w: "length (m_connects w) \<le> n" for w
      unfolding DeleteClientByFD_rec.simps
    proof (rule body_no_fuel_fault)
      fix fd m
      assume m: "m < length (m_connects w)"
      then obtain j where "k = Suc j" "m \<le> j" using less.prems w by (cases k) auto
      then show "settles m (DeleteClientByFD_rec ser k fd)" using less.IH [of m j fd] m w by simp
    qed
    moreover have "agree n (DeleteClientByFD_rec ser (Suc k) fd) (DeleteClientByFD_rec ser (Suc k) fd)"
      using less.prems by (intro agree_rec) simp_all
    ultimately show ?case by (simp add: settles_def)
  qed
  then have rec: "settles (length (m_connects w)) (DeleteClientByFD_rec ser (Suc (length (m_connects w))) fd)" for w by simp
  have "DeleteClientByFD ser fd w \<noteq> Inl OutOfFuel" for w
    using rec [of w] unfolding DeleteClientByFD_def settles_def by blast
  moreover have "agree n (DeleteClientByFD ser fd) (DeleteClientByFD ser fd)"
    by (auto simp: agree_def DeleteClientByFD_shrinks)
  ultimately show ?thesis by (simp add: settles_def)
qed

lemma body_fewer_connections:
  assumes "DeleteClientByFD ser fd w = Inr ((), w')" "m_find (m_connects w) fd \<noteq> None"
  shows "length (m_connects w') < length (m_connects w)"
proof -
  have "DeleteClientByFD_body ser (DeleteClientByFD ser) fd w = Inr ((), w')" using assms(1) DeleteClientByFD_unfold [of ser fd] by simp
  then obtain w1 where w1: "drop_connection fd w = Inr ((), w1)"
    and rest: "mbind (mgets m_fd_to_user_id) (\<lambda>m. case m_find m fd of None \<Rightarrow> mreturn ()
      | Some user_id \<Rightarrow> mseq (PlayerLogout ser (DeleteClientByFD ser) user_id) (mreturn ())) w1 = Inr ((), w')"
    using assms(2) by (auto simp: DeleteClientByFD_body_def run_simps split: sum.splits option.splits)
  have "settles (length (m_connects w1)) (mbind (mgets m_fd_to_user_id) (\<lambda>m. case m_find m fd of None \<Rightarrow> mreturn ()
      | Some user_id \<Rightarrow> mseq (PlayerLogout ser (DeleteClientByFD ser) user_id) (mreturn ())))"
    by (auto intro!: settles_rules settles_PlayerLogout DeleteClientByFD_settles split: option.split)
  then have "length (m_connects w') \<le> length (m_connects w1)" using rest by (fastforce simp: settles_def agree_def)
  then show ?thesis using drop_connection_fewer [OF w1] by simp
qed

lemma DeleteClientByFD_levels:
  "DeleteClientByFD_rec ser (Suc (length (m_connects w) + k)) fd w = DeleteClientByFD ser fd w"
  using agree_rec [of "length (m_connects w)" "length (m_connects w) + k" "length (m_connects w)" ser fd]
  by (simp add: agree_def DeleteClientByFD_def del: DeleteClientByFD_rec.simps)

end
