(* ===== verification/Server_Theorems.thy ===== *)
theory Server_Theorems
  imports Main_Proofs Disconnect_Ends
begin

text \<open>
  The properties of the server as a whole: rooms, the manager, removal of clients, heartbeat,
  accounts, dispatch and the main loop, with a concrete server on which they are evaluated.
\<close>

section \<open>A concrete server\<close>

text \<open>
  A machine whose clock stands still, that takes every byte sent and delivers none; \<^verbatim>\<open>setsockopt\<close>, \<^verbatim>\<open>bind\<close>
  and \<^verbatim>\<open>listen\<close> at start-up succeed and the other system calls answer 3.
\<close>

definition os0 :: os where
  "os0 = \<lparr>os_time = (\<lambda>_. (1000, 0)), os_time_pos = 0, os_send = (\<lambda>_. SendSome 65535), os_send_pos = 0,
     os_recv = (\<lambda>_. RecvAgain), os_recv_pos = 0, os_call = (\<lambda>n. if 3 \<le> n \<and> n \<le> 5 then 0 else 3), os_call_pos = 0, os_trace = []\<rparr>"

definition raw0 :: Room where
  "raw0 = \<lparr>m_room_id = 0, m_players = replicate 9 0, m_team_id = replicate 9 0, m_is_online = replicate 9 False,
     m_is_loading_succeed = replicate 9 False, m_player_cnt = 0, m_online_player_cnt = 0, m_status = 0,
     m_loading_succeed_cnt = 0, m_loading_time_second = 0, m_game_mode = 0, m_team_mode = 0, m_game_option = 0,
     m_syn = SYN_new\<rparr>"

definition sock0 :: tcp_socket where
  "sock0 = \<lparr>m_iSockfd = 0, m_recv_head = 0, m_recv_tail = 0, m_recv_buffer = replicate (nat recv_buffer_size + 1) 0,
     m_send_head = 0, m_send_tail = 0, m_send_buffer = replicate (nat send_buffer_size + 1) 0, m_is_using = False\<rparr>"

definition world0 :: world where
  "world0 = \<lparr>listen_sock = sock0, m_connects = [], m_user_id_to_fd = [], m_fd_to_user_id = [], free_conns = [],
     m_epollfd = 0, recv_data = replicate (nat MAX_MESSAGE_LEN) 0, send_data = replicate (nat MAX_MESSAGE_LEN) 0,
     m_sec_fd = [], m_fd_to_sec = [], m_user_id_to_person = [], room_heap = [], m_free_room = [], belong_room = [],
     rooms = [], s_room_id = 1, db_calls = 0, raw_room = raw0, raw_buffer = replicate (nat recv_buffer_size + 1) 0,
     w_os = os0\<rparr>"

lemma world0_fresh: "fresh world0"
  by (simp add: fresh_def world0_def raw0_def MAX_MESSAGE_LEN_def recv_buffer_size_def)

lemma world0_inv: "server_inv world0"
  by (rule fresh_inv [OF world0_fresh])

text \<open>The same server after user 7 has opened a room in mode 1 with team mode 2.\<close>

definition room1 :: Room where
  "room1 = opened 1 2 1 7 (Room_new raw0)"

definition world1 :: world where
  "world1 = world0\<lparr>s_room_id := 2, belong_room := [(7, 0)], rooms := [(1, 0)], room_heap := [room1]\<rparr>"

lemma room1_init: "room_wf (Room_Init 1 2 1 (Room_new raw0))"
  using SYN_new_wf by (intro Room_Init_wf) (simp_all add: Room_new_def raw0_def)

lemmas room1_facts = opened_room [OF room1_init, of 7, folded room1_def]

lemma world1_inv: "server_inv world1"
proof -
  have "server_inv (world0\<lparr>s_room_id := s_room_id world0 + 1, belong_room := m_insert (belong_room world0) 7 (length (room_heap world0)),
      rooms := m_insert (rooms world0) (s_room_id world0) (length (room_heap world0)), room_heap := room_heap world0 @ [room1]\<rparr>)"
    by (rule new_room_inv [OF world0_inv]) (use room1_facts in \<open>simp_all add: world0_def m_find_def\<close>)
  then show ?thesis by (simp add: world1_def world0_def)
qed

lemma room1_heap: "room_heap world1 = [room1]" "room_wf room1" "m_status room1 = room_status_waiting" "player_list room1 = [7]"
  "in_room room1 7"
  using room1_facts by (simp_all add: world1_def)

section \<open>Rooms\<close>

text \<open>
  C10. The player table of a waiting room is a list of players: the search finds the first position of a
  user, or 0 exactly for a user who is not there; removing the player at that position removes the
  first occurrence of the user from the list, and the table stays well-formed.
\<close>

theorem waiting_room_is_list:
  assumes "room_wf rm" and "m_status rm = room_status_waiting"
  shows "\<exists>pos. Room_GetPlayerID u rm = Inr (pos, rm) \<and> (pos = 0 \<longleftrightarrow> u \<notin> set (player_list rm))
    \<and> (pos \<noteq> 0 \<longrightarrow> (\<exists>rm'. Room_remove_waiting pos rm = Inr ((), rm') \<and> room_wf rm'
          \<and> player_list rm' = remove1 u (player_list rm) \<and> m_online_player_cnt rm' = m_online_player_cnt rm - 1))"
proof -
  note mem = waiting_in_room [OF assms]
  obtain p where p: "Room_GetPlayerID u rm = Inr (p, rm)"
    "p = 0 \<and> \<not> in_room rm u \<or> 1 \<le> p \<and> p \<le> m_player_cnt rm \<and> player_at rm u p
       \<and> (\<forall>j. 1 \<le> j \<and> j < p \<longrightarrow> \<not> player_at rm u j)"
    using Room_GetPlayerID_eq [OF assms(1), of u] by blast
  show ?thesis
  proof (cases "p = 0")
    case True
    then show ?thesis using p mem by auto
  next
    case False
    then have pos: "1 \<le> p" "p \<le> m_player_cnt rm" "player_at rm u p" "\<forall>j. 1 \<le> j \<and> j < p \<longrightarrow> \<not> player_at rm u j"
      using p(2) by auto
    have c: "m_player_cnt rm \<le> 8" using room_wf_cnt [OF assms(1)] by simp
    then have "in_room rm u" using pos by (auto simp: in_room_def max_player_cnt_def)
    obtain rm' where r: "Room_remove_waiting p rm = Inr ((), rm')" "room_wf rm'"
      "player_list rm' = take (nat p - 1) (player_list rm) @ drop (nat p) (player_list rm)"
      using Room_remove_waiting_eq [OF assms pos(1,2)] by blast
    have at: "player_list rm ! j = m_players rm ! Suc j" if "j < nat (m_player_cnt rm)" for j
      using player_list_nth [OF assms(1) that] .
    have "remove1 u (player_list rm) = take (nat p - 1) (player_list rm) @ drop (Suc (nat p - 1)) (player_list rm)"
    proof (rule remove1_first)
      show "nat p - 1 < length (player_list rm)" using length_player_list [OF assms(1)] pos(1,2) by linarith
      show "player_list rm ! (nat p - 1) = u" using at [of "nat p - 1"] pos by (simp add: player_at_def)
      show "\<forall>j<nat p - 1. player_list rm ! j \<noteq> u"
      proof (intro allI impI)
        fix j assume j: "j < nat p - 1"
        then have "\<not> player_at rm u (int (Suc j))" "j < nat (m_player_cnt rm)" using pos by auto
        moreover have "m_is_online rm ! nat (int (Suc j))"
          using j pos(2) by (intro room_wf_waiting [OF assms]) auto
        ultimately show "player_list rm ! j \<noteq> u" using at [of j] by (simp add: player_at_def nat_add_distrib)
      qed
    qed
    moreover have "m_online_player_cnt rm' = m_online_player_cnt rm - 1"
      using r(1) room_wf_lengths [OF assms(1)] c pos
        shift_loop_eq [of rm "p + 1" "nat (m_player_cnt rm - p)"]
      by (auto simp: Room_remove_waiting_def run_simps)
    ultimately show ?thesis using p(1) False r \<open>in_room rm u\<close> mem pos(1) by auto
  qed
qed

theorem waiting_room_is_list_witness:
  "\<exists>rm'. Room_remove_waiting 1 room1 = Inr ((), rm') \<and> player_list rm' = []"
proof -
  obtain pos where "Room_GetPlayerID 7 room1 = Inr (pos, room1)" "pos \<noteq> 0"
    "\<exists>rm'. Room_remove_waiting pos room1 = Inr ((), rm') \<and> player_list rm' = []"
    using waiting_room_is_list [of room1 7] room1_heap by auto
  moreover have "Room_GetPlayerID 7 room1 = Inr (1, room1)"
    by (simp add: room1_def opened_def add_entry_result_def Room_Init_def Room_new_def raw0_def Room_GetPlayerID_def run_simps
        Let_def eval_nat_numeral)
  ultimately show ?thesis by simp
qed

text \<open>What \<^verbatim>\<open>ChangePersonStatus\<close> leaves of the persons.\<close>

definition persons_with_status :: "int32 \<Rightarrow> int32 \<Rightarrow> (int32 \<rightharpoonup> Person) \<Rightarrow> (int32 \<rightharpoonup> Person)" where
  "persons_with_status u st ps = (case ps u of None \<Rightarrow> ps | Some p \<Rightarrow> ps(u \<mapsto> p\<lparr>m_pstatus := st\<rparr>))"

lemma ChangePersonStatus_persons:
  "\<exists>ret ps. PersonManager_ChangePersonStatus u st w = Inr (ret, w\<lparr>m_user_id_to_person := ps\<rparr>)
    \<and> m_find ps = persons_with_status u st (m_find (m_user_id_to_person w))"
proof (cases "m_find (m_user_id_to_person w) u")
  case None
  then show ?thesis
    by (intro exI [of _ fail] exI [of _ "m_user_id_to_person w"])
      (simp add: PersonManager_ChangePersonStatus_def run_simps persons_with_status_def)
next
  case (Some p)
  then show ?thesis
    by (cases "st = m_pstatus p")
      (auto simp: PersonManager_ChangePersonStatus_def run_simps Person_ChangeStatus_def persons_with_status_def m_find_insert_eq)
qed

lemma AddPlayer_exact:
  assumes r: "r < length (room_heap w)" and wf: "room_wf (room_heap w ! r)"
  shows "if m_status (room_heap w ! r) \<noteq> room_status_waiting then Room_AddPlayer r u w = Inr (add_player_no_waiting, w)
    else if m_player_cnt (room_heap w ! r) = max_player_cnt then Room_AddPlayer r u w = Inr (add_player_full, w)
    else \<exists>ps. Room_AddPlayer r u w = Inr (add_player_succeed,
          w\<lparr>room_heap := (room_heap w)[r := add_entry_result (room_heap w ! r) u], m_user_id_to_person := ps\<rparr>)
      \<and> m_find ps = persons_with_status u person_in_room (m_find (m_user_id_to_person w))"
proof (cases "m_status (room_heap w ! r) = room_status_waiting \<and> m_player_cnt (room_heap w ! r) \<noteq> max_player_cnt")
  case False
  then show ?thesis
    using Room_add_entry_eq [OF wf, of u] room_wf_cnt [OF wf] r
    by (auto simp: Room_AddPlayer_def run_simps on_room_def add_player_defs)
next
  case True
  let ?w = "w\<lparr>room_heap := (room_heap w)[r := add_entry_result (room_heap w ! r) u]\<rparr>"
  obtain ret ps where c: "PersonManager_ChangePersonStatus u person_in_room ?w = Inr (ret, ?w\<lparr>m_user_id_to_person := ps\<rparr>)"
    "m_find ps = persons_with_status u person_in_room (m_find (m_user_id_to_person ?w))"
    using ChangePersonStatus_persons by blast
  have "Room_AddPlayer r u w = Inr (add_player_succeed, ?w\<lparr>m_user_id_to_person := ps\<rparr>)"
    using Room_add_entry_eq [OF wf, of u] room_wf_cnt [OF wf] r True c(1)
    by (simp add: Room_AddPlayer_def run_simps on_room_def max_player_cnt_def)
  then show ?thesis using True c(2) by auto
qed

text \<open>The room after a player came in, field by field.\<close>

lemma entered_room:
  fixes u :: int32
  assumes wf: "room_wf rm" and w: "m_status rm = room_status_waiting" and free: "m_player_cnt rm \<noteq> max_player_cnt"
  defines "c \<equiv> m_player_cnt rm + 1" and "rm' \<equiv> add_entry_result rm u"
  shows "room_wf rm'" "player_list rm' = player_list rm @ [u]" "m_team_id rm' ! nat c = (if m_team_mode rm = 1 then c else 1)"
    "m_is_online rm' ! nat c"
    "rm' = rm\<lparr>m_player_cnt := c, m_online_player_cnt := m_online_player_cnt rm + 1, m_players := (m_players rm)[nat c := u],
       m_team_id := (m_team_id rm)[nat c := if m_team_mode rm = 1 then c else 1], m_is_online := (m_is_online rm)[nat c := True]\<rparr>"
proof -
  have few: "m_player_cnt rm < max_player_cnt" using free room_wf_cnt [OF wf] by (simp add: max_player_cnt_def)
  show "room_wf rm'" "player_list rm' = player_list rm @ [u]" using add_entry_result_wf [OF wf w few] by (simp_all add: rm'_def)
  have "nat c < 9" using few room_wf_cnt [OF wf] by (simp add: max_player_cnt_def c_def)
  then show "m_team_id rm' ! nat c = (if m_team_mode rm = 1 then c else 1)" "m_is_online rm' ! nat c"
    using room_wf_lengths [OF wf] by (simp_all add: rm'_def c_def add_entry_result_def Let_def)
  show "rm' = rm\<lparr>m_player_cnt := c, m_online_player_cnt := m_online_player_cnt rm + 1, m_players := (m_players rm)[nat c := u],
       m_team_id := (m_team_id rm)[nat c := if m_team_mode rm = 1 then c else 1], m_is_online := (m_is_online rm)[nat c := True]\<rparr>"
    by (simp add: rm'_def c_def add_entry_result_def Let_def)
qed

text \<open>
  C29. \<^verbatim>\<open>Room::AddPlayer\<close> on a well-formed room: it refuses unless the room is waiting, refuses the ninth
  player, and a refusal changes nothing. Otherwise the user is appended to the players and is online, in a
  team of his own when every player has his own team and in team 1 when not, and his status is that of a
  person in a room; the room stays well-formed and waiting, and nothing else changes, neither in the room nor
  in the server.
\<close>

theorem AddPlayer_outcomes:
  assumes "r < length (room_heap w)" and "room_wf (room_heap w ! r)"
  shows "\<exists>ret w'. Room_AddPlayer r u w = Inr (ret, w') \<and> room_wf (room_heap w' ! r)
    \<and> (let rm = room_heap w ! r; rm' = room_heap w' ! r; c = m_player_cnt rm + 1 in
       if m_status rm \<noteq> room_status_waiting then ret = add_player_no_waiting \<and> w' = w
       else if m_player_cnt rm = max_player_cnt then ret = add_player_full \<and> w' = w
       else ret = add_player_succeed \<and> player_list rm' = player_list rm @ [u]
         \<and> m_online_player_cnt rm' = m_online_player_cnt rm + 1 \<and> m_status rm' = room_status_waiting
         \<and> m_team_id rm' ! nat c = (if m_team_mode rm = 1 then c else 1) \<and> m_is_online rm' ! nat c
         \<and> rm' = rm\<lparr>m_player_cnt := c, m_online_player_cnt := m_online_player_cnt rm + 1,
             m_players := (m_players rm)[nat c := u], m_team_id := (m_team_id rm)[nat c := if m_team_mode rm = 1 then c else 1],
             m_is_online := (m_is_online rm)[nat c := True]\<rparr>
         \<and> m_find (m_user_id_to_person w') = (case m_find (m_user_id_to_person w) u of
             None \<Rightarrow> m_find (m_user_id_to_person w)
           | Some p \<Rightarrow> (m_find (m_user_id_to_person w))(u \<mapsto> p\<lparr>m_pstatus := person_in_room\<rparr>))
         \<and> w' = w\<lparr>room_heap := (room_heap w)[r := rm'], m_user_id_to_person := m_user_id_to_person w'\<rparr>)"
proof (cases "m_status (room_heap w ! r) = room_status_waiting \<and> m_player_cnt (room_heap w ! r) \<noteq> max_player_cnt")
  case False
  then show ?thesis using AddPlayer_exact [OF assms, of u] assms(2) by (auto simp: Let_def split: if_splits)
next
  case True
  then obtain ps where run: "Room_AddPlayer r u w = Inr (add_player_succeed,
      w\<lparr>room_heap := (room_heap w)[r := add_entry_result (room_heap w ! r) u], m_user_id_to_person := ps\<rparr>)"
    "m_find ps = persons_with_status u person_in_room (m_find (m_user_id_to_person w))"
    using AddPlayer_exact [OF assms, of u] by auto
  obtain rm' where rm': "rm' = add_entry_result (room_heap w ! r) u" by simp
  have counts: "m_status rm' = room_status_waiting" "m_online_player_cnt rm' = m_online_player_cnt (room_heap w ! r) + 1"
    using True by (simp_all add: rm' add_entry_result_def Let_def)
  note in_it = entered_room [OF assms(2) conjunct1 [OF True] conjunct2 [OF True], of u, folded rm']
  show ?thesis
    unfolding Let_def
    using True run(2) assms(1)
    by (intro exI [of _ add_player_succeed] exI [of _ "w\<lparr>room_heap := (room_heap w)[r := rm'], m_user_id_to_person := ps\<rparr>"])
      (simp add: run(1) [folded rm'] in_it(1-4) counts persons_with_status_def in_it(5) [THEN eqTrueI] split del: if_split)
qed

theorem AddPlayer_outcomes_witness:
  "\<exists>w'. Room_AddPlayer 0 9 world1 = Inr (add_player_succeed, w') \<and> player_list (room_heap w' ! 0) = [7, 9]
    \<and> m_team_id (room_heap w' ! 0) ! 2 = (if m_team_mode room1 = 1 then 2 else 1)"
proof -
  have "m_player_cnt room1 = 1" using length_player_list [OF room1_heap(2)] room1_heap(4) by simp
  then show ?thesis using AddPlayer_outcomes [of 0 world1 9] room1_heap by (auto simp: max_player_cnt_def Let_def)
qed

section \<open>The room manager\<close>

text \<open>
  C27. \<^verbatim>\<open>RoomManager::CreateRoom\<close> for a user without a room always succeeds: the number it returns was not
  in use, afterwards it names a waiting room whose only player is the user, the user belongs to that
  room, every other room is as before, and the invariant of the server holds.
\<close>

theorem CreateRoom_opens_room:
  assumes "server_inv w" and "m_find (belong_room w) u = None"
  shows "\<exists>k r w'. CreateRoom u gm tm k0 w = Inr ((success, k), w') \<and> server_inv w'
    \<and> m_find (rooms w) k = None \<and> m_find (rooms w') = (m_find (rooms w))(k \<mapsto> r)
    \<and> m_find (belong_room w') = (m_find (belong_room w))(u \<mapsto> r)
    \<and> player_list (room_heap w' ! r) = [u] \<and> m_status (room_heap w' ! r) = room_status_waiting
    \<and> (\<forall>i<length (room_heap w). i \<noteq> r \<longrightarrow> room_heap w' ! i = room_heap w ! i)"
proof -
  obtain k r w1 ret w' where run: "CreateRoom u gm tm k0 w = Inr ((success, k), w')"
    "PersonManager_ChangePersonStatus u person_in_room w1 = Inr (ret, w')" "server_inv w1" "m_find (rooms w) k = None"
    "rooms w1 = m_insert (rooms w) k r" "belong_room w1 = m_insert (belong_room w) u r"
    "player_list (room_heap w1 ! r) = [u]" "m_status (room_heap w1 ! r) = room_status_waiting"
    "\<forall>i<length (room_heap w). i \<noteq> r \<longrightarrow> room_heap w1 ! i = room_heap w ! i"
    using CreateRoom_run [OF assms] by blast
  have "server_inv w'" using mwpD [OF ChangePersonStatus_keeps [OF run(3), unfolded keeps_def] run(2)] by simp
  moreover obtain ps where "w' = w1\<lparr>m_user_id_to_person := ps\<rparr>"
    using ChangePersonStatus_total [of u person_in_room w1] run(2) by auto
  ultimately show ?thesis using run by auto
qed

theorem CreateRoom_opens_room_witness:
  "\<exists>k r w'. CreateRoom 9 1 1 0 world1 = Inr ((success, k), w') \<and> k \<noteq> 1 \<and> player_list (room_heap w' ! r) = [9]"
proof -
  have "m_find (belong_room world1) 9 = None" "m_find (rooms world1) 1 = Some 0" by (simp_all add: world1_def m_find_def)
  then show ?thesis using CreateRoom_opens_room [OF world1_inv, of 9 1 1 0] by fastforce
qed

text \<open>
  C28. \<^verbatim>\<open>RoomManager::JoinRoom\<close>: an unknown number, a user who is in a room already, a room that is not waiting
  and a full room are refused, each with its own code and in this order, and a refusal changes nothing.
  Otherwise the user belongs to the room and is its last player, online and in the team the mode asks for,
  his status is that of a person in a room, and every other room, person, membership and connection is as before.
  The invariant holds in every case.
\<close>

theorem JoinRoom_outcomes:
  assumes "server_inv w"
  shows "\<exists>ret w'. JoinRoom u k w = Inr (ret, w') \<and> server_inv w'
    \<and> (case m_find (rooms w) k of
         None \<Rightarrow> ret = join_room_not_exist \<and> w' = w
       | Some r \<Rightarrow> let rm = room_heap w ! r; rm' = room_heap w' ! r; c = m_player_cnt rm + 1 in
           if m_find (belong_room w) u \<noteq> None then ret = join_room_error_fail \<and> w' = w
           else if m_status rm \<noteq> room_status_waiting then ret = add_player_no_waiting \<and> w' = w
           else if m_player_cnt rm = max_player_cnt then ret = add_player_full \<and> w' = w
           else ret = add_player_succeed \<and> m_find (belong_room w') = (m_find (belong_room w))(u \<mapsto> r)
             \<and> player_list rm' = player_list rm @ [u]
             \<and> rm' = rm\<lparr>m_player_cnt := c, m_online_player_cnt := m_online_player_cnt rm + 1,
                 m_players := (m_players rm)[nat c := u], m_team_id := (m_team_id rm)[nat c := if m_team_mode rm = 1 then c else 1],
                 m_is_online := (m_is_online rm)[nat c := True]\<rparr>
             \<and> m_find (m_user_id_to_person w') = (case m_find (m_user_id_to_person w) u of
                 None \<Rightarrow> m_find (m_user_id_to_person w)
               | Some p \<Rightarrow> (m_find (m_user_id_to_person w))(u \<mapsto> p\<lparr>m_pstatus := person_in_room\<rparr>))
             \<and> w' = w\<lparr>room_heap := (room_heap w)[r := rm'], m_user_id_to_person := m_user_id_to_person w',
                 belong_room := belong_room w'\<rparr>)"
proof (cases "m_find (rooms w) k")
  case None
  then show ?thesis using assms by (simp add: JoinRoom_def run_simps)
next
  case (Some r)
  have r: "r < length (room_heap w)" "room_wf (room_heap w ! r)"
    using rooms_invD [of w] assms Some by (auto simp: server_inv_def)
  have inv: "server_inv w'" if "JoinRoom u k w = Inr (x, w')" for x w'
    using mwpD [OF JoinRoom_inv [OF assms, unfolded keeps_inv_def] that] .
  note exact = AddPlayer_exact [OF r, of u]
  show ?thesis
  proof (cases "m_find (belong_room w) u = None \<and> m_status (room_heap w ! r) = room_status_waiting
      \<and> m_player_cnt (room_heap w ! r) \<noteq> max_player_cnt")
    case False
    then consider r' where "m_find (belong_room w) u = Some r'" | ret where "m_find (belong_room w) u = None"
        "ret \<noteq> add_player_succeed" "Room_AddPlayer r u w = Inr (ret, w)"
      using exact by (cases "m_find (belong_room w) u"; cases "m_status (room_heap w ! r) = room_status_waiting";
        auto simp: add_player_defs)
    then show ?thesis
    proof cases
      case 1
      then show ?thesis using Some assms by (simp add: JoinRoom_def run_simps Let_def)
    next
      case 2
      then have "JoinRoom u k w = Inr (ret, w)" using Some by (simp add: JoinRoom_def run_simps)
      then show ?thesis using Some assms exact 2 by (auto simp: Let_def split: if_splits)
    qed
  next
    case True
    then obtain ps where run: "Room_AddPlayer r u w = Inr (add_player_succeed,
        w\<lparr>room_heap := (room_heap w)[r := add_entry_result (room_heap w ! r) u], m_user_id_to_person := ps\<rparr>)"
      "m_find ps = persons_with_status u person_in_room (m_find (m_user_id_to_person w))"
      using exact by auto
    obtain rm' where rm': "rm' = add_entry_result (room_heap w ! r) u" by simp
    let ?w' = "w\<lparr>room_heap := (room_heap w)[r := rm'], m_user_id_to_person := ps, belong_room := m_insert (belong_room w) u r\<rparr>"
    have j: "JoinRoom u k w = Inr (add_player_succeed, ?w')"
      using Some True run(1) [folded rm'] by (simp add: JoinRoom_def run_simps)
    note in_it = entered_room [OF r(2) conjunct1 [OF conjunct2 [OF True]] conjunct2 [OF conjunct2 [OF True]], of u, folded rm']
    show ?thesis
      unfolding Let_def Some option.case
      using True run(2) r inv [OF j]
      by (intro exI [of _ add_player_succeed] exI [of _ ?w'])
        (simp add: j in_it(2) persons_with_status_def m_find_insert_eq in_it(5) [THEN eqTrueI] split del: if_split)
  qed
qed

theorem JoinRoom_outcomes_witness:
  "\<exists>w'. JoinRoom 9 1 world1 = Inr (add_player_succeed, w') \<and> player_list (room_heap w' ! 0) = [7, 9] \<and> server_inv w'
    \<and> rooms w' = rooms world1"
proof -
  have "m_player_cnt room1 = 1" using length_player_list [OF room1_heap(2)] room1_heap(4) by simp
  moreover have "m_find (rooms world1) 1 = Some 0" "m_find (belong_room world1) 9 = None"
    by (simp_all add: world1_def m_find_def)
  moreover obtain ret w' where run: "JoinRoom 9 1 world1 = Inr (ret, w')" "server_inv w'"
    "ret = add_player_succeed" "player_list (room_heap w' ! 0) = [7, 9]"
    "w' = world1\<lparr>room_heap := (room_heap world1)[0 := room_heap w' ! 0], m_user_id_to_person := m_user_id_to_person w',
       belong_room := belong_room w'\<rparr>"
    using calculation JoinRoom_outcomes [OF world1_inv, of 9 1] room1_heap by (auto simp: max_player_cnt_def Let_def)
  moreover have "rooms w' = rooms world1" by (subst run(5)) simp
  ultimately show ?thesis by blast
qed

text \<open>
  C30. The list of rooms a client is sent contains exactly the rooms that are waiting for players, in the
  order of their numbers; making it changes nothing.
\<close>

theorem GetAllRoomInfo_lists_waiting:
  assumes "server_inv w"
  shows "\<exists>p. GetAllRoomInfo w = Inr (p, w) \<and> pb_type p = SCPullAllRoomInfo
    \<and> (case pb_get p 1 of None \<Rightarrow> [] | Some (VRep vs) \<Rightarrow> vs | Some v \<Rightarrow> [v])
      = map (\<lambda>(k, r). VMsg (Room_GetRoomInfo (room_heap w ! r)))
          (filter (\<lambda>(k, r). m_status (room_heap w ! r) = room_status_waiting) (rooms w))"
proof -
  let ?items = "\<lambda>p. case pb_get p 1 of None \<Rightarrow> [] | Some (VRep vs) \<Rightarrow> vs | Some v \<Rightarrow> [v]"
  let ?add = "\<lambda>p rm. pb_add p 1 (VMsg (Room_GetRoomInfo rm))"
  have step: "pb_type (foldl ?add p rms) = pb_type p
      \<and> ?items (foldl ?add p rms) = ?items p @ map (\<lambda>rm. VMsg (Room_GetRoomInfo rm)) rms"
    if "pb_get p 1 = None \<or> (\<exists>vs. pb_get p 1 = Some (VRep vs))" for p rms
    using that by (induction rms arbitrary: p) (auto simp: pb_add_def split: option.splits)
  have "waiting_rooms ms w = map (\<lambda>(k, r). room_heap w ! r)
      (filter (\<lambda>(k, r). m_status (room_heap w ! r) = room_status_waiting) ms)" for ms
    by (induction ms) (auto simp: waiting_rooms_def)
  then show ?thesis
    using GetAllRoomInfo_eq [OF assms] step [of "pb_new SCPullAllRoomInfo" "waiting_rooms (rooms w) w"]
    by (auto simp: comp_def case_prod_unfold)
qed

theorem GetAllRoomInfo_lists_waiting_witness:
  "\<exists>p. GetAllRoomInfo world1 = Inr (p, world1)
    \<and> (case pb_get p 1 of None \<Rightarrow> [] | Some (VRep vs) \<Rightarrow> vs | Some v \<Rightarrow> [v]) = [VMsg (Room_GetRoomInfo room1)]"
proof -
  have "rooms world1 = [(1, 0)]" by (simp add: world1_def)
  then show ?thesis using GetAllRoomInfo_lists_waiting [OF world1_inv] room1_heap by auto
qed

text \<open>
  C26. The periodic pass over all rooms, with the kicks, broadcasts and removals of clients it causes,
  keeps the invariant of the server: no room loses its number, no user is left in a room that does not
  list him, emptied rooms are queued for reuse once; the pass ends, and the only thing that can go
  wrong is an answer too long for the send buffer.
\<close>

theorem RoomManager_OnTick_keeps_invariant:
  assumes "server_inv w"
  shows "case RoomManager_OnTick ser (DeleteClientByFD ser) w of Inl e \<Rightarrow> e = OutOfBounds | Inr (_, w') \<Rightarrow> server_inv w'"
  using dc.RoomManager_OnTick_inv [OF assms, of ser] by (auto simp: keeps_inv_def mwp_def split: sum.splits)

theorem RoomManager_OnTick_keeps_invariant_witness:
  "\<exists>w'. RoomManager_OnTick (\<lambda>_. []) (DeleteClientByFD (\<lambda>_. [])) world1 = Inr ((), w') \<and> server_inv w' \<and> rooms w' = [(1, 0)]"
proof -
  have online: "m_online_player_cnt room1 = 1"
    by (simp add: room1_def opened_def add_entry_result_def Room_Init_def Room_new_def raw0_def Let_def)
  have run: "RoomManager_OnTick (\<lambda>_. []) (DeleteClientByFD (\<lambda>_. [])) world1 = Inr ((), world1)"
    using room1_heap online
    by (simp add: RoomManager_OnTick_def run_simps world1_def m_find_def on_room_def Room_OnTick_def Room_GetGameStatus_def
        Room_GetOnlinePlayerCount_def)
  show ?thesis
    using RoomManager_OnTick_keeps_invariant [OF world1_inv, of "\<lambda>_. []"] run by (simp add: world1_def)
qed

section \<open>Removing clients\<close>

text \<open>
  C23. Removing a client calls the room, which broadcasts, which on a failed send removes that client, and
  so on. The recursion ends, from every state: the function satisfies the equation the code is written as, any
  number of levels above the number of connections gives the same result, the run never ends for want of a
  level, and it changes nothing for a client without a connection and leaves fewer connections than it found
  otherwise.
\<close>

theorem DeleteClientByFD_recursion:
  "DeleteClientByFD ser fd w = DeleteClientByFD_body ser (DeleteClientByFD ser) fd w
    \<and> DeleteClientByFD_rec ser (Suc (length (m_connects w) + k)) fd w = DeleteClientByFD ser fd w
    \<and> (case DeleteClientByFD ser fd w of
        Inl e \<Rightarrow> e \<noteq> OutOfFuel
      | Inr (_, w') \<Rightarrow> if m_find (m_connects w) fd = None then w' = w else length (m_connects w') < length (m_connects w))"
proof (intro conjI)
  show "DeleteClientByFD ser fd w = DeleteClientByFD_body ser (DeleteClientByFD ser) fd w"
    by (rule fun_cong [OF DeleteClientByFD_unfold])
  show "DeleteClientByFD_rec ser (Suc (length (m_connects w) + k)) fd w = DeleteClientByFD ser fd w"
    by (rule DeleteClientByFD_levels)
  have "w' = w" if "DeleteClientByFD ser fd w = Inr ((), w')" "m_find (m_connects w) fd = None" for w'
    using that unfolding DeleteClientByFD_unfold [of ser fd] by (simp add: DeleteClientByFD_body_def run_simps)
  moreover have "DeleteClientByFD ser fd w \<noteq> Inl OutOfFuel"
    using DeleteClientByFD_settles [of "length (m_connects w)" ser fd] by (simp add: settles_def)
  ultimately show "case DeleteClientByFD ser fd w of Inl e \<Rightarrow> e \<noteq> OutOfFuel
      | Inr (_, w') \<Rightarrow> if m_find (m_connects w) fd = None then w' = w else length (m_connects w') < length (m_connects w)"
    using body_fewer_connections [of ser fd w] by (auto split: sum.split)
qed

text \<open>
  C3. After a client is removed, from any state that satisfies the invariant, it has no connection and no
  heartbeat entry, the invariant holds, no other client, login or membership has appeared, every room is
  still there, and rooms have changed their status at most from loading to in game.
\<close>

theorem DeleteClientByFD_removes:
  assumes "server_inv w"
  shows "case DeleteClientByFD ser fd w of Inl e \<Rightarrow> e = OutOfBounds
    | Inr (_, w') \<Rightarrow> server_inv w' \<and> m_find (m_connects w') fd = None \<and> m_find (m_fd_to_sec w') fd = None
        \<and> fd \<notin> snd ` set (m_sec_fd w') \<and> later w w'"
proof -
  have "server_inv w' \<and> later w w'" "m_find (m_connects w') fd = None" if "DeleteClientByFD ser fd w = Inr (x, w')" for x w'
    using mwpD [OF DeleteClient_keeps [OF assms, unfolded keeps_def] that] DeleteClient_gone [OF assms that] by auto
  moreover have "m_find (m_fd_to_sec w') fd = None \<and> fd \<notin> snd ` set (m_sec_fd w')"
    if "server_inv w'" "m_find (m_connects w') fd = None" for w'
  proof -
    have "fd \<notin> dom (m_find (m_fd_to_sec w'))" using that by (simp add: server_inv_def hb_inv_def domIff)
    then show ?thesis using that(1) by (auto simp: server_inv_def hb_inv_def)
  qed
  ultimately show ?thesis
    using DeleteClient_keeps [OF assms, of ser fd] by (fastforce simp: keeps_def mwp_def split: sum.splits)
qed

text \<open>A server with the client of descriptor 5, not logged in, last heard of at second 900.\<close>

definition world2 :: world where
  "world2 = world0\<lparr>m_connects := [(5, sock0\<lparr>m_iSockfd := 5, m_is_using := True\<rparr>)], m_sec_fd := [(900, 5)], m_fd_to_sec := [(5, 900)]\<rparr>"

lemma world2_inv: "server_inv world2"
proof -
  have "sock_wf (sock0\<lparr>m_iSockfd := 5, m_is_using := True\<rparr>)"
    by (simp add: sock_wf_def sock0_def recv_buffer_size_def send_buffer_size_def)
  then show ?thesis
    using world0_inv
    by (auto simp: world2_def world0_def server_inv_def rooms_inv_def hb_inv_def conn_inv_def m_ok_def m_find_def split: if_splits)
qed

lemma world2_delete: "\<exists>w'. DeleteClientByFD ser 5 world2 = Inr ((), w')"
  by (subst DeleteClientByFD_unfold)
    (simp add: DeleteClientByFD_body_def drop_connection_def Heartbeat_DeleteFD_def DeleteFromEpoll_def on_conn_def
      TcpSocket_close_socket_def run_simps sys_event_def world_os_def world2_def world0_def sock0_def m_find_def m_update_def)

theorem DeleteClientByFD_removes_witness:
  "\<exists>w'. DeleteClientByFD (\<lambda>_. []) 5 world2 = Inr ((), w') \<and> server_inv w' \<and> m_find (m_connects w') 5 = None"
  using DeleteClientByFD_removes [OF world2_inv, of 5 "\<lambda>_. []"] world2_delete [of "\<lambda>_. []"] by auto

text \<open>
  C32. The heartbeat pass ends, keeps the invariant, and leaves no client that has been silent for more than
  forty seconds; a fault is only possible where removing one client also removed the client the pass
  would have looked at next.
\<close>

theorem Heartbeat_OnTick_evicts:
  assumes "server_inv w"
  shows "case Heartbeat_OnTick (DeleteClientByFD ser) now w of
      Inl e \<Rightarrow> e \<in> {NullDeref, OutOfBounds, UninitRead, DanglingIter}
    | Inr (_, w') \<Rightarrow> server_inv w' \<and> later w w'
        \<and> (\<forall>fd s. m_find (m_connects w') fd = Some s \<longrightarrow> (\<exists>sec. m_find (m_fd_to_sec w') fd = Some sec \<and> now - sec \<le> 40))"
proof -
  have "\<exists>sec. m_find (m_fd_to_sec w') fd = Some sec \<and> now - sec \<le> 40"
    if "server_inv w'" "\<forall>(sec, fd)\<in>set (m_sec_fd w'). now - sec \<le> 40" "m_find (m_connects w') fd = Some s" for w' fd s
  proof -
    have "fd \<in> dom (m_find (m_fd_to_sec w'))" using that by (auto simp: server_inv_def hb_inv_def)
    then obtain sec where "m_find (m_fd_to_sec w') fd = Some sec" by blast
    moreover have "(sec, fd) \<in> set (m_sec_fd w')" using calculation that(1) by (simp add: server_inv_def hb_inv_def)
    ultimately show ?thesis using that(2) by auto
  qed
  then show ?thesis
    using Heartbeat_OnTick_ok [OF assms, of ser now] by (auto simp: mwp_def crash_def split: sum.splits)
qed

theorem Heartbeat_OnTick_evicts_witness:
  "\<exists>w'. Heartbeat_OnTick (DeleteClientByFD (\<lambda>_. [])) 1000 world2 = Inr ((), w') \<and> m_find (m_connects w') 5 = None"
proof -
  obtain w' where d: "DeleteClientByFD (\<lambda>_. []) 5 world2 = Inr ((), w')" using world2_delete by blast
  have "m_sec_fd world2 = [(900, 5)]" by (simp add: world2_def)
  then have run: "Heartbeat_OnTick (DeleteClientByFD (\<lambda>_. [])) 1000 world2 = Inr ((), w')"
    using d by (simp add: Heartbeat_OnTick_def run_simps s_begin_def)
  then have "later world2 w'" "\<And>s. m_find (m_connects w') 5 = Some s \<Longrightarrow> \<exists>sec. m_find (m_fd_to_sec w') 5 = Some sec \<and> 960 \<le> sec"
    using Heartbeat_OnTick_evicts [OF world2_inv, of 1000 "\<lambda>_. []"] by auto
  moreover have "m_find (m_fd_to_sec world2) 5 = Some 900" by (simp add: world2_def m_find_def)
  moreover have "m_find (m_fd_to_sec w') 5 = Some sec \<Longrightarrow> sec = 900" for sec
    using map_le_trans laterD(3) [OF calculation(1)] calculation(3) by (metis domI map_le_def option.inject)
  ultimately have "m_find (m_connects w') 5 = None" by (cases "m_find (m_connects w') 5") auto
  then show ?thesis using run by blast
qed

section \<open>Accounts\<close>

text \<open>
  C35. \<^verbatim>\<open>LoginRequest\<close> reports success only when the database returned a row for the (cut off) query and the
  password in its second column equals the one sent, as C strings.
\<close>

theorem login_needs_password:
  assumes "LoginRequest db name passwd w = Inr ((login_succeed, u), w')"
  shows "\<exists>row stored. db (db_calls w) (sql_bytes (''select * from login where id = '' @ [CHR 0x27] @ name @ [CHR 0x27] @ '';''))
      = (0, Some row) \<and> 2 \<le> length row \<and> row ! 1 = Some stored \<and> c_str stored = c_str passwd"
  using assms
  by (auto simp: LoginRequest_def mysql_real_query_def run_simps column_def arr_get_def login_code_defs
      split: prod.splits option.splits if_splits sum.splits)

theorem login_needs_password_witness:
  "\<exists>w'. LoginRequest (\<lambda>_ _. (0, Some [Some ''7'', Some ''pw''])) ''bob'' ''pw'' world0 = Inr ((login_succeed, Some 7), w')
    \<and> (\<exists>row stored. (0, Some [Some ''7'', Some ''pw'']) = (0 :: int32, Some row) \<and> 2 \<le> length row \<and> row ! 1 = Some stored
      \<and> c_str stored = c_str ''pw'')"
proof -
  have "sscanf_d (c_str ''7'') = Some 7" by code_simp
  then have "LoginRequest (\<lambda>_ _. (0, Some [Some ''7'', Some ''pw''])) ''bob'' ''pw'' world0 =
      Inr ((login_succeed, Some 7), world0\<lparr>db_calls := 2\<rparr>)"
    by (simp add: LoginRequest_def fetch_user_id_def mysql_real_query_def run_simps column_def world0_def)
  then show ?thesis using login_needs_password [of "\<lambda>_ _. (0, Some [Some ''7'', Some ''pw''])" "''bob''" "''pw''" world0 "Some 7"]
    by blast
qed

text \<open>
  C36. A user who is logged in cannot be taken over: when his account logs in a second time the answer goes
  to the new connection only, and neither the map from users to connections nor its inverse changes.
\<close>

theorem second_login_refused:
  assumes "server_inv w" and "m_find (m_user_id_to_person w) u \<noteq> None"
    and "answer_login ext reply ok refused fd name (ok, Some u) w = Inr (r, w')"
  shows "m_user_id_to_fd w' = m_user_id_to_fd w \<and> m_fd_to_user_id w' = m_fd_to_user_id w
    \<and> m_user_id_to_person w' = m_user_id_to_person w"
proof -
  have "PersonManager_PersonLogin u name w = Inr (fail, w)"
    using assms(2) by (auto simp: PersonManager_PersonLogin_def run_simps)
  then have "\<exists>x m. SendMessageByConnfd (x_ser ext) fd m w = Inr (x, w')"
    using assms(3) by (auto simp: answer_login_def run_simps Let_def split: sum.splits)
  then show ?thesis
    by (auto simp: SendMessageByConnfd_def run_simps on_conn_def split: sum.splits option.splits if_splits prod.splits)
qed

text \<open>The server with user 7 in its hall, on connection 5.\<close>

definition world3 :: world where
  "world3 = world2\<lparr>m_user_id_to_person := [(7, Person_Init 7 ''bob'')], m_user_id_to_fd := [(7, 5)], m_fd_to_user_id := [(5, 7)]\<rparr>"

lemma server_inv_login:
  assumes "server_inv w" "m_ok ps" "m_ok fds" "m_ok us" "\<And>u p. m_find ps u = Some p \<Longrightarrow> m_user_id p = u"
  shows "server_inv (w\<lparr>m_user_id_to_person := ps, m_user_id_to_fd := fds, m_fd_to_user_id := us\<rparr>)"
  using assms by (simp add: server_inv_def rooms_inv_def hb_inv_def conn_inv_def)

lemma world3_inv: "server_inv world3"
  unfolding world3_def
  by (rule server_inv_login [OF world2_inv]) (auto simp: m_ok_def m_find_def Person_Init_def split: if_splits)

definition ext0 :: externals where
  "ext0 = \<lparr>x_ser = (\<lambda>_. []), x_parse = (\<lambda>p _. (True, p)), x_db = (\<lambda>_ _. (0, None))\<rparr>"

theorem second_login_refused_witness:
  "\<exists>r w'. answer_login ext0 SCLogin login_succeed login_failed 6 ''bob'' (login_succeed, Some 7) world3 = Inr (r, w')
    \<and> m_fd_to_user_id w' = [(5, 7)]"
proof -
  have p: "m_find (m_user_id_to_person world3) 7 \<noteq> None" by (simp add: world3_def m_find_def)
  have "\<exists>r w'. answer_login ext0 SCLogin login_succeed login_failed 6 ''bob'' (login_succeed, Some 7) world3 = Inr (r, w')"
    by (simp add: answer_login_def PersonManager_PersonLogin_def run_simps world3_def world2_def m_find_def SendMessageByConnfd_def)
  then show ?thesis
    using second_login_refused [OF world3_inv p] by (fastforce simp: world3_def)
qed

section \<open>Dispatch and the main loop\<close>

text \<open>
  C34. A connection that has not logged in can only log in, register and send heartbeats: any other
  message is dropped and the server state does not change.
\<close>

theorem dispatch_needs_login:
  assumes "m_find (m_fd_to_user_id w) fd = None" and "msg_id mess \<notin> {MSG CSHeartbeat, MSG CSLogin, MSG CSRegist}"
  shows "dispatch ext reg fd mess w = Inr ((), w)"
  using assms by (simp add: dispatch_def run_simps)

theorem dispatch_needs_login_witness:
  "dispatch ext0 (registry_of registrations) 5 (mk_message 0 (pb_new CSCreateRoom)) world2 = Inr ((), world2)"
proof -
  have "m_find (m_fd_to_user_id world2) 5 = None" by (simp add: world2_def world0_def m_find_def)
  moreover have "msg_id (mk_message 0 (pb_new CSCreateRoom)) = 9" by (simp add: msg_id_def mk_message_def)
  ultimately show ?thesis
    using dispatch_needs_login [of world2 5 "mk_message 0 (pb_new CSCreateRoom)"] by simp
qed

text \<open>
  C25. The loop over the messages of one client ends whatever the client sent: with one round more than
  there are unread bytes it never runs out of rounds, and it keeps the invariant or ends in one of the
  crashes the code admits.
\<close>

theorem message_loop_ends:
  assumes "server_inv w" and "unread_count fd w < k"
  shows "case message_loop ext reg fd k count w of
      Inl e \<Rightarrow> e \<in> {NullDeref, OutOfBounds, UninitRead, DanglingIter} | Inr (_, w') \<Rightarrow> server_inv w'"
  using message_loop_safe [OF assms, of ext reg count] by (auto simp: safe_def mwp_def crash_def split: sum.splits)

theorem message_loop_ends_witness:
  "\<exists>w'. message_loop ext0 (registry_of registrations) 5 1 0 world3 = Inr (0, w') \<and> server_inv w'"
proof -
  have n: "unread_count 5 world3 < 1" by (simp add: unread_count_def world3_def world2_def m_find_def sock0_def)
  have "\<exists>w'. message_loop ext0 (registry_of registrations) 5 1 0 world3 = Inr (0, w')"
    by (simp add: next_message_def world3_def world2_def m_find_def sock0_def run_simps TcpSocket_get_one_message_def)
  then show ?thesis using message_loop_ends [OF world3_inv n, of ext0 "registry_of registrations" 0] by auto
qed

text \<open>
  C2. Every state the server reaches, from a start with empty tables and for every behaviour of clients,
  kernel and database, satisfies the invariant: rooms, memberships, connections and heartbeat entries
  are consistent with each other.
\<close>

theorem reachable_states_consistent:
  assumes "fresh w0" and "reachable ext reg w0 sec w"
  shows "server_inv w"
  using reachable_inv [OF assms] .

theorem reachable_states_consistent_witness:
  "\<exists>sec w. reachable ext0 (registry_of registrations) world0 sec w \<and> server_inv w"
proof -
  obtain sec w where "main_init world0 = Inr (Some sec, w)"
    by (simp add: main_init_def MessageHandler_Init_def Login_Init_def AddToEpoll_def run_simps world_os_def on_listen_def
        TcpSocket_ReadyForListen_def set_non_block_def GetNowTimeSecond_def sys_call_def sys_event_def sys_gettimeofday_def
        world0_def sock0_def TcpSocket_Init_def TcpSocket_GetFd_def os0_def success_def)
  then have "reachable ext0 (registry_of registrations) world0 sec w" by (rule reachable.start)
  then show ?thesis using reachable_states_consistent [OF world0_fresh] by blast
qed

text \<open>
  C24. One round of the main loop from a state that satisfies the invariant ends: it returns with the
  invariant intact or crashes; it does not loop for ever.
\<close>

theorem main_round_ends:
  assumes "server_inv w"
  shows "case main_round ext reg events sec w of
      Inl e \<Rightarrow> e \<in> {NullDeref, OutOfBounds, UninitRead, DanglingIter} | Inr (_, w') \<Rightarrow> server_inv w'"
  using main_round_safe [OF assms, of ext reg events sec] by (auto simp: safe_def mwp_def crash_def split: sum.splits)

theorem main_round_ends_witness:
  "\<exists>w'. main_round ext0 (registry_of registrations) [(9, False)] 990 world1 = Inr (990, w') \<and> server_inv w'"
proof -
  have online: "m_online_player_cnt room1 = 1"
    by (simp add: room1_def opened_def add_entry_result_def Room_Init_def Room_new_def raw0_def Let_def)
  have "\<exists>w'. main_round ext0 (registry_of registrations) [(9, False)] 990 world1 = Inr (990, w')"
    using room1_heap online
    by (simp add: main_round_def RunOnTick_def RoomManager_OnTick_def run_simps world1_def m_find_def on_room_def Room_OnTick_def
        Room_GetGameStatus_def Room_GetOnlinePlayerCount_def handle_event_def ReadClient_def world_os_def GetNowTimeSecond_def
        sys_gettimeofday_def world0_def os0_def to_int32_id TcpSocket_GetFd_def sock0_def)
  then show ?thesis using main_round_ends [OF world1_inv, of ext0 "registry_of registrations" "[(9, False)]" 990] by auto
qed

text \<open>
  C31. A room does not stay in the loading state: a tick that finds it loading for 180 seconds or more removes
  the players who have not loaded and, if it returns, leaves the room in the game.
\<close>

theorem loading_room_starts:
  assumes "server_inv w" and "r < length (room_heap w)" and "m_status (room_heap w ! r) = room_status_loading"
    and "os_sec (w_os w) - m_loading_time_second (room_heap w ! r) \<ge> max_loading_time_second"
    and "Room_OnTick ser (DeleteClientByFD ser) r w = Inr (x, w')"
  shows "m_status (room_heap w' ! r) = room_status_ingame \<and> server_inv w'"
proof -
  let ?w0 = "w\<lparr>w_os := os_tick (w_os w)\<rparr>" and ?del = "DeleteClientByFD ser"
  have g: "good (\<lambda>_. True) r w" using assms(1,2) by (simp add: good_def)
  have inv: "server_inv w'"
    using mwpD [OF dc.Room_OnTick_keeps [OF g, of ser, unfolded keeps_def] assms(5)] by simp
  have g0: "good (\<lambda>_. True) r ?w0"
    using assms(1,2) by (simp add: good_def server_inv_def rooms_inv_def hb_inv_def conn_inv_def)
  have run: "mseq (kick_loop ?del r (nat max_player_cnt) 1) (Room_SendGameStart ser ?del r) ?w0 = Inr (x, w')"
    using assms(2-5) by (simp add: Room_OnTick_def run_simps on_room_def Room_GetGameStatus_def world_os_def GetNowTimeSecond_run)
  obtain w1 where w1: "kick_loop ?del r (nat max_player_cnt) 1 ?w0 = Inr ((), w1)" "Room_SendGameStart ser ?del r w1 = Inr (x, w')"
    using run by (auto simp: run_simps split: sum.splits)
  have k: "server_inv w1" "later ?w0 w1"
    using mwpD [OF dc.kick_loop_keeps [OF g0, of 1 ser, unfolded keeps_def] w1(1)] by auto
  have r1: "r < length (room_heap w1)" using later_heap [OF k(2)] assms(2) by simp
  have "status_step room_status_loading (m_status (room_heap w1 ! r))" using laterD(15) [OF k(2)] assms(2,3) by fastforce
  then consider "m_status (room_heap w1 ! r) = room_status_loading" | "m_status (room_heap w1 ! r) = room_status_ingame"
    by (auto simp: status_step_def)
  then have "m_status (room_heap w' ! r) = room_status_ingame"
  proof cases
    case 1
    then show ?thesis
      using w1(2) r1 by (auto simp: Room_SendGameStart_def run_simps on_room_def Room_GetGameStatus_def split: sum.splits if_splits)
  next
    case 2
    then show ?thesis using w1(2) r1 by (simp add: Room_SendGameStart_def run_simps on_room_def Room_GetGameStatus_def)
  qed
  then show ?thesis using inv by simp
qed

text \<open>The room of \<open>world1\<close> after it has been loading since second 0; its only player has dropped out.\<close>

definition world4 :: world where
  "world4 = world1\<lparr>room_heap := [room1\<lparr>m_status := room_status_loading\<rparr>]\<rparr>"

lemma world4_inv: "server_inv world4"
proof -
  have "room_wf (room1\<lparr>m_status := room_status_loading\<rparr>)"
    using room1_heap(2) by (auto simp: room_wf_def)
  then have "server_inv (world1\<lparr>room_heap := (room_heap world1)[0 := room1\<lparr>m_status := room_status_loading\<rparr>]\<rparr>)"
    using room1_heap rooms_invD(2) [of world1] world1_inv
    by (intro server_inv_room [OF world1_inv]) (fastforce simp: server_inv_def in_room_def player_at_def)+
  then show ?thesis by (simp add: world4_def room1_heap)
qed

theorem loading_room_starts_witness:
  "\<exists>w'. Room_OnTick (\<lambda>_. []) (DeleteClientByFD (\<lambda>_. [])) 0 world4 = Inr ((), w')
    \<and> m_status (room_heap w' ! 0) = room_status_ingame"
proof -
  let ?ser = "\<lambda>_ :: pmsg. [] :: byte list"
  have h: "room_heap world4 = [room1\<lparr>m_status := room_status_loading\<rparr>]" "m_find (m_user_id_to_fd world4) 7 = None" "w_os world4 = os0"
    by (simp_all add: world4_def world1_def world0_def m_find_def)
  have rm: "m_player_cnt room1 = 1" "m_is_online room1 ! 1" "m_players room1 ! 1 = 7" "\<not> m_is_loading_succeed room1 ! 1"
    "length (m_is_online room1) = 9" "length (m_players room1) = 9" "length (m_is_loading_succeed room1) = 9"
    "m_loading_time_second room1 = 0" "m_syn room1 = SYN_new"
    by (simp_all add: room1_def opened_def add_entry_result_def Room_Init_def Room_new_def raw0_def Let_def eval_nat_numeral)
  let ?rm = "room1\<lparr>m_status := room_status_loading\<rparr>"
  have same: "v\<lparr>room_heap := [?rm]\<rparr> = v" if "room_heap v = [?rm]" for v :: world using that by simp
  have kick: "kick_loop del 0 (Suc k) 1 v = Inr ((), v)"
    if "room_heap v = [?rm]" "m_find (m_user_id_to_fd v) 7 = None" for del k v
    using that rm same [OF that(1)]
    by (subst kick_loop.simps, subst kick_loop.simps) (simp add: run_simps on_room_def rd_at_def DeleteClientByUserID_def)
  have everyone: "send_everyone_loop ?ser del 0 m (Suc k) 1 v = Inr ((), v)"
    if "room_heap v = [?rm]" "m_find (m_user_id_to_fd v) 7 = None" for del m k v
    using that rm same [OF that(1)]
    by (subst send_everyone_loop.simps, subst send_everyone_loop.simps) (simp add: run_simps on_room_def rd_at_def SendMessageToClient_def)
  have eight: "nat max_player_cnt = 8" "8 = Suc 7" by (simp_all add: max_player_cnt_def)
  have "\<exists>w'. Room_OnTick ?ser (DeleteClientByFD ?ser) 0 world4 = Inr ((), w')"
    using h rm kick [where k = 7, folded eight(2)] everyone [where k = 7, folded eight(2)]
    by (simp add: Room_OnTick_def run_simps on_room_def Room_GetGameStatus_def world_os_def GetNowTimeSecond_run os_sec_def os0_def
        to_int32_id max_loading_time_second_def eight(1) Room_SendGameStart_def Room_SendMessageToEveryone_def on_syn_def SYN_Init_def
        SYN_UpdateTime_def GetNowTimeUs_def sys_gettimeofday_def os_tick_def)
  moreover have "os_sec (w_os world4) - m_loading_time_second (room_heap world4 ! 0) \<ge> max_loading_time_second"
    using h rm by (simp add: os_sec_def os0_def to_int32_id max_loading_time_second_def)
  ultimately show ?thesis
    using loading_room_starts [OF world4_inv, of 0 ?ser] h by fastforce
qed

end
