(* ===== verification/Server_Failures.thy ===== *)
theory Server_Failures
  imports Server_Theorems
begin

text \<open>
  What the code does where it does not do what it means to: requests that end in undefined
  behaviour or are lost, with the states in which that happens.
\<close>

section \<open>Requests\<close>

lemma registered_processor:
  "m_find (m_processor (registry_of registrations)) (MSG CSPlayerExitRoom) = Some MP_CSPlayerExitRoom"
  by (simp add: registry_of_entries registrations_def)

text \<open>
  C38. A logged-in user who is in no room and asks to leave his room crashes the server: the pointer the
  manager returns is used without a check.
\<close>

theorem exit_without_room_crashes:
  assumes "m_find (m_fd_to_user_id w) fd = Some u" and "m_find (belong_room w) u = None"
    and "msg_id mess = MSG CSPlayerExitRoom"
  shows "dispatch ext (registry_of registrations) fd mess w = Inl NullDeref"
  using assms registered_processor
  by (simp add: dispatch_def ProcessRequest_def run_simps CSPlayerExitRoom_ProcessRequest_def GetRoomByUserID_def)

theorem exit_without_room_crashes_witness:
  "dispatch ext0 (registry_of registrations) 5 (mk_message 0 (pb_new CSPlayerExitRoom)) world3 = Inl NullDeref"
proof -
  have "m_find (m_fd_to_user_id world3) 5 = Some 7" "m_find (belong_room world3) 7 = None"
    by (simp_all add: world3_def world2_def world0_def m_find_def)
  moreover have "msg_id (mk_message 0 (pb_new CSPlayerExitRoom)) = MSG CSPlayerExitRoom"
    by (simp add: msg_id_def mk_message_def)
  ultimately show ?thesis using exit_without_room_crashes by blast
qed

text \<open>
  \<^verbatim>\<open>MP_CSGamePause\<close> looks the room up by room number, with the number of the user: when no room happens to
  have that number the request fails, whatever room the user is in, and nothing is queued.
\<close>

lemma pause_looks_up_wrong_room:
  assumes "m_find (rooms w) u = None"
  shows "CSGamePause_ProcessRequest ext u mess w = Inr (fail, w)"
  using assms by (simp add: CSGamePause_ProcessRequest_def in_game_def GetRoomByRoomID_def run_simps)

theorem pause_looks_up_wrong_room_witness:
  "m_find (belong_room world1) 7 = Some 0
    \<and> CSGamePause_ProcessRequest ext0 7 (mk_message 1 (pb_new CSGamePause)) world1 = Inr (fail, world1)"
proof -
  have "m_find (rooms world1) 7 = None" "m_find (belong_room world1) 7 = Some 0" by (simp_all add: world1_def m_find_def)
  then show ?thesis using pause_looks_up_wrong_room by blast
qed

text \<open>
  A player who sends a move before the game of his room has started makes the server read the frame
  clock of a \<^verbatim>\<open>SYN\<close> object that was never initialised.
\<close>

lemma move_before_start:
  assumes "server_inv w" and "m_find (belong_room w) u = Some r" and "\<not> syn_ready (m_syn (room_heap w ! r))"
  shows "CSMove_ProcessRequest ext u mess w = Inl UninitRead"
proof -
  have r: "r < length (room_heap w)" "room_wf (room_heap w ! r)" "in_room (room_heap w ! r) u"
    using rooms_invD [of w] assms(1,2) by (auto simp: server_inv_def)
  obtain p where "Room_GetPlayerID u (room_heap w ! r) = Inr (p, room_heap w ! r)" "p \<noteq> 0"
    using Room_GetPlayerID_eq [OF r(2), of u] r(3) by auto
  then show ?thesis
    using assms(2,3) r(1)
    by (simp add: CSMove_ProcessRequest_def in_game_def GetRoomByUserID_def run_simps on_room_def on_syn_def SYN_Add_def
        SYN_UpdateTime_def GetNowTimeUs_def sys_gettimeofday_def split: prod.split)
qed

lemma move_before_start_witness:
  "CSMove_ProcessRequest ext0 7 (mk_message 1 (pb_set (pb_new CSMove) 1 (VInt 2))) world1 = Inl UninitRead"
proof -
  have "m_find (belong_room world1) 7 = Some 0" by (simp add: world1_def m_find_def)
  moreover have "\<not> syn_ready (m_syn (room_heap world1 ! 0))"
    by (simp add: room1_heap room1_def opened_def add_entry_result_def Room_Init_def Room_new_def Let_def SYN_new_def)
  ultimately show ?thesis using move_before_start [OF world1_inv] by blast
qed

section \<open>Buffers and statements\<close>

text \<open>
  C40. There is no check that an outgoing message fits the 4096 bytes of \<^verbatim>\<open>send_data_\<close>: sending a longer one
  writes outside the array.
\<close>

theorem long_message_overflows:
  assumes "server_inv w" and "m_find (m_connects w) fd \<noteq> None" and "m_proto mess = Some p" and "4096 < 16 + length (ser p)"
  shows "SendMessageByConnfd ser fd mess w = Inl OutOfBounds"
proof -
  have "length (send_data w) < 16 + length (ser p)" using assms(1,4) by (simp add: server_inv_def conn_inv_def MAX_MESSAGE_LEN_def)
  then have "CMessage_encode ser mess (send_data w) = Inl OutOfBounds" by (rule CMessage_encode_overflow [OF assms(3)])
  then show ?thesis using assms(2) by (auto simp: SendMessageByConnfd_def run_simps)
qed

theorem long_message_overflows_witness:
  "SendMessageByConnfd (\<lambda>_. replicate 5000 0) 5 (mk_message 0 (pb_new SCPullAllRoomInfo)) world2 = Inl OutOfBounds"
proof -
  have "m_find (m_connects world2) 5 \<noteq> None" by (simp add: world2_def m_find_def)
  then show ?thesis
    using long_message_overflows [OF world2_inv, of 5 "mk_message 0 (pb_new SCPullAllRoomInfo)" "pb_new SCPullAllRoomInfo" "\<lambda>_. replicate 5000 0"]
    by (simp add: mk_message_def)
qed

text \<open>
  The length passed to the database is always 60: when user name and password together have more than
  16 characters, the statement that creates the account is cut off before its end.
\<close>

lemma registration_cut_off:
  assumes "db (db_calls w) (sql_bytes (''select * from login where id = '' @ [CHR 0x27] @ name @ [CHR 0x27] @ '';'')) = (0, None)"
    and "16 < length name + length passwd"
  defines "stmt \<equiv> ''insert into login(id, passwd) values('' @ [CHR 0x27] @ name @ [CHR 0x27] @ '','' @ [CHR 0x27] @ passwd
      @ [CHR 0x27] @ '');''"
  shows "60 < length stmt
    \<and> (fst (db (Suc (db_calls w)) (take 60 stmt)) \<noteq> 0 \<longrightarrow>
        NewUserRegist db name passwd w = Inr ((db_error, None), w\<lparr>db_calls := Suc (Suc (db_calls w))\<rparr>))"
proof -
  have len: "60 < length stmt" using assms(2) by (simp add: stmt_def)
  then have "sql_bytes stmt = take 60 stmt" by (simp add: sql_bytes_def)
  then have "NewUserRegist db name passwd w =
      (if fst (db (Suc (db_calls w)) (take 60 stmt)) \<noteq> 0 then Inr ((db_error, None), w\<lparr>db_calls := Suc (Suc (db_calls w))\<rparr>)
       else fetch_user_id db name regist_succeed (w\<lparr>db_calls := Suc (Suc (db_calls w))\<rparr>))"
    using assms(1) unfolding NewUserRegist_def stmt_def [symmetric]
    by (simp only: mysql_real_query_def run_simps) (simp add: case_prod_unfold run_simps mysql_real_query_def)
  then show ?thesis using len by simp
qed

lemma registration_cut_off_witness:
  "NewUserRegist (\<lambda>n s. if n = 0 then (0, None) else if length s < 60 then (0, None) else (1, None))
      ''elisabeth'' ''password1'' world0 = Inr ((db_error, None), world0\<lparr>db_calls := 2\<rparr>)"
proof -
  let ?db = "\<lambda>n s. if n = 0 then (0, None) else if length s < 60 then (0, None) else (1 :: int32, None :: row option)"
  have "db_calls world0 = 0" by (simp add: world0_def)
  then show ?thesis
    using registration_cut_off [of ?db world0 "''elisabeth''" "''password1''"] by (simp add: numeral_2_eq_2)
qed

end
