(* ===== verification/Varint.thy ===== *)
theory Varint
  imports Prelude
begin

text \<open>
  Base 128 integers of the protocol buffer runtime (\<^verbatim>\<open>io/coded_stream.cc\<close>, \<^verbatim>\<open>io/coded_stream.h\<close>): the
  unrolled writers and readers on arrays, the loops they replace, and the sizes. \<open>varint\<close> and
  \<open>varint_read\<close> are the arithmetic reference. A writer returns the bytes it stores from \<^verbatim>\<open>target\<close>
  on; the pointer it returns is \<^verbatim>\<open>target\<close> plus their number.
\<close>

unbundle bit_operations_syntax

section \<open>Writing\<close>

definition WriteVarint32FallbackToArrayInline :: "32 word \<Rightarrow> byte list" where
  "WriteVarint32FallbackToArrayInline value =
     (let t0 = ucast (value OR 0x80) in
      if value \<ge> 2 ^ 7 then
        (let t1 = ucast (drop_bit 7 value OR 0x80) in
         if value \<ge> 2 ^ 14 then
           (let t2 = ucast (drop_bit 14 value OR 0x80) in
            if value \<ge> 2 ^ 21 then
              (let t3 = ucast (drop_bit 21 value OR 0x80) in
               if value \<ge> 2 ^ 28 then [t0, t1, t2, t3, ucast (drop_bit 28 value)]
               else [t0, t1, t2, t3 AND 0x7F])
            else [t0, t1, t2 AND 0x7F])
         else [t0, t1 AND 0x7F])
      else [t0 AND 0x7F])"

definition WriteVarint32ToArray :: "32 word \<Rightarrow> byte list" where
  "WriteVarint32ToArray value = (if value < 0x80 then [ucast value] else WriteVarint32FallbackToArrayInline value)"

definition varint64_size :: "32 word \<Rightarrow> 32 word \<Rightarrow> 32 word \<Rightarrow> nat" where
  "varint64_size part0 part1 part2 =
     (if part2 = 0 then
        (if part1 = 0 then
           (if part0 < 2 ^ 14 then (if part0 < 2 ^ 7 then 1 else 2)
            else (if part0 < 2 ^ 21 then 3 else 4))
         else
           (if part1 < 2 ^ 14 then (if part1 < 2 ^ 7 then 5 else 6)
            else (if part1 < 2 ^ 21 then 7 else 8)))
      else (if part2 < 2 ^ 7 then 9 else 10))"

definition WriteVarint64ToArrayInline :: "64 word \<Rightarrow> byte list" where
  "WriteVarint64ToArrayInline value =
     (let part0 = ucast value :: 32 word;
          part1 = ucast (drop_bit 28 value) :: 32 word;
          part2 = ucast (drop_bit 56 value) :: 32 word;
          sz = varint64_size part0 part1 part2;
          target = take sz
            [ucast (part0 OR 0x80), ucast (drop_bit 7 part0 OR 0x80), ucast (drop_bit 14 part0 OR 0x80),
             ucast (drop_bit 21 part0 OR 0x80), ucast (part1 OR 0x80), ucast (drop_bit 7 part1 OR 0x80),
             ucast (drop_bit 14 part1 OR 0x80), ucast (drop_bit 21 part1 OR 0x80), ucast (part2 OR 0x80),
             ucast (drop_bit 7 part2 OR 0x80)]
      in target[sz - 1 := target ! (sz - 1) AND 0x7F])"

text \<open>The loop of the slow paths of \<^verbatim>\<open>WriteVarint32\<close> and \<^verbatim>\<open>WriteVarint64\<close>.\<close>

function varint_loop :: "'a::len word \<Rightarrow> byte list" where
  "varint_loop value =
     (if value > 0x7F then ((ucast value AND 0x7F) OR 0x80) # varint_loop (drop_bit 7 value)
      else [ucast value AND 0x7F])"
  by pat_completeness auto
termination
proof (relation "measure unat")
  fix v :: "'a word"
  assume "0x7F < v"
  then have "0 < unat v" by (simp add: word_less_nat_alt)
  then show "(drop_bit 7 v, v) \<in> measure unat" by (simp add: unat_drop_bit_eq drop_bit_nat_def)
qed simp

declare varint_loop.simps [simp del]

definition WriteVarint32SignExtendedToArray :: "int32 \<Rightarrow> byte list" where
  "WriteVarint32SignExtendedToArray value =
     (if value < 0 then WriteVarint64ToArrayInline (word_of_int value)
      else WriteVarint32ToArray (word_of_int value))"

definition WriteTagToArray :: "32 word \<Rightarrow> byte list" where
  "WriteTagToArray value =
     (if value < 2 ^ 7 then [ucast value]
      else if value < 2 ^ 14 then [ucast (value OR 0x80), ucast (drop_bit 7 value)]
      else WriteVarint32FallbackToArrayInline value)"

section \<open>Sizes\<close>

definition VarintSize32Fallback :: "32 word \<Rightarrow> int" where
  "VarintSize32Fallback value =
     (if value < 2 ^ 7 then 1 else if value < 2 ^ 14 then 2 else if value < 2 ^ 21 then 3
      else if value < 2 ^ 28 then 4 else 5)"

definition VarintSize32 :: "32 word \<Rightarrow> int" where
  "VarintSize32 value = (if value < 2 ^ 7 then 1 else VarintSize32Fallback value)"

definition VarintSize64 :: "64 word \<Rightarrow> int" where
  "VarintSize64 value =
     (if value < 2 ^ 35 then
        (if value < 2 ^ 7 then 1 else if value < 2 ^ 14 then 2 else if value < 2 ^ 21 then 3
         else if value < 2 ^ 28 then 4 else 5)
      else
        (if value < 2 ^ 42 then 6 else if value < 2 ^ 49 then 7 else if value < 2 ^ 56 then 8
         else if value < 2 ^ 63 then 9 else 10))"

definition VarintSize32SignExtended :: "int32 \<Rightarrow> int" where
  "VarintSize32SignExtended value = (if value < 0 then 10 else VarintSize32 (word_of_int value))"

section \<open>Reading\<close>

definition kMaxVarintBytes :: nat where "kMaxVarintBytes = 10"

definition kMaxVarint32Bytes :: nat where "kMaxVarint32Bytes = 5"

text \<open>\<^verbatim>\<open>b = *(ptr++)\<close> on the memory \<open>buf\<close>, and what follows.\<close>

definition next_b :: "byte list \<Rightarrow> nat \<Rightarrow> (32 word \<Rightarrow> fault + 'a) \<Rightarrow> fault + 'a" where
  "next_b buf i k = (case arr_get buf (int i) of Inl e \<Rightarrow> Inl e | Inr b \<Rightarrow> k (ucast b))"

text \<open>The loop that discards the high bits; the result is the number of bytes read.\<close>

primrec discard_high :: "byte list \<Rightarrow> nat \<Rightarrow> nat \<Rightarrow> 32 word \<Rightarrow> fault + (32 word \<times> nat) option" where
  "discard_high buf 0 i result = Inr None"
| "discard_high buf (Suc k) i result =
     next_b buf i (\<lambda>b. if b AND 0x80 = 0 then Inr (Some (result, Suc i)) else discard_high buf k (Suc i) result)"

text \<open>\<open>None\<close> is a null pointer; otherwise the value and the number of bytes read.\<close>

definition ReadVarint32FromArray :: "byte list \<Rightarrow> fault + (32 word \<times> nat) option" where
  "ReadVarint32FromArray buf =
     next_b buf 0 (\<lambda>b. let result = b AND 0x7F in if b AND 0x80 = 0 then Inr (Some (result, 1)) else
     next_b buf 1 (\<lambda>b. let result = result OR push_bit 7 (b AND 0x7F) in if b AND 0x80 = 0 then Inr (Some (result, 2)) else
     next_b buf 2 (\<lambda>b. let result = result OR push_bit 14 (b AND 0x7F) in if b AND 0x80 = 0 then Inr (Some (result, 3)) else
     next_b buf 3 (\<lambda>b. let result = result OR push_bit 21 (b AND 0x7F) in if b AND 0x80 = 0 then Inr (Some (result, 4)) else
     next_b buf 4 (\<lambda>b. let result = result OR push_bit 28 b in if b AND 0x80 = 0 then Inr (Some (result, 5)) else
       discard_high buf (kMaxVarintBytes - kMaxVarint32Bytes) 5 result)))))"

definition varint_parts :: "32 word \<Rightarrow> 32 word \<Rightarrow> 32 word \<Rightarrow> 64 word" where
  "varint_parts part0 part1 part2 = (ucast part0 OR push_bit 28 (ucast part1)) OR push_bit 56 (ucast part2)"

text \<open>The fast path of \<^verbatim>\<open>ReadVarint64Fallback\<close>: three 32 bit parts.\<close>

definition ReadVarint64FromArray :: "byte list \<Rightarrow> fault + (64 word \<times> nat) option" where
  "ReadVarint64FromArray buf =
     (let end = (\<lambda>b. b AND 0x80 = (0 :: 32 word)) in
      next_b buf 0 (\<lambda>b. let p0 = b AND 0x7F in if end b then Inr (Some (varint_parts p0 0 0, 1)) else
      next_b buf 1 (\<lambda>b. let p0 = p0 OR push_bit 7 (b AND 0x7F) in if end b then Inr (Some (varint_parts p0 0 0, 2)) else
      next_b buf 2 (\<lambda>b. let p0 = p0 OR push_bit 14 (b AND 0x7F) in if end b then Inr (Some (varint_parts p0 0 0, 3)) else
      next_b buf 3 (\<lambda>b. let p0 = p0 OR push_bit 21 (b AND 0x7F) in if end b then Inr (Some (varint_parts p0 0 0, 4)) else
      next_b buf 4 (\<lambda>b. let p1 = b AND 0x7F in if end b then Inr (Some (varint_parts p0 p1 0, 5)) else
      next_b buf 5 (\<lambda>b. let p1 = p1 OR push_bit 7 (b AND 0x7F) in if end b then Inr (Some (varint_parts p0 p1 0, 6)) else
      next_b buf 6 (\<lambda>b. let p1 = p1 OR push_bit 14 (b AND 0x7F) in if end b then Inr (Some (varint_parts p0 p1 0, 7)) else
      next_b buf 7 (\<lambda>b. let p1 = p1 OR push_bit 21 (b AND 0x7F) in if end b then Inr (Some (varint_parts p0 p1 0, 8)) else
      next_b buf 8 (\<lambda>b. let p2 = b AND 0x7F in if end b then Inr (Some (varint_parts p0 p1 p2, 9)) else
      next_b buf 9 (\<lambda>b. let p2 = p2 OR push_bit 7 (b AND 0x7F) in if end b then Inr (Some (varint_parts p0 p1 p2, 10)) else
        Inr None)))))))))))"

section \<open>Little-endian words\<close>

definition WriteLittleEndian32ToArray :: "32 word \<Rightarrow> byte list" where
  "WriteLittleEndian32ToArray value =
     [ucast value, ucast (drop_bit 8 value), ucast (drop_bit 16 value), ucast (drop_bit 24 value)]"

definition WriteLittleEndian64ToArray :: "64 word \<Rightarrow> byte list" where
  "WriteLittleEndian64ToArray value =
     (let part0 = ucast value :: 32 word; part1 = ucast (drop_bit 32 value) :: 32 word in
      [ucast part0, ucast (drop_bit 8 part0), ucast (drop_bit 16 part0), ucast (drop_bit 24 part0),
       ucast part1, ucast (drop_bit 8 part1), ucast (drop_bit 16 part1), ucast (drop_bit 24 part1)])"

fun ReadLittleEndian32FromArray :: "byte list \<Rightarrow> fault + 32 word" where
  "ReadLittleEndian32FromArray (b0 # b1 # b2 # b3 # _) =
     Inr (ucast b0 OR push_bit 8 (ucast b1) OR push_bit 16 (ucast b2) OR push_bit 24 (ucast b3))"
| "ReadLittleEndian32FromArray _ = Inl OutOfBounds"

definition ReadLittleEndian64FromArray :: "byte list \<Rightarrow> fault + 64 word" where
  "ReadLittleEndian64FromArray bs =
     (case ReadLittleEndian32FromArray bs of
        Inl e \<Rightarrow> Inl e
      | Inr part0 \<Rightarrow>
          (case ReadLittleEndian32FromArray (drop 4 bs) of
             Inl e \<Rightarrow> Inl e
           | Inr part1 \<Rightarrow> Inr (ucast part0 OR push_bit 32 (ucast part1))))"

section \<open>The reference\<close>

definition more_byte :: "nat \<Rightarrow> byte" where
  "more_byte n = of_nat (128 + n mod 128)"

fun varint :: "nat \<Rightarrow> byte list" where
  "varint n = (if n < 128 then [of_nat n] else more_byte n # varint (n div 128))"

declare varint.simps [simp del]

fun varint_read :: "nat \<Rightarrow> byte list \<Rightarrow> (nat \<times> byte list) option" where
  "varint_read (Suc k) (b # bs) =
     (if b < 128 then Some (unat b, bs)
      else map_option (\<lambda>(n, rest). (unat b - 128 + 128 * n, rest)) (varint_read k bs))"
| "varint_read _ _ = None"

section \<open>Bytes of a word\<close>

text \<open>The seven low bits of a word as a byte, with and without the mark that more bytes follow.\<close>

lemma bit_7F: "bit (0x7F :: int) n \<longleftrightarrow> n < 7" "bit (0x7F :: nat) n \<longleftrightarrow> n < 7"
proof -
  have "(0x7F :: int) = mask 7" "(0x7F :: nat) = mask 7" by (simp_all add: mask_eq_exp_minus_1)
  then show "bit (0x7F :: int) n \<longleftrightarrow> n < 7" "bit (0x7F :: nat) n \<longleftrightarrow> n < 7" by (simp_all only: bit_mask_iff) auto
qed

lemma bit_80: "bit (0x80 :: int) n \<longleftrightarrow> n = 7" "bit (0x80 :: nat) n \<longleftrightarrow> n = 7"
proof -
  have "(0x80 :: int) = 2 ^ 7" "(0x80 :: nat) = 2 ^ 7" by simp_all
  then show "bit (0x80 :: int) n \<longleftrightarrow> n = 7" "bit (0x80 :: nat) n \<longleftrightarrow> n = 7" by (simp_all only: bit_exp_iff) auto
qed

lemmas byte_bits = bit_7F bit_80 bit_simps

lemma low_byte: "(of_nat (n mod 128) :: byte) = of_nat n AND 0x7F"
proof -
  have "n mod 128 = take_bit 7 n" by (simp add: take_bit_eq_mod)
  then show ?thesis by (auto simp: byte_bits intro!: bit_word_eqI)
qed

lemma more_byte_or: "more_byte n = (of_nat n AND 0x7F) OR 0x80"
proof -
  have "((of_nat n AND 0x7F) + 0x80 :: byte) = (of_nat n AND 0x7F) OR 0x80"
    by (rule disjunctive_add) (auto simp: byte_bits)
  then show ?thesis by (simp add: more_byte_def low_byte add.commute)
qed

lemma ucast_byte: "(ucast (w :: 'a::len word) :: byte) = of_nat (unat w)"
  by simp

lemma more_bytes:
  assumes "8 \<le> LENGTH('a)"
  shows "(ucast (w OR 0x80 :: 'a::len word) :: byte) = more_byte (unat w)"
    and "((ucast w AND 0x7F) OR 0x80 :: byte) = more_byte (unat w)"
    and "(ucast (w OR 0x80) AND 0x7F :: byte) = of_nat (unat w mod 128)"
    and "(ucast w AND 0x7F :: byte) = of_nat (unat w mod 128)"
  using assms unfolding more_byte_or low_byte ucast_byte [symmetric]
  by (auto simp: byte_bits intro!: bit_word_eqI)

lemma more_byte_bits [simp]:
  "more_byte n AND 0x7F = of_nat (n mod 128)" "(of_nat (n mod 128) :: byte) OR 0x80 = more_byte n"
  unfolding more_byte_or low_byte by (auto simp: byte_bits intro!: bit_word_eqI)

lemma unat_bound: "unat (w :: 'a::len word) < 2 ^ LENGTH('a)"
  by (rule unsigned_less)

lemma unat_shift: "unat (drop_bit n w) = unat w div 2 ^ n"
  by (simp add: unat_drop_bit_eq drop_bit_nat_def)

section \<open>All writers write the reference\<close>

lemma varint_loop_eq:
  "8 \<le> LENGTH('a) \<Longrightarrow> varint_loop (w :: 'a::len word) = varint (unat w)"
proof (induction w rule: varint_loop.induct)
  case (1 w)
  have lim: "0x7F < w \<longleftrightarrow> 128 \<le> unat w"
  proof -
    have "unat (0x7F :: 'a word) = 127"
      using "1.prems" power_increasing [of 8 "LENGTH('a)" "2 :: nat"]
      by (simp add: unat_numeral take_bit_nat_eq_self)
    then show ?thesis by (simp add: word_less_nat_alt) linarith
  qed
  show ?case
    using 1 lim unat_shift [of 7 w]
    by (auto simp: varint_loop.simps [of w] varint.simps [of "unat w"] more_bytes)
qed

lemma varint_step: "128 \<le> n \<Longrightarrow> varint n = more_byte n # varint (n div 128)"
  "n < 128 \<Longrightarrow> varint n = [of_nat n]"
  by (simp_all add: varint.simps [of n])

lemma WriteVarint32Fallback_eq: "WriteVarint32FallbackToArrayInline w = varint (unat w)"
proof -
  have lim: "2 ^ 7 \<le> w \<longleftrightarrow> 128 \<le> unat w" "2 ^ 14 \<le> w \<longleftrightarrow> 128 \<le> unat w div 128"
    "2 ^ 21 \<le> w \<longleftrightarrow> 128 \<le> unat w div 128 div 128" "2 ^ 28 \<le> w \<longleftrightarrow> 128 \<le> unat w div 128 div 128 div 128"
    by (auto simp: word_le_nat_alt div_mult2_eq [symmetric])
  have top: "(ucast (drop_bit 28 w) :: byte) = of_nat (unat w div 128 div 128 div 128 div 128)"
    by (simp add: ucast_byte unat_shift div_mult2_eq [symmetric])
  have "unat w div 268435456 < 128" using unat_bound [of w] by simp
  then show ?thesis
    unfolding WriteVarint32FallbackToArrayInline_def Let_def lim
    by (auto simp: varint_step more_bytes unat_shift top div_mult2_eq [symmetric])
qed

lemma WriteVarint32_eq: "WriteVarint32ToArray w = varint (unat w)"
  by (simp add: WriteVarint32ToArray_def WriteVarint32Fallback_eq word_less_nat_alt varint_step)

lemma WriteTag_eq: "WriteTagToArray w = varint (unat w)"
proof (cases "128 \<le> unat w \<and> unat w < 16384")
  case True
  moreover have "(ucast (drop_bit 7 w) :: byte) = of_nat (unat w div 128)"
    by (simp only: ucast_byte unat_shift) simp
  moreover have "unat w div 128 < 128" using True by (simp only: div_less_iff_less_mult) simp
  then have "varint (unat w div 128) = [of_nat (unat w div 128)]" by (rule varint_step)
  ultimately show ?thesis by (simp add: WriteTagToArray_def word_less_nat_alt varint_step more_bytes)
next
  case False
  then show ?thesis by (auto simp: WriteTagToArray_def WriteVarint32Fallback_eq word_less_nat_alt varint_step)
qed

lemma varint_digits:
  "(k = 0 \<or> 128 ^ k \<le> n) \<Longrightarrow> n < 128 ^ Suc k \<Longrightarrow>
    varint n = map (\<lambda>i. more_byte (n div 128 ^ i)) [0..<k] @ [of_nat (n div 128 ^ k)]"
proof (induction k arbitrary: n)
  case (Suc k)
  have big: "128 \<le> n" using Suc.prems(1) power_increasing [of 1 "Suc k" "128 :: nat"] by (simp add: order_trans del: power_Suc)
  have "varint (n div 128) = map (\<lambda>i. more_byte (n div 128 div 128 ^ i)) [0..<k] @ [of_nat (n div 128 div 128 ^ k)]"
    using Suc.prems by (intro Suc.IH) (auto simp: less_eq_div_iff_mult_less_eq div_less_iff_less_mult mult.commute)
  then show ?case
    using big by (simp add: varint_step div_mult2_eq [symmetric] map_upt_Suc del: upt_Suc)
qed (simp add: varint_step)

lemma more_byte_cong: "m mod 128 = n mod 128 \<Longrightarrow> more_byte m = more_byte n"
  by (simp add: more_byte_def)

lemma varint64_parts:
  fixes w :: "64 word"
  shows "unat (ucast w :: 32 word) = unat w mod 2 ^ 32"
    and "unat (ucast (drop_bit 28 w) :: 32 word) = unat w div 2 ^ 28 mod 2 ^ 32"
    and "unat (ucast (drop_bit 56 w) :: 32 word) = unat w div 2 ^ 56"
  using unat_bound [of w] by (simp_all add: unat_shift unsigned_ucast_eq take_bit_eq_mod)

lemma varint64_size_range:
  fixes w :: "64 word"
  defines "sz \<equiv> varint64_size (ucast w) (ucast (drop_bit 28 w)) (ucast (drop_bit 56 w))"
  shows "0 < sz \<and> sz \<le> 10 \<and> (sz - 1 = 0 \<or> 128 ^ (sz - 1) \<le> unat w) \<and> unat w < 128 ^ Suc (sz - 1)"
proof -
  let ?n = "unat w"
  note zero = unat_eq_zero [symmetric]
  have n: "?n < 2 ^ 64" using unat_bound [of w] by simp
  consider "?n < 2 ^ 28" | "2 ^ 28 \<le> ?n" "?n < 2 ^ 56" | "2 ^ 56 \<le> ?n" by linarith
  then show ?thesis
  proof cases
    case 1
    then have "?n mod 2 ^ 32 = ?n" "?n div 2 ^ 28 = 0" "?n div 2 ^ 56 = 0" by simp_all
    then show ?thesis
      using 1 unfolding sz_def varint64_size_def word_less_nat_alt zero varint64_parts [of w] by simp
  next
    case 2
    then have p1: "?n div 2 ^ 28 mod 2 ^ 32 = ?n div 2 ^ 28" "?n div 2 ^ 28 \<noteq> 0" by (simp_all add: div_eq_0_iff)
    show ?thesis
      using 2 p1 unfolding sz_def varint64_size_def word_less_nat_alt zero varint64_parts [of w] p1(1)
      by (simp add: div_less_iff_less_mult)
  next
    case 3
    then show ?thesis
      using n unfolding sz_def varint64_size_def word_less_nat_alt zero varint64_parts [of w]
      by (simp add: div_less_iff_less_mult div_eq_0_iff)
  qed
qed

lemma mod_div_mod: "b + 7 \<le> a \<Longrightarrow> (n :: nat) mod 2 ^ a div 2 ^ b mod 2 ^ 7 = n div 2 ^ b mod 2 ^ 7"
  by (simp only: take_bit_eq_mod [symmetric] drop_bit_eq_div [symmetric] drop_bit_take_bit take_bit_take_bit min_absorb1 min_absorb2 le_diff_conv2 add_leD1)

lemma WriteVarint64_eq: "WriteVarint64ToArrayInline w = varint (unat w)"
proof -
  let ?n = "unat w"
  let ?p0 = "ucast w :: 32 word" and ?p1 = "ucast (drop_bit 28 w) :: 32 word" and ?p2 = "ucast (drop_bit 56 w) :: 32 word"
  define sz where "sz = varint64_size ?p0 ?p1 ?p2"
  have r: "0 < sz" "sz \<le> 10" "sz - 1 = 0 \<or> 128 ^ (sz - 1) \<le> ?n" "?n < 128 ^ Suc (sz - 1)"
    using varint64_size_range [of w] unfolding sz_def by blast+
  let ?ds = "map (\<lambda>i. more_byte (?n div 128 ^ i)) [0..<10]"
  have u: "[0..<10] = [0, 1, 2, 3, 4, 5, 6, 7, 8, 9 :: nat]" by (simp add: upt_rec)
  have cut: "(n mod 4294967296) div 128 mod 128 = n div 128 mod 128"
    "(n mod 4294967296) div 16384 mod 128 = n div 16384 mod 128"
    "(n mod 4294967296) div 2097152 mod 128 = n div 2097152 mod 128"
    "(n mod 4294967296) mod 128 = n mod 128" for n :: nat
    using mod_div_mod [of 7 32 n] mod_div_mod [of 14 32 n] mod_div_mod [of 21 32 n] mod_div_mod [of 0 32 n] by simp_all
  have ds: "[ucast (?p0 OR 0x80), ucast (drop_bit 7 ?p0 OR 0x80), ucast (drop_bit 14 ?p0 OR 0x80),
             ucast (drop_bit 21 ?p0 OR 0x80), ucast (?p1 OR 0x80), ucast (drop_bit 7 ?p1 OR 0x80),
             ucast (drop_bit 14 ?p1 OR 0x80), ucast (drop_bit 21 ?p1 OR 0x80), ucast (?p2 OR 0x80),
             ucast (drop_bit 7 ?p2 OR 0x80)] = ?ds"
    unfolding u
    by (simp add: more_bytes, intro conjI more_byte_cong)
      (simp_all add: unat_shift varint64_parts [of w] cut div_mult2_eq [symmetric])
  have last: "?ds ! (sz - 1) AND 0x7F = of_nat (?n div 128 ^ (sz - 1))"
  proof -
    have "[0..<10] ! (sz - 1) = sz - 1" using r by (subst nth_upt) auto
    moreover have "?n div 128 ^ (sz - 1) < 128" using r(4) by (simp add: div_less_iff_less_mult mult.commute)
    ultimately show ?thesis using r by simp
  qed
  have "WriteVarint64ToArrayInline w = (take sz ?ds)[sz - 1 := ?ds ! (sz - 1) AND 0x7F]"
    using r unfolding WriteVarint64ToArrayInline_def Let_def ds sz_def [symmetric] by simp
  also have "... = take (sz - 1) ?ds @ [?ds ! (sz - 1) AND 0x7F]"
  proof -
    obtain k where "sz = Suc k" using r(1) gr0_conv_Suc by blast
    then show ?thesis using r(2) by (simp add: take_Suc_conv_app_nth list_update_append)
  qed
  also have "... = varint ?n"
    unfolding last varint_digits [OF r(3,4)] using r by (simp add: take_map)
  finally show ?thesis .
qed

section \<open>Sizes\<close>

lemma length_varint:
  assumes "k = 0 \<or> 128 ^ k \<le> n" and "n < 128 ^ Suc k"
  shows "length (varint n) = Suc k"
  by (simp add: varint_digits [OF assms])

lemma VarintSize32_eq: "VarintSize32 w = int (length (varint (unat w)))"
proof -
  have "unat w < 2 ^ 32" using unat_bound [of w] by simp
  moreover have "length (varint n) = (if n < 2 ^ 7 then 1 else if n < 2 ^ 14 then 2 else if n < 2 ^ 21 then 3
      else if n < 2 ^ 28 then 4 else 5)" if "n < 2 ^ 32" for n
    using that length_varint [of 0 n] length_varint [of 1 n] length_varint [of 2 n] length_varint [of 3 n]
      length_varint [of 4 n] by auto
  ultimately show ?thesis
    by (simp add: VarintSize32_def VarintSize32Fallback_def word_less_nat_alt)
qed

lemma VarintSize64_eq: "VarintSize64 w = int (length (varint (unat w)))"
proof -
  have "unat w < 2 ^ 64" using unat_bound [of w] by simp
  moreover have "length (varint n) = (if n < 2 ^ 7 then 1 else if n < 2 ^ 14 then 2 else if n < 2 ^ 21 then 3
      else if n < 2 ^ 28 then 4 else if n < 2 ^ 35 then 5 else if n < 2 ^ 42 then 6 else if n < 2 ^ 49 then 7
      else if n < 2 ^ 56 then 8 else if n < 2 ^ 63 then 9 else 10)" if "n < 2 ^ 64" for n
    using that length_varint [of 0 n] length_varint [of 1 n] length_varint [of 2 n] length_varint [of 3 n]
      length_varint [of 4 n] length_varint [of 5 n] length_varint [of 6 n] length_varint [of 7 n]
      length_varint [of 8 n] length_varint [of 9 n] by auto
  ultimately show ?thesis
    by (simp add: VarintSize64_def word_less_nat_alt)
qed

section \<open>All readers read the reference\<close>

definition low_digit :: "byte \<Rightarrow> nat" where
  "low_digit b = unat b mod 128"

text \<open>Reading with unbounded numbers.\<close>

primrec read_digits :: "byte list \<Rightarrow> nat \<Rightarrow> nat \<Rightarrow> nat \<Rightarrow> fault + (nat \<times> nat) option" where
  "read_digits buf 0 i acc = Inr None"
| "read_digits buf (Suc k) i acc =
     (case arr_get buf (int i) of
        Inl e \<Rightarrow> Inl e
      | Inr b \<Rightarrow>
          if b < 128 then Inr (Some (acc + 128 ^ i * low_digit b, Suc i))
          else read_digits buf k (Suc i) (acc + 128 ^ i * low_digit b))"

lemma low_digit_less: "low_digit b < 128"
  by (simp add: low_digit_def)

lemma read_digits_varint:
  "read_digits buf k i acc =
    (case varint_read k (drop i buf) of
       Some (n, rest) \<Rightarrow> Inr (Some (acc + 128 ^ i * n, length buf - length rest))
     | None \<Rightarrow> if k \<le> length buf - i then Inr None else Inl OutOfBounds)"
proof (induction k arbitrary: i acc)
  case (Suc k)
  show ?case
  proof (cases "i < length buf")
    case True
    have low: "unat (buf ! i) = (if buf ! i < 128 then low_digit (buf ! i) else 128 + low_digit (buf ! i))"
      using unat_bound [of "buf ! i"] mod_if [of "unat (buf ! i)" 128] by (simp add: low_digit_def word_less_nat_alt)
    show ?thesis
      using True low by (auto simp: Cons_nth_drop_Suc [symmetric] arr_get_def Suc.IH algebra_simps split: option.split)
  next
    case False
    then show ?thesis by (simp add: arr_get_def)
  qed
qed simp

text \<open>One step of an unrolled reader: the digit and the mark.\<close>

lemma digit_bits:
  "(ucast (b :: byte) AND 0x80 = (0 :: 32 word)) = (b < 128)"
  "(ucast b AND 0x7F :: 32 word) = of_nat (low_digit b)"
proof -
  have "(ucast b AND 0x7F :: 32 word) = of_nat (unat b mod 128)"
  proof -
    have "unat b mod 128 = take_bit 7 (unat b)" by (simp add: take_bit_eq_mod)
    then show ?thesis by (auto simp: byte_bits intro!: bit_word_eqI)
  qed
  then show "(ucast b AND 0x7F :: 32 word) = of_nat (low_digit b)" by (simp add: low_digit_def)
  have "bit (ucast b AND 0x80 :: 32 word) n \<longleftrightarrow> n = 7 \<and> bit b 7" for n
    by (auto simp: byte_bits)
  then have "(ucast b AND 0x80 = (0 :: 32 word)) \<longleftrightarrow> \<not> bit b 7"
    by (metis bit_0_eq bit_word_eqI bot_apply bot_bool_def)
  also have "... \<longleftrightarrow> unat b div 128 = 0"
  proof -
    have "bit b 7 \<longleftrightarrow> bit (unat b) 7" by (simp add: bit_simps)
    moreover have "unat b div 128 < 2" using unat_bound [of b] by (simp add: div_less_iff_less_mult)
    ultimately show ?thesis by (auto simp: bit_iff_odd less_2_cases_iff)
  qed
  also have "... \<longleftrightarrow> b < 128" by (simp add: div_eq_0_iff word_less_nat_alt)
  finally show "(ucast b AND 0x80 = (0 :: 32 word)) = (b < 128)" .
qed

lemma or_shift: "a < 2 ^ k \<Longrightarrow> (of_nat a OR push_bit k (of_nat d) :: 'a::len word) = of_nat (a + 2 ^ k * d)"
proof -
  assume a: "a < 2 ^ k"
  have "bit a n \<Longrightarrow> n < k" for n
    using a by (metis bit_take_bit_iff take_bit_nat_eq_self)
  then have "(of_nat a :: 'a word) + push_bit k (of_nat d) = of_nat a OR push_bit k (of_nat d)"
    by (intro disjunctive_add) (fastforce simp: bit_simps)
  then show ?thesis by (simp add: push_bit_eq_mult mult.commute)
qed

lemma digit_sums:
  "low_digit a + 128 * low_digit b < 16384"
  "low_digit a + 128 * low_digit b + 16384 * low_digit c < 2097152"
  "low_digit a + 128 * low_digit b + 16384 * low_digit c + 2097152 * low_digit d < 268435456"
  using low_digit_less [of a] low_digit_less [of b] low_digit_less [of c] low_digit_less [of d] by linarith+

lemma or_shifts:
  fixes a b c d :: byte
  shows "(of_nat (low_digit a) OR push_bit 7 (of_nat (low_digit b)) :: 32 word) = of_nat (low_digit a + 128 * low_digit b)"
    "(of_nat (low_digit a + 128 * low_digit b) OR push_bit 14 (of_nat (low_digit c)) :: 32 word)
      = of_nat (low_digit a + 128 * low_digit b + 16384 * low_digit c)"
    "(of_nat (low_digit a + 128 * low_digit b + 16384 * low_digit c) OR push_bit 21 (of_nat (low_digit d)) :: 32 word)
      = of_nat (low_digit a + 128 * low_digit b + 16384 * low_digit c + 2097152 * low_digit d)"
  using or_shift [where 'a = 32, of "low_digit a" 7 "low_digit b"]
    or_shift [where 'a = 32, of "low_digit a + 128 * low_digit b" 14 "low_digit c"]
    or_shift [where 'a = 32, of "low_digit a + 128 * low_digit b + 16384 * low_digit c" 21 "low_digit d"]
  by (simp_all add: low_digit_less digit_sums del: of_nat_add)

lemma varint_parts_eq:
  assumes "s0 < 2 ^ 28" "s1 < 2 ^ 28" "s2 < 2 ^ 28"
  shows "varint_parts (of_nat s0) (of_nat s1) (of_nat s2) = of_nat (s0 + 2 ^ 28 * s1 + 2 ^ 56 * s2)"
proof -
  have c: "(ucast (of_nat s :: 32 word) :: 64 word) = of_nat s" if "s < 2 ^ 28" for s
    using that by (simp add: unsigned_of_nat take_bit_nat_eq_self)
  have "s0 + 2 ^ 28 * s1 < 2 ^ 56" using assms by simp
  then show ?thesis
    using or_shift [where 'a = 64, of s0 28 s1] or_shift [where 'a = 64, of "s0 + 2 ^ 28 * s1" 56 s2] assms
    by (simp add: varint_parts_def c)
qed

lemma unroll_step:
  assumes "j = i" "c = Suc i"
    and "\<And>b :: byte. b < 128 \<Longrightarrow> V (ucast b) = f (acc + 128 ^ i * low_digit b)"
    and "\<And>b :: byte. \<not> b < 128 \<Longrightarrow> K (ucast b) =
      map_sum id (map_option (\<lambda>(n, c). (f n, c))) (read_digits buf k (Suc i) (acc + 128 ^ i * low_digit b))"
  shows "next_b buf j (\<lambda>x. if x AND 0x80 = 0 then Inr (Some (V x, c)) else K x)
    = map_sum id (map_option (\<lambda>(n, c). (f n, c))) (read_digits buf (Suc k) i acc)"
  using assms by (auto simp: next_b_def digit_bits split: sum.split)

lemmas unroll_ten = numeral_eq_Suc pred_numeral_simps BitM.simps arith_simps

lemma ReadVarint64_digits:
  "ReadVarint64FromArray buf = map_sum id (map_option (\<lambda>(n, c). (of_nat n, c))) (read_digits buf 10 0 0)"
proof -
  have ten: "read_digits buf 10 0 0 = read_digits buf (Suc (Suc (Suc (Suc (Suc (Suc (Suc (Suc (Suc (Suc 0)))))))))) 0 0"
    by (simp only: unroll_ten)
  have parts: "s0 < 268435456 \<Longrightarrow> varint_parts (of_nat s0) 0 0 = of_nat s0"
    "s0 < 268435456 \<Longrightarrow> s1 < 268435456 \<Longrightarrow> varint_parts (of_nat s0) (of_nat s1) 0 = of_nat (s0 + 268435456 * s1)"
    "s0 < 268435456 \<Longrightarrow> s1 < 268435456 \<Longrightarrow> s2 < 268435456 \<Longrightarrow>
      varint_parts (of_nat s0) (of_nat s1) (of_nat s2) = of_nat (s0 + 268435456 * s1 + 72057594037927936 * s2)" for s0 s1 s2
    using varint_parts_eq [of s0 s1 s2] varint_parts_eq [of s0 s1 0] varint_parts_eq [of s0 0 0] by simp_all
  have small: "low_digit a < 268435456" "low_digit a + 128 * low_digit b < 268435456"
    "low_digit a + 128 * low_digit b + 16384 * low_digit c < 268435456" for a b c
    using low_digit_less [of a] low_digit_less [of b] low_digit_less [of c] by linarith+
  show ?thesis
    unfolding ReadVarint64FromArray_def Let_def ten
    by (intro unroll_step)
      (simp_all add: digit_bits or_shifts parts small digit_sums del: of_nat_add of_nat_mult,
       simp_all add: algebra_simps)
qed

text \<open>The high bits of the last digits fall off a 32 bit word.\<close>

lemma word32_high: "(of_nat (acc + 2 ^ 35 * d) :: 32 word) = of_nat acc"
proof -
  have "acc + 2 ^ 35 * d = acc + 2 ^ 32 * (8 * d)" by simp
  then have "(acc + 2 ^ 35 * d) mod 2 ^ 32 = acc mod 2 ^ 32" by (simp only: mod_mult_self2)
  then show ?thesis by (simp only: word_of_nat_eq_iff take_bit_eq_mod) simp
qed

lemma discard_high_eq:
  "5 \<le> i \<Longrightarrow> discard_high buf k i (of_nat acc) =
    map_sum id (map_option (\<lambda>(n, c). (of_nat n, c))) (read_digits buf k i acc)"
proof (induction k arbitrary: i acc)
  case (Suc k)
  have "(128 :: nat) ^ i = 2 ^ 35 * 128 ^ (i - 5)"
    using Suc.prems power_add [of "128 :: nat" 5 "i - 5"] by simp
  then have high: "(of_nat (acc + 128 ^ i * d) :: 32 word) = of_nat acc" for d
    using word32_high [of acc "128 ^ (i - 5) * d"] by (simp only: mult.assoc)
  have "discard_high buf k (Suc i) (of_nat acc) = map_sum id (map_option (\<lambda>(n, c). (of_nat n, c)))
      (read_digits buf k (Suc i) (acc + 128 ^ i * d))" for d
    using Suc.IH [of "Suc i" "acc + 128 ^ i * d"] Suc.prems by (simp only: high)
  then show ?case
    unfolding discard_high.simps by (intro unroll_step) (simp_all only: high)
qed simp

lemma ReadVarint32_digits:
  "ReadVarint32FromArray buf = map_sum id (map_option (\<lambda>(n, c). (of_nat n, c))) (read_digits buf 10 0 0)"
proof -
  have ten: "read_digits buf 10 0 0 = read_digits buf (Suc (Suc (Suc (Suc (Suc 5))))) 0 0"
    by (simp only: unroll_ten)
  have five: "Suc (Suc (Suc (Suc (Suc 0)))) = 5" by simp
  have b5: "(of_nat s OR push_bit 28 (ucast (b :: byte)) :: 32 word) = of_nat (s + 268435456 * low_digit b)"
    if "s < 268435456" for s b
  proof -
    have "unat b = low_digit b + 128 * (unat b div 128)" by (simp add: low_digit_def)
    then have "of_nat (s + 2 ^ 28 * unat b) = (of_nat (s + 2 ^ 28 * low_digit b + 2 ^ 35 * (unat b div 128)) :: 32 word)"
    proof -
      have "s + 2 ^ 28 * unat b = s + 2 ^ 28 * low_digit b + 2 ^ 35 * (unat b div 128)"
        using \<open>unat b = _\<close> by (simp add: algebra_simps) 
      then show ?thesis by (simp only:)
    qed
    then have "(of_nat (s + 2 ^ 28 * unat b) :: 32 word) = of_nat (s + 2 ^ 28 * low_digit b)"
      by (simp only: word32_high)
    then show ?thesis using or_shift [where 'a = 32, of s 28 "unat b"] that by simp
  qed
  show ?thesis
    unfolding ReadVarint32FromArray_def Let_def ten kMaxVarintBytes_def kMaxVarint32Bytes_def
    by (intro unroll_step)
      (simp_all add: digit_bits or_shifts b5 digit_sums discard_high_eq [symmetric] five del: of_nat_add of_nat_mult)
qed

section \<open>Reading back\<close>

lemma low_more: "unat (more_byte n) = 128 + n mod 128" "\<not> more_byte n < 128"
proof -
  have "n mod 128 < 128" by simp
  then have "128 + n mod 128 < 256" by linarith
  then show "unat (more_byte n) = 128 + n mod 128"
    by (simp only: more_byte_def unat_of_nat) simp
  then show "\<not> more_byte n < 128" by (simp add: word_less_nat_alt)
qed

lemma varint_read_varint: "0 < k \<Longrightarrow> n < 128 ^ k \<Longrightarrow> varint_read k (varint n @ rest) = Some (n, rest)"
proof (induction n arbitrary: k rule: varint.induct)
  case (1 n)
  obtain k' where k: "k = Suc k'" using "1.prems"(1) by (cases k) auto
  show ?case
  proof (cases "n < 128")
    case True
    then show ?thesis using k by (simp add: varint_step unat_of_nat word_less_nat_alt)
  next
    case False
    then have "k' \<noteq> 0" using "1.prems"(2) k by (cases k') auto
    then have "varint_read k' (varint (n div 128) @ rest) = Some (n div 128, rest)"
      using 1 k False by (simp add: div_less_iff_less_mult mult.commute)
    then show ?thesis using False k by (simp add: varint_step low_more)
  qed
qed

lemma varint_read_suffix: "varint_read k bs = Some (n, rest) \<Longrightarrow> \<exists>pre. bs = pre @ rest \<and> pre \<noteq> [] \<and> length pre \<le> k"
proof (induction k bs arbitrary: n rule: varint_read.induct)
  case (1 k b bs)
  show ?case
  proof (cases "b < 128")
    case True
    then show ?thesis using 1 by (intro exI [of _ "[b]"]) simp
  next
    case False
    then obtain n' where "varint_read k bs = Some (n', rest)" using "1.prems" by auto
    then obtain pre where "bs = pre @ rest" "length pre \<le> k" using 1 False by blast
    then show ?thesis by (intro exI [of _ "b # pre"]) simp
  qed
qed simp_all

lemma varint64_bound: "unat (w :: 64 word) < 128 ^ 10"
  using unat_bound [of w] by simp

text \<open>What the readers do with a memory, in terms of the reference.\<close>

lemma ReadVarint64_eq:
  "ReadVarint64FromArray buf =
    (case varint_read 10 buf of
       Some (n, rest) \<Rightarrow> Inr (Some (of_nat n, length buf - length rest))
     | None \<Rightarrow> if 10 \<le> length buf then Inr None else Inl OutOfBounds)"
  by (simp add: ReadVarint64_digits read_digits_varint split: option.split)

lemma ReadVarint32_eq:
  "ReadVarint32FromArray buf =
    (case varint_read 10 buf of
       Some (n, rest) \<Rightarrow> Inr (Some (of_nat n, length buf - length rest))
     | None \<Rightarrow> if 10 \<le> length buf then Inr None else Inl OutOfBounds)"
  by (simp add: ReadVarint32_digits read_digits_varint split: option.split)

section \<open>Properties\<close>

text \<open>
  The unrolled 64 bit writer, with its binary search for the size and its three 32 bit parts,
  writes byte for byte what the plain loop of the slow path writes, and \<^verbatim>\<open>VarintSize64\<close> is the number
  of bytes.
\<close>

lemma WriteVarint64_equals_loop:
  "WriteVarint64ToArrayInline w = varint_loop w \<and> int (length (WriteVarint64ToArrayInline w)) = VarintSize64 w"
  by (simp add: WriteVarint64_eq varint_loop_eq VarintSize64_eq)

text \<open>
  Likewise for 32 bit values: the nested writer, the writer for tags and the loop agree, and
  \<^verbatim>\<open>VarintSize32\<close> is the number of bytes.
\<close>

theorem WriteVarint32_equals_loop:
  "WriteVarint32ToArray w = varint_loop w \<and> WriteTagToArray w = varint_loop w
    \<and> int (length (WriteVarint32ToArray w)) = VarintSize32 w"
  by (simp add: WriteVarint32_eq WriteTag_eq varint_loop_eq VarintSize32_eq)

text \<open>
  Round trip of varints: what the 64 bit writer wrote is read back by the unrolled 64 bit reader
  whatever follows it in memory, consuming exactly the bytes written, and the 32 bit reader
  returns its low half.
\<close>

lemma varint_round_trip:
  "ReadVarint64FromArray (WriteVarint64ToArrayInline w @ rest) = Inr (Some (w, length (WriteVarint64ToArrayInline w)))
    \<and> ReadVarint32FromArray (WriteVarint64ToArrayInline w @ rest)
      = Inr (Some (ucast w, length (WriteVarint64ToArrayInline w)))"
  using varint_read_varint [OF _ varint64_bound, of w rest]
  by (simp add: ReadVarint64_eq ReadVarint32_eq WriteVarint64_eq)

end
