(* ===== verification/Coded_Input.thy ===== *)
theory Coded_Input
  imports Varint
begin

text \<open>
  \<^verbatim>\<open>CodedInputStream\<close> of the protocol buffer runtime (\<^verbatim>\<open>io/coded_stream.h\<close>, \<^verbatim>\<open>io/coded_stream.cc\<close>,
  \<^verbatim>\<open>io/coded_stream_inl.h\<close>). The pointers \<^verbatim>\<open>buffer_\<close> and \<^verbatim>\<open>buffer_end_\<close> are offsets into the block of memory
  they point to. The stream underneath is any \<^verbatim>\<open>ZeroCopyInputStream\<close>: the list of the blocks its
  \<^verbatim>\<open>Next\<close> will still return, empty ones included; \<open>None\<close> is the null pointer of a stream over one
  array, which is how \<^verbatim>\<open>ParseFromString\<close> reads.
\<close>

section \<open>Data\<close>

definition INT_MAX :: int where "INT_MAX = 2147483647"

definition kDefaultTotalBytesLimit :: int where "kDefaultTotalBytesLimit = 67108864"

definition kDefaultTotalBytesWarningThreshold :: int where "kDefaultTotalBytesWarningThreshold = 33554432"

definition default_recursion_limit :: int where "default_recursion_limit = 100"

record CodedInputStream =
  zc_input :: "byte list list option"
  block :: "byte list"
  bufp :: int
  buf_end :: int
  total_bytes_read :: int
  overflow_bytes :: int
  last_tag :: "32 word"
  legitimate_message_end :: bool
  current_limit :: int
  buffer_size_after_limit :: int
  total_bytes_limit :: int
  total_bytes_warning_threshold :: int
  recursion_depth :: int
  recursion_limit :: int

type_synonym 'a cis = "(CodedInputStream, 'a) mon"

section \<open>Position and limits\<close>

definition BufferSize :: "CodedInputStream \<Rightarrow> int" where
  "BufferSize s = buf_end s - bufp s"

definition CurrentPosition :: "CodedInputStream \<Rightarrow> int" where
  "CurrentPosition s = total_bytes_read s - (BufferSize s + buffer_size_after_limit s)"

definition Advance :: "int \<Rightarrow> CodedInputStream \<Rightarrow> CodedInputStream" where
  "Advance amount s = s\<lparr>bufp := bufp s + amount\<rparr>"

definition RecomputeBufferLimits :: "CodedInputStream \<Rightarrow> CodedInputStream" where
  "RecomputeBufferLimits s0 =
     (let s = s0\<lparr>buf_end := buf_end s0 + buffer_size_after_limit s0\<rparr>;
          closest_limit = min (current_limit s) (total_bytes_limit s)
      in if closest_limit < total_bytes_read s
         then s\<lparr>buffer_size_after_limit := total_bytes_read s - closest_limit,
                buf_end := buf_end s - (total_bytes_read s - closest_limit)\<rparr>
         else s\<lparr>buffer_size_after_limit := 0\<rparr>)"

text \<open>The result is the old limit, for \<^verbatim>\<open>PopLimit\<close>.\<close>

definition PushLimit :: "int \<Rightarrow> CodedInputStream \<Rightarrow> int \<times> CodedInputStream" where
  "PushLimit byte_limit s =
     (let current_position = CurrentPosition s;
          old_limit = current_limit s;
          limit = if byte_limit \<ge> 0 \<and> byte_limit \<le> INT_MAX - current_position
                  then current_position + byte_limit else INT_MAX
      in (old_limit, RecomputeBufferLimits (s\<lparr>current_limit := min limit old_limit\<rparr>)))"

definition PopLimit :: "int \<Rightarrow> CodedInputStream \<Rightarrow> CodedInputStream" where
  "PopLimit limit s =
     (RecomputeBufferLimits (s\<lparr>current_limit := limit\<rparr>))\<lparr>legitimate_message_end := False\<rparr>"

definition BytesUntilLimit :: "CodedInputStream \<Rightarrow> int" where
  "BytesUntilLimit s = (if current_limit s = INT_MAX then -1 else current_limit s - CurrentPosition s)"

definition SetTotalBytesLimit :: "int \<Rightarrow> int \<Rightarrow> CodedInputStream \<Rightarrow> CodedInputStream" where
  "SetTotalBytesLimit limit warning s =
     RecomputeBufferLimits (s\<lparr>total_bytes_limit := max (CurrentPosition s) limit,
       total_bytes_warning_threshold := (if warning \<ge> 0 then warning else -1)\<rparr>)"

definition IncrementRecursionDepth :: "CodedInputStream \<Rightarrow> bool \<times> CodedInputStream" where
  "IncrementRecursionDepth s =
     (recursion_depth s + 1 \<le> recursion_limit s, s\<lparr>recursion_depth := recursion_depth s + 1\<rparr>)"

definition DecrementRecursionDepth :: "CodedInputStream \<Rightarrow> CodedInputStream" where
  "DecrementRecursionDepth s = (if recursion_depth s > 0 then s\<lparr>recursion_depth := recursion_depth s - 1\<rparr> else s)"

definition SetRecursionLimit :: "int \<Rightarrow> CodedInputStream \<Rightarrow> CodedInputStream" where
  "SetRecursionLimit limit s = s\<lparr>recursion_limit := limit\<rparr>"

definition IsFlat :: "CodedInputStream \<Rightarrow> bool" where
  "IsFlat s \<longleftrightarrow> zc_input s = None"

definition LastTagWas :: "32 word \<Rightarrow> CodedInputStream \<Rightarrow> bool" where
  "LastTagWas expected s \<longleftrightarrow> last_tag s = expected"

definition ConsumedEntireMessage :: "CodedInputStream \<Rightarrow> bool" where
  "ConsumedEntireMessage s = legitimate_message_end s"

section \<open>Refilling the buffer\<close>

fun NextNonEmpty :: "byte list list \<Rightarrow> (byte list \<times> byte list list) option" where
  "NextNonEmpty [] = None"
| "NextNonEmpty (b # bs) = (if b = [] then NextNonEmpty bs else Some (b, bs))"

text \<open>The warnings and the error message of \<^verbatim>\<open>Refresh\<close> are only printed.\<close>

definition Refresh :: "bool cis" where
  "Refresh s =
     (if buffer_size_after_limit s > 0 \<or> overflow_bytes s > 0 \<or> total_bytes_read s = current_limit s
      then Inr (False, s)
      else
        let s1 = (if total_bytes_warning_threshold s \<ge> 0 \<and> total_bytes_read s \<ge> total_bytes_warning_threshold s
                  then s\<lparr>total_bytes_warning_threshold := -2\<rparr> else s)
        in case zc_input s1 of
          None \<Rightarrow> Inl NullDeref
        | Some bs \<Rightarrow>
            (case NextNonEmpty bs of
               None \<Rightarrow> Inr (False, s1\<lparr>zc_input := Some [], block := [], bufp := 0, buf_end := 0\<rparr>)
             | Some (b, rest) \<Rightarrow>
                 let buffer_size = int (length b);
                     s2 = s1\<lparr>zc_input := Some rest, block := b, bufp := 0, buf_end := buffer_size\<rparr>;
                     s3 = (if total_bytes_read s2 \<le> INT_MAX - buffer_size
                           then s2\<lparr>total_bytes_read := total_bytes_read s2 + buffer_size\<rparr>
                           else let over = total_bytes_read s2 - (INT_MAX - buffer_size)
                                in s2\<lparr>overflow_bytes := over, buf_end := buf_end s2 - over, total_bytes_read := INT_MAX\<rparr>)
                 in Inr (True, RecomputeBufferLimits s3)))"

text \<open>
  Giving back to the stream what has not been read of the last block it handed out, as the destructor does;
  \<^verbatim>\<open>ZeroCopyInputStream::BackUp\<close> wants no more than that block.
\<close>

definition BackUpInputToCurrentPosition :: "unit cis" where
  "BackUpInputToCurrentPosition s =
     (let backup_bytes = BufferSize s + buffer_size_after_limit s + overflow_bytes s in
      if backup_bytes > 0 then
        (case zc_input s of
           None \<Rightarrow> Inl NullDeref
         | Some bs \<Rightarrow>
             if int (length (block s)) < backup_bytes then Inl AssertFail
             else Inr ((), s\<lparr>zc_input := Some (drop (length (block s) - nat backup_bytes) (block s) # bs),
               total_bytes_read := total_bytes_read s - (BufferSize s + buffer_size_after_limit s),
               buf_end := bufp s, buffer_size_after_limit := 0, overflow_bytes := 0\<rparr>))
      else Inr ((), s))"

text \<open>How many blocks the stream still has; every successful \<^verbatim>\<open>Refresh\<close> takes at least one.\<close>

definition blocks_left :: "CodedInputStream \<Rightarrow> nat" where
  "blocks_left s = (case zc_input s of None \<Rightarrow> 0 | Some bs \<Rightarrow> length bs)"

lemma NextNonEmpty_fewer: "NextNonEmpty bs = Some (b, rest) \<Longrightarrow> length rest < length bs"
  by (induction bs) (auto split: if_splits)

lemma Recompute_input [simp]: "zc_input (RecomputeBufferLimits s) = zc_input s"
  by (simp add: RecomputeBufferLimits_def Let_def)

lemma Refresh_fewer: "Refresh s = Inr (True, s') \<Longrightarrow> blocks_left s' < blocks_left s"
  by (auto simp: Refresh_def blocks_left_def Let_def dest: NextNonEmpty_fewer split: if_splits option.splits prod.splits)

section \<open>Raw bytes\<close>

text \<open>The loop of \<^verbatim>\<open>ReadRaw\<close>; the result carries the bytes copied so far.\<close>

function ReadRaw_loop :: "int \<Rightarrow> byte list \<Rightarrow> (bool \<times> byte list) cis" where
  "ReadRaw_loop sz acc s =
     (let n = BufferSize s in
      if n < sz then
        (case mem_read (block s) (bufp s) n of
           Inl e \<Rightarrow> Inl e
         | Inr got \<Rightarrow>
             (case Refresh (Advance n s) of
                Inl e \<Rightarrow> Inl e
              | Inr (ok, s') \<Rightarrow>
                  if \<not> ok then Inr ((False, acc @ got), s')
                  else ReadRaw_loop (sz - n) (acc @ got) s'))
      else
        (case mem_read (block s) (bufp s) sz of
           Inl e \<Rightarrow> Inl e
         | Inr got \<Rightarrow> Inr ((True, acc @ got), Advance sz s)))"
  by pat_completeness auto
termination
proof (relation "measure (\<lambda>(sz, acc, s). blocks_left s)")
  fix sz :: int and acc n s got p ok s'
  assume "n = BufferSize s" and "Refresh (Advance n s) = Inr p" and "(ok, s') = p" and "\<not> \<not> ok"
  then have "blocks_left s' < blocks_left (Advance n s)" by (auto intro: Refresh_fewer)
  then show "((sz - n, acc @ got, s'), sz, acc, s) \<in> measure (\<lambda>(sz, acc, s). blocks_left s)"
    by (simp add: Advance_def blocks_left_def)
qed simp

declare ReadRaw_loop.simps [simp del]

definition ReadRaw :: "int \<Rightarrow> (bool \<times> byte list) cis" where
  "ReadRaw sz = ReadRaw_loop sz []"

text \<open>
  \<^verbatim>\<open>ReadStringFallback\<close> clears the string and then runs the same loop, appending instead of copying.
\<close>

definition ReadStringFallback :: "int \<Rightarrow> (bool \<times> byte list) cis" where
  "ReadStringFallback sz = ReadRaw_loop sz []"

definition InternalReadStringInline :: "int \<Rightarrow> (bool \<times> byte list) cis" where
  "InternalReadStringInline sz =
     (if sz < 0 then mreturn (False, [])
      else mbind (mgets BufferSize) (\<lambda>n.
        if n \<ge> sz then
          mbind (mgets (\<lambda>s. (block s, bufp s))) (\<lambda>(b, p).
          mbind (mlift (mem_read b p sz)) (\<lambda>got.
          mseq (mmodify (Advance sz)) (mreturn (True, got))))
        else ReadStringFallback sz))"

definition CIS_ReadString :: "int \<Rightarrow> (bool \<times> byte list) cis" where
  "CIS_ReadString sz = (if sz < 0 then mreturn (False, []) else InternalReadStringInline sz)"

text \<open>\<^verbatim>\<open>input_->Skip(count)\<close> on the blocks that are left.\<close>

fun zc_skip :: "nat \<Rightarrow> byte list list \<Rightarrow> bool \<times> byte list list" where
  "zc_skip n [] = (n = 0, [])"
| "zc_skip n (b # bs) = (if n \<le> length b then (True, drop n b # bs) else zc_skip (n - length b) bs)"

definition input_Skip :: "int \<Rightarrow> bool cis" where
  "input_Skip count s =
     (case zc_input s of
        None \<Rightarrow> Inl NullDeref
      | Some bs \<Rightarrow> (let (ok, rest) = zc_skip (nat count) bs in Inr (ok, s\<lparr>zc_input := Some rest\<rparr>)))"

definition CIS_Skip :: "int \<Rightarrow> bool cis" where
  "CIS_Skip count =
     (if count < 0 then mreturn False
      else mbind (mgets (\<lambda>s. s)) (\<lambda>s.
        let original_buffer_size = BufferSize s in
        if count \<le> original_buffer_size then mseq (mmodify (Advance count)) (mreturn True)
        else if buffer_size_after_limit s > 0
        then mseq (mmodify (Advance original_buffer_size)) (mreturn False)
        else
          let rest = count - original_buffer_size;
              closest_limit = min (current_limit s) (total_bytes_limit s);
              bytes_until_limit = closest_limit - total_bytes_read s
          in mseq (mmodify (\<lambda>s. s\<lparr>block := [], bufp := 0, buf_end := 0\<rparr>)) (
             if bytes_until_limit < rest then
               (if bytes_until_limit > 0
                then mseq (mmodify (\<lambda>s. s\<lparr>total_bytes_read := closest_limit\<rparr>))
                       (mseq (input_Skip bytes_until_limit) (mreturn False))
                else mreturn False)
             else mseq (mmodify (\<lambda>s. s\<lparr>total_bytes_read := total_bytes_read s + rest\<rparr>)) (input_Skip rest))))"

definition CIS_GetDirectBufferPointer :: "(byte list \<times> int) option cis" where
  "CIS_GetDirectBufferPointer =
     mbind (mgets BufferSize) (\<lambda>n.
     mbind (if n = 0 then Refresh else mreturn True) (\<lambda>ok.
       if \<not> ok then mreturn None
       else mbind (mgets (\<lambda>s. (block s, bufp s, BufferSize s))) (\<lambda>(b, p, sz).
         mreturn (Some (drop (nat p) b, sz)))))"

section \<open>Fixed-width integers\<close>

definition ReadLittleEndian32Fallback :: "32 word option cis" where
  "ReadLittleEndian32Fallback =
     mbind (mgets BufferSize) (\<lambda>n.
       if n \<ge> 4 then
         mbind (mgets (\<lambda>s. (block s, bufp s))) (\<lambda>(b, p).
         mbind (mlift (mem_read b p 4)) (\<lambda>bytes.
         mseq (mmodify (Advance 4)) (mbind (mlift (ReadLittleEndian32FromArray bytes)) (\<lambda>v. mreturn (Some v)))))
       else
         mbind (ReadRaw 4) (\<lambda>(ok, bytes).
           if \<not> ok then mreturn None
           else mbind (mlift (ReadLittleEndian32FromArray bytes)) (\<lambda>v. mreturn (Some v))))"

definition ReadLittleEndian32 :: "32 word option cis" where
  "ReadLittleEndian32 = ReadLittleEndian32Fallback"

definition ReadLittleEndian64Fallback :: "64 word option cis" where
  "ReadLittleEndian64Fallback =
     mbind (mgets BufferSize) (\<lambda>n.
       if n \<ge> 8 then
         mbind (mgets (\<lambda>s. (block s, bufp s))) (\<lambda>(b, p).
         mbind (mlift (mem_read b p 8)) (\<lambda>bytes.
         mseq (mmodify (Advance 8)) (mbind (mlift (ReadLittleEndian64FromArray bytes)) (\<lambda>v. mreturn (Some v)))))
       else
         mbind (ReadRaw 8) (\<lambda>(ok, bytes).
           if \<not> ok then mreturn None
           else mbind (mlift (ReadLittleEndian64FromArray bytes)) (\<lambda>v. mreturn (Some v))))"

definition ReadLittleEndian64 :: "64 word option cis" where
  "ReadLittleEndian64 = ReadLittleEndian64Fallback"

section \<open>Varints\<close>

text \<open>\<^verbatim>\<open>while (buffer_ == buffer_end_) if (!Refresh()) return false\<close>.\<close>

function fill_buffer :: "bool cis" where
  "fill_buffer s =
     (if bufp s = buf_end s then
        (case Refresh s of
           Inl e \<Rightarrow> Inl e
         | Inr (ok, s') \<Rightarrow> if \<not> ok then Inr (False, s') else fill_buffer s')
      else Inr (True, s))"
  by pat_completeness auto
termination
  by (relation "measure blocks_left") (auto dest: Refresh_fewer)

declare fill_buffer.simps [simp del]

text \<open>The \<^verbatim>\<open>do ... while\<close> loop; \<open>k\<close> is \<open>kMaxVarintBytes - count\<close>.\<close>

primrec ReadVarint64_loop :: "nat \<Rightarrow> nat \<Rightarrow> 64 word \<Rightarrow> 64 word option cis" where
  "ReadVarint64_loop 0 count result = mreturn None"
| "ReadVarint64_loop (Suc k) count result =
     mbind fill_buffer (\<lambda>ok.
       if \<not> ok then mreturn None
       else mbind (mgets (\<lambda>s. (block s, bufp s))) (\<lambda>(mem, p).
         mbind (mlift (arr_get mem p)) (\<lambda>c.
           let b = ucast c :: 32 word;
               result' = result OR push_bit (7 * count) (ucast (b AND 0x7F))
           in mseq (mmodify (Advance 1))
                (if b AND 0x80 \<noteq> 0 then ReadVarint64_loop k (Suc count) result' else mreturn (Some result')))))"

definition ReadVarint64Slow :: "64 word option cis" where
  "ReadVarint64Slow = ReadVarint64_loop kMaxVarintBytes 0 0"

text \<open>May the reader run on the array without checks?\<close>

definition fast_varint :: "bool cis" where
  "fast_varint =
     mbind (mgets (\<lambda>s. (BufferSize s, block s, buf_end s))) (\<lambda>(n, mem, e).
       if n \<ge> int kMaxVarintBytes then mreturn True
       else if n > 0 then mbind (mlift (arr_get mem (e - 1))) (\<lambda>c. mreturn (c AND 0x80 = 0))
       else mreturn False)"

definition from_array :: "(byte list \<Rightarrow> fault + ('a \<times> nat) option) \<Rightarrow> 'a option cis" where
  "from_array reader =
     mbind (mgets (\<lambda>s. drop (nat (bufp s)) (block s))) (\<lambda>mem.
     mbind (mlift (reader mem)) (\<lambda>r.
       case r of
         None \<Rightarrow> mreturn None
       | Some (v, n) \<Rightarrow> mseq (mmodify (Advance (int n))) (mreturn (Some v))))"

definition ReadVarint64Fallback :: "64 word option cis" where
  "ReadVarint64Fallback =
     mbind fast_varint (\<lambda>fast. if fast then from_array ReadVarint64FromArray else ReadVarint64Slow)"

definition ReadVarint32Slow :: "32 word option cis" where
  "ReadVarint32Slow = mbind ReadVarint64Fallback (\<lambda>r. mreturn (map_option ucast r))"

definition ReadVarint32Fallback :: "32 word option cis" where
  "ReadVarint32Fallback =
     mbind fast_varint (\<lambda>fast. if fast then from_array ReadVarint32FromArray else ReadVarint32Slow)"

text \<open>The inline fronts: the one-byte case, or the fallback.\<close>

definition one_byte :: "(byte \<Rightarrow> 'a) \<Rightarrow> 'a cis \<Rightarrow> 'a cis" where
  "one_byte ok fallback =
     mbind (mgets (\<lambda>s. (bufp s < buf_end s, block s, bufp s))) (\<lambda>(some, mem, p).
       if some then
         mbind (mlift (arr_get mem p)) (\<lambda>c.
           if c < 0x80 then mseq (mmodify (Advance 1)) (mreturn (ok c)) else fallback)
       else fallback)"

definition ReadVarint32 :: "32 word option cis" where
  "ReadVarint32 = one_byte (\<lambda>c. Some (ucast c)) ReadVarint32Fallback"

definition ReadVarint64 :: "64 word option cis" where
  "ReadVarint64 = one_byte (\<lambda>c. Some (ucast c)) ReadVarint64Fallback"

section \<open>Tags\<close>

definition ReadTagSlow :: "32 word cis" where
  "ReadTagSlow =
     mbind (mgets (\<lambda>s. bufp s = buf_end s)) (\<lambda>empty.
     mbind (if empty then Refresh else mreturn True) (\<lambda>ok.
       if \<not> ok then
         mseq (mmodify (\<lambda>s. s\<lparr>legitimate_message_end :=
             (if total_bytes_read s - buffer_size_after_limit s \<ge> total_bytes_limit s
              then current_limit s = total_bytes_limit s else True)\<rparr>))
           (mreturn 0)
       else mbind ReadVarint64 (\<lambda>r. mreturn (case r of None \<Rightarrow> 0 | Some v \<Rightarrow> ucast v))))"

definition ReadTagFallback :: "32 word cis" where
  "ReadTagFallback =
     mbind fast_varint (\<lambda>fast.
       if fast then mbind (from_array ReadVarint32FromArray) (\<lambda>r. mreturn (case r of None \<Rightarrow> 0 | Some tag \<Rightarrow> tag))
       else mbind (mgets (\<lambda>s. BufferSize s = 0
             \<and> (buffer_size_after_limit s > 0 \<or> total_bytes_read s = current_limit s)
             \<and> total_bytes_read s - buffer_size_after_limit s < total_bytes_limit s)) (\<lambda>at_limit.
         if at_limit then mseq (mmodify (\<lambda>s. s\<lparr>legitimate_message_end := True\<rparr>)) (mreturn 0)
         else ReadTagSlow))"

definition ReadTag :: "32 word cis" where
  "ReadTag =
     mbind (one_byte ucast ReadTagFallback) (\<lambda>tag.
     mseq (mmodify (\<lambda>s. s\<lparr>last_tag := tag\<rparr>)) (mreturn tag))"

text \<open>Is the next tag the expected one? Then it is consumed.\<close>

definition ExpectTag :: "32 word \<Rightarrow> bool cis" where
  "ExpectTag expected =
     mbind (mgets (\<lambda>s. (BufferSize s, drop (nat (bufp s)) (block s)))) (\<lambda>(n, mem).
       if expected < 2 ^ 7 then
         (if n > 0 then mbind (mlift (arr_get mem 0)) (\<lambda>b0.
            if ucast b0 = expected then mseq (mmodify (Advance 1)) (mreturn True) else mreturn False)
          else mreturn False)
       else if expected < 2 ^ 14 then
         (if n \<ge> 2 then mbind (mlift (arr_get mem 0)) (\<lambda>b0. mbind (mlift (arr_get mem 1)) (\<lambda>b1.
            if b0 = ucast (expected OR 0x80) \<and> b1 = ucast (drop_bit 7 expected)
            then mseq (mmodify (Advance 2)) (mreturn True) else mreturn False))
          else mreturn False)
       else mreturn False)"

text \<open>The same without a stream: the memory from the given pointer on, or nothing when the tag is another.\<close>

definition ExpectTagFromArray :: "byte list \<Rightarrow> 32 word \<Rightarrow> fault + byte list option" where
  "ExpectTagFromArray mem expected =
     (if expected < 2 ^ 7 then
        (case arr_get mem 0 of Inl e \<Rightarrow> Inl e | Inr b0 \<Rightarrow> Inr (if ucast b0 = expected then Some (drop 1 mem) else None))
      else if expected < 2 ^ 14 then
        (case arr_get mem 0 of Inl e \<Rightarrow> Inl e | Inr b0 \<Rightarrow>
           if b0 = ucast (expected OR 0x80) then
             (case arr_get mem 1 of Inl e \<Rightarrow> Inl e | Inr b1 \<Rightarrow> Inr (if b1 = ucast (drop_bit 7 expected) then Some (drop 2 mem) else None))
           else Inr None)
      else Inr None)"

definition ExpectAtEnd :: "bool cis" where
  "ExpectAtEnd =
     mbind (mgets (\<lambda>s. bufp s = buf_end s
         \<and> (buffer_size_after_limit s \<noteq> 0 \<or> total_bytes_read s = current_limit s))) (\<lambda>at_end.
       if at_end then mseq (mmodify (\<lambda>s. s\<lparr>last_tag := 0, legitimate_message_end := True\<rparr>)) (mreturn True)
       else mreturn False)"

section \<open>Constructors\<close>

definition CodedInputStream_new :: "byte list list option \<Rightarrow> byte list \<Rightarrow> int \<Rightarrow> int \<Rightarrow> CodedInputStream" where
  "CodedInputStream_new input mem nread limit =
     \<lparr>zc_input = input, block = mem, bufp = 0, buf_end = int (length mem), total_bytes_read = nread,
      overflow_bytes = 0, last_tag = 0, legitimate_message_end = False, current_limit = limit,
      buffer_size_after_limit = 0, total_bytes_limit = kDefaultTotalBytesLimit,
      total_bytes_warning_threshold = kDefaultTotalBytesWarningThreshold, recursion_depth = 0,
      recursion_limit = default_recursion_limit\<rparr>"

definition CodedInputStream_of_stream :: "byte list list \<Rightarrow> fault + CodedInputStream" where
  "CodedInputStream_of_stream bs =
     (case Refresh (CodedInputStream_new (Some bs) [] 0 INT_MAX) of Inl e \<Rightarrow> Inl e | Inr (_, s) \<Rightarrow> Inr s)"

text \<open>The destructor; its warning is only printed. The result is the stream underneath.\<close>

definition CodedInputStream_delete :: "CodedInputStream \<Rightarrow> fault + byte list list option" where
  "CodedInputStream_delete s =
     (if zc_input s \<noteq> None
      then (case BackUpInputToCurrentPosition s of Inl e \<Rightarrow> Inl e | Inr (_, s') \<Rightarrow> Inr (zc_input s'))
      else Inr None)"

definition CodedInputStream_of_array :: "byte list \<Rightarrow> CodedInputStream" where
  "CodedInputStream_of_array mem = CodedInputStream_new None mem (int (length mem)) (int (length mem))"

end
