(* ===== verification/Coded_Output.thy ===== *)
theory Coded_Output
  imports Varint
begin

text \<open>
  \<^verbatim>\<open>CodedOutputStream\<close> of the protocol buffer runtime (\<^verbatim>\<open>io/coded_stream.h\<close>, \<^verbatim>\<open>io/coded_stream.cc\<close>). The
  stream underneath is any \<^verbatim>\<open>ZeroCopyOutputStream\<close>: the blocks of memory its \<^verbatim>\<open>Next\<close> will still hand out,
  with what they hold, and the contents of those it has got back. \<^verbatim>\<open>buffer_\<close> is an offset into the
  current block. The theory ends with what the writers do: as long as there is room they append to the
  bytes written so far and store nowhere else.
\<close>

section \<open>Operations\<close>

record CodedOutputStream =
  zc_output :: "byte list list"
  zc_done :: "byte list"
  oblock :: "byte list"
  obuffer :: int
  obuffer_size :: int
  total_bytes :: int
  had_error :: bool

type_synonym 'a cos = "(CodedOutputStream, 'a) mon"

definition COS_Advance :: "int \<Rightarrow> CodedOutputStream \<Rightarrow> CodedOutputStream" where
  "COS_Advance amount s = s\<lparr>obuffer := obuffer s + amount, obuffer_size := obuffer_size s - amount\<rparr>"

definition COS_Refresh :: "CodedOutputStream \<Rightarrow> bool \<times> CodedOutputStream" where
  "COS_Refresh s =
     (case zc_output s of
        b # bs \<Rightarrow> (True, s\<lparr>zc_output := bs, zc_done := zc_done s @ oblock s, oblock := b, obuffer := 0,
                     obuffer_size := int (length b), total_bytes := total_bytes s + int (length b)\<rparr>)
      | [] \<Rightarrow> (False, s\<lparr>zc_done := zc_done s @ oblock s, oblock := [], obuffer := 0, obuffer_size := 0, had_error := True\<rparr>))"

definition CodedOutputStream_new :: "byte list list \<Rightarrow> CodedOutputStream" where
  "CodedOutputStream_new output =
     (snd (COS_Refresh \<lparr>zc_output = output, zc_done = [], oblock = [], obuffer = 0, obuffer_size = 0, total_bytes = 0,
        had_error = False\<rparr>))\<lparr>had_error := False\<rparr>"

definition ByteCount :: "CodedOutputStream \<Rightarrow> int" where
  "ByteCount s = total_bytes s - obuffer_size s"

text \<open>\<^verbatim>\<open>memcpy(buffer_, data, size)\<close>, without moving \<^verbatim>\<open>buffer_\<close>.\<close>

definition store :: "byte list \<Rightarrow> unit cos" where
  "store data s = (case mem_write (oblock s) (obuffer s) data of Inl e \<Rightarrow> Inl e | Inr b \<Rightarrow> Inr ((), s\<lparr>oblock := b\<rparr>))"

lemma Refresh_blocks: "COS_Refresh s = (True, s') \<Longrightarrow> length (zc_output s') < length (zc_output s)"
  by (auto simp: COS_Refresh_def split: list.splits)

lemma store_blocks: "store data s = Inr (x, s') \<Longrightarrow> zc_output s' = zc_output s"
  by (auto simp: store_def split: sum.splits)

function WriteRaw :: "byte list \<Rightarrow> unit cos" where
  "WriteRaw data s =
     (if obuffer_size s < int (length data) then
        (case store (take (nat (obuffer_size s)) data) s of
           Inl e \<Rightarrow> Inl e
         | Inr (_, s1) \<Rightarrow>
             (case COS_Refresh s1 of
                (ok, s2) \<Rightarrow> if \<not> ok then Inr ((), s2) else WriteRaw (drop (nat (obuffer_size s)) data) s2))
      else
        (case store data s of Inl e \<Rightarrow> Inl e | Inr (_, s1) \<Rightarrow> Inr ((), COS_Advance (int (length data)) s1)))"
  by pat_completeness auto
termination
  by (relation "measure (\<lambda>(data, s). length (zc_output s))") (auto dest!: store_blocks Refresh_blocks [OF sym])

declare WriteRaw.simps [simp del]

text \<open>Storing in place when the buffer is large enough for the longest encoding, else through \<^verbatim>\<open>WriteRaw\<close>.\<close>

definition write_fast :: "int \<Rightarrow> byte list \<Rightarrow> byte list \<Rightarrow> unit cos" where
  "write_fast room fast slow =
     mbind (mgets obuffer_size) (\<lambda>n.
       if n \<ge> room then mseq (store fast) (mmodify (COS_Advance (int (length fast)))) else WriteRaw slow)"

definition WriteLittleEndian32 :: "32 word \<Rightarrow> unit cos" where
  "WriteLittleEndian32 v = write_fast 4 (WriteLittleEndian32ToArray v) (WriteLittleEndian32ToArray v)"

definition WriteLittleEndian64 :: "64 word \<Rightarrow> unit cos" where
  "WriteLittleEndian64 v = write_fast 8 (WriteLittleEndian64ToArray v) (WriteLittleEndian64ToArray v)"

definition WriteVarint32 :: "32 word \<Rightarrow> unit cos" where
  "WriteVarint32 v = write_fast (int kMaxVarint32Bytes) (WriteVarint32FallbackToArrayInline v) (varint_loop v)"

definition WriteVarint64 :: "64 word \<Rightarrow> unit cos" where
  "WriteVarint64 v = write_fast (int kMaxVarintBytes) (WriteVarint64ToArrayInline v) (varint_loop v)"

definition WriteVarint32SignExtended :: "int32 \<Rightarrow> unit cos" where
  "WriteVarint32SignExtended v =
     (if v < 0 then WriteVarint64 (word_of_int v) else WriteVarint32 (word_of_int v))"

definition COS_WriteTag :: "32 word \<Rightarrow> unit cos" where
  "COS_WriteTag v = WriteVarint32 v"

definition COS_WriteString :: "byte list \<Rightarrow> unit cos" where
  "COS_WriteString str = WriteRaw str"

text \<open>The bytes of the block that the caller may fill, or nothing when there are too few.\<close>

definition GetDirectBufferForNBytesAndAdvance :: "int \<Rightarrow> int option cos" where
  "GetDirectBufferForNBytesAndAdvance n =
     mbind (mgets (\<lambda>s. (obuffer_size s, obuffer s))) (\<lambda>(room, result).
       if room < n then mreturn None else mseq (mmodify (COS_Advance n)) (mreturn (Some result)))"

definition COS_GetDirectBufferPointer :: "(int \<times> int) option cos" where
  "COS_GetDirectBufferPointer s =
     (let (ok, s1) = (if obuffer_size s = 0 then COS_Refresh s else (True, s)) in
      Inr (if ok then Some (obuffer s1, obuffer_size s1) else None, s1))"

text \<open>Leaving bytes as the memory has them.\<close>

function COS_Skip :: "int \<Rightarrow> bool cos" where
  "COS_Skip count s =
     (if count < 0 then Inr (False, s)
      else if count > obuffer_size s then
        (case COS_Refresh s of (ok, s1) \<Rightarrow> if \<not> ok then Inr (False, s1) else COS_Skip (count - obuffer_size s) s1)
      else Inr (True, COS_Advance count s))"
  by pat_completeness auto
termination
  by (relation "measure (\<lambda>(count, s). length (zc_output s))") (auto dest!: Refresh_blocks [OF sym])

declare COS_Skip.simps [simp del]

text \<open>The destructor gives the rest of the current block back; the result is what the stream holds after it.\<close>

definition CodedOutputStream_delete :: "CodedOutputStream \<Rightarrow> byte list \<times> byte list list" where
  "CodedOutputStream_delete s =
     (if obuffer_size s > 0
      then (zc_done s @ take (length (oblock s) - nat (obuffer_size s)) (oblock s),
            drop (length (oblock s) - nat (obuffer_size s)) (oblock s) # zc_output s)
      else (zc_done s @ oblock s, zc_output s))"

section \<open>Writing appends\<close>

text \<open>What has been written, and how much room is left.\<close>

definition written :: "CodedOutputStream \<Rightarrow> byte list" where
  "written s = zc_done s @ take (nat (obuffer s)) (oblock s)"

definition room :: "CodedOutputStream \<Rightarrow> nat" where
  "room s = nat (obuffer_size s) + length (concat (zc_output s))"

definition cos_wf :: "CodedOutputStream \<Rightarrow> bool" where
  "cos_wf s \<longleftrightarrow> 0 \<le> obuffer s \<and> 0 \<le> obuffer_size s \<and> obuffer s + obuffer_size s = int (length (oblock s))
     \<and> \<not> had_error s \<and> ByteCount s = int (length (written s))"

text \<open>\<open>writes m bs\<close>: wherever there is room for them, \<open>m\<close> appends the bytes \<open>bs\<close>.\<close>

definition writes :: "unit cos \<Rightarrow> byte list \<Rightarrow> bool" where
  "writes m bs \<longleftrightarrow> (\<forall>s. cos_wf s \<longrightarrow> length bs \<le> room s \<longrightarrow>
     (\<exists>s'. m s = Inr ((), s') \<and> cos_wf s' \<and> written s' = written s @ bs \<and> room s' = room s - length bs))"

lemma writesE:
  assumes "writes m bs" "cos_wf s" "length bs \<le> room s"
  obtains s' where "m s = Inr ((), s')" "cos_wf s'" "written s' = written s @ bs" "room s' = room s - length bs"
  using assms unfolding writes_def by blast

lemma writes_return: "writes (mreturn ()) []"
  by (simp add: writes_def run_simps)

lemma writes_seq:
  assumes "writes m xs" "writes n ys"
  shows "writes (mseq m n) (xs @ ys)"
  unfolding writes_def
proof (intro allI impI)
  fix s assume s: "cos_wf s" "length (xs @ ys) \<le> room s"
  obtain s1 where 1: "m s = Inr ((), s1)" "cos_wf s1" "written s1 = written s @ xs" "room s1 = room s - length xs"
    using writesE [OF assms(1) s(1)] s(2) by auto
  have "length ys \<le> room s1" using s(2) 1(4) by simp
  then obtain s2 where "n s1 = Inr ((), s2)" "cos_wf s2" "written s2 = written s1 @ ys" "room s2 = room s1 - length ys"
    by (rule writesE [OF assms(2) 1(2)]) (rule that)
  then show "\<exists>s'. mseq m n s = Inr ((), s') \<and> cos_wf s' \<and> written s' = written s @ xs @ ys \<and> room s' = room s - length (xs @ ys)"
    using 1 by (simp add: run_simps)
qed

lemma store_advance:
  assumes "cos_wf s" "int (length data) \<le> obuffer_size s"
  shows "\<exists>s1. store data s = Inr ((), s1) \<and> cos_wf (COS_Advance (int (length data)) s1)
    \<and> written (COS_Advance (int (length data)) s1) = written s @ data
    \<and> room (COS_Advance (int (length data)) s1) = room s - length data"
proof -
  let ?p = "nat (obuffer s)"
  have p: "?p + length data \<le> length (oblock s)" "0 \<le> obuffer s" using assms by (auto simp: cos_wf_def)
  define b where "b = take ?p (oblock s) @ data @ drop (?p + length data) (oblock s)"
  have st: "store data s = Inr ((), s\<lparr>oblock := b\<rparr>)" using p by (simp add: store_def mem_write_def b_def)
  have b: "take (?p + length data) b = take ?p (oblock s) @ data" "length b = length (oblock s)" using p by (auto simp: b_def)
  let ?s' = "COS_Advance (int (length data)) (s\<lparr>oblock := b\<rparr>)"
  have "nat (obuffer s + int (length data)) = ?p + length data" using p by linarith
  then have out: "written ?s' = written s @ data" using b by (simp add: COS_Advance_def written_def)
  moreover have "cos_wf ?s'"
    using assms out b(2) unfolding cos_wf_def by (simp add: ByteCount_def) (simp add: COS_Advance_def)
  moreover have "room ?s' = room s - length data" using assms by (simp add: room_def COS_Advance_def nat_diff_distrib')
  ultimately show ?thesis using st by simp
qed

lemma writes_WriteRaw: "writes (WriteRaw data) data"
  unfolding writes_def
proof (intro allI impI)
  fix s
  show "cos_wf s \<Longrightarrow> length data \<le> room s \<Longrightarrow>
    \<exists>s'. WriteRaw data s = Inr ((), s') \<and> cos_wf s' \<and> written s' = written s @ data \<and> room s' = room s - length data"
  proof (induction data s rule: WriteRaw.induct)
    case (1 data s)
    show ?case
    proof (cases "obuffer_size s < int (length data)")
      case False
      then show ?thesis using store_advance [OF "1.prems"(1), of data] by (auto simp: WriteRaw.simps [of data s])
    next
      case True
      let ?n = "nat (obuffer_size s)"
      have n: "int (length (take ?n data)) = obuffer_size s" using True "1.prems"(1) by (auto simp: cos_wf_def)
      obtain s1 where st: "store (take ?n data) s = Inr ((), s1)" "cos_wf (COS_Advance (obuffer_size s) s1)"
        "written (COS_Advance (obuffer_size s) s1) = written s @ take ?n data"
        "room (COS_Advance (obuffer_size s) s1) = room s - ?n"
        using store_advance [OF "1.prems"(1), of "take ?n data"] n by auto
      have same: "zc_output s1 = zc_output s" "obuffer_size s1 = obuffer_size s" "obuffer s1 = obuffer s"
        using st(1) by (auto simp: store_def split: sum.splits)
      have "?n < length data" using True "1.prems"(1) by (auto simp: cos_wf_def)
      then have "zc_output s1 \<noteq> []" using "1.prems"(2) same(1) by (auto simp: room_def)
      then obtain b bs where z: "zc_output s1 = b # bs" by (cases "zc_output s1") auto
      let ?s2 = "s1\<lparr>zc_output := bs, zc_done := zc_done s1 @ oblock s1, oblock := b, obuffer := 0,
          obuffer_size := int (length b), total_bytes := total_bytes s1 + int (length b)\<rparr>"
      have r: "COS_Refresh s1 = (True, ?s2)" using z by (simp add: COS_Refresh_def)
      have full: "take (nat (obuffer s1 + obuffer_size s)) (oblock s1) = oblock s1"
        using st(2) same by (simp add: cos_wf_def COS_Advance_def)
      have old: "written (COS_Advance (obuffer_size s) s1) = zc_done s1 @ oblock s1"
        using full same by (simp add: COS_Advance_def written_def)
      have wf2: "cos_wf ?s2"
        using st(2) old unfolding cos_wf_def by (simp add: COS_Advance_def written_def ByteCount_def same)
      have out2: "written ?s2 = written s @ take ?n data" using st(3) old by (simp add: written_def)
      have room2: "room ?s2 = room s - ?n" using z same by (simp add: room_def)
      have "length (drop ?n data) \<le> room ?s2" using room2 "1.prems"(2) by simp
      then obtain s' where "WriteRaw (drop ?n data) ?s2 = Inr ((), s')" "cos_wf s'"
        "written s' = written ?s2 @ drop ?n data" "room s' = room ?s2 - length (drop ?n data)"
        using "1.IH" [OF True st(1) refl r [symmetric]] wf2 by auto
      then show ?thesis
        using True st(1) r out2 room2 \<open>?n < length data\<close> by (simp add: WriteRaw.simps [of data s])
    qed
  qed
qed

lemma writes_fast:
  assumes "int (length bs) \<le> k"
  shows "writes (write_fast k bs bs) bs"
  unfolding writes_def
proof (intro allI impI)
  fix s assume s: "cos_wf s" "length bs \<le> room s"
  show "\<exists>s'. write_fast k bs bs s = Inr ((), s') \<and> cos_wf s' \<and> written s' = written s @ bs \<and> room s' = room s - length bs"
  proof (cases "obuffer_size s \<ge> k")
    case True
    then show ?thesis using store_advance [OF s(1), of bs] assms by (auto simp: write_fast_def run_simps)
  next
    case False
    then show ?thesis using writesE [OF writes_WriteRaw s] by (auto simp: write_fast_def run_simps)
  qed
qed

lemma varint_length: "n < 128 ^ k \<Longrightarrow> 0 < k \<Longrightarrow> length (varint n) \<le> k"
  using varint_read_varint [of k n "[]"] varint_read_suffix [of k "varint n" n "[]"] by auto

lemma writes_WriteVarint32: "writes (WriteVarint32 v) (varint (unat v))"
proof -
  have "int (length (varint (unat v))) \<le> int kMaxVarint32Bytes"
    using varint_length [of "unat v" 5] unat_bound [of v] by (simp add: kMaxVarint32Bytes_def)
  then show ?thesis
    by (simp add: WriteVarint32_def varint_loop_eq WriteVarint32Fallback_eq writes_fast)
qed

lemma writes_WriteVarint64: "writes (WriteVarint64 v) (varint (unat v))"
proof -
  have "int (length (varint (unat v))) \<le> int kMaxVarintBytes"
    using varint_length [OF varint64_bound, of v] by (simp add: kMaxVarintBytes_def)
  then show ?thesis by (simp add: WriteVarint64_def varint_loop_eq WriteVarint64_eq writes_fast)
qed

lemma writes_LittleEndian:
  "writes (WriteLittleEndian32 v) (WriteLittleEndian32ToArray v)"
  "writes (WriteLittleEndian64 w) (WriteLittleEndian64ToArray w)"
  by (simp_all add: WriteLittleEndian32_def WriteLittleEndian64_def writes_fast WriteLittleEndian32ToArray_def
      WriteLittleEndian64ToArray_def Let_def)

lemma writes_tag_string: "writes (COS_WriteTag t) (varint (unat t))" "writes (COS_WriteString str) str"
  by (simp_all add: COS_WriteTag_def COS_WriteString_def writes_WriteVarint32 writes_WriteRaw)

text \<open>Skipping goes as far as writing would, and when the stream goes away exactly what was written is in it.\<close>

lemma Skip_ok:
  "cos_wf s \<Longrightarrow> 0 \<le> count \<Longrightarrow> nat count \<le> room s \<Longrightarrow>
    \<exists>s' junk. COS_Skip count s = Inr (True, s') \<and> cos_wf s' \<and> written s' = written s @ junk \<and> length junk = nat count"
proof (induction count s rule: COS_Skip.induct)
  case (1 count s)
  let ?p = "nat (obuffer s)"
  have b: "0 \<le> obuffer s" "0 \<le> obuffer_size s" "int (length (oblock s)) = obuffer s + obuffer_size s"
    using "1.prems"(1) by (simp_all add: cos_wf_def)
  show ?case
  proof (cases "count > obuffer_size s")
    case False
    let ?junk = "take (nat count) (drop ?p (oblock s))"
    have "nat (obuffer s + count) = ?p + nat count" using b(1) "1.prems"(2) by linarith
    then have "written (COS_Advance count s) = written s @ ?junk" by (simp add: COS_Advance_def written_def take_add)
    moreover have "length ?junk = nat count" using False b "1.prems"(2) by simp
    ultimately show ?thesis
      using False "1.prems" by (auto simp: COS_Skip.simps [of count s] cos_wf_def COS_Advance_def ByteCount_def)
  next
    case True
    then have "zc_output s \<noteq> []" using "1.prems"(2,3) b(2) by (auto simp: room_def)
    then obtain b' bs where z: "zc_output s = b' # bs" by (cases "zc_output s") auto
    let ?s2 = "s\<lparr>zc_output := bs, zc_done := zc_done s @ oblock s, oblock := b', obuffer := 0,
        obuffer_size := int (length b'), total_bytes := total_bytes s + int (length b')\<rparr>"
    have r: "COS_Refresh s = (True, ?s2)" using z by (simp add: COS_Refresh_def)
    have out2: "written ?s2 = written s @ drop ?p (oblock s)" by (simp add: written_def)
    have len: "length (drop ?p (oblock s)) = nat (obuffer_size s)" using b by simp
    have "cos_wf ?s2" using "1.prems"(1) out2 len b unfolding cos_wf_def by (simp add: ByteCount_def)
    moreover have "nat (count - obuffer_size s) \<le> room ?s2" using "1.prems"(3) z b by (simp add: room_def)
    ultimately obtain s' junk where s': "COS_Skip (count - obuffer_size s) ?s2 = Inr (True, s')" "cos_wf s'"
      "written s' = written ?s2 @ junk" "length junk = nat (count - obuffer_size s)"
      using "1.IH" [OF _ True r [symmetric]] True "1.prems"(2) by auto
    have "length (drop ?p (oblock s) @ junk) = nat count" using len s'(4) True b by simp
    then show ?thesis
      using s'(1-3) True "1.prems"(2) r out2 by (intro exI [of _ s'] exI [of _ "drop ?p (oblock s) @ junk"]) (simp add: COS_Skip.simps [of count s])
  qed
qed

lemma delete_written:
  assumes "cos_wf s"
  shows "fst (CodedOutputStream_delete s) = written s" "length (concat (snd (CodedOutputStream_delete s))) = room s"
proof -
  have "length (oblock s) - nat (obuffer_size s) = nat (obuffer s)" "0 \<le> obuffer_size s" "length (oblock s) = nat (obuffer s) + nat (obuffer_size s)"
    using assms by (auto simp: cos_wf_def)
  then show "fst (CodedOutputStream_delete s) = written s" "length (concat (snd (CodedOutputStream_delete s))) = room s"
    by (simp_all add: CodedOutputStream_delete_def written_def room_def)
qed

section \<open>Running out of room\<close>

lemma WriteRaw_full:
  "cos_wf s \<Longrightarrow> room s < length data \<Longrightarrow> \<exists>s'. WriteRaw data s = Inr ((), s') \<and> had_error s' \<and> oblock s' = []"
proof (induction data s rule: WriteRaw.induct)
  case (1 data s)
  let ?n = "nat (obuffer_size s)"
  have small: "obuffer_size s < int (length data)" using "1.prems" by (auto simp: cos_wf_def room_def)
  have n: "int (length (take ?n data)) = obuffer_size s" using small "1.prems"(1) by (auto simp: cos_wf_def)
  obtain s1 where st: "store (take ?n data) s = Inr ((), s1)" "cos_wf (COS_Advance (obuffer_size s) s1)"
    "written (COS_Advance (obuffer_size s) s1) = written s @ take ?n data"
    using store_advance [OF "1.prems"(1), of "take ?n data"] n by auto
  have same: "zc_output s1 = zc_output s" "obuffer_size s1 = obuffer_size s" "obuffer s1 = obuffer s"
    using st(1) by (auto simp: store_def split: sum.splits)
  show ?case
  proof (cases "zc_output s1")
    case Nil
    then show ?thesis using small st(1) by (simp add: WriteRaw.simps [of data s] COS_Refresh_def)
  next
    case (Cons b bs)
    let ?s2 = "s1\<lparr>zc_output := bs, zc_done := zc_done s1 @ oblock s1, oblock := b, obuffer := 0,
        obuffer_size := int (length b), total_bytes := total_bytes s1 + int (length b)\<rparr>"
    have r: "COS_Refresh s1 = (True, ?s2)" using Cons by (simp add: COS_Refresh_def)
    have "take (nat (obuffer s1 + obuffer_size s)) (oblock s1) = oblock s1"
      using st(2) same by (simp add: cos_wf_def COS_Advance_def)
    then have old: "written (COS_Advance (obuffer_size s) s1) = zc_done s1 @ oblock s1"
      using same by (simp add: COS_Advance_def written_def)
    have "cos_wf ?s2"
      using st(2) old unfolding cos_wf_def by (simp add: COS_Advance_def written_def ByteCount_def same)
    moreover have "room ?s2 < length (drop ?n data)" using Cons same "1.prems"(2) by (simp add: room_def)
    ultimately obtain s' where "WriteRaw (drop ?n data) ?s2 = Inr ((), s')" "had_error s'" "oblock s' = []"
      using "1.IH" [OF small st(1) refl r [symmetric]] by auto
    then show ?thesis using small st(1) r by (simp add: WriteRaw.simps [of data s])
  qed
qed

text \<open>
  C21. \<^verbatim>\<open>WriteRaw\<close> on a stream of blocks of any sizes: when the remaining blocks have room for the data, it is
  appended to what was written, whatever the block boundaries; when they have not, the stream is
  marked as failed. No byte is stored outside the blocks in either case.
\<close>

theorem WriteRaw_outcomes:
  assumes "cos_wf s"
  shows "\<exists>s'. WriteRaw data s = Inr ((), s')
    \<and> (if length data \<le> room s then written s' = written s @ data \<and> \<not> had_error s' \<and> ByteCount s' = ByteCount s + int (length data)
       else had_error s')"
proof (cases "length data \<le> room s")
  case True
  obtain s' where w: "WriteRaw data s = Inr ((), s')" "cos_wf s'" "written s' = written s @ data"
    by (rule writesE [OF writes_WriteRaw assms True]) (rule that)
  then show ?thesis using True assms by (auto simp: cos_wf_def)
next
  case False
  then show ?thesis using WriteRaw_full [OF assms, of data] by auto
qed

lemma CodedOutputStream_new_wf:
  "cos_wf (CodedOutputStream_new bs)" "written (CodedOutputStream_new bs) = []"
  "room (CodedOutputStream_new bs) = length (concat bs)"
  by (cases bs; simp add: CodedOutputStream_new_def COS_Refresh_def cos_wf_def written_def room_def ByteCount_def)+

theorem WriteRaw_outcomes_witness:
  "\<exists>s'. WriteRaw [1, 2, 3, 4] (CodedOutputStream_new [[0, 0], [], [0, 0, 0]]) = Inr ((), s') \<and> written s' = [1, 2, 3, 4]"
  using WriteRaw_outcomes [OF CodedOutputStream_new_wf(1), of "[1, 2, 3, 4]" "[[0, 0], [], [0, 0, 0]]"]
  by (auto simp: CodedOutputStream_new_wf)

end
