(* ===== verification/Wire_Lite.thy ===== *)
theory Wire_Lite
  imports Coded_Input Coded_Output
begin

text \<open>
  The wire format without reflection (\<^verbatim>\<open>wire_format_lite.h\<close>, \<^verbatim>\<open>wire_format_lite_inl.h\<close>,
  \<^verbatim>\<open>wire_format_lite.cc\<close>): tags, zig-zag, and reading, writing and sizing single values. Signed integers,
  floats and doubles are their 32 or 64 bits; \<^verbatim>\<open>EncodeFloat\<close> and its kin, which reinterpret the bits, are
  the identity here.
\<close>

section \<open>Types\<close>

text \<open>The cast of the low three bits of a tag to the enumeration can also give 6 and 7.\<close>

datatype WireType =
    WIRETYPE_VARINT | WIRETYPE_FIXED64 | WIRETYPE_LENGTH_DELIMITED | WIRETYPE_START_GROUP | WIRETYPE_END_GROUP
  | WIRETYPE_FIXED32 | WIRETYPE_6 | WIRETYPE_7

fun wire_num :: "WireType \<Rightarrow> 32 word" where
  "wire_num WIRETYPE_VARINT = 0"
| "wire_num WIRETYPE_FIXED64 = 1"
| "wire_num WIRETYPE_LENGTH_DELIMITED = 2"
| "wire_num WIRETYPE_START_GROUP = 3"
| "wire_num WIRETYPE_END_GROUP = 4"
| "wire_num WIRETYPE_FIXED32 = 5"
| "wire_num WIRETYPE_6 = 6"
| "wire_num WIRETYPE_7 = 7"

definition wire_of :: "32 word \<Rightarrow> WireType" where
  "wire_of n =
     (if n = 0 then WIRETYPE_VARINT else if n = 1 then WIRETYPE_FIXED64 else if n = 2 then WIRETYPE_LENGTH_DELIMITED
      else if n = 3 then WIRETYPE_START_GROUP else if n = 4 then WIRETYPE_END_GROUP else if n = 5 then WIRETYPE_FIXED32
      else if n = 6 then WIRETYPE_6 else WIRETYPE_7)"

datatype FieldType =
    TYPE_DOUBLE | TYPE_FLOAT | TYPE_INT64 | TYPE_UINT64 | TYPE_INT32 | TYPE_FIXED64 | TYPE_FIXED32 | TYPE_BOOL
  | TYPE_STRING | TYPE_GROUP | TYPE_MESSAGE | TYPE_BYTES | TYPE_UINT32 | TYPE_ENUM | TYPE_SFIXED32 | TYPE_SFIXED64
  | TYPE_SINT32 | TYPE_SINT64

datatype CppType =
    CPPTYPE_INT32 | CPPTYPE_INT64 | CPPTYPE_UINT32 | CPPTYPE_UINT64 | CPPTYPE_DOUBLE | CPPTYPE_FLOAT | CPPTYPE_BOOL
  | CPPTYPE_ENUM | CPPTYPE_STRING | CPPTYPE_MESSAGE

fun kFieldTypeToCppTypeMap :: "FieldType \<Rightarrow> CppType" where
  "kFieldTypeToCppTypeMap TYPE_DOUBLE = CPPTYPE_DOUBLE"
| "kFieldTypeToCppTypeMap TYPE_FLOAT = CPPTYPE_FLOAT"
| "kFieldTypeToCppTypeMap TYPE_INT64 = CPPTYPE_INT64"
| "kFieldTypeToCppTypeMap TYPE_UINT64 = CPPTYPE_UINT64"
| "kFieldTypeToCppTypeMap TYPE_INT32 = CPPTYPE_INT32"
| "kFieldTypeToCppTypeMap TYPE_FIXED64 = CPPTYPE_UINT64"
| "kFieldTypeToCppTypeMap TYPE_FIXED32 = CPPTYPE_UINT32"
| "kFieldTypeToCppTypeMap TYPE_BOOL = CPPTYPE_BOOL"
| "kFieldTypeToCppTypeMap TYPE_STRING = CPPTYPE_STRING"
| "kFieldTypeToCppTypeMap TYPE_GROUP = CPPTYPE_MESSAGE"
| "kFieldTypeToCppTypeMap TYPE_MESSAGE = CPPTYPE_MESSAGE"
| "kFieldTypeToCppTypeMap TYPE_BYTES = CPPTYPE_STRING"
| "kFieldTypeToCppTypeMap TYPE_UINT32 = CPPTYPE_UINT32"
| "kFieldTypeToCppTypeMap TYPE_ENUM = CPPTYPE_ENUM"
| "kFieldTypeToCppTypeMap TYPE_SFIXED32 = CPPTYPE_INT32"
| "kFieldTypeToCppTypeMap TYPE_SFIXED64 = CPPTYPE_INT64"
| "kFieldTypeToCppTypeMap TYPE_SINT32 = CPPTYPE_INT32"
| "kFieldTypeToCppTypeMap TYPE_SINT64 = CPPTYPE_INT64"

fun kWireTypeForFieldType :: "FieldType \<Rightarrow> WireType" where
  "kWireTypeForFieldType TYPE_DOUBLE = WIRETYPE_FIXED64"
| "kWireTypeForFieldType TYPE_FLOAT = WIRETYPE_FIXED32"
| "kWireTypeForFieldType TYPE_INT64 = WIRETYPE_VARINT"
| "kWireTypeForFieldType TYPE_UINT64 = WIRETYPE_VARINT"
| "kWireTypeForFieldType TYPE_INT32 = WIRETYPE_VARINT"
| "kWireTypeForFieldType TYPE_FIXED64 = WIRETYPE_FIXED64"
| "kWireTypeForFieldType TYPE_FIXED32 = WIRETYPE_FIXED32"
| "kWireTypeForFieldType TYPE_BOOL = WIRETYPE_VARINT"
| "kWireTypeForFieldType TYPE_STRING = WIRETYPE_LENGTH_DELIMITED"
| "kWireTypeForFieldType TYPE_GROUP = WIRETYPE_START_GROUP"
| "kWireTypeForFieldType TYPE_MESSAGE = WIRETYPE_LENGTH_DELIMITED"
| "kWireTypeForFieldType TYPE_BYTES = WIRETYPE_LENGTH_DELIMITED"
| "kWireTypeForFieldType TYPE_UINT32 = WIRETYPE_VARINT"
| "kWireTypeForFieldType TYPE_ENUM = WIRETYPE_VARINT"
| "kWireTypeForFieldType TYPE_SFIXED32 = WIRETYPE_FIXED32"
| "kWireTypeForFieldType TYPE_SFIXED64 = WIRETYPE_FIXED64"
| "kWireTypeForFieldType TYPE_SINT32 = WIRETYPE_VARINT"
| "kWireTypeForFieldType TYPE_SINT64 = WIRETYPE_VARINT"

section \<open>Tags and zig-zag\<close>

definition MakeTag :: "int \<Rightarrow> WireType \<Rightarrow> 32 word" where
  "MakeTag field_number type = push_bit 3 (word_of_int field_number) OR wire_num type"

definition GetTagWireType :: "32 word \<Rightarrow> WireType" where
  "GetTagWireType tag = wire_of (tag AND 7)"

definition GetTagFieldNumber :: "32 word \<Rightarrow> int" where
  "GetTagFieldNumber tag = sint (drop_bit 3 tag)"

definition TagSize :: "int \<Rightarrow> FieldType \<Rightarrow> int" where
  "TagSize field_number type =
     (let result = VarintSize32 (push_bit 3 (word_of_int field_number)) in
      if type = TYPE_GROUP then result * 2 else result)"

definition ZigZagEncode32 :: "32 word \<Rightarrow> 32 word" where
  "ZigZagEncode32 n = push_bit 1 n XOR signed_drop_bit 31 n"

definition ZigZagDecode32 :: "32 word \<Rightarrow> 32 word" where
  "ZigZagDecode32 n = drop_bit 1 n XOR - (n AND 1)"

definition ZigZagEncode64 :: "64 word \<Rightarrow> 64 word" where
  "ZigZagEncode64 n = push_bit 1 n XOR signed_drop_bit 63 n"

definition ZigZagDecode64 :: "64 word \<Rightarrow> 64 word" where
  "ZigZagDecode64 n = drop_bit 1 n XOR - (n AND 1)"

section \<open>Single values\<close>

text \<open>The values of the types that are not strings or messages, by their C++ type.\<close>

datatype prim =
    PInt32 "32 word" | PInt64 "64 word" | PUInt32 "32 word" | PUInt64 "64 word" | PFloat "32 word" | PDouble "64 word"
  | PBool bool | PEnum "32 word"

text \<open>The specialisations of \<^verbatim>\<open>ReadPrimitive\<close>; a type that has none does not compile.\<close>

definition ReadPrimitive :: "FieldType \<Rightarrow> prim option cis" where
  "ReadPrimitive type =
     (let v32 = (\<lambda>f. mbind ReadVarint32 (\<lambda>r. mreturn (map_option f r)));
          v64 = (\<lambda>f. mbind ReadVarint64 (\<lambda>r. mreturn (map_option f r)));
          f32 = (\<lambda>f. mbind ReadLittleEndian32 (\<lambda>r. mreturn (map_option f r)));
          f64 = (\<lambda>f. mbind ReadLittleEndian64 (\<lambda>r. mreturn (map_option f r)))
      in case type of
           TYPE_INT32 \<Rightarrow> v32 PInt32
         | TYPE_INT64 \<Rightarrow> v64 PInt64
         | TYPE_UINT32 \<Rightarrow> v32 PUInt32
         | TYPE_UINT64 \<Rightarrow> v64 PUInt64
         | TYPE_SINT32 \<Rightarrow> v32 (\<lambda>temp. PInt32 (ZigZagDecode32 temp))
         | TYPE_SINT64 \<Rightarrow> v64 (\<lambda>temp. PInt64 (ZigZagDecode64 temp))
         | TYPE_FIXED32 \<Rightarrow> f32 PUInt32
         | TYPE_FIXED64 \<Rightarrow> f64 PUInt64
         | TYPE_SFIXED32 \<Rightarrow> f32 PInt32
         | TYPE_SFIXED64 \<Rightarrow> f64 PInt64
         | TYPE_FLOAT \<Rightarrow> f32 PFloat
         | TYPE_DOUBLE \<Rightarrow> f64 PDouble
         | TYPE_BOOL \<Rightarrow> v32 (\<lambda>temp. PBool (temp \<noteq> 0))
         | TYPE_ENUM \<Rightarrow> v32 PEnum
         | _ \<Rightarrow> mfault AssertFail)"

definition WFL_WriteTag :: "int \<Rightarrow> WireType \<Rightarrow> unit cos" where
  "WFL_WriteTag field_number type = COS_WriteTag (MakeTag field_number type)"

text \<open>
  \<^verbatim>\<open>WriteInt32NoTag\<close> to \<^verbatim>\<open>WriteEnumNoTag\<close>; asking the reflection for a value of another C++ type than the
  field's ends the program.
\<close>

definition WritePrimitiveNoTag :: "FieldType \<Rightarrow> prim \<Rightarrow> unit cos" where
  "WritePrimitiveNoTag type value0 =
     (case type of
        TYPE_INT32 \<Rightarrow> (case value0 of PInt32 v \<Rightarrow> WriteVarint32SignExtended (sint v) | _ \<Rightarrow> mfault AssertFail)
      | TYPE_INT64 \<Rightarrow> (case value0 of PInt64 v \<Rightarrow> WriteVarint64 v | _ \<Rightarrow> mfault AssertFail)
      | TYPE_UINT32 \<Rightarrow> (case value0 of PUInt32 v \<Rightarrow> WriteVarint32 v | _ \<Rightarrow> mfault AssertFail)
      | TYPE_UINT64 \<Rightarrow> (case value0 of PUInt64 v \<Rightarrow> WriteVarint64 v | _ \<Rightarrow> mfault AssertFail)
      | TYPE_SINT32 \<Rightarrow> (case value0 of PInt32 v \<Rightarrow> WriteVarint32 (ZigZagEncode32 v) | _ \<Rightarrow> mfault AssertFail)
      | TYPE_SINT64 \<Rightarrow> (case value0 of PInt64 v \<Rightarrow> WriteVarint64 (ZigZagEncode64 v) | _ \<Rightarrow> mfault AssertFail)
      | TYPE_FIXED32 \<Rightarrow> (case value0 of PUInt32 v \<Rightarrow> WriteLittleEndian32 v | _ \<Rightarrow> mfault AssertFail)
      | TYPE_FIXED64 \<Rightarrow> (case value0 of PUInt64 v \<Rightarrow> WriteLittleEndian64 v | _ \<Rightarrow> mfault AssertFail)
      | TYPE_SFIXED32 \<Rightarrow> (case value0 of PInt32 v \<Rightarrow> WriteLittleEndian32 v | _ \<Rightarrow> mfault AssertFail)
      | TYPE_SFIXED64 \<Rightarrow> (case value0 of PInt64 v \<Rightarrow> WriteLittleEndian64 v | _ \<Rightarrow> mfault AssertFail)
      | TYPE_FLOAT \<Rightarrow> (case value0 of PFloat v \<Rightarrow> WriteLittleEndian32 v | _ \<Rightarrow> mfault AssertFail)
      | TYPE_DOUBLE \<Rightarrow> (case value0 of PDouble v \<Rightarrow> WriteLittleEndian64 v | _ \<Rightarrow> mfault AssertFail)
      | TYPE_BOOL \<Rightarrow> (case value0 of PBool v \<Rightarrow> WriteVarint32 (if v then 1 else 0) | _ \<Rightarrow> mfault AssertFail)
      | TYPE_ENUM \<Rightarrow> (case value0 of PEnum v \<Rightarrow> WriteVarint32SignExtended (sint v) | _ \<Rightarrow> mfault AssertFail)
      | _ \<Rightarrow> mfault AssertFail)"

text \<open>\<^verbatim>\<open>WriteInt32\<close> to \<^verbatim>\<open>WriteEnum\<close>.\<close>

definition WritePrimitive :: "FieldType \<Rightarrow> int \<Rightarrow> prim \<Rightarrow> unit cos" where
  "WritePrimitive type field_number v =
     mseq (WFL_WriteTag field_number (kWireTypeForFieldType type)) (WritePrimitiveNoTag type v)"

text \<open>\<^verbatim>\<open>Int32Size\<close> to \<^verbatim>\<open>EnumSize\<close>, and the constants of the types of fixed size.\<close>

definition PrimitiveSize :: "FieldType \<Rightarrow> prim \<Rightarrow> int" where
  "PrimitiveSize type value0 =
     (case type of
        TYPE_INT32 \<Rightarrow> (case value0 of PInt32 v \<Rightarrow> VarintSize32SignExtended (sint v) | _ \<Rightarrow> 0)
      | TYPE_INT64 \<Rightarrow> (case value0 of PInt64 v \<Rightarrow> VarintSize64 v | _ \<Rightarrow> 0)
      | TYPE_UINT32 \<Rightarrow> (case value0 of PUInt32 v \<Rightarrow> VarintSize32 v | _ \<Rightarrow> 0)
      | TYPE_UINT64 \<Rightarrow> (case value0 of PUInt64 v \<Rightarrow> VarintSize64 v | _ \<Rightarrow> 0)
      | TYPE_SINT32 \<Rightarrow> (case value0 of PInt32 v \<Rightarrow> VarintSize32 (ZigZagEncode32 v) | _ \<Rightarrow> 0)
      | TYPE_SINT64 \<Rightarrow> (case value0 of PInt64 v \<Rightarrow> VarintSize64 (ZigZagEncode64 v) | _ \<Rightarrow> 0)
      | TYPE_ENUM \<Rightarrow> (case value0 of PEnum v \<Rightarrow> VarintSize32SignExtended (sint v) | _ \<Rightarrow> 0)
      | TYPE_FIXED32 \<Rightarrow> 4
      | TYPE_SFIXED32 \<Rightarrow> 4
      | TYPE_FLOAT \<Rightarrow> 4
      | TYPE_FIXED64 \<Rightarrow> 8
      | TYPE_SFIXED64 \<Rightarrow> 8
      | TYPE_DOUBLE \<Rightarrow> 8
      | TYPE_BOOL \<Rightarrow> 1
      | _ \<Rightarrow> 0)"

text \<open>\<^verbatim>\<open>WriteString\<close> and \<^verbatim>\<open>WriteBytes\<close>, which are the same, with their \<^verbatim>\<open>GOOGLE_CHECK\<close>.\<close>

definition WFL_WriteString :: "int \<Rightarrow> byte list \<Rightarrow> unit cos" where
  "WFL_WriteString field_number str =
     mseq (WFL_WriteTag field_number WIRETYPE_LENGTH_DELIMITED)
       (if int (length str) \<le> INT_MAX
        then mseq (WriteVarint32 (of_nat (length str))) (COS_WriteString str)
        else mfault AssertFail)"

definition LengthDelimitedSize :: "int \<Rightarrow> int" where
  "LengthDelimitedSize len = VarintSize32 (word_of_int len) + len"

definition StringSize :: "byte list \<Rightarrow> int" where
  "StringSize str = VarintSize32 (of_nat (length str)) + int (length str)"

text \<open>\<^verbatim>\<open>ReadString\<close> and \<^verbatim>\<open>ReadBytes\<close>: whether it succeeded, and what the string holds.\<close>

definition WFL_ReadString :: "(bool \<times> byte list) cis" where
  "WFL_ReadString =
     mbind ReadVarint32 (\<lambda>r.
       case r of None \<Rightarrow> mreturn (False, []) | Some len \<Rightarrow> InternalReadStringInline (sint len))"

section \<open>Skipping without keeping\<close>

text \<open>
  \<^verbatim>\<open>WireFormatLite::SkipField\<close> and \<^verbatim>\<open>SkipMessage\<close> call each other; the first takes the second as an
  argument, and the number bounds the tags that are read, one per call.
\<close>

definition IncrementDepth :: "bool cis" where
  "IncrementDepth s = Inr (IncrementRecursionDepth s)"

definition LiteSkipField :: "bool cis \<Rightarrow> 32 word \<Rightarrow> bool cis" where
  "LiteSkipField skip_message tag =
     (case GetTagWireType tag of
        WIRETYPE_VARINT \<Rightarrow> mbind ReadVarint64 (\<lambda>r. mreturn (r \<noteq> None))
      | WIRETYPE_FIXED64 \<Rightarrow> mbind ReadLittleEndian64 (\<lambda>r. mreturn (r \<noteq> None))
      | WIRETYPE_LENGTH_DELIMITED \<Rightarrow>
          mbind ReadVarint32 (\<lambda>r. case r of None \<Rightarrow> mreturn False | Some len \<Rightarrow> CIS_Skip (sint len))
      | WIRETYPE_START_GROUP \<Rightarrow>
          mbind IncrementDepth (\<lambda>ok. if \<not> ok then mreturn False else
          mbind skip_message (\<lambda>ok. if \<not> ok then mreturn False else
          mseq (mmodify DecrementRecursionDepth)
            (mgets (LastTagWas (MakeTag (GetTagFieldNumber tag) WIRETYPE_END_GROUP)))))
      | WIRETYPE_END_GROUP \<Rightarrow> mreturn False
      | WIRETYPE_FIXED32 \<Rightarrow> mbind ReadLittleEndian32 (\<lambda>r. mreturn (r \<noteq> None))
      | _ \<Rightarrow> mreturn False)"

primrec LiteSkipMessage :: "nat \<Rightarrow> bool cis" where
  "LiteSkipMessage 0 = mfault OutOfFuel"
| "LiteSkipMessage (Suc k) =
     mbind ReadTag (\<lambda>tag.
       if tag = 0 then mreturn True
       else if GetTagWireType tag = WIRETYPE_END_GROUP then mreturn True
       else mbind (LiteSkipField (LiteSkipMessage k) tag) (\<lambda>ok.
         if \<not> ok then mreturn False else LiteSkipMessage k))"

end
