(* ===== verification/Wire_Format.thy ===== *)
theory Wire_Format
  imports Wire_Lite
begin

text \<open>
  Messages by reflection (\<^verbatim>\<open>wire_format.cc\<close>, \<^verbatim>\<open>reflection_ops.cc\<close>, \<^verbatim>\<open>message.cc\<close>): parsing, serialising and sizing a
  message of any type, driven by the descriptors of its fields. The descriptors are a parameter \<open>D\<close>, the
  fields of each message type. Message types have no extension ranges and do not use
  \<^verbatim>\<open>message_set_wire_format\<close>; extensions and message sets are left out.
\<close>

section \<open>Descriptors and messages\<close>

datatype Label = LABEL_OPTIONAL | LABEL_REQUIRED | LABEL_REPEATED

text \<open>\<open>fd_message\<close> is \<^verbatim>\<open>message_type()\<close>, \<open>fd_enum\<close> the numbers of the values of \<^verbatim>\<open>enum_type()\<close>.\<close>

record 'm FieldDescriptor =
  fd_number :: int
  fd_type :: FieldType
  fd_label :: Label
  fd_packed :: bool
  fd_message :: 'm
  fd_enum :: "32 word list"

type_synonym 'm pool = "'m \<Rightarrow> 'm FieldDescriptor list"

definition is_repeated :: "'m FieldDescriptor \<Rightarrow> bool" where
  "is_repeated f \<longleftrightarrow> fd_label f = LABEL_REPEATED"

definition is_required :: "'m FieldDescriptor \<Rightarrow> bool" where
  "is_required f \<longleftrightarrow> fd_label f = LABEL_REQUIRED"

definition IsTypePackable :: "FieldType \<Rightarrow> bool" where
  "IsTypePackable type \<longleftrightarrow> type \<noteq> TYPE_STRING \<and> type \<noteq> TYPE_GROUP \<and> type \<noteq> TYPE_MESSAGE \<and> type \<noteq> TYPE_BYTES"

definition is_packable :: "'m FieldDescriptor \<Rightarrow> bool" where
  "is_packable f \<longleftrightarrow> is_repeated f \<and> IsTypePackable (fd_type f)"

definition FindFieldByNumber :: "'m pool \<Rightarrow> 'm \<Rightarrow> int \<Rightarrow> 'm FieldDescriptor option" where
  "FindFieldByNumber D ty number = find (\<lambda>f. fd_number f = number) (D ty)"

datatype UnknownField =
    UVarint int "64 word"
  | UFixed32 int "32 word"
  | UFixed64 int "64 word"
  | ULengthDelimited int "byte list"
  | UGroup int "UnknownField list"

text \<open>
  A message: its type, for every field that is set the values, in the order of the field numbers, and its
  unknown fields. A field that is not repeated has one value.
\<close>

datatype 'm Value = VPrim prim | VString "byte list" | VMessage "'m Message"
and 'm Message = Msg (msg_type: 'm) (msg_fields: "(int \<times> 'm Value list) list") (msg_unknown: "UnknownField list")

definition new_message :: "'m \<Rightarrow> 'm Message" where
  "new_message ty = Msg ty [] []"

subsection \<open>Reflection\<close>

definition GetField :: "'m Message \<Rightarrow> int \<Rightarrow> 'm Value list" where
  "GetField m number = (case m_find (msg_fields m) number of None \<Rightarrow> [] | Some vs \<Rightarrow> vs)"

definition HasField :: "'m Message \<Rightarrow> 'm FieldDescriptor \<Rightarrow> bool" where
  "HasField m f \<longleftrightarrow> GetField m (fd_number f) \<noteq> []"

definition ListFields :: "'m pool \<Rightarrow> 'm Message \<Rightarrow> 'm FieldDescriptor list" where
  "ListFields D m = sort_key fd_number (filter (HasField m) (D (msg_type m)))"

fun put_field :: "'m Message \<Rightarrow> int \<Rightarrow> 'm Value list \<Rightarrow> 'm Message" where
  "put_field (Msg ty fs us) number vs = Msg ty (m_insert fs number vs) us"

fun put_unknown :: "'m Message \<Rightarrow> UnknownField list \<Rightarrow> 'm Message" where
  "put_unknown (Msg ty fs us) us' = Msg ty fs us'"

text \<open>\<^verbatim>\<open>Set...\<close> of a single field, \<^verbatim>\<open>Add...\<close> of a repeated one.\<close>

definition SetOrAdd :: "'m FieldDescriptor \<Rightarrow> 'm Value \<Rightarrow> 'm Message \<Rightarrow> 'm Message" where
  "SetOrAdd f v m = put_field m (fd_number f) (if is_repeated f then GetField m (fd_number f) @ [v] else [v])"

text \<open>What \<^verbatim>\<open>AddMessage\<close> or \<^verbatim>\<open>MutableMessage\<close> returns: the message that is to be merged into.\<close>

definition sub_message :: "'m FieldDescriptor \<Rightarrow> 'm Message \<Rightarrow> 'm Message" where
  "sub_message f m =
     (if is_repeated f then new_message (fd_message f)
      else case GetField m (fd_number f) of VMessage x # _ \<Rightarrow> x | _ \<Rightarrow> new_message (fd_message f))"

section \<open>Unknown fields\<close>

text \<open>
  \<^verbatim>\<open>SkipField\<close> and \<^verbatim>\<open>SkipMessage\<close> with a set for the fields that are skipped; the result carries the set,
  also when they fail. The number bounds the tags that are read.
\<close>

definition SkipField ::
  "(UnknownField list \<Rightarrow> (bool \<times> UnknownField list) cis) \<Rightarrow> 32 word \<Rightarrow> UnknownField list \<Rightarrow> (bool \<times> UnknownField list) cis"
where
  "SkipField skip_message tag unknown =
     (let number = GetTagFieldNumber tag in
      case GetTagWireType tag of
        WIRETYPE_VARINT \<Rightarrow>
          mbind ReadVarint64 (\<lambda>r. mreturn (case r of None \<Rightarrow> (False, unknown) | Some v \<Rightarrow> (True, unknown @ [UVarint number v])))
      | WIRETYPE_FIXED64 \<Rightarrow>
          mbind ReadLittleEndian64 (\<lambda>r. mreturn (case r of None \<Rightarrow> (False, unknown) | Some v \<Rightarrow> (True, unknown @ [UFixed64 number v])))
      | WIRETYPE_LENGTH_DELIMITED \<Rightarrow>
          mbind ReadVarint32 (\<lambda>r.
            case r of
              None \<Rightarrow> mreturn (False, unknown)
            | Some len \<Rightarrow> mbind (CIS_ReadString (sint len)) (\<lambda>(ok, str). mreturn (ok, unknown @ [ULengthDelimited number str])))
      | WIRETYPE_START_GROUP \<Rightarrow>
          mbind IncrementDepth (\<lambda>ok. if \<not> ok then mreturn (False, unknown) else
          mbind (skip_message []) (\<lambda>(ok, grp). if \<not> ok then mreturn (False, unknown @ [UGroup number grp]) else
          mseq (mmodify DecrementRecursionDepth)
            (mbind (mgets (LastTagWas (MakeTag number WIRETYPE_END_GROUP))) (\<lambda>ok.
              mreturn (ok, unknown @ [UGroup number grp])))))
      | WIRETYPE_END_GROUP \<Rightarrow> mreturn (False, unknown)
      | WIRETYPE_FIXED32 \<Rightarrow>
          mbind ReadLittleEndian32 (\<lambda>r. mreturn (case r of None \<Rightarrow> (False, unknown) | Some v \<Rightarrow> (True, unknown @ [UFixed32 number v])))
      | _ \<Rightarrow> mreturn (False, unknown))"

primrec SkipMessage :: "nat \<Rightarrow> UnknownField list \<Rightarrow> (bool \<times> UnknownField list) cis" where
  "SkipMessage 0 unknown = mfault OutOfFuel"
| "SkipMessage (Suc k) unknown =
     mbind ReadTag (\<lambda>tag.
       if tag = 0 then mreturn (True, unknown)
       else if GetTagWireType tag = WIRETYPE_END_GROUP then mreturn (True, unknown)
       else mbind (SkipField (SkipMessage k) tag unknown) (\<lambda>(ok, unknown').
         if \<not> ok then mreturn (False, unknown') else SkipMessage k unknown'))"

fun SerializeUnknownFields :: "UnknownField list \<Rightarrow> unit cos" where
  "SerializeUnknownFields [] = mreturn ()"
| "SerializeUnknownFields (UVarint n v # us) =
     mseq (WriteVarint32 (MakeTag n WIRETYPE_VARINT)) (mseq (WriteVarint64 v) (SerializeUnknownFields us))"
| "SerializeUnknownFields (UFixed32 n w # us) =
     mseq (WriteVarint32 (MakeTag n WIRETYPE_FIXED32)) (mseq (WriteLittleEndian32 w) (SerializeUnknownFields us))"
| "SerializeUnknownFields (UFixed64 n v # us) =
     mseq (WriteVarint32 (MakeTag n WIRETYPE_FIXED64)) (mseq (WriteLittleEndian64 v) (SerializeUnknownFields us))"
| "SerializeUnknownFields (ULengthDelimited n str # us) =
     mseq (WriteVarint32 (MakeTag n WIRETYPE_LENGTH_DELIMITED))
       (mseq (WriteVarint32 (of_nat (length str))) (mseq (COS_WriteString str) (SerializeUnknownFields us)))"
| "SerializeUnknownFields (UGroup n grp # us) =
     mseq (WriteVarint32 (MakeTag n WIRETYPE_START_GROUP))
       (mseq (SerializeUnknownFields grp)
         (mseq (WriteVarint32 (MakeTag n WIRETYPE_END_GROUP)) (SerializeUnknownFields us)))"

text \<open>The bytes that \<^verbatim>\<open>SerializeUnknownFieldsToArray\<close> stores at its target.\<close>

fun SerializeUnknownFieldsToArray :: "UnknownField list \<Rightarrow> byte list" where
  "SerializeUnknownFieldsToArray [] = []"
| "SerializeUnknownFieldsToArray (UVarint n v # us) =
     WriteTagToArray (MakeTag n WIRETYPE_VARINT) @ WriteVarint64ToArrayInline v @ SerializeUnknownFieldsToArray us"
| "SerializeUnknownFieldsToArray (UFixed32 n w # us) =
     WriteTagToArray (MakeTag n WIRETYPE_FIXED32) @ WriteLittleEndian32ToArray w @ SerializeUnknownFieldsToArray us"
| "SerializeUnknownFieldsToArray (UFixed64 n v # us) =
     WriteTagToArray (MakeTag n WIRETYPE_FIXED64) @ WriteLittleEndian64ToArray v @ SerializeUnknownFieldsToArray us"
| "SerializeUnknownFieldsToArray (ULengthDelimited n str # us) =
     WriteTagToArray (MakeTag n WIRETYPE_LENGTH_DELIMITED) @ WriteVarint32ToArray (of_nat (length str)) @ str
       @ SerializeUnknownFieldsToArray us"
| "SerializeUnknownFieldsToArray (UGroup n grp # us) =
     WriteTagToArray (MakeTag n WIRETYPE_START_GROUP) @ SerializeUnknownFieldsToArray grp
       @ WriteTagToArray (MakeTag n WIRETYPE_END_GROUP) @ SerializeUnknownFieldsToArray us"

fun ComputeUnknownFieldsSize :: "UnknownField list \<Rightarrow> int" where
  "ComputeUnknownFieldsSize [] = 0"
| "ComputeUnknownFieldsSize (UVarint n v # us) =
     VarintSize32 (MakeTag n WIRETYPE_VARINT) + VarintSize64 v + ComputeUnknownFieldsSize us"
| "ComputeUnknownFieldsSize (UFixed32 n w # us) =
     VarintSize32 (MakeTag n WIRETYPE_FIXED32) + 4 + ComputeUnknownFieldsSize us"
| "ComputeUnknownFieldsSize (UFixed64 n v # us) =
     VarintSize32 (MakeTag n WIRETYPE_FIXED64) + 8 + ComputeUnknownFieldsSize us"
| "ComputeUnknownFieldsSize (ULengthDelimited n str # us) =
     VarintSize32 (MakeTag n WIRETYPE_LENGTH_DELIMITED) + VarintSize32 (of_nat (length str)) + int (length str)
       + ComputeUnknownFieldsSize us"
| "ComputeUnknownFieldsSize (UGroup n grp # us) =
     VarintSize32 (MakeTag n WIRETYPE_START_GROUP) + ComputeUnknownFieldsSize grp
       + VarintSize32 (MakeTag n WIRETYPE_END_GROUP) + ComputeUnknownFieldsSize us"

section \<open>Parsing\<close>

text \<open>
  \<^verbatim>\<open>ReadGroup\<close> and \<^verbatim>\<open>ReadMessage\<close>; \<open>merge\<close> is \<^verbatim>\<open>MergePartialFromCodedStream\<close> of the message they fill, and
  the result is that message, also when they fail.
\<close>

definition ReadGroup :: "('m Message \<Rightarrow> (bool \<times> 'm Message) cis) \<Rightarrow> int \<Rightarrow> 'm Message \<Rightarrow> (bool \<times> 'm Message) cis" where
  "ReadGroup merge field_number x =
     mbind IncrementDepth (\<lambda>ok. if \<not> ok then mreturn (False, x) else
     mbind (merge x) (\<lambda>(ok, x'). if \<not> ok then mreturn (False, x') else
     mseq (mmodify DecrementRecursionDepth)
       (mbind (mgets (LastTagWas (MakeTag field_number WIRETYPE_END_GROUP))) (\<lambda>ok. mreturn (ok, x')))))"

definition ReadMessage :: "('m Message \<Rightarrow> (bool \<times> 'm Message) cis) \<Rightarrow> 'm Message \<Rightarrow> (bool \<times> 'm Message) cis" where
  "ReadMessage merge x =
     mbind ReadVarint32 (\<lambda>r. case r of None \<Rightarrow> mreturn (False, x) | Some len \<Rightarrow>
     mbind IncrementDepth (\<lambda>ok. if \<not> ok then mreturn (False, x) else
     mbind (\<lambda>s. Inr (PushLimit (sint len) s)) (\<lambda>limit.
     mbind (merge x) (\<lambda>(ok, x'). if \<not> ok then mreturn (False, x') else
     mbind (mgets ConsumedEntireMessage) (\<lambda>ok. if \<not> ok then mreturn (False, x') else
     mseq (mmodify (PopLimit limit)) (mseq (mmodify DecrementRecursionDepth) (mreturn (True, x'))))))))"

text \<open>Adding a parsed enum value: unknown numbers are dropped or kept as unknown fields.\<close>

definition known_enum :: "'m FieldDescriptor \<Rightarrow> prim \<Rightarrow> bool" where
  "known_enum f v = (case v of PEnum n \<Rightarrow> n \<in> set (fd_enum f) | _ \<Rightarrow> True)"

definition packed_value :: "'m FieldDescriptor \<Rightarrow> prim \<Rightarrow> 'm Message \<Rightarrow> 'm Message" where
  "packed_value f v m = (if known_enum f v then put_field m (fd_number f) (GetField m (fd_number f) @ [VPrim v]) else m)"

definition single_value :: "32 word \<Rightarrow> 'm FieldDescriptor \<Rightarrow> prim \<Rightarrow> 'm Message \<Rightarrow> 'm Message" where
  "single_value tag f v m =
     (if known_enum f v then SetOrAdd f (VPrim v) m
      else case v of PEnum n \<Rightarrow> put_unknown m (msg_unknown m @ [UVarint (GetTagFieldNumber tag) (scast n)]) | _ \<Rightarrow> m)"

text \<open>The loop over the values of a packed field; the number bounds its rounds.\<close>

primrec ReadPacked :: "nat \<Rightarrow> 'm FieldDescriptor \<Rightarrow> 'm Message \<Rightarrow> (bool \<times> 'm Message) cis" where
  "ReadPacked 0 f m = mfault OutOfFuel"
| "ReadPacked (Suc k) f m =
     mbind (mgets BytesUntilLimit) (\<lambda>n.
       if n > 0 then
         mbind (ReadPrimitive (fd_type f)) (\<lambda>r.
           case r of None \<Rightarrow> mreturn (False, m) | Some v \<Rightarrow> ReadPacked k f (packed_value f v m))
       else mreturn (True, m))"

text \<open>A value in the field's own wire type.\<close>

definition ReadNormal ::
  "('m Message \<Rightarrow> (bool \<times> 'm Message) cis) \<Rightarrow> 32 word \<Rightarrow> 'm FieldDescriptor \<Rightarrow> 'm Message \<Rightarrow> (bool \<times> 'm Message) cis"
where
  "ReadNormal merge tag f m =
     (case fd_type f of
        TYPE_STRING \<Rightarrow> mbind WFL_ReadString (\<lambda>(ok, str). mreturn (if ok then (True, SetOrAdd f (VString str) m) else (False, m)))
      | TYPE_BYTES \<Rightarrow> mbind WFL_ReadString (\<lambda>(ok, str). mreturn (if ok then (True, SetOrAdd f (VString str) m) else (False, m)))
      | TYPE_GROUP \<Rightarrow>
          mbind (ReadGroup merge (GetTagFieldNumber tag) (sub_message f m)) (\<lambda>(ok, x). mreturn (ok, SetOrAdd f (VMessage x) m))
      | TYPE_MESSAGE \<Rightarrow> mbind (ReadMessage merge (sub_message f m)) (\<lambda>(ok, x). mreturn (ok, SetOrAdd f (VMessage x) m))
      | type \<Rightarrow>
          mbind (ReadPrimitive type) (\<lambda>r.
            mreturn (case r of None \<Rightarrow> (False, m) | Some v \<Rightarrow> (True, single_value tag f v m))))"

definition ParseAndMergeField ::
  "nat \<Rightarrow> ('m Message \<Rightarrow> (bool \<times> 'm Message) cis) \<Rightarrow> 32 word \<Rightarrow> 'm FieldDescriptor option \<Rightarrow> 'm Message
     \<Rightarrow> (bool \<times> 'm Message) cis"
where
  "ParseAndMergeField k merge tag field m =
     (let unknown = mbind (SkipField (SkipMessage k) tag (msg_unknown m)) (\<lambda>(ok, us). mreturn (ok, put_unknown m us))
      in case field of
        None \<Rightarrow> unknown
      | Some f \<Rightarrow>
          if GetTagWireType tag = kWireTypeForFieldType (fd_type f) then ReadNormal merge tag f m
          else if is_packable f \<and> GetTagWireType tag = WIRETYPE_LENGTH_DELIMITED then
            mbind ReadVarint32 (\<lambda>r. case r of None \<Rightarrow> mreturn (False, m) | Some len \<Rightarrow>
            mbind (\<lambda>s. Inr (PushLimit (sint len) s)) (\<lambda>limit.
            mbind (ReadPacked k f m) (\<lambda>(ok, m'). if \<not> ok then mreturn (False, m') else
            mseq (mmodify (PopLimit limit)) (mreturn (True, m')))))
          else unknown)"

primrec ParseAndMergePartial :: "'m pool \<Rightarrow> nat \<Rightarrow> 'm Message \<Rightarrow> (bool \<times> 'm Message) cis" where
  "ParseAndMergePartial D 0 m = mfault OutOfFuel"
| "ParseAndMergePartial D (Suc k) m =
     mbind ReadTag (\<lambda>tag.
       if tag = 0 then mreturn (True, m)
       else if GetTagWireType tag = WIRETYPE_END_GROUP then mreturn (True, m)
       else
         let field = FindFieldByNumber D (msg_type m) (GetTagFieldNumber tag) in
         mbind (ParseAndMergeField k (ParseAndMergePartial D k) tag field m) (\<lambda>(ok, m').
           if \<not> ok then mreturn (False, m') else ParseAndMergePartial D k m'))"

section \<open>Sizes\<close>

text \<open>
  The size of one value, as the \<^verbatim>\<open>...Size\<close> functions compute it; \<open>size_of\<close> is \<^verbatim>\<open>ByteSize\<close> of a message.
\<close>

definition ValueSize :: "('m Message \<Rightarrow> int) \<Rightarrow> FieldType \<Rightarrow> 'm Value \<Rightarrow> int" where
  "ValueSize size_of type v =
     (case v of
        VPrim p \<Rightarrow> PrimitiveSize type p
      | VString str \<Rightarrow> StringSize str
      | VMessage x \<Rightarrow> if type = TYPE_GROUP then size_of x else LengthDelimitedSize (size_of x))"

text \<open>
  Only fields that are set are sized: of a single field that is not, the code would size the default value,
  here it counts nothing.
\<close>

definition FieldDataOnlyByteSize :: "('m Message \<Rightarrow> int) \<Rightarrow> 'm FieldDescriptor \<Rightarrow> 'm Message \<Rightarrow> int" where
  "FieldDataOnlyByteSize size_of f m =
     (let vs = GetField m (fd_number f) in sum_list (map (ValueSize size_of (fd_type f)) (if is_repeated f then vs else take 1 vs)))"

definition FieldByteSize :: "('m Message \<Rightarrow> int) \<Rightarrow> 'm FieldDescriptor \<Rightarrow> 'm Message \<Rightarrow> int" where
  "FieldByteSize size_of f m =
     (let count = (if is_repeated f then int (length (GetField m (fd_number f))) else if HasField m f then 1 else 0);
          data_size = FieldDataOnlyByteSize size_of f m
      in if fd_packed f then
           (if data_size > 0
            then data_size + TagSize (fd_number f) TYPE_STRING + VarintSize32 (word_of_int data_size) else data_size)
         else data_size + count * TagSize (fd_number f) (fd_type f))"

lemma GetField_size: "VMessage x \<in> set (GetField m n) \<Longrightarrow> size x < size m"
proof -
  assume x: "VMessage x \<in> set (GetField m n)"
  then obtain vs where vs: "(n, vs) \<in> set (msg_fields m)" "VMessage x \<in> set vs"
    by (cases "m_find (msg_fields m) n") (auto simp: GetField_def dest: m_find_in_set)
  obtain ty fs us where m: "m = Msg ty fs us" by (cases m)
  have "size x < size (VMessage x)" by simp
  also have "\<dots> \<le> size_list size vs" using vs(2) by (rule size_list_estimation') simp
  also have "\<dots> \<le> size_list (size_prod (\<lambda>_. 0) (size_list size)) fs"
    using vs(1) m by (auto intro!: size_list_estimation' [where x = "(n, vs)"])
  finally show ?thesis by (simp add: m)
qed

lemma FieldByteSize_cong [fundef_cong]:
  assumes "f = f'" "m = m'" "\<And>x. VMessage x \<in> set (GetField m' (fd_number f')) \<Longrightarrow> size_of x = size_of' x"
  shows "FieldByteSize size_of f m = FieldByteSize size_of' f' m'"
proof -
  have "FieldDataOnlyByteSize size_of f m = FieldDataOnlyByteSize size_of' f' m'"
    using assms
    by (auto simp: FieldDataOnlyByteSize_def ValueSize_def Let_def dest!: in_set_takeD
        intro!: arg_cong [where f = sum_list] map_cong split: Value.splits)
  then show ?thesis using assms by (simp add: FieldByteSize_def)
qed

function ByteSize :: "'m pool \<Rightarrow> 'm Message \<Rightarrow> int" where
  "ByteSize D m =
     sum_list (map (\<lambda>f. FieldByteSize (ByteSize D) f m) (ListFields D m)) + ComputeUnknownFieldsSize (msg_unknown m)"
  by pat_completeness auto
termination
  by (relation "measure (\<lambda>(D, m). size m)") (auto intro: GetField_size)

declare ByteSize.simps [simp del]

section \<open>Serialising\<close>

primrec mseqs :: "('s, unit) mon list \<Rightarrow> ('s, unit) mon" where
  "mseqs [] = mreturn ()"
| "mseqs (m # ms) = mseq m (mseqs ms)"

text \<open>
  \<^verbatim>\<open>WriteGroup\<close> and \<^verbatim>\<open>WriteMessage\<close>. A message is sized before it is serialised and not changed in between, so
  its cached size is \<^verbatim>\<open>ByteSize\<close>; \<open>write\<close> is \<^verbatim>\<open>SerializeWithCachedSizes\<close> of the message.
\<close>

definition WriteGroup :: "('m Message \<Rightarrow> unit cos) \<Rightarrow> int \<Rightarrow> 'm Message \<Rightarrow> unit cos" where
  "WriteGroup write field_number x =
     mseq (WFL_WriteTag field_number WIRETYPE_START_GROUP) (mseq (write x) (WFL_WriteTag field_number WIRETYPE_END_GROUP))"

definition WriteMessage :: "('m Message \<Rightarrow> int) \<Rightarrow> ('m Message \<Rightarrow> unit cos) \<Rightarrow> int \<Rightarrow> 'm Message \<Rightarrow> unit cos" where
  "WriteMessage size_of write field_number x =
     mseq (WFL_WriteTag field_number WIRETYPE_LENGTH_DELIMITED)
       (mseq (WriteVarint32 (word_of_int (size_of x))) (write x))"

text \<open>
  One value. Asking the reflection for a value of another type than the field's ends the program; a packed
  value has no tag of its own.
\<close>

definition WriteValue :: "('m Message \<Rightarrow> int) \<Rightarrow> ('m Message \<Rightarrow> unit cos) \<Rightarrow> 'm FieldDescriptor \<Rightarrow> 'm Value \<Rightarrow> unit cos" where
  "WriteValue size_of write f v =
     (case v of
        VPrim p \<Rightarrow> if fd_packed f then WritePrimitiveNoTag (fd_type f) p else WritePrimitive (fd_type f) (fd_number f) p
      | VString str \<Rightarrow>
          if fd_type f = TYPE_STRING \<or> fd_type f = TYPE_BYTES then WFL_WriteString (fd_number f) str else mfault AssertFail
      | VMessage x \<Rightarrow>
          if fd_type f = TYPE_GROUP then WriteGroup write (fd_number f) x
          else if fd_type f = TYPE_MESSAGE then WriteMessage size_of write (fd_number f) x
          else mfault AssertFail)"

definition SerializeFieldWithCachedSizes ::
  "('m Message \<Rightarrow> int) \<Rightarrow> ('m Message \<Rightarrow> unit cos) \<Rightarrow> 'm FieldDescriptor \<Rightarrow> 'm Message \<Rightarrow> unit cos"
where
  "SerializeFieldWithCachedSizes size_of write f m =
     (let vs = GetField m (fd_number f); values = (if is_repeated f then vs else take 1 vs) in
      mseq (if fd_packed f \<and> values \<noteq> [] then
              mseq (WFL_WriteTag (fd_number f) WIRETYPE_LENGTH_DELIMITED)
                (WriteVarint32 (word_of_int (FieldDataOnlyByteSize size_of f m)))
            else mreturn ())
        (mseqs (map (WriteValue size_of write f) values)))"

lemma SerializeField_cong [fundef_cong]:
  assumes "size_of = size_of'" "f = f'" "m = m'" "\<And>x. VMessage x \<in> set (GetField m' (fd_number f')) \<Longrightarrow> write x = write' x"
  shows "SerializeFieldWithCachedSizes size_of write f m = SerializeFieldWithCachedSizes size_of' write' f' m'"
proof -
  have eq: "map (WriteValue size_of write f) vs = map (WriteValue size_of' write' f') vs"
    if "set vs \<subseteq> set (GetField m' (fd_number f'))" for vs
    using assms that by (auto simp: WriteValue_def WriteGroup_def WriteMessage_def split: Value.split)
  show ?thesis
    using assms(1-3) eq [of "GetField m' (fd_number f')"] eq [of "take 1 (GetField m' (fd_number f'))"]
    by (simp add: SerializeFieldWithCachedSizes_def Let_def set_take_subset del: map_eq_conv)
qed

text \<open>The last step is the \<^verbatim>\<open>GOOGLE_CHECK_EQ\<close>.\<close>

function SerializeWithCachedSizes :: "'m pool \<Rightarrow> 'm Message \<Rightarrow> unit cos" where
  "SerializeWithCachedSizes D m =
     mbind (mgets (\<lambda>s. ByteCount s + ByteSize D m)) (\<lambda>expected_endpoint.
     mseq (mseqs (map (\<lambda>f. SerializeFieldWithCachedSizes (ByteSize D) (SerializeWithCachedSizes D) f m) (ListFields D m)))
       (mseq (SerializeUnknownFields (msg_unknown m))
         (mbind (mgets ByteCount) (\<lambda>n. if n = expected_endpoint then mreturn () else mfault AssertFail))))"
  by pat_completeness auto
termination
  by (relation "measure (\<lambda>(D, m). size m)") (auto intro: GetField_size)

declare SerializeWithCachedSizes.simps [simp del]

section \<open>Initialisation and merging\<close>

text \<open>Are all required fields set, in the message and in the messages it contains?\<close>

definition FieldInitialized :: "('m Message \<Rightarrow> bool) \<Rightarrow> 'm FieldDescriptor \<Rightarrow> 'm Message \<Rightarrow> bool" where
  "FieldInitialized initialized f m \<longleftrightarrow>
     list_all (\<lambda>v. case v of VMessage x \<Rightarrow> initialized x | _ \<Rightarrow> True) (GetField m (fd_number f))"

lemma FieldInitialized_cong [fundef_cong]:
  assumes "f = f'" "m = m'" "\<And>x. VMessage x \<in> set (GetField m' (fd_number f')) \<Longrightarrow> init x = init' x"
  shows "FieldInitialized init f m = FieldInitialized init' f' m'"
  using assms by (auto simp: FieldInitialized_def list_all_iff split: Value.split)

function IsInitialized :: "'m pool \<Rightarrow> 'm Message \<Rightarrow> bool" where
  "IsInitialized D m \<longleftrightarrow>
     list_all (\<lambda>f. is_required f \<longrightarrow> HasField m f) (D (msg_type m))
     \<and> list_all (\<lambda>f. kFieldTypeToCppTypeMap (fd_type f) = CPPTYPE_MESSAGE \<longrightarrow> FieldInitialized (IsInitialized D) f m) (ListFields D m)"
  by pat_completeness auto
termination
  by (relation "measure (\<lambda>(D, m). size m)") (auto intro: GetField_size)

declare IsInitialized.simps [simp del]

definition Clear :: "'m Message \<Rightarrow> 'm Message" where
  "Clear m = new_message (msg_type m)"

end
