(* ===== verification/Coded_Input_Proofs.thy ===== *)
theory Coded_Input_Proofs
  imports Coded_Input
begin

text \<open>
  \<^verbatim>\<open>CodedInputStream\<close> implements reading from a byte string: \<open>avail\<close> is what can still be read before the
  nearest limit, every reader takes its bytes from the front of it, whichever blocks they lie in,
  and no reader touches memory outside the current block.
\<close>

section \<open>What is there to read\<close>

definition inputs :: "CodedInputStream \<Rightarrow> byte list list" where
  "inputs s = (case zc_input s of None \<Rightarrow> [] | Some bs \<Rightarrow> bs)"

definition raw :: "CodedInputStream \<Rightarrow> byte list" where
  "raw s = drop (nat (bufp s)) (block s) @ concat (inputs s)"

definition closest :: "CodedInputStream \<Rightarrow> int" where
  "closest s = min (current_limit s) (total_bytes_limit s)"

definition avail :: "CodedInputStream \<Rightarrow> byte list" where
  "avail s = take (nat (closest s - CurrentPosition s)) (raw s)"

definition cis_wf :: "CodedInputStream \<Rightarrow> bool" where
  "cis_wf s \<longleftrightarrow>
     0 \<le> bufp s \<and> bufp s \<le> buf_end s \<and> int (length (block s)) = buf_end s + buffer_size_after_limit s
     \<and> overflow_bytes s = 0 \<and> 0 \<le> CurrentPosition s
     \<and> buffer_size_after_limit s = max 0 (total_bytes_read s - closest s)
     \<and> total_bytes_read s + int (length (concat (inputs s))) \<le> INT_MAX
     \<and> (zc_input s = None \<longrightarrow> current_limit s \<le> total_bytes_read s)"

text \<open>\<open>moved n s s'\<close>: the stream has gone \<open>n\<close> bytes ahead and nothing else has happened.\<close>

definition moved :: "nat \<Rightarrow> CodedInputStream \<Rightarrow> CodedInputStream \<Rightarrow> bool" where
  "moved n s s' \<longleftrightarrow>
     cis_wf s' \<and> raw s' = drop n (raw s) \<and> CurrentPosition s' = CurrentPosition s + int n
     \<and> current_limit s' = current_limit s \<and> total_bytes_limit s' = total_bytes_limit s
     \<and> (zc_input s' = None \<longleftrightarrow> zc_input s = None)
     \<and> recursion_depth s' = recursion_depth s \<and> recursion_limit s' = recursion_limit s
     \<and> last_tag s' = last_tag s \<and> legitimate_message_end s' = legitimate_message_end s"

lemma moved_refl: "cis_wf s \<Longrightarrow> moved 0 s s"
  by (simp add: moved_def)

lemma moved_trans: "moved m s1 s2 \<Longrightarrow> moved n s2 s3 \<Longrightarrow> moved (m + n) s1 s3"
  by (simp add: moved_def add.commute)

lemma moved_wf: "moved n s s' \<Longrightarrow> cis_wf s'"
  by (simp add: moved_def)

lemma moved_avail:
  assumes "moved n s s'"
  shows "avail s' = drop n (avail s)"
proof -
  have "nat (closest s - (CurrentPosition s + int n)) = nat (closest s - CurrentPosition s) - n" by linarith
  then show ?thesis using assms by (simp add: moved_def avail_def closest_def drop_take)
qed

lemma avail_buffer:
  assumes "cis_wf s"
  shows "BufferSize s \<le> int (length (avail s))"
    and "take (nat (BufferSize s)) (drop (nat (bufp s)) (block s)) = take (nat (BufferSize s)) (avail s)"
proof -
  have "BufferSize s \<le> closest s - CurrentPosition s"
    using assms by (auto simp: cis_wf_def CurrentPosition_def BufferSize_def)
  moreover have "BufferSize s \<le> int (length (drop (nat (bufp s)) (block s)))"
    using assms by (auto simp: cis_wf_def BufferSize_def)
  ultimately show "BufferSize s \<le> int (length (avail s))"
    and "take (nat (BufferSize s)) (drop (nat (bufp s)) (block s)) = take (nat (BufferSize s)) (avail s)"
    by (auto simp: avail_def raw_def min_def nat_le_iff)
qed

lemma mem_read_buffer:
  assumes "cis_wf s" "0 \<le> n" "n \<le> BufferSize s"
  shows "mem_read (block s) (bufp s) n = Inr (take (nat n) (avail s))"
proof -
  have "take (nat n) (drop (nat (bufp s)) (block s)) = take (nat n) (avail s)"
    using arg_cong [OF avail_buffer(2) [OF assms(1)], of "take (nat n)"] assms(2,3) by (simp add: min_def nat_le_eq_zle)
  then show ?thesis using assms by (auto simp: mem_read_def cis_wf_def BufferSize_def)
qed

lemma Advance_moved:
  assumes "cis_wf s" "0 \<le> n" "n \<le> BufferSize s"
  shows "moved (nat n) s (Advance n s)"
proof -
  have "drop (nat (bufp s + n)) (block s) @ concat (inputs s) =
      drop (nat n) (drop (nat (bufp s)) (block s) @ concat (inputs s))"
  proof -
    have "nat n \<le> length (drop (nat (bufp s)) (block s))" using assms by (auto simp: cis_wf_def BufferSize_def)
    then show ?thesis using assms by (simp add: cis_wf_def nat_add_distrib add.commute)
  qed
  then show ?thesis
    using assms by (auto simp: moved_def Advance_def cis_wf_def raw_def BufferSize_def CurrentPosition_def inputs_def closest_def)
qed

section \<open>Refilling\<close>

lemma NextNonEmpty_Some: "NextNonEmpty bs = Some (b, rest) \<Longrightarrow> b \<noteq> [] \<and> concat bs = b @ concat rest"
  by (induction bs) (auto split: if_splits)

lemma NextNonEmpty_None: "NextNonEmpty bs = None \<Longrightarrow> concat bs = []"
  by (induction bs) (auto split: if_splits)

lemma Refresh_ok:
  assumes wf: "cis_wf s" and empty: "BufferSize s = 0"
  shows "mwp Refresh (\<lambda>ok s'. moved 0 s s' \<and> (\<not> ok \<longrightarrow> avail s = [])) (\<lambda>_. False) s"
proof (cases "buffer_size_after_limit s > 0 \<or> overflow_bytes s > 0 \<or> total_bytes_read s = current_limit s")
  case True
  have "closest s \<le> CurrentPosition s"
    using True wf empty by (auto simp: cis_wf_def CurrentPosition_def BufferSize_def closest_def)
  then have "avail s = []" by (simp add: avail_def)
  then show ?thesis using True moved_refl [OF wf] by (simp add: mwp_def Refresh_def)
next
  case False
  have "zc_input s \<noteq> None" using wf False by (auto simp: cis_wf_def closest_def)
  then obtain bs where bs: "zc_input s = Some bs" by blast
  have after: "buffer_size_after_limit s = 0" using wf False unfolding cis_wf_def by linarith
  have atend: "drop (nat (bufp s)) (block s) = []" using wf empty after by (auto simp: cis_wf_def BufferSize_def)
  define s1 where "s1 = (if total_bytes_warning_threshold s \<ge> 0 \<and> total_bytes_read s \<ge> total_bytes_warning_threshold s
                  then s\<lparr>total_bytes_warning_threshold := -2\<rparr> else s)"
  have s1: "zc_input s1 = Some bs" "total_bytes_read s1 = total_bytes_read s" "current_limit s1 = current_limit s"
    "total_bytes_limit s1 = total_bytes_limit s" "buffer_size_after_limit s1 = 0" "overflow_bytes s1 = 0"
    "recursion_depth s1 = recursion_depth s" "recursion_limit s1 = recursion_limit s" "last_tag s1 = last_tag s"
    "legitimate_message_end s1 = legitimate_message_end s"
    using bs after wf by (simp_all add: s1_def cis_wf_def)
  show ?thesis
  proof (cases "NextNonEmpty bs")
    case None
    let ?s' = "s1\<lparr>zc_input := Some [], block := [], bufp := 0, buf_end := 0\<rparr>"
    have "moved 0 s ?s'" "avail s = []"
      using wf empty after atend bs s1 NextNonEmpty_None [OF None]
      by (auto simp: moved_def cis_wf_def raw_def BufferSize_def CurrentPosition_def inputs_def closest_def avail_def)
    moreover have "Refresh s = Inr (False, ?s')"
      using False None s1(1) by (simp add: Refresh_def s1_def [symmetric])
    ultimately show ?thesis by (simp add: mwp_def)
  next
    case (Some p)
    obtain b rest where p: "p = (b, rest)" by (cases p)
    have cat: "concat bs = b @ concat rest" using NextNonEmpty_Some Some p by blast
    let ?s2 = "s1\<lparr>zc_input := Some rest, block := b, bufp := 0, buf_end := int (length b),
      total_bytes_read := total_bytes_read s + int (length b)\<rparr>"
    have room: "total_bytes_read s \<le> INT_MAX - int (length b)" using wf bs cat by (simp add: cis_wf_def inputs_def)
    have run: "Refresh s = Inr (True, RecomputeBufferLimits ?s2)"
      using False Some p s1 room by (simp add: Refresh_def s1_def [symmetric] Let_def)
    have "moved 0 s (RecomputeBufferLimits ?s2)"
      using wf empty after atend bs s1 cat room
      by (auto simp: moved_def cis_wf_def raw_def BufferSize_def CurrentPosition_def inputs_def closest_def
          RecomputeBufferLimits_def Let_def)
    then show ?thesis using run by (simp add: mwp_def)
  qed
qed

section \<open>Raw bytes\<close>

lemma moved_step: "moved m s1 s2 \<Longrightarrow> moved n s2 s3 \<Longrightarrow> k = m + n \<Longrightarrow> moved k s1 s3"
  by (simp add: moved_trans)

lemma ReadRaw_loop_ok:
  "cis_wf s \<Longrightarrow> 0 \<le> sz \<Longrightarrow>
    \<exists>s'. ReadRaw_loop sz acc s = Inr ((nat sz \<le> length (avail s), acc @ take (nat sz) (avail s)), s')
      \<and> moved (min (nat sz) (length (avail s))) s s'"
proof (induction sz acc s rule: ReadRaw_loop.induct)
  case (1 sz acc s)
  let ?n = "BufferSize s"
  have n: "0 \<le> ?n" using "1.prems" by (simp add: cis_wf_def BufferSize_def)
  have len: "?n \<le> int (length (avail s))" by (rule avail_buffer(1) [OF "1.prems"(1)])
  show ?case
  proof (cases "?n < sz")
    case False
    then have m: "mem_read (block s) (bufp s) sz = Inr (take (nat sz) (avail s))" "moved (nat sz) s (Advance sz s)"
      using "1.prems" by (auto intro: mem_read_buffer Advance_moved)
    moreover have "nat sz \<le> length (avail s)" using len False by linarith
    ultimately show ?thesis using False by (simp add: ReadRaw_loop.simps [of sz acc s] Let_def min_def)
  next
    case True
    have got: "mem_read (block s) (bufp s) ?n = Inr (take (nat ?n) (avail s))" and adv: "moved (nat ?n) s (Advance ?n s)"
      using "1.prems"(1) n by (auto intro: mem_read_buffer Advance_moved)
    have av: "avail (Advance ?n s) = drop (nat ?n) (avail s)" by (rule moved_avail [OF adv])
    have empty: "BufferSize (Advance ?n s) = 0" by (simp add: Advance_def BufferSize_def)
    obtain ok s1 where r: "Refresh (Advance ?n s) = Inr (ok, s1)" "moved 0 (Advance ?n s) s1"
      "\<not> ok \<longrightarrow> avail (Advance ?n s) = []"
      using Refresh_ok [OF moved_wf [OF adv] empty] by (auto simp: mwp_total)
    have mv: "moved (nat ?n) s s1" using moved_trans [OF adv r(2)] by simp
    show ?thesis
    proof (cases ok)
      case False
      then have "length (avail s) \<le> nat ?n" using r(3) av by simp
      then have "length (avail s) = nat ?n" using len by linarith
      then show ?thesis
        using True False got r(1) mv n by (simp add: ReadRaw_loop.simps [of sz acc s] Let_def min_def)
    next
      case ok: True
      have av1: "avail s1 = drop (nat ?n) (avail s)" using moved_avail [OF r(2)] av by simp
      obtain s2 where s2: "ReadRaw_loop (sz - ?n) (acc @ take (nat ?n) (avail s)) s1 =
          Inr ((nat (sz - ?n) \<le> length (avail s1), (acc @ take (nat ?n) (avail s)) @ take (nat (sz - ?n)) (avail s1)), s2)"
        "moved (min (nat (sz - ?n)) (length (avail s1))) s1 s2"
        using "1.IH" [OF refl True got r(1) refl] ok moved_wf [OF mv] True by auto
      have nn: "nat (sz - ?n) = nat sz - nat ?n" using n True by linarith
      have "take (nat ?n) (avail s) @ take (nat sz - nat ?n) (drop (nat ?n) (avail s)) = take (nat sz) (avail s)"
        using take_add [of "nat ?n" "nat sz - nat ?n" "avail s"] True n by (simp add: nat_le_eq_zle)
      moreover have "nat sz - nat ?n \<le> length (avail s) - nat ?n \<longleftrightarrow> nat sz \<le> length (avail s)"
        using len True n by linarith
      moreover have "moved (min (nat sz) (length (avail s))) s s2"
      proof (rule moved_step [OF mv s2(2)])
        have "nat ?n \<le> length (avail s)" "nat ?n \<le> nat sz" using len True by linarith+
        moreover have "a \<le> l \<Longrightarrow> a \<le> z \<Longrightarrow> min z l = a + min (z - a) (l - a)" for a l z :: nat
          by (simp add: min_def) linarith
        ultimately show "min (nat sz) (length (avail s)) = nat ?n + min (nat (sz - ?n)) (length (avail s1))"
          unfolding nn av1 length_drop by blast
      qed
      ultimately show ?thesis
        using True ok got r(1) s2(1) av1 nn by (simp add: ReadRaw_loop.simps [of sz acc s] Let_def)
    qed
  qed
qed

lemma ReadRaw_ok:
  "cis_wf s \<Longrightarrow> 0 \<le> sz \<Longrightarrow>
    \<exists>s'. ReadRaw sz s = Inr ((nat sz \<le> length (avail s), take (nat sz) (avail s)), s')
      \<and> moved (min (nat sz) (length (avail s))) s s'"
  using ReadRaw_loop_ok [of s sz "[]"] by (simp add: ReadRaw_def)

lemma InternalReadString_ok:
  assumes "cis_wf s" "0 \<le> sz"
  shows "\<exists>s'. InternalReadStringInline sz s = Inr ((nat sz \<le> length (avail s), take (nat sz) (avail s)), s')
      \<and> moved (min (nat sz) (length (avail s))) s s'"
proof (cases "sz \<le> BufferSize s")
  case True
  then have "nat sz \<le> length (avail s)" using avail_buffer(1) [OF assms(1)] by linarith
  then show ?thesis
    using True assms mem_read_buffer [OF assms True] Advance_moved [OF assms True]
    by (simp add: InternalReadStringInline_def run_simps min_def)
next
  case False
  then show ?thesis
    using assms ReadRaw_loop_ok [of s sz "[]"] by (simp add: InternalReadStringInline_def ReadStringFallback_def run_simps)
qed

section \<open>Varints\<close>

lemma fill_buffer_ok:
  "cis_wf s \<Longrightarrow> \<exists>s'. fill_buffer s = Inr (avail s \<noteq> [], s') \<and> moved 0 s s' \<and> (avail s \<noteq> [] \<longrightarrow> 0 < BufferSize s')"
proof (induction s rule: fill_buffer.induct)
  case (1 s)
  show ?case
  proof (cases "bufp s = buf_end s")
    case False
    then have "0 < BufferSize s" using "1.prems" by (auto simp: cis_wf_def BufferSize_def)
    moreover have "avail s \<noteq> []" using avail_buffer(1) [OF "1.prems"] calculation by auto
    ultimately show ?thesis using False moved_refl [OF "1.prems"] by (simp add: fill_buffer.simps [of s])
  next
    case True
    then obtain ok s1 where r: "Refresh s = Inr (ok, s1)" "moved 0 s s1" "\<not> ok \<longrightarrow> avail s = []"
      using Refresh_ok [OF "1.prems"] by (auto simp: mwp_total BufferSize_def)
    have av: "avail s1 = avail s" using moved_avail [OF r(2)] by simp
    show ?thesis
    proof (cases ok)
      case False
      then show ?thesis using True r by (simp add: fill_buffer.simps [of s])
    next
      case ok: True
      then obtain s2 where "fill_buffer s1 = Inr (avail s \<noteq> [], s2)" "moved 0 s1 s2" "avail s \<noteq> [] \<longrightarrow> 0 < BufferSize s2"
        using "1.IH" [OF True r(1) refl] moved_wf [OF r(2)] av by auto
      then show ?thesis
        using True ok r moved_trans [OF r(2), of 0 s2] by (auto simp: fill_buffer.simps [of s])
    qed
  qed
qed

lemma arr_get_front:
  assumes "cis_wf s" "0 < BufferSize s"
  shows "arr_get (block s) (bufp s) = Inr (hd (avail s))" and "avail s \<noteq> []"
proof -
  show ne: "avail s \<noteq> []" using avail_buffer(1) [OF assms(1)] assms(2) by auto
  have i: "0 \<le> bufp s" "bufp s < int (length (block s))" using assms by (auto simp: cis_wf_def BufferSize_def)
  have "hd (drop (nat (bufp s)) (block s)) = block s ! nat (bufp s)" using i by (intro hd_drop_conv_nth) linarith
  moreover have "hd (take (nat (BufferSize s)) (drop (nat (bufp s)) (block s))) = hd (drop (nat (bufp s)) (block s))"
    "hd (take (nat (BufferSize s)) (avail s)) = hd (avail s)"
    using assms(2) by simp_all
  ultimately show "arr_get (block s) (bufp s) = Inr (hd (avail s))"
    using i avail_buffer(2) [OF assms(1)] by simp
qed

text \<open>The digits read so far, and one more.\<close>

lemma digit64: "(ucast (ucast (b :: byte) AND 0x7F :: 32 word) :: 64 word) = of_nat (low_digit b)"
  using low_digit_less [of b] by (simp add: digit_bits unsigned_of_nat take_bit_nat_eq_self)

lemma unat_byte_digit: "unat (b :: byte) = (if b < 128 then low_digit b else 128 + low_digit b)"
  using unat_bound [of b] mod_if [of "unat b" 128] by (simp add: low_digit_def word_less_nat_alt)

lemma ReadVarint64_loop_ok:
  "cis_wf s \<Longrightarrow> acc < 128 ^ count \<Longrightarrow>
    \<exists>s' n. ReadVarint64_loop k count (of_nat acc) s =
        Inr (map_option (\<lambda>(v, _). of_nat (acc + 128 ^ count * v)) (varint_read k (avail s)), s')
      \<and> moved n s s' \<and> n \<le> length (avail s)
      \<and> (\<forall>v rest. varint_read k (avail s) = Some (v, rest) \<longrightarrow> drop n (avail s) = rest)"
proof (induction k arbitrary: s acc count)
  case 0
  then show ?case using moved_refl [of s] by (auto simp: run_simps intro!: exI [of _ 0])
next
  case (Suc k)
  obtain s1 where f: "fill_buffer s = Inr (avail s \<noteq> [], s1)" "moved 0 s s1" "avail s \<noteq> [] \<longrightarrow> 0 < BufferSize s1"
    using fill_buffer_ok [OF Suc.prems(1)] by auto
  have av: "avail s1 = avail s" using moved_avail [OF f(2)] by simp
  show ?case
  proof (cases "avail s")
    case Nil
    then show ?thesis using f by (auto simp: run_simps intro!: exI [of _ 0])
  next
    case (Cons b bs)
    have wf1: "cis_wf s1" and bsz: "0 < BufferSize s1" using f Cons by (auto simp: moved_def)
    have get: "arr_get (block s1) (bufp s1) = Inr b" using arr_get_front(1) [OF wf1 bsz] av Cons by simp
    have adv: "moved 1 s1 (Advance 1 s1)" using Advance_moved [OF wf1, of 1] bsz by simp
    have mv: "moved 1 s (Advance 1 s1)" using moved_trans [OF f(2) adv] by simp
    have av2: "avail (Advance 1 s1) = bs" using moved_avail [OF mv] Cons by simp
    have pw: "(2 :: nat) ^ (7 * count) = 128 ^ count" by (simp add: power_mult)
    have step: "of_nat acc OR push_bit (7 * count) (ucast (ucast b AND 0x7F :: 32 word)) =
        (of_nat (acc + 128 ^ count * low_digit b) :: 64 word)"
      using or_shift [where 'a = 64, of acc "7 * count" "low_digit b"] Suc.prems(2) by (simp add: pw digit64)
    have lim: "acc + 128 ^ count * low_digit b < 128 ^ Suc count"
    proof -
      have "128 ^ count * low_digit b \<le> 128 ^ count * 127"
        using low_digit_less [of b] by (intro mult_le_mono2) simp
      then show ?thesis using Suc.prems(2) unfolding power_Suc by linarith
    qed
    have run: "ReadVarint64_loop (Suc k) count (of_nat acc) s =
       (if b < 128 then Inr (Some (of_nat (acc + 128 ^ count * low_digit b)), Advance 1 s1)
        else ReadVarint64_loop k (Suc count) (of_nat (acc + 128 ^ count * low_digit b)) (Advance 1 s1))"
      using f(1) get Cons step by (simp add: run_simps Let_def digit_bits del: of_nat_add)
    show ?thesis
    proof (cases "b < 128")
      case True
      then show ?thesis
        using run mv Cons unat_byte_digit [of b] by (auto intro!: exI [of _ 1] exI [of _ "Advance 1 s1"])
    next
      case False
      obtain s2 n where ih: "ReadVarint64_loop k (Suc count) (of_nat (acc + 128 ^ count * low_digit b)) (Advance 1 s1) =
          Inr (map_option (\<lambda>(v, _). of_nat (acc + 128 ^ count * low_digit b + 128 ^ Suc count * v)) (varint_read k bs), s2)"
        "moved n (Advance 1 s1) s2" "n \<le> length bs" "\<forall>v rest. varint_read k bs = Some (v, rest) \<longrightarrow> drop n bs = rest"
        using Suc.IH [OF moved_wf [OF mv] lim] av2 by auto
      have "moved (Suc n) s s2" using moved_trans [OF mv ih(2)] by simp
      then show ?thesis
        using run False ih Cons unat_byte_digit [of b]
        by (intro exI [of _ s2] exI [of _ "Suc n"]) (auto simp: option.map_comp comp_def algebra_simps split_def)
    qed
  qed
qed

text \<open>
  The array readers run only when the whole number, or ten bytes, lie in the buffer: they never
  read past its end.
\<close>

lemma varint_read_take:
  "varint_read k bs = Some (v, rest) \<Longrightarrow> length bs - length rest \<le> n \<Longrightarrow> \<exists>rest'. varint_read k (take n bs) = Some (v, rest')"
proof (induction k bs arbitrary: v n rule: varint_read.induct)
  case (1 k b bs)
  show ?case
  proof (cases "b < 128")
    case True
    then show ?thesis using 1 by (cases n) auto
  next
    case False
    then obtain v' where v': "varint_read k bs = Some (v', rest)" using "1.prems" by auto
    then obtain m where n: "n = Suc m" "length bs - length rest \<le> m"
      using varint_read_suffix [OF v'] "1.prems"(2) by (cases n) auto
    then show ?thesis using "1.IH" [OF False v' n(2)] "1.prems" False v' by auto
  qed
qed simp_all

lemma varint_read_append:
  "varint_read k bs = Some (v, rest) \<Longrightarrow> varint_read k (bs @ more_bs) = Some (v, rest @ more_bs)"
  by (induction k bs arbitrary: v rule: varint_read.induct) (auto split: if_splits)

lemma varint_read_last:
  "bs \<noteq> [] \<Longrightarrow> last bs < 128 \<Longrightarrow> length bs \<le> k \<Longrightarrow> varint_read k bs \<noteq> None"
  by (induction k bs rule: varint_read.induct) (auto split: if_splits)

lemma varint_read_none: "varint_read k bs = None \<Longrightarrow> k \<le> length bs \<Longrightarrow> varint_read k (bs @ more_bs) = None"
  by (induction k bs rule: varint_read.induct) (auto split: if_splits)

lemma fast_varint_ok:
  assumes wf: "cis_wf s"
  obtains "fast_varint s = Inr (False, s)"
  | "fast_varint s = Inr (True, s)" "10 \<le> BufferSize s \<or> varint_read 10 (take (nat (BufferSize s)) (avail s)) \<noteq> None"
proof -
  let ?b = "take (nat (BufferSize s)) (avail s)"
  have len: "length ?b = nat (BufferSize s)" using avail_buffer(1) [OF wf] by simp
  show ?thesis
  proof (cases "10 \<le> BufferSize s \<or> BufferSize s \<le> 0")
    case True
    then show ?thesis using that by (auto simp: fast_varint_def run_simps kMaxVarintBytes_def)
  next
    case False
    have i: "0 \<le> buf_end s - 1" "buf_end s - 1 < int (length (block s))" "nat (bufp s) + (nat (BufferSize s) - 1) = nat (buf_end s - 1)"
      using wf False by (auto simp: cis_wf_def BufferSize_def)
    have "last ?b = ?b ! (nat (BufferSize s) - 1)" using len False by (subst last_conv_nth) auto
    also have "... = block s ! nat (buf_end s - 1)"
      using i(3) False i(2) unfolding avail_buffer(2) [OF wf, symmetric] by simp
    finally have last: "arr_get (block s) (buf_end s - 1) = Inr (last ?b)" using i by simp
    have bit: "(c AND 0x80 = 0) = (c < 128)" for c :: byte
    proof -
      have "bit (c AND 0x80) n \<longleftrightarrow> n = 7 \<and> bit c 7" "bit (ucast c AND 0x80 :: 32 word) n \<longleftrightarrow> n = 7 \<and> bit c 7" for n
        by (auto simp: byte_bits)
      then have "(c AND 0x80 = 0) = (ucast c AND 0x80 = (0 :: 32 word))"
        by (metis bit_0_eq bit_word_eqI bot_apply bot_bool_def)
      then show ?thesis by (simp add: digit_bits)
    qed
    have "varint_read 10 ?b \<noteq> None" if "last ?b < 128"
    proof -
      have "length ?b > 0" "length ?b \<le> 10" unfolding len using False by auto
      then show ?thesis using varint_read_last [of ?b 10] that by (metis length_greater_0_conv)
    qed
    then show ?thesis
      using that False last bit by (cases "last ?b < 128") (auto simp: fast_varint_def run_simps kMaxVarintBytes_def)
  qed
qed

lemma from_array_ok:
  assumes wf: "cis_wf s"
    and fast: "10 \<le> BufferSize s \<or> varint_read 10 (take (nat (BufferSize s)) (avail s)) \<noteq> None"
    and reader: "\<And>mem. reader mem = (case varint_read 10 mem of
       Some (n, rest) \<Rightarrow> Inr (Some (of_nat n :: 'a::len word, length mem - length rest))
     | None \<Rightarrow> if 10 \<le> length mem then Inr None else Inl OutOfBounds)"
  shows "\<exists>s' n. from_array reader s = Inr (map_option (\<lambda>(v, _). of_nat v) (varint_read 10 (avail s)), s')
      \<and> moved n s s' \<and> n \<le> length (avail s)
      \<and> (\<forall>v rest. varint_read 10 (avail s) = Some (v, rest) \<longrightarrow> drop n (avail s) = rest)"
proof -
  let ?b = "take (nat (BufferSize s)) (avail s)"
  let ?mem = "drop (nat (bufp s)) (block s)"
  have b: "?b = take (nat (BufferSize s)) ?mem" using avail_buffer(2) [OF wf] by simp
  have split: "?b @ drop (nat (BufferSize s)) ?mem = ?mem" "?b @ drop (nat (BufferSize s)) (avail s) = avail s"
    by (subst b, rule append_take_drop_id) (rule append_take_drop_id)
  have len: "length ?b = nat (BufferSize s)" using avail_buffer(1) [OF wf] by simp
  show ?thesis
  proof (cases "varint_read 10 ?b")
    case None
    then have "10 \<le> length ?b" using fast len by auto
    then have "varint_read 10 ?mem = None" "varint_read 10 (avail s) = None" "10 \<le> length ?mem"
      using varint_read_none [OF None] split by (metis, metis, metis length_append trans_le_add1)
    then show ?thesis
      using moved_refl [OF wf] by (auto simp: from_array_def run_simps reader intro!: exI [of _ 0])
  next
    case (Some p)
    obtain v rest where p: "varint_read 10 ?b = Some (v, rest)" using Some by (cases p) auto
    obtain pre where pre: "?b = pre @ rest" using varint_read_suffix [OF p] by blast
    have m: "varint_read 10 ?mem = Some (v, rest @ drop (nat (BufferSize s)) ?mem)"
      and a: "varint_read 10 (avail s) = Some (v, rest @ drop (nat (BufferSize s)) (avail s))"
      using varint_read_append [OF p] split by metis+
    have used: "length ?mem - length (rest @ drop (nat (BufferSize s)) ?mem) = length pre"
      using arg_cong [OF split(1), of length] pre by (simp only: length_append)
    have "length pre \<le> nat (BufferSize s)" using len pre by (metis length_append le_add1)
    then have "moved (length pre) s (Advance (int (length pre)) s)"
      using Advance_moved [OF wf, of "int (length pre)"] wf by (simp add: cis_wf_def BufferSize_def le_nat_iff)
    moreover have "length pre \<le> length (avail s)" "drop (length pre) (avail s) = rest @ drop (nat (BufferSize s)) (avail s)"
      using split(2) pre by (metis append_assoc length_append le_add1, metis append_assoc append_eq_conv_conj)
    ultimately show ?thesis
      using a m used by (intro exI [of _ "Advance (int (length pre)) s"] exI [of _ "length pre"])
        (simp add: from_array_def run_simps reader)
  qed
qed

lemma ReadVarint64Slow_ok:
  assumes "cis_wf s"
  shows "\<exists>s' n. ReadVarint64Slow s = Inr (map_option (\<lambda>(v, _). of_nat v) (varint_read 10 (avail s)), s')
      \<and> moved n s s' \<and> n \<le> length (avail s)
      \<and> (\<forall>v rest. varint_read 10 (avail s) = Some (v, rest) \<longrightarrow> drop n (avail s) = rest)"
  using ReadVarint64_loop_ok [OF assms, of 0 0 10] by (simp add: ReadVarint64Slow_def kMaxVarintBytes_def)

lemma ReadVarint64Fallback_ok:
  assumes wf: "cis_wf s"
  shows "\<exists>s' n. ReadVarint64Fallback s = Inr (map_option (\<lambda>(v, _). of_nat v) (varint_read 10 (avail s)), s')
      \<and> moved n s s' \<and> n \<le> length (avail s)
      \<and> (\<forall>v rest. varint_read 10 (avail s) = Some (v, rest) \<longrightarrow> drop n (avail s) = rest)"
proof (rule fast_varint_ok [OF wf])
  assume "fast_varint s = Inr (False, s)"
  then show ?thesis using ReadVarint64Slow_ok [OF wf] by (simp add: ReadVarint64Fallback_def run_simps)
next
  assume "fast_varint s = Inr (True, s)" "10 \<le> BufferSize s \<or> varint_read 10 (take (nat (BufferSize s)) (avail s)) \<noteq> None"
  then show ?thesis
    using from_array_ok [OF wf _ ReadVarint64_eq] by (simp add: ReadVarint64Fallback_def run_simps)
qed

lemma ucast_of_nat_down: "(ucast (of_nat v :: 64 word) :: 32 word) = of_nat v"
  by (rule bit_word_eqI) (simp add: bit_simps)

lemma ReadVarint32Fallback_ok:
  assumes wf: "cis_wf s"
  shows "\<exists>s' n. ReadVarint32Fallback s = Inr (map_option (\<lambda>(v, _). of_nat v) (varint_read 10 (avail s)), s')
      \<and> moved n s s' \<and> n \<le> length (avail s)
      \<and> (\<forall>v rest. varint_read 10 (avail s) = Some (v, rest) \<longrightarrow> drop n (avail s) = rest)"
proof (rule fast_varint_ok [OF wf])
  assume slow: "fast_varint s = Inr (False, s)"
  have down: "map_option ucast (map_option (\<lambda>(v, _). of_nat v :: 64 word) r) = map_option (\<lambda>(v, _). of_nat v :: 32 word) r"
    for r :: "(nat \<times> byte list) option" by (cases r) (auto simp: ucast_of_nat_down)
  obtain s' n where "ReadVarint64Fallback s = Inr (map_option (\<lambda>(v, _). of_nat v) (varint_read 10 (avail s)), s')"
    "moved n s s' \<and> n \<le> length (avail s) \<and> (\<forall>v rest. varint_read 10 (avail s) = Some (v, rest) \<longrightarrow> drop n (avail s) = rest)"
    using ReadVarint64Fallback_ok [OF wf] by blast
  then show ?thesis
    using slow by (intro exI [of _ s'] exI [of _ n]) (simp add: ReadVarint32Fallback_def ReadVarint32Slow_def run_simps down)
next
  assume "fast_varint s = Inr (True, s)" "10 \<le> BufferSize s \<or> varint_read 10 (take (nat (BufferSize s)) (avail s)) \<noteq> None"
  then show ?thesis
    using from_array_ok [OF wf _ ReadVarint32_eq] by (simp add: ReadVarint32Fallback_def run_simps)
qed

section \<open>The readers as parsers of the available bytes\<close>

text \<open>
  \<open>reads m p s\<close>: from \<open>s\<close> the reader \<open>m\<close> returns what the parser \<open>p\<close> returns on the bytes that are
  available, and leaves the bytes that \<open>p\<close> leaves; when \<open>p\<close> fails the stream is somewhere further on.
\<close>

definition reads :: "'a option cis \<Rightarrow> (byte list \<Rightarrow> ('a \<times> byte list) option) \<Rightarrow> CodedInputStream \<Rightarrow> bool" where
  "reads m p s \<longleftrightarrow> (\<exists>s' n. m s = Inr (map_option fst (p (avail s)), s') \<and> moved n s s' \<and> n \<le> length (avail s)
      \<and> (\<forall>v rest. p (avail s) = Some (v, rest) \<longrightarrow> avail s' = rest))"

lemma readsI:
  assumes "m s = Inr (r, s')" "moved n s s'" "n \<le> length (avail s)" "r = map_option fst (p (avail s))"
    and "\<And>v rest. p (avail s) = Some (v, rest) \<Longrightarrow> avail s' = rest"
  shows "reads m p s"
  using assms unfolding reads_def by blast

lemma readsE:
  assumes "reads m p s"
  obtains s' n where "m s = Inr (map_option fst (p (avail s)), s')" "moved n s s'" "n \<le> length (avail s)"
    "\<And>v rest. p (avail s) = Some (v, rest) \<Longrightarrow> avail s' = rest"
  using assms unfolding reads_def by blast

definition varint_parse :: "byte list \<Rightarrow> ('a::len word \<times> byte list) option" where
  "varint_parse bs = map_option (\<lambda>(v, rest). (of_nat v, rest)) (varint_read 10 bs)"

lemma varint_fallback_reads:
  assumes "\<exists>s' n. m s = Inr (map_option (\<lambda>(v, _). of_nat v) (varint_read 10 (avail s)), s')
      \<and> moved n s s' \<and> n \<le> length (avail s)
      \<and> (\<forall>v rest. varint_read 10 (avail s) = Some (v, rest) \<longrightarrow> drop n (avail s) = rest)"
  shows "reads m varint_parse s"
proof -
  obtain s' n where m: "m s = Inr (map_option (\<lambda>(v, _). of_nat v) (varint_read 10 (avail s)), s')"
    "moved n s s'" "n \<le> length (avail s)"
    and rest: "\<And>v rest. varint_read 10 (avail s) = Some (v, rest) \<Longrightarrow> drop n (avail s) = rest"
    using assms by blast
  show ?thesis
    by (rule readsI [of m, OF m])
      (cases "varint_read 10 (avail s)", auto simp: varint_parse_def moved_avail [OF m(2)] dest: rest)
qed

lemma one_byte_reads:
  assumes wf: "cis_wf s" and fb: "reads fallback varint_parse s"
  shows "reads (one_byte (\<lambda>c. Some (ucast c)) fallback) varint_parse s"
proof (cases "bufp s < buf_end s")
  case False
  then show ?thesis using fb by (simp add: reads_def one_byte_def run_simps)
next
  case True
  obtain c rest where get: "arr_get (block s) (bufp s) = Inr c" and av: "avail s = c # rest"
    using arr_get_front [OF wf] True by (metis BufferSize_def diff_gt_0_iff_gt list.exhaust_sel)
  show ?thesis
  proof (cases "c < 0x80")
    case False
    then show ?thesis using fb True get by (simp add: reads_def one_byte_def run_simps)
  next
    case small: True
    have mv: "moved 1 s (Advance 1 s)" using Advance_moved [OF wf, of 1] True by (simp add: BufferSize_def)
    have "varint_read 10 (c # rest) = Some (unat c, rest)" using small by (simp add: eval_nat_numeral unat_byte_digit)
    then show ?thesis
      using True get small moved_avail [OF mv] av
      by (intro readsI [where s' = "Advance 1 s", OF _ mv]) (auto simp: one_byte_def run_simps varint_parse_def)
  qed
qed

lemma ReadVarint64_reads: "cis_wf s \<Longrightarrow> reads ReadVarint64 varint_parse s"
  unfolding ReadVarint64_def
  by (rule one_byte_reads) (auto intro: varint_fallback_reads ReadVarint64Fallback_ok)

lemma ReadVarint32_reads: "cis_wf s \<Longrightarrow> reads ReadVarint32 varint_parse s"
  unfolding ReadVarint32_def
  by (rule one_byte_reads) (auto intro: varint_fallback_reads ReadVarint32Fallback_ok)

text \<open>Values of a fixed width.\<close>

definition fixed_parse :: "nat \<Rightarrow> (byte list \<Rightarrow> fault + 'a) \<Rightarrow> byte list \<Rightarrow> ('a \<times> byte list) option" where
  "fixed_parse n f bs =
     (if n \<le> length bs then (case f (take n bs) of Inl _ \<Rightarrow> None | Inr v \<Rightarrow> Some (v, drop n bs)) else None)"

lemma fixed_reads:
  assumes wf: "cis_wf s" and total: "\<And>bs. length bs = n \<Longrightarrow> \<exists>v. f bs = Inr v"
  shows "reads (mbind (mgets BufferSize) (\<lambda>k. if k \<ge> int n then
         mbind (mgets (\<lambda>s. (block s, bufp s))) (\<lambda>(b, p).
         mbind (mlift (mem_read b p (int n))) (\<lambda>bytes.
         mseq (mmodify (Advance (int n))) (mbind (mlift (f bytes)) (\<lambda>v. mreturn (Some v)))))
       else mbind (ReadRaw (int n)) (\<lambda>(ok, bytes). if \<not> ok then mreturn None
           else mbind (mlift (f bytes)) (\<lambda>v. mreturn (Some v))))) (fixed_parse n f) s" (is "reads ?m _ s")
proof (cases "n \<le> length (avail s)")
  case False
  then have "\<not> int n \<le> BufferSize s" using avail_buffer(1) [OF wf] by linarith
  moreover obtain s' where "ReadRaw (int n) s = Inr ((False, avail s), s')" "moved (length (avail s)) s s'"
    using False ReadRaw_ok [OF wf, of "int n"] by auto
  ultimately show ?thesis
    using False by (intro readsI [of ?m _ None s' "length (avail s)"]) (simp_all add: fixed_parse_def run_simps)
next
  case True
  obtain v where v: "f (take n (avail s)) = Inr v" using total [of "take n (avail s)"] True by auto
  have "\<exists>s'. ?m s = Inr (Some v, s') \<and> moved n s s'"
  proof (cases "int n \<le> BufferSize s")
    case True
    then show ?thesis
      using v mem_read_buffer [OF wf _ True] Advance_moved [OF wf _ True] by (simp add: run_simps)
  next
    case False
    then show ?thesis using v True ReadRaw_ok [OF wf, of "int n"] by (auto simp: run_simps)
  qed
  then obtain s' where m: "?m s = Inr (Some v, s')" "moved n s s'" by blast
  show ?thesis by (rule readsI [of ?m, OF m]) (use True v in \<open>auto simp: fixed_parse_def moved_avail [OF m(2)]\<close>)
qed

lemma LittleEndian32_total: "4 \<le> length bs \<Longrightarrow> \<exists>v. ReadLittleEndian32FromArray bs = Inr v"
  by (cases bs rule: ReadLittleEndian32FromArray.cases) auto

lemma LittleEndian64_total: "length bs = 8 \<Longrightarrow> \<exists>v. ReadLittleEndian64FromArray bs = Inr v"
  using LittleEndian32_total [of bs] LittleEndian32_total [of "drop 4 bs"] by (auto simp: ReadLittleEndian64FromArray_def)

lemma ReadLittleEndian32_reads: "cis_wf s \<Longrightarrow> reads ReadLittleEndian32 (fixed_parse 4 ReadLittleEndian32FromArray) s"
  unfolding ReadLittleEndian32_def ReadLittleEndian32Fallback_def
  by (rule fixed_reads [where n = 4, unfolded of_nat_numeral]) (auto intro: LittleEndian32_total)

lemma ReadLittleEndian64_reads: "cis_wf s \<Longrightarrow> reads ReadLittleEndian64 (fixed_parse 8 ReadLittleEndian64FromArray) s"
  unfolding ReadLittleEndian64_def ReadLittleEndian64Fallback_def
  by (rule fixed_reads [where n = 8, unfolded of_nat_numeral]) (auto intro: LittleEndian64_total)

section \<open>Tags\<close>

lemma state_update_simps [simp]:
  "cis_wf (s\<lparr>last_tag := t\<rparr>) = cis_wf s" "cis_wf (s\<lparr>legitimate_message_end := e\<rparr>) = cis_wf s"
  "cis_wf (s\<lparr>recursion_depth := d\<rparr>) = cis_wf s"
  "raw (s\<lparr>last_tag := t\<rparr>) = raw s" "raw (s\<lparr>legitimate_message_end := e\<rparr>) = raw s"
  "raw (s\<lparr>recursion_depth := d\<rparr>) = raw s"
  "CurrentPosition (s\<lparr>last_tag := t\<rparr>) = CurrentPosition s" "CurrentPosition (s\<lparr>legitimate_message_end := e\<rparr>) = CurrentPosition s"
  "CurrentPosition (s\<lparr>recursion_depth := d\<rparr>) = CurrentPosition s"
  "avail (s\<lparr>last_tag := t\<rparr>) = avail s" "avail (s\<lparr>legitimate_message_end := e\<rparr>) = avail s"
  "avail (s\<lparr>recursion_depth := d\<rparr>) = avail s"
  by (simp_all add: cis_wf_def raw_def CurrentPosition_def BufferSize_def closest_def inputs_def avail_def)

lemma varint_read_shorter: "varint_read k bs = Some (v, rest) \<Longrightarrow> length rest < length bs"
  by (induction k bs arbitrary: v rule: varint_read.induct) (auto split: if_splits simp: less_Suc_eq)

lemma at_limit_empty:
  assumes "cis_wf s" "BufferSize s = 0" "0 < buffer_size_after_limit s \<or> total_bytes_read s = current_limit s"
  shows "avail s = []"
proof -
  have "closest s \<le> CurrentPosition s"
    using assms by (auto simp: cis_wf_def CurrentPosition_def BufferSize_def closest_def)
  then show ?thesis by (simp add: avail_def)
qed

text \<open>
  The next tag: the low 32 bits of the varint at the front, or 0 when there is no well-formed one. At
  the end of what is available it is 0, and the stream records that a message may end here, unless the
  cap on the total size is what stopped it.
\<close>

definition tag_parse :: "byte list \<Rightarrow> 32 word" where
  "tag_parse bs = (case varint_parse bs of None \<Rightarrow> 0 | Some (v, _) \<Rightarrow> v)"

definition reads_tag :: "32 word cis \<Rightarrow> CodedInputStream \<Rightarrow> bool" where
  "reads_tag m s \<longleftrightarrow> (\<exists>s1 e n. m s = Inr (tag_parse (avail s), s1\<lparr>legitimate_message_end := e\<rparr>)
      \<and> moved n s s1 \<and> n \<le> length (avail s)
      \<and> (\<forall>v rest. varint_parse (avail s) = Some (v :: 32 word, rest) \<longrightarrow> avail s1 = rest)
      \<and> (avail s = [] \<and> CurrentPosition s < total_bytes_limit s \<longrightarrow> e))"

lemma varint_parse_Nil [simp]: "varint_parse [] = None"
  by (simp add: varint_parse_def)

lemma reads_tag_end:
  assumes "m s = Inr (0, s1\<lparr>legitimate_message_end := e\<rparr>)" "moved 0 s s1" "avail s = []"
    "CurrentPosition s < total_bytes_limit s \<Longrightarrow> e"
  shows "reads_tag m s"
  unfolding reads_tag_def using assms by (intro exI [of _ s1] exI [of _ e] exI [of _ 0]) (simp add: tag_parse_def)

lemma reads_tag_varint:
  assumes m: "m s = Inr (tag_parse (avail s), s1)" "moved n s s1" "n \<le> length (avail s)"
    and "\<And>v rest. varint_parse (avail s) = Some (v :: 32 word, rest) \<Longrightarrow> avail s1 = rest"
    and "avail s = [] \<Longrightarrow> total_bytes_limit s \<le> CurrentPosition s"
  shows "reads_tag m s"
  unfolding reads_tag_def using assms
  by (intro exI [of _ s1] exI [of _ "legitimate_message_end s1"] exI [of _ n]) auto

lemma varint_parse_down:
  "varint_parse bs = map_option (\<lambda>(v :: 64 word, rest). (ucast v :: 32 word, rest)) (varint_parse bs)"
  by (cases "varint_read 10 bs") (auto simp: varint_parse_def ucast_of_nat_down)

lemma Refresh_true_more:
  assumes "cis_wf s" "BufferSize s = 0" "Refresh s = Inr (True, s1)" "avail s = []"
  shows "total_bytes_limit s \<le> CurrentPosition s"
proof (rule ccontr)
  assume less: "\<not> ?thesis"
  have no: "\<not> (0 < buffer_size_after_limit s \<or> 0 < overflow_bytes s \<or> total_bytes_read s = current_limit s)"
    using assms(3) by (auto simp: Refresh_def)
  then have after: "buffer_size_after_limit s = 0" "total_bytes_read s < current_limit s"
    using assms(1) less assms(2) unfolding cis_wf_def closest_def CurrentPosition_def by linarith+
  have "zc_input s \<noteq> None" using assms(1) after by (auto simp: cis_wf_def)
  then obtain bs b rest where "zc_input s = Some bs" "NextNonEmpty bs = Some (b, rest)"
    using assms(3) no by (auto simp: Refresh_def Let_def split: option.splits if_splits)
  then have "raw s \<noteq> []" using NextNonEmpty_Some by (fastforce simp: raw_def inputs_def)
  then have "avail s \<noteq> []" using after less assms(2) by (auto simp: avail_def closest_def CurrentPosition_def)
  then show False using assms(4) by simp
qed

lemma ReadTagSlow_ok:
  assumes wf: "cis_wf s"
  shows "reads_tag ReadTagSlow s"
proof -
  obtain ok s0 where r: "(if bufp s = buf_end s then Refresh else mreturn True) s = Inr (ok, s0)" "moved 0 s s0"
    "\<not> ok \<longrightarrow> bufp s = buf_end s \<and> avail s = []" "ok \<and> avail s = [] \<longrightarrow> total_bytes_limit s \<le> CurrentPosition s"
  proof (cases "bufp s = buf_end s")
    case True
    then show ?thesis
      using Refresh_ok [OF wf] Refresh_true_more [OF wf] that by (auto simp: mwp_total BufferSize_def)
  next
    case False
    then have "avail s \<noteq> []" using avail_buffer(1) [OF wf] wf by (auto simp: cis_wf_def BufferSize_def)
    then show ?thesis using False moved_refl [OF wf] that [of True s] by (simp add: run_simps)
  qed
  have av: "avail s0 = avail s" using moved_avail [OF r(2)] by simp
  show ?thesis
  proof (cases ok)
    case False
    have "BufferSize s0 = 0"
      using avail_buffer(1) [of s0] r False av by (auto simp: moved_def cis_wf_def BufferSize_def)
    then have "total_bytes_read s0 - buffer_size_after_limit s0 = CurrentPosition s"
      using r(2) by (simp add: moved_def CurrentPosition_def)
    then show ?thesis
      using False r
      by (intro reads_tag_end [where ?s1.0 = s0 and e = "if CurrentPosition s \<ge> total_bytes_limit s
              then current_limit s = total_bytes_limit s else True"])
        (simp_all add: ReadTagSlow_def run_simps moved_def)
  next
    case True
    obtain s1 n where v: "ReadVarint64 s0 = Inr (map_option fst (varint_parse (avail s0)), s1)" "moved n s0 s1"
      "n \<le> length (avail s0)" "\<And>v rest. varint_parse (avail s0) = Some (v :: 64 word, rest) \<Longrightarrow> avail s1 = rest"
      by (rule readsE [OF ReadVarint64_reads [OF moved_wf [OF r(2)]]]) (rule that)
    have mv: "moved n s s1" using moved_trans [OF r(2) v(2)] by simp
    show ?thesis
      using True r(4) v(3,4) av
      by (intro reads_tag_varint [OF _ mv])
        (auto simp: ReadTagSlow_def run_simps r(1) v(1) tag_parse_def varint_parse_down split: option.splits)
  qed
qed

lemma ReadTagFallback_ok:
  assumes wf: "cis_wf s"
  shows "reads_tag ReadTagFallback s"
proof (rule fast_varint_ok [OF wf])
  assume slow: "fast_varint s = Inr (False, s)"
  let ?at_limit = "BufferSize s = 0 \<and> (buffer_size_after_limit s > 0 \<or> total_bytes_read s = current_limit s)
      \<and> total_bytes_read s - buffer_size_after_limit s < total_bytes_limit s"
  show ?thesis
  proof (cases ?at_limit)
    case True
    then have "ReadTagFallback s = Inr (0, s\<lparr>legitimate_message_end := True\<rparr>)"
      using slow by (simp add: ReadTagFallback_def run_simps)
    then show ?thesis by (rule reads_tag_end) (use True moved_refl [OF wf] at_limit_empty [OF wf] in auto)
  next
    case False
    then have "ReadTagFallback s = ReadTagSlow s" using slow by (auto simp: ReadTagFallback_def run_simps)
    then show ?thesis using ReadTagSlow_ok [OF wf] by (simp add: reads_tag_def)
  qed
next
  assume fast: "fast_varint s = Inr (True, s)" "10 \<le> BufferSize s \<or> varint_read 10 (take (nat (BufferSize s)) (avail s)) \<noteq> None"
  have ne: "avail s \<noteq> []" using fast(2) avail_buffer(1) [OF wf] by auto
  obtain s1 n where v: "from_array ReadVarint32FromArray s = Inr (map_option fst (varint_parse (avail s)), s1)" "moved n s s1"
    "n \<le> length (avail s)" "\<And>v rest. varint_parse (avail s) = Some (v :: 32 word, rest) \<Longrightarrow> avail s1 = rest"
    by (rule readsE [OF varint_fallback_reads [of "from_array ReadVarint32FromArray" s, OF from_array_ok [OF wf fast(2) ReadVarint32_eq]]])
      (rule that)
  show ?thesis
    by (rule reads_tag_varint [OF _ v(2,3,4)])
      (use ne in \<open>auto simp: ReadTagFallback_def run_simps fast(1) v(1) tag_parse_def split: option.splits\<close>)
qed

lemma ReadTag_front:
  assumes wf: "cis_wf s"
  shows "reads_tag (one_byte ucast ReadTagFallback) s"
proof (cases "bufp s < buf_end s")
  case False
  then show ?thesis using ReadTagFallback_ok [OF wf] by (simp add: reads_tag_def one_byte_def run_simps)
next
  case True
  obtain c rest where get: "arr_get (block s) (bufp s) = Inr c" and av: "avail s = c # rest"
    using arr_get_front [OF wf] True by (metis BufferSize_def diff_gt_0_iff_gt list.exhaust_sel)
  show ?thesis
  proof (cases "c < 0x80")
    case False
    then show ?thesis using ReadTagFallback_ok [OF wf] True get by (simp add: reads_tag_def one_byte_def run_simps)
  next
    case small: True
    have mv: "moved 1 s (Advance 1 s)" using Advance_moved [OF wf, of 1] True by (simp add: BufferSize_def)
    have "varint_read 10 (c # rest) = Some (unat c, rest)" using small by (simp add: eval_nat_numeral unat_byte_digit)
    then have p: "varint_parse (c # rest) = Some (ucast c :: 32 word, rest)" by (simp add: varint_parse_def)
    show ?thesis
      by (rule reads_tag_varint [OF _ mv])
        (use True get small moved_avail [OF mv] av p in \<open>auto simp: one_byte_def run_simps tag_parse_def\<close>)
  qed
qed

lemma ReadTag_ok:
  assumes wf: "cis_wf s"
  obtains s1 e n where "ReadTag s = Inr (tag_parse (avail s), s1\<lparr>last_tag := tag_parse (avail s), legitimate_message_end := e\<rparr>)"
    "moved n s s1" "n \<le> length (avail s)" "avail s = [] \<and> CurrentPosition s < total_bytes_limit s \<longrightarrow> e"
    "\<And>v rest. varint_parse (avail s) = Some (v :: 32 word, rest) \<Longrightarrow> avail s1 = rest"
    "tag_parse (avail s) \<noteq> 0 \<longrightarrow> 0 < n"
proof -
  obtain s1 e n where m: "one_byte ucast ReadTagFallback s = Inr (tag_parse (avail s), s1\<lparr>legitimate_message_end := e\<rparr>)"
    "moved n s s1" "n \<le> length (avail s)" "avail s = [] \<and> CurrentPosition s < total_bytes_limit s \<longrightarrow> e"
    and rest: "\<And>v rest. varint_parse (avail s) = Some (v :: 32 word, rest) \<Longrightarrow> avail s1 = rest"
    using ReadTag_front [OF wf] unfolding reads_tag_def by blast
  have "0 < n" if "tag_parse (avail s) \<noteq> 0"
  proof -
    have "varint_read 10 (avail s) \<noteq> None" using that by (cases "varint_read 10 (avail s)") (auto simp: tag_parse_def varint_parse_def)
    then obtain v bs where v: "varint_read 10 (avail s) = Some (v, bs)" by auto
    then have "avail s1 = bs" by (auto intro: rest simp: varint_parse_def)
    then show ?thesis using varint_read_shorter [OF v] moved_avail [OF m(2)] by (cases n) auto
  qed
  moreover have "ReadTag s = Inr (tag_parse (avail s), s1\<lparr>last_tag := tag_parse (avail s), legitimate_message_end := e\<rparr>)"
    using m(1) by (simp add: ReadTag_def run_simps)
  ultimately show ?thesis using that m(2-4) rest by blast
qed

section \<open>Limits\<close>

lemma array_end:
  assumes "cis_wf s" "zc_input s = None"
  shows "CurrentPosition s + int (length (raw s)) = total_bytes_read s"
  using assms by (auto simp: cis_wf_def raw_def inputs_def CurrentPosition_def BufferSize_def)

lemma Recompute_ok:
  assumes wf: "cis_wf s" and lim: "CurrentPosition s \<le> limit" "zc_input s = None \<Longrightarrow> limit \<le> CurrentPosition s + int (length (raw s))"
    and cap: "CurrentPosition s \<le> total_bytes_limit s"
  defines "s' \<equiv> RecomputeBufferLimits (s\<lparr>current_limit := limit\<rparr>)"
  shows "cis_wf s'" "raw s' = raw s" "CurrentPosition s' = CurrentPosition s" "current_limit s' = limit"
    "total_bytes_limit s' = total_bytes_limit s" "zc_input s' = zc_input s"
    "recursion_depth s' = recursion_depth s" "recursion_limit s' = recursion_limit s" "last_tag s' = last_tag s"
    "legitimate_message_end s' = legitimate_message_end s"
proof -
  let ?m = "min limit (total_bytes_limit s)"
  have none: "zc_input s = None \<longrightarrow> limit \<le> total_bytes_read s" using lim(2) array_end [OF wf] by simp
  have pos: "CurrentPosition s \<le> ?m" using lim(1) cap by simp
  have eqs: "bufp s' = bufp s" "block s' = block s" "total_bytes_read s' = total_bytes_read s" "current_limit s' = limit"
    "total_bytes_limit s' = total_bytes_limit s" "zc_input s' = zc_input s" "overflow_bytes s' = overflow_bytes s"
    "buffer_size_after_limit s' = max 0 (total_bytes_read s - ?m)"
    "buf_end s' = buf_end s + buffer_size_after_limit s - max 0 (total_bytes_read s - ?m)"
    by (auto simp: s'_def RecomputeBufferLimits_def Let_def max_def)
  have "bufp s \<le> buf_end s + buffer_size_after_limit s - max 0 (total_bytes_read s - ?m)"
  proof -
    have "bufp s \<le> buf_end s" "0 \<le> buffer_size_after_limit s" using wf by (auto simp: cis_wf_def)
    then show ?thesis using pos unfolding CurrentPosition_def BufferSize_def by linarith
  qed
  then show "cis_wf s'"
    using wf none unfolding cis_wf_def closest_def CurrentPosition_def BufferSize_def inputs_def eqs by simp
  show "raw s' = raw s" "CurrentPosition s' = CurrentPosition s" "current_limit s' = limit"
    "total_bytes_limit s' = total_bytes_limit s" "zc_input s' = zc_input s"
    "recursion_depth s' = recursion_depth s" "recursion_limit s' = recursion_limit s" "last_tag s' = last_tag s"
    "legitimate_message_end s' = legitimate_message_end s"
    by (simp_all add: s'_def RecomputeBufferLimits_def Let_def raw_def inputs_def CurrentPosition_def BufferSize_def)
qed

text \<open>
  \<open>kept s s'\<close>: nothing has been read between \<open>s\<close> and \<open>s'\<close>; only the current limit may differ.
\<close>

definition kept :: "CodedInputStream \<Rightarrow> CodedInputStream \<Rightarrow> bool" where
  "kept s s' \<longleftrightarrow> cis_wf s' \<and> raw s' = raw s \<and> CurrentPosition s' = CurrentPosition s
     \<and> total_bytes_limit s' = total_bytes_limit s \<and> zc_input s' = zc_input s
     \<and> recursion_depth s' = recursion_depth s \<and> recursion_limit s' = recursion_limit s"

lemma PushLimit_ok:
  assumes wf: "cis_wf s" and n: "0 \<le> n" and lim: "CurrentPosition s \<le> closest s"
  obtains s' where "PushLimit n s = (current_limit s, s')" "kept s s'" "avail s' = take (nat n) (avail s)"
    "current_limit s' \<le> current_limit s" "CurrentPosition s' \<le> closest s'"
proof -
  let ?limit = "min (if n \<le> INT_MAX - CurrentPosition s then CurrentPosition s + n else INT_MAX) (current_limit s)"
  let ?s' = "RecomputeBufferLimits (s\<lparr>current_limit := ?limit\<rparr>)"
  have len: "int (length (raw s)) \<le> INT_MAX - CurrentPosition s"
    using wf by (auto simp: cis_wf_def raw_def CurrentPosition_def BufferSize_def)
  then have top: "CurrentPosition s \<le> INT_MAX" by linarith
  have "CurrentPosition s \<le> ?limit" "CurrentPosition s \<le> total_bytes_limit s"
    using n lim top by (auto simp: closest_def)
  moreover have "zc_input s = None \<Longrightarrow> ?limit \<le> CurrentPosition s + int (length (raw s))"
    using array_end [OF wf] wf by (auto simp: cis_wf_def)
  ultimately have r: "kept s ?s'" "current_limit ?s' = ?limit" "closest ?s' = min ?limit (total_bytes_limit s)"
    "CurrentPosition ?s' = CurrentPosition s" "raw ?s' = raw s"
    using Recompute_ok [OF wf] by (auto simp: kept_def closest_def)
  have "take (nat (min ?limit (total_bytes_limit s) - CurrentPosition s)) (raw s) = take (nat n) (avail s)"
  proof (cases "n \<le> INT_MAX - CurrentPosition s")
    case True
    then have "nat (min ?limit (total_bytes_limit s) - CurrentPosition s) = min (nat n) (nat (closest s - CurrentPosition s))"
      using n lim by (auto simp: closest_def min_def)
    then show ?thesis by (simp add: avail_def)
  next
    case False
    have "length (avail s) \<le> length (raw s)" by (simp add: avail_def)
    then have "take (nat n) (avail s) = avail s" using False len by simp
    moreover have "take (nat (min ?limit (total_bytes_limit s) - CurrentPosition s)) (raw s) = avail s"
    proof (cases "INT_MAX \<le> closest s")
      case True
      then have "nat (min ?limit (total_bytes_limit s) - CurrentPosition s) \<ge> length (raw s)"
        "nat (closest s - CurrentPosition s) \<ge> length (raw s)"
        using False len by (auto simp: closest_def)
      then show ?thesis by (simp add: avail_def)
    next
      case small: False
      then show ?thesis using False by (auto simp: avail_def closest_def intro!: arg_cong2 [where f = take])
    qed
    ultimately show ?thesis by simp
  qed
  then have "avail ?s' = take (nat n) (avail s)" using r by (simp add: avail_def)
  moreover have "CurrentPosition ?s' \<le> closest ?s'" using r \<open>CurrentPosition s \<le> ?limit\<close> lim by (simp add: closest_def)
  ultimately show ?thesis
    using that [of ?s'] r n by (simp add: PushLimit_def Let_def)
qed

text \<open>Restoring the limit that was in force \<open>n\<close> bytes ago.\<close>

lemma PopLimit_ok:
  assumes wf: "cis_wf s0" and lim: "CurrentPosition s0 \<le> closest s0"
    and s: "cis_wf s" "raw s = drop n (raw s0)" "CurrentPosition s = CurrentPosition s0 + int n" "n \<le> length (avail s0)"
      "total_bytes_limit s = total_bytes_limit s0" "zc_input s = None \<longleftrightarrow> zc_input s0 = None"
  defines "s' \<equiv> PopLimit (current_limit s0) s"
  shows "cis_wf s'" "raw s' = raw s" "CurrentPosition s' = CurrentPosition s" "avail s' = drop n (avail s0)"
    "current_limit s' = current_limit s0" "total_bytes_limit s' = total_bytes_limit s" "zc_input s' = zc_input s"
    "recursion_depth s' = recursion_depth s" "recursion_limit s' = recursion_limit s" "last_tag s' = last_tag s"
    "\<not> legitimate_message_end s'"
proof -
  have n: "int n \<le> closest s0 - CurrentPosition s0" "n \<le> length (raw s0)" using s(4) lim by (auto simp: avail_def)
  have "CurrentPosition s \<le> current_limit s0" "CurrentPosition s \<le> total_bytes_limit s"
    using n s(3,5) by (auto simp: closest_def)
  moreover have "zc_input s = None \<Longrightarrow> current_limit s0 \<le> CurrentPosition s + int (length (raw s))"
    using array_end [OF wf] wf s n by (auto simp: cis_wf_def)
  ultimately have r: "cis_wf s'" "raw s' = raw s" "CurrentPosition s' = CurrentPosition s" "current_limit s' = current_limit s0"
    "total_bytes_limit s' = total_bytes_limit s" "zc_input s' = zc_input s"
    "recursion_depth s' = recursion_depth s" "recursion_limit s' = recursion_limit s" "last_tag s' = last_tag s"
    using Recompute_ok [OF s(1)] by (simp_all add: s'_def PopLimit_def)
  moreover have "avail s' = drop n (avail s0)"
  proof -
    have "nat (closest s0 - CurrentPosition s) = nat (closest s0 - CurrentPosition s0) - n" using s(3) by linarith
    then show ?thesis using r s by (simp add: avail_def closest_def drop_take)
  qed
  ultimately show "cis_wf s'" "raw s' = raw s" "CurrentPosition s' = CurrentPosition s" "avail s' = drop n (avail s0)"
    "current_limit s' = current_limit s0" "total_bytes_limit s' = total_bytes_limit s" "zc_input s' = zc_input s"
    "recursion_depth s' = recursion_depth s" "recursion_limit s' = recursion_limit s" "last_tag s' = last_tag s"
    "\<not> legitimate_message_end s'"
    by (simp_all add: s'_def PopLimit_def)
qed

section \<open>A stream over an array\<close>

lemma of_array_ok:
  assumes "int (length mem) \<le> kDefaultTotalBytesLimit"
  defines "s \<equiv> CodedInputStream_of_array mem"
  shows "cis_wf s" "avail s = mem" "raw s = mem" "CurrentPosition s = 0" "closest s = int (length mem)"
    "zc_input s = None" "recursion_depth s = 0" "recursion_limit s = 100" "total_bytes_limit s = 67108864"
  using assms
  by (simp_all add: CodedInputStream_of_array_def CodedInputStream_new_def cis_wf_def avail_def raw_def closest_def
      CurrentPosition_def BufferSize_def inputs_def INT_MAX_def kDefaultTotalBytesLimit_def default_recursion_limit_def)

text \<open>When a stream goes away, what lies underneath starts with the first byte that was not read.\<close>

lemma delete_gives_back:
  assumes "cis_wf s" "zc_input s \<noteq> None"
  obtains bs where "CodedInputStream_delete s = Inr (Some bs)" "concat bs = raw s"
proof -
  obtain bs where bs: "zc_input s = Some bs" using assms(2) by blast
  have wf: "0 \<le> bufp s" "bufp s \<le> buf_end s" "int (length (block s)) = buf_end s + buffer_size_after_limit s" "overflow_bytes s = 0"
    "0 \<le> buffer_size_after_limit s"
    using assms(1) by (auto simp: cis_wf_def)
  have left: "int (length (block s)) - (BufferSize s + buffer_size_after_limit s) = bufp s"
    using wf by (simp add: BufferSize_def)
  then have start: "length (block s) - nat (BufferSize s + buffer_size_after_limit s) = nat (bufp s)"
    using wf by (simp add: BufferSize_def)
  show ?thesis
  proof (cases "BufferSize s + buffer_size_after_limit s > 0")
    case True
    then show ?thesis
      using that [of "drop (nat (bufp s)) (block s) # bs"] left start wf bs
      by (simp add: CodedInputStream_delete_def BackUpInputToCurrentPosition_def raw_def inputs_def)
  next
    case False
    then have "drop (nat (bufp s)) (block s) = []" using left by simp
    then show ?thesis using that [of bs] False wf bs
      by (simp add: CodedInputStream_delete_def BackUpInputToCurrentPosition_def raw_def inputs_def)
  qed
qed

section \<open>Properties\<close>

text \<open>
  C13. From any well-formed state, whatever the block boundaries, \<^verbatim>\<open>ReadVarint64\<close> returns what the
  reference decoder returns on the bytes available before the nearest limit, and leaves the bytes the
  decoder leaves; it never reads outside the current block and never fails to return. So the unrolled
  fast path, which makes no bounds checks, is only taken when it is safe.
\<close>

theorem ReadVarint64_refines:
  assumes "cis_wf s"
  shows "\<exists>s'. ReadVarint64 s = Inr (map_option (\<lambda>(v, _). of_nat v) (varint_read 10 (avail s)), s') \<and> cis_wf s'
    \<and> (\<forall>v rest. varint_read 10 (avail s) = Some (v, rest) \<longrightarrow> avail s' = rest)"
proof (rule readsE [OF ReadVarint64_reads [OF assms]])
  fix s' n
  assume r: "ReadVarint64 s = Inr (map_option fst (varint_parse (avail s)), s')" "moved n s s'"
    "\<And>v rest. varint_parse (avail s) = Some (v :: 64 word, rest) \<Longrightarrow> avail s' = rest"
  then show ?thesis
    using moved_wf [OF r(2)]
    by (cases "varint_read 10 (avail s)") (auto simp: varint_parse_def)
qed

theorem ReadVarint64_refines_witness:
  "\<exists>s'. ReadVarint64 (CodedInputStream_of_array [0xAC, 0x02, 0x07])
      = Inr (Some 300, s') \<and> avail s' = [7]"
proof -
  have "varint_read 10 [0xAC, 0x02, 0x07] = Some (300, [7])" by code_simp
  then show ?thesis
    using ReadVarint64_refines [of "CodedInputStream_of_array [0xAC, 0x02, 0x07]"]
      of_array_ok [of "[0xAC, 0x02, 0x07]"]
    by (auto simp: kDefaultTotalBytesLimit_def)
qed

text \<open>
  C22. Limits nest: after \<^verbatim>\<open>PushLimit\<close> only the next \<open>n\<close> bytes are available, and once they have been
  read, in whatever way, \<^verbatim>\<open>PopLimit\<close> gives back exactly the bytes that followed them.
\<close>

theorem limits_nest:
  assumes "cis_wf s" and "CurrentPosition s \<le> closest s" and "n \<le> length (avail s)"
    and "PushLimit (int n) s = (old, s1)" and "moved n s1 s2"
  shows "avail s1 = take n (avail s) \<and> avail s2 = [] \<and> avail (PopLimit old s2) = drop n (avail s)
    \<and> cis_wf (PopLimit old s2) \<and> current_limit (PopLimit old s2) = current_limit s"
proof -
  obtain s' where p: "PushLimit (int n) s = (current_limit s, s')" "kept s s'" "avail s' = take (nat (int n)) (avail s)"
    by (rule PushLimit_ok [OF assms(1) _ assms(2), of "int n"]) auto
  have "s1 = s'" "old = current_limit s" using p(1) assms(4) by auto
  then show ?thesis
    using PopLimit_ok [OF assms(1,2), of s2 n] p(2,3) assms(3,5) moved_avail [OF assms(5)]
    by (auto simp: kept_def moved_def)
qed

theorem limits_nest_witness:
  "avail (PopLimit 4 (Advance 2 (snd (PushLimit 2 (CodedInputStream_of_array [1, 2, 3, 4]))))) = [3, 4]"
proof -
  let ?s = "CodedInputStream_of_array [1, 2, 3, 4]"
  have s: "cis_wf ?s" "CurrentPosition ?s \<le> closest ?s" "avail ?s = [1, 2, 3, 4]" "current_limit ?s = 4"
    using of_array_ok [of "[1, 2, 3, 4]"] by (simp_all add: kDefaultTotalBytesLimit_def CodedInputStream_of_array_def CodedInputStream_new_def)
  obtain s1 where p: "PushLimit 2 ?s = (4, s1)" "cis_wf s1" "avail s1 = [1, 2]"
    by (rule PushLimit_ok [OF s(1) _ s(2), of 2]) (auto simp: s kept_def)
  have "BufferSize s1 = 2" using p(1) by (auto simp: PushLimit_def RecomputeBufferLimits_def Let_def CodedInputStream_of_array_def
      CodedInputStream_new_def CurrentPosition_def BufferSize_def INT_MAX_def kDefaultTotalBytesLimit_def)
  then have "moved 2 s1 (Advance 2 s1)" using Advance_moved [OF p(2), of 2] by simp
  then show ?thesis using limits_nest [OF s(1,2), of 2 4 s1 "Advance 2 s1"] p s by simp
qed

end
