(* ===== verification/Wire_Lite_Proofs.thy ===== *)
theory Wire_Lite_Proofs
  imports Wire_Lite Coded_Input_Proofs
begin

text \<open>
  Tags and zig-zag are bijections, and single values of all types: what is written, how long it is, and
  that reading gives it back.
\<close>

section \<open>Zig-zag\<close>

lemma bit_neg_and_1: "bit (- (n AND 1) :: 'a::len word) i \<longleftrightarrow> i < LENGTH('a) \<and> odd n"
proof (cases "odd n")
  case True
  then have "n AND 1 = 1" by (simp add: and_one_eq odd_iff_mod_2_eq_one)
  then show ?thesis using True by simp
next
  case False
  then have "n AND 1 = 0" by (simp add: and_one_eq even_iff_mod_2_eq_zero)
  then show ?thesis using False by simp
qed

text \<open>The two widths are instances of one pair of functions.\<close>

definition zigzag :: "'a::len word \<Rightarrow> 'a word" where
  "zigzag n = push_bit 1 n XOR signed_drop_bit (LENGTH('a) - 1) n"

definition unzigzag :: "'a::len word \<Rightarrow> 'a word" where
  "unzigzag n = drop_bit 1 n XOR - (n AND 1)"

lemma zigzag_widths:
  "ZigZagEncode32 = zigzag" "ZigZagDecode32 = unzigzag" "ZigZagEncode64 = zigzag" "ZigZagDecode64 = unzigzag"
  by (rule ext, simp add: ZigZagEncode32_def ZigZagDecode32_def ZigZagEncode64_def ZigZagDecode64_def zigzag_def unzigzag_def)+

lemma bit_zigzag:
  "i < LENGTH('a) \<Longrightarrow> bit (zigzag (n :: 'a::len word)) i \<longleftrightarrow> ((0 < i \<and> bit n (i - 1)) \<noteq> bit n (LENGTH('a) - 1))"
  unfolding zigzag_def bit_xor_iff bit_push_bit_iff bit_signed_drop_bit_iff
  by (cases "i = 0") (auto simp: not_less)

lemma bit_unzigzag:
  "i < LENGTH('a) \<Longrightarrow> bit (unzigzag (n :: 'a::len word)) i \<longleftrightarrow> (bit n (Suc i) \<noteq> bit n 0)"
  unfolding unzigzag_def bit_xor_iff bit_drop_bit_eq bit_neg_and_1
  by (simp add: bit_0)

lemma bit_beyond: "\<not> bit (n :: 'a::len word) (LENGTH('a))"
  using bit_imp_le_length by blast

lemma unzigzag_zigzag: "unzigzag (zigzag n) = (n :: 'a::len word)"
proof (rule bit_word_eqI)
  fix i assume i: "i < LENGTH('a)"
  then show "bit (unzigzag (zigzag n)) i \<longleftrightarrow> bit n i"
  proof (cases "Suc i < LENGTH('a)")
    case True
    then show ?thesis using i by (simp add: bit_unzigzag bit_zigzag) auto
  next
    case False
    then have "Suc i = LENGTH('a)" "i = LENGTH('a) - 1" using i by auto
    then show ?thesis using i bit_beyond [of "zigzag n"] by (simp add: bit_unzigzag bit_zigzag)
  qed
qed

lemma zigzag_unzigzag: "zigzag (unzigzag n) = (n :: 'a::len word)"
proof (rule bit_word_eqI)
  fix i assume i: "i < LENGTH('a)"
  have "bit (unzigzag n) (LENGTH('a) - 1) \<longleftrightarrow> bit n 0"
    using bit_unzigzag [of "LENGTH('a) - 1" n] bit_beyond [of n] by simp
  then show "bit (zigzag (unzigzag n)) i \<longleftrightarrow> bit n i"
    using i by (cases i) (auto simp: bit_zigzag bit_unzigzag)
qed

lemma uint_eq_sint: "0 \<le> sint (n :: 'a::len word) \<Longrightarrow> uint n = sint n"
proof -
  have "(2 :: int) ^ (LENGTH('a) - Suc 0) \<le> 2 ^ LENGTH('a)" by (rule power_increasing) auto
  with sint_less [of n] have "sint n < 2 ^ LENGTH('a)" by (rule less_le_trans)
  then show "0 \<le> sint n \<Longrightarrow> ?thesis" unfolding uint_sint by (intro take_bit_int_eq_self) auto
qed

lemma zigzag_nonneg:
  assumes "0 \<le> sint (n :: 'a::len word)"
  shows "uint (zigzag n) = 2 * sint n"
proof -
  have top: "\<not> bit n (LENGTH('a) - 1)" using assms by (simp add: bit_last_iff)
  have "zigzag n = push_bit 1 n"
  proof (rule bit_word_eqI)
    fix i assume "i < LENGTH('a)"
    then show "bit (zigzag n) i \<longleftrightarrow> bit (push_bit 1 n) i"
      unfolding bit_push_bit_iff using top by (cases i) (auto simp: bit_zigzag)
  qed
  moreover have "2 * sint n < 2 ^ LENGTH('a)" using sint_less [of n] by (cases "LENGTH('a)") auto
  moreover note uint_eq_sint [OF assms]
  moreover have "uint (push_bit 1 n) = (2 * uint n) mod 2 ^ LENGTH('a)"
    using unsigned_push_bit_eq [of 1 n, where 'a = int] by (simp add: push_bit_eq_mult take_bit_eq_mod mult.commute)
  ultimately show ?thesis using assms by simp
qed

lemma sint_not: "sint (NOT n) = NOT (sint n)" for n :: "'a::len word"
proof (rule bit_eqI)
  fix i
  show "bit (sint (NOT n)) i \<longleftrightarrow> bit (NOT (sint n)) i"
    using bit_imp_le_length [of n i] by (auto simp: bit_sint_iff bit_not_iff)
qed

lemma zigzag_neg:
  assumes "sint (n :: 'a::len word) < 0"
  shows "uint (zigzag n) = - 2 * sint n - 1"
proof -
  have flip: "zigzag n = zigzag (NOT n) XOR 1"
    by (rule bit_word_eqI) (auto simp: bit_zigzag bit_not_iff bit_xor_iff bit_1_iff)
  have "sint (NOT n) = - sint n - 1"
    using sint_not [of n] by (simp add: not_int_def)
  then have m: "uint (zigzag (NOT n)) = - 2 * sint n - 2" using zigzag_nonneg [of "NOT n"] assms by simp
  have "uint (zigzag (NOT n) XOR 1) = uint (zigzag (NOT n)) XOR 1" by (simp add: uint_xor)
  then show ?thesis using m flip by (simp add: xor_one_eq)
qed

section \<open>Tags\<close>

lemma wire_num_bounds: "uint (wire_num w) < 8"
  by (cases w) simp_all

lemma wire_of_num [simp]: "wire_of (wire_num w) = w"
  by (cases w) (simp_all add: wire_of_def)

lemma num_of_wire: "n < 8 \<Longrightarrow> wire_num (wire_of n) = n"
proof -
  assume "n < 8"
  then have "unat n < 8" by (simp add: word_less_nat_alt)
  then consider "unat n = 0" | "unat n = 1" | "unat n = 2" | "unat n = 3" | "unat n = 4" | "unat n = 5" | "unat n = 6" | "unat n = 7"
    by linarith
  then have "n = 0 \<or> n = 1 \<or> n = 2 \<or> n = 3 \<or> n = 4 \<or> n = 5 \<or> n = 6 \<or> n = 7"
    by cases (simp_all add: word_unat_eq_iff)
  then show ?thesis by (auto simp: wire_of_def)
qed

lemma bit_wire_num: "bit (wire_num w) i \<Longrightarrow> i < 3"
proof -
  assume b: "bit (wire_num w) i"
  have "take_bit 3 (uint (wire_num w)) = uint (wire_num w)" using wire_num_bounds [of w] by (intro take_bit_int_eq_self) auto
  then have "bit (take_bit 3 (uint (wire_num w))) i" using b using bit_imp_le_length [OF b] by (simp add: bit_uint_iff)
  then show ?thesis by (simp add: bit_take_bit_iff)
qed

lemma bit_MakeTag:
  "i < 32 \<Longrightarrow> bit (MakeTag n w) i \<longleftrightarrow> (if i < 3 then bit (wire_num w) i else bit n (i - 3))"
  unfolding MakeTag_def bit_or_iff bit_push_bit_iff by (auto simp: bit_word_of_int_iff dest: bit_wire_num)

lemma bit_7: "bit (7 :: int) i \<longleftrightarrow> i < 3"
proof -
  have "(7 :: int) = mask 3" by (simp add: mask_eq_exp_minus_1)
  then show ?thesis by (simp only: bit_mask_iff) simp
qed

lemma GetTagWireType_MakeTag [simp]: "GetTagWireType (MakeTag n w) = w"
proof -
  have "MakeTag n w AND 7 = wire_num w"
    by (rule bit_word_eqI) (auto simp: bit_and_iff bit_7 bit_MakeTag dest: bit_wire_num)
  then show ?thesis by (simp add: GetTagWireType_def)
qed

lemma GetTagFieldNumber_MakeTag: "0 \<le> n \<Longrightarrow> n < 2 ^ 29 \<Longrightarrow> GetTagFieldNumber (MakeTag n w) = n"
proof -
  assume n: "0 \<le> n" "n < 2 ^ 29"
  have "drop_bit 3 (MakeTag n w) = (word_of_int (take_bit 29 n) :: 32 word)"
  proof (rule bit_word_eqI)
    fix i assume "i < LENGTH(32)"
    then show "bit (drop_bit 3 (MakeTag n w)) i \<longleftrightarrow> bit (word_of_int (take_bit 29 n) :: 32 word) i"
      using bit_imp_le_length [of "MakeTag n w" "3 + i"]
      by (cases "3 + i < 32") (auto simp: bit_drop_bit_eq bit_MakeTag bit_word_of_int_iff bit_take_bit_iff)
  qed
  also have "take_bit 29 n = n" using n by (intro take_bit_int_eq_self) auto
  finally show ?thesis
    using n by (simp add: GetTagFieldNumber_def signed_of_int signed_take_bit_int_eq_self)
qed

lemma MakeTag_nonzero: "0 < n \<Longrightarrow> n < 2 ^ 29 \<Longrightarrow> MakeTag n w \<noteq> 0"
  using GetTagFieldNumber_MakeTag [of n w] by (auto simp: GetTagFieldNumber_def)

lemma and_7_less: "tag AND 7 < (8 :: 32 word)"
proof -
  have "uint (tag AND 7) = take_bit 3 (uint tag)" by (simp add: uint_and take_bit_eq_mask mask_eq_exp_minus_1)
  then show ?thesis using take_bit_int_less_exp [of 3 "uint tag"] by (simp add: word_less_def)
qed

lemma MakeTag_parts: "MakeTag (GetTagFieldNumber tag) (GetTagWireType tag) = tag"
proof (rule bit_word_eqI)
  fix i assume i: "i < LENGTH(32)"
  have "tag AND 7 < 8" by (rule and_7_less)
  then have low: "wire_num (GetTagWireType tag) = tag AND 7" by (simp add: GetTagWireType_def num_of_wire)
  show "bit (MakeTag (GetTagFieldNumber tag) (GetTagWireType tag)) i \<longleftrightarrow> bit tag i"
    using i by (auto simp: bit_MakeTag low bit_and_iff bit_7 GetTagFieldNumber_def bit_sint_iff bit_drop_bit_eq)
qed

lemma uint_shifted: "0 \<le> n \<Longrightarrow> n < 2 ^ 29 \<Longrightarrow> uint (push_bit 3 (word_of_int n :: 32 word)) = 8 * n"
  using unsigned_push_bit_eq [of 3 "word_of_int n :: 32 word", where 'a = int]
  by (simp add: push_bit_eq_mult take_bit_eq_mod unsigned_of_int)

lemma unat_MakeTag:
  assumes "0 \<le> n" "n < 2 ^ 29"
  shows "unat (MakeTag n w) = 8 * nat n + unat (wire_num w)"
proof -
  have "MakeTag n w = push_bit 3 (word_of_int n) + wire_num w"
    unfolding MakeTag_def by (rule disjunctive_add [symmetric]) (auto simp: bit_push_bit_iff dest: bit_wire_num)
  moreover note uint_shifted [OF assms]
  ultimately have eq: "uint (MakeTag n w) = 8 * n + uint (wire_num w)"
    using assms wire_num_bounds [of w] by (simp add: uint_word_ariths)
  then have "int (unat (MakeTag n w)) = int (8 * nat n + unat (wire_num w))" using assms by simp
  then show ?thesis by (simp only: of_nat_eq_iff)
qed

lemma varint_low_bits: "r < 8 \<Longrightarrow> length (varint (8 * n + r)) = length (varint (8 * n))"
proof -
  assume r: "r < 8"
  have "(8 * n + r) div (8 * 16) = (8 * n) div (8 * 16)" unfolding div_mult2_eq using r by simp
  then have "(8 * n + r) div 128 = 8 * n div 128" by simp
  moreover have "8 * n + r < 128 \<longleftrightarrow> 8 * n < 128" using r by arith
  ultimately show ?thesis by (simp add: varint.simps [of "8 * n + r"] varint.simps [of "8 * n"])
qed

lemma TagSize_eq:
  assumes "0 \<le> n" "n < 2 ^ 29"
  shows "TagSize n type = (if type = TYPE_GROUP then 2 else 1) * int (length (varint (unat (MakeTag n w))))"
proof -
  have "unat (push_bit 3 (word_of_int n :: 32 word)) = 8 * nat n"
    using uint_shifted [OF assms] assms(1) by (simp only: unat_eq_nat_uint nat_mult_distrib) simp
  moreover have "unat (wire_num w) < 8" by (cases w) simp_all
  ultimately have "VarintSize32 (push_bit 3 (word_of_int n)) = int (length (varint (unat (MakeTag n w))))"
    by (simp only: VarintSize32_eq unat_MakeTag [OF assms] varint_low_bits)
  then show ?thesis by (simp add: TagSize_def)
qed

section \<open>Single values\<close>

text \<open>Which values a type has, the bytes of one, and how they are parsed.\<close>

fun primitive :: "FieldType \<Rightarrow> bool" where
  "primitive TYPE_STRING = False"
| "primitive TYPE_BYTES = False"
| "primitive TYPE_GROUP = False"
| "primitive TYPE_MESSAGE = False"
| "primitive _ = True"

definition prim_ok :: "FieldType \<Rightarrow> prim \<Rightarrow> bool" where
  "prim_ok type v \<longleftrightarrow> primitive type \<and>
     (case v of
        PInt32 _ \<Rightarrow> kFieldTypeToCppTypeMap type = CPPTYPE_INT32
      | PInt64 _ \<Rightarrow> kFieldTypeToCppTypeMap type = CPPTYPE_INT64
      | PUInt32 _ \<Rightarrow> kFieldTypeToCppTypeMap type = CPPTYPE_UINT32
      | PUInt64 _ \<Rightarrow> kFieldTypeToCppTypeMap type = CPPTYPE_UINT64
      | PFloat _ \<Rightarrow> kFieldTypeToCppTypeMap type = CPPTYPE_FLOAT
      | PDouble _ \<Rightarrow> kFieldTypeToCppTypeMap type = CPPTYPE_DOUBLE
      | PBool _ \<Rightarrow> kFieldTypeToCppTypeMap type = CPPTYPE_BOOL
      | PEnum _ \<Rightarrow> kFieldTypeToCppTypeMap type = CPPTYPE_ENUM)"

definition word_bytes :: "FieldType \<Rightarrow> 64 word \<Rightarrow> byte list" where
  "word_bytes type w =
     (case kWireTypeForFieldType type of
        WIRETYPE_FIXED32 \<Rightarrow> WriteLittleEndian32ToArray (ucast w)
      | WIRETYPE_FIXED64 \<Rightarrow> WriteLittleEndian64ToArray w
      | _ \<Rightarrow> varint (unat w))"

text \<open>The 64 bits that stand for a value on the wire.\<close>

definition prim_word :: "FieldType \<Rightarrow> prim \<Rightarrow> 64 word" where
  "prim_word type v =
     (case v of
        PInt32 w \<Rightarrow> if type = TYPE_SINT32 then ucast (zigzag w) else scast w
      | PInt64 w \<Rightarrow> if type = TYPE_SINT64 then zigzag w else w
      | PUInt32 w \<Rightarrow> ucast w
      | PUInt64 w \<Rightarrow> w
      | PFloat w \<Rightarrow> ucast w
      | PDouble w \<Rightarrow> w
      | PBool b \<Rightarrow> if b then 1 else 0
      | PEnum w \<Rightarrow> scast w)"

definition word_prim :: "FieldType \<Rightarrow> 64 word \<Rightarrow> prim" where
  "word_prim type w =
     (case kFieldTypeToCppTypeMap type of
        CPPTYPE_INT32 \<Rightarrow> PInt32 (if type = TYPE_SINT32 then unzigzag (ucast w) else ucast w)
      | CPPTYPE_INT64 \<Rightarrow> PInt64 (if type = TYPE_SINT64 then unzigzag w else w)
      | CPPTYPE_UINT32 \<Rightarrow> PUInt32 (ucast w)
      | CPPTYPE_UINT64 \<Rightarrow> PUInt64 w
      | CPPTYPE_FLOAT \<Rightarrow> PFloat (ucast w)
      | CPPTYPE_DOUBLE \<Rightarrow> PDouble w
      | CPPTYPE_BOOL \<Rightarrow> PBool ((ucast w :: 32 word) \<noteq> 0)
      | _ \<Rightarrow> PEnum (ucast w))"

definition prim_bytes :: "FieldType \<Rightarrow> prim \<Rightarrow> byte list" where
  "prim_bytes type v = word_bytes type (prim_word type v)"

lemma cast_down_up [simp]:
  "(ucast (ucast (w :: 32 word) :: 64 word) :: 32 word) = w" "(ucast (scast (w :: 32 word) :: 64 word) :: 32 word) = w"
  by (rule bit_word_eqI; simp add: bit_simps)+

lemma word_prim_word: "prim_ok type v \<Longrightarrow> word_prim type (prim_word type v) = v"
  by (cases type; cases v; simp add: prim_ok_def word_prim_def prim_word_def unzigzag_zigzag)

definition prim_parse :: "FieldType \<Rightarrow> byte list \<Rightarrow> (prim \<times> byte list) option" where
  "prim_parse type bs =
     map_option (apfst (word_prim type))
       (case kWireTypeForFieldType type of
          WIRETYPE_FIXED32 \<Rightarrow> map_option (apfst ucast) (fixed_parse 4 ReadLittleEndian32FromArray bs)
        | WIRETYPE_FIXED64 \<Rightarrow> fixed_parse 8 ReadLittleEndian64FromArray bs
        | _ \<Rightarrow> varint_parse bs)"

lemma LittleEndian32_round_trip [simp]: "ReadLittleEndian32FromArray (WriteLittleEndian32ToArray w @ rest) = Inr w"
proof -
  have "ucast (ucast w :: byte) OR push_bit 8 (ucast (ucast (drop_bit 8 w) :: byte))
      OR push_bit 16 (ucast (ucast (drop_bit 16 w) :: byte)) OR push_bit 24 (ucast (ucast (drop_bit 24 w) :: byte)) = w"
    (is "?w = w")
  proof (rule bit_word_eqI)
    fix n :: nat
    assume "n < LENGTH(32)"
    then consider "n < 8" | "8 \<le> n" "n < 16" | "16 \<le> n" "n < 24" | "24 \<le> n" "n < 32" by fastforce
    then show "bit ?w n \<longleftrightarrow> bit w n" by cases (auto simp: bit_simps)
  qed
  then show ?thesis by (simp add: WriteLittleEndian32ToArray_def)
qed

lemma LittleEndian64_round_trip [simp]: "ReadLittleEndian64FromArray (WriteLittleEndian64ToArray w @ rest) = Inr w"
proof -
  have split: "WriteLittleEndian64ToArray w
      = WriteLittleEndian32ToArray (ucast w) @ WriteLittleEndian32ToArray (ucast (drop_bit 32 w))"
    by (simp add: WriteLittleEndian64ToArray_def WriteLittleEndian32ToArray_def Let_def)
  have "drop 4 (WriteLittleEndian64ToArray w @ rest) = WriteLittleEndian32ToArray (ucast (drop_bit 32 w)) @ rest"
    unfolding split by (simp add: WriteLittleEndian32ToArray_def)
  moreover have "ucast (ucast w :: 32 word) OR push_bit 32 (ucast (ucast (drop_bit 32 w) :: 32 word)) = w" (is "?w = w")
  proof (rule bit_word_eqI)
    fix n :: nat
    assume "n < LENGTH(64)"
    then show "bit ?w n \<longleftrightarrow> bit w n" by (cases "n < 32") (auto simp: bit_simps)
  qed
  ultimately show ?thesis by (simp add: ReadLittleEndian64FromArray_def) (simp add: split)
qed

lemma length_LittleEndian [simp]:
  "length (WriteLittleEndian32ToArray v) = 4" "length (WriteLittleEndian64ToArray w) = 8"
  by (simp_all add: WriteLittleEndian32ToArray_def WriteLittleEndian64ToArray_def Let_def)

lemma fixed_parse_bytes:
  "fixed_parse 4 ReadLittleEndian32FromArray (WriteLittleEndian32ToArray v @ rest) = Some (v, rest)"
  "fixed_parse 8 ReadLittleEndian64FromArray (WriteLittleEndian64ToArray w @ rest) = Some (w, rest)"
  using LittleEndian32_round_trip [of v "[]"] LittleEndian64_round_trip [of w "[]"] by (simp_all add: fixed_parse_def)

lemma varint_parse_bytes:
  "n < 128 ^ 10 \<Longrightarrow> varint_parse (varint n @ rest) = Some (of_nat n, rest)"
  by (simp add: varint_parse_def varint_read_varint)

lemma varint_parse_word64: "varint_parse (varint (unat (w :: 64 word)) @ rest) = Some (ucast w, rest)"
  using varint_parse_bytes [OF varint64_bound] by simp

lemma varint_parse_word32: "varint_parse (varint (unat (w :: 32 word)) @ rest) = Some (w, rest)"
proof -
  have "unat w < 128 ^ 10" using unat_bound [of w] by simp
  then show ?thesis by (simp add: varint_parse_bytes)
qed

lemma word_prim_low: "kWireTypeForFieldType type = WIRETYPE_FIXED32 \<Longrightarrow> word_prim type (ucast (ucast w :: 32 word)) = word_prim type w"
proof -
  have "(ucast (ucast (ucast w :: 32 word) :: 64 word) :: 32 word) = ucast w" by (rule bit_word_eqI) (simp add: bit_simps)
  then show "kWireTypeForFieldType type = WIRETYPE_FIXED32 \<Longrightarrow> ?thesis" by (cases type) (simp_all add: word_prim_def)
qed

lemma prim_parse_bytes:
  assumes "prim_ok type v"
  shows "prim_parse type (prim_bytes type v @ rest) = Some (v, rest)"
  using word_prim_word [OF assms] word_prim_low [of type "prim_word type v"]
  by (cases "kWireTypeForFieldType type")
    (simp_all add: prim_parse_def prim_bytes_def word_bytes_def fixed_parse_bytes varint_parse_word64)

text \<open>The readers, writers and sizes of single values.\<close>

lemma reads_map:
  assumes "reads m p s"
  shows "reads (mbind m (\<lambda>r. mreturn (map_option f r))) (\<lambda>bs. map_option (apfst f) (p bs)) s"
proof (rule readsE [OF assms])
  fix s' n
  assume r: "m s = Inr (map_option fst (p (avail s)), s')" "moved n s s'" "n \<le> length (avail s)"
    and rest: "\<And>v rest. p (avail s) = Some (v, rest) \<Longrightarrow> avail s' = rest"
  show ?thesis
    by (rule readsI [of "mbind m (\<lambda>r. mreturn (map_option f r))", OF _ r(2,3)])
      (auto simp: run_simps r(1) option.map_comp o_def rest)
qed

lemma reads_cong: "reads m p s \<Longrightarrow> p (avail s) = q (avail s) \<Longrightarrow> reads m q s"
  by (simp add: reads_def)

lemma varint_parse_ucast:
  "map_option (apfst ucast) (varint_parse bs :: (64 word \<times> byte list) option) = (varint_parse bs :: (32 word \<times> byte list) option)"
  by (cases "varint_read 10 bs") (auto simp: varint_parse_def ucast_of_nat_down)

lemma map_varint32:
  "map_option (apfst f) (varint_parse bs) = map_option (apfst (\<lambda>w :: 64 word. f (ucast w :: 32 word))) (varint_parse bs)"
  unfolding varint_parse_ucast [symmetric] by (simp add: option.map_comp o_def apfst_def prod.map_comp id_def)

lemma ReadPrimitive_reads:
  assumes "cis_wf s" "primitive type"
  shows "reads (ReadPrimitive type) (prim_parse type) s"
proof -
  have v32: "reads (mbind ReadVarint32 (\<lambda>r. mreturn (map_option f r))) q s"
    if "q (avail s) = map_option (apfst (\<lambda>w :: 64 word. f (ucast w))) (varint_parse (avail s))" for f :: "32 word \<Rightarrow> prim" and q
    by (rule reads_cong [OF reads_map [OF ReadVarint32_reads [OF assms(1)]]]) (simp add: that map_varint32)
  have v64: "reads (mbind ReadVarint64 (\<lambda>r. mreturn (map_option f r))) q s"
    if "q (avail s) = map_option (apfst f) (varint_parse (avail s))" for f :: "64 word \<Rightarrow> prim" and q
    by (rule reads_cong [OF reads_map [OF ReadVarint64_reads [OF assms(1)]]]) (simp add: that)
  have f32: "reads (mbind ReadLittleEndian32 (\<lambda>r. mreturn (map_option f r))) q s"
    if "q (avail s) = map_option (apfst f) (fixed_parse 4 ReadLittleEndian32FromArray (avail s))" for f :: "32 word \<Rightarrow> prim" and q
    by (rule reads_cong [OF reads_map [OF ReadLittleEndian32_reads [OF assms(1)]]]) (simp add: that)
  have f64: "reads (mbind ReadLittleEndian64 (\<lambda>r. mreturn (map_option f r))) q s"
    if "q (avail s) = map_option (apfst f) (fixed_parse 8 ReadLittleEndian64FromArray (avail s))" for f :: "64 word \<Rightarrow> prim" and q
    by (rule reads_cong [OF reads_map [OF ReadLittleEndian64_reads [OF assms(1)]]]) (simp add: that)
  have eq: "prim_parse t (avail s) = map_option (apfst f) (varint_parse (avail s))"
    if "kWireTypeForFieldType t = WIRETYPE_VARINT" "\<And>w. word_prim t w = f w" for t f
    using that by (auto simp: prim_parse_def fun_eq_iff intro!: option.map_cong0)
  have eq32: "prim_parse t (avail s) = map_option (apfst f) (fixed_parse 4 ReadLittleEndian32FromArray (avail s))"
    if "kWireTypeForFieldType t = WIRETYPE_FIXED32" "\<And>w. word_prim t (ucast w) = f w" for t f
    using that by (auto simp: prim_parse_def option.map_comp o_def apfst_def prod.map_comp intro!: option.map_cong0)
  have eq64: "prim_parse t (avail s) = map_option (apfst f) (fixed_parse 8 ReadLittleEndian64FromArray (avail s))"
    if "kWireTypeForFieldType t = WIRETYPE_FIXED64" "\<And>w. word_prim t w = f w" for t f
    using that by (auto simp: prim_parse_def fun_eq_iff intro!: option.map_cong0)
  show ?thesis
    using assms(2)
    by (cases type) (auto simp: ReadPrimitive_def zigzag_widths word_prim_def intro!: v32 v64 f32 f64 eq eq32 eq64)
qed

lemma sint_scast: "sint (scast (w :: 32 word) :: 64 word) = sint w"
proof (rule bit_eqI)
  fix i :: nat
  consider "i < 31" | "i = 31" | "31 < i" by linarith
  then show "bit (sint (scast w :: 64 word)) i \<longleftrightarrow> bit (sint w) i"
    using bit_imp_le_length [of w i] by cases (auto simp: bit_sint_iff bit_simps min_def)
qed

lemma unat_scast: "0 \<le> sint (w :: 32 word) \<Longrightarrow> unat (scast w :: 64 word) = unat w"
  using uint_eq_sint [of w] uint_eq_sint [of "scast w :: 64 word"] by (simp only: unat_eq_nat_uint sint_scast)

lemma writes_SignExtended: "writes (WriteVarint32SignExtended (sint (w :: 32 word))) (varint (unat (scast w :: 64 word)))"
proof (cases "sint w < 0")
  case True
  then show ?thesis using writes_WriteVarint64 [of "scast w"] by (simp add: WriteVarint32SignExtended_def)
next
  case False
  then show ?thesis using unat_scast [of w] writes_WriteVarint32 [of w] by (simp add: WriteVarint32SignExtended_def)
qed

lemma SignExtended_size: "VarintSize32SignExtended (sint (w :: 32 word)) = int (length (varint (unat (scast w :: 64 word))))"
proof (cases "sint w < 0")
  case True
  let ?n = "unat (scast w :: 64 word)"
  have "bit (uint (scast w :: 64 word)) 63"
    using True bit_last_iff [of "scast w :: 64 word"] sint_scast [of w] by (simp add: bit_uint_iff)
  then have "\<not> uint (scast w :: 64 word) < 2 ^ 63"
    using bit_take_bit_iff [of 63 "uint (scast w :: 64 word)" 63] take_bit_int_eq_self [of "uint (scast w :: 64 word)" 63] by auto
  moreover have "uint (scast w :: 64 word) = int ?n" by simp
  ultimately have "2 ^ 63 \<le> ?n" by (simp only: not_less numeral_power_le_of_nat_cancel_iff)
  then have "128 ^ 9 \<le> ?n" by simp
  then have "length (varint ?n) = 10" using length_varint [of 9 ?n] varint64_bound [of "scast w"] by simp
  then show ?thesis using True by (simp add: VarintSize32SignExtended_def)
next
  case False
  then show ?thesis using unat_scast [of w] by (simp add: VarintSize32SignExtended_def VarintSize32_eq)
qed

lemma unat_ucast_up: "unat (ucast (w :: 32 word) :: 64 word) = unat w"
proof -
  have "unat w < 2 ^ 64" using unat_bound [of w] by simp
  then show ?thesis using unsigned_ucast_eq [of w, where 'a = nat and 'c = 64] by (simp add: take_bit_nat_eq_self)
qed

lemma writes_primitive:
  assumes "prim_ok type v"
  shows "writes (WritePrimitiveNoTag type v) (prim_bytes type v)"
proof -
  have bool: "writes (WriteVarint32 1) (varint (Suc 0))" "writes (WriteVarint32 0) (varint 0)"
    using writes_WriteVarint32 [of 1] writes_WriteVarint32 [of 0] by simp_all
  show ?thesis
    using assms
    by (cases type; cases v)
      (auto simp: prim_ok_def WritePrimitiveNoTag_def prim_bytes_def prim_word_def word_bytes_def zigzag_widths unat_ucast_up
        bool writes_SignExtended writes_WriteVarint64 writes_WriteVarint32 writes_LittleEndian)
qed

lemma PrimitiveSize_eq:
  assumes "prim_ok type v"
  shows "PrimitiveSize type v = int (length (prim_bytes type v))"
  using assms
  by (cases type; cases v)
    (auto simp: prim_ok_def PrimitiveSize_def prim_bytes_def prim_word_def word_bytes_def zigzag_widths unat_ucast_up
      SignExtended_size VarintSize64_eq VarintSize32_eq varint.simps [of 0] varint.simps [of "Suc 0"])

lemma prim_bytes_nonempty: "prim_bytes type v \<noteq> []"
  by (auto simp: prim_bytes_def word_bytes_def WriteLittleEndian32ToArray_def WriteLittleEndian64ToArray_def Let_def
      varint.simps split: WireType.splits)

section \<open>Properties\<close>

text \<open>
  Zig-zag is a bijection on the 32 and the 64 bit integers that sends numbers of small absolute value to
  small codes: 0, -1, 1, -2, ... become 0, 1, 2, 3, ..., also at the ends of the range.
\<close>

lemma zigzag_bijection:
  "ZigZagDecode32 (ZigZagEncode32 n) = n \<and> ZigZagEncode32 (ZigZagDecode32 n) = n
    \<and> uint (ZigZagEncode32 n) = (if 0 \<le> sint n then 2 * sint n else - 2 * sint n - 1)
    \<and> ZigZagDecode64 (ZigZagEncode64 m) = m \<and> ZigZagEncode64 (ZigZagDecode64 m) = m
    \<and> uint (ZigZagEncode64 m) = (if 0 \<le> sint m then 2 * sint m else - 2 * sint m - 1)"
  by (simp add: zigzag_widths unzigzag_zigzag zigzag_unzigzag zigzag_nonneg zigzag_neg)

text \<open>
  C19. Every single value of every field type survives the trip: on an output stream with room, the writer
  appends as many bytes as the size function announced, and from any input stream that has these bytes next,
  across whatever blocks, the reader returns the value and leaves what followed.
\<close>

theorem primitive_round_trip:
  assumes "prim_ok type v" and "cos_wf out" and "PrimitiveSize type v \<le> int (room out)"
  shows "\<exists>bs out'. WritePrimitiveNoTag type v out = Inr ((), out') \<and> written out' = written out @ bs
    \<and> PrimitiveSize type v = int (length bs)
    \<and> (\<forall>s rest. cis_wf s \<longrightarrow> avail s = bs @ rest \<longrightarrow> (\<exists>s'. ReadPrimitive type s = Inr (Some v, s') \<and> avail s' = rest))"
proof -
  have size: "PrimitiveSize type v = int (length (prim_bytes type v))" by (rule PrimitiveSize_eq [OF assms(1)])
  then have "length (prim_bytes type v) \<le> room out" using assms(3) by simp
  then obtain out' where out: "WritePrimitiveNoTag type v out = Inr ((), out')" "written out' = written out @ prim_bytes type v"
    by (rule writesE [OF writes_primitive [OF assms(1)] assms(2)])
  have "\<exists>s'. ReadPrimitive type s = Inr (Some v, s') \<and> avail s' = rest"
    if "cis_wf s" "avail s = prim_bytes type v @ rest" for s rest
    using readsE [OF ReadPrimitive_reads [OF that(1)]] prim_parse_bytes [OF assms(1)] assms(1) that(2)
    by (metis (no_types, lifting) fst_conv option.simps(9) prim_ok_def)
  then show ?thesis using out size by blast
qed

theorem primitive_round_trip_witness:
  "\<exists>bs out'. WritePrimitiveNoTag TYPE_INT32 (PInt32 (- 1)) (CodedOutputStream_new [[0, 0, 0], [0, 0, 0, 0, 0, 0, 0, 0]]) = Inr ((), out')
    \<and> written out' = bs \<and> length bs = 10"
proof -
  let ?out = "CodedOutputStream_new [[0, 0, 0], [0, 0, 0, 0, 0, 0, 0, 0]]"
  have "PrimitiveSize TYPE_INT32 (PInt32 (- 1)) = 10" by (simp add: PrimitiveSize_def VarintSize32SignExtended_def)
  moreover have "prim_ok TYPE_INT32 (PInt32 (- 1))" by (simp add: prim_ok_def)
  moreover have "room ?out = 11" by (simp add: CodedOutputStream_new_wf)
  ultimately show ?thesis
    using primitive_round_trip [of TYPE_INT32 "PInt32 (- 1)" ?out] CodedOutputStream_new_wf(1,2) by fastforce
qed

end
