(* ===== verification/Wire_Bytes.thy ===== *)
theory Wire_Bytes
  imports Wire_Format Wire_Lite_Proofs
begin

text \<open>
  What the serialiser writes: the bytes of a well-formed message as a function of the message, \<^verbatim>\<open>ByteSize\<close> as
  their number, and \<^verbatim>\<open>SerializeWithCachedSizes\<close> as a writer of exactly these bytes, whose \<^verbatim>\<open>GOOGLE_CHECK\<close> on
  the size passes.
\<close>

section \<open>Well-formed messages\<close>

definition number_ok :: "int \<Rightarrow> bool" where
  "number_ok n \<longleftrightarrow> 1 \<le> n \<and> n < 2 ^ 29"

definition pool_ok :: "'m pool \<Rightarrow> bool" where
  "pool_ok D \<longleftrightarrow> (\<forall>ty. distinct (map fd_number (D ty))
     \<and> (\<forall>f \<in> set (D ty). number_ok (fd_number f) \<and> (fd_packed f \<longrightarrow> is_packable f)))"

text \<open>The number in \<open>unknowns_ok d us\<close> and \<open>msg_ok D d m\<close> bounds how deep groups and messages are nested.\<close>

fun unknowns_ok :: "nat \<Rightarrow> UnknownField list \<Rightarrow> bool" where
  "unknowns_ok d [] = True"
| "unknowns_ok d (UVarint n v # us) = (number_ok n \<and> unknowns_ok d us)"
| "unknowns_ok d (UFixed32 n w # us) = (number_ok n \<and> unknowns_ok d us)"
| "unknowns_ok d (UFixed64 n v # us) = (number_ok n \<and> unknowns_ok d us)"
| "unknowns_ok d (ULengthDelimited n str # us) = (number_ok n \<and> length str < 2 ^ 31 \<and> unknowns_ok d us)"
| "unknowns_ok d (UGroup n grp # us) = (number_ok n \<and> 0 < d \<and> unknowns_ok (d - 1) grp \<and> unknowns_ok d us)"

fun unknown_number :: "UnknownField \<Rightarrow> int" where
  "unknown_number (UVarint n _) = n"
| "unknown_number (UFixed32 n _) = n"
| "unknown_number (UFixed64 n _) = n"
| "unknown_number (ULengthDelimited n _) = n"
| "unknown_number (UGroup n _) = n"

definition value_ok :: "('m Message \<Rightarrow> bool) \<Rightarrow> 'm FieldDescriptor \<Rightarrow> 'm Value \<Rightarrow> bool" where
  "value_ok ok f v =
     (case v of
        VPrim p \<Rightarrow> prim_ok (fd_type f) p \<and> known_enum f p
      | VString str \<Rightarrow> (fd_type f = TYPE_STRING \<or> fd_type f = TYPE_BYTES) \<and> length str < 2 ^ 31
      | VMessage x \<Rightarrow> (fd_type f = TYPE_GROUP \<or> fd_type f = TYPE_MESSAGE) \<and> msg_type x = fd_message f \<and> ok x)"

definition field_ok :: "('m Message \<Rightarrow> bool) \<Rightarrow> 'm FieldDescriptor \<Rightarrow> 'm Value list \<Rightarrow> bool" where
  "field_ok ok f vs \<longleftrightarrow> vs \<noteq> [] \<and> (\<not> is_repeated f \<longrightarrow> length vs = 1) \<and> list_all (value_ok ok f) vs"

primrec msg_ok :: "'m pool \<Rightarrow> nat \<Rightarrow> 'm Message \<Rightarrow> bool" where
  "msg_ok D 0 m = False"
| "msg_ok D (Suc d) m \<longleftrightarrow>
     m_ok (msg_fields m)
     \<and> list_all (\<lambda>(n, vs). case FindFieldByNumber D (msg_type m) n of None \<Rightarrow> False | Some f \<Rightarrow> field_ok (msg_ok D d) f vs) (msg_fields m)
     \<and> unknowns_ok d (msg_unknown m)
     \<and> list_all (\<lambda>u. FindFieldByNumber D (msg_type m) (unknown_number u) = None) (msg_unknown m)"

section \<open>Bytes\<close>

definition tag_bytes :: "int \<Rightarrow> WireType \<Rightarrow> byte list" where
  "tag_bytes n w = varint (unat (MakeTag n w))"

definition value_bytes :: "('m Message \<Rightarrow> byte list) \<Rightarrow> 'm FieldDescriptor \<Rightarrow> 'm Value \<Rightarrow> byte list" where
  "value_bytes enc f v =
     (case v of
        VPrim p \<Rightarrow> prim_bytes (fd_type f) p
      | VString str \<Rightarrow> varint (length str) @ str
      | VMessage x \<Rightarrow>
          if fd_type f = TYPE_GROUP then enc x @ tag_bytes (fd_number f) WIRETYPE_END_GROUP
          else varint (length (enc x)) @ enc x)"

definition field_bytes :: "('m Message \<Rightarrow> byte list) \<Rightarrow> 'm FieldDescriptor \<Rightarrow> 'm Value list \<Rightarrow> byte list" where
  "field_bytes enc f vs =
     (if fd_packed f then
        (let data = concat (map (value_bytes enc f) vs)
         in tag_bytes (fd_number f) WIRETYPE_LENGTH_DELIMITED @ varint (length data) @ data)
      else concat (map (\<lambda>v. tag_bytes (fd_number f) (kWireTypeForFieldType (fd_type f)) @ value_bytes enc f v) vs))"

text \<open>The number bounds the nesting, as in \<open>msg_ok\<close>.\<close>

primrec msg_bytes :: "'m pool \<Rightarrow> nat \<Rightarrow> 'm Message \<Rightarrow> byte list" where
  "msg_bytes D 0 m = []"
| "msg_bytes D (Suc d) m =
     concat (map (\<lambda>(n, vs). case FindFieldByNumber D (msg_type m) n of None \<Rightarrow> [] | Some f \<Rightarrow> field_bytes (msg_bytes D d) f vs)
       (msg_fields m)) @ SerializeUnknownFieldsToArray (msg_unknown m)"

section \<open>Unknown fields\<close>

lemma FindField_number: "FindFieldByNumber D ty n = Some f \<Longrightarrow> fd_number f = n \<and> f \<in> set (D ty)"
  by (auto simp: FindFieldByNumber_def find_Some_iff)

lemma number_okD: "number_ok n \<Longrightarrow> 0 \<le> n \<and> n < 2 ^ 29 \<and> 0 < n"
  by (simp add: number_ok_def)

lemma writes_tag: "writes (WriteVarint32 (MakeTag n w)) (tag_bytes n w)"
  by (simp add: tag_bytes_def writes_WriteVarint32)

lemma unat_len: "n < 2 ^ 32 \<Longrightarrow> unat (of_nat n :: 32 word) = n"
  by (simp add: unsigned_of_nat take_bit_nat_eq_self)

lemma writes_length: "len < 2 ^ 32 \<Longrightarrow> writes (WriteVarint32 (of_nat len)) (varint len)"
  using writes_WriteVarint32 [of "of_nat len"] by (simp add: unat_len)

lemma unknown_bytes:
  "SerializeUnknownFieldsToArray [] = []"
  "SerializeUnknownFieldsToArray (UVarint n v # us) = tag_bytes n WIRETYPE_VARINT @ varint (unat v) @ SerializeUnknownFieldsToArray us"
  "SerializeUnknownFieldsToArray (UFixed32 n w # us) =
     tag_bytes n WIRETYPE_FIXED32 @ WriteLittleEndian32ToArray w @ SerializeUnknownFieldsToArray us"
  "SerializeUnknownFieldsToArray (UFixed64 n v # us) =
     tag_bytes n WIRETYPE_FIXED64 @ WriteLittleEndian64ToArray v @ SerializeUnknownFieldsToArray us"
  "length str < 2 ^ 31 \<Longrightarrow> SerializeUnknownFieldsToArray (ULengthDelimited n str # us) =
     tag_bytes n WIRETYPE_LENGTH_DELIMITED @ varint (length str) @ str @ SerializeUnknownFieldsToArray us"
  "SerializeUnknownFieldsToArray (UGroup n grp # us) =
     tag_bytes n WIRETYPE_START_GROUP @ SerializeUnknownFieldsToArray grp @ tag_bytes n WIRETYPE_END_GROUP
       @ SerializeUnknownFieldsToArray us"
  by (simp_all add: tag_bytes_def WriteTag_eq WriteVarint64_eq WriteVarint32_eq unat_len)

lemma writes_unknown: "unknowns_ok d us \<Longrightarrow> writes (SerializeUnknownFields us) (SerializeUnknownFieldsToArray us)"
proof (induction us arbitrary: d rule: SerializeUnknownFields.induct)
  case (5 n str us)
  then show ?case
    by (auto simp: unknown_bytes writes_tag writes_length writes_tag_string intro!: writes_seq simp del: SerializeUnknownFieldsToArray.simps)
next
  case 1
  show ?case by (simp add: writes_return)
qed (auto simp: unknown_bytes writes_tag writes_WriteVarint64 writes_LittleEndian intro!: writes_seq
    simp del: SerializeUnknownFieldsToArray.simps)

lemma unknown_size: "unknowns_ok d us \<Longrightarrow> ComputeUnknownFieldsSize us = int (length (SerializeUnknownFieldsToArray us))"
proof (induction us arbitrary: d rule: SerializeUnknownFields.induct)
  case 1
  show ?case by simp
qed (auto simp: unknown_bytes VarintSize32_eq VarintSize64_eq tag_bytes_def unat_len
    simp del: SerializeUnknownFieldsToArray.simps)

section \<open>The fields that are set\<close>

lemma msg_ok_field:
  assumes "msg_ok D (Suc d) m" "(n, vs) \<in> set (msg_fields m)"
  obtains f where "FindFieldByNumber D (msg_type m) n = Some f" "fd_number f = n" "f \<in> set (D (msg_type m))"
    "field_ok (msg_ok D d) f vs" "GetField m n = vs"
proof -
  have "GetField m n = vs" using assms m_in_set_find [of "msg_fields m" n vs] by (simp add: GetField_def)
  moreover obtain f where "FindFieldByNumber D (msg_type m) n = Some f" "field_ok (msg_ok D d) f vs"
    using assms by (auto simp: list_all_iff split: option.splits)
  ultimately show ?thesis using that FindField_number by metis
qed

lemma ListFields_fields:
  assumes "pool_ok D" "m_ok (msg_fields m)"
    and fields: "\<And>n vs. (n, vs) \<in> set (msg_fields m) \<Longrightarrow> vs \<noteq> [] \<and> (\<exists>f. FindFieldByNumber D (msg_type m) n = Some f)"
  shows "map (\<lambda>f. (fd_number f, GetField m (fd_number f))) (ListFields D m) = msg_fields m"
    and "\<And>f. f \<in> set (ListFields D m) \<Longrightarrow> FindFieldByNumber D (msg_type m) (fd_number f) = Some f"
proof -
  let ?ty = "msg_type m"
  have field: "GetField m n = vs" "vs \<noteq> []" "\<exists>f \<in> set (D ?ty). fd_number f = n \<and> FindFieldByNumber D ?ty n = Some f"
    if mem: "(n, vs) \<in> set (msg_fields m)" for n vs
    using fields [OF mem] m_in_set_find [OF assms(2) mem] by (auto simp: GetField_def dest: FindField_number)
  have dist: "distinct (map fd_number (D ?ty))" using assms(1) by (simp add: pool_ok_def)
  have unique: "f = g" if "f \<in> set (D ?ty)" "g \<in> set (D ?ty)" "fd_number f = fd_number g" for f g
    using dist that by (auto simp: distinct_map dest: inj_onD)
  have present: "HasField m f \<longleftrightarrow> fd_number f \<in> fst ` set (msg_fields m)" for f
  proof
    assume "HasField m f"
    then show "fd_number f \<in> fst ` set (msg_fields m)"
      by (cases "m_find (msg_fields m) (fd_number f)") (auto simp: HasField_def GetField_def dest: m_find_in_set intro: rev_image_eqI)
  next
    assume "fd_number f \<in> fst ` set (msg_fields m)"
    then obtain vs where "(fd_number f, vs) \<in> set (msg_fields m)" by auto
    then show "HasField m f" using field(1,2) by (simp add: HasField_def)
  qed
  have "map fd_number (ListFields D m) = map fst (msg_fields m)"
  proof (rule sorted_distinct_set_unique)
    show "sorted (map fd_number (ListFields D m))" by (simp add: ListFields_def)
    have "distinct (map fd_number (filter (HasField m) (D ?ty)))" by (rule distinct_map_filter [OF dist])
    then show "distinct (map fd_number (ListFields D m))"
      by (simp add: ListFields_def distinct_map)
    show "sorted (map fst (msg_fields m))" "distinct (map fst (msg_fields m))"
      using assms(2) by (auto simp: m_ok_def strict_sorted_iff)
    show "set (map fd_number (ListFields D m)) = set (map fst (msg_fields m))"
    proof
      show "set (map fd_number (ListFields D m)) \<subseteq> set (map fst (msg_fields m))" by (auto simp: ListFields_def present)
      show "set (map fst (msg_fields m)) \<subseteq> set (map fd_number (ListFields D m))"
      proof
        fix n assume "n \<in> set (map fst (msg_fields m))"
        then obtain vs where vs: "(n, vs) \<in> set (msg_fields m)" by auto
        then obtain f where "fd_number f = n" "f \<in> set (D ?ty)" using field(3) by blast
        then show "n \<in> set (map fd_number (ListFields D m))" using vs by (force simp: ListFields_def present)
      qed
    qed
  qed
  then have "map (\<lambda>n. (n, GetField m n)) (map fd_number (ListFields D m)) = map (\<lambda>n. (n, GetField m n)) (map fst (msg_fields m))"
    by simp
  moreover have "map (\<lambda>n. (n, GetField m n)) (map fst (msg_fields m)) = msg_fields m"
    unfolding map_map by (rule map_idI) (auto dest: field(1))
  ultimately show "map (\<lambda>f. (fd_number f, GetField m (fd_number f))) (ListFields D m) = msg_fields m" by (simp add: o_def)
  fix f
  assume f: "f \<in> set (ListFields D m)"
  then have "f \<in> set (D ?ty)" by (auto simp: ListFields_def)
  moreover obtain vs where "(fd_number f, vs) \<in> set (msg_fields m)" using f by (auto simp: ListFields_def present)
  ultimately show "FindFieldByNumber D ?ty (fd_number f) = Some f" using unique field(3) by metis
qed

lemma ListFields_eq:
  assumes "pool_ok D" "msg_ok D (Suc d) m"
  shows "map (\<lambda>f. (fd_number f, GetField m (fd_number f))) (ListFields D m) = msg_fields m"
    and "\<And>f. f \<in> set (ListFields D m) \<Longrightarrow> FindFieldByNumber D (msg_type m) (fd_number f) = Some f"
proof -
  have fields: "vs \<noteq> [] \<and> (\<exists>f. FindFieldByNumber D (msg_type m) n = Some f)" if "(n, vs) \<in> set (msg_fields m)" for n vs
    by (rule msg_ok_field [OF assms(2) that]) (simp add: field_ok_def)
  have "m_ok (msg_fields m)" using assms(2) by simp
  from ListFields_fields [OF assms(1) this fields]
  show "map (\<lambda>f. (fd_number f, GetField m (fd_number f))) (ListFields D m) = msg_fields m"
    and "\<And>f. f \<in> set (ListFields D m) \<Longrightarrow> FindFieldByNumber D (msg_type m) (fd_number f) = Some f" by blast+
qed

section \<open>Sizes and writers\<close>

lemma msg_bytes_ListFields:
  assumes "pool_ok D" "msg_ok D (Suc d) m"
  shows "msg_bytes D (Suc d) m = concat (map (\<lambda>f. field_bytes (msg_bytes D d) f (GetField m (fd_number f))) (ListFields D m))
    @ SerializeUnknownFieldsToArray (msg_unknown m)"
proof -
  let ?enc = "\<lambda>(n, vs). case FindFieldByNumber D (msg_type m) n of None \<Rightarrow> [] | Some f \<Rightarrow> field_bytes (msg_bytes D d) f vs"
  have "map ?enc (msg_fields m) = map ?enc (map (\<lambda>f. (fd_number f, GetField m (fd_number f))) (ListFields D m))"
    by (simp only: ListFields_eq(1) [OF assms])
  also have "\<dots> = map (\<lambda>f. field_bytes (msg_bytes D d) f (GetField m (fd_number f))) (ListFields D m)"
    using ListFields_eq(2) [OF assms] by auto
  finally show ?thesis by simp
qed

lemma ListFields_ok:
  assumes "pool_ok D" "msg_ok D (Suc d) m" "f \<in> set (ListFields D m)"
  shows "number_ok (fd_number f)" "fd_packed f \<Longrightarrow> is_packable f" "field_ok (msg_ok D d) f (GetField m (fd_number f))"
proof -
  have f: "f \<in> set (D (msg_type m))" "HasField m f" using assms(3) by (auto simp: ListFields_def)
  then show "number_ok (fd_number f)" "fd_packed f \<Longrightarrow> is_packable f" using assms(1) by (auto simp: pool_ok_def)
  obtain vs where vs: "(fd_number f, vs) \<in> set (msg_fields m)"
    using f(2) by (cases "m_find (msg_fields m) (fd_number f)") (auto simp: HasField_def GetField_def dest: m_find_in_set)
  show "field_ok (msg_ok D d) f (GetField m (fd_number f))"
    by (rule msg_ok_field [OF assms(2) vs]) (use ListFields_eq(2) [OF assms] in auto)
qed

text \<open>What the sizes and the writers of the contained messages are known to do.\<close>

definition sized :: "('m Message \<Rightarrow> int) \<Rightarrow> ('m Message \<Rightarrow> unit cos) \<Rightarrow> ('m Message \<Rightarrow> byte list) \<Rightarrow> 'm Message \<Rightarrow> bool" where
  "sized size_of write enc x \<longleftrightarrow>
     (length (enc x) < 2 ^ 31 \<longrightarrow> size_of x = int (length (enc x)) \<and> writes (write x) (enc x))"

lemma word_of_length [simp]: "word_of_int (int n) = of_nat n"
  by simp

lemma tag_size:
  "number_ok n \<Longrightarrow> TagSize n type = (if type = TYPE_GROUP then 2 else 1) * int (length (tag_bytes n w))"
  by (simp add: TagSize_eq [of n type w] number_ok_def tag_bytes_def)

lemma length_size: "n < 2 ^ 32 \<Longrightarrow> VarintSize32 (of_nat n) = int (length (varint n))"
  by (simp add: VarintSize32_eq unat_len)

lemma length_tag: "number_ok n \<Longrightarrow> length (tag_bytes n w) = length (tag_bytes n w')"
  using tag_size [of n TYPE_BOOL w] tag_size [of n TYPE_BOOL w'] by simp

lemma prim_not_group: "prim_ok type p \<Longrightarrow> type \<noteq> TYPE_GROUP"
  by (auto simp: prim_ok_def)

lemma tagged_size:
  assumes n: "number_ok (fd_number f)" and "value_ok ok f v" "\<And>x. ok x \<Longrightarrow> sized size_of write enc x"
    and "length (value_bytes enc f v) < 2 ^ 31"
  shows "TagSize (fd_number f) (fd_type f) + ValueSize size_of (fd_type f) v
    = int (length (tag_bytes (fd_number f) w @ value_bytes enc f v))"
proof (cases v)
  case (VPrim p)
  then show ?thesis
    using assms(2) prim_not_group [of "fd_type f" p] by (simp add: value_ok_def ValueSize_def value_bytes_def tag_size [OF n, of _ w] PrimitiveSize_eq)
next
  case (VString str)
  then show ?thesis
    using assms(2) by (auto simp: value_ok_def ValueSize_def value_bytes_def tag_size [OF n, of _ w] StringSize_def length_size)
next
  case (VMessage x)
  have "length (enc x) < 2 ^ 31" using assms(4) VMessage by (auto simp: value_bytes_def split: if_splits)
  then have "size_of x = int (length (enc x))" using assms(2,3) VMessage by (auto simp: value_ok_def sized_def)
  then show ?thesis
    using VMessage \<open>length (enc x) < 2 ^ 31\<close> length_tag [OF n, of w WIRETYPE_END_GROUP]
    by (simp add: ValueSize_def value_bytes_def tag_size [OF n, of _ w] LengthDelimitedSize_def length_size)
qed

lemma writes_value:
  assumes "value_ok ok f v" "\<And>x. ok x \<Longrightarrow> sized size_of write enc x"
    and "length (value_bytes enc f v) < 2 ^ 31" and "\<not> fd_packed f"
  shows "writes (WriteValue size_of write f v) (tag_bytes (fd_number f) (kWireTypeForFieldType (fd_type f)) @ value_bytes enc f v)"
proof (cases v)
  case (VPrim p)
  then show ?thesis
    using assms by (auto simp: value_ok_def WriteValue_def value_bytes_def WritePrimitive_def WFL_WriteTag_def COS_WriteTag_def
        intro!: writes_seq writes_tag writes_primitive)
next
  case (VString str)
  have "writes (WFL_WriteString n str) (tag_bytes n WIRETYPE_LENGTH_DELIMITED @ varint (length str) @ str)"
    if "length str < 2 ^ 31" for n
    using that by (auto simp: WFL_WriteString_def WFL_WriteTag_def COS_WriteTag_def INT_MAX_def
        intro!: writes_seq writes_tag writes_length writes_tag_string(2))
  then show ?thesis using assms(1) VString by (auto simp: value_ok_def WriteValue_def value_bytes_def)
next
  case (VMessage x)
  have small: "length (enc x) < 2 ^ 31" using assms(3) VMessage by (auto simp: value_bytes_def split: if_splits)
  then have "size_of x = int (length (enc x))" "writes (write x) (enc x)"
    using assms(1,2) VMessage by (auto simp: value_ok_def sized_def)
  then show ?thesis
    using assms(1) VMessage small
    by (auto simp: value_ok_def WriteValue_def value_bytes_def WriteGroup_def WriteMessage_def WFL_WriteTag_def COS_WriteTag_def
        intro!: writes_seq writes_tag writes_length)
qed

lemma writes_all:
  "(\<And>x. x \<in> set xs \<Longrightarrow> writes (w x) (b x)) \<Longrightarrow> writes (mseqs (map w xs)) (concat (map b xs))"
  by (induction xs) (auto simp: writes_return intro!: writes_seq)

lemma length_concat_member: "x \<in> set xs \<Longrightarrow> length (b x) \<le> length (concat (map b xs))"
  by (induction xs) auto

lemma sum_sizes: "(\<And>x. x \<in> set xs \<Longrightarrow> s x = int (length (b x))) \<Longrightarrow> sum_list (map s xs) = int (length (concat (map b xs)))"
  by (induction xs) auto

lemma field_values:
  "field_ok ok f (GetField m (fd_number f)) \<Longrightarrow>
    (if is_repeated f then GetField m (fd_number f) else take 1 (GetField m (fd_number f))) = GetField m (fd_number f)"
  by (simp add: field_ok_def)

lemma field_sized:
  assumes n: "number_ok (fd_number f)" and pk: "fd_packed f \<Longrightarrow> is_packable f"
    and ok: "field_ok ok f (GetField m (fd_number f))" and sub: "\<And>x. ok x \<Longrightarrow> sized size_of write enc x"
    and small: "length (field_bytes enc f (GetField m (fd_number f))) < 2 ^ 31"
  shows "FieldByteSize size_of f m = int (length (field_bytes enc f (GetField m (fd_number f))))"
    and "writes (SerializeFieldWithCachedSizes size_of write f m) (field_bytes enc f (GetField m (fd_number f)))"
proof -
  let ?vs = "GetField m (fd_number f)"
  have vok: "value_ok ok f v" if "v \<in> set ?vs" for v using ok that by (auto simp: field_ok_def list_all_iff)
  have ne: "?vs \<noteq> []" using ok by (simp add: field_ok_def)
  have data: "FieldDataOnlyByteSize size_of f m = sum_list (map (ValueSize size_of (fd_type f)) ?vs)"
    unfolding FieldDataOnlyByteSize_def Let_def field_values [OF ok] ..
  have count: "(if is_repeated f then int (length ?vs) else if HasField m f then 1 else 0) = int (length ?vs)"
    using ok by (simp add: field_ok_def HasField_def)
  have "FieldByteSize size_of f m = int (length (field_bytes enc f ?vs))
    \<and> writes (SerializeFieldWithCachedSizes size_of write f m) (field_bytes enc f ?vs)"
  proof (cases "fd_packed f")
    case True
    let ?data = "concat (map (value_bytes enc f) ?vs)"
    have fb: "field_bytes enc f ?vs = tag_bytes (fd_number f) WIRETYPE_LENGTH_DELIMITED @ varint (length ?data) @ ?data"
      using True by (simp add: field_bytes_def Let_def)
    have prim: "\<exists>p. v = VPrim p \<and> prim_ok (fd_type f) p" if "v \<in> set ?vs" for v
      using vok [OF that] pk [OF True] by (cases v) (auto simp: value_ok_def is_packable_def IsTypePackable_def)
    have sz: "FieldDataOnlyByteSize size_of f m = int (length ?data)"
      unfolding data by (rule sum_sizes) (auto simp: ValueSize_def value_bytes_def PrimitiveSize_eq dest!: prim)
    have "hd ?vs \<in> set ?vs" using ne by simp
    then have "value_bytes enc f (hd ?vs) \<noteq> []" using prim prim_bytes_nonempty by (fastforce simp: value_bytes_def)
    then have "?data \<noteq> []" using \<open>hd ?vs \<in> set ?vs\<close> by auto
    then have pos: "0 < FieldDataOnlyByteSize size_of f m" unfolding sz by simp
    have lt: "length ?data < 2 ^ 31" using small fb by simp
    have "writes (mseqs (map (WriteValue size_of write f) ?vs)) ?data"
      by (rule writes_all) (use True in \<open>auto simp: WriteValue_def value_bytes_def writes_primitive dest!: prim\<close>)
    moreover have "writes (mseq (WFL_WriteTag (fd_number f) WIRETYPE_LENGTH_DELIMITED) (WriteVarint32 (of_nat (length ?data))))
        (tag_bytes (fd_number f) WIRETYPE_LENGTH_DELIMITED @ varint (length ?data))"
      using lt by (auto simp: WFL_WriteTag_def COS_WriteTag_def intro!: writes_seq writes_tag writes_length)
    ultimately have "writes (SerializeFieldWithCachedSizes size_of write f m) (field_bytes enc f ?vs)"
      using True ne writes_seq unfolding fb SerializeFieldWithCachedSizes_def Let_def field_values [OF ok] sz
      by fastforce
    moreover have "FieldByteSize size_of f m = int (length (field_bytes enc f ?vs))"
      using True pos lt tag_size [OF n, of TYPE_STRING WIRETYPE_LENGTH_DELIMITED]
      unfolding FieldByteSize_def Let_def fb sz by (simp add: length_size)
    ultimately show ?thesis by simp
  next
    case False
    let ?tagged = "\<lambda>v. tag_bytes (fd_number f) (kWireTypeForFieldType (fd_type f)) @ value_bytes enc f v"
    have fb: "field_bytes enc f ?vs = concat (map ?tagged ?vs)" using False by (simp add: field_bytes_def)
    have lt: "length (value_bytes enc f v) < 2 ^ 31" if "v \<in> set ?vs" for v
      using length_concat_member [OF that, of ?tagged] small fb by simp
    have "writes (mseqs (map (WriteValue size_of write f) ?vs)) (concat (map ?tagged ?vs))"
      by (rule writes_all) (rule writes_value [OF vok sub lt False])
    then have "writes (SerializeFieldWithCachedSizes size_of write f m) (field_bytes enc f ?vs)"
      unfolding fb SerializeFieldWithCachedSizes_def Let_def field_values [OF ok]
      using False writes_seq [OF writes_return] by fastforce
    moreover have "sum_list (map (\<lambda>v. TagSize (fd_number f) (fd_type f) + ValueSize size_of (fd_type f) v) ?vs)
        = int (length (concat (map ?tagged ?vs)))"
      by (rule sum_sizes) (rule tagged_size [OF n vok sub lt])
    ultimately show ?thesis
      using False unfolding FieldByteSize_def Let_def count data fb by (simp add: sum_list_addf sum_list_triv)
  qed
  then show "FieldByteSize size_of f m = int (length (field_bytes enc f ?vs))"
    "writes (SerializeFieldWithCachedSizes size_of write f m) (field_bytes enc f ?vs)" by simp_all
qed

text \<open>The \<^verbatim>\<open>GOOGLE_CHECK\<close> at the end passes when the size is the number of bytes written.\<close>

lemma writes_checked:
  assumes "writes m bs" "sz = int (length bs)"
  shows "writes (mbind (mgets (\<lambda>s. ByteCount s + sz)) (\<lambda>endpoint. mseq m
    (mbind (mgets ByteCount) (\<lambda>n. if n = endpoint then mreturn () else mfault AssertFail)))) bs"
  unfolding writes_def
proof (intro allI impI)
  fix s assume s: "cos_wf s" "length bs \<le> room s"
  obtain s' where s': "m s = Inr ((), s')" "cos_wf s'" "written s' = written s @ bs" "room s' = room s - length bs"
    by (rule writesE [OF assms(1) s]) (rule that)
  then have "ByteCount s' = ByteCount s + sz" using s(1) assms(2) by (simp add: cos_wf_def)
  then show "\<exists>s'. mbind (mgets (\<lambda>s. ByteCount s + sz)) (\<lambda>endpoint. mseq m
      (mbind (mgets ByteCount) (\<lambda>n. if n = endpoint then mreturn () else mfault AssertFail))) s = Inr ((), s')
      \<and> cos_wf s' \<and> written s' = written s @ bs \<and> room s' = room s - length bs"
    using s' by (simp add: run_simps)
qed

lemma mseq_assoc: "mseq (mseq a b) c = mseq a (mseq b c)"
  by (rule ext) (simp add: run_simps split: sum.split)

lemma message_sized:
  "pool_ok D \<Longrightarrow> msg_ok D d m \<Longrightarrow> sized (ByteSize D) (SerializeWithCachedSizes D) (msg_bytes D d) m"
proof (induction d arbitrary: m)
  case (Suc d)
  note pool = Suc.prems(1) and ok = Suc.prems(2)
  let ?fields = "\<lambda>f. field_bytes (msg_bytes D d) f (GetField m (fd_number f))"
  have bytes: "msg_bytes D (Suc d) m = concat (map ?fields (ListFields D m)) @ SerializeUnknownFieldsToArray (msg_unknown m)"
    by (rule msg_bytes_ListFields [OF pool ok])
  show ?case
    unfolding sized_def
  proof
    assume small: "length (msg_bytes D (Suc d) m) < 2 ^ 31"
    have lt: "length (?fields f) < 2 ^ 31" if "f \<in> set (ListFields D m)" for f
      using length_concat_member [OF that, of ?fields] small bytes by simp
    have sized: "FieldByteSize (ByteSize D) f m = int (length (?fields f))"
      and wr: "writes (SerializeFieldWithCachedSizes (ByteSize D) (SerializeWithCachedSizes D) f m) (?fields f)"
      if "f \<in> set (ListFields D m)" for f
      by (rule field_sized [OF ListFields_ok [OF pool ok that] Suc.IH [OF pool] lt [OF that]]; assumption)+
    have unk: "unknowns_ok d (msg_unknown m)" using ok by simp
    have size: "ByteSize D m = int (length (msg_bytes D (Suc d) m))"
      unfolding bytes ByteSize.simps [of D m] unknown_size [OF unk] using sum_sizes [OF sized] by simp
    have "writes (mseq (mseqs (map (\<lambda>f. SerializeFieldWithCachedSizes (ByteSize D) (SerializeWithCachedSizes D) f m) (ListFields D m)))
        (SerializeUnknownFields (msg_unknown m))) (msg_bytes D (Suc d) m)"
      unfolding bytes by (rule writes_seq [OF writes_all [OF wr] writes_unknown [OF unk]])
    from writes_checked [OF this size] show "ByteSize D m = int (length (msg_bytes D (Suc d) m))
        \<and> writes (SerializeWithCachedSizes D m) (msg_bytes D (Suc d) m)"
      using size unfolding mseq_assoc SerializeWithCachedSizes.simps [of D m] by simp
  qed
qed simp

end
