(* ===== verification/Wire_Parse.thy ===== *)
theory Wire_Parse
  imports Wire_Format Wire_Lite_Proofs
begin

text \<open>
  The parser on arbitrary bytes: from any well-formed stream it returns, without a fault, having gone
  forward by no more than what was available, with limits and recursion depth restored when it succeeds.
  The recursion bound \<open>Suc (length (avail s))\<close> is never reached, as every round consumes a tag.
\<close>

section \<open>Going forward\<close>

definition went :: "nat \<Rightarrow> CodedInputStream \<Rightarrow> CodedInputStream \<Rightarrow> bool" where
  "went n s s' \<longleftrightarrow>
     cis_wf s' \<and> raw s' = drop n (raw s) \<and> CurrentPosition s' = CurrentPosition s + int n
     \<and> current_limit s' = current_limit s \<and> total_bytes_limit s' = total_bytes_limit s
     \<and> (zc_input s' = None \<longleftrightarrow> zc_input s = None)
     \<and> recursion_depth s' = recursion_depth s \<and> recursion_limit s' = recursion_limit s"

definition ready :: "CodedInputStream \<Rightarrow> bool" where
  "ready s \<longleftrightarrow> cis_wf s \<and> 0 \<le> recursion_depth s"

lemma went_refl: "cis_wf s \<Longrightarrow> went 0 s s"
  by (simp add: went_def)

lemma went_trans: "went m s1 s2 \<Longrightarrow> went n s2 s3 \<Longrightarrow> went (m + n) s1 s3"
  by (simp add: went_def add.commute)

lemma moved_went: "moved n s s' \<Longrightarrow> went n s s'"
  by (simp add: moved_def went_def)

lemma went_updates [simp]:
  "went n s (s'\<lparr>last_tag := t\<rparr>) = went n s s'" "went n s (s'\<lparr>legitimate_message_end := e\<rparr>) = went n s s'"
  by (simp_all add: went_def)

lemma went_ready: "went n s s' \<Longrightarrow> ready s \<Longrightarrow> ready s'"
  by (simp add: went_def ready_def)

lemma ready_wf: "ready s \<Longrightarrow> cis_wf s"
  by (simp add: ready_def)

lemma went_avail:
  assumes "went n s s'"
  shows "avail s' = drop n (avail s)"
proof -
  have "nat (closest s - (CurrentPosition s + int n)) = nat (closest s - CurrentPosition s) - n" by linarith
  then show ?thesis using assms by (simp add: went_def avail_def closest_def drop_take)
qed

lemma wf_position: "cis_wf s \<Longrightarrow> CurrentPosition s \<le> closest s"
  by (auto simp: cis_wf_def CurrentPosition_def BufferSize_def)

text \<open>A computation that returns, and when it succeeds has gone forward.\<close>

definition adv :: "CodedInputStream \<Rightarrow> bool \<times> 'a \<Rightarrow> CodedInputStream \<Rightarrow> bool" where
  "adv s r s' \<longleftrightarrow> (fst r \<longrightarrow> (\<exists>n \<le> length (avail s). went n s s'))"

definition safe :: "(bool \<times> 'a) cis \<Rightarrow> CodedInputStream \<Rightarrow> bool" where
  "safe m s \<longleftrightarrow> mwp m (adv s) (\<lambda>_. False) s"

lemma safe_then:
  assumes "went n s s1" "n \<le> length (avail s)" "safe m s1"
  shows "mwp m (adv s) (\<lambda>_. False) s1"
proof (rule mwp_mono [OF assms(3) [unfolded safe_def]])
  fix r s'
  assume "adv s1 r s'"
  then show "adv s r s'"
    using assms(1,2) went_trans [OF assms(1)] went_avail [OF assms(1)]
    unfolding adv_def by (metis add_leD1 add_mono diff_add_inverse le_add_diff_inverse length_drop nat_add_left_cancel_le)
qed simp

lemma reads_mwp:
  assumes "reads m p s" "\<And>s' n. went n s s' \<Longrightarrow> n \<le> length (avail s) \<Longrightarrow>
      (\<And>v rest. p (avail s) = Some (v, rest) \<Longrightarrow> avail s' = rest) \<Longrightarrow> Q (map_option fst (p (avail s))) s'"
  shows "mwp m Q E s"
proof (rule readsE [OF assms(1)])
  fix s' n
  assume r: "m s = Inr (map_option fst (p (avail s)), s')" "moved n s s'" "n \<le> length (avail s)"
    and rest: "\<And>v rest. p (avail s) = Some (v, rest) \<Longrightarrow> avail s' = rest"
  have "Q (map_option fst (p (avail s))) s'" by (rule assms(2) [OF moved_went [OF r(2)] r(3) rest])
  then show ?thesis by (simp add: mwp_def r(1))
qed

lemma ReadTag_mwp:
  assumes "cis_wf s"
    and "\<And>s1 n. went n s s1 \<Longrightarrow> n \<le> length (avail s) \<Longrightarrow> (tag_parse (avail s) \<noteq> 0 \<Longrightarrow> 0 < n) \<Longrightarrow> Q (tag_parse (avail s)) s1"
  shows "mwp ReadTag Q E s"
proof (rule ReadTag_ok [OF assms(1)])
  fix s1 e n
  assume r: "ReadTag s = Inr (tag_parse (avail s), s1\<lparr>last_tag := tag_parse (avail s), legitimate_message_end := e\<rparr>)"
    "moved n s s1" "n \<le> length (avail s)" "tag_parse (avail s) \<noteq> 0 \<longrightarrow> 0 < n"
  have "Q (tag_parse (avail s)) (s1\<lparr>last_tag := tag_parse (avail s), legitimate_message_end := e\<rparr>)"
    by (rule assms(2) [OF _ r(3)]) (use moved_went [OF r(2)] r(4) in simp_all)
  then show ?thesis by (simp add: mwp_def r(1))
qed

lemma ReadString_mwp:
  assumes "cis_wf s" "\<And>str s' n. went n s s' \<Longrightarrow> n \<le> length (avail s) \<Longrightarrow> Q (True, str) s'" "\<And>str s'. Q (False, str) s'"
  shows "mwp (CIS_ReadString sz) Q E s"
proof (cases "sz < 0")
  case True
  then show ?thesis using assms(3) by (simp add: CIS_ReadString_def wp_simps)
next
  case False
  then obtain s' where r: "InternalReadStringInline sz s = Inr ((nat sz \<le> length (avail s), take (nat sz) (avail s)), s')"
    "moved (min (nat sz) (length (avail s))) s s'"
    using InternalReadString_ok [OF assms(1), of sz] by auto
  have "Q (nat sz \<le> length (avail s), take (nat sz) (avail s)) s'"
    using assms(2) [OF moved_went [OF r(2)]] assms(3) by (cases "nat sz \<le> length (avail s)") auto
  then show ?thesis using False r(1) by (simp add: CIS_ReadString_def mwp_def)
qed

text \<open>One level of recursion down, on a computation that goes forward.\<close>

lemma IncrementDepth_mwp:
  assumes "\<And>s'. s' = s\<lparr>recursion_depth := recursion_depth s + 1\<rparr> \<Longrightarrow> Q True s'" "\<And>s'. Q False s'"
  shows "mwp IncrementDepth Q E s"
  using assms by (cases "recursion_depth s + 1 \<le> recursion_limit s") (simp_all add: mwp_def IncrementDepth_def IncrementRecursionDepth_def)

lemma down_and_up:
  assumes "went n (s\<lparr>recursion_depth := recursion_depth s + 1\<rparr>) s'" "0 \<le> recursion_depth s"
  shows "went n s (DecrementRecursionDepth s')"
  using assms by (auto simp: went_def DecrementRecursionDepth_def)

lemma ready_down: "ready s \<Longrightarrow> ready (s\<lparr>recursion_depth := recursion_depth s + 1\<rparr>)"
  by (simp add: ready_def)

lemma safe_mbind:
  assumes "safe m s" "\<And>x s' n. went n s s' \<Longrightarrow> n \<le> length (avail s) \<Longrightarrow> safe (k x) s'"
  shows "safe (mbind m (\<lambda>(ok, x). if \<not> ok then mreturn (False, f x) else k x)) s"
  unfolding safe_def mwp_bind
proof (rule mwp_mono [OF assms(1) [unfolded safe_def]])
  fix r :: "bool \<times> 'a" and s'
  assume r: "adv s r s'"
  obtain ok x where [simp]: "r = (ok, x)" by (cases r)
  show "mwp (case r of (ok, x) \<Rightarrow> if \<not> ok then mreturn (False, f x) else k x) (adv s) (\<lambda>_. False) s'"
  proof (cases ok)
    case True
    then obtain n where n: "went n s s'" "n \<le> length (avail s)" using r by (auto simp: adv_def)
    then show ?thesis using True safe_then [OF n assms(2) [OF n]] by simp
  qed (simp add: wp_simps adv_def)
qed simp

section \<open>Loops over tags\<close>

text \<open>
  The contract of a loop over tags, which \<^verbatim>\<open>SkipMessage\<close> and \<^verbatim>\<open>ParseAndMergePartial\<close> share: it ends at the
  end of the input or at an end tag, and otherwise handles one field and goes on.
\<close>

locale tag_loop =
  fixes run :: "nat \<Rightarrow> 'a \<Rightarrow> (bool \<times> 'a) cis"
    and field :: "nat \<Rightarrow> 32 word \<Rightarrow> 'a \<Rightarrow> (bool \<times> 'a) cis"
  assumes run_Suc: "run (Suc k) m =
    mbind ReadTag (\<lambda>tag.
      if tag = 0 then mreturn (True, m)
      else if GetTagWireType tag = WIRETYPE_END_GROUP then mreturn (True, m)
      else mbind (field k tag m) (\<lambda>(ok, m'). if \<not> ok then mreturn (False, m') else run k m'))"
begin

lemma run_safe:
  assumes field_safe: "\<And>k s tag m. ready s \<Longrightarrow> length (avail s) < k \<Longrightarrow>
    (\<And>m' s'. ready s' \<Longrightarrow> length (avail s') \<le> length (avail s) \<Longrightarrow> safe (run k m') s') \<Longrightarrow> safe (field k tag m) s"
  shows "ready s \<Longrightarrow> length (avail s) < k \<Longrightarrow> safe (run k m) s"
proof (induction k arbitrary: m s)
  case (Suc k)
  show ?case
    unfolding safe_def run_Suc mwp_bind
  proof (rule ReadTag_mwp [OF ready_wf [OF Suc.prems(1)]])
    fix s1 n
    assume s1: "went n s s1" "n \<le> length (avail s)" "tag_parse (avail s) \<noteq> 0 \<Longrightarrow> 0 < n"
    let ?tag = "tag_parse (avail s)"
    let ?rest = "mbind (field k ?tag m) (\<lambda>(ok, m'). if \<not> ok then mreturn (False, m') else run k m')"
    have "mwp ?rest (adv s) (\<lambda>_. False) s1" if "?tag \<noteq> 0"
    proof (rule safe_then [OF s1(1,2)])
      have less: "length (avail s1) < k" using went_avail [OF s1(1)] s1(2,3) that Suc.prems(2) by auto
      have ready: "ready s1" by (rule went_ready [OF s1(1) Suc.prems(1)])
      show "safe ?rest s1"
      proof (rule safe_mbind)
        show "safe (field k ?tag m) s1" by (rule field_safe [OF ready less]) (use less in \<open>auto intro: Suc.IH\<close>)
        fix m' s' n'
        assume "went n' s1 s'" "n' \<le> length (avail s1)"
        then show "safe (run k m') s'" using less went_avail [of n' s1 s'] by (intro Suc.IH went_ready [OF _ ready]) auto
      qed
    qed
    then show "mwp (if ?tag = 0 then mreturn (True, m) else if GetTagWireType ?tag = WIRETYPE_END_GROUP then mreturn (True, m)
        else ?rest) (adv s) (\<lambda>_. False) s1"
      using s1(1,2) by (auto simp: wp_simps adv_def)
  qed
qed simp

end

interpretation skip: tag_loop SkipMessage "\<lambda>k. SkipField (SkipMessage k)"
  by unfold_locales simp

interpretation parse: tag_loop "ParseAndMergePartial D"
    "\<lambda>k tag m. ParseAndMergeField k (ParseAndMergePartial D k) tag (FindFieldByNumber D (msg_type m) (GetTagFieldNumber tag)) m"
  for D :: "'m pool"
  by unfold_locales (simp only: ParseAndMergePartial.simps Let_def)

section \<open>Skipping\<close>

lemma SkipField_safe:
  assumes "ready s" "\<And>us s'. ready s' \<Longrightarrow> length (avail s') \<le> length (avail s) \<Longrightarrow> safe (skip us) s'"
  shows "safe (SkipField skip tag us) s"
proof -
  have wf: "cis_wf s" using assms(1) by (rule ready_wf)
  show ?thesis
  proof (cases "GetTagWireType tag")
    case WIRETYPE_VARINT
    then show ?thesis
      by (auto simp: safe_def SkipField_def wp_simps Let_def adv_def intro!: reads_mwp [OF ReadVarint64_reads [OF wf]] split: option.split)
  next
    case WIRETYPE_FIXED64
    then show ?thesis
      by (auto simp: safe_def SkipField_def wp_simps Let_def adv_def intro!: reads_mwp [OF ReadLittleEndian64_reads [OF wf]] split: option.split)
  next
    case WIRETYPE_FIXED32
    then show ?thesis
      by (auto simp: safe_def SkipField_def wp_simps Let_def adv_def intro!: reads_mwp [OF ReadLittleEndian32_reads [OF wf]] split: option.split)
  next
    case WIRETYPE_LENGTH_DELIMITED
    show ?thesis
      unfolding safe_def SkipField_def Let_def WIRETYPE_LENGTH_DELIMITED WireType.case mwp_bind
    proof (rule reads_mwp [OF ReadVarint32_reads [OF wf]])
      fix s1 n
      assume s1: "went n s s1" "n \<le> length (avail s)"
      have "mwp (mbind (CIS_ReadString sz) (\<lambda>(ok, str). mreturn (ok, us' str))) (adv s) (\<lambda>_. False) s1" for sz us'
        by (rule safe_then [OF s1])
          (auto simp: safe_def wp_simps adv_def intro!: ReadString_mwp went_ready [OF s1(1) assms(1), THEN ready_wf])
      then show "mwp (case map_option fst (varint_parse (avail s)) of None \<Rightarrow> mreturn (False, us)
          | Some len \<Rightarrow> mbind (CIS_ReadString (sint len)) (\<lambda>(ok, str). mreturn (ok, us @ [ULengthDelimited (GetTagFieldNumber tag) str])))
          (adv s) (\<lambda>_. False) s1"
        by (auto simp: wp_simps adv_def split: option.split)
    qed
  next
    case WIRETYPE_START_GROUP
    let ?s1 = "s\<lparr>recursion_depth := recursion_depth s + 1\<rparr>"
    have "safe (skip []) ?s1" by (rule assms(2) [OF ready_down [OF assms(1)]]) simp
    then have sk: "mwp (skip []) (adv ?s1) (\<lambda>_. False) ?s1" by (simp add: safe_def)
    show ?thesis
      unfolding safe_def SkipField_def Let_def WIRETYPE_START_GROUP WireType.case mwp_bind
    proof (rule IncrementDepth_mwp)
      fix s1 assume [simp]: "s1 = ?s1"
      show "mwp (if \<not> True then mreturn (False, us) else mbind (skip []) (\<lambda>(ok, grp).
          if \<not> ok then mreturn (False, us @ [UGroup (GetTagFieldNumber tag) grp]) else mseq (mmodify DecrementRecursionDepth)
            (mbind (mgets (LastTagWas (MakeTag (GetTagFieldNumber tag) WIRETYPE_END_GROUP))) (\<lambda>ok.
              mreturn (ok, us @ [UGroup (GetTagFieldNumber tag) grp]))))) (adv s) (\<lambda>_. False) s1"
        using assms(1) by (fastforce simp: wp_simps ready_def adv_def intro!: mwp_mono [OF sk] dest: down_and_up)
    qed (simp add: wp_simps adv_def)
  qed (simp_all add: safe_def SkipField_def wp_simps Let_def adv_def)
qed

lemma SkipMessage_safe: "ready s \<Longrightarrow> length (avail s) < k \<Longrightarrow> safe (SkipMessage k us) s"
  by (rule skip.run_safe) (rule SkipField_safe)

section \<open>Limits around a computation\<close>

text \<open>A length that does not fit in an \<^verbatim>\<open>int\<close> leaves the limit as it is.\<close>

lemma PushLimit_any:
  assumes wf: "cis_wf s"
  obtains s' where "PushLimit b s = (current_limit s, s')" "kept s s'"
    "avail s' = (if 0 \<le> b then take (nat b) (avail s) else avail s)"
proof (cases "0 \<le> b")
  case True
  then show ?thesis using PushLimit_ok [OF wf True wf_position [OF wf]] that by metis
next
  case False
  let ?b = "INT_MAX - CurrentPosition s"
  have len: "int (length (raw s)) \<le> ?b"
    using wf by (auto simp: cis_wf_def raw_def CurrentPosition_def BufferSize_def)
  then have "0 \<le> ?b" by linarith
  then obtain s' where p: "PushLimit ?b s = (current_limit s, s')" "kept s s'" "avail s' = take (nat ?b) (avail s)"
    by (rule PushLimit_ok [OF wf _ wf_position [OF wf]])
  have "length (avail s) \<le> length (raw s)" by (simp add: avail_def)
  then have "take (nat ?b) (avail s) = avail s" using len by simp
  moreover have "PushLimit b s = PushLimit ?b s" using False \<open>0 \<le> ?b\<close> by (simp add: PushLimit_def Let_def)
  ultimately show ?thesis using that p False by simp
qed

lemma kept_ready: "kept s s' \<Longrightarrow> ready s \<Longrightarrow> ready s'"
  by (simp add: kept_def ready_def)

text \<open>What has gone forward under a limit has gone forward once the limit is restored.\<close>

lemma pop_went:
  assumes "cis_wf s" "kept s s1" "went n s1 s2" "n \<le> length (avail s)"
  shows "went n s (PopLimit (current_limit s) s2)"
proof -
  have "cis_wf s2" "raw s2 = drop n (raw s)" "CurrentPosition s2 = CurrentPosition s + int n"
    "total_bytes_limit s2 = total_bytes_limit s" "zc_input s2 = None \<longleftrightarrow> zc_input s = None"
    "recursion_depth s2 = recursion_depth s" "recursion_limit s2 = recursion_limit s"
    using assms(2,3) by (auto simp: kept_def went_def)
  then show ?thesis
    using PopLimit_ok [OF assms(1) wf_position [OF assms(1)], of s2 n] assms(4) by (simp add: went_def)
qed

lemma under_limit:
  assumes ready: "ready s"
    and "\<And>s1. ready s1 \<Longrightarrow> length (avail s1) \<le> length (avail s) \<Longrightarrow> kept s s1 \<Longrightarrow> safe m s1"
    and "\<And>s1 x s2 n. kept s s1 \<Longrightarrow> went n s1 s2 \<Longrightarrow> n \<le> length (avail s) \<Longrightarrow>
      went n s (PopLimit (current_limit s) s2) \<Longrightarrow> mwp (k (current_limit s) x) Q (\<lambda>_. False) s2"
    and "\<And>x s2. Q (False, x) s2"
  shows "mwp (mbind (\<lambda>s. Inr (PushLimit b s)) (\<lambda>limit. mbind m (\<lambda>(ok, x). if \<not> ok then mreturn (False, x) else k limit x)))
    Q (\<lambda>_. False) s"
proof -
  obtain s1 where p: "PushLimit b s = (current_limit s, s1)" "kept s s1"
    "avail s1 = (if 0 \<le> b then take (nat b) (avail s) else avail s)"
    by (rule PushLimit_any [OF ready_wf [OF ready]])
  have len: "length (avail s1) \<le> length (avail s)" using p(3) by simp
  have "mwp m (adv s1) (\<lambda>_. False) s1"
    using assms(2) [OF kept_ready [OF p(2) ready] len p(2)] by (simp add: safe_def)
  then have "mwp (mbind m (\<lambda>(ok, x). if \<not> ok then mreturn (False, x) else k (current_limit s) x)) Q (\<lambda>_. False) s1"
    unfolding mwp_bind
  proof (rule mwp_mono)
    fix r :: "bool \<times> 'a" and s2
    assume r: "adv s1 r s2"
    obtain ok x where [simp]: "r = (ok, x)" by (cases r)
    show "mwp (case r of (ok, x) \<Rightarrow> if \<not> ok then mreturn (False, x) else k (current_limit s) x) Q (\<lambda>_. False) s2"
    proof (cases ok)
      case True
      then obtain n where n: "went n s1 s2" "n \<le> length (avail s1)" using r by (auto simp: adv_def)
      then have "n \<le> length (avail s)" using len by linarith
      then show ?thesis using True assms(3) [OF p(2) n(1)] pop_went [OF ready_wf [OF ready] p(2) n(1)] by simp
    qed (simp add: wp_simps assms(4))
  qed simp
  then show ?thesis by (simp add: mwp_def run_simps p(1))
qed

section \<open>Parsing\<close>

lemma ReadGroup_safe:
  assumes "ready s" "\<And>s'. ready s' \<Longrightarrow> length (avail s') \<le> length (avail s) \<Longrightarrow> safe (merge x) s'"
  shows "safe (ReadGroup merge n x) s"
proof -
  let ?s1 = "s\<lparr>recursion_depth := recursion_depth s + 1\<rparr>"
  have m: "mwp (merge x) (adv ?s1) (\<lambda>_. False) ?s1"
    using assms(2) [OF ready_down [OF assms(1)]] by (simp add: safe_def)
  show ?thesis
    unfolding safe_def ReadGroup_def mwp_bind
  proof (rule IncrementDepth_mwp)
    fix s1 assume [simp]: "s1 = ?s1"
    show "mwp (if \<not> True then mreturn (False, x) else mbind (merge x) (\<lambda>(ok, x'). if \<not> ok then mreturn (False, x')
        else mseq (mmodify DecrementRecursionDepth)
          (mbind (mgets (LastTagWas (MakeTag n WIRETYPE_END_GROUP))) (\<lambda>ok. mreturn (ok, x'))))) (adv s) (\<lambda>_. False) s1"
      using assms(1) by (fastforce simp: wp_simps ready_def adv_def intro!: mwp_mono [OF m] dest: down_and_up)
  qed (simp add: wp_simps adv_def)
qed

lemma ReadMessage_safe:
  assumes "ready s" "\<And>s'. ready s' \<Longrightarrow> length (avail s') \<le> length (avail s) \<Longrightarrow> safe (merge x) s'"
  shows "safe (ReadMessage merge x) s"
  unfolding safe_def ReadMessage_def mwp_bind
proof (rule reads_mwp [OF ReadVarint32_reads [OF ready_wf [OF assms(1)]]])
  fix s1 n
  assume s1: "went n s s1" "n \<le> length (avail s)"
  let ?s2 = "s1\<lparr>recursion_depth := recursion_depth s1 + 1\<rparr>"
  have ready1: "ready s1" by (rule went_ready [OF s1(1) assms(1)])
  have "safe (mbind IncrementDepth (\<lambda>ok. if \<not> ok then mreturn (False, x) else
      mbind (\<lambda>s. Inr (PushLimit b s)) (\<lambda>limit.
      mbind (merge x) (\<lambda>(ok, x'). if \<not> ok then mreturn (False, x') else
      mbind (mgets ConsumedEntireMessage) (\<lambda>ok. if \<not> ok then mreturn (False, x') else
      mseq (mmodify (PopLimit limit)) (mseq (mmodify DecrementRecursionDepth) (mreturn (True, x')))))))) s1" for b
    unfolding safe_def mwp_bind
  proof (rule IncrementDepth_mwp)
    fix s2 assume s2: "s2 = ?s2"
    have "mwp (mbind (\<lambda>s. Inr (PushLimit b s)) (\<lambda>limit.
        mbind (merge x) (\<lambda>(ok, x'). if \<not> ok then mreturn (False, x') else
        mbind (mgets ConsumedEntireMessage) (\<lambda>ok. if \<not> ok then mreturn (False, x') else
        mseq (mmodify (PopLimit limit)) (mseq (mmodify DecrementRecursionDepth) (mreturn (True, x')))))))
        (adv s1) (\<lambda>_. False) ?s2"
    proof (rule under_limit [OF ready_down [OF ready1]])
      fix s3
      assume "ready s3" "length (avail s3) \<le> length (avail ?s2)"
      then show "safe (merge x) s3" using went_avail [OF s1(1)] by (intro assms(2)) auto
    next
      fix s3 s4 x' n'
      assume n: "n' \<le> length (avail ?s2)" "went n' ?s2 (PopLimit (current_limit ?s2) s4)"
      then have "went n' s1 (DecrementRecursionDepth (PopLimit (current_limit ?s2) s4))"
        using down_and_up [OF n(2)] ready1 by (simp add: ready_def)
      then show "mwp (mbind (mgets ConsumedEntireMessage) (\<lambda>ok. if \<not> ok then mreturn (False, x') else
          mseq (mmodify (PopLimit (current_limit ?s2))) (mseq (mmodify DecrementRecursionDepth) (mreturn (True, x')))))
          (adv s1) (\<lambda>_. False) s4"
        using n(1) by (auto simp: wp_simps adv_def)
    qed (simp add: adv_def)
    then show "mwp (if \<not> True then mreturn (False, x) else mbind (\<lambda>s. Inr (PushLimit b s)) (\<lambda>limit.
        mbind (merge x) (\<lambda>(ok, x'). if \<not> ok then mreturn (False, x') else
        mbind (mgets ConsumedEntireMessage) (\<lambda>ok. if \<not> ok then mreturn (False, x') else
        mseq (mmodify (PopLimit limit)) (mseq (mmodify DecrementRecursionDepth) (mreturn (True, x')))))))
        (adv s1) (\<lambda>_. False) s2" by (simp add: s2)
  qed (simp add: wp_simps adv_def)
  from safe_then [OF s1 this] show "mwp (case map_option fst (varint_parse (avail s)) of None \<Rightarrow> mreturn (False, x) | Some len \<Rightarrow>
      mbind IncrementDepth (\<lambda>ok. if \<not> ok then mreturn (False, x) else
      mbind (\<lambda>s. Inr (PushLimit (sint len) s)) (\<lambda>limit.
      mbind (merge x) (\<lambda>(ok, x'). if \<not> ok then mreturn (False, x') else
      mbind (mgets ConsumedEntireMessage) (\<lambda>ok. if \<not> ok then mreturn (False, x') else
      mseq (mmodify (PopLimit limit)) (mseq (mmodify DecrementRecursionDepth) (mreturn (True, x'))))))))
      (adv s) (\<lambda>_. False) s1"
    by (auto simp: wp_simps adv_def split: option.split)
qed

lemma fixed_parse_shorter: "0 < n \<Longrightarrow> fixed_parse n f bs = Some (v, rest) \<Longrightarrow> length rest < length bs"
  by (auto simp: fixed_parse_def split: if_splits sum.splits)

lemma varint_parse_shorter: "varint_parse bs = Some (v, rest) \<Longrightarrow> length rest < length bs"
  by (auto simp: varint_parse_def dest: varint_read_shorter)

lemma prim_parse_shorter: "prim_parse type bs = Some (v, rest) \<Longrightarrow> length rest < length bs"
  by (auto simp: prim_parse_def dest: fixed_parse_shorter [rotated] varint_parse_shorter split: WireType.splits)

lemma ReadPrimitive_mwp:
  assumes "cis_wf s" "primitive type"
    and "\<And>s' n. went n s s' \<Longrightarrow> n \<le> length (avail s) \<Longrightarrow> Q None s'"
    and "\<And>v s' n. went n s s' \<Longrightarrow> n \<le> length (avail s) \<Longrightarrow> length (avail s') < length (avail s) \<Longrightarrow> Q (Some v) s'"
  shows "mwp (ReadPrimitive type) Q E s"
proof (rule reads_mwp [OF ReadPrimitive_reads [OF assms(1,2)]])
  fix s' n
  assume s': "went n s s'" "n \<le> length (avail s)" "\<And>v rest. prim_parse type (avail s) = Some (v, rest) \<Longrightarrow> avail s' = rest"
  show "Q (map_option fst (prim_parse type (avail s))) s'"
  proof (cases "prim_parse type (avail s)")
    case None
    then show ?thesis using assms(3) [OF s'(1,2)] by simp
  next
    case (Some p)
    then show ?thesis using assms(4) [OF s'(1,2)] s'(3) [of "fst p" "snd p"] prim_parse_shorter [of type "avail s" "fst p" "snd p"]
      by simp
  qed
qed

lemma ReadPacked_safe:
  "ready s \<Longrightarrow> primitive (fd_type f) \<Longrightarrow> length (avail s) < k \<Longrightarrow> safe (ReadPacked k f m) s"
proof (induction k arbitrary: m s)
  case (Suc k)
  have "mwp (ReadPrimitive (fd_type f)) (\<lambda>r. mwp (case r of None \<Rightarrow> mreturn (False, m) | Some v \<Rightarrow> ReadPacked k f (packed_value f v m))
      (adv s) (\<lambda>_. False)) (\<lambda>_. False) s"
  proof (rule ReadPrimitive_mwp [OF ready_wf [OF Suc.prems(1)] Suc.prems(2)])
    fix v s' n
    assume s': "went n s s'" "n \<le> length (avail s)" "length (avail s') < length (avail s)"
    have "safe (ReadPacked k f (packed_value f v m)) s'"
      by (rule Suc.IH [OF went_ready [OF s'(1) Suc.prems(1)] Suc.prems(2)]) (use s' Suc.prems(3) in simp)
    then show "mwp (case Some v of None \<Rightarrow> mreturn (False, m) | Some v \<Rightarrow> ReadPacked k f (packed_value f v m)) (adv s) (\<lambda>_. False) s'"
      using safe_then [OF s'(1,2)] by simp
  qed (simp add: wp_simps adv_def)
  then show ?case
    using went_refl [OF ready_wf [OF Suc.prems(1)]] by (auto simp: safe_def wp_simps adv_def)
qed simp

lemma ReadString_field_safe:
  assumes "ready s"
  shows "safe (mbind WFL_ReadString (\<lambda>(ok, str). mreturn (if ok then (True, g str) else (False, m)))) s"
  unfolding safe_def WFL_ReadString_def mwp_bind
proof (rule reads_mwp [OF ReadVarint32_reads [OF ready_wf [OF assms]]])
  fix s1 n
  assume s1: "went n s s1" "n \<le> length (avail s)"
  have wf1: "cis_wf s1" using went_ready [OF s1(1) assms] by (rule ready_wf)
  have "mwp (mbind (InternalReadStringInline sz) (\<lambda>(ok, str). mreturn (if ok then (True, g str) else (False, m)))) (adv s) (\<lambda>_. False) s1" for sz
  proof (rule safe_then [OF s1], unfold safe_def mwp_bind, cases "sz < 0")
    case False
    then have "InternalReadStringInline sz = CIS_ReadString sz" by (simp add: CIS_ReadString_def)
    then show "mwp (InternalReadStringInline sz) (\<lambda>x. mwp (case x of (ok, str) \<Rightarrow> mreturn (if ok then (True, g str) else (False, m)))
        (adv s1) (\<lambda>_. False)) (\<lambda>_. False) s1"
      by (auto simp: wp_simps adv_def intro!: ReadString_mwp [OF wf1])
  qed (simp add: InternalReadStringInline_def wp_simps adv_def)
  then show "mwp (case map_option fst (varint_parse (avail s)) of None \<Rightarrow> mreturn (False, []) | Some len \<Rightarrow> InternalReadStringInline (sint len))
      (\<lambda>x. mwp (case x of (ok, str) \<Rightarrow> mreturn (if ok then (True, g str) else (False, m))) (adv s) (\<lambda>_. False)) (\<lambda>_. False) s1"
    by (auto simp: wp_simps adv_def split: option.split)
qed

lemma safe_map:
  assumes "safe m s"
  shows "safe (mbind m (\<lambda>(ok, x). mreturn (ok, f x))) s"
  using assms unfolding safe_def mwp_bind by (rule mwp_mono) (auto simp: wp_simps adv_def)

lemma ReadNormal_safe:
  assumes "ready s" "\<And>x s'. ready s' \<Longrightarrow> length (avail s') \<le> length (avail s) \<Longrightarrow> safe (merge x) s'"
  shows "safe (ReadNormal merge tag f m) s"
proof -
  have "safe (mbind (ReadPrimitive type) (\<lambda>r. mreturn (case r of None \<Rightarrow> (False, m) | Some v \<Rightarrow> (True, g v)))) s"
    if "primitive type" for type g
    unfolding safe_def mwp_bind
    by (rule ReadPrimitive_mwp [OF ready_wf [OF assms(1)] that]) (auto simp: wp_simps adv_def)
  then show ?thesis
    using ReadString_field_safe [OF assms(1)] safe_map [OF ReadGroup_safe [OF assms]] safe_map [OF ReadMessage_safe [OF assms]]
    by (cases "fd_type f") (simp_all add: ReadNormal_def)
qed

lemma IsTypePackable_primitive: "IsTypePackable type = primitive type"
  by (cases type) (simp_all add: IsTypePackable_def)

lemma ParseAndMergeField_safe:
  assumes "ready s" "length (avail s) < k"
    and "\<And>x s'. ready s' \<Longrightarrow> length (avail s') \<le> length (avail s) \<Longrightarrow> safe (merge x) s'"
  shows "safe (ParseAndMergeField k merge tag field m) s"
proof -
  have unknown: "safe (mbind (SkipField (SkipMessage k) tag (msg_unknown m)) (\<lambda>(ok, us). mreturn (ok, put_unknown m us))) s"
    by (rule safe_map [OF SkipField_safe [OF assms(1)]]) (use assms(2) in \<open>auto intro: SkipMessage_safe\<close>)
  have packed: "safe (mbind ReadVarint32 (\<lambda>r. case r of None \<Rightarrow> mreturn (False, m) | Some len \<Rightarrow>
            mbind (\<lambda>s. Inr (PushLimit (sint len) s)) (\<lambda>limit.
            mbind (ReadPacked k f m) (\<lambda>(ok, m'). if \<not> ok then mreturn (False, m') else
            mseq (mmodify (PopLimit limit)) (mreturn (True, m')))))) s" if "primitive (fd_type f)" for f
    unfolding safe_def mwp_bind
  proof (rule reads_mwp [OF ReadVarint32_reads [OF ready_wf [OF assms(1)]]])
    fix s1 n
    assume s1: "went n s s1" "n \<le> length (avail s)"
    have ready1: "ready s1" by (rule went_ready [OF s1(1) assms(1)])
    have "mwp (mbind (\<lambda>s. Inr (PushLimit b s)) (\<lambda>limit. mbind (ReadPacked k f m) (\<lambda>(ok, m'). if \<not> ok then mreturn (False, m') else
        mseq (mmodify (PopLimit limit)) (mreturn (True, m'))))) (adv s1) (\<lambda>_. False) s1" for b
    proof (rule under_limit [OF ready1])
      fix s2
      assume "ready s2" "length (avail s2) \<le> length (avail s1)"
      then show "safe (ReadPacked k f m) s2"
        using went_avail [OF s1(1)] assms(2) that by (intro ReadPacked_safe) auto
    qed (auto simp: wp_simps adv_def went_avail [OF s1(1)])
    from safe_then [OF s1 this [folded safe_def]]
    show "mwp (case map_option fst (varint_parse (avail s)) of None \<Rightarrow> mreturn (False, m) | Some len \<Rightarrow>
          mbind (\<lambda>s. Inr (PushLimit (sint len) s)) (\<lambda>limit. mbind (ReadPacked k f m) (\<lambda>(ok, m'). if \<not> ok then mreturn (False, m') else
          mseq (mmodify (PopLimit limit)) (mreturn (True, m'))))) (adv s) (\<lambda>_. False) s1"
      by (auto simp: wp_simps adv_def split: option.split)
  qed
  show ?thesis
    using unknown packed ReadNormal_safe [OF assms(1,3)]
    by (auto simp: ParseAndMergeField_def Let_def is_packable_def IsTypePackable_primitive split: option.split)
qed

lemma ParseAndMergePartial_safe: "ready s \<Longrightarrow> length (avail s) < k \<Longrightarrow> safe (ParseAndMergePartial D k m) s"
  by (rule parse.run_safe) (rule ParseAndMergeField_safe)

end
