(* ===== verification/Wire_Round_Trip.thy ===== *)
theory Wire_Round_Trip
  imports Wire_Bytes Wire_Parse
begin

text \<open>
  Parsing what was serialised: reading the bytes of a message, field by field, rebuilds it, unknown fields
  included, and leaves what follows.
\<close>

section \<open>Reading known bytes\<close>

lemma reads_bytes:
  assumes "reads m p s" "avail s = bs @ rest" "p (bs @ rest) = Some (v, rest)"
  obtains s' where "m s = Inr (Some v, s')" "went (length bs) s s'"
proof (rule readsE [OF assms(1)])
  fix s' n
  assume r: "m s = Inr (map_option fst (p (avail s)), s')" "moved n s s'" "n \<le> length (avail s)"
    "\<And>v rest. p (avail s) = Some (v, rest) \<Longrightarrow> avail s' = rest"
  then have "drop n (bs @ rest) = rest" using assms(2,3) moved_avail [OF r(2)] by simp
  then have "length (drop n (bs @ rest)) = length rest" by simp
  then have "n = length bs" using r(3) assms(2) by simp
  then show thesis using that [of s'] r(1,2) assms(2,3) moved_went by simp
qed

lemma went_rest: "went (length bs) s s' \<Longrightarrow> avail s = bs @ rest \<Longrightarrow> avail s' = rest"
  by (simp add: went_avail)

lemma ReadTag_bytes:
  assumes "cis_wf s" "avail s = tag_bytes n w @ rest"
  obtains s' where "ReadTag s = Inr (MakeTag n w, s')" "went (length (tag_bytes n w)) s s'" "last_tag s' = MakeTag n w"
proof (rule ReadTag_ok [OF assms(1)])
  fix s1 e k
  assume r: "ReadTag s = Inr (tag_parse (avail s), s1\<lparr>last_tag := tag_parse (avail s), legitimate_message_end := e\<rparr>)"
    "moved k s s1" "k \<le> length (avail s)"
    and rest: "\<And>v rest. varint_parse (avail s) = Some (v :: 32 word, rest) \<Longrightarrow> avail s1 = rest"
  have p: "varint_parse (avail s) = Some (MakeTag n w, rest)"
    using varint_parse_word32 by (simp add: assms(2) tag_bytes_def)
  have "drop k (avail s) = rest" using rest [OF p] moved_avail [OF r(2)] by simp
  then have "length (drop k (avail s)) = length rest" by simp
  then have "k = length (tag_bytes n w)" using r(3) assms(2) by simp
  then show thesis
    using that [of "s1\<lparr>last_tag := tag_parse (avail s), legitimate_message_end := e\<rparr>"] r(1,2) p moved_went
    by (simp add: tag_parse_def)
qed

lemma ReadTag_end:
  assumes "cis_wf s" "avail s = []" "CurrentPosition s < total_bytes_limit s"
  obtains s' where "ReadTag s = Inr (0, s')" "went 0 s s'" "legitimate_message_end s'"
proof (rule ReadTag_ok [OF assms(1)])
  fix s1 e k
  assume r: "ReadTag s = Inr (tag_parse (avail s), s1\<lparr>last_tag := tag_parse (avail s), legitimate_message_end := e\<rparr>)"
    "moved k s s1" "k \<le> length (avail s)" "avail s = [] \<and> CurrentPosition s < total_bytes_limit s \<longrightarrow> e"
  then show thesis
    using that [of "s1\<lparr>last_tag := 0, legitimate_message_end := e\<rparr>"] assms moved_went [of 0 s s1]
    by (simp add: tag_parse_def)
qed

lemma ReadString_bytes:
  assumes "cis_wf s" "avail s = varint (length str) @ str @ rest" "length str < 2 ^ 31"
  shows "\<exists>s1 s'. ReadVarint32 s = Inr (Some (of_nat (length str)), s1)
    \<and> InternalReadStringInline (sint (of_nat (length str) :: 32 word)) s1 = Inr ((True, str), s')
    \<and> went (length (varint (length str) @ str)) s s'"
proof -
  have "varint_parse (varint (length str) @ str @ rest) = Some (of_nat (length str) :: 32 word, str @ rest)"
    using assms(3) by (intro varint_parse_bytes) simp
  then obtain s1 where s1: "ReadVarint32 s = Inr (Some (of_nat (length str)), s1)" "went (length (varint (length str))) s s1"
    by (rule reads_bytes [OF ReadVarint32_reads [OF assms(1)] assms(2)])
  have av: "avail s1 = str @ rest" by (rule went_rest [OF s1(2) assms(2)])
  have sz: "sint (of_nat (length str) :: 32 word) = int (length str)"
    using assms(3) by (simp add: signed_of_nat signed_take_bit_int_eq_self)
  obtain s' where "InternalReadStringInline (int (length str)) s1 = Inr ((True, str), s')" "moved (length str) s1 s'"
    using InternalReadString_ok [of s1 "int (length str)"] s1(2) av by (auto simp: went_def)
  then show ?thesis using s1 went_trans [OF s1(2) moved_went] by (fastforce simp: sz)
qed

section \<open>Steps of the parser\<close>

text \<open>
  \<open>fits d s\<close>: the stream can go \<open>d\<close> levels down, and ends before the cap on the total size.
\<close>

definition fits :: "nat \<Rightarrow> CodedInputStream \<Rightarrow> bool" where
  "fits d s \<longleftrightarrow> ready s \<and> recursion_depth s + int d \<le> recursion_limit s
     \<and> CurrentPosition s + int (length (avail s)) < total_bytes_limit s \<and> total_bytes_limit s \<le> INT_MAX"

lemma fits_wf: "fits d s \<Longrightarrow> cis_wf s"
  by (simp add: fits_def ready_def)

lemma fits_went: "fits d s \<Longrightarrow> went n s s' \<Longrightarrow> n \<le> length (avail s) \<Longrightarrow> fits d s'"
  using went_avail [of n s s'] went_ready [of n s s'] by (auto simp: fits_def went_def)

lemma fits_bytes: "fits d s \<Longrightarrow> went (length bs) s s' \<Longrightarrow> avail s = bs @ rest \<Longrightarrow> fits d s'"
  by (rule fits_went) auto

lemma fits_down: "fits (Suc d) s \<Longrightarrow> fits d (s\<lparr>recursion_depth := recursion_depth s + 1\<rparr>)"
  by (simp add: fits_def ready_def)

lemma fits_kept: "fits d s \<Longrightarrow> kept s s' \<Longrightarrow> length (avail s') \<le> length (avail s) \<Longrightarrow> fits d s'"
  using kept_ready [of s s'] by (auto simp: fits_def kept_def)

lemma IncrementDepth_ok: "fits (Suc d) s \<Longrightarrow> IncrementDepth s = Inr (True, s\<lparr>recursion_depth := recursion_depth s + 1\<rparr>)"
  by (simp add: fits_def IncrementDepth_def IncrementRecursionDepth_def)

lemma tag_pos: "0 < length (tag_bytes n w)"
  by (simp add: tag_bytes_def varint.simps)

text \<open>
  \<open>feeds run d bs m m'\<close>: having read the bytes \<open>bs\<close>, the loop \<open>run\<close> goes on with \<open>m'\<close> instead of \<open>m\<close>. The fuel
  stays above the number of bytes that are left.
\<close>

definition feeds :: "(nat \<Rightarrow> 'a \<Rightarrow> (bool \<times> 'a) cis) \<Rightarrow> nat \<Rightarrow> byte list \<Rightarrow> 'a \<Rightarrow> 'a \<Rightarrow> bool" where
  "feeds run d bs m m' \<longleftrightarrow>
     (\<forall>k s rest. fits d s \<longrightarrow> avail s = bs @ rest \<longrightarrow> length (avail s) < k \<longrightarrow>
       (\<exists>k' s'. run k m s = run k' m' s' \<and> went (length bs) s s' \<and> length rest < k'))"

lemma feedsE:
  assumes "feeds run d bs m m'" "fits d s" "avail s = bs @ rest" "length (avail s) < k"
  obtains k' s' where "run k m s = run k' m' s'" "went (length bs) s s'" "length rest < k'"
  using assms unfolding feeds_def by blast

lemma feeds_refl: "feeds run d [] m m"
  unfolding feeds_def by (auto intro: went_refl fits_wf)

lemma feeds_trans:
  assumes "feeds run d xs m1 m2" "feeds run d ys m2 m3"
  shows "feeds run d (xs @ ys) m1 m3"
  unfolding feeds_def
proof (intro allI impI)
  fix k s rest
  assume s: "fits d s" "avail s = (xs @ ys) @ rest" "length (avail s) < k"
  then have av: "avail s = xs @ ys @ rest" by simp
  obtain k1 s1 where 1: "run k m1 s = run k1 m2 s1" "went (length xs) s s1" "length (ys @ rest) < k1"
    by (rule feedsE [OF assms(1) s(1) av s(3)])
  have av1: "avail s1 = ys @ rest" by (rule went_rest [OF 1(2) av])
  obtain k2 s2 where 2: "run k1 m2 s1 = run k2 m3 s2" "went (length ys) s1 s2" "length rest < k2"
    by (rule feedsE [OF assms(2) fits_bytes [OF s(1) 1(2) av] av1]) (use 1(3) av1 in auto)
  show "\<exists>k' s'. run k m1 s = run k' m3 s' \<and> went (length (xs @ ys)) s s' \<and> length rest < k'"
    using 1 2 went_trans [OF 1(2) 2(2)] by auto
qed

section \<open>Loops over tags\<close>

context tag_loop begin

lemma step:
  assumes n: "number_ok n" and w: "w \<noteq> WIRETYPE_END_GROUP"
    and one: "\<And>k s rest. fits d s \<Longrightarrow> avail s = bs @ rest \<Longrightarrow> length (avail s) < k \<Longrightarrow>
      \<exists>s'. field k (MakeTag n w) m s = Inr ((True, m'), s') \<and> went (length bs) s s'"
  shows "feeds run d (tag_bytes n w @ bs) m m'"
  unfolding feeds_def
proof (intro allI impI)
  fix k s rest
  assume s: "fits d s" "avail s = (tag_bytes n w @ bs) @ rest" "length (avail s) < k"
  then obtain j where k: "k = Suc j" by (cases k) auto
  have av: "avail s = tag_bytes n w @ bs @ rest" using s(2) by simp
  obtain s1 where 1: "ReadTag s = Inr (MakeTag n w, s1)" "went (length (tag_bytes n w)) s s1"
    by (rule ReadTag_bytes [OF fits_wf [OF s(1)] av])
  have av1: "avail s1 = bs @ rest" by (rule went_rest [OF 1(2) av])
  have less: "length (avail s1) < j" using s(3) av av1 k tag_pos [of n w] by (simp del: length_greater_0_conv)
  obtain s2 where 2: "field j (MakeTag n w) m s1 = Inr ((True, m'), s2)" "went (length bs) s1 s2"
    using one [OF fits_bytes [OF s(1) 1(2) av] av1 less] by blast
  have "run k m s = run j m' s2"
    using 1(1) 2(1) w MakeTag_nonzero [of n w] n by (simp add: k run_Suc run_simps number_ok_def)
  moreover have "went (length (tag_bytes n w @ bs)) s s2" using went_trans [OF 1(2) 2(2)] by simp
  ultimately show "\<exists>k' s'. run k m s = run k' m' s' \<and> went (length (tag_bytes n w @ bs)) s s' \<and> length rest < k'"
    using less av1 by (intro exI [of _ j] exI [of _ s2]) simp
qed

text \<open>A whole message, at the end of the input or before the end tag of a group.\<close>

lemma whole:
  assumes f: "feeds run d bs m m'" and s: "fits d s" "avail s = bs" "length bs < k"
  shows "\<exists>s'. run k m s = Inr ((True, m'), s') \<and> went (length bs) s s' \<and> legitimate_message_end s'"
proof -
  have av: "avail s = bs @ []" using s(2) by simp
  obtain k1 s1 where 1: "run k m s = run k1 m' s1" "went (length bs) s s1" "length ([] :: byte list) < k1"
    by (rule feedsE [OF f s(1) av]) (use s in auto)
  have av1: "avail s1 = []" by (rule went_rest [OF 1(2) av])
  have fits1: "fits d s1" by (rule fits_bytes [OF s(1) 1(2) av])
  obtain s2 where "ReadTag s1 = Inr (0, s2)" "went 0 s1 s2" "legitimate_message_end s2"
    by (rule ReadTag_end [OF fits_wf [OF fits1] av1]) (use fits1 av1 in \<open>simp add: fits_def\<close>)
  then show ?thesis using 1 went_trans [OF 1(2), of 0 s2] by (cases k1) (auto simp: run_Suc run_simps)
qed

lemma whole_group:
  assumes f: "feeds run d bs m m'" and n: "number_ok n"
    and s: "fits d s" "avail s = bs @ tag_bytes n WIRETYPE_END_GROUP @ rest" "length (avail s) < k"
  shows "\<exists>s'. run k m s = Inr ((True, m'), s') \<and> went (length (bs @ tag_bytes n WIRETYPE_END_GROUP)) s s'
    \<and> last_tag s' = MakeTag n WIRETYPE_END_GROUP"
proof -
  obtain k1 s1 where 1: "run k m s = run k1 m' s1" "went (length bs) s s1"
    "length (tag_bytes n WIRETYPE_END_GROUP @ rest) < k1"
    by (rule feedsE [OF f s])
  have av1: "avail s1 = tag_bytes n WIRETYPE_END_GROUP @ rest" by (rule went_rest [OF 1(2) s(2)])
  obtain s2 where "ReadTag s1 = Inr (MakeTag n WIRETYPE_END_GROUP, s2)" "went (length (tag_bytes n WIRETYPE_END_GROUP)) s1 s2"
    "last_tag s2 = MakeTag n WIRETYPE_END_GROUP"
    by (rule ReadTag_bytes [OF fits_wf [OF fits_bytes [OF s(1) 1(2) s(2)]] av1])
  then show ?thesis using 1 went_trans [OF 1(2)] by (cases k1) (auto simp: run_Suc run_simps)
qed

end

section \<open>Unknown fields\<close>

text \<open>The content of an unknown field after its tag.\<close>

fun unknown_content :: "UnknownField \<Rightarrow> WireType \<times> byte list" where
  "unknown_content (UVarint n v) = (WIRETYPE_VARINT, varint (unat v))"
| "unknown_content (UFixed32 n v) = (WIRETYPE_FIXED32, WriteLittleEndian32ToArray v)"
| "unknown_content (UFixed64 n v) = (WIRETYPE_FIXED64, WriteLittleEndian64ToArray v)"
| "unknown_content (ULengthDelimited n str) = (WIRETYPE_LENGTH_DELIMITED, varint (length str) @ str)"
| "unknown_content (UGroup n grp) =
     (WIRETYPE_START_GROUP, SerializeUnknownFieldsToArray grp @ tag_bytes n WIRETYPE_END_GROUP)"

lemma unknown_cons:
  "unknowns_ok d (u # us) \<Longrightarrow> SerializeUnknownFieldsToArray (u # us)
    = (tag_bytes (unknown_number u) (fst (unknown_content u)) @ snd (unknown_content u)) @ SerializeUnknownFieldsToArray us"
  by (cases u) (auto simp: unknown_bytes simp del: SerializeUnknownFieldsToArray.simps)

lemma unknowns_ok_cons: "unknowns_ok d (u # us) \<Longrightarrow> unknowns_ok d us \<and> number_ok (unknown_number u)"
  by (cases u) auto

text \<open>One level down and up again.\<close>

lemma down_up_group:
  assumes "fits (Suc d) s" and "ready s" and "went n (s\<lparr>recursion_depth := recursion_depth s + 1\<rparr>) s'"
    and "last_tag s' = t"
  shows "went n s (DecrementRecursionDepth s')" "LastTagWas t (DecrementRecursionDepth s')"
  using assms down_and_up [of n s s'] by (auto simp: ready_def LastTagWas_def DecrementRecursionDepth_def)

lemma SkipField_unknown:
  assumes ok: "number_ok (unknown_number u)" "unknowns_ok d [u]"
    and grp: "\<And>n grp us. u = UGroup n grp \<Longrightarrow> feeds SkipMessage (d - 1) (SerializeUnknownFieldsToArray grp) us (us @ grp)"
    and s: "fits d s" "avail s = snd (unknown_content u) @ rest" "length (avail s) < k"
  shows "\<exists>s'. SkipField (SkipMessage k) (MakeTag (unknown_number u) (fst (unknown_content u))) us s = Inr ((True, us @ [u]), s')
    \<and> went (length (snd (unknown_content u))) s s'"
proof -
  note wf = fits_wf [OF s(1)]
  have num: "GetTagFieldNumber (MakeTag (unknown_number u) w) = unknown_number u" for w
    using ok(1) by (simp add: GetTagFieldNumber_MakeTag number_ok_def)
  show ?thesis
  proof (cases u)
    case (UVarint n v)
    have "varint_parse (varint (unat v) @ rest) = Some (of_nat (unat v) :: 64 word, rest)"
      by (rule varint_parse_bytes [OF varint64_bound])
    then have "varint_parse (varint (unat v) @ rest) = Some (v, rest)" by simp
    then obtain s' where "ReadVarint64 s = Inr (Some v, s')" "went (length (varint (unat v))) s s'"
      using s(2) UVarint reads_bytes [OF ReadVarint64_reads [OF wf]] by (metis snd_conv unknown_content.simps(1))
    then show ?thesis using num UVarint by (simp add: SkipField_def run_simps Let_def)
  next
    case (UFixed32 n v)
    then obtain s' where "ReadLittleEndian32 s = Inr (Some v, s')" "went (length (WriteLittleEndian32ToArray v)) s s'"
      using s(2) reads_bytes [OF ReadLittleEndian32_reads [OF wf]] fixed_parse_bytes(1) by (metis snd_conv unknown_content.simps(2))
    then show ?thesis using num UFixed32 by (simp add: SkipField_def run_simps Let_def)
  next
    case (UFixed64 n v)
    then obtain s' where "ReadLittleEndian64 s = Inr (Some v, s')" "went (length (WriteLittleEndian64ToArray v)) s s'"
      using s(2) reads_bytes [OF ReadLittleEndian64_reads [OF wf]] fixed_parse_bytes(2) by (metis snd_conv unknown_content.simps(3))
    then show ?thesis using num UFixed64 by (simp add: SkipField_def run_simps Let_def)
  next
    case (ULengthDelimited n str)
    then have len: "length str < 2 ^ 31" using ok(2) by simp
    have av: "avail s = varint (length str) @ str @ rest" using s(2) ULengthDelimited by simp
    obtain s1 s' where r: "ReadVarint32 s = Inr (Some (of_nat (length str)), s1)"
      "InternalReadStringInline (sint (of_nat (length str) :: 32 word)) s1 = Inr ((True, str), s')"
      "went (length (varint (length str) @ str)) s s'"
      using ReadString_bytes [OF wf av len] by blast
    have "\<not> sint (of_nat (length str) :: 32 word) < 0" using len by (simp add: signed_of_nat signed_take_bit_int_eq_self)
    then show ?thesis using r num ULengthDelimited by (simp add: SkipField_def CIS_ReadString_def run_simps Let_def)
  next
    case (UGroup n g)
    then obtain d' where d: "d = Suc d'" using ok(2) by (cases d) auto
    let ?s1 = "s\<lparr>recursion_depth := recursion_depth s + 1\<rparr>"
    have fits1: "fits d' ?s1" using fits_down s(1) d by blast
    have "feeds SkipMessage d' (SerializeUnknownFieldsToArray g) [] g" using grp [OF UGroup, of "[]"] d by simp
    moreover have "avail ?s1 = SerializeUnknownFieldsToArray g @ tag_bytes n WIRETYPE_END_GROUP @ rest" "length (avail ?s1) < k"
      using s(2,3) UGroup by simp_all
    moreover have "number_ok n" using ok(1) UGroup by simp
    ultimately obtain s' where r: "SkipMessage k [] ?s1 = Inr ((True, g), s')"
      "went (length (SerializeUnknownFieldsToArray g @ tag_bytes n WIRETYPE_END_GROUP)) ?s1 s'"
      "last_tag s' = MakeTag n WIRETYPE_END_GROUP"
      using skip.whole_group [OF _ _ fits1] by blast
    have up: "went (length (SerializeUnknownFieldsToArray g @ tag_bytes n WIRETYPE_END_GROUP)) s (DecrementRecursionDepth s')"
      "LastTagWas (MakeTag n WIRETYPE_END_GROUP) (DecrementRecursionDepth s')"
      using down_up_group [OF s(1) [unfolded d] _ r(2,3)] s(1) by (auto simp: fits_def)
    show ?thesis
      using r(1) up num UGroup IncrementDepth_ok [OF s(1) [unfolded d]] by (simp add: SkipField_def run_simps Let_def)
  qed
qed

lemma unknowns_ok_single: "unknowns_ok d (u # us) \<Longrightarrow> unknowns_ok d [u]"
  by (cases u) auto

lemma feeds_unknown_cons:
  assumes ok: "unknowns_ok d (u # us')" and rest: "\<And>us. feeds SkipMessage d (SerializeUnknownFieldsToArray us') us (us @ us')"
    and grp: "\<And>n grp us. u = UGroup n grp \<Longrightarrow> feeds SkipMessage (d - 1) (SerializeUnknownFieldsToArray grp) us (us @ grp)"
  shows "feeds SkipMessage d (SerializeUnknownFieldsToArray (u # us')) us (us @ u # us')"
proof -
  have n: "number_ok (unknown_number u)" using unknowns_ok_cons [OF ok] by simp
  have w: "fst (unknown_content u) \<noteq> WIRETYPE_END_GROUP" by (cases u) simp_all
  have "feeds SkipMessage d (tag_bytes (unknown_number u) (fst (unknown_content u)) @ snd (unknown_content u)) us (us @ [u])"
    by (rule skip.step [OF n w]) (rule SkipField_unknown [OF n unknowns_ok_single [OF ok] grp])
  from feeds_trans [OF this rest] show ?thesis unfolding unknown_cons [OF ok] by simp
qed

lemma feeds_unknown: "unknowns_ok d us' \<Longrightarrow> feeds SkipMessage d (SerializeUnknownFieldsToArray us') us (us @ us')"
proof (induction d us' arbitrary: us rule: unknowns_ok.induct)
  case (1 d)
  show ?case by (simp add: feeds_refl)
qed (rule feeds_unknown_cons, auto simp del: SerializeUnknownFieldsToArray.simps)+

text \<open>The unknown fields at the end of a message.\<close>

lemma feeds_message_unknown:
  "unknowns_ok d us' \<Longrightarrow> list_all (\<lambda>u. FindFieldByNumber D ty (unknown_number u) = None) us' \<Longrightarrow>
    feeds (ParseAndMergePartial D) d (SerializeUnknownFieldsToArray us') (Msg ty fs us) (Msg ty fs (us @ us'))"
proof (induction us' arbitrary: us)
  case Nil
  show ?case by (simp add: feeds_refl)
next
  case (Cons u us')
  note ok = Cons.prems(1)
  have n: "number_ok (unknown_number u)" and tl: "unknowns_ok d us'" using unknowns_ok_cons [OF ok] by simp_all
  have w: "fst (unknown_content u) \<noteq> WIRETYPE_END_GROUP" by (cases u) simp_all
  have "feeds (ParseAndMergePartial D) d (tag_bytes (unknown_number u) (fst (unknown_content u)) @ snd (unknown_content u))
      (Msg ty fs us) (Msg ty fs (us @ [u]))"
  proof (rule parse.step [OF n w])
    fix k s rest
    assume s: "fits d s" "avail s = snd (unknown_content u) @ rest" "length (avail s) < k"
    have "feeds SkipMessage (d - 1) (SerializeUnknownFieldsToArray grp) vs (vs @ grp)" if "u = UGroup m grp" for m grp vs
      using ok that by (auto intro: feeds_unknown)
    then have "\<exists>s'. SkipField (SkipMessage k) (MakeTag (unknown_number u) (fst (unknown_content u))) us s = Inr ((True, us @ [u]), s')
        \<and> went (length (snd (unknown_content u))) s s'"
      by (rule SkipField_unknown [OF n unknowns_ok_single [OF ok] _ s])
    then show "\<exists>s'. ParseAndMergeField k (ParseAndMergePartial D k) (MakeTag (unknown_number u) (fst (unknown_content u)))
        (FindFieldByNumber D (msg_type (Msg ty fs us)) (GetTagFieldNumber (MakeTag (unknown_number u) (fst (unknown_content u)))))
        (Msg ty fs us) s = Inr ((True, Msg ty fs (us @ [u])), s') \<and> went (length (snd (unknown_content u))) s s'"
      using Cons.prems(2) n by (auto simp: ParseAndMergeField_def run_simps GetTagFieldNumber_MakeTag number_ok_def)
  qed
  from feeds_trans [OF this Cons.IH [OF tl]] show ?case
    using Cons.prems(2) unfolding unknown_cons [OF ok] by simp
qed

section \<open>Known fields\<close>

lemma sint_length: "n < 2 ^ 31 \<Longrightarrow> sint (of_nat n :: 32 word) = int n"
  by (simp add: signed_of_nat signed_take_bit_int_eq_self)

lemma ReadLength_bytes:
  assumes "cis_wf s" "avail s = varint n @ rest" "n < 2 ^ 31"
  obtains s' where "ReadVarint32 s = Inr (Some (of_nat n), s')" "went (length (varint n)) s s'"
proof -
  have "varint_parse (varint n @ rest) = Some (of_nat n :: 32 word, rest)"
    using assms(3) by (intro varint_parse_bytes) simp
  then show ?thesis using that by (rule reads_bytes [OF ReadVarint32_reads [OF assms(1)] assms(2)])
qed

text \<open>A limit that ends within what is available.\<close>

lemma PushLimit_within:
  assumes s: "fits d s" and n: "n \<le> length (avail s)"
  obtains s' where "PushLimit (int n) s = (current_limit s, s')" "kept s s'" "avail s' = take n (avail s)" "fits d s'"
    "current_limit s' = CurrentPosition s' + int n" "current_limit s' \<noteq> INT_MAX"
proof -
  note wf = fits_wf [OF s]
  obtain s' where p: "PushLimit (int n) s = (current_limit s, s')" "kept s s'" "avail s' = take (nat (int n)) (avail s)"
    by (rule PushLimit_ok [OF wf _ wf_position [OF wf], of "int n"]) auto
  have pos: "CurrentPosition s + int n < total_bytes_limit s" using s n by (simp add: fits_def)
  have "n \<le> nat (closest s - CurrentPosition s)" using n by (simp add: avail_def)
  then have "int n \<le> closest s - CurrentPosition s" using wf_position [OF wf] by (simp add: le_nat_iff)
  then have lim: "CurrentPosition s + int n \<le> current_limit s" by (simp add: closest_def)
  have top: "int n \<le> INT_MAX - CurrentPosition s" using pos s by (simp add: fits_def)
  have "current_limit s' = CurrentPosition s + int n"
    using p(1) lim top by (auto simp: PushLimit_def Let_def RecomputeBufferLimits_def)
  moreover have "CurrentPosition s' = CurrentPosition s" using p(2) by (simp add: kept_def)
  ultimately show ?thesis
    using that [of s'] p fits_kept [OF s p(2)] pos s n by (simp add: fits_def)
qed

lemma ReadGroup_bytes:
  assumes s: "fits (Suc d) s" "avail s = bs @ tag_bytes n WIRETYPE_END_GROUP @ rest" "length (avail s) < k" and n: "number_ok n"
    and f: "feeds run d bs x x'" and loop: "tag_loop run field"
  shows "\<exists>s'. ReadGroup (run k) n x s = Inr ((True, x'), s') \<and> went (length (bs @ tag_bytes n WIRETYPE_END_GROUP)) s s'"
proof -
  let ?s1 = "s\<lparr>recursion_depth := recursion_depth s + 1\<rparr>"
  have "avail ?s1 = bs @ tag_bytes n WIRETYPE_END_GROUP @ rest" "length (avail ?s1) < k" using s by simp_all
  then obtain s' where r: "run k x ?s1 = Inr ((True, x'), s')"
    "went (length (bs @ tag_bytes n WIRETYPE_END_GROUP)) ?s1 s'" "last_tag s' = MakeTag n WIRETYPE_END_GROUP"
    using tag_loop.whole_group [OF loop f n fits_down [OF s(1)]] by blast
  have up: "went (length (bs @ tag_bytes n WIRETYPE_END_GROUP)) s (DecrementRecursionDepth s')"
    "LastTagWas (MakeTag n WIRETYPE_END_GROUP) (DecrementRecursionDepth s')"
    using down_up_group [OF s(1) _ r(2,3)] s(1) by (auto simp: fits_def)
  then show ?thesis using r(1) IncrementDepth_ok [OF s(1)] by (simp add: ReadGroup_def run_simps)
qed

lemma ReadMessage_bytes:
  assumes s: "fits (Suc d) s" "avail s = varint (length bs) @ bs @ rest" "length (avail s) < k" and len: "length bs < 2 ^ 31"
    and f: "feeds run d bs x x'" and loop: "tag_loop run field"
  shows "\<exists>s'. ReadMessage (run k) x s = Inr ((True, x'), s') \<and> went (length (varint (length bs) @ bs)) s s'"
proof -
  obtain s1 where 1: "ReadVarint32 s = Inr (Some (of_nat (length bs)), s1)" "went (length (varint (length bs))) s s1"
    by (rule ReadLength_bytes [OF fits_wf [OF s(1)] s(2) len])
  have av1: "avail s1 = bs @ rest" by (rule went_rest [OF 1(2) s(2)])
  have fits1: "fits (Suc d) s1" by (rule fits_bytes [OF s(1) 1(2) s(2)])
  let ?s2 = "s1\<lparr>recursion_depth := recursion_depth s1 + 1\<rparr>"
  have fits2: "fits d ?s2" by (rule fits_down [OF fits1])
  obtain s3 where 3: "PushLimit (int (length bs)) ?s2 = (current_limit ?s2, s3)" "kept ?s2 s3" "avail s3 = bs" "fits d s3"
    by (rule PushLimit_within [OF fits2, of "length bs"]) (auto simp: av1)
  obtain s4 where 4: "run k x s3 = Inr ((True, x'), s4)" "went (length bs) s3 s4" "legitimate_message_end s4"
    using tag_loop.whole [OF loop f 3(4,3), of k] s(2,3) by fastforce
  have "went (length bs) ?s2 (PopLimit (current_limit ?s2) s4)"
    by (rule pop_went [OF fits_wf [OF fits2] 3(2) 4(2)]) (simp add: av1)
  then have "went (length bs) s1 (DecrementRecursionDepth (PopLimit (current_limit s1) s4))"
    using down_and_up [of "length bs" s1] fits1 by (simp add: fits_def ready_def)
  then have "went (length (varint (length bs) @ bs)) s (DecrementRecursionDepth (PopLimit (current_limit s1) s4))"
    using went_trans [OF 1(2)] by simp
  then show ?thesis
    using 1(1) 3(1) 4(1,3) IncrementDepth_ok [OF fits1]
    by (simp add: ReadMessage_def run_simps sint_length [OF len] ConsumedEntireMessage_def)
qed

lemma ReadNormal_prim:
  "primitive (fd_type f) \<Longrightarrow> ReadNormal merge tag f m = mbind (ReadPrimitive (fd_type f))
    (\<lambda>r. mreturn (case r of None \<Rightarrow> (False, m) | Some v \<Rightarrow> (True, single_value tag f v m)))"
  by (cases "fd_type f") (simp_all add: ReadNormal_def)

text \<open>
  What the parser makes of a value \<open>v\<close>: a message is merged into the message that is there, or a new one.
\<close>

definition becomes ::
  "'m pool \<Rightarrow> nat \<Rightarrow> ('m Message \<Rightarrow> byte list) \<Rightarrow> 'm FieldDescriptor \<Rightarrow> 'm Message \<Rightarrow> 'm Value \<Rightarrow> 'm Value \<Rightarrow> bool"
where
  "becomes D d enc f m v v' \<longleftrightarrow>
     (case v of
        VMessage x \<Rightarrow> \<exists>x' d'. v' = VMessage x' \<and> d = Suc d' \<and> feeds (ParseAndMergePartial D) d' (enc x) (sub_message f m) x'
      | _ \<Rightarrow> v' = v)"

lemma ReadNormal_value:
  assumes s: "fits d s" "avail s = value_bytes enc f v @ rest" "length (avail s) < k"
    and ok: "value_ok ok f v" "length (value_bytes enc f v) < 2 ^ 31" "number_ok (fd_number f)"
    and sub: "becomes D d enc f m v v'"
  shows "\<exists>s'. ReadNormal (ParseAndMergePartial D k) (MakeTag (fd_number f) w) f m s = Inr ((True, SetOrAdd f v' m), s')
    \<and> went (length (value_bytes enc f v)) s s'"
proof (cases v)
  case (VPrim p)
  then have p: "prim_ok (fd_type f) p" "known_enum f p" using ok(1) by (simp_all add: value_ok_def)
  have prim: "primitive (fd_type f)" using p(1) by (simp add: prim_ok_def)
  obtain s' where "ReadPrimitive (fd_type f) s = Inr (Some p, s')" "went (length (prim_bytes (fd_type f) p)) s s'"
    by (rule reads_bytes [OF ReadPrimitive_reads [OF fits_wf [OF s(1)] prim] _ prim_parse_bytes [OF p(1), of rest]])
      (use s(2) VPrim in \<open>simp add: value_bytes_def\<close>)
  then show ?thesis using VPrim p(2) sub by (simp add: ReadNormal_prim [OF prim] run_simps single_value_def value_bytes_def becomes_def)
next
  case (VString str)
  then have str: "fd_type f = TYPE_STRING \<or> fd_type f = TYPE_BYTES" "length str < 2 ^ 31" using ok(1) by (simp_all add: value_ok_def)
  have "avail s = varint (length str) @ str @ rest" using s(2) VString by (simp add: value_bytes_def)
  then show ?thesis
    using ReadString_bytes [OF fits_wf [OF s(1)] _ str(2)] str(1) VString sub
    by (auto simp: ReadNormal_def WFL_ReadString_def run_simps value_bytes_def becomes_def)
next
  case (VMessage x)
  obtain x' d' where d: "d = Suc d'" "feeds (ParseAndMergePartial D) d' (enc x) (sub_message f m) x'"
    and sm: "v' = VMessage x'" using sub VMessage by (auto simp: becomes_def)
  have type: "fd_type f = TYPE_GROUP \<or> fd_type f = TYPE_MESSAGE" using ok(1) VMessage by (simp add: value_ok_def)
  note fits = s(1) [unfolded d(1)]
  show ?thesis
  proof (cases "fd_type f = TYPE_GROUP")
    case True
    have vb: "value_bytes enc f v = enc x @ tag_bytes (fd_number f) WIRETYPE_END_GROUP" using VMessage True by (simp add: value_bytes_def)
    have num: "GetTagFieldNumber (MakeTag (fd_number f) w) = fd_number f"
      using ok(3) by (simp add: GetTagFieldNumber_MakeTag number_ok_def)
    have "avail s = enc x @ tag_bytes (fd_number f) WIRETYPE_END_GROUP @ rest" using s(2) vb by simp
    from ReadGroup_bytes [OF fits this s(3) ok(3) d(2) parse.tag_loop_axioms] show ?thesis
      using True VMessage by (auto simp: ReadNormal_def run_simps num sm vb [unfolded VMessage])
  next
    case False
    have vb: "value_bytes enc f v = varint (length (enc x)) @ enc x" using VMessage False by (simp add: value_bytes_def)
    have "avail s = varint (length (enc x)) @ enc x @ rest" "length (enc x) < 2 ^ 31" using s(2) vb ok(2) by simp_all
    from ReadMessage_bytes [OF fits this(1) s(3) this(2) d(2) parse.tag_loop_axioms] show ?thesis
      using False type VMessage by (auto simp: ReadNormal_def run_simps sm vb [unfolded VMessage])
  qed
qed

subsection \<open>Packed fields\<close>

lemma BytesUntilLimit_left:
  assumes "current_limit s = CurrentPosition s + int n" "current_limit s \<noteq> INT_MAX"
  shows "BytesUntilLimit s = int n"
  using assms by (simp add: BytesUntilLimit_def)

lemma ReadPacked_bytes:
  "cis_wf s \<Longrightarrow> avail s = concat (map (prim_bytes (fd_type f)) ps) \<Longrightarrow> list_all (\<lambda>p. prim_ok (fd_type f) p) ps \<Longrightarrow>
    current_limit s = CurrentPosition s + int (length (avail s)) \<Longrightarrow> current_limit s \<noteq> INT_MAX \<Longrightarrow> length (avail s) < k \<Longrightarrow>
    \<exists>s'. ReadPacked k f m s = Inr ((True, foldl (\<lambda>m p. packed_value f p m) m ps), s') \<and> went (length (avail s)) s s'"
proof (induction ps arbitrary: k m s)
  case Nil
  then obtain j where "k = Suc j" by (cases k) auto
  then show ?case using Nil BytesUntilLimit_left [OF Nil.prems(4,5)] went_refl by (simp add: run_simps)
next
  case (Cons p ps)
  let ?b = "prim_bytes (fd_type f) p" and ?bs = "concat (map (prim_bytes (fd_type f)) ps)"
  obtain j where k: "k = Suc j" using Cons.prems(6) by (cases k) auto
  have p: "prim_ok (fd_type f) p" "primitive (fd_type f)" using Cons.prems(3) by (simp_all add: prim_ok_def)
  have av: "avail s = ?b @ ?bs" using Cons.prems(2) by simp
  obtain s1 where 1: "ReadPrimitive (fd_type f) s = Inr (Some p, s1)" "went (length ?b) s s1"
    by (rule reads_bytes [OF ReadPrimitive_reads [OF Cons.prems(1) p(2)] av prim_parse_bytes [OF p(1)]])
  have av1: "avail s1 = ?bs" by (rule went_rest [OF 1(2) av])
  have pos: "0 < length ?b" using prim_bytes_nonempty by simp
  have next1: "cis_wf s1" "list_all (prim_ok (fd_type f)) ps" "current_limit s1 = CurrentPosition s1 + int (length (avail s1))"
    "current_limit s1 \<noteq> INT_MAX" "length (avail s1) < j"
    using Cons.prems(3-6) 1(2) av av1 pos k by (simp_all add: went_def del: length_greater_0_conv)
  obtain s' where 2: "ReadPacked j f (packed_value f p m) s1 = Inr ((True, foldl (\<lambda>m p. packed_value f p m) (packed_value f p m) ps), s')"
    "went (length ?bs) s1 s'"
    using Cons.IH [OF next1(1) av1 next1(2-5)] av1 by auto
  have "0 < BytesUntilLimit s" using BytesUntilLimit_left [OF Cons.prems(4,5)] pos av by (simp del: length_greater_0_conv)
  then have "ReadPacked k f m s = Inr ((True, foldl (\<lambda>m p. packed_value f p m) m (p # ps)), s')"
    using 1(1) 2(1) by (simp add: k run_simps)
  then show ?case using went_trans [OF 1(2) 2(2)] av by auto
qed

lemma packed_values:
  assumes "\<And>v. v \<in> set vs \<Longrightarrow> value_ok ok f v" "IsTypePackable (fd_type f)"
  obtains ps where "vs = map VPrim ps" "list_all (prim_ok (fd_type f)) ps" "list_all (known_enum f) ps"
proof -
  have "\<exists>p. v = VPrim p \<and> prim_ok (fd_type f) p \<and> known_enum f p" if "v \<in> set vs" for v
    using assms(1) [OF that] assms(2) by (cases v) (auto simp: value_ok_def IsTypePackable_def)
  then have "\<exists>ps. vs = map VPrim ps \<and> list_all (prim_ok (fd_type f)) ps \<and> list_all (known_enum f) ps"
  proof (induction vs)
    case (Cons v vs)
    then obtain p ps where "v = VPrim p" "prim_ok (fd_type f) p" "known_enum f p" "vs = map VPrim ps"
      "list_all (prim_ok (fd_type f)) ps" "list_all (known_enum f) ps" by fastforce
    then show ?case by (intro exI [of _ "p # ps"]) simp
  qed simp
  then show ?thesis using that by blast
qed

lemma m_insert_twice: "m_insert (m_insert fs n a) n b = m_insert fs n b"
  by (induction fs n a rule: m_insert.induct) auto

lemma GetField_put [simp]: "GetField (put_field m n vs) n = vs"
  by (cases m) (simp add: GetField_def)

lemma put_field_twice [simp]: "put_field (put_field m n a) n b = put_field m n b"
  by (cases m) (simp add: m_insert_twice)

lemma foldl_add:
  "vs \<noteq> [] \<Longrightarrow> foldl (\<lambda>m v. put_field m n (GetField m n @ [v])) m vs = put_field m n (GetField m n @ vs)"
proof (induction vs arbitrary: m)
  case (Cons v vs)
  then show ?case by (cases "vs = []") simp_all
qed simp

lemma packed_fold:
  "list_all (known_enum f) ps \<Longrightarrow> foldl (\<lambda>m p. packed_value f p m) m ps
    = foldl (\<lambda>m v. put_field m (fd_number f) (GetField m (fd_number f) @ [v])) m (map VPrim ps)"
  by (induction ps arbitrary: m) (simp_all add: packed_value_def)

subsection \<open>Fields and messages\<close>

lemma wire_not_end: "kWireTypeForFieldType type \<noteq> WIRETYPE_END_GROUP"
  by (cases type) simp_all

lemma packable_wire: "IsTypePackable type \<Longrightarrow> kWireTypeForFieldType type \<noteq> WIRETYPE_LENGTH_DELIMITED"
  by (cases type) (simp_all add: IsTypePackable_def)

lemma feeds_value:
  assumes field: "FindFieldByNumber D (msg_type m) (fd_number f) = Some f" and n: "number_ok (fd_number f)"
    and ok: "value_ok ok f v" "length (value_bytes enc f v) < 2 ^ 31"
    and sub: "becomes D d enc f m v v'"
  shows "feeds (ParseAndMergePartial D) d (tag_bytes (fd_number f) (kWireTypeForFieldType (fd_type f)) @ value_bytes enc f v)
    m (SetOrAdd f v' m)"
proof (rule parse.step [OF n wire_not_end])
  fix k s rest
  assume s: "fits d s" "avail s = value_bytes enc f v @ rest" "length (avail s) < k"
  have "\<exists>s'. ReadNormal (ParseAndMergePartial D k) (MakeTag (fd_number f) (kWireTypeForFieldType (fd_type f))) f m s
      = Inr ((True, SetOrAdd f v' m), s') \<and> went (length (value_bytes enc f v)) s s'"
    by (rule ReadNormal_value [OF s ok n sub])
  then show "\<exists>s'. ParseAndMergeField k (ParseAndMergePartial D k) (MakeTag (fd_number f) (kWireTypeForFieldType (fd_type f)))
      (FindFieldByNumber D (msg_type m) (GetTagFieldNumber (MakeTag (fd_number f) (kWireTypeForFieldType (fd_type f))))) m s
      = Inr ((True, SetOrAdd f v' m), s') \<and> went (length (value_bytes enc f v)) s s'"
    using field n by (simp add: ParseAndMergeField_def GetTagFieldNumber_MakeTag number_ok_def)
qed

lemma feeds_packed:
  assumes field: "FindFieldByNumber D (msg_type m) (fd_number f) = Some f" and n: "number_ok (fd_number f)"
    and pk: "is_packable f" and ok: "\<And>v. v \<in> set vs \<Longrightarrow> value_ok ok f v" and ne: "vs \<noteq> []"
    and len: "length (concat (map (value_bytes enc f) vs)) < 2 ^ 31"
  shows "feeds (ParseAndMergePartial D) d (tag_bytes (fd_number f) WIRETYPE_LENGTH_DELIMITED
      @ varint (length (concat (map (value_bytes enc f) vs))) @ concat (map (value_bytes enc f) vs))
    m (put_field m (fd_number f) (GetField m (fd_number f) @ vs))"
proof (rule parse.step [OF n])
  let ?data = "concat (map (value_bytes enc f) vs)"
  have type: "IsTypePackable (fd_type f)" using pk by (simp add: is_packable_def)
  obtain ps where ps: "vs = map VPrim ps" "list_all (prim_ok (fd_type f)) ps" "list_all (known_enum f) ps"
    by (rule packed_values [OF ok type])
  have data: "?data = concat (map (prim_bytes (fd_type f)) ps)" by (simp add: ps(1) value_bytes_def o_def)
  fix k s rest
  assume s: "fits d s" "avail s = (varint (length ?data) @ ?data) @ rest" "length (avail s) < k"
  have av: "avail s = varint (length ?data) @ ?data @ rest" using s(2) by simp
  obtain s1 where 1: "ReadVarint32 s = Inr (Some (of_nat (length ?data)), s1)" "went (length (varint (length ?data))) s s1"
    by (rule ReadLength_bytes [OF fits_wf [OF s(1)] av len])
  have av1: "avail s1 = ?data @ rest" by (rule went_rest [OF 1(2) av])
  have fits1: "fits d s1" by (rule fits_bytes [OF s(1) 1(2) av])
  obtain s2 where 2: "PushLimit (int (length ?data)) s1 = (current_limit s1, s2)" "kept s1 s2" "avail s2 = ?data" "fits d s2"
    "current_limit s2 = CurrentPosition s2 + int (length ?data)" "current_limit s2 \<noteq> INT_MAX"
    by (rule PushLimit_within [OF fits1, of "length ?data"]) (auto simp: av1)
  have "length (avail s2) < k" using s(3) av 2(3) by simp
  then obtain s3 where 3: "ReadPacked k f m s2 = Inr ((True, foldl (\<lambda>m p. packed_value f p m) m ps), s3)" "went (length ?data) s2 s3"
    using ReadPacked_bytes [OF fits_wf [OF 2(4)], of f ps k m] 2(3,5,6) data ps(2) by auto
  have "went (length ?data) s1 (PopLimit (current_limit s1) s3)"
    by (rule pop_went [OF fits_wf [OF fits1] 2(2) 3(2)]) (simp add: av1)
  then have "went (length (varint (length ?data) @ ?data)) s (PopLimit (current_limit s1) s3)" using went_trans [OF 1(2)] by simp
  moreover have "foldl (\<lambda>m p. packed_value f p m) m ps = put_field m (fd_number f) (GetField m (fd_number f) @ vs)"
    using packed_fold [OF ps(3), of m] foldl_add [OF ne, of "fd_number f" m] ps(1) by simp
  ultimately show "\<exists>s'. ParseAndMergeField k (ParseAndMergePartial D k) (MakeTag (fd_number f) WIRETYPE_LENGTH_DELIMITED)
      (FindFieldByNumber D (msg_type m) (GetTagFieldNumber (MakeTag (fd_number f) WIRETYPE_LENGTH_DELIMITED))) m s
      = Inr ((True, put_field m (fd_number f) (GetField m (fd_number f) @ vs)), s')
      \<and> went (length (varint (length ?data) @ ?data)) s s'"
    using field n packable_wire [OF type] pk 1(1) 2(1) 3(1)
    by (simp add: ParseAndMergeField_def GetTagFieldNumber_MakeTag number_ok_def run_simps sint_length [OF len])
qed simp

text \<open>The messages that fields contain are parsed back one level further down.\<close>

definition sub_feeds :: "'m pool \<Rightarrow> nat \<Rightarrow> ('m Message \<Rightarrow> byte list) \<Rightarrow> ('m Message \<Rightarrow> bool) \<Rightarrow> bool" where
  "sub_feeds D d enc ok \<longleftrightarrow> (\<forall>x. ok x \<longrightarrow> length (enc x) < 2 ^ 31 \<longrightarrow>
     (\<exists>d'. d = Suc d' \<and> feeds (ParseAndMergePartial D) d' (enc x) (new_message (msg_type x)) x))"

lemma sub_feeds_value:
  assumes "sub_feeds D d enc ok" "value_ok ok f v" "length (value_bytes enc f v) < 2 ^ 31"
    and "is_repeated f \<or> GetField m (fd_number f) = []"
  shows "becomes D d enc f m v v"
proof (cases v)
  case (VMessage x)
  have "length (enc x) < 2 ^ 31" using assms(3) VMessage by (auto simp: value_bytes_def split: if_splits)
  moreover have "sub_message f m = new_message (fd_message f)" using assms(4) by (auto simp: sub_message_def)
  ultimately show ?thesis using assms(1,2) VMessage by (fastforce simp: sub_feeds_def value_ok_def becomes_def)
qed (simp_all add: becomes_def)

text \<open>The values of a field that is not packed, one after the other.\<close>

lemma msg_type_put [simp]: "msg_type (put_field m n vs) = msg_type m"
  by (cases m) simp

lemma feeds_values:
  assumes n: "number_ok (fd_number f)" and rep: "is_repeated f"
    and sub: "sub_feeds D d enc ok"
  shows "FindFieldByNumber D (msg_type m) (fd_number f) = Some f \<Longrightarrow> (\<And>v. v \<in> set vs \<Longrightarrow> value_ok ok f v) \<Longrightarrow>
    (\<And>v. v \<in> set vs \<Longrightarrow> length (value_bytes enc f v) < 2 ^ 31) \<Longrightarrow>
    feeds (ParseAndMergePartial D) d
      (concat (map (\<lambda>v. tag_bytes (fd_number f) (kWireTypeForFieldType (fd_type f)) @ value_bytes enc f v) vs)) m
      (foldl (\<lambda>m v. put_field m (fd_number f) (GetField m (fd_number f) @ [v])) m vs)"
proof (induction vs arbitrary: m)
  case Nil
  show ?case by (simp add: feeds_refl)
next
  case (Cons v vs)
  have "feeds (ParseAndMergePartial D) d (tag_bytes (fd_number f) (kWireTypeForFieldType (fd_type f)) @ value_bytes enc f v)
      m (SetOrAdd f v m)"
  proof (rule feeds_value [OF Cons.prems(1) n])
    show "value_ok ok f v" "length (value_bytes enc f v) < 2 ^ 31" using Cons.prems(2,3) by simp_all
    then show "becomes D d enc f m v v" using sub_feeds_value [OF sub] rep by blast
  qed
  from feeds_trans [OF this Cons.IH] show ?case using Cons.prems rep by (simp add: SetOrAdd_def)
qed

lemma feeds_field:
  assumes field: "FindFieldByNumber D (msg_type m) (fd_number f) = Some f" and n: "number_ok (fd_number f)"
    and pk: "fd_packed f \<Longrightarrow> is_packable f" and ok: "field_ok ok f vs" and new: "GetField m (fd_number f) = []"
    and len: "length (field_bytes enc f vs) < 2 ^ 31"
    and sub: "sub_feeds D d enc ok"
  shows "feeds (ParseAndMergePartial D) d (field_bytes enc f vs) m (put_field m (fd_number f) vs)"
proof -
  have vok: "value_ok ok f v" if "v \<in> set vs" for v using ok that by (auto simp: field_ok_def list_all_iff)
  have ne: "vs \<noteq> []" using ok by (simp add: field_ok_def)
  show ?thesis
  proof (cases "fd_packed f")
    case True
    then show ?thesis
      using feeds_packed [OF field n pk [OF True] vok ne, of enc] len new by (simp add: field_bytes_def Let_def)
  next
    case False
    let ?tagged = "\<lambda>v. tag_bytes (fd_number f) (kWireTypeForFieldType (fd_type f)) @ value_bytes enc f v"
    have fb: "field_bytes enc f vs = concat (map ?tagged vs)" using False by (simp add: field_bytes_def)
    have lt: "length (value_bytes enc f v) < 2 ^ 31" if "v \<in> set vs" for v
      using length_concat_member [OF that, of ?tagged] len fb by simp
    show ?thesis
    proof (cases "is_repeated f")
      case True
      show ?thesis
        using feeds_values [OF n True sub field, of vs] vok lt foldl_add [OF ne, of "fd_number f" m] new fb by simp
    next
      case single: False
      then obtain v where v: "vs = [v]" using ok by (auto simp: field_ok_def length_Suc_conv)
      have "feeds (ParseAndMergePartial D) d (?tagged v) m (SetOrAdd f v m)"
      proof (rule feeds_value [OF field n])
        show "value_ok ok f v" "length (value_bytes enc f v) < 2 ^ 31" using vok lt v by simp_all
        then show "becomes D d enc f m v v" using sub_feeds_value [OF sub] new by blast
      qed
      then show ?thesis using fb v single by (simp add: SetOrAdd_def)
    qed
  qed
qed

lemma m_insert_last: "(\<And>k. k \<in> set (map fst fs) \<Longrightarrow> k < n) \<Longrightarrow> m_insert fs n vs = fs @ [(n, vs)]"
proof (induction fs)
  case (Cons e fs)
  have less: "fst e < n" using Cons.prems by simp
  have "m_insert fs n vs = fs @ [(n, vs)]" by (rule Cons.IH) (use Cons.prems in simp)
  with less show ?case by (cases e) auto
qed simp

text \<open>The fields of a message, in the order of their numbers.\<close>

lemma feeds_fields:
  assumes pool: "pool_ok D"
    and sub: "sub_feeds D d enc ok"
  shows "m_ok (done_fields @ fs) \<Longrightarrow>
    list_all (\<lambda>(n, vs). case FindFieldByNumber D ty n of None \<Rightarrow> False | Some f \<Rightarrow> field_ok ok f vs) fs \<Longrightarrow>
    length (concat (map (\<lambda>(n, vs). case FindFieldByNumber D ty n of None \<Rightarrow> [] | Some f \<Rightarrow> field_bytes enc f vs) fs)) < 2 ^ 31 \<Longrightarrow>
    feeds (ParseAndMergePartial D) d
      (concat (map (\<lambda>(n, vs). case FindFieldByNumber D ty n of None \<Rightarrow> [] | Some f \<Rightarrow> field_bytes enc f vs) fs))
      (Msg ty done_fields us) (Msg ty (done_fields @ fs) us)"
proof (induction fs arbitrary: done_fields)
  case Nil
  show ?case by (simp add: feeds_refl)
next
  case (Cons e fs)
  obtain n vs where e: "e = (n, vs)" by (cases e)
  obtain f where f: "FindFieldByNumber D ty n = Some f" "field_ok ok f vs" using Cons.prems(2) e by (auto split: option.splits)
  then have num: "fd_number f = n" "f \<in> set (D ty)" by (auto dest: FindField_number)
  have less: "\<And>k. k \<in> set (map fst done_fields) \<Longrightarrow> k < n" using Cons.prems(1) e by (auto simp: m_ok_def sorted_wrt_append)
  then have "map_of done_fields n = None" by (force simp: map_of_eq_None_iff)
  then have new: "GetField (Msg ty done_fields us) n = []" by (simp add: GetField_def m_find_def)
  have "feeds (ParseAndMergePartial D) d (field_bytes enc f vs) (Msg ty done_fields us) (put_field (Msg ty done_fields us) (fd_number f) vs)"
    by (rule feeds_field [OF _ _ _ f(2) _ _ sub]) (use f num pool new Cons.prems(3) e in \<open>auto simp: pool_ok_def\<close>)
  also have "put_field (Msg ty done_fields us) (fd_number f) vs = Msg ty (done_fields @ [e]) us"
    using m_insert_last [OF less] num e by simp
  finally have 1: "feeds (ParseAndMergePartial D) d (field_bytes enc f vs) (Msg ty done_fields us) (Msg ty (done_fields @ [e]) us)" .
  have 2: "feeds (ParseAndMergePartial D) d
      (concat (map (\<lambda>(n, vs). case FindFieldByNumber D ty n of None \<Rightarrow> [] | Some f \<Rightarrow> field_bytes enc f vs) fs))
      (Msg ty (done_fields @ [e]) us) (Msg ty ((done_fields @ [e]) @ fs) us)"
    by (rule Cons.IH) (use Cons.prems in simp_all)
  show ?case using feeds_trans [OF 1 2] f(1) e by simp
qed

lemma feeds_message_step:
  assumes pool: "pool_ok D" and ok: "msg_ok D (Suc d) m" and len: "length (msg_bytes D (Suc d) m) < 2 ^ 31"
    and sub: "sub_feeds D d (msg_bytes D d) (msg_ok D d)"
  shows "feeds (ParseAndMergePartial D) d (msg_bytes D (Suc d) m) (new_message (msg_type m)) m"
proof -
  obtain ty fs us where m: "m = Msg ty fs us" by (cases m)
  have "feeds (ParseAndMergePartial D) d
      (concat (map (\<lambda>(n, vs). case FindFieldByNumber D ty n of None \<Rightarrow> [] | Some f \<Rightarrow> field_bytes (msg_bytes D d) f vs) fs))
      (Msg ty [] []) (Msg ty ([] @ fs) [])"
    by (rule feeds_fields [OF pool sub]) (use ok len m in simp_all)
  moreover have "feeds (ParseAndMergePartial D) d (SerializeUnknownFieldsToArray us) (Msg ty fs []) (Msg ty fs ([] @ us))"
    by (rule feeds_message_unknown) (use ok m in simp_all)
  ultimately show ?thesis using feeds_trans m by (fastforce simp: new_message_def)
qed

lemma feeds_message:
  "pool_ok D \<Longrightarrow> msg_ok D (Suc d) m \<Longrightarrow> length (msg_bytes D (Suc d) m) < 2 ^ 31 \<Longrightarrow>
    feeds (ParseAndMergePartial D) d (msg_bytes D (Suc d) m) (new_message (msg_type m)) m"
proof (induction d arbitrary: m)
  case 0
  have "sub_feeds D 0 (msg_bytes D 0) (msg_ok D 0)" by (simp add: sub_feeds_def)
  with 0 show ?case by (rule feeds_message_step)
next
  case (Suc d)
  have "sub_feeds D (Suc d) (msg_bytes D (Suc d)) (msg_ok D (Suc d))"
    using Suc.IH [OF Suc.prems(1)] unfolding sub_feeds_def by blast
  with Suc.prems show ?case by (rule feeds_message_step)
qed

end
