(* ===== verification/Array_Streams.thy ===== *)
theory Array_Streams
  imports Prelude
begin

text \<open>
  \<^verbatim>\<open>ArrayInputStream\<close> and \<^verbatim>\<open>ArrayOutputStream\<close> (\<^verbatim>\<open>io/zero_copy_stream_impl_lite.cc\<close>), which hand out an array in
  blocks, and the contract of a zero-copy stream that lets the coded streams treat what is underneath as the
  list of the blocks still to come. The two classes differ only in the type of the pointer, and the output
  stream has no \<^verbatim>\<open>Skip\<close>.
\<close>

section \<open>Operations\<close>

record ArrayStream =
  as_data :: "byte list"
  as_size :: int
  as_block_size :: int
  as_position :: int
  as_last_returned_size :: int

definition ArrayStream_new :: "byte list \<Rightarrow> int \<Rightarrow> ArrayStream" where
  "ArrayStream_new data block_size =
     \<lparr>as_data = data, as_size = int (length data),
      as_block_size = (if block_size > 0 then block_size else int (length data)),
      as_position = 0, as_last_returned_size = 0\<rparr>"

text \<open>The block is the bytes from the position; \<open>None\<close> is the end of the array.\<close>

definition AS_Next :: "ArrayStream \<Rightarrow> byte list option \<times> ArrayStream" where
  "AS_Next s =
     (if as_position s < as_size s then
        let last_returned_size = min (as_block_size s) (as_size s - as_position s) in
        (Some (take (nat last_returned_size) (drop (nat (as_position s)) (as_data s))),
         s\<lparr>as_last_returned_size := last_returned_size, as_position := as_position s + last_returned_size\<rparr>)
      else (None, s\<lparr>as_last_returned_size := 0\<rparr>))"

definition AS_BackUp :: "int \<Rightarrow> ArrayStream \<Rightarrow> fault + ArrayStream" where
  "AS_BackUp count s =
     (if \<not> as_last_returned_size s > 0 then Inl AssertFail
      else if \<not> count \<le> as_last_returned_size s then Inl AssertFail
      else if \<not> count \<ge> 0 then Inl AssertFail
      else Inr (s\<lparr>as_position := as_position s - count, as_last_returned_size := 0\<rparr>))"

definition AS_Skip :: "int \<Rightarrow> ArrayStream \<Rightarrow> fault + bool \<times> ArrayStream" where
  "AS_Skip count s =
     (if \<not> count \<ge> 0 then Inl AssertFail
      else if count > as_size s - as_position s
      then Inr (False, s\<lparr>as_last_returned_size := 0, as_position := as_size s\<rparr>)
      else Inr (True, s\<lparr>as_last_returned_size := 0, as_position := as_position s + count\<rparr>))"

definition AS_ByteCount :: "ArrayStream \<Rightarrow> int" where
  "AS_ByteCount s = as_position s"

section \<open>The contract of a zero-copy stream\<close>

text \<open>The blocks that \<open>k\<close> calls of \<^verbatim>\<open>Next\<close> return.\<close>

primrec next_blocks :: "('s \<Rightarrow> byte list option \<times> 's) \<Rightarrow> nat \<Rightarrow> 's \<Rightarrow> byte list list" where
  "next_blocks next 0 s = []"
| "next_blocks next (Suc k) s = (case next s of (None, _) \<Rightarrow> [] | (Some b, s') \<Rightarrow> b # next_blocks next k s')"

locale zero_copy_stream =
  fixes wf :: "'s \<Rightarrow> bool"
    and left :: "'s \<Rightarrow> byte list"
    and next_block :: "'s \<Rightarrow> byte list option \<times> 's"
    and back_up :: "int \<Rightarrow> 's \<Rightarrow> fault + 's"
    and byte_count :: "'s \<Rightarrow> int"
  assumes next_some: "wf s \<Longrightarrow> next_block s = (Some b, s') \<Longrightarrow> wf s' \<and> b \<noteq> [] \<and> left s = b @ left s'
      \<and> byte_count s' = byte_count s + int (length b)"
    and next_none: "wf s \<Longrightarrow> next_block s = (None, s') \<Longrightarrow> wf s' \<and> left s = [] \<and> left s' = [] \<and> byte_count s' = byte_count s"
    and back_up_next: "wf s \<Longrightarrow> next_block s = (Some b, s1) \<Longrightarrow> n \<le> length b \<Longrightarrow>
      \<exists>s2. back_up (int n) s1 = Inr s2 \<and> wf s2 \<and> left s2 = drop (length b - n) b @ left s1
        \<and> byte_count s2 = byte_count s1 - int n"
begin

lemma concat_blocks: "wf s \<Longrightarrow> length (left s) \<le> k \<Longrightarrow> concat (next_blocks next_block k s) = left s"
proof (induction k arbitrary: s)
  case (Suc k)
  obtain r s' where n: "next_block s = (r, s')" by (cases "next_block s")
  show ?case
  proof (cases r)
    case None
    then show ?thesis using next_none [OF Suc.prems(1)] n by simp
  next
    case (Some b)
    then have b: "wf s'" "b \<noteq> []" "left s = b @ left s'" using next_some [OF Suc.prems(1)] n by simp_all
    then have "length (left s') \<le> k" using Suc.prems(2) by (cases b) auto
    then show ?thesis using Suc.IH [OF b(1)] b n Some by simp
  qed
qed simp

text \<open>Giving back the end of a block and asking again: nothing is lost and nothing is seen twice.\<close>

lemma back_up_resume:
  assumes "wf s" "next_block s = (Some b, s1)" "n \<le> length b"
  shows "\<exists>s2. back_up (int n) s1 = Inr s2 \<and> left s = take (length b - n) b @ left s2
    \<and> byte_count s2 = byte_count s + int (length b - n)"
proof -
  obtain s2 where "back_up (int n) s1 = Inr s2" "left s2 = drop (length b - n) b @ left s1" "byte_count s2 = byte_count s1 - int n"
    using back_up_next [OF assms] by blast
  then show ?thesis using next_some [OF assms(1,2)] assms(3) by (intro exI [of _ s2]) (simp add: of_nat_diff)
qed

end

definition as_wf :: "ArrayStream \<Rightarrow> bool" where
  "as_wf s \<longleftrightarrow> as_size s = int (length (as_data s)) \<and> 0 \<le> as_position s \<and> as_position s \<le> as_size s
     \<and> (as_size s = 0 \<or> 0 < as_block_size s)"

definition as_left :: "ArrayStream \<Rightarrow> byte list" where
  "as_left s = drop (nat (as_position s)) (as_data s)"

lemma AS_Next_some:
  assumes "as_wf s" "AS_Next s = (Some b, s')"
  shows "as_wf s' \<and> b \<noteq> [] \<and> as_left s = b @ as_left s' \<and> AS_ByteCount s' = AS_ByteCount s + int (length b)
    \<and> as_last_returned_size s' = int (length b) \<and> as_data s' = as_data s \<and> as_size s' = as_size s \<and> as_block_size s' = as_block_size s"
proof -
  let ?p = "as_position s" and ?n = "min (as_block_size s) (as_size s - as_position s)"
  have less: "?p < as_size s" and b: "b = take (nat ?n) (drop (nat ?p) (as_data s))"
    and s': "s' = s\<lparr>as_last_returned_size := ?n, as_position := ?p + ?n\<rparr>"
    using assms(2) by (auto simp: AS_Next_def Let_def split: if_splits)
  have n: "0 < ?n" "?n \<le> as_size s - ?p" "0 \<le> ?p" using assms(1) less by (auto simp: as_wf_def)
  have "length b = nat ?n" using b n assms(1) by (auto simp: as_wf_def)
  moreover have "nat (?p + ?n) = nat ?n + nat ?p" using nat_add_distrib [OF n(3), of ?n] n(1) by simp
  ultimately show ?thesis
    using n b s' assms(1) append_take_drop_id [of "nat ?n" "drop (nat ?p) (as_data s)"]
    by (auto simp: as_wf_def as_left_def AS_ByteCount_def)
qed

interpretation array_stream: zero_copy_stream as_wf as_left AS_Next AS_BackUp AS_ByteCount
proof
  fix s b s' s1 n
  show "as_wf s' \<and> b \<noteq> [] \<and> as_left s = b @ as_left s' \<and> AS_ByteCount s' = AS_ByteCount s + int (length b)"
    if "as_wf s" "AS_Next s = (Some b, s')" using AS_Next_some [OF that] by simp
  show "as_wf s' \<and> as_left s = [] \<and> as_left s' = [] \<and> AS_ByteCount s' = AS_ByteCount s"
    if "as_wf s" "AS_Next s = (None, s')"
    using that by (auto simp: AS_Next_def as_wf_def as_left_def AS_ByteCount_def Let_def split: if_splits)
  show "\<exists>s2. AS_BackUp (int n) s1 = Inr s2 \<and> as_wf s2 \<and> as_left s2 = drop (length b - n) b @ as_left s1
      \<and> AS_ByteCount s2 = AS_ByteCount s1 - int n"
    if "as_wf s" "AS_Next s = (Some b, s1)" "n \<le> length b"
  proof -
    note 1 = AS_Next_some [OF that(1,2)]
    let ?s2 = "s1\<lparr>as_position := as_position s1 - int n, as_last_returned_size := 0\<rparr>"
    have pos: "as_position s1 = as_position s + int (length b)" "0 \<le> as_position s" using 1 that(1) by (auto simp: AS_ByteCount_def as_wf_def)
    have "as_left ?s2 = drop (nat (as_position s) + (length b - n)) (as_data s)"
      using pos that(3) 1 by (auto simp: as_left_def nat_add_distrib of_nat_diff intro!: arg_cong2 [where f = drop])
    also have "\<dots> = drop (length b - n) (as_left s)" by (simp add: as_left_def add.commute)
    also have "\<dots> = drop (length b - n) (b @ as_left s1)" using 1 by simp
    finally have "as_left ?s2 = drop (length b - n) b @ as_left s1" using that(3) by simp
    moreover have "AS_BackUp (int n) s1 = Inr ?s2" using 1 that(3) by (cases b) (auto simp: AS_BackUp_def)
    moreover have "as_wf ?s2" using 1 pos that(3) by (auto simp: as_wf_def)
    ultimately show ?thesis by (auto simp: AS_ByteCount_def)
  qed
qed

lemma ArrayStream_new_ok: "as_wf (ArrayStream_new data n)" "as_left (ArrayStream_new data n) = data"
  by (auto simp: ArrayStream_new_def as_wf_def as_left_def)

text \<open>The blocks of an array, whatever the block size, are the array cut into pieces.\<close>

lemma array_blocks: "concat (next_blocks AS_Next (length data) (ArrayStream_new data n)) = data"
  using array_stream.concat_blocks [of "ArrayStream_new data n" "length data"] by (simp add: ArrayStream_new_ok)

end
