(* ===== verification/Message_Lite.thy ===== *)
theory Message_Lite
  imports Wire_Round_Trip Array_Streams
begin

text \<open>
  The entry points of \<^verbatim>\<open>MessageLite\<close> (\<^verbatim>\<open>message_lite.cc\<close>): parsing a message from a string, an array or a stream,
  and serialising it to a string, an array or a coded stream, over the reflective implementation of
  \<^verbatim>\<open>wire_format.cc\<close>. \<open>debug\<close> says whether \<^verbatim>\<open>GOOGLE_DCHECK\<close> is compiled in.
\<close>

section \<open>Parsing\<close>

definition InlineMergeFromCodedStream :: "'m pool \<Rightarrow> nat \<Rightarrow> 'm Message \<Rightarrow> (bool \<times> 'm Message) cis" where
  "InlineMergeFromCodedStream D k m =
     mbind (ParseAndMergePartial D k m) (\<lambda>(ok, m').
       if \<not> ok then mreturn (False, m')
       else if \<not> IsInitialized D m' then mreturn (False, m')
       else mreturn (True, m'))"

definition InlineParseFromCodedStream :: "'m pool \<Rightarrow> nat \<Rightarrow> 'm Message \<Rightarrow> (bool \<times> 'm Message) cis" where
  "InlineParseFromCodedStream D k m = InlineMergeFromCodedStream D k (Clear m)"

definition InlineParsePartialFromCodedStream :: "'m pool \<Rightarrow> nat \<Rightarrow> 'm Message \<Rightarrow> (bool \<times> 'm Message) cis" where
  "InlineParsePartialFromCodedStream D k m = ParseAndMergePartial D k (Clear m)"

definition MergeFromCodedStream :: "'m pool \<Rightarrow> nat \<Rightarrow> 'm Message \<Rightarrow> (bool \<times> 'm Message) cis" where
  "MergeFromCodedStream D k m = InlineMergeFromCodedStream D k m"

definition ParseFromCodedStream :: "'m pool \<Rightarrow> nat \<Rightarrow> 'm Message \<Rightarrow> (bool \<times> 'm Message) cis" where
  "ParseFromCodedStream D k m = InlineParseFromCodedStream D k m"

definition ParsePartialFromCodedStream :: "'m pool \<Rightarrow> nat \<Rightarrow> 'm Message \<Rightarrow> (bool \<times> 'm Message) cis" where
  "ParsePartialFromCodedStream D k m = InlineParsePartialFromCodedStream D k m"

text \<open>\<^verbatim>\<open>... && input.ConsumedEntireMessage()\<close> of a run from a stream; the message is kept when it fails.\<close>

definition and_consumed :: "(bool \<times> 'm Message) cis \<Rightarrow> CodedInputStream \<Rightarrow> fault + bool \<times> 'm Message" where
  "and_consumed parse s =
     (case parse s of Inl e \<Rightarrow> Inl e | Inr ((ok, m'), s') \<Rightarrow> Inr (ok \<and> ConsumedEntireMessage s', m'))"

definition InlineParseFromArray :: "'m pool \<Rightarrow> byte list \<Rightarrow> 'm Message \<Rightarrow> fault + bool \<times> 'm Message" where
  "InlineParseFromArray D data m =
     and_consumed (InlineParseFromCodedStream D (Suc (length data)) m) (CodedInputStream_of_array data)"

definition InlineParsePartialFromArray :: "'m pool \<Rightarrow> byte list \<Rightarrow> 'm Message \<Rightarrow> fault + bool \<times> 'm Message" where
  "InlineParsePartialFromArray D data m =
     and_consumed (InlineParsePartialFromCodedStream D (Suc (length data)) m) (CodedInputStream_of_array data)"

definition ParseFromString :: "'m pool \<Rightarrow> 'm Message \<Rightarrow> byte list \<Rightarrow> fault + bool \<times> 'm Message" where
  "ParseFromString D m data = InlineParseFromArray D data m"

definition ParsePartialFromString :: "'m pool \<Rightarrow> 'm Message \<Rightarrow> byte list \<Rightarrow> fault + bool \<times> 'm Message" where
  "ParsePartialFromString D m data = InlineParsePartialFromArray D data m"

definition ParseFromArray :: "'m pool \<Rightarrow> 'm Message \<Rightarrow> byte list \<Rightarrow> fault + bool \<times> 'm Message" where
  "ParseFromArray D m data = InlineParseFromArray D data m"

definition ParsePartialFromArray :: "'m pool \<Rightarrow> 'm Message \<Rightarrow> byte list \<Rightarrow> fault + bool \<times> 'm Message" where
  "ParsePartialFromArray D m data = InlineParsePartialFromArray D data m"

definition ParseFromZeroCopyStream :: "'m pool \<Rightarrow> 'm Message \<Rightarrow> byte list list \<Rightarrow> fault + bool \<times> 'm Message" where
  "ParseFromZeroCopyStream D m input =
     (case CodedInputStream_of_stream input of Inl e \<Rightarrow> Inl e
      | Inr decoder \<Rightarrow> and_consumed (InlineParseFromCodedStream D (Suc (length (concat input))) m) decoder)"

definition ParsePartialFromZeroCopyStream :: "'m pool \<Rightarrow> 'm Message \<Rightarrow> byte list list \<Rightarrow> fault + bool \<times> 'm Message" where
  "ParsePartialFromZeroCopyStream D m input =
     (case CodedInputStream_of_stream input of Inl e \<Rightarrow> Inl e
      | Inr decoder \<Rightarrow> and_consumed (InlineParsePartialFromCodedStream D (Suc (length (concat input))) m) decoder)"

definition bounded_parse ::
  "('m Message \<Rightarrow> (bool \<times> 'm Message) cis) \<Rightarrow> 'm Message \<Rightarrow> byte list list \<Rightarrow> int \<Rightarrow> fault + bool \<times> 'm Message"
where
  "bounded_parse parse m input sz =
     (case CodedInputStream_of_stream input of Inl e \<Rightarrow> Inl e
      | Inr decoder \<Rightarrow>
          (case parse m (snd (PushLimit sz decoder)) of Inl e \<Rightarrow> Inl e
           | Inr ((ok, m'), s') \<Rightarrow> Inr (ok \<and> ConsumedEntireMessage s' \<and> BytesUntilLimit s' = 0, m')))"

definition ParseFromBoundedZeroCopyStream :: "'m pool \<Rightarrow> 'm Message \<Rightarrow> byte list list \<Rightarrow> int \<Rightarrow> fault + bool \<times> 'm Message" where
  "ParseFromBoundedZeroCopyStream D m input sz =
     bounded_parse (InlineParseFromCodedStream D (Suc (length (concat input)))) m input sz"

definition ParsePartialFromBoundedZeroCopyStream :: "'m pool \<Rightarrow> 'm Message \<Rightarrow> byte list list \<Rightarrow> int \<Rightarrow> fault + bool \<times> 'm Message" where
  "ParsePartialFromBoundedZeroCopyStream D m input sz =
     bounded_parse (InlineParsePartialFromCodedStream D (Suc (length (concat input)))) m input sz"

section \<open>Serialising\<close>

text \<open>
  \<^verbatim>\<open>SerializeWithCachedSizesToArray\<close>: the memory from the target on, after an \<^verbatim>\<open>ArrayOutputStream\<close> over the first
  \<^verbatim>\<open>size\<close> bytes has been written to. The pointer returned is the target plus the size.
\<close>

definition SerializeWithCachedSizesToArray :: "'m pool \<Rightarrow> 'm Message \<Rightarrow> byte list \<Rightarrow> fault + byte list" where
  "SerializeWithCachedSizesToArray D m target =
     (let size = nat (ByteSize D m); out = ArrayStream_new (take size target) (-1) in
      if length target < size then Inl OutOfBounds
      else case SerializeWithCachedSizes D m (CodedOutputStream_new (next_blocks AS_Next size out)) of
        Inl e \<Rightarrow> Inl e
      | Inr (_, s) \<Rightarrow>
          if had_error s then Inl AssertFail
          else Inr (zc_done s @ oblock s @ concat (zc_output s) @ drop size target))"

text \<open>\<open>junk\<close> is what \<^verbatim>\<open>STLStringResizeUninitialized\<close> leaves in the new bytes.\<close>

definition AppendPartialToString :: "'m pool \<Rightarrow> (nat \<Rightarrow> byte) \<Rightarrow> 'm Message \<Rightarrow> byte list \<Rightarrow> fault + bool \<times> byte list" where
  "AppendPartialToString D junk m output =
     (let byte_size = nat (ByteSize D m) in
      case SerializeWithCachedSizesToArray D m (map junk [0..<byte_size]) of
        Inl e \<Rightarrow> Inl e
      | Inr data \<Rightarrow> Inr (True, output @ data))"

definition AppendToString :: "bool \<Rightarrow> 'm pool \<Rightarrow> (nat \<Rightarrow> byte) \<Rightarrow> 'm Message \<Rightarrow> byte list \<Rightarrow> fault + bool \<times> byte list" where
  "AppendToString debug D junk m output =
     (if debug \<and> \<not> IsInitialized D m then Inl AssertFail else AppendPartialToString D junk m output)"

definition SerializeToString :: "bool \<Rightarrow> 'm pool \<Rightarrow> (nat \<Rightarrow> byte) \<Rightarrow> 'm Message \<Rightarrow> fault + bool \<times> byte list" where
  "SerializeToString debug D junk m = AppendToString debug D junk m []"

definition SerializePartialToString :: "'m pool \<Rightarrow> (nat \<Rightarrow> byte) \<Rightarrow> 'm Message \<Rightarrow> fault + bool \<times> byte list" where
  "SerializePartialToString D junk m = AppendPartialToString D junk m []"

definition SerializePartialToArray :: "'m pool \<Rightarrow> 'm Message \<Rightarrow> byte list \<Rightarrow> int \<Rightarrow> fault + bool \<times> byte list" where
  "SerializePartialToArray D m data sz =
     (let byte_size = ByteSize D m in
      if sz < byte_size then Inr (False, data)
      else case SerializeWithCachedSizesToArray D m data of Inl e \<Rightarrow> Inl e | Inr data' \<Rightarrow> Inr (True, data'))"

definition SerializeToArray :: "bool \<Rightarrow> 'm pool \<Rightarrow> 'm Message \<Rightarrow> byte list \<Rightarrow> int \<Rightarrow> fault + bool \<times> byte list" where
  "SerializeToArray debug D m data sz =
     (if debug \<and> \<not> IsInitialized D m then Inl AssertFail else SerializePartialToArray D m data sz)"

definition SerializeAsString :: "bool \<Rightarrow> 'm pool \<Rightarrow> (nat \<Rightarrow> byte) \<Rightarrow> 'm Message \<Rightarrow> fault + byte list" where
  "SerializeAsString debug D junk m =
     (case AppendToString debug D junk m [] of Inl e \<Rightarrow> Inl e | Inr (ok, output) \<Rightarrow> Inr (if ok then output else []))"

definition SerializePartialAsString :: "'m pool \<Rightarrow> (nat \<Rightarrow> byte) \<Rightarrow> 'm Message \<Rightarrow> fault + byte list" where
  "SerializePartialAsString D junk m =
     (case AppendPartialToString D junk m [] of Inl e \<Rightarrow> Inl e | Inr (ok, output) \<Rightarrow> Inr (if ok then output else []))"

text \<open>
  With room in the current block the message is stored there directly, else it goes through the stream. The
  comparison of the sizes at the end ends the program when they differ.
\<close>

definition SerializePartialToCodedStream :: "'m pool \<Rightarrow> 'm Message \<Rightarrow> bool cos" where
  "SerializePartialToCodedStream D m =
     (let size = ByteSize D m in
      mbind (GetDirectBufferForNBytesAndAdvance size) (\<lambda>buffer.
        case buffer of
          Some p \<Rightarrow>
            mbind (mgets oblock) (\<lambda>mem.
            mbind (mlift (SerializeWithCachedSizesToArray D m (drop (nat p) mem))) (\<lambda>data.
            mseq (mmodify (\<lambda>s. s\<lparr>oblock := take (nat p) mem @ data\<rparr>)) (mreturn True)))
        | None \<Rightarrow>
            mbind (mgets ByteCount) (\<lambda>original_byte_count.
            mseq (SerializeWithCachedSizes D m)
              (mbind (mgets (\<lambda>s. (had_error s, ByteCount s))) (\<lambda>(error, final_byte_count).
                if error then mreturn False
                else if final_byte_count - original_byte_count \<noteq> size then mfault AssertFail
                else mreturn True)))))"

definition SerializeToCodedStream :: "bool \<Rightarrow> 'm pool \<Rightarrow> 'm Message \<Rightarrow> bool cos" where
  "SerializeToCodedStream debug D m =
     (if debug \<and> \<not> IsInitialized D m then mfault AssertFail else SerializePartialToCodedStream D m)"

text \<open>To a stream of blocks; the result is what the stream holds and the blocks that are still free in it.\<close>

definition to_zero_copy :: "bool cos \<Rightarrow> byte list list \<Rightarrow> fault + bool \<times> byte list \<times> byte list list" where
  "to_zero_copy serialize output =
     (case serialize (CodedOutputStream_new output) of
        Inl e \<Rightarrow> Inl e
      | Inr (ok, encoder) \<Rightarrow> Inr (ok, CodedOutputStream_delete encoder))"

definition SerializeToZeroCopyStream ::
  "bool \<Rightarrow> 'm pool \<Rightarrow> 'm Message \<Rightarrow> byte list list \<Rightarrow> fault + bool \<times> byte list \<times> byte list list"
where
  "SerializeToZeroCopyStream debug D m output = to_zero_copy (SerializeToCodedStream debug D m) output"

definition SerializePartialToZeroCopyStream ::
  "'m pool \<Rightarrow> 'm Message \<Rightarrow> byte list list \<Rightarrow> fault + bool \<times> byte list \<times> byte list list"
where
  "SerializePartialToZeroCopyStream D m output = to_zero_copy (SerializePartialToCodedStream D m) output"

section \<open>The bytes that are written\<close>

lemma msg_ok_sized:
  assumes "pool_ok D" "msg_ok D d m" "length (msg_bytes D d m) < 2 ^ 31"
  shows "ByteSize D m = int (length (msg_bytes D d m))" "writes (SerializeWithCachedSizes D m) (msg_bytes D d m)"
  using message_sized [OF assms(1,2)] assms(3) by (simp_all add: sized_def)

lemma SerializeToArray_bytes:
  assumes ok: "pool_ok D" "msg_ok D d m" "length (msg_bytes D d m) < 2 ^ 31" and target: "length (msg_bytes D d m) \<le> length target"
  shows "SerializeWithCachedSizesToArray D m target = Inr (msg_bytes D d m @ drop (length (msg_bytes D d m)) target)"
proof -
  let ?bs = "msg_bytes D d m" and ?out = "ArrayStream_new (take (length (msg_bytes D d m)) target) (-1)"
  let ?blocks = "next_blocks AS_Next (length ?bs) ?out"
  have blocks: "concat ?blocks = take (length ?bs) target"
    using array_blocks [of "take (length ?bs) target"] target by simp
  have "length ?bs \<le> room (CodedOutputStream_new ?blocks)"
    using blocks target by (simp add: CodedOutputStream_new_wf)
  then obtain s where s: "SerializeWithCachedSizes D m (CodedOutputStream_new ?blocks) = Inr ((), s)" "cos_wf s"
    "written s = written (CodedOutputStream_new ?blocks) @ ?bs"
    "room s = room (CodedOutputStream_new ?blocks) - length ?bs"
    by (rule writesE [OF msg_ok_sized(2) [OF ok] CodedOutputStream_new_wf(1)])
  have "room s = 0" using s(4) blocks target by (simp add: CodedOutputStream_new_wf)
  then have "zc_done s @ oblock s @ concat (zc_output s) = written s"
    using s(2) by (auto simp: room_def cos_wf_def written_def)
  then show ?thesis
    using s target msg_ok_sized(1) [OF ok]
    by (simp add: SerializeWithCachedSizesToArray_def Let_def CodedOutputStream_new_wf cos_wf_def flip: append_assoc)
qed

lemma AppendPartialToString_bytes:
  assumes "pool_ok D" "msg_ok D d m" "length (msg_bytes D d m) < 2 ^ 31"
  shows "AppendPartialToString D junk m output = Inr (True, output @ msg_bytes D d m)"
  using SerializeToArray_bytes [OF assms] msg_ok_sized(1) [OF assms] by (simp add: AppendPartialToString_def Let_def)

lemma SerializeToString_bytes:
  assumes "pool_ok D" "msg_ok D d m" "length (msg_bytes D d m) < 2 ^ 31" "IsInitialized D m"
  shows "SerializeToString debug D junk m = Inr (True, msg_bytes D d m)"
  using AppendPartialToString_bytes [OF assms(1-3)] assms(4) by (simp add: SerializeToString_def AppendToString_def)

text \<open>The shortcut through the current block and the way through the stream write the same bytes.\<close>

lemma SerializePartialToCodedStream_bytes:
  assumes ok: "pool_ok D" "msg_ok D d m" "length (msg_bytes D d m) < 2 ^ 31"
    and s: "cos_wf s" "length (msg_bytes D d m) \<le> room s"
  obtains s' where "SerializePartialToCodedStream D m s = Inr (True, s')" "cos_wf s'" "written s' = written s @ msg_bytes D d m"
proof (cases "obuffer_size s < ByteSize D m")
  case True
  obtain s' where s': "SerializeWithCachedSizes D m s = Inr ((), s')" "cos_wf s'" "written s' = written s @ msg_bytes D d m"
    by (rule writesE [OF msg_ok_sized(2) [OF ok] s])
  then have "ByteCount s' - ByteCount s = ByteSize D m" "\<not> had_error s'"
    using s(1) msg_ok_sized(1) [OF ok] by (simp_all add: cos_wf_def)
  then show ?thesis
    using that s' True
    by (simp add: SerializePartialToCodedStream_def GetDirectBufferForNBytesAndAdvance_def Let_def run_simps)
next
  case False
  let ?p = "nat (obuffer s)" and ?bs = "msg_bytes D d m"
  have n: "ByteSize D m = int (length ?bs)" by (rule msg_ok_sized(1) [OF ok])
  have b: "0 \<le> obuffer s" "0 \<le> obuffer_size s" "int (length (oblock s)) = obuffer s + obuffer_size s" using s(1) by (simp_all add: cos_wf_def)
  then have len: "length ?bs \<le> length (drop ?p (oblock s))" using False n by simp
  let ?mem = "take ?p (oblock s) @ ?bs @ drop (length ?bs) (drop ?p (oblock s))"
  let ?s = "COS_Advance (int (length ?bs)) s\<lparr>oblock := ?mem\<rparr>"
  have run: "SerializePartialToCodedStream D m s = Inr (True, ?s)"
    using False n SerializeToArray_bytes [OF ok len]
    by (simp add: SerializePartialToCodedStream_def GetDirectBufferForNBytesAndAdvance_def Let_def run_simps COS_Advance_def)
  have "?p \<le> length (oblock s)" using b by linarith
  then have "nat (obuffer s + int (length ?bs)) = length (take ?p (oblock s)) + length ?bs" using b(1) by (simp add: nat_add_distrib)
  then have out: "written ?s = written s @ ?bs" by (simp add: written_def COS_Advance_def)
  have "length ?mem = length (oblock s)" using len by simp
  then have "cos_wf ?s" using s(1) out False n unfolding cos_wf_def by (simp add: COS_Advance_def ByteCount_def)
  then show ?thesis using that run out by blast
qed

lemma SerializeToZeroCopyStream_bytes:
  assumes "pool_ok D" "msg_ok D d m" "length (msg_bytes D d m) < 2 ^ 31" "IsInitialized D m"
    "length (msg_bytes D d m) \<le> length (concat output)"
  shows "\<exists>free. SerializeToZeroCopyStream debug D m output = Inr (True, msg_bytes D d m, free)"
proof -
  obtain s where "SerializePartialToCodedStream D m (CodedOutputStream_new output) = Inr (True, s)" "cos_wf s"
    "written s = written (CodedOutputStream_new output) @ msg_bytes D d m"
    by (rule SerializePartialToCodedStream_bytes [OF assms(1-3) CodedOutputStream_new_wf(1)])
      (use assms(5) in \<open>simp_all add: CodedOutputStream_new_wf\<close>)
  then have "SerializeToZeroCopyStream debug D m output = Inr (True, CodedOutputStream_delete s)" "fst (CodedOutputStream_delete s) = msg_bytes D d m"
    using assms(4) delete_written(1) [of s]
    by (simp_all add: SerializeToZeroCopyStream_def to_zero_copy_def SerializeToCodedStream_def CodedOutputStream_new_wf)
  then show ?thesis by (cases "CodedOutputStream_delete s") simp
qed

section \<open>Parsing\<close>

text \<open>A stream with the bytes that make a message and nothing else, whatever its blocks.\<close>

lemma parse_fed:
  assumes feeds: "feeds (ParseAndMergePartial D) d bs (new_message (msg_type old)) m" and len: "length bs < 2 ^ 26" and d: "d \<le> 100"
    and st: "cis_wf s" "avail s = bs" "CurrentPosition s = 0" "recursion_depth s = 0" "recursion_limit s = 100"
      "total_bytes_limit s = 67108864"
  shows "and_consumed (InlineParsePartialFromCodedStream D (Suc (length bs)) old) s = Inr (True, m)"
    and "IsInitialized D m \<Longrightarrow> and_consumed (InlineParseFromCodedStream D (Suc (length bs)) old) s = Inr (True, m)"
proof -
  have fits: "fits d s" using st d len by (simp add: fits_def ready_def INT_MAX_def)
  obtain s' where "ParseAndMergePartial D (Suc (length bs)) (new_message (msg_type old)) s = Inr ((True, m), s')" "legitimate_message_end s'"
    using parse.whole [OF feeds fits st(2), of "Suc (length bs)"] by auto
  then show "and_consumed (InlineParsePartialFromCodedStream D (Suc (length bs)) old) s = Inr (True, m)"
    and "IsInitialized D m \<Longrightarrow> and_consumed (InlineParseFromCodedStream D (Suc (length bs)) old) s = Inr (True, m)"
    by (simp_all add: and_consumed_def InlineParseFromCodedStream_def InlineParsePartialFromCodedStream_def
        InlineMergeFromCodedStream_def Clear_def run_simps ConsumedEntireMessage_def)
qed

lemma parse_whole:
  assumes ok: "pool_ok D" "msg_ok D (Suc d) m" "length (msg_bytes D (Suc d) m) < 2 ^ 26" "IsInitialized D m"
    and d: "d \<le> 100" and type: "msg_type old = msg_type m"
    and st: "cis_wf s" "avail s = msg_bytes D (Suc d) m" "CurrentPosition s = 0" "recursion_depth s = 0" "recursion_limit s = 100"
      "total_bytes_limit s = 67108864"
  shows "and_consumed (InlineParseFromCodedStream D (Suc (length (msg_bytes D (Suc d) m))) old) s = Inr (True, m)"
proof (rule parse_fed(2) [OF _ ok(3) d st ok(4)])
  have "length (msg_bytes D (Suc d) m) < 2 ^ 31" using ok(3) by simp
  from feeds_message [OF ok(1,2) this]
  show "feeds (ParseAndMergePartial D) d (msg_bytes D (Suc d) m) (new_message (msg_type old)) m" by (simp only: type)
qed

lemma ParseFromString_bytes:
  assumes ok: "pool_ok D" "msg_ok D (Suc d) m" "length (msg_bytes D (Suc d) m) < 2 ^ 26" "IsInitialized D m"
    and d: "d \<le> 100" and type: "msg_type old = msg_type m"
  shows "ParseFromString D old (msg_bytes D (Suc d) m) = Inr (True, m)"
  unfolding ParseFromString_def InlineParseFromArray_def
  by (rule parse_whole [OF assms]) (use ok(3) of_array_ok [of "msg_bytes D (Suc d) m"] in \<open>simp_all add: kDefaultTotalBytesLimit_def\<close>)

lemma of_stream_ok:
  assumes "length (concat blocks) \<le> 2 ^ 26"
  obtains s where "CodedInputStream_of_stream blocks = Inr s" "cis_wf s" "avail s = concat blocks" "CurrentPosition s = 0"
    "recursion_depth s = 0" "recursion_limit s = 100" "total_bytes_limit s = 67108864"
proof -
  let ?s = "CodedInputStream_new (Some blocks) [] 0 INT_MAX"
  have st: "cis_wf ?s" "BufferSize ?s = 0" "avail ?s = concat blocks" "CurrentPosition ?s = 0"
    "recursion_depth ?s = 0" "recursion_limit ?s = 100" "total_bytes_limit ?s = 67108864"
    using assms
    by (simp_all add: CodedInputStream_new_def cis_wf_def avail_def raw_def closest_def CurrentPosition_def BufferSize_def inputs_def
        INT_MAX_def kDefaultTotalBytesLimit_def default_recursion_limit_def)
  obtain ok s where "Refresh ?s = Inr (ok, s)" "moved 0 ?s s"
    using Refresh_ok [OF st(1,2)] by (auto simp: mwp_total)
  then show ?thesis
    using that [of s] st moved_avail [of 0 ?s s] by (simp add: CodedInputStream_of_stream_def moved_def)
qed

lemma ParseFromZeroCopyStream_bytes:
  assumes ok: "pool_ok D" "msg_ok D (Suc d) m" "length (msg_bytes D (Suc d) m) < 2 ^ 26" "IsInitialized D m"
    and d: "d \<le> 100" and type: "msg_type old = msg_type m" and blocks: "concat blocks = msg_bytes D (Suc d) m"
  shows "ParseFromZeroCopyStream D old blocks = Inr (True, m)"
proof -
  have "length (concat blocks) \<le> 2 ^ 26" using ok(3) blocks by simp
  then obtain s where s: "CodedInputStream_of_stream blocks = Inr s" "cis_wf s" "avail s = msg_bytes D (Suc d) m" "CurrentPosition s = 0"
    "recursion_depth s = 0" "recursion_limit s = 100" "total_bytes_limit s = 67108864"
    by (rule of_stream_ok) (use blocks in auto)
  then show ?thesis by (simp add: ParseFromZeroCopyStream_def blocks parse_whole [OF assms(1-6)] del: msg_bytes.simps)
qed

lemma ParseFromString_total:
  assumes "length data \<le> 2 ^ 26"
  shows "\<exists>ok m'. ParseFromString D m data = Inr (ok, m') \<and> (ok \<longrightarrow> IsInitialized D m')"
proof -
  let ?s = "CodedInputStream_of_array data"
  have st: "cis_wf ?s" "avail ?s = data" "recursion_depth ?s = 0"
    using of_array_ok [of data] assms by (simp_all add: kDefaultTotalBytesLimit_def)
  then have "safe (ParseAndMergePartial D (Suc (length data)) (Clear m)) ?s"
    by (intro ParseAndMergePartial_safe) (simp_all add: ready_def)
  then obtain ok m' s' where "ParseAndMergePartial D (Suc (length data)) (Clear m) ?s = Inr ((ok, m'), s')"
    by (auto simp: safe_def mwp_total)
  then show ?thesis
    by (auto simp: ParseFromString_def InlineParseFromArray_def and_consumed_def InlineParseFromCodedStream_def
        InlineMergeFromCodedStream_def run_simps)
qed

section \<open>Properties\<close>

text \<open>
  C4. Any well-formed message of any type, with nested messages and groups up to the recursion limit, packed
  fields and unknown fields, is serialised without a fault to as many bytes as \<^verbatim>\<open>ByteSize\<close> announces, the
  same to a string and to a stream of blocks with room for them, and parsing these bytes, from a string or
  from a stream that delivers them in blocks cut anywhere, gives exactly that message back, whatever the
  message parsed into held before.
\<close>

theorem message_round_trip:
  assumes "pool_ok D" and "msg_ok D (Suc d) m" and "d \<le> 100" and "length (msg_bytes D (Suc d) m) < 2 ^ 26"
    and "IsInitialized D m" and "msg_type old = msg_type m"
  shows "\<exists>bs. SerializeToString debug D junk m = Inr (True, bs) \<and> int (length bs) = ByteSize D m
    \<and> (\<forall>output. length bs \<le> length (concat output) \<longrightarrow> (\<exists>free. SerializeToZeroCopyStream debug D m output = Inr (True, bs, free)))
    \<and> ParseFromString D old bs = Inr (True, m)
    \<and> (\<forall>blocks. concat blocks = bs \<longrightarrow> ParseFromZeroCopyStream D old blocks = Inr (True, m))"
proof -
  have len: "length (msg_bytes D (Suc d) m) < 2 ^ 31" using assms(4) by simp
  show ?thesis
    using SerializeToString_bytes [OF assms(1,2) len assms(5)] msg_ok_sized(1) [OF assms(1,2) len]
      SerializeToZeroCopyStream_bytes [OF assms(1,2) len assms(5)]
      ParseFromString_bytes [OF assms(1,2,4,5,3,6)] ParseFromZeroCopyStream_bytes [OF assms(1,2,4,5,3,6)]
    by (intro exI [of _ "msg_bytes D (Suc d) m"]) simp
qed

text \<open>A type with a packed field of zig-zag integers, a nested message, a required string and a field it does not know.\<close>

definition sample_pool :: "unit pool" where
  "sample_pool ty =
     [\<lparr>fd_number = 1, fd_type = TYPE_SINT32, fd_label = LABEL_REPEATED, fd_packed = True, fd_message = (), fd_enum = []\<rparr>,
      \<lparr>fd_number = 2, fd_type = TYPE_STRING, fd_label = LABEL_REQUIRED, fd_packed = False, fd_message = (), fd_enum = []\<rparr>,
      \<lparr>fd_number = 3, fd_type = TYPE_MESSAGE, fd_label = LABEL_OPTIONAL, fd_packed = False, fd_message = (), fd_enum = []\<rparr>]"

definition sample :: "unit Message" where
  "sample = Msg () [(1, [VPrim (PInt32 (-1)), VPrim (PInt32 2)]), (2, [VString [65, 66]]), (3, [VMessage (Msg () [(2, [VString []])] [])])]
     [UFixed32 9 7]"

lemma sample_ok:
  "pool_ok sample_pool" "msg_ok sample_pool (Suc 1) sample" "IsInitialized sample_pool sample"
  "length (msg_bytes sample_pool (Suc 1) sample) = 17"
proof -
  have "msg_bytes sample_pool (Suc 1) sample = [10, 2, 1, 4, 18, 2, 65, 66, 26, 2, 18, 0, 77, 7, 0, 0, 0]" by code_simp
  then show "length (msg_bytes sample_pool (Suc 1) sample) = 17" by simp
  show "msg_ok sample_pool (Suc 1) sample"
    by (simp add: sample_def sample_pool_def m_ok_def FindFieldByNumber_def field_ok_def is_repeated_def value_ok_def prim_ok_def
        known_enum_def number_ok_def)
  show "pool_ok sample_pool" by (simp add: pool_ok_def sample_pool_def number_ok_def is_packable_def is_repeated_def IsTypePackable_def)
  show "IsInitialized sample_pool sample"
    by (simp add: sample_def sample_pool_def IsInitialized.simps ListFields_def FieldInitialized_def is_required_def HasField_def GetField_def m_find_def)
qed

theorem message_round_trip_witness:
  "\<exists>bs. SerializeToString True sample_pool (\<lambda>_. 0) sample = Inr (True, bs) \<and> int (length bs) = ByteSize sample_pool sample
    \<and> (\<forall>output. length bs \<le> length (concat output) \<longrightarrow> (\<exists>free. SerializeToZeroCopyStream True sample_pool sample output = Inr (True, bs, free)))
    \<and> ParseFromString sample_pool (new_message ()) bs = Inr (True, sample)
    \<and> (\<forall>blocks. concat blocks = bs \<longrightarrow> ParseFromZeroCopyStream sample_pool (new_message ()) blocks = Inr (True, sample))"
  using message_round_trip [of sample_pool 1 sample "new_message ()" True "\<lambda>_. 0"] sample_ok by simp

end
