(* ===== verification/Game_Wire.thy ===== *)
theory Game_Wire
  imports Message_Lite Proto_Messages
begin

text \<open>
  The game's protocol on the wire: the message types of \<^verbatim>\<open>proto_islandsurvival.proto\<close> as descriptors, the
  game's messages as messages of the reflective runtime and back, and with them the contract that the
  message frame asks of the protocol buffer code, discharged by the model of the runtime. The generated
  classes implement the same wire format as reflection does.
\<close>

section \<open>Descriptors\<close>

fun game_label :: "label \<Rightarrow> Label" where
  "game_label Required = LABEL_REQUIRED"
| "game_label Optional = LABEL_OPTIONAL"
| "game_label Repeated = LABEL_REPEATED"

fun game_type :: "ftype \<Rightarrow> FieldType" where
  "game_type FInt32 = TYPE_INT32"
| "game_type FBool = TYPE_BOOL"
| "game_type FFloat = TYPE_FLOAT"
| "game_type FString = TYPE_STRING"
| "game_type (FMessage t) = TYPE_MESSAGE"

fun game_field :: "mtype \<Rightarrow> field \<Rightarrow> mtype FieldDescriptor" where
  "game_field ty (n, l, ft) =
     \<lparr>fd_number = int n, fd_type = game_type ft, fd_label = game_label l, fd_packed = False,
      fd_message = (case ft of FMessage t \<Rightarrow> t | _ \<Rightarrow> ty), fd_enum = []\<rparr>"

definition game_pool :: "mtype pool" where
  "game_pool ty = map (game_field ty) (fields_of ty)"

lemma game_pool_ok: "pool_ok game_pool"
  unfolding pool_ok_def
proof
  fix ty
  show "distinct (map fd_number (game_pool ty))
      \<and> (\<forall>f \<in> set (game_pool ty). number_ok (fd_number f) \<and> (fd_packed f \<longrightarrow> is_packable f))"
    by (cases ty) (simp_all add: game_pool_def number_ok_def)
qed

lemma find_game_field:
  "find (\<lambda>f. fd_number f = int n) (map (game_field ty) fs) = map_option (\<lambda>p. game_field ty (n, p)) (map_of fs n)"
  by (induction fs) auto

lemma FindField_game:
  "FindFieldByNumber game_pool ty (int n) = map_option (\<lambda>p. game_field ty (n, p)) (map_of (fields_of ty) n)"
  by (simp add: FindFieldByNumber_def game_pool_def find_game_field)

section \<open>Messages\<close>

definition byte_of :: "char \<Rightarrow> byte" where
  "byte_of c = of_char c"

definition char_of_byte :: "byte \<Rightarrow> char" where
  "char_of_byte b = char_of (unat b)"

lemma char_of_byte_of [simp]: "char_of_byte (byte_of c) = c"
proof -
  have "(of_char c :: byte) = of_nat (of_char c)" by (simp add: of_nat_of_char)
  then have "unat (of_char c :: byte) = take_bit 8 (of_char c)" by (simp add: unsigned_of_nat)
  then have "char_of (unat (of_char c :: byte)) = (char_of (of_char c :: nat) :: char)"
    by (simp only: char_of_take_bit_eq [OF order_refl])
  then show ?thesis by (simp add: char_of_byte_def byte_of_def)
qed

primrec to_values :: "pval \<Rightarrow> mtype Value list" and to_wire :: "pmsg \<Rightarrow> mtype Message" where
  "to_values (VInt i) = [VPrim (PInt32 (word_of_int i))]"
| "to_values (VBool b) = [VPrim (PBool b)]"
| "to_values (VFloat w) = [VPrim (PFloat w)]"
| "to_values (VStr str) = [VString (map byte_of str)]"
| "to_values (VMsg m) = [VMessage (to_wire m)]"
| "to_values (VRep vs) = concat (map to_values vs)"
| "to_wire (PB ty fs) = Msg ty (map (map_prod int to_values) fs) []"

definition of_prim :: "prim \<Rightarrow> pval" where
  "of_prim p = (case p of PInt32 w \<Rightarrow> VInt (sint w) | PBool b \<Rightarrow> VBool b | PFloat w \<Rightarrow> VFloat w | _ \<Rightarrow> VInt 0)"

definition repeated_field :: "mtype \<Rightarrow> nat \<Rightarrow> bool" where
  "repeated_field ty n \<longleftrightarrow> (case map_of (fields_of ty) n of Some (Repeated, _) \<Rightarrow> True | _ \<Rightarrow> False)"

primrec of_value :: "mtype Value \<Rightarrow> pval" and of_wire :: "mtype Message \<Rightarrow> pmsg" where
  "of_value (VPrim p) = of_prim p"
| "of_value (VString str) = VStr (map char_of_byte str)"
| "of_value (VMessage m) = VMsg (of_wire m)"
| "of_wire (Msg ty fs us) =
     PB ty (map (\<lambda>(n, vs). (nat n, if repeated_field ty (nat n) then VRep vs else hd vs)) (map (map_prod id (map of_value)) fs))"

section \<open>Well-formed game messages\<close>

definition pval_ok :: "(pmsg \<Rightarrow> bool) \<Rightarrow> ftype \<Rightarrow> pval \<Rightarrow> bool" where
  "pval_ok ok ft v =
     (case v of
        VInt i \<Rightarrow> ft = FInt32 \<and> - (2 ^ 31) \<le> i \<and> i < 2 ^ 31
      | VBool b \<Rightarrow> ft = FBool
      | VFloat w \<Rightarrow> ft = FFloat
      | VStr str \<Rightarrow> ft = FString \<and> length str < 2 ^ 31
      | VMsg m \<Rightarrow> ft = FMessage (pb_type m) \<and> ok m
      | VRep vs \<Rightarrow> False)"

definition pfield_ok :: "(pmsg \<Rightarrow> bool) \<Rightarrow> label \<Rightarrow> ftype \<Rightarrow> pval \<Rightarrow> bool" where
  "pfield_ok ok l ft v =
     (if l = Repeated then (case v of VRep vs \<Rightarrow> vs \<noteq> [] \<and> list_all (pval_ok ok ft) vs | _ \<Rightarrow> False) else pval_ok ok ft v)"

text \<open>
  Every field is one of the type's and has a value of its type, the required fields are set, and messages
  are nested less than \<open>d\<close> deep.
\<close>

primrec pmsg_ok :: "nat \<Rightarrow> pmsg \<Rightarrow> bool" where
  "pmsg_ok 0 m = False"
| "pmsg_ok (Suc d) m \<longleftrightarrow>
     m_ok (pb_fields m)
     \<and> list_all (\<lambda>(n, v). case map_of (fields_of (pb_type m)) n of None \<Rightarrow> False | Some (l, ft) \<Rightarrow> pfield_ok (pmsg_ok d) l ft v) (pb_fields m)
     \<and> list_all (\<lambda>(n, l, ft). l = Required \<longrightarrow> pb_has m n) (fields_of (pb_type m))"

lemma pmsg_ok_field:
  assumes "pmsg_ok (Suc d) m" "(n, v) \<in> set (pb_fields m)"
  obtains l ft where "map_of (fields_of (pb_type m)) n = Some (l, ft)" "pfield_ok (pmsg_ok d) l ft v"
proof -
  have "case map_of (fields_of (pb_type m)) n of None \<Rightarrow> False | Some (l, ft) \<Rightarrow> pfield_ok (pmsg_ok d) l ft v"
    using assms unfolding pmsg_ok.simps list_all_iff by blast
  then show ?thesis using that by (cases "map_of (fields_of (pb_type m)) n") auto
qed

lemma to_wire_parts [simp]:
  "msg_type (to_wire m) = pb_type m" "msg_fields (to_wire m) = map (map_prod int to_values) (pb_fields m)"
  "msg_unknown (to_wire m) = []"
  by (cases m, simp)+

lemma one_value: "pval_ok ok ft v \<Longrightarrow> \<exists>w. to_values v = [w]"
  by (cases v) (simp_all add: pval_ok_def)

lemma of_value_to_value:
  assumes "pval_ok ok ft v" "\<And>m. ok m \<Longrightarrow> of_wire (to_wire m) = m"
  shows "map of_value (to_values v) = [v]"
  using assms by (cases v) (auto simp: pval_ok_def of_prim_def o_def signed_of_int signed_take_bit_int_eq_self)

lemma of_value_to_values:
  assumes "list_all (pval_ok ok ft) vs" "\<And>m. ok m \<Longrightarrow> of_wire (to_wire m) = m"
  shows "map of_value (concat (map to_values vs)) = vs"
  using assms(1) by (induction vs) (auto simp: of_value_to_value [OF _ assms(2)])

lemma of_field:
  assumes f: "map_of (fields_of ty) n = Some (l, ft)" "pfield_ok ok l ft v" and sub: "\<And>m. ok m \<Longrightarrow> of_wire (to_wire m) = m"
  shows "(if repeated_field ty n then VRep (map of_value (to_values v)) else hd (map of_value (to_values v))) = v"
proof (cases "l = Repeated")
  case True
  then obtain vs where "v = VRep vs" "list_all (pval_ok ok ft) vs" using f(2) by (cases v) (auto simp: pfield_ok_def)
  then show ?thesis using of_value_to_values [OF _ sub] True f(1) by (simp add: repeated_field_def)
next
  case False
  then have "\<not> repeated_field ty n" using f(1) by (cases l) (simp_all add: repeated_field_def)
  moreover have "map of_value (to_values v) = [v]" using f(2) False of_value_to_value [OF _ sub] by (simp add: pfield_ok_def)
  ultimately show ?thesis by simp
qed

lemma of_wire_to_wire: "pmsg_ok d m \<Longrightarrow> of_wire (to_wire m) = m"
proof (induction d arbitrary: m)
  case (Suc d)
  obtain ty fs where m: "m = PB ty fs" by (cases m)
  let ?f = "(\<lambda>(n, vs). (nat n, if repeated_field ty (nat n) then VRep vs else hd vs)) \<circ> map_prod id (map of_value) \<circ> map_prod int to_values"
  have "map ?f fs = fs"
  proof (rule map_idI)
    fix e assume e: "e \<in> set fs"
    obtain n v where nv: "e = (n, v)" by (cases e)
    obtain l ft where "map_of (fields_of ty) n = Some (l, ft)" "pfield_ok (pmsg_ok d) l ft v"
      by (rule pmsg_ok_field [OF Suc.prems, of n v]) (use e m nv in simp_all)
    from of_field [OF this Suc.IH] show "?f e = e" by (simp add: nv)
  qed
  then have "map (\<lambda>(n, vs). (nat n, if repeated_field ty (nat n) then VRep vs else hd vs))
      (map (map_prod id (map of_value)) (map (map_prod int to_values) fs)) = fs"
    by (simp only: map_map o_assoc)
  then show ?case by (simp only: m to_wire.simps of_wire.simps)
qed simp

section \<open>They are well-formed messages of the runtime\<close>

lemma pval_value_ok:
  assumes "pval_ok ok ft v" "\<forall>m. ok m \<longrightarrow> ok' (to_wire m)"
  shows "list_all (value_ok ok' (game_field ty (n, l, ft))) (to_values v)"
  using assms by (cases v) (auto simp: pval_ok_def value_ok_def prim_ok_def known_enum_def)

lemma pfield_field_ok:
  assumes "pfield_ok ok l ft v" "\<forall>m. ok m \<longrightarrow> ok' (to_wire m)"
  shows "field_ok ok' (game_field ty (n, l, ft)) (to_values v)"
proof (cases "l = Repeated")
  case True
  then obtain vs where v: "v = VRep vs" "vs \<noteq> []" "list_all (pval_ok ok ft) vs" using assms(1) by (cases v) (auto simp: pfield_ok_def)
  then have "to_values (hd vs) \<noteq> []" using one_value [of ok ft "hd vs"] by (cases vs) auto
  then have "to_values v \<noteq> []" using v by (cases vs) auto
  moreover have "list_all (value_ok ok' (game_field ty (n, l, ft))) (to_values v)"
    using v(3) unfolding v(1) to_values.simps
    by (induction vs) (simp_all add: pval_value_ok [OF _ assms(2)] del: game_field.simps)
  ultimately show ?thesis using True by (simp add: field_ok_def is_repeated_def)
next
  case False
  then have v: "pval_ok ok ft v" using assms(1) by (simp add: pfield_ok_def)
  then obtain w where "to_values v = [w]" using one_value by blast
  then show ?thesis using pval_value_ok [OF v assms(2), of ty n l] by (simp add: field_ok_def del: game_field.simps)
qed

lemma m_ok_int_keys: "m_ok (map (map_prod int f) fs) = m_ok fs"
  by (simp add: m_ok_def sorted_wrt_map comp_def)

lemma to_wire_ok: "pmsg_ok d m \<Longrightarrow> msg_ok game_pool d (to_wire m)"
proof (induction d arbitrary: m)
  case (Suc d)
  have fields: "case FindFieldByNumber game_pool (pb_type m) (int n) of None \<Rightarrow> False | Some f \<Rightarrow> field_ok (msg_ok game_pool d) f (to_values v)"
    if mem: "(n, v) \<in> set (pb_fields m)" for n v
  proof -
    obtain l ft where "map_of (fields_of (pb_type m)) n = Some (l, ft)" "pfield_ok (pmsg_ok d) l ft v"
      by (rule pmsg_ok_field [OF Suc.prems mem])
    then show ?thesis
      using pfield_field_ok [of "pmsg_ok d" l ft v "msg_ok game_pool d"] Suc.IH by (simp add: FindField_game del: game_field.simps)
  qed
  have "list_all (\<lambda>(n, vs). case FindFieldByNumber game_pool (pb_type m) n of None \<Rightarrow> False
      | Some f \<Rightarrow> field_ok (msg_ok game_pool d) f vs) (map (map_prod int to_values) (pb_fields m))"
    unfolding list_all_iff
  proof
    fix e assume "e \<in> set (map (map_prod int to_values) (pb_fields m))"
    then obtain n v where "(n, v) \<in> set (pb_fields m)" "e = (int n, to_values v)" by auto
    then show "case e of (n, vs) \<Rightarrow> case FindFieldByNumber game_pool (pb_type m) n of None \<Rightarrow> False
        | Some f \<Rightarrow> field_ok (msg_ok game_pool d) f vs"
      using fields [of n v] by simp
  qed
  then show ?case using Suc.prems unfolding msg_ok.simps to_wire_parts m_ok_int_keys by simp
qed simp

lemma GetField_to_wire:
  "GetField (to_wire m) (int n) = (case pb_get m n of None \<Rightarrow> [] | Some v \<Rightarrow> to_values v)"
proof -
  have "map_of (map (map_prod int to_values) fs) (int n) = map_option to_values (map_of fs n)" for fs
    by (induction fs) auto
  then show ?thesis by (simp add: GetField_def m_find_def pb_get_def split: option.split)
qed

lemma sub_messages:
  assumes "pfield_ok ok l ft v" "VMessage x \<in> set (to_values v)"
  shows "\<exists>m. x = to_wire m \<and> ok m"
proof -
  have one: "\<exists>m. x = to_wire m \<and> ok m" if "pval_ok ok ft w" "VMessage x \<in> set (to_values w)" for w
    using that by (cases w) (auto simp: pval_ok_def)
  show ?thesis
  proof (cases "l = Repeated")
    case True
    then obtain vs where "v = VRep vs" "list_all (pval_ok ok ft) vs" using assms(1) by (cases v) (auto simp: pfield_ok_def)
    then show ?thesis using one assms(2) by (auto simp: list_all_iff)
  next
    case False
    then show ?thesis using one assms by (simp add: pfield_ok_def)
  qed
qed

lemma pfield_values: "pfield_ok ok l ft v \<Longrightarrow> to_values v \<noteq> []"
  using pfield_field_ok [of ok l ft v "\<lambda>_. True"] by (simp add: field_ok_def)

lemma to_wire_initialized: "pmsg_ok d m \<Longrightarrow> IsInitialized game_pool (to_wire m)"
proof (induction d arbitrary: m)
  case (Suc d)
  have get: "\<exists>l ft v. pb_get m n = Some v \<and> pfield_ok (pmsg_ok d) l ft v" if has: "pb_has m n" for n
  proof -
    obtain v where v: "pb_get m n = Some v" using has by (auto simp: pb_has_def)
    then have "(n, v) \<in> set (pb_fields m)" by (simp add: pb_get_def m_find_in_set)
    then show ?thesis using v by (metis pmsg_ok_field [OF Suc.prems])
  qed
  have required: "HasField (to_wire m) f" if f: "f \<in> set (game_pool (pb_type m))" "is_required f" for f
  proof -
    obtain n l ft where e: "(n, l, ft) \<in> set (fields_of (pb_type m))" "f = game_field (pb_type m) (n, l, ft)"
      using f(1) by (auto simp: game_pool_def)
    then have "l = Required" using f(2) by (cases l) (simp_all add: is_required_def)
    then have "pb_has m n" using Suc.prems e(1) by (auto simp: list_all_iff)
    then show ?thesis using get [of n] pfield_values e(2) by (auto simp: HasField_def GetField_to_wire)
  qed
  have sub: "IsInitialized game_pool x" if f: "f \<in> set (game_pool (pb_type m))" "VMessage x \<in> set (GetField (to_wire m) (fd_number f))" for f x
  proof -
    obtain n where n: "fd_number f = int n" using f(1) by (auto simp: game_pool_def)
    have in_field: "VMessage x \<in> set (case pb_get m n of None \<Rightarrow> [] | Some v \<Rightarrow> to_values v)"
      using f(2) unfolding n GetField_to_wire .
    obtain v where v: "pb_get m n = Some v" "VMessage x \<in> set (to_values v)"
      using in_field by (cases "pb_get m n") simp_all
    then have "pb_has m n" by (simp add: pb_has_def)
    then obtain l ft where "pfield_ok (pmsg_ok d) l ft v" using get [of n] v(1) by auto
    then show ?thesis using sub_messages [OF _ v(2)] Suc.IH by blast
  qed
  show ?case
    using required sub
    by (subst IsInitialized.simps) (auto simp: list_all_iff FieldInitialized_def ListFields_def split: Value.split)
qed simp

section \<open>The game's codec\<close>

definition junk0 :: "nat \<Rightarrow> byte" where
  "junk0 i = 0"

definition game_ser :: "pmsg \<Rightarrow> byte list" where
  "game_ser p = (case SerializeToString False game_pool junk0 (to_wire p) of Inl _ \<Rightarrow> [] | Inr (_, bs) \<Rightarrow> bs)"

definition game_parse :: "pmsg \<Rightarrow> byte list \<Rightarrow> bool \<times> pmsg" where
  "game_parse q bs =
     (case ParseFromString game_pool (to_wire q) bs of Inl _ \<Rightarrow> (False, q) | Inr (ok, m) \<Rightarrow> (ok, of_wire m))"

definition game_ok :: "pmsg \<Rightarrow> bool" where
  "game_ok p \<longleftrightarrow> pmsg_ok 3 p \<and> length (msg_bytes game_pool 3 (to_wire p)) < 2 ^ 26"

lemma game_ser_bytes: "game_ok p \<Longrightarrow> game_ser p = msg_bytes game_pool 3 (to_wire p)"
  using SerializeToString_bytes [OF game_pool_ok to_wire_ok, of 3 p False junk0] to_wire_initialized [of 3 p]
  by (simp add: game_ok_def game_ser_def)

lemma three: "(3::nat) = Suc 2"
  by simp

lemma game_parse_ser:
  assumes "pb_type q = pb_type p" "game_ok p"
  shows "game_parse q (game_ser p) = (True, p)"
proof -
  have p: "pmsg_ok 3 p" "length (msg_bytes game_pool 3 (to_wire p)) < 2 ^ 26"
    using assms(2) by (simp_all add: game_ok_def)
  have ok: "msg_ok game_pool 3 (to_wire p)" by (rule to_wire_ok [OF p(1)])
  have "ParseFromString game_pool (to_wire q) (msg_bytes game_pool 3 (to_wire p)) = Inr (True, to_wire p)"
    using ok p(2) unfolding three
    by (rule ParseFromString_bytes [OF game_pool_ok _ _ to_wire_initialized [OF p(1)]]) (use assms(1) in simp_all)
  then show ?thesis
    by (simp only: game_ser_bytes [OF assms(2)] game_parse_def) (simp add: of_wire_to_wire [OF p(1)])
qed

interpretation game: proto_codec game_ser game_parse pb_type game_ok
  by unfold_locales (rule game_parse_ser)

section \<open>Properties\<close>

text \<open>
  C7. A game message survives the whole trip, from object to bytes and back: the frame encoder with the runtime's
  serialiser puts it in the send buffer with its length in the head, and the frame decoder with the
  runtime's parser, given the bytes that were written, returns the same head and the same message.
\<close>

theorem game_message_round_trip:
  assumes "m_proto mess = Some p" and "game_ok p" and "16 + length (game_ser p) \<le> length outs" and "length outs < 2 ^ 31"
    and "m_proto seed = Some q" and "pb_type q = pb_type p"
  shows "\<exists>mess' buf n. CMessage_encode game_ser mess outs = Inr (mess', buf, n)
    \<and> CMessage_decode game_parse seed (Some buf) n = Inr (success, seed\<lparr>m_head := m_head mess', m_proto := Some p\<rparr>)
    \<and> m_head mess' = (m_head mess)\<lparr>m_packetlen := of_int n\<rparr>"
  by (rule game.encode_decode [OF assms])

text \<open>The room list with one room of three players waiting.\<close>

definition room_list :: pmsg where
  "room_list = PB SCPullAllRoomInfo
     [(1, VRep [VMsg (PB PBRoomInfo [(1, VInt 7), (2, VInt 300), (3, VInt 8), (4, VInt 3), (5, VInt 0)])])]"

lemma room_list_bytes:
  "pmsg_ok 3 room_list" "msg_bytes game_pool 3 (to_wire room_list) = [10, 11, 8, 7, 16, 172, 2, 24, 8, 32, 3, 40, 0]"
  by code_simp+

lemma room_list_ok: "game_ok room_list" "length (game_ser room_list) = 13"
proof -
  show "game_ok room_list" using room_list_bytes by (simp add: game_ok_def)
  from game_ser_bytes [OF this] room_list_bytes(2) show "length (game_ser room_list) = 13" by simp
qed

theorem game_message_round_trip_witness:
  "\<exists>mess' buf n head. CMessage_encode game_ser \<lparr>m_head = head, m_proto = Some room_list\<rparr> (replicate 64 0) = Inr (mess', buf, n)
    \<and> CMessage_decode game_parse \<lparr>m_head = head, m_proto = Some (PB SCPullAllRoomInfo [])\<rparr> (Some buf) n
      = Inr (success, \<lparr>m_head = m_head mess', m_proto = Some room_list\<rparr>)"
proof -
  define h where "h = \<lparr>m_packetlen = 0, m_message_id = 8, m_framenum = 0, m_message_hash = 0\<rparr>"
  have type: "pb_type room_list = SCPullAllRoomInfo" by (simp add: room_list_def)
  show ?thesis
    using game_message_round_trip [of "\<lparr>m_head = h, m_proto = Some room_list\<rparr>" room_list "replicate 64 0"
        "\<lparr>m_head = h, m_proto = Some (PB SCPullAllRoomInfo [])\<rparr>" "PB SCPullAllRoomInfo []"] room_list_ok type
    by auto
qed

end
