(* ===== verification/Message_Types.thy ===== *)
theory Message_Types
  imports Message_Lite
begin

text \<open>
  What the parser makes of arbitrary bytes is a message of its type: every field that is set is one of the
  type's, holds values of the field's type, one if the field is not repeated, the enumeration values are
  known ones, and the messages inside are such messages of their own types.
\<close>

section \<open>Messages of their types\<close>

definition value_typed :: "('m Message \<Rightarrow> bool) \<Rightarrow> 'm FieldDescriptor \<Rightarrow> 'm Value \<Rightarrow> bool" where
  "value_typed typed f v =
     (case v of
        VPrim p \<Rightarrow> prim_ok (fd_type f) p \<and> known_enum f p
      | VString str \<Rightarrow> fd_type f = TYPE_STRING \<or> fd_type f = TYPE_BYTES
      | VMessage x \<Rightarrow> (fd_type f = TYPE_GROUP \<or> fd_type f = TYPE_MESSAGE) \<and> msg_type x = fd_message f \<and> typed x)"

definition field_typed :: "('m Message \<Rightarrow> bool) \<Rightarrow> 'm pool \<Rightarrow> 'm \<Rightarrow> int \<times> 'm Value list \<Rightarrow> bool" where
  "field_typed typed D ty e =
     (case FindFieldByNumber D ty (fst e) of None \<Rightarrow> False
      | Some f \<Rightarrow> snd e \<noteq> [] \<and> (\<not> is_repeated f \<longrightarrow> length (snd e) = 1) \<and> list_all (value_typed typed f) (snd e))"

lemma field_typed_cong [fundef_cong]:
  assumes "D = D'" "ty = ty'" "e = e'" "\<And>x. VMessage x \<in> set (snd e') \<Longrightarrow> typed x = typed' x"
  shows "field_typed typed D ty e = field_typed typed' D' ty' e'"
proof -
  have "value_typed typed f v = value_typed typed' f v" if "v \<in> set (snd e')" for f v
    using assms(4) that by (cases v) (auto simp: value_typed_def)
  then have "list_all (value_typed typed f) (snd e') = list_all (value_typed typed' f) (snd e')" for f
    by (simp add: list_all_iff)
  then show ?thesis by (simp add: field_typed_def assms(1-3) cong: option.case_cong)
qed

lemma field_size: "e \<in> set (msg_fields m) \<Longrightarrow> VMessage x \<in> set (snd e) \<Longrightarrow> size x < size m"
proof -
  assume e: "e \<in> set (msg_fields m)" "VMessage x \<in> set (snd e)"
  obtain ty fs us where m: "m = Msg ty fs us" by (cases m)
  have "size x < size (VMessage x)" by simp
  also have "\<dots> \<le> size_list size (snd e)" using e(2) by (rule size_list_estimation') simp
  also have "\<dots> \<le> size_list (size_prod (\<lambda>_. 0) (size_list size)) fs"
    using e(1) m by (intro size_list_estimation' [where x = e]) (auto simp: size_prod_simp split: prod.split)
  finally show ?thesis by (simp add: m)
qed

function msg_typed :: "'m pool \<Rightarrow> 'm Message \<Rightarrow> bool" where
  "msg_typed D m \<longleftrightarrow> m_ok (msg_fields m) \<and> list_all (field_typed (msg_typed D) D (msg_type m)) (msg_fields m)"
  by pat_completeness auto
termination
  by (relation "measure (\<lambda>(D, m). size m)") (auto intro: field_size)

declare msg_typed.simps [simp del]

text \<open>A message of type \<open>ty\<close>, well-typed.\<close>

definition of_type :: "'m pool \<Rightarrow> 'm \<Rightarrow> 'm Message \<Rightarrow> bool" where
  "of_type D ty m \<longleftrightarrow> msg_type m = ty \<and> msg_typed D m"

lemma new_message_of_type: "of_type D ty (new_message ty)"
  by (simp add: of_type_def new_message_def msg_typed.simps m_ok_def)

lemma set_m_insert: "set (m_insert fs k v) \<subseteq> insert (k, v) (set fs)"
  by (induction fs k v rule: m_insert.induct) auto

lemma put_field_parts [simp]:
  "msg_type (put_field m n vs) = msg_type m" "msg_fields (put_field m n vs) = m_insert (msg_fields m) n vs"
  "msg_type (put_unknown m us) = msg_type m" "msg_fields (put_unknown m us) = msg_fields m"
  by (cases m, simp)+

lemma put_field_of_type:
  assumes "of_type D ty m" "field_typed (msg_typed D) D ty (n, vs)"
  shows "of_type D ty (put_field m n vs)"
  using assms set_m_insert [of "msg_fields m" n vs] m_ok_insert [of "msg_fields m" n vs]
  by (auto simp: of_type_def msg_typed.simps [of D m] msg_typed.simps [of D "put_field m n vs"] list_all_iff)

lemma put_unknown_of_type: "of_type D ty (put_unknown m us) = of_type D ty m"
  by (simp add: of_type_def msg_typed.simps [of D m] msg_typed.simps [of D "put_unknown m us"])

lemma of_type_field:
  assumes "of_type D ty m" "FindFieldByNumber D ty n = Some f" "v \<in> set (GetField m n)"
  shows "value_typed (msg_typed D) f v"
proof (cases "m_find (msg_fields m) n")
  case None
  then show ?thesis using assms(3) by (simp add: GetField_def)
next
  case (Some vs)
  then have "field_typed (msg_typed D) D ty (n, vs)"
    using assms(1) m_find_in_set [of "msg_fields m" n vs] by (auto simp: of_type_def msg_typed.simps [of D m] list_all_iff)
  then show ?thesis using assms(2,3) Some by (simp add: field_typed_def GetField_def list_all_iff)
qed

lemma SetOrAdd_of_type:
  assumes "of_type D ty m" "FindFieldByNumber D ty (fd_number f) = Some f" "value_typed (msg_typed D) f v"
  shows "of_type D ty (SetOrAdd f v m)"
  unfolding SetOrAdd_def
  by (rule put_field_of_type [OF assms(1)])
    (use assms of_type_field [OF assms(1,2)] in \<open>auto simp: field_typed_def list_all_iff\<close>)

lemma sub_message_of_type:
  assumes "of_type D ty m" "FindFieldByNumber D ty (fd_number f) = Some f"
  shows "of_type D (fd_message f) (sub_message f m)"
proof (cases "\<exists>x vs. \<not> is_repeated f \<and> GetField m (fd_number f) = VMessage x # vs")
  case True
  then obtain x vs where x: "\<not> is_repeated f" "GetField m (fd_number f) = VMessage x # vs" by blast
  then have "value_typed (msg_typed D) f (VMessage x)" by (intro of_type_field [OF assms]) simp
  then show ?thesis using x by (simp add: sub_message_def value_typed_def of_type_def)
next
  case False
  then have "sub_message f m = new_message (fd_message f)" by (auto simp: sub_message_def split: list.split Value.split)
  then show ?thesis by (simp add: new_message_of_type)
qed

section \<open>What a computation returns\<close>

text \<open>Whatever the stream, when the computation returns its result satisfies \<open>P\<close>.\<close>

definition yields :: "('a \<Rightarrow> bool) \<Rightarrow> 'a cis \<Rightarrow> bool" where
  "yields P m \<longleftrightarrow> (\<forall>s. mwp m (\<lambda>x _. P x) (\<lambda>_. True) s)"

named_theorems yields_intros

lemma yields_return [yields_intros]: "P x \<Longrightarrow> yields P (mreturn x)"
  by (simp add: yields_def wp_simps)

lemma yields_fault [yields_intros]: "yields P (mfault e)"
  by (simp add: yields_def wp_simps)

lemma yields_bind:
  assumes "yields Q m" "\<And>x. Q x \<Longrightarrow> yields P (k x)"
  shows "yields P (mbind m k)"
  unfolding yields_def mwp_bind
proof
  fix s
  show "mwp m (\<lambda>x. mwp (k x) (\<lambda>x _. P x) (\<lambda>_. True)) (\<lambda>_. True) s"
    by (rule mwp_mono [where Q = "\<lambda>x _. Q x" and E = "\<lambda>_. True"]) (use assms in \<open>simp_all add: yields_def\<close>)
qed

lemma yields_any: "yields (\<lambda>_. True) m"
  by (simp add: yields_def mwp_def split: sum.split)

lemma yields_then: "(\<And>x. yields P (k x)) \<Longrightarrow> yields P (mbind m k)"
  by (rule yields_bind [OF yields_any])

lemmas yields_reads [yields_intros] =
  yields_then [where m = ReadVarint32] yields_then [where m = ReadVarint64] yields_then [where m = ReadLittleEndian32]
  yields_then [where m = ReadLittleEndian64] yields_then [where m = ReadTag] yields_then [where m = IncrementDepth]
  yields_then [where m = "mgets f" for f] yields_then [where m = "\<lambda>s. Inr (PushLimit b s)" for b]

lemma yields_seq [yields_intros]: "yields P k \<Longrightarrow> yields P (mseq m k)"
  by (simp add: mseq_def yields_then)

lemma yields_if [yields_intros]: "(b \<Longrightarrow> yields P m) \<Longrightarrow> (\<not> b \<Longrightarrow> yields P n) \<Longrightarrow> yields P (if b then m else n)"
  by simp

text \<open>Of a computation that returns whether it succeeded and, in either case, a message.\<close>

lemma yields_and_then:
  assumes "yields (\<lambda>(ok, x). Q x) m" "\<And>ok x. Q x \<Longrightarrow> yields P (k ok x)"
  shows "yields P (mbind m (\<lambda>(ok, x). k ok x))"
  by (rule yields_bind [OF assms(1)]) (use assms(2) in auto)

section \<open>The parser\<close>

lemma ReadPrimitive_yields:
  assumes "primitive type"
  shows "yields (\<lambda>r. \<forall>v. r = Some v \<longrightarrow> prim_ok type v) (ReadPrimitive type)"
  using assms
  by (cases type) (auto simp: ReadPrimitive_def Let_def prim_ok_def intro!: yields_intros)

lemma packed_value_of_type:
  assumes "of_type D ty m" "FindFieldByNumber D ty (fd_number f) = Some f" "is_repeated f" "prim_ok (fd_type f) v"
  shows "of_type D ty (packed_value f v m)"
proof (cases "known_enum f v")
  case True
  then have "packed_value f v m = SetOrAdd f (VPrim v) m" using assms(3) by (simp add: packed_value_def SetOrAdd_def)
  then show ?thesis using SetOrAdd_of_type [OF assms(1,2)] assms(4) True by (simp add: value_typed_def)
qed (simp add: packed_value_def assms(1))

lemma single_value_of_type:
  assumes "of_type D ty m" "FindFieldByNumber D ty (fd_number f) = Some f" "prim_ok (fd_type f) v"
  shows "of_type D ty (single_value tag f v m)"
  using SetOrAdd_of_type [OF assms(1,2)] assms(1,3)
  by (auto simp: single_value_def value_typed_def put_unknown_of_type split: prim.split)

lemma ReadPacked_of_type:
  assumes f: "FindFieldByNumber D ty (fd_number f) = Some f" "is_repeated f" "primitive (fd_type f)"
  shows "of_type D ty m \<Longrightarrow> yields (\<lambda>(ok, m'). of_type D ty m') (ReadPacked k f m)"
proof (induction k arbitrary: m)
  case (Suc k)
  have "yields (\<lambda>(ok, m'). of_type D ty m') (case r of None \<Rightarrow> mreturn (False, m) | Some v \<Rightarrow> ReadPacked k f (packed_value f v m))"
    if "\<forall>v. r = Some v \<longrightarrow> prim_ok (fd_type f) v" for r
    using that Suc packed_value_of_type [OF Suc.prems f(1,2)] by (cases r) (auto intro: yields_intros)
  then show ?case
    using Suc.prems by (auto intro!: yields_intros yields_bind [OF ReadPrimitive_yields [OF f(3)]])
qed (simp add: yields_fault)

text \<open>\<open>merge\<close> keeps the message one of its type, whatever the type.\<close>

definition keeps_types :: "'m pool \<Rightarrow> ('m Message \<Rightarrow> (bool \<times> 'm Message) cis) \<Rightarrow> bool" where
  "keeps_types D merge \<longleftrightarrow> (\<forall>ty m. of_type D ty m \<longrightarrow> yields (\<lambda>(ok, m'). of_type D ty m') (merge m))"

lemma ReadGroup_of_type:
  assumes "keeps_types D merge" "of_type D ty x"
  shows "yields (\<lambda>(ok, x'). of_type D ty x') (ReadGroup merge n x)"
  using assms by (auto simp: ReadGroup_def keeps_types_def intro!: yields_intros yields_and_then [where Q = "of_type D ty"])

lemma ReadMessage_of_type:
  assumes "keeps_types D merge" "of_type D ty x"
  shows "yields (\<lambda>(ok, x'). of_type D ty x') (ReadMessage merge x)"
  using assms
  by (auto simp: ReadMessage_def keeps_types_def intro!: yields_intros yields_and_then [where Q = "of_type D ty"] split: option.split)

lemma ReadNormal_of_type:
  assumes merge: "keeps_types D merge" and m: "of_type D ty m" "FindFieldByNumber D ty (fd_number f) = Some f"
  shows "yields (\<lambda>(ok, m'). of_type D ty m') (ReadNormal merge tag f m)"
proof -
  have prim: "yields (\<lambda>(ok, m'). of_type D ty m')
      (mbind (ReadPrimitive (fd_type f)) (\<lambda>r. mreturn (case r of None \<Rightarrow> (False, m) | Some v \<Rightarrow> (True, single_value tag f v m))))"
    if "primitive (fd_type f)"
    by (rule yields_bind [OF ReadPrimitive_yields [OF that]])
      (use m single_value_of_type [OF m] in \<open>auto intro!: yields_intros split: option.split\<close>)
  have str: "yields (\<lambda>(ok, m'). of_type D ty m')
      (mbind WFL_ReadString (\<lambda>(ok, str). mreturn (if ok then (True, SetOrAdd f (VString str) m) else (False, m))))"
    if "fd_type f = TYPE_STRING \<or> fd_type f = TYPE_BYTES"
    by (rule yields_and_then [where Q = "\<lambda>_. True"])
      (use m SetOrAdd_of_type [OF m] that in \<open>auto intro!: yields_intros simp: yields_any value_typed_def case_prod_unfold\<close>)
  note x = sub_message_of_type [OF m]
  have sub: "yields (\<lambda>(ok, m'). of_type D ty m') (mbind read (\<lambda>(ok, x). mreturn (ok, SetOrAdd f (VMessage x) m)))"
    if "fd_type f = TYPE_GROUP \<or> fd_type f = TYPE_MESSAGE" "yields (\<lambda>(ok, x'). of_type D (fd_message f) x') read" for read
    by (rule yields_and_then [OF that(2)])
      (use SetOrAdd_of_type [OF m] that(1) in \<open>auto intro!: yields_intros simp: value_typed_def of_type_def\<close>)
  show ?thesis
    using prim str sub [OF _ ReadGroup_of_type [OF merge x]] sub [OF _ ReadMessage_of_type [OF merge x]]
    by (cases "fd_type f") (simp_all add: ReadNormal_def)
qed

lemma FindField_own: "FindFieldByNumber D ty n = Some f \<Longrightarrow> FindFieldByNumber D ty (fd_number f) = Some f"
  using FindField_number by metis

lemma ParseAndMergeField_of_type:
  assumes merge: "keeps_types D merge" and m: "of_type D ty m"
  shows "yields (\<lambda>(ok, m'). of_type D ty m') (ParseAndMergeField k merge tag (FindFieldByNumber D ty n) m)"
proof -
  have unknown: "yields (\<lambda>(ok, m'). of_type D ty m')
      (mbind (SkipField (SkipMessage k) tag (msg_unknown m)) (\<lambda>(ok, us). mreturn (ok, put_unknown m us)))"
    by (rule yields_and_then [where Q = "\<lambda>_. True"])
      (use m in \<open>auto intro!: yields_intros simp: yields_any case_prod_unfold put_unknown_of_type\<close>)
  show ?thesis
  proof (cases "FindFieldByNumber D ty n")
    case None
    then show ?thesis using unknown by (simp add: ParseAndMergeField_def)
  next
    case (Some f)
    note f = FindField_own [OF Some]
    have packed: "yields (\<lambda>(ok, m'). of_type D ty m')
        (mbind ReadVarint32 (\<lambda>r. case r of None \<Rightarrow> mreturn (False, m) | Some len \<Rightarrow>
            mbind (\<lambda>s. Inr (PushLimit (sint len) s)) (\<lambda>limit.
            mbind (ReadPacked k f m) (\<lambda>(ok, m'). if \<not> ok then mreturn (False, m') else
            mseq (mmodify (PopLimit limit)) (mreturn (True, m'))))))" if pk: "is_packable f"
      using m pk ReadPacked_of_type [OF f _ _ m]
      by (auto intro!: yields_intros yields_and_then [where Q = "of_type D ty"] simp: is_packable_def IsTypePackable_primitive split: option.split)
    show ?thesis using unknown packed ReadNormal_of_type [OF merge m f] Some by (simp add: ParseAndMergeField_def Let_def)
  qed
qed

lemma ParseAndMergePartial_of_type: "keeps_types D (ParseAndMergePartial D k)"
proof (induction k)
  case (Suc k)
  show ?case
    unfolding keeps_types_def
  proof (intro allI impI)
    fix ty m
    assume m: "of_type D ty m"
    then have type: "msg_type m = ty" by (simp add: of_type_def)
    show "yields (\<lambda>(ok, m'). of_type D ty m') (ParseAndMergePartial D (Suc k) m)"
      unfolding parse.run_Suc type
      using m Suc.IH
      by (auto simp: keeps_types_def intro!: yields_intros yields_and_then [OF ParseAndMergeField_of_type [OF Suc.IH m]])
  qed
qed (simp add: keeps_types_def yields_fault)

section \<open>Properties\<close>

text \<open>
  C5. Parsing any bytes into a message of any type ends without a fault, whatever the bytes: no read is out of
  bounds and the recursion is bounded. What is left in the message is a well-typed message of that type, also when
  the parser gives up, and when it reports success every required field is set.
\<close>

theorem ParseFromString_typed:
  assumes "length data \<le> 2 ^ 26"
  shows "\<exists>ok m'. ParseFromString D m data = Inr (ok, m') \<and> msg_type m' = msg_type m \<and> msg_typed D m' \<and> (ok \<longrightarrow> IsInitialized D m')"
proof -
  obtain ok m' where r: "ParseFromString D m data = Inr (ok, m')" "ok \<longrightarrow> IsInitialized D m'"
    using ParseFromString_total [OF assms] by blast
  have "yields (\<lambda>(ok, m'). of_type D (msg_type m) m') (ParseAndMergePartial D (Suc (length data)) (Clear m))"
    using ParseAndMergePartial_of_type [of D "Suc (length data)"] new_message_of_type [of D "msg_type m"]
    by (simp only: keeps_types_def Clear_def)
  then have P: "mwp (ParseAndMergePartial D (Suc (length data)) (Clear m)) (\<lambda>(ok, m') _. of_type D (msg_type m) m') (\<lambda>_. True)
      (CodedInputStream_of_array data)"
    by (simp add: yields_def case_prod_unfold del: ParseAndMergePartial.simps)
  have "of_type D (msg_type m) m'"
  proof (cases "ParseAndMergePartial D (Suc (length data)) (Clear m) (CodedInputStream_of_array data)")
    case (Inl e)
    then show ?thesis using r(1)
      by (simp add: ParseFromString_def InlineParseFromArray_def and_consumed_def InlineParseFromCodedStream_def
          InlineMergeFromCodedStream_def run_simps del: ParseAndMergePartial.simps)
  next
    case (Inr x)
    obtain ok' m'' s' where x: "x = ((ok', m''), s')" by (cases x) auto
    have "of_type D (msg_type m) m''" using P unfolding mwp_def Inr x by simp
    moreover have "m'' = m'"
      using r(1) Inr x
      by (simp add: ParseFromString_def InlineParseFromArray_def and_consumed_def InlineParseFromCodedStream_def
          InlineMergeFromCodedStream_def run_simps split: if_splits del: ParseAndMergePartial.simps)
    ultimately show ?thesis by simp
  qed
  then show ?thesis using r by (auto simp: of_type_def)
qed

text \<open>Bytes that are no message of the type: a tag of the wire type 7.\<close>

theorem ParseFromString_typed_witness:
  "\<exists>ok m'. ParseFromString (\<lambda>_. []) (new_message ()) [15, 1] = Inr (ok, m') \<and> msg_type m' = () \<and> msg_typed (\<lambda>_. []) m' \<and> (ok \<longrightarrow> IsInitialized (\<lambda>_. []) m')"
  using ParseFromString_typed [of "[15, 1]" "\<lambda>_. []" "new_message ()"] by simp

end
