(* ===== verification/Message_Merge.thy ===== *)
theory Message_Merge
  imports Message_Types
begin

text \<open>
  Merging, copying and inspecting messages by reflection (\<^verbatim>\<open>reflection_ops.cc\<close>, \<^verbatim>\<open>message.cc\<close>), and what ties
  merging to the wire: parsing the bytes of a message into another one merges the first into the second.
  The two messages of a merge are two objects; merging one into itself ends the program.
\<close>

section \<open>Operations\<close>

subsection \<open>Merge and copy\<close>

text \<open>
  Computations on the message that is merged into. One value: \<open>merge\<close> is \<^verbatim>\<open>MergeFrom\<close> of the message it
  contains, into what \<^verbatim>\<open>AddMessage\<close> or \<^verbatim>\<open>MutableMessage\<close> returns.
\<close>

type_synonym 'm merger = "('m Message, unit) mon"

definition MergeValue :: "('m Message \<Rightarrow> 'm merger) \<Rightarrow> 'm FieldDescriptor \<Rightarrow> 'm Value \<Rightarrow> 'm merger" where
  "MergeValue merge f v =
     (case v of
        VMessage x \<Rightarrow>
          (\<lambda>to. case merge x (sub_message f to) of Inl e \<Rightarrow> Inl e | Inr (_, x') \<Rightarrow> Inr ((), SetOrAdd f (VMessage x') to))
      | _ \<Rightarrow> mmodify (SetOrAdd f v))"

definition MergeField :: "('m Message \<Rightarrow> 'm merger) \<Rightarrow> 'm FieldDescriptor \<Rightarrow> 'm Message \<Rightarrow> 'm merger" where
  "MergeField merge f source =
     (let vs = GetField source (fd_number f) in mseqs (map (MergeValue merge f) (if is_repeated f then vs else take 1 vs)))"

lemma MergeField_cong [fundef_cong]:
  assumes "f = f'" "m = m'" "\<And>x. VMessage x \<in> set (GetField m' (fd_number f')) \<Longrightarrow> merge x = merge' x"
  shows "MergeField merge f m = MergeField merge' f' m'"
proof -
  have eq: "map (MergeValue merge f) vs = map (MergeValue merge' f') vs" if "set vs \<subseteq> set (GetField m' (fd_number f'))" for vs
    using assms that by (auto simp: MergeValue_def split: Value.split)
  show ?thesis
    using assms(1,2) eq [of "GetField m' (fd_number f')"] eq [of "take 1 (GetField m' (fd_number f'))"]
    by (simp add: MergeField_def Let_def set_take_subset del: map_eq_conv)
qed

function Merge :: "'m pool \<Rightarrow> 'm Message \<Rightarrow> 'm merger" where
  "Merge D source =
     mbind (mgets msg_type) (\<lambda>ty.
       if ty \<noteq> msg_type source then mfault AssertFail
       else mseq (mseqs (map (\<lambda>f. MergeField (Merge D) f source) (ListFields D source)))
         (mmodify (\<lambda>to. put_unknown to (msg_unknown to @ msg_unknown source))))"
  by pat_completeness auto
termination
  by (relation "measure (\<lambda>(D, m). size m)") (auto intro: GetField_size)

declare Merge.simps [simp del]

definition Message_MergeFrom :: "'m pool \<Rightarrow> 'm Message \<Rightarrow> 'm merger" where
  "Message_MergeFrom D source =
     mbind (mgets msg_type) (\<lambda>ty. if msg_type source \<noteq> ty then mfault AssertFail else Merge D source)"

definition Copy :: "'m pool \<Rightarrow> 'm Message \<Rightarrow> 'm merger" where
  "Copy D source = mseq (mmodify Clear) (Merge D source)"

definition Message_CopyFrom :: "'m pool \<Rightarrow> 'm Message \<Rightarrow> 'm merger" where
  "Message_CopyFrom D source =
     mbind (mgets msg_type) (\<lambda>ty. if msg_type source \<noteq> ty then mfault AssertFail else Copy D source)"

subsection \<open>Unknown fields and missing fields\<close>

definition DiscardValue :: "('m Message \<Rightarrow> 'm Message) \<Rightarrow> 'm Value \<Rightarrow> 'm Value" where
  "DiscardValue discard v = (case v of VMessage x \<Rightarrow> VMessage (discard x) | _ \<Rightarrow> v)"

definition DiscardField :: "('m Message \<Rightarrow> 'm Message) \<Rightarrow> 'm FieldDescriptor \<Rightarrow> 'm Message \<Rightarrow> 'm Value list" where
  "DiscardField discard f m = map (DiscardValue discard) (GetField m (fd_number f))"

lemma DiscardField_cong [fundef_cong]:
  assumes "f = f'" "m = m'" "\<And>x. VMessage x \<in> set (GetField m' (fd_number f')) \<Longrightarrow> discard x = discard' x"
  shows "DiscardField discard f m = DiscardField discard' f' m'"
  using assms by (auto simp: DiscardField_def DiscardValue_def split: Value.split)

function DiscardUnknownFields :: "'m pool \<Rightarrow> 'm Message \<Rightarrow> 'm Message" where
  "DiscardUnknownFields D m =
     foldl (\<lambda>m' (n, vs). put_field m' n vs) (put_unknown m [])
       (map (\<lambda>f. (fd_number f, DiscardField (DiscardUnknownFields D) f m))
         (filter (\<lambda>f. kFieldTypeToCppTypeMap (fd_type f) = CPPTYPE_MESSAGE) (ListFields D m)))"
  by pat_completeness auto
termination
  by (relation "measure (\<lambda>(D, m). size m)") (auto intro: GetField_size)

declare DiscardUnknownFields.simps [simp del]

text \<open>The names of fields are a parameter \<open>nm\<close>. The index is \<^verbatim>\<open>-1\<close> for a field that is not repeated.\<close>

fun SimpleItoa :: "nat \<Rightarrow> string" where
  "SimpleItoa n = (if n < 10 then [char_of (48 + n)] else SimpleItoa (n div 10) @ [char_of (48 + n mod 10)])"

declare SimpleItoa.simps [simp del]

definition SubMessagePrefix :: "('m FieldDescriptor \<Rightarrow> string) \<Rightarrow> string \<Rightarrow> 'm FieldDescriptor \<Rightarrow> int \<Rightarrow> string" where
  "SubMessagePrefix nm prefix f index =
     prefix @ nm f @ (if index \<noteq> -1 then ''['' @ SimpleItoa (nat index) @ '']'' else '''') @ ''.''"

definition FieldErrors ::
  "('m Message \<Rightarrow> string \<Rightarrow> string list) \<Rightarrow> ('m FieldDescriptor \<Rightarrow> string) \<Rightarrow> 'm FieldDescriptor \<Rightarrow> 'm Message \<Rightarrow> string \<Rightarrow> string list"
where
  "FieldErrors errors nm f m prefix =
     concat (map (\<lambda>(j, v). case v of
         VMessage x \<Rightarrow> errors x (SubMessagePrefix nm prefix f (if is_repeated f then int j else -1))
       | _ \<Rightarrow> []) (enumerate 0 (GetField m (fd_number f))))"

lemma enumerate_member: "(j, v) \<in> set (enumerate n vs) \<Longrightarrow> v \<in> set vs"
  by (auto simp: in_set_enumerate_eq)

lemma FieldErrors_cong [fundef_cong]:
  assumes "nm = nm'" "f = f'" "m = m'" "prefix = prefix'"
    "\<And>x prefix. VMessage x \<in> set (GetField m' (fd_number f')) \<Longrightarrow> errors x prefix = errors' x prefix"
  shows "FieldErrors errors nm f m prefix = FieldErrors errors' nm' f' m' prefix'"
  using assms
  by (auto simp: FieldErrors_def intro!: arg_cong [where f = concat] map_cong dest!: enumerate_member split: Value.split)

function FindInitializationErrors :: "'m pool \<Rightarrow> ('m FieldDescriptor \<Rightarrow> string) \<Rightarrow> 'm Message \<Rightarrow> string \<Rightarrow> string list" where
  "FindInitializationErrors D nm m prefix =
     map (\<lambda>f. prefix @ nm f) (filter (\<lambda>f. is_required f \<and> \<not> HasField m f) (D (msg_type m)))
     @ concat (map (\<lambda>f. if kFieldTypeToCppTypeMap (fd_type f) = CPPTYPE_MESSAGE
         then FieldErrors (FindInitializationErrors D nm) nm f m prefix else []) (ListFields D m))"
  by pat_completeness auto
termination
  by (relation "measure (\<lambda>(D, nm, m, prefix). size m)") (auto intro: GetField_size)

declare FindInitializationErrors.simps [simp del]

section \<open>Missing fields\<close>

lemma FieldErrors_empty:
  assumes "\<And>x prefix. VMessage x \<in> set (GetField m (fd_number f)) \<Longrightarrow> errors x prefix = [] \<longleftrightarrow> initialized x"
  shows "FieldErrors errors nm f m prefix = [] \<longleftrightarrow> FieldInitialized initialized f m"
proof -
  let ?vs = "GetField m (fd_number f)"
  let ?p = "\<lambda>j. SubMessagePrefix nm prefix f (if is_repeated f then int j else -1)"
  have "(case v of VMessage x \<Rightarrow> errors x (?p j) | _ \<Rightarrow> []) = [] \<longleftrightarrow> (case v of VMessage x \<Rightarrow> initialized x | _ \<Rightarrow> True)"
    if "v \<in> set ?vs" for j v
    using assms that by (cases v) auto
  then have "(\<forall>e \<in> set (enumerate 0 ?vs). (case snd e of VMessage x \<Rightarrow> errors x (?p (fst e)) | _ \<Rightarrow> []) = [])
      \<longleftrightarrow> (\<forall>e \<in> set (enumerate 0 ?vs). case snd e of VMessage x \<Rightarrow> initialized x | _ \<Rightarrow> True)"
    by (intro ball_cong refl) (metis enumerate_member prod.collapse)
  also have "\<dots> \<longleftrightarrow> (\<forall>v \<in> snd ` set (enumerate 0 ?vs). case v of VMessage x \<Rightarrow> initialized x | _ \<Rightarrow> True)" by simp
  also have "snd ` set (enumerate 0 ?vs) = set ?vs" by (metis map_snd_enumerate set_map)
  finally show ?thesis by (simp add: FieldErrors_def FieldInitialized_def case_prod_unfold list_all_iff)
qed

text \<open>No errors are found exactly in the messages that are initialised.\<close>

lemma no_errors_iff_initialized: "FindInitializationErrors D nm m prefix = [] \<longleftrightarrow> IsInitialized D m"
proof (induction D m arbitrary: prefix rule: IsInitialized.induct)
  case (1 D m)
  have "FieldErrors (FindInitializationErrors D nm) nm f m prefix = [] \<longleftrightarrow> FieldInitialized (IsInitialized D) f m"
    if "f \<in> set (ListFields D m)" "kFieldTypeToCppTypeMap (fd_type f) = CPPTYPE_MESSAGE" for f
    by (rule FieldErrors_empty) (rule "1.IH" [OF that])
  then show ?case
    by (auto simp: IsInitialized.simps [of D m] FindInitializationErrors.simps [of D nm m] filter_empty_conv list_all_iff)
qed

section \<open>Merging is parsing on\<close>

text \<open>
  \<open>tracks D d ty c bs\<close>: on every well-typed message of type \<open>ty\<close> the computation \<open>c\<close> returns, keeps it well-typed,
  and does what the parser does when it reads \<open>bs\<close>.
\<close>

definition tracks :: "'m pool \<Rightarrow> nat \<Rightarrow> 'm \<Rightarrow> 'm merger \<Rightarrow> byte list \<Rightarrow> bool" where
  "tracks D d ty c bs \<longleftrightarrow> (\<forall>to. of_type D ty to \<longrightarrow>
     (\<exists>to'. c to = Inr ((), to') \<and> of_type D ty to' \<and> feeds (ParseAndMergePartial D) d bs to to'))"

lemma tracksE:
  assumes "tracks D d ty c bs" "of_type D ty to"
  obtains to' where "c to = Inr ((), to')" "of_type D ty to'" "feeds (ParseAndMergePartial D) d bs to to'"
  using assms unfolding tracks_def by blast

lemma tracks_return: "tracks D d ty (mreturn ()) []"
  by (simp add: tracks_def run_simps feeds_refl)

lemma tracks_seq:
  assumes "tracks D d ty c1 xs" "tracks D d ty c2 ys"
  shows "tracks D d ty (mseq c1 c2) (xs @ ys)"
  unfolding tracks_def
proof (intro allI impI)
  fix to
  assume to: "of_type D ty to"
  obtain to1 where 1: "c1 to = Inr ((), to1)" "of_type D ty to1" "feeds (ParseAndMergePartial D) d xs to to1"
    by (rule tracksE [OF assms(1) to])
  obtain to2 where 2: "c2 to1 = Inr ((), to2)" "of_type D ty to2" "feeds (ParseAndMergePartial D) d ys to1 to2"
    by (rule tracksE [OF assms(2) 1(2)])
  show "\<exists>to'. mseq c1 c2 to = Inr ((), to') \<and> of_type D ty to' \<and> feeds (ParseAndMergePartial D) d (xs @ ys) to to'"
    using 1(1) 2(1,2) feeds_trans [OF 1(3) 2(3)] by (simp add: run_simps)
qed

lemma tracks_mseqs:
  "(\<And>x. x \<in> set xs \<Longrightarrow> tracks D d ty (c x) (b x)) \<Longrightarrow> tracks D d ty (mseqs (map c xs)) (concat (map b xs))"
  by (induction xs) (simp_all add: tracks_return tracks_seq)

text \<open>What is known of the messages that fields contain.\<close>

definition sub_tracks ::
  "'m pool \<Rightarrow> nat \<Rightarrow> ('m Message \<Rightarrow> 'm merger) \<Rightarrow> ('m Message \<Rightarrow> byte list) \<Rightarrow> ('m Message \<Rightarrow> bool) \<Rightarrow> bool"
where
  "sub_tracks D d merge enc ok \<longleftrightarrow> (\<forall>x. ok x \<longrightarrow> length (enc x) < 2 ^ 31 \<longrightarrow>
     (\<exists>d'. d = Suc d' \<and> tracks D d' (msg_type x) (merge x) (enc x)))"

lemma tracks_value:
  assumes field: "FindFieldByNumber D ty (fd_number f) = Some f" and n: "number_ok (fd_number f)"
    and ok: "value_ok ok f v" "length (value_bytes enc f v) < 2 ^ 31" and sub: "sub_tracks D d merge enc ok"
  shows "tracks D d ty (MergeValue merge f v) (tag_bytes (fd_number f) (kWireTypeForFieldType (fd_type f)) @ value_bytes enc f v)"
  unfolding tracks_def
proof (intro allI impI)
  fix to
  assume to: "of_type D ty to"
  then have field': "FindFieldByNumber D (msg_type to) (fd_number f) = Some f" using field by (simp add: of_type_def)
  have "\<exists>v'. MergeValue merge f v to = Inr ((), SetOrAdd f v' to) \<and> value_typed (msg_typed D) f v' \<and> becomes D d enc f to v v'"
  proof (cases v)
    case (VMessage x)
    then have x: "fd_type f = TYPE_GROUP \<or> fd_type f = TYPE_MESSAGE" "msg_type x = fd_message f" "ok x"
      using ok(1) by (simp_all add: value_ok_def)
    have "length (enc x) < 2 ^ 31" using ok(2) VMessage by (auto simp: value_bytes_def split: if_splits)
    then obtain d' where d: "d = Suc d'" "tracks D d' (fd_message f) (merge x) (enc x)" using sub x by (auto simp: sub_tracks_def)
    obtain x' where x': "merge x (sub_message f to) = Inr ((), x')" "of_type D (fd_message f) x'"
      "feeds (ParseAndMergePartial D) d' (enc x) (sub_message f to) x'"
      by (rule tracksE [OF d(2) sub_message_of_type [OF to field]])
    then show ?thesis using VMessage x(1) d(1) by (intro exI [of _ "VMessage x'"]) (simp add: MergeValue_def value_typed_def of_type_def becomes_def)
  qed (use ok(1) in \<open>auto simp: MergeValue_def value_ok_def value_typed_def becomes_def run_simps\<close>)
  then obtain v' where v': "MergeValue merge f v to = Inr ((), SetOrAdd f v' to)" "value_typed (msg_typed D) f v'" "becomes D d enc f to v v'"
    by blast
  show "\<exists>to'. MergeValue merge f v to = Inr ((), to') \<and> of_type D ty to'
      \<and> feeds (ParseAndMergePartial D) d (tag_bytes (fd_number f) (kWireTypeForFieldType (fd_type f)) @ value_bytes enc f v) to to'"
    using v'(1) SetOrAdd_of_type [OF to field v'(2)] feeds_value [OF field' n ok v'(3)] by blast
qed

lemma merge_prims:
  "(\<And>v. v \<in> set vs \<Longrightarrow> \<exists>p. v = VPrim p) \<Longrightarrow> mseqs (map (MergeValue merge f) vs) to = Inr ((), foldl (\<lambda>m v. SetOrAdd f v m) to vs)"
proof (induction vs arbitrary: to)
  case (Cons v vs)
  then obtain p where "v = VPrim p" by auto
  then show ?case using Cons by (simp add: run_simps MergeValue_def)
qed (simp add: run_simps)

lemma SetOrAdds_of_type:
  "of_type D ty m \<Longrightarrow> FindFieldByNumber D ty (fd_number f) = Some f \<Longrightarrow> (\<And>v. v \<in> set vs \<Longrightarrow> value_typed (msg_typed D) f v) \<Longrightarrow>
    of_type D ty (foldl (\<lambda>m v. SetOrAdd f v m) m vs)"
  by (induction vs arbitrary: m) (simp_all add: SetOrAdd_of_type)

lemma tracks_field:
  assumes field: "FindFieldByNumber D ty (fd_number f) = Some f" and n: "number_ok (fd_number f)"
    and pk: "fd_packed f \<Longrightarrow> is_packable f" and ok: "field_ok ok f (GetField m (fd_number f))"
    and len: "length (field_bytes enc f (GetField m (fd_number f))) < 2 ^ 31" and sub: "sub_tracks D d merge enc ok"
  shows "tracks D d ty (MergeField merge f m) (field_bytes enc f (GetField m (fd_number f)))"
proof -
  let ?vs = "GetField m (fd_number f)"
  have vok: "value_ok ok f v" if "v \<in> set ?vs" for v using ok that by (auto simp: field_ok_def list_all_iff)
  have ne: "?vs \<noteq> []" using ok by (simp add: field_ok_def)
  have mf: "MergeField merge f m = mseqs (map (MergeValue merge f) ?vs)"
    using ok by (simp add: MergeField_def field_ok_def Let_def)
  show ?thesis
  proof (cases "fd_packed f")
    case True
    then have packable: "is_packable f" and rep: "is_repeated f" "IsTypePackable (fd_type f)" using pk by (simp_all add: is_packable_def)
    obtain ps where ps: "?vs = map VPrim ps" "list_all (prim_ok (fd_type f)) ps" "list_all (known_enum f) ps"
      by (rule packed_values [OF vok rep(2)])
    then have typed: "value_typed (msg_typed D) f v" if "v \<in> set ?vs" for v
      using that by (auto simp: value_typed_def list_all_iff)
    have all: "foldl (\<lambda>m v. SetOrAdd f v m) to ?vs = put_field to (fd_number f) (GetField to (fd_number f) @ ?vs)" for to
      using foldl_add [OF ne, of "fd_number f" to] rep(1) by (simp add: SetOrAdd_def)
    show ?thesis
      unfolding tracks_def
    proof (intro allI impI)
      fix to
      assume to: "of_type D ty to"
      then have field': "FindFieldByNumber D (msg_type to) (fd_number f) = Some f" using field by (simp add: of_type_def)
      have "feeds (ParseAndMergePartial D) d (field_bytes enc f ?vs) to (foldl (\<lambda>m v. SetOrAdd f v m) to ?vs)"
        unfolding all using feeds_packed [OF field' n packable vok ne, of enc] len True by (simp add: field_bytes_def Let_def)
      moreover have "MergeField merge f m to = Inr ((), foldl (\<lambda>m v. SetOrAdd f v m) to ?vs)"
        unfolding mf by (rule merge_prims) (use ps(1) in auto)
      ultimately show "\<exists>to'. MergeField merge f m to = Inr ((), to') \<and> of_type D ty to'
          \<and> feeds (ParseAndMergePartial D) d (field_bytes enc f ?vs) to to'"
        using SetOrAdds_of_type [OF to field typed] by blast
    qed
  next
    case False
    let ?tagged = "\<lambda>v. tag_bytes (fd_number f) (kWireTypeForFieldType (fd_type f)) @ value_bytes enc f v"
    have fb: "field_bytes enc f ?vs = concat (map ?tagged ?vs)" using False by (simp add: field_bytes_def)
    have lt: "length (value_bytes enc f v) < 2 ^ 31" if "v \<in> set ?vs" for v
      using length_concat_member [OF that, of ?tagged] len fb by simp
    show ?thesis unfolding mf fb by (rule tracks_mseqs) (rule tracks_value [OF field n vok lt sub])
  qed
qed

lemma tracks_message_step:
  assumes pool: "pool_ok D" and ok: "msg_ok D (Suc d) m" and len: "length (msg_bytes D (Suc d) m) < 2 ^ 31"
    and sub: "sub_tracks D d (Merge D) (msg_bytes D d) (msg_ok D d)"
  shows "tracks D d (msg_type m) (Merge D m) (msg_bytes D (Suc d) m)"
proof -
  let ?ty = "msg_type m"
  let ?b = "\<lambda>f. field_bytes (msg_bytes D d) f (GetField m (fd_number f))"
  have bytes: "msg_bytes D (Suc d) m = concat (map ?b (ListFields D m)) @ SerializeUnknownFieldsToArray (msg_unknown m)"
    by (rule msg_bytes_ListFields [OF pool ok])
  have "tracks D d ?ty (mseqs (map (\<lambda>f. MergeField (Merge D) f m) (ListFields D m))) (concat (map ?b (ListFields D m)))"
  proof (rule tracks_mseqs)
    fix f
    assume f: "f \<in> set (ListFields D m)"
    have "length (?b f) < 2 ^ 31" using length_concat_member [OF f, of ?b] len bytes by simp
    with ListFields_eq(2) [OF pool ok f] ListFields_ok [OF pool ok f] sub
    show "tracks D d ?ty (MergeField (Merge D) f m) (?b f)" by (intro tracks_field) auto
  qed
  moreover have "tracks D d ?ty (mmodify (\<lambda>to. put_unknown to (msg_unknown to @ msg_unknown m))) (SerializeUnknownFieldsToArray (msg_unknown m))"
    unfolding tracks_def
  proof (intro allI impI)
    fix to
    assume to: "of_type D ?ty to"
    obtain fs us where t: "to = Msg ?ty fs us" using to by (cases to) (simp add: of_type_def)
    have "feeds (ParseAndMergePartial D) d (SerializeUnknownFieldsToArray (msg_unknown m)) (Msg ?ty fs us) (Msg ?ty fs (us @ msg_unknown m))"
      by (rule feeds_message_unknown) (use ok in simp_all)
    then show "\<exists>to'. mmodify (\<lambda>to. put_unknown to (msg_unknown to @ msg_unknown m)) to = Inr ((), to') \<and> of_type D ?ty to'
        \<and> feeds (ParseAndMergePartial D) d (SerializeUnknownFieldsToArray (msg_unknown m)) to to'"
      using to t put_unknown_of_type [of D ?ty to "us @ msg_unknown m"] by (simp add: run_simps)
  qed
  ultimately have "tracks D d ?ty (mseq (mseqs (map (\<lambda>f. MergeField (Merge D) f m) (ListFields D m)))
      (mmodify (\<lambda>to. put_unknown to (msg_unknown to @ msg_unknown m)))) (msg_bytes D (Suc d) m)"
    unfolding bytes by (rule tracks_seq)
  moreover have "Merge D m to = mseq (mseqs (map (\<lambda>f. MergeField (Merge D) f m) (ListFields D m)))
      (mmodify (\<lambda>to. put_unknown to (msg_unknown to @ msg_unknown m))) to" if "of_type D ?ty to" for to
    using that by (simp add: Merge.simps [of D m] mbind_run mgets_run of_type_def)
  ultimately show ?thesis unfolding tracks_def by simp
qed

lemma tracks_message:
  "pool_ok D \<Longrightarrow> msg_ok D (Suc d) m \<Longrightarrow> length (msg_bytes D (Suc d) m) < 2 ^ 31 \<Longrightarrow>
    tracks D d (msg_type m) (Merge D m) (msg_bytes D (Suc d) m)"
proof (induction d arbitrary: m)
  case 0
  have "sub_tracks D 0 (Merge D) (msg_bytes D 0) (msg_ok D 0)" by (simp add: sub_tracks_def)
  with 0 show ?case by (rule tracks_message_step)
next
  case (Suc d)
  have "sub_tracks D (Suc d) (Merge D) (msg_bytes D (Suc d)) (msg_ok D (Suc d))"
    using Suc.IH [OF Suc.prems(1)] unfolding sub_tracks_def by blast
  with Suc.prems show ?case by (rule tracks_message_step)
qed

section \<open>Copying\<close>

text \<open>Merging a value into a message that has nothing in its place adds the value itself.\<close>

lemma merge_new_value:
  assumes "is_repeated f \<or> GetField to (fd_number f) = []" "value_typed typed f v"
    and "\<And>x. v = VMessage x \<Longrightarrow> typed x \<Longrightarrow> merge x (new_message (msg_type x)) = Inr ((), x)"
  shows "MergeValue merge f v to = Inr ((), SetOrAdd f v to)"
proof (cases v)
  case (VMessage x)
  have "sub_message f to = new_message (fd_message f)" using assms(1) by (auto simp: sub_message_def)
  then show ?thesis using assms(2,3) VMessage by (simp add: MergeValue_def value_typed_def)
qed (simp_all add: MergeValue_def run_simps)

lemma merge_repeated:
  assumes "is_repeated f"
  shows "(\<And>v. v \<in> set vs \<Longrightarrow> value_typed typed f v) \<Longrightarrow>
    (\<And>x. VMessage x \<in> set vs \<Longrightarrow> typed x \<Longrightarrow> merge x (new_message (msg_type x)) = Inr ((), x)) \<Longrightarrow>
    mseqs (map (MergeValue merge f) vs) to = Inr ((), foldl (\<lambda>m v. SetOrAdd f v m) to vs)"
proof (induction vs arbitrary: to)
  case (Cons v vs)
  have "MergeValue merge f v to = Inr ((), SetOrAdd f v to)"
    by (rule merge_new_value [of f to typed]) (use assms Cons.prems in auto)
  then show ?case using Cons by (simp add: run_simps)
qed (simp add: run_simps)

lemma merge_new_field:
  assumes "vs = GetField m (fd_number f)" "vs \<noteq> []" "\<not> is_repeated f \<longrightarrow> length vs = 1" "list_all (value_typed typed f) vs"
    and new: "GetField to (fd_number f) = []"
    and sub: "\<And>x. VMessage x \<in> set vs \<Longrightarrow> typed x \<Longrightarrow> merge x (new_message (msg_type x)) = Inr ((), x)"
  shows "MergeField merge f m to = Inr ((), put_field to (fd_number f) vs)"
proof (cases "is_repeated f")
  case True
  have "mseqs (map (MergeValue merge f) vs) to = Inr ((), foldl (\<lambda>m v. SetOrAdd f v m) to vs)"
    by (rule merge_repeated [OF True, of vs typed]) (use assms(4) sub in \<open>auto simp: list_all_iff\<close>)
  moreover have "foldl (\<lambda>m v. SetOrAdd f v m) to vs = put_field to (fd_number f) vs"
    using foldl_add [OF assms(2), of "fd_number f" to] True new by (simp add: SetOrAdd_def)
  ultimately show ?thesis using True assms(1) by (simp add: MergeField_def)
next
  case False
  then obtain v where v: "vs = [v]" using assms(3) by (auto simp: length_Suc_conv)
  have "MergeValue merge f v to = Inr ((), SetOrAdd f v to)"
    by (rule merge_new_value [of f to typed]) (use new assms(4) sub v in auto)
  moreover have "GetField m (fd_number f) = [v]" using assms(1) v by simp
  ultimately show ?thesis using False v by (simp add: MergeField_def run_simps SetOrAdd_def)
qed

lemma merge_new_fields:
  assumes sub: "\<And>f x. f \<in> set fs \<Longrightarrow> VMessage x \<in> set (GetField m (fd_number f)) \<Longrightarrow> typed x \<Longrightarrow> merge x (new_message (msg_type x)) = Inr ((), x)"
    and ok: "\<And>f. f \<in> set fs \<Longrightarrow> GetField m (fd_number f) \<noteq> [] \<and> (\<not> is_repeated f \<longrightarrow> length (GetField m (fd_number f)) = 1)
      \<and> list_all (value_typed typed f) (GetField m (fd_number f))"
  shows "m_ok (done_fields @ map (\<lambda>f. (fd_number f, GetField m (fd_number f))) fs) \<Longrightarrow>
    mseqs (map (\<lambda>f. MergeField merge f m) fs) (Msg ty done_fields us)
      = Inr ((), Msg ty (done_fields @ map (\<lambda>f. (fd_number f, GetField m (fd_number f))) fs) us)"
  using assms
proof (induction fs arbitrary: done_fields)
  case Nil
  show ?case by (simp add: run_simps)
next
  case (Cons f fs)
  let ?vs = "GetField m (fd_number f)"
  have less: "\<And>k. k \<in> set (map fst done_fields) \<Longrightarrow> k < fd_number f" using Cons.prems(1) by (auto simp: m_ok_def sorted_wrt_append)
  then have "map_of done_fields (fd_number f) = None" by (force simp: map_of_eq_None_iff)
  then have new: "GetField (Msg ty done_fields us) (fd_number f) = []" by (simp add: GetField_def m_find_def)
  have "MergeField merge f m (Msg ty done_fields us) = Inr ((), put_field (Msg ty done_fields us) (fd_number f) ?vs)"
    by (rule merge_new_field [OF refl _ _ _ new, where typed = typed]) (use Cons.prems(2,3) [of f] in auto)
  then have "MergeField merge f m (Msg ty done_fields us) = Inr ((), Msg ty (done_fields @ [(fd_number f, ?vs)]) us)"
    using m_insert_last [OF less] by simp
  moreover have "mseqs (map (\<lambda>f. MergeField merge f m) fs) (Msg ty (done_fields @ [(fd_number f, ?vs)]) us)
      = Inr ((), Msg ty ((done_fields @ [(fd_number f, ?vs)]) @ map (\<lambda>f. (fd_number f, GetField m (fd_number f))) fs) us)"
    by (rule Cons.IH) (use Cons.prems in auto)
  ultimately show ?case by (simp add: run_simps)
qed

lemma Merge_new: "pool_ok D \<Longrightarrow> msg_typed D m \<Longrightarrow> Merge D m (new_message (msg_type m)) = Inr ((), m)"
proof (induction D m rule: Merge.induct)
  case (1 D m)
  have fields: "field_typed (msg_typed D) D (msg_type m) e" if "e \<in> set (msg_fields m)" for e
    using "1.prems"(2) that by (auto simp: msg_typed.simps [of D m] list_all_iff)
  have m_ok: "m_ok (msg_fields m)" using "1.prems"(2) by (simp add: msg_typed.simps [of D m])
  have listed: "map (\<lambda>f. (fd_number f, GetField m (fd_number f))) (ListFields D m) = msg_fields m"
    "\<And>f. f \<in> set (ListFields D m) \<Longrightarrow> FindFieldByNumber D (msg_type m) (fd_number f) = Some f"
    using ListFields_fields [OF "1.prems"(1) m_ok] fields by (fastforce simp: field_typed_def split: option.splits)+
  have entry: "field_typed (msg_typed D) D (msg_type m) (fd_number f, GetField m (fd_number f))" if "f \<in> set (ListFields D m)" for f
    by (rule fields) (use that in \<open>simp add: image_iff flip: listed(1), blast\<close>)
  have "mseqs (map (\<lambda>f. MergeField (Merge D) f m) (ListFields D m)) (Msg (msg_type m) [] [])
      = Inr ((), Msg (msg_type m) ([] @ map (\<lambda>f. (fd_number f, GetField m (fd_number f))) (ListFields D m)) [])"
  proof (rule merge_new_fields [of _ m "msg_typed D"])
    show "GetField m (fd_number f) \<noteq> [] \<and> (\<not> is_repeated f \<longrightarrow> length (GetField m (fd_number f)) = 1)
      \<and> list_all (value_typed (msg_typed D) f) (GetField m (fd_number f))" if "f \<in> set (ListFields D m)" for f
      using entry [OF that] listed(2) [OF that] by (simp add: field_typed_def)
    show "Merge D x (new_message (msg_type x)) = Inr ((), x)"
      if "f \<in> set (ListFields D m)" "VMessage x \<in> set (GetField m (fd_number f))" "msg_typed D x" for f x
      using "1.IH" [of "msg_type m", OF _ that(1,2) "1.prems"(1) that(3)] by simp
  qed (simp add: listed(1) m_ok)
  then have "mseqs (map (\<lambda>f. MergeField (Merge D) f m) (ListFields D m)) (Msg (msg_type m) [] [])
      = Inr ((), Msg (msg_type m) (msg_fields m) [])"
    by (simp only: listed(1) append_Nil)
  then show ?case by (simp add: Merge.simps [of D m] run_simps new_message_def)
qed

section \<open>Discarding unknown fields\<close>

lemma put_field_unknown [simp]: "msg_unknown (put_field m n vs) = msg_unknown m" "msg_unknown (put_unknown m us) = us"
  by (cases m, simp)+

lemma put_fields_of_type:
  "of_type D ty m \<Longrightarrow> (\<And>e. e \<in> set es \<Longrightarrow> field_typed (msg_typed D) D ty e) \<Longrightarrow>
    of_type D ty (foldl (\<lambda>m' (n, vs). put_field m' n vs) m es)"
proof (induction es arbitrary: m)
  case (Cons e es)
  obtain n vs where e: "e = (n, vs)" by (cases e)
  have "of_type D ty (put_field m n vs)" by (rule put_field_of_type) (use Cons.prems e in auto)
  then show ?case using Cons by (simp add: e)
qed simp

lemma put_fields_unknown: "msg_unknown (foldl (\<lambda>m' (n, vs). put_field m' n vs) m es) = msg_unknown m"
  by (induction es arbitrary: m) auto

lemma DiscardUnknownFields_of_type:
  "pool_ok D \<Longrightarrow> msg_typed D m \<Longrightarrow>
    of_type D (msg_type m) (DiscardUnknownFields D m) \<and> msg_unknown (DiscardUnknownFields D m) = []"
proof (induction D m rule: DiscardUnknownFields.induct)
  case (1 D m)
  let ?fs = "filter (\<lambda>f. kFieldTypeToCppTypeMap (fd_type f) = CPPTYPE_MESSAGE) (ListFields D m)"
  have m: "of_type D (msg_type m) m" using "1.prems"(2) by (simp add: of_type_def)
  have entries: "field_typed (msg_typed D) D (msg_type m) (fd_number f, DiscardField (DiscardUnknownFields D) f m)" if f: "f \<in> set ?fs" for f
  proof -
    have has: "GetField m (fd_number f) \<noteq> []" using f by (auto simp: ListFields_def HasField_def)
    then have "(fd_number f, GetField m (fd_number f)) \<in> set (msg_fields m)"
      by (cases "m_find (msg_fields m) (fd_number f)") (auto simp: GetField_def dest: m_find_in_set)
    then have entry: "field_typed (msg_typed D) D (msg_type m) (fd_number f, GetField m (fd_number f))"
      using "1.prems"(2) by (simp add: msg_typed.simps [of D m] list_all_iff)
    then obtain g where g: "FindFieldByNumber D (msg_type m) (fd_number f) = Some g" by (auto simp: field_typed_def split: option.splits)
    have "value_typed (msg_typed D) g (DiscardValue (DiscardUnknownFields D) v)" if v: "v \<in> set (GetField m (fd_number f))" for v
    proof (cases v)
      case (VMessage x)
      have "value_typed (msg_typed D) g v" using entry g v by (simp add: field_typed_def list_all_iff)
      then show ?thesis
        using "1.IH" [OF f, of x] v VMessage "1.prems"(1) by (auto simp: value_typed_def DiscardValue_def of_type_def)
    qed (use entry g v in \<open>auto simp: field_typed_def list_all_iff DiscardValue_def\<close>)
    then show ?thesis using entry g has by (simp add: field_typed_def DiscardField_def list_all_iff)
  qed
  have "of_type D (msg_type m) (DiscardUnknownFields D m)"
    unfolding DiscardUnknownFields.simps [of D m]
    by (rule put_fields_of_type) (use m entries in \<open>auto simp: put_unknown_of_type\<close>)
  then show ?case by (simp add: DiscardUnknownFields.simps [of D m] put_fields_unknown)
qed

section \<open>Well-formed messages are well-typed\<close>

lemma msg_ok_typed: "msg_ok D d m \<Longrightarrow> msg_typed D m"
proof (induction d arbitrary: m)
  case (Suc d)
  have "value_typed (msg_typed D) f v" if "value_ok (msg_ok D d) f v" for f v
    using that Suc.IH by (cases v) (auto simp: value_ok_def value_typed_def)
  then have "field_typed (msg_typed D) D (msg_type m) e" if "e \<in> set (msg_fields m)" for e
    using Suc.prems that by (force simp: field_typed_def field_ok_def list_all_iff split: option.splits)
  then show ?case using Suc.prems by (simp add: msg_typed.simps [of D m] list_all_iff)
qed simp

section \<open>Properties\<close>

text \<open>
  Copying a well-typed message gives exactly that message, whatever the target of the same type held; a
  target of another type ends the program.
\<close>

theorem copy_copies:
  assumes "pool_ok D" and "msg_typed D m"
  shows "Message_CopyFrom D m to = (if msg_type to = msg_type m then Inr ((), m) else Inl AssertFail)"
  using Merge_new [OF assms] by (simp add: Message_CopyFrom_def Copy_def run_simps Clear_def)

text \<open>
  C6. Parsing the concatenation of the serialised forms of two messages of one type is merging the second into
  the first: the parser succeeds and leaves what \<^verbatim>\<open>MergeFrom\<close> makes of them, repeated fields appended, single
  ones replaced, messages merged in turn and unknown fields kept.
\<close>

theorem concatenation_merges:
  assumes "pool_ok D" and "msg_ok D (Suc d) m1" and "msg_ok D (Suc d) m2" and "msg_type m2 = msg_type m1" and "d \<le> 100"
    and "length (msg_bytes D (Suc d) m1) + length (msg_bytes D (Suc d) m2) < 2 ^ 26" and "msg_type old = msg_type m1"
  shows "\<exists>bs1 bs2 m. SerializePartialToString D junk m1 = Inr (True, bs1) \<and> SerializePartialToString D junk m2 = Inr (True, bs2)
    \<and> Message_MergeFrom D m2 m1 = Inr ((), m) \<and> msg_typed D m
    \<and> ParsePartialFromString D old (bs1 @ bs2) = Inr (True, m)"
proof -
  let ?b1 = "msg_bytes D (Suc d) m1" and ?b2 = "msg_bytes D (Suc d) m2"
  have len: "length ?b1 < 2 ^ 31" "length ?b2 < 2 ^ 31" "length (?b1 @ ?b2) < 2 ^ 26" using assms(6) by simp_all
  have type1: "of_type D (msg_type m2) m1" using msg_ok_typed [OF assms(2)] assms(4) by (simp add: of_type_def)
  obtain m where m: "Merge D m2 m1 = Inr ((), m)" "of_type D (msg_type m2) m" "feeds (ParseAndMergePartial D) d ?b2 m1 m"
    by (rule tracksE [OF tracks_message [OF assms(1,3) len(2)] type1])
  have "feeds (ParseAndMergePartial D) d (?b1 @ ?b2) (new_message (msg_type old)) m"
    using feeds_trans [OF feeds_message [OF assms(1,2) len(1)] m(3)] assms(7) by simp
  from parse_fed(1) [OF this len(3) assms(5)] have "ParsePartialFromString D old (?b1 @ ?b2) = Inr (True, m)"
    using of_array_ok [of "?b1 @ ?b2"] len(3)
    by (simp add: ParsePartialFromString_def InlineParsePartialFromArray_def kDefaultTotalBytesLimit_def del: msg_bytes.simps)
  moreover have "SerializePartialToString D junk m1 = Inr (True, ?b1)" "SerializePartialToString D junk m2 = Inr (True, ?b2)"
    using AppendPartialToString_bytes [OF assms(1,2) len(1), of junk "[]"] AppendPartialToString_bytes [OF assms(1,3) len(2), of junk "[]"]
    by (simp_all add: SerializePartialToString_def)
  moreover have "Message_MergeFrom D m2 m1 = Inr ((), m)" using m(1) assms(4) by (simp add: Message_MergeFrom_def run_simps)
  ultimately show ?thesis using m(2) by (auto simp: of_type_def)
qed

text \<open>A second message for the one of \<open>sample\<close>: another value to append, and a message to merge.\<close>

definition sample_more :: "unit Message" where
  "sample_more = Msg () [(1, [VPrim (PInt32 7)]), (3, [VMessage (Msg () [(1, [VPrim (PInt32 3)])] [])])] [UVarint 12 5]"

lemma sample_more_ok: "msg_ok sample_pool (Suc 1) sample_more" "length (msg_bytes sample_pool (Suc 1) sample_more) = 10"
proof -
  have "msg_bytes sample_pool (Suc 1) sample_more = [10, 1, 14, 26, 3, 10, 1, 6, 96, 5]" by code_simp
  then show "length (msg_bytes sample_pool (Suc 1) sample_more) = 10" by simp
  show "msg_ok sample_pool (Suc 1) sample_more"
    by (simp add: sample_more_def sample_pool_def m_ok_def FindFieldByNumber_def field_ok_def is_repeated_def value_ok_def prim_ok_def
        known_enum_def number_ok_def)
qed

theorem concatenation_merges_witness:
  "\<exists>bs1 bs2 m. SerializePartialToString sample_pool (\<lambda>_. 0) sample = Inr (True, bs1)
    \<and> SerializePartialToString sample_pool (\<lambda>_. 0) sample_more = Inr (True, bs2)
    \<and> Message_MergeFrom sample_pool sample_more sample = Inr ((), m)
    \<and> ParsePartialFromString sample_pool (new_message ()) (bs1 @ bs2) = Inr (True, m)"
  using concatenation_merges [of sample_pool 1 sample sample_more "new_message ()" "\<lambda>_. 0"] sample_ok sample_more_ok by auto

end
