(* ===== verification/Unknown_Fields.thy ===== *)
theory Unknown_Fields
  imports Message_Lite
begin

text \<open>
  The set of the fields a message's type does not have, as an object of its own (\<^verbatim>\<open>unknown_field_set.cc\<close>): adding,
  copying and deleting fields, with the loops over indices as they are written, and parsing a set from a
  stream. The vector is allocated when the first field is added, so that a set is \<open>None\<close> or the vector's fields.
  The checks are those of a build with debugging.
\<close>

section \<open>Operations\<close>

type_synonym UnknownFieldSet = "UnknownField list option"

definition UFS_new :: UnknownFieldSet where
  "UFS_new = None"

definition UFS_fields :: "UnknownFieldSet \<Rightarrow> UnknownField list" where
  "UFS_fields s = (case s of None \<Rightarrow> [] | Some fs \<Rightarrow> fs)"

definition UFS_ClearFallback :: "UnknownFieldSet \<Rightarrow> fault + UnknownFieldSet" where
  "UFS_ClearFallback s = (case s of None \<Rightarrow> Inl AssertFail | Some _ \<Rightarrow> Inr (Some []))"

definition UFS_Clear :: "UnknownFieldSet \<Rightarrow> fault + UnknownFieldSet" where
  "UFS_Clear s = (if s \<noteq> None then UFS_ClearFallback s else Inr s)"

definition UFS_ClearAndFreeMemory :: "UnknownFieldSet \<Rightarrow> fault + UnknownFieldSet" where
  "UFS_ClearAndFreeMemory s =
     (if s \<noteq> None then (case UFS_Clear s of Inl e \<Rightarrow> Inl e | Inr _ \<Rightarrow> Inr None) else Inr s)"

definition UFS_Swap :: "UnknownFieldSet \<Rightarrow> UnknownFieldSet \<Rightarrow> UnknownFieldSet \<times> UnknownFieldSet" where
  "UFS_Swap s x = (x, s)"

definition UFS_empty :: "UnknownFieldSet \<Rightarrow> bool" where
  "UFS_empty s \<longleftrightarrow> s = None \<or> UFS_fields s = []"

definition UFS_field_count :: "UnknownFieldSet \<Rightarrow> int" where
  "UFS_field_count s = (case s of None \<Rightarrow> 0 | Some fs \<Rightarrow> int (length fs))"

definition UFS_field :: "int \<Rightarrow> UnknownFieldSet \<Rightarrow> fault + UnknownField" where
  "UFS_field index s =
     (case s of None \<Rightarrow> Inl NullDeref
      | Some fs \<Rightarrow> if 0 \<le> index \<and> index < int (length fs) then Inr (fs ! nat index) else Inl OutOfBounds)"

subsection \<open>Fields\<close>

text \<open>\<^verbatim>\<open>number_\<close> is a bit field of 29 bits.\<close>

definition stored_number :: "int \<Rightarrow> int" where
  "stored_number number = number mod 2 ^ 29"

fun UF_number :: "UnknownField \<Rightarrow> int" where
  "UF_number (UVarint n _) = n"
| "UF_number (UFixed32 n _) = n"
| "UF_number (UFixed64 n _) = n"
| "UF_number (ULengthDelimited n _) = n"
| "UF_number (UGroup n _) = n"

text \<open>The accessors assert the type of the field.\<close>

definition UF_varint :: "UnknownField \<Rightarrow> fault + 64 word" where
  "UF_varint f = (case f of UVarint _ v \<Rightarrow> Inr v | _ \<Rightarrow> Inl AssertFail)"

definition UF_fixed32 :: "UnknownField \<Rightarrow> fault + 32 word" where
  "UF_fixed32 f = (case f of UFixed32 _ v \<Rightarrow> Inr v | _ \<Rightarrow> Inl AssertFail)"

definition UF_fixed64 :: "UnknownField \<Rightarrow> fault + 64 word" where
  "UF_fixed64 f = (case f of UFixed64 _ v \<Rightarrow> Inr v | _ \<Rightarrow> Inl AssertFail)"

definition UF_length_delimited :: "UnknownField \<Rightarrow> fault + byte list" where
  "UF_length_delimited f = (case f of ULengthDelimited _ str \<Rightarrow> Inr str | _ \<Rightarrow> Inl AssertFail)"

definition UF_group :: "UnknownField \<Rightarrow> fault + UnknownField list" where
  "UF_group f = (case f of UGroup _ grp \<Rightarrow> Inr grp | _ \<Rightarrow> Inl AssertFail)"

definition UF_set_varint :: "64 word \<Rightarrow> UnknownField \<Rightarrow> fault + UnknownField" where
  "UF_set_varint v f = (case f of UVarint n _ \<Rightarrow> Inr (UVarint n v) | _ \<Rightarrow> Inl AssertFail)"

definition UF_set_fixed32 :: "32 word \<Rightarrow> UnknownField \<Rightarrow> fault + UnknownField" where
  "UF_set_fixed32 v f = (case f of UFixed32 n _ \<Rightarrow> Inr (UFixed32 n v) | _ \<Rightarrow> Inl AssertFail)"

definition UF_set_fixed64 :: "64 word \<Rightarrow> UnknownField \<Rightarrow> fault + UnknownField" where
  "UF_set_fixed64 v f = (case f of UFixed64 n _ \<Rightarrow> Inr (UFixed64 n v) | _ \<Rightarrow> Inl AssertFail)"

definition UF_set_length_delimited :: "byte list \<Rightarrow> UnknownField \<Rightarrow> fault + UnknownField" where
  "UF_set_length_delimited str f = (case f of ULengthDelimited n _ \<Rightarrow> Inr (ULengthDelimited n str) | _ \<Rightarrow> Inl AssertFail)"

definition UF_GetLengthDelimitedSize :: "UnknownField \<Rightarrow> fault + int" where
  "UF_GetLengthDelimitedSize f = (case f of ULengthDelimited _ str \<Rightarrow> Inr (int (length str)) | _ \<Rightarrow> Inl AssertFail)"

subsection \<open>Adding\<close>

definition push_field :: "UnknownField \<Rightarrow> UnknownFieldSet \<Rightarrow> UnknownFieldSet" where
  "push_field f s = (let fs = (if s = None then [] else UFS_fields s) in Some (fs @ [f]))"

definition UFS_AddVarint :: "int \<Rightarrow> 64 word \<Rightarrow> UnknownFieldSet \<Rightarrow> UnknownFieldSet" where
  "UFS_AddVarint number v s = push_field (UVarint (stored_number number) v) s"

definition UFS_AddFixed32 :: "int \<Rightarrow> 32 word \<Rightarrow> UnknownFieldSet \<Rightarrow> UnknownFieldSet" where
  "UFS_AddFixed32 number v s = push_field (UFixed32 (stored_number number) v) s"

definition UFS_AddFixed64 :: "int \<Rightarrow> 64 word \<Rightarrow> UnknownFieldSet \<Rightarrow> UnknownFieldSet" where
  "UFS_AddFixed64 number v s = push_field (UFixed64 (stored_number number) v) s"

text \<open>The first returns the new, empty string or set, which is the content of the last field.\<close>

definition UFS_AddLengthDelimited :: "int \<Rightarrow> UnknownFieldSet \<Rightarrow> UnknownFieldSet" where
  "UFS_AddLengthDelimited number s = push_field (ULengthDelimited (stored_number number) []) s"

definition UFS_AddLengthDelimited_value :: "int \<Rightarrow> byte list \<Rightarrow> UnknownFieldSet \<Rightarrow> fault + UnknownFieldSet" where
  "UFS_AddLengthDelimited_value number str s =
     (let fs = UFS_fields (UFS_AddLengthDelimited number s) in
      case UF_set_length_delimited str (last fs) of Inl e \<Rightarrow> Inl e | Inr f \<Rightarrow> Inr (Some (butlast fs @ [f])))"

definition UFS_AddGroup :: "int \<Rightarrow> UnknownFieldSet \<Rightarrow> UnknownFieldSet" where
  "UFS_AddGroup number s = push_field (UGroup (stored_number number) []) s"

text \<open>
  Copying a field copies the string or the set it points to; \<open>merge_fields from fs\<close> adds copies of the fields
  \<open>from\<close> to \<open>fs\<close>, which is what \<^verbatim>\<open>MergeFrom\<close> does, also for the new set of a group.
\<close>

fun DeepCopy :: "UnknownField \<Rightarrow> UnknownField" and merge_fields :: "UnknownField list \<Rightarrow> UnknownField list \<Rightarrow> UnknownField list" where
  "DeepCopy (ULengthDelimited n str) = ULengthDelimited n str"
| "DeepCopy (UGroup n grp) = UGroup n (merge_fields grp [])"
| "DeepCopy (UVarint n v) = UVarint n v"
| "DeepCopy (UFixed32 n v) = UFixed32 n v"
| "DeepCopy (UFixed64 n v) = UFixed64 n v"
| "merge_fields [] fs = fs"
| "merge_fields (f # other) fs = merge_fields other (fs @ [DeepCopy f])"

definition UFS_AddField :: "UnknownField \<Rightarrow> UnknownFieldSet \<Rightarrow> UnknownFieldSet" where
  "UFS_AddField f s = push_field (DeepCopy f) s"

fun UFS_MergeFrom_loop :: "UnknownField list \<Rightarrow> UnknownFieldSet \<Rightarrow> UnknownFieldSet" where
  "UFS_MergeFrom_loop [] s = s"
| "UFS_MergeFrom_loop (f # other) s = UFS_MergeFrom_loop other (UFS_AddField f s)"

definition UFS_MergeFrom :: "UnknownFieldSet \<Rightarrow> UnknownFieldSet \<Rightarrow> UnknownFieldSet" where
  "UFS_MergeFrom other s = UFS_MergeFrom_loop (UFS_fields other) s"

subsection \<open>Deleting\<close>

text \<open>The loop that slides the fields down; an index outside the vector is a fault.\<close>

fun slide_fields :: "int \<Rightarrow> int list \<Rightarrow> UnknownField list \<Rightarrow> fault + UnknownField list" where
  "slide_fields num [] fs = Inr fs"
| "slide_fields num (i # is) fs =
     (if i < int (length fs) \<and> 0 \<le> i - num \<and> i - num < int (length fs)
      then slide_fields num is (fs[nat (i - num) := fs ! nat i]) else Inl OutOfBounds)"

text \<open>The index \<^verbatim>\<open>i\<close> of the loop is compared with the unsigned size, so that it does not run from a negative start.\<close>

definition UFS_DeleteSubrange :: "int \<Rightarrow> int \<Rightarrow> UnknownFieldSet \<Rightarrow> fault + UnknownFieldSet" where
  "UFS_DeleteSubrange start num s =
     (case s of
        None \<Rightarrow> Inl AssertFail
      | Some fs \<Rightarrow>
          if \<not> list_all (\<lambda>i. 0 \<le> i + start \<and> i + start < int (length fs)) [0..num - 1] then Inl OutOfBounds
          else case slide_fields num (if start + num < 0 then [] else [start + num..int (length fs) - 1]) fs of
            Inl e \<Rightarrow> Inl e
          | Inr fs' \<Rightarrow> Inr (Some (take (length fs' - nat num) fs')))"

text \<open>The loop keeps the fields that stay at the front and counts them.\<close>

fun delete_loop :: "int \<Rightarrow> nat list \<Rightarrow> nat \<Rightarrow> UnknownField list \<Rightarrow> nat \<times> UnknownField list" where
  "delete_loop number [] left fs = (left, fs)"
| "delete_loop number (i # is) left fs =
     (if UF_number (fs ! i) = number then delete_loop number is left fs
      else delete_loop number is (Suc left) (if i \<noteq> left then fs[left := fs ! i] else fs))"

definition UFS_DeleteByNumber :: "int \<Rightarrow> UnknownFieldSet \<Rightarrow> UnknownFieldSet" where
  "UFS_DeleteByNumber number s =
     (case s of None \<Rightarrow> None
      | Some fs \<Rightarrow> (case delete_loop number [0..<length fs] 0 fs of (left, fs') \<Rightarrow> Some (take left fs')))"

subsection \<open>Parsing and serialising\<close>

definition UFS_MergeFromCodedStream :: "nat \<Rightarrow> UnknownFieldSet \<Rightarrow> (bool \<times> UnknownFieldSet) cis" where
  "UFS_MergeFromCodedStream k s =
     mbind (SkipMessage k []) (\<lambda>(ok, other).
       if \<not> ok then mreturn (False, s) else
       mbind (mgets ConsumedEntireMessage) (\<lambda>ok. mreturn (if ok then (True, UFS_MergeFrom (Some other) s) else (False, s))))"

definition UFS_ParseFromCodedStream :: "nat \<Rightarrow> UnknownFieldSet \<Rightarrow> (bool \<times> UnknownFieldSet) cis" where
  "UFS_ParseFromCodedStream k s =
     (case UFS_Clear s of Inl e \<Rightarrow> mfault e | Inr s' \<Rightarrow> UFS_MergeFromCodedStream k s')"

definition UFS_ParseFromZeroCopyStream :: "UnknownFieldSet \<Rightarrow> byte list list \<Rightarrow> fault + bool \<times> UnknownFieldSet" where
  "UFS_ParseFromZeroCopyStream s input =
     (case CodedInputStream_of_stream input of
        Inl e \<Rightarrow> Inl e
      | Inr coded_input \<Rightarrow>
          (case UFS_ParseFromCodedStream (Suc (length (concat input))) s coded_input of
             Inl e \<Rightarrow> Inl e
           | Inr ((ok, s'), coded_input') \<Rightarrow> Inr (ok \<and> ConsumedEntireMessage coded_input', s')))"

definition UFS_ParseFromArray :: "UnknownFieldSet \<Rightarrow> byte list \<Rightarrow> fault + bool \<times> UnknownFieldSet" where
  "UFS_ParseFromArray s data = UFS_ParseFromZeroCopyStream s (next_blocks AS_Next (length data) (ArrayStream_new data (-1)))"

definition UFS_ParseFromString :: "UnknownFieldSet \<Rightarrow> byte list \<Rightarrow> fault + bool \<times> UnknownFieldSet" where
  "UFS_ParseFromString s data = UFS_ParseFromArray s data"

definition SerializeLengthDelimitedNoTag :: "UnknownField \<Rightarrow> unit cos" where
  "SerializeLengthDelimitedNoTag f =
     (case f of ULengthDelimited _ str \<Rightarrow> mseq (WriteVarint32 (of_nat (length str))) (COS_WriteString str) | _ \<Rightarrow> mfault AssertFail)"

definition SerializeLengthDelimitedNoTagToArray :: "UnknownField \<Rightarrow> fault + byte list" where
  "SerializeLengthDelimitedNoTagToArray f =
     (case f of ULengthDelimited _ str \<Rightarrow> Inr (WriteVarint32ToArray (of_nat (length str)) @ str) | _ \<Rightarrow> Inl AssertFail)"

section \<open>Adding and copying\<close>

text \<open>A copy is equal to what was copied, at every depth.\<close>

lemma copies_equal: "DeepCopy f = f" "merge_fields other fs = fs @ other"
  by (induction f and other fs rule: DeepCopy_merge_fields.induct) simp_all

lemma UFS_AddField_fields: "UFS_fields (UFS_AddField f s) = UFS_fields s @ [f]"
  by (simp add: UFS_AddField_def push_field_def copies_equal UFS_fields_def)

lemma UFS_MergeFrom_fields: "UFS_fields (UFS_MergeFrom other s) = UFS_fields s @ UFS_fields other"
proof -
  have "UFS_fields (UFS_MergeFrom_loop fs s) = UFS_fields s @ fs" for fs
    by (induction fs arbitrary: s) (simp_all add: UFS_AddField_fields)
  then show ?thesis by (simp add: UFS_MergeFrom_def)
qed

lemma UFS_AddLengthDelimited_value_fields:
  "UFS_AddLengthDelimited_value n str s = Inr (Some (UFS_fields s @ [ULengthDelimited (stored_number n) str]))"
  by (simp add: UFS_AddLengthDelimited_value_def UFS_AddLengthDelimited_def push_field_def UFS_fields_def UF_set_length_delimited_def)

lemma UFS_Clear_ok: "\<exists>s'. UFS_Clear s = Inr s' \<and> UFS_fields s' = []"
  by (cases s) (simp_all add: UFS_Clear_def UFS_ClearFallback_def UFS_fields_def)

section \<open>Deleting\<close>

lemma slide_fields_down:
  "num \<le> j \<Longrightarrow> j \<le> length fs \<Longrightarrow>
    slide_fields (int num) [int j..int (length fs) - 1] fs
      = Inr (take (j - num) fs @ drop j fs @ drop (length fs - num) fs)"
proof (induction "length fs - j" arbitrary: j fs)
  case 0
  then show ?case by simp
next
  case (Suc k)
  let ?fs = "fs[j - num := fs ! j]"
  have j: "j < length fs" "k = length ?fs - Suc j" using Suc by simp_all
  have "take (Suc j - num) ?fs = take (j - num) fs @ [fs ! j]"
    using Suc.prems(1) j(1) by (simp add: Suc_diff_le take_Suc_conv_app_nth)
  moreover have "drop (Suc j) ?fs = drop (Suc j) fs" using Suc.prems(1) by simp
  moreover have "drop (length fs - num) ?fs = drop (length fs - num) fs" using Suc.prems(1) j(1) by simp
  moreover have "slide_fields (int num) [int (Suc j)..int (length ?fs) - 1] ?fs
      = Inr (take (Suc j - num) ?fs @ drop (Suc j) ?fs @ drop (length ?fs - num) ?fs)"
    using Suc.prems(1) j by (intro Suc.hyps(1)) simp_all
  moreover have "[int j..int (length fs) - 1] = int j # [int (Suc j)..int (length fs) - 1]"
    using j(1) by (simp add: upto_rec1 add.commute)
  ultimately show ?case
    using Suc.prems(1) j(1) by (simp add: Cons_nth_drop_Suc [symmetric] nat_diff_distrib)
qed

lemma UFS_DeleteSubrange_fields:
  assumes "start + num \<le> length fs"
  shows "UFS_DeleteSubrange (int start) (int num) (Some fs) = Inr (Some (take start fs @ drop (start + num) fs))"
proof -
  have "list_all (\<lambda>i. 0 \<le> i + int start \<and> i + int start < int (length fs)) [0..int num - 1]"
    using assms by (auto simp: list_all_iff)
  moreover have "slide_fields (int num) [int (start + num)..int (length fs) - 1] fs
      = Inr (take start fs @ drop (start + num) fs @ drop (length fs - num) fs)"
    using slide_fields_down [of num "start + num" fs] assms by simp
  ultimately show ?thesis using assms by (simp add: UFS_DeleteSubrange_def)
qed

lemma delete_loop_filter:
  assumes "left \<le> i" "i \<le> length fs" "delete_loop number [i..<length fs] left fs = (left', fs')"
  shows "take left' fs' = take left fs @ filter (\<lambda>f. UF_number f \<noteq> number) (drop i fs) \<and> left' \<le> length fs'"
  using assms
proof (induction "length fs - i" arbitrary: i left fs)
  case (Suc k)
  have i: "i < length fs" "[i..<length fs] = i # [Suc i..<length fs]" "drop i fs = fs ! i # drop (Suc i) fs"
    using Suc.hyps(2) by (simp_all add: upt_conv_Cons Cons_nth_drop_Suc)
  show ?case
  proof (cases "UF_number (fs ! i) = number")
    case True
    then show ?thesis using Suc.hyps(1) [of fs "Suc i" left] Suc.hyps(2) Suc.prems i by simp
  next
    case False
    let ?fs = "fs[left := fs ! i]"
    have "(if i \<noteq> left then ?fs else fs) = ?fs" by simp
    then have "delete_loop number [Suc i..<length ?fs] (Suc left) ?fs = (left', fs')" using Suc.prems(3) False i by simp
    moreover have "take (Suc left) ?fs = take left fs @ [fs ! i]" "drop (Suc i) ?fs = drop (Suc i) fs"
      using Suc.prems(1) i(1) by (simp_all add: take_Suc_conv_app_nth)
    ultimately show ?thesis using Suc.hyps(1) [of ?fs "Suc i" "Suc left"] Suc.hyps(2) Suc.prems(1) False i by simp
  qed
qed simp

lemma UFS_DeleteByNumber_fields:
  "UFS_fields (UFS_DeleteByNumber number s) = filter (\<lambda>f. UF_number f \<noteq> number) (UFS_fields s)"
proof (cases s)
  case (Some fs)
  obtain left fs' where "delete_loop number [0..<length fs] 0 fs = (left, fs')" by (cases "delete_loop number [0..<length fs] 0 fs")
  then show ?thesis using delete_loop_filter [of 0 0 fs number left fs'] Some by (simp add: UFS_DeleteByNumber_def UFS_fields_def)
qed (simp add: UFS_DeleteByNumber_def UFS_fields_def)

section \<open>Parsing\<close>

lemma UFS_ParseFromZeroCopyStream_safe:
  assumes "length (concat blocks) \<le> 2 ^ 26"
  shows "\<exists>ok s'. UFS_ParseFromZeroCopyStream s blocks = Inr (ok, s') \<and> (\<not> ok \<longrightarrow> UFS_fields s' = [])"
proof -
  obtain c where c: "CodedInputStream_of_stream blocks = Inr c" "cis_wf c" "avail c = concat blocks" "recursion_depth c = 0"
    by (rule of_stream_ok [OF assms]) blast
  then have "safe (SkipMessage (Suc (length (concat blocks))) []) c"
    by (intro SkipMessage_safe) (simp_all add: ready_def)
  then obtain ok other c' where "SkipMessage (Suc (length (concat blocks))) [] c = Inr ((ok, other), c')"
    by (auto simp: safe_def mwp_total)
  then show ?thesis using UFS_Clear_ok [of s] c(1)
    by (auto simp: UFS_ParseFromZeroCopyStream_def UFS_ParseFromCodedStream_def UFS_MergeFromCodedStream_def run_simps)
qed

lemma UFS_ParseFromZeroCopyStream_bytes:
  assumes "unknowns_ok d us" "d \<le> 100" "length (SerializeUnknownFieldsToArray us) < 2 ^ 26"
    "concat blocks = SerializeUnknownFieldsToArray us"
  shows "\<exists>s'. UFS_ParseFromZeroCopyStream s blocks = Inr (True, s') \<and> UFS_fields s' = us"
proof -
  let ?k = "Suc (length (concat blocks))"
  have "length (concat blocks) \<le> 2 ^ 26" using assms(3,4) by simp
  then obtain c where c: "CodedInputStream_of_stream blocks = Inr c" "cis_wf c" "avail c = concat blocks" "CurrentPosition c = 0"
    "recursion_depth c = 0" "recursion_limit c = 100" "total_bytes_limit c = 67108864"
    by (rule of_stream_ok)
  have fits: "fits d c" using c assms by (simp add: fits_def ready_def INT_MAX_def)
  have "feeds SkipMessage d (concat blocks) [] us" using feeds_unknown [OF assms(1), of "[]"] assms(4) by simp
  from skip.whole [OF this fits c(3), of ?k]
  obtain c' where r: "SkipMessage ?k [] c = Inr ((True, us), c')" "legitimate_message_end c'" by auto
  obtain s1 where s1: "UFS_Clear s = Inr s1" "UFS_fields s1 = []" using UFS_Clear_ok by blast
  show ?thesis
    using r s1 c(1) UFS_MergeFrom_fields [of "Some us" s1]
    by (simp add: UFS_ParseFromZeroCopyStream_def UFS_ParseFromCodedStream_def UFS_MergeFromCodedStream_def run_simps
        ConsumedEntireMessage_def) (simp add: UFS_fields_def)
qed

lemma UFS_ParseFromString_bytes:
  assumes "unknowns_ok d us" "d \<le> 100" "length (SerializeUnknownFieldsToArray us) < 2 ^ 26"
  shows "\<exists>s'. UFS_ParseFromString s (SerializeUnknownFieldsToArray us) = Inr (True, s') \<and> UFS_fields s' = us"
  unfolding UFS_ParseFromString_def UFS_ParseFromArray_def
  by (rule UFS_ParseFromZeroCopyStream_bytes [OF assms array_blocks])

section \<open>Properties\<close>

text \<open>
  C20. A set of unknown fields behaves as the list of its fields: merging appends copies equal to the fields of
  the other set, groups at every depth included, deleting a number keeps the fields with other numbers in
  their order, deleting a range of indices removes exactly that range, and parsing the bytes of a set, whatever
  the set parsed into held before, gives a set with the same fields.
\<close>

theorem unknown_field_set_is_list:
  assumes "start + num \<le> length fs" and "unknowns_ok d us" and "d \<le> 100" and "length (SerializeUnknownFieldsToArray us) < 2 ^ 26"
  shows "UFS_fields (UFS_MergeFrom other s) = UFS_fields s @ UFS_fields other
    \<and> UFS_fields (UFS_DeleteByNumber number s) = filter (\<lambda>f. UF_number f \<noteq> number) (UFS_fields s)
    \<and> UFS_DeleteSubrange (int start) (int num) (Some fs) = Inr (Some (take start fs @ drop (start + num) fs))
    \<and> (\<exists>s'. UFS_ParseFromString s (SerializeUnknownFieldsToArray us) = Inr (True, s') \<and> UFS_fields s' = us)"
  using UFS_DeleteSubrange_fields [OF assms(1)] UFS_ParseFromString_bytes [OF assms(2-4)]
  by (simp add: UFS_MergeFrom_fields UFS_DeleteByNumber_fields)

definition sample_unknown :: "UnknownField list" where
  "sample_unknown = [UVarint 5 300, UGroup 6 [UFixed32 1 7, ULengthDelimited 2 [65]], UFixed64 5 1]"

theorem unknown_field_set_is_list_witness:
  "UFS_DeleteByNumber 5 (Some sample_unknown) = Some [UGroup 6 [UFixed32 1 7, ULengthDelimited 2 [65]]]
    \<and> UFS_DeleteSubrange 0 2 (Some sample_unknown) = Inr (Some [UFixed64 5 1])
    \<and> (\<exists>s'. UFS_ParseFromString None (SerializeUnknownFieldsToArray sample_unknown) = Inr (True, s') \<and> UFS_fields s' = sample_unknown)"
proof -
  have bytes: "SerializeUnknownFieldsToArray sample_unknown
      = [40, 172, 2, 51, 13, 7, 0, 0, 0, 18, 1, 65, 52, 41, 1, 0, 0, 0, 0, 0, 0, 0]"
    by code_simp
  have ok: "unknowns_ok 1 sample_unknown" "0 + 2 \<le> length sample_unknown" by (simp_all add: sample_unknown_def number_ok_def)
  have len: "length (SerializeUnknownFieldsToArray sample_unknown) < 2 ^ 26" unfolding bytes by simp
  have "UFS_DeleteSubrange (int 0) (int 2) (Some sample_unknown) = Inr (Some (take 0 sample_unknown @ drop (0 + 2) sample_unknown))"
    "\<exists>s'. UFS_ParseFromString None (SerializeUnknownFieldsToArray sample_unknown) = Inr (True, s') \<and> UFS_fields s' = sample_unknown"
    using unknown_field_set_is_list [OF ok(2,1) _ len, of None None 0] by simp_all
  moreover have "drop (0 + 2) sample_unknown = [UFixed64 5 1]" by (simp add: sample_unknown_def)
  moreover have "UFS_DeleteByNumber 5 (Some sample_unknown) = Some [UGroup 6 [UFixed32 1 7, ULengthDelimited 2 [65]]]" by code_simp
  ultimately show ?thesis by simp
qed

end
