(* ===== verification/Stream_Adaptors.thy ===== *)
theory Stream_Adaptors
  imports Array_Streams
begin

text \<open>
  Streams made of other streams (\<^verbatim>\<open>io/zero_copy_stream_impl.cc\<close>): \<^verbatim>\<open>LimitingInputStream\<close>, which ends early, and
  \<^verbatim>\<open>ConcatenatingInputStream\<close>, which goes through several streams. Both are functions of the operations of
  what lies underneath, and give a stream that keeps the contract when that one does.
\<close>

section \<open>Operations\<close>

subsection \<open>Limiting\<close>

record 'i LimitingStream =
  lim_input :: 'i
  lim_limit :: int

definition Lim_Next :: "('i \<Rightarrow> byte list option \<times> 'i) \<Rightarrow> 'i LimitingStream \<Rightarrow> byte list option \<times> 'i LimitingStream" where
  "Lim_Next next s =
     (if lim_limit s \<le> 0 then (None, s)
      else case next (lim_input s) of
        (None, i) \<Rightarrow> (None, s\<lparr>lim_input := i\<rparr>)
      | (Some b, i) \<Rightarrow>
          let limit = lim_limit s - int (length b) in
          (Some (if limit < 0 then take (nat (int (length b) + limit)) b else b), s\<lparr>lim_input := i, lim_limit := limit\<rparr>))"

definition Lim_BackUp :: "(int \<Rightarrow> 'i \<Rightarrow> fault + 'i) \<Rightarrow> int \<Rightarrow> 'i LimitingStream \<Rightarrow> fault + 'i LimitingStream" where
  "Lim_BackUp back_up count s =
     (if lim_limit s < 0 then
        (case back_up (count - lim_limit s) (lim_input s) of Inl e \<Rightarrow> Inl e | Inr i \<Rightarrow> Inr (s\<lparr>lim_input := i, lim_limit := count\<rparr>))
      else
        (case back_up count (lim_input s) of Inl e \<Rightarrow> Inl e | Inr i \<Rightarrow> Inr (s\<lparr>lim_input := i, lim_limit := lim_limit s + count\<rparr>)))"

definition Lim_Skip :: "(int \<Rightarrow> 'i \<Rightarrow> fault + bool \<times> 'i) \<Rightarrow> int \<Rightarrow> 'i LimitingStream \<Rightarrow> fault + bool \<times> 'i LimitingStream" where
  "Lim_Skip skip count s =
     (if count > lim_limit s then
        (if lim_limit s < 0 then Inr (False, s)
         else case skip (lim_limit s) (lim_input s) of
           Inl e \<Rightarrow> Inl e
         | Inr (_, i) \<Rightarrow> Inr (False, s\<lparr>lim_input := i, lim_limit := 0\<rparr>))
      else
        (case skip count (lim_input s) of
           Inl e \<Rightarrow> Inl e
         | Inr (ok, i) \<Rightarrow>
             if \<not> ok then Inr (False, s\<lparr>lim_input := i\<rparr>)
             else Inr (True, s\<lparr>lim_input := i, lim_limit := lim_limit s - count\<rparr>)))"

definition Lim_ByteCount :: "('i \<Rightarrow> int) \<Rightarrow> 'i LimitingStream \<Rightarrow> int" where
  "Lim_ByteCount byte_count s =
     (if lim_limit s < 0 then byte_count (lim_input s) + lim_limit s else byte_count (lim_input s))"

text \<open>The destructor; the result is the stream underneath.\<close>

definition Lim_delete :: "(int \<Rightarrow> 'i \<Rightarrow> fault + 'i) \<Rightarrow> 'i LimitingStream \<Rightarrow> fault + 'i" where
  "Lim_delete back_up s = (if lim_limit s < 0 then back_up (- lim_limit s) (lim_input s) else Inr (lim_input s))"

subsection \<open>Concatenating\<close>

record 'i ConcatenatingStream =
  cat_streams :: "'i list"
  cat_retired :: int

fun cat_next :: "('i \<Rightarrow> byte list option \<times> 'i) \<Rightarrow> ('i \<Rightarrow> int) \<Rightarrow> 'i list \<Rightarrow> int \<Rightarrow> byte list option \<times> 'i list \<times> int" where
  "cat_next next byte_count [] retired = (None, [], retired)"
| "cat_next next byte_count (i # is) retired =
     (case next i of
        (Some b, i') \<Rightarrow> (Some b, i' # is, retired)
      | (None, i') \<Rightarrow> cat_next next byte_count is (retired + byte_count i'))"

definition Cat_Next ::
  "('i \<Rightarrow> byte list option \<times> 'i) \<Rightarrow> ('i \<Rightarrow> int) \<Rightarrow> 'i ConcatenatingStream \<Rightarrow> byte list option \<times> 'i ConcatenatingStream"
where
  "Cat_Next next byte_count s =
     (case cat_next next byte_count (cat_streams s) (cat_retired s) of
        (b, is, retired) \<Rightarrow> (b, \<lparr>cat_streams = is, cat_retired = retired\<rparr>))"

text \<open>Backing up after the end ends the program (\<^verbatim>\<open>GOOGLE_LOG(DFATAL)\<close>, in a build with debugging).\<close>

definition Cat_BackUp :: "(int \<Rightarrow> 'i \<Rightarrow> fault + 'i) \<Rightarrow> int \<Rightarrow> 'i ConcatenatingStream \<Rightarrow> fault + 'i ConcatenatingStream" where
  "Cat_BackUp back_up count s =
     (case cat_streams s of
        i # is \<Rightarrow> (case back_up count i of Inl e \<Rightarrow> Inl e | Inr i' \<Rightarrow> Inr (s\<lparr>cat_streams := i' # is\<rparr>))
      | [] \<Rightarrow> Inl AssertFail)"

fun cat_skip ::
  "(int \<Rightarrow> 'i \<Rightarrow> fault + bool \<times> 'i) \<Rightarrow> ('i \<Rightarrow> int) \<Rightarrow> int \<Rightarrow> 'i list \<Rightarrow> int \<Rightarrow> fault + bool \<times> 'i list \<times> int"
where
  "cat_skip skip byte_count count [] retired = Inr (False, [], retired)"
| "cat_skip skip byte_count count (i # is) retired =
     (let target_byte_count = byte_count i + count in
      case skip count i of
        Inl e \<Rightarrow> Inl e
      | Inr (ok, i') \<Rightarrow>
          if ok then Inr (True, i' # is, retired)
          else let final_byte_count = byte_count i' in
            if \<not> final_byte_count < target_byte_count then Inl AssertFail
            else cat_skip skip byte_count (target_byte_count - final_byte_count) is (retired + final_byte_count))"

definition Cat_Skip ::
  "(int \<Rightarrow> 'i \<Rightarrow> fault + bool \<times> 'i) \<Rightarrow> ('i \<Rightarrow> int) \<Rightarrow> int \<Rightarrow> 'i ConcatenatingStream \<Rightarrow> fault + bool \<times> 'i ConcatenatingStream"
where
  "Cat_Skip skip byte_count count s =
     (case cat_skip skip byte_count count (cat_streams s) (cat_retired s) of
        Inl e \<Rightarrow> Inl e
      | Inr (ok, is, retired) \<Rightarrow> Inr (ok, \<lparr>cat_streams = is, cat_retired = retired\<rparr>))"

definition Cat_ByteCount :: "('i \<Rightarrow> int) \<Rightarrow> 'i ConcatenatingStream \<Rightarrow> int" where
  "Cat_ByteCount byte_count s =
     (case cat_streams s of [] \<Rightarrow> cat_retired s | i # _ \<Rightarrow> cat_retired s + byte_count i)"

section \<open>Input streams\<close>

text \<open>
  The contract of an input stream adds \<^verbatim>\<open>Skip\<close>: it goes as far as the stream does, and says whether that was
  far enough. What \<^verbatim>\<open>Skip(0)\<close> says is left open: a limited stream that has overshot its limit says it has
  ended, and so does an empty concatenation.
\<close>

locale zero_copy_input = zero_copy_stream wf left next_block back_up byte_count
  for wf :: "'s \<Rightarrow> bool" and left :: "'s \<Rightarrow> byte list" and next_block :: "'s \<Rightarrow> byte list option \<times> 's"
    and back_up :: "int \<Rightarrow> 's \<Rightarrow> fault + 's" and byte_count :: "'s \<Rightarrow> int" +
  fixes skip :: "int \<Rightarrow> 's \<Rightarrow> fault + bool \<times> 's"
  assumes skip_bytes: "wf s \<Longrightarrow> \<exists>ok s'. skip (int n) s = Inr (ok, s') \<and> (0 < n \<longrightarrow> ok = (n \<le> length (left s)))
      \<and> wf s' \<and> left s' = drop n (left s) \<and> byte_count s' = byte_count s + int (min n (length (left s)))"
begin

subsection \<open>A limited stream\<close>

definition lim_left :: "'s LimitingStream \<Rightarrow> byte list" where
  "lim_left s = take (nat (lim_limit s)) (left (lim_input s))"

lemma Lim_Next_some:
  assumes s: "wf (lim_input s)" and n: "Lim_Next next_block s = (Some b, s')"
  obtains b0 i where "next_block (lim_input s) = (Some b0, i)" "0 < lim_limit s" "b = take (nat (lim_limit s)) b0"
    "s' = s\<lparr>lim_input := i, lim_limit := lim_limit s - int (length b0)\<rparr>" "wf i" "b0 \<noteq> []" "left (lim_input s) = b0 @ left i"
    "byte_count i = byte_count (lim_input s) + int (length b0)"
proof -
  have pos: "0 < lim_limit s" using n by (auto simp: Lim_Next_def split: if_splits)
  obtain b0 i where i: "next_block (lim_input s) = (Some b0, i)"
    using n pos by (cases "next_block (lim_input s)") (auto simp: Lim_Next_def split: option.splits)
  then have "b = take (nat (lim_limit s)) b0" "s' = s\<lparr>lim_input := i, lim_limit := lim_limit s - int (length b0)\<rparr>"
    using n pos by (auto simp: Lim_Next_def Let_def split: if_splits)
  then show ?thesis using that pos i next_some [OF s i] by blast
qed

lemma limiting:
  "zero_copy_input (\<lambda>s. wf (lim_input s)) lim_left (Lim_Next next_block) (Lim_BackUp back_up) (Lim_ByteCount byte_count) (Lim_Skip skip)"
proof unfold_locales
  fix s s' s1 :: "'s LimitingStream" and b n
  assume s: "wf (lim_input s)"
  show "wf (lim_input s') \<and> b \<noteq> [] \<and> lim_left s = b @ lim_left s'
      \<and> Lim_ByteCount byte_count s' = Lim_ByteCount byte_count s + int (length b)"
    if "Lim_Next next_block s = (Some b, s')"
    by (rule Lim_Next_some [OF s that]) (auto simp: lim_left_def Lim_ByteCount_def min_def nat_diff_distrib)
  show "wf (lim_input s') \<and> lim_left s = [] \<and> lim_left s' = [] \<and> Lim_ByteCount byte_count s' = Lim_ByteCount byte_count s"
    if n: "Lim_Next next_block s = (None, s')"
  proof (cases "lim_limit s \<le> 0")
    case False
    then obtain i where i: "next_block (lim_input s) = (None, i)" "s' = s\<lparr>lim_input := i\<rparr>"
      using n by (cases "next_block (lim_input s)") (auto simp: Lim_Next_def Let_def split: option.splits)
    then show ?thesis using next_none [OF s i(1)] by (simp add: lim_left_def Lim_ByteCount_def)
  qed (use n s in \<open>auto simp: Lim_Next_def lim_left_def\<close>)
  show "\<exists>s2. Lim_BackUp back_up (int n) s1 = Inr s2 \<and> wf (lim_input s2) \<and> lim_left s2 = drop (length b - n) b @ lim_left s1
      \<and> Lim_ByteCount byte_count s2 = Lim_ByteCount byte_count s1 - int n"
    if nx: "Lim_Next next_block s = (Some b, s1)" and n: "n \<le> length b"
  proof (rule Lim_Next_some [OF s nx])
    fix b0 i
    assume i: "next_block (lim_input s) = (Some b0, i)" "0 < lim_limit s" "b = take (nat (lim_limit s)) b0"
      "s1 = s\<lparr>lim_input := i, lim_limit := lim_limit s - int (length b0)\<rparr>"
    define over where "over = nat (int (length b0) - lim_limit s)"
    have "n + over \<le> length b0" using n i(2,3) by (auto simp: over_def)
    then obtain i2 where i2: "back_up (int (n + over)) i = Inr i2" "wf i2" "left i2 = drop (length b0 - (n + over)) b0 @ left i"
      "byte_count i2 = byte_count i - int (n + over)"
      using back_up_next [OF s i(1)] by blast
    show ?thesis
    proof (cases "lim_limit s < int (length b0)")
      case True
      have lb: "length b = nat (lim_limit s)" "length b0 = length b + over" using i(2,3) True by (simp_all add: over_def)
      have count: "int n - (lim_limit s - int (length b0)) = int (n + over)" using True by (simp add: over_def)
      have sel: "lim_input s1 = i" "lim_limit s1 = lim_limit s - int (length b0)" using i(4) by simp_all
      have neg: "(lim_limit s - int (length b0) < 0) = True" using True by simp
      have under: "back_up (int n - (lim_limit s - int (length b0))) i = Inr i2" using i2(1) by (simp only: count)
      have "Lim_BackUp back_up (int n) s1 = Inr (s1\<lparr>lim_input := i2, lim_limit := int n\<rparr>)"
        by (simp only: Lim_BackUp_def sel neg if_True under sum.case)
      moreover have cut: "take n (drop (length b0 - (n + over)) b0 @ left i) = drop (length b - n) b"
      proof -
        have k: "length b0 - (n + over) = length b - n" using lb(2) by simp
        have "b = take (length b) b0" using i(3) lb(1) by simp
        then have "drop (length b - n) b = take n (drop (length b - n) b0)" using n by (metis diff_diff_cancel drop_take)
        moreover have "n \<le> length (drop (length b - n) b0)" using n lb(2) by simp
        ultimately show ?thesis unfolding k by simp
      qed
      ultimately show ?thesis
        using i2 i(4) True by (simp add: lim_left_def Lim_ByteCount_def over_def)
    next
      case False
      then have "over = 0" "b = b0" using i(3) by (simp_all add: over_def)
      moreover have "nat (lim_limit s - int (length b0) + int n) - n = nat (lim_limit s - int (length b0))"
        "n \<le> nat (lim_limit s - int (length b0) + int n)" using False by simp_all
      ultimately show ?thesis using i2 i(4) n False by (simp add: lim_left_def Lim_ByteCount_def Lim_BackUp_def)
    qed
  qed
  show "\<exists>ok s'. Lim_Skip skip (int n) s = Inr (ok, s') \<and> (0 < n \<longrightarrow> ok = (n \<le> length (lim_left s)))
      \<and> wf (lim_input s') \<and> lim_left s' = drop n (lim_left s) \<and> Lim_ByteCount byte_count s' = Lim_ByteCount byte_count s + int (min n (length (lim_left s)))"
  proof (cases "int n > lim_limit s")
    case True
    show ?thesis
    proof (cases "lim_limit s < 0")
      case False
      then obtain ok i where "skip (lim_limit s) (lim_input s) = Inr (ok, i)" "wf i"
        "byte_count i = byte_count (lim_input s) + int (min (nat (lim_limit s)) (length (left (lim_input s))))"
        using skip_bytes [OF s, of "nat (lim_limit s)"] by auto
      moreover have "nat (lim_limit s) < n" using True False by linarith
      ultimately show ?thesis using True False by (simp add: Lim_Skip_def lim_left_def Lim_ByteCount_def min_def)
    qed (use s True in \<open>simp add: Lim_Skip_def lim_left_def, blast\<close>)
  next
    case False
    obtain ok i where i: "skip (int n) (lim_input s) = Inr (ok, i)" "0 < n \<longrightarrow> ok = (n \<le> length (left (lim_input s)))" "wf i"
      "left i = drop n (left (lim_input s))"
      "byte_count i = byte_count (lim_input s) + int (min n (length (left (lim_input s))))"
      using skip_bytes [OF s, of n] by auto
    have n: "n \<le> nat (lim_limit s)" "nat (lim_limit s - int n) = nat (lim_limit s) - n" using False by simp_all
    have len: "min n (min (length (left (lim_input s))) (nat (lim_limit s))) = min n (length (left (lim_input s)))" using n(1) by simp
    show ?thesis
    proof (cases ok)
      case True
      then show ?thesis using False i n len by (simp add: Lim_Skip_def lim_left_def Lim_ByteCount_def drop_take, blast)
    next
      case no: False
      then have "0 < n \<longrightarrow> length (left (lim_input s)) < n" using i(2) by (simp add: not_le)
      then show ?thesis using no False i n len by (cases "n = 0") (simp_all add: Lim_Skip_def lim_left_def Lim_ByteCount_def, blast+)
    qed
  qed
qed

text \<open>When the limited stream goes away, what lies underneath goes on right after what was handed out.\<close>

lemma Lim_delete_after_next:
  assumes "wf (lim_input s)" "Lim_Next next_block s = (Some b, s1)"
  shows "\<exists>i. Lim_delete back_up s1 = Inr i \<and> wf i \<and> left (lim_input s) = b @ left i"
proof (rule Lim_Next_some [OF assms])
  fix b0 i
  assume i: "next_block (lim_input s) = (Some b0, i)" "0 < lim_limit s" "b = take (nat (lim_limit s)) b0"
    "s1 = s\<lparr>lim_input := i, lim_limit := lim_limit s - int (length b0)\<rparr>" "wf i" "left (lim_input s) = b0 @ left i"
  show ?thesis
  proof (cases "lim_limit s < int (length b0)")
    case True
    define over where "over = length b0 - nat (lim_limit s)"
    have over: "int (length b0) - lim_limit s = int over" "over \<le> length b0" "length b0 - over = nat (lim_limit s)"
      using True i(2) by (simp_all add: over_def)
    obtain i2 where "back_up (int over) i = Inr i2" "wf i2" "left i2 = drop (length b0 - over) b0 @ left i"
      using back_up_next [OF assms(1) i(1) over(2)] by blast
    then show ?thesis using True i(3,4,6) over by (simp add: Lim_delete_def)
  qed (use i in \<open>simp add: Lim_delete_def\<close>)
qed

subsection \<open>A concatenation\<close>

definition cat_left :: "'s ConcatenatingStream \<Rightarrow> byte list" where
  "cat_left s = concat (map left (cat_streams s))"

definition head_count :: "'s list \<Rightarrow> int" where
  "head_count is = (case is of [] \<Rightarrow> 0 | i # _ \<Rightarrow> byte_count i)"

definition cat_ok :: "'s list \<Rightarrow> bool" where
  "cat_ok is \<longleftrightarrow> list_all wf is \<and> list_all (\<lambda>i. byte_count i = 0) (tl is)"

lemma cat_ok_Cons: "cat_ok (i # rest) \<Longrightarrow> wf i \<and> cat_ok rest \<and> head_count rest = 0 \<and> head_count (i # rest) = byte_count i"
  by (cases rest) (simp_all add: cat_ok_def head_count_def)

lemma cat_ok_same_rest: "cat_ok (i # rest) \<Longrightarrow> wf i' \<Longrightarrow> cat_ok (i' # rest) \<and> head_count (i' # rest) = byte_count i'"
  by (simp add: cat_ok_def head_count_def)

lemma cat_next_some:
  "cat_ok is \<Longrightarrow> cat_next next_block byte_count is r = (Some b, is', r') \<Longrightarrow>
    \<exists>i0 i rest. next_block i0 = (Some b, i) \<and> is' = i # rest \<and> cat_ok (i0 # rest)
      \<and> concat (map left is) = left i0 @ concat (map left rest) \<and> r' + byte_count i0 = r + head_count is"
proof (induction "is" arbitrary: r)
  case (Cons i0 rest)
  note ok = cat_ok_Cons [OF Cons.prems(1)]
  show ?case
  proof (cases "fst (next_block i0)")
    case None
    then obtain i where n: "next_block i0 = (None, i)" by (cases "next_block i0") simp
    then have e: "left i0 = []" "byte_count i = byte_count i0" using next_none [of i0 i] ok by simp_all
    have "cat_next next_block byte_count rest (r + byte_count i0) = (Some b, is', r')" using Cons.prems(2) n e by simp
    from Cons.IH [OF _ this] show ?thesis using ok e by simp
  next
    case (Some b')
    then obtain i where "next_block i0 = (Some b', i)" by (cases "next_block i0") simp
    then show ?thesis using Cons.prems ok by auto
  qed
qed simp

lemma cat_next_none:
  "cat_ok is \<Longrightarrow> cat_next next_block byte_count is r = (None, is', r') \<Longrightarrow>
    is' = [] \<and> concat (map left is) = [] \<and> r' = r + head_count is"
proof (induction "is" arbitrary: r)
  case (Cons i0 rest)
  note ok = cat_ok_Cons [OF Cons.prems(1)]
  obtain i where n: "next_block i0 = (None, i)" using Cons.prems(2) by (cases "next_block i0") (auto split: option.splits)
  then have e: "left i0 = []" "byte_count i = byte_count i0" using next_none [of i0 i] ok by simp_all
  have "cat_next next_block byte_count rest (r + byte_count i0) = (None, is', r')" using Cons.prems(2) n e by simp
  from Cons.IH [OF _ this] show ?case using ok e by simp
qed (simp add: head_count_def)

end

text \<open>For a concatenation, \<^verbatim>\<open>Skip(0)\<close> must succeed underneath: \<^verbatim>\<open>Skip\<close> checks that a stream that fails fell short.\<close>

locale zero_copy_array = zero_copy_input +
  assumes skip_zero: "wf s \<Longrightarrow> skip 0 s = Inr (ok, s') \<Longrightarrow> ok"
begin

lemma cat_skip_bytes:
  "cat_ok is \<Longrightarrow>
    \<exists>ok is' r'. cat_skip skip byte_count (int n) is r = Inr (ok, is', r') \<and> (0 < n \<longrightarrow> ok = (n \<le> length (concat (map left is))))
      \<and> cat_ok is' \<and> concat (map left is') = drop n (concat (map left is))
      \<and> r' + head_count is' = r + head_count is + int (min n (length (concat (map left is))))"
proof (induction "is" arbitrary: r n)
  case (Cons i0 rest)
  note ok = cat_ok_Cons [OF Cons.prems]
  obtain b i where i: "skip (int n) i0 = Inr (b, i)" "0 < n \<longrightarrow> b = (n \<le> length (left i0))" "wf i" "left i = drop n (left i0)"
    "byte_count i = byte_count i0 + int (min n (length (left i0)))"
    using skip_bytes [of i0 n] ok by blast
  then have b: "b = (n \<le> length (left i0))" using skip_zero [of i0 b i] ok by (cases "n = 0") simp_all
  show ?case
  proof (cases b)
    case True
    then show ?thesis using i b cat_ok_same_rest [OF Cons.prems i(3)] ok by (auto simp: min_def)
  next
    case False
    let ?n = "n - length (left i0)"
    have short: "byte_count i < byte_count i0 + int n" "byte_count i0 + int n - byte_count i = int ?n" "0 < ?n"
      "byte_count i = byte_count i0 + int (length (left i0))"
      using False b i(5) by simp_all
    have step: "cat_skip skip byte_count (int n) (i0 # rest) r = cat_skip skip byte_count (int ?n) rest (r + byte_count i)"
      using False i(1) short by (simp add: Let_def)
    obtain ok' is' r' where "cat_skip skip byte_count (int ?n) rest (r + byte_count i) = Inr (ok', is', r')"
      "ok' = (?n \<le> length (concat (map left rest)))" "cat_ok is'" "concat (map left is') = drop ?n (concat (map left rest))"
      "r' + head_count is' = r + byte_count i + int (min ?n (length (concat (map left rest))))"
      using Cons.IH [of ?n "r + byte_count i"] ok short(3) by auto
    then show ?thesis unfolding step using False b short ok by auto
  qed
qed (simp add: cat_ok_def, blast)

lemma concatenating:
  "zero_copy_input (\<lambda>s. cat_ok (cat_streams s)) cat_left (Cat_Next next_block byte_count) (Cat_BackUp back_up)
    (Cat_ByteCount byte_count) (Cat_Skip skip byte_count)"
proof unfold_locales
  have count: "Cat_ByteCount byte_count s = cat_retired s + head_count (cat_streams s)" for s
    by (simp add: Cat_ByteCount_def head_count_def split: list.split)
  fix s s' s1 :: "'a ConcatenatingStream" and b n
  assume s: "cat_ok (cat_streams s)"
  have some: "\<exists>i0 i rest. next_block i0 = (Some b, i) \<and> s' = \<lparr>cat_streams = i # rest, cat_retired = cat_retired s'\<rparr>
      \<and> cat_ok (i0 # rest) \<and> cat_left s = left i0 @ concat (map left rest)
      \<and> cat_retired s' + byte_count i0 = Cat_ByteCount byte_count s"
    if "Cat_Next next_block byte_count s = (Some b, s')" for s'
    using cat_next_some [OF s, of "cat_retired s" b "cat_streams s'" "cat_retired s'"] that
    by (auto simp: Cat_Next_def cat_left_def count split: prod.splits)
  show "cat_ok (cat_streams s') \<and> b \<noteq> [] \<and> cat_left s = b @ cat_left s'
      \<and> Cat_ByteCount byte_count s' = Cat_ByteCount byte_count s + int (length b)"
    if "Cat_Next next_block byte_count s = (Some b, s')"
  proof -
    note hyp = that
    obtain i0 i rest where i: "next_block i0 = (Some b, i)" "s' = \<lparr>cat_streams = i # rest, cat_retired = cat_retired s'\<rparr>"
      "cat_ok (i0 # rest)" "cat_left s = left i0 @ concat (map left rest)"
      "cat_retired s' + byte_count i0 = Cat_ByteCount byte_count s"
      using some [OF hyp] by blast
    have n: "wf i" "b \<noteq> []" "left i0 = b @ left i" "byte_count i = byte_count i0 + int (length b)"
      using next_some [OF _ i(1)] cat_ok_Cons [OF i(3)] by simp_all
    have "cat_streams s' = i # rest" by (subst i(2)) simp
    then show ?thesis using n i(4,5) cat_ok_same_rest [OF i(3) n(1)] by (simp add: cat_left_def count)
  qed
  show "cat_ok (cat_streams s') \<and> cat_left s = [] \<and> cat_left s' = [] \<and> Cat_ByteCount byte_count s' = Cat_ByteCount byte_count s"
    if "Cat_Next next_block byte_count s = (None, s')"
    using cat_next_none [OF s, of "cat_retired s" "cat_streams s'" "cat_retired s'"] that
    by (auto simp: Cat_Next_def cat_left_def count head_count_def cat_ok_def split: prod.splits)
  show "\<exists>s2. Cat_BackUp back_up (int n) s1 = Inr s2 \<and> cat_ok (cat_streams s2) \<and> cat_left s2 = drop (length b - n) b @ cat_left s1
      \<and> Cat_ByteCount byte_count s2 = Cat_ByteCount byte_count s1 - int n"
    if "Cat_Next next_block byte_count s = (Some b, s1)" "n \<le> length b"
  proof -
    note hyp = that
    obtain i0 i rest where i: "next_block i0 = (Some b, i)" "s1 = \<lparr>cat_streams = i # rest, cat_retired = cat_retired s1\<rparr>"
      "cat_ok (i0 # rest)"
      using some [OF hyp(1)] by blast
    obtain i2 where i2: "back_up (int n) i = Inr i2" "wf i2" "left i2 = drop (length b - n) b @ left i"
      "byte_count i2 = byte_count i - int n"
      using back_up_next [OF _ i(1) hyp(2)] cat_ok_Cons [OF i(3)] by blast
    have "cat_streams s1 = i # rest" by (subst i(2)) simp
    then show ?thesis using i2 cat_ok_same_rest [OF i(3) i2(2)] by (simp add: Cat_BackUp_def cat_left_def count head_count_def)
  qed
  show "\<exists>ok s'. Cat_Skip skip byte_count (int n) s = Inr (ok, s') \<and> (0 < n \<longrightarrow> ok = (n \<le> length (cat_left s)))
      \<and> cat_ok (cat_streams s') \<and> cat_left s' = drop n (cat_left s)
      \<and> Cat_ByteCount byte_count s' = Cat_ByteCount byte_count s + int (min n (length (cat_left s)))"
    using cat_skip_bytes [OF s, of n "cat_retired s"] by (auto simp: Cat_Skip_def cat_left_def count)
qed

end

section \<open>Arrays underneath\<close>

interpretation array_input: zero_copy_array as_wf as_left AS_Next AS_BackUp AS_ByteCount AS_Skip
proof unfold_locales
  fix s s' :: ArrayStream and n ok
  assume s: "as_wf s"
  then obtain p where p: "as_position s = int p" "as_size s = int (length (as_data s))" "p \<le> length (as_data s)"
    by (metis as_wf_def nat_0_le of_nat_le_iff)
  have len: "length (as_left s) = length (as_data s) - p" by (simp add: as_left_def p)
  show "\<exists>ok s'. AS_Skip (int n) s = Inr (ok, s') \<and> (0 < n \<longrightarrow> ok = (n \<le> length (as_left s)))
      \<and> as_wf s' \<and> as_left s' = drop n (as_left s) \<and> AS_ByteCount s' = AS_ByteCount s + int (min n (length (as_left s)))"
  proof (cases "n \<le> length (as_data s) - p")
    case True
    then have "AS_Skip (int n) s = Inr (True, s\<lparr>as_last_returned_size := 0, as_position := int (n + p)\<rparr>)"
      using p by (auto simp: AS_Skip_def)
    moreover have "n + p \<le> length (as_data s)" "n \<le> length (as_left s)" using True p(3) len by simp_all
    ultimately show ?thesis using s p
      by (intro exI conjI) (assumption | simp add: as_wf_def as_left_def AS_ByteCount_def nat_add_distrib)+
  next
    case False
    then have "AS_Skip (int n) s = Inr (False, s\<lparr>as_last_returned_size := 0, as_position := int (length (as_data s))\<rparr>)"
      using p by (auto simp: AS_Skip_def)
    then show ?thesis using False s p len by (auto simp: as_wf_def as_left_def AS_ByteCount_def)
  qed
  show "ok" if "AS_Skip 0 s = Inr (ok, s')" using s that by (auto simp: AS_Skip_def as_wf_def)
qed

interpretation limited_array: zero_copy_input "\<lambda>s. as_wf (lim_input s)" array_input.lim_left "Lim_Next AS_Next"
  "Lim_BackUp AS_BackUp" "Lim_ByteCount AS_ByteCount" "Lim_Skip AS_Skip"
  by (rule array_input.limiting)

interpretation arrays: zero_copy_input "\<lambda>s. array_input.cat_ok (cat_streams s)" array_input.cat_left "Cat_Next AS_Next AS_ByteCount"
  "Cat_BackUp AS_BackUp" "Cat_ByteCount AS_ByteCount" "Cat_Skip AS_Skip AS_ByteCount"
  by (rule array_input.concatenating)

text \<open>The blocks of a limited array are its first bytes, and those of several arrays are theirs one after the other.\<close>

definition LimitingInputStream_new :: "'i \<Rightarrow> int \<Rightarrow> 'i LimitingStream" where
  "LimitingInputStream_new input limit = \<lparr>lim_input = input, lim_limit = limit\<rparr>"

definition ConcatenatingInputStream_new :: "'i list \<Rightarrow> 'i ConcatenatingStream" where
  "ConcatenatingInputStream_new streams = \<lparr>cat_streams = streams, cat_retired = 0\<rparr>"

lemma limited_array_blocks:
  "concat (next_blocks (Lim_Next AS_Next) (length data) (LimitingInputStream_new (ArrayStream_new data n) limit)) = take (nat limit) data"
  using limited_array.concat_blocks [of "LimitingInputStream_new (ArrayStream_new data n) limit" "length data"]
  by (simp add: LimitingInputStream_new_def array_input.lim_left_def ArrayStream_new_ok)

lemma arrays_blocks:
  "concat (next_blocks (Cat_Next AS_Next AS_ByteCount) (length (concat datas))
     (ConcatenatingInputStream_new (map (\<lambda>data. ArrayStream_new data n) datas))) = concat datas"
proof -
  let ?s = "ConcatenatingInputStream_new (map (\<lambda>data. ArrayStream_new data n) datas)"
  have zero: "AS_ByteCount (ArrayStream_new data n) = 0" for data by (simp add: AS_ByteCount_def ArrayStream_new_def)
  have "array_input.cat_ok (cat_streams ?s)"
    by (cases datas) (simp_all add: ConcatenatingInputStream_new_def array_input.cat_ok_def list_all_iff ArrayStream_new_ok zero)
  moreover have "array_input.cat_left ?s = concat datas"
    by (simp add: ConcatenatingInputStream_new_def array_input.cat_left_def ArrayStream_new_ok comp_def)
  ultimately show ?thesis using arrays.concat_blocks [of ?s "length (concat datas)"] by simp
qed

text \<open>
  \<^verbatim>\<open>Skip\<close> of a concatenation takes it that a stream whose \<^verbatim>\<open>Skip\<close> fails fell short, and checks it. A limited
  stream that has handed out all of its bytes, and hides the rest of a block, fails even on \<^verbatim>\<open>Skip(0)\<close>, so that the
  check ends the program.
\<close>

lemma concatenation_skip_zero_fails:
  "let s = LimitingInputStream_new (ArrayStream_new [1, 2, 3] 0) 2 in
   case Cat_Next (Lim_Next AS_Next) (Lim_ByteCount AS_ByteCount) (ConcatenatingInputStream_new [s]) of
     (b, c) \<Rightarrow> b = Some [1, 2] \<and> Cat_Skip (Lim_Skip AS_Skip) (Lim_ByteCount AS_ByteCount) 0 c = Inl AssertFail"
  by code_simp

end
