(* ===== verification/Message_Streams.thy ===== *)
theory Message_Streams
  imports Message_Merge Unknown_Fields Stream_Adaptors
begin

text \<open>
  Messages on streams made of other streams: the coded stream under a parser is fed by a limited array or by
  several arrays, and the parser sees the bytes they stand for.
\<close>

section \<open>Parsing through the adaptors\<close>

text \<open>A message in front of other bytes, read through a stream that is limited to its size.\<close>

definition ParseFromLimitedArray :: "'m pool \<Rightarrow> 'm Message \<Rightarrow> byte list \<Rightarrow> int \<Rightarrow> int \<Rightarrow> fault + bool \<times> 'm Message" where
  "ParseFromLimitedArray D m data block_size limit =
     ParseFromZeroCopyStream D m
       (next_blocks (Lim_Next AS_Next) (length data) (LimitingInputStream_new (ArrayStream_new data block_size) limit))"

definition ParseFromArrays :: "'m pool \<Rightarrow> 'm Message \<Rightarrow> byte list list \<Rightarrow> int \<Rightarrow> fault + bool \<times> 'm Message" where
  "ParseFromArrays D m datas block_size =
     ParseFromZeroCopyStream D m
       (next_blocks (Cat_Next AS_Next AS_ByteCount) (length (concat datas))
         (ConcatenatingInputStream_new (map (\<lambda>data. ArrayStream_new data block_size) datas)))"

lemma ParseFromLimitedArray_bytes:
  assumes "pool_ok D" "msg_ok D (Suc d) m" "length (msg_bytes D (Suc d) m) < 2 ^ 26" "IsInitialized D m" "d \<le> 100"
    and "msg_type old = msg_type m"
  shows "ParseFromLimitedArray D old (msg_bytes D (Suc d) m @ rest) n (int (length (msg_bytes D (Suc d) m))) = Inr (True, m)"
  unfolding ParseFromLimitedArray_def
  using limited_array_blocks [of "msg_bytes D (Suc d) m @ rest" n "int (length (msg_bytes D (Suc d) m))"]
  by (intro ParseFromZeroCopyStream_bytes [OF assms]) (simp only: nat_int take_append take_all order_refl diff_self_eq_0 take_0 append_Nil2)

lemma ParseFromArrays_bytes:
  assumes "pool_ok D" "msg_ok D (Suc d) m" "length (msg_bytes D (Suc d) m) < 2 ^ 26" "IsInitialized D m" "d \<le> 100"
    and "msg_type old = msg_type m" and "concat datas = msg_bytes D (Suc d) m"
  shows "ParseFromArrays D old datas n = Inr (True, m)"
  unfolding ParseFromArrays_def
  using arrays_blocks [of datas n] assms(7) by (intro ParseFromZeroCopyStream_bytes [OF assms(1-6)]) (simp only:)

section \<open>Properties\<close>

text \<open>
  C14. A serialised message survives being read through the streams that are made of other streams: with any
  bytes behind it, through a \<^verbatim>\<open>LimitingInputStream\<close> with its size as the limit, and cut anywhere into any
  number of arrays, through a \<^verbatim>\<open>ConcatenatingInputStream\<close>, whatever the size of the blocks.
\<close>

theorem adapted_streams_parse:
  assumes "pool_ok D" and "msg_ok D (Suc d) m" and "length (msg_bytes D (Suc d) m) < 2 ^ 26" and "IsInitialized D m" and "d \<le> 100"
    and "msg_type old = msg_type m"
  shows "\<exists>bs. SerializeToString debug D junk m = Inr (True, bs)
    \<and> (\<forall>rest n. ParseFromLimitedArray D old (bs @ rest) n (int (length bs)) = Inr (True, m))
    \<and> (\<forall>datas n. concat datas = bs \<longrightarrow> ParseFromArrays D old datas n = Inr (True, m))"
proof -
  have "length (msg_bytes D (Suc d) m) < 2 ^ 31" using assms(3) by simp
  from SerializeToString_bytes [OF assms(1,2) this assms(4)] show ?thesis
    using ParseFromLimitedArray_bytes [OF assms] ParseFromArrays_bytes [OF assms]
    by (intro exI [of _ "msg_bytes D (Suc d) m"]) (simp del: msg_bytes.simps)
qed

theorem adapted_streams_parse_witness:
  "\<exists>bs. SerializeToString True sample_pool (\<lambda>_. 0) sample = Inr (True, bs)
    \<and> (\<forall>rest n. ParseFromLimitedArray sample_pool (new_message ()) (bs @ rest) n (int (length bs)) = Inr (True, sample))
    \<and> (\<forall>datas n. concat datas = bs \<longrightarrow> ParseFromArrays sample_pool (new_message ()) datas n = Inr (True, sample))"
  using adapted_streams_parse [of sample_pool 1 sample "new_message ()" True "\<lambda>_. 0"] sample_ok by simp

end
