(* ===== verification/Decimal_Text.thy ===== *)
theory Decimal_Text
  imports Prelude
begin

text \<open>Numbers as decimal text: the reference for the routines that print numbers.\<close>

definition digit_char :: "nat \<Rightarrow> char" where
  "digit_char d = char_of (48 + d)"

fun decimal :: "nat \<Rightarrow> string" where
  "decimal n = (if n < 10 then [digit_char n] else decimal (n div 10) @ [digit_char (n mod 10)])"

declare decimal.simps [simp del]

lemma decimal_snoc: "10 \<le> n \<Longrightarrow> decimal n = decimal (n div 10) @ [digit_char (n mod 10)]"
  by (subst decimal.simps) simp

lemma decimal_digit: "n < 10 \<Longrightarrow> decimal n = [digit_char n]"
  by (subst decimal.simps) simp

lemma digit_char: "d < 10 \<Longrightarrow> (of_char (digit_char d) :: nat) = 48 + d"
  by (simp add: digit_char_def of_char_of)

lemma digit_char_neq:
  assumes "d < 10"
  shows "digit_char d \<noteq> CHR ''.''" "digit_char d \<noteq> CHR 0x00" "digit_char d = CHR ''0'' \<longleftrightarrow> d = 0"
proof -
  have neq: "digit_char d \<noteq> c" if "(of_char c :: nat) \<noteq> 48 + d" for c
    using that digit_char [OF assms] by metis
  show "digit_char d \<noteq> CHR ''.''" "digit_char d \<noteq> CHR 0x00" by (rule neq; simp)+
  have "digit_char d = CHR ''0'' \<longleftrightarrow> (of_char (digit_char d) :: nat) = of_char (CHR ''0'')" by (simp only: of_char_eq_iff)
  then show "digit_char d = CHR ''0'' \<longleftrightarrow> d = 0" by (simp add: digit_char [OF assms])
qed

lemma decimal_no_null: "CHR 0x00 \<notin> set (decimal n)"
proof (induction n rule: decimal.induct)
  case (1 n)
  have digit: "digit_char d \<noteq> CHR 0x00" if "d < 10" for d
    using digit_char_neq [OF that] by simp
  show ?case using 1 digit [of n] digit [of "n mod 10"] by (subst decimal.simps) auto
qed

text \<open>The number can be read off its text.\<close>

lemma decimal_value: "foldl (\<lambda>v c. 10 * v + ((of_char c :: nat) - 48)) 0 (decimal n) = n"
proof (induction n rule: decimal.induct)
  case (1 n)
  show ?case
  proof (cases "n < 10")
    case False
    then show ?thesis using 1 digit_char [of "n mod 10"] by (simp add: decimal_snoc)
  qed (simp add: decimal_digit digit_char)
qed

text \<open>The last \<open>k\<close> digits, with leading zeros.\<close>

primrec last_digits :: "nat \<Rightarrow> nat \<Rightarrow> string" where
  "last_digits 0 n = []"
| "last_digits (Suc k) n = last_digits k (n div 10) @ [digit_char (n mod 10)]"

lemma decimal_split: "10 ^ k \<le> n \<Longrightarrow> decimal n = decimal (n div 10 ^ k) @ last_digits k n"
proof (induction k arbitrary: n)
  case (Suc k)
  have n: "10 \<le> n" "10 ^ k \<le> n div 10"
  proof -
    show "10 \<le> n" by (rule order_trans [OF _ Suc.prems]) simp
    show "10 ^ k \<le> n div 10" using div_le_mono [OF Suc.prems, of 10] by simp
  qed
  show ?case using Suc.IH [OF n(2)] Suc.prems n(1) by (simp add: decimal_snoc div_mult2_eq)
qed simp

lemma decimal_length: "n < 10 ^ k \<Longrightarrow> 0 < k \<Longrightarrow> length (decimal n) \<le> k"
proof (induction k arbitrary: n)
  case (Suc k)
  show ?case
  proof (cases "n < 10")
    case False
    then have "n div 10 < 10 ^ k" "0 < k" using Suc.prems(1) by (auto simp: div_less_iff_less_mult mult.commute intro: gr0I)
    then show ?thesis using Suc.IH [of "n div 10"] False by (simp add: decimal_snoc)
  qed (simp add: decimal_digit)
qed simp

text \<open>A signed number.\<close>

definition text_of_int :: "int \<Rightarrow> string" where
  "text_of_int i = (if i < 0 then CHR ''-'' # decimal (nat (- i)) else decimal (nat i))"

end
