(* ===== verification/Socket_Helpers.thy ===== *)
theory Socket_Helpers
  imports Os_Env Decimal_Text
begin

text \<open>
  The helpers of \<^verbatim>\<open>Include/server_socket.cpp\<close> besides \<^verbatim>\<open>set_non_block\<close>: the sizes of a socket's kernel
  buffers, and addresses as text. A buffer that is written to is a list of characters, and a store outside of
  it is a fault; the null pointer is \<open>None\<close>. The C library's conversions are those for IPv4.
\<close>

unbundle bit_operations_syntax

section \<open>Operations\<close>

text \<open>The first \<^verbatim>\<open>setsockopt\<close> sets the size of the receive buffer, the second that of the send buffer.\<close>

definition set_socket_buffer_size :: "int32 \<Rightarrow> int32 \<Rightarrow> (os, int32) mon" where
  "set_socket_buffer_size fd sz =
     (if fd < 0 \<or> sz \<le> 0 then mreturn err
      else mbind sys_call (\<lambda>r.
        if success \<noteq> r then mreturn err
        else mbind sys_call (\<lambda>r2. if success \<noteq> r2 then mreturn err else mreturn success)))"

subsection \<open>The C library\<close>

text \<open>An address is kept in network order: the bytes as they lie in memory are the parts from left to right.\<close>

definition address_parts :: "32 word \<Rightarrow> nat list" where
  "address_parts a = map (\<lambda>i. unat (take_bit 8 (drop_bit (8 * i) a))) [0, 1, 2, 3]"

definition inet_text :: "32 word \<Rightarrow> string" where
  "inet_text a = (case address_parts a of
     [p, q, r, s] \<Rightarrow> decimal p @ ''.'' @ decimal q @ ''.'' @ decimal r @ ''.'' @ decimal s | _ \<Rightarrow> [])"

definition ntohs :: "16 word \<Rightarrow> 16 word" where
  "ntohs w = push_bit 8 w OR drop_bit 8 w"

text \<open>\<^verbatim>\<open>inet_pton\<close>: four parts of one to three digits, without leading zeros, of at most 255; \<open>None\<close> is its zero.\<close>

fun split_dots :: "string \<Rightarrow> string list" where
  "split_dots [] = [[]]"
| "split_dots (c # cs) =
     (if c = CHR ''.'' then [] # split_dots cs
      else case split_dots cs of [] \<Rightarrow> [[c]] | p # ps \<Rightarrow> (c # p) # ps)"

definition part_value :: "string \<Rightarrow> nat option" where
  "part_value p =
     (let v = foldl (\<lambda>v c. 10 * v + (of_char c - 48)) 0 p in
      if p \<noteq> [] \<and> length p \<le> 3 \<and> list_all (\<lambda>c. 48 \<le> (of_char c :: nat) \<and> (of_char c :: nat) \<le> 57) p
        \<and> (hd p = CHR ''0'' \<longrightarrow> length p = 1) \<and> v \<le> 255
      then Some v else None)"

definition inet_pton :: "string \<Rightarrow> 32 word option" where
  "inet_pton str = (case map part_value (split_dots str) of
     [Some p, Some q, Some r, Some s] \<Rightarrow>
       Some (of_nat p OR push_bit 8 (of_nat q) OR push_bit 16 (of_nat r) OR push_bit 24 (of_nat s))
   | _ \<Rightarrow> None)"

text \<open>Storing a string at the start of a buffer.\<close>

definition store_text :: "string \<Rightarrow> string \<Rightarrow> fault + string" where
  "store_text str buf = (if length str \<le> length buf then Inr (str @ drop (length str) buf) else Inl OutOfBounds)"

text \<open>\<^verbatim>\<open>snprintf\<close> with room for \<open>n\<close> characters: the text cut off, and the null character, or nothing at all.\<close>

definition snprintf :: "nat \<Rightarrow> string \<Rightarrow> string \<Rightarrow> fault + string" where
  "snprintf n str buf = store_text (if n = 0 then [] else take (n - 1) str @ [CHR 0x00]) buf"

definition c_string :: "string \<Rightarrow> string" where
  "c_string buf = takeWhile (\<lambda>c. c \<noteq> CHR 0x00) buf"

definition INET_ADDRSTRLEN :: int32 where
  "INET_ADDRSTRLEN = 16"

subsection \<open>Addresses\<close>

record sockaddr_in =
  sin_addr :: "32 word"
  sin_port :: "16 word"

definition socket_addr2str :: "sockaddr_in \<Rightarrow> string option \<Rightarrow> int32 \<Rightarrow> fault + int32 \<times> string option" where
  "socket_addr2str addr pszIpPort sz =
     (case pszIpPort of
        None \<Rightarrow> Inr (err, None)
      | Some buf \<Rightarrow>
          if sz \<le> 0 then Inr (err, Some buf)
          else
            let ip = inet_text (sin_addr addr); port = ntohs (sin_port addr) in
            case snprintf (nat (sz - 1)) (ip @ '':'' @ decimal (unat port)) buf of
              Inl e \<Rightarrow> Inl e
            | Inr buf' \<Rightarrow>
                if nat (sz - 1) < length buf' then Inr (success, Some (buf'[nat (sz - 1) := CHR 0x00])) else Inl OutOfBounds)"

text \<open>The address is stored only when the text is one.\<close>

definition ip_str2addr :: "string option \<Rightarrow> 32 word \<Rightarrow> int32 \<times> 32 word" where
  "ip_str2addr ip_str ip_addr =
     (case ip_str of
        None \<Rightarrow> (err, ip_addr)
      | Some str \<Rightarrow> (case inet_pton (c_string str) of None \<Rightarrow> (err, ip_addr) | Some a \<Rightarrow> (success, a)))"

definition ip_addr2str :: "32 word \<Rightarrow> string option \<Rightarrow> int32 \<Rightarrow> fault + int32 \<times> string option" where
  "ip_addr2str ip_addr ip_str bufsize =
     (case ip_str of
        None \<Rightarrow> Inr (err, None)
      | Some buf \<Rightarrow>
          if bufsize \<le> INET_ADDRSTRLEN then Inr (err, Some buf)
          else
            let str = inet_text ip_addr @ [CHR 0x00] in
            if int (length str) > bufsize then Inr (err, Some buf)
            else case store_text str buf of Inl e \<Rightarrow> Inl e | Inr buf' \<Rightarrow> Inr (0, Some buf'))"

section \<open>Buffer sizes\<close>

text \<open>Both sizes are set, or an error is reported; arguments that make no sense make no call.\<close>

lemma set_socket_buffer_size_outcomes:
  "set_socket_buffer_size fd sz o1 =
     (let r = os_call o1 (os_call_pos o1); r2 = os_call o1 (Suc (os_call_pos o1)) in
      if fd < 0 \<or> sz \<le> 0 then Inr (err, o1)
      else if r \<noteq> success then Inr (err, o1\<lparr>os_call_pos := Suc (os_call_pos o1)\<rparr>)
      else Inr (if r2 \<noteq> success then err else success, o1\<lparr>os_call_pos := Suc (Suc (os_call_pos o1))\<rparr>))"
  by (simp add: set_socket_buffer_size_def run_simps sys_call_def Let_def)

section \<open>Text and addresses\<close>

lemma decimal_digits:
  "n < 10 \<Longrightarrow> decimal n = [digit_char n]"
  "10 \<le> n \<Longrightarrow> n < 100 \<Longrightarrow> decimal n = [digit_char (n div 10), digit_char (n mod 10)]"
  "100 \<le> n \<Longrightarrow> n < 1000 \<Longrightarrow> decimal n = [digit_char (n div 100), digit_char (n div 10 mod 10), digit_char (n mod 10)]"
  by (simp_all add: decimal.simps div_mult2_eq [symmetric] div_less_iff_less_mult)

lemma decimal_parts:
  assumes "n < 256"
  shows "part_value (decimal n) = Some n \<and> CHR ''.'' \<notin> set (decimal n) \<and> CHR 0x00 \<notin> set (decimal n) \<and> length (decimal n) \<le> 3"
proof -
  have m: "n mod 10 < 10" "n div 10 mod 10 < 10" "n mod 10 \<le> 9" "n div 10 mod 10 \<le> 9"
    using mod_less_divisor [of 10 n] mod_less_divisor [of 10 "n div 10"] by linarith+
  consider "n < 10" | "10 \<le> n" "n < 100" | "100 \<le> n" by linarith
  then show ?thesis
  proof cases
    case 1
    then show ?thesis by (simp add: decimal_digits part_value_def digit_char not_sym [OF digit_char_neq(1)] not_sym [OF digit_char_neq(2)] digit_char_neq)
  next
    case 2
    then have d: "n div 10 < 10" "n div 10 \<noteq> 0" by simp_all
    have "10 * (n div 10) + n mod 10 = n" by simp
    then show ?thesis using 2 d m
      by (simp add: decimal_digits part_value_def digit_char not_sym [OF digit_char_neq(1)] not_sym [OF digit_char_neq(2)] digit_char_neq)
  next
    case 3
    then have d: "n div 100 < 10" "n div 100 \<noteq> 0" using assms by simp_all
    have "10 * (10 * (n div 100) + n div 10 mod 10) + n mod 10 = n"
      using div_mult2_eq [of n 10 10] by simp
    then show ?thesis using 3 d m assms
      by (simp add: decimal_digits part_value_def digit_char not_sym [OF digit_char_neq(1)] not_sym [OF digit_char_neq(2)] digit_char_neq)
  qed
qed

lemma split_dots_part: "CHR ''.'' \<notin> set p \<Longrightarrow> split_dots (p @ CHR ''.'' # rest) = p # split_dots rest"
  by (induction p) auto

lemma split_dots_last: "CHR ''.'' \<notin> set p \<Longrightarrow> split_dots p = [p]"
  by (induction p) auto

lemma address_parts_list:
  "address_parts a = [unat (take_bit 8 a), unat (take_bit 8 (drop_bit 8 a)), unat (take_bit 8 (drop_bit 16 a)), unat (take_bit 8 (drop_bit 24 a))]"
  by (simp add: address_parts_def)

lemma part_small: "unat (take_bit 8 (a :: 32 word)) < 256"
  using take_bit_nat_less_exp [of 8 "unat a"] by (simp add: unsigned_take_bit_eq)

lemma address_rebuilt:
  "take_bit 8 a OR push_bit 8 (take_bit 8 (drop_bit 8 a)) OR push_bit 16 (take_bit 8 (drop_bit 16 a))
     OR push_bit 24 (take_bit 8 (drop_bit 24 a)) = (a :: 32 word)"
proof (rule bit_word_eqI)
  fix n
  show "bit (take_bit 8 a OR push_bit 8 (take_bit 8 (drop_bit 8 a)) OR push_bit 16 (take_bit 8 (drop_bit 16 a))
      OR push_bit 24 (take_bit 8 (drop_bit 24 a))) n = bit a n" if "n < LENGTH(32)"
    using that by (cases "n < 8"; cases "n < 16"; cases "n < 24") (auto simp: bit_simps)
qed

lemma inet_pton_text: "inet_pton (inet_text a) = Some a"
  by (simp add: inet_pton_def inet_text_def address_parts_list split_dots_part split_dots_last decimal_parts part_small address_rebuilt)

lemma inet_text_length: "length (inet_text a) \<le> 15" "CHR 0x00 \<notin> set (inet_text a)"
  using decimal_parts [OF part_small [of a]] decimal_parts [OF part_small [of "drop_bit 8 a"]]
    decimal_parts [OF part_small [of "drop_bit 16 a"]] decimal_parts [OF part_small [of "drop_bit 24 a"]]
  by (simp_all add: inet_text_def address_parts_list)

lemma c_string_text: "CHR 0x00 \<notin> set str \<Longrightarrow> c_string (str @ CHR 0x00 # rest) = str"
  by (simp add: c_string_def takeWhile_append)

text \<open>An address written as text is read back, whatever was in the buffer before.\<close>

lemma ip_address_round_trip:
  assumes "INET_ADDRSTRLEN < bufsize" and "bufsize \<le> int (length buf)"
  shows "\<exists>buf'. ip_addr2str a (Some buf) bufsize = Inr (0, Some buf') \<and> length buf' = length buf \<and> ip_str2addr (Some buf') b = (success, a)"
proof -
  let ?str = "inet_text a @ [CHR 0x00]"
  have "length ?str \<le> 16" using inet_text_length(1) [of a] by simp
  then have "ip_addr2str a (Some buf) bufsize = Inr (0, Some (?str @ drop (length ?str) buf))" "length ?str \<le> length buf"
    using assms by (simp_all add: ip_addr2str_def INET_ADDRSTRLEN_def store_text_def Let_def)
  moreover have "ip_str2addr (Some (?str @ drop (length ?str) buf)) b = (success, a)"
    by (simp add: ip_str2addr_def c_string_text inet_text_length(2) inet_pton_text)
  ultimately show ?thesis by auto
qed

text \<open>A buffer that is just large enough for any address is refused.\<close>

lemma ip_addr2str_refuses_enough: "ip_addr2str a (Some buf) INET_ADDRSTRLEN = Inr (err, Some buf)"
  by (simp add: ip_addr2str_def)

text \<open>
  The address and port as text: cut off one character sooner than the buffer requires, since \<^verbatim>\<open>snprintf\<close>, which
  leaves room for the null character itself, is told one less than the size.
\<close>

lemma socket_addr2str_text:
  assumes "0 < sz" and "sz \<le> int (length buf)"
  shows "\<exists>buf'. socket_addr2str addr (Some buf) sz = Inr (success, Some buf') \<and> length buf' = length buf
    \<and> (2 \<le> sz \<longrightarrow> c_string buf' = take (nat (sz - 2)) (inet_text (sin_addr addr) @ '':'' @ decimal (unat (ntohs (sin_port addr)))))"
proof -
  let ?text = "inet_text (sin_addr addr) @ '':'' @ decimal (unat (ntohs (sin_port addr)))"
  have null: "CHR 0x00 \<notin> set (take k ?text)" for k
    using inet_text_length(2) decimal_no_null by (auto dest!: in_set_takeD)
  obtain n where n: "sz = int (Suc n)" using assms(1) by (metis Suc_pred' nat_0_le less_imp_le zero_less_nat_eq int_nat_eq)
  show ?thesis
  proof (cases n)
    case 0
    then show ?thesis using n assms by (auto simp: socket_addr2str_def snprintf_def store_text_def Let_def)
  next
    case (Suc m)
    define w where "w = take m ?text @ [CHR 0x00]"
    have w: "length w \<le> Suc m" "Suc m < length buf" using Suc n assms(2) by (simp_all add: w_def)
    have sz: "nat (sz - 1) = Suc m" "\<not> sz \<le> 0" "nat (sz - 2) = m" using Suc n by simp_all
    have "snprintf (Suc m) ?text buf = Inr (w @ drop (length w) buf)"
      using w by (simp add: snprintf_def store_text_def w_def)
    then have "socket_addr2str addr (Some buf) sz = Inr (success, Some ((w @ drop (length w) buf)[Suc m := CHR 0x00]))"
      using sz w by (simp add: socket_addr2str_def Let_def)
    moreover have "(w @ drop (length w) buf)[Suc m := CHR 0x00] = w @ (drop (length w) buf)[Suc m - length w := CHR 0x00]"
      using w(1) by (simp add: list_update_append)
    moreover have "c_string (w @ rest) = take m ?text" for rest
      using c_string_text [OF null [of m], of rest] by (simp only: w_def append_assoc append.simps)
    ultimately show ?thesis using w sz by simp
  qed
qed

end
