(* ===== verification/Strutil_Escape.thy ===== *)
theory Strutil_Escape
  imports Prelude
begin

text \<open>
  C-style escaping of strings and its inverse (\<^verbatim>\<open>stubs/strutil.cc\<close>). Comparisons of a \<^verbatim>\<open>char\<close> with ASCII
  characters are those of its code: a negative \<^verbatim>\<open>char\<close> is below and a code from 128 above all of them, and no
  test here tells the two apart.
\<close>

section \<open>Characters\<close>

definition ascii :: "char \<Rightarrow> nat" where
  "ascii c = of_char c"

definition isxdigit :: "char \<Rightarrow> bool" where
  "isxdigit c \<longleftrightarrow> (48 \<le> ascii c \<and> ascii c \<le> 57) \<or> (97 \<le> ascii c \<and> ascii c \<le> 102) \<or> (65 \<le> ascii c \<and> ascii c \<le> 70)"

definition isprint :: "char \<Rightarrow> bool" where
  "isprint c \<longleftrightarrow> 0x20 \<le> ascii c \<and> ascii c \<le> 0x7E"

definition IS_OCTAL_DIGIT :: "char \<Rightarrow> bool" where
  "IS_OCTAL_DIGIT c \<longleftrightarrow> 48 \<le> ascii c \<and> ascii c \<le> 55"

definition hex_digit_to_int :: "char \<Rightarrow> nat" where
  "hex_digit_to_int c = (let x = ascii c; x = (if x > 57 then x + 9 else x) in x mod 16)"

section \<open>Unescaping\<close>

text \<open>One more octal digit, if there is one; the value is a \<^verbatim>\<open>char\<close>.\<close>

definition octal_step :: "nat \<times> string \<Rightarrow> nat \<times> string" where
  "octal_step = (\<lambda>(ch, p).
     case p of [] \<Rightarrow> (ch, p) | d # p' \<Rightarrow> if IS_OCTAL_DIGIT d then ((ch * 8 + (ascii d - 48)) mod 256, p') else (ch, p))"

text \<open>Arbitrarily many hexadecimal digits; the value is an \<^verbatim>\<open>unsigned int\<close>.\<close>

fun hex_run :: "nat \<Rightarrow> string \<Rightarrow> nat \<times> string" where
  "hex_run ch [] = (ch, [])"
| "hex_run ch (d # p) = (if isxdigit d then hex_run ((ch * 16 + hex_digit_to_int d) mod 2 ^ 32) p else (ch, d # p))"

lemma octal_step_shorter: "length (snd (octal_step x)) \<le> length (snd x)"
  by (auto simp: octal_step_def split: prod.split list.split)

lemma octal_steps_shorter: "length (snd (octal_step (octal_step (ch, p)))) \<le> length p"
  using octal_step_shorter [of "octal_step (ch, p)"] octal_step_shorter [of "(ch, p)"] by simp

lemma hex_run_shorter: "length (snd (hex_run ch p)) \<le> length p"
  by (induction ch p rule: hex_run.induct) auto

text \<open>The letters that stand for one character each.\<close>

definition simple_escape :: "char \<Rightarrow> char option" where
  "simple_escape c =
     (if c = CHR ''a'' then Some (CHR 0x07) else if c = CHR ''b'' then Some (CHR 0x08) else if c = CHR ''f'' then Some (CHR 0x0C)
      else if c = CHR ''n'' then Some (CHR 0x0A) else if c = CHR ''r'' then Some (CHR 0x0D) else if c = CHR ''t'' then Some (CHR 0x09)
      else if c = CHR ''v'' then Some (CHR 0x0B) else if c = CHR 0x5C then Some (CHR 0x5C) else if c = CHR ''?'' then Some (CHR ''?'')
      else if c = CHR 0x27 then Some (CHR 0x27) else if c = CHR 0x22 then Some (CHR 0x22) else None)"

text \<open>The source up to its null character is read, and the result is what is stored before the null character.\<close>

function unescape :: "string \<Rightarrow> string" where
  "unescape [] = []"
| "unescape (c # p) =
     (if c \<noteq> CHR 0x5C then c # unescape p
      else case p of
        [] \<Rightarrow> []
      | e # p1 \<Rightarrow>
          (case simple_escape e of
             Some r \<Rightarrow> r # unescape p1
           | None \<Rightarrow>
               if IS_OCTAL_DIGIT e then
                 (let r = octal_step (octal_step (ascii e - 48, p1)) in char_of (fst r) # unescape (snd r))
               else if e = CHR ''x'' \<or> e = CHR ''X'' then
                 (if p1 = [] \<or> \<not> isxdigit (hd p1) then unescape p1
                  else let r = hex_run 0 p1 in char_of (fst r) # unescape (snd r))
               else unescape p1))"
  by pat_completeness auto
termination
  using octal_steps_shorter hex_run_shorter by (relation "measure length") (auto simp: le_imp_less_Suc less_SucI)

declare unescape.simps(2) [simp del]

definition UnescapeCEscapeSequences :: "string \<Rightarrow> string" where
  "UnescapeCEscapeSequences source = unescape (takeWhile (\<lambda>c. c \<noteq> CHR 0x00) source)"

definition UnescapeCEscapeString :: "string \<Rightarrow> string" where
  "UnescapeCEscapeString src = UnescapeCEscapeSequences src"

section \<open>Escaping\<close>

definition hex_char :: "nat \<Rightarrow> char" where
  "hex_char d = char_of (if d < 10 then 48 + d else 87 + d)"

text \<open>What \<^verbatim>\<open>sprintf\<close> stores with the formats \<^verbatim>\<open>\x%02x\<close> and \<^verbatim>\<open>\%03o\<close>.\<close>

definition escape_code :: "bool \<Rightarrow> nat \<Rightarrow> string" where
  "escape_code use_hex n =
     (if use_hex then [CHR 0x5C, CHR ''x'', hex_char (n div 16), hex_char (n mod 16)]
      else [CHR 0x5C, hex_char (n div 64), hex_char (n div 8 mod 8), hex_char (n mod 8)])"

definition letter_escape :: "char \<Rightarrow> string option" where
  "letter_escape c =
     (if c = CHR 0x0A then Some [CHR 0x5C, CHR ''n''] else if c = CHR 0x0D then Some [CHR 0x5C, CHR ''r'']
      else if c = CHR 0x09 then Some [CHR 0x5C, CHR ''t''] else if c = CHR 0x22 then Some [CHR 0x5C, CHR 0x22]
      else if c = CHR 0x27 then Some [CHR 0x5C, CHR 0x27] else if c = CHR 0x5C then Some [CHR 0x5C, CHR 0x5C] else None)"

text \<open>
  The result is what has been stored before the null character; \<open>None\<close> is the result -1. \<^verbatim>\<open>sprintf\<close> stores a null
  character of its own behind the four it is checked to have room for.
\<close>

fun cescape_loop :: "bool \<Rightarrow> bool \<Rightarrow> int \<Rightarrow> bool \<Rightarrow> string \<Rightarrow> string \<Rightarrow> fault + string option" where
  "cescape_loop use_hex utf8_safe dest_len last_hex_escape dest [] =
     (if dest_len - int (length dest) < 1 then Inr None else Inr (Some dest))"
| "cescape_loop use_hex utf8_safe dest_len last_hex_escape dest (c # src) =
     (if dest_len - int (length dest) < 2 then Inr None
      else case letter_escape c of
        Some e \<Rightarrow> cescape_loop use_hex utf8_safe dest_len False (dest @ e) src
      | None \<Rightarrow>
          if (\<not> utf8_safe \<or> ascii c < 0x80) \<and> (\<not> isprint c \<or> (last_hex_escape \<and> isxdigit c)) then
            (if dest_len - int (length dest) < 4 then Inr None
             else if \<not> int (length dest) + 4 < dest_len then Inl OutOfBounds
             else cescape_loop use_hex utf8_safe dest_len use_hex (dest @ escape_code use_hex (ascii c)) src)
          else cescape_loop use_hex utf8_safe dest_len False (dest @ [c]) src)"

definition CEscapeInternal :: "string \<Rightarrow> int \<Rightarrow> bool \<Rightarrow> bool \<Rightarrow> fault + string option" where
  "CEscapeInternal src dest_len use_hex utf8_safe = cescape_loop use_hex utf8_safe dest_len False [] src"

definition CEscapeString :: "string \<Rightarrow> int \<Rightarrow> fault + string option" where
  "CEscapeString src dest_len = CEscapeInternal src dest_len False False"

text \<open>
  With a buffer of its own; a negative length fails a check. The length of the buffer is an \<^verbatim>\<open>int\<close> in the code and
  is not narrowed here: the model stands for strings below 512 MB.
\<close>

definition escape_in_buffer :: "bool \<Rightarrow> bool \<Rightarrow> string \<Rightarrow> fault + string" where
  "escape_in_buffer use_hex utf8_safe src =
     (let dest_length = int (length src) * 4 + 1 in
      case CEscapeInternal src dest_length use_hex utf8_safe of
        Inl e \<Rightarrow> Inl e
      | Inr None \<Rightarrow> Inl AssertFail
      | Inr (Some dest) \<Rightarrow> Inr dest)"

definition CEscape :: "string \<Rightarrow> fault + string" where
  "CEscape src = escape_in_buffer False False src"

definition Utf8SafeCEscape :: "string \<Rightarrow> fault + string" where
  "Utf8SafeCEscape src = escape_in_buffer False True src"

definition CHexEscape :: "string \<Rightarrow> fault + string" where
  "CHexEscape src = escape_in_buffer True False src"

section \<open>Lemmas\<close>

subsection \<open>What is escaped\<close>

text \<open>The escaped string, without its buffer.\<close>

fun escaped :: "bool \<Rightarrow> bool \<Rightarrow> bool \<Rightarrow> string \<Rightarrow> string" where
  "escaped use_hex utf8_safe last_hex [] = []"
| "escaped use_hex utf8_safe last_hex (c # src) =
     (case letter_escape c of
        Some e \<Rightarrow> e @ escaped use_hex utf8_safe False src
      | None \<Rightarrow>
          if (\<not> utf8_safe \<or> ascii c < 0x80) \<and> (\<not> isprint c \<or> (last_hex \<and> isxdigit c))
          then escape_code use_hex (ascii c) @ escaped use_hex utf8_safe use_hex src
          else c # escaped use_hex utf8_safe False src)"

lemma letter_escape_length: "letter_escape c = Some e \<Longrightarrow> length e = 2"
  by (auto simp: letter_escape_def split: if_splits)

lemma escape_code_length: "length (escape_code h n) = 4"
  by (simp add: escape_code_def)

lemma cescape_loop_room:
  "int (length dest) + 4 * int (length src) + 1 \<le> n \<Longrightarrow> cescape_loop h u n l dest src = Inr (Some (dest @ escaped h u l src))"
proof (induction src arbitrary: dest l)
  case (Cons c src)
  then show ?case
    by (auto simp: letter_escape_length escape_code_length split: option.split)
qed simp

lemma escaped_length: "length (escaped h u l src) \<le> 4 * length src"
  by (induction h u l src rule: escaped.induct) (auto simp: letter_escape_length escape_code_length split: option.split)

lemma escape_in_buffer_escaped: "escape_in_buffer h u src = Inr (escaped h u False src)"
  by (simp add: escape_in_buffer_def CEscapeInternal_def cescape_loop_room)

text \<open>A buffer that ends right behind an escaped character is overrun by one.\<close>

lemma CEscapeString_overrun: "CEscapeString [CHR 0x01] 4 = Inl OutOfBounds"
  by (simp add: CEscapeString_def CEscapeInternal_def letter_escape_def isprint_def ascii_def)

subsection \<open>Digits\<close>

lemma ascii_hex_char: "d < 16 \<Longrightarrow> ascii (hex_char d) = (if d < 10 then 48 + d else 87 + d)"
  by (simp add: hex_char_def ascii_def of_char_of)

lemma hex_char_digit:
  assumes "d < 16"
  shows "isxdigit (hex_char d)" "hex_digit_to_int (hex_char d) = d" "hex_char d \<noteq> CHR 0x00"
proof -
  have "(48 + d) mod 16 = d" "(96 + d) mod 16 = d" 
    using assms mod_mult_self2 [of d 16 3] mod_mult_self2 [of d 16 6] by (simp_all add: add.commute)
  moreover have "hex_char d \<noteq> CHR 0x00" using ascii_hex_char [OF assms] by (auto simp: ascii_def split: if_splits)
  ultimately show "isxdigit (hex_char d)" "hex_digit_to_int (hex_char d) = d" "hex_char d \<noteq> CHR 0x00"
    using assms by (simp_all add: isxdigit_def hex_digit_to_int_def ascii_hex_char Let_def)
qed

lemma octal_char_digit:
  assumes "d < 8"
  shows "IS_OCTAL_DIGIT (hex_char d)" "ascii (hex_char d) = 48 + d" "simple_escape (hex_char d) = None"
proof -
  show ascii: "ascii (hex_char d) = 48 + d" using assms by (simp add: ascii_hex_char)
  then show "IS_OCTAL_DIGIT (hex_char d)" using assms by (simp add: IS_OCTAL_DIGIT_def)
  have neq: "hex_char d \<noteq> c" if "ascii c < 48 \<or> 55 < ascii c" for c using that ascii assms by auto
  show "simple_escape (hex_char d) = None" by (simp add: simple_escape_def neq ascii_def)
qed

lemma octal_step_digit: "d < 8 \<Longrightarrow> octal_step (ch, hex_char d # p) = ((ch * 8 + d) mod 256, p)"
  using octal_char_digit [of d] by (simp add: octal_step_def)

lemma ascii_less: "ascii c < 256"
  by (simp add: ascii_def)

lemma char_of_ascii: "char_of (ascii c) = c"
  by (simp add: ascii_def)

subsection \<open>Round trip\<close>

lemma unescape_plain: "c \<noteq> CHR 0x5C \<Longrightarrow> unescape (c # p) = c # unescape p"
  by (simp add: unescape.simps(2))

lemma unescape_simple: "simple_escape e = Some r \<Longrightarrow> unescape (CHR 0x5C # e # p) = r # unescape p"
  by (simp add: unescape.simps(2))

lemma unescape_octal:
  "simple_escape e = None \<Longrightarrow> IS_OCTAL_DIGIT e \<Longrightarrow>
    unescape (CHR 0x5C # e # p) = (let r = octal_step (octal_step (ascii e - 48, p)) in char_of (fst r) # unescape (snd r))"
  by (simp add: unescape.simps(2))

lemma unescape_hex: "p \<noteq> [] \<Longrightarrow> isxdigit (hd p) \<Longrightarrow>
    unescape (CHR 0x5C # CHR ''x'' # p) = (let r = hex_run 0 p in char_of (fst r) # unescape (snd r))"
  by (simp add: unescape.simps(2) simple_escape_def IS_OCTAL_DIGIT_def ascii_def)

lemma octal_value: "((n div 64 * 8 + n div 8 mod 8) mod 256 * 8 + n mod 8) mod 256 = (n :: nat)" if "n < 256"
proof -
  have "n div 64 * 8 + n div 8 mod 8 = n div 8" using div_mult2_eq [of n 8 8] by simp
  then show ?thesis using that by simp
qed

lemma unescape_octal_code: "unescape (escape_code False (ascii c) @ p) = c # unescape p"
proof -
  have d: "ascii c div 64 < 8" "ascii c div 8 mod 8 < 8" "ascii c mod 8 < 8" using ascii_less [of c] by simp_all
  show ?thesis
    by (simp add: escape_code_def unescape_octal octal_char_digit [OF d(1)] octal_step_digit [OF d(2)] octal_step_digit [OF d(3)]
        octal_value [OF ascii_less] char_of_ascii)
qed

lemma unescape_hex_code:
  assumes "p = [] \<or> \<not> isxdigit (hd p)"
  shows "unescape (escape_code True (ascii c) @ p) = c # unescape p"
proof -
  have d: "ascii c div 16 < 16" "ascii c mod 16 < 16" using ascii_less [of c] by simp_all
  have stop: "hex_run ch p = (ch, p)" for ch using assms by (cases p) auto
  have "hex_run 0 (hex_char (ascii c div 16) # hex_char (ascii c mod 16) # p) = (ascii c, p)"
    using ascii_less [of c] by (simp add: hex_char_digit [OF d(1)] hex_char_digit [OF d(2)] stop)
  then show ?thesis
    by (simp add: escape_code_def unescape_hex hex_char_digit [OF d(1)] char_of_ascii del: hex_run.simps)
qed

lemma unescape_letter: "letter_escape c = Some e \<Longrightarrow> unescape (e @ p) = c # unescape p"
  by (auto simp: letter_escape_def unescape_simple simple_escape_def split: if_splits)

lemma escaped_after_hex: "escaped True u True src = [] \<or> \<not> isxdigit (hd (escaped True u True src)) \<or> u"
  by (cases src) (auto simp: escape_code_def letter_escape_def isxdigit_def isprint_def ascii_def split: if_splits)

lemma unescape_escaped: "\<not> (h \<and> u) \<Longrightarrow> unescape (escaped h u l src) = src"
proof (induction src arbitrary: l)
  case (Cons c src)
  show ?case
  proof (cases "letter_escape c")
    case None
    then have "c \<noteq> CHR 0x5C" by (auto simp: letter_escape_def)
    then show ?thesis
      using None Cons unescape_octal_code [of c] unescape_hex_code [of _ c] escaped_after_hex [of u src]
      by (cases h) (auto simp: unescape_plain)
  qed (use Cons in \<open>auto simp: unescape_letter\<close>)
qed simp

lemma letter_escape_no_null: "letter_escape c = Some e \<Longrightarrow> CHR 0x00 \<notin> set e"
  by (auto simp: letter_escape_def split: if_splits)

lemma escaped_no_null: "CHR 0x00 \<notin> set (escaped h u l src)"
proof (induction src arbitrary: l)
  case (Cons c src)
  have d: "ascii c div 16 < 16" "ascii c mod 16 < 16" "ascii c div 64 < 16" "ascii c div 8 mod 8 < 16" "ascii c mod 8 < 16"
    using ascii_less [of c] mod_less_divisor [of 8 "ascii c"] mod_less_divisor [of 8 "ascii c div 8"] by simp_all
  have code: "CHR 0x00 \<notin> set (escape_code h (ascii c))"
    using d [THEN hex_char_digit(3)] by (auto simp: escape_code_def)
  show ?case
  proof (cases "letter_escape c")
    case None
    have "c \<noteq> CHR 0x00" if "\<not> ((\<not> u \<or> ascii c < 0x80) \<and> (\<not> isprint c \<or> (l \<and> isxdigit c)))"
      using that by (auto simp: isprint_def ascii_def)
    then show ?thesis using None Cons code by auto
  qed (use Cons letter_escape_no_null in auto)
qed simp

lemma escape_round_trip_any:
  assumes "\<not> (h \<and> u)"
  shows "\<exists>dest. escape_in_buffer h u src = Inr dest \<and> UnescapeCEscapeString dest = src"
proof -
  have all: "takeWhile (\<lambda>c. c \<noteq> CHR 0x00) (escaped h u False src) = escaped h u False src"
    using escaped_no_null [of h u False src] by (auto simp: takeWhile_eq_all_conv)
  show ?thesis
  proof (intro exI conjI)
    show "escape_in_buffer h u src = Inr (escaped h u False src)" by (rule escape_in_buffer_escaped)
    show "UnescapeCEscapeString (escaped h u False src) = src"
      unfolding UnescapeCEscapeString_def UnescapeCEscapeSequences_def all by (rule unescape_escaped [OF assms])
  qed
qed

text \<open>Unescaping never makes a string longer, so that it fits in a buffer of the size of the source.\<close>

lemma unescape_length: "length (unescape p) \<le> length p"
proof (induction p rule: length_induct)
  case (1 p)
  have step: "length (unescape q) \<le> n" if "length q \<le> n" "n < length p" for q n
    using 1 [rule_format, of q] that by linarith
  show ?case
  proof (cases p)
    case (Cons c q)
    show ?thesis
    proof (cases "c = CHR 0x5C \<and> q \<noteq> []")
      case True
      then obtain e r where q: "q = e # r" by (cases q) auto
      have r: "length (unescape r) \<le> length r"
        "length (unescape (snd (octal_step (octal_step (ascii e - 48, r))))) \<le> length r" "length (unescape (snd (hex_run 0 r))) \<le> length r"
        using octal_steps_shorter hex_run_shorter Cons q by (auto intro!: step)
      show ?thesis
      proof (cases "simple_escape e")
        case None
        show ?thesis unfolding Cons q using None True r by (subst unescape.simps(2)) (simp add: Let_def)
      qed (use Cons True q r in \<open>simp add: unescape_simple\<close>)
    qed (use Cons step [of q] in \<open>auto simp: unescape.simps(2)\<close>)
  qed simp
qed

section \<open>Properties\<close>

text \<open>
  C39. Escaping with octal codes, with hexadecimal codes or leaving UTF-8 alone needs no more than the buffer
  it is given, and unescaping gives the string back, whatever bytes it has, null characters and hexadecimal
  digits behind an escaped byte included.
\<close>

theorem escape_round_trip:
  "(\<exists>dest. CEscape src = Inr dest \<and> UnescapeCEscapeString dest = src \<and> length dest \<le> 4 * length src)
    \<and> (\<exists>dest. CHexEscape src = Inr dest \<and> UnescapeCEscapeString dest = src \<and> length dest \<le> 4 * length src)
    \<and> (\<exists>dest. Utf8SafeCEscape src = Inr dest \<and> UnescapeCEscapeString dest = src \<and> length dest \<le> 4 * length src)"
  using escape_round_trip_any [of False False src] escape_round_trip_any [of True False src] escape_round_trip_any [of False True src]
    escaped_length [of False False False src] escaped_length [of True False False src] escaped_length [of False True False src]
  by (simp add: CEscape_def CHexEscape_def Utf8SafeCEscape_def escape_in_buffer_escaped)

end
