(* ===== verification/Strutil_Numbers.thy ===== *)
theory Strutil_Numbers
  imports Decimal_Text "HOL-Library.Word" "HOL-Library.Signed_Division"
begin

text \<open>
  Printing integers (\<^verbatim>\<open>stubs/strutil.cc\<close>). Signed numbers are integers, and an operation on them whose result
  does not fit their width, which C++ leaves undefined, is the fault \<open>IntOverflow\<close>; unsigned ones are words,
  whose operations wrap around. Every store is checked: the routines that fill a buffer from its end are given
  the number of characters in front of the null character, those that fill it from the front the size of the
  buffer and what is in front of the pointer, and a store outside is a fault.
\<close>

unbundle bit_operations_syntax

section \<open>Operations\<close>

subsection \<open>From the end of a buffer\<close>

definition kFastInt64ToBufferOffset :: nat where
  "kFastInt64ToBufferOffset = 21"

definition kFastInt32ToBufferOffset :: nat where
  "kFastInt32ToBufferOffset = 11"

text \<open>\<^verbatim>\<open>*p-- = c\<close>, with the string from \<^verbatim>\<open>p + 1\<close> on.\<close>

definition push_char :: "nat \<Rightarrow> char \<Rightarrow> string \<Rightarrow> fault + string" where
  "push_char room c p = (if length p < room then Inr (c # p) else Inl OutOfBounds)"

text \<open>The result of a signed operation at width \<open>w\<close>, and going on with a result.\<close>

definition signed_result :: "nat \<Rightarrow> int \<Rightarrow> fault + int" where
  "signed_result w i = (if - (2 ^ (w - 1)) \<le> i \<and> i < 2 ^ (w - 1) then Inr i else Inl IntOverflow)"

definition and_then :: "fault + 'a \<Rightarrow> ('a \<Rightarrow> fault + 'b) \<Rightarrow> fault + 'b" where
  "and_then r k = (case r of Inl e \<Rightarrow> Inl e | Inr x \<Rightarrow> k x)"

lemma and_then_simps [simp]: "and_then (Inl e) k = Inl e" "and_then (Inr x) k = k x"
  by (simp_all add: and_then_def)

definition digit_of :: "int \<Rightarrow> char" where
  "digit_of k = char_of (nat (48 + k))"

function push_digits :: "nat \<Rightarrow> int \<Rightarrow> string \<Rightarrow> fault + string" where
  "push_digits room i p =
     (case push_char room (digit_of (i smod 10)) p of
        Inl e \<Rightarrow> Inl e
      | Inr p' \<Rightarrow> if i sdiv 10 > 0 then push_digits room (i sdiv 10) p' else Inr p')"
  by pat_completeness auto
termination
proof (relation "measure (\<lambda>(room, i, p). nat i)", goal_cases)
  case (2 room i p p')
  have "i sdiv 10 \<le> 0" if "i \<le> 0" using that by (simp add: signed_divide_int_def sgn_if pos_imp_zdiv_nonneg_iff)
  with 2 have "0 < i" by fastforce
  then have "i sdiv 10 = i div 10" by (simp add: signed_divide_int_def)
  then show ?case using \<open>0 < i\<close> by simp
qed simp

declare push_digits.simps [simp del]

text \<open>\<^verbatim>\<open>FastInt64ToBuffer\<close> and \<^verbatim>\<open>FastInt32ToBuffer\<close> are the same text for two types.\<close>

definition fast_int :: "nat \<Rightarrow> nat \<Rightarrow> int \<Rightarrow> fault + string" where
  "fast_int w room i =
     (if i \<ge> 0 then push_digits room i []
      else if i > -10 then
        and_then (signed_result w (- i)) (\<lambda>i.
        and_then (push_char room (digit_of i) []) (push_char room (CHR ''-'')))
      else
        and_then (signed_result w (i + 10)) (\<lambda>i.
        and_then (signed_result w (- i)) (\<lambda>i.
        and_then (push_char room (digit_of (i smod 10)) []) (\<lambda>p.
        and_then (signed_result w (i sdiv 10 + 1)) (\<lambda>i.
        and_then (push_digits room i p) (push_char room (CHR ''-'')))))))"

definition FastInt64ToBuffer :: "int \<Rightarrow> fault + string" where
  "FastInt64ToBuffer i = fast_int 64 kFastInt64ToBufferOffset i"

definition FastInt32ToBuffer :: "int32 \<Rightarrow> fault + string" where
  "FastInt32ToBuffer i = fast_int 32 kFastInt32ToBufferOffset i"

definition hexdigits :: string where
  "hexdigits = ''0123456789abcdef''"

function push_hex :: "nat \<Rightarrow> int \<Rightarrow> string \<Rightarrow> fault + string" where
  "push_hex room i p =
     (case push_char room (hexdigits ! nat (i AND 15)) p of
        Inl e \<Rightarrow> Inl e
      | Inr p' \<Rightarrow> if drop_bit 4 i > 0 then push_hex room (drop_bit 4 i) p' else Inr p')"
  by pat_completeness auto
termination
proof (relation "measure (\<lambda>(room, i, p). nat i)", goal_cases)
  case (2 room i p p')
  then have "0 < i div 16" by (simp add: drop_bit_eq_div)
  then have "0 < i \<and> i div 16 < i" by presburger
  then show ?case by (simp add: drop_bit_eq_div)
qed simp

declare push_hex.simps [simp del]

definition FastHexToBuffer :: "int32 \<Rightarrow> fault + string" where
  "FastHexToBuffer i = (if \<not> i \<ge> 0 then Inl AssertFail else push_hex 21 i [])"

primrec hex_fixed :: "nat \<Rightarrow> 64 word \<Rightarrow> string \<Rightarrow> string" where
  "hex_fixed 0 v p = p"
| "hex_fixed (Suc i) v p = hex_fixed i (drop_bit 4 v) (hexdigits ! unat ((ucast v :: 32 word) AND 0xf) # p)"

definition InternalFastHexToBuffer :: "64 word \<Rightarrow> nat \<Rightarrow> string" where
  "InternalFastHexToBuffer v num_byte = hex_fixed num_byte v []"

definition FastHex64ToBuffer :: "64 word \<Rightarrow> string" where
  "FastHex64ToBuffer v = InternalFastHexToBuffer v 16"

definition FastHex32ToBuffer :: "32 word \<Rightarrow> string" where
  "FastHex32ToBuffer v = InternalFastHexToBuffer (ucast v) 8"

subsection \<open>From the front of a buffer\<close>

text \<open>The table, row after row.\<close>

definition two_ASCII_digits :: string where
  "two_ASCII_digits =
     ''0001020304050607080910111213141516171819202122232425262728293031323334353637383940414243444546474849''
     @ ''5051525354555657585960616263646566676869707172737475767778798081828384858687888990919293949596979899''"

text \<open>
  \<open>s\<close> is what the buffer of \<open>room\<close> characters holds in front of the pointer. \<open>put_chars\<close> writes and moves the pointer;
  \<open>put_null\<close> writes the terminating null character and returns.
\<close>

definition put_chars :: "nat \<Rightarrow> string \<Rightarrow> string \<Rightarrow> fault + string" where
  "put_chars room s cs = (if length s + length cs \<le> room then Inr (s @ cs) else Inl OutOfBounds)"

definition put_null :: "nat \<Rightarrow> string \<Rightarrow> fault + string" where
  "put_null room s = (if length s < room then Inr s else Inl OutOfBounds)"

definition two_digits :: "nat \<Rightarrow> string \<Rightarrow> int32 \<Rightarrow> fault + string" where
  "two_digits room s digits =
     (if 0 \<le> digits \<and> digits < 100
      then put_chars room s [two_ASCII_digits ! (2 * nat digits), two_ASCII_digits ! (2 * nat digits + 1)] else Inl OutOfBounds)"

definition one_digit :: "nat \<Rightarrow> string \<Rightarrow> int32 \<Rightarrow> fault + string" where
  "one_digit room s digits = put_chars room s [digit_of digits]"

text \<open>\<^verbatim>\<open>digits = u\<close> and \<^verbatim>\<open>u -= digits * c\<close>: the product is one of two \<^verbatim>\<open>int\<close>s.\<close>

definition digits_of :: "32 word \<Rightarrow> int32" where
  "digits_of u = to_int32 (uint u)"

definition take_off :: "int32 \<Rightarrow> int \<Rightarrow> 32 word \<Rightarrow> fault + 32 word" where
  "take_off digits c u = and_then (signed_result 32 (digits * c)) (\<lambda>x. Inr (u - word_of_int x))"

text \<open>The labels of \<^verbatim>\<open>FastUInt32ToBufferLeft\<close>, from the last to the first; \<^verbatim>\<open>sublt...\<close> falls through to \<^verbatim>\<open>lt...\<close>.\<close>

definition lt100 :: "nat \<Rightarrow> string \<Rightarrow> 32 word \<Rightarrow> fault + string" where
  "lt100 room s u = (let digits = digits_of u in and_then (two_digits room s digits) (put_null room))"

definition sublt100 :: "nat \<Rightarrow> int32 \<Rightarrow> 32 word \<Rightarrow> string \<Rightarrow> fault + string" where
  "sublt100 room digits u s = and_then (take_off digits 100 u) (lt100 room s)"

definition lt10_000 :: "nat \<Rightarrow> string \<Rightarrow> 32 word \<Rightarrow> fault + string" where
  "lt10_000 room s u = (let digits = digits_of (u div 100) in and_then (two_digits room s digits) (sublt100 room digits u))"

definition sublt10_000 :: "nat \<Rightarrow> int32 \<Rightarrow> 32 word \<Rightarrow> string \<Rightarrow> fault + string" where
  "sublt10_000 room digits u s = and_then (take_off digits 10000 u) (lt10_000 room s)"

definition lt1_000_000 :: "nat \<Rightarrow> string \<Rightarrow> 32 word \<Rightarrow> fault + string" where
  "lt1_000_000 room s u =
     (let digits = digits_of (u div 10000) in and_then (two_digits room s digits) (sublt10_000 room digits u))"

definition sublt1_000_000 :: "nat \<Rightarrow> int32 \<Rightarrow> 32 word \<Rightarrow> string \<Rightarrow> fault + string" where
  "sublt1_000_000 room digits u s = and_then (take_off digits 1000000 u) (lt1_000_000 room s)"

definition lt100_000_000 :: "nat \<Rightarrow> string \<Rightarrow> 32 word \<Rightarrow> fault + string" where
  "lt100_000_000 room s u =
     (let digits = digits_of (u div 1000000) in and_then (two_digits room s digits) (sublt1_000_000 room digits u))"

definition sublt100_000_000 :: "nat \<Rightarrow> int32 \<Rightarrow> 32 word \<Rightarrow> string \<Rightarrow> fault + string" where
  "sublt100_000_000 room digits u s = and_then (take_off digits 100000000 u) (lt100_000_000 room s)"

definition FastUInt32ToBufferLeft :: "nat \<Rightarrow> string \<Rightarrow> 32 word \<Rightarrow> fault + string" where
  "FastUInt32ToBufferLeft room s u =
     (if u \<ge> 1000000000 then
        let digits = digits_of (u div 100000000) in and_then (two_digits room s digits) (sublt100_000_000 room digits u)
      else if u < 100 then
        (if u \<ge> 10 then lt100 room s u else and_then (one_digit room s (digits_of u)) (put_null room))
      else if u < 10000 then
        (if u \<ge> 1000 then lt10_000 room s u
         else let digits = digits_of (u div 100) in and_then (one_digit room s digits) (sublt100 room digits u))
      else if u < 1000000 then
        (if u \<ge> 100000 then lt1_000_000 room s u
         else let digits = digits_of (u div 10000) in and_then (one_digit room s digits) (sublt10_000 room digits u))
      else if u < 100000000 then
        (if u \<ge> 10000000 then lt100_000_000 room s u
         else let digits = digits_of (u div 1000000) in and_then (one_digit room s digits) (sublt1_000_000 room digits u))
      else let digits = digits_of (u div 100000000) in and_then (one_digit room s digits) (sublt100_000_000 room digits u))"

definition FastInt32ToBufferLeft :: "nat \<Rightarrow> int32 \<Rightarrow> fault + string" where
  "FastInt32ToBufferLeft room i =
     (if i < 0 then
        and_then (put_chars room [] ''-'') (\<lambda>s.
        and_then (signed_result 32 (- i)) (\<lambda>u. FastUInt32ToBufferLeft room s (word_of_int u)))
      else FastUInt32ToBufferLeft room [] (word_of_int i))"

text \<open>The last nine digits of a number of more than 32 bits.\<close>

definition nine_digits :: "nat \<Rightarrow> 32 word \<Rightarrow> string \<Rightarrow> fault + string" where
  "nine_digits room u s =
     (let digits = digits_of (u div 10000000) in
      if \<not> digits < 100 then Inl AssertFail else
      and_then (two_digits room s digits) (\<lambda>s.
      and_then (take_off digits 10000000 u) (\<lambda>u. let digits = digits_of (u div 100000) in
      and_then (two_digits room s digits) (\<lambda>s.
      and_then (take_off digits 100000 u) (\<lambda>u. let digits = digits_of (u div 1000) in
      and_then (two_digits room s digits) (\<lambda>s.
      and_then (take_off digits 1000 u) (\<lambda>u. let digits = digits_of (u div 10) in
      and_then (two_digits room s digits) (\<lambda>s.
      and_then (take_off digits 10 u) (\<lambda>u. let digits = digits_of u in
      and_then (one_digit room s digits) (put_null room))))))))))"

function FastUInt64ToBufferLeft :: "nat \<Rightarrow> string \<Rightarrow> 64 word \<Rightarrow> fault + string" where
  "FastUInt64ToBufferLeft room s u64 =
     (let u = ucast u64 :: 32 word in
      if ucast u = u64 then FastUInt32ToBufferLeft room s u
      else let top_11_digits = u64 div 1000000000 in
        and_then (FastUInt64ToBufferLeft room s top_11_digits) (nine_digits room (ucast (u64 - top_11_digits * 1000000000))))"
  by pat_completeness auto
termination
proof (relation "measure (\<lambda>(room, s, u64). unat u64)", goal_cases)
  case (2 room s u64 u top)
  have "u64 \<noteq> 0" using 2 by auto
  then have "0 < unat u64" by (simp add: unat_gt_0)
  then show ?case using 2(3) by (simp add: unat_div)
qed simp

declare FastUInt64ToBufferLeft.simps [simp del]

definition FastInt64ToBufferLeft :: "nat \<Rightarrow> int \<Rightarrow> fault + string" where
  "FastInt64ToBufferLeft room i =
     (if i < 0 then
        and_then (put_chars room [] ''-'') (\<lambda>s.
        and_then (signed_result 64 (- i)) (\<lambda>u. FastUInt64ToBufferLeft room s (word_of_int u)))
      else FastUInt64ToBufferLeft room [] (word_of_int i))"

text \<open>\<^verbatim>\<open>SimpleItoa\<close> of \<^verbatim>\<open>int\<close>, \<^verbatim>\<open>unsigned int\<close>, \<^verbatim>\<open>long\<close> and \<^verbatim>\<open>unsigned long\<close>, where these have 32 and 64 bits.\<close>

definition kFastToBufferSize :: nat where
  "kFastToBufferSize = 32"

definition SimpleItoa_int :: "int32 \<Rightarrow> fault + string" where
  "SimpleItoa_int i = FastInt32ToBuffer i"

definition SimpleItoa_uint :: "32 word \<Rightarrow> fault + string" where
  "SimpleItoa_uint i = FastUInt32ToBufferLeft kFastToBufferSize [] i"

definition SimpleItoa_long :: "int \<Rightarrow> fault + string" where
  "SimpleItoa_long i = FastInt64ToBuffer i"

definition SimpleItoa_ulong :: "64 word \<Rightarrow> fault + string" where
  "SimpleItoa_ulong i = FastUInt64ToBufferLeft kFastToBufferSize [] i"

section \<open>Filling from the end\<close>

lemma signed_result_fits: "- (2 ^ w) \<le> i \<Longrightarrow> i < 2 ^ w \<Longrightarrow> signed_result (Suc w) i = Inr i"
  by (simp add: signed_result_def)

lemma digit_of_digit: "0 \<le> k \<Longrightarrow> digit_of k = digit_char (nat k)"
  by (simp add: digit_of_def digit_char_def nat_add_distrib)

lemma push_digits_decimal:
  "length (decimal n) + length p \<le> room \<Longrightarrow> push_digits room (int n) p = Inr (decimal n @ p)"
proof (induction n arbitrary: p rule: less_induct)
  case (less n)
  have s: "int n smod 10 = int (n mod 10)" "int n sdiv 10 = int (n div 10)"
    by (cases "n = 0"; simp add: signed_modulo_int_def signed_divide_int_def zdiv_int zmod_int)+
  have d: "digit_of (int (n mod 10)) = digit_char (n mod 10)" by (simp add: digit_of_digit)
  show ?case
  proof (cases "n < 10")
    case True
    then show ?thesis using less.prems by (subst push_digits.simps) (simp add: s digit_of_digit push_char_def decimal_digit)
  next
    case False
    then have "length (decimal (n div 10)) + length (digit_char (n mod 10) # p) \<le> room" using less.prems by (simp add: decimal_snoc)
    then have ih: "push_digits room (int (n div 10)) (digit_char (n mod 10) # p) = Inr (decimal n @ p)"
      using less.IH [of "n div 10"] False by (simp add: decimal_snoc)
    have c: "length p < room" "(0 < int (n div 10)) = True" using less.prems False by (simp_all add: decimal_snoc)
    have "push_digits room (int n) p = push_digits room (int (n div 10)) (digit_char (n mod 10) # p)"
      by (subst push_digits.simps) (simp only: s d push_char_def c if_True sum.case)
    then show ?thesis using ih by simp
  qed
qed

lemma fast_int_text:
  assumes w: "- (2 ^ w) \<le> i" "i < 2 ^ w" "10 \<le> (2 :: int) ^ w" and room: "length (text_of_int i) \<le> room"
  shows "fast_int (Suc w) room i = Inr (text_of_int i)"
proof (cases "i \<ge> 0")
  case True
  then show ?thesis using push_digits_decimal [of "nat i" "[]" room] room by (simp add: fast_int_def text_of_int_def)
next
  case False
  then obtain m where m: "i = - int m" "0 < m" by (metis neg_0_less_iff_less not_le pos_int_cases minus_minus)
  show ?thesis
  proof (cases "m < 10")
    case True
    have "signed_result (Suc w) (int m) = Inr (int m)" using w(3) True by (intro signed_result_fits) linarith+
    then show ?thesis
      using m True room by (simp add: fast_int_def push_char_def text_of_int_def decimal_digit digit_of_digit)
  next
    case False
    then have a: "10 \<le> m" "int m \<le> 2 ^ w" using m w by simp_all
    define k where "k = m - 10"
    have k: "m = k + 10" using a(1) by (simp add: k_def)
    have bounds: "i + 10 = - int k" "int k + 10 \<le> 2 ^ w" "int (m div 10) \<le> int k + 1" "0 \<le> int (m div 10)" "0 \<le> int k"
      using m(1) a by (simp_all add: k)
    have fits: "signed_result (Suc w) (i + 10) = Inr (- int k)" "signed_result (Suc w) (int k) = Inr (int k)"
      "signed_result (Suc w) (int (m div 10)) = Inr (int (m div 10))"
      unfolding bounds(1) using bounds(2-5) by (intro signed_result_fits; linarith)+
    have s: "int k smod 10 = int (m mod 10)" "int k sdiv 10 + 1 = int (m div 10)"
      by (cases "k = 0"; simp add: signed_modulo_int_def signed_divide_int_def zdiv_int zmod_int k)+
    have len: "length (decimal (m div 10)) + 1 < room" using room m a by (simp add: text_of_int_def decimal_snoc)
    then have p: "push_digits room (int (m div 10)) [digit_char (m mod 10)] = Inr (decimal m)"
      using push_digits_decimal [of "m div 10" "[digit_char (m mod 10)]" room] a by (simp add: decimal_snoc)
    have room: "length (decimal m) < room" "length ([] :: string) < room" using room m by (simp_all add: text_of_int_def)
    have c: "(i \<ge> 0) = False" "(i > -10) = False" using m a by simp_all
    have d: "digit_of (int (m mod 10)) = digit_char (m mod 10)" by (simp add: digit_of_digit)
    have "fast_int (Suc w) room i = Inr (CHR ''-'' # decimal m)"
      by (simp only: fast_int_def c if_False fits and_then_simps minus_minus s d push_char_def room if_True p)
    then show ?thesis using m by (simp add: text_of_int_def)
  qed
qed

text \<open>
  Every number of the type is printed, the smallest one included: it is never negated. No store is in front of
  the buffer.
\<close>

lemma text_of_int_length: "- (10 ^ k) < i \<Longrightarrow> i < 10 ^ k \<Longrightarrow> 0 < k \<Longrightarrow> length (text_of_int i) \<le> Suc k"
  using decimal_length [of "nat i" k] decimal_length [of "nat (- i)" k]
  by (simp add: text_of_int_def nat_less_iff le_SucI)

lemma FastInt64ToBuffer_text:
  assumes "- (2 ^ 63) \<le> i" "i < 2 ^ 63"
  shows "FastInt64ToBuffer i = Inr (text_of_int i)"
proof -
  have "length (text_of_int i) \<le> Suc 19" using assms by (intro text_of_int_length) simp_all
  then show ?thesis
    unfolding FastInt64ToBuffer_def kFastInt64ToBufferOffset_def using fast_int_text [of 63 i 21] assms by simp
qed

lemma FastInt32ToBuffer_text:
  assumes "- (2 ^ 31) \<le> i" "i < 2 ^ 31"
  shows "FastInt32ToBuffer i = Inr (text_of_int i)"
proof -
  have "length (text_of_int i) \<le> Suc 10" using assms by (intro text_of_int_length) simp_all
  then show ?thesis
    unfolding FastInt32ToBuffer_def kFastInt32ToBufferOffset_def using fast_int_text [of 31 i 11] assms by simp
qed

subsection \<open>Hexadecimal\<close>

fun hexadecimal :: "nat \<Rightarrow> string" where
  "hexadecimal n = (if n < 16 then [hexdigits ! n] else hexadecimal (n div 16) @ [hexdigits ! (n mod 16)])"

declare hexadecimal.simps [simp del]

lemma hexadecimal_length: "n < 16 ^ k \<Longrightarrow> 0 < k \<Longrightarrow> length (hexadecimal n) \<le> k"
proof (induction k arbitrary: n)
  case (Suc k)
  show ?case
  proof (cases "n < 16")
    case False
    then have "n div 16 < 16 ^ k" "0 < k" using Suc.prems(1) by (auto simp: div_less_iff_less_mult mult.commute intro: gr0I)
    then show ?thesis using Suc.IH [of "n div 16"] False by (subst hexadecimal.simps) simp
  qed (subst hexadecimal.simps, simp)
qed simp

lemma push_hex_hexadecimal:
  "length (hexadecimal n) + length p \<le> room \<Longrightarrow> push_hex room (int n) p = Inr (hexadecimal n @ p)"
proof (induction n arbitrary: p rule: less_induct)
  case (less n)
  have "int n AND 15 = take_bit 4 (int n)" by (simp add: take_bit_eq_mask mask_eq_exp_minus_1)
  then have "int n AND 15 = int (n mod 16)" by (simp add: take_bit_eq_mod zmod_int)
  then have d: "nat (int n AND 15) = n mod 16" by simp
  have q: "drop_bit 4 (int n) = int (n div 16)" by (simp add: drop_bit_eq_div zdiv_int)
  show ?case
  proof (cases "n < 16")
    case True
    then have "length p < room" "hexadecimal n = [hexdigits ! n]" using less.prems by (simp_all add: hexadecimal.simps)
    then show ?thesis using True by (subst push_hex.simps) (simp add: d q push_char_def)
  next
    case False
    have h: "hexadecimal n = hexadecimal (n div 16) @ [hexdigits ! (n mod 16)]" using False by (subst hexadecimal.simps) simp
    then have ih: "push_hex room (int (n div 16)) (hexdigits ! (n mod 16) # p) = Inr (hexadecimal n @ p)"
      using less.IH [of "n div 16" "hexdigits ! (n mod 16) # p"] False less.prems by simp
    have c: "length p < room" "(0 < int (n div 16)) = True" using less.prems False h by simp_all
    have "push_hex room (int n) p = push_hex room (int (n div 16)) (hexdigits ! (n mod 16) # p)"
      by (subst push_hex.simps) (simp only: d q push_char_def c if_True sum.case)
    then show ?thesis using ih by simp
  qed
qed

lemma FastHexToBuffer_text: "0 \<le> i \<Longrightarrow> i < 2 ^ 31 \<Longrightarrow> FastHexToBuffer i = Inr (hexadecimal (nat i))"
  using push_hex_hexadecimal [of "nat i" "[]" 21] hexadecimal_length [of "nat i" 8]
  by (simp add: FastHexToBuffer_def nat_less_iff)

text \<open>With a fixed number of digits.\<close>

primrec last_hex_digits :: "nat \<Rightarrow> nat \<Rightarrow> string" where
  "last_hex_digits 0 n = []"
| "last_hex_digits (Suc k) n = last_hex_digits k (n div 16) @ [hexdigits ! (n mod 16)]"

lemma hex_fixed_digits: "hex_fixed k v p = last_hex_digits k (unat v) @ p"
proof (induction k arbitrary: v p)
  case (Suc k)
  have "unat ((ucast v :: 32 word) AND 0xf) = unat v mod 16"
  proof -
    have "(ucast v :: 32 word) AND 0xf = take_bit 4 (ucast v)" by (simp add: take_bit_eq_mask mask_eq_exp_minus_1)
    then show ?thesis
      by (simp add: unsigned_take_bit_eq unsigned_ucast_eq take_bit_take_bit) (simp add: take_bit_eq_mod)
  qed
  moreover have "unat (drop_bit 4 v) = unat v div 16" by (simp add: drop_bit_eq_div unat_div)
  ultimately show ?case using Suc by simp
qed simp

lemma FastHex64ToBuffer_digits: "FastHex64ToBuffer v = last_hex_digits 16 (unat v)"
  by (simp only: FastHex64ToBuffer_def InternalFastHexToBuffer_def hex_fixed_digits append_Nil2)

lemma FastHex32ToBuffer_digits: "FastHex32ToBuffer v = last_hex_digits 8 (unat v)"
  by (simp only: FastHex32ToBuffer_def InternalFastHexToBuffer_def hex_fixed_digits append_Nil2)
    (use unsigned_less [of v, where ?'a = nat] in \<open>simp add: unsigned_ucast_eq take_bit_nat_eq_self\<close>)

section \<open>Filling from the front\<close>

lemma last_digits_append: "last_digits (j + k) n = last_digits j (n div 10 ^ k) @ last_digits k n"
proof (induction k arbitrary: n)
  case (Suc k)
  show ?case using Suc [of "n div 10"] by (simp add: div_mult2_eq)
qed simp

lemma last_digits_mod: "last_digits k (n mod 10 ^ k) = last_digits k n"
proof (induction k arbitrary: n)
  case (Suc k)
  have "n mod 10 ^ Suc k div 10 = n div 10 mod 10 ^ k" "n mod 10 ^ Suc k mod 10 = n mod 10"
    by (simp_all add: mod_mult2_eq mod_mod_cancel)
  then show ?case using Suc [of "n div 10"] by (simp only: last_digits.simps)
qed simp

lemma last_digits_decimal: "10 ^ k \<le> n \<Longrightarrow> n < 10 ^ Suc k \<Longrightarrow> last_digits (Suc k) n = decimal n"
proof (induction k arbitrary: n)
  case (Suc k)
  have "10 \<le> n" by (rule order_trans [OF _ Suc.prems(1)]) simp
  moreover have "10 ^ k \<le> n div 10" using div_le_mono [OF Suc.prems(1), of 10] by simp
  moreover have "n div 10 < 10 ^ Suc k" using Suc.prems(2) by (simp add: div_less_iff_less_mult mult.commute)
  ultimately show ?case using Suc.IH [of "n div 10"] by (simp add: decimal_snoc)
qed (simp add: decimal_digit)

lemma length_last_digits [simp]: "length (last_digits k n) = k"
  by (induction k arbitrary: n) simp_all

text \<open>Steps of the ladder: two digits or one, the digits of a number, and what is left without them.\<close>

lemma two_digits_last:
  assumes "n < 100" "length s + 2 \<le> room"
  shows "two_digits room s (int n) = Inr (s @ last_digits 2 n)"
proof -
  have "list_all (\<lambda>k. [two_ASCII_digits ! (2 * k), two_ASCII_digits ! (2 * k + 1)] = last_digits 2 k) [0..<100]"
    by code_simp
  then have pair: "[two_ASCII_digits ! (2 * n), two_ASCII_digits ! (2 * n + 1)] = last_digits 2 n"
    using assms(1) by (simp only: list_all_iff set_upt atLeastLessThan_iff le0 simp_thms)
  have "(0 \<le> int n \<and> int n < 100) = True" using assms(1) by simp
  then have "two_digits room s (int n) = put_chars room s (last_digits 2 n)" by (simp only: two_digits_def if_True nat_int pair)
  then show ?thesis using assms(2) by (simp add: put_chars_def)
qed

lemma one_digit_decimal: "n < 10 \<Longrightarrow> length s < room \<Longrightarrow> one_digit room s (int n) = Inr (s @ decimal n)"
  by (simp add: one_digit_def put_chars_def digit_of_digit decimal_digit)

lemma digits_of_small: "unat u < 2 ^ 31 \<Longrightarrow> digits_of u = int (unat u)"
proof -
  assume "unat u < 2 ^ 31"
  moreover have "uint u = int (unat u)" by (rule uint_nat)
  ultimately show ?thesis unfolding digits_of_def by (metis to_int32_id of_nat_0_le_iff order_trans neg_le_0_iff_le zero_le_numeral zero_le_power of_nat_less_numeral_power_cancel_iff)
qed

lemma digits_of_quotient: "2 \<le> unat c \<Longrightarrow> digits_of (u div c) = int (unat u div unat c)"
proof -
  assume c: "2 \<le> unat c"
  have "unat u div unat c \<le> unat u div 2" using c by (intro div_le_mono2) simp_all
  moreover have "unat u div 2 < 2 ^ 31" using unsigned_less [of u, where ?'a = nat] by simp
  ultimately show ?thesis by (simp add: digits_of_small unat_div)
qed

lemma take_off_rest:
  assumes "unat u div c * c < 2 ^ 31"
  shows "take_off (int (unat u div c)) (int c) u = Inr (word_of_nat (unat u mod c))"
proof -
  have "unat u mod c = unat u - unat u div c * c" "unat u div c * c \<le> unat u" by (simp_all add: minus_div_mult_eq_mod)
  then have "(word_of_nat (unat u mod c) :: 32 word) = u - word_of_int (int (unat u div c * c))" by simp
  then show ?thesis using assms by (simp add: take_off_def signed_result_def flip: of_nat_mult)
qed

lemma unat_rest: "0 < c \<Longrightarrow> c < 2 ^ 32 \<Longrightarrow> unat (word_of_nat (n mod c) :: 32 word) = n mod c"
  by (simp add: unsigned_of_nat take_bit_nat_eq_self less_trans [OF mod_less_divisor])

text \<open>The blocks of the ladder. The products stay below \<^verbatim>\<open>2^31\<close> unless ten digits are printed.\<close>

lemma lt100_digits: "unat u < 100 \<Longrightarrow> length s + 2 < room \<Longrightarrow> lt100 room s u = Inr (s @ last_digits 2 (unat u))"
  by (simp add: lt100_def digits_of_small two_digits_last put_null_def del: of_nat_unat)

lemma sublt100_digits:
  assumes "unat u < 2 ^ 31" "length s + 2 < room"
  shows "sublt100 room (int (unat u div 100)) u s = Inr (s @ last_digits 2 (unat u))"
proof -
  have "unat u div 100 * 100 < 2 ^ 31" using assms(1) by (simp add: le_less_trans [OF div_times_less_eq_dividend])
  then show ?thesis
    using take_off_rest [of u 100] last_digits_mod [of 2 "unat u"] lt100_digits [of "word_of_nat (unat u mod 100)" s room] assms(2)
    by (simp add: sublt100_def unat_rest)
qed

lemma lt10_000_digits:
  "unat u < 10000 \<Longrightarrow> length s + 4 < room \<Longrightarrow> lt10_000 room s u = Inr (s @ last_digits 4 (unat u))"
  using last_digits_append [of 2 2 "unat u"]
  by (simp add: lt10_000_def digits_of_quotient two_digits_last sublt100_digits div_less_iff_less_mult)

lemma sublt10_000_digits:
  assumes "unat u < 2 ^ 31" "length s + 4 < room"
  shows "sublt10_000 room (int (unat u div 10000)) u s = Inr (s @ last_digits 4 (unat u))"
proof -
  have "unat u div 10000 * 10000 < 2 ^ 31" using assms(1) by (simp add: le_less_trans [OF div_times_less_eq_dividend])
  then show ?thesis
    using take_off_rest [of u 10000] last_digits_mod [of 4 "unat u"] lt10_000_digits [of "word_of_nat (unat u mod 10000)" s room] assms(2)
    by (simp add: sublt10_000_def unat_rest)
qed

lemma lt1_000_000_digits:
  "unat u < 1000000 \<Longrightarrow> length s + 6 < room \<Longrightarrow> lt1_000_000 room s u = Inr (s @ last_digits 6 (unat u))"
  using last_digits_append [of 2 4 "unat u"]
  by (simp add: lt1_000_000_def digits_of_quotient two_digits_last sublt10_000_digits div_less_iff_less_mult)

lemma sublt1_000_000_digits:
  assumes "unat u < 2 ^ 31" "length s + 6 < room"
  shows "sublt1_000_000 room (int (unat u div 1000000)) u s = Inr (s @ last_digits 6 (unat u))"
proof -
  have "unat u div 1000000 * 1000000 < 2 ^ 31" using assms(1) by (simp add: le_less_trans [OF div_times_less_eq_dividend])
  then show ?thesis
    using take_off_rest [of u 1000000] last_digits_mod [of 6 "unat u"] lt1_000_000_digits [of "word_of_nat (unat u mod 1000000)" s room]
      assms(2)
    by (simp add: sublt1_000_000_def unat_rest)
qed

lemma lt100_000_000_digits:
  "unat u < 100000000 \<Longrightarrow> length s + 8 < room \<Longrightarrow> lt100_000_000 room s u = Inr (s @ last_digits 8 (unat u))"
  using last_digits_append [of 2 6 "unat u"]
  by (simp add: lt100_000_000_def digits_of_quotient two_digits_last sublt1_000_000_digits div_less_iff_less_mult)

lemma sublt100_000_000_digits:
  assumes "unat u < 2200000000" "length s + 8 < room"
  shows "sublt100_000_000 room (int (unat u div 100000000)) u s = Inr (s @ last_digits 8 (unat u))"
proof -
  have "unat u div 100000000 \<le> 21" using assms(1) by simp
  then have "unat u div 100000000 * 100000000 < 2 ^ 31" by simp
  then show ?thesis
    using take_off_rest [of u 100000000] last_digits_mod [of 8 "unat u"]
      lt100_000_000_digits [of "word_of_nat (unat u mod 100000000)" s room] assms(2)
    by (simp add: sublt100_000_000_def unat_rest)
qed

text \<open>From 2200000000 on the product of the first step is not an \<^verbatim>\<open>int\<close>.\<close>

lemma sublt100_000_000_overflow:
  assumes "2200000000 \<le> unat u"
  shows "sublt100_000_000 room (int (unat u div 100000000)) u s = Inl IntOverflow"
proof -
  have "22 \<le> unat u div 100000000" using div_le_mono [OF assms, of 100000000] by simp
  then have "22 \<le> int (unat u div 100000000)" by (simp del: zdiv_int of_nat_div)
  then show ?thesis
    by (simp add: sublt100_000_000_def take_off_def signed_result_def del: of_nat_div)
qed

lemma FastUInt32ToBufferLeft_text:
  assumes n: "unat u < 2200000000" and room: "length s + length (decimal (unat u)) < room"
  shows "FastUInt32ToBufferLeft room s u = Inr (s @ decimal (unat u))"
proof -
  let ?n = "unat u"
  have front: "?n div 10 ^ k < 10 \<and> s @ decimal ?n = (s @ decimal (?n div 10 ^ k)) @ last_digits k ?n
      \<and> length s < room \<and> length (s @ decimal (?n div 10 ^ k)) + k < room" if "10 ^ k \<le> ?n" "?n < 10 * 10 ^ k" for k
    using that(2) decimal_split [OF that(1)] room by (simp add: div_less_iff_less_mult)
  have whole: "s @ decimal ?n = s @ last_digits j ?n \<and> length s + j < room" if "j = Suc k" "10 ^ k \<le> ?n" "?n < 10 * 10 ^ k" for j k
    using last_digits_decimal [of k ?n] that room by (metis length_last_digits power_Suc)
  have big: "?n div 10 ^ 8 < 100 \<and> s @ decimal ?n = (s @ last_digits 2 (?n div 10 ^ 8)) @ last_digits 8 ?n \<and> length s + 10 < room"
    if "1000000000 \<le> ?n"
  proof -
    have "decimal ?n = last_digits (2 + 8) ?n" using last_digits_decimal [of 9 ?n] that n by simp
    then show ?thesis using last_digits_append [of 2 8 ?n] room n by (simp add: div_less_iff_less_mult)
  qed
  note branch = FastUInt32ToBufferLeft_def word_le_nat_alt word_less_nat_alt digits_of_quotient
  consider "1000000000 \<le> ?n" | "?n < 10" | "10 \<le> ?n" "?n < 100" | "100 \<le> ?n" "?n < 1000" | "1000 \<le> ?n" "?n < 10000"
    | "10000 \<le> ?n" "?n < 100000" | "100000 \<le> ?n" "?n < 1000000" | "1000000 \<le> ?n" "?n < 10000000"
    | "10000000 \<le> ?n" "?n < 100000000" | "100000000 \<le> ?n" "?n < 1000000000" by linarith
  then show ?thesis
  proof cases
    case 1
    then show ?thesis using big n by (simp add: branch two_digits_last sublt100_000_000_digits)
  next
    case 2
    then show ?thesis
      using room by (simp add: branch digits_of_small one_digit_decimal put_null_def decimal_digit del: of_nat_unat)
  next
    case 3
    then show ?thesis using whole [of 2 1] by (simp add: branch lt100_digits)
  next
    case 4
    then show ?thesis using front [of 2] by (simp add: branch one_digit_decimal sublt100_digits)
  next
    case 5
    then show ?thesis using whole [of 4 3] by (simp add: branch lt10_000_digits)
  next
    case 6
    then show ?thesis using front [of 4] by (simp add: branch one_digit_decimal sublt10_000_digits)
  next
    case 7
    then show ?thesis using whole [of 6 5] by (simp add: branch lt1_000_000_digits)
  next
    case 8
    then show ?thesis using front [of 6] by (simp add: branch one_digit_decimal sublt1_000_000_digits)
  next
    case 9
    then show ?thesis using whole [of 8 7] by (simp add: branch lt100_000_000_digits)
  next
    case 10
    then show ?thesis using front [of 8] by (simp add: branch one_digit_decimal sublt100_000_000_digits)
  qed
qed

text \<open>The numbers the \<^verbatim>\<open>int\<close> products do not allow: the first two digits are stored, then the multiplication overflows.\<close>

lemma ten_digits: "2200000000 \<le> unat (u :: 32 word) \<Longrightarrow> length (decimal (unat u)) = 10"
proof -
  assume "2200000000 \<le> unat u"
  then have "last_digits 10 (unat u) = decimal (unat u)"
    using last_digits_decimal [of 9 "unat u"] unsigned_less [of u, where ?'a = nat] by simp
  then show ?thesis by (metis length_last_digits)
qed

lemma FastUInt32ToBufferLeft_overflow:
  assumes n: "2200000000 \<le> unat u" and room: "length s + length (decimal (unat u)) < room"
  shows "FastUInt32ToBufferLeft room s u = Inl IntOverflow"
proof -
  have "unat u div 100000000 < 100" using unsigned_less [of u, where ?'a = nat] by simp
  then have "two_digits room s (int (unat u div 100000000)) = Inr (s @ last_digits 2 (unat u div 100000000))"
    using room ten_digits [OF n] by (intro two_digits_last) simp_all
  moreover have "1000000000 \<le> u" using n by (simp add: word_le_nat_alt)
  ultimately show ?thesis
    using sublt100_000_000_overflow [OF n] by (simp add: FastUInt32ToBufferLeft_def digits_of_quotient Let_def del: of_nat_div)
qed

lemma FastInt32ToBufferLeft_text:
  assumes "- (2 ^ 31) < i" "i < 2 ^ 31" "length (text_of_int i) < room"
  shows "FastInt32ToBufferLeft room i = Inr (text_of_int i)"
proof -
  have small: "unat (word_of_int k :: 32 word) = nat k" if "0 \<le> k" "k < 2 ^ 31" for k
    using that by (simp add: unsigned_of_int take_bit_int_eq_self)
  show ?thesis
  proof (cases "i < 0")
    case True
    then have "signed_result 32 (- i) = Inr (- i)" using assms by (simp add: signed_result_def)
    moreover have "FastUInt32ToBufferLeft room ''-'' (word_of_int (- i)) = Inr (''-'' @ decimal (nat (- i)))"
      using True assms small [of "- i"] FastUInt32ToBufferLeft_text [of "word_of_int (- i)" "''-''" room]
      by (simp add: text_of_int_def del: of_int_minus)
    ultimately show ?thesis
      using True assms(3) by (simp add: FastInt32ToBufferLeft_def put_chars_def text_of_int_def del: of_int_minus)
  next
    case False
    then show ?thesis
      using assms small [of i] FastUInt32ToBufferLeft_text [of "word_of_int i" "[]" room]
      by (simp add: FastInt32ToBufferLeft_def text_of_int_def)
  qed
qed

lemma FastInt32ToBufferLeft_smallest: "1 < room \<Longrightarrow> FastInt32ToBufferLeft room (- (2 ^ 31)) = Inl IntOverflow"
  by (simp add: FastInt32ToBufferLeft_def put_chars_def signed_result_def)

text \<open>The 64 bit routines.\<close>

lemma nine_digits_last:
  assumes n: "unat u < 1000000000" and room: "length s + 9 < room"
  shows "nine_digits room u s = Inr (s @ last_digits 9 (unat u))"
proof -
  let ?n = "unat u"
  define w where "w k = (word_of_nat (?n mod 10 ^ k) :: 32 word)" for k
  have w: "unat (w k) = ?n mod 10 ^ k" if "k < 10" for k
  proof -
    have "(10 :: nat) ^ k \<le> 10 ^ 9" using that by (intro power_increasing) simp_all
    then show ?thesis unfolding w_def by (intro unat_rest) simp_all
  qed
  have u: "u = w 9" using n w [of 9] by (simp add: word_unat_eq_iff)
  define d where "d k = int (?n mod 10 ^ (k + 2) div 10 ^ k)" for k
  have off: "take_off (d k) c (w (k + 2)) = Inr (w k)" if "c = int (10 ^ k)" "k < 8" for k c
  proof -
    have "?n mod 10 ^ (k + 2) div 10 ^ k * 10 ^ k \<le> ?n" by (meson div_times_less_eq_dividend mod_less_eq_dividend order_trans)
    then have "unat (w (k + 2)) div 10 ^ k * 10 ^ k < 2 ^ 31" using n w [of "k + 2"] that by simp
    then show ?thesis
      using take_off_rest [of "w (k + 2)" "10 ^ k"] w [of "k + 2"] that by (simp add: w_def d_def mod_mod_cancel le_imp_power_dvd)
  qed
  have d: "two_digits room t (d k) = Inr (t @ last_digits 2 (?n div 10 ^ k)) \<and> d k < 100" if "length t + 2 \<le> room" for t k
  proof -
    have "?n mod 10 ^ (k + 2) div 10 ^ k = ?n div 10 ^ k mod 10 ^ 2" unfolding power_add by (simp add: mod_mult2_eq)
    moreover have "?n div 10 ^ k mod 10 ^ 2 < 100" by simp
    ultimately show ?thesis using last_digits_mod [of 2 "?n div 10 ^ k"] two_digits_last [OF _ that] by (simp add: d_def)
  qed
  have one: "one_digit room t (int (?n mod 10)) = Inr (t @ last_digits 1 ?n)" if "length t < room" for t
    using one_digit_decimal [of "?n mod 10" t room] that by (simp add: decimal_digit)
  have q: "digits_of (w (k + 2) div c) = d k" if "unat c = 10 ^ k" "0 < k" "k < 8" for k c
  proof -
    have "2 \<le> unat c" using that power_increasing [of 1 k "10 :: nat"] by simp
    then show ?thesis using digits_of_quotient w [of "k + 2"] that by (simp add: d_def)
  qed
  have last: "digits_of (w 1) = int (?n mod 10)" using digits_of_small [of "w 1"] w [of 1] by (simp add: less_trans [OF mod_less_divisor] del: of_nat_unat)
  have all: "last_digits 9 ?n = last_digits 2 (?n div 10 ^ 7) @ last_digits 2 (?n div 10 ^ 5) @ last_digits 2 (?n div 10 ^ 3)
      @ last_digits 2 (?n div 10 ^ 1) @ last_digits 1 ?n"
    using last_digits_append [of 2 7 ?n] last_digits_append [of 2 5 ?n] last_digits_append [of 2 3 ?n] last_digits_append [of 2 1 ?n]
    by simp
  have quotients: "digits_of (w 9 div 10000000) = d 7" "digits_of (w 7 div 100000) = d 5" "digits_of (w 5 div 1000) = d 3"
    "digits_of (w 3 div 10) = d 1" using q [of 10000000 7] q [of 100000 5] q [of 1000 3] q [of 10 1] by (simp_all del: One_nat_def add_2_eq_Suc')
  have rests: "take_off (d 7) 10000000 (w 9) = Inr (w 7)" "take_off (d 5) 100000 (w 7) = Inr (w 5)"
    "take_off (d 3) 1000 (w 5) = Inr (w 3)" "take_off (d 1) 10 (w 3) = Inr (w 1)"
    using off [of 10000000 7] off [of 100000 5] off [of 1000 3] off [of 10 1] by (simp_all del: One_nat_def add_2_eq_Suc')
  have "d 7 < 100" using d [of s 7] room by simp
  then have "nine_digits room (w 9) s = Inr (s @ last_digits 9 ?n)"
    unfolding nine_digits_def Let_def quotients using room
    by (simp add: rests quotients d one last put_null_def all del: last_digits.simps of_nat_mod One_nat_def)
  then show ?thesis using u by simp
qed

text \<open>The 32 bit routine prints the number or its first eleven digits.\<close>

definition leaves_int :: "nat \<Rightarrow> bool" where
  "leaves_int n \<longleftrightarrow> 2200000000 \<le> n \<and> n < 2 ^ 32 \<or> 2200000000 * 10 ^ 9 \<le> n \<and> n < 2 ^ 32 * 10 ^ 9"

lemma FastUInt64ToBufferLeft_eq:
  "length s + length (decimal (unat v)) < room \<Longrightarrow>
    FastUInt64ToBufferLeft room s v = (if leaves_int (unat v) then Inl IntOverflow else Inr (s @ decimal (unat v)))"
proof (induction room s v rule: FastUInt64ToBufferLeft.induct)
  case (1 room s v)
  let ?u = "ucast v :: 32 word"
  have uu: "unat (ucast ?u :: 64 word) = unat ?u"
    unfolding unsigned_ucast_eq [of ?u] by (rule take_bit_nat_eq_self) (use unsigned_less [of ?u, where ?'a = nat] in simp)
  show ?case
  proof (cases "ucast ?u = v")
    case True
    then have u: "unat ?u = unat v" using uu by simp
    then have "unat v < 2 ^ 32" using unsigned_less [of ?u, where ?'a = nat] by simp
    then show ?thesis
      using True u "1.prems" FastUInt32ToBufferLeft_text [of ?u s room] FastUInt32ToBufferLeft_overflow [of ?u s room]
      by (subst FastUInt64ToBufferLeft.simps) (auto simp: leaves_int_def Let_def)
  next
    case False
    have big: "2 ^ 32 \<le> unat v"
    proof (rule ccontr)
      assume "\<not> 2 ^ 32 \<le> unat v"
      then have "unat ?u = unat v" unfolding unsigned_ucast_eq by (simp add: take_bit_nat_eq_self)
      then have "ucast ?u = v" using uu by (simp only: word_unat_eq_iff)
      then show False using False by simp
    qed
    let ?q = "unat v div 10 ^ 9" and ?r = "v - v div 1000000000 * 1000000000"
    have r: "unat ?r = unat v mod 10 ^ 9" by (simp add: minus_div_mult_eq_mod unat_mod)
    have r32: "unat (ucast ?r :: 32 word) = unat v mod 10 ^ 9"
      unfolding unsigned_ucast_eq r by (rule take_bit_nat_eq_self) (simp add: less_trans [OF mod_less_divisor])
    have split: "decimal (unat v) = decimal ?q @ last_digits 9 (unat v)" by (rule decimal_split) (use big in simp)
    then have room: "length s + length (decimal ?q) + 9 < room" using "1.prems" by simp
    have q: "unat (v div 1000000000) = ?q" by (simp add: unat_div)
    have top: "FastUInt64ToBufferLeft room s (v div 1000000000) = (if leaves_int ?q then Inl IntOverflow else Inr (s @ decimal ?q))"
      using "1.IH" [OF refl _ refl] False room q by simp
    have "leaves_int ?q \<longleftrightarrow> leaves_int (unat v)"
    proof -
      have "?q < 2200000000 * 10 ^ 9" using unsigned_less [of v, where ?'a = nat] by (simp add: div_less_iff_less_mult)
      moreover have "2200000000 \<le> ?q \<longleftrightarrow> 2200000000 * 10 ^ 9 \<le> unat v" "?q < 2 ^ 32 \<longleftrightarrow> unat v < 2 ^ 32 * 10 ^ 9"
        by (simp_all add: less_eq_div_iff_mult_less_eq div_less_iff_less_mult)
      ultimately show ?thesis using big by (auto simp: leaves_int_def)
    qed
    moreover have "nine_digits room (ucast ?r) (s @ decimal ?q) = Inr (s @ decimal (unat v))"
      using nine_digits_last [of "ucast ?r" "s @ decimal ?q" room] room last_digits_mod [of 9 "unat v"] split
      unfolding r32 by (simp del: last_digits.simps)
    ultimately show ?thesis
      using False top by (subst FastUInt64ToBufferLeft.simps) (simp add: Let_def)
  qed
qed

lemma FastInt64ToBufferLeft_eq:
  assumes "- (2 ^ 63) \<le> i" "i < 2 ^ 63" "length (text_of_int i) < room"
  shows "FastInt64ToBufferLeft room i = (if i = - (2 ^ 63) \<or> leaves_int (nat \<bar>i\<bar>) then Inl IntOverflow else Inr (text_of_int i))"
proof -
  have small: "unat (word_of_int k :: 64 word) = nat k" if "0 \<le> k" "k < 2 ^ 63" for k
    using that by (simp add: unsigned_of_int take_bit_int_eq_self)
  consider "i = - (2 ^ 63)" | "i < 0" "- (2 ^ 63) < i" | "0 \<le> i" using assms(1) by linarith
  then show ?thesis
  proof cases
    case 1
    then show ?thesis using assms(3) by (simp add: FastInt64ToBufferLeft_def put_chars_def signed_result_def text_of_int_def)
  next
    case 2
    then have "signed_result 64 (- i) = Inr (- i)" using assms by (simp add: signed_result_def)
    moreover have "FastUInt64ToBufferLeft room ''-'' (word_of_int (- i))
        = (if leaves_int (nat (- i)) then Inl IntOverflow else Inr (''-'' @ decimal (nat (- i))))"
      using 2 assms small [of "- i"] FastUInt64ToBufferLeft_eq [of "''-''" "word_of_int (- i)" room]
      by (simp add: text_of_int_def del: of_int_minus)
    ultimately show ?thesis
      using 2 assms(3) by (simp add: FastInt64ToBufferLeft_def put_chars_def text_of_int_def del: of_int_minus)
  next
    case 3
    then show ?thesis
      using assms small [of i] FastUInt64ToBufferLeft_eq [of "[]" "word_of_int i" room]
      by (simp add: FastInt64ToBufferLeft_def text_of_int_def)
  qed
qed

section \<open>Properties\<close>

text \<open>
  C15. Printing integers agrees with plain division by ten and stores nothing outside of the buffers and tables.
  The routines that fill a buffer from its end print every number of their type, the smallest included. The
  unrolled ones, whose caller brings the buffer, need room for the text and the null character behind it, and
  print every number for which their signed arithmetic is defined: all but the smallest \<^verbatim>\<open>int\<close>, whose negation
  overflows, and all but those of ten or nineteen digits whose leading digits, multiplied as \<^verbatim>\<open>int\<close>s by
  100000000, overflow. On exactly these the result is the overflow.
\<close>

theorem integers_printed:
  assumes "- (2 ^ 31) \<le> i" and "i < 2 ^ 31" and "- (2 ^ 63) \<le> j" and "j < 2 ^ 63"
    and "length (text_of_int i) < room" and "length (text_of_int j) < room"
    and "length (decimal (unat u)) < room" and "length (decimal (unat v)) < room"
  shows "FastInt32ToBuffer i = Inr (text_of_int i) \<and> FastInt64ToBuffer j = Inr (text_of_int j)
    \<and> FastInt32ToBufferLeft room i = (if i = - (2 ^ 31) then Inl IntOverflow else Inr (text_of_int i))
    \<and> FastUInt32ToBufferLeft room [] u = (if 2200000000 \<le> unat u then Inl IntOverflow else Inr (decimal (unat u)))
    \<and> FastUInt64ToBufferLeft room [] v = (if 2200000000 \<le> unat v \<and> unat v < 2 ^ 32
          \<or> 2200000000 * 10 ^ 9 \<le> unat v \<and> unat v < 2 ^ 32 * 10 ^ 9 then Inl IntOverflow else Inr (decimal (unat v)))
    \<and> FastInt64ToBufferLeft room j = (if j = - (2 ^ 63) \<or> 2200000000 \<le> \<bar>j\<bar> \<and> \<bar>j\<bar> < 2 ^ 32
          \<or> 2200000000 * 10 ^ 9 \<le> \<bar>j\<bar> \<and> \<bar>j\<bar> < 2 ^ 32 * 10 ^ 9 then Inl IntOverflow else Inr (text_of_int j))"
proof (intro conjI)
  show "FastInt32ToBuffer i = Inr (text_of_int i)" by (rule FastInt32ToBuffer_text [OF assms(1,2)])
  show "FastInt64ToBuffer j = Inr (text_of_int j)" by (rule FastInt64ToBuffer_text [OF assms(3,4)])
  show "FastInt32ToBufferLeft room i = (if i = - (2 ^ 31) then Inl IntOverflow else Inr (text_of_int i))"
    using FastInt32ToBufferLeft_text [OF _ assms(2,5)] FastInt32ToBufferLeft_smallest [of room] assms(1,5)
    by (auto simp: text_of_int_def)
  show "FastUInt32ToBufferLeft room [] u = (if 2200000000 \<le> unat u then Inl IntOverflow else Inr (decimal (unat u)))"
    using FastUInt32ToBufferLeft_text [of u "[]" room] FastUInt32ToBufferLeft_overflow [of u "[]" room] assms(7) by simp
qed (use FastUInt64ToBufferLeft_eq [of "[]" v room] FastInt64ToBufferLeft_eq [OF assms(3,4,6)] assms(8)
    in \<open>auto simp: leaves_int_def nat_le_iff nat_less_iff le_nat_iff\<close>)

theorem integers_printed_witness:
  "FastInt32ToBuffer (- 2147483648) = Inr ''-2147483648'' \<and> FastInt64ToBufferLeft 11 4294967297 = Inr ''4294967297''
    \<and> FastInt32ToBufferLeft kFastToBufferSize (- 2147483648) = Inl IntOverflow"
proof -
  have texts: "text_of_int (- 2147483648) = ''-2147483648''" "text_of_int 4294967297 = ''4294967297''" "decimal 0 = ''0''"
    by (simp_all add: text_of_int_def decimal.simps digit_char_def char_of_def bit_Suc_0_iff)
  then show ?thesis
    using integers_printed [of "- 2147483648" 4294967297 kFastToBufferSize 0 0] integers_printed [of 0 4294967297 11 0 0]
    by (simp add: kFastToBufferSize_def text_of_int_def)
qed

end
