(* ===== verification/Strutil_Text.thy ===== *)
theory Strutil_Text
  imports Prelude "HOL-Library.Sublist"
begin

text \<open>
  The string helpers of \<^verbatim>\<open>stubs/strutil.cc\<close> and \<^verbatim>\<open>stubs/strutil.h\<close>: replacing, splitting, joining, prefixes, letters,
  and the adaptors around the C library's conversions. Positions are indices; the null character ends a C
  string and is an ordinary character of a \<^verbatim>\<open>std::string\<close>; sets of delimiters are given without it.
\<close>

section \<open>Operations\<close>

subsection \<open>Searching\<close>

text \<open>\<^verbatim>\<open>strpbrk\<close>, \<^verbatim>\<open>find\<close>, \<^verbatim>\<open>find_first_of\<close> and \<^verbatim>\<open>find_first_not_of\<close>, from the start of a string or a position.\<close>

fun strpbrk :: "string \<Rightarrow> string \<Rightarrow> nat option" where
  "strpbrk [] accept = None"
| "strpbrk (c # s) accept = (if c = CHR 0x00 then None else if c \<in> set accept then Some 0 else map_option Suc (strpbrk s accept))"

fun find_string :: "string \<Rightarrow> string \<Rightarrow> nat option" where
  "find_string [] sub = (if sub = [] then Some 0 else None)"
| "find_string (c # s) sub = (if prefix sub (c # s) then Some 0 else map_option Suc (find_string s sub))"

definition string_find :: "string \<Rightarrow> string \<Rightarrow> nat \<Rightarrow> nat option" where
  "string_find s sub pos = map_option ((+) pos) (find_string (drop pos s) sub)"

fun find_char :: "(char \<Rightarrow> bool) \<Rightarrow> string \<Rightarrow> nat option" where
  "find_char P [] = None"
| "find_char P (c # s) = (if P c then Some 0 else map_option Suc (find_char P s))"

definition find_first_of :: "string \<Rightarrow> string \<Rightarrow> nat \<Rightarrow> nat option" where
  "find_first_of s delim pos = map_option ((+) pos) (find_char (\<lambda>c. c \<in> set delim) (drop pos s))"

definition find_first_not_of :: "string \<Rightarrow> string \<Rightarrow> nat \<Rightarrow> nat option" where
  "find_first_not_of s delim pos = map_option ((+) pos) (find_char (\<lambda>c. c \<notin> set delim) (drop pos s))"

lemma strpbrk_less: "strpbrk s accept = Some k \<Longrightarrow> k < length s"
  by (induction s arbitrary: k) (auto split: if_splits)

lemma find_char_less: "find_char P s = Some k \<Longrightarrow> k < length s"
  by (induction s arbitrary: k) (auto split: if_splits)

lemma find_string_fits: "find_string s sub = Some k \<Longrightarrow> k + length sub \<le> length s"
  by (induction s arbitrary: k) (auto split: if_splits dest: prefix_length_le)

subsection \<open>Replacing\<close>

function strip_loop :: "string \<Rightarrow> char \<Rightarrow> nat \<Rightarrow> string \<Rightarrow> string" where
  "strip_loop remove replacewith str s =
     (case strpbrk (drop str s) remove of
        None \<Rightarrow> s
      | Some k \<Rightarrow> strip_loop remove replacewith (str + k + 1) (s[str + k := replacewith]))"
  by pat_completeness auto
termination
  by (relation "measure (\<lambda>(_, _, str, s). length s - str)") (auto dest: strpbrk_less)

declare strip_loop.simps [simp del]

definition StripString :: "string \<Rightarrow> string \<Rightarrow> char \<Rightarrow> string" where
  "StripString s remove replacewith = strip_loop remove replacewith 0 s"

function replace_loop :: "string \<Rightarrow> string \<Rightarrow> string \<Rightarrow> bool \<Rightarrow> nat \<Rightarrow> string \<Rightarrow> string" where
  "replace_loop s oldsub newsub replace_all start_pos res =
     (case string_find s oldsub start_pos of
        None \<Rightarrow> res @ drop start_pos s
      | Some pos \<Rightarrow>
          let res = res @ take (pos - start_pos) (drop start_pos s) @ newsub; start_pos = pos + length oldsub in
          if replace_all \<and> oldsub \<noteq> [] then replace_loop s oldsub newsub replace_all start_pos res else res @ drop start_pos s)"
  by pat_completeness auto
termination
  by (relation "measure (\<lambda>(s, _, _, _, start_pos, _). length s - start_pos)")
    (auto simp: string_find_def dest!: find_string_fits simp flip: length_greater_0_conv simp del: length_greater_0_conv)

declare replace_loop.simps [simp del]

text \<open>The result is appended to \<open>res\<close>. The loop is never entered with an empty pattern.\<close>

definition StringReplace_to :: "string \<Rightarrow> string \<Rightarrow> string \<Rightarrow> bool \<Rightarrow> string \<Rightarrow> string" where
  "StringReplace_to s oldsub newsub replace_all res =
     (if oldsub = [] then res @ s else replace_loop s oldsub newsub replace_all 0 res)"

definition StringReplace :: "string \<Rightarrow> string \<Rightarrow> string \<Rightarrow> bool \<Rightarrow> string" where
  "StringReplace s oldsub newsub replace_all = StringReplace_to s oldsub newsub replace_all []"

subsection \<open>Splitting and joining\<close>

text \<open>With a single delimiter the string is scanned with a pointer \<open>p\<close>, which is the rest of the string.\<close>

function split_single :: "char \<Rightarrow> string \<Rightarrow> string list \<Rightarrow> string list" where
  "split_single c [] result = result"
| "split_single c (x # p) result =
     (if x = c then split_single c p result
      else split_single c (dropWhile (\<lambda>y. y \<noteq> c) p) (result @ [x # takeWhile (\<lambda>y. y \<noteq> c) p]))"
  by pat_completeness auto
termination
  by (relation "measure (\<lambda>(_, p, _). length p)") (auto simp: length_dropWhile_le le_imp_less_Suc)

text \<open>
  With several delimiters, or none, the positions are searched; a component is never empty, as it begins with a
  character that is not a delimiter, so that the last branch, which makes the recursion end, is never taken.
\<close>

function split_general :: "string \<Rightarrow> string \<Rightarrow> nat option \<Rightarrow> string list \<Rightarrow> string list" where
  "split_general full delim None result = result"
| "split_general full delim (Some begin_index) result =
     (case find_first_of full delim begin_index of
        None \<Rightarrow> result @ [drop begin_index full]
      | Some end_index \<Rightarrow>
          if begin_index < end_index then
            split_general full delim (find_first_not_of full delim end_index)
              (result @ [take (end_index - begin_index) (drop begin_index full)])
          else result)"
  by pat_completeness auto
termination
  by (relation "measure (\<lambda>(full, _, b, _). case b of None \<Rightarrow> 0 | Some i \<Rightarrow> Suc (length full - i))")
    (auto simp: find_first_of_def find_first_not_of_def split: option.split dest: find_char_less)

definition SplitStringUsing :: "string \<Rightarrow> string \<Rightarrow> string list \<Rightarrow> string list" where
  "SplitStringUsing full delim result =
     (if length delim = 1 then split_single (delim ! 0) full result
      else split_general full delim (find_first_not_of full delim 0) result)"

text \<open>Empty components are kept; \<open>i\<close> counts the components, and \<open>pieces = 0\<close> is no bound on them.\<close>

function split_allow_empty :: "string \<Rightarrow> string \<Rightarrow> int \<Rightarrow> int \<Rightarrow> nat \<Rightarrow> string list \<Rightarrow> string list" where
  "split_allow_empty full delim pieces i begin_index result =
     (if i < pieces - 1 \<or> pieces = 0 then
        (case find_first_of full delim begin_index of
           None \<Rightarrow> result @ [drop begin_index full]
         | Some end_index \<Rightarrow>
             split_allow_empty full delim pieces (i + 1) (end_index + 1)
               (result @ [take (end_index - begin_index) (drop begin_index full)]))
      else result @ [drop begin_index full])"
  by pat_completeness auto
termination
  by (relation "measure (\<lambda>(full, _, _, _, b, _). length full - b)") (auto simp: find_first_of_def dest: find_char_less)

declare split_allow_empty.simps [simp del]

definition SplitStringAllowEmpty :: "string \<Rightarrow> string \<Rightarrow> string list \<Rightarrow> string list" where
  "SplitStringAllowEmpty full delim result = split_allow_empty full delim 0 0 0 result"

fun join_loop :: "string \<Rightarrow> bool \<Rightarrow> string list \<Rightarrow> string \<Rightarrow> string" where
  "join_loop delim start [] result = result"
| "join_loop delim start (s # components) result =
     join_loop delim False components ((if \<not> start then result @ delim else result) @ s)"

definition JoinStrings :: "string list \<Rightarrow> string \<Rightarrow> string" where
  "JoinStrings components delim = join_loop delim True components []"

subsection \<open>Prefixes, suffixes and letters\<close>

definition HasPrefixString :: "string \<Rightarrow> string \<Rightarrow> bool" where
  "HasPrefixString str pre \<longleftrightarrow> length str \<ge> length pre \<and> take (length pre) str = pre"

definition StripPrefixString :: "string \<Rightarrow> string \<Rightarrow> string" where
  "StripPrefixString str pre = (if HasPrefixString str pre then drop (length pre) str else str)"

definition HasSuffixString :: "string \<Rightarrow> string \<Rightarrow> bool" where
  "HasSuffixString str suf \<longleftrightarrow> length str \<ge> length suf \<and> drop (length str - length suf) str = suf"

definition StripSuffixString :: "string \<Rightarrow> string \<Rightarrow> string" where
  "StripSuffixString str suf = (if HasSuffixString str suf then take (length str - length suf) str else str)"

definition between :: "nat \<Rightarrow> nat \<Rightarrow> char \<Rightarrow> bool" where
  "between a b c \<longleftrightarrow> a \<le> of_char c \<and> of_char c \<le> b"

definition ascii_isalnum :: "char \<Rightarrow> bool" where
  "ascii_isalnum c \<longleftrightarrow> between 97 122 c \<or> between 65 90 c \<or> between 48 57 c"

definition ascii_isdigit :: "char \<Rightarrow> bool" where
  "ascii_isdigit c \<longleftrightarrow> between 48 57 c"

definition LowerString :: "string \<Rightarrow> string" where
  "LowerString s = map (\<lambda>c. if between 65 90 c then char_of ((of_char c :: nat) + 32) else c) s"

definition UpperString :: "string \<Rightarrow> string" where
  "UpperString s = map (\<lambda>c. if between 97 122 c then char_of ((of_char c :: nat) - 32) else c) s"

subsection \<open>Conversions of the C library\<close>

definition IsValidFloatChar :: "char \<Rightarrow> bool" where
  "IsValidFloatChar c \<longleftrightarrow> between 48 57 c \<or> c = CHR ''e'' \<or> c = CHR ''E'' \<or> c = CHR ''+'' \<or> c = CHR ''-''"

text \<open>The buffer up to its null character; what is behind the locale's radix character moves to the front.\<close>

definition DelocalizeRadix :: "string \<Rightarrow> string" where
  "DelocalizeRadix buffer =
     (if CHR ''.'' \<in> set buffer then buffer
      else case dropWhile IsValidFloatChar buffer of
        [] \<Rightarrow> buffer
      | _ # rest \<Rightarrow>
          takeWhile IsValidFloatChar buffer @ CHR ''.'' #
          (if rest \<noteq> [] \<and> \<not> IsValidFloatChar (hd rest) then dropWhile (\<lambda>c. \<not> IsValidFloatChar c) (tl rest) else rest))"

definition kint32max :: int where "kint32max = 2 ^ 31 - 1"

definition kint32min :: int where "kint32min = - (2 ^ 31)"

definition kuint32max :: int where "kuint32max = 2 ^ 32 - 1"

definition LONG_MAX :: int where "LONG_MAX = 2 ^ 63 - 1"

definition LONG_MIN :: int where "LONG_MIN = - (2 ^ 63)"

definition ULONG_MAX :: int where "ULONG_MAX = 2 ^ 64 - 1"

definition ERANGE :: int where "ERANGE = 34"

text \<open>
  \<^verbatim>\<open>strtol\<close> and \<^verbatim>\<open>strtoul\<close> are parameters: from the text and the base they give the result, the position of
  the end and the new value of \<^verbatim>\<open>errno\<close>, if they set it. The adaptors give the same and the final \<^verbatim>\<open>errno\<close>.
\<close>

type_synonym strto = "string \<Rightarrow> int \<Rightarrow> int \<times> nat \<times> int option"

definition strto32_adaptor :: "strto \<Rightarrow> string \<Rightarrow> int \<Rightarrow> int \<Rightarrow> int \<times> nat \<times> int" where
  "strto32_adaptor strtol nptr base errno =
     (let saved_errno = errno in
      case strtol nptr base of
        (result, endptr, changed) \<Rightarrow>
          let errno = (case changed of None \<Rightarrow> 0 | Some e \<Rightarrow> e) in
          if errno = ERANGE \<and> result = LONG_MIN then (kint32min, endptr, errno)
          else if errno = ERANGE \<and> result = LONG_MAX then (kint32max, endptr, errno)
          else if errno = 0 \<and> result < kint32min then (kint32min, endptr, ERANGE)
          else if errno = 0 \<and> result > kint32max then (kint32max, endptr, ERANGE)
          else (to_int32 result, endptr, if errno = 0 then saved_errno else errno))"

definition strtou32_adaptor :: "strto \<Rightarrow> string \<Rightarrow> int \<Rightarrow> int \<Rightarrow> int \<times> nat \<times> int" where
  "strtou32_adaptor strtoul nptr base errno =
     (let saved_errno = errno in
      case strtoul nptr base of
        (result, endptr, changed) \<Rightarrow>
          let errno = (case changed of None \<Rightarrow> 0 | Some e \<Rightarrow> e) in
          if errno = ERANGE \<and> result = ULONG_MAX then (kuint32max, endptr, errno)
          else if errno = 0 \<and> result > kuint32max then (kuint32max, endptr, ERANGE)
          else (result mod 2 ^ 32, endptr, if errno = 0 then saved_errno else errno))"

section \<open>Replacing\<close>

text \<open>Every character of the set that is in front of the null character is replaced.\<close>

lemma strip_loop_map:
  "strip_loop remove r str s =
     take str s @ map (\<lambda>c. if c \<in> set remove then r else c) (takeWhile (\<lambda>c. c \<noteq> CHR 0x00) (drop str s))
       @ dropWhile (\<lambda>c. c \<noteq> CHR 0x00) (drop str s)"
proof (induction remove r str s rule: strip_loop.induct)
  case (1 remove r str s)
  have none: "strpbrk t remove = None \<Longrightarrow> map (\<lambda>c. if c \<in> set remove then r else c) (takeWhile (\<lambda>c. c \<noteq> CHR 0x00) t)
      = takeWhile (\<lambda>c. c \<noteq> CHR 0x00) t" for t
    by (induction t) (auto split: if_splits)
  have some: "strpbrk t remove = Some k \<Longrightarrow>
      takeWhile (\<lambda>c. c \<noteq> CHR 0x00) t = take k t @ t ! k # takeWhile (\<lambda>c. c \<noteq> CHR 0x00) (drop (Suc k) t)
      \<and> dropWhile (\<lambda>c. c \<noteq> CHR 0x00) t = dropWhile (\<lambda>c. c \<noteq> CHR 0x00) (drop (Suc k) t)
      \<and> set (take k t) \<inter> set remove = {} \<and> t ! k \<in> set remove" for t k
    by (induction t arbitrary: k) (auto split: if_splits)
  show ?case
  proof (cases "strpbrk (drop str s) remove")
    case None
    then show ?thesis using none [OF None] by (subst strip_loop.simps) simp
  next
    case (Some k)
    have k: "str + k < length s" using strpbrk_less [OF Some] by simp
    note t = some [OF Some]
    have keep: "map (\<lambda>c. if c \<in> set remove then r else c) (take k (drop str s)) = take k (drop str s)"
      using t by (intro map_idI) auto
    have "take (str + k + 1) (s[str + k := r]) = take (str + k) s @ [r]" using k by (simp add: take_Suc_conv_app_nth)
    then have "take (str + k + 1) (s[str + k := r]) = take str s @ take k (drop str s) @ [r]" by (simp only: take_add append_assoc)
    moreover have "drop (str + k + 1) (s[str + k := r]) = drop (Suc k) (drop str s)" by (simp add: add.commute)
    ultimately show ?thesis using 1 [OF Some] t keep Some
      by (subst strip_loop.simps) simp
  qed
qed

lemma StripString_map:
  "StripString s remove r = map (\<lambda>c. if c \<in> set remove then r else c) (takeWhile (\<lambda>c. c \<noteq> CHR 0x00) s)
     @ dropWhile (\<lambda>c. c \<noteq> CHR 0x00) s"
  by (simp add: StripString_def strip_loop_map)

text \<open>Replacing as a scan of the string from left to right.\<close>

function replaced :: "string \<Rightarrow> string \<Rightarrow> bool \<Rightarrow> string \<Rightarrow> string" where
  "replaced old new all [] = []"
| "replaced old new all (c # s) =
     (if old \<noteq> [] \<and> prefix old (c # s)
      then new @ (if all then replaced old new all (drop (length old) (c # s)) else drop (length old) (c # s))
      else c # replaced old new all s)"
  by pat_completeness auto
termination
  by (relation "measure (\<lambda>(_, _, _, s). length s)") auto

lemma replaced_find:
  "old \<noteq> [] \<Longrightarrow> replaced old new all s =
     (case find_string s old of
        None \<Rightarrow> s
      | Some k \<Rightarrow> take k s @ new @ (let r = drop (k + length old) s in if all then replaced old new all r else r))"
proof (induction s)
  case (Cons c s)
  show ?case
  proof (cases "prefix old (c # s)")
    case False
    then show ?thesis using Cons by (cases "find_string s old") simp_all
  qed (use Cons.prems in \<open>simp add: Let_def\<close>)
qed simp

lemma replace_loop_replaced:
  "oldsub \<noteq> [] \<Longrightarrow> replace_loop s oldsub newsub all start res = res @ replaced oldsub newsub all (drop start s)"
proof (induction s oldsub newsub all start res rule: replace_loop.induct)
  case (1 s oldsub newsub all start res)
  note f = replaced_find [OF 1(2), of newsub all "drop start s"]
  show ?case
  proof (cases "find_string (drop start s) oldsub")
    case None
    then show ?thesis using f by (subst replace_loop.simps) (simp add: string_find_def)
  next
    case (Some k)
    then have pos: "string_find s oldsub start = Some (start + k)" by (simp add: string_find_def)
    have d: "drop (k + length oldsub) (drop start s) = drop (start + k + length oldsub) s" by (simp add: ac_simps)
    show ?thesis
    proof (cases all)
      case True
      then show ?thesis using 1(1) [OF pos refl refl] 1(2) Some f d
        by (subst replace_loop.simps) (simp add: pos Let_def)
    qed (use Some f d in \<open>subst replace_loop.simps, simp add: pos Let_def\<close>)
  qed
qed

lemma StringReplace_replaced: "StringReplace s oldsub newsub all = (if oldsub = [] then s else replaced oldsub newsub all s)"
  by (simp add: StringReplace_def StringReplace_to_def replace_loop_replaced)

section \<open>Splitting and joining\<close>

lemma find_char_None: "find_char P s = None \<Longrightarrow> \<not> P c \<or> c \<notin> set s"
  by (induction s) (auto split: if_splits)

lemma find_char_Some:
  "find_char P s = Some k \<Longrightarrow> takeWhile (\<lambda>c. \<not> P c) s = take k s \<and> dropWhile (\<lambda>c. \<not> P c) s = drop k s \<and> k < length s \<and> P (s ! k)"
  by (induction s arbitrary: k) (auto split: if_splits)

text \<open>The longest pieces without a delimiter.\<close>

function tokens :: "(char \<Rightarrow> bool) \<Rightarrow> string \<Rightarrow> string list" where
  "tokens P [] = []"
| "tokens P (c # s) =
     (if P c then tokens P s else (c # takeWhile (\<lambda>c. \<not> P c) s) # tokens P (dropWhile (\<lambda>c. \<not> P c) s))"
  by pat_completeness auto
termination
  by (relation "measure (\<lambda>(_, s). length s)") (auto simp: length_dropWhile_le le_imp_less_Suc)

lemma tokens_skip: "\<forall>c\<in>set ds. P c \<Longrightarrow> tokens P (ds @ s) = tokens P s"
  by (induction ds) auto

lemma split_single_tokens: "split_single c s result = result @ tokens (\<lambda>x. x = c) s"
  by (induction c s result rule: split_single.induct) auto

lemma split_general_tokens:
  "split_general full delim (find_first_not_of full delim pos) result = result @ tokens (\<lambda>c. c \<in> set delim) (drop pos full)"
proof (induction "length full - pos" arbitrary: pos result rule: less_induct)
  case less
  let ?P = "\<lambda>c. c \<in> set delim"
  show ?case
  proof (cases "find_char (\<lambda>c. \<not> ?P c) (drop pos full)")
    case None
    have "tokens ?P (drop pos full @ []) = tokens ?P []" using find_char_None [OF None] by (intro tokens_skip) auto
    then show ?thesis using None by (simp add: find_first_not_of_def)
  next
    case (Some k)
    note k = find_char_Some [OF Some]
    let ?b = "pos + k"
    have b: "?b < length full" "\<not> ?P (full ! ?b)"
    proof -
      show "?b < length full" using k by (auto simp: less_diff_conv add.commute)
      then show "\<not> ?P (full ! ?b)" using k by simp
    qed
    have "\<forall>c\<in>set (take k (drop pos full)). ?P c" using k by (auto simp flip: k dest: set_takeWhileD)
    then have skip: "tokens ?P (drop pos full) = tokens ?P (drop ?b full)"
      using tokens_skip [of "take k (drop pos full)" ?P "drop k (drop pos full)"]
      unfolding append_take_drop_id by (simp add: add.commute)
    have d: "drop ?b full = full ! ?b # drop (Suc ?b) full" using b(1) by (simp add: Cons_nth_drop_Suc)
    show ?thesis
    proof (cases "find_char ?P (drop ?b full)")
      case None
      have all: "takeWhile (\<lambda>c. \<not> ?P c) (drop (Suc ?b) full) = drop (Suc ?b) full"
        using find_char_None [OF None] d by (auto simp: takeWhile_eq_all_conv)
      then have none: "dropWhile (\<lambda>c. \<not> ?P c) (drop (Suc ?b) full) = []" by (metis append_self_conv takeWhile_dropWhile_id)
      have "tokens ?P (drop ?b full) = [drop ?b full]" unfolding d tokens.simps all none using b(2) by simp
      then show ?thesis using Some None skip by (simp add: find_first_not_of_def find_first_of_def)
    next
      case e: (Some j)
      note j = find_char_Some [OF e]
      have pos: "0 < j" using j b by (cases j) auto
      have "tokens ?P (drop ?b full) = take j (drop ?b full) # tokens ?P (drop j (drop ?b full))"
        using j b(2) pos unfolding d by (cases j) auto
      moreover have "length full - (?b + j) < length full - pos" using b(1) pos by simp
      ultimately show ?thesis using less [of "?b + j" "result @ [take j (drop ?b full)]"] Some e skip pos
        by (simp add: find_first_not_of_def find_first_of_def add.commute add.left_commute)
    qed
  qed
qed

lemma SplitStringUsing_tokens: "SplitStringUsing full delim result = result @ tokens (\<lambda>c. c \<in> set delim) full"
proof (cases "length delim = 1")
  case True
  then obtain c where "delim = [c]" by (cases delim) auto
  then show ?thesis by (simp add: SplitStringUsing_def split_single_tokens)
qed (simp add: SplitStringUsing_def split_general_tokens)

text \<open>Joining.\<close>

fun joined :: "string \<Rightarrow> string list \<Rightarrow> string" where
  "joined delim [] = []"
| "joined delim [s] = s"
| "joined delim (s # ss) = s @ delim @ joined delim ss"

lemma JoinStrings_joined: "JoinStrings components delim = joined delim components"
proof -
  have rest: "join_loop delim False ss result = result @ concat (map ((@) delim) ss)" for ss result
    by (induction ss arbitrary: result) simp_all
  have "joined delim (s # ss) = s @ concat (map ((@) delim) ss)" for s ss
    by (induction ss arbitrary: s) simp_all
  then show ?thesis by (cases components) (simp_all add: JoinStrings_def rest)
qed

lemma joined_Cons: "ss \<noteq> [] \<Longrightarrow> joined delim (s # ss) = s @ delim @ joined delim ss"
  by (cases ss) simp_all

lemma split_allow_empty_joined:
  "\<exists>ss. split_allow_empty full [c] pieces i pos result = result @ ss \<and> ss \<noteq> [] \<and> joined [c] ss = drop pos full
     \<and> (pieces = 0 \<longrightarrow> (\<forall>s\<in>set ss. c \<notin> set s))"
proof (induction full "[c]" pieces i pos result rule: split_allow_empty.induct)
  case (1 full pieces i pos result)
  show ?case
  proof (cases "i < pieces - 1 \<or> pieces = 0")
    case go: True
    show ?thesis
    proof (cases "find_char (\<lambda>x. x = c) (drop pos full)")
      case None
      then have "c \<notin> set (drop pos full)" using find_char_None by fastforce
      then show ?thesis using go None by (subst split_allow_empty.simps) (simp add: find_first_of_def)
    next
      case (Some k)
      note k = find_char_Some [OF Some]
      have f: "find_first_of full [c] pos = Some (pos + k)" using Some by (simp add: find_first_of_def)
      obtain ss where ss: "split_allow_empty full [c] pieces (i + 1) (pos + k + 1) (result @ [take k (drop pos full)])
          = (result @ [take k (drop pos full)]) @ ss" "ss \<noteq> []" "joined [c] ss = drop (pos + k + 1) full"
        "pieces = 0 \<longrightarrow> (\<forall>s\<in>set ss. c \<notin> set s)"
        using 1 [OF go f] by auto
      have "c \<notin> set (take k (drop pos full))" using k by (auto simp flip: k dest: set_takeWhileD)
      moreover have "take k (drop pos full) @ c # drop (pos + k + 1) full = drop pos full"
        using k id_take_nth_drop [of k "drop pos full"] by (simp add: add.commute)
      ultimately show ?thesis using go f ss
        by (subst split_allow_empty.simps) (auto simp: joined_Cons intro!: exI [of _ "take k (drop pos full) # ss"])
    qed
  qed (subst split_allow_empty.simps, simp)
qed

lemma SplitStringAllowEmpty_joined:
  "JoinStrings (SplitStringAllowEmpty full [c] []) [c] = full \<and> (\<forall>s\<in>set (SplitStringAllowEmpty full [c] []). c \<notin> set s)"
  using split_allow_empty_joined [of full c 0 0 0 "[]"] by (auto simp: SplitStringAllowEmpty_def JoinStrings_joined)

section \<open>Prefixes, suffixes and conversions\<close>

lemma HasPrefixString_prefix: "HasPrefixString str pre \<longleftrightarrow> prefix pre str"
  by (auto simp: HasPrefixString_def prefix_def) (metis append_take_drop_id)

lemma HasSuffixString_suffix: "HasSuffixString str suf \<longleftrightarrow> suffix suf str"
  by (auto simp: HasSuffixString_def suffix_def) (metis append_take_drop_id)

lemma StripPrefixString_append: "StripPrefixString (pre @ s) pre = s"
  by (simp add: StripPrefixString_def HasPrefixString_def)

lemma StripSuffixString_append: "StripSuffixString (s @ suf) suf = s"
  by (simp add: StripSuffixString_def HasSuffixString_def)

lemma DelocalizeRadix_point:
  assumes "\<forall>c\<in>set front. IsValidFloatChar c" "\<forall>c\<in>set radix. \<not> IsValidFloatChar c" "radix \<noteq> []" "CHR ''.'' \<notin> set radix"
    "\<forall>c\<in>set tail. IsValidFloatChar c"
  shows "DelocalizeRadix (front @ radix @ tail) = front @ CHR ''.'' # tail"
proof -
  have point: "\<not> IsValidFloatChar (CHR ''.'')" by (simp add: IsValidFloatChar_def between_def)
  then have "CHR ''.'' \<notin> set (front @ radix @ tail)" using assms by auto
  moreover obtain r rs where r: "radix = r # rs" using assms(3) by (cases radix) auto
  moreover have "takeWhile IsValidFloatChar (front @ radix @ tail) = front" "dropWhile IsValidFloatChar (front @ radix @ tail) = radix @ tail"
    using assms r by (simp_all add: takeWhile_append2 dropWhile_append2)
  moreover have "dropWhile (\<lambda>c. \<not> IsValidFloatChar c) (rs @ tail) = tail"
    using assms(2,5) r by (cases tail) (simp_all add: dropWhile_append2 dropWhile_eq_Nil_conv [THEN iffD2])
  moreover have "(if rs @ tail \<noteq> [] \<and> \<not> IsValidFloatChar (hd (rs @ tail)) then dropWhile (\<lambda>c. \<not> IsValidFloatChar c) (tl (rs @ tail)) else rs @ tail)
      = dropWhile (\<lambda>c. \<not> IsValidFloatChar c) (rs @ tail)"
    by (cases "rs @ tail") auto
  ultimately show ?thesis by (simp add: DelocalizeRadix_def)
qed

text \<open>For a \<^verbatim>\<open>strtol\<close> that reads the number \<open>v\<close>, the adaptor reads it at 32 bits.\<close>

lemma strto32_adaptor_clamps:
  assumes "strtol nptr base =
    (if v < LONG_MIN then (LONG_MIN, e, Some ERANGE) else if v > LONG_MAX then (LONG_MAX, e, Some ERANGE) else (v, e, None))"
  shows "strto32_adaptor strtol nptr base errno =
    (if v < kint32min then (kint32min, e, ERANGE) else if v > kint32max then (kint32max, e, ERANGE) else (v, e, errno))"
  using assms by (auto simp: strto32_adaptor_def LONG_MIN_def LONG_MAX_def kint32min_def kint32max_def ERANGE_def to_int32_id)

lemma strtou32_adaptor_clamps:
  assumes "strtoul nptr base = (if v > ULONG_MAX then (ULONG_MAX, e, Some ERANGE) else (v, e, None))" and "0 \<le> v"
  shows "strtou32_adaptor strtoul nptr base errno = (if v > kuint32max then (kuint32max, e, ERANGE) else (v, e, errno))"
  using assms by (auto simp: strtou32_adaptor_def ULONG_MAX_def kuint32max_def ERANGE_def)

end
