(* ===== verification/Copying_Input.thy ===== *)
theory Copying_Input
  imports Stream_Adaptors
begin

text \<open>
  Input streams that copy (\<^verbatim>\<open>io/zero_copy_stream_impl_lite.cc\<close>, \<^verbatim>\<open>io/zero_copy_stream_impl.cc\<close>): the adaptor that turns
  a stream that copies bytes into a buffer into a zero-copy stream, and the copying stream on a file. Reading
  returns a count and the bytes that were stored; a count of 0 is the end, a negative one an error.
\<close>

section \<open>Operations\<close>

type_synonym 'c reader = "int \<Rightarrow> 'c \<Rightarrow> fault + (int \<times> byte list) \<times> 'c"

subsection \<open>Skipping by reading\<close>

text \<open>\<^verbatim>\<open>CopyingInputStream::Skip\<close>, for streams that cannot do better: at most 4096 bytes at a time.\<close>

function copying_skip_loop :: "'c reader \<Rightarrow> int \<Rightarrow> int \<Rightarrow> 'c \<Rightarrow> fault + int \<times> 'c" where
  "copying_skip_loop read count skipped c =
     (if skipped < count then
        (case read (min (count - skipped) 4096) c of
           Inl e \<Rightarrow> Inl e
         | Inr ((bytes, _), c') \<Rightarrow> if bytes \<le> 0 then Inr (skipped, c') else copying_skip_loop read count (skipped + bytes) c')
      else Inr (skipped, c))"
  by pat_completeness auto
termination
  by (relation "measure (\<lambda>(_, count, skipped, _). nat (count - skipped))") auto

declare copying_skip_loop.simps [simp del]

definition CopyingInputStream_Skip :: "'c reader \<Rightarrow> int \<Rightarrow> 'c \<Rightarrow> fault + int \<times> 'c" where
  "CopyingInputStream_Skip read count c = copying_skip_loop read count 0 c"

subsection \<open>The adaptor\<close>

record 'c CopyingInputAdaptor =
  cia_stream :: 'c
  cia_failed :: bool
  cia_position :: int
  cia_buffer :: "byte list option"
  cia_buffer_size :: int
  cia_used :: int
  cia_backup :: int

definition kDefaultBlockSize :: int where
  "kDefaultBlockSize = 8192"

definition CIA_new :: "'c \<Rightarrow> int \<Rightarrow> 'c CopyingInputAdaptor" where
  "CIA_new c block_size =
     \<lparr>cia_stream = c, cia_failed = False, cia_position = 0, cia_buffer = None,
      cia_buffer_size = (if block_size > 0 then block_size else kDefaultBlockSize), cia_used = 0, cia_backup = 0\<rparr>"

text \<open>The buffer holds the bytes that have been read into it; what it held before is behind them.\<close>

definition CIA_AllocateBufferIfNeeded :: "'c CopyingInputAdaptor \<Rightarrow> 'c CopyingInputAdaptor" where
  "CIA_AllocateBufferIfNeeded s = (if cia_buffer s = None then s\<lparr>cia_buffer := Some []\<rparr> else s)"

definition CIA_FreeBuffer :: "'c CopyingInputAdaptor \<Rightarrow> fault + 'c CopyingInputAdaptor" where
  "CIA_FreeBuffer s = (if cia_backup s \<noteq> 0 then Inl AssertFail else Inr (s\<lparr>cia_used := 0, cia_buffer := None\<rparr>))"

definition CIA_Next :: "'c reader \<Rightarrow> 'c CopyingInputAdaptor \<Rightarrow> fault + byte list option \<times> 'c CopyingInputAdaptor" where
  "CIA_Next read s0 =
     (if cia_failed s0 then Inr (None, s0)
      else
        let s = CIA_AllocateBufferIfNeeded s0; buffer = (case cia_buffer s of None \<Rightarrow> [] | Some buf \<Rightarrow> buf) in
        if cia_backup s > 0 then
          Inr (Some (take (nat (cia_backup s)) (drop (nat (cia_used s - cia_backup s)) buffer)), s\<lparr>cia_backup := 0\<rparr>)
        else
          (case read (cia_buffer_size s) (cia_stream s) of
             Inl e \<Rightarrow> Inl e
           | Inr ((used, bytes), c) \<Rightarrow>
               let s1 = s\<lparr>cia_stream := c, cia_used := used, cia_buffer := Some (bytes @ drop (length bytes) buffer)\<rparr> in
               if used \<le> 0 then
                 (case CIA_FreeBuffer (if used < 0 then s1\<lparr>cia_failed := True\<rparr> else s1) of
                    Inl e \<Rightarrow> Inl e | Inr s2 \<Rightarrow> Inr (None, s2))
               else Inr (Some (take (nat used) (bytes @ drop (length bytes) buffer)), s1\<lparr>cia_position := cia_position s1 + used\<rparr>)))"

definition CIA_BackUp :: "int \<Rightarrow> 'c CopyingInputAdaptor \<Rightarrow> fault + 'c CopyingInputAdaptor" where
  "CIA_BackUp count s =
     (if \<not> (cia_backup s = 0 \<and> cia_buffer s \<noteq> None) then Inl AssertFail
      else if \<not> count \<le> cia_used s then Inl AssertFail
      else if \<not> count \<ge> 0 then Inl AssertFail
      else Inr (s\<lparr>cia_backup := count\<rparr>))"

definition CIA_Skip :: "(int \<Rightarrow> 'c \<Rightarrow> fault + int \<times> 'c) \<Rightarrow> int \<Rightarrow> 'c CopyingInputAdaptor \<Rightarrow> fault + bool \<times> 'c CopyingInputAdaptor" where
  "CIA_Skip skip count s =
     (if \<not> count \<ge> 0 then Inl AssertFail
      else if cia_failed s then Inr (False, s)
      else if cia_backup s \<ge> count then Inr (True, s\<lparr>cia_backup := cia_backup s - count\<rparr>)
      else
        let count = count - cia_backup s in
        case skip count (cia_stream s) of
          Inl e \<Rightarrow> Inl e
        | Inr (skipped, c) \<Rightarrow>
            Inr (skipped = count, s\<lparr>cia_backup := 0, cia_stream := c, cia_position := cia_position s + skipped\<rparr>))"

definition CIA_ByteCount :: "'c CopyingInputAdaptor \<Rightarrow> int" where
  "CIA_ByteCount s = cia_position s - cia_backup s"

section \<open>The contract of a copying stream\<close>

text \<open>
  What a copying stream still has to give up to its end or to an error, both of which it stays at. Reading
  gives some of it, and stops only when there is none.
\<close>

locale copying_input =
  fixes wf :: "'c \<Rightarrow> bool" and rest :: "'c \<Rightarrow> byte list" and read :: "'c reader"
  assumes read_total: "wf c \<Longrightarrow> 0 < n \<Longrightarrow> \<exists>r b c'. read n c = Inr ((r, b), c')"
    and read_some: "wf c \<Longrightarrow> 0 < n \<Longrightarrow> read n c = Inr ((r, b), c') \<Longrightarrow> 0 < r \<Longrightarrow>
      r = int (length b) \<and> r \<le> n \<and> wf c' \<and> rest c = b @ rest c'"
    and read_none: "wf c \<Longrightarrow> 0 < n \<Longrightarrow> read n c = Inr ((r, b), c') \<Longrightarrow> r \<le> 0 \<Longrightarrow> wf c' \<and> rest c = [] \<and> rest c' = []"

locale copying_skip = copying_input wf rest read
  for wf :: "'c \<Rightarrow> bool" and rest :: "'c \<Rightarrow> byte list" and read :: "'c reader" +
  fixes skip :: "int \<Rightarrow> 'c \<Rightarrow> fault + int \<times> 'c"
  assumes skip_rest: "wf c \<Longrightarrow> 0 < n \<Longrightarrow>
    \<exists>c'. skip (int n) c = Inr (int (min n (length (rest c))), c') \<and> wf c' \<and> rest c' = drop n (rest c)"

text \<open>Reading is a way to skip.\<close>

context copying_input
begin

lemma copying_skip_loop_rest:
  "wf c \<Longrightarrow> k \<le> n \<Longrightarrow>
    \<exists>c'. copying_skip_loop read (int n) (int k) c = Inr (int (k + min (n - k) (length (rest c))), c')
      \<and> wf c' \<and> rest c' = drop (n - k) (rest c)"
proof (induction "n - k" arbitrary: k c rule: less_induct)
  case less
  show ?case
  proof (cases "k < n")
    case True
    let ?m = "min (int n - int k) 4096"
    have m: "0 < ?m" using True by simp
    obtain r b c' where r: "read ?m c = Inr ((r, b), c')" using read_total [OF less.prems(1) m] by blast
    show ?thesis
    proof (cases "r \<le> 0")
      case le: True
      then show ?thesis using read_none [OF less.prems(1) m r] r True by (subst copying_skip_loop.simps) simp
    next
      case False
      then have b: "r = int (length b)" "length b \<le> n - k" "0 < length b" "wf c'" "rest c = b @ rest c'"
        using read_some [OF less.prems(1) m r] True by auto
      have "n - (k + length b) < n - k" "k + length b \<le> n" using b(2,3) True by linarith+
      from less.hyps [OF this(1) b(4) this(2)]
      obtain c2 where "copying_skip_loop read (int n) (int (k + length b)) c' = Inr (int (k + length b + min (n - (k + length b)) (length (rest c'))), c2)"
        "wf c2" "rest c2 = drop (n - (k + length b)) (rest c')"
        by blast
      then show ?thesis using r False True b
        by (subst copying_skip_loop.simps) (auto simp: min_def)
    qed
  qed (use less.prems in \<open>subst copying_skip_loop.simps, simp\<close>)
qed

lemma default_skip: "copying_skip wf rest read (CopyingInputStream_Skip read)"
  using copying_skip_loop_rest [of _ 0] by unfold_locales (simp add: CopyingInputStream_Skip_def)

end

sublocale copying_input \<subseteq> by_reading: copying_skip wf rest read "CopyingInputStream_Skip read"
  by (rule default_skip)

section \<open>The adaptor keeps the contract of a zero-copy stream\<close>

text \<open>Without faults, for the operations that return one when a contract is broken.\<close>

definition faultless :: "('s \<Rightarrow> fault + 'a option \<times> 's) \<Rightarrow> 's \<Rightarrow> 'a option \<times> 's" where
  "faultless next s = (case next s of Inl _ \<Rightarrow> (None, s) | Inr r \<Rightarrow> r)"

context copying_skip
begin

definition cia_wf :: "'c CopyingInputAdaptor \<Rightarrow> bool" where
  "cia_wf s \<longleftrightarrow> wf (cia_stream s) \<and> 0 < cia_buffer_size s \<and> 0 \<le> cia_backup s \<and> cia_backup s \<le> cia_used s
     \<and> (case cia_buffer s of None \<Rightarrow> cia_used s = 0 | Some buf \<Rightarrow> cia_used s \<le> int (length buf))
     \<and> (cia_failed s \<longrightarrow> cia_backup s = 0 \<and> rest (cia_stream s) = [])"

definition cia_left :: "'c CopyingInputAdaptor \<Rightarrow> byte list" where
  "cia_left s = (case cia_buffer s of None \<Rightarrow> [] | Some buf \<Rightarrow> take (nat (cia_backup s)) (drop (nat (cia_used s - cia_backup s)) buf))
     @ rest (cia_stream s)"

text \<open>\<^verbatim>\<open>Next\<close> from a good state: a block is the end of what the buffer has been filled with.\<close>

lemma CIA_Next_outcome:
  assumes "cia_wf s"
  obtains s' where "CIA_Next read s = Inr (None, s')" "cia_wf s'" "cia_left s = []" "cia_left s' = []" "CIA_ByteCount s' = CIA_ByteCount s"
  | b s' buf where "CIA_Next read s = Inr (Some b, s')" "cia_wf s'" "b \<noteq> []" "cia_left s = b @ cia_left s'"
      "CIA_ByteCount s' = CIA_ByteCount s + int (length b)" "cia_backup s' = 0" "\<not> cia_failed s'" "cia_buffer s' = Some buf"
      "length b \<le> nat (cia_used s')" "b = drop (nat (cia_used s') - length b) (take (nat (cia_used s')) buf)"
proof -
  have wf: "wf (cia_stream s)" "0 < cia_buffer_size s" "0 \<le> cia_backup s" "cia_backup s \<le> cia_used s" using assms by (simp_all add: cia_wf_def)
  consider (failed) "cia_failed s" | (backup) "\<not> cia_failed s" "cia_backup s > 0" | (more) "\<not> cia_failed s" "cia_backup s = 0"
    using wf(3) by linarith
  then show thesis
  proof cases
    case failed
    then have "cia_left s = []" using assms by (auto simp: cia_wf_def cia_left_def split: option.split)
    then show ?thesis using that(1) [of s] failed assms by (simp add: CIA_Next_def)
  next
    case backup
    then obtain buf where buf: "cia_buffer s = Some buf" "cia_used s \<le> int (length buf)"
      using assms wf by (cases "cia_buffer s") (auto simp: cia_wf_def)
    define p where "p = nat (cia_used s - cia_backup s)"
    have p: "nat (cia_used s) = p + nat (cia_backup s)" "p + nat (cia_backup s) \<le> length buf" using wf buf(2) backup by (simp_all add: p_def)
    let ?b = "take (nat (cia_backup s)) (drop p buf)"
    have len: "length ?b = nat (cia_backup s)" using p(2) by simp
    show ?thesis
    proof (rule that(2) [of ?b "s\<lparr>cia_backup := 0\<rparr>" buf])
      show "CIA_Next read s = Inr (Some ?b, s\<lparr>cia_backup := 0\<rparr>)"
        using backup buf by (simp add: CIA_Next_def CIA_AllocateBufferIfNeeded_def p_def)
      show "cia_wf (s\<lparr>cia_backup := 0\<rparr>)" using assms backup by (simp add: cia_wf_def split: option.splits)
      show "?b \<noteq> []" using len backup by (metis length_0_conv nat_eq_iff2 not_less order_refl zero_less_nat_eq less_numeral_extra(3))
      show "?b = drop (nat (cia_used (s\<lparr>cia_backup := 0\<rparr>)) - length ?b) (take (nat (cia_used (s\<lparr>cia_backup := 0\<rparr>))) buf)"
        using p len by (simp add: drop_take del: length_take length_drop)
    qed (use backup buf len p wf in \<open>simp_all add: cia_left_def CIA_ByteCount_def p_def\<close>)
  next
    case more
    obtain used bytes c where r: "read (cia_buffer_size s) (cia_stream s) = Inr ((used, bytes), c)" using read_total [OF wf(1,2)] by blast
    have left: "cia_left s = rest (cia_stream s)" using more by (simp add: cia_left_def split: option.split)
    have size: "cia_buffer_size (CIA_AllocateBufferIfNeeded s) = cia_buffer_size s" "cia_stream (CIA_AllocateBufferIfNeeded s) = cia_stream s"
      "cia_backup (CIA_AllocateBufferIfNeeded s) = 0"
      using more by (simp_all add: CIA_AllocateBufferIfNeeded_def)
    define buffer where "buffer = (case cia_buffer (CIA_AllocateBufferIfNeeded s) of None \<Rightarrow> [] | Some buf \<Rightarrow> buf)"
    define s1 where "s1 = (CIA_AllocateBufferIfNeeded s)\<lparr>cia_stream := c, cia_used := used, cia_buffer := Some (bytes @ drop (length bytes) buffer)\<rparr>"
    have s1: "cia_backup s1 = 0" "cia_failed s1 = False" "cia_position s1 = cia_position s" "cia_stream s1 = c" "cia_used s1 = used"
      "cia_buffer s1 = Some (bytes @ drop (length bytes) buffer)" "cia_buffer_size s1 = cia_buffer_size s"
      using more by (simp_all add: s1_def CIA_AllocateBufferIfNeeded_def)
    show ?thesis
    proof (cases "used \<le> 0")
      case True
      note n = read_none [OF wf(1,2) r True]
      let ?s2 = "(if used < 0 then s1\<lparr>cia_failed := True\<rparr> else s1)\<lparr>cia_used := 0, cia_buffer := None\<rparr>"
      have "CIA_Next read s = Inr (None, ?s2)"
        using more True s1 by (simp add: CIA_Next_def size r CIA_FreeBuffer_def flip: buffer_def s1_def)
      moreover have "cia_wf ?s2" "cia_left ?s2 = []" "CIA_ByteCount ?s2 = CIA_ByteCount s"
        using n s1 wf more by (simp_all add: cia_wf_def cia_left_def CIA_ByteCount_def)
      ultimately show ?thesis using that(1) n left by simp
    next
      case False
      then have b: "used = int (length bytes)" "wf c" "rest (cia_stream s) = bytes @ rest c" using read_some [OF wf(1,2) r] by simp_all
      let ?s2 = "s1\<lparr>cia_position := cia_position s1 + used\<rparr>"
      have "CIA_Next read s = Inr (Some bytes, ?s2)"
        using more False b(1) by (simp add: CIA_Next_def Let_def size r s1_def flip: buffer_def)
      moreover have "cia_wf ?s2" "cia_left s = bytes @ cia_left ?s2" "CIA_ByteCount ?s2 = CIA_ByteCount s + int (length bytes)"
        using b s1 wf more left by (simp_all add: cia_wf_def cia_left_def CIA_ByteCount_def)
      ultimately show ?thesis using that(2) [of bytes ?s2 "bytes @ drop (length bytes) buffer"] s1 b(1) False by auto
    qed
  qed
qed

lemma adaptor:
  "zero_copy_input cia_wf cia_left (faultless (CIA_Next read)) CIA_BackUp CIA_ByteCount (CIA_Skip skip)"
proof unfold_locales
  fix s s' s1 :: "'c CopyingInputAdaptor" and b n
  assume s: "cia_wf s"
  show "cia_wf s' \<and> b \<noteq> [] \<and> cia_left s = b @ cia_left s' \<and> CIA_ByteCount s' = CIA_ByteCount s + int (length b)"
    if "faultless (CIA_Next read) s = (Some b, s')"
    using that by (cases rule: CIA_Next_outcome [OF s]) (simp_all add: faultless_def)
  show "cia_wf s' \<and> cia_left s = [] \<and> cia_left s' = [] \<and> CIA_ByteCount s' = CIA_ByteCount s"
    if "faultless (CIA_Next read) s = (None, s')"
    using that by (cases rule: CIA_Next_outcome [OF s]) (simp_all add: faultless_def)
  show "\<exists>s2. CIA_BackUp (int n) s1 = Inr s2 \<and> cia_wf s2 \<and> cia_left s2 = drop (length b - n) b @ cia_left s1
      \<and> CIA_ByteCount s2 = CIA_ByteCount s1 - int n"
    if nx: "faultless (CIA_Next read) s = (Some b, s1)" and n: "n \<le> length b"
  proof (cases rule: CIA_Next_outcome [OF s])
    case (2 b' s' buf)
    then have eq: "b' = b" "s' = s1" using nx by (simp_all add: faultless_def)
    define u where "u = nat (cia_used s1)"
    have u: "length b \<le> u" "b = drop (u - length b) (take u buf)" "cia_used s1 = int u" "u \<le> length buf"
      using 2(2,7-10) unfolding eq by (auto simp: u_def cia_wf_def)
    have "drop (length b - n) b = drop (length b - n) (drop (u - length b) (take u buf))" using u(2) by simp
    also have "\<dots> = take n (drop (u - n) buf)" using u(1,4) n by (simp add: drop_take) 
    finally have bk: "take n (drop (u - n) buf) = drop (length b - n) b" by simp
    have "CIA_BackUp (int n) s1 = Inr (s1\<lparr>cia_backup := int n\<rparr>)"
      using 2(6,8) n u unfolding eq by (simp add: CIA_BackUp_def)
    moreover have "cia_wf (s1\<lparr>cia_backup := int n\<rparr>)" using 2(2,7,8) n u unfolding eq by (simp add: cia_wf_def)
    moreover have "nat (int u - int n) = u - n" by simp
    ultimately show ?thesis using 2(6,8) bk u(3) unfolding eq by (simp add: cia_left_def CIA_ByteCount_def)
  qed (use nx in \<open>simp add: faultless_def\<close>)
  show "\<exists>ok s'. CIA_Skip skip (int n) s = Inr (ok, s') \<and> (0 < n \<longrightarrow> ok = (n \<le> length (cia_left s)))
      \<and> cia_wf s' \<and> cia_left s' = drop n (cia_left s) \<and> CIA_ByteCount s' = CIA_ByteCount s + int (min n (length (cia_left s)))"
  proof -
    have wf: "wf (cia_stream s)" "0 \<le> cia_backup s" "cia_backup s \<le> cia_used s" using s by (simp_all add: cia_wf_def)
    define over where "over = (case cia_buffer s of None \<Rightarrow> [] | Some buf \<Rightarrow> take (nat (cia_backup s)) (drop (nat (cia_used s - cia_backup s)) buf))"
    have left: "cia_left s = over @ rest (cia_stream s)" by (simp add: cia_left_def over_def)
    have len: "length over = nat (cia_backup s)"
      using s by (auto simp: over_def cia_wf_def split: option.split)
    consider (failed) "cia_failed s" | (backup) "\<not> cia_failed s" "int n \<le> cia_backup s" | (more) "\<not> cia_failed s" "cia_backup s < int n"
      by linarith
    then show ?thesis
    proof cases
      case failed
      then have "cia_left s = []" using s len left by (auto simp: cia_wf_def)
      then show ?thesis using failed s by (simp add: CIA_Skip_def, blast)
    next
      case backup
      let ?s = "s\<lparr>cia_backup := cia_backup s - int n\<rparr>"
      have n: "n \<le> length over" using backup len by simp
      have "cia_left ?s = drop n over @ rest (cia_stream s)"
      proof (cases "cia_buffer s")
        case (Some buf)
        have "nat (cia_used s - (cia_backup s - int n)) = n + nat (cia_used s - cia_backup s)" "nat (cia_backup s - int n) = nat (cia_backup s) - n"
          using wf(3) by (simp_all add: nat_add_distrib flip: add_diff_eq)
        then show ?thesis using Some by (simp add: cia_left_def over_def drop_take)
      qed (simp add: cia_left_def over_def)
      moreover have "cia_wf ?s" using s backup by (simp add: cia_wf_def split: option.splits)
      moreover have "CIA_Skip skip (int n) s = Inr (True, ?s)" using backup by (simp add: CIA_Skip_def)
      ultimately show ?thesis using n left by (auto simp: CIA_ByteCount_def)
    next
      case more
      define m where "m = n - length over"
      have m: "int n - cia_backup s = int m" "0 < m" "n = length over + m" using more wf(2) len by (simp_all add: m_def)
      obtain c where c: "skip (int m) (cia_stream s) = Inr (int (min m (length (rest (cia_stream s)))), c)" "wf c"
        "rest c = drop m (rest (cia_stream s))"
        using skip_rest [OF wf(1) m(2)] by blast
      let ?s = "s\<lparr>cia_backup := 0, cia_stream := c, cia_position := cia_position s + int (min m (length (rest (cia_stream s))))\<rparr>"
      have "CIA_Skip skip (int n) s = Inr (int (min m (length (rest (cia_stream s)))) = int m, ?s)"
        using more c(1) m(1) by (simp add: CIA_Skip_def Let_def)
      moreover have "cia_wf ?s" using s c more by (auto simp: cia_wf_def split: option.splits)
      moreover have "cia_left ?s = rest c" by (simp add: cia_left_def split: option.split)
      ultimately show ?thesis using left len m c(3) wf(2) by (auto simp: CIA_ByteCount_def min_def)
    qed
  qed
qed

end

section \<open>Files\<close>

text \<open>
  A file descriptor as the process sees it: the bytes it still gives, whether they end in an error, whether it
  can be positioned, and how the next reads go: they are interrupted or give at least one byte.
\<close>

datatype read_reply = Interrupted | Deliver nat

record file_descriptor =
  f_rest :: "byte list"
  f_broken :: bool
  f_seekable :: bool
  f_replies :: "read_reply list"

datatype errno = EINTR | EIO

text \<open>\<^verbatim>\<open>read\<close>: the result, the bytes, and \<^verbatim>\<open>errno\<close>, which is set when the result is negative.\<close>

definition read_up_to :: "nat \<Rightarrow> file_descriptor \<Rightarrow> int \<times> byte list \<times> errno option \<times> file_descriptor" where
  "read_up_to n f =
     (if f_rest f = [] then (if f_broken f then (-1, [], Some EIO, f) else (0, [], None, f))
      else (int (length (take n (f_rest f))), take n (f_rest f), None, f\<lparr>f_rest := drop n (f_rest f)\<rparr>))"

definition sys_read :: "int \<Rightarrow> file_descriptor \<Rightarrow> int \<times> byte list \<times> errno option \<times> file_descriptor" where
  "sys_read n f =
     (case f_replies f of
        [] \<Rightarrow> read_up_to (nat n) f
      | Interrupted # rs \<Rightarrow> (-1, [], Some EINTR, f\<lparr>f_replies := rs\<rparr>)
      | Deliver k # rs \<Rightarrow> read_up_to (min (nat n) (Suc k)) (f\<lparr>f_replies := rs\<rparr>))"

text \<open>\<^verbatim>\<open>lseek\<close> from the current position, which may go past the end.\<close>

definition sys_lseek :: "int \<Rightarrow> file_descriptor \<Rightarrow> bool \<times> file_descriptor" where
  "sys_lseek count f = (if f_seekable f then (True, f\<lparr>f_rest := drop (nat count) (f_rest f)\<rparr>) else (False, f))"

record CopyingFileInputStream =
  cfi_file :: file_descriptor
  cfi_is_closed :: bool
  cfi_errno :: "errno option"
  cfi_previous_seek_failed :: bool

definition CFI_new :: "file_descriptor \<Rightarrow> CopyingFileInputStream" where
  "CFI_new f = \<lparr>cfi_file = f, cfi_is_closed = False, cfi_errno = None, cfi_previous_seek_failed = False\<rparr>"

function read_no_eintr :: "int \<Rightarrow> file_descriptor \<Rightarrow> int \<times> byte list \<times> errno option \<times> file_descriptor" where
  "read_no_eintr n f =
     (case sys_read n f of (result, bytes, e, f') \<Rightarrow>
        if result < 0 \<and> e = Some EINTR then read_no_eintr n f' else (result, bytes, e, f'))"
  by pat_completeness auto
termination
  by (relation "measure (\<lambda>(_, f). length (f_replies f))")
    (auto simp: sys_read_def read_up_to_def Let_def split: list.splits read_reply.splits if_splits)

declare read_no_eintr.simps [simp del]

definition CFI_Read :: "CopyingFileInputStream reader" where
  "CFI_Read n s =
     (if cfi_is_closed s then Inl AssertFail
      else case read_no_eintr n (cfi_file s) of (result, bytes, e, f) \<Rightarrow>
        Inr ((result, bytes), s\<lparr>cfi_file := f, cfi_errno := (if result < 0 then e else cfi_errno s)\<rparr>))"

definition CFI_Skip :: "int \<Rightarrow> CopyingFileInputStream \<Rightarrow> fault + int \<times> CopyingFileInputStream" where
  "CFI_Skip count s =
     (if cfi_is_closed s then Inl AssertFail
      else case (if cfi_previous_seek_failed s then (False, cfi_file s) else sys_lseek count (cfi_file s)) of (ok, f) \<Rightarrow>
        if ok then Inr (count, s\<lparr>cfi_file := f\<rparr>)
        else CopyingInputStream_Skip CFI_Read count (s\<lparr>cfi_file := f, cfi_previous_seek_failed := True\<rparr>))"

text \<open>\<^verbatim>\<open>close\<close> is repeated while it is interrupted; \<open>closes\<close> says for each attempt whether it was, the last succeeds or not.\<close>

primrec close_no_eintr :: "bool \<Rightarrow> bool list \<Rightarrow> bool" where
  "close_no_eintr ok [] = ok"
| "close_no_eintr ok (interrupted # later) = (if interrupted then close_no_eintr ok later else ok)"

definition CFI_Close :: "bool \<Rightarrow> bool list \<Rightarrow> CopyingFileInputStream \<Rightarrow> fault + bool \<times> CopyingFileInputStream" where
  "CFI_Close ok closes s =
     (if cfi_is_closed s then Inl AssertFail
      else
        let s' = s\<lparr>cfi_is_closed := True\<rparr> in
        if \<not> close_no_eintr ok closes then Inr (False, s'\<lparr>cfi_errno := Some EIO\<rparr>) else Inr (True, s'))"

text \<open>A \<^verbatim>\<open>FileInputStream\<close> is an adaptor around such a stream.\<close>

type_synonym FileInputStream = "CopyingFileInputStream CopyingInputAdaptor"

definition FileInputStream_new :: "file_descriptor \<Rightarrow> int \<Rightarrow> FileInputStream" where
  "FileInputStream_new f block_size = CIA_new (CFI_new f) block_size"

definition FileInputStream_Next :: "FileInputStream \<Rightarrow> fault + byte list option \<times> FileInputStream" where
  "FileInputStream_Next = CIA_Next CFI_Read"

definition FileInputStream_BackUp :: "int \<Rightarrow> FileInputStream \<Rightarrow> fault + FileInputStream" where
  "FileInputStream_BackUp = CIA_BackUp"

definition FileInputStream_Skip :: "int \<Rightarrow> FileInputStream \<Rightarrow> fault + bool \<times> FileInputStream" where
  "FileInputStream_Skip = CIA_Skip CFI_Skip"

definition FileInputStream_ByteCount :: "FileInputStream \<Rightarrow> int" where
  "FileInputStream_ByteCount = CIA_ByteCount"

definition FileInputStream_Close :: "bool \<Rightarrow> bool list \<Rightarrow> FileInputStream \<Rightarrow> fault + bool \<times> FileInputStream" where
  "FileInputStream_Close ok closes s =
     (case CFI_Close ok closes (cia_stream s) of Inl e \<Rightarrow> Inl e | Inr (r, c) \<Rightarrow> Inr (r, s\<lparr>cia_stream := c\<rparr>))"

text \<open>A \<^verbatim>\<open>std::istream\<close> as it is used: what it still gives, whether that ends in an error, and its state flags.\<close>

record istream =
  i_rest :: "byte list"
  i_broken :: bool
  i_failbit :: bool
  i_badbit :: bool
  i_eofbit :: bool

definition istream_read :: "nat \<Rightarrow> istream \<Rightarrow> byte list \<times> istream" where
  "istream_read n i =
     (if i_failbit i \<or> i_badbit i \<or> i_eofbit i then ([], i\<lparr>i_failbit := True\<rparr>)
      else if n \<le> length (i_rest i) then (take n (i_rest i), i\<lparr>i_rest := drop n (i_rest i)\<rparr>)
      else if i_broken i then (i_rest i, i\<lparr>i_rest := [], i_badbit := True\<rparr>)
      else (i_rest i, i\<lparr>i_rest := [], i_failbit := True, i_eofbit := True\<rparr>))"

definition CopyingIstream_Read :: "istream reader" where
  "CopyingIstream_Read n i =
     (case istream_read (nat n) i of (bytes, i') \<Rightarrow>
        let result = int (length bytes) in
        if result = 0 \<and> (i_failbit i' \<or> i_badbit i') \<and> \<not> i_eofbit i' then Inr ((-1, bytes), i') else Inr ((result, bytes), i'))"

type_synonym IstreamInputStream = "istream CopyingInputAdaptor"

definition IstreamInputStream_new :: "istream \<Rightarrow> int \<Rightarrow> IstreamInputStream" where
  "IstreamInputStream_new i block_size = CIA_new i block_size"

definition IstreamInputStream_Next :: "IstreamInputStream \<Rightarrow> fault + byte list option \<times> IstreamInputStream" where
  "IstreamInputStream_Next = CIA_Next CopyingIstream_Read"

definition IstreamInputStream_BackUp :: "int \<Rightarrow> IstreamInputStream \<Rightarrow> fault + IstreamInputStream" where
  "IstreamInputStream_BackUp = CIA_BackUp"

definition IstreamInputStream_Skip :: "int \<Rightarrow> IstreamInputStream \<Rightarrow> fault + bool \<times> IstreamInputStream" where
  "IstreamInputStream_Skip = CIA_Skip (CopyingInputStream_Skip CopyingIstream_Read)"

definition IstreamInputStream_ByteCount :: "IstreamInputStream \<Rightarrow> int" where
  "IstreamInputStream_ByteCount = CIA_ByteCount"

section \<open>Files keep the contract\<close>

lemma read_no_eintr_outcome:
  assumes "0 < n"
  shows "case read_no_eintr n f of (r, b, e, f') \<Rightarrow>
    f_broken f' = f_broken f \<and> f_seekable f' = f_seekable f \<and> f_rest f = b @ f_rest f'
    \<and> (if 0 < r then r = int (length b) \<and> r \<le> n else b = [] \<and> f_rest f = [] \<and> (r < 0) = f_broken f)"
proof (induction "length (f_replies f)" arbitrary: f rule: less_induct)
  case less
  have up: "case read_up_to m g of (r, b, e, g') \<Rightarrow>
      f_broken g' = f_broken g \<and> f_seekable g' = f_seekable g \<and> f_rest g = b @ f_rest g'
      \<and> (if 0 < r then r = int (length b) \<and> r \<le> n else b = [] \<and> f_rest g = [] \<and> (r < 0) = f_broken g) \<and> e \<noteq> Some EINTR"
    if "0 < m" "int m \<le> n" for m g
    using that by (auto simp: read_up_to_def min_def)
  have last: ?case if "0 < m" "int m \<le> n" "sys_read n f = read_up_to m g" "f_broken g = f_broken f" "f_seekable g = f_seekable f" "f_rest g = f_rest f" for m g
  proof -
    obtain r b e g' where u: "read_up_to m g = (r, b, e, g')" by (metis prod_cases4)
    then have "read_no_eintr n f = (r, b, e, g')"
      using up [OF that(1,2), of g] that(3) by (subst read_no_eintr.simps) simp
    then show ?thesis using up [OF that(1,2), of g] u that(4-6) by (simp split: if_splits)
  qed
  show ?case
  proof (cases "f_replies f")
    case Nil
    then show ?thesis using last [of "nat n" f] assms by (simp add: sys_read_def)
  next
    case (Cons r rs)
    show ?thesis
    proof (cases r)
      case Interrupted
      have "read_no_eintr n f = read_no_eintr n (f\<lparr>f_replies := rs\<rparr>)"
        by (subst read_no_eintr.simps) (simp add: sys_read_def Cons Interrupted)
      then show ?thesis using less [of "f\<lparr>f_replies := rs\<rparr>"] Cons by (auto split: prod.splits)
    next
      case (Deliver k)
      then show ?thesis using last [of "min (nat n) (Suc k)" "f\<lparr>f_replies := rs\<rparr>"] Cons assms by (simp add: sys_read_def)
    qed
  qed
qed

text \<open>Pipes and sockets, which cannot be positioned.\<close>

definition pipe_wf :: "CopyingFileInputStream \<Rightarrow> bool" where
  "pipe_wf s \<longleftrightarrow> \<not> cfi_is_closed s \<and> \<not> f_seekable (cfi_file s)"

interpretation file_reader: copying_input "\<lambda>s. \<not> cfi_is_closed s" "\<lambda>s. f_rest (cfi_file s)" CFI_Read
proof unfold_locales
  fix c c' :: CopyingFileInputStream and n r b
  assume c: "\<not> cfi_is_closed c" and n: "0 < (n :: int)"
  note out = read_no_eintr_outcome [OF n, of "cfi_file c"]
  show "\<exists>r b c'. CFI_Read n c = Inr ((r, b), c')" using c by (auto simp: CFI_Read_def split: prod.split)
  assume r: "CFI_Read n c = Inr ((r, b), c')"
  show "r = int (length b) \<and> r \<le> n \<and> \<not> cfi_is_closed c' \<and> f_rest (cfi_file c) = b @ f_rest (cfi_file c')" if "0 < r"
    using r c out that by (auto simp: CFI_Read_def split: prod.splits)
  show "\<not> cfi_is_closed c' \<and> f_rest (cfi_file c) = [] \<and> f_rest (cfi_file c') = []" if "r \<le> 0"
    using r c out that by (auto simp: CFI_Read_def split: prod.splits)
qed

lemma CFI_Read_keeps_seekable: "CFI_Read n s = Inr (r, s') \<Longrightarrow> 0 < n \<Longrightarrow> f_seekable (cfi_file s') = f_seekable (cfi_file s)"
  using read_no_eintr_outcome [of n "cfi_file s"] by (auto simp: CFI_Read_def split: prod.splits if_splits)

interpretation pipe_reader: copying_input pipe_wf "\<lambda>s. f_rest (cfi_file s)" CFI_Read
proof unfold_locales
  fix c c' :: CopyingFileInputStream and n r b
  assume c: "pipe_wf c" and n: "0 < (n :: int)"
  then have open_c: "\<not> cfi_is_closed c" "\<not> f_seekable (cfi_file c)" by (simp_all add: pipe_wf_def)
  show "\<exists>r b c'. CFI_Read n c = Inr ((r, b), c')" by (rule file_reader.read_total [OF open_c(1) n])
  assume r: "CFI_Read n c = Inr ((r, b), c')"
  then have wf: "pipe_wf c'" if "\<not> cfi_is_closed c'" using that CFI_Read_keeps_seekable [OF r n] open_c by (simp add: pipe_wf_def)
  show "r = int (length b) \<and> r \<le> n \<and> pipe_wf c' \<and> f_rest (cfi_file c) = b @ f_rest (cfi_file c')" if "0 < r"
    using file_reader.read_some [OF open_c(1) n r that] wf by simp
  show "pipe_wf c' \<and> f_rest (cfi_file c) = [] \<and> f_rest (cfi_file c') = []" if "r \<le> 0"
    using file_reader.read_none [OF open_c(1) n r that] wf by simp
qed

interpretation pipe_skip: copying_skip pipe_wf "\<lambda>s. f_rest (cfi_file s)" CFI_Read CFI_Skip
proof unfold_locales
  fix c :: CopyingFileInputStream and n :: nat
  assume c: "pipe_wf c" and n: "0 < n"
  let ?c = "c\<lparr>cfi_previous_seek_failed := True\<rparr>"
  have "pipe_wf ?c" using c by (simp add: pipe_wf_def)
  moreover have "CFI_Skip (int n) c = CopyingInputStream_Skip CFI_Read (int n) ?c"
    using c by (simp add: CFI_Skip_def sys_lseek_def pipe_wf_def)
  ultimately show "\<exists>c'. CFI_Skip (int n) c = Inr (int (min n (length (f_rest (cfi_file c)))), c') \<and> pipe_wf c'
      \<and> f_rest (cfi_file c') = drop n (f_rest (cfi_file c))"
    using pipe_reader.by_reading.skip_rest [of ?c n] n by simp
qed

interpretation pipe_stream: zero_copy_input pipe_skip.cia_wf pipe_skip.cia_left "faultless FileInputStream_Next"
  FileInputStream_BackUp FileInputStream_ByteCount FileInputStream_Skip
  unfolding FileInputStream_Next_def FileInputStream_BackUp_def FileInputStream_ByteCount_def FileInputStream_Skip_def
  by (rule pipe_skip.adaptor)

text \<open>The blocks that are read from a pipe are what comes through it, however it is cut up and interrupted.\<close>

lemma pipe_blocks:
  assumes "\<not> f_seekable f" "length (f_rest f) \<le> k"
  shows "concat (next_blocks (faultless FileInputStream_Next) k (FileInputStream_new f block_size)) = f_rest f"
proof -
  have "pipe_skip.cia_wf (FileInputStream_new f block_size)" "pipe_skip.cia_left (FileInputStream_new f block_size) = f_rest f"
    using assms(1) by (simp_all add: FileInputStream_new_def CIA_new_def CFI_new_def pipe_skip.cia_wf_def pipe_skip.cia_left_def
        pipe_wf_def kDefaultBlockSize_def)
  then show ?thesis using pipe_stream.concat_blocks assms(2) by simp
qed

text \<open>Streams of the C++ library: once a flag is set, nothing is left.\<close>

definition istream_wf :: "istream \<Rightarrow> bool" where
  "istream_wf i \<longleftrightarrow> (i_failbit i \<or> i_badbit i \<or> i_eofbit i \<longrightarrow> i_rest i = [])"

interpretation istream_reader: copying_input istream_wf i_rest CopyingIstream_Read
proof unfold_locales
  fix c c' :: istream and n r b
  assume c: "istream_wf c" and n: "0 < (n :: int)"
  show "\<exists>r b c'. CopyingIstream_Read n c = Inr ((r, b), c')" by (simp add: CopyingIstream_Read_def split: prod.split)
  assume r: "CopyingIstream_Read n c = Inr ((r, b), c')"
  show "r = int (length b) \<and> r \<le> n \<and> istream_wf c' \<and> i_rest c = b @ i_rest c'" if "0 < r"
    using c n r that by (auto simp: CopyingIstream_Read_def istream_read_def istream_wf_def Let_def split: if_splits)
  show "istream_wf c' \<and> i_rest c = [] \<and> i_rest c' = []" if "r \<le> 0"
    using c n r that by (auto simp: CopyingIstream_Read_def istream_read_def istream_wf_def Let_def split: if_splits)
qed

interpretation istream_stream: zero_copy_input istream_reader.by_reading.cia_wf istream_reader.by_reading.cia_left
  "faultless IstreamInputStream_Next" IstreamInputStream_BackUp IstreamInputStream_ByteCount IstreamInputStream_Skip
  unfolding IstreamInputStream_Next_def IstreamInputStream_BackUp_def IstreamInputStream_ByteCount_def IstreamInputStream_Skip_def
  by (rule istream_reader.by_reading.adaptor)

lemma istream_blocks:
  assumes "\<not> i_failbit i" "\<not> i_badbit i" "\<not> i_eofbit i" "length (i_rest i) \<le> k"
  shows "concat (next_blocks (faultless IstreamInputStream_Next) k (IstreamInputStream_new i block_size)) = i_rest i"
proof -
  have "istream_reader.by_reading.cia_wf (IstreamInputStream_new i block_size)"
    "istream_reader.by_reading.cia_left (IstreamInputStream_new i block_size) = i_rest i"
    using assms(1-3) by (simp_all add: IstreamInputStream_new_def CIA_new_def istream_reader.by_reading.cia_wf_def
        istream_reader.by_reading.cia_left_def istream_wf_def kDefaultBlockSize_def)
  then show ?thesis using istream_stream.concat_blocks assms(4) by simp
qed

text \<open>
  On a file that can be positioned, \<^verbatim>\<open>Skip\<close> goes past the end and says that it has not, and \<^verbatim>\<open>ByteCount\<close> then counts
  bytes that the file does not have.
\<close>

lemma FileInputStream_Skip_past_end:
  "let s = FileInputStream_new \<lparr>f_rest = [1, 2], f_broken = False, f_seekable = True, f_replies = []\<rparr> 0 in
   case FileInputStream_Skip 5 s of Inl _ \<Rightarrow> False | Inr (ok, s') \<Rightarrow> ok \<and> FileInputStream_ByteCount s' = 5"
  by code_simp

end
