(* ===== verification/Copying_Output.thy ===== *)
theory Copying_Output
  imports Copying_Input "HOL-Library.Sublist"
begin

text \<open>
  Output streams that give out memory and copy it later (\<^verbatim>\<open>io/zero_copy_stream_impl_lite.cc\<close>,
  \<^verbatim>\<open>io/zero_copy_stream_impl.cc\<close>): the one that grows a string, the adaptor around a stream that takes a buffer
  at a time, and the streams on files and C++ streams. \<^verbatim>\<open>Next\<close> returns the pointer, as an index, and the size of
  the memory, which the client fills before it gives the rest back.
\<close>

section \<open>Operations\<close>

subsection \<open>Strings\<close>

text \<open>
  The string and its capacity. Growing past the capacity takes what the C++ library decides, at least what is
  needed; what new bytes hold is taken to be 0. Sizes are \<^verbatim>\<open>int\<close>.
\<close>

record StringOutputStream =
  sos_target :: "byte list"
  sos_capacity :: int

definition kMinimumSize :: int where
  "kMinimumSize = 16"

definition string_resize :: "(int \<Rightarrow> int \<Rightarrow> int) \<Rightarrow> int \<Rightarrow> StringOutputStream \<Rightarrow> StringOutputStream" where
  "string_resize grow n s =
     s\<lparr>sos_target := take (nat n) (sos_target s) @ replicate (nat n - length (sos_target s)) 0,
       sos_capacity := (if n \<le> sos_capacity s then sos_capacity s else max n (grow (sos_capacity s) n))\<rparr>"

definition SOS_Next :: "(int \<Rightarrow> int \<Rightarrow> int) \<Rightarrow> StringOutputStream \<Rightarrow> fault + (int \<times> int) option \<times> StringOutputStream" where
  "SOS_Next grow s =
     (let old_size = int (length (sos_target s));
          s' = (if old_size < sos_capacity s then string_resize grow (sos_capacity s) s
                else string_resize grow (max (to_int32 (old_size * 2)) kMinimumSize) s) in
      Inr (Some (old_size, int (length (sos_target s')) - old_size), s'))"

definition SOS_fill :: "int \<Rightarrow> byte list \<Rightarrow> StringOutputStream \<Rightarrow> fault + StringOutputStream" where
  "SOS_fill p bs s = (case mem_write (sos_target s) p bs of Inl e \<Rightarrow> Inl e | Inr t \<Rightarrow> Inr (s\<lparr>sos_target := t\<rparr>))"

definition SOS_BackUp :: "(int \<Rightarrow> int \<Rightarrow> int) \<Rightarrow> int \<Rightarrow> StringOutputStream \<Rightarrow> fault + StringOutputStream" where
  "SOS_BackUp grow count s =
     (if \<not> count \<ge> 0 then Inl AssertFail
      else if \<not> count \<le> int (length (sos_target s)) then Inl AssertFail
      else Inr (string_resize grow (int (length (sos_target s)) - count) s))"

definition SOS_ByteCount :: "StringOutputStream \<Rightarrow> int" where
  "SOS_ByteCount s = int (length (sos_target s))"

subsection \<open>The adaptor\<close>

type_synonym 'c writer = "byte list \<Rightarrow> 'c \<Rightarrow> fault + bool \<times> 'c"

record 'c CopyingOutputAdaptor =
  coa_stream :: 'c
  coa_failed :: bool
  coa_position :: int
  coa_buffer :: "byte list option"
  coa_buffer_size :: int
  coa_used :: int

definition COA_new :: "'c \<Rightarrow> int \<Rightarrow> 'c CopyingOutputAdaptor" where
  "COA_new c block_size =
     \<lparr>coa_stream = c, coa_failed = False, coa_position = 0, coa_buffer = None,
      coa_buffer_size = (if block_size > 0 then block_size else kDefaultBlockSize), coa_used = 0\<rparr>"

definition COA_AllocateBufferIfNeeded :: "'c CopyingOutputAdaptor \<Rightarrow> 'c CopyingOutputAdaptor" where
  "COA_AllocateBufferIfNeeded s =
     (if coa_buffer s = None then s\<lparr>coa_buffer := Some (replicate (nat (coa_buffer_size s)) 0)\<rparr> else s)"

definition COA_FreeBuffer :: "'c CopyingOutputAdaptor \<Rightarrow> 'c CopyingOutputAdaptor" where
  "COA_FreeBuffer s = s\<lparr>coa_used := 0, coa_buffer := None\<rparr>"

definition coa_memory :: "'c CopyingOutputAdaptor \<Rightarrow> byte list" where
  "coa_memory s = (case coa_buffer s of None \<Rightarrow> [] | Some buf \<Rightarrow> buf)"

definition COA_WriteBuffer :: "'c writer \<Rightarrow> 'c CopyingOutputAdaptor \<Rightarrow> fault + bool \<times> 'c CopyingOutputAdaptor" where
  "COA_WriteBuffer write s =
     (if coa_failed s then Inr (False, s)
      else if coa_used s = 0 then Inr (True, s)
      else
        (case write (take (nat (coa_used s)) (coa_memory s)) (coa_stream s) of
           Inl e \<Rightarrow> Inl e
         | Inr (ok, c) \<Rightarrow>
             if ok then Inr (True, s\<lparr>coa_stream := c, coa_position := coa_position s + coa_used s, coa_used := 0\<rparr>)
             else Inr (False, COA_FreeBuffer (s\<lparr>coa_stream := c, coa_failed := True\<rparr>))))"

definition COA_Flush :: "'c writer \<Rightarrow> 'c CopyingOutputAdaptor \<Rightarrow> fault + bool \<times> 'c CopyingOutputAdaptor" where
  "COA_Flush write s = COA_WriteBuffer write s"

definition COA_delete :: "'c writer \<Rightarrow> 'c CopyingOutputAdaptor \<Rightarrow> fault + 'c" where
  "COA_delete write s = (case COA_WriteBuffer write s of Inl e \<Rightarrow> Inl e | Inr (_, s') \<Rightarrow> Inr (coa_stream s'))"

definition COA_Next :: "'c writer \<Rightarrow> 'c CopyingOutputAdaptor \<Rightarrow> fault + (int \<times> int) option \<times> 'c CopyingOutputAdaptor" where
  "COA_Next write s =
     (case (if coa_used s = coa_buffer_size s then COA_WriteBuffer write s else Inr (True, s)) of
        Inl e \<Rightarrow> Inl e
      | Inr (ok, s1) \<Rightarrow>
          if \<not> ok then Inr (None, s1)
          else
            let s2 = COA_AllocateBufferIfNeeded s1 in
            Inr (Some (coa_used s2, coa_buffer_size s2 - coa_used s2), s2\<lparr>coa_used := coa_buffer_size s2\<rparr>))"

definition COA_fill :: "int \<Rightarrow> byte list \<Rightarrow> 'c CopyingOutputAdaptor \<Rightarrow> fault + 'c CopyingOutputAdaptor" where
  "COA_fill p bs s = (case mem_write (coa_memory s) p bs of Inl e \<Rightarrow> Inl e | Inr buf \<Rightarrow> Inr (s\<lparr>coa_buffer := Some buf\<rparr>))"

definition COA_BackUp :: "int \<Rightarrow> 'c CopyingOutputAdaptor \<Rightarrow> fault + 'c CopyingOutputAdaptor" where
  "COA_BackUp count s =
     (if \<not> count \<ge> 0 then Inl AssertFail
      else if coa_used s \<noteq> coa_buffer_size s then Inl AssertFail
      else if \<not> count \<le> coa_used s then Inl AssertFail
      else Inr (s\<lparr>coa_used := coa_used s - count\<rparr>))"

definition COA_ByteCount :: "'c CopyingOutputAdaptor \<Rightarrow> int" where
  "COA_ByteCount s = coa_position s + coa_used s"

subsection \<open>Files\<close>

text \<open>
  A file being written: what it has been given, and how the next writes go: interrupted, taking at least one
  byte, taking nothing, or failing. When nothing more is said, a write takes everything.
\<close>

datatype write_reply = WInterrupted | Take nat | TakeNothing | WriteError

record out_file =
  o_written :: "byte list"
  o_replies :: "write_reply list"

definition sys_write :: "byte list \<Rightarrow> out_file \<Rightarrow> int \<times> errno option \<times> out_file" where
  "sys_write bs f =
     (case o_replies f of
        [] \<Rightarrow> (int (length bs), None, f\<lparr>o_written := o_written f @ bs\<rparr>)
      | r # rs \<Rightarrow>
          let f' = f\<lparr>o_replies := rs\<rparr> in
          (case r of
             WInterrupted \<Rightarrow> (-1, Some EINTR, f')
           | Take k \<Rightarrow> (int (length (take (Suc k) bs)), None, f'\<lparr>o_written := o_written f @ take (Suc k) bs\<rparr>)
           | TakeNothing \<Rightarrow> (0, None, f')
           | WriteError \<Rightarrow> (-1, Some EIO, f')))"

function write_no_eintr :: "byte list \<Rightarrow> out_file \<Rightarrow> int \<times> errno option \<times> out_file" where
  "write_no_eintr bs f =
     (case sys_write bs f of (bytes, e, f') \<Rightarrow>
        if bytes < 0 \<and> e = Some EINTR then write_no_eintr bs f' else (bytes, e, f'))"
  by pat_completeness auto
termination
  by (relation "measure (\<lambda>(_, f). length (o_replies f))")
    (auto simp: sys_write_def Let_def split: list.splits write_reply.splits)

declare write_no_eintr.simps [simp del]

text \<open>The loop of \<^verbatim>\<open>Write\<close>: the error, if it stopped at one.\<close>

function write_loop :: "byte list \<Rightarrow> int \<Rightarrow> out_file \<Rightarrow> (bool \<times> errno option) \<times> out_file" where
  "write_loop buffer total_written f =
     (if total_written < int (length buffer) then
        (case write_no_eintr (drop (nat total_written) buffer) f of (bytes, e, f') \<Rightarrow>
           if bytes \<le> 0 then ((False, if bytes < 0 then e else None), f')
           else write_loop buffer (total_written + bytes) f')
      else ((True, None), f))"
  by pat_completeness auto
termination
  by (relation "measure (\<lambda>(buffer, total_written, _). nat (int (length buffer) - total_written))") auto

declare write_loop.simps [simp del]

record CopyingFileOutputStream =
  cfo_file :: out_file
  cfo_is_closed :: bool
  cfo_errno :: "errno option"

definition CFO_new :: "out_file \<Rightarrow> CopyingFileOutputStream" where
  "CFO_new f = \<lparr>cfo_file = f, cfo_is_closed = False, cfo_errno = None\<rparr>"

definition CFO_Write :: "CopyingFileOutputStream writer" where
  "CFO_Write buffer s =
     (if cfo_is_closed s then Inl AssertFail
      else case write_loop buffer 0 (cfo_file s) of ((ok, e), f) \<Rightarrow>
        Inr (ok, s\<lparr>cfo_file := f, cfo_errno := (if e \<noteq> None then e else cfo_errno s)\<rparr>))"

definition CFO_Close :: "bool \<Rightarrow> bool list \<Rightarrow> CopyingFileOutputStream \<Rightarrow> fault + bool \<times> CopyingFileOutputStream" where
  "CFO_Close ok closes s =
     (if cfo_is_closed s then Inl AssertFail
      else
        let s' = s\<lparr>cfo_is_closed := True\<rparr> in
        if \<not> close_no_eintr ok closes then Inr (False, s'\<lparr>cfo_errno := Some EIO\<rparr>) else Inr (True, s'))"

type_synonym FileOutputStream = "CopyingFileOutputStream CopyingOutputAdaptor"

definition FileOutputStream_new :: "out_file \<Rightarrow> int \<Rightarrow> FileOutputStream" where
  "FileOutputStream_new f block_size = COA_new (CFO_new f) block_size"

definition FileOutputStream_Flush :: "FileOutputStream \<Rightarrow> fault + bool \<times> FileOutputStream" where
  "FileOutputStream_Flush s = COA_Flush CFO_Write s"

definition FileOutputStream_Next :: "FileOutputStream \<Rightarrow> fault + (int \<times> int) option \<times> FileOutputStream" where
  "FileOutputStream_Next = COA_Next CFO_Write"

definition FileOutputStream_BackUp :: "int \<Rightarrow> FileOutputStream \<Rightarrow> fault + FileOutputStream" where
  "FileOutputStream_BackUp = COA_BackUp"

definition FileOutputStream_ByteCount :: "FileOutputStream \<Rightarrow> int" where
  "FileOutputStream_ByteCount = COA_ByteCount"

definition FileOutputStream_Close :: "bool \<Rightarrow> bool list \<Rightarrow> FileOutputStream \<Rightarrow> fault + bool \<times> FileOutputStream" where
  "FileOutputStream_Close ok closes s =
     (case COA_Flush CFO_Write s of
        Inl e \<Rightarrow> Inl e
      | Inr (flush_succeeded, s1) \<Rightarrow>
          (case CFO_Close ok closes (coa_stream s1) of
             Inl e \<Rightarrow> Inl e
           | Inr (closed, c) \<Rightarrow> Inr (closed \<and> flush_succeeded, s1\<lparr>coa_stream := c\<rparr>)))"

text \<open>The destructor flushes, as the destructors of both its members' classes do in their turn.\<close>

definition FileOutputStream_delete :: "FileOutputStream \<Rightarrow> fault + CopyingFileOutputStream" where
  "FileOutputStream_delete s =
     (case COA_Flush CFO_Write s of Inl e \<Rightarrow> Inl e | Inr (_, s1) \<Rightarrow> COA_delete CFO_Write s1)"

subsection \<open>C++ streams\<close>

text \<open>An \<^verbatim>\<open>std::ostream\<close>: what it holds, how much more it takes if that is limited, and whether it is good.\<close>

record ostream =
  os_written :: "byte list"
  os_room :: "nat option"
  os_bad :: bool

definition ostream_write :: "byte list \<Rightarrow> ostream \<Rightarrow> ostream" where
  "ostream_write bs os =
     (if os_bad os then os
      else case os_room os of
        None \<Rightarrow> os\<lparr>os_written := os_written os @ bs\<rparr>
      | Some n \<Rightarrow> os\<lparr>os_written := os_written os @ take n bs, os_room := Some (n - length bs), os_bad := n < length bs\<rparr>)"

definition CopyingOstream_Write :: "ostream writer" where
  "CopyingOstream_Write buffer os = (let os' = ostream_write buffer os in Inr (\<not> os_bad os', os'))"

type_synonym OstreamOutputStream = "ostream CopyingOutputAdaptor"

definition OstreamOutputStream_new :: "ostream \<Rightarrow> int \<Rightarrow> OstreamOutputStream" where
  "OstreamOutputStream_new os block_size = COA_new os block_size"

definition OstreamOutputStream_Next :: "OstreamOutputStream \<Rightarrow> fault + (int \<times> int) option \<times> OstreamOutputStream" where
  "OstreamOutputStream_Next = COA_Next CopyingOstream_Write"

definition OstreamOutputStream_BackUp :: "int \<Rightarrow> OstreamOutputStream \<Rightarrow> fault + OstreamOutputStream" where
  "OstreamOutputStream_BackUp = COA_BackUp"

definition OstreamOutputStream_ByteCount :: "OstreamOutputStream \<Rightarrow> int" where
  "OstreamOutputStream_ByteCount = COA_ByteCount"

definition OstreamOutputStream_delete :: "OstreamOutputStream \<Rightarrow> fault + ostream" where
  "OstreamOutputStream_delete s =
     (case COA_Flush CopyingOstream_Write s of Inl e \<Rightarrow> Inl e | Inr (_, s1) \<Rightarrow> COA_delete CopyingOstream_Write s1)"

section \<open>The contract of an output stream\<close>

text \<open>
  What goes out is what the client filled in and did not give back, as far as the stream knows: a later failure
  loses some of it. Sizes that do not fit an \<^verbatim>\<open>int\<close> are left out by the bound.
\<close>

locale zero_copy_output =
  fixes wf :: "'s \<Rightarrow> bool"
    and sent :: "'s \<Rightarrow> byte list"
    and next_block :: "'s \<Rightarrow> fault + (int \<times> int) option \<times> 's"
    and fill :: "int \<Rightarrow> byte list \<Rightarrow> 's \<Rightarrow> fault + 's"
    and back_up :: "int \<Rightarrow> 's \<Rightarrow> fault + 's"
    and byte_count :: "'s \<Rightarrow> int"
  assumes next_total: "wf s \<Longrightarrow> length (sent s) < 2 ^ 30 \<Longrightarrow> \<exists>r s'. next_block s = Inr (r, s')"
    and next_size: "wf s \<Longrightarrow> length (sent s) < 2 ^ 30 \<Longrightarrow> next_block s = Inr (Some (p, n), s1) \<Longrightarrow> 0 < n"
    and next_put: "wf s \<Longrightarrow> length (sent s) < 2 ^ 30 \<Longrightarrow> next_block s = Inr (Some (p, n), s1) \<Longrightarrow> int (length bs) \<le> n \<Longrightarrow>
      \<exists>s2 s3. fill p bs s1 = Inr s2 \<and> back_up (n - int (length bs)) s2 = Inr s3 \<and> wf s3 \<and> sent s3 = sent s @ bs"
    and next_refused: "wf s \<Longrightarrow> next_block s = Inr (None, s1) \<Longrightarrow> wf s1"
    and count: "wf s \<Longrightarrow> byte_count s = int (length (sent s))"

text \<open>A client that writes some data: it fills each block it gets and gives the rest of the last one back.\<close>

function put_all ::
  "('s \<Rightarrow> fault + (int \<times> int) option \<times> 's) \<Rightarrow> (int \<Rightarrow> byte list \<Rightarrow> 's \<Rightarrow> fault + 's) \<Rightarrow> (int \<Rightarrow> 's \<Rightarrow> fault + 's) \<Rightarrow>
   byte list \<Rightarrow> 's \<Rightarrow> fault + bool \<times> 's" where
  "put_all next_block fill back_up data s =
     (if data = [] then Inr (True, s)
      else case next_block s of
        Inl e \<Rightarrow> Inl e
      | Inr (None, s1) \<Rightarrow> Inr (False, s1)
      | Inr (Some (p, n), s1) \<Rightarrow>
          if n \<le> 0 then Inl AssertFail
          else let bs = take (nat n) data in
            (case fill p bs s1 of
               Inl e \<Rightarrow> Inl e
             | Inr s2 \<Rightarrow>
                 (case back_up (n - int (length bs)) s2 of
                    Inl e \<Rightarrow> Inl e
                  | Inr s3 \<Rightarrow> put_all next_block fill back_up (drop (nat n) data) s3)))"
  by pat_completeness auto
termination
  by (relation "measure (\<lambda>(_, _, _, data, _). length data)") auto

declare put_all.simps [simp del]

context zero_copy_output
begin

lemma put_all_sends:
  "wf s \<Longrightarrow> length (sent s) + length data < 2 ^ 30 \<Longrightarrow>
    \<exists>ok s'. put_all next_block fill back_up data s = Inr (ok, s') \<and> wf s' \<and> (ok \<longrightarrow> sent s' = sent s @ data)"
proof (induction "length data" arbitrary: data s rule: less_induct)
  case less
  show ?case
  proof (cases "data = []")
    case True
    then show ?thesis using less.prems by (subst put_all.simps) (simp, blast)
  next
    case False
    have small: "length (sent s) < 2 ^ 30" using less.prems(2) by linarith
    obtain r s1 where r: "next_block s = Inr (r, s1)" using next_total [OF less.prems(1) small] by blast
    show ?thesis
    proof (cases r)
      case None
      then show ?thesis using r False next_refused [OF less.prems(1)] by (subst put_all.simps) (auto intro!: exI [of _ False])
    next
      case (Some pn)
      obtain p n where pn: "pn = (p, n)" by (cases pn)
      note step = r [unfolded Some pn]
      have n: "0 < n" by (rule next_size [OF less.prems(1) small step])
      define bs where "bs = take (nat n) data"
      have "int (length bs) \<le> n" using n by (simp add: bs_def)
      from next_put [OF less.prems(1) small step this]
      obtain s2 s3 where s3: "fill p bs s1 = Inr s2" "back_up (n - int (length bs)) s2 = Inr s3" "wf s3" "sent s3 = sent s @ bs" by blast
      have "length (drop (nat n) data) < length data" using n False by simp
      moreover have "length (sent s3) + length (drop (nat n) data) < 2 ^ 30" using s3(4) less.prems(2) by (simp add: bs_def)
      ultimately obtain ok s' where "put_all next_block fill back_up (drop (nat n) data) s3 = Inr (ok, s')" "wf s'"
          "ok \<longrightarrow> sent s' = sent s3 @ drop (nat n) data"
        using less.hyps [OF _ s3(3)] by blast
      then show ?thesis using s3 step False n
        by (subst put_all.simps) (auto simp: Let_def bs_def)
    qed
  qed
qed

end

subsection \<open>Strings keep it\<close>

definition sos_wf :: "StringOutputStream \<Rightarrow> bool" where
  "sos_wf s \<longleftrightarrow> int (length (sos_target s)) \<le> sos_capacity s"

lemma SOS_Next_outcome:
  assumes "sos_wf s" "length (sos_target s) < 2 ^ 30"
  obtains n s1 where "SOS_Next grow s = Inr (Some (int (length (sos_target s)), int n), s1)" "0 < n" "sos_wf s1"
    "sos_target s1 = sos_target s @ replicate n 0"
proof -
  let ?l = "length (sos_target s)"
  define m where "m = (if int ?l < sos_capacity s then sos_capacity s else max (int ?l * 2) 16)"
  have "to_int32 (int ?l * 2) = int ?l * 2" using assms(2) by (intro to_int32_id) simp_all
  then have nx: "SOS_Next grow s = (let s' = string_resize grow m s in Inr (Some (int ?l, int (length (sos_target s')) - int ?l), s'))"
    by (auto simp: SOS_Next_def m_def kMinimumSize_def Let_def)
  have m: "int ?l < m" by (auto simp: m_def)
  show ?thesis
  proof (rule that [of "nat m - ?l" "string_resize grow m s"])
    show "SOS_Next grow s = Inr (Some (int ?l, int (nat m - ?l)), string_resize grow m s)"
      using m by (simp add: nx string_resize_def Let_def)
  qed (use m assms(1) in \<open>auto simp: string_resize_def sos_wf_def\<close>)
qed

lemma string_output:
  "zero_copy_output sos_wf sos_target (SOS_Next grow) SOS_fill (SOS_BackUp grow) SOS_ByteCount"
proof unfold_locales
  fix s s1 :: StringOutputStream and p n and bs :: "byte list"
  assume s: "sos_wf s" and small: "length (sos_target s) < 2 ^ 30"
  show "\<exists>r s'. SOS_Next grow s = Inr (r, s')" by (simp add: SOS_Next_def Let_def)
  assume nx: "SOS_Next grow s = Inr (Some (p, n), s1)"
  obtain k where k: "p = int (length (sos_target s))" "n = int k" "0 < k" "sos_wf s1" "sos_target s1 = sos_target s @ replicate k 0"
    using SOS_Next_outcome [OF s small, of grow] nx by auto
  show "0 < n" using k by simp
  assume bs: "int (length bs) \<le> n"
  let ?s2 = "s1\<lparr>sos_target := sos_target s @ bs @ replicate (k - length bs) 0\<rparr>"
  have "SOS_fill p bs s1 = Inr ?s2" using k bs by (simp add: SOS_fill_def mem_write_def)
  moreover have "SOS_BackUp grow (n - int (length bs)) ?s2 = Inr (?s2\<lparr>sos_target := sos_target s @ bs\<rparr>)"
    using k bs by (simp add: SOS_BackUp_def string_resize_def sos_wf_def)
  moreover have "sos_wf (?s2\<lparr>sos_target := sos_target s @ bs\<rparr>)" using k bs by (simp add: sos_wf_def)
  ultimately show "\<exists>s2 s3. SOS_fill p bs s1 = Inr s2 \<and> SOS_BackUp grow (n - int (length bs)) s2 = Inr s3 \<and> sos_wf s3 \<and> sos_target s3 = sos_target s @ bs"
    by fastforce
qed (auto simp: SOS_Next_def SOS_ByteCount_def Let_def)

interpretation string_stream: zero_copy_output sos_wf sos_target "SOS_Next grow" SOS_fill "SOS_BackUp grow" SOS_ByteCount
  for grow :: "int \<Rightarrow> int \<Rightarrow> int"
  by (rule string_output)

lemma SOS_never_refuses: "put_all (SOS_Next grow) SOS_fill (SOS_BackUp grow) data s \<noteq> Inr (False, s')"
proof (induction "length data" arbitrary: data s rule: less_induct)
  case less
  obtain p n s1 where "SOS_Next grow s = Inr (Some (p, n), s1)" by (simp add: SOS_Next_def Let_def)
  then show ?case using less [of "drop (nat n) data"]
    by (subst put_all.simps) (auto simp: Let_def split: sum.split)
qed

text \<open>Everything is taken, and the string is extended by exactly the data.\<close>

lemma string_appended:
  assumes "sos_wf s" "length (sos_target s) + length data < 2 ^ 30"
  shows "\<exists>s'. put_all (SOS_Next grow) SOS_fill (SOS_BackUp grow) data s = Inr (True, s') \<and> sos_target s' = sos_target s @ data
    \<and> SOS_ByteCount s' = int (length (sos_target s) + length data)"
proof -
  obtain ok s' where s': "put_all (SOS_Next grow) SOS_fill (SOS_BackUp grow) data s = Inr (ok, s')" "ok \<longrightarrow> sos_target s' = sos_target s @ data"
    using string_stream.put_all_sends [OF assms] by blast
  moreover have ok using SOS_never_refuses s'(1) by (cases ok) simp_all
  ultimately show ?thesis by (simp add: SOS_ByteCount_def)
qed

section \<open>The adaptor keeps it\<close>

text \<open>What a stream that takes buffers has been given; after a failure, some more of the last buffer.\<close>

locale copying_output =
  fixes open_stream :: "'c \<Rightarrow> bool" and given :: "'c \<Rightarrow> byte list" and writer :: "'c writer"
  assumes write_total: "open_stream c \<Longrightarrow> \<exists>ok c'. writer b c = Inr (ok, c') \<and> open_stream c'
      \<and> (if ok then given c' = given c @ b else prefix (given c) (given c') \<and> prefix (given c') (given c @ b))"
begin

definition coa_wf :: "'c CopyingOutputAdaptor \<Rightarrow> bool" where
  "coa_wf s \<longleftrightarrow> open_stream (coa_stream s) \<and> 0 < coa_buffer_size s \<and> 0 \<le> coa_used s \<and> coa_used s \<le> coa_buffer_size s \<and> 0 \<le> coa_position s
     \<and> coa_position s \<le> int (length (given (coa_stream s)))
     \<and> (case coa_buffer s of None \<Rightarrow> coa_used s = 0 | Some buf \<Rightarrow> int (length buf) = coa_buffer_size s)
     \<and> (\<not> coa_failed s \<longrightarrow> coa_position s = int (length (given (coa_stream s))))"

definition coa_sent :: "'c CopyingOutputAdaptor \<Rightarrow> byte list" where
  "coa_sent s = take (nat (coa_position s)) (given (coa_stream s)) @ take (nat (coa_used s)) (coa_memory s)"

lemma coa_count: "coa_wf s \<Longrightarrow> COA_ByteCount s = int (length (coa_sent s))"
  by (auto simp: coa_wf_def coa_sent_def COA_ByteCount_def coa_memory_def split: option.splits)

lemma COA_WriteBuffer_outcome:
  assumes "coa_wf s"
  obtains s' where "COA_WriteBuffer writer s = Inr (True, s')" "coa_wf s'" "coa_sent s' = coa_sent s" "coa_used s' = 0"
      "\<not> coa_failed s'" "coa_buffer_size s' = coa_buffer_size s" "given (coa_stream s') = coa_sent s"
  | s' where "COA_WriteBuffer writer s = Inr (False, s')" "coa_wf s'" "coa_failed s'" "coa_failed s \<longrightarrow> s' = s"
      "\<not> coa_failed s \<longrightarrow> prefix (given (coa_stream s')) (coa_sent s)"
proof -
  have s: "open_stream (coa_stream s)" "0 \<le> coa_used s" "0 \<le> coa_position s" using assms by (simp_all add: coa_wf_def)
  consider (bad) "coa_failed s" | (empty) "\<not> coa_failed s" "coa_used s = 0" | (full) "\<not> coa_failed s" "0 < coa_used s"
    using s(2) by fastforce
  then show thesis
  proof cases
    case bad
    then show ?thesis using that(2) [of s] assms by (simp add: COA_WriteBuffer_def)
  next
    case empty
    then have "COA_WriteBuffer writer s = Inr (True, s)" "given (coa_stream s) = coa_sent s"
      using assms by (simp_all add: COA_WriteBuffer_def coa_wf_def coa_sent_def)
    then show ?thesis using that(1) [of s] assms empty by blast
  next
    case full
    let ?b = "take (nat (coa_used s)) (coa_memory s)"
    have pos: "coa_position s = int (length (given (coa_stream s)))" using assms full by (simp add: coa_wf_def)
    then have sent: "coa_sent s = given (coa_stream s) @ ?b" by (simp add: coa_sent_def)
    have len: "int (length ?b) = coa_used s" using assms full by (auto simp: coa_wf_def coa_memory_def split: option.splits)
    obtain ok c where c: "writer ?b (coa_stream s) = Inr (ok, c)" "open_stream c"
      "if ok then given c = given (coa_stream s) @ ?b else prefix (given (coa_stream s)) (given c) \<and> prefix (given c) (given (coa_stream s) @ ?b)"
      using write_total [OF s(1)] by blast
    show ?thesis
    proof (cases ok)
      case True
      let ?s = "s\<lparr>coa_stream := c, coa_position := coa_position s + coa_used s, coa_used := 0\<rparr>"
      have lg: "int (length (given c)) = int (length (given (coa_stream s))) + coa_used s" using c(3) True len by simp
      then have "nat (coa_position s + coa_used s) = length (given c)" using pos by simp
      then have "coa_sent ?s = given c" by (simp add: coa_sent_def)
      moreover have "given c = coa_sent s" using c(3) True sent by simp
      moreover have "COA_WriteBuffer writer s = Inr (True, ?s)" using True full c(1) by (simp add: COA_WriteBuffer_def)
      moreover have "coa_wf ?s" using assms c(2) lg pos s(2,3) by (simp add: coa_wf_def split: option.splits)
      ultimately show ?thesis using that(1) [of ?s] full by simp
    next
      case False
      let ?s = "COA_FreeBuffer (s\<lparr>coa_stream := c, coa_failed := True\<rparr>)"
      have "length (given (coa_stream s)) \<le> length (given c)" using c(3) False by (auto dest: prefix_length_le)
      then have "coa_wf ?s" using assms c(2) pos by (simp add: coa_wf_def COA_FreeBuffer_def)
      moreover have "COA_WriteBuffer writer s = Inr (False, ?s)" using False full c(1) by (simp add: COA_WriteBuffer_def)
      moreover have "prefix (given (coa_stream ?s)) (coa_sent s)" using c(3) False sent by (simp add: COA_FreeBuffer_def)
      ultimately show ?thesis using that(2) [of ?s] full by (simp add: COA_FreeBuffer_def)
    qed
  qed
qed

lemma coa_next_step:
  assumes s1: "coa_wf s1" "coa_used s1 < coa_buffer_size s1" and fits: "int (length bs) \<le> coa_buffer_size s1 - coa_used s1"
  obtains s2 s3 where "COA_fill (coa_used s1) bs ((COA_AllocateBufferIfNeeded s1)\<lparr>coa_used := coa_buffer_size s1\<rparr>) = Inr s2"
    "COA_BackUp (coa_buffer_size s1 - coa_used s1 - int (length bs)) s2 = Inr s3" "coa_wf s3" "coa_sent s3 = coa_sent s1 @ bs"
proof -
  let ?a = "COA_AllocateBufferIfNeeded s1"
  obtain buf where buf: "coa_buffer ?a = Some buf" "int (length buf) = coa_buffer_size s1"
    "take (nat (coa_used s1)) buf = take (nat (coa_used s1)) (coa_memory s1)"
    using s1(1) by (cases "coa_buffer s1") (auto simp: COA_AllocateBufferIfNeeded_def coa_wf_def coa_memory_def)
  have a: "coa_used ?a = coa_used s1" "coa_buffer_size ?a = coa_buffer_size s1" "coa_stream ?a = coa_stream s1" "coa_position ?a = coa_position s1"
    "coa_failed ?a = coa_failed s1"
    by (simp_all add: COA_AllocateBufferIfNeeded_def)
  define buf' where "buf' = take (nat (coa_used s1)) buf @ bs @ drop (nat (coa_used s1) + length bs) buf"
  let ?s2 = "?a\<lparr>coa_used := coa_buffer_size s1, coa_buffer := Some buf'\<rparr>"
  let ?s3 = "?s2\<lparr>coa_used := coa_used s1 + int (length bs)\<rparr>"
  have u: "0 \<le> coa_used s1" using s1(1) by (simp add: coa_wf_def)
  have n: "nat (coa_used s1 + int (length bs)) = nat (coa_used s1) + length bs" "nat (coa_used s1) \<le> length buf"
    using u buf(2) s1(2) by (simp_all add: nat_add_distrib)
  show ?thesis
  proof (rule that [of ?s2 ?s3])
    show "COA_fill (coa_used s1) bs (?a\<lparr>coa_used := coa_buffer_size s1\<rparr>) = Inr ?s2"
      using buf(1,2) fits u by (simp add: COA_fill_def coa_memory_def mem_write_def buf'_def)
    show "COA_BackUp (coa_buffer_size s1 - coa_used s1 - int (length bs)) ?s2 = Inr ?s3"
      using fits u by (simp add: COA_BackUp_def a)
    have "int (length buf') = coa_buffer_size s1" using fits u buf(2) n by (simp add: buf'_def)
    then show "coa_wf ?s3" using s1 fits u by (simp add: coa_wf_def a)
    have "nat (coa_used s1) \<le> length (coa_memory s1)"
      using s1 by (auto simp: coa_wf_def coa_memory_def split: option.splits)
    then show "coa_sent ?s3 = coa_sent s1 @ bs"
      using n buf(3) by (simp add: coa_sent_def coa_memory_def a buf'_def)
  qed
qed

lemma output_adaptor: "zero_copy_output coa_wf coa_sent (COA_Next writer) COA_fill COA_BackUp COA_ByteCount"
proof unfold_locales
  fix s s1 :: "'c CopyingOutputAdaptor" and p n and bs :: "byte list"
  show "COA_ByteCount s = int (length (coa_sent s))" if "coa_wf s" by (rule coa_count [OF that])
  assume s: "coa_wf s"
  obtain ok s0 where s0: "(if coa_used s = coa_buffer_size s then COA_WriteBuffer writer s else Inr (True, s)) = Inr (ok, s0)" "coa_wf s0"
    "ok \<Longrightarrow> coa_sent s0 = coa_sent s \<and> coa_used s0 < coa_buffer_size s0"
  proof (cases "coa_used s = coa_buffer_size s")
    case True
    show ?thesis
    proof (rule COA_WriteBuffer_outcome [OF s])
      fix s'
      assume w: "COA_WriteBuffer writer s = Inr (True, s')" "coa_wf s'" "coa_sent s' = coa_sent s" "coa_used s' = 0"
      then show ?thesis using that [of True s'] True by (simp add: coa_wf_def)
    next
      fix s'
      assume "COA_WriteBuffer writer s = Inr (False, s')" "coa_wf s'"
      then show ?thesis using that [of False s'] True by simp
    qed
  next
    case False
    then show ?thesis using that [of True s] s by (simp add: coa_wf_def)
  qed
  have nxt: "COA_Next writer s = (if \<not> ok then Inr (None, s0) else
      Inr (Some (coa_used s0, coa_buffer_size s0 - coa_used s0), (COA_AllocateBufferIfNeeded s0)\<lparr>coa_used := coa_buffer_size s0\<rparr>))"
    by (simp add: COA_Next_def s0(1) COA_AllocateBufferIfNeeded_def Let_def)
  show "\<exists>r s'. COA_Next writer s = Inr (r, s')" by (simp add: nxt)
  show "coa_wf s1" if "COA_Next writer s = Inr (None, s1)" using that s0(2) by (simp add: nxt split: if_splits)
  assume nx: "COA_Next writer s = Inr (Some (p, n), s1)"
  then have ok: ok "p = coa_used s0" "n = coa_buffer_size s0 - coa_used s0" "s1 = (COA_AllocateBufferIfNeeded s0)\<lparr>coa_used := coa_buffer_size s0\<rparr>"
    by (simp_all add: nxt split: if_splits)
  show "0 < n" using ok s0(3) by simp
  assume "int (length bs) \<le> n"
  then show "\<exists>s2 s3. COA_fill p bs s1 = Inr s2 \<and> COA_BackUp (n - int (length bs)) s2 = Inr s3 \<and> coa_wf s3 \<and> coa_sent s3 = coa_sent s @ bs"
    using s0(3) ok by (auto elim!: coa_next_step [OF s0(2)])
qed

text \<open>A flush that succeeds has handed over everything; one that fails has handed over a part of it, from its start.\<close>

lemma COA_Flush_hands_over:
  assumes "coa_wf s" "COA_Flush writer s = Inr (ok, s')"
  shows "coa_wf s' \<and> (ok \<longrightarrow> given (coa_stream s') = coa_sent s) \<and> (\<not> ok \<and> \<not> coa_failed s \<longrightarrow> prefix (given (coa_stream s')) (coa_sent s))"
  by (rule COA_WriteBuffer_outcome [OF assms(1)]) (use assms(2) in \<open>auto simp: COA_Flush_def\<close>)

end

section \<open>Files and C++ streams keep it\<close>

lemma write_no_eintr_outcome:
  assumes "write_no_eintr bs f = (n, e, f')" "bs \<noteq> []"
  shows "if 0 < n then n \<le> int (length bs) \<and> o_written f' = o_written f @ take (nat n) bs else o_written f' = o_written f"
  using assms
proof (induction "length (o_replies f)" arbitrary: f rule: less_induct)
  case less
  have once: ?case if "write_no_eintr bs f = sys_write bs f"
    using less.prems that by (auto simp: sys_write_def Let_def min_def nat_add_distrib split: list.splits write_reply.splits if_splits)
  show ?case
  proof (cases "o_replies f")
    case Nil
    then show ?thesis using less.prems(2)
      by (intro once, subst write_no_eintr.simps) (simp add: sys_write_def)
  next
    case (Cons r rs)
    show ?thesis
    proof (cases "r = WInterrupted")
      case True
      have "write_no_eintr bs f = write_no_eintr bs (f\<lparr>o_replies := rs\<rparr>)"
        by (subst write_no_eintr.simps) (simp add: sys_write_def Cons True)
      then show ?thesis using less.hyps [of "f\<lparr>o_replies := rs\<rparr>"] less.prems Cons by simp
    next
      case False
      then show ?thesis using less.prems(2) Cons
        by (intro once, subst write_no_eintr.simps) (auto simp: sys_write_def Let_def split: write_reply.splits)
    qed
  qed
qed

lemma write_loop_outcome:
  assumes "write_loop b (int k) f = ((ok, e), f')" "k \<le> length b"
  shows "if ok then o_written f' = o_written f @ drop k b
    else prefix (o_written f) (o_written f') \<and> prefix (o_written f') (o_written f @ drop k b)"
  using assms
proof (induction "length b - k" arbitrary: k f rule: less_induct)
  case less
  show ?case
  proof (cases "k < length b")
    case False
    then show ?thesis using less.prems by (subst (asm) write_loop.simps) simp
  next
    case True
    obtain n e1 f1 where w: "write_no_eintr (drop k b) f = (n, e1, f1)" by (metis prod_cases3)
    note out = write_no_eintr_outcome [OF w]
    show ?thesis
    proof (cases "n \<le> 0")
      case stop: True
      then show ?thesis using less.prems(1) True w out by (subst (asm) write_loop.simps) simp
    next
      case False
      define m where "m = nat n"
      have m: "n = int m" "0 < m" "m \<le> length b - k" "o_written f1 = o_written f @ take m (drop k b)"
        using False out True by (auto simp: m_def)
      have "write_loop b (int (k + m)) f1 = ((ok, e), f')"
        using less.prems(1) True w m(1,2) by (subst (asm) write_loop.simps) simp
      moreover have "length b - (k + m) < length b - k" "k + m \<le> length b" using m True by linarith+
      ultimately have ih: "if ok then o_written f' = o_written f1 @ drop (k + m) b
        else prefix (o_written f1) (o_written f') \<and> prefix (o_written f') (o_written f1 @ drop (k + m) b)"
        using less.hyps by blast
      have "take m (drop k b) @ drop (k + m) b = drop k b" by (metis add.commute append_take_drop_id drop_drop)
      then have "o_written f1 @ drop (k + m) b = o_written f @ drop k b" by (simp add: m(4))
      then show ?thesis using ih m(4) by (auto split: if_splits dest: append_prefixD)
    qed
  qed
qed

interpretation file_writer: copying_output "\<lambda>s. \<not> cfo_is_closed s" "\<lambda>s. o_written (cfo_file s)" CFO_Write
proof unfold_locales
  fix c :: CopyingFileOutputStream and b
  assume c: "\<not> cfo_is_closed c"
  obtain ok e f where w: "write_loop b 0 (cfo_file c) = ((ok, e), f)" by (metis prod.exhaust)
  then show "\<exists>ok c'. CFO_Write b c = Inr (ok, c') \<and> \<not> cfo_is_closed c'
      \<and> (if ok then o_written (cfo_file c') = o_written (cfo_file c) @ b
         else prefix (o_written (cfo_file c)) (o_written (cfo_file c')) \<and> prefix (o_written (cfo_file c')) (o_written (cfo_file c) @ b))"
    using c write_loop_outcome [of b 0 "cfo_file c" ok e f] by (auto simp: CFO_Write_def)
qed

interpretation ostream_writer: copying_output "\<lambda>_. True" os_written CopyingOstream_Write
  by unfold_locales (auto simp: CopyingOstream_Write_def ostream_write_def Let_def take_is_prefix split: option.split)

interpretation file_output: zero_copy_output file_writer.coa_wf file_writer.coa_sent FileOutputStream_Next COA_fill FileOutputStream_BackUp
  FileOutputStream_ByteCount
  unfolding FileOutputStream_Next_def FileOutputStream_BackUp_def FileOutputStream_ByteCount_def by (rule file_writer.output_adaptor)

interpretation ostream_output: zero_copy_output ostream_writer.coa_wf ostream_writer.coa_sent OstreamOutputStream_Next COA_fill
  OstreamOutputStream_BackUp OstreamOutputStream_ByteCount
  unfolding OstreamOutputStream_Next_def OstreamOutputStream_BackUp_def OstreamOutputStream_ByteCount_def by (rule ostream_writer.output_adaptor)

subsection \<open>Closing a file\<close>

text \<open>When closing a file says that it has worked, the file holds exactly what the client sent.\<close>

lemma file_closed_complete:
  assumes "o_written f = []" "length data < 2 ^ 30"
    and "put_all FileOutputStream_Next COA_fill FileOutputStream_BackUp data (FileOutputStream_new f block_size) = Inr (True, s)"
    and "FileOutputStream_Close ok closes s = Inr (True, s')"
  shows "o_written (cfo_file (coa_stream s')) = data"
proof -
  have new: "file_writer.coa_wf (FileOutputStream_new f block_size)" "file_writer.coa_sent (FileOutputStream_new f block_size) = []"
    using assms(1) by (simp_all add: FileOutputStream_new_def COA_new_def CFO_new_def file_writer.coa_wf_def file_writer.coa_sent_def
        coa_memory_def kDefaultBlockSize_def)
  then have s: "file_writer.coa_wf s" "file_writer.coa_sent s = data" using file_output.put_all_sends [OF new(1), of data] assms(2,3) by auto
  obtain s1 c where "COA_Flush CFO_Write s = Inr (True, s1)" "CFO_Close ok closes (coa_stream s1) = Inr (True, c)" "s' = s1\<lparr>coa_stream := c\<rparr>"
    using assms(4) by (auto simp: FileOutputStream_Close_def split: sum.splits)
  moreover have "cfo_file c = cfo_file (coa_stream s1)" using calculation(2) by (auto simp: CFO_Close_def Let_def split: if_splits)
  ultimately show ?thesis using file_writer.COA_Flush_hands_over [OF s(1)] s(2) by force
qed

text \<open>
  Although errors of an output stream should be permanent, \<^verbatim>\<open>Next\<close> hands out memory again after it has
  failed once, and what is written there is lost.
\<close>

lemma COA_Next_after_failure:
  "let s = FileOutputStream_new \<lparr>o_written = [], o_replies = [WriteError]\<rparr> 1 in
   case FileOutputStream_Next s of Inr (Some _, s1) \<Rightarrow>
     (case FileOutputStream_Next s1 of Inr (None, s2) \<Rightarrow>
        (case FileOutputStream_Next s2 of Inr (Some (_, n), s3) \<Rightarrow> n = 1 \<and> o_written (cfo_file (coa_stream s3)) = [] | _ \<Rightarrow> False)
      | _ \<Rightarrow> False)
   | _ \<Rightarrow> False"
  by code_simp

end
