(* ===== verification/Repeated_Field.thy ===== *)
theory Repeated_Field
  imports Prelude
begin

text \<open>
  Repeated fields of primitive values (\<^verbatim>\<open>RepeatedField\<close> of \<^verbatim>\<open>repeated_field.h\<close>): an array that grows by doubling and
  of which a part is in use. What \<^verbatim>\<open>new\<close> has not initialised is \<open>None\<close>. The checks that only a build with
  debugging makes fault here.
\<close>

section \<open>Operations\<close>

record 'a RepeatedField =
  rf_elements :: "'a option list"
  rf_current :: int
  rf_total :: int

definition kMinRepeatedFieldAllocationSize :: int where
  "kMinRepeatedFieldAllocationSize = 4"

text \<open>The size that an array grows to; doubling an \<^verbatim>\<open>int\<close> wraps.\<close>

definition grown_size :: "int \<Rightarrow> int \<Rightarrow> int" where
  "grown_size old_total new_size = max kMinRepeatedFieldAllocationSize (max (to_int32 (old_total * 2)) new_size)"

definition RF_new :: "'a RepeatedField" where
  "RF_new = \<lparr>rf_elements = [], rf_current = 0, rf_total = 0\<rparr>"

definition RF_size :: "'a RepeatedField \<Rightarrow> int" where
  "RF_size r = rf_current r"

definition RF_Capacity :: "'a RepeatedField \<Rightarrow> int" where
  "RF_Capacity r = rf_total r"

definition RF_Reserve :: "int \<Rightarrow> 'a RepeatedField \<Rightarrow> 'a RepeatedField" where
  "RF_Reserve new_size r =
     (if rf_total r \<ge> new_size then r
      else
        let new_total = grown_size (rf_total r) new_size; moved = take (nat (rf_current r)) (rf_elements r) in
        r\<lparr>rf_total := new_total, rf_elements := moved @ replicate (nat new_total - length moved) None\<rparr>)"

definition RF_Get :: "int \<Rightarrow> 'a RepeatedField \<Rightarrow> fault + 'a" where
  "RF_Get index r =
     (if \<not> index < RF_size r then Inl AssertFail
      else case arr_get (rf_elements r) index of
        Inl e \<Rightarrow> Inl e | Inr None \<Rightarrow> Inl UninitRead | Inr (Some x) \<Rightarrow> Inr x)"

definition RF_Mutable :: "int \<Rightarrow> 'a RepeatedField \<Rightarrow> fault + int" where
  "RF_Mutable index r = (if \<not> index < RF_size r then Inl AssertFail else Inr index)"

definition rf_store :: "int \<Rightarrow> 'a \<Rightarrow> 'a RepeatedField \<Rightarrow> fault + 'a RepeatedField" where
  "rf_store index x r =
     (case arr_set (rf_elements r) index (Some x) of Inl e \<Rightarrow> Inl e | Inr es \<Rightarrow> Inr (r\<lparr>rf_elements := es\<rparr>))"

definition RF_Set :: "int \<Rightarrow> 'a \<Rightarrow> 'a RepeatedField \<Rightarrow> fault + 'a RepeatedField" where
  "RF_Set index x r = (if \<not> index < RF_size r then Inl AssertFail else rf_store index x r)"

definition rf_push :: "'a \<Rightarrow> 'a RepeatedField \<Rightarrow> fault + 'a RepeatedField" where
  "rf_push x r = (case rf_store (rf_current r) x r of Inl e \<Rightarrow> Inl e | Inr r' \<Rightarrow> Inr (r'\<lparr>rf_current := rf_current r + 1\<rparr>))"

definition RF_AddAlreadyReserved :: "'a \<Rightarrow> 'a RepeatedField \<Rightarrow> fault + 'a RepeatedField" where
  "RF_AddAlreadyReserved x r = (if \<not> RF_size r < RF_Capacity r then Inl AssertFail else rf_push x r)"

definition RF_Add :: "'a \<Rightarrow> 'a RepeatedField \<Rightarrow> fault + 'a RepeatedField" where
  "RF_Add x r = rf_push x (if rf_current r = rf_total r then RF_Reserve (rf_total r + 1) r else r)"

text \<open>The form that returns a pointer leaves the element as it is.\<close>

definition RF_Add_element :: "'a RepeatedField \<Rightarrow> int \<times> 'a RepeatedField" where
  "RF_Add_element r =
     (let r' = (if rf_current r = rf_total r then RF_Reserve (rf_total r + 1) r else r) in
      (rf_current r', r'\<lparr>rf_current := rf_current r' + 1\<rparr>))"

definition RF_RemoveLast :: "'a RepeatedField \<Rightarrow> fault + 'a RepeatedField" where
  "RF_RemoveLast r = (if \<not> rf_current r > 0 then Inl AssertFail else Inr (r\<lparr>rf_current := rf_current r - 1\<rparr>))"

definition RF_Truncate :: "int \<Rightarrow> 'a RepeatedField \<Rightarrow> fault + 'a RepeatedField" where
  "RF_Truncate new_size r = (if \<not> new_size \<le> rf_current r then Inl AssertFail else Inr (r\<lparr>rf_current := new_size\<rparr>))"

text \<open>The two loops of \<^verbatim>\<open>ExtractSubrange\<close>: saving the elements, and closing the gap.\<close>

primrec rf_get_range :: "nat \<Rightarrow> int \<Rightarrow> 'a RepeatedField \<Rightarrow> fault + 'a list" where
  "rf_get_range 0 start r = Inr []"
| "rf_get_range (Suc n) start r =
     (case RF_Get start r of
        Inl e \<Rightarrow> Inl e
      | Inr x \<Rightarrow> (case rf_get_range n (start + 1) r of Inl e \<Rightarrow> Inl e | Inr xs \<Rightarrow> Inr (x # xs)))"

primrec rf_slide :: "nat \<Rightarrow> int \<Rightarrow> int \<Rightarrow> 'a RepeatedField \<Rightarrow> fault + 'a RepeatedField" where
  "rf_slide 0 i num r = Inr r"
| "rf_slide (Suc n) i num r =
     (case RF_Get i r of
        Inl e \<Rightarrow> Inl e
      | Inr x \<Rightarrow> (case RF_Set (i - num) x r of Inl e \<Rightarrow> Inl e | Inr r' \<Rightarrow> rf_slide n (i + 1) num r'))"

definition RF_ExtractSubrange :: "int \<Rightarrow> int \<Rightarrow> bool \<Rightarrow> 'a RepeatedField \<Rightarrow> fault + 'a list \<times> 'a RepeatedField" where
  "RF_ExtractSubrange start num wanted r =
     (if \<not> start \<ge> 0 \<or> \<not> num \<ge> 0 \<or> \<not> start + num \<le> RF_size r then Inl AssertFail
      else
        (case (if wanted then rf_get_range (nat num) start r else Inr []) of
           Inl e \<Rightarrow> Inl e
         | Inr elements \<Rightarrow>
             if num > 0 then
               (case rf_slide (nat (RF_size r - (start + num))) (start + num) num r of
                  Inl e \<Rightarrow> Inl e
                | Inr r' \<Rightarrow> (case RF_Truncate (RF_size r' - num) r' of Inl e \<Rightarrow> Inl e | Inr r'' \<Rightarrow> Inr (elements, r'')))
             else Inr (elements, r)))"

definition RF_Clear :: "'a RepeatedField \<Rightarrow> 'a RepeatedField" where
  "RF_Clear r = r\<lparr>rf_current := 0\<rparr>"

definition copy_array :: "'a list \<Rightarrow> int \<Rightarrow> 'a list \<Rightarrow> int \<Rightarrow> fault + 'a list" where
  "copy_array to at from_array n =
     (if 0 \<le> at \<and> 0 \<le> n \<and> n \<le> int (length from_array) \<and> at + n \<le> int (length to)
      then Inr (take (nat at) to @ take (nat n) from_array @ drop (nat (at + n)) to) else Inl OutOfBounds)"

definition RF_MergeFrom :: "'a RepeatedField \<Rightarrow> 'a RepeatedField \<Rightarrow> fault + 'a RepeatedField" where
  "RF_MergeFrom other r =
     (if rf_current other \<noteq> 0 then
        let r' = RF_Reserve (rf_current r + rf_current other) r in
        (case copy_array (rf_elements r') (rf_current r') (rf_elements other) (rf_current other) of
           Inl e \<Rightarrow> Inl e
         | Inr es \<Rightarrow> Inr (r'\<lparr>rf_elements := es, rf_current := rf_current r' + rf_current other\<rparr>))
      else Inr r)"

definition RF_CopyFrom :: "'a RepeatedField \<Rightarrow> 'a RepeatedField \<Rightarrow> fault + 'a RepeatedField" where
  "RF_CopyFrom other r = RF_MergeFrom other (RF_Clear r)"

definition RF_copy :: "'a RepeatedField \<Rightarrow> fault + 'a RepeatedField" where
  "RF_copy other = RF_CopyFrom other RF_new"

primrec rf_add_all :: "'a list \<Rightarrow> 'a RepeatedField \<Rightarrow> fault + 'a RepeatedField" where
  "rf_add_all [] r = Inr r"
| "rf_add_all (x # xs) r = (case RF_Add x r of Inl e \<Rightarrow> Inl e | Inr r' \<Rightarrow> rf_add_all xs r')"

definition RF_from_range :: "'a list \<Rightarrow> fault + 'a RepeatedField" where
  "RF_from_range xs = rf_add_all xs RF_new"

text \<open>Assigning a field to itself does nothing; \<open>same\<close> says that the two are one object.\<close>

definition RF_assign :: "bool \<Rightarrow> 'a RepeatedField \<Rightarrow> 'a RepeatedField \<Rightarrow> fault + 'a RepeatedField" where
  "RF_assign same other r = (if \<not> same then RF_CopyFrom other r else Inr r)"

definition RF_Swap :: "'a RepeatedField \<Rightarrow> 'a RepeatedField \<Rightarrow> 'a RepeatedField \<times> 'a RepeatedField" where
  "RF_Swap r other =
     (r\<lparr>rf_elements := rf_elements other, rf_current := rf_current other, rf_total := rf_total other\<rparr>,
      other\<lparr>rf_elements := rf_elements r, rf_current := rf_current r, rf_total := rf_total r\<rparr>)"

definition array_swap :: "'a list \<Rightarrow> int \<Rightarrow> int \<Rightarrow> fault + 'a list" where
  "array_swap es i j =
     (case arr_get es i of
        Inl e \<Rightarrow> Inl e
      | Inr x \<Rightarrow>
          (case arr_get es j of
             Inl e \<Rightarrow> Inl e
           | Inr y \<Rightarrow> (case arr_set es i y of Inl e \<Rightarrow> Inl e | Inr es' \<Rightarrow> arr_set es' j x)))"

definition RF_SwapElements :: "int \<Rightarrow> int \<Rightarrow> 'a RepeatedField \<Rightarrow> fault + 'a RepeatedField" where
  "RF_SwapElements index1 index2 r =
     (case array_swap (rf_elements r) index1 index2 of Inl e \<Rightarrow> Inl e | Inr es \<Rightarrow> Inr (r\<lparr>rf_elements := es\<rparr>))"

section \<open>A repeated field is a list\<close>

definition rf_ok :: "'a RepeatedField \<Rightarrow> bool" where
  "rf_ok r \<longleftrightarrow> 0 \<le> rf_current r \<and> rf_current r \<le> rf_total r \<and> rf_total r = int (length (rf_elements r))
     \<and> None \<notin> set (take (nat (rf_current r)) (rf_elements r))"

definition rf_list :: "'a RepeatedField \<Rightarrow> 'a list" where
  "rf_list r = map the (take (nat (rf_current r)) (rf_elements r))"

text \<open>In a good field the used part of the array is the list.\<close>

lemma rf_okE:
  assumes "rf_ok r"
  obtains xs junk where "rf_elements r = map Some xs @ junk" "rf_current r = int (length xs)" "rf_total r = int (length xs + length junk)"
    "rf_list r = xs"
proof -
  let ?u = "take (nat (rf_current r)) (rf_elements r)"
  have "map Some (map the ?u) = ?u"
    using assms by (auto simp: rf_ok_def intro!: map_idI option.collapse) (metis not_None_eq)
  then obtain junk where e: "rf_elements r = map Some (rf_list r) @ junk"
    unfolding rf_list_def by (metis append_take_drop_id)
  moreover have "int (length (rf_list r)) = rf_current r" using assms by (auto simp: rf_ok_def rf_list_def)
  moreover have "rf_total r = int (length (rf_elements r))" using assms by (simp add: rf_ok_def)
  ultimately show ?thesis using that [of "rf_list r" junk] by simp
qed

lemma rf_okI:
  "rf_elements r = map Some xs @ junk \<Longrightarrow> rf_current r = int (length xs) \<Longrightarrow> rf_total r = int (length xs + length junk) \<Longrightarrow>
    rf_ok r \<and> rf_list r = xs"
  by (auto simp: rf_ok_def rf_list_def comp_def)

lemma grown_size_fits: "n \<le> grown_size old n"
  by (simp add: grown_size_def)

lemma RF_Reserve_list:
  assumes "rf_ok r"
  shows "rf_ok (RF_Reserve n r)" "rf_list (RF_Reserve n r) = rf_list r" "n \<le> rf_total (RF_Reserve n r)"
    "rf_current (RF_Reserve n r) = rf_current r"
proof -
  obtain xs junk where r: "rf_elements r = map Some xs @ junk" "rf_current r = int (length xs)" "rf_total r = int (length xs + length junk)" "rf_list r = xs"
    by (rule rf_okE [OF assms])
  show "n \<le> rf_total (RF_Reserve n r)" "rf_current (RF_Reserve n r) = rf_current r"
    using grown_size_fits by (auto simp: RF_Reserve_def Let_def)
  have "rf_ok (RF_Reserve n r) \<and> rf_list (RF_Reserve n r) = xs"
  proof (cases "rf_total r \<ge> n")
    case False
    let ?t = "grown_size (rf_total r) n"
    have "int (length xs) \<le> ?t" using False r(3) grown_size_fits [of n "rf_total r"] by linarith
    then show ?thesis
      using False r by (intro rf_okI [where junk = "replicate (nat ?t - length xs) None"]) (auto simp: RF_Reserve_def Let_def)
  qed (use assms r in \<open>simp add: RF_Reserve_def\<close>)
  then show "rf_ok (RF_Reserve n r)" "rf_list (RF_Reserve n r) = rf_list r" using r(4) by simp_all
qed

lemma RF_Get_list: "rf_ok r \<Longrightarrow> i < length (rf_list r) \<Longrightarrow> RF_Get (int i) r = Inr (rf_list r ! i)"
  by (erule rf_okE) (auto simp: RF_Get_def RF_size_def arr_get_def nth_append)

lemma rf_store_list:
  "rf_ok r \<Longrightarrow> i < length (rf_list r) \<Longrightarrow> \<exists>r'. rf_store (int i) x r = Inr r' \<and> rf_ok r' \<and> rf_list r' = (rf_list r)[i := x]
    \<and> rf_current r' = rf_current r"
proof (erule rf_okE)
  fix xs junk
  assume "i < length (rf_list r)" "rf_elements r = map Some xs @ junk" "rf_current r = int (length xs)" "rf_total r = int (length xs + length junk)" "rf_list r = xs"
  then show ?thesis
    using rf_okI [of "r\<lparr>rf_elements := map Some (xs[i := x]) @ junk\<rparr>" "xs[i := x]" junk]
    by (auto simp: rf_store_def arr_set_def list_update_append map_update)
qed

lemma RF_size_list: "rf_ok r \<Longrightarrow> RF_size r = int (length (rf_list r))"
  by (erule rf_okE) (simp add: RF_size_def)

lemma rf_push_list:
  assumes "rf_ok r" "rf_current r < rf_total r"
  shows "\<exists>r'. rf_push x r = Inr r' \<and> rf_ok r' \<and> rf_list r' = rf_list r @ [x]"
proof -
  obtain xs junk where r: "rf_elements r = map Some xs @ junk" "rf_current r = int (length xs)" "rf_total r = int (length xs + length junk)" "rf_list r = xs"
    by (rule rf_okE [OF assms(1)])
  then obtain y rest where "junk = y # rest" using assms(2) by (cases junk) auto
  then show ?thesis
    using r rf_okI [of "r\<lparr>rf_elements := map Some (xs @ [x]) @ rest, rf_current := rf_current r + 1\<rparr>" "xs @ [x]" rest]
    by (auto simp: rf_push_def rf_store_def arr_set_def list_update_append)
qed

lemma RF_Add_list: "rf_ok r \<Longrightarrow> \<exists>r'. RF_Add x r = Inr r' \<and> rf_ok r' \<and> rf_list r' = rf_list r @ [x]"
proof -
  assume r: "rf_ok r"
  let ?r = "if rf_current r = rf_total r then RF_Reserve (rf_total r + 1) r else r"
  have "rf_ok ?r" "rf_list ?r = rf_list r" "rf_current ?r < rf_total ?r"
    using r RF_Reserve_list [OF r, of "rf_total r + 1"] by (auto simp: rf_ok_def)
  then show ?thesis using rf_push_list [of ?r x] by (simp add: RF_Add_def)
qed

lemma RF_MergeFrom_list:
  assumes "rf_ok r" "rf_ok other"
  shows "\<exists>r'. RF_MergeFrom other r = Inr r' \<and> rf_ok r' \<and> rf_list r' = rf_list r @ rf_list other"
proof (cases "rf_current other = 0")
  case True
  then show ?thesis using assms by (auto simp: RF_MergeFrom_def rf_list_def)
next
  case False
  let ?r = "RF_Reserve (rf_current r + rf_current other) r"
  obtain ys junk2 where o: "rf_elements other = map Some ys @ junk2" "rf_current other = int (length ys)" "rf_list other = ys"
    by (rule rf_okE [OF assms(2)])
  obtain xs junk where r: "rf_elements ?r = map Some xs @ junk" "rf_current ?r = int (length xs)" "rf_total ?r = int (length xs + length junk)" "rf_list ?r = xs"
    by (rule rf_okE [OF RF_Reserve_list(1) [OF assms(1)]])
  note res = RF_Reserve_list [OF assms(1), of "rf_current r + rf_current other"]
  have fits: "length ys \<le> length junk" using res(3,4) r(2,3) o(2) by simp
  let ?es = "map Some (xs @ ys) @ drop (length ys) junk"
  have "copy_array (rf_elements ?r) (rf_current ?r) (rf_elements other) (rf_current other) = Inr ?es"
    using r o fits by (simp add: copy_array_def nat_add_distrib)
  moreover have "rf_ok (?r\<lparr>rf_elements := ?es, rf_current := rf_current ?r + rf_current other\<rparr>)
      \<and> rf_list (?r\<lparr>rf_elements := ?es, rf_current := rf_current ?r + rf_current other\<rparr>) = xs @ ys"
    by (rule rf_okI [where junk = "drop (length ys) junk"]) (use r o fits in auto)
  ultimately show ?thesis using False o(3) r(4) res(2) by (simp add: RF_MergeFrom_def Let_def)
qed

lemma RF_Clear_list: "rf_ok r \<Longrightarrow> rf_ok (RF_Clear r) \<and> rf_list (RF_Clear r) = []"
  by (simp add: rf_ok_def rf_list_def RF_Clear_def)

lemma RF_Truncate_list:
  "rf_ok r \<Longrightarrow> n \<le> length (rf_list r) \<Longrightarrow> \<exists>r'. RF_Truncate (int n) r = Inr r' \<and> rf_ok r' \<and> rf_list r' = take n (rf_list r)"
proof (erule rf_okE)
  fix xs junk
  assume n: "n \<le> length (rf_list r)" and r: "rf_elements r = map Some xs @ junk" "rf_current r = int (length xs)" "rf_total r = int (length xs + length junk)" "rf_list r = xs"
  have "rf_ok (r\<lparr>rf_current := int n\<rparr>) \<and> rf_list (r\<lparr>rf_current := int n\<rparr>) = take n xs"
    by (rule rf_okI [where junk = "map Some (drop n xs) @ junk"]) (use n r in \<open>auto simp flip: map_append append_assoc\<close>)
  then show ?thesis using n r by (simp add: RF_Truncate_def)
qed

lemma rf_get_range_list:
  "rf_ok r \<Longrightarrow> i + n \<le> length (rf_list r) \<Longrightarrow> rf_get_range n (int i) r = Inr (take n (drop i (rf_list r)))"
proof (induction n arbitrary: i)
  case (Suc n)
  have "rf_get_range n (int (Suc i)) r = Inr (take n (drop (Suc i) (rf_list r)))" using Suc.IH [of "Suc i"] Suc.prems by simp
  moreover have "int (Suc i) = int i + 1" by simp
  moreover have "drop i (rf_list r) = rf_list r ! i # drop (Suc i) (rf_list r)" using Suc.prems by (simp add: Cons_nth_drop_Suc)
  ultimately show ?case using RF_Get_list [OF Suc.prems(1), of i] Suc.prems(2) by (simp add: add.commute)
qed simp

text \<open>After the loop has moved the elements up to position \<open>i\<close>, those from \<open>i - num\<close> are the next ones.\<close>

lemma rf_slide_list:
  "rf_ok r \<Longrightarrow> i + n = length (rf_list r) \<Longrightarrow> num \<le> i \<Longrightarrow>
    \<exists>r'. rf_slide n (int i) (int num) r = Inr r' \<and> rf_ok r' \<and> rf_current r' = rf_current r
      \<and> take (i - num + n) (rf_list r') = take (i - num) (rf_list r) @ drop i (rf_list r)"
proof (induction n arbitrary: i r)
  case (Suc n)
  have i: "i < length (rf_list r)" using Suc.prems(2) by simp
  then have "i - num < length (rf_list r)" by simp
  from rf_store_list [OF Suc.prems(1) this, of "rf_list r ! i"] obtain r' where
    r': "rf_store (int (i - num)) (rf_list r ! i) r = Inr r'" "rf_ok r'" "rf_list r' = (rf_list r)[i - num := rf_list r ! i]" "rf_current r' = rf_current r"
    by blast
  have "Suc i + n = length (rf_list r')" "num \<le> Suc i" using r'(3) Suc.prems by simp_all
  from Suc.IH [OF r'(2) this] obtain r'' where
    r'': "rf_slide n (int (Suc i)) (int num) r' = Inr r''" "rf_ok r''" "rf_current r'' = rf_current r'"
      "take (Suc i - num + n) (rf_list r'') = take (Suc i - num) (rf_list r') @ drop (Suc i) (rf_list r')"
    by blast
  have "RF_Set (int i - int num) (rf_list r ! i) r = Inr r'"
    using r'(1) i Suc.prems by (simp add: RF_Set_def RF_size_list of_nat_diff)
  then have "rf_slide (Suc n) (int i) (int num) r = Inr r''"
    using r''(1) RF_Get_list [OF Suc.prems(1) i] by (simp add: add.commute)
  moreover have "take (i - num + Suc n) (rf_list r'') = take (i - num) (rf_list r) @ drop i (rf_list r)"
  proof -
    have "take (Suc i - num) (rf_list r') = take (i - num) (rf_list r) @ [rf_list r ! i]"
      using r'(3) Suc.prems i by (simp add: Suc_diff_le take_Suc_conv_app_nth)
    moreover have "drop (Suc i) (rf_list r') = drop (Suc i) (rf_list r)" using r'(3) by simp
    moreover have "i - num + Suc n = Suc i - num + n" using Suc.prems(3) by simp
    moreover have "rf_list r ! i # drop (Suc i) (rf_list r) = drop i (rf_list r)" using i by (simp add: Cons_nth_drop_Suc)
    ultimately show ?thesis using r''(4) by (metis append.assoc append_Cons append_Nil)
  qed
  ultimately show ?case using r''(2,3) r'(4) by auto
qed simp

lemma RF_ExtractSubrange_list:
  assumes r: "rf_ok r" and len: "s + n \<le> length (rf_list r)"
  shows "\<exists>r'. RF_ExtractSubrange (int s) (int n) wanted r = Inr (if wanted then take n (drop s (rf_list r)) else [], r')
    \<and> rf_ok r' \<and> rf_list r' = take s (rf_list r) @ drop (s + n) (rf_list r)"
proof -
  define out where "out = (if wanted then take n (drop s (rf_list r)) else [])"
  have saved: "(if wanted then rf_get_range (nat (int n)) (int s) r else Inr []) = Inr out"
    using rf_get_range_list [OF r, of s n] len by (simp add: out_def)
  have start: "RF_ExtractSubrange (int s) (int n) wanted r =
      (if n > 0 then
         (case rf_slide (nat (RF_size r - (int s + int n))) (int s + int n) (int n) r of Inl e \<Rightarrow> Inl e
          | Inr r' \<Rightarrow> (case RF_Truncate (RF_size r' - int n) r' of Inl e \<Rightarrow> Inl e | Inr r'' \<Rightarrow> Inr (out, r'')))
       else Inr (out, r))"
    using len unfolding RF_ExtractSubrange_def saved by (simp add: RF_size_list [OF r])
  show ?thesis
  proof (cases "n = 0")
    case True
    then show ?thesis using start r by (simp flip: out_def)
  next
    case False
    let ?l = "length (rf_list r)"
    have "s + n + (?l - (s + n)) = ?l" using len by simp
    from rf_slide_list [OF r this le_add2] obtain r' where
      r': "rf_slide (?l - (s + n)) (int (s + n)) (int n) r = Inr r'" "rf_ok r'" "rf_current r' = rf_current r"
        "take (s + n - n + (?l - (s + n))) (rf_list r') = take (s + n - n) (rf_list r) @ drop (s + n) (rf_list r)"
      by blast
    have l: "length (rf_list r') = ?l" using r r'(2,3) by (metis RF_size_def RF_size_list of_nat_eq_iff)
    have k: "s + n - n + (?l - (s + n)) = ?l - n" using len by simp
    have "nat (RF_size r - (int s + int n)) = ?l - (s + n)" using len by (simp add: RF_size_list [OF r])
    moreover have "RF_size r' - int n = int (?l - n)" using len by (simp add: RF_size_list [OF r'(2)] l)
    moreover obtain r'' where "RF_Truncate (int (?l - n)) r' = Inr r''" "rf_ok r''" "rf_list r'' = take (?l - n) (rf_list r')"
      using RF_Truncate_list [OF r'(2), of "?l - n"] l by auto
    ultimately show ?thesis using start r'(1,4) False k by (simp flip: out_def)
  qed
qed

lemma array_swap_list:
  "i < length xs \<Longrightarrow> j < length xs \<Longrightarrow> array_swap (map f xs @ junk) (int i) (int j) = Inr (map f (xs[i := xs ! j, j := xs ! i]) @ junk)"
  by (auto simp: array_swap_def arr_get_def arr_set_def nth_append list_update_append map_update)

lemma RF_SwapElements_list:
  "rf_ok r \<Longrightarrow> i < length (rf_list r) \<Longrightarrow> j < length (rf_list r) \<Longrightarrow>
    \<exists>r'. RF_SwapElements (int i) (int j) r = Inr r' \<and> rf_ok r' \<and> rf_list r' = (rf_list r)[i := rf_list r ! j, j := rf_list r ! i]"
proof (erule rf_okE)
  fix xs junk
  assume i: "i < length (rf_list r)" "j < length (rf_list r)" and r: "rf_elements r = map Some xs @ junk" "rf_current r = int (length xs)" "rf_total r = int (length xs + length junk)" "rf_list r = xs"
  let ?ys = "xs[i := xs ! j, j := xs ! i]"
  have "rf_ok (r\<lparr>rf_elements := map Some ?ys @ junk\<rparr>) \<and> rf_list (r\<lparr>rf_elements := map Some ?ys @ junk\<rparr>) = ?ys"
    by (rule rf_okI) (use r in auto)
  then show ?thesis using i r by (simp add: RF_SwapElements_def array_swap_list)
qed

lemma RF_Swap_list: "RF_Swap r other = (other, r)"
  by (simp add: RF_Swap_def)

section \<open>Any use of a repeated field\<close>

text \<open>A use of a field: the calls that change or read it, with what they do to a list.\<close>

datatype 'a rf_call =
    Call_Add 'a
  | Call_Set nat 'a
  | Call_Get nat
  | Call_RemoveLast
  | Call_Truncate nat
  | Call_Extract nat nat
  | Call_Clear
  | Call_Merge "'a list"
  | Call_Copy "'a list"
  | Call_Reserve int
  | Call_SwapElements nat nat

definition no_result :: "fault + 'r \<Rightarrow> fault + 'a list \<times> 'r" where
  "no_result x = (case x of Inl e \<Rightarrow> Inl e | Inr r \<Rightarrow> Inr ([], r))"

primrec run_call :: "'a rf_call \<Rightarrow> 'a RepeatedField \<Rightarrow> fault + 'a list \<times> 'a RepeatedField" where
  "run_call (Call_Add x) r = no_result (RF_Add x r)"
| "run_call (Call_Set i x) r = no_result (RF_Set (int i) x r)"
| "run_call (Call_Get i) r = (case RF_Get (int i) r of Inl e \<Rightarrow> Inl e | Inr x \<Rightarrow> Inr ([x], r))"
| "run_call Call_RemoveLast r = no_result (RF_RemoveLast r)"
| "run_call (Call_Truncate n) r = no_result (RF_Truncate (int n) r)"
| "run_call (Call_Extract s n) r = RF_ExtractSubrange (int s) (int n) True r"
| "run_call Call_Clear r = Inr ([], RF_Clear r)"
| "run_call (Call_Merge xs) r = (case RF_from_range xs of Inl e \<Rightarrow> Inl e | Inr other \<Rightarrow> no_result (RF_MergeFrom other r))"
| "run_call (Call_Copy xs) r = (case RF_from_range xs of Inl e \<Rightarrow> Inl e | Inr other \<Rightarrow> no_result (RF_CopyFrom other r))"
| "run_call (Call_Reserve n) r = Inr ([], RF_Reserve n r)"
| "run_call (Call_SwapElements i j) r = no_result (RF_SwapElements (int i) (int j) r)"

primrec list_call :: "'a rf_call \<Rightarrow> 'a list \<Rightarrow> ('a list \<times> 'a list) option" where
  "list_call (Call_Add x) xs = Some ([], xs @ [x])"
| "list_call (Call_Set i x) xs = (if i < length xs then Some ([], xs[i := x]) else None)"
| "list_call (Call_Get i) xs = (if i < length xs then Some ([xs ! i], xs) else None)"
| "list_call Call_RemoveLast xs = (if xs \<noteq> [] then Some ([], butlast xs) else None)"
| "list_call (Call_Truncate n) xs = (if n \<le> length xs then Some ([], take n xs) else None)"
| "list_call (Call_Extract s n) xs = (if s + n \<le> length xs then Some (take n (drop s xs), take s xs @ drop (s + n) xs) else None)"
| "list_call Call_Clear xs = Some ([], [])"
| "list_call (Call_Merge ys) xs = Some ([], xs @ ys)"
| "list_call (Call_Copy ys) xs = Some ([], ys)"
| "list_call (Call_Reserve n) xs = Some ([], xs)"
| "list_call (Call_SwapElements i j) xs = (if i < length xs \<and> j < length xs then Some ([], xs[i := xs ! j, j := xs ! i]) else None)"

text \<open>Calls one after the other, with all that they return.\<close>

primrec run_calls :: "'a rf_call list \<Rightarrow> 'a RepeatedField \<Rightarrow> fault + 'a list \<times> 'a RepeatedField" where
  "run_calls [] r = Inr ([], r)"
| "run_calls (c # cs) r =
     (case run_call c r of
        Inl e \<Rightarrow> Inl e
      | Inr (xs, r') \<Rightarrow> (case run_calls cs r' of Inl e \<Rightarrow> Inl e | Inr (ys, r'') \<Rightarrow> Inr (xs @ ys, r'')))"

primrec list_calls :: "'a rf_call list \<Rightarrow> 'a list \<Rightarrow> ('a list \<times> 'a list) option" where
  "list_calls [] xs = Some ([], xs)"
| "list_calls (c # cs) xs =
     (case list_call c xs of
        None \<Rightarrow> None
      | Some (out, xs') \<Rightarrow> (case list_calls cs xs' of None \<Rightarrow> None | Some (out', xs'') \<Rightarrow> Some (out @ out', xs'')))"

lemma rf_add_all_list: "rf_ok r \<Longrightarrow> \<exists>r'. rf_add_all xs r = Inr r' \<and> rf_ok r' \<and> rf_list r' = rf_list r @ xs"
proof (induction xs arbitrary: r)
  case (Cons x xs)
  obtain r' where r': "RF_Add x r = Inr r'" "rf_ok r'" "rf_list r' = rf_list r @ [x]" using RF_Add_list [OF Cons.prems] by blast
  then show ?case using Cons.IH [OF r'(2)] by auto
qed simp

lemma RF_new_list: "rf_ok RF_new" "rf_list RF_new = []"
  by (simp_all add: RF_new_def rf_ok_def rf_list_def)

lemma RF_from_range_list: "\<exists>r. RF_from_range xs = Inr r \<and> rf_ok r \<and> rf_list r = xs"
  using rf_add_all_list [OF RF_new_list(1), of xs] by (simp add: RF_from_range_def RF_new_list)

lemma run_call_list:
  assumes r: "rf_ok r" and c: "list_call c (rf_list r) = Some (out, xs)"
  shows "\<exists>r'. run_call c r = Inr (out, r') \<and> rf_ok r' \<and> rf_list r' = xs"
proof (cases c)
  case (Call_Add x)
  then show ?thesis using RF_Add_list [OF r, of x] c by (auto simp: no_result_def)
next
  case (Call_Set i x)
  then show ?thesis using rf_store_list [OF r, of i x] c by (auto simp: no_result_def RF_Set_def RF_size_list [OF r] split: if_splits)
next
  case (Call_Get i)
  then show ?thesis using RF_Get_list [OF r, of i] r c by (auto split: if_splits)
next
  case Call_RemoveLast
  then have ne: "rf_list r \<noteq> []" and xs: "out = []" "xs = butlast (rf_list r)" using c by (auto split: if_splits)
  have "RF_RemoveLast r = RF_Truncate (int (length (rf_list r) - 1)) r"
    using ne RF_size_list [OF r] by (cases "rf_list r") (auto simp: RF_RemoveLast_def RF_Truncate_def RF_size_def)
  then show ?thesis using RF_Truncate_list [OF r, of "length (rf_list r) - 1"] xs Call_RemoveLast by (auto simp: no_result_def butlast_conv_take)
next
  case (Call_Truncate n)
  then show ?thesis using RF_Truncate_list [OF r, of n] c by (auto simp: no_result_def split: if_splits)
next
  case (Call_Extract s n)
  then show ?thesis using RF_ExtractSubrange_list [OF r, of s n True] c by (auto split: if_splits)
next
  case Call_Clear
  then show ?thesis using RF_Clear_list [OF r] c by simp
next
  case (Call_Merge ys)
  obtain other where "RF_from_range ys = Inr other" "rf_ok other" "rf_list other = ys" using RF_from_range_list by blast
  then show ?thesis using RF_MergeFrom_list [OF r, of other] c Call_Merge by (auto simp: no_result_def)
next
  case (Call_Copy ys)
  obtain other where "RF_from_range ys = Inr other" "rf_ok other" "rf_list other = ys" using RF_from_range_list by blast
  then show ?thesis using RF_MergeFrom_list [of "RF_Clear r" other] RF_Clear_list [OF r] c Call_Copy by (auto simp: no_result_def RF_CopyFrom_def)
next
  case (Call_Reserve n)
  then show ?thesis using RF_Reserve_list [OF r, of n] c by simp
next
  case (Call_SwapElements i j)
  then show ?thesis using RF_SwapElements_list [OF r, of i j] c by (auto simp: no_result_def split: if_splits)
qed

text \<open>
  C18. Whatever calls are made on a repeated field, as long as they make sense for a list, they return what they
  would return on a list and leave it.
\<close>

theorem repeated_field_is_list:
  "rf_ok r \<Longrightarrow> list_calls cs (rf_list r) = Some (out, xs) \<Longrightarrow>
    \<exists>r'. run_calls cs r = Inr (out, r') \<and> rf_ok r' \<and> rf_list r' = xs"
proof (induction cs arbitrary: r out)
  case (Cons c cs)
  from Cons.prems(2) obtain out1 ys out2 where
    l: "list_call c (rf_list r) = Some (out1, ys)" "list_calls cs ys = Some (out2, xs)" "out = out1 @ out2"
    by (auto split: option.splits)
  obtain r1 where "run_call c r = Inr (out1, r1)" "rf_ok r1" "rf_list r1 = ys" using run_call_list [OF Cons.prems(1) l(1)] by blast
  then show ?case using Cons.IH [of r1 out2] l(2,3) by auto
qed simp

theorem repeated_field_is_list_witness:
  "\<exists>r'. run_calls [Call_Add 7, Call_Merge [1, 2, 3, 4], Call_Extract 1 2, Call_SwapElements 0 1, Call_Get 0] RF_new
      = Inr ([1, 2, 3 :: int], r') \<and> rf_ok r' \<and> rf_list r' = [3, 7, 4]"
  by (rule repeated_field_is_list) (simp_all add: RF_new_list)

end
