(* ===== verification/Repeated_Ptr_Field.thy ===== *)
theory Repeated_Ptr_Field
  imports Repeated_Field
begin

text \<open>
  Repeated fields of strings and messages (\<^verbatim>\<open>RepeatedPtrFieldBase\<close> and \<^verbatim>\<open>RepeatedPtrField\<close> of \<^verbatim>\<open>repeated_field.h\<close>
  and \<^verbatim>\<open>repeated_field.cc\<close>): an array of pointers to objects that the field owns. Behind the elements in use it
  keeps cleared objects, to use them again. The objects live in a heap, so that who owns what, what is deleted,
  and what is still used, are part of the model.
\<close>

section \<open>The heap\<close>

type_synonym addr = nat

record 'm heap =
  h_obj :: "addr \<Rightarrow> 'm option"
  h_next :: addr

definition h_new :: "'m \<Rightarrow> 'm heap \<Rightarrow> addr \<times> 'm heap" where
  "h_new x h = (h_next h, h\<lparr>h_obj := (h_obj h)(h_next h \<mapsto> x), h_next := Suc (h_next h)\<rparr>)"

text \<open>Using or deleting what has been deleted is a fault.\<close>

definition h_get :: "addr \<Rightarrow> 'm heap \<Rightarrow> fault + 'm" where
  "h_get a h = (case h_obj h a of None \<Rightarrow> Inl DanglingIter | Some x \<Rightarrow> Inr x)"

definition h_put :: "addr \<Rightarrow> 'm \<Rightarrow> 'm heap \<Rightarrow> fault + 'm heap" where
  "h_put a x h = (if h_obj h a = None then Inl DanglingIter else Inr (h\<lparr>h_obj := (h_obj h)(a \<mapsto> x)\<rparr>))"

definition h_delete :: "addr \<Rightarrow> 'm heap \<Rightarrow> fault + 'm heap" where
  "h_delete a h = (if h_obj h a = None then Inl DanglingIter else Inr (h\<lparr>h_obj := (h_obj h)(a := None)\<rparr>))"

definition ebind :: "fault + 'a \<Rightarrow> ('a \<Rightarrow> fault + 'b) \<Rightarrow> fault + 'b" where
  "ebind x f = (case x of Inl e \<Rightarrow> Inl e | Inr y \<Rightarrow> f y)"

lemma ebind_simps [simp]: "ebind (Inl e) f = Inl e" "ebind (Inr x) f = f x"
  by (simp_all add: ebind_def)

lemma ebind_cong [fundef_cong]: "x = y \<Longrightarrow> (\<And>a. y = Inr a \<Longrightarrow> f a = g a) \<Longrightarrow> ebind x f = ebind y g"
  by (auto simp: ebind_def split: sum.split)

section \<open>Operations\<close>

text \<open>What the field needs of the type of its objects.\<close>

record 'm TypeHandler =
  th_New :: 'm
  th_Clear :: "'m \<Rightarrow> 'm"
  th_Merge :: "'m \<Rightarrow> 'm \<Rightarrow> fault + 'm"

record RepeatedPtrField =
  rp_elements :: "addr option list"
  rp_current :: int
  rp_allocated :: int
  rp_total :: int

definition RP_new :: RepeatedPtrField where
  "RP_new = \<lparr>rp_elements = [], rp_current = 0, rp_allocated = 0, rp_total = 0\<rparr>"

definition RP_size :: "RepeatedPtrField \<Rightarrow> int" where
  "RP_size r = rp_current r"

definition RP_Capacity :: "RepeatedPtrField \<Rightarrow> int" where
  "RP_Capacity r = rp_total r"

definition RP_ClearedCount :: "RepeatedPtrField \<Rightarrow> int" where
  "RP_ClearedCount r = rp_allocated r - rp_current r"

definition slot :: "int \<Rightarrow> RepeatedPtrField \<Rightarrow> fault + addr" where
  "slot i r = ebind (arr_get (rp_elements r) i) (\<lambda>p. case p of None \<Rightarrow> Inl UninitRead | Some a \<Rightarrow> Inr a)"

definition set_slot :: "int \<Rightarrow> addr \<Rightarrow> RepeatedPtrField \<Rightarrow> fault + RepeatedPtrField" where
  "set_slot i a r = ebind (arr_set (rp_elements r) i (Some a)) (\<lambda>es. Inr (r\<lparr>rp_elements := es\<rparr>))"

definition RP_Reserve :: "int \<Rightarrow> RepeatedPtrField \<Rightarrow> RepeatedPtrField" where
  "RP_Reserve new_size r =
     (if rp_total r \<ge> new_size then r
      else
        let new_total = grown_size (rp_total r) new_size; moved = take (nat (rp_allocated r)) (rp_elements r) in
        r\<lparr>rp_total := new_total, rp_elements := moved @ replicate (nat new_total - length moved) None\<rparr>)"

definition reserve_if_full :: "RepeatedPtrField \<Rightarrow> RepeatedPtrField" where
  "reserve_if_full r = (if rp_allocated r = rp_total r then RP_Reserve (rp_total r + 1) r else r)"

definition RP_Mutable :: "int \<Rightarrow> RepeatedPtrField \<Rightarrow> fault + addr" where
  "RP_Mutable index r = (if \<not> index < RP_size r then Inl AssertFail else slot index r)"

definition RP_Get :: "int \<Rightarrow> RepeatedPtrField \<Rightarrow> 'm heap \<Rightarrow> fault + 'm" where
  "RP_Get index r h = (if \<not> index < RP_size r then Inl AssertFail else ebind (slot index r) (\<lambda>a. h_get a h))"

definition RP_Add :: "'m TypeHandler \<Rightarrow> RepeatedPtrField \<Rightarrow> 'm heap \<Rightarrow> fault + addr \<times> RepeatedPtrField \<times> 'm heap" where
  "RP_Add H r h =
     (if rp_current r < rp_allocated r then
        ebind (slot (rp_current r) r) (\<lambda>a. Inr (a, r\<lparr>rp_current := rp_current r + 1\<rparr>, h))
      else
        let r1 = reserve_if_full r;
            r2 = r1\<lparr>rp_allocated := rp_allocated r1 + 1\<rparr>;
            (result, h1) = h_new (th_New H) h in
        ebind (set_slot (rp_current r2) result r2) (\<lambda>r3. Inr (result, r3\<lparr>rp_current := rp_current r3 + 1\<rparr>, h1)))"

definition clear_slot :: "'m TypeHandler \<Rightarrow> int \<Rightarrow> RepeatedPtrField \<Rightarrow> 'm heap \<Rightarrow> fault + 'm heap" where
  "clear_slot H i r h = ebind (slot i r) (\<lambda>a. ebind (h_get a h) (\<lambda>x. h_put a (th_Clear H x) h))"

definition RP_RemoveLast :: "'m TypeHandler \<Rightarrow> RepeatedPtrField \<Rightarrow> 'm heap \<Rightarrow> fault + RepeatedPtrField \<times> 'm heap" where
  "RP_RemoveLast H r h =
     (if \<not> rp_current r > 0 then Inl AssertFail
      else
        let r' = r\<lparr>rp_current := rp_current r - 1\<rparr> in
        ebind (clear_slot H (rp_current r') r' h) (\<lambda>h'. Inr (r', h')))"

primrec clear_slots :: "'m TypeHandler \<Rightarrow> nat \<Rightarrow> int \<Rightarrow> RepeatedPtrField \<Rightarrow> 'm heap \<Rightarrow> fault + 'm heap" where
  "clear_slots H 0 i r h = Inr h"
| "clear_slots H (Suc n) i r h = ebind (clear_slot H i r h) (clear_slots H n (i + 1) r)"

definition RP_Clear :: "'m TypeHandler \<Rightarrow> RepeatedPtrField \<Rightarrow> 'm heap \<Rightarrow> fault + RepeatedPtrField \<times> 'm heap" where
  "RP_Clear H r h = ebind (clear_slots H (nat (rp_current r)) 0 r h) (\<lambda>h'. Inr (r\<lparr>rp_current := 0\<rparr>, h'))"

primrec merge_slots ::
  "'m TypeHandler \<Rightarrow> nat \<Rightarrow> int \<Rightarrow> RepeatedPtrField \<Rightarrow> RepeatedPtrField \<Rightarrow> 'm heap \<Rightarrow> fault + RepeatedPtrField \<times> 'm heap" where
  "merge_slots H 0 i other r h = Inr (r, h)"
| "merge_slots H (Suc n) i other r h =
     ebind (RP_Add H r h) (\<lambda>(a, r', h').
       ebind (RP_Get i other h') (\<lambda>from_value.
         ebind (h_get a h') (\<lambda>to_value.
           ebind (th_Merge H from_value to_value) (\<lambda>x.
             ebind (h_put a x h') (\<lambda>h''. merge_slots H n (i + 1) other r' h'')))))"

definition RP_MergeFrom ::
  "'m TypeHandler \<Rightarrow> RepeatedPtrField \<Rightarrow> RepeatedPtrField \<Rightarrow> 'm heap \<Rightarrow> fault + RepeatedPtrField \<times> 'm heap" where
  "RP_MergeFrom H other r h =
     merge_slots H (nat (rp_current other)) 0 other (RP_Reserve (rp_current r + rp_current other) r) h"

definition RP_CopyFrom ::
  "'m TypeHandler \<Rightarrow> RepeatedPtrField \<Rightarrow> RepeatedPtrField \<Rightarrow> 'm heap \<Rightarrow> fault + RepeatedPtrField \<times> 'm heap" where
  "RP_CopyFrom H other r h = ebind (RP_Clear H r h) (\<lambda>(r', h'). RP_MergeFrom H other r' h')"

definition RP_copy :: "'m TypeHandler \<Rightarrow> RepeatedPtrField \<Rightarrow> 'm heap \<Rightarrow> fault + RepeatedPtrField \<times> 'm heap" where
  "RP_copy H other h = RP_CopyFrom H other RP_new h"

definition RP_assign ::
  "'m TypeHandler \<Rightarrow> bool \<Rightarrow> RepeatedPtrField \<Rightarrow> RepeatedPtrField \<Rightarrow> 'm heap \<Rightarrow> fault + RepeatedPtrField \<times> 'm heap" where
  "RP_assign H same other r h = (if \<not> same then RP_CopyFrom H other r h else Inr (r, h))"

text \<open>\<^verbatim>\<open>*Add() = *begin\<close> for every element of a range.\<close>

definition add_value :: "'m TypeHandler \<Rightarrow> 'm \<Rightarrow> RepeatedPtrField \<Rightarrow> 'm heap \<Rightarrow> fault + RepeatedPtrField \<times> 'm heap" where
  "add_value H x r h = ebind (RP_Add H r h) (\<lambda>(a, r', h'). ebind (h_put a x h') (\<lambda>h''. Inr (r', h'')))"

primrec add_values :: "'m TypeHandler \<Rightarrow> 'm list \<Rightarrow> RepeatedPtrField \<Rightarrow> 'm heap \<Rightarrow> fault + RepeatedPtrField \<times> 'm heap" where
  "add_values H [] r h = Inr (r, h)"
| "add_values H (x # xs) r h = ebind (add_value H x r h) (\<lambda>(r', h'). add_values H xs r' h')"

definition RP_from_range :: "'m TypeHandler \<Rightarrow> 'm list \<Rightarrow> 'm heap \<Rightarrow> fault + RepeatedPtrField \<times> 'm heap" where
  "RP_from_range H xs h = add_values H xs RP_new h"

primrec close_gap_loop :: "nat \<Rightarrow> int \<Rightarrow> int \<Rightarrow> RepeatedPtrField \<Rightarrow> fault + RepeatedPtrField" where
  "close_gap_loop 0 i num r = Inr r"
| "close_gap_loop (Suc n) i num r =
     ebind (slot i r) (\<lambda>a. ebind (set_slot (i - num) a r) (\<lambda>r'. close_gap_loop n (i + 1) num r'))"

definition CloseGap :: "int \<Rightarrow> int \<Rightarrow> RepeatedPtrField \<Rightarrow> fault + RepeatedPtrField" where
  "CloseGap start num r =
     ebind (close_gap_loop (nat (rp_allocated r - (start + num))) (start + num) num r) (\<lambda>r'.
       Inr (r'\<lparr>rp_current := rp_current r' - num, rp_allocated := rp_allocated r' - num\<rparr>))"

primrec get_slots :: "nat \<Rightarrow> int \<Rightarrow> RepeatedPtrField \<Rightarrow> fault + addr list" where
  "get_slots 0 i r = Inr []"
| "get_slots (Suc n) i r = ebind (RP_Mutable i r) (\<lambda>a. ebind (get_slots n (i + 1) r) (\<lambda>as. Inr (a # as)))"

definition RP_ExtractSubrange :: "int \<Rightarrow> int \<Rightarrow> bool \<Rightarrow> RepeatedPtrField \<Rightarrow> fault + addr list \<times> RepeatedPtrField" where
  "RP_ExtractSubrange start num wanted r =
     (if \<not> start \<ge> 0 \<or> \<not> num \<ge> 0 \<or> \<not> start + num \<le> RP_size r then Inl AssertFail
      else if num > 0 then
        ebind (if wanted then get_slots (nat num) start r else Inr []) (\<lambda>elements.
          ebind (CloseGap start num r) (\<lambda>r'. Inr (elements, r')))
      else Inr ([], r))"

primrec delete_slots :: "nat \<Rightarrow> int \<Rightarrow> RepeatedPtrField \<Rightarrow> 'm heap \<Rightarrow> fault + 'm heap" where
  "delete_slots 0 i r h = Inr h"
| "delete_slots (Suc n) i r h = ebind (slot i r) (\<lambda>a. ebind (h_delete a h) (delete_slots n (i + 1) r))"

definition RP_DeleteSubrange :: "int \<Rightarrow> int \<Rightarrow> RepeatedPtrField \<Rightarrow> 'm heap \<Rightarrow> fault + RepeatedPtrField \<times> 'm heap" where
  "RP_DeleteSubrange start num r h =
     (if \<not> start \<ge> 0 \<or> \<not> num \<ge> 0 \<or> \<not> start + num \<le> RP_size r then Inl AssertFail
      else
        ebind (delete_slots (nat num) start r h) (\<lambda>h'.
          ebind (RP_ExtractSubrange start num False r) (\<lambda>(_, r'). Inr (r', h'))))"

definition RP_Destroy :: "RepeatedPtrField \<Rightarrow> 'm heap \<Rightarrow> fault + 'm heap" where
  "RP_Destroy r h = delete_slots (nat (rp_allocated r)) 0 r h"

definition RP_Swap :: "RepeatedPtrField \<Rightarrow> RepeatedPtrField \<Rightarrow> RepeatedPtrField \<times> RepeatedPtrField" where
  "RP_Swap r other =
     (r\<lparr>rp_elements := rp_elements other, rp_current := rp_current other, rp_allocated := rp_allocated other, rp_total := rp_total other\<rparr>,
      other\<lparr>rp_elements := rp_elements r, rp_current := rp_current r, rp_allocated := rp_allocated r, rp_total := rp_total r\<rparr>)"

definition RP_SwapElements :: "int \<Rightarrow> int \<Rightarrow> RepeatedPtrField \<Rightarrow> fault + RepeatedPtrField" where
  "RP_SwapElements index1 index2 r =
     ebind (array_swap (rp_elements r) index1 index2) (\<lambda>es. Inr (r\<lparr>rp_elements := es\<rparr>))"

definition RP_AddFromCleared :: "RepeatedPtrField \<Rightarrow> fault + addr option \<times> RepeatedPtrField" where
  "RP_AddFromCleared r =
     (if rp_current r < rp_allocated r then
        ebind (slot (rp_current r) r) (\<lambda>a. Inr (Some a, r\<lparr>rp_current := rp_current r + 1\<rparr>))
      else Inr (None, r))"

definition RP_AddAllocated :: "addr \<Rightarrow> RepeatedPtrField \<Rightarrow> 'm heap \<Rightarrow> fault + RepeatedPtrField \<times> 'm heap" where
  "RP_AddAllocated a r h =
     ebind
       (if rp_current r = rp_total r then
          (let r1 = RP_Reserve (rp_total r + 1) r in Inr (r1\<lparr>rp_allocated := rp_allocated r1 + 1\<rparr>, h))
        else if rp_allocated r = rp_total r then
          ebind (slot (rp_current r) r) (\<lambda>c. ebind (h_delete c h) (\<lambda>h'. Inr (r, h')))
        else if rp_current r < rp_allocated r then
          ebind (slot (rp_current r) r) (\<lambda>c. ebind (set_slot (rp_allocated r) c r) (\<lambda>r'.
            Inr (r'\<lparr>rp_allocated := rp_allocated r' + 1\<rparr>, h)))
        else Inr (r\<lparr>rp_allocated := rp_allocated r + 1\<rparr>, h))
       (\<lambda>(r2, h'). ebind (set_slot (rp_current r2) a r2) (\<lambda>r3. Inr (r3\<lparr>rp_current := rp_current r3 + 1\<rparr>, h')))"

definition RP_ReleaseLast :: "RepeatedPtrField \<Rightarrow> fault + addr \<times> RepeatedPtrField" where
  "RP_ReleaseLast r =
     (if \<not> rp_current r > 0 then Inl AssertFail
      else
        let r1 = r\<lparr>rp_current := rp_current r - 1, rp_allocated := rp_allocated r - 1\<rparr> in
        ebind (slot (rp_current r1) r1) (\<lambda>result.
          if rp_current r1 < rp_allocated r1 then
            ebind (slot (rp_allocated r1) r1) (\<lambda>c. ebind (set_slot (rp_current r1) c r1) (\<lambda>r2. Inr (result, r2)))
          else Inr (result, r1)))"

definition RP_AddCleared :: "addr \<Rightarrow> RepeatedPtrField \<Rightarrow> fault + RepeatedPtrField" where
  "RP_AddCleared a r =
     (let r1 = reserve_if_full r in
      ebind (set_slot (rp_allocated r1) a r1) (\<lambda>r2. Inr (r2\<lparr>rp_allocated := rp_allocated r2 + 1\<rparr>)))"

definition RP_ReleaseCleared :: "RepeatedPtrField \<Rightarrow> fault + addr \<times> RepeatedPtrField" where
  "RP_ReleaseCleared r =
     (if \<not> rp_allocated r > rp_current r then Inl AssertFail
      else
        let r1 = r\<lparr>rp_allocated := rp_allocated r - 1\<rparr> in
        ebind (slot (rp_allocated r1) r1) (\<lambda>a. Inr (a, r1)))"

end
