(* ===== verification/Repeated_Ptr_Proofs.thy ===== *)
theory Repeated_Ptr_Proofs
  imports Repeated_Ptr_Field "HOL-Library.Multiset"
begin

text \<open>
  A repeated field of pointers behaves as a list of values and owns its objects: what each operation does to the
  list, which objects it gives up and takes, and that none is lost, used after it is deleted or deleted twice.
\<close>

section \<open>What a field holds\<close>

text \<open>The pointers that have been stored, and the two sizes.\<close>

definition rp_sized :: "RepeatedPtrField \<Rightarrow> addr list \<Rightarrow> int \<Rightarrow> int \<Rightarrow> bool" where
  "rp_sized r as c n \<longleftrightarrow> (\<exists>junk. rp_elements r = map Some as @ junk \<and> rp_total r = int (length as + length junk))
     \<and> rp_current r = c \<and> rp_allocated r = n"

text \<open>The pointers in use, and the cleared ones behind them.\<close>

definition rp_rep :: "RepeatedPtrField \<Rightarrow> addr list \<Rightarrow> addr list \<Rightarrow> bool" where
  "rp_rep r xs ys \<longleftrightarrow> rp_sized r (xs @ ys) (int (length xs)) (int (length xs + length ys))"

lemma set_slot_end:
  assumes "rp_sized r as c n" "int (length as) < rp_total r"
  shows "\<exists>r'. set_slot (int (length as)) a r = Inr r' \<and> rp_sized r' (as @ [a]) c n"
proof -
  obtain junk where r: "rp_elements r = map Some as @ junk" "rp_total r = int (length as + length junk)"
    using assms(1) by (auto simp: rp_sized_def)
  then obtain x rest where "junk = x # rest" using assms(2) by (cases junk) auto
  then show ?thesis using r assms(1) by (auto simp: set_slot_def arr_set_def rp_sized_def list_update_append intro!: exI [of _ rest])
qed

lemma set_slot_sized:
  assumes "rp_sized r as c n" "i < length as"
  shows "\<exists>r'. set_slot (int i) a r = Inr r' \<and> rp_sized r' (as[i := a]) c n"
  using assms by (auto simp: set_slot_def arr_set_def rp_sized_def list_update_append map_update)

lemma slot_sized: "rp_sized r as c n \<Longrightarrow> i < length as \<Longrightarrow> slot (int i) r = Inr (as ! i)"
  by (auto simp: rp_sized_def slot_def arr_get_def nth_append)

lemma rp_sized_update: "rp_sized r as c n \<Longrightarrow> rp_sized (r\<lparr>rp_current := c', rp_allocated := n'\<rparr>) as c' n'"
  "rp_sized r as c n \<Longrightarrow> rp_sized (r\<lparr>rp_current := c'\<rparr>) as c' n" "rp_sized r as c n \<Longrightarrow> rp_sized (r\<lparr>rp_allocated := n'\<rparr>) as c n'"
  by (auto simp: rp_sized_def)

lemma rp_rep_sizes: "rp_rep r xs ys \<Longrightarrow> rp_current r = int (length xs) \<and> rp_allocated r = int (length xs + length ys)
    \<and> rp_allocated r \<le> rp_total r"
  by (auto simp: rp_rep_def rp_sized_def)

lemma slot_rep: "rp_rep r xs ys \<Longrightarrow> i < length xs + length ys \<Longrightarrow> slot (int i) r = Inr ((xs @ ys) ! i)"
  by (simp add: rp_rep_def slot_sized)

lemma rp_sized_fields: "rp_sized r as c n \<Longrightarrow> rp_current r = c \<and> rp_allocated r = n \<and> int (length as) \<le> rp_total r"
  by (auto simp: rp_sized_def)

lemma rp_sized_fewer: "rp_sized r (as @ bs) c n \<Longrightarrow> rp_sized r as c n"
  unfolding rp_sized_def by (metis append.assoc length_append length_map map_append add.assoc)

lemma RP_Reserve_sized:
  assumes "rp_sized r as c (int (length as))"
  shows "rp_sized (RP_Reserve n r) as c (int (length as)) \<and> n \<le> rp_total (RP_Reserve n r)"
proof (cases "rp_total r \<ge> n")
  case False
  obtain junk where r: "rp_elements r = map Some as @ junk" "rp_total r = int (length as + length junk)" "rp_current r = c" "rp_allocated r = int (length as)"
    using assms by (auto simp: rp_sized_def)
  let ?t = "grown_size (rp_total r) n"
  have "int (length as) \<le> ?t" using False r(2) grown_size_fits [of n "rp_total r"] by linarith
  then show ?thesis
    using False r grown_size_fits [of n "rp_total r"]
    by (auto simp: RP_Reserve_def Let_def rp_sized_def intro!: exI [of _ "replicate (nat ?t - length as) None"])
qed (use assms in \<open>simp add: RP_Reserve_def\<close>)

text \<open>There is room for one pointer more.\<close>

lemma reserve_if_full_sized:
  assumes "rp_sized r as c (int (length as))"
  shows "rp_sized (reserve_if_full r) as c (int (length as)) \<and> int (length as) < rp_total (reserve_if_full r)"
  using assms RP_Reserve_sized [OF assms, of "rp_total r + 1"] rp_sized_fields [OF assms] by (auto simp: reserve_if_full_def)

section \<open>Ownership\<close>

text \<open>
  \<open>holds H good r h xs ys vs\<close>: in the heap \<open>h\<close> the field uses the objects \<open>xs\<close>, with the values \<open>vs\<close>, and keeps the
  cleared objects \<open>ys\<close>.
\<close>

definition holds :: "'m TypeHandler \<Rightarrow> ('m \<Rightarrow> bool) \<Rightarrow> RepeatedPtrField \<Rightarrow> 'm heap \<Rightarrow> addr list \<Rightarrow> addr list \<Rightarrow> 'm list \<Rightarrow> bool" where
  "holds H good r h xs ys vs \<longleftrightarrow> rp_rep r xs ys \<and> distinct (xs @ ys) \<and> map (h_obj h) xs = map Some vs \<and> (\<forall>v\<in>set vs. good v)
     \<and> (\<forall>a\<in>set ys. h_obj h a = Some (th_New H)) \<and> dom (h_obj h) \<subseteq> {..<h_next h}"

text \<open>
  \<open>frame h A h' B\<close>: of the objects of \<open>h\<close>, those of \<open>A\<close> have been given up for those of \<open>B\<close>, and nothing has
  happened to the others.
\<close>

definition frame :: "'m heap \<Rightarrow> addr set \<Rightarrow> 'm heap \<Rightarrow> addr set \<Rightarrow> bool" where
  "frame h A h' B \<longleftrightarrow> dom (h_obj h') = (dom (h_obj h) - A) \<union> B \<and> B \<inter> (dom (h_obj h) - A) = {}
     \<and> (\<forall>a \<in> dom (h_obj h) - A. h_obj h' a = h_obj h a) \<and> h_next h \<le> h_next h'"

lemma frame_trans:
  assumes "frame h A h' B" "frame h' B h'' C"
  shows "frame h A h'' C"
proof -
  have kept: "dom (h_obj h') - B = dom (h_obj h) - A" using assms(1) by (auto simp: frame_def)
  have "h_obj h'' a = h_obj h a" if "a \<in> dom (h_obj h) - A" for a
    using assms that kept by (metis frame_def)
  then show ?thesis using assms kept by (simp add: frame_def)
qed

lemma frame_same: "A \<subseteq> dom (h_obj h) \<Longrightarrow> frame h A h A"
  by (auto simp: frame_def)

lemma frame_keeps: "frame h A h' B \<Longrightarrow> h_obj h a \<noteq> None \<Longrightarrow> a \<notin> A \<Longrightarrow> h_obj h' a = h_obj h a \<and> a \<notin> B"
  unfolding frame_def by blast

lemma frame_extend: "frame h A h' B \<Longrightarrow> C \<subseteq> dom (h_obj h) \<Longrightarrow> C \<inter> A = {} \<Longrightarrow> frame h (A \<union> C) h' (B \<union> C)"
  unfolding frame_def by (intro conjI) auto

lemma holdsD:
  assumes "holds H good r h xs ys vs"
  shows "rp_rep r xs ys" "length vs = length xs" "distinct (xs @ ys)" "\<And>i. i < length xs \<Longrightarrow> h_obj h (xs ! i) = Some (vs ! i)"
    "\<And>v. v \<in> set vs \<Longrightarrow> good v" "\<And>a. a \<in> set ys \<Longrightarrow> h_obj h a = Some (th_New H)" "\<And>a. h_obj h a \<noteq> None \<Longrightarrow> a < h_next h"
    "set (xs @ ys) \<subseteq> dom (h_obj h)"
proof -
  have m: "map (h_obj h) xs = map Some vs" using assms by (simp add: holds_def)
  show "length vs = length xs" using arg_cong [OF m, of length] by simp
  show n: "h_obj h (xs ! i) = Some (vs ! i)" if "i < length xs" for i
    using arg_cong [OF m, of "\<lambda>l. l ! i"] that \<open>length vs = length xs\<close> by simp
  show "set (xs @ ys) \<subseteq> dom (h_obj h)" using assms n by (auto simp: holds_def in_set_conv_nth)
qed (use assms in \<open>auto simp: holds_def\<close>)

lemma holds_size: "holds H good r h xs ys vs \<Longrightarrow> RP_size r = int (length vs)"
  using holdsD(1,2) rp_rep_sizes by (metis RP_size_def)

lemma RP_Get_holds: "holds H good r h xs ys vs \<Longrightarrow> i < length vs \<Longrightarrow> RP_Get (int i) r h = Inr (vs ! i)"
  using holdsD(1,2,4) slot_rep [of r xs ys i] holds_size [of H good r h xs ys vs]
  by (fastforce simp: RP_Get_def h_get_def nth_append)

lemma h_new_frame: "dom (h_obj h) \<subseteq> {..<h_next h} \<Longrightarrow> h_new x h = (a, h') \<Longrightarrow> frame h {} h' {a} \<and> h_obj h' a = Some x \<and> h_obj h a = None
    \<and> dom (h_obj h') \<subseteq> {..<h_next h'}"
  by (auto simp: h_new_def frame_def less_Suc_eq subset_iff domIff)

lemma holds_other:
  assumes "holds H good r h xs ys vs" "frame h A h' B" "A \<inter> set (xs @ ys) = {}" "dom (h_obj h') \<subseteq> {..<h_next h'}"
  shows "holds H good r h' xs ys vs"
proof -
  have "h_obj h' a = h_obj h a" if "a \<in> set (xs @ ys)" for a
    using frame_keeps [OF assms(2), of a] that assms(3) holdsD(8) [OF assms(1)] by auto
  then show ?thesis using assms(1,4) by (auto simp: holds_def cong: map_cong)
qed

lemma holdsI:
  assumes "rp_rep r xs ys" "distinct (xs @ ys)" "length vs = length xs" "\<And>i. i < length xs \<Longrightarrow> h_obj h (xs ! i) = Some (vs ! i)"
    "\<And>v. v \<in> set vs \<Longrightarrow> good v" "\<And>a. a \<in> set ys \<Longrightarrow> h_obj h a = Some (th_New H)" "dom (h_obj h) \<subseteq> {..<h_next h}"
  shows "holds H good r h xs ys vs"
  using assms by (auto simp: holds_def intro!: nth_equalityI)

lemma holds_dom: "holds H good r h xs ys vs \<Longrightarrow> dom (h_obj h) \<subseteq> {..<h_next h}"
  by (simp add: holds_def)

text \<open>An element in use is given another value.\<close>

lemma h_put_holds:
  assumes h: "holds H good r h xs ys vs" and i: "i < length xs" and v: "good v"
  obtains h' where "h_put (xs ! i) v h = Inr h'" "holds H good r h' xs ys (vs[i := v])" "frame h (set (xs @ ys)) h' (set (xs @ ys))"
proof -
  note d = holdsD [OF h]
  let ?h = "h\<lparr>h_obj := (h_obj h)(xs ! i \<mapsto> v)\<rparr>"
  have "h_put (xs ! i) v h = Inr ?h" using d(4) [OF i] by (simp add: h_put_def)
  moreover have "holds H good r ?h xs ys (vs[i := v])"
  proof (rule holdsI [OF d(1,3)])
    show "h_obj ?h (xs ! j) = Some (vs[i := v] ! j)" if "j < length xs" for j
      using that i d(2,3,4) by (auto simp: nth_eq_iff_index_eq)
    show "h_obj ?h a = Some (th_New H)" if "a \<in> set ys" for a
    proof -
      have "a \<noteq> xs ! i" using that nth_mem [OF i] d(3) by auto
      then show ?thesis using that d(6) by simp
    qed
    show "good x" if "x \<in> set (vs[i := v])" for x using that d(5) v set_update_subset_insert [of vs i v] by auto
    show "dom (h_obj ?h) \<subseteq> {..<h_next ?h}" using holds_dom [OF h] d(4) [OF i] by (auto simp: subset_iff domIff)
  qed (use d(2) in simp)
  moreover have "frame h (set (xs @ ys)) ?h (set (xs @ ys))" using i d(8) by (auto simp: frame_def)
  ultimately show ?thesis using that by blast
qed

text \<open>Cleared objects behind those in use come out of use.\<close>

lemma holds_demote:
  assumes h: "holds H good r h (xs @ zs) ys (vs @ replicate (length zs) (th_New H))" and len: "length vs = length xs"
  shows "holds H good (r\<lparr>rp_current := int (length xs)\<rparr>) h xs (zs @ ys) vs"
proof (rule holdsI)
  note d = holdsD [OF h]
  show "rp_rep (r\<lparr>rp_current := int (length xs)\<rparr>) xs (zs @ ys)"
    using d(1) rp_sized_update(2) by (fastforce simp: rp_rep_def add.assoc)
  show "h_obj h (xs ! i) = Some (vs ! i)" if "i < length xs" for i using d(4) [of i] that len by (simp add: nth_append)
  show "h_obj h a = Some (th_New H)" if "a \<in> set (zs @ ys)" for a
  proof (cases "a \<in> set zs")
    case True
    then obtain k where "k < length zs" "a = zs ! k" by (auto simp: in_set_conv_nth)
    then show ?thesis using d(4) [of "length xs + k"] len by (simp add: nth_append)
  qed (use that d(6) in simp)
qed (use holdsD [OF h] holds_dom [OF h] len in auto)

lemma slot_update [simp]: "slot i (r\<lparr>rp_current := c\<rparr>) = slot i r" "slot i (r\<lparr>rp_allocated := c\<rparr>) = slot i r"
  by (simp_all add: slot_def)

lemma slot_holds: "holds H good r h xs ys vs \<Longrightarrow> i < length xs + length ys \<Longrightarrow> slot (int i) r = Inr ((xs @ ys) ! i)"
  using slot_rep [OF holdsD(1)] .

section \<open>Every operation\<close>

text \<open>The objects of a type behave: a new one is like a cleared one, and merging into it copies.\<close>

locale type_handler =
  fixes H :: "'m TypeHandler" and good :: "'m \<Rightarrow> bool"
  assumes new_good: "good (th_New H)"
    and clear_new: "good x \<Longrightarrow> th_Clear H x = th_New H"
    and merge_new: "good x \<Longrightarrow> th_Merge H x (th_New H) = Inr x"
begin

abbreviation rp_holds :: "RepeatedPtrField \<Rightarrow> 'm heap \<Rightarrow> addr list \<Rightarrow> addr list \<Rightarrow> 'm list \<Rightarrow> bool" where
  "rp_holds \<equiv> holds H good"

lemma RP_Add_holds:
  assumes h: "rp_holds r h xs ys vs"
  obtains a r' h' ys' where "RP_Add H r h = Inr (a, r', h')" "rp_holds r' h' (xs @ [a]) ys' (vs @ [th_New H])"
    "frame h (set (xs @ ys)) h' (set (xs @ a # ys'))"
proof -
  note d = holdsD [OF h] and sizes = rp_rep_sizes [OF holdsD(1) [OF h]]
  show ?thesis
  proof (cases ys)
    case (Cons y zs)
    let ?r = "r\<lparr>rp_current := rp_current r + 1\<rparr>"
    have "slot (rp_current r) r = Inr y" using slot_holds [OF h, of "length xs"] sizes Cons by simp
    then have add: "RP_Add H r h = Inr (y, ?r, h)" using sizes Cons by (simp add: RP_Add_def)
    have hold: "rp_holds ?r h (xs @ [y]) zs (vs @ [th_New H])"
    proof (rule holdsI)
      have "rp_sized ?r (xs @ ys) (int (length xs + 1)) (int (length xs + length ys))"
        using rp_sized_update(2) [of r "xs @ ys" _ _ "rp_current r + 1"] d(1) sizes by (simp add: rp_rep_def add.commute)
      then show "rp_rep ?r (xs @ [y]) zs" using Cons by (simp add: rp_rep_def ac_simps)
      show "h_obj h ((xs @ [y]) ! i) = Some ((vs @ [th_New H]) ! i)" if "i < length (xs @ [y])" for i
        using that d(2,4,6) Cons by (auto simp: nth_append less_Suc_eq)
    qed (use d Cons holds_dom [OF h] new_good in auto)
    have "frame h (set (xs @ ys)) h (set (xs @ y # zs))" using frame_same [OF d(8)] Cons by simp
    then show ?thesis using that add hold by blast
  next
    case Nil
    define r1 where "r1 = (reserve_if_full r)\<lparr>rp_allocated := rp_allocated (reserve_if_full r) + 1\<rparr>"
    have sized: "rp_sized r xs (int (length xs)) (int (length xs))" using d(1) Nil by (simp add: rp_rep_def)
    note room = reserve_if_full_sized [OF sized]
    have r1: "rp_sized r1 xs (int (length xs)) (int (length xs) + 1)" "int (length xs) < rp_total r1"
      using room rp_sized_update(3) rp_sized_fields by (fastforce simp: r1_def)+
    obtain a h1 where n: "h_new (th_New H) h = (a, h1)" by fastforce
    note hn = h_new_frame [OF holds_dom [OF h] n]
    obtain r2 where r2: "set_slot (int (length xs)) a r1 = Inr r2" "rp_sized r2 (xs @ [a]) (int (length xs)) (int (length xs) + 1)"
      using set_slot_end [OF r1] by blast
    let ?r = "r2\<lparr>rp_current := rp_current r2 + 1\<rparr>"
    have "rp_current (reserve_if_full r) = int (length xs)" "rp_current r2 = int (length xs)" using rp_sized_fields room r2(2) by blast+
    then have add: "RP_Add H r h = Inr (a, ?r, h1)"
      using r2(1) sizes Nil n by (simp add: RP_Add_def Let_def flip: r1_def)
    have a: "a \<notin> set xs" using d(8) hn by auto
    have hold: "rp_holds ?r h1 (xs @ [a]) [] (vs @ [th_New H])"
    proof (rule holdsI)
      show "rp_rep ?r (xs @ [a]) []" using rp_sized_update(2) [OF r2(2)] \<open>rp_current r2 = _\<close> by (simp add: rp_rep_def add.commute)
      show "h_obj h1 ((xs @ [a]) ! i) = Some ((vs @ [th_New H]) ! i)" if "i < length (xs @ [a])" for i
      proof (cases "i < length xs")
        case True
        then have "h_obj h1 (xs ! i) = h_obj h (xs ! i)" using frame_keeps hn d(4) by fastforce
        then show ?thesis using True d(2,4) by (simp add: nth_append)
      qed (use that hn d(2) in \<open>simp add: nth_append\<close>)
    qed (use d(2,3,5) Nil hn a new_good in auto)
    have "frame h (set (xs @ ys)) h1 (set (xs @ [a]))"
      using frame_extend [of h "{}" h1 "{a}" "set xs"] hn d(8) Nil by (simp add: insert_commute)
    then show ?thesis using that [of a ?r h1 "[]"] add hold by simp
  qed
qed

lemma clear_slot_holds:
  assumes h: "rp_holds r h xs ys vs" and i: "i < length xs"
  obtains h' where "clear_slot H (int i) r h = Inr h'" "rp_holds r h' xs ys (vs[i := th_New H])" "frame h (set (xs @ ys)) h' (set (xs @ ys))"
proof -
  have "slot (int i) r = Inr (xs ! i)" "h_get (xs ! i) h = Inr (vs ! i)" "th_Clear H (vs ! i) = th_New H"
    using slot_holds [OF h, of i] holdsD(2,4,5) [OF h] i clear_new by (simp_all add: nth_append h_get_def)
  moreover obtain h' where "h_put (xs ! i) (th_New H) h = Inr h'" "rp_holds r h' xs ys (vs[i := th_New H])"
    "frame h (set (xs @ ys)) h' (set (xs @ ys))"
    by (rule h_put_holds [OF h i new_good])
  ultimately show ?thesis using that by (simp add: clear_slot_def)
qed

lemma RP_RemoveLast_holds:
  assumes h: "rp_holds r h (xs @ [a]) ys (vs @ [v])"
  obtains r' h' where "RP_RemoveLast H r h = Inr (r', h')" "rp_holds r' h' xs (a # ys) vs"
    "frame h (set (xs @ a # ys)) h' (set (xs @ a # ys))"
proof -
  note d = holdsD [OF h] and sizes = rp_rep_sizes [OF holdsD(1) [OF h]]
  have len: "length vs = length xs" using d(2) by simp
  obtain h' where h': "clear_slot H (int (length xs)) r h = Inr h'" "rp_holds r h' (xs @ [a]) ys (vs @ [th_New H])"
    "frame h (set (xs @ a # ys)) h' (set (xs @ a # ys))"
    using clear_slot_holds [OF h, of "length xs"] len by (auto simp: list_update_append)
  have "RP_RemoveLast H r h = Inr (r\<lparr>rp_current := int (length xs)\<rparr>, h')"
    using sizes h'(1) by (simp add: RP_RemoveLast_def clear_slot_def)
  then show ?thesis using that holds_demote [of H good r h' xs "[a]" ys vs] h'(2,3) len by simp
qed

lemma clear_slots_holds:
  "rp_holds r h xs ys vs \<Longrightarrow> i + n \<le> length xs \<Longrightarrow>
    \<exists>h'. clear_slots H n (int i) r h = Inr h' \<and> rp_holds r h' xs ys (take i vs @ replicate n (th_New H) @ drop (i + n) vs)
      \<and> frame h (set (xs @ ys)) h' (set (xs @ ys))"
proof (induction n arbitrary: i h vs)
  case 0
  then show ?case using frame_same [OF holdsD(8)] by simp
next
  case (Suc n)
  note len = holdsD(2) [OF Suc.prems(1)]
  have i: "i < length xs" using Suc.prems(2) by simp
  obtain h1 where h1: "clear_slot H (int i) r h = Inr h1" "rp_holds r h1 xs ys (vs[i := th_New H])" "frame h (set (xs @ ys)) h1 (set (xs @ ys))"
    by (rule clear_slot_holds [OF Suc.prems(1) i])
  have "Suc i + n \<le> length xs" using Suc.prems(2) by simp
  from Suc.IH [OF h1(2) this] obtain h2 where
    h2: "clear_slots H n (int (Suc i)) r h1 = Inr h2"
      "rp_holds r h2 xs ys (take (Suc i) (vs[i := th_New H]) @ replicate n (th_New H) @ drop (Suc i + n) (vs[i := th_New H]))"
      "frame h1 (set (xs @ ys)) h2 (set (xs @ ys))"
    by blast
  have "take (Suc i) (vs[i := th_New H]) = take i vs @ [th_New H]" using i len by (simp add: take_Suc_conv_app_nth)
  then show ?case using h1(1) h2 frame_trans [OF h1(3) h2(3)] by (simp add: add.commute)
qed

lemma RP_Clear_holds:
  assumes h: "rp_holds r h xs ys vs"
  obtains r' h' where "RP_Clear H r h = Inr (r', h')" "rp_holds r' h' [] (xs @ ys) []" "frame h (set (xs @ ys)) h' (set (xs @ ys))"
proof -
  note sizes = rp_rep_sizes [OF holdsD(1) [OF h]]
  obtain h' where h': "clear_slots H (length xs) 0 r h = Inr h'" "rp_holds r h' xs ys (replicate (length xs) (th_New H))"
    "frame h (set (xs @ ys)) h' (set (xs @ ys))"
    using clear_slots_holds [OF h, of 0 "length xs"] holdsD(2) [OF h] by auto
  have "RP_Clear H r h = Inr (r\<lparr>rp_current := 0\<rparr>, h')" using sizes h'(1) by (simp add: RP_Clear_def)
  then show ?thesis using that holds_demote [of H good r h' "[]" xs ys "[]"] h'(2,3) by simp
qed

lemma merge_slots_holds:
  "rp_holds r h xs ys vs \<Longrightarrow> rp_holds other h xo yo vo \<Longrightarrow> set (xs @ ys) \<inter> set (xo @ yo) = {} \<Longrightarrow> i + n = length vo \<Longrightarrow>
    \<exists>r' h' xs' ys'. merge_slots H n (int i) other r h = Inr (r', h') \<and> rp_holds r' h' xs' ys' (vs @ drop i vo)
      \<and> frame h (set (xs @ ys)) h' (set (xs' @ ys'))"
proof (induction n arbitrary: i r h xs ys vs)
  case 0
  then show ?case using frame_same [OF holdsD(8) [OF 0(1)]] by fastforce
next
  case (Suc n)
  obtain a r1 h1 ys1 where r1: "RP_Add H r h = Inr (a, r1, h1)" "rp_holds r1 h1 (xs @ [a]) ys1 (vs @ [th_New H])"
    "frame h (set (xs @ ys)) h1 (set (xs @ a # ys1))"
    by (rule RP_Add_holds [OF Suc.prems(1)])
  have o1: "rp_holds other h1 xo yo vo"
    by (rule holds_other [OF Suc.prems(2) r1(3) Suc.prems(3) holds_dom [OF r1(2)]])
  have i: "i < length vo" using Suc.prems(4) by simp
  have good_i: "good (vo ! i)" using holdsD(5) [OF o1] i by simp
  have len: "length vs = length xs" using holdsD(2) [OF Suc.prems(1)] .
  have a: "(xs @ [a]) ! length xs = a" "h_get a h1 = Inr (th_New H)"
    using holdsD(4) [OF r1(2), of "length xs"] len by (simp_all add: h_get_def nth_append)
  obtain h2 where h2: "h_put a (vo ! i) h1 = Inr h2" "rp_holds r1 h2 (xs @ [a]) ys1 (vs @ [vo ! i])"
    "frame h1 (set (xs @ a # ys1)) h2 (set (xs @ a # ys1))"
    using h_put_holds [OF r1(2) _ good_i, of "length xs"] a(1) len by (auto simp: list_update_append insert_commute)
  have disj: "set ((xs @ [a]) @ ys1) \<inter> set (xo @ yo) = {}"
  proof -
    have "set (xo @ yo) \<subseteq> dom (h_obj h) - set (xs @ ys)" using Suc.prems(3) holdsD(8) [OF Suc.prems(2)] by blast
    moreover have "set (xs @ a # ys1) \<inter> (dom (h_obj h) - set (xs @ ys)) = {}" using r1(3) unfolding frame_def by blast
    moreover have "set ((xs @ [a]) @ ys1) = set (xs @ a # ys1)" by simp
    ultimately show ?thesis by blast
  qed
  have o2: "rp_holds other h2 xo yo vo"
    by (rule holds_other [OF o1 h2(3) _ holds_dom [OF h2(2)]]) (use disj in auto)
  have "Suc i + n = length vo" using Suc.prems(4) by simp
  from Suc.IH [OF h2(2) o2 disj this] obtain r' h' xs' ys' where
    r': "merge_slots H n (int (Suc i)) other r1 h2 = Inr (r', h')" "rp_holds r' h' xs' ys' ((vs @ [vo ! i]) @ drop (Suc i) vo)"
      "frame h2 (set ((xs @ [a]) @ ys1)) h' (set (xs' @ ys'))"
    by blast
  have "merge_slots H (Suc n) (int i) other r h = Inr (r', h')"
    using r1(1) RP_Get_holds [OF o1 i] a(2) merge_new [OF good_i] h2(1) r'(1) by (simp add: add.commute)
  moreover have "(vs @ [vo ! i]) @ drop (Suc i) vo = vs @ drop i vo" using i by (simp add: Cons_nth_drop_Suc)
  moreover have "frame h (set (xs @ ys)) h' (set (xs' @ ys'))"
    using frame_trans [OF frame_trans [OF r1(3) h2(3)]] r'(3) by simp
  ultimately show ?case using r'(2) by metis
qed

lemma RP_Reserve_holds: "rp_holds r h xs ys vs \<Longrightarrow> rp_holds (RP_Reserve n r) h xs ys vs"
  using RP_Reserve_sized [of r "xs @ ys" "int (length xs)" n] by (simp add: holds_def rp_rep_def)

lemma RP_MergeFrom_holds:
  assumes "rp_holds r h xs ys vs" "rp_holds other h xo yo vo" "set (xs @ ys) \<inter> set (xo @ yo) = {}"
  obtains r' h' xs' ys' where "RP_MergeFrom H other r h = Inr (r', h')" "rp_holds r' h' xs' ys' (vs @ vo)"
    "frame h (set (xs @ ys)) h' (set (xs' @ ys'))"
proof -
  have "rp_current other = int (length vo)" using holds_size [OF assms(2)] by (simp add: RP_size_def)
  have "0 + length vo = length vo" by simp
  from merge_slots_holds [OF RP_Reserve_holds [OF assms(1), of "rp_current r + rp_current other"] assms(2,3) this] obtain r' h' xs' ys' where
    "merge_slots H (length vo) (int 0) other (RP_Reserve (rp_current r + rp_current other) r) h = Inr (r', h')"
    "rp_holds r' h' xs' ys' (vs @ drop 0 vo)" "frame h (set (xs @ ys)) h' (set (xs' @ ys'))"
    by blast
  then show ?thesis using that \<open>rp_current other = _\<close> by (simp add: RP_MergeFrom_def)
qed

lemma RP_CopyFrom_holds:
  assumes "rp_holds r h xs ys vs" "rp_holds other h xo yo vo" "set (xs @ ys) \<inter> set (xo @ yo) = {}"
  obtains r' h' xs' ys' where "RP_CopyFrom H other r h = Inr (r', h')" "rp_holds r' h' xs' ys' vo"
    "frame h (set (xs @ ys)) h' (set (xs' @ ys'))"
proof -
  obtain r1 h1 where r1: "RP_Clear H r h = Inr (r1, h1)" "rp_holds r1 h1 [] (xs @ ys) []" "frame h (set (xs @ ys)) h1 (set (xs @ ys))"
    by (rule RP_Clear_holds [OF assms(1)])
  have "rp_holds other h1 xo yo vo" by (rule holds_other [OF assms(2) r1(3) assms(3) holds_dom [OF r1(2)]])
  then obtain r' h' xs' ys' where "RP_MergeFrom H other r1 h1 = Inr (r', h')" "rp_holds r' h' xs' ys' vo" "frame h1 (set (xs @ ys)) h' (set (xs' @ ys'))"
    by (rule RP_MergeFrom_holds [OF r1(2)]) (use assms(3) in simp_all)
  then show ?thesis using that r1(1) frame_trans [OF r1(3)] by (simp add: RP_CopyFrom_def)
qed

lemma RP_new_holds: "dom (h_obj h) \<subseteq> {..<h_next h} \<Longrightarrow> rp_holds RP_new h [] [] []"
  by (simp add: holds_def rp_rep_def rp_sized_def RP_new_def)

lemma add_value_holds:
  assumes h: "rp_holds r h xs ys vs" and v: "good v"
  obtains r' h' xs' ys' where "add_value H v r h = Inr (r', h')" "rp_holds r' h' xs' ys' (vs @ [v])"
    "frame h (set (xs @ ys)) h' (set (xs' @ ys'))"
proof -
  obtain a r1 h1 ys1 where r1: "RP_Add H r h = Inr (a, r1, h1)" "rp_holds r1 h1 (xs @ [a]) ys1 (vs @ [th_New H])"
    "frame h (set (xs @ ys)) h1 (set (xs @ a # ys1))"
    by (rule RP_Add_holds [OF h])
  have len: "length vs = length xs" using holdsD(2) [OF h] .
  obtain h2 where h2: "h_put a v h1 = Inr h2" "rp_holds r1 h2 (xs @ [a]) ys1 (vs @ [v])" "frame h1 (set (xs @ a # ys1)) h2 (set (xs @ a # ys1))"
    using h_put_holds [OF r1(2) _ v, of "length xs"] len by (auto simp: list_update_append insert_commute nth_append)
  then show ?thesis using that [of r1 h2 "xs @ [a]" ys1] r1(1) frame_trans [OF r1(3) h2(3)] by (simp add: add_value_def)
qed

lemma add_values_holds:
  "rp_holds r h xs ys vs \<Longrightarrow> \<forall>v\<in>set us. good v \<Longrightarrow>
    \<exists>r' h' xs' ys'. add_values H us r h = Inr (r', h') \<and> rp_holds r' h' xs' ys' (vs @ us) \<and> frame h (set (xs @ ys)) h' (set (xs' @ ys'))"
proof (induction us arbitrary: r h xs ys vs)
  case Nil
  then show ?case using frame_same [OF holdsD(8) [OF Nil(1)]] by fastforce
next
  case (Cons u us)
  obtain r1 h1 xs1 ys1 where 1: "add_value H u r h = Inr (r1, h1)" "rp_holds r1 h1 xs1 ys1 (vs @ [u])"
    "frame h (set (xs @ ys)) h1 (set (xs1 @ ys1))"
    by (rule add_value_holds [OF Cons.prems(1)]) (use Cons.prems(2) in auto)
  have "\<forall>v\<in>set us. good v" using Cons.prems(2) by simp
  from Cons.IH [OF 1(2) this] obtain r' h' xs' ys' where
    "add_values H us r1 h1 = Inr (r', h')" "rp_holds r' h' xs' ys' ((vs @ [u]) @ us)" "frame h1 (set (xs1 @ ys1)) h' (set (xs' @ ys'))"
    by blast
  then show ?case using 1(1) frame_trans [OF 1(3)] by auto
qed

lemma RP_from_range_holds:
  assumes "dom (h_obj h) \<subseteq> {..<h_next h}" "\<forall>v\<in>set us. good v"
  obtains r h' xs ys where "RP_from_range H us h = Inr (r, h')" "rp_holds r h' xs ys us" "frame h {} h' (set (xs @ ys))"
  using add_values_holds [OF RP_new_holds [OF assms(1)] assms(2)] that by (auto simp: RP_from_range_def)

text \<open>An object of the caller becomes the last element; a cleared one may be deleted for it.\<close>

lemma holds_allocated:
  assumes h: "rp_holds r h xs ys vs" and a: "h_obj h a = Some v" "a \<notin> set (xs @ ys)" "good v"
    and r': "rp_rep r' (xs @ [a]) ys'" and sub: "set ys' \<subseteq> set ys" "distinct ys'"
    and h2: "\<And>b. h_obj h2 b = (if b \<in> set ys - set ys' then None else h_obj h b)" "h_next h2 = h_next h"
  shows "rp_holds r' h2 (xs @ [a]) ys' (vs @ [v]) \<and> frame h (insert a (set (xs @ ys))) h2 (set (xs @ a # ys'))"
proof
  note d = holdsD [OF h]
  have x: "xs ! i \<notin> set ys" if "i < length xs" for i using nth_mem [OF that] d(3) by auto
  show "rp_holds r' h2 (xs @ [a]) ys' (vs @ [v])"
  proof (rule holdsI [OF r'])
    show "h_obj h2 ((xs @ [a]) ! i) = Some ((vs @ [v]) ! i)" if "i < length (xs @ [a])" for i
    proof (cases "i < length xs")
      case True
      then show ?thesis using x d(2,4) by (simp add: nth_append h2(1))
    qed (use that a d(2) in \<open>simp add: nth_append h2(1)\<close>)
    show "dom (h_obj h2) \<subseteq> {..<h_next h2}" using holds_dom [OF h] h2 by (auto simp: subset_iff domIff)
    show "h_obj h2 b = Some (th_New H)" if "b \<in> set ys'" for b using that sub(1) d(6) h2(1) by auto
    show "distinct ((xs @ [a]) @ ys')" using d(3) a(2) sub by auto
  qed (use d(2,5) a(3) in auto)
  have "dom (h_obj h2) = dom (h_obj h) - (set ys - set ys')" using h2(1) by (auto simp: domIff split: if_splits)
  then show "frame h (insert a (set (xs @ ys))) h2 (set (xs @ a # ys'))"
    using d(3,8) a(1,2) sub(1) h2 unfolding frame_def by auto
qed

lemma RP_AddAllocated_holds:
  assumes h: "rp_holds r h xs ys vs" and a: "h_obj h a = Some v" "a \<notin> set (xs @ ys)" "good v"
  obtains r' h' ys' where "RP_AddAllocated a r h = Inr (r', h')" "rp_holds r' h' (xs @ [a]) ys' (vs @ [v])"
    "frame h (insert a (set (xs @ ys))) h' (set (xs @ a # ys'))"
proof -
  note d = holdsD [OF h] and sizes = rp_rep_sizes [OF holdsD(1) [OF h]]
  have sized: "rp_sized r (xs @ ys) (int (length xs)) (int (length (xs @ ys)))" using d(1) by (simp add: rp_rep_def)
  text \<open>Storing the pointer at the end, or over the first cleared one.\<close>
  have at_end: "\<exists>r'. ebind (set_slot (rp_current r2) a r2) (\<lambda>r3. Inr (r3\<lparr>rp_current := rp_current r3 + 1\<rparr>, h2)) = Inr (r', h2) \<and> rp_rep r' (xs @ [a]) []"
    if r2: "rp_sized r2 xs (int (length xs)) (int (length xs) + 1)" "int (length xs) < rp_total r2" for r2 and h2 :: "'m heap"
  proof -
    obtain r3 where r3: "set_slot (int (length xs)) a r2 = Inr r3" "rp_sized r3 (xs @ [a]) (int (length xs)) (int (length xs) + 1)"
      using set_slot_end [OF r2] by blast
    then have "rp_rep (r3\<lparr>rp_current := int (length xs) + 1\<rparr>) (xs @ [a]) []"
      using rp_sized_update(2) [OF r3(2), of "int (length xs) + 1"] by (simp add: rp_rep_def add.commute)
    then show ?thesis using r3 rp_sized_fields [OF r2(1)] rp_sized_fields [OF r3(2)] by simp
  qed
  have over: "\<exists>r'. ebind (set_slot (rp_current r2) a r2) (\<lambda>r3. Inr (r3\<lparr>rp_current := rp_current r3 + 1\<rparr>, h2)) = Inr (r', h2) \<and> rp_rep r' (xs @ [a]) ys'"
    if r2: "rp_sized r2 (xs @ z # ys') (int (length xs)) (int (length xs + 1 + length ys'))" for r2 z ys' and h2 :: "'m heap"
  proof -
    obtain r3 where r3: "set_slot (int (length xs)) a r2 = Inr r3" "rp_sized r3 (xs @ a # ys') (int (length xs)) (int (length xs + 1 + length ys'))"
      using set_slot_sized [OF r2, of "length xs" a] by auto
    then have "rp_rep (r3\<lparr>rp_current := int (length xs) + 1\<rparr>) (xs @ [a]) ys'"
      using rp_sized_update(2) [OF r3(2), of "int (length xs) + 1"] by (simp add: rp_rep_def add.commute)
    then show ?thesis using r3 rp_sized_fields [OF r2(1)] rp_sized_fields [OF r3(2)] by simp
  qed
  show ?thesis
  proof (cases ys)
    case Nil
    have prep: "\<exists>r2. RP_AddAllocated a r h = ebind (set_slot (rp_current r2) a r2) (\<lambda>r3. Inr (r3\<lparr>rp_current := rp_current r3 + 1\<rparr>, h))
        \<and> rp_sized r2 xs (int (length xs)) (int (length xs) + 1) \<and> int (length xs) < rp_total r2"
    proof (cases "rp_current r = rp_total r")
      case True
      let ?r = "RP_Reserve (rp_total r + 1) r"
      have "rp_sized ?r xs (int (length xs)) (int (length xs)) \<and> rp_total r + 1 \<le> rp_total ?r"
        using RP_Reserve_sized [of r xs "int (length xs)" "rp_total r + 1"] sized Nil by simp
      note res = this
      let ?r2 = "?r\<lparr>rp_allocated := rp_allocated ?r + 1\<rparr>"
      have "rp_sized ?r2 xs (int (length xs)) (int (length xs) + 1)" "int (length xs) < rp_total ?r2"
        using res rp_sized_update(3) [of ?r xs "int (length xs)" "int (length xs)"] rp_sized_fields [of ?r] True sizes by auto
      moreover have "RP_AddAllocated a r h = ebind (set_slot (rp_current ?r2) a ?r2) (\<lambda>r3. Inr (r3\<lparr>rp_current := rp_current r3 + 1\<rparr>, h))"
        using True by (simp add: RP_AddAllocated_def Let_def)
      ultimately show ?thesis by blast
    next
      case False
      then show ?thesis using sizes Nil sized rp_sized_update(3) [of r xs]
        by (intro exI [of _ "r\<lparr>rp_allocated := rp_allocated r + 1\<rparr>"]) (auto simp: RP_AddAllocated_def)
    qed
    then obtain r2 where r2: "RP_AddAllocated a r h = ebind (set_slot (rp_current r2) a r2) (\<lambda>r3. Inr (r3\<lparr>rp_current := rp_current r3 + 1\<rparr>, h))"
      "rp_sized r2 xs (int (length xs)) (int (length xs) + 1)" "int (length xs) < rp_total r2"
      by blast
    obtain r' where r': "RP_AddAllocated a r h = Inr (r', h)" "rp_rep r' (xs @ [a]) []" using at_end [OF r2(2,3), of h] r2(1) by auto
    then show ?thesis using that [of r' h "[]"] holds_allocated [OF h a r'(2), of h] Nil by simp
  next
    case (Cons y zs)
    have y: "slot (rp_current r) r = Inr y" using slot_holds [OF h, of "length xs"] sizes Cons by simp
    have lt: "rp_current r < rp_allocated r" "rp_current r \<noteq> rp_total r" using sizes Cons by auto
    have dy: "distinct zs" "y \<notin> set zs" using d(3) Cons by auto
    show ?thesis
    proof (cases "rp_allocated r = rp_total r")
      case True
      let ?h = "h\<lparr>h_obj := (h_obj h)(y := None)\<rparr>"
      have "h_delete y h = Inr ?h" using d(8) Cons by (auto simp: h_delete_def domIff)
      then have "RP_AddAllocated a r h = ebind (set_slot (rp_current r) a r) (\<lambda>r3. Inr (r3\<lparr>rp_current := rp_current r3 + 1\<rparr>, ?h))"
        using True y lt by (simp add: RP_AddAllocated_def)
      moreover have "rp_sized r (xs @ y # zs) (int (length xs)) (int (length xs + 1 + length zs))" using sized Cons by simp
      ultimately obtain r' where r': "RP_AddAllocated a r h = Inr (r', ?h)" "rp_rep r' (xs @ [a]) zs" using over [of r y zs ?h] by auto
      have "rp_holds r' ?h (xs @ [a]) zs (vs @ [v]) \<and> frame h (insert a (set (xs @ ys))) ?h (set (xs @ a # zs))"
        by (rule holds_allocated [OF h a r'(2)]) (use Cons dy in auto)
      then show ?thesis using that r'(1) by blast
    next
      case False
      then have room: "int (length (xs @ ys)) < rp_total r" using sizes by simp
      obtain r1 where r1: "set_slot (int (length (xs @ ys))) y r = Inr r1" "rp_sized r1 ((xs @ ys) @ [y]) (int (length xs)) (int (length (xs @ ys)))"
        using set_slot_end [OF sized room] by blast
      let ?r = "r1\<lparr>rp_allocated := rp_allocated r1 + 1\<rparr>"
      have "rp_sized ?r (xs @ y # (zs @ [y])) (int (length xs)) (int (length xs + 1 + length (zs @ [y])))"
        using rp_sized_update(3) [OF r1(2)] rp_sized_fields [OF r1(2)] Cons by (simp add: ac_simps)
      moreover have "RP_AddAllocated a r h = ebind (set_slot (rp_current ?r) a ?r) (\<lambda>r3. Inr (r3\<lparr>rp_current := rp_current r3 + 1\<rparr>, h))"
        using False lt y r1(1) sizes by (simp add: RP_AddAllocated_def)
      ultimately obtain r' where r': "RP_AddAllocated a r h = Inr (r', h)" "rp_rep r' (xs @ [a]) (zs @ [y])" using over [of ?r y "zs @ [y]" h] by auto
      have "rp_holds r' h (xs @ [a]) (zs @ [y]) (vs @ [v]) \<and> frame h (insert a (set (xs @ ys))) h (set (xs @ a # zs @ [y]))"
        by (rule holds_allocated [OF h a r'(2)]) (use Cons dy in auto)
      then show ?thesis using that r'(1) by blast
    qed
  qed
qed

text \<open>The last element becomes an object of the caller.\<close>

lemma RP_ReleaseLast_holds:
  assumes h: "rp_holds r h (xs @ [a]) ys (vs @ [v])"
  obtains r' ys' where "RP_ReleaseLast r = Inr (a, r')" "rp_holds r' h xs ys' vs" "set ys' = set ys" "h_obj h a = Some v" "a \<notin> set (xs @ ys)"
proof -
  note d = holdsD [OF h] and sizes = rp_rep_sizes [OF holdsD(1) [OF h]]
  have len: "length vs = length xs" using d(2) by simp
  have sized: "rp_sized r (xs @ a # ys) (int (length xs + 1)) (int (length xs + 1 + length ys))" using d(1) by (simp add: rp_rep_def)
  define r1 where "r1 = r\<lparr>rp_current := rp_current r - 1, rp_allocated := rp_allocated r - 1\<rparr>"
  have r1: "rp_sized r1 (xs @ a # ys) (int (length xs)) (int (length xs + length ys))"
    using rp_sized_update(1) [OF sized] sizes by (simp add: r1_def)
  have fields: "rp_current r1 = int (length xs)" "rp_allocated r1 = int (length xs + length ys)" using rp_sized_fields [OF r1] by auto
  have "rp_current r > 0" using sizes by simp
  then have rl: "RP_ReleaseLast r = ebind (slot (rp_current r1) r1) (\<lambda>result.
      if rp_current r1 < rp_allocated r1 then
        ebind (slot (rp_allocated r1) r1) (\<lambda>c. ebind (set_slot (rp_current r1) c r1) (\<lambda>r2. Inr (result, r2)))
      else Inr (result, r1))"
    by (simp only: RP_ReleaseLast_def Let_def r1_def not_True_eq_False if_False)
  have first: "slot (int (length xs)) r1 = Inr a" using slot_sized [OF r1, of "length xs"] by simp
  have "\<exists>r' ys'. RP_ReleaseLast r = Inr (a, r') \<and> rp_rep r' xs ys' \<and> mset ys' = mset ys"
  proof (cases ys rule: rev_cases)
    case Nil
    then have "RP_ReleaseLast r = Inr (a, r1)" using first fields by (simp add: rl)
    moreover have "rp_rep r1 xs []" using rp_sized_fewer [of r1 xs "[a]"] r1 Nil by (simp add: rp_rep_def)
    ultimately show ?thesis using Nil by auto
  next
    case (snoc zs y)
    have last: "slot (rp_allocated r1) r1 = Inr y" using slot_sized [OF r1, of "length xs + length ys"] snoc fields by (simp add: nth_append)
    obtain r2 where r2: "set_slot (int (length xs)) y r1 = Inr r2" "rp_sized r2 ((xs @ y # zs) @ [y]) (int (length xs)) (int (length xs + length ys))"
      using set_slot_sized [OF r1, of "length xs" y] snoc by auto
    have "RP_ReleaseLast r = Inr (a, r2)"
      using first last r2(1) fields snoc by (simp add: rl)
    moreover have "rp_rep r2 xs (y # zs)" using rp_sized_fewer [OF r2(2)] snoc by (simp add: rp_rep_def)
    ultimately show ?thesis using snoc by auto
  qed
  then obtain r' ys' where r': "RP_ReleaseLast r = Inr (a, r')" "rp_rep r' xs ys'" "mset ys' = mset ys" by blast
  then have ys': "set ys' = set ys" "distinct ys'" using d(3) by (metis mset_eq_setD, metis distinct_append mset_eq_imp_distinct_iff)
  have "rp_holds r' h xs ys' vs"
  proof (rule holdsI [OF r'(2)])
    show "h_obj h (xs ! i) = Some (vs ! i)" if "i < length xs" for i using d(4) [of i] that len by (simp add: nth_append)
  qed (use d ys' len holds_dom [OF h] in auto)
  moreover have "h_obj h a = Some v" using d(4) [of "length xs"] len by (simp add: nth_append)
  ultimately show ?thesis using that r'(1) ys'(1) d(3) by simp
qed

lemma get_slots_holds:
  "rp_holds r h xs ys vs \<Longrightarrow> i + n \<le> length xs \<Longrightarrow> get_slots n (int i) r = Inr (take n (drop i xs))"
proof (induction n arbitrary: i)
  case (Suc n)
  have "get_slots n (int (Suc i)) r = Inr (take n (drop (Suc i) xs))" using Suc.IH [of "Suc i"] Suc.prems by simp
  moreover have "RP_Mutable (int i) r = Inr (xs ! i)"
    using slot_holds [OF Suc.prems(1), of i] holds_size [OF Suc.prems(1)] holdsD(2) [OF Suc.prems(1)] Suc.prems(2) by (simp add: RP_Mutable_def nth_append)
  moreover have "drop i xs = xs ! i # drop (Suc i) xs" using Suc.prems(2) by (simp add: Cons_nth_drop_Suc)
  ultimately show ?case by (simp add: add.commute)
qed simp

end

lemma close_gap_loop_sized:
  "rp_sized r as c m \<Longrightarrow> i + n = length as \<Longrightarrow> num \<le> i \<Longrightarrow>
    \<exists>r' bs. close_gap_loop n (int i) (int num) r = Inr r' \<and> rp_sized r' bs c m \<and> take (i - num + n) bs = take (i - num) as @ drop i as"
proof (induction n arbitrary: i r as)
  case (Suc n)
  have i: "i < length as" "i - num < length as" using Suc.prems(2) by simp_all
  let ?as = "as[i - num := as ! i]"
  obtain r1 where r1: "set_slot (int (i - num)) (as ! i) r = Inr r1" "rp_sized r1 ?as c m"
    using set_slot_sized [OF Suc.prems(1) i(2)] by blast
  have "Suc i + n = length ?as" "num \<le> Suc i" using Suc.prems(2,3) by simp_all
  from Suc.IH [OF r1(2) this] obtain r' bs where
    r': "close_gap_loop n (int (Suc i)) (int num) r1 = Inr r'" "rp_sized r' bs c m"
      "take (Suc i - num + n) bs = take (Suc i - num) ?as @ drop (Suc i) ?as"
    by blast
  have "close_gap_loop (Suc n) (int i) (int num) r = Inr r'"
    using slot_sized [OF Suc.prems(1) i(1)] r1(1) r'(1) Suc.prems(3) by (simp add: of_nat_diff add.commute)
  moreover have "take (Suc i - num) ?as = take (i - num) as @ [as ! i]"
    using Suc.prems(3) i by (simp add: Suc_diff_le take_Suc_conv_app_nth)
  moreover have "drop (Suc i) ?as = drop (Suc i) as" by simp
  moreover have "i - num + Suc n = Suc i - num + n" using Suc.prems(3) by simp
  moreover have "as ! i # drop (Suc i) as = drop i as" using i by (simp add: Cons_nth_drop_Suc)
  ultimately show ?case using r'(2,3) by (metis append.assoc append_Cons append_Nil)
qed (auto intro!: exI)

lemma delete_slots_frame:
  "rp_sized r as c m \<Longrightarrow> i + n \<le> length as \<Longrightarrow> distinct as \<Longrightarrow> set (take n (drop i as)) \<subseteq> dom (h_obj h) \<Longrightarrow>
    \<exists>h'. delete_slots n (int i) r h = Inr h' \<and> h_obj h' = h_obj h |` (- set (take n (drop i as))) \<and> h_next h' = h_next h"
proof (induction n arbitrary: i h)
  case (Suc n)
  have i: "i < length as" using Suc.prems(2) by simp
  have d: "drop i as = as ! i # drop (Suc i) as" using i by (simp add: Cons_nth_drop_Suc)
  have fresh: "as ! i \<notin> set (take n (drop (Suc i) as))"
    using Suc.prems(3) i by (metis d distinct.simps(2) distinct_drop in_set_takeD)
  let ?h = "h\<lparr>h_obj := (h_obj h)(as ! i := None)\<rparr>"
  have del: "h_delete (as ! i) h = Inr ?h" using Suc.prems(4) d by (auto simp: h_delete_def domIff)
  have "Suc i + n \<le> length as" "set (take n (drop (Suc i) as)) \<subseteq> dom (h_obj ?h)" using Suc.prems(2,4) d fresh by (auto simp: domIff)
  from Suc.IH [OF Suc.prems(1) this(1) Suc.prems(3) this(2)] obtain h' where
    h': "delete_slots n (int (Suc i)) r ?h = Inr h'" "h_obj h' = h_obj ?h |` (- set (take n (drop (Suc i) as)))" "h_next h' = h_next ?h"
    by blast
  have "delete_slots (Suc n) (int i) r h = Inr h'" using slot_sized [OF Suc.prems(1) i] del h'(1) by (simp add: add.commute)
  moreover have "h_obj h' = h_obj h |` (- set (take (Suc n) (drop i as)))" by (auto simp: h'(2) d restrict_map_def)
  ultimately show ?case using h'(3) by auto
qed (auto simp: restrict_map_def)

context type_handler
begin

lemma CloseGap_rep:
  assumes r: "rp_rep r xs ys" and len: "s + n \<le> length xs"
  obtains r' where "CloseGap (int s) (int n) r = Inr r'" "rp_rep r' (take s xs @ drop (s + n) xs) ys"
proof -
  let ?as = "xs @ ys"
  have sized: "rp_sized r ?as (int (length xs)) (int (length ?as))" using r by (simp add: rp_rep_def)
  have "(s + n) + (length ?as - (s + n)) = length ?as" using len by simp
  from close_gap_loop_sized [OF sized this le_add2] obtain r1 bs where
    r1: "close_gap_loop (length ?as - (s + n)) (int (s + n)) (int n) r = Inr r1" "rp_sized r1 bs (int (length xs)) (int (length ?as))"
      "take (s + n - n + (length ?as - (s + n))) bs = take (s + n - n) ?as @ drop (s + n) ?as"
    by blast
  let ?bs = "take s xs @ drop (s + n) xs @ ys"
  have bs: "take (s + (length ?as - (s + n))) bs = ?bs" using r1(3) len by simp
  have "rp_sized r1 (?bs @ drop (s + (length ?as - (s + n))) bs) (int (length xs)) (int (length ?as))"
    using r1(2) bs by (metis append_take_drop_id)
  then have "rp_sized r1 ?bs (int (length xs)) (int (length ?as))" by (rule rp_sized_fewer)
  then have "rp_sized (r1\<lparr>rp_current := int (length xs) - int n, rp_allocated := int (length ?as) - int n\<rparr>) ?bs
      (int (length xs) - int n) (int (length ?as) - int n)"
    by (rule rp_sized_update)
  then have "rp_rep (r1\<lparr>rp_current := int (length xs) - int n, rp_allocated := int (length ?as) - int n\<rparr>) (take s xs @ drop (s + n) xs) ys"
    using len by (simp add: rp_rep_def of_nat_diff)
  moreover have "CloseGap (int s) (int n) r = Inr (r1\<lparr>rp_current := int (length xs) - int n, rp_allocated := int (length ?as) - int n\<rparr>)"
  proof -
    have "nat (rp_allocated r - (int s + int n)) = length ?as - (s + n)" using rp_rep_sizes [OF r] by simp
    then show ?thesis using r1(1) rp_sized_fields [OF r1(2)] by (simp add: CloseGap_def)
  qed
  ultimately show ?thesis using that by blast
qed

text \<open>Taking a range out: the caller has the objects, if it has asked for them, and no one has them otherwise.\<close>

lemma RP_ExtractSubrange_rep:
  assumes r: "rp_holds r h xs ys vs" and len: "s + n \<le> length xs"
  obtains r' where "RP_ExtractSubrange (int s) (int n) wanted r = Inr (if wanted then take n (drop s xs) else [], r')"
    "rp_rep r' (take s xs @ drop (s + n) xs) ys"
proof (cases "n = 0")
  case True
  then show ?thesis using that [of r] len holdsD(1,2) [OF r] holds_size [OF r] by (simp add: RP_ExtractSubrange_def)
next
  case False
  obtain r' where r': "CloseGap (int s) (int n) r = Inr r'" "rp_rep r' (take s xs @ drop (s + n) xs) ys"
    by (rule CloseGap_rep [OF holdsD(1) [OF r] len])
  have "(if wanted then get_slots (nat (int n)) (int s) r else Inr []) = Inr (if wanted then take n (drop s xs) else [])"
    using get_slots_holds [OF r len] by simp
  moreover have "int s + int n \<le> RP_size r" using len holdsD(2) [OF r] holds_size [OF r] by simp
  ultimately have "RP_ExtractSubrange (int s) (int n) wanted r = Inr (if wanted then take n (drop s xs) else [], r')"
    using False r'(1) unfolding RP_ExtractSubrange_def by simp
  then show ?thesis using that r'(2) by blast
qed

lemma split_range: "s + n \<le> length xs \<Longrightarrow> xs = take s xs @ take n (drop s xs) @ drop (s + n) xs"
  by (metis add.commute append_take_drop_id drop_drop)

lemma holds_range:
  assumes h: "rp_holds r h xs ys vs" and len: "s + n \<le> length xs" and r': "rp_rep r' (take s xs @ drop (s + n) xs) ys"
    and h2: "\<And>b. b \<notin> set (take n (drop s xs)) \<Longrightarrow> h_obj h2 b = h_obj h b" "dom (h_obj h2) \<subseteq> {..<h_next h2}"
  shows "rp_holds r' h2 (take s xs @ drop (s + n) xs) ys (take s vs @ drop (s + n) vs)"
proof -
  define m where "m = take n (drop s xs)"
  note d = holdsD [OF h]
  have split: "xs = take s xs @ m @ drop (s + n) xs" using split_range [OF len] by (simp add: m_def)
  then have "distinct ((take s xs @ m @ drop (s + n) xs) @ ys)" using d(3) by metis
  then have dist: "distinct ((take s xs @ drop (s + n) xs) @ ys)" "set m \<inter> set ((take s xs @ drop (s + n) xs) @ ys) = {}" by auto
  then have same: "h_obj h2 b = h_obj h b" if "b \<in> set ((take s xs @ drop (s + n) xs) @ ys)" for b
    using h2(1) that unfolding m_def by blast
  have "map (h_obj h) xs = map Some vs" using h by (simp add: holds_def)
  then have "map (h_obj h) (take s xs @ drop (s + n) xs) = map Some (take s vs @ drop (s + n) vs)"
    by (metis drop_map map_append take_map)
  moreover have "map (h_obj h2) (take s xs @ drop (s + n) xs) = map (h_obj h) (take s xs @ drop (s + n) xs)" by (intro map_cong refl same) auto
  moreover have "good v" if "v \<in> set (take s vs @ drop (s + n) vs)" for v using d(5) that by (auto dest: in_set_takeD in_set_dropD)
  moreover have "h_obj h2 b = Some (th_New H)" if "b \<in> set ys" for b using same d(6) that by auto
  ultimately show ?thesis using r' dist(1) h2(2) unfolding holds_def by auto
qed

lemma RP_DeleteSubrange_holds:
  assumes h: "rp_holds r h xs ys vs" and len: "s + n \<le> length xs"
  obtains r' h' where "RP_DeleteSubrange (int s) (int n) r h = Inr (r', h')"
    "rp_holds r' h' (take s xs @ drop (s + n) xs) ys (take s vs @ drop (s + n) vs)"
    "frame h (set (xs @ ys)) h' (set ((take s xs @ drop (s + n) xs) @ ys))"
proof -
  note d = holdsD [OF h]
  define m where "m = take n (drop s xs)"
  have sized: "rp_sized r (xs @ ys) (int (length xs)) (int (length xs + length ys))" using d(1) by (simp add: rp_rep_def)
  have m: "take n (drop s (xs @ ys)) = m" using len by (simp add: m_def)
  have split: "xs = take s xs @ m @ drop (s + n) xs" using split_range [OF len] by (simp add: m_def)
  have sub: "set m \<subseteq> set xs" unfolding m_def by (auto dest: in_set_takeD in_set_dropD)
  obtain h' where h': "delete_slots n (int s) r h = Inr h'" "h_obj h' = h_obj h |` (- set m)" "h_next h' = h_next h"
    using delete_slots_frame [OF sized _ d(3), of s n h, unfolded m] len sub d(8) by auto
  obtain r' where r': "RP_ExtractSubrange (int s) (int n) False r = Inr ([], r')" "rp_rep r' (take s xs @ drop (s + n) xs) ys"
    by (rule RP_ExtractSubrange_rep [OF h len, of False]) simp
  have dom': "dom (h_obj h') = dom (h_obj h) - set m" using h'(2) by auto
  have hold: "rp_holds r' h' (take s xs @ drop (s + n) xs) ys (take s vs @ drop (s + n) vs)"
    by (rule holds_range [OF h len r'(2)]) (use h'(2,3) dom' holds_dom [OF h] in \<open>auto simp: m_def restrict_map_def\<close>)
  have "distinct ((take s xs @ m @ drop (s + n) xs) @ ys)" using d(3) split by metis
  then have "set m \<inter> set ((take s xs @ drop (s + n) xs) @ ys) = {}" by auto
  moreover have "set (xs @ ys) = set m \<union> set ((take s xs @ drop (s + n) xs) @ ys)" using arg_cong [OF split, of set] by auto
  ultimately have "frame h (set (xs @ ys)) h' (set ((take s xs @ drop (s + n) xs) @ ys))"
    using h'(2,3) dom' d(8) unfolding frame_def by (auto simp: restrict_map_def)
  moreover have "RP_DeleteSubrange (int s) (int n) r h = Inr (r', h')"
    using len d(2) h'(1) r'(1) holds_size [OF h] by (simp add: RP_DeleteSubrange_def)
  ultimately show ?thesis using that hold by blast
qed

lemma RP_Destroy_holds:
  assumes h: "rp_holds r h xs ys vs"
  obtains h' where "RP_Destroy r h = Inr h'" "frame h (set (xs @ ys)) h' {}" "dom (h_obj h') \<subseteq> {..<h_next h'}"
proof -
  note d = holdsD [OF h]
  have sized: "rp_sized r (xs @ ys) (int (length xs)) (int (length xs + length ys))" using d(1) by (simp add: rp_rep_def)
  obtain h' where h': "delete_slots (length (xs @ ys)) (int 0) r h = Inr h'" "h_obj h' = h_obj h |` (- set (xs @ ys))" "h_next h' = h_next h"
    using delete_slots_frame [OF sized _ d(3), of 0 "length (xs @ ys)" h] d(8) by auto
  have "nat (rp_allocated r) = length (xs @ ys)" using rp_rep_sizes [OF d(1)] by simp
  then have "RP_Destroy r h = Inr h'" using h'(1) by (simp add: RP_Destroy_def)
  moreover have "frame h (set (xs @ ys)) h' {}" using h'(2,3) by (auto simp: frame_def restrict_map_def split: if_splits)
  moreover have "dom (h_obj h') \<subseteq> {..<h_next h'}" using holds_dom [OF h] h'(2,3) by auto
  ultimately show ?thesis using that by blast
qed

lemma RP_SwapElements_holds:
  assumes h: "rp_holds r h xs ys vs" and i: "i < length xs" "j < length xs"
  obtains r' where "RP_SwapElements (int i) (int j) r = Inr r'" "rp_holds r' h (xs[i := xs ! j, j := xs ! i]) ys (vs[i := vs ! j, j := vs ! i])"
proof -
  note d = holdsD [OF h]
  let ?xs = "xs[i := xs ! j, j := xs ! i]"
  obtain junk where r: "rp_elements r = map Some xs @ map Some ys @ junk" "rp_total r = int (length xs + length ys + length junk)"
    "rp_current r = int (length xs)" "rp_allocated r = int (length xs + length ys)"
    using d(1) by (auto simp: rp_rep_def rp_sized_def)
  let ?r = "r\<lparr>rp_elements := map Some ?xs @ map Some ys @ junk\<rparr>"
  have "RP_SwapElements (int i) (int j) r = Inr ?r" using i by (simp add: RP_SwapElements_def r(1) array_swap_list)
  moreover have "rp_rep ?r ?xs ys" using r by (auto simp: rp_rep_def rp_sized_def)
  moreover have "mset ?xs = mset xs" using i by (simp add: mset_swap)
  then have "set ?xs = set xs" "distinct ?xs" using d(3) by (metis mset_eq_setD, metis distinct_append mset_eq_imp_distinct_iff)
  moreover have "map (h_obj h) ?xs = map Some (vs[i := vs ! j, j := vs ! i])"
  proof (rule nth_equalityI)
    show "map (h_obj h) ?xs ! k = map Some (vs[i := vs ! j, j := vs ! i]) ! k" if "k < length (map (h_obj h) ?xs)" for k
      using that d(2,4) i by (simp add: nth_list_update)
  qed (use d(2) in simp)
  moreover have "set (vs[i := vs ! j, j := vs ! i]) = set vs" using i d(2) by (metis mset_eq_setD mset_swap)
  ultimately show ?thesis using that [of ?r] d(3,5,6) holds_dom [OF h] by (simp add: holds_def)
qed

text \<open>The cleared objects can be given and taken as well.\<close>

lemma RP_AddCleared_holds:
  assumes h: "rp_holds r h xs ys vs" and a: "h_obj h a = Some (th_New H)" "a \<notin> set (xs @ ys)"
  obtains r' where "RP_AddCleared a r = Inr r'" "rp_holds r' h xs (ys @ [a]) vs"
proof -
  note d = holdsD [OF h]
  have "rp_sized r (xs @ ys) (int (length xs)) (int (length (xs @ ys)))" using d(1) by (simp add: rp_rep_def)
  note room = reserve_if_full_sized [OF this]
  obtain r1 where r1: "set_slot (int (length (xs @ ys))) a (reserve_if_full r) = Inr r1"
    "rp_sized r1 ((xs @ ys) @ [a]) (int (length xs)) (int (length (xs @ ys)))"
    using set_slot_end [OF conjunct1 [OF room] conjunct2 [OF room]] by blast
  let ?r = "r1\<lparr>rp_allocated := rp_allocated r1 + 1\<rparr>"
  have "RP_AddCleared a r = Inr ?r" using r1(1) rp_sized_fields [of "reserve_if_full r"] room by (fastforce simp: RP_AddCleared_def)
  moreover have "rp_rep ?r xs (ys @ [a])"
    using rp_sized_update(3) [OF r1(2), of "rp_allocated r1 + 1"] rp_sized_fields [OF r1(2)] by (simp add: rp_rep_def ac_simps)
  then have "rp_holds ?r h xs (ys @ [a]) vs" using h a by (auto simp: holds_def)
  ultimately show ?thesis using that by blast
qed

lemma RP_ReleaseCleared_holds:
  assumes h: "rp_holds r h xs (ys @ [a]) vs"
  obtains r' where "RP_ReleaseCleared r = Inr (a, r')" "rp_holds r' h xs ys vs" "h_obj h a = Some (th_New H)" "a \<notin> set (xs @ ys)"
proof -
  note d = holdsD [OF h] and sizes = rp_rep_sizes [OF holdsD(1) [OF h]]
  have sized: "rp_sized r ((xs @ ys) @ [a]) (int (length xs)) (int (length xs + length ys + 1))" using d(1) by (simp add: rp_rep_def)
  let ?r = "r\<lparr>rp_allocated := rp_allocated r - 1\<rparr>"
  have "slot (int (length xs + length ys)) r = Inr a" using slot_sized [OF sized, of "length xs + length ys"] by (simp add: nth_append)
  then have "RP_ReleaseCleared r = Inr (a, ?r)" using sizes by (simp add: RP_ReleaseCleared_def)
  moreover have "rp_rep ?r xs ys"
    using rp_sized_update(3) [OF rp_sized_fewer [OF sized], of "rp_allocated r - 1"] sizes by (simp add: rp_rep_def)
  then have "rp_holds ?r h xs ys vs" using h by (auto simp: holds_def)
  ultimately show ?thesis using that d(3) d(6) [of a] by simp
qed

end

section \<open>Any use of a field\<close>

text \<open>
  The calls that a caller makes, who makes and deletes the objects that it gives and takes, and what they do to
  a list of values.
\<close>

datatype 'm ptr_call =
    PAdd 'm
  | PSet nat 'm
  | PGet nat
  | PRemoveLast
  | PClear
  | PMerge "'m list"
  | PCopy "'m list"
  | PAddAllocated 'm
  | PReleaseLast
  | PDelete nat nat
  | PExtract nat nat
  | PReserve int
  | PSwap nat nat
  | PAddCleared
  | PReleaseCleared

text \<open>The caller reads the objects it has got, and deletes them.\<close>

primrec consume :: "addr list \<Rightarrow> 'm heap \<Rightarrow> fault + 'm list \<times> 'm heap" where
  "consume [] h = Inr ([], h)"
| "consume (a # as) h =
     ebind (h_get a h) (\<lambda>x. ebind (h_delete a h) (\<lambda>h1. ebind (consume as h1) (\<lambda>(xs, h2). Inr (x # xs, h2))))"

definition silent :: "fault + 'r \<times> 'h \<Rightarrow> fault + 'm list \<times> 'r \<times> 'h" where
  "silent x = ebind x (\<lambda>(r, h). Inr ([], r, h))"

primrec ptr_run :: "'m TypeHandler \<Rightarrow> 'm ptr_call \<Rightarrow> RepeatedPtrField \<Rightarrow> 'm heap \<Rightarrow> fault + 'm list \<times> RepeatedPtrField \<times> 'm heap" where
  "ptr_run H (PAdd x) r h = silent (add_value H x r h)"
| "ptr_run H (PSet i x) r h = ebind (RP_Mutable (int i) r) (\<lambda>a. ebind (h_put a x h) (\<lambda>h'. Inr ([], r, h')))"
| "ptr_run H (PGet i) r h = ebind (RP_Get (int i) r h) (\<lambda>x. Inr ([x], r, h))"
| "ptr_run H PRemoveLast r h = silent (RP_RemoveLast H r h)"
| "ptr_run H PClear r h = silent (RP_Clear H r h)"
| "ptr_run H (PMerge xs) r h =
     ebind (RP_from_range H xs h) (\<lambda>(other, h1). ebind (RP_MergeFrom H other r h1) (\<lambda>(r', h2). ebind (RP_Destroy other h2) (\<lambda>h3. Inr ([], r', h3))))"
| "ptr_run H (PCopy xs) r h =
     ebind (RP_from_range H xs h) (\<lambda>(other, h1). ebind (RP_CopyFrom H other r h1) (\<lambda>(r', h2). ebind (RP_Destroy other h2) (\<lambda>h3. Inr ([], r', h3))))"
| "ptr_run H (PAddAllocated x) r h = (let (a, h1) = h_new x h in silent (RP_AddAllocated a r h1))"
| "ptr_run H PReleaseLast r h = ebind (RP_ReleaseLast r) (\<lambda>(a, r'). ebind (consume [a] h) (\<lambda>(xs, h'). Inr (xs, r', h')))"
| "ptr_run H (PDelete s n) r h = silent (RP_DeleteSubrange (int s) (int n) r h)"
| "ptr_run H (PExtract s n) r h =
     ebind (RP_ExtractSubrange (int s) (int n) True r) (\<lambda>(as, r'). ebind (consume as h) (\<lambda>(xs, h'). Inr (xs, r', h')))"
| "ptr_run H (PReserve n) r h = Inr ([], RP_Reserve n r, h)"
| "ptr_run H (PSwap i j) r h = ebind (RP_SwapElements (int i) (int j) r) (\<lambda>r'. Inr ([], r', h))"
| "ptr_run H PAddCleared r h = (let (a, h1) = h_new (th_New H) h in ebind (RP_AddCleared a r) (\<lambda>r'. Inr ([], r', h1)))"
| "ptr_run H PReleaseCleared r h =
     (if RP_ClearedCount r > 0 then ebind (RP_ReleaseCleared r) (\<lambda>(a, r'). ebind (h_delete a h) (\<lambda>h'. Inr ([], r', h')))
      else Inr ([], r, h))"

primrec ptr_list :: "'m ptr_call \<Rightarrow> 'm list \<Rightarrow> ('m list \<times> 'm list) option" where
  "ptr_list (PAdd x) xs = Some ([], xs @ [x])"
| "ptr_list (PSet i x) xs = (if i < length xs then Some ([], xs[i := x]) else None)"
| "ptr_list (PGet i) xs = (if i < length xs then Some ([xs ! i], xs) else None)"
| "ptr_list PRemoveLast xs = (if xs \<noteq> [] then Some ([], butlast xs) else None)"
| "ptr_list PClear xs = Some ([], [])"
| "ptr_list (PMerge ys) xs = Some ([], xs @ ys)"
| "ptr_list (PCopy ys) xs = Some ([], ys)"
| "ptr_list (PAddAllocated x) xs = Some ([], xs @ [x])"
| "ptr_list PReleaseLast xs = (if xs \<noteq> [] then Some ([last xs], butlast xs) else None)"
| "ptr_list (PDelete s n) xs = (if s + n \<le> length xs then Some ([], take s xs @ drop (s + n) xs) else None)"
| "ptr_list (PExtract s n) xs = (if s + n \<le> length xs then Some (take n (drop s xs), take s xs @ drop (s + n) xs) else None)"
| "ptr_list (PReserve n) xs = Some ([], xs)"
| "ptr_list (PSwap i j) xs = (if i < length xs \<and> j < length xs then Some ([], xs[i := xs ! j, j := xs ! i]) else None)"
| "ptr_list PAddCleared xs = Some ([], xs)"
| "ptr_list PReleaseCleared xs = Some ([], xs)"

primrec ptr_runs :: "'m TypeHandler \<Rightarrow> 'm ptr_call list \<Rightarrow> RepeatedPtrField \<Rightarrow> 'm heap \<Rightarrow> fault + 'm list \<times> RepeatedPtrField \<times> 'm heap" where
  "ptr_runs H [] r h = Inr ([], r, h)"
| "ptr_runs H (c # cs) r h =
     ebind (ptr_run H c r h) (\<lambda>(xs, r1, h1). ebind (ptr_runs H cs r1 h1) (\<lambda>(ys, r2, h2). Inr (xs @ ys, r2, h2)))"

primrec ptr_lists :: "'m ptr_call list \<Rightarrow> 'm list \<Rightarrow> ('m list \<times> 'm list) option" where
  "ptr_lists [] xs = Some ([], xs)"
| "ptr_lists (c # cs) xs =
     (case ptr_list c xs of
        None \<Rightarrow> None
      | Some (out, xs') \<Rightarrow> (case ptr_lists cs xs' of None \<Rightarrow> None | Some (out', xs'') \<Rightarrow> Some (out @ out', xs'')))"

text \<open>The values that a call brings in.\<close>

definition call_values :: "'m ptr_call \<Rightarrow> 'm list" where
  "call_values c = (case c of PAdd x \<Rightarrow> [x] | PSet _ x \<Rightarrow> [x] | PMerge xs \<Rightarrow> xs | PCopy xs \<Rightarrow> xs | PAddAllocated x \<Rightarrow> [x] | _ \<Rightarrow> [])"

lemma consume_frame:
  "distinct as \<Longrightarrow> map (h_obj h) as = map Some vs \<Longrightarrow>
    \<exists>h'. consume as h = Inr (vs, h') \<and> h_obj h' = h_obj h |` (- set as) \<and> h_next h' = h_next h"
proof (induction as arbitrary: h vs)
  case (Cons a as)
  obtain v us where vs: "vs = v # us" "h_obj h a = Some v" "map (h_obj h) as = map Some us" using Cons.prems(2) by (cases vs) auto
  let ?h = "h\<lparr>h_obj := (h_obj h)(a := None)\<rparr>"
  have "map (h_obj ?h) as = map (h_obj h) as" using Cons.prems(1) by auto
  then have "map (h_obj ?h) as = map Some us" using vs(3) by simp
  moreover have "distinct as" using Cons.prems(1) by simp
  ultimately obtain h' where h': "consume as ?h = Inr (us, h')" "h_obj h' = h_obj ?h |` (- set as)" "h_next h' = h_next ?h"
    using Cons.IH by blast
  have "consume (a # as) h = Inr (vs, h')" using vs h'(1) by (simp add: h_get_def h_delete_def)
  moreover have "h_obj h' = h_obj h |` (- set (a # as))" by (auto simp: h'(2) restrict_map_def)
  ultimately show ?case using h'(3) by auto
qed (simp add: restrict_map_def)

lemma restrict_frame:
  "h_obj h' = h_obj h |` (- A) \<Longrightarrow> h_next h' = h_next h \<Longrightarrow> A \<union> B \<subseteq> dom (h_obj h) \<Longrightarrow> A \<inter> B = {} \<Longrightarrow> C = A \<union> B \<Longrightarrow> frame h C h' B"
  unfolding frame_def by (auto simp: restrict_map_def split: if_splits)

context type_handler
begin

text \<open>Another field is made, something is done with it that leaves it as it is, and it is deleted again.\<close>

lemma with_other:
  assumes h: "rp_holds r h xs ys vs" and us: "\<forall>v\<in>set us. good v"
    and step: "\<And>other h1 xo yo thesis. rp_holds r h1 xs ys vs \<Longrightarrow> rp_holds other h1 xo yo us \<Longrightarrow> set (xs @ ys) \<inter> set (xo @ yo) = {} \<Longrightarrow>
      (\<And>r' h2 xs' ys'. f other h1 = Inr (r', h2) \<Longrightarrow> rp_holds r' h2 xs' ys' ws \<Longrightarrow> frame h1 (set (xs @ ys)) h2 (set (xs' @ ys')) \<Longrightarrow> thesis) \<Longrightarrow> thesis"
  obtains r' h' xs' ys' where
    "ebind (RP_from_range H us h) (\<lambda>(other, h1). ebind (f other h1) (\<lambda>(r', h2). ebind (RP_Destroy other h2) (\<lambda>h3. Inr (out, r', h3)))) = Inr (out, r', h')"
    "rp_holds r' h' xs' ys' ws" "frame h (set (xs @ ys)) h' (set (xs' @ ys'))"
proof -
  let ?A = "set (xs @ ys)"
  obtain other h1 xo yo where o: "RP_from_range H us h = Inr (other, h1)" "rp_holds other h1 xo yo us" "frame h {} h1 (set (xo @ yo))"
    by (rule RP_from_range_holds [OF holds_dom [OF h] us])
  let ?O = "set (xo @ yo)"
  have r1: "rp_holds r h1 xs ys vs" by (rule holds_other [OF h o(3) _ holds_dom [OF o(2)]]) simp
  have disj: "?A \<inter> ?O = {}" using o(3) holdsD(8) [OF h] unfolding frame_def by blast
  obtain r' h2 xs' ys' where 2: "f other h1 = Inr (r', h2)" "rp_holds r' h2 xs' ys' ws" "frame h1 ?A h2 (set (xs' @ ys'))"
    by (rule step [OF r1 o(2) disj])
  let ?B = "set (xs' @ ys')"
  have o2: "rp_holds other h2 xo yo us" by (rule holds_other [OF o(2) 2(3) disj holds_dom [OF 2(2)]])
  obtain h3 where 3: "RP_Destroy other h2 = Inr h3" "frame h2 ?O h3 {}" "dom (h_obj h3) \<subseteq> {..<h_next h3}"
    by (rule RP_Destroy_holds [OF o2])
  have disj2: "?B \<inter> ?O = {}" using 2(3) disj holdsD(8) [OF o(2)] unfolding frame_def by blast
  have r3: "rp_holds r' h3 xs' ys' ws" by (rule holds_other [OF 2(2) 3(2) _ 3(3)]) (use disj2 in blast)
  have "frame h ({} \<union> ?A) h1 (?O \<union> ?A)" by (rule frame_extend [OF o(3) holdsD(8) [OF h]]) simp
  moreover have "frame h1 (?A \<union> ?O) h2 (?B \<union> ?O)" by (rule frame_extend [OF 2(3) holdsD(8) [OF o(2)]]) (use disj in blast)
  moreover have "frame h2 (?O \<union> ?B) h3 ({} \<union> ?B)" by (rule frame_extend [OF 3(2) holdsD(8) [OF 2(2)]]) (use disj2 in blast)
  ultimately have "frame h ?A h3 ?B" by (metis Un_commute Un_empty_left frame_trans)
  then show ?thesis using that r3 o(1) 2(1) 3(1) by simp
qed

lemma frame_new_object:
  assumes h: "rp_holds r h xs ys vs" and n: "h_new x h = (a, h1)"
  shows "frame h (set (xs @ ys)) h1 (insert a (set (xs @ ys)))" "rp_holds r h1 xs ys vs" "h_obj h1 a = Some x" "a \<notin> set (xs @ ys)"
proof -
  note f = h_new_frame [OF holds_dom [OF h] n]
  show "rp_holds r h1 xs ys vs" by (rule holds_other [OF h conjunct1 [OF f]]) (use f in auto)
  show "frame h (set (xs @ ys)) h1 (insert a (set (xs @ ys)))" using frame_extend [of h "{}" h1 "{a}" "set (xs @ ys)"] f holdsD(8) [OF h] by simp
  show "h_obj h1 a = Some x" "a \<notin> set (xs @ ys)" using f holdsD(8) [OF h] by auto
qed

lemma frame_gives_up:
  assumes "rp_holds r' h xs' ys' us" "set (xs @ ys) = insert a (set (xs' @ ys'))" "a \<notin> set (xs' @ ys')" "a \<in> dom (h_obj h)"
    and h': "h_obj h' = (h_obj h)(a := None)" "h_next h' = h_next h"
  shows "rp_holds r' h' xs' ys' us \<and> frame h (set (xs @ ys)) h' (set (xs' @ ys'))"
proof
  have "frame h (set (xs @ ys)) h' (set (xs' @ ys'))"
    by (rule restrict_frame [of _ _ "{a}"]) (use assms holdsD(8) [OF assms(1)] in \<open>auto simp: restrict_map_def\<close>)
  then show "frame h (set (xs @ ys)) h' (set (xs' @ ys'))" .
  have "frame h {a} h' {}" using assms(4) h' by (auto simp: frame_def split: if_splits)
  then show "rp_holds r' h' xs' ys' us"
    by (rule holds_other [OF assms(1)]) (use assms(3) h' holds_dom [OF assms(1)] in auto)
qed

lemma ptr_run_holds:
  assumes h: "rp_holds r h xs ys vs" and c: "ptr_list c vs = Some (out, us)" and good: "\<forall>v\<in>set (call_values c). good v"
  shows "\<exists>r' h' xs' ys'. ptr_run H c r h = Inr (out, r', h') \<and> rp_holds r' h' xs' ys' us \<and> frame h (set (xs @ ys)) h' (set (xs' @ ys'))"
    (is "?goal c")
proof -
  have len: "length vs = length xs" by (rule holdsD(2) [OF h])
  note same = frame_same [OF holdsD(8) [OF h]]
  have split_last: thesis if "vs \<noteq> []" "\<And>xs0 a vs0 v. xs = xs0 @ [a] \<Longrightarrow> vs = vs0 @ [v] \<Longrightarrow> thesis" for thesis
    using that len by (metis append_butlast_last_id length_0_conv)
  have result: "?goal c" if "ptr_run H c r h = Inr (out, r', h')" "rp_holds r' h' xs' ys' us" "frame h (set (xs @ ys)) h' (set (xs' @ ys'))" for r' h' xs' ys'
    using that by blast
  show ?thesis
  proof (cases c)
    case (PAdd x)
    then have x: "good x" "out = []" "us = vs @ [x]" using c good by (auto simp: call_values_def)
    show ?thesis by (rule add_value_holds [OF h x(1)], rule result) (simp_all add: PAdd x silent_def)
  next
    case (PSet i x)
    then have i: "i < length xs" and x: "good x" "out = []" "us = vs[i := x]" using c len good by (auto simp: call_values_def split: if_splits)
    have "RP_Mutable (int i) r = Inr (xs ! i)" using slot_holds [OF h, of i] i holds_size [OF h] len by (simp add: RP_Mutable_def nth_append)
    show ?thesis
    proof (rule h_put_holds [OF h i x(1)])
      fix h'
      assume "h_put (xs ! i) x h = Inr h'" "rp_holds r h' xs ys (vs[i := x])" "frame h (set (xs @ ys)) h' (set (xs @ ys))"
      then show ?thesis using \<open>RP_Mutable _ _ = _\<close> by (intro result [of r h' xs ys]) (simp_all add: PSet x)
    qed
  next
    case (PGet i)
    then have "i < length vs" "out = [vs ! i]" "us = vs" using c by (auto split: if_splits)
    then show ?thesis using RP_Get_holds [OF h, of i] h same by (intro result [of r h xs ys]) (simp_all add: PGet)
  next
    case PRemoveLast
    then have ne: "vs \<noteq> []" and us: "out = []" "us = butlast vs" using c by (auto split: if_splits)
    show ?thesis
    proof (rule split_last [OF ne])
      fix xs0 a vs0 v
      assume e: "xs = xs0 @ [a]" "vs = vs0 @ [v]"
      show ?thesis
      proof (rule RP_RemoveLast_holds [OF h [unfolded e]])
        fix r' h'
        assume "RP_RemoveLast H r h = Inr (r', h')" "rp_holds r' h' xs0 (a # ys) vs0" "frame h (set (xs0 @ a # ys)) h' (set (xs0 @ a # ys))"
        then show ?thesis by (intro result [of r' h' xs0 "a # ys"]) (simp_all add: PRemoveLast us e silent_def)
      qed
    qed
  next
    case PClear
    then have us: "out = []" "us = []" using c by simp_all
    show ?thesis by (rule RP_Clear_holds [OF h], rule result [where xs' = "[]" and ys' = "xs @ ys"]) (simp_all add: PClear us silent_def)
  next
    case (PMerge ws)
    have "\<forall>v\<in>set ws. good v" using good PMerge by (simp add: call_values_def)
    then show ?thesis
    proof (rule with_other [OF h, where f = "\<lambda>other. RP_MergeFrom H other r" and ws = "vs @ ws" and out = "[]"])
      fix other h1 xo yo thesis
      assume 1: "rp_holds r h1 xs ys vs" "rp_holds other h1 xo yo ws" "set (xs @ ys) \<inter> set (xo @ yo) = {}"
        and k: "\<And>r' h2 xs' ys'. RP_MergeFrom H other r h1 = Inr (r', h2) \<Longrightarrow> rp_holds r' h2 xs' ys' (vs @ ws) \<Longrightarrow>
          frame h1 (set (xs @ ys)) h2 (set (xs' @ ys')) \<Longrightarrow> thesis"
      show thesis by (rule RP_MergeFrom_holds [OF 1]) (rule k)
    next
      fix r' h' xs' ys'
      assume "ebind (RP_from_range H ws h) (\<lambda>(other, h1). ebind (RP_MergeFrom H other r h1)
          (\<lambda>(r', h2). ebind (RP_Destroy other h2) (\<lambda>h3. Inr ([], r', h3)))) = Inr ([] :: 'm list, r', h')"
        "rp_holds r' h' xs' ys' (vs @ ws)" "frame h (set (xs @ ys)) h' (set (xs' @ ys'))"
      then show ?thesis using PMerge c by (intro result [of r' h' xs' ys']) simp_all
    qed
  next
    case (PCopy ws)
    have "\<forall>v\<in>set ws. good v" using good PCopy by (simp add: call_values_def)
    then show ?thesis
    proof (rule with_other [OF h, where f = "\<lambda>other. RP_CopyFrom H other r" and ws = "ws" and out = "[]"])
      fix other h1 xo yo thesis
      assume 1: "rp_holds r h1 xs ys vs" "rp_holds other h1 xo yo ws" "set (xs @ ys) \<inter> set (xo @ yo) = {}"
        and k: "\<And>r' h2 xs' ys'. RP_CopyFrom H other r h1 = Inr (r', h2) \<Longrightarrow> rp_holds r' h2 xs' ys' (ws) \<Longrightarrow>
          frame h1 (set (xs @ ys)) h2 (set (xs' @ ys')) \<Longrightarrow> thesis"
      show thesis by (rule RP_CopyFrom_holds [OF 1]) (rule k)
    next
      fix r' h' xs' ys'
      assume "ebind (RP_from_range H ws h) (\<lambda>(other, h1). ebind (RP_CopyFrom H other r h1)
          (\<lambda>(r', h2). ebind (RP_Destroy other h2) (\<lambda>h3. Inr ([], r', h3)))) = Inr ([] :: 'm list, r', h')"
        "rp_holds r' h' xs' ys' (ws)" "frame h (set (xs @ ys)) h' (set (xs' @ ys'))"
      then show ?thesis using PCopy c by (intro result [of r' h' xs' ys']) simp_all
    qed
  next
    case (PAddAllocated x)
    obtain a h1 where n: "h_new x h = (a, h1)" by fastforce
    note 1 = frame_new_object [OF h n]
    have x: "good x" "out = []" "us = vs @ [x]" using good c PAddAllocated by (auto simp: call_values_def)
    show ?thesis
    proof (rule RP_AddAllocated_holds [OF 1(2,3,4) x(1)])
      fix r' h' ys'
      assume "RP_AddAllocated a r h1 = Inr (r', h')" "rp_holds r' h' (xs @ [a]) ys' (vs @ [x])"
        "frame h1 (insert a (set (xs @ ys))) h' (set (xs @ a # ys'))"
      then show ?thesis using frame_trans [OF 1(1)] by (intro result [of r' h' "xs @ [a]" ys']) (simp_all add: PAddAllocated n x silent_def)
    qed
  next
    case PReleaseLast
    then have ne: "vs \<noteq> []" and us: "out = [last vs]" "us = butlast vs" using c by (auto split: if_splits)
    show ?thesis
    proof (rule split_last [OF ne])
      fix xs0 a vs0 v
      assume e: "xs = xs0 @ [a]" "vs = vs0 @ [v]"
      show ?thesis
      proof (rule RP_ReleaseLast_holds [OF h [unfolded e]])
        fix r' ys'
        assume r': "RP_ReleaseLast r = Inr (a, r')" "rp_holds r' h xs0 ys' vs0" "set ys' = set ys" "h_obj h a = Some v" "a \<notin> set (xs0 @ ys)"
        let ?h = "h\<lparr>h_obj := (h_obj h)(a := None)\<rparr>"
        have "rp_holds r' ?h xs0 ys' vs0 \<and> frame h (set (xs @ ys)) ?h (set (xs0 @ ys'))"
          by (rule frame_gives_up [OF r'(2)]) (use r' e in auto)
        then show ?thesis using PReleaseLast r'(1,4) us e by (intro result [of r' ?h]) (auto simp: h_get_def h_delete_def)
      qed
    qed
  next
    case (PDelete s n)
    then have sn: "s + n \<le> length xs" and us: "out = []" "us = take s vs @ drop (s + n) vs" using c len by (auto split: if_splits)
    show ?thesis by (rule RP_DeleteSubrange_holds [OF h sn], rule result [where xs' = "take s xs @ drop (s + n) xs" and ys' = ys]) (simp_all add: PDelete us silent_def)
  next
    case (PExtract s n)
    then have sn: "s + n \<le> length xs" and us: "out = take n (drop s vs)" "us = take s vs @ drop (s + n) vs" using c len by (auto split: if_splits)
    define m where "m = take n (drop s xs)"
    have split: "xs = take s xs @ m @ drop (s + n) xs" using split_range [OF sn] by (simp add: m_def)
    then have dist: "distinct ((take s xs @ m @ drop (s + n) xs) @ ys)" using holdsD(3) [OF h] by metis
    obtain r' where r': "RP_ExtractSubrange (int s) (int n) True r = Inr (m, r')" "rp_rep r' (take s xs @ drop (s + n) xs) ys"
      by (rule RP_ExtractSubrange_rep [OF h sn, of True]) (simp add: m_def)
    have "map (h_obj h) xs = map Some vs" using h by (simp add: holds_def)
    then have "map (h_obj h) m = map Some out" unfolding m_def us by (metis drop_map take_map)
    then obtain h' where h': "consume m h = Inr (out, h')" "h_obj h' = h_obj h |` (- set m)" "h_next h' = h_next h"
      using consume_frame [of m h out] dist by auto
    have "rp_holds r' h' (take s xs @ drop (s + n) xs) ys us"
      unfolding us by (rule holds_range [OF h sn r'(2)]) (use h'(2,3) holds_dom [OF h] in \<open>auto simp: m_def restrict_map_def subset_iff domIff split: if_splits\<close>)
    moreover have sets: "set (xs @ ys) = set m \<union> set ((take s xs @ drop (s + n) xs) @ ys)" using arg_cong [OF split, of set] by auto
    have "frame h (set (xs @ ys)) h' (set ((take s xs @ drop (s + n) xs) @ ys))"
      by (rule restrict_frame [OF h'(2,3)]) (use holdsD(8) [OF h] dist sets in auto)
    ultimately show ?thesis using PExtract r'(1) h'(1) by (intro result [of r' h' "take s xs @ drop (s + n) xs" ys]) simp_all
  next
    case (PReserve n)
    then show ?thesis using RP_Reserve_holds [OF h] c same by (intro result [of "RP_Reserve n r" h xs ys]) auto
  next
    case (PSwap i j)
    then have i: "i < length xs" "j < length xs" and us: "out = []" "us = vs[i := vs ! j, j := vs ! i]" using c len by (auto split: if_splits)
    have "set (xs[i := xs ! j, j := xs ! i] @ ys) = set (xs @ ys)" using i by (metis mset_eq_setD mset_swap set_append)
    then have "frame h (set (xs @ ys)) h (set (xs[i := xs ! j, j := xs ! i] @ ys))" using same by simp
    note f = this
    show ?thesis by (rule RP_SwapElements_holds [OF h i], rule result [OF _ _ f]) (simp_all add: PSwap us)
  next
    case PAddCleared
    obtain a h1 where n: "h_new (th_New H) h = (a, h1)" by fastforce
    note 1 = frame_new_object [OF h n]
    show ?thesis
      by (rule RP_AddCleared_holds [OF 1(2,3,4)], rule result [where xs' = xs and ys' = "ys @ [a]"]) (use PAddCleared n c 1(1) in simp_all)
  next
    case PReleaseCleared
    show ?thesis
    proof (cases ys rule: rev_cases)
      case Nil
      then show ?thesis using PReleaseCleared c h same rp_rep_sizes [OF holdsD(1) [OF h]]
        by (intro result [of r h xs ys]) (auto simp: RP_ClearedCount_def)
    next
      case (snoc zs a)
      have count: "RP_ClearedCount r > 0" using rp_rep_sizes [OF holdsD(1) [OF h]] snoc by (simp add: RP_ClearedCount_def)
      show ?thesis
      proof (rule RP_ReleaseCleared_holds [OF h [unfolded snoc]])
        fix r'
        assume r': "RP_ReleaseCleared r = Inr (a, r')" "rp_holds r' h xs zs vs" "h_obj h a = Some (th_New H)" "a \<notin> set (xs @ zs)"
        let ?h = "h\<lparr>h_obj := (h_obj h)(a := None)\<rparr>"
        have "rp_holds r' ?h xs zs vs \<and> frame h (set (xs @ ys)) ?h (set (xs @ zs))"
          by (rule frame_gives_up [OF r'(2)]) (use r' snoc in auto)
        then show ?thesis using PReleaseCleared count r'(1,3) c by (intro result [of r' ?h]) (auto simp: h_delete_def)
      qed
    qed
  qed
qed

lemma ptr_runs_holds:
  "rp_holds r h xs ys vs \<Longrightarrow> ptr_lists cs vs = Some (out, us) \<Longrightarrow> \<forall>v\<in>set (concat (map call_values cs)). good v \<Longrightarrow>
    \<exists>r' h' xs' ys'. ptr_runs H cs r h = Inr (out, r', h') \<and> rp_holds r' h' xs' ys' us \<and> frame h (set (xs @ ys)) h' (set (xs' @ ys'))"
proof (induction cs arbitrary: r h xs ys vs out)
  case Nil
  then show ?case using frame_same [OF holdsD(8) [OF Nil(1)]] by fastforce
next
  case (Cons c cs)
  from Cons.prems(2) obtain out1 ws out2 where
    l: "ptr_list c vs = Some (out1, ws)" "ptr_lists cs ws = Some (out2, us)" "out = out1 @ out2" by (auto split: option.splits)
  have good: "\<forall>v\<in>set (call_values c). good v" "\<forall>v\<in>set (concat (map call_values cs)). good v" using Cons.prems(3) by auto
  obtain r1 h1 xs1 ys1 where 1: "ptr_run H c r h = Inr (out1, r1, h1)" "rp_holds r1 h1 xs1 ys1 ws" "frame h (set (xs @ ys)) h1 (set (xs1 @ ys1))"
    using ptr_run_holds [OF Cons.prems(1) l(1) good(1)] by blast
  obtain r2 h2 xs2 ys2 where 2: "ptr_runs H cs r1 h1 = Inr (out2, r2, h2)" "rp_holds r2 h2 xs2 ys2 us" "frame h1 (set (xs1 @ ys1)) h2 (set (xs2 @ ys2))"
    using Cons.IH [OF 1(2) l(2) good(2)] by blast
  have "ptr_runs H (c # cs) r h = Inr (out, r2, h2)" using 1(1) 2(1) l(3) by simp
  then show ?case using 2(2) frame_trans [OF 1(3) 2(3)] by blast
qed

text \<open>
  The life of a field: whatever is done with it that makes sense for a list of values returns and leaves what it
  would for the list, and when the field is destroyed, the heap has the objects that it had before and no others.
\<close>

lemma field_life:
  assumes "dom (h_obj h) \<subseteq> {..<h_next h}" "ptr_lists cs [] = Some (out, us)" "\<forall>v\<in>set (concat (map call_values cs)). good v"
  shows "\<exists>r' h' h''. ptr_runs H cs RP_new h = Inr (out, r', h') \<and> RP_size r' = int (length us)
    \<and> (\<forall>i<length us. RP_Get (int i) r' h' = Inr (us ! i)) \<and> RP_Destroy r' h' = Inr h'' \<and> h_obj h'' = h_obj h"
proof -
  obtain r' h' xs' ys' where r': "ptr_runs H cs RP_new h = Inr (out, r', h')" "rp_holds r' h' xs' ys' us" "frame h {} h' (set (xs' @ ys'))"
    using ptr_runs_holds [OF RP_new_holds [OF assms(1)] assms(2,3)] by auto
  obtain h'' where h'': "RP_Destroy r' h' = Inr h''" "frame h' (set (xs' @ ys')) h'' {}" by (rule RP_Destroy_holds [OF r'(2)])
  have f: "frame h {} h'' {}" by (rule frame_trans [OF r'(3) h''(2)])
  have "h_obj h'' a = h_obj h a" for a
  proof (cases "a \<in> dom (h_obj h)")
    case True
    then show ?thesis using f by (simp add: frame_def)
  next
    case False
    then have "a \<notin> dom (h_obj h'')" using f by (simp add: frame_def)
    then show ?thesis using False by (simp add: domIff)
  qed
  then have "h_obj h'' = h_obj h" by blast
  then show ?thesis using r'(1) h''(1) holds_size [OF r'(2)] RP_Get_holds [OF r'(2)] by blast
qed

end

section \<open>Fields of strings\<close>

text \<open>\<^verbatim>\<open>StringTypeHandler\<close>: merging assigns.\<close>

definition StringTypeHandler :: "byte list TypeHandler" where
  "StringTypeHandler = \<lparr>th_New = [], th_Clear = (\<lambda>_. []), th_Merge = (\<lambda>from_value _. Inr from_value)\<rparr>"

interpretation string_handler: type_handler StringTypeHandler "\<lambda>_. True"
  by unfold_locales (simp_all add: StringTypeHandler_def)

lemma string_field_life:
  assumes "dom (h_obj h) \<subseteq> {..<h_next h}" "ptr_lists cs [] = Some (out, us)"
  shows "\<exists>r' h' h''. ptr_runs StringTypeHandler cs RP_new h = Inr (out, r', h') \<and> RP_size r' = int (length us)
    \<and> (\<forall>i<length us. RP_Get (int i) r' h' = Inr (us ! i)) \<and> RP_Destroy r' h' = Inr h'' \<and> h_obj h'' = h_obj h"
  by (rule string_handler.field_life [OF assms]) simp

lemma string_field_life_witness:
  "\<exists>r' h' h''. ptr_runs StringTypeHandler [PAdd [1], PAdd [2], PRemoveLast, PAddAllocated [3], PMerge [[4], [5]], PExtract 0 2, PGet 1]
      RP_new \<lparr>h_obj = [0 \<mapsto> [9]], h_next = 1\<rparr> = Inr ([[1], [3], [5]], r', h') \<and> RP_size r' = int (length [[4 :: byte], [5]])
    \<and> (\<forall>i<length [[4 :: byte], [5]]. RP_Get (int i) r' h' = Inr ([[4 :: byte], [5]] ! i)) \<and> RP_Destroy r' h' = Inr h''
    \<and> h_obj h'' = h_obj \<lparr>h_obj = [0 \<mapsto> [9]], h_next = 1\<rparr>"
  by (rule string_field_life) (auto split: if_splits)

end
