(* ===== verification/Repeated_Messages.thy ===== *)
theory Repeated_Messages
  imports Game_Wire Message_Merge Repeated_Ptr_Proofs
begin

text \<open>
  Repeated fields of messages: the type handler of messages (\<^verbatim>\<open>GenericTypeHandler\<close> of \<^verbatim>\<open>repeated_field.h\<close>) on the
  messages of the reflective runtime.
\<close>

definition MessageTypeHandler :: "'m pool \<Rightarrow> 'm \<Rightarrow> 'm Message TypeHandler" where
  "MessageTypeHandler D ty =
     \<lparr>th_New = new_message ty, th_Clear = Clear,
      th_Merge = (\<lambda>from_value to_value. ebind (Message_MergeFrom D from_value to_value) (\<lambda>(_, m). Inr m))\<rparr>"

lemma message_handler: "pool_ok D \<Longrightarrow> type_handler (MessageTypeHandler D ty) (of_type D ty)"
proof
  assume D: "pool_ok D"
  show "of_type D ty (th_New (MessageTypeHandler D ty))" by (simp add: MessageTypeHandler_def new_message_of_type)
  show "th_Clear (MessageTypeHandler D ty) m = th_New (MessageTypeHandler D ty)" if "of_type D ty m" for m
    using that by (simp add: MessageTypeHandler_def Clear_def of_type_def)
  show "th_Merge (MessageTypeHandler D ty) m (th_New (MessageTypeHandler D ty)) = Inr m" if "of_type D ty m" for m
    using Merge_new [OF D, of m] that by (auto simp: MessageTypeHandler_def of_type_def Message_MergeFrom_def new_message_def mbind_def mgets_def)
qed

text \<open>The messages of the game, for instance, on their own descriptors.\<close>

interpretation game_messages: type_handler "MessageTypeHandler game_pool ty" "of_type game_pool ty" for ty
  by (rule message_handler [OF game_pool_ok])

text \<open>C17. A repeated field of messages of any type, used in any way that makes sense for a list of messages.\<close>

theorem message_field_life:
  assumes "pool_ok D" "dom (h_obj h) \<subseteq> {..<h_next h}" "ptr_lists cs [] = Some (out, us)"
    "\<forall>m\<in>set (concat (map call_values cs)). of_type D ty m"
  shows "\<exists>r' h' h''. ptr_runs (MessageTypeHandler D ty) cs RP_new h = Inr (out, r', h') \<and> RP_size r' = int (length us)
    \<and> (\<forall>i<length us. RP_Get (int i) r' h' = Inr (us ! i)) \<and> RP_Destroy r' h' = Inr h'' \<and> h_obj h'' = h_obj h"
  by (rule type_handler.field_life [OF message_handler [OF assms(1)] assms(2-4)])

theorem message_field_life_witness:
  "\<exists>r' h' h''. ptr_runs (MessageTypeHandler sample_pool (msg_type sample))
      [PAdd sample, PAdd (new_message (msg_type sample)), PRemoveLast, PMerge [sample], PReleaseLast, PReleaseCleared]
      RP_new \<lparr>h_obj = (\<lambda>_. None), h_next = 0\<rparr> = Inr ([sample], r', h') \<and> RP_size r' = int (length [sample])
    \<and> (\<forall>i<length [sample]. RP_Get (int i) r' h' = Inr ([sample] ! i)) \<and> RP_Destroy r' h' = Inr h''
    \<and> h_obj h'' = h_obj \<lparr>h_obj = (\<lambda>_. None :: unit Message option), h_next = 0\<rparr>"
proof (rule message_field_life)
  show "pool_ok sample_pool" by (rule sample_ok)
  show "\<forall>m\<in>set (concat (map call_values [PAdd sample, PAdd (new_message (msg_type sample)), PRemoveLast, PMerge [sample], PReleaseLast, PReleaseCleared])).
      of_type sample_pool (msg_type sample) m"
    using msg_ok_typed [OF sample_ok(2)] by (simp add: call_values_def new_message_of_type) (simp add: of_type_def)
qed simp_all

end
