(* ===== verification/Utf8_Valid.thy ===== *)
theory Utf8_Valid
  imports Prelude
begin

unbundle bit_operations_syntax

text \<open>
  Checking that a text is UTF-8 (\<^verbatim>\<open>stubs/structurally_valid.cc\<close>): the table of an automaton, the scanner that
  follows it and backs up over a broken character, and the loops that skip ASCII eight bytes at a time. Where the
  text is in memory matters to those loops only: \<open>base\<close> is its address.
\<close>

section \<open>The table\<close>

definition kExitIllegalStructure :: nat where "kExitIllegalStructure = 240"

definition kExitOK :: nat where "kExitOK = 241"

definition kExitReject :: nat where "kExitReject = 242"

definition kExitDoAgain :: nat where "kExitDoAgain = 253"

text \<open>The nine states: after the number of a state come the entries for the 256 bytes.\<close>

abbreviation XX :: nat where "XX \<equiv> kExitIllegalStructure"

abbreviation RJ :: nat where "RJ \<equiv> kExitReject"

definition utf8_state0 :: "nat list" where
  "utf8_state0 = replicate 128 0 @ replicate 66 XX @ replicate 30 1
     @ [2] @ replicate 12 3 @ [7] @ replicate 2 3 @ [4, 5, 5, 5, 6] @ replicate 11 XX"

definition utf8_state1 :: "nat list" where
  "utf8_state1 = replicate 128 XX @ replicate 64 0 @ replicate 64 XX"

definition utf8_state2 :: "nat list" where
  "utf8_state2 = replicate 160 XX @ replicate 32 1 @ replicate 64 XX"

definition utf8_state3 :: "nat list" where
  "utf8_state3 = replicate 128 XX @ replicate 64 1 @ replicate 64 XX"

definition utf8_state4 :: "nat list" where
  "utf8_state4 = replicate 144 XX @ replicate 48 3 @ replicate 64 XX"

definition utf8_state5 :: "nat list" where
  "utf8_state5 = replicate 128 XX @ replicate 64 3 @ replicate 64 XX"

definition utf8_state6 :: "nat list" where
  "utf8_state6 = replicate 128 XX @ replicate 16 3 @ replicate 112 XX"

definition utf8_state7 :: "nat list" where
  "utf8_state7 = replicate 128 XX @ replicate 32 1 @ replicate 32 8 @ replicate 64 XX"

definition utf8_state8 :: "nat list" where
  "utf8_state8 = replicate 128 XX @ replicate 64 RJ @ replicate 64 XX"

definition utf8acceptnonsurrogates :: "nat list" where
  "utf8acceptnonsurrogates = utf8_state0 @ utf8_state1 @ utf8_state2 @ utf8_state3 @ utf8_state4
     @ utf8_state5 @ utf8_state6 @ utf8_state7 @ utf8_state8"

definition utf8acceptnonsurrogates_fast :: "nat list" where
  "utf8acceptnonsurrogates_fast = replicate 128 0 @ replicate 128 1"

definition entry_shift :: nat where "entry_shift = 8"

definition losub :: "32 word" where "losub = 0x20202020"

definition hiadd :: "32 word" where "hiadd = 0"

definition state0_size :: nat where "state0_size = 256"

section \<open>The scanner\<close>

text \<open>\<open>Tbl\<close> is the offset of a state from the first one.\<close>

definition InStateZero :: "nat \<Rightarrow> bool" where
  "InStateZero Tbl \<longleftrightarrow> Tbl < state0_size"

definition utf8_entry :: "nat \<Rightarrow> byte \<Rightarrow> nat" where
  "utf8_entry Tbl c = utf8acceptnonsurrogates ! (Tbl + unat c)"

definition fast_entry :: "byte \<Rightarrow> nat" where
  "fast_entry c = utf8acceptnonsurrogates_fast ! unat c"

function skip_to_alignment :: "(byte \<Rightarrow> bool) \<Rightarrow> nat \<Rightarrow> byte list \<Rightarrow> nat \<Rightarrow> nat" where
  "skip_to_alignment ok base str src =
     (if (base + src) AND 7 \<noteq> 0 \<and> src < length str \<and> ok (str ! src) then skip_to_alignment ok base str (src + 1) else src)"
  by pat_completeness auto
termination
  by (relation "measure (\<lambda>(_, _, str, src). length str - src)") auto

text \<open>Four bytes as the processor, which is little-endian, reads them.\<close>

definition word_at :: "byte list \<Rightarrow> nat \<Rightarrow> 32 word" where
  "word_at str i =
     ucast (str ! i) OR push_bit 8 (ucast (str ! (i + 1))) OR push_bit 16 (ucast (str ! (i + 2))) OR push_bit 24 (ucast (str ! (i + 3)))"

function skip_identity :: "byte list \<Rightarrow> nat \<Rightarrow> nat" where
  "skip_identity str src =
     (if src + 7 < length str then
        let s0123 = word_at str src; s4567 = word_at str (src + 4);
            temp = (s0123 - losub) OR (s0123 + hiadd) OR (s4567 - losub) OR (s4567 + hiadd) in
        if temp AND 0x80808080 \<noteq> 0 then
          if (fast_entry (str ! src) OR fast_entry (str ! (src + 1))) OR (fast_entry (str ! (src + 2)) OR fast_entry (str ! (src + 3))) \<noteq> 0
          then src
          else if (fast_entry (str ! (src + 4)) OR fast_entry (str ! (src + 5))) OR (fast_entry (str ! (src + 6)) OR fast_entry (str ! (src + 7))) \<noteq> 0
          then src + 4
          else skip_identity str (src + 8)
        else skip_identity str (src + 8)
      else src)"
  by pat_completeness auto
termination
  by (relation "measure (\<lambda>(str, src). length str - src)") auto

text \<open>The entry that ended the loop, or the last one, the state, and the position.\<close>

function byte_scan :: "byte list \<Rightarrow> nat \<Rightarrow> nat \<Rightarrow> nat \<Rightarrow> nat \<times> nat \<times> nat" where
  "byte_scan str e Tbl src =
     (if src < length str then
        let e = utf8_entry Tbl (str ! src) in
        if e \<ge> kExitIllegalStructure then (e, Tbl, src + 1) else byte_scan str e (e * 2 ^ entry_shift) (src + 1)
      else (e, Tbl, src))"
  by pat_completeness auto
termination
  by (relation "measure (\<lambda>(str, e, Tbl, src). length str - src)") auto

declare skip_to_alignment.simps [simp del] skip_identity.simps [simp del] byte_scan.simps [simp del]

text \<open>\<^verbatim>\<open>do src--; while (src > isrc && continuation)\<close>, which is never done at the start.\<close>

definition continuation :: "byte \<Rightarrow> bool" where
  "continuation c \<longleftrightarrow> c AND 0xC0 = 0x80"

fun back_up_char :: "byte list \<Rightarrow> nat \<Rightarrow> nat" where
  "back_up_char str 0 = 0"
| "back_up_char str (Suc src) = (if src > 0 \<and> continuation (str ! src) then back_up_char str src else src)"

text \<open>One pass: the exit reason and the position.\<close>

definition scan_pass :: "nat \<Rightarrow> byte list \<Rightarrow> nat \<Rightarrow> nat \<times> nat" where
  "scan_pass base str src =
     (let src1 = skip_to_alignment (\<lambda>c. fast_entry c = 0) base str src;
          src2 = (if (base + src1) AND 7 = 0 then skip_identity str src1 else src1) in
      case byte_scan str 0 0 src2 of (e, Tbl, src3) \<Rightarrow>
        if e \<ge> kExitIllegalStructure then
          let src4 = src3 - 1 in (e, if \<not> InStateZero Tbl then back_up_char str src4 else src4)
        else if \<not> InStateZero Tbl then (kExitIllegalStructure, back_up_char str src3)
        else (kExitOK, src3))"

section \<open>What the table says\<close>

lemma table_lengths [simp]:
  "length utf8_state0 = 256" "length utf8_state1 = 256" "length utf8_state2 = 256" "length utf8_state3 = 256" "length utf8_state4 = 256"
  "length utf8_state5 = 256" "length utf8_state6 = 256" "length utf8_state7 = 256" "length utf8_state8 = 256"
  by (simp_all add: utf8_state0_def utf8_state1_def utf8_state2_def utf8_state3_def utf8_state4_def utf8_state5_def utf8_state6_def
      utf8_state7_def utf8_state8_def)

lemma unat_byte: "unat (c :: byte) < 256"
  using unsigned_less [of c] by simp

lemma table_parts:
  assumes "k < 256"
  shows "utf8acceptnonsurrogates ! k = utf8_state0 ! k" "utf8acceptnonsurrogates ! (256 + k) = utf8_state1 ! k"
    "utf8acceptnonsurrogates ! (512 + k) = utf8_state2 ! k" "utf8acceptnonsurrogates ! (768 + k) = utf8_state3 ! k"
    "utf8acceptnonsurrogates ! (1024 + k) = utf8_state4 ! k" "utf8acceptnonsurrogates ! (1280 + k) = utf8_state5 ! k"
    "utf8acceptnonsurrogates ! (1536 + k) = utf8_state6 ! k" "utf8acceptnonsurrogates ! (1792 + k) = utf8_state7 ! k"
    "utf8acceptnonsurrogates ! (2048 + k) = utf8_state8 ! k"
  using assms by (simp_all add: utf8acceptnonsurrogates_def nth_append)

definition entry0 :: "nat \<Rightarrow> nat" where
  "entry0 k = (if k < 0x80 then 0 else if k < 0xC2 then 240 else if k < 0xE0 then 1 else if k = 0xE0 then 2 else if k = 0xED then 7
    else if k < 0xF0 then 3 else if k = 0xF0 then 4 else if k < 0xF4 then 5 else if k = 0xF4 then 6 else 240)"

definition between :: "nat \<Rightarrow> nat \<Rightarrow> nat \<Rightarrow> nat \<Rightarrow> nat" where
  "between lo hi e k = (if lo \<le> k \<and> k < hi then e else 240)"

definition entry7 :: "nat \<Rightarrow> nat" where
  "entry7 k = (if k < 0xA0 then between 0x80 0xA0 1 k else between 0xA0 0xC0 8 k)"

lemma state0_as_function: "utf8_state0 = map entry0 [0..<256]"
  by code_simp

lemma states_as_functions:
  assumes "k < 256"
  shows "utf8_state0 ! k = entry0 k" "utf8_state1 ! k = between 0x80 0xC0 0 k" "utf8_state2 ! k = between 0xA0 0xC0 1 k"
    "utf8_state3 ! k = between 0x80 0xC0 1 k" "utf8_state4 ! k = between 0x90 0xC0 3 k" "utf8_state5 ! k = between 0x80 0xC0 3 k"
    "utf8_state6 ! k = between 0x80 0x90 3 k" "utf8_state7 ! k = entry7 k" "utf8_state8 ! k = between 0x80 0xC0 242 k"
  subgoal using assms by (simp add: state0_as_function)
  subgoal using assms by (auto simp: utf8_state1_def nth_append between_def kExitIllegalStructure_def)
  subgoal using assms by (auto simp: utf8_state2_def nth_append between_def kExitIllegalStructure_def)
  subgoal using assms by (auto simp: utf8_state3_def nth_append between_def kExitIllegalStructure_def)
  subgoal using assms by (auto simp: utf8_state4_def nth_append between_def kExitIllegalStructure_def)
  subgoal using assms by (auto simp: utf8_state5_def nth_append between_def kExitIllegalStructure_def)
  subgoal using assms by (auto simp: utf8_state6_def nth_append between_def kExitIllegalStructure_def)
  subgoal using assms by (auto simp: utf8_state7_def nth_append between_def entry7_def kExitIllegalStructure_def)
  subgoal using assms by (auto simp: utf8_state8_def nth_append between_def kExitIllegalStructure_def kExitReject_def)
  done

lemma utf8_entries:
  "utf8_entry 0 c = entry0 (unat c)" "utf8_entry 256 c = between 0x80 0xC0 0 (unat c)" "utf8_entry 512 c = between 0xA0 0xC0 1 (unat c)"
  "utf8_entry 768 c = between 0x80 0xC0 1 (unat c)" "utf8_entry 1024 c = between 0x90 0xC0 3 (unat c)"
  "utf8_entry 1280 c = between 0x80 0xC0 3 (unat c)" "utf8_entry 1536 c = between 0x80 0x90 3 (unat c)"
  "utf8_entry 1792 c = entry7 (unat c)" "utf8_entry 2048 c = between 0x80 0xC0 242 (unat c)"
  using unat_byte [of c] by (simp_all add: utf8_entry_def table_parts states_as_functions)

lemma utf8_entry_values: "utf8_entry (m * 256) c \<in> {0, 1, 2, 3, 4, 5, 6, 7, 8, 240, 242}" if "m \<le> 8"
proof -
  have "m \<in> {0, 1, 2, 3, 4, 5, 6, 7, 8}" using that by auto
  then show ?thesis by (elim insertE emptyE) (simp_all add: utf8_entries entry0_def entry7_def between_def)
qed

lemma byte_scan_values:
  "m \<le> 8 \<Longrightarrow> e \<in> {0, 1, 2, 3, 4, 5, 6, 7, 8, 240, 242} \<Longrightarrow> fst (byte_scan str e (m * 256) src) \<in> {0, 1, 2, 3, 4, 5, 6, 7, 8, 240, 242}"
proof (induction "length str - src" arbitrary: m e src rule: less_induct)
  case less
  show ?case
  proof (cases "src < length str")
    case True
    let ?e = "utf8_entry (m * 256) (str ! src)"
    have e: "?e \<in> {0, 1, 2, 3, 4, 5, 6, 7, 8, 240, 242}" by (rule utf8_entry_values [OF less.prems(1)])
    show ?thesis
    proof (cases "?e \<ge> 240")
      case False
      then have "?e \<le> 8" using e by auto
      then have "fst (byte_scan str ?e (?e * 256) (src + 1)) \<in> {0, 1, 2, 3, 4, 5, 6, 7, 8, 240, 242}"
        using less.hyps [of "src + 1" ?e ?e] True e by simp
      then show ?thesis using True False by (subst byte_scan.simps) (simp add: Let_def kExitIllegalStructure_def entry_shift_def)
    qed (use True e in \<open>subst byte_scan.simps, simp add: Let_def kExitIllegalStructure_def\<close>)
  qed (use less.prems in \<open>subst byte_scan.simps, simp\<close>)
qed

lemma scan_pass_ends: "fst (scan_pass base str src) \<noteq> kExitDoAgain"
proof -
  have "fst (byte_scan str 0 0 k) \<noteq> 253" for k using byte_scan_values [of 0 0 str k] by auto
  then show ?thesis
    by (auto simp: scan_pass_def Let_def kExitDoAgain_def kExitIllegalStructure_def kExitOK_def split: prod.split)
      (metis fst_conv)+
qed

text \<open>No entry of the table asks for another pass, so the loops around the scanner end.\<close>

function UTF8GenericScan_loop :: "nat \<Rightarrow> byte list \<Rightarrow> nat \<Rightarrow> nat \<times> nat" where
  "UTF8GenericScan_loop base str src =
     (case scan_pass base str src of (e, src') \<Rightarrow> if e = kExitDoAgain then UTF8GenericScan_loop base str src' else (e, src'))"
  by pat_completeness auto
termination
  by (relation "{}") (simp, metis scan_pass_ends fst_conv)

declare UTF8GenericScan_loop.simps [simp del]

definition UTF8GenericScan :: "nat \<Rightarrow> byte list \<Rightarrow> nat \<times> nat" where
  "UTF8GenericScan base str = (if str = [] then (kExitOK, 0) else UTF8GenericScan_loop base str 0)"

lemma UTF8GenericScan_ends: "fst (UTF8GenericScan base str) \<noteq> kExitDoAgain"
  using scan_pass_ends [of base str 0]
  by (auto simp: UTF8GenericScan_def kExitDoAgain_def kExitOK_def UTF8GenericScan_loop.simps [of base str 0] split: prod.split)

section \<open>Skipping ASCII first\<close>

function skip_ascii_words :: "byte list \<Rightarrow> nat \<Rightarrow> nat" where
  "skip_ascii_words str src =
     (if src + 7 < length str \<and> (word_at str src OR word_at str (src + 4)) AND 0x80808080 = 0 then skip_ascii_words str (src + 8) else src)"
  by pat_completeness auto
termination
  by (relation "measure (\<lambda>(str, src). length str - src)") auto

function skip_ascii :: "byte list \<Rightarrow> nat \<Rightarrow> nat" where
  "skip_ascii str src = (if src < length str \<and> str ! src < 0x80 then skip_ascii str (src + 1) else src)"
  by pat_completeness auto
termination
  by (relation "measure (\<lambda>(str, src). length str - src)") auto

declare skip_ascii_words.simps [simp del] skip_ascii.simps [simp del]

definition ascii_pass :: "nat \<Rightarrow> byte list \<Rightarrow> nat \<Rightarrow> nat" where
  "ascii_pass base str src =
     (let src1 = skip_to_alignment (\<lambda>c. c < 0x80) base str src;
          src2 = (if (base + src1) AND 7 = 0 then skip_ascii_words str src1 else src1) in
      skip_ascii str src2)"

function UTF8GenericScanFastAscii_loop :: "nat \<Rightarrow> byte list \<Rightarrow> nat \<Rightarrow> nat \<times> nat" where
  "UTF8GenericScanFastAscii_loop base str src =
     (let n = ascii_pass base str src in
      case UTF8GenericScan (base + n) (drop n str) of (exit_reason, rest_consumed) \<Rightarrow>
        if exit_reason = kExitDoAgain then UTF8GenericScanFastAscii_loop base str (n + rest_consumed) else (exit_reason, n + rest_consumed))"
  by pat_completeness auto
termination
  by (relation "{}") (simp, metis UTF8GenericScan_ends fst_conv)

declare UTF8GenericScanFastAscii_loop.simps [simp del]

definition UTF8GenericScanFastAscii :: "nat \<Rightarrow> byte list \<Rightarrow> nat \<times> nat" where
  "UTF8GenericScanFastAscii base str = (if str = [] then (kExitOK, 0) else UTF8GenericScanFastAscii_loop base str 0)"

text \<open>Before the static tables are set up, everything passes.\<close>

definition IsStructurallyValidUTF8 :: "bool \<Rightarrow> nat \<Rightarrow> byte list \<Rightarrow> bool" where
  "IsStructurallyValidUTF8 module_initialized base buf =
     (if \<not> module_initialized then True else snd (UTF8GenericScanFastAscii base buf) = length buf)"

section \<open>The specification\<close>

text \<open>The encoding of a code point, and the texts that are encodings of Unicode scalar values.\<close>

definition utf8_encode :: "nat \<Rightarrow> byte list" where
  "utf8_encode cp =
     (if cp < 0x80 then [of_nat cp]
      else if cp < 0x800 then [of_nat (0xC0 + cp div 64), of_nat (0x80 + cp mod 64)]
      else if cp < 0x10000 then [of_nat (0xE0 + cp div 4096), of_nat (0x80 + cp div 64 mod 64), of_nat (0x80 + cp mod 64)]
      else [of_nat (0xF0 + cp div 262144), of_nat (0x80 + cp div 4096 mod 64), of_nat (0x80 + cp div 64 mod 64), of_nat (0x80 + cp mod 64)])"

definition scalar_value :: "nat \<Rightarrow> bool" where
  "scalar_value cp \<longleftrightarrow> cp < 0x110000 \<and> \<not> (0xD800 \<le> cp \<and> cp < 0xE000)"

definition utf8_text :: "byte list \<Rightarrow> bool" where
  "utf8_text s \<longleftrightarrow> (\<exists>cps. (\<forall>cp\<in>set cps. scalar_value cp) \<and> s = concat (map utf8_encode cps))"

end
