(* ===== verification/Utf8_Proofs.thy ===== *)
theory Utf8_Proofs
  imports Utf8_Valid
begin

unbundle bit_operations_syntax

text \<open>
  The checker of \<^verbatim>\<open>structurally_valid.cc\<close> decides what the definition of UTF-8 says: it accepts exactly the
  encodings of Unicode scalar values, and otherwise reports the longest beginning that is one.
\<close>

text \<open>How many bytes the automaton takes to get back to its first state.\<close>

fun completes :: "nat \<Rightarrow> byte list \<Rightarrow> nat option" where
  "completes m [] = None"
| "completes m (c # cs) =
     (let e = utf8_entry (m * 256) c in
      if e \<ge> 240 then None else if e = 0 then Some 1 else map_option Suc (completes e cs))"

lemma completes_bounds: "completes m s = Some k \<Longrightarrow> 0 < k \<and> k \<le> length s"
  by (induction m s arbitrary: k rule: completes.induct) (auto simp: Let_def split: if_splits)

function chars_length :: "byte list \<Rightarrow> nat" where
  "chars_length s = (case completes 0 s of None \<Rightarrow> 0 | Some k \<Rightarrow> k + chars_length (drop k s))"
  by pat_completeness auto
termination
  by (relation "measure length") (auto dest!: completes_bounds)

declare chars_length.simps [simp del]


section \<open>The scanner follows the characters\<close>

lemma continuation_range: "continuation c \<longleftrightarrow> 0x80 \<le> unat c \<and> unat c < 0xC0"
proof -
  have "list_all (\<lambda>k. ((of_nat k :: byte) AND 0xC0 = 0x80) = (0x80 \<le> k \<and> k < 0xC0)) [0..<256]" by code_simp
  then have "\<forall>k\<in>{0..<256}. ((of_nat k :: byte) AND 0xC0 = 0x80) = (0x80 \<le> k \<and> k < 0xC0)" by (simp add: list_all_iff)
  then have "((of_nat (unat c) :: byte) AND 0xC0 = 0x80) = (0x80 \<le> unat c \<and> unat c < 0xC0)"
    by (rule bspec) (simp add: unat_byte)
  then show ?thesis by (simp add: continuation_def)
qed

text \<open>Inside a character come continuation bytes only, and none starts one.\<close>

lemma inside_continuation:
  assumes "0 < m" "m \<le> 8" "utf8_entry (m * 256) c < 240"
  shows "continuation c \<and> utf8_entry (m * 256) c \<le> 8"
proof -
  have "m \<in> {1, 2, 3, 4, 5, 6, 7, 8}" using assms by auto
  then show ?thesis using assms(3)
    by (elim insertE emptyE) (auto simp: utf8_entries entry7_def between_def continuation_range split: if_splits)
qed

lemma start_no_continuation:
  "utf8_entry 0 c < 240 \<Longrightarrow> \<not> continuation c \<and> utf8_entry 0 c \<le> 8"
  by (auto simp: utf8_entries entry0_def continuation_range split: if_splits)

definition scan_end :: "byte list \<Rightarrow> nat \<times> nat \<times> nat \<Rightarrow> nat" where
  "scan_end str r =
     (case r of (e, Tbl, src3) \<Rightarrow>
        if e \<ge> kExitIllegalStructure then
          let src4 = src3 - 1 in if \<not> InStateZero Tbl then back_up_char str src4 else src4
        else if \<not> InStateZero Tbl then back_up_char str src3
        else src3)"

lemma scan_pass_position:
  "snd (scan_pass base str src) =
     (let src1 = skip_to_alignment (\<lambda>c. fast_entry c = 0) base str src;
          src2 = (if (base + src1) AND 7 = 0 then skip_identity str src1 else src1) in
      scan_end str (byte_scan str 0 0 src2))"
  by (simp add: scan_pass_def scan_end_def Let_def split: prod.split)

lemma back_up_to_start:
  "p < n \<Longrightarrow> \<not> continuation (str ! p) \<Longrightarrow> (\<And>i. p < i \<Longrightarrow> i < n \<Longrightarrow> continuation (str ! i)) \<Longrightarrow> back_up_char str n = p"
proof (induction n)
  case (Suc n)
  show ?case
  proof (cases "p = n")
    case False
    then have "p < n" "n > 0" "continuation (str ! n)" using Suc.prems by auto
    then show ?thesis using Suc by simp
  qed (use Suc.prems in simp)
qed simp

lemma byte_scan_end: "\<not> src < length str \<Longrightarrow> byte_scan str e Tbl src = (e, Tbl, src)"
  by (subst byte_scan.simps) simp

lemma byte_scan_step: "src < length str \<Longrightarrow> utf8_entry (m * 256) (str ! src) < 240 \<Longrightarrow>
    byte_scan str e (m * 256) src = byte_scan str (utf8_entry (m * 256) (str ! src)) (utf8_entry (m * 256) (str ! src) * 256) (src + 1)"
  by (subst byte_scan.simps) (simp add: Let_def kExitIllegalStructure_def entry_shift_def)

lemma byte_scan_stop: "src < length str \<Longrightarrow> \<not> utf8_entry (m * 256) (str ! src) < 240 \<Longrightarrow>
    byte_scan str e (m * 256) src = (utf8_entry (m * 256) (str ! src), m * 256, src + 1)"
  by (subst byte_scan.simps) (simp add: Let_def kExitIllegalStructure_def)

text \<open>From inside a character that started at \<open>p\<close>: either it is completed, or the scanner gives it up.\<close>

lemma scan_inside:
  "0 < m \<Longrightarrow> m \<le> 8 \<Longrightarrow> e < 240 \<Longrightarrow> p < src \<Longrightarrow> src \<le> length str \<Longrightarrow> \<not> continuation (str ! p) \<Longrightarrow>
    (\<And>i. p < i \<Longrightarrow> i < src \<Longrightarrow> continuation (str ! i)) \<Longrightarrow>
    scan_end str (byte_scan str e (m * 256) src) =
      (case completes m (drop src str) of None \<Rightarrow> p | Some k \<Rightarrow> scan_end str (byte_scan str 0 0 (src + k)))"
proof (induction "length str - src" arbitrary: m e src rule: less_induct)
  case less
  have backed: "back_up_char str src = p" by (rule back_up_to_start [OF less.prems(4,6,7)])
  have zero: "\<not> InStateZero (m * 256)" using less.prems(1) by (simp add: InStateZero_def state0_size_def)
  show ?case
  proof (cases "src < length str")
    case False
    then show ?thesis using backed zero less.prems(3) by (simp add: byte_scan_end scan_end_def kExitIllegalStructure_def)
  next
    case True
    let ?c = "str ! src"
    let ?e = "utf8_entry (m * 256) ?c"
    have drop: "drop src str = ?c # drop (Suc src) str" using True by (simp add: Cons_nth_drop_Suc)
    show ?thesis
    proof (cases "?e < 240")
      case False
      then show ?thesis using byte_scan_stop [OF True False] backed zero drop
        by (simp add: scan_end_def kExitIllegalStructure_def Let_def)
    next
      case lt: True
      note step = byte_scan_step [OF True lt, of e]
      have cont: "continuation ?c" "?e \<le> 8" using inside_continuation [OF less.prems(1,2) lt] by simp_all
      show ?thesis
      proof (cases "?e = 0")
        case True
        then show ?thesis using step drop lt by simp
      next
        case False
        have "scan_end str (byte_scan str ?e (?e * 256) (src + 1)) =
            (case completes ?e (drop (src + 1) str) of None \<Rightarrow> p | Some k \<Rightarrow> scan_end str (byte_scan str 0 0 (src + 1 + k)))"
        proof (rule less.hyps)
          show "continuation (str ! i)" if "p < i" "i < src + 1" for i using less.prems(7) cont(1) that by (cases "i = src") auto
        qed (use True False cont lt less.prems in auto)
        then show ?thesis using step drop lt False by (simp add: option.case_eq_if option.map_sel split: option.split)
      qed
    qed
  qed
qed

text \<open>From between two characters.\<close>

lemma scan_between: "e < 240 \<Longrightarrow> src \<le> length str \<Longrightarrow> scan_end str (byte_scan str e 0 src) = src + chars_length (drop src str)"
proof (induction "length str - src" arbitrary: e src rule: less_induct)
  case less
  show ?case
  proof (cases "src < length str")
    case False
    then show ?thesis using less.prems
      by (simp add: byte_scan_end scan_end_def kExitIllegalStructure_def InStateZero_def state0_size_def chars_length.simps)
  next
    case True
    let ?c = "str ! src"
    let ?e = "utf8_entry 0 ?c"
    have drop: "drop src str = ?c # drop (Suc src) str" using True by (simp add: Cons_nth_drop_Suc)
    have next_char: "scan_end str (byte_scan str 0 0 (src + k)) = src + k + chars_length (drop (src + k) str)"
      if "0 < k" "src + k \<le> length str" for k
      using less.hyps [of "src + k" 0] True that by simp
    show ?thesis
    proof (cases "?e < 240")
      case False
      then have "byte_scan str e 0 src = (?e, 0, src + 1)" using byte_scan_stop [of src str 0 e] True by simp
      then show ?thesis using False drop
        by (simp add: scan_end_def kExitIllegalStructure_def InStateZero_def state0_size_def Let_def chars_length.simps)
    next
      case lt: True
      then have step: "byte_scan str e 0 src = byte_scan str ?e (?e * 256) (src + 1)" using byte_scan_step [of src str 0 e] True by simp
      have cont: "\<not> continuation ?c" "?e \<le> 8" using start_no_continuation [OF lt] by simp_all
      show ?thesis
      proof (cases "?e = 0")
        case True
        then have "completes 0 (drop src str) = Some 1" using drop lt by simp
        then show ?thesis using step True next_char [of 1] \<open>src < length str\<close> by (simp add: chars_length.simps [of "drop src str"])
      next
        case False
        have inside: "scan_end str (byte_scan str ?e (?e * 256) (src + 1)) =
            (case completes ?e (drop (src + 1) str) of None \<Rightarrow> src | Some k \<Rightarrow> scan_end str (byte_scan str 0 0 (src + 1 + k)))"
          by (rule scan_inside) (use True False cont lt in auto)
        have comp: "completes 0 (drop src str) = map_option Suc (completes ?e (drop (src + 1) str))" using drop lt False by simp
        show ?thesis
        proof (cases "completes ?e (drop (src + 1) str)")
          case None
          then show ?thesis using step inside comp by (simp add: chars_length.simps [of "drop src str"])
        next
          case (Some k)
          then have "src + Suc k \<le> length str" using completes_bounds [OF Some] \<open>src < length str\<close> by (simp, linarith)
          then show ?thesis using step inside comp Some next_char [of "Suc k"]
            by (simp add: chars_length.simps [of "drop src str"] add.commute add.left_commute)
        qed
      qed
    qed
  qed
qed

section \<open>The loops that skip ASCII\<close>

lemma ascii_entry: "unat c < 128 \<Longrightarrow> utf8_entry 0 c = 0"
  by (simp add: utf8_entries entry0_def)

lemma skipped_ascii:
  "src \<le> src' \<Longrightarrow> src' \<le> length str \<Longrightarrow> (\<And>i. src \<le> i \<Longrightarrow> i < src' \<Longrightarrow> unat (str ! i) < 128) \<Longrightarrow>
    src' + chars_length (drop src' str) = src + chars_length (drop src str)"
proof (induction "src' - src" arbitrary: src)
  case (Suc n)
  then have lt: "src < src'" "src < length str" by auto
  have "drop src str = str ! src # drop (Suc src) str" using lt by (simp add: Cons_nth_drop_Suc)
  then have "completes 0 (drop src str) = Some 1" using ascii_entry [of "str ! src"] Suc.prems(3) [of src] lt(1) by simp
  then have "chars_length (drop src str) = 1 + chars_length (drop (Suc src) str)" by (simp add: chars_length.simps [of "drop src str"])
  moreover have "src' + chars_length (drop src' str) = Suc src + chars_length (drop (Suc src) str)"
    by (rule Suc.hyps(1)) (use Suc lt in auto)
  ultimately show ?case by simp
qed simp

definition skips_ascii :: "byte list \<Rightarrow> nat \<Rightarrow> nat \<Rightarrow> bool" where
  "skips_ascii str src src' \<longleftrightarrow> src \<le> src' \<and> src' \<le> length str \<and> (\<forall>i. src \<le> i \<longrightarrow> i < src' \<longrightarrow> unat (str ! i) < 128)"

lemma skips_ascii_refl: "src \<le> length str \<Longrightarrow> skips_ascii str src src"
  by (simp add: skips_ascii_def)

lemma skips_ascii_trans: "skips_ascii str a b \<Longrightarrow> skips_ascii str b c \<Longrightarrow> skips_ascii str a c"
  unfolding skips_ascii_def by (metis le_trans not_less)

lemma skips_ascii_chars: "skips_ascii str src src' \<Longrightarrow> src' + chars_length (drop src' str) = src + chars_length (drop src str)"
  by (rule skipped_ascii) (auto simp: skips_ascii_def)

lemma skip_to_alignment_ascii:
  "(\<And>c. ok c \<Longrightarrow> unat c < 128) \<Longrightarrow> src \<le> length str \<Longrightarrow> skips_ascii str src (skip_to_alignment ok base str src)"
proof (induction "length str - src" arbitrary: src rule: less_induct)
  case less
  show ?case
  proof (cases "(base + src) AND 7 \<noteq> 0 \<and> src < length str \<and> ok (str ! src)")
    case True
    then have "skips_ascii str src (src + 1)" using less.prems(1) by (auto simp: skips_ascii_def less_Suc_eq)
    moreover have "length str - (src + 1) < length str - src" "src + 1 \<le> length str" using True by linarith+
    then have "skips_ascii str (src + 1) (skip_to_alignment ok base str (src + 1))" using less.hyps less.prems(1) by blast
    ultimately show ?thesis using True by (subst skip_to_alignment.simps) (simp add: skips_ascii_trans)
  qed (use less.prems in \<open>subst skip_to_alignment.simps, auto simp: skips_ascii_refl\<close>)
qed

lemma fast_entry_ascii: "fast_entry c = (if unat c < 128 then 0 else 1)"
  using unat_byte [of c] by (auto simp: fast_entry_def utf8acceptnonsurrogates_fast_def nth_append)

text \<open>Of four bytes in a word, the high bits are those of the bytes.\<close>

lemma high_bit: "unat (c :: byte) < 128 \<longleftrightarrow> \<not> bit c 7"
proof -
  have "list_all (\<lambda>k. (k < 128) = (\<not> bit (of_nat k :: byte) 7)) [0..<256]" by code_simp
  then have "\<forall>k\<in>{0..<256}. (k < 128) = (\<not> bit (of_nat k :: byte) 7)" by (simp add: list_all_iff)
  then have "(unat c < 128) = (\<not> bit (of_nat (unat c) :: byte) 7)" by (rule bspec) (simp add: unat_byte)
  then show ?thesis by simp
qed

lemma word_at_bits:
  "bit (word_at str i) 7 = bit (str ! i) 7" "bit (word_at str i) 15 = bit (str ! (i + 1)) 7"
  "bit (word_at str i) 23 = bit (str ! (i + 2)) 7" "bit (word_at str i) 31 = bit (str ! (i + 3)) 7"
  by (auto simp: word_at_def bit_simps dest: bit_imp_le_length)

lemma high_bits_clear:
  assumes "(w :: 32 word) AND 0x80808080 = 0"
  shows "\<not> bit w 7" "\<not> bit w 15" "\<not> bit w 23" "\<not> bit w 31"
proof -
  have "bit (0x80808080 :: 32 word) 7" "bit (0x80808080 :: 32 word) 15" "bit (0x80808080 :: 32 word) 23" "bit (0x80808080 :: 32 word) 31"
    by simp_all
  then show "\<not> bit w 7" "\<not> bit w 15" "\<not> bit w 23" "\<not> bit w 31"
    using assms by (metis bit_and_iff bit_0_eq bot_apply bot_bool_def)+
qed

lemma ascii_block:
  assumes "word_at str src AND 0x80808080 = 0" "word_at str (src + 4) AND 0x80808080 = 0" "src + 7 < length str"
  shows "skips_ascii str src (src + 8)"
proof -
  have "unat (str ! (src + k)) < 128" if "k < 8" for k
  proof -
    have "k = 0 \<or> k = 1 \<or> k = 2 \<or> k = 3 \<or> k = 4 \<or> k = 5 \<or> k = 6 \<or> k = 7" using that by linarith
    then show ?thesis using high_bits_clear [OF assms(1)] high_bits_clear [OF assms(2)]
      by (elim disjE) (simp_all add: word_at_bits high_bit ac_simps)
  qed
  then have "unat (str ! i) < 128" if "src \<le> i" "i < src + 8" for i using that by (metis le_add_diff_inverse nat_add_left_cancel_less)
  then show ?thesis using assms(3) by (auto simp: skips_ascii_def)
qed

lemma or_zero: "(a OR b) AND m = 0 \<Longrightarrow> a AND m = 0 \<and> b AND m = (0 :: 32 word)"
  by (metis (no_types) bit.conj_disj_distrib2 or_eq_0_iff)

lemma ascii_nine: "unat (str ! src) < 128 \<Longrightarrow> unat (str ! (src + 1)) < 128 \<Longrightarrow> unat (str ! (src + 2)) < 128 \<Longrightarrow> unat (str ! (src + 3)) < 128 \<Longrightarrow>
    src + 4 \<le> length str \<Longrightarrow> skips_ascii str src (src + 4)"
proof -
  assume a: "unat (str ! src) < 128" "unat (str ! (src + 1)) < 128" "unat (str ! (src + 2)) < 128" "unat (str ! (src + 3)) < 128" "src + 4 \<le> length str"
  have "unat (str ! i) < 128" if "src \<le> i" "i < src + 4" for i
  proof -
    have "i = src \<or> i = src + 1 \<or> i = src + 2 \<or> i = src + 3" using that by linarith
    then show ?thesis using a by auto
  qed
  then show ?thesis using a(5) by (simp add: skips_ascii_def)
qed

lemma skip_identity_ascii: "src \<le> length str \<Longrightarrow> skips_ascii str src (skip_identity str src)"
proof (induction "length str - src" arbitrary: src rule: less_induct)
  case less
  show ?case
  proof (cases "src + 7 < length str")
    case False
    then show ?thesis using less.prems by (subst skip_identity.simps) (simp add: skips_ascii_refl)
  next
    case True
    have on: "skips_ascii str src (skip_identity str (src + 8))" if "skips_ascii str src (src + 8)"
      using less.hyps [of "src + 8"] True skips_ascii_trans [OF that] by simp
    define temp where "temp = (word_at str src - losub) OR (word_at str src + hiadd) OR (word_at str (src + 4) - losub) OR (word_at str (src + 4) + hiadd)"
    show ?thesis
    proof (cases "temp AND 0x80808080 = 0")
      case t: True
      then have "word_at str src AND 0x80808080 = 0" "word_at str (src + 4) AND 0x80808080 = 0"
        by (auto simp: temp_def hiadd_def dest!: or_zero)
      then show ?thesis using on ascii_block True t
        by (subst skip_identity.simps) (simp add: Let_def flip: temp_def)
    next
      case t: False
      define e1 where "e1 = (fast_entry (str ! src) OR fast_entry (str ! (src + 1))) OR (fast_entry (str ! (src + 2)) OR fast_entry (str ! (src + 3)))"
      define e2 where "e2 = (fast_entry (str ! (src + 4)) OR fast_entry (str ! (src + 5))) OR (fast_entry (str ! (src + 6)) OR fast_entry (str ! (src + 7)))"
      have eq: "skip_identity str src = (if e1 \<noteq> 0 then src else if e2 \<noteq> 0 then src + 4 else skip_identity str (src + 8))"
        using True t by (subst skip_identity.simps) (simp add: Let_def e1_def e2_def flip: temp_def)
      have first: "skips_ascii str src (src + 4)" if "e1 = 0"
        by (rule ascii_nine) (use that True in \<open>auto simp: e1_def fast_entry_ascii split: if_splits\<close>)
      have second: "skips_ascii str (src + 4) (src + 4 + 4)" if "e2 = 0"
        by (rule ascii_nine) (use that True in \<open>auto simp: e2_def fast_entry_ascii ac_simps split: if_splits\<close>)
      have third: "skips_ascii str src (src + 8)" if "e1 = 0" "e2 = 0"
        using skips_ascii_trans [OF first second] that by (simp add: add.commute)
      show ?thesis
        using first third on skips_ascii_refl [of src str] less.prems by (simp add: eq)
    qed
  qed
qed

lemma skip_ascii_words_ascii: "src \<le> length str \<Longrightarrow> skips_ascii str src (skip_ascii_words str src)"
proof (induction "length str - src" arbitrary: src rule: less_induct)
  case less
  show ?case
  proof (cases "src + 7 < length str \<and> (word_at str src OR word_at str (src + 4)) AND 0x80808080 = 0")
    case True
    then have block: "skips_ascii str src (src + 8)" by (auto intro!: ascii_block dest!: or_zero)
    have "length str - (src + 8) < length str - src" "src + 8 \<le> length str" using True by linarith+
    then have "skips_ascii str (src + 8) (skip_ascii_words str (src + 8))" using less.hyps by blast
    then show ?thesis using True skips_ascii_trans [OF block] by (subst skip_ascii_words.simps) simp
  qed (use less.prems in \<open>subst skip_ascii_words.simps, auto simp: skips_ascii_refl\<close>)
qed

lemma byte_ascii: "c < 0x80 \<Longrightarrow> unat (c :: byte) < 128"
  by (simp add: word_less_nat_alt)

lemma skip_ascii_ascii: "src \<le> length str \<Longrightarrow> skips_ascii str src (skip_ascii str src)"
proof (induction "length str - src" arbitrary: src rule: less_induct)
  case less
  show ?case
  proof (cases "src < length str \<and> str ! src < 0x80")
    case True
    then have one: "skips_ascii str src (src + 1)" using byte_ascii by (auto simp: skips_ascii_def less_Suc_eq)
    have "length str - (src + 1) < length str - src" "src + 1 \<le> length str" using True by linarith+
    then have "skips_ascii str (src + 1) (skip_ascii str (src + 1))" using less.hyps by blast
    then show ?thesis using True skips_ascii_trans [OF one] by (subst skip_ascii.simps) simp
  qed (use less.prems in \<open>subst skip_ascii.simps, auto simp: skips_ascii_refl\<close>)
qed

lemma skips_ascii_bound: "skips_ascii str a b \<Longrightarrow> b \<le> length str"
  by (simp add: skips_ascii_def)

lemma scan_pass_chars:
  assumes "src \<le> length str"
  shows "snd (scan_pass base str src) = src + chars_length (drop src str)"
proof -
  define src1 where "src1 = skip_to_alignment (\<lambda>c. fast_entry c = 0) base str src"
  define src2 where "src2 = (if (base + src1) AND 7 = 0 then skip_identity str src1 else src1)"
  have 1: "skips_ascii str src src1"
    unfolding src1_def by (rule skip_to_alignment_ascii [OF _ assms]) (simp add: fast_entry_ascii split: if_splits)
  have 2: "skips_ascii str src1 src2"
    using skip_identity_ascii skips_ascii_refl skips_ascii_bound [OF 1] by (simp add: src2_def)
  have "snd (scan_pass base str src) = src2 + chars_length (drop src2 str)"
    using scan_between [of 0 src2 str] skips_ascii_bound [OF 2] by (simp add: scan_pass_position Let_def flip: src1_def src2_def)
  then show ?thesis using skips_ascii_chars [OF skips_ascii_trans [OF 1 2]] by simp
qed

lemma UTF8GenericScan_chars: "snd (UTF8GenericScan base str) = chars_length str"
proof (cases "str = []")
  case False
  obtain e src where p: "scan_pass base str 0 = (e, src)" by fastforce
  then have "src = chars_length str" "e \<noteq> kExitDoAgain" using scan_pass_chars [of 0 str base] scan_pass_ends [of base str 0] by simp_all
  then show ?thesis using False p by (simp add: UTF8GenericScan_def UTF8GenericScan_loop.simps)
qed (simp add: UTF8GenericScan_def chars_length.simps)

lemma ascii_pass_ascii: "src \<le> length str \<Longrightarrow> skips_ascii str src (ascii_pass base str src)"
proof -
  assume s: "src \<le> length str"
  define src1 where "src1 = skip_to_alignment (\<lambda>c. c < 0x80) base str src"
  define src2 where "src2 = (if (base + src1) AND 7 = 0 then skip_ascii_words str src1 else src1)"
  have 1: "skips_ascii str src src1" unfolding src1_def by (rule skip_to_alignment_ascii [OF byte_ascii s])
  have 2: "skips_ascii str src1 src2" using skip_ascii_words_ascii skips_ascii_refl skips_ascii_bound [OF 1] by (simp add: src2_def)
  have 3: "skips_ascii str src2 (skip_ascii str src2)" by (rule skip_ascii_ascii [OF skips_ascii_bound [OF 2]])
  show ?thesis using skips_ascii_trans [OF skips_ascii_trans [OF 1 2] 3] by (simp add: ascii_pass_def Let_def flip: src1_def src2_def)
qed

lemma FastAscii_chars: "snd (UTF8GenericScanFastAscii base str) = chars_length str"
proof (cases "str = []")
  case False
  define n where "n = ascii_pass base str 0"
  obtain e k where g: "UTF8GenericScan (base + n) (drop n str) = (e, k)" by fastforce
  then have "e \<noteq> kExitDoAgain" "k = chars_length (drop n str)"
    using UTF8GenericScan_ends [of "base + n" "drop n str"] UTF8GenericScan_chars [of "base + n" "drop n str"] by simp_all
  then have "snd (UTF8GenericScanFastAscii base str) = n + chars_length (drop n str)"
    using False g by (simp add: UTF8GenericScanFastAscii_def UTF8GenericScanFastAscii_loop.simps Let_def flip: n_def)
  then show ?thesis using skips_ascii_chars [OF ascii_pass_ascii [of 0 str base]] by (simp add: n_def)
qed (simp add: UTF8GenericScanFastAscii_def chars_length.simps)

section \<open>Characters are encodings of scalar values\<close>

lemma unat_of_nat_byte: "n < 256 \<Longrightarrow> unat (of_nat n :: byte) = n"
  by (simp add: unsigned_of_nat take_bit_nat_eq_self)

lemma completes_step: "completes m (c # cs) = (let e = utf8_entry (m * 256) c in if e \<ge> 240 then None else if e = 0 then Some 1 else map_option Suc (completes e cs))"
  by simp

lemmas entries = utf8_entries entry0_def entry7_def between_def unat_of_nat_byte

lemma encode_completes:
  assumes "scalar_value cp"
  shows "completes 0 (utf8_encode cp @ rest) = Some (length (utf8_encode cp))"
proof -
  have b: "cp div 64 mod 64 < 64" "cp mod 64 < 64" "cp div 4096 mod 64 < 64" "cp < 0x110000" using assms by (simp_all add: scalar_value_def)
  have conts: "completes 1 (of_nat (0x80 + k) # s) = Some 1" "completes 3 (of_nat (0x80 + j) # of_nat (0x80 + k) # s) = Some 2"
    if "k < 64" "j < 64" for j k s
    using that by (simp_all add: entries del: of_nat_add)
  consider (one) "cp < 0x80" | (two) "0x80 \<le> cp" "cp < 0x800" | (three) "0x800 \<le> cp" "cp < 0x10000" | (four) "0x10000 \<le> cp" by linarith
  then show ?thesis
  proof cases
    case one
    then show ?thesis by (simp add: utf8_encode_def entries del: of_nat_add)
  next
    case two
    then have "2 \<le> cp div 64" "cp div 64 < 32" by linarith+
    then show ?thesis using two b conts(1) [of "cp mod 64" 0] by (simp add: utf8_encode_def entries del: of_nat_add)
  next
    case three
    let ?a = "cp div 4096" and ?b = "cp div 64 mod 64"
    have a: "?a < 16" using three by linarith
    have "cp div 4096 = cp div 64 div 64" by (simp flip: div_mult2_eq)
    then have q: "cp div 64 = 64 * ?a + ?b" by simp
    have low: "32 \<le> ?b" if "?a = 0" using q three that by linarith
    have surr: "?b < 32" if "?a = 13"
    proof -
      have "cp < 0xE000" using that by linarith
      then have "cp < 0xD800" using assms by (simp add: scalar_value_def)
      then show ?thesis using q that by linarith
    qed
    consider "?a = 0" | "?a = 13" | "?a \<noteq> 0" "?a \<noteq> 13" by blast
    then show ?thesis
    proof cases
      case 1
      then show ?thesis using three b low conts(1) [of "cp mod 64" 0] by (simp add: utf8_encode_def entries del: of_nat_add)
    next
      case 2
      then show ?thesis using three b surr conts(1) [of "cp mod 64" 0] by (simp add: utf8_encode_def entries del: of_nat_add)
    next
      case 3
      then have "utf8_entry 0 (of_nat (0xE0 + ?a)) = 3" using a by (simp add: entries del: of_nat_add)
      then show ?thesis using three b conts(2) [of "cp mod 64" ?b] by (simp add: utf8_encode_def del: of_nat_add)
    qed
  next
    case four
    let ?a = "cp div 262144" and ?b = "cp div 4096 mod 64"
    have a: "?a < 5" using b(4) by linarith
    have "cp div 262144 = cp div 4096 div 64" by (simp flip: div_mult2_eq)
    then have q: "cp div 4096 = 64 * ?a + ?b" by simp
    have low: "16 \<le> ?b" if "?a = 0" using q four that by linarith
    have high: "?b < 16" if "?a = 4" using q b(4) that by linarith
    have last2: "completes 3 (of_nat (0x80 + cp div 64 mod 64) # of_nat (0x80 + cp mod 64) # rest) = Some 2" using b conts(2) by blast
    consider "?a = 0" | "?a = 4" | "?a = 1 \<or> ?a = 2 \<or> ?a = 3" using a by linarith
    then show ?thesis
    proof cases
      case 1
      then have "utf8_entry 0 (of_nat (0xF0 + ?a)) = 4" "utf8_entry 1024 (of_nat (0x80 + ?b)) = 3" using low b by (simp_all add: entries del: of_nat_add)
      then show ?thesis using four last2 by (simp add: utf8_encode_def del: of_nat_add)
    next
      case 2
      then have "utf8_entry 0 (of_nat (0xF0 + ?a)) = 6" "utf8_entry 1536 (of_nat (0x80 + ?b)) = 3" using high b by (simp_all add: entries del: of_nat_add)
      then show ?thesis using four last2 by (simp add: utf8_encode_def del: of_nat_add)
    next
      case 3
      then have "utf8_entry 0 (of_nat (0xF0 + ?a)) = 5" "utf8_entry 1280 (of_nat (0x80 + ?b)) = 3" using b by (auto simp: entries simp del: of_nat_add)
      then show ?thesis using four last2 by (simp add: utf8_encode_def del: of_nat_add)
    qed
  qed
qed

lemma horner: "j < 64 \<Longrightarrow> (q * 64 + j) div 64 = q" "j < 64 \<Longrightarrow> (q * 64 + j) mod 64 = (j :: nat)"
  by simp_all

lemma continuation_digit: "0x80 \<le> unat c \<Longrightarrow> unat c < 0xC0 \<Longrightarrow> \<exists>j<64. unat (c :: byte) = 0x80 + j"
  by (rule exI [of _ "unat c - 0x80"]) simp

lemma byte_eq: "unat (c :: byte) = n \<Longrightarrow> c = of_nat n"
  by auto

lemma encode_two: "2 \<le> a \<Longrightarrow> a < 32 \<Longrightarrow> j < 64 \<Longrightarrow>
    utf8_encode (a * 64 + j) = [of_nat (0xC0 + a), of_nat (0x80 + j)] \<and> scalar_value (a * 64 + j)"
  using horner [of j a] by (simp add: utf8_encode_def scalar_value_def del: of_nat_add)

lemma encode_three:
  assumes "a < 16" "j < 64" "k < 64" "a = 0 \<Longrightarrow> 32 \<le> j" "a = 13 \<Longrightarrow> j < 32"
  shows "utf8_encode ((a * 64 + j) * 64 + k) = [of_nat (0xE0 + a), of_nat (0x80 + j), of_nat (0x80 + k)] \<and> scalar_value ((a * 64 + j) * 64 + k)"
proof -
  let ?q = "a * 64 + j" and ?cp = "(a * 64 + j) * 64 + k"
  have d: "?cp div 64 = ?q" "?cp mod 64 = k" "?q div 64 = a" "?q mod 64 = j" using horner assms(2,3) by blast+
  have "?cp div 4096 = ?cp div 64 div 64" by (simp flip: div_mult2_eq)
  then have e: "?cp div 4096 = a" by (simp only: d)
  have "32 \<le> ?q" "?q < 1024" using assms(1,2,4) by (cases "a = 0", simp_all)
  then have range: "\<not> ?cp < 0x80" "\<not> ?cp < 0x800" "?cp < 0x10000" using assms(3) by simp_all
  have "\<not> (0xD800 \<le> ?cp \<and> ?cp < 0xE000)"
  proof
    assume "0xD800 \<le> ?cp \<and> ?cp < 0xE000"
    then have r: "0xD800 \<le> ?cp" "?cp \<le> 0xDFFF" by simp_all
    have q: "864 \<le> ?q" "?q \<le> 895" using div_le_mono [OF r(1), of 64] div_le_mono [OF r(2), of 64] unfolding d(1) by simp_all
    have "a = 13" using div_le_mono [OF q(1), of 64] div_le_mono [OF q(2), of 64] unfolding d(3) by simp
    then show False using assms(5) q by simp
  qed
  moreover have "utf8_encode ?cp = [of_nat (0xE0 + ?cp div 4096), of_nat (0x80 + ?cp div 64 mod 64), of_nat (0x80 + ?cp mod 64)]"
    using range by (simp only: utf8_encode_def if_True if_False)
  ultimately show ?thesis using range(3) unfolding d e by (simp add: scalar_value_def)
qed

lemma encode_four:
  assumes "a < 5" "i < 64" "j < 64" "k < 64" "a = 0 \<Longrightarrow> 16 \<le> i" "a = 4 \<Longrightarrow> i < 16"
  shows "utf8_encode (((a * 64 + i) * 64 + j) * 64 + k) = [of_nat (0xF0 + a), of_nat (0x80 + i), of_nat (0x80 + j), of_nat (0x80 + k)]
    \<and> scalar_value (((a * 64 + i) * 64 + j) * 64 + k)"
proof -
  let ?p = "a * 64 + i"
  let ?q = "?p * 64 + j"
  let ?cp = "?q * 64 + k"
  have d: "?cp div 64 = ?q" "?cp mod 64 = k" "?q div 64 = ?p" "?q mod 64 = j" "?p div 64 = a" "?p mod 64 = i" using horner assms(2-4) by blast+
  have "?cp div 4096 = ?cp div 64 div 64" "?cp div 262144 = ?cp div 64 div 64 div 64" by (simp_all flip: div_mult2_eq)
  then have e: "?cp div 4096 = ?p" "?cp div 262144 = a" by (simp_all only: d)
  have "16 \<le> ?p" using assms(2,5) by (cases "a = 0") simp_all
  moreover have "?p < 272" using assms(1,2,6) by (cases "a = 4") simp_all
  ultimately have "1024 \<le> ?q" "?q \<le> 17407" using assms(3) by simp_all
  then have range: "\<not> ?cp < 0x80" "\<not> ?cp < 0x800" "\<not> ?cp < 0x10000" "?cp < 0x110000" using assms(4) by simp_all
  then have "utf8_encode ?cp = [of_nat (0xF0 + ?cp div 262144), of_nat (0x80 + ?cp div 4096 mod 64), of_nat (0x80 + ?cp div 64 mod 64), of_nat (0x80 + ?cp mod 64)]"
    by (simp only: utf8_encode_def if_False)
  moreover have "scalar_value ?cp" using range by (simp add: scalar_value_def)
  ultimately show ?thesis unfolding d e by simp
qed

text \<open>What a state still takes.\<close>

lemma completes_1: "completes 1 s = Some k \<Longrightarrow> \<exists>c j cs. s = c # cs \<and> k = 1 \<and> unat c = 0x80 + j \<and> j < 64"
  by (cases s) (auto simp: Let_def utf8_entries between_def split: if_splits dest: continuation_digit)

lemma completes_into_1:
  assumes "completes m s = Some k" "\<And>c. utf8_entry (m * 256) c = between lo hi 1 (unat c)" "0x80 \<le> lo" "hi \<le> 0xC0"
  shows "\<exists>c d i j cs. s = c # d # cs \<and> k = 2 \<and> unat c = 0x80 + i \<and> unat d = 0x80 + j \<and> i < 64 \<and> j < 64 \<and> lo \<le> 0x80 + i \<and> 0x80 + i < hi"
proof -
  obtain c cs where s: "s = c # cs" using assms(1) by (cases s) auto
  then have c: "lo \<le> unat c" "unat c < hi" and k: "map_option Suc (completes 1 cs) = Some k"
    using assms(1,2) by (auto simp: Let_def between_def split: if_splits)
  obtain i where i: "unat c = 0x80 + i" "i < 64" using continuation_digit [of c] c assms(3,4) by auto
  obtain l where l: "completes 1 cs = Some l" "k = Suc l" using k by auto
  from completes_1 [OF l(1)] show ?thesis using s c i l(2) by fastforce
qed

lemma completes_into_3:
  assumes "completes m s = Some k" "\<And>c. utf8_entry (m * 256) c = between lo hi 3 (unat c)" "0x80 \<le> lo" "hi \<le> 0xC0"
  shows "\<exists>c d e h i j cs. s = c # d # e # cs \<and> k = 3 \<and> unat c = 0x80 + h \<and> unat d = 0x80 + i \<and> unat e = 0x80 + j
    \<and> h < 64 \<and> i < 64 \<and> j < 64 \<and> lo \<le> 0x80 + h \<and> 0x80 + h < hi"
proof -
  obtain c cs where s: "s = c # cs" using assms(1) by (cases s) auto
  then have c: "lo \<le> unat c" "unat c < hi" and k: "map_option Suc (completes 3 cs) = Some k"
    using assms(1,2) by (auto simp: Let_def between_def split: if_splits)
  obtain i where i: "unat c = 0x80 + i" "i < 64" using continuation_digit [of c] c assms(3,4) by auto
  obtain l where l: "completes 3 cs = Some l" "k = Suc l" using k by auto
  have "utf8_entry (3 * 256) d = between 0x80 0xC0 1 (unat d)" for d by (simp add: utf8_entries)
  from completes_into_1 [OF l(1) this] show ?thesis using s c i l(2) by fastforce
qed

text \<open>After a first byte of \<open>0xED\<close> the automaton keeps the surrogates apart, and refuses them a byte later.\<close>

lemma completes_7:
  assumes "completes 7 s = Some k"
  shows "\<exists>c d i j cs. s = c # d # cs \<and> k = 2 \<and> unat c = 0x80 + i \<and> unat d = 0x80 + j \<and> i < 32 \<and> j < 64"
proof -
  obtain c cs where s: "s = c # cs" using assms by (cases s) auto
  have no8: "completes 8 t = None" for t by (cases t) (auto simp: Let_def utf8_entries between_def)
  have c: "0x80 \<le> unat c" "unat c < 0xA0" and k: "map_option Suc (completes 1 cs) = Some k"
    using assms s no8 by (auto simp: Let_def utf8_entries entry7_def between_def split: if_splits)
  obtain l where l: "completes 1 cs = Some l" "k = Suc l" using k by auto
  have "unat c = 0x80 + (unat c - 0x80)" "unat c - 0x80 < 32" using c by simp_all
  then show ?thesis using s l(2) completes_1 [OF l(1)] by fastforce
qed

lemma completes_is_char:
  assumes "completes 0 s = Some k"
  shows "\<exists>cp. scalar_value cp \<and> s = utf8_encode cp @ drop k s"
proof -
  obtain c cs where s: "s = c # cs" using assms by (cases s) auto
  let ?e = "utf8_entry 0 c"
  have e: "?e = entry0 (unat c)" by (simp add: utf8_entries)
  have lt: "\<not> ?e \<ge> 240" using assms s by (auto simp: Let_def split: if_splits)
  show ?thesis
  proof (cases "unat c < 0x80")
    case True
    then have "k = 1" "utf8_encode (unat c) = [c]" "scalar_value (unat c)"
      using assms s e by (auto simp: entry0_def utf8_encode_def scalar_value_def)
    then show ?thesis using s by (metis append_Cons append_Nil drop0 drop_Suc_Cons One_nat_def)
  next
    case False
    then have "?e \<noteq> 0" using e by (auto simp: entry0_def)
    then obtain l where l: "completes ?e cs = Some l" "k = Suc l" using assms s lt by auto
    have between_states: "utf8_entry (2 * 256) d = between 0xA0 0xC0 1 (unat d)" "utf8_entry (3 * 256) d = between 0x80 0xC0 1 (unat d)"
      "utf8_entry (4 * 256) d = between 0x90 0xC0 3 (unat d)" "utf8_entry (5 * 256) d = between 0x80 0xC0 3 (unat d)"
      "utf8_entry (6 * 256) d = between 0x80 0x90 3 (unat d)" for d
      by (simp_all add: utf8_entries)
    consider (two) a where "unat c = 0xC0 + a" "2 \<le> a" "a < 32" "?e = 1"
      | (three0) "unat c = 0xE0" "?e = 2" | (three13) "unat c = 0xED" "?e = 7"
      | (three) a where "unat c = 0xE0 + a" "a < 16" "a \<noteq> 0" "a \<noteq> 13" "?e = 3"
      | (four0) "unat c = 0xF0" "?e = 4" | (four) a where "unat c = 0xF0 + a" "0 < a" "a < 4" "?e = 5" | (four4) "unat c = 0xF4" "?e = 6"
    proof -
      have "unat c < 0xF5" "0xC2 \<le> unat c" using lt e False by (auto simp: entry0_def split: if_splits)
      then consider "0xC2 \<le> unat c" "unat c < 0xE0" | "unat c = 0xE0" | "unat c = 0xED" | "0xE0 < unat c" "unat c < 0xF0" "unat c \<noteq> 0xED"
        | "unat c = 0xF0" | "0xF0 < unat c" "unat c < 0xF4" | "unat c = 0xF4" by linarith
      then show thesis
      proof cases
        case 1
        then show ?thesis using that(1) [of "unat c - 0xC0"] e by (simp add: entry0_def)
      next
        case 4
        then show ?thesis using that(4) [of "unat c - 0xE0"] e by (simp add: entry0_def)
      next
        case 6
        then show ?thesis using that(6) [of "unat c - 0xF0"] e by (simp add: entry0_def)
      qed (use that e in \<open>simp_all add: entry0_def\<close>)
    qed
    then show ?thesis
    proof cases
      case (two a)
      from completes_1 [of cs l] l(1) two(4) obtain d j ds where d: "cs = d # ds" "l = 1" "unat d = 0x80 + j" "j < 64" by auto
      have "s = utf8_encode (a * 64 + j) @ drop k s"
        using encode_two [OF two(2,3) d(4)] s l(2) d byte_eq [OF two(1)] byte_eq [OF d(3)] by simp
      then show ?thesis using encode_two [OF two(2,3) d(4)] by blast
    next
      case three0
      from completes_into_1 [OF _ between_states(1)] l(1) three0(2) obtain d f i j ds where
        d: "cs = d # f # ds" "l = 2" "unat d = 0x80 + i" "unat f = 0x80 + j" "i < 64" "j < 64" "32 \<le> i" by fastforce
      have enc: "utf8_encode ((0 * 64 + i) * 64 + j) = [of_nat (0xE0 + 0), of_nat (0x80 + i), of_nat (0x80 + j)] \<and> scalar_value ((0 * 64 + i) * 64 + j)"
        by (rule encode_three) (use d in simp_all)
      have "s = utf8_encode ((0 * 64 + i) * 64 + j) @ drop k s"
        using enc s l(2) d byte_eq [OF three0(1)] byte_eq [OF d(3)] byte_eq [OF d(4)] by simp
      then show ?thesis using enc by blast
    next
      case three13
      from completes_7 [of cs l] l(1) three13(2) obtain d f i j ds where
        d: "cs = d # f # ds" "l = 2" "unat d = 0x80 + i" "unat f = 0x80 + j" "i < 32" "j < 64" by auto
      have enc: "utf8_encode ((13 * 64 + i) * 64 + j) = [of_nat (0xE0 + 13), of_nat (0x80 + i), of_nat (0x80 + j)] \<and> scalar_value ((13 * 64 + i) * 64 + j)"
        by (rule encode_three) (use d in simp_all)
      have "s = utf8_encode ((13 * 64 + i) * 64 + j) @ drop k s"
        using enc s l(2) d byte_eq [OF three13(1)] byte_eq [OF d(3)] byte_eq [OF d(4)] by simp
      then show ?thesis using enc by blast
    next
      case (three a)
      from completes_into_1 [OF _ between_states(2)] l(1) three(5) obtain d f i j ds where
        d: "cs = d # f # ds" "l = 2" "unat d = 0x80 + i" "unat f = 0x80 + j" "i < 64" "j < 64" by fastforce
      have enc: "utf8_encode ((a * 64 + i) * 64 + j) = [of_nat (0xE0 + a), of_nat (0x80 + i), of_nat (0x80 + j)] \<and> scalar_value ((a * 64 + i) * 64 + j)"
        by (rule encode_three) (use d three in simp_all)
      have "s = utf8_encode ((a * 64 + i) * 64 + j) @ drop k s"
        using enc s l(2) d byte_eq [OF three(1)] byte_eq [OF d(3)] byte_eq [OF d(4)] by simp
      then show ?thesis using enc by blast
    next
      case four0
      from completes_into_3 [OF _ between_states(3)] l(1) four0(2) obtain d f g h i j ds where
        d: "cs = d # f # g # ds" "l = 3" "unat d = 0x80 + h" "unat f = 0x80 + i" "unat g = 0x80 + j" "h < 64" "i < 64" "j < 64" "16 \<le> h" by fastforce
      have enc: "utf8_encode (((0 * 64 + h) * 64 + i) * 64 + j) = [of_nat (0xF0 + 0), of_nat (0x80 + h), of_nat (0x80 + i), of_nat (0x80 + j)]
          \<and> scalar_value (((0 * 64 + h) * 64 + i) * 64 + j)"
        by (rule encode_four) (use d in simp_all)
      have "s = utf8_encode (((0 * 64 + h) * 64 + i) * 64 + j) @ drop k s"
        using enc s l(2) d byte_eq [OF four0(1)] byte_eq [OF d(3)] byte_eq [OF d(4)] byte_eq [OF d(5)] by simp
      then show ?thesis using enc by blast
    next
      case (four a)
      from completes_into_3 [OF _ between_states(4)] l(1) four(4) obtain d f g h i j ds where
        d: "cs = d # f # g # ds" "l = 3" "unat d = 0x80 + h" "unat f = 0x80 + i" "unat g = 0x80 + j" "h < 64" "i < 64" "j < 64" by fastforce
      have enc: "utf8_encode (((a * 64 + h) * 64 + i) * 64 + j) = [of_nat (0xF0 + a), of_nat (0x80 + h), of_nat (0x80 + i), of_nat (0x80 + j)]
          \<and> scalar_value (((a * 64 + h) * 64 + i) * 64 + j)"
        by (rule encode_four) (use d four in simp_all)
      have "s = utf8_encode (((a * 64 + h) * 64 + i) * 64 + j) @ drop k s"
        using enc s l(2) d byte_eq [OF four(1)] byte_eq [OF d(3)] byte_eq [OF d(4)] byte_eq [OF d(5)] by simp
      then show ?thesis using enc by blast
    next
      case four4
      from completes_into_3 [OF _ between_states(5)] l(1) four4(2) obtain d f g h i j ds where
        d: "cs = d # f # g # ds" "l = 3" "unat d = 0x80 + h" "unat f = 0x80 + i" "unat g = 0x80 + j" "h < 64" "i < 64" "j < 64" "h < 16" by fastforce
      have enc: "utf8_encode (((4 * 64 + h) * 64 + i) * 64 + j) = [of_nat (0xF0 + 4), of_nat (0x80 + h), of_nat (0x80 + i), of_nat (0x80 + j)]
          \<and> scalar_value (((4 * 64 + h) * 64 + i) * 64 + j)"
        by (rule encode_four) (use d in simp_all)
      have "s = utf8_encode (((4 * 64 + h) * 64 + i) * 64 + j) @ drop k s"
        using enc s l(2) d byte_eq [OF four4(1)] byte_eq [OF d(3)] byte_eq [OF d(4)] byte_eq [OF d(5)] by simp
      then show ?thesis using enc by blast
    qed
  qed
qed

section \<open>The checker is right\<close>

lemma utf8_text_empty: "utf8_text []"
  unfolding utf8_text_def by (rule exI [of _ "[]"]) simp

lemma utf8_text_char: "scalar_value cp \<Longrightarrow> utf8_text s \<Longrightarrow> utf8_text (utf8_encode cp @ s)"
  unfolding utf8_text_def by (metis concat.simps(2) list.simps(9) set_ConsD)

lemma chars_length_text: "utf8_text s \<Longrightarrow> chars_length (s @ t) = length s + chars_length t"
proof -
  have "chars_length (concat (map utf8_encode cps) @ t) = length (concat (map utf8_encode cps)) + chars_length t"
    if "\<forall>cp\<in>set cps. scalar_value cp" for cps
    using that
  proof (induction cps)
    case (Cons cp cps)
    have "completes 0 (utf8_encode cp @ concat (map utf8_encode cps) @ t) = Some (length (utf8_encode cp))"
      using encode_completes Cons.prems by simp
    then show ?case using Cons by (simp add: chars_length.simps [of "utf8_encode cp @ concat (map utf8_encode cps) @ t"])
  qed simp
  then show "utf8_text s \<Longrightarrow> ?thesis" by (auto simp: utf8_text_def)
qed

lemma chars_length_is_text: "chars_length s \<le> length s \<and> utf8_text (take (chars_length s) s)"
proof (induction "length s" arbitrary: s rule: less_induct)
  case less
  show ?case
  proof (cases "completes 0 s")
    case None
    then show ?thesis by (simp add: chars_length.simps [of s] utf8_text_empty)
  next
    case (Some k)
    obtain cp where cp: "scalar_value cp" "s = utf8_encode cp @ drop k s" using completes_is_char [OF Some] by blast
    have k: "0 < k" "k \<le> length s" using completes_bounds [OF Some] by simp_all
    have len: "length (utf8_encode cp) = k" using arg_cong [OF cp(2), of length] k(2) by simp
    have ih: "chars_length (drop k s) \<le> length (drop k s)" "utf8_text (take (chars_length (drop k s)) (drop k s))"
      using less [of "drop k s"] k by simp_all
    have n: "chars_length s = k + chars_length (drop k s)" using Some by (simp add: chars_length.simps [of s])
    have "take k s = utf8_encode cp" using cp(2) len by (metis append_eq_conv_conj)
    then have "take (chars_length s) s = utf8_encode cp @ take (chars_length (drop k s)) (drop k s)" by (simp add: n take_add)
    then show ?thesis using utf8_text_char [OF cp(1) ih(2)] ih(1) n k(2) by simp
  qed
qed

text \<open>The number of bytes that the scanner reports is the longest beginning of the text that is UTF-8.\<close>

lemma longest_text:
  "let n = snd (UTF8GenericScanFastAscii base s) in
    n \<le> length s \<and> utf8_text (take n s) \<and> (\<forall>k\<le>length s. utf8_text (take k s) \<longrightarrow> k \<le> n)"
proof -
  have "k \<le> chars_length s" if "k \<le> length s" "utf8_text (take k s)" for k
    using chars_length_text [OF that(2), of "drop k s"] that(1) by simp
  then show ?thesis using chars_length_is_text [of s] by (simp add: FastAscii_chars)
qed

text \<open>
  C16. The checker accepts a text, wherever it is in memory, exactly when it is the encoding of Unicode scalar
  values.
\<close>

theorem utf8_checker_correct: "IsStructurallyValidUTF8 True base s \<longleftrightarrow> utf8_text s"
proof
  assume "IsStructurallyValidUTF8 True base s"
  then have "chars_length s = length s" by (simp add: IsStructurallyValidUTF8_def FastAscii_chars)
  then show "utf8_text s" using chars_length_is_text [of s] by simp
next
  assume "utf8_text s"
  then have "chars_length s = length s" using chars_length_text [of s "[]"] by (simp add: chars_length.simps)
  then show "IsStructurallyValidUTF8 True base s" by (simp add: IsStructurallyValidUTF8_def FastAscii_chars)
qed

end
