(* ===== verification/Spec2Isabelle.thy ===== *)
theory Spec2Isabelle
  imports Server_Failures Game_Wire Message_Streams Socket_Helpers Strutil_Escape Strutil_Numbers Strutil_Text
    Copying_Output Repeated_Messages Utf8_Proofs
begin

text \<open>
  Verification of the game server of IslandSurvival (\<^verbatim>\<open>src/Server\<close>): a single-threaded C++ server that accepts
  clients over TCP, lets them log in, gather in rooms, and plays their moves back to everyone in the room in
  lock step. Beside the server's own code (\<^verbatim>\<open>Include\<close>, \<^verbatim>\<open>Frame\<close>, \<^verbatim>\<open>MessageProcessor\<close>) the repository holds the
  protocol buffer library it is built with (\<^verbatim>\<open>google/protobuf\<close>), whose run time part is verified as well.

  \<^bold>\<open>The parts of the program, and the theories that model them.\<close> A message travels upwards through these layers
  and its answers travel down again.

  \<^item> \<open>Prelude\<close>: machine types, faults, the state monad with faults, weakest preconditions, checked arrays and
    byte memory, \<^verbatim>\<open>std::map\<close> and \<^verbatim>\<open>std::set\<close> as ordered lists with their contract, the locale \<open>std_map\<close>.
  \<^item> \<open>Os_Env\<close>: the kernel and the clock, whose answers are parameters, and a trace of what the process did
    (\<^verbatim>\<open>Include/server_base.cpp\<close>, \<^verbatim>\<open>set_non_block\<close>). \<open>Socket_Helpers\<close>: the rest of \<^verbatim>\<open>Include/server_socket.cpp\<close>.
  \<^item> \<open>Tcp_Socket\<close>: the buffered socket \<^verbatim>\<open>Include/server_tcpsocket.cpp\<close>. \<open>Tcp_Stream\<close>: both buffers are
    first-in-first-out queues (locale \<open>byte_fifo\<close>), receiving and sending keep the byte streams whole.
    \<open>Framing\<close>: \<^verbatim>\<open>get_one_message\<close> cuts the stream into the frames that were sent.
  \<^item> \<open>CMessage_Codec\<close>: the 16 byte head and the frame (\<^verbatim>\<open>Include/CMessage.cpp\<close>), over any protocol buffer code
    that satisfies the locale \<open>proto_codec\<close>. \<open>Proto_Messages\<close>: the messages and fields of
    \<^verbatim>\<open>protocol/proto_islandsurvival.proto\<close>.
  \<^item> \<open>Syn\<close>, \<open>Syn_Proofs\<close>: the ring of frames of a running game (\<^verbatim>\<open>Frame/syn.cpp\<close>).
  \<^item> \<open>World\<close>: one record for the members of all singletons, which call each other freely. \<open>Person_Data\<close>:
    \<^verbatim>\<open>Frame/person.cpp\<close>, \<^verbatim>\<open>Frame/person_manager.cpp\<close>. \<open>Handler_Send\<close>: the sending half of
    \<^verbatim>\<open>Frame/message_handler.cpp\<close>. \<open>Game_Room\<close>: \<^verbatim>\<open>Frame/room.cpp\<close>. \<open>Room_Manager\<close>:
    \<^verbatim>\<open>Frame/room_manager.cpp\<close>. \<open>Heartbeat\<close>: \<^verbatim>\<open>Frame/heartbeat.cpp\<close>. \<open>Disconnect\<close>: removing a client, the
    mutual recursion through all of these. \<open>Login_Db\<close>: \<^verbatim>\<open>Frame/login.cpp\<close> over a database that is a parameter.
    \<open>Message_Register\<close>: \<^verbatim>\<open>Frame/message_processor_register.cpp\<close>. \<open>Processors\<close>: the sixteen processors.
    \<open>Message_Handler\<close>: the receiving half of the handler and \<^verbatim>\<open>Frame/server_main.cpp\<close>.
  \<^item> \<open>Disconnect_Knot\<close>, \<open>Disconnect_Ends\<close>, \<open>Room_Proofs\<close>, \<open>Server_Inv\<close>, \<open>Server_Safety\<close>, \<open>Room_Safety\<close>, \<open>Server_Core\<close>,
    \<open>Server_Tick\<close>, \<open>Manager_Proofs\<close>, \<open>Receive_Progress\<close>, \<open>Handler_Proofs\<close>, \<open>Server_Proofs\<close>, \<open>Main_Proofs\<close>: the
    invariant of the server and that every operation keeps it. \<open>Server_Theorems\<close> holds the properties of the
    server, \<open>Server_Failures\<close> those of the requests that end in undefined behaviour or are lost.
  \<^item> \<open>Varint\<close>, \<open>Coded_Input\<close>, \<open>Coded_Input_Proofs\<close>, \<open>Coded_Output\<close>: \<^verbatim>\<open>io/coded_stream.*\<close>. \<open>Array_Streams\<close>: the
    array streams of \<^verbatim>\<open>io/zero_copy_stream_impl_lite.cc\<close> (locale \<open>zero_copy_stream\<close>). \<open>Wire_Lite\<close>,
    \<open>Wire_Lite_Proofs\<close>: \<^verbatim>\<open>wire_format_lite*\<close>. \<open>Wire_Format\<close>: \<^verbatim>\<open>wire_format.cc\<close> and what it uses of reflection;
    \<open>Wire_Parse\<close>: parsing is safe (locale \<open>tag_loop\<close>, shared by parsing and skipping); \<open>Wire_Bytes\<close>: the bytes of
    a message; \<open>Wire_Round_Trip\<close>: parsing them. \<open>Message_Lite\<close>: \<^verbatim>\<open>message_lite.cc\<close>. \<open>Message_Types\<close>: what is
    parsed is well typed. \<open>Message_Merge\<close>: merging and copying (\<^verbatim>\<open>reflection_ops.cc\<close>); parsing a concatenation
    is merging. \<open>Unknown_Fields\<close>: \<^verbatim>\<open>unknown_field_set.cc\<close>. \<open>Stream_Adaptors\<close>: limited and concatenated streams over
    any stream that keeps the contract (locales \<open>zero_copy_input\<close>, \<open>zero_copy_array\<close>); \<open>Message_Streams\<close>: messages
    read through them. \<open>Copying_Input\<close>, \<open>Copying_Output\<close>: the adaptors from copying streams to streams of blocks
    (\<^verbatim>\<open>io/zero_copy_stream_impl_lite.cc\<close>) and the file streams (\<^verbatim>\<open>io/zero_copy_stream_impl.cc\<close>). \<open>Repeated_Field\<close>:
    arrays of scalars (\<^verbatim>\<open>repeated_field.h\<close>) are lists; \<open>Repeated_Ptr_Field\<close>, \<open>Repeated_Ptr_Proofs\<close>: arrays of owned
    objects over a heap, for any element type that keeps the locale \<open>type_handler\<close>; \<open>Repeated_Messages\<close>: which
    messages do. \<open>Utf8_Valid\<close>: the table-driven UTF-8 checker (\<^verbatim>\<open>stubs/structurally_valid.cc\<close>); \<open>Utf8_Proofs\<close>: what
    it accepts. \<open>Strutil_Escape\<close>, \<open>Strutil_Numbers\<close>, \<open>Strutil_Text\<close>: \<^verbatim>\<open>stubs/strutil.*\<close>, with \<open>Decimal_Text\<close> as the
    reference for printed numbers. \<open>Game_Wire\<close>: the game's protocol on this runtime, which discharges \<open>proto_codec\<close>.

  \<^bold>\<open>State and operations.\<close> A method is a function of its object's record, the operating system and, where it
  reaches other objects, the whole \<open>world\<close>; it returns \<open>Inl\<close> a fault or \<open>Inr\<close> the result with the new state. A
  fault stands for what the C++ leaves undefined (null pointers, array bounds, uninitialised members,
  dangling iterators) and for failing assertions; error codes and \<^verbatim>\<open>false\<close> are ordinary results. Constants,
  fields and functions have the names of the source; a function of several classes carries its class as
  prefix (\<open>Room_AddPlayer\<close>, \<open>CIS_Skip\<close>). A \<^verbatim>\<open>Room*\<close> is an index into the rooms ever allocated. Pointers to
  objects owned by one container are the objects themselves.

  \<^bold>\<open>What the lemmas show.\<close>

  \<^item> Bytes: sockets lose, repeat and reorder nothing and stay inside their buffers; frames are cut where they
    were joined; the head codec is a bijection; the unrolled varint code equals the loops it replaces; coded
    streams behave as one byte string whatever their blocks.
  \<^item> Messages: the serialiser writes what \<^verbatim>\<open>ByteSize\<close> announced; the parser reads it back, blocks cut anywhere;
    on arbitrary bytes it ends, reads nothing out of bounds and leaves a message of the declared type.
  \<^item> Containers: repeated fields behave as lists under every sequence of calls; those of messages use no deleted
    object and free all they allocate.
  \<^item> Text: printed integers are what plain division by ten gives, or the overflow where the code has one;
    unescaping undoes escaping; joining undoes splitting; the UTF-8 checker accepts exactly the encodings of
    scalar values.
  \<^item> Frames: the ring refines a map from frame numbers to queues, and a run of the clock sends the due ones.
  \<^item> Server: an invariant ties rooms, memberships, connections, persons and heartbeats together; every
    operation keeps it, so all reachable states satisfy it, for every behaviour of clients, kernel and
    database. The only faults are those of \<open>crash\<close> in \<open>Handler_Proofs\<close>; \<open>Server_Failures\<close> shows how
    clients cause them.
  \<^item> Termination: the recursion of removing clients (\<open>Disconnect_Ends\<close>: its bound is never reached), the loops of heartbeat, rooms, messages and main rounds.

  \<^bold>\<open>Bounds.\<close> Loops whose end depends on more than their data have a bound, and that it suffices is proved, never
  assumed: \<open>DeleteClientByFD\<close> may go one level deeper than there are connections, as every level removes one
  (\<open>Disconnect_Knot\<close>, \<open>Disconnect_Ends\<close>); the loop over a client's messages has one round more than unread bytes, as a round takes
  at least one and no processor adds any (\<open>Receive_Progress\<close>); the heartbeat loop has one round more than
  entries; the loop of \<^verbatim>\<open>SYN::Run\<close> checks a measure whose decrease is proved in \<open>Server_Core\<close>; the parsers
  have one tag more than bytes (\<open>Wire_Parse\<close>). \<^verbatim>\<open>int32_t\<close> values that are only compared and counted are
  integers; the head, hashes, clocks, tags and all values on the wire have their width.

  \<^bold>\<open>Outside the model, as parameters.\<close> The kernel's answers, the clock, the database's answers, the memory a
  buffer starts with, the descriptors of message types. The properties about message types assume what the
  compiler of \<^verbatim>\<open>.proto\<close> files guarantees of descriptors (\<open>pool_ok\<close>: distinct valid numbers, only packable
  fields packed); for the game's protocol this is proved.

  \<^bold>\<open>Choices.\<close> Sizes of messages are unbounded integers, the theorems bound them below 64 MB or \<^verbatim>\<open>INT_MAX\<close>. A message is
  sized before it is serialised and not changed in between, so its cached size is \<^verbatim>\<open>ByteSize\<close>. Floats are their
  bits. Log output is left out. Reflection is modelled by its effect on the fields that are set. Signed overflow is
  the fault \<open>IntOverflow\<close> in \<open>Strutil_Numbers\<close>, where it happens on ordinary input. Elsewhere counts, lengths and
  capacities held in \<^verbatim>\<open>int\<close>s are unbounded integers, which stands for fewer than \<^verbatim>\<open>INT_MAX\<close> of what is counted: the
  sums in \<^verbatim>\<open>RepeatedField::MergeFrom\<close> and \<^verbatim>\<open>Reserve\<close>, the buffer of \<^verbatim>\<open>CEscape\<close>; the doubling of a capacity alone is cut to
  32 bits, so that a growth past the last doubling takes the size asked for. Sets of unknown fields are values, so
  that \<^verbatim>\<open>DeepCopy\<close> is the identity and deleting a field's memory leaves no trace. A reader that fails before it
  touches its string returns an empty one, which no caller looks at.

  \<^bold>\<open>Not modelled.\<close> Of the library: the compiler of \<^verbatim>\<open>.proto\<close> files, the building of descriptors
  (\<^verbatim>\<open>descriptor.cc\<close>), text format, tokenizer, extensions and message sets, services, compression, the
  generated code of its own descriptors, and its tests: the server does not run them. The classes generated
  from the game's protocol are not in the repository; the reflective runtime stands for them, as both
  implement the same wire format.
\<close>

end
